(* ===== verification/Prelude.thy ===== *)
theory Prelude
  imports Main "HOL-Library.Word" "HOL-Library.AList" "HOL-Library.Char_ord"
    "HOL-Library.List_Lexorder" "HOL-Library.Monad_Syntax"
begin

text \<open>
  Shared vocabulary of the development: the machine types of the Rust code, the outcome of
  a fallible call (\<open>Ok\<close>, \<open>Err\<close>, or a panic), byte slices with Rust's bounds checks,
  little-endian integers, UTF-8 checking, hash maps as association lists, and files.

  \<^item> \<open>u8\<close>, \<open>u16\<close>, \<open>u32\<close>, \<open>u64\<close> are words, so \<open>+\<close> and \<open>*\<close> wrap as they do
    in the release profile of the crate (no \<open>overflow-checks\<close>); \<open>usize\<close> values (lengths,
    offsets, counters of a container) are \<open>nat\<close>.
  \<^item> A Rust \<open>String\<close> is a \<open>string\<close> holding its UTF-8 bytes; \<open>str\<close> comparison is the
    lexicographic order of \<open>List_Lexorder\<close> on \<open>char\<close>.
  \<^item> \<open>option\<close> is also used for a computation that may panic: \<open>None\<close> is the panic of an
    out-of-range slice or index.
\<close>

named_theorems bytes_simps \<open>facts about byte slices and little-endian integers\<close>
named_theorems const_defs \<open>the numeric constants of constants.rs\<close>
named_theorems res_simps \<open>unfolding of the outcome combinators\<close>


subsection \<open>Machine types\<close>

type_synonym u8 = "8 word"
type_synonym u16 = "16 word"
type_synonym u32 = "32 word"
type_synonym u64 = "64 word"
type_synonym bytes = "u8 list"
type_synonym page_num = u64
type_synonym tx_id = u64


subsection \<open>Decimal printing, as \<open>format!\<close> prints integers\<close>

fun show_nat :: "nat \<Rightarrow> string" where
  "show_nat n = (if n < 10 then [char_of (48 + n)]
                 else show_nat (n div 10) @ [char_of (48 + n mod 10)])"

declare show_nat.simps [simp del]

abbreviation show_u64 :: "u64 \<Rightarrow> string" where
  "show_u64 w \<equiv> show_nat (unat w)"


subsection \<open>Byte slices with bounds checks\<close>

text \<open>\<open>&data[off..off + n]\<close>: panics when the end is past the slice.\<close>

definition get_bytes :: "nat \<Rightarrow> nat \<Rightarrow> bytes \<Rightarrow> bytes option" where
  "get_bytes off n data =
     (if off + n \<le> length data then Some (take n (drop off data)) else None)"

text \<open>\<open>data[off..off + src.len()].copy_from_slice(src)\<close>.\<close>

definition put_bytes :: "nat \<Rightarrow> bytes \<Rightarrow> bytes \<Rightarrow> bytes option" where
  "put_bytes off src data =
     (if off + length src \<le> length data
      then Some (take off data @ src @ drop (off + length src) data) else None)"

text \<open>A write at the running \<open>offset\<close> of a serialiser, which then moves past it.\<close>

definition emit :: "bytes \<Rightarrow> nat \<times> bytes \<Rightarrow> (nat \<times> bytes) option" where
  "emit src st = (case st of (off, data) \<Rightarrow>
     map_option (\<lambda>d. (off + length src, d)) (put_bytes off src data))"


subsection \<open>Little-endian integers\<close>

fun le_enc :: "nat \<Rightarrow> nat \<Rightarrow> bytes" where
  "le_enc 0 v = []"
| "le_enc (Suc n) v = word_of_nat (v mod 256) # le_enc n (v div 256)"

fun le_dec :: "bytes \<Rightarrow> nat" where
  "le_dec [] = 0"
| "le_dec (b # bs) = unat b + 256 * le_dec bs"

definition u16_to_le :: "u16 \<Rightarrow> bytes" where "u16_to_le w = le_enc 2 (unat w)"
definition u32_to_le :: "u32 \<Rightarrow> bytes" where "u32_to_le w = le_enc 4 (unat w)"
definition u64_to_le :: "u64 \<Rightarrow> bytes" where "u64_to_le w = le_enc 8 (unat w)"
definition u16_from_le :: "bytes \<Rightarrow> u16" where "u16_from_le bs = word_of_nat (le_dec bs)"
definition u32_from_le :: "bytes \<Rightarrow> u32" where "u32_from_le bs = word_of_nat (le_dec bs)"
definition u64_from_le :: "bytes \<Rightarrow> u64" where "u64_from_le bs = word_of_nat (le_dec bs)"


subsection \<open>Strings and UTF-8\<close>

definition as_bytes :: "string \<Rightarrow> bytes" where
  "as_bytes s = map of_char s"

definition bytes_to_string :: "bytes \<Rightarrow> string" where
  "bytes_to_string bs = map (\<lambda>b. char_of (unat b)) bs"

definition cont_byte :: "u8 \<Rightarrow> bool" where
  "cont_byte b \<longleftrightarrow> 128 \<le> b \<and> b \<le> 191"

text \<open>The well-formed UTF-8 sequences (Unicode, table 3-7), as \<open>String::from_utf8\<close> checks them.\<close>

fun utf8_valid :: "bytes \<Rightarrow> bool" where
  "utf8_valid [] = True"
| "utf8_valid (a # r) =
    (if a \<le> 127 then utf8_valid r
     else if 194 \<le> a \<and> a \<le> 223 then
       (case r of b # r' \<Rightarrow> cont_byte b \<and> utf8_valid r' | _ \<Rightarrow> False)
     else if 224 \<le> a \<and> a \<le> 239 then
       (case r of b # c # r' \<Rightarrow>
          (if a = 224 then 160 \<le> b \<and> b \<le> 191
           else if a = 237 then 128 \<le> b \<and> b \<le> 159 else cont_byte b)
          \<and> cont_byte c \<and> utf8_valid r'
        | _ \<Rightarrow> False)
     else if 240 \<le> a \<and> a \<le> 244 then
       (case r of b # c # d # r' \<Rightarrow>
          (if a = 240 then 144 \<le> b \<and> b \<le> 191
           else if a = 244 then 128 \<le> b \<and> b \<le> 143 else cont_byte b)
          \<and> cont_byte c \<and> cont_byte d \<and> utf8_valid r'
        | _ \<Rightarrow> False)
     else False)"

text \<open>\<open>String::from_utf8\<close>: \<open>None\<close> is its \<open>Err\<close>.\<close>

definition from_utf8 :: "bytes \<Rightarrow> string option" where
  "from_utf8 bs = (if utf8_valid bs then Some (bytes_to_string bs) else None)"

text \<open>A \<open>string\<close> that a Rust \<open>String\<close> can hold.\<close>

definition rust_string :: "string \<Rightarrow> bool" where
  "rust_string s = utf8_valid (as_bytes s)"


subsection \<open>Hash maps\<close>

text \<open>
  A \<open>HashMap\<close> is an association list with distinct keys; its order stands for the
  unspecified iteration order. \<open>insert\<close> and \<open>remove\<close> are those of \<open>AList\<close>.
\<close>

type_synonym ('k, 'v) hmap = "('k \<times> 'v) list"

abbreviation hm_ok :: "('k, 'v) hmap \<Rightarrow> bool" where
  "hm_ok m \<equiv> distinct (map fst m)"

abbreviation hm_get :: "('k, 'v) hmap \<Rightarrow> 'k \<Rightarrow> 'v option" where
  "hm_get m k \<equiv> map_of m k"

abbreviation hm_insert :: "'k \<Rightarrow> 'v \<Rightarrow> ('k, 'v) hmap \<Rightarrow> ('k, 'v) hmap" where
  "hm_insert k v m \<equiv> AList.update k v m"

abbreviation hm_remove :: "'k \<Rightarrow> ('k, 'v) hmap \<Rightarrow> ('k, 'v) hmap" where
  "hm_remove k m \<equiv> AList.delete k m"

definition hm_contains :: "('k, 'v) hmap \<Rightarrow> 'k \<Rightarrow> bool" where
  "hm_contains m k \<longleftrightarrow> map_of m k \<noteq> None"


subsection \<open>Lemmas\<close>

lemma unat_bound: "unat (w :: 'a::len word) < 2 ^ LENGTH('a)"
  by (rule unsigned_less)

lemma get_bytes_Some_iff:
  "get_bytes off n data = Some r \<longleftrightarrow> off + n \<le> length data \<and> r = take n (drop off data)"
  by (auto simp: get_bytes_def)

lemma get_bytes_None_iff: "get_bytes off n data = None \<longleftrightarrow> length data < off + n"
  by (auto simp: get_bytes_def)

lemma length_get_bytes: "get_bytes off n data = Some r \<Longrightarrow> length r = n"
  by (auto simp: get_bytes_def split: if_splits)

lemma put_bytes_Some_iff:
  "put_bytes off src data = Some d \<longleftrightarrow>
     off + length src \<le> length data \<and> d = take off data @ src @ drop (off + length src) data"
  by (auto simp: put_bytes_def)

lemma length_put_bytes: "put_bytes off src data = Some d \<Longrightarrow> length d = length data"
  by (auto simp: put_bytes_def split: if_splits)

lemma put_bytes_exists:
  "off + length src \<le> length data \<Longrightarrow> \<exists>d. put_bytes off src data = Some d"
  by (simp add: put_bytes_def)

lemma get_put_same:
  "put_bytes off src data = Some d \<Longrightarrow> get_bytes off (length src) d = Some src"
  by (auto simp: put_bytes_Some_iff get_bytes_Some_iff)

text \<open>A read that does not meet the written range sees the old bytes.\<close>

lemma get_put_other:
  assumes p: "put_bytes off src data = Some d"
    and disj: "off' + n \<le> off \<or> off + length src \<le> off'"
  shows "get_bytes off' n d = get_bytes off' n data"
proof -
  have len: "off + length src \<le> length data"
    and d: "d = take off data @ src @ drop (off + length src) data"
    using p by (auto simp: put_bytes_Some_iff)
  have ld: "length d = length data" using p by (rule length_put_bytes)
  show ?thesis
  proof (cases "off' + n \<le> length data")
    case True
    have nth: "\<And>i. i < length data \<Longrightarrow> i < off \<or> off + length src \<le> i \<Longrightarrow> d ! i = data ! i"
      using len unfolding d by (auto simp: nth_append)
    have "take n (drop off' d) = take n (drop off' data)"
      using True ld disj nth by (intro nth_equalityI) auto
    then show ?thesis using True ld by (simp add: get_bytes_def)
  next
    case False
    then show ?thesis using ld by (simp add: get_bytes_def)
  qed
qed

lemma length_le_enc [simp, bytes_simps]: "length (le_enc n v) = n"
  by (induction n arbitrary: v) auto

lemma le_dec_enc: "le_dec (le_enc n v) = v mod 256 ^ n"
proof (induction n arbitrary: v)
  case 0
  then show ?case by simp
next
  case (Suc n)
  have "le_dec (le_enc (Suc n) v) = v mod 256 + 256 * ((v div 256) mod 256 ^ n)"
    using Suc.IH by (simp add: unat_of_nat)
  also have "\<dots> = v mod (256 * 256 ^ n)"
    by (simp add: mod_mult2_eq)
  finally show ?case by simp
qed

lemma le_enc_dec: "length bs = n \<Longrightarrow> le_enc n (le_dec bs) = bs"
proof (induction bs arbitrary: n)
  case Nil
  then show ?case by simp
next
  case (Cons b bs)
  have b: "unat b < 256" using unat_bound [of b] by simp
  have m: "(unat b + 256 * le_dec bs) mod 256 = unat b" using b by simp
  have d: "(unat b + 256 * le_dec bs) div 256 = le_dec bs" using b by simp
  from Cons b show ?case by (auto simp: m d)
qed

lemma le_dec_less: "le_dec bs < 256 ^ length bs"
proof (induction bs)
  case Nil
  then show ?case by simp
next
  case (Cons b bs)
  have "unat b < 256" using unat_bound [of b] by simp
  with Cons show ?case by simp
qed

lemma le_enc_zero: "le_enc n 0 = replicate n 0"
  by (induction n) auto

lemma le_dec_replicate_zero: "le_dec (replicate n 0) = 0"
  by (induction n) auto

lemma get_bytes_append_right [bytes_simps]:
  "length xs \<le> off \<Longrightarrow> get_bytes off n (xs @ ys) = get_bytes (off - length xs) n ys"
  by (auto simp: get_bytes_def)

lemma get_bytes_append_left [bytes_simps]:
  "length xs = n \<Longrightarrow> get_bytes 0 n (xs @ ys) = Some xs"
  by (auto simp: get_bytes_def)

lemma get_bytes_whole [bytes_simps]: "length xs = n \<Longrightarrow> get_bytes 0 n xs = Some xs"
  by (auto simp: get_bytes_def)

text \<open>Consecutive writes at a running offset are one write of the concatenation.\<close>

lemma emit_emit: "Option.bind (emit xs st) (emit ys) = emit (xs @ ys) st"
  by (auto simp: emit_def put_bytes_def add_ac split: prod.splits)

lemma emit_Some_iff:
  "emit src (off, data) = Some st \<longleftrightarrow>
     off + length src \<le> length data \<and>
     st = (off + length src, take off data @ src @ drop (off + length src) data)"
  by (auto simp: emit_def put_bytes_def)


subsection \<open>Fixed-width codecs\<close>

text \<open>
  What the storage code relies on from \<open>to_le_bytes\<close> and \<open>from_le_bytes\<close>: a fixed width and
  mutual inverses. Every field of a page is written and read through an instance.
\<close>

locale fixed_codec =
  fixes width :: nat
    and enc :: "'a \<Rightarrow> bytes"
    and dec :: "bytes \<Rightarrow> 'a"
  assumes length_enc: "length (enc x) = width"
    and dec_enc: "dec (enc x) = x"
    and enc_dec: "length bs = width \<Longrightarrow> enc (dec bs) = bs"
begin

lemma enc_inject: "enc x = enc y \<longleftrightarrow> x = y"
  by (metis dec_enc)

lemma read_back:
  assumes "put_bytes off (enc x) data = Some d"
  shows "map_option dec (get_bytes off width d) = Some x"
  using get_put_same [OF assms] by (simp add: length_enc dec_enc)

lemma read_head: "map_option dec (get_bytes 0 width (enc x @ ys)) = Some x"
  by (simp add: get_bytes_def length_enc dec_enc)

lemma bytes_eq_enc: "length bs = width \<Longrightarrow> dec bs = x \<longleftrightarrow> bs = enc x"
  by (metis dec_enc enc_dec)

end

interpretation le16: fixed_codec 2 u16_to_le u16_from_le
proof
  show "length (u16_to_le x) = 2" for x by (simp add: u16_to_le_def)
  show "u16_from_le (u16_to_le x) = x" for x
    using unat_bound [of x] by (simp add: u16_from_le_def u16_to_le_def le_dec_enc)
  show "u16_to_le (u16_from_le bs) = bs" if "length bs = 2" for bs
    using that le_dec_less [of bs]
    by (simp add: u16_from_le_def u16_to_le_def unat_of_nat le_enc_dec)
qed

interpretation le32: fixed_codec 4 u32_to_le u32_from_le
proof
  show "length (u32_to_le x) = 4" for x by (simp add: u32_to_le_def)
  show "u32_from_le (u32_to_le x) = x" for x
    using unat_bound [of x] by (simp add: u32_from_le_def u32_to_le_def le_dec_enc)
  show "u32_to_le (u32_from_le bs) = bs" if "length bs = 4" for bs
    using that le_dec_less [of bs]
    by (simp add: u32_from_le_def u32_to_le_def unat_of_nat le_enc_dec)
qed

interpretation le64: fixed_codec 8 u64_to_le u64_from_le
proof
  show "length (u64_to_le x) = 8" for x by (simp add: u64_to_le_def)
  show "u64_from_le (u64_to_le x) = x" for x
    using unat_bound [of x] by (simp add: u64_from_le_def u64_to_le_def le_dec_enc)
  show "u64_to_le (u64_from_le bs) = bs" if "length bs = 8" for bs
    using that le_dec_less [of bs]
    by (simp add: u64_from_le_def u64_to_le_def unat_of_nat le_enc_dec)
qed

lemmas codec_simps [simp, bytes_simps] =
  le16.length_enc le16.dec_enc le32.length_enc le32.dec_enc le64.length_enc le64.dec_enc

lemma u64_to_le_zero: "u64_to_le 0 = replicate 8 0"
  by (simp add: u64_to_le_def le_enc_zero)

lemma u64_from_le_zeros: "u64_from_le (replicate n 0) = 0"
  by (simp add: u64_from_le_def le_dec_replicate_zero)


subsection \<open>Strings\<close>

lemma length_as_bytes [simp]: "length (as_bytes s) = length s"
  by (simp add: as_bytes_def)

lemma unat_of_char: "unat (of_char c :: u8) = of_char c"
proof -
  have "(of_char c :: nat) < 256" by (cases c) simp
  then have "unat (word_of_nat (of_char c) :: u8) = of_char c"
    by (simp add: unat_of_nat)
  then show ?thesis by (metis of_nat_of_char)
qed

lemma bytes_to_string_as_bytes [simp]: "bytes_to_string (as_bytes s) = s"
  by (induction s) (auto simp: bytes_to_string_def as_bytes_def unat_of_char)

lemma from_utf8_as_bytes: "rust_string s \<Longrightarrow> from_utf8 (as_bytes s) = Some s"
  by (simp add: from_utf8_def rust_string_def)


subsection \<open>Hash maps\<close>

lemma hm_get_insert [simp]:
  "hm_get (hm_insert k v m) k' = (if k' = k then Some v else hm_get m k')"
  by (simp add: update_conv')

lemma hm_get_remove [simp]:
  "hm_get (hm_remove k m) k' = (if k' = k then None else hm_get m k')"
  by (simp add: delete_conv')

lemma hm_ok_insert [simp, intro]: "hm_ok m \<Longrightarrow> hm_ok (hm_insert k v m)"
  by (rule distinct_update)

lemma hm_ok_remove [simp, intro]: "hm_ok m \<Longrightarrow> hm_ok (hm_remove k m)"
  by (rule distinct_delete)

lemma hm_keys: "hm_get m k \<noteq> None \<longleftrightarrow> k \<in> fst ` set m"
  by (simp add: map_of_eq_None_iff)

lemma length_hm_insert_new:
  "hm_get m k = None \<Longrightarrow> length (hm_insert k v m) = Suc (length m)"
  by (induction m) (auto split: if_splits)

lemma length_hm_insert_old:
  "hm_get m k = Some w \<Longrightarrow> length (hm_insert k v m) = length m"
  by (induction m) (auto split: if_splits)

lemma length_hm_remove:
  "hm_ok m \<Longrightarrow> hm_get m k = Some w \<Longrightarrow> Suc (length (hm_remove k m)) = length m"
proof (induction m)
  case Nil
  then show ?case by simp
next
  case (Cons x m)
  show ?case
  proof (cases "fst x = k")
    case True
    with Cons.prems have "AList.delete k m = m"
      by (auto simp: delete_id)
    with True show ?thesis by (cases x) (simp add: AList.delete_eq)
  next
    case False
    with Cons show ?thesis by (cases x) (auto simp: AList.delete_eq split: if_splits)
  qed
qed

lemma utf8_valid_ascii: "utf8_valid (replicate n 97)"
  by (induction n) simp_all

end
