(* ===== verification/Outcome.thy ===== *)
theory Outcome
  imports Prelude
begin

text \<open>
  The constants of \<open>src/core/constants.rs\<close>, the error type of \<open>src/core/errors.rs\<close> and the
  outcome of a fallible call.

  A function of type \<open>Result<T>\<close> has the outcome \<open>Ok\<close>, \<open>Err\<close> or \<open>Panic\<close>; one that also
  changes the state of its receiver returns the outcome paired with the new state, so that
  the effects made before an early return are kept. \<open>res_bind\<close> and \<open>and_then\<close> are the
  operator \<open>?\<close>. \<open>PoisonError\<close> and \<open>recover_poison\<close> are not represented: a lock is
  poisoned only by a thread that panicked while it held it, and a panic ends the model.
\<close>


subsection \<open>constants.rs\<close>

definition PAGE_SIZE :: nat where [const_defs]: "PAGE_SIZE = 4096"
definition VERSION :: u32 where [const_defs]: "VERSION = 1"
definition MAGIC :: bytes where "MAGIC = as_bytes ''DEVI''"
definition WAL_MAGIC :: bytes where "WAL_MAGIC = as_bytes ''WLOG''"
definition DEFAULT_CACHE_SIZE :: nat where [const_defs]: "DEFAULT_CACHE_SIZE = 1000"
definition BTREE_ORDER :: nat where [const_defs]: "BTREE_ORDER = 50"
definition MIN_KEYS :: nat where [const_defs]: "MIN_KEYS = BTREE_ORDER div 2"
definition WAL_HEADER_SIZE :: nat where [const_defs]: "WAL_HEADER_SIZE = 32"
definition WAL_FRAME_SIZE :: nat where [const_defs]: "WAL_FRAME_SIZE = PAGE_SIZE + 28"
definition DOC_ID_LEN_SIZE :: nat where [const_defs]: "DOC_ID_LEN_SIZE = 2"
definition DATA_LEN_SIZE :: nat where [const_defs]: "DATA_LEN_SIZE = 4"
definition OVERFLOW_SIZE :: nat where [const_defs]: "OVERFLOW_SIZE = 8"
definition XMIN_SIZE :: nat where [const_defs]: "XMIN_SIZE = 8"
definition XMAX_SIZE :: nat where [const_defs]: "XMAX_SIZE = 8"
definition MAX_OVERFLOW_DATA :: nat where [const_defs]: "MAX_OVERFLOW_DATA = PAGE_SIZE - OVERFLOW_SIZE"
definition MAX_OVERFLOW_CHAIN_LENGTH :: nat where [const_defs]: "MAX_OVERFLOW_CHAIN_LENGTH = 250000"

text \<open>\<open>page_num * PAGE_SIZE as u64\<close>, with its 64-bit wrap-around.\<close>

definition page_offset :: "page_num \<Rightarrow> nat" where
  "page_offset p = unat (p * word_of_nat PAGE_SIZE)"


subsection \<open>errors.rs\<close>

datatype error =
    TxNotActive | TxAlreadyDone | TxConflict
  | DatabaseAlreadyOpen | DatabaseClosed | DatabaseReadOnly string | DatabaseReferenceNotSet
  | CollectionNameEmpty | CollectionNameTooLong | CollectionNameInvalidStart
  | CollectionNameInvalidChar | CollectionNameReserved
  | CollectionAlreadyExists string | CollectionDoesNotExist string
  | DocumentNotFound string string | DocumentAlreadyExists string string
  | DocumentTooLarge | BulkOperationTooLarge nat nat
  | InvalidDocument | InvalidDocumentFormat string "string option"
  | Conflict string string string | Validation string string string
  | SchemaValidation string
  | SerializationError string string | DeserializationError string string
  | InvalidIndexKey string string
  | Corruption string u64 string
  | LockPoisoned string | DataCorruption string | ContextCancelled string string
  | InvalidMagic | InvalidVersion | InvalidPageNum | InvalidPageSize
  | WALCorrupted | WALInvalidTx | WALChecksumFail
  | NotFound | Io string | Other string


subsection \<open>Outcomes\<close>

datatype 'a res = Ok 'a | Err error | Panic

definition res_bind :: "'a res \<Rightarrow> ('a \<Rightarrow> 'b res) \<Rightarrow> 'b res" where
  [res_simps]: "res_bind r f = (case r of Ok x \<Rightarrow> f x | Err e \<Rightarrow> Err e | Panic \<Rightarrow> Panic)"

definition and_then :: "'a res \<times> 's \<Rightarrow> ('a \<Rightarrow> 's \<Rightarrow> 'b res \<times> 's) \<Rightarrow> 'b res \<times> 's" where
  [res_simps]: "and_then r f =
     (case r of (Ok x, s) \<Rightarrow> f x s | (Err e, s) \<Rightarrow> (Err e, s) | (Panic, s) \<Rightarrow> (Panic, s))"

text \<open>A slice access that panics out of range, inside a fallible function.\<close>

definition no_panic :: "'a option \<Rightarrow> 'a res" where
  [res_simps]: "no_panic x = (case x of Some v \<Rightarrow> Ok v | None \<Rightarrow> Panic)"


text \<open>
  A call is safe when it does not panic and what it returns with \<open>Ok\<close> satisfies a predicate. The
  rules follow the structure of the code, so a function is shown free of panics by applying them
  call by call.
\<close>

definition safe :: "('a \<Rightarrow> 's \<Rightarrow> bool) \<Rightarrow> 'a res \<times> 's \<Rightarrow> bool" where
  "safe P r \<longleftrightarrow> fst r \<noteq> Panic \<and> (\<forall>x. fst r = Ok x \<longrightarrow> P x (snd r))"

subsection \<open>Lemmas\<close>

lemma res_bind_simps [simp]:
  "res_bind (Ok x) f = f x" "res_bind (Err e) f = Err e" "res_bind Panic f = Panic"
  by (simp_all add: res_bind_def)

lemma and_then_simps [simp]:
  "and_then (Ok x, s) g = g x s" "and_then (Err e, s) g = (Err e, s)"
  "and_then (Panic, s) g = (Panic, s)"
  by (simp_all add: and_then_def)

lemma no_panic_simps [simp]: "no_panic (Some x) = Ok x" "no_panic None = Panic"
  by (simp_all add: no_panic_def)

lemma safe_simps [simp]:
  "safe P (Ok x, s) \<longleftrightarrow> P x s" "safe P (Err e, s)" "\<not> safe P (Panic, s)"
  by (simp_all add: safe_def)

lemma safe_and_then: "safe Q m \<Longrightarrow> (\<And>x s. Q x s \<Longrightarrow> safe P (f x s)) \<Longrightarrow> safe P (and_then m f)"
  by (cases m; cases "fst m") (auto simp: safe_def)

lemma safe_mono: "safe Q m \<Longrightarrow> (\<And>x s. Q x s \<Longrightarrow> P x s) \<Longrightarrow> safe P m"
  by (auto simp: safe_def)

lemma res_bind_Ok_iff: "res_bind r f = Ok y \<longleftrightarrow> (\<exists>x. r = Ok x \<and> f x = Ok y)"
  by (cases r) auto

lemma and_then_Ok_iff:
  "and_then r f = (Ok y, s') \<longleftrightarrow> (\<exists>x s. r = (Ok x, s) \<and> f x s = (Ok y, s'))"
  by (auto simp: and_then_def split: prod.splits res.splits)

lemma page_offset_eq: "unat p < 2 ^ 52 \<Longrightarrow> page_offset p = unat p * PAGE_SIZE"
  by (simp add: page_offset_def const_defs unat_word_ariths)

lemma PAGE_SIZE_pos [simp]: "0 < PAGE_SIZE"
  by (simp add: const_defs)

end
