(* ===== verification/Storage_File.thy ===== *)
theory Storage_File
  imports Outcome
begin

text \<open>
  The operating-system file behind the pager and the write-ahead log, as far as the code uses
  it: \<open>seek\<close> to an absolute offset followed by \<open>read_exact\<close> or \<open>write_all\<close>, \<open>set_len\<close>, and
  \<open>sync_all\<close>/\<open>sync_data\<close>. A write past the end fills the gap with zeros; a read past the end
  is an error; an offset that does not fit an \<open>i64\<close> is refused by \<open>seek\<close>. \<open>f_durable\<close> is the
  content at the last sync, which a crash cannot lose. Failures of the device itself are not
  represented.
\<close>

record dfile =
  f_bytes :: bytes
  f_durable :: bytes

definition file_empty :: dfile where
  "file_empty = \<lparr>f_bytes = [], f_durable = []\<rparr>"

definition seek_ok :: "nat \<Rightarrow> bool" where
  "seek_ok off \<longleftrightarrow> off < 2 ^ 63"

definition write_at :: "nat \<Rightarrow> bytes \<Rightarrow> bytes \<Rightarrow> bytes" where
  "write_at off src bs =
     (if src = [] then bs
      else take off bs @ replicate (off - length bs) 0 @ src @ drop (off + length src) bs)"

definition file_read_exact :: "nat \<Rightarrow> nat \<Rightarrow> dfile \<Rightarrow> bytes res" where
  "file_read_exact off n f =
     (if \<not> seek_ok off then Err (Io ''Invalid argument (os error 22)'')
      else case get_bytes off n (f_bytes f) of
          None \<Rightarrow> Err (Io ''failed to fill whole buffer'')
        | Some bs \<Rightarrow> Ok bs)"

definition file_write_all :: "nat \<Rightarrow> bytes \<Rightarrow> dfile \<Rightarrow> unit res \<times> dfile" where
  "file_write_all off src f =
     (if \<not> seek_ok off then (Err (Io ''Invalid argument (os error 22)''), f)
      else (Ok (), f\<lparr>f_bytes := write_at off src (f_bytes f)\<rparr>))"

definition file_sync :: "dfile \<Rightarrow> dfile" where
  "file_sync f = f\<lparr>f_durable := f_bytes f\<rparr>"

definition file_set_len :: "nat \<Rightarrow> dfile \<Rightarrow> dfile" where
  "file_set_len n f = f\<lparr>f_bytes := take n (f_bytes f) @ replicate (n - length (f_bytes f)) 0\<rparr>"

definition file_size :: "dfile \<Rightarrow> u64" where
  "file_size f = word_of_nat (length (f_bytes f))"


subsection \<open>Lemmas\<close>

lemma length_write_at: "length (write_at off src bs) =
    (if src = [] then length bs else max (length bs) (off + length src))"
  by (auto simp: write_at_def)

lemma get_write_same: "src \<noteq> [] \<Longrightarrow> length src = n \<Longrightarrow> get_bytes off n (write_at off src bs) = Some src"
  by (auto simp: write_at_def get_bytes_def)

lemma nth_write_at:
  assumes "i < length bs" "i < off \<or> off + length src \<le> i"
  shows "write_at off src bs ! i = bs ! i"
  using assms by (auto simp: write_at_def nth_append)

text \<open>A range that the write does not touch, and that was inside the file, is unchanged.\<close>

lemma get_write_other:
  assumes "off' + n \<le> length bs" "off' + n \<le> off \<or> off + length src \<le> off'"
  shows "get_bytes off' n (write_at off src bs) = get_bytes off' n bs"
proof -
  have "take n (drop off' (write_at off src bs)) = take n (drop off' bs)"
    using assms by (intro nth_equalityI) (auto simp: length_write_at nth_write_at)
  then show ?thesis using assms(1) by (auto simp: get_bytes_def length_write_at)
qed

lemma get_write_other_mono:
  assumes "get_bytes off' n bs = Some d" "off' + n \<le> off \<or> off + length src \<le> off'"
  shows "get_bytes off' n (write_at off src bs) = Some d"
  using get_write_other [OF _ assms(2), of bs] assms(1) by (auto simp: get_bytes_Some_iff)

lemma write_at_write_at_adjacent:
  assumes "xs \<noteq> []" "ys \<noteq> []"
  shows "write_at (off + length xs) ys (write_at off xs bs) = write_at off (xs @ ys) bs"
  using assms by (cases "off \<le> length bs") (auto simp: write_at_def ac_simps)

lemma file_write_all_bytes:
  "seek_ok off \<Longrightarrow> file_write_all off src f = (Ok (), f\<lparr>f_bytes := write_at off src (f_bytes f)\<rparr>)"
  by (simp add: file_write_all_def)

end
