(* ===== verification/Lru_Cache.thy ===== *)
theory Lru_Cache
  imports Outcome
begin

text \<open>
  The page cache of \<open>src/core/lru_cache.rs\<close>: an index from page numbers to slots of a node
  vector, and a doubly linked recency list threaded through the slots, with a free list of
  slots and a set of dirty pages. \<open>LRUCacheInner\<close> is the record \<open>lru\<close>; its methods keep
  their names, and those of the locked wrapper \<open>LRUCache\<close> are the \<open>cache_\<close> functions.
  Indexing the vector out of range panics (\<open>None\<close>); the theorems show that no operation
  does so on a well-formed cache.

  The second half proves the refinement: \<open>lru_view\<close> reads the cached pages from most to least
  recently used, and every operation acts on that list as the specification functions
  \<open>touch\<close>, \<open>spec_put\<close> and \<open>drop_last_clean\<close> say.
\<close>

subsection \<open>State\<close>

record lru_node =
  nd_page_num :: page_num
  nd_data :: bytes
  nd_prev :: "nat option"
  nd_next :: "nat option"

record lru =
  lru_capacity :: nat
  lru_cache :: "(page_num, nat) hmap"
  lru_nodes :: "lru_node option list"
  lru_head :: "nat option"
  lru_tail :: "nat option"
  lru_free_list :: "nat list"
  lru_dirty :: "(page_num, bool) hmap"
  lru_failed_evictions :: nat


subsection \<open>LRUCacheInner\<close>

definition lru_new :: "nat \<Rightarrow> lru" where
  "lru_new capacity = \<lparr>lru_capacity = capacity, lru_cache = [], lru_nodes = [],
     lru_head = None, lru_tail = None, lru_free_list = [], lru_dirty = [],
     lru_failed_evictions = 0\<rparr>"

text \<open>\<open>&self.nodes[idx]\<close>.\<close>

definition node_at :: "lru \<Rightarrow> nat \<Rightarrow> lru_node option option" where
  "node_at s idx = (if idx < length (lru_nodes s) then Some (lru_nodes s ! idx) else None)"

text \<open>\<open>if let Some(node) = &mut self.nodes[idx] { ... }\<close>.\<close>

definition upd_node :: "nat \<Rightarrow> (lru_node \<Rightarrow> lru_node) \<Rightarrow> lru \<Rightarrow> lru option" where
  "upd_node idx f s = do {
     slot \<leftarrow> node_at s idx;
     Some (case slot of None \<Rightarrow> s | Some n \<Rightarrow> s\<lparr>lru_nodes := (lru_nodes s)[idx := Some (f n)]\<rparr>)
   }"

text \<open>The same below an \<open>if let Some(idx) = link\<close>.\<close>

definition upd_link :: "nat option \<Rightarrow> (lru_node \<Rightarrow> lru_node) \<Rightarrow> lru \<Rightarrow> lru option" where
  "upd_link link f s = (case link of None \<Rightarrow> Some s | Some idx \<Rightarrow> upd_node idx f s)"

definition allocate_node :: "page_num \<Rightarrow> bytes \<Rightarrow> lru \<Rightarrow> (nat \<times> lru) option" where
  "allocate_node page_num data s =
     (let node = \<lparr>nd_page_num = page_num, nd_data = data, nd_prev = None, nd_next = None\<rparr> in
      if lru_free_list s \<noteq> [] then
        (let idx = last (lru_free_list s); s = s\<lparr>lru_free_list := butlast (lru_free_list s)\<rparr> in
         if idx < length (lru_nodes s)
         then Some (idx, s\<lparr>lru_nodes := (lru_nodes s)[idx := Some node]\<rparr>) else None)
      else Some (length (lru_nodes s), s\<lparr>lru_nodes := lru_nodes s @ [Some node]\<rparr>))"

definition move_to_front :: "nat \<Rightarrow> lru \<Rightarrow> lru option" where
  "move_to_front idx s =
     (if Some idx = lru_head s then Some s
      else do {
        slot \<leftarrow> node_at s idx;
        case slot of None \<Rightarrow> Some s
        | Some node \<Rightarrow> do {
            let prev_idx = nd_prev node;
            let next_idx = nd_next node;
            s \<leftarrow> upd_link prev_idx (nd_next_update (\<lambda>_. next_idx)) s;
            s \<leftarrow> upd_link next_idx (nd_prev_update (\<lambda>_. prev_idx)) s;
            let s = (if Some idx = lru_tail s then s\<lparr>lru_tail := prev_idx\<rparr> else s);
            s \<leftarrow> upd_node idx (\<lambda>n. n\<lparr>nd_prev := None, nd_next := lru_head s\<rparr>) s;
            s \<leftarrow> upd_link (lru_head s) (nd_prev_update (\<lambda>_. Some idx)) s;
            let s = s\<lparr>lru_head := Some idx\<rparr>;
            Some (if lru_tail s = None then s\<lparr>lru_tail := Some idx\<rparr> else s)
          }
      })"

definition remove_node :: "nat \<Rightarrow> lru \<Rightarrow> lru option" where
  "remove_node idx s = do {
     slot \<leftarrow> node_at s idx;
     case slot of None \<Rightarrow> Some s
     | Some node \<Rightarrow> do {
         let prev_idx = nd_prev node;
         let next_idx = nd_next node;
         let s = (if Some idx = lru_head s then s\<lparr>lru_head := next_idx\<rparr> else s);
         let s = (if Some idx = lru_tail s then s\<lparr>lru_tail := prev_idx\<rparr> else s);
         s \<leftarrow> upd_link prev_idx (nd_next_update (\<lambda>_. next_idx)) s;
         s \<leftarrow> upd_link next_idx (nd_prev_update (\<lambda>_. prev_idx)) s;
         Some (s\<lparr>lru_nodes := (lru_nodes s)[idx := None], lru_free_list := lru_free_list s @ [idx]\<rparr>)
       }
   }"

definition lru_get :: "page_num \<Rightarrow> lru \<Rightarrow> (bytes option \<times> lru) option" where
  "lru_get page_num s =
     (case hm_get (lru_cache s) page_num of
        None \<Rightarrow> Some (None, s)
      | Some idx \<Rightarrow> do {
          s \<leftarrow> move_to_front idx s;
          slot \<leftarrow> node_at s idx;
          Some (map_option nd_data slot, s)
        })"

definition lru_get_read_only :: "page_num \<Rightarrow> lru \<Rightarrow> bytes option option" where
  "lru_get_read_only page_num s =
     (case hm_get (lru_cache s) page_num of
        None \<Rightarrow> Some None
      | Some idx \<Rightarrow> do { slot \<leftarrow> node_at s idx; Some (map_option nd_data slot) })"

text \<open>The first pass of \<open>evict\<close>: the fuel is \<open>max_checks - checked\<close>.\<close>

fun evict_loop :: "nat \<Rightarrow> nat option \<Rightarrow> lru \<Rightarrow> (bool \<times> lru) option" where
  "evict_loop 0 current s = Some (False, s)"
| "evict_loop (Suc left) None s = Some (False, s)"
| "evict_loop (Suc left) (Some idx) s = do {
     slot \<leftarrow> node_at s idx;
     case slot of None \<Rightarrow> Some (False, s)
     | Some node \<Rightarrow>
         if hm_get (lru_dirty s) (nd_page_num node) = Some True
         then evict_loop left (nd_prev node) s
         else do {
           s \<leftarrow> remove_node idx (s\<lparr>lru_cache := hm_remove (nd_page_num node) (lru_cache s)\<rparr>);
           Some (True, s\<lparr>lru_failed_evictions := 0\<rparr>)
         }
   }"

definition evict :: "lru \<Rightarrow> lru option" where
  "evict s = do {
     (found_clean, s) \<leftarrow> evict_loop (length (lru_cache s)) (lru_tail s) s;
     Some (if found_clean then s
           else s\<lparr>lru_failed_evictions := lru_failed_evictions s + 1\<rparr>)
   }"

text \<open>The \<open>Add to front\<close> block shared by \<open>put\<close> and \<open>put_dirty_atomic\<close>.\<close>

definition add_to_front :: "nat \<Rightarrow> lru \<Rightarrow> lru option" where
  "add_to_front idx s = do {
     s \<leftarrow> upd_node idx (\<lambda>n. n\<lparr>nd_prev := None, nd_next := lru_head s\<rparr>) s;
     s \<leftarrow> upd_link (lru_head s) (nd_prev_update (\<lambda>_. Some idx)) s;
     let s = s\<lparr>lru_head := Some idx\<rparr>;
     Some (if lru_tail s = None then s\<lparr>lru_tail := Some idx\<rparr> else s)
   }"

definition lru_put :: "page_num \<Rightarrow> bytes \<Rightarrow> lru \<Rightarrow> lru option" where
  "lru_put page_num data s =
     (case hm_get (lru_cache s) page_num of
        Some idx \<Rightarrow> do {
          s \<leftarrow> move_to_front idx s;
          upd_node idx (nd_data_update (\<lambda>_. data)) s
        }
      | None \<Rightarrow> do {
          (idx, s) \<leftarrow> allocate_node page_num data s;
          let s = s\<lparr>lru_cache := hm_insert page_num idx (lru_cache s)\<rparr>;
          s \<leftarrow> add_to_front idx s;
          if length (lru_cache s) > lru_capacity s then evict s else Some s
        })"

definition put_dirty_atomic :: "page_num \<Rightarrow> bytes \<Rightarrow> lru \<Rightarrow> lru option" where
  "put_dirty_atomic page_num data s =
     (case hm_get (lru_cache s) page_num of
        Some idx \<Rightarrow> do {
          s \<leftarrow> move_to_front idx s;
          s \<leftarrow> upd_node idx (nd_data_update (\<lambda>_. data)) s;
          Some (s\<lparr>lru_dirty := hm_insert page_num True (lru_dirty s)\<rparr>)
        }
      | None \<Rightarrow> do {
          (idx, s) \<leftarrow> allocate_node page_num data s;
          let s = s\<lparr>lru_cache := hm_insert page_num idx (lru_cache s)\<rparr>;
          s \<leftarrow> add_to_front idx s;
          let s = s\<lparr>lru_dirty := hm_insert page_num True (lru_dirty s)\<rparr>;
          if length (lru_cache s) > lru_capacity s then evict s else Some s
        })"

definition lru_remove :: "page_num \<Rightarrow> lru \<Rightarrow> lru option" where
  "lru_remove page_num s =
     (case hm_get (lru_cache s) page_num of
        None \<Rightarrow> Some s
      | Some idx \<Rightarrow> do {
          s \<leftarrow> remove_node idx (s\<lparr>lru_cache := hm_remove page_num (lru_cache s)\<rparr>);
          Some (s\<lparr>lru_dirty := hm_remove page_num (lru_dirty s)\<rparr>)
        })"

definition lru_len :: "lru \<Rightarrow> nat" where
  "lru_len s = length (lru_cache s)"


subsection \<open>LRUCache\<close>

definition cache_new :: "nat \<Rightarrow> lru" where
  "cache_new capacity = lru_new (if capacity = 0 then 1000 else capacity)"

definition cache_mark_dirty :: "page_num \<Rightarrow> lru \<Rightarrow> lru" where
  "cache_mark_dirty page_num s = s\<lparr>lru_dirty := hm_insert page_num True (lru_dirty s)\<rparr>"

definition cache_clear_dirty :: "page_num \<Rightarrow> lru \<Rightarrow> lru" where
  "cache_clear_dirty page_num s = s\<lparr>lru_dirty := hm_remove page_num (lru_dirty s)\<rparr>"

definition cache_is_dirty :: "page_num \<Rightarrow> lru \<Rightarrow> bool" where
  "cache_is_dirty page_num s \<longleftrightarrow> hm_get (lru_dirty s) page_num = Some True"

definition cache_get_all_dirty :: "lru \<Rightarrow> page_num list" where
  "cache_get_all_dirty s = map fst (lru_dirty s)"

definition cache_clear_all_dirty :: "lru \<Rightarrow> lru" where
  "cache_clear_all_dirty s = s\<lparr>lru_dirty := []\<rparr>"

definition cache_is_empty :: "lru \<Rightarrow> bool" where
  "cache_is_empty s \<longleftrightarrow> lru_len s = 0"


subsection \<open>Abstract view and specification\<close>

fun follow :: "nat \<Rightarrow> nat option \<Rightarrow> lru_node option list \<Rightarrow> nat list" where
  "follow 0 cur ns = []"
| "follow (Suc fuel) None ns = []"
| "follow (Suc fuel) (Some i) ns =
     (if i < length ns then
        (case ns ! i of None \<Rightarrow> [] | Some n \<Rightarrow> i # follow fuel (nd_next n) ns)
      else [])"

text \<open>The slots in recency order, and the pages they hold.\<close>

definition lru_order :: "lru \<Rightarrow> nat list" where
  "lru_order s = follow (length (lru_nodes s)) (lru_head s) (lru_nodes s)"

definition contents :: "lru_node option list \<Rightarrow> (page_num \<times> bytes) option list" where
  "contents ns = map (map_option (\<lambda>n. (nd_page_num n, nd_data n))) ns"

definition lru_view :: "lru \<Rightarrow> (page_num \<times> bytes) list" where
  "lru_view s = map (\<lambda>i. the (contents (lru_nodes s) ! i)) (lru_order s)"

definition touch :: "page_num \<Rightarrow> (page_num \<times> bytes) list \<Rightarrow> (page_num \<times> bytes) list" where
  "touch p es = (case map_of es p of None \<Rightarrow> es | Some d \<Rightarrow> (p, d) # AList.delete p es)"

text \<open>Drop the least recently used page that is not dirty, if there is one.\<close>

fun drop_first_clean :: "(page_num \<Rightarrow> bool) \<Rightarrow> (page_num \<times> bytes) list \<Rightarrow> (page_num \<times> bytes) list" where
  "drop_first_clean dirty [] = []"
| "drop_first_clean dirty (e # es) = (if dirty (fst e) then e # drop_first_clean dirty es else es)"

definition drop_last_clean :: "(page_num \<Rightarrow> bool) \<Rightarrow> (page_num \<times> bytes) list \<Rightarrow> (page_num \<times> bytes) list" where
  "drop_last_clean dirty es = rev (drop_first_clean dirty (rev es))"

definition spec_put :: "nat \<Rightarrow> (page_num \<Rightarrow> bool) \<Rightarrow> page_num \<Rightarrow> bytes \<Rightarrow>
    (page_num \<times> bytes) list \<Rightarrow> (page_num \<times> bytes) list" where
  "spec_put cap dirty p d es =
     (if map_of es p \<noteq> None then (p, d) # AList.delete p es
      else if cap < Suc (length es) then drop_last_clean dirty ((p, d) # es)
      else (p, d) # es)"

text \<open>A history of calls on one cache, and what it does to the set of dirty pages and the view.\<close>

datatype lru_op = OpGet page_num | OpPut page_num bytes | OpPutDirty page_num bytes
  | OpRemove page_num | OpMarkDirty page_num | OpClearDirty page_num | OpClearAllDirty

fun cache_step :: "lru_op \<Rightarrow> lru \<Rightarrow> lru option" where
  "cache_step (OpGet p) s = map_option snd (lru_get p s)"
| "cache_step (OpPut p d) s = lru_put p d s"
| "cache_step (OpPutDirty p d) s = put_dirty_atomic p d s"
| "cache_step (OpRemove p) s = lru_remove p s"
| "cache_step (OpMarkDirty p) s = Some (cache_mark_dirty p s)"
| "cache_step (OpClearDirty p) s = Some (cache_clear_dirty p s)"
| "cache_step OpClearAllDirty s = Some (cache_clear_all_dirty s)"

fun cache_run :: "lru_op list \<Rightarrow> lru \<Rightarrow> lru option" where
  "cache_run [] s = Some s"
| "cache_run (op # ops) s = Option.bind (cache_step op s) (cache_run ops)"

type_synonym spec_cache = "page_num set \<times> (page_num \<times> bytes) list"

definition cache_abs :: "lru \<Rightarrow> spec_cache" where
  "cache_abs s = (set (cache_get_all_dirty s), lru_view s)"

fun spec_step :: "nat \<Rightarrow> lru_op \<Rightarrow> spec_cache \<Rightarrow> spec_cache" where
  "spec_step cap (OpGet p) (D, es) = (D, touch p es)"
| "spec_step cap (OpPut p d) (D, es) = (D, spec_put cap (\<lambda>q. q \<in> D) p d es)"
| "spec_step cap (OpPutDirty p d) (D, es) =
     (insert p D, spec_put cap (\<lambda>q. q \<in> insert p D) p d es)"
| "spec_step cap (OpRemove p) (D, es) =
     (if map_of es p = None then D else D - {p}, AList.delete p es)"
| "spec_step cap (OpMarkDirty p) (D, es) = (insert p D, es)"
| "spec_step cap (OpClearDirty p) (D, es) = (D - {p}, es)"
| "spec_step cap OpClearAllDirty (D, es) = ({}, es)"


subsection \<open>Well-formed caches\<close>

definition first_or :: "nat list \<Rightarrow> nat option \<Rightarrow> nat option" where
  "first_or xs q = (case xs of [] \<Rightarrow> q | x # _ \<Rightarrow> Some x)"

definition last_or :: "nat list \<Rightarrow> nat option \<Rightarrow> nat option" where
  "last_or xs p = (if xs = [] then p else Some (last xs))"

fun dseg :: "lru_node option list \<Rightarrow> nat option \<Rightarrow> nat list \<Rightarrow> nat option \<Rightarrow> bool" where
  "dseg ns p [] q = True"
| "dseg ns p (i # xs) q \<longleftrightarrow> i < length ns \<and>
     (\<exists>n. ns ! i = Some n \<and> nd_prev n = p \<and> nd_next n = first_or xs q) \<and> dseg ns (Some i) xs q"

definition upd_ns :: "nat option \<Rightarrow> (lru_node \<Rightarrow> lru_node) \<Rightarrow> lru_node option list \<Rightarrow> lru_node option list" where
  "upd_ns link f ns = (case link of None \<Rightarrow> ns
     | Some i \<Rightarrow> (case ns ! i of None \<Rightarrow> ns | Some n \<Rightarrow> ns[i := Some (f n)]))"

text \<open>Index, free list and recency list agree on which slots hold which pages.\<close>

definition slots_ok :: "(page_num, nat) hmap \<Rightarrow> nat list \<Rightarrow> (page_num \<times> bytes) option list \<Rightarrow> nat list \<Rightarrow> bool" where
  "slots_ok cache free C xs \<longleftrightarrow>
     distinct xs \<and> set xs = {i. i < length C \<and> C ! i \<noteq> None} \<and>
     distinct free \<and> set free = {i. i < length C \<and> C ! i = None} \<and>
     hm_ok cache \<and>
     (\<forall>p i. hm_get cache p = Some i \<longleftrightarrow> i < length C \<and> (\<exists>d. C ! i = Some (p, d)))"

definition dirty_ok :: "(page_num, bool) hmap \<Rightarrow> bool" where
  "dirty_ok m \<longleftrightarrow> hm_ok m \<and> list_all snd m"

definition lru_rel :: "lru \<Rightarrow> nat list \<Rightarrow> bool" where
  "lru_rel s xs \<longleftrightarrow> dseg (lru_nodes s) None xs None \<and>
     lru_head s = first_or xs None \<and> lru_tail s = last_or xs None \<and>
     slots_ok (lru_cache s) (lru_free_list s) (contents (lru_nodes s)) xs \<and>
     dirty_ok (lru_dirty s)"

definition lru_inv :: "lru \<Rightarrow> bool" where
  "lru_inv s \<longleftrightarrow> lru_rel s (lru_order s)"

definition unlinked :: "nat list \<Rightarrow> nat list \<Rightarrow> lru_node option list \<Rightarrow> lru_node option list" where
  "unlinked xs ys ns =
     upd_ns (first_or ys None) (nd_prev_update (\<lambda>_. last_or xs None))
       (upd_ns (last_or xs None) (nd_next_update (\<lambda>_. first_or ys None)) ns)"

definition linked_front :: "nat \<Rightarrow> nat list \<Rightarrow> lru_node option list \<Rightarrow> lru_node option list" where
  "linked_front i xs ns =
     upd_ns (first_or xs None) (nd_prev_update (\<lambda>_. Some i))
       (upd_ns (Some i) (\<lambda>n. n\<lparr>nd_prev := None, nd_next := first_or xs None\<rparr>) ns)"


subsection \<open>Lemmas\<close>

lemma list_all_insert: "list_all snd m \<Longrightarrow> list_all snd (hm_insert p True m)"
  by (induction m) auto

lemma dirty_ok_insert: "dirty_ok m \<Longrightarrow> dirty_ok (hm_insert p True m)"
  by (simp add: dirty_ok_def list_all_insert)

lemma dirty_ok_remove: "dirty_ok m \<Longrightarrow> dirty_ok (hm_remove p m)"
  by (simp add: dirty_ok_def) (simp add: list_all_iff AList.delete_eq)

lemma dirty_ok_get: "dirty_ok m \<Longrightarrow> hm_get m p = Some True \<longleftrightarrow> p \<in> fst ` set m"
  by (force simp: dirty_ok_def list_all_iff)

lemma first_or_simps [simp]: "first_or [] q = q" "first_or (x # xs) q = Some x"
  by (simp_all add: first_or_def)

lemma last_or_simps [simp]: "last_or [] p = p" "last_or (xs @ [x]) p = Some x"
  by (simp_all add: last_or_def)

lemma first_or_append: "first_or (xs @ ys) q = first_or xs (first_or ys q)"
  by (cases xs) auto

lemma last_or_append: "last_or (xs @ ys) p = last_or ys (last_or xs p)"
  by (auto simp: last_or_def)

lemma last_or_Cons [simp]: "last_or (x # xs) p = last_or xs (Some x)"
  by (simp add: last_or_def)

lemma first_or_Some_iff: "first_or xs None = Some i \<longleftrightarrow> (\<exists>ys. xs = i # ys)"
  by (cases xs) auto

lemma first_or_in: "first_or xs None = Some i \<Longrightarrow> i \<in> set xs"
  by (cases xs) auto

lemma last_or_in: "last_or xs None = Some i \<Longrightarrow> i \<in> set xs"
  by (auto simp: last_or_def split: if_splits)

lemma dseg_append:
  "dseg ns p (xs @ ys) q \<longleftrightarrow> dseg ns p xs (first_or ys q) \<and> dseg ns (last_or xs p) ys q"
  by (induction xs arbitrary: p) (auto simp: first_or_append)

lemma dseg_in: "dseg ns p xs q \<Longrightarrow> i \<in> set xs \<Longrightarrow> i < length ns \<and> ns ! i \<noteq> None"
  by (induction xs arbitrary: p) auto

lemma length_upd_ns [simp]: "length (upd_ns l f ns) = length ns"
  by (auto simp: upd_ns_def split: option.splits)

lemma upd_ns_None [simp]: "upd_ns None f ns = ns"
  by (simp add: upd_ns_def)

lemma nth_upd_ns:
  "i < length ns \<Longrightarrow> upd_ns l f ns ! i = (if l = Some i then map_option f (ns ! i) else ns ! i)"
  by (auto simp: upd_ns_def nth_list_update split: option.splits)

lemma contents_upd_ns:
  assumes "\<And>n. nd_page_num (f n) = nd_page_num n" "\<And>n. nd_data (f n) = nd_data n"
  shows "contents (upd_ns l f ns) = contents ns"
  by (rule nth_equalityI) (auto simp: contents_def nth_upd_ns assms option.map_comp o_def)

lemma dseg_frame: "l \<notin> Some ` set xs \<Longrightarrow> dseg (upd_ns l f ns) p xs q = dseg ns p xs q"
proof (induction xs arbitrary: p)
  case Nil
  then show ?case by simp
next
  case (Cons a xs)
  then have "l \<noteq> Some a" by auto
  with Cons show ?case by (simp add: nth_upd_ns cong: conj_cong)
qed

lemma dseg_set_next:
  assumes "dseg ns p xs q" "distinct xs"
  shows "dseg (upd_ns (last_or xs None) (nd_next_update (\<lambda>_. q')) ns) p xs q'"
proof (cases xs rule: rev_cases)
  case Nil
  then show ?thesis by simp
next
  case (snoc ys y)
  with assms show ?thesis
    by (auto simp: dseg_append dseg_frame nth_upd_ns inj_image_mem_iff)
qed

lemma dseg_set_prev:
  assumes "dseg ns p xs q" "distinct xs"
  shows "dseg (upd_ns (first_or xs None) (nd_prev_update (\<lambda>_. p')) ns) p' xs q"
  using assms by (cases xs) (auto simp: dseg_frame nth_upd_ns inj_image_mem_iff)

lemma upd_node_eq:
  "i < length (lru_nodes s) \<Longrightarrow> upd_node i f s = Some (s\<lparr>lru_nodes := upd_ns (Some i) f (lru_nodes s)\<rparr>)"
  by (auto simp: upd_node_def node_at_def upd_ns_def split: option.splits)

lemma upd_link_eq:
  "(\<And>i. l = Some i \<Longrightarrow> i < length (lru_nodes s)) \<Longrightarrow>
   upd_link l f s = Some (s\<lparr>lru_nodes := upd_ns l f (lru_nodes s)\<rparr>)"
  by (cases l) (auto simp: upd_link_def upd_node_eq)

lemma follow_dseg:
  "dseg ns p xs None \<Longrightarrow> length xs \<le> fuel \<Longrightarrow> follow fuel (first_or xs None) ns = xs"
proof (induction xs arbitrary: p fuel)
  case Nil
  then show ?case by (cases fuel) auto
next
  case (Cons i xs)
  then show ?case by (cases fuel) auto
qed

lemma slots_ok_bounded: "slots_ok cache free C xs \<Longrightarrow> length xs \<le> length C"
proof -
  assume "slots_ok cache free C xs"
  then have d: "distinct xs" and sub: "set xs \<subseteq> {..<length C}" by (auto simp: slots_ok_def)
  have "length xs = card (set xs)" using d by (simp add: distinct_card)
  also have "\<dots> \<le> card {..<length C}" using sub by (rule card_mono [OF finite_lessThan])
  finally show ?thesis by simp
qed

lemma lru_rel_order: "lru_rel s xs \<Longrightarrow> lru_order s = xs"
  using slots_ok_bounded [of "lru_cache s" "lru_free_list s" "contents (lru_nodes s)" xs]
  by (auto simp: lru_rel_def lru_order_def follow_dseg contents_def)

lemma lru_inv_iff: "lru_inv s \<longleftrightarrow> (\<exists>xs. lru_rel s xs)"
  using lru_rel_order by (auto simp: lru_inv_def)

lemma dseg_split:
  assumes "dseg ns None (xs @ i # ys) None"
  shows "dseg ns None xs (Some i)" "dseg ns (Some i) ys None"
    "i < length ns" "\<exists>n. ns ! i = Some n \<and> nd_prev n = last_or xs None \<and> nd_next n = first_or ys None"
  using assms by (auto simp: dseg_append)

lemma dseg_unlinked:
  assumes seg: "dseg ns None (xs @ i # ys) None" and dist: "distinct (xs @ i # ys)"
  shows "dseg (unlinked xs ys ns) None (xs @ ys) None"
proof -
  let ?ns = "upd_ns (last_or xs None) (nd_next_update (\<lambda>_. first_or ys None)) ns"
  have x: "dseg ?ns None xs (first_or ys None)"
    using dseg_split(1) [OF seg] dist by (auto intro: dseg_set_next)
  have y: "dseg ?ns (Some i) ys None"
    using dseg_split(2) [OF seg] dist last_or_in [of xs] by (subst dseg_frame) auto
  have "dseg (unlinked xs ys ns) None xs (first_or ys None)"
    unfolding unlinked_def using x dist first_or_in [of ys] by (subst dseg_frame) auto
  moreover have "dseg (unlinked xs ys ns) (last_or xs None) ys None"
    unfolding unlinked_def using y dist by (auto intro: dseg_set_prev)
  ultimately show ?thesis by (simp add: dseg_append)
qed

lemma length_unlinked [simp]: "length (unlinked xs ys ns) = length ns"
  by (simp add: unlinked_def)

lemma contents_unlinked [simp]: "contents (unlinked xs ys ns) = contents ns"
  by (simp add: unlinked_def contents_upd_ns)

lemma length_linked_front [simp]: "length (linked_front i xs ns) = length ns"
  by (simp add: linked_front_def)

lemma contents_linked_front [simp]: "contents (linked_front i xs ns) = contents ns"
  by (simp add: linked_front_def contents_upd_ns)

lemma dseg_linked_front:
  assumes seg: "dseg ns None xs None" and dist: "distinct xs" "i \<notin> set xs"
    and i: "i < length ns" "ns ! i \<noteq> None"
  shows "dseg (linked_front i xs ns) None (i # xs) None"
proof -
  let ?ns = "upd_ns (Some i) (\<lambda>n. n\<lparr>nd_prev := None, nd_next := first_or xs None\<rparr>) ns"
  have "dseg ?ns None xs None" using seg dist by (subst dseg_frame) auto
  then have tl: "dseg (linked_front i xs ns) (Some i) xs None"
    unfolding linked_front_def using dist by (auto intro: dseg_set_prev)
  have "first_or xs None \<noteq> Some i" using dist first_or_in by blast
  with i tl show ?thesis by (auto simp: linked_front_def nth_upd_ns)
qed

lemma node_at_rel:
  assumes "lru_rel s (xs @ i # ys)"
  shows "\<exists>n. node_at s i = Some (Some n) \<and> nd_prev n = last_or xs None \<and> nd_next n = first_or ys None"
  using dseg_split [of "lru_nodes s" xs i ys] assms by (auto simp: lru_rel_def node_at_def)

lemma lru_rel_in:
  assumes "lru_rel s xs" "i \<in> set xs"
  shows "i < length (lru_nodes s)" "lru_nodes s ! i \<noteq> None"
  using assms dseg_in by (auto simp: lru_rel_def)

lemma lru_rel_distinct: "lru_rel s xs \<Longrightarrow> distinct xs"
  by (simp add: lru_rel_def slots_ok_def)

lemma first_or_eq_mid: "distinct (xs @ i # ys) \<Longrightarrow> first_or (xs @ i # ys) None = Some i \<longleftrightarrow> xs = []"
  by (cases xs) auto

lemma last_or_eq_mid: "distinct (xs @ i # ys) \<Longrightarrow> last_or (xs @ i # ys) None = Some i \<longleftrightarrow> ys = []"
  by (cases ys rule: rev_cases) (auto simp: last_or_def)

lemma first_or_remove_mid:
  "distinct (xs @ i # ys) \<Longrightarrow>
   (if first_or (xs @ i # ys) None = Some i then first_or ys None else first_or (xs @ i # ys) None)
     = first_or (xs @ ys) None"
  by (cases xs) auto

lemma last_or_remove_mid:
  "distinct (xs @ i # ys) \<Longrightarrow>
   (if last_or (xs @ i # ys) None = Some i then last_or xs None else last_or (xs @ i # ys) None)
     = last_or (xs @ ys) None"
  by (cases ys rule: rev_cases) (auto simp: last_or_def)

lemma unlink_steps:
  assumes rel: "lru_rel s (xs @ i # ys)" and ns: "lru_nodes t = lru_nodes s"
  shows "Option.bind (upd_link (last_or xs None) (nd_next_update (\<lambda>_. first_or ys None)) t)
           (\<lambda>t. Option.bind (upd_link (first_or ys None) (nd_prev_update (\<lambda>_. last_or xs None)) t) f)
         = f (t\<lparr>lru_nodes := unlinked xs ys (lru_nodes s)\<rparr>)"
proof -
  have "\<And>j. last_or xs None = Some j \<Longrightarrow> j < length (lru_nodes s)"
    using last_or_in [of xs] lru_rel_in [OF rel] by auto
  moreover have "\<And>j. first_or ys None = Some j \<Longrightarrow> j < length (lru_nodes s)"
    using first_or_in [of ys] lru_rel_in [OF rel] by auto
  ultimately show ?thesis by (simp add: upd_link_eq ns unlinked_def)
qed

lemma front_steps:
  assumes "i < length (lru_nodes t)" "\<And>j. first_or xs None = Some j \<Longrightarrow> j < length (lru_nodes t)"
    and "lru_head t = first_or xs None"
  shows "add_to_front i t =
    Some (t\<lparr>lru_nodes := linked_front i xs (lru_nodes t), lru_head := Some i,
            lru_tail := (if lru_tail t = None then Some i else lru_tail t)\<rparr>)"
  using assms by (auto simp: add_to_front_def upd_node_eq upd_link_eq linked_front_def Let_def)

text \<open>The body of \<open>move_to_front\<close> is an unlinking followed by the \<open>Add to front\<close> block.\<close>

lemma move_to_front_alt:
  assumes rel: "lru_rel s (xs @ i # ys)" and "xs \<noteq> []"
  shows "move_to_front i s =
    add_to_front i (s\<lparr>lru_nodes := unlinked xs ys (lru_nodes s), lru_tail := last_or (xs @ ys) None\<rparr>)"
proof -
  obtain n where n: "node_at s i = Some (Some n)" "nd_prev n = last_or xs None"
    "nd_next n = first_or ys None"
    using node_at_rel [OF rel] by blast
  have dist: "distinct (xs @ i # ys)" using rel by (rule lru_rel_distinct)
  have head: "(Some i = lru_head s) = False"
    using rel \<open>xs \<noteq> []\<close> first_or_eq_mid [OF dist] by (simp add: lru_rel_def eq_commute)
  let ?s = "s\<lparr>lru_nodes := unlinked xs ys (lru_nodes s)\<rparr>"
  have tail: "(if Some i = lru_tail s then ?s\<lparr>lru_tail := nd_prev n\<rparr> else ?s) =
      ?s\<lparr>lru_tail := last_or (xs @ ys) None\<rparr>"
    using rel last_or_remove_mid [OF dist] n(2) by (auto simp: lru_rel_def split: if_splits)
  show ?thesis
    by (simp add: move_to_front_def head n unlink_steps [OF rel refl] add_to_front_def tail Let_def split del: if_split)
qed

lemma slots_ok_reorder:
  "slots_ok cache free C xs \<Longrightarrow> distinct ys \<Longrightarrow> set ys = set xs \<Longrightarrow> slots_ok cache free C ys"
  by (simp add: slots_ok_def)

lemma unlinked_nth_None: "i < length ns \<Longrightarrow> unlinked xs ys ns ! i = None \<longleftrightarrow> ns ! i = None"
  by (simp add: unlinked_def nth_upd_ns)

lemma move_to_front_rel:
  assumes rel: "lru_rel s (xs @ i # ys)"
  obtains ns h t where
    "move_to_front i s = Some (s\<lparr>lru_nodes := ns, lru_head := h, lru_tail := t\<rparr>)"
    "contents ns = contents (lru_nodes s)"
    "lru_rel (s\<lparr>lru_nodes := ns, lru_head := h, lru_tail := t\<rparr>) (i # xs @ ys)"
proof (cases "xs = []")
  case True
  with rel have "move_to_front i s = Some s" by (simp add: move_to_front_def lru_rel_def)
  moreover have "s\<lparr>lru_nodes := lru_nodes s, lru_head := lru_head s, lru_tail := lru_tail s\<rparr> = s"
    by simp
  ultimately show ?thesis using that [where ns = "lru_nodes s" and h = "lru_head s" and t = "lru_tail s"] rel True by simp
next
  case False
  let ?ns = "unlinked xs ys (lru_nodes s)"
  let ?t = "s\<lparr>lru_nodes := ?ns, lru_tail := last_or (xs @ ys) None\<rparr>"
  have dist: "distinct (xs @ i # ys)" using rel by (rule lru_rel_distinct)
  have i: "i < length ?ns" "?ns ! i \<noteq> None"
    using lru_rel_in [OF rel, of i] by (simp_all add: unlinked_nth_None)
  have seg: "dseg ?ns None (xs @ ys) None"
    using rel by (intro dseg_unlinked [OF _ dist]) (simp add: lru_rel_def)
  have ht: "lru_head s = first_or (xs @ i # ys) None"
    using rel by (simp only: lru_rel_def)
  have hd: "lru_head ?t = first_or (xs @ ys) None"
    using ht False by (cases xs) simp_all
  have tl: "last_or (xs @ ys) None \<noteq> None"
    using False by (simp add: last_or_def)
  have "\<And>j. first_or (xs @ ys) None = Some j \<Longrightarrow> j < length ?ns"
    using first_or_in [of "xs @ ys"] lru_rel_in [OF rel] by auto
  then have mv: "move_to_front i s = Some (?t\<lparr>lru_nodes := linked_front i (xs @ ys) ?ns,
      lru_head := Some i, lru_tail := last_or (xs @ ys) None\<rparr>)"
    using move_to_front_alt [OF rel False] front_steps [of i ?t "xs @ ys"] i hd tl by simp
  show ?thesis
  proof (rule that)
    show "move_to_front i s = Some (s\<lparr>lru_nodes := linked_front i (xs @ ys) ?ns,
        lru_head := Some i, lru_tail := last_or (xs @ ys) None\<rparr>)" using mv by simp
    show "lru_rel (s\<lparr>lru_nodes := linked_front i (xs @ ys) ?ns,
        lru_head := Some i, lru_tail := last_or (xs @ ys) None\<rparr>) (i # xs @ ys)"
      using rel dist dseg_linked_front [OF seg _ _ i] False
      by (auto simp: lru_rel_def last_or_def elim: slots_ok_reorder)
  qed simp
qed

text \<open>Removing slot \<open>i\<close> of page \<open>p\<close> from index and list.\<close>

lemma slots_ok_get:
  "slots_ok cache free C xs \<Longrightarrow> hm_get cache p = Some i \<longleftrightarrow> i < length C \<and> (\<exists>d. C ! i = Some (p, d))"
  by (simp add: slots_ok_def del: map_of_eq_Some_iff)

lemma slots_ok_inj:
  assumes "slots_ok cache free C xs" "i < length C" "j < length C"
    "C ! i = Some (p, d)" "C ! j = Some (p, d')"
  shows "i = j"
proof -
  have "hm_get cache p = Some i" "hm_get cache p = Some j"
    using assms slots_ok_get by metis+
  then show ?thesis by simp
qed

lemma slots_ok_remove:
  assumes ok: "slots_ok cache free C (xs @ i # ys)" and p: "C ! i = Some (p, d)"
  shows "slots_ok (hm_remove p cache) (free @ [i]) (C[i := None]) (xs @ ys)"
proof -
  have i: "i < length C" using ok by (auto simp: slots_ok_def)
  have occ: "insert i (set xs \<union> set ys) = {j. j < length C \<and> C ! j \<noteq> None}" "distinct (xs @ i # ys)"
    using ok by (simp_all add: slots_ok_def)
  have dist: "distinct (xs @ ys)" using occ by simp
  have used: "set (xs @ ys) = {j. j < length (C[i := None]) \<and> C[i := None] ! j \<noteq> None}"
  proof -
    have "set (xs @ ys) = {j. j < length C \<and> C ! j \<noteq> None} - {i}" using occ by auto
    also have "\<dots> = {j. j < length (C[i := None]) \<and> C[i := None] ! j \<noteq> None}"
      using i by (auto simp: nth_list_update split: if_splits)
    finally show ?thesis .
  qed
  have free: "set (free @ [i]) = {j. j < length (C[i := None]) \<and> C[i := None] ! j = None}"
    "distinct (free @ [i])"
    using ok i p by (auto simp: slots_ok_def nth_list_update split: if_splits)
  have "hm_get (hm_remove p cache) q = Some j \<longleftrightarrow>
      j < length (C[i := None]) \<and> (\<exists>d. C[i := None] ! j = Some (q, d))" for q j
  proof -
    have eq: "q = p \<longleftrightarrow> j = i" if "j < length C" "C ! j = Some (q, d')" for d'
      using slots_ok_inj [OF ok i that(1) p] that(2) p by auto
    have "hm_get (hm_remove p cache) q = Some j \<longleftrightarrow> q \<noteq> p \<and> j < length C \<and> (\<exists>d. C ! j = Some (q, d))"
      using slots_ok_get [OF ok, of q j] by (simp del: map_of_eq_Some_iff)
    also have "\<dots> \<longleftrightarrow> j < length C \<and> j \<noteq> i \<and> (\<exists>d. C ! j = Some (q, d))"
      using eq by blast
    finally show ?thesis using i by (auto simp: nth_list_update split: if_splits)
  qed
  moreover have "hm_ok (hm_remove p cache)" using ok by (simp add: slots_ok_def)
  ultimately show ?thesis unfolding slots_ok_def using dist used free by blast
qed

lemma dseg_clear: "i \<notin> set xs \<Longrightarrow> dseg (ns[i := v]) p xs q = dseg ns p xs q"
  by (induction xs arbitrary: p) (auto simp: nth_list_update)

lemma contents_clear: "contents (ns[i := None]) = (contents ns)[i := None]"
  by (simp add: contents_def map_update)

lemma node_at_cache: "node_at (s\<lparr>lru_cache := c\<rparr>) i = node_at s i"
  by (simp add: node_at_def)

lemma remove_node_rel:
  assumes rel: "lru_rel s (xs @ i # ys)" and p: "contents (lru_nodes s) ! i = Some (p, d)"
  obtains ns h t where
    "remove_node i (s\<lparr>lru_cache := hm_remove p (lru_cache s)\<rparr>) =
       Some (s\<lparr>lru_cache := hm_remove p (lru_cache s), lru_nodes := ns, lru_head := h,
               lru_tail := t, lru_free_list := lru_free_list s @ [i]\<rparr>)"
    "contents ns = (contents (lru_nodes s))[i := None]"
    "lru_rel (s\<lparr>lru_cache := hm_remove p (lru_cache s), lru_nodes := ns, lru_head := h,
               lru_tail := t, lru_free_list := lru_free_list s @ [i]\<rparr>) (xs @ ys)"
proof -
  let ?s = "s\<lparr>lru_cache := hm_remove p (lru_cache s)\<rparr>"
  let ?ns = "(unlinked xs ys (lru_nodes s))[i := None]"
  let ?hd = "first_or (xs @ ys) None" and ?tl = "last_or (xs @ ys) None"
  obtain n where n: "node_at ?s i = Some (Some n)" "nd_prev n = last_or xs None"
    "nd_next n = first_or ys None"
    using node_at_rel [OF rel] node_at_cache by auto
  have dist: "distinct (xs @ i # ys)" using rel by (rule lru_rel_distinct)
  let ?t = "?s\<lparr>lru_head := ?hd, lru_tail := ?tl\<rparr>"
  have t: "(let s1 = if Some i = lru_head ?s then ?s\<lparr>lru_head := first_or ys None\<rparr> else ?s
            in if Some i = lru_tail s1 then s1\<lparr>lru_tail := last_or xs None\<rparr> else s1) = ?t"
    using rel first_or_remove_mid [OF dist] last_or_remove_mid [OF dist]
    by (auto simp: Let_def lru_rel_def split: if_splits)
  have rm: "remove_node i ?s = Some (?t\<lparr>lru_nodes := ?ns, lru_free_list := lru_free_list s @ [i]\<rparr>)"
    using t by (simp add: remove_node_def n Let_def unlink_steps [OF rel, of ?t])
  have seg: "dseg ?ns None (xs @ ys) None"
    using dseg_unlinked [of "lru_nodes s" xs i ys] rel dist
    by (simp add: lru_rel_def dseg_clear del: dseg.simps)
  have cont: "contents ?ns = (contents (lru_nodes s))[i := None]"
    by (simp add: contents_clear)
  show ?thesis
  proof (rule that)
    show "remove_node i ?s = Some (s\<lparr>lru_cache := hm_remove p (lru_cache s), lru_nodes := ?ns,
        lru_head := ?hd, lru_tail := ?tl, lru_free_list := lru_free_list s @ [i]\<rparr>)"
      using rm by simp
    show "lru_rel (s\<lparr>lru_cache := hm_remove p (lru_cache s), lru_nodes := ?ns,
        lru_head := ?hd, lru_tail := ?tl, lru_free_list := lru_free_list s @ [i]\<rparr>) (xs @ ys)"
      using rel seg slots_ok_remove [OF _ p, of "lru_cache s" "lru_free_list s" xs ys]
      by (simp add: lru_rel_def cont)
  qed (rule cont)
qed

lemma contents_nth: "i < length ns \<Longrightarrow> contents ns ! i = map_option (\<lambda>n. (nd_page_num n, nd_data n)) (ns ! i)"
  by (simp add: contents_def)

lemma length_contents [simp]: "length (contents ns) = length ns"
  by (simp add: contents_def)

lemma lru_rel_view:
  "lru_rel s xs \<Longrightarrow> lru_view s = map (\<lambda>i. the (contents (lru_nodes s) ! i)) xs"
  using lru_rel_order by (simp add: lru_view_def)

lemma lru_rel_slots: "lru_rel s xs \<Longrightarrow> slots_ok (lru_cache s) (lru_free_list s) (contents (lru_nodes s)) xs"
  by (simp add: lru_rel_def)

lemma slots_ok_entry:
  "slots_ok cache free C xs \<Longrightarrow> i \<in> set xs \<Longrightarrow> \<exists>p d. i < length C \<and> C ! i = Some (p, d)"
  by (auto simp: slots_ok_def)

lemma slots_pages_distinct:
  assumes "slots_ok cache free C xs"
  shows "distinct (map (fst \<circ> the \<circ> (!) C) xs)"
proof -
  have "inj_on (fst \<circ> the \<circ> (!) C) (set xs)"
  proof (rule inj_onI)
    fix i j assume "i \<in> set xs" "j \<in> set xs" and eq: "(fst \<circ> the \<circ> (!) C) i = (fst \<circ> the \<circ> (!) C) j"
    then obtain p d q e where "i < length C" "C ! i = Some (p, d)" "j < length C" "C ! j = Some (q, e)"
      using slots_ok_entry [OF assms] by metis
    with eq show "i = j" using slots_ok_inj [OF assms] by simp
  qed
  with assms show ?thesis by (simp add: slots_ok_def distinct_map)
qed

lemma view_distinct: "lru_rel s xs \<Longrightarrow> hm_ok (lru_view s)"
  using slots_pages_distinct [OF lru_rel_slots] by (simp add: lru_rel_view o_def)

lemma view_split:
  assumes rel: "lru_rel s (xs @ i # ys)" and C: "contents (lru_nodes s) ! i = Some (p, d)"
  defines "v \<equiv> map (\<lambda>i. the (contents (lru_nodes s) ! i))"
  shows "lru_view s = v xs @ (p, d) # v ys" "AList.delete p (lru_view s) = v xs @ v ys"
    "map_of (lru_view s) p = Some d"
proof -
  show v: "lru_view s = v xs @ (p, d) # v ys" using C by (simp add: lru_rel_view [OF rel] v_def)
  have "hm_ok (v xs @ (p, d) # v ys)" using view_distinct [OF rel] v by simp
  then have out: "p \<notin> fst ` set (v xs)" "p \<notin> fst ` set (v ys)" by auto
  then have "AList.delete p (v xs) = v xs" "AList.delete p (v ys) = v ys"
    by (auto simp: delete_id)
  then show "AList.delete p (lru_view s) = v xs @ v ys"
    unfolding v by (simp add: AList.delete_eq)
  show "map_of (lru_view s) p = Some d"
    unfolding v using out map_of_eq_None_iff [of "v xs" p] by (simp add: map_add_def)
qed

lemma cache_hit:
  assumes rel: "lru_rel s xs" and "hm_get (lru_cache s) p = Some i"
  obtains xs1 xs2 d where "xs = xs1 @ i # xs2" "contents (lru_nodes s) ! i = Some (p, d)"
proof -
  obtain d where d: "i < length (contents (lru_nodes s))" "contents (lru_nodes s) ! i = Some (p, d)"
    using slots_ok_get [OF lru_rel_slots [OF rel]] assms(2) by blast
  then have "i \<in> set xs" using lru_rel_slots [OF rel] by (auto simp: slots_ok_def)
  then show ?thesis using that d by (meson split_list)
qed

lemma cache_miss_view:
  assumes rel: "lru_rel s xs" and miss: "hm_get (lru_cache s) p = None"
  shows "map_of (lru_view s) p = None"
proof (rule ccontr)
  assume "map_of (lru_view s) p \<noteq> None"
  then obtain d where "(p, d) \<in> set (lru_view s)" by (auto dest: map_of_SomeD)
  then obtain i where i: "i \<in> set xs" "the (contents (lru_nodes s) ! i) = (p, d)"
    by (auto simp: lru_rel_view [OF rel])
  then obtain q e where "i < length (contents (lru_nodes s))" "contents (lru_nodes s) ! i = Some (q, e)"
    using slots_ok_entry [OF lru_rel_slots [OF rel]] by blast
  with i have "hm_get (lru_cache s) p = Some i"
    using slots_ok_get [OF lru_rel_slots [OF rel], of p i] by simp
  with miss show False by simp
qed

lemma cache_view_None_iff: "lru_rel s xs \<Longrightarrow> hm_get (lru_cache s) p = None \<longleftrightarrow> map_of (lru_view s) p = None"
proof (rule iffI)
  assume rel: "lru_rel s xs" and n: "map_of (lru_view s) p = None"
  show "hm_get (lru_cache s) p = None"
  proof (cases "hm_get (lru_cache s) p")
    case (Some i)
    then obtain xs1 xs2 d where x: "xs = xs1 @ i # xs2" "contents (lru_nodes s) ! i = Some (p, d)"
      using cache_hit [OF rel] by metis
    then have "map_of (lru_view s) p = Some d" using rel view_split(3) by simp
    with n show ?thesis by simp
  qed
qed (rule cache_miss_view)

lemma length_cache_view: "lru_rel s xs \<Longrightarrow> length (lru_cache s) = length (lru_view s)"
proof -
  assume rel: "lru_rel s xs"
  have "fst ` set (lru_cache s) = fst ` set (lru_view s)"
    using cache_view_None_iff [OF rel] by (auto simp: map_of_eq_None_iff set_eq_iff)
  then have "card (set (map fst (lru_cache s))) = card (set (map fst (lru_view s)))" by simp
  moreover have "hm_ok (lru_cache s)" using rel by (simp add: lru_rel_def slots_ok_def)
  ultimately show ?thesis
    using view_distinct [OF rel] by (metis distinct_card length_map)
qed

lemma map_clear_other:
  "i \<notin> set xs \<Longrightarrow> map (\<lambda>j. the (C[i := v] ! j)) xs = map (\<lambda>j. the (C ! j)) xs"
  by (induction xs) auto

lemma lru_relI: "lru_rel s xs \<Longrightarrow> lru_inv s" by (auto simp: lru_inv_iff)

lemma get_refines:
  assumes "lru_inv s"
  obtains s' where "lru_get p s = Some (map_of (lru_view s) p, s')" "lru_inv s'"
    "lru_view s' = touch p (lru_view s)" "lru_dirty s' = lru_dirty s"
    "lru_capacity s' = lru_capacity s"
proof -
  obtain xs where rel: "lru_rel s xs" using assms by (auto simp: lru_inv_iff)
  show ?thesis
  proof (cases "hm_get (lru_cache s) p")
    case None
    then show ?thesis using that [of s] assms cache_miss_view [OF rel]
      by (simp add: lru_get_def touch_def)
  next
    case (Some i)
    then obtain xs1 xs2 d where xs: "xs = xs1 @ i # xs2" and C: "contents (lru_nodes s) ! i = Some (p, d)"
      using cache_hit [OF rel] by metis
    obtain ns h t where mv: "move_to_front i s = Some (s\<lparr>lru_nodes := ns, lru_head := h, lru_tail := t\<rparr>)"
      and cs: "contents ns = contents (lru_nodes s)"
      and rel': "lru_rel (s\<lparr>lru_nodes := ns, lru_head := h, lru_tail := t\<rparr>) (i # xs1 @ xs2)"
      using move_to_front_rel rel xs by blast
    let ?s = "s\<lparr>lru_nodes := ns, lru_head := h, lru_tail := t\<rparr>"
    have i: "i < length ns" using lru_rel_in [OF rel', of i] by simp
    have "map_option nd_data (ns ! i) = Some d"
      using C contents_nth [OF i] unfolding cs by (cases "ns ! i") auto
    then have "lru_get p s = Some (Some d, ?s)"
      using Some mv i by (simp add: lru_get_def node_at_def)
    moreover have "lru_view ?s = (p, d) # AList.delete p (lru_view s)"
      using view_split(2) [OF rel [unfolded xs] C] C by (simp add: lru_rel_view [OF rel'] cs)
    ultimately show ?thesis
      using that [of ?s] lru_relI [OF rel'] view_split(3) [of s xs1 i xs2] rel xs C
      by (simp add: touch_def)
  qed
qed

lemma get_read_only_refines:
  assumes "lru_inv s"
  shows "lru_get_read_only p s = Some (map_of (lru_view s) p)"
proof -
  obtain xs where rel: "lru_rel s xs" using assms by (auto simp: lru_inv_iff)
  show ?thesis
  proof (cases "hm_get (lru_cache s) p")
    case None
    then show ?thesis using cache_miss_view [OF rel] by (simp add: lru_get_read_only_def)
  next
    case (Some i)
    then obtain xs1 xs2 d where xs: "xs = xs1 @ i # xs2" and C: "contents (lru_nodes s) ! i = Some (p, d)"
      using cache_hit [OF rel] by metis
    have i: "i < length (lru_nodes s)" using lru_rel_in [OF rel, of i] xs by simp
    then have "map_option nd_data (lru_nodes s ! i) = Some d" using C contents_nth [OF i] by (cases "lru_nodes s ! i") auto
    then show ?thesis using Some i view_split(3) [of s xs1 i xs2 p d] rel xs C
      by (simp add: lru_get_read_only_def node_at_def)
  qed
qed

lemma drop_last_clean_snoc:
  "drop_last_clean dirty (es @ [e]) = (if dirty (fst e) then drop_last_clean dirty es @ [e] else es)"
  by (simp add: drop_last_clean_def)

lemma drop_last_clean_dirty_suffix:
  "\<forall>e \<in> set zs. dirty (fst e) \<Longrightarrow> drop_last_clean dirty (es @ zs) = drop_last_clean dirty es @ zs"
proof (induction zs arbitrary: es rule: rev_induct)
  case Nil
  then show ?case by simp
next
  case (snoc z zs)
  then have "drop_last_clean dirty ((es @ zs) @ [z]) = (drop_last_clean dirty es @ zs) @ [z]"
    by (simp add: drop_last_clean_snoc del: append_assoc)
  then show ?case by simp
qed

lemma evict_loop_refines:
  assumes "lru_rel s (ys @ zs)" "length ys \<le> fuel"
    and "\<forall>i \<in> set zs. cache_is_dirty (fst (the (contents (lru_nodes s) ! i))) s"
  shows "\<exists>found s'. evict_loop fuel (last_or ys None) s = Some (found, s') \<and> lru_inv s' \<and>
    lru_view s' = drop_last_clean (\<lambda>p. cache_is_dirty p s) (lru_view s) \<and>
    lru_dirty s' = lru_dirty s \<and> lru_capacity s' = lru_capacity s"
  using assms
proof (induction ys arbitrary: zs fuel rule: rev_induct)
  case Nil
  let ?v = "map (\<lambda>i. the (contents (lru_nodes s) ! i))"
  have "drop_last_clean (\<lambda>p. cache_is_dirty p s) ([] @ ?v zs) = [] @ ?v zs"
    using Nil.prems(3) by (subst drop_last_clean_dirty_suffix) (auto simp: drop_last_clean_def)
  then have "lru_view s = drop_last_clean (\<lambda>p. cache_is_dirty p s) (lru_view s)"
    using lru_rel_view [OF Nil.prems(1)] by simp
  moreover have "evict_loop fuel None s = Some (False, s)" by (cases fuel) auto
  ultimately show ?case using lru_relI [OF Nil.prems(1)] by auto
next
  case (snoc i ys)
  then obtain left where fuel: "fuel = Suc left" "length ys \<le> left" by (cases fuel) auto
  have rel: "lru_rel s (ys @ i # zs)" using snoc.prems(1) by simp
  obtain n where n: "node_at s i = Some (Some n)" "nd_prev n = last_or ys None"
    using node_at_rel [OF rel] by blast
  have i: "i < length (lru_nodes s)" and ni: "lru_nodes s ! i = Some n"
    using n(1) by (auto simp: node_at_def split: if_splits)
  have C: "contents (lru_nodes s) ! i = Some (nd_page_num n, nd_data n)"
    using ni contents_nth [OF i] by simp
  show ?case
  proof (cases "cache_is_dirty (nd_page_num n) s")
    case True
    have "\<forall>j \<in> set (i # zs). cache_is_dirty (fst (the (contents (lru_nodes s) ! j))) s"
      using True C snoc.prems(3) by simp
    then show ?thesis using snoc.IH [of "i # zs" left] rel fuel n True
      by (simp add: cache_is_dirty_def)
  next
    case False
    let ?v = "map (\<lambda>i. the (contents (lru_nodes s) ! i))"
    obtain ns h t where rm: "remove_node i (s\<lparr>lru_cache := hm_remove (nd_page_num n) (lru_cache s)\<rparr>) =
       Some (s\<lparr>lru_cache := hm_remove (nd_page_num n) (lru_cache s), lru_nodes := ns, lru_head := h,
               lru_tail := t, lru_free_list := lru_free_list s @ [i]\<rparr>)"
      and cs: "contents ns = (contents (lru_nodes s))[i := None]"
      and rel': "lru_rel (s\<lparr>lru_cache := hm_remove (nd_page_num n) (lru_cache s), lru_nodes := ns,
               lru_head := h, lru_tail := t, lru_free_list := lru_free_list s @ [i]\<rparr>) (ys @ zs)"
      using remove_node_rel [OF rel C] by metis
    let ?t = "s\<lparr>lru_cache := hm_remove (nd_page_num n) (lru_cache s), lru_nodes := ns,
               lru_head := h, lru_tail := t, lru_free_list := lru_free_list s @ [i]\<rparr>"
    let ?s = "?t\<lparr>lru_failed_evictions := 0\<rparr>"
    have rel'': "lru_rel ?s (ys @ zs)" using rel' by (simp add: lru_rel_def)
    have "evict_loop fuel (last_or (ys @ [i]) None) s = Some (True, ?s)"
      using False rm n fuel by (simp add: cache_is_dirty_def)
    moreover have "lru_view ?s = ?v ys @ ?v zs"
      using lru_rel_distinct [OF rel] by (simp add: lru_rel_view [OF rel''] cs map_clear_other del: map_eq_conv)
    moreover have "drop_last_clean (\<lambda>p. cache_is_dirty p s) (lru_view s) = ?v ys @ ?v zs"
    proof -
      have "drop_last_clean (\<lambda>p. cache_is_dirty p s) ((?v ys @ [(nd_page_num n, nd_data n)]) @ ?v zs)
          = ?v ys @ ?v zs"
        using snoc.prems(3) False
        by (subst drop_last_clean_dirty_suffix) (auto simp: drop_last_clean_snoc)
      then show ?thesis using view_split(1) [OF rel C] by simp
    qed
    ultimately show ?thesis using lru_relI [OF rel''] by auto
  qed
qed

lemma evict_refines:
  assumes "lru_rel s xs"
  shows "\<exists>s'. evict s = Some s' \<and> lru_inv s' \<and>
    lru_view s' = drop_last_clean (\<lambda>p. cache_is_dirty p s) (lru_view s) \<and>
    lru_dirty s' = lru_dirty s \<and> lru_capacity s' = lru_capacity s"
proof -
  have len: "length xs \<le> length (lru_cache s)"
    using length_cache_view [OF assms] lru_rel_view [OF assms] by simp
  obtain found t where t: "evict_loop (length (lru_cache s)) (last_or xs None) s = Some (found, t)"
    "lru_inv t" "lru_view t = drop_last_clean (\<lambda>p. cache_is_dirty p s) (lru_view s)"
    "lru_dirty t = lru_dirty s" "lru_capacity t = lru_capacity s"
    using evict_loop_refines [of s xs "[]" "length (lru_cache s)"] assms len by auto
  have tail: "lru_tail s = last_or xs None" using assms by (simp add: lru_rel_def)
  let ?u = "t\<lparr>lru_failed_evictions := lru_failed_evictions t + 1\<rparr>"
  have u: "lru_inv ?u" "lru_view ?u = lru_view t"
    using t(2) by (simp_all add: lru_inv_def lru_rel_def lru_order_def lru_view_def)
  show ?thesis using t u by (cases found) (simp_all add: evict_def tail)
qed

lemma slots_ok_extend:
  assumes ok: "slots_ok cache free C xs" and miss: "hm_get cache p = None"
    and i: "i < length C'" "C' ! i = Some (p, d)" "i \<notin> set xs"
    and used: "{j. j < length C' \<and> C' ! j \<noteq> None} = insert i {j. j < length C \<and> C ! j \<noteq> None}"
    and free: "distinct free'" "set free' = {j. j < length C' \<and> C' ! j = None}"
    and same: "\<And>j. j < length C \<Longrightarrow> j \<noteq> i \<Longrightarrow> C' ! j = C ! j"
  shows "slots_ok (hm_insert p i cache) free' C' (i # xs)"
proof -
  have "hm_get (hm_insert p i cache) q = Some j \<longleftrightarrow> j < length C' \<and> (\<exists>e. C' ! j = Some (q, e))" for q j
  proof (cases "j = i")
    case True
    have "hm_get cache q \<noteq> Some i"
      using ok i(3) by (auto simp: slots_ok_def)
    then show ?thesis using True i by auto
  next
    case False
    have mem: "j < length C' \<and> C' ! j \<noteq> None \<longleftrightarrow> j < length C \<and> C ! j \<noteq> None"
      using used False by blast
    have "hm_get (hm_insert p i cache) q = Some j \<longleftrightarrow> hm_get cache q = Some j"
      using False miss by auto
    also have "\<dots> \<longleftrightarrow> j < length C \<and> (\<exists>e. C ! j = Some (q, e))" using slots_ok_get [OF ok] .
    also have "\<dots> \<longleftrightarrow> j < length C' \<and> (\<exists>e. C' ! j = Some (q, e))"
      using mem same [of j] False by fastforce
    finally show ?thesis .
  qed
  moreover have "set (i # xs) = {j. j < length C' \<and> C' ! j \<noteq> None}"
    using ok used by (simp add: slots_ok_def)
  ultimately show ?thesis
    unfolding slots_ok_def using ok i(3) free by (simp add: slots_ok_def)
qed

lemma distinct_set_butlast: "distinct xs \<Longrightarrow> xs \<noteq> [] \<Longrightarrow> set (butlast xs) = set xs - {last xs}"
  by (cases xs rule: rev_cases) auto

lemma dseg_mono_append: "dseg ns p xs q \<Longrightarrow> dseg (ns @ ms) p xs q"
  by (induction xs arbitrary: p) (auto simp: nth_append)


lemma allocate_node_rel:
  assumes rel: "lru_rel s xs" and miss: "hm_get (lru_cache s) p = None"
  obtains i ns free where
    "allocate_node p d s = Some (i, s\<lparr>lru_nodes := ns, lru_free_list := free\<rparr>)"
    "i \<notin> set xs" "i < length ns" "contents ns ! i = Some (p, d)"
    "dseg ns None xs None"
    "map (\<lambda>j. the (contents ns ! j)) xs = map (\<lambda>j. the (contents (lru_nodes s) ! j)) xs"
    "slots_ok (hm_insert p i (lru_cache s)) free (contents ns) (i # xs)"
proof -
  let ?n = "\<lparr>nd_page_num = p, nd_data = d, nd_prev = None, nd_next = None\<rparr>"
  let ?N = "lru_nodes s" and ?C = "contents (lru_nodes s)"
  have ok: "slots_ok (lru_cache s) (lru_free_list s) ?C xs" using rel by (rule lru_rel_slots)
  have seg: "dseg ?N None xs None" using rel by (simp add: lru_rel_def)
  have bnd: "\<And>j. j \<in> set xs \<Longrightarrow> j < length ?N" using ok by (auto simp: slots_ok_def)
  show ?thesis
  proof (cases "lru_free_list s = []")
    case True
    let ?i = "length ?N" and ?ns = "?N @ [Some ?n]"
    have C: "contents ?ns = ?C @ [Some (p, d)]" by (simp add: contents_def)
    have "dseg ?ns None xs None"
      using seg by (rule dseg_mono_append)
    moreover have "slots_ok (hm_insert p ?i (lru_cache s)) [] (contents ?ns) (?i # xs)"
    proof (rule slots_ok_extend [OF ok miss])
      show "{j. j < length (contents ?ns) \<and> contents ?ns ! j \<noteq> None} =
          insert ?i {j. j < length ?C \<and> ?C ! j \<noteq> None}"
        unfolding C by (auto simp: nth_append less_Suc_eq)
      show "set [] = {j. j < length (contents ?ns) \<and> contents ?ns ! j = None}"
        using ok True unfolding C by (auto simp: slots_ok_def nth_append less_Suc_eq split: if_splits)
    qed (use bnd in \<open>auto simp: C nth_append\<close>)
    moreover have "map (\<lambda>j. the (contents ?ns ! j)) xs = map (\<lambda>j. the (?C ! j)) xs"
      using bnd by (simp add: C nth_append)
    ultimately show ?thesis
      using that [where i = ?i and ns = ?ns and free = "[]"] True bnd by (auto simp: allocate_node_def C nth_append)
  next
    case False
    let ?i = "last (lru_free_list s)" and ?f = "butlast (lru_free_list s)"
    let ?ns = "?N[?i := Some ?n]"
    have "?i \<in> set (lru_free_list s)" using False by simp
    then have i: "?i < length ?N" "?C ! ?i = None" "?i \<notin> set xs" using ok by (auto simp: slots_ok_def)
    have C: "contents ?ns = ?C[?i := Some (p, d)]" by (simp add: contents_def map_update)
    have f: "distinct ?f" "set ?f = set (lru_free_list s) - {?i}"
      using ok False distinct_set_butlast by (auto simp: slots_ok_def distinct_butlast)
    have "slots_ok (hm_insert p ?i (lru_cache s)) ?f (contents ?ns) (?i # xs)"
    proof (rule slots_ok_extend [OF ok miss])
      show "{j. j < length (contents ?ns) \<and> contents ?ns ! j \<noteq> None} =
          insert ?i {j. j < length ?C \<and> ?C ! j \<noteq> None}"
        unfolding C using i by (auto simp: nth_list_update)
      show "set ?f = {j. j < length (contents ?ns) \<and> contents ?ns ! j = None}"
        using ok f i unfolding C by (auto simp: slots_ok_def nth_list_update split: if_splits)
    qed (use i f in \<open>auto simp: C\<close>)
    moreover have "dseg ?ns None xs None" using seg i by (simp add: dseg_clear)
    moreover have "map (\<lambda>j. the (contents ?ns ! j)) xs = map (\<lambda>j. the (?C ! j)) xs"
      using i unfolding C by (simp add: map_clear_other del: map_eq_conv)
    ultimately show ?thesis
      using that [where i = ?i and ns = ?ns and free = ?f] False i by (simp add: allocate_node_def C Let_def)
  qed
qed

lemma insert_front_rel:
  assumes rel: "lru_rel s xs" and miss: "hm_get (lru_cache s) p = None"
  obtains i t u where "allocate_node p d s = Some (i, t)"
    "add_to_front i (t\<lparr>lru_cache := hm_insert p i (lru_cache t)\<rparr>) = Some u"
    "lru_rel u (i # xs)" "lru_view u = (p, d) # lru_view s"
    "lru_dirty u = lru_dirty s" "lru_capacity u = lru_capacity s"
proof -
  obtain i ns free where a: "allocate_node p d s = Some (i, s\<lparr>lru_nodes := ns, lru_free_list := free\<rparr>)"
    and i: "i \<notin> set xs" "i < length ns" "contents ns ! i = Some (p, d)"
    and seg: "dseg ns None xs None"
    and same: "map (\<lambda>j. the (contents ns ! j)) xs = map (\<lambda>j. the (contents (lru_nodes s) ! j)) xs"
    and ok: "slots_ok (hm_insert p i (lru_cache s)) free (contents ns) (i # xs)"
    using allocate_node_rel [OF rel miss] by metis
  let ?t = "s\<lparr>lru_nodes := ns, lru_free_list := free\<rparr>"
  let ?c = "?t\<lparr>lru_cache := hm_insert p i (lru_cache ?t)\<rparr>"
  let ?u = "?c\<lparr>lru_nodes := linked_front i xs ns, lru_head := Some i,
      lru_tail := (if lru_tail s = None then Some i else lru_tail s)\<rparr>"
  have ht: "lru_head s = first_or xs None" "lru_tail s = last_or xs None"
    using rel by (simp_all add: lru_rel_def)
  have add: "add_to_front i ?c = Some ?u"
    using front_steps [of i ?c xs] i seg ht first_or_in [of xs] dseg_in [OF seg] by auto
  have "ns ! i \<noteq> None" using i contents_nth [of i ns] by auto
  then have "dseg (linked_front i xs ns) None (i # xs) None"
    using dseg_linked_front seg i ok by (auto simp: slots_ok_def)
  moreover have "lru_tail ?u = last_or (i # xs) None" using ht by (auto simp: last_or_def)
  ultimately have rel': "lru_rel ?u (i # xs)" using rel ok by (simp add: lru_rel_def del: dseg.simps)
  moreover have "lru_view ?u = (p, d) # lru_view s"
    unfolding lru_rel_view [OF rel'] using i same lru_rel_view [OF rel] by (simp del: map_eq_conv)
  ultimately show ?thesis using that a add by simp
qed

lemma dseg_data: "dseg (upd_ns l (nd_data_update f) ns) p xs q = dseg ns p xs q"
proof (induction xs arbitrary: p)
  case (Cons i xs)
  then show ?case by (cases "i < length ns") (auto simp: nth_upd_ns)
qed simp

lemma contents_data:
  assumes "i < length ns" "contents ns ! i = Some (p, e)"
  shows "contents (upd_ns (Some i) (nd_data_update (\<lambda>_. d)) ns) = (contents ns)[i := Some (p, d)]"
proof (rule nth_equalityI)
  fix j assume "j < length (contents (upd_ns (Some i) (nd_data_update (\<lambda>_. d)) ns))"
  then have j: "j < length ns" by simp
  show "contents (upd_ns (Some i) (nd_data_update (\<lambda>_. d)) ns) ! j = (contents ns)[i := Some (p, d)] ! j"
    using assms j by (cases "ns ! i") (auto simp: contents_nth nth_upd_ns nth_list_update)
qed simp

lemma slots_ok_data:
  assumes ok: "slots_ok cache free C xs" and i: "i < length C" "C ! i = Some (p, e)"
  shows "slots_ok cache free (C[i := Some (p, d)]) xs"
proof -
  define D where "D = C[i := Some (p, d)]"
  have len: "length D = length C" by (simp add: D_def)
  have none: "D ! j = None \<longleftrightarrow> C ! j = None" for j
    using i by (cases "j = i") (simp_all add: D_def)
  have page: "(\<exists>e. D ! j = Some (q, e)) \<longleftrightarrow> (\<exists>e. C ! j = Some (q, e))" for j q
    using i by (cases "j = i") (simp_all add: D_def)
  have "slots_ok cache free D xs" using ok unfolding slots_ok_def len none page .
  then show ?thesis by (simp add: D_def)
qed

lemma set_data_rel:
  assumes rel: "lru_rel s (i # xs)" and C: "contents (lru_nodes s) ! i = Some (p, e)"
  obtains ns where "upd_node i (nd_data_update (\<lambda>_. d)) s = Some (s\<lparr>lru_nodes := ns\<rparr>)"
    "lru_rel (s\<lparr>lru_nodes := ns\<rparr>) (i # xs)"
    "lru_view (s\<lparr>lru_nodes := ns\<rparr>) = (p, d) # AList.delete p (lru_view s)"
proof -
  let ?ns = "upd_ns (Some i) (nd_data_update (\<lambda>_. d)) (lru_nodes s)"
  have i: "i < length (lru_nodes s)" using lru_rel_in [OF rel, of i] by simp
  have cs: "contents ?ns = (contents (lru_nodes s))[i := Some (p, d)]"
    using contents_data [OF i C] .
  have rel': "lru_rel (s\<lparr>lru_nodes := ?ns\<rparr>) (i # xs)"
    using rel slots_ok_data [OF lru_rel_slots [OF rel], of i p e d] i C
    by (simp add: lru_rel_def dseg_data cs del: dseg.simps)
  have "i \<notin> set xs" using lru_rel_distinct [OF rel] by simp
  then have "lru_view (s\<lparr>lru_nodes := ?ns\<rparr>) = (p, d) # AList.delete p (lru_view s)"
    using view_split(2) [of s "[]" i xs, OF _ C] rel i
    by (simp add: lru_rel_view [OF rel'] cs map_clear_other del: map_eq_conv)
  then show ?thesis using that rel' upd_node_eq [OF i] by simp
qed

lemma delete_touch: "map_of es p = Some e \<Longrightarrow> AList.delete p (touch p es) = AList.delete p es"
  by (simp add: touch_def AList.delete_eq)

text \<open>A hit in \<open>put\<close> and \<open>put_dirty_atomic\<close>.\<close>

lemma put_hit:
  assumes rel: "lru_rel s xs" and hit: "hm_get (lru_cache s) p = Some i"
  obtains t u where "move_to_front i s = Some t" "upd_node i (nd_data_update (\<lambda>_. d)) t = Some u"
    "lru_inv u" "lru_view u = (p, d) # AList.delete p (lru_view s)"
    "lru_dirty u = lru_dirty s" "lru_capacity u = lru_capacity s"
proof -
  obtain xs1 xs2 e where xs: "xs = xs1 @ i # xs2" and C: "contents (lru_nodes s) ! i = Some (p, e)"
    using cache_hit [OF rel hit] by metis
  obtain ns h t where mv: "move_to_front i s = Some (s\<lparr>lru_nodes := ns, lru_head := h, lru_tail := t\<rparr>)"
    and cs: "contents ns = contents (lru_nodes s)"
    and rel': "lru_rel (s\<lparr>lru_nodes := ns, lru_head := h, lru_tail := t\<rparr>) (i # xs1 @ xs2)"
    using move_to_front_rel rel xs by blast
  let ?t = "s\<lparr>lru_nodes := ns, lru_head := h, lru_tail := t\<rparr>"
  obtain ms where ms: "upd_node i (nd_data_update (\<lambda>_. d)) ?t = Some (?t\<lparr>lru_nodes := ms\<rparr>)"
    "lru_rel (?t\<lparr>lru_nodes := ms\<rparr>) (i # xs1 @ xs2)"
    "lru_view (?t\<lparr>lru_nodes := ms\<rparr>) = (p, d) # AList.delete p (lru_view ?t)"
    using set_data_rel [OF rel', of p e d] C cs by auto
  have "AList.delete p (lru_view ?t) = AList.delete p (lru_view s)"
    using view_split(2) [OF rel [unfolded xs] C] view_split(2) [of ?t "[]" i "xs1 @ xs2" p e] rel' C cs
    by simp
  then show ?thesis using that [OF mv ms(1)] ms lru_relI by simp
qed

lemma put_refines:
  assumes "lru_inv s"
  shows "\<exists>s'. lru_put p d s = Some s' \<and> lru_inv s' \<and>
    lru_view s' = spec_put (lru_capacity s) (\<lambda>q. cache_is_dirty q s) p d (lru_view s) \<and>
    lru_dirty s' = lru_dirty s \<and> lru_capacity s' = lru_capacity s"
proof -
  obtain xs where rel: "lru_rel s xs" using assms by (auto simp: lru_inv_iff)
  show ?thesis
  proof (cases "hm_get (lru_cache s) p")
    case None
    then obtain i t u where u: "allocate_node p d s = Some (i, t)"
      "add_to_front i (t\<lparr>lru_cache := hm_insert p i (lru_cache t)\<rparr>) = Some u"
      "lru_rel u (i # xs)" "lru_view u = (p, d) # lru_view s"
      "lru_dirty u = lru_dirty s" "lru_capacity u = lru_capacity s"
      using insert_front_rel [OF rel] by metis
    have dirty: "cache_is_dirty q u = cache_is_dirty q s" for q using u by (simp add: cache_is_dirty_def)
    have "length (lru_cache u) = Suc (length (lru_view s))" using length_cache_view [OF u(3)] u(4) by simp
    then show ?thesis using evict_refines [OF u(3)] u None cache_miss_view [OF rel None] lru_relI [OF u(3)]
      by (auto simp: lru_put_def spec_put_def dirty)
  next
    case (Some i)
    then obtain t u where "move_to_front i s = Some t" "upd_node i (nd_data_update (\<lambda>_. d)) t = Some u"
      "lru_inv u" "lru_view u = (p, d) # AList.delete p (lru_view s)"
      "lru_dirty u = lru_dirty s" "lru_capacity u = lru_capacity s"
      using put_hit [OF rel] by metis
    then show ?thesis using Some cache_view_None_iff [OF rel, of p]
      by (auto simp: lru_put_def spec_put_def)
  qed
qed

lemma lru_inv_dirty: "lru_inv s \<Longrightarrow> dirty_ok m \<Longrightarrow> lru_inv (s\<lparr>lru_dirty := m\<rparr>)"
  by (simp add: lru_inv_def lru_rel_def lru_order_def)

lemma lru_view_dirty [simp]: "lru_view (s\<lparr>lru_dirty := m\<rparr>) = lru_view s"
  by (simp add: lru_view_def lru_order_def)

lemma lru_rel_dirty: "lru_rel s xs \<Longrightarrow> dirty_ok m \<Longrightarrow> lru_rel (s\<lparr>lru_dirty := m\<rparr>) xs"
  by (simp add: lru_rel_def)

lemma lru_inv_dirty_ok: "lru_inv s \<Longrightarrow> dirty_ok (lru_dirty s)"
  by (simp add: lru_inv_def lru_rel_def)

lemma put_dirty_atomic_refines:
  assumes "lru_inv s"
  shows "\<exists>s'. put_dirty_atomic p d s = Some s' \<and> lru_inv s' \<and>
    lru_view s' = spec_put (lru_capacity s) (\<lambda>q. q = p \<or> cache_is_dirty q s) p d (lru_view s) \<and>
    lru_dirty s' = hm_insert p True (lru_dirty s) \<and> lru_capacity s' = lru_capacity s"
proof -
  obtain xs where rel: "lru_rel s xs" using assms by (auto simp: lru_inv_iff)
  have dok: "dirty_ok (hm_insert p True (lru_dirty s))" using lru_inv_dirty_ok [OF assms] by (rule dirty_ok_insert)
  show ?thesis
  proof (cases "hm_get (lru_cache s) p")
    case None
    then obtain i t u where u: "allocate_node p d s = Some (i, t)"
      "add_to_front i (t\<lparr>lru_cache := hm_insert p i (lru_cache t)\<rparr>) = Some u"
      "lru_rel u (i # xs)" "lru_view u = (p, d) # lru_view s"
      "lru_dirty u = lru_dirty s" "lru_capacity u = lru_capacity s"
      using insert_front_rel [OF rel] by metis
    let ?u = "u\<lparr>lru_dirty := hm_insert p True (lru_dirty s)\<rparr>"
    have rel': "lru_rel ?u (i # xs)" using u(3) dok by (rule lru_rel_dirty)
    have dirty: "cache_is_dirty q ?u \<longleftrightarrow> q = p \<or> cache_is_dirty q s" for q
      by (simp add: cache_is_dirty_def)
    have "length (lru_cache u) = Suc (length (lru_view s))" using length_cache_view [OF u(3)] u(4) by simp
    then show ?thesis using evict_refines [OF rel'] u None cache_miss_view [OF rel None] lru_relI [OF rel']
      by (auto simp: put_dirty_atomic_def spec_put_def dirty)
  next
    case (Some i)
    then obtain t u where "move_to_front i s = Some t" "upd_node i (nd_data_update (\<lambda>_. d)) t = Some u"
      "lru_inv u" "lru_view u = (p, d) # AList.delete p (lru_view s)"
      "lru_dirty u = lru_dirty s" "lru_capacity u = lru_capacity s"
      using put_hit [OF rel] by metis
    then show ?thesis using Some cache_view_None_iff [OF rel, of p] lru_inv_dirty dok
      by (auto simp: put_dirty_atomic_def spec_put_def)
  qed
qed

lemma remove_refines:
  assumes "lru_inv s"
  shows "\<exists>s'. lru_remove p s = Some s' \<and> lru_inv s' \<and> lru_view s' = AList.delete p (lru_view s) \<and>
    lru_dirty s' = (if map_of (lru_view s) p = None then lru_dirty s else hm_remove p (lru_dirty s)) \<and>
    lru_capacity s' = lru_capacity s"
proof -
  obtain xs where rel: "lru_rel s xs" using assms by (auto simp: lru_inv_iff)
  show ?thesis
  proof (cases "hm_get (lru_cache s) p")
    case None
    then have "map_of (lru_view s) p = None" by (rule cache_miss_view [OF rel])
    moreover from this have "AList.delete p (lru_view s) = lru_view s"
      by (simp add: delete_id map_of_eq_None_iff)
    ultimately show ?thesis using None assms by (simp add: lru_remove_def)
  next
    case (Some i)
    obtain xs1 xs2 e where xs: "xs = xs1 @ i # xs2" and C: "contents (lru_nodes s) ! i = Some (p, e)"
      using cache_hit [OF rel Some] by metis
    obtain ns h t where rm: "remove_node i (s\<lparr>lru_cache := hm_remove p (lru_cache s)\<rparr>) =
       Some (s\<lparr>lru_cache := hm_remove p (lru_cache s), lru_nodes := ns, lru_head := h,
               lru_tail := t, lru_free_list := lru_free_list s @ [i]\<rparr>)"
      and cs: "contents ns = (contents (lru_nodes s))[i := None]"
      and rel': "lru_rel (s\<lparr>lru_cache := hm_remove p (lru_cache s), lru_nodes := ns,
               lru_head := h, lru_tail := t, lru_free_list := lru_free_list s @ [i]\<rparr>) (xs1 @ xs2)"
      using remove_node_rel [OF rel [unfolded xs] C] by metis
    let ?t = "s\<lparr>lru_cache := hm_remove p (lru_cache s), lru_nodes := ns,
               lru_head := h, lru_tail := t, lru_free_list := lru_free_list s @ [i]\<rparr>"
    have "distinct (xs1 @ i # xs2)" using lru_rel_distinct rel xs by blast
    then have "lru_view ?t = AList.delete p (lru_view s)"
      using view_split(2) [OF rel [unfolded xs] C]
      by (simp add: lru_rel_view [OF rel'] cs map_clear_other del: map_eq_conv)
    moreover have "lru_inv (?t\<lparr>lru_dirty := hm_remove p (lru_dirty s)\<rparr>)"
      using lru_inv_dirty [OF lru_relI [OF rel']] dirty_ok_remove [OF lru_inv_dirty_ok [OF assms]] by blast
    moreover have "map_of (lru_view s) p \<noteq> None" using cache_view_None_iff [OF rel, of p] Some by simp
    ultimately show ?thesis using Some rm by (auto simp: lru_remove_def)
  qed
qed

lemma lru_inv_new: "lru_inv (lru_new n)"
  by (simp add: lru_inv_def lru_rel_def lru_order_def lru_new_def slots_ok_def contents_def dirty_ok_def)

lemma lru_view_new: "lru_view (lru_new n) = []"
  by (simp add: lru_view_def lru_order_def lru_new_def)

lemma map_of_distinct_member: "hm_ok es \<Longrightarrow> map_of es q = Some x \<longleftrightarrow> (q, x) \<in> set es"
  by simp

lemma drop_first_clean_keeps: "e \<in> set es \<Longrightarrow> dirty (fst e) \<Longrightarrow> e \<in> set (drop_first_clean dirty es)"
  by (induction es) auto

lemma drop_first_clean_subset: "set (drop_first_clean dirty es) \<subseteq> set es"
  by (induction es) auto

lemma drop_first_clean_ok: "hm_ok es \<Longrightarrow> hm_ok (drop_first_clean dirty es)"
  using drop_first_clean_subset by (induction es) force+

lemma length_drop_first_clean:
  "length (drop_first_clean dirty es) = (if \<forall>e \<in> set es. dirty (fst e) then length es else length es - 1)"
proof (induction es)
  case (Cons e es)
  then show ?case by (cases es) auto
qed simp

lemma drop_last_clean_keeps: "e \<in> set es \<Longrightarrow> dirty (fst e) \<Longrightarrow> e \<in> set (drop_last_clean dirty es)"
  by (simp add: drop_last_clean_def drop_first_clean_keeps)

lemma drop_last_clean_subset: "e \<in> set (drop_last_clean dirty es) \<Longrightarrow> e \<in> set es"
  using drop_first_clean_subset [of dirty "rev es"] by (auto simp: drop_last_clean_def)

lemma drop_last_clean_ok: "hm_ok es \<Longrightarrow> hm_ok (drop_last_clean dirty es)"
  using drop_first_clean_ok [of "rev es" dirty] by (simp add: drop_last_clean_def rev_map [symmetric])

lemma length_drop_last_clean:
  "length (drop_last_clean dirty es) = (if \<forall>e \<in> set es. dirty (fst e) then length es else length es - 1)"
  using length_drop_first_clean [of dirty "rev es"] by (simp add: drop_last_clean_def)

lemma spec_put_base_ok: "hm_ok es \<Longrightarrow> hm_ok ((p, d) # AList.delete p es)"
  by (simp add: delete_conv' AList.delete_eq) (auto simp: distinct_map inj_on_def)

lemma delete_absent: "map_of es p = None \<Longrightarrow> AList.delete p es = es"
  by (simp add: delete_id map_of_eq_None_iff)

lemma spec_put_alt:
  "spec_put cap dirty p d es =
     (let es' = (p, d) # AList.delete p es in
      if map_of es p = None \<and> cap < length es' then drop_last_clean dirty es' else es')"
  by (auto simp: spec_put_def delete_absent Let_def)

lemma spec_put_ok: "hm_ok es \<Longrightarrow> hm_ok (spec_put cap dirty p d es)"
  using spec_put_base_ok [of es p d] drop_last_clean_ok [of "(p, d) # AList.delete p es" dirty]
  by (cases "map_of es p = None \<and> cap < length ((p, d) # AList.delete p es)")
    (simp_all only: spec_put_alt Let_def if_True if_False simp_thms)

lemma spec_put_sound:
  assumes "hm_ok es" "map_of (spec_put cap dirty p d es) q = Some x"
  shows "if q = p then x = d else map_of es q = Some x"
proof -
  have "(q, x) \<in> set ((p, d) # AList.delete p es)"
    using map_of_SomeD [OF assms(2)] by (auto simp: spec_put_alt Let_def split: if_splits dest: drop_last_clean_subset)
  then have "map_of ((p, d) # AList.delete p es) q = Some x"
    using spec_put_base_ok [OF assms(1)] by (simp del: list.map map_of.simps)
  then show ?thesis by (simp split: if_splits)
qed

lemma spec_put_keeps_dirty:
  assumes "hm_ok es" "dirty q"
  shows "map_of (spec_put cap dirty p d es) q = (if q = p then Some d else map_of es q)"
proof -
  let ?e = "(p, d) # AList.delete p es"
  have base: "map_of ?e q = (if q = p then Some d else map_of es q)" by simp
  have "map_of (drop_last_clean dirty ?e) q = map_of ?e q"
  proof (cases "map_of ?e q")
    case None
    then have "q \<notin> fst ` set (drop_last_clean dirty ?e)"
      unfolding map_of_eq_None_iff using drop_last_clean_subset by fastforce
    then show ?thesis using None by (simp only: map_of_eq_None_iff [symmetric])
  next
    case (Some x)
    then have "(q, x) \<in> set (drop_last_clean dirty ?e)"
      using assms(2) drop_last_clean_keeps map_of_SomeD by fastforce
    then show ?thesis using Some drop_last_clean_ok [OF spec_put_base_ok [OF assms(1)]] by simp
  qed
  then show ?thesis using base by (auto simp: spec_put_alt Let_def)
qed

lemma spec_put_length:
  assumes "hm_ok es" "length es \<le> cap" "0 < cap" "\<exists>e \<in> set ((p, d) # es). \<not> dirty (fst e)"
  shows "length (spec_put cap dirty p d es) \<le> cap"
proof (cases "map_of es p")
  case None
  show ?thesis
  proof (cases "cap < Suc (length es)")
    case True
    then have "length (drop_last_clean dirty ((p, d) # es)) = length es"
      using assms(4) by (subst length_drop_last_clean) auto
    then show ?thesis using None True assms(2) by (simp add: spec_put_def)
  qed (use None in \<open>simp add: spec_put_def\<close>)
next
  case (Some x)
  then show ?thesis using length_hm_remove [OF assms(1) Some] assms(2) by (simp add: spec_put_def)
qed

text \<open>
  What the pager relies on from its page cache. \<open>view\<close> is the cached pages from most to least
  recently used; the operations never panic on a state that satisfies \<open>inv\<close>.
\<close>

locale page_cache =
  fixes inv :: "'s \<Rightarrow> bool"
    and view :: "'s \<Rightarrow> (page_num \<times> bytes) list"
    and cap :: "'s \<Rightarrow> nat"
    and dirty :: "page_num \<Rightarrow> 's \<Rightarrow> bool"
    and get :: "page_num \<Rightarrow> 's \<Rightarrow> (bytes option \<times> 's) option"
    and put :: "page_num \<Rightarrow> bytes \<Rightarrow> 's \<Rightarrow> 's option"
    and put_dirty :: "page_num \<Rightarrow> bytes \<Rightarrow> 's \<Rightarrow> 's option"
  assumes view_ok: "inv s \<Longrightarrow> hm_ok (view s)"
    and get_law: "inv s \<Longrightarrow> \<exists>s'. get p s = Some (map_of (view s) p, s') \<and> inv s' \<and>
      view s' = touch p (view s) \<and> (\<forall>q. dirty q s' = dirty q s) \<and> cap s' = cap s"
    and put_law: "inv s \<Longrightarrow> \<exists>s'. put p d s = Some s' \<and> inv s' \<and>
      view s' = spec_put (cap s) (\<lambda>q. dirty q s) p d (view s) \<and>
      (\<forall>q. dirty q s' = dirty q s) \<and> cap s' = cap s"
    and put_dirty_law: "inv s \<Longrightarrow> \<exists>s'. put_dirty p d s = Some s' \<and> inv s' \<and>
      view s' = spec_put (cap s) (\<lambda>q. q = p \<or> dirty q s) p d (view s) \<and>
      (\<forall>q. dirty q s' \<longleftrightarrow> q = p \<or> dirty q s) \<and> cap s' = cap s"
begin

text \<open>A hit returns the page last stored under that number, a page that is dirty is never lost.\<close>

lemma dirty_pages_survive:
  assumes "inv s" "dirty q s" "q \<noteq> p"
  shows "\<exists>s'. put p d s = Some s' \<and> map_of (view s') q = map_of (view s) q"
  using put_law [OF assms(1), of p d] spec_put_keeps_dirty [OF view_ok [OF assms(1)]] assms(2,3)
  by auto

lemma dirty_put_read_back:
  assumes "inv s"
  shows "\<exists>s' s''. put_dirty p d s = Some s' \<and> get p s' = Some (Some d, s'')"
proof -
  obtain s' where s': "put_dirty p d s = Some s'" "inv s'"
    "view s' = spec_put (cap s) (\<lambda>q. q = p \<or> dirty q s) p d (view s)"
    using put_dirty_law [OF assms] by blast
  then have "map_of (view s') p = Some d"
    using spec_put_keeps_dirty [OF view_ok [OF assms], of "\<lambda>q. q = p \<or> dirty q s" p] by simp
  then show ?thesis using s' get_law [of s' p] by auto
qed

lemma put_never_stale:
  assumes "inv s" "put p d s = Some s'" "get q s' = Some (Some x, s'')"
  shows "if q = p then x = d else map_of (view s) q = Some x"
proof -
  have "inv s'" "view s' = spec_put (cap s) (\<lambda>q. dirty q s) p d (view s)"
    using put_law [OF assms(1), of p d] assms(2) by auto
  moreover have "map_of (view s') q = Some x" using get_law [of s' q, OF \<open>inv s'\<close>] assms(3) by auto
  ultimately show ?thesis using spec_put_sound [OF view_ok [OF assms(1)]] by simp
qed

lemma put_bounded:
  assumes "inv s" "length (view s) \<le> cap s" "0 < cap s" "\<not> dirty p s \<or> (\<exists>e \<in> set (view s). \<not> dirty (fst e) s)"
  shows "\<exists>s'. put p d s = Some s' \<and> length (view s') \<le> cap s'"
  using put_law [OF assms(1), of p d] spec_put_length [OF view_ok [OF assms(1)], of "cap s" p d "\<lambda>q. dirty q s"] assms(2-4)
  by auto

end

lemma lru_view_ok: "lru_inv s \<Longrightarrow> hm_ok (lru_view s)"
  using view_distinct by (auto simp: lru_inv_def)

interpretation pc: page_cache lru_inv lru_view lru_capacity cache_is_dirty lru_get lru_put put_dirty_atomic
proof
  fix s p d assume inv: "lru_inv s"
  show "hm_ok (lru_view s)" using inv by (rule lru_view_ok)
  show "\<exists>s'. lru_get p s = Some (map_of (lru_view s) p, s') \<and> lru_inv s' \<and>
      lru_view s' = touch p (lru_view s) \<and> (\<forall>q. cache_is_dirty q s' = cache_is_dirty q s) \<and>
      lru_capacity s' = lru_capacity s"
    by (rule get_refines [OF inv, of p]) (simp add: cache_is_dirty_def)
  show "\<exists>s'. lru_put p d s = Some s' \<and> lru_inv s' \<and>
      lru_view s' = spec_put (lru_capacity s) (\<lambda>q. cache_is_dirty q s) p d (lru_view s) \<and>
      (\<forall>q. cache_is_dirty q s' = cache_is_dirty q s) \<and> lru_capacity s' = lru_capacity s"
    using put_refines [OF inv, of p d] by (auto simp: cache_is_dirty_def)
  show "\<exists>s'. put_dirty_atomic p d s = Some s' \<and> lru_inv s' \<and>
      lru_view s' = spec_put (lru_capacity s) (\<lambda>q. q = p \<or> cache_is_dirty q s) p d (lru_view s) \<and>
      (\<forall>q. cache_is_dirty q s' \<longleftrightarrow> q = p \<or> cache_is_dirty q s) \<and> lru_capacity s' = lru_capacity s"
    using put_dirty_atomic_refines [OF inv, of p d] by (auto simp: cache_is_dirty_def)
qed

lemma dirty_keys: "lru_inv s \<Longrightarrow> cache_is_dirty p s \<longleftrightarrow> p \<in> set (cache_get_all_dirty s)"
  using dirty_ok_get [OF lru_inv_dirty_ok] by (simp add: cache_is_dirty_def cache_get_all_dirty_def)

lemma set_keys_insert: "fst ` set (hm_insert p v m) = insert p (fst ` set m)"
  by (induction m) auto

lemma set_keys_remove: "fst ` set (hm_remove p m) = fst ` set m - {p}"
  by (auto simp: AList.delete_eq)

lemma cache_step_refines:
  assumes inv: "lru_inv s"
  shows "\<exists>s'. cache_step op s = Some s' \<and> lru_inv s' \<and> lru_capacity s' = lru_capacity s \<and>
    cache_abs s' = spec_step (lru_capacity s) op (cache_abs s)"
proof (cases op)
  case (OpGet p)
  then show ?thesis
    by (auto intro: get_refines [OF inv, of p] simp: cache_abs_def cache_get_all_dirty_def)
next
  case (OpPut p d)
  then show ?thesis using put_refines [OF inv, of p d] dirty_keys [OF inv]
    by (auto simp: cache_abs_def cache_get_all_dirty_def)
next
  case (OpPutDirty p d)
  then show ?thesis using put_dirty_atomic_refines [OF inv, of p d] dirty_keys [OF inv]
    by (auto simp: cache_abs_def cache_get_all_dirty_def set_keys_insert)
next
  case (OpRemove p)
  then show ?thesis using remove_refines [OF inv, of p]
    by (auto simp: cache_abs_def cache_get_all_dirty_def set_keys_remove split: if_splits)
next
  case (OpMarkDirty p)
  then show ?thesis using lru_inv_dirty [OF inv dirty_ok_insert [OF lru_inv_dirty_ok [OF inv]]]
    by (simp add: cache_mark_dirty_def cache_abs_def cache_get_all_dirty_def set_keys_insert)
next
  case (OpClearDirty p)
  then show ?thesis using lru_inv_dirty [OF inv dirty_ok_remove [OF lru_inv_dirty_ok [OF inv]]]
    by (simp add: cache_clear_dirty_def cache_abs_def cache_get_all_dirty_def set_keys_remove)
next
  case OpClearAllDirty
  then show ?thesis using lru_inv_dirty [OF inv, of "[]"]
    by (simp add: cache_clear_all_dirty_def cache_abs_def cache_get_all_dirty_def dirty_ok_def)
qed

lemma cache_run_refines:
  "lru_inv s \<Longrightarrow> \<exists>s'. cache_run ops s = Some s' \<and> lru_inv s' \<and>
    cache_abs s' = fold (spec_step (lru_capacity s)) ops (cache_abs s)"
proof (induction ops arbitrary: s)
  case (Cons op ops)
  obtain t where "cache_step op s = Some t" "lru_inv t" "lru_capacity t = lru_capacity s"
    "cache_abs t = spec_step (lru_capacity s) op (cache_abs s)"
    using cache_step_refines [OF Cons.prems] by blast
  with Cons.IH [of t] show ?case by simp
qed simp


subsection \<open>Properties\<close>

text \<open>
  C32: from a new cache, no history of calls panics or breaks the links, and after it the dirty
  pages and the cached pages in recency order are exactly those of the specification: \<open>get\<close>
  moves a page to the front, \<open>put\<close> adds or replaces it there and drops the least recently used
  clean page when the capacity is exceeded.
\<close>

theorem cache_refines_spec:
  "\<exists>s. cache_run ops (cache_new capacity) = Some s \<and> lru_inv s \<and>
     cache_abs s = fold (spec_step (if capacity = 0 then 1000 else capacity)) ops ({}, [])"
proof -
  have "cache_abs (lru_new n) = ({}, [])" "lru_capacity (lru_new n) = n" for n
    by (simp add: cache_abs_def cache_get_all_dirty_def lru_view_new) (simp_all add: lru_new_def)
  then show ?thesis
    using cache_run_refines [OF lru_inv_new, of ops "if capacity = 0 then 1000 else capacity"]
    by (simp only: cache_new_def)
qed

text \<open>
  a dirty page is never evicted: \<open>put\<close> of another page leaves its data in the cache,
  whatever has to be dropped.
\<close>

theorem put_keeps_dirty_pages:
  assumes "lru_inv s" "cache_is_dirty q s" "q \<noteq> p"
  shows "\<exists>s'. lru_put p d s = Some s' \<and> map_of (lru_view s') q = map_of (lru_view s) q"
  using assms by (rule pc.dirty_pages_survive)

theorem put_keeps_dirty_pages_witness:
  "\<exists>s s'. put_dirty_atomic 1 [7] (cache_new 1) = Some s \<and> lru_put 2 [8] s = Some s' \<and>
     map_of (lru_view s') 1 = Some [7]"
proof -
  obtain s where s: "put_dirty_atomic 1 [7] (cache_new 1) = Some s" "lru_inv s"
    "lru_view s = spec_put 1 (\<lambda>q. q = 1) 1 [7] []" "lru_dirty s = [(1, True)]"
    using put_dirty_atomic_refines [OF lru_inv_new, of 1 "[7]" 1]
    by (auto simp: cache_new_def lru_view_new cache_is_dirty_def) (auto simp: lru_new_def)
  have "map_of (lru_view s) 1 = Some [7]" by (simp add: s(3) spec_put_def)
  then show ?thesis using put_keeps_dirty_pages [of s 1 2 "[8]"] s by (auto simp: cache_is_dirty_def)
qed

text \<open>
  a page written with \<open>put_dirty_atomic\<close> is read back by the next \<open>get\<close>, even when the
  cache is full of dirty pages.
\<close>

theorem put_dirty_read_back:
  assumes "lru_inv s"
  shows "\<exists>s' s''. put_dirty_atomic p d s = Some s' \<and> lru_get p s' = Some (Some d, s'')"
  using assms by (rule pc.dirty_put_read_back)

theorem put_dirty_read_back_witness:
  "\<exists>s' s''. put_dirty_atomic 5 [1, 2] (cache_new 3) = Some s' \<and> lru_get 5 s' = Some (Some [1, 2], s'')"
  unfolding cache_new_def by (rule put_dirty_read_back [OF lru_inv_new])

end
