(* ===== verification/Metrics.thy ===== *)
theory Metrics
  imports Outcome
begin

text \<open>
  The counters of \<open>src/core/metrics.rs\<close>. Every counter is a 64-bit atomic, so an event is one
  wrapping addition; the relaxed orderings of the code allow any interleaving of the events,
  and a history is a list of them. The rates of \<open>snapshot\<close> are computed in \<open>f64\<close>: its
  operations are the arguments \<open>as_f64\<close>, \<open>fdiv\<close> and \<open>fzero\<close>.
\<close>

record metrics =
  m_transactions_begun :: u64
  m_transactions_committed :: u64
  m_transactions_aborted :: u64
  m_active_transactions :: u64
  m_batches_committed :: u64
  m_total_batched_txs :: u64
  m_max_batch_size :: u64
  m_total_batch_time_micros :: u64
  m_pages_allocated :: u64
  m_pages_freed :: u64
  m_cache_hits :: u64
  m_cache_misses :: u64
  m_dirty_pages :: u64
  m_wal_writes :: u64
  m_wal_bytes_written :: u64
  m_checkpoints :: u64
  m_documents_inserted :: u64
  m_documents_updated :: u64
  m_documents_deleted :: u64
  m_documents_read :: u64
  m_io_errors :: u64
  m_transaction_conflicts :: u64

definition metrics_new :: metrics where
  "metrics_new = \<lparr>m_transactions_begun = 0, m_transactions_committed = 0,
     m_transactions_aborted = 0, m_active_transactions = 0, m_batches_committed = 0,
     m_total_batched_txs = 0, m_max_batch_size = 0, m_total_batch_time_micros = 0,
     m_pages_allocated = 0, m_pages_freed = 0, m_cache_hits = 0, m_cache_misses = 0,
     m_dirty_pages = 0, m_wal_writes = 0, m_wal_bytes_written = 0, m_checkpoints = 0,
     m_documents_inserted = 0, m_documents_updated = 0, m_documents_deleted = 0,
     m_documents_read = 0, m_io_errors = 0, m_transaction_conflicts = 0\<rparr>"

definition transaction_begun :: "metrics \<Rightarrow> metrics" where
  "transaction_begun m = m\<lparr>m_transactions_begun := m_transactions_begun m + 1,
     m_active_transactions := m_active_transactions m + 1\<rparr>"

definition transaction_committed :: "metrics \<Rightarrow> metrics" where
  "transaction_committed m = m\<lparr>m_transactions_committed := m_transactions_committed m + 1,
     m_active_transactions := m_active_transactions m - 1\<rparr>"

definition transaction_aborted :: "metrics \<Rightarrow> metrics" where
  "transaction_aborted m = m\<lparr>m_transactions_aborted := m_transactions_aborted m + 1,
     m_active_transactions := m_active_transactions m - 1\<rparr>"

text \<open>\<open>micros\<close> is \<open>elapsed.as_micros() as u64\<close>; without a concurrent writer the
  compare-exchange loop stores the larger value.\<close>

definition batch_committed :: "u64 \<Rightarrow> u64 \<Rightarrow> metrics \<Rightarrow> metrics" where
  "batch_committed batch_size micros m = m\<lparr>m_batches_committed := m_batches_committed m + 1,
     m_total_batched_txs := m_total_batched_txs m + batch_size,
     m_total_batch_time_micros := m_total_batch_time_micros m + micros,
     m_max_batch_size := (if m_max_batch_size m < batch_size then batch_size else m_max_batch_size m)\<rparr>"

definition page_allocated :: "metrics \<Rightarrow> metrics" where
  "page_allocated m = m\<lparr>m_pages_allocated := m_pages_allocated m + 1\<rparr>"

definition page_freed :: "metrics \<Rightarrow> metrics" where
  "page_freed m = m\<lparr>m_pages_freed := m_pages_freed m + 1\<rparr>"

definition metrics_cache_hit :: "metrics \<Rightarrow> metrics" where
  "metrics_cache_hit m = m\<lparr>m_cache_hits := m_cache_hits m + 1\<rparr>"

definition metrics_cache_miss :: "metrics \<Rightarrow> metrics" where
  "metrics_cache_miss m = m\<lparr>m_cache_misses := m_cache_misses m + 1\<rparr>"

definition set_dirty_pages :: "u64 \<Rightarrow> metrics \<Rightarrow> metrics" where
  "set_dirty_pages count m = m\<lparr>m_dirty_pages := count\<rparr>"

definition wal_write :: "u64 \<Rightarrow> metrics \<Rightarrow> metrics" where
  "wal_write bs m = m\<lparr>m_wal_writes := m_wal_writes m + 1,
     m_wal_bytes_written := m_wal_bytes_written m + bs\<rparr>"

definition checkpoint_completed :: "metrics \<Rightarrow> metrics" where
  "checkpoint_completed m = m\<lparr>m_checkpoints := m_checkpoints m + 1\<rparr>"

definition document_inserted :: "metrics \<Rightarrow> metrics" where
  "document_inserted m = m\<lparr>m_documents_inserted := m_documents_inserted m + 1\<rparr>"

definition document_updated :: "metrics \<Rightarrow> metrics" where
  "document_updated m = m\<lparr>m_documents_updated := m_documents_updated m + 1\<rparr>"

definition document_deleted :: "metrics \<Rightarrow> metrics" where
  "document_deleted m = m\<lparr>m_documents_deleted := m_documents_deleted m + 1\<rparr>"

definition document_read :: "metrics \<Rightarrow> metrics" where
  "document_read m = m\<lparr>m_documents_read := m_documents_read m + 1\<rparr>"

definition io_error :: "metrics \<Rightarrow> metrics" where
  "io_error m = m\<lparr>m_io_errors := m_io_errors m + 1\<rparr>"

definition transaction_conflict :: "metrics \<Rightarrow> metrics" where
  "transaction_conflict m = m\<lparr>m_transaction_conflicts := m_transaction_conflicts m + 1\<rparr>"

record 'f metrics_snapshot =
  ms_counters :: metrics
  ms_total_transactions :: u64
  ms_commit_rate :: 'f
  ms_avg_batch_size :: 'f
  ms_avg_batch_time_micros :: 'f
  ms_cache_total_requests :: u64
  ms_cache_hit_rate :: 'f
  ms_total_document_operations :: u64

definition metrics_snapshot :: "(u64 \<Rightarrow> 'f) \<Rightarrow> ('f \<Rightarrow> 'f \<Rightarrow> 'f) \<Rightarrow> 'f \<Rightarrow> metrics \<Rightarrow> 'f metrics_snapshot" where
  "metrics_snapshot as_f64 fdiv fzero m =
    (let ratio = (\<lambda>a b. if b > 0 then fdiv (as_f64 a) (as_f64 b) else fzero);
         total = m_transactions_committed m + m_transactions_aborted m;
         requests = m_cache_hits m + m_cache_misses m;
         batches = m_batches_committed m
     in \<lparr>ms_counters = m,
         ms_total_transactions = total,
         ms_commit_rate = ratio (m_transactions_committed m) total,
         ms_avg_batch_size = ratio (m_total_batched_txs m) batches,
         ms_avg_batch_time_micros = ratio (m_total_batch_time_micros m) batches,
         ms_cache_total_requests = requests,
         ms_cache_hit_rate = ratio (m_cache_hits m) requests,
         ms_total_document_operations =
           m_documents_inserted m + m_documents_updated m + m_documents_deleted m + m_documents_read m\<rparr>)"

text \<open>A history of events on one \<open>Metrics\<close> object.\<close>

datatype metric_event = EvBegun | EvCommitted | EvAborted | EvBatch u64 u64 | EvPageAllocated
  | EvPageFreed | EvCacheHit | EvCacheMiss | EvDirtyPages u64 | EvWalWrite u64 | EvCheckpoint
  | EvInserted | EvUpdated | EvDeleted | EvRead | EvIoError | EvConflict

fun record_event :: "metric_event \<Rightarrow> metrics \<Rightarrow> metrics" where
  "record_event EvBegun = transaction_begun"
| "record_event EvCommitted = transaction_committed"
| "record_event EvAborted = transaction_aborted"
| "record_event (EvBatch n t) = batch_committed n t"
| "record_event EvPageAllocated = page_allocated"
| "record_event EvPageFreed = page_freed"
| "record_event EvCacheHit = metrics_cache_hit"
| "record_event EvCacheMiss = metrics_cache_miss"
| "record_event (EvDirtyPages n) = set_dirty_pages n"
| "record_event (EvWalWrite n) = wal_write n"
| "record_event EvCheckpoint = checkpoint_completed"
| "record_event EvInserted = document_inserted"
| "record_event EvUpdated = document_updated"
| "record_event EvDeleted = document_deleted"
| "record_event EvRead = document_read"
| "record_event EvIoError = io_error"
| "record_event EvConflict = transaction_conflict"

lemmas metric_event_defs = transaction_begun_def transaction_committed_def transaction_aborted_def
  batch_committed_def page_allocated_def page_freed_def metrics_cache_hit_def
  metrics_cache_miss_def set_dirty_pages_def wal_write_def checkpoint_completed_def
  document_inserted_def document_updated_def document_deleted_def document_read_def
  io_error_def transaction_conflict_def

lemma active_invariant:
  "m_active_transactions m + m_transactions_committed m + m_transactions_aborted m
     = m_transactions_begun m \<Longrightarrow>
   m_active_transactions (fold record_event evs m) + m_transactions_committed (fold record_event evs m)
     + m_transactions_aborted (fold record_event evs m) = m_transactions_begun (fold record_event evs m)"
proof (induction evs arbitrary: m)
  case (Cons ev evs)
  show ?case unfolding fold_simps comp_apply
    by (rule Cons.IH, use Cons.prems in \<open>cases ev\<close>) (auto simp: metric_event_defs algebra_simps)
qed simp

lemma Max_insert_max: "finite A \<Longrightarrow> Max (insert (max a b) A) = Max (insert b (insert a A))"
  for A :: "'a::linorder set"
  by (cases "A = {}") (auto simp: max.assoc max.commute max.left_commute)

lemma max_batch_invariant:
  "m_max_batch_size (fold record_event evs m) =
     Max (insert (m_max_batch_size m) {n. \<exists>t. EvBatch n t \<in> set evs})"
proof (induction evs arbitrary: m)
  case (Cons ev evs)
  have "insert (m_max_batch_size (record_event ev m)) {n. \<exists>t. EvBatch n t \<in> set evs} = 
      (case ev of EvBatch n t \<Rightarrow> insert (max n (m_max_batch_size m)) {n. \<exists>t. EvBatch n t \<in> set evs}
       | _ \<Rightarrow> insert (m_max_batch_size m) {n. \<exists>t. EvBatch n t \<in> set evs})"
    by (cases ev) (auto simp: metric_event_defs max_def)
  moreover have "{n. \<exists>t. EvBatch n t \<in> set (ev # evs)} =
      (case ev of EvBatch n t \<Rightarrow> insert n {n. \<exists>t. EvBatch n t \<in> set evs} | _ \<Rightarrow> {n. \<exists>t. EvBatch n t \<in> set evs})"
    by (cases ev) auto
  ultimately show ?case using Cons.IH [of "record_event ev m"]
    by (cases ev) (simp_all only: metric_event.case Max_insert_max [OF finite] fold_simps comp_apply)
qed simp


subsection \<open>Properties\<close>

text \<open>
  in every history of events, the number of active transactions is the number begun less
  those committed and aborted (modulo \<open>2^64\<close>), and the recorded maximum is the size of the
  largest batch.
\<close>

theorem metrics_consistent:
  "let m = fold record_event evs metrics_new in
     m_active_transactions m + m_transactions_committed m + m_transactions_aborted m
       = m_transactions_begun m \<and>
     m_max_batch_size m = Max (insert 0 {n. \<exists>t. EvBatch n t \<in> set evs})"
  using active_invariant [of metrics_new evs] max_batch_invariant [of evs metrics_new]
  by (simp add: Let_def metrics_new_def)

end
