(* ===== verification/Pager.thy ===== *)
theory Pager
  imports Storage_File Lru_Cache Metrics
begin

text \<open>
  \<open>src/core/pager.rs\<close>: the header page and its validation, page allocation, and cached page
  access. \<open>Header\<close> and \<open>Pager\<close> are records with the fields of the structs; each method is a
  function from the pager to its outcome and the pager after it. A method that takes several
  locks takes them one after the other, and the functions here are the methods as they run
  when no other thread runs between two of these locks.

  \<open>map_err\<close> on \<open>try_into\<close> never fires, the slices having the width of the array.
  File permissions are not represented.
\<close>


subsection \<open>Header\<close>

record header =
  h_magic :: bytes
  h_version :: u32
  h_page_size :: u32
  h_num_pages :: u64
  h_free_count :: u32
  h_metadata_page :: u64
  h_next_tx_id :: u64
  h_free_list :: "page_num list"

fun put_free_list :: "page_num list \<Rightarrow> nat \<times> bytes \<Rightarrow> (nat \<times> bytes) option" where
  "put_free_list [] st = Some st"
| "put_free_list (p # ps) (off, buf) =
     (if off + 8 > PAGE_SIZE then Some (off, buf)
      else Option.bind (emit (u64_to_le p) (off, buf)) (put_free_list ps))"

definition header_serialize :: "header \<Rightarrow> bytes option" where
  "header_serialize h = do {
     st \<leftarrow> emit (h_magic h) (0, replicate PAGE_SIZE 0);
     st \<leftarrow> emit (u32_to_le (h_version h)) st;
     st \<leftarrow> emit (u32_to_le (h_page_size h)) st;
     st \<leftarrow> emit (u64_to_le (h_num_pages h)) st;
     st \<leftarrow> emit (u32_to_le (h_free_count h)) st;
     st \<leftarrow> emit (u64_to_le (h_metadata_page h)) st;
     st \<leftarrow> emit (u64_to_le (h_next_tx_id h)) st;
     (_, buf) \<leftarrow> put_free_list (h_free_list h) st;
     Some buf
   }"

definition read_u16 :: "nat \<Rightarrow> bytes \<Rightarrow> u16 res" where
  "read_u16 off data = no_panic (map_option u16_from_le (get_bytes off 2 data))"

definition read_u32 :: "nat \<Rightarrow> bytes \<Rightarrow> u32 res" where
  "read_u32 off data = no_panic (map_option u32_from_le (get_bytes off 4 data))"

definition read_u64 :: "nat \<Rightarrow> bytes \<Rightarrow> u64 res" where
  "read_u64 off data = no_panic (map_option u64_from_le (get_bytes off 8 data))"

fun get_free_list :: "nat \<Rightarrow> nat \<Rightarrow> bytes \<Rightarrow> page_num list res" where
  "get_free_list 0 off data = Ok []"
| "get_free_list (Suc n) off data =
     (if off + 8 > PAGE_SIZE then Ok []
      else res_bind (read_u64 off data) (\<lambda>p.
           res_bind (get_free_list n (off + 8) data) (\<lambda>ps. Ok (p # ps))))"

definition header_deserialize :: "bytes \<Rightarrow> header res" where
  "header_deserialize data =
     (if length data < PAGE_SIZE then Err InvalidPageSize
      else res_bind (no_panic (get_bytes 0 4 data)) (\<lambda>magic.
        if magic \<noteq> MAGIC then Err InvalidMagic
        else res_bind (read_u32 4 data) (\<lambda>version.
        if version \<noteq> VERSION then Err InvalidVersion
        else res_bind (read_u32 8 data) (\<lambda>page_size.
        if page_size \<noteq> word_of_nat PAGE_SIZE then Err InvalidPageSize
        else res_bind (read_u64 12 data) (\<lambda>num_pages.
        res_bind (read_u32 20 data) (\<lambda>free_count.
        res_bind (read_u64 24 data) (\<lambda>metadata_page.
        res_bind (read_u64 32 data) (\<lambda>next_tx_id.
        res_bind (get_free_list (unat free_count) 40 data) (\<lambda>free_list.
        Ok \<lparr>h_magic = magic, h_version = version, h_page_size = page_size,
            h_num_pages = num_pages, h_free_count = free_count,
            h_metadata_page = metadata_page, h_next_tx_id = next_tx_id,
            h_free_list = free_list\<rparr>)))))))))"


subsection \<open>Pager\<close>

record pager =
  pg_file :: dfile
  pg_cache :: lru
  pg_num_pages :: u64
  pg_metadata_page :: u64
  pg_next_tx_id :: u64
  pg_free_list :: "page_num list"
  pg_read_only :: bool
  pg_metrics :: "metrics option"

text \<open>The six checks of \<open>read_header\<close>; the \<open>for\<close> loops of checks 4 and 5 return at the first
  offending entry.\<close>

fun check_free_entries :: "nat \<Rightarrow> u64 \<Rightarrow> page_num list \<Rightarrow> unit res" where
  "check_free_entries i num_pages [] = Ok ()"
| "check_free_entries i num_pages (p # ps) =
     (if p \<ge> num_pages then Err (DataCorruption (''invalid free_list entry at index '' @ show_nat i
          @ '': page '' @ show_u64 p @ '' (must be < num_pages '' @ show_u64 num_pages @ '')''))
      else if p = 0 then Err (DataCorruption (''invalid free_list entry at index '' @ show_nat i
          @ '': page 0 (header page) cannot be free''))
      else check_free_entries (Suc i) num_pages ps)"

fun check_free_dups :: "nat \<Rightarrow> page_num set \<Rightarrow> page_num list \<Rightarrow> page_num set res" where
  "check_free_dups i seen [] = Ok seen"
| "check_free_dups i seen (p # ps) =
     (if p \<in> seen then Err (DataCorruption (''duplicate page '' @ show_u64 p
          @ '' in free_list at index '' @ show_nat i @ '' (same page cannot be free twice)''))
      else check_free_dups (Suc i) (insert p seen) ps)"

definition validate_header :: "u64 \<Rightarrow> header \<Rightarrow> unit res" where
  "validate_header fsize h =
     (if h_num_pages h < 1 then Err (DataCorruption (''invalid num_pages: '' @ show_u64 (h_num_pages h)
          @ '' (must be at least 1 for header page)''))
      else let expected_min_size = h_num_pages h * word_of_nat PAGE_SIZE in
      if fsize < expected_min_size then Err (DataCorruption (''file truncated: header claims ''
          @ show_u64 (h_num_pages h) @ '' pages ('' @ show_u64 expected_min_size
          @ '' bytes) but file is only '' @ show_u64 fsize @ '' bytes''))
      else if h_metadata_page h \<noteq> 0 \<and> h_metadata_page h \<ge> h_num_pages h then
        Err (DataCorruption (''invalid metadata_page: '' @ show_u64 (h_metadata_page h)
          @ '' (must be < num_pages '' @ show_u64 (h_num_pages h) @ '')''))
      else res_bind (check_free_entries 0 (h_num_pages h) (h_free_list h)) (\<lambda>_.
           res_bind (check_free_dups 0 {} (h_free_list h)) (\<lambda>seen_pages.
           if h_metadata_page h \<noteq> 0 \<and> h_metadata_page h \<in> seen_pages then
             Err (DataCorruption (''metadata_page '' @ show_u64 (h_metadata_page h)
               @ '' is in free_list (metadata page is in use, cannot be free)''))
           else Ok ())))"

definition read_header :: "pager \<Rightarrow> unit res \<times> pager" where
  "read_header s =
     (case res_bind (file_read_exact 0 PAGE_SIZE (pg_file s)) header_deserialize of
        Err e \<Rightarrow> (Err e, s) | Panic \<Rightarrow> (Panic, s)
      | Ok h \<Rightarrow>
        (case validate_header (file_size (pg_file s)) h of
           Err e \<Rightarrow> (Err e, s) | Panic \<Rightarrow> (Panic, s)
         | Ok _ \<Rightarrow> (Ok (), s\<lparr>pg_num_pages := h_num_pages h, pg_metadata_page := h_metadata_page h,
                         pg_next_tx_id := h_next_tx_id h, pg_free_list := h_free_list h\<rparr>)))"

definition get_header_data :: "pager \<Rightarrow> bytes res" where
  "get_header_data s = no_panic (header_serialize
     \<lparr>h_magic = MAGIC, h_version = VERSION, h_page_size = word_of_nat PAGE_SIZE,
      h_num_pages = pg_num_pages s, h_free_count = word_of_nat (length (pg_free_list s)),
      h_metadata_page = pg_metadata_page s, h_next_tx_id = pg_next_tx_id s,
      h_free_list = pg_free_list s\<rparr>)"

text \<open>\<open>seek\<close> and \<open>write_all\<close> on the pager's file, and its sync.\<close>

definition pager_write_file :: "nat \<Rightarrow> bytes \<Rightarrow> pager \<Rightarrow> unit res \<times> pager" where
  "pager_write_file off data s =
     (case file_write_all off data (pg_file s) of (r, f) \<Rightarrow> (r, s\<lparr>pg_file := f\<rparr>))"

definition pager_sync :: "pager \<Rightarrow> pager" where
  "pager_sync s = s\<lparr>pg_file := file_sync (pg_file s)\<rparr>"

definition write_header_no_sync :: "pager \<Rightarrow> unit res \<times> pager" where
  "write_header_no_sync s =
     (if pg_read_only s then (Err (Other ''cannot write header: database is read-only''), s)
      else and_then (get_header_data s, s) (\<lambda>data s. pager_write_file 0 data s))"

definition write_header :: "pager \<Rightarrow> unit res \<times> pager" where
  "write_header s =
     (if pg_read_only s then (Err (Other ''cannot write header: database is read-only''), s)
      else and_then (get_header_data s, s) (\<lambda>data s.
           and_then (pager_write_file 0 data s) (\<lambda>_ s. (Ok (), pager_sync s))))"

definition sync_data_only :: "pager \<Rightarrow> unit res \<times> pager" where
  "sync_data_only s = (if pg_read_only s then (Ok (), s) else (Ok (), pager_sync s))"

definition pager_open :: "dfile option \<Rightarrow> nat \<Rightarrow> bool \<Rightarrow> pager res" where
  "pager_open disk cache_size read_only =
     (case disk of
        None \<Rightarrow> if read_only then Err (Io ''No such file or directory (os error 2)'')
          else (case write_header \<lparr>pg_file = file_empty, pg_cache = cache_new cache_size,
                  pg_num_pages = 1, pg_metadata_page = 0, pg_next_tx_id = 1, pg_free_list = [],
                  pg_read_only = read_only, pg_metrics = None\<rparr> of (r, s) \<Rightarrow> res_bind r (\<lambda>_. Ok s))
      | Some f \<Rightarrow>
          (case read_header \<lparr>pg_file = f, pg_cache = cache_new cache_size,
                  pg_num_pages = 1, pg_metadata_page = 0, pg_next_tx_id = 1, pg_free_list = [],
                  pg_read_only = read_only, pg_metrics = None\<rparr> of (r, s) \<Rightarrow> res_bind r (\<lambda>_. Ok s)))"

definition with_metrics :: "(metrics \<Rightarrow> metrics) \<Rightarrow> pager \<Rightarrow> pager" where
  "with_metrics f s = s\<lparr>pg_metrics := map_option f (pg_metrics s)\<rparr>"

text \<open>A cache method run on the pager's cache; an index panic in it is a panic.\<close>

definition with_cache :: "(lru \<Rightarrow> lru option) \<Rightarrow> pager \<Rightarrow> unit res \<times> pager" where
  "with_cache f s = (case f (pg_cache s) of None \<Rightarrow> (Panic, s)
     | Some c \<Rightarrow> (Ok (), s\<lparr>pg_cache := c\<rparr>))"

text \<open>The miss path shared by \<open>read_page\<close> and \<open>read_page_shared\<close>.\<close>

definition read_page_miss :: "page_num \<Rightarrow> pager \<Rightarrow> bytes res \<times> pager" where
  "read_page_miss page_num s =
     and_then (file_read_exact (page_offset page_num) PAGE_SIZE (pg_file s),
               with_metrics metrics_cache_miss s) (\<lambda>buf s.
     and_then (with_cache (lru_put page_num buf) s) (\<lambda>_ s. (Ok buf, s)))"

definition read_page :: "page_num \<Rightarrow> pager \<Rightarrow> bytes res \<times> pager" where
  "read_page page_num s =
     (case lru_get page_num (pg_cache s) of
        None \<Rightarrow> (Panic, s)
      | Some (Some data, c) \<Rightarrow> (Ok data, with_metrics metrics_cache_hit (s\<lparr>pg_cache := c\<rparr>))
      | Some (None, c) \<Rightarrow> read_page_miss page_num (s\<lparr>pg_cache := c\<rparr>))"

definition read_page_shared :: "page_num \<Rightarrow> pager \<Rightarrow> bytes res \<times> pager" where
  "read_page_shared page_num s =
     (case lru_get_read_only page_num (pg_cache s) of
        None \<Rightarrow> (Panic, s)
      | Some (Some data) \<Rightarrow> (Ok data, with_metrics metrics_cache_hit s)
      | Some None \<Rightarrow> read_page_miss page_num s)"

definition pager_write_page :: "page_num \<Rightarrow> bytes \<Rightarrow> pager \<Rightarrow> unit res \<times> pager" where
  "pager_write_page page_num data s =
     (if pg_read_only s then (Err (Other ''cannot write page: database is read-only''), s)
      else if length data \<noteq> PAGE_SIZE then (Err InvalidPageSize, s)
      else and_then (with_cache (lru_put page_num data) s) (\<lambda>_ s.
           with_cache (\<lambda>c. Some (cache_mark_dirty page_num c)) s))"

definition write_page_transfer :: "page_num \<Rightarrow> bytes \<Rightarrow> pager \<Rightarrow> unit res \<times> pager" where
  "write_page_transfer page_num data s =
     (if pg_read_only s then (Err (Other ''cannot write page: database is read-only''), s)
      else if length data \<noteq> PAGE_SIZE then (Err InvalidPageSize, s)
      else with_cache (put_dirty_atomic page_num data) s)"

text \<open>The \<open>while let Some(page_num) = free_list.pop()\<close> loop, on the reversed list.\<close>

fun pop_free :: "page_num \<Rightarrow> page_num list \<Rightarrow> page_num option \<times> page_num list" where
  "pop_free min_page [] = (None, [])"
| "pop_free min_page (p # rest) =
     (if p \<ge> min_page then (Some p, rest) else pop_free min_page rest)"

definition alloc_page_minimum :: "page_num \<Rightarrow> pager \<Rightarrow> page_num res \<times> pager" where
  "alloc_page_minimum min_page s =
     (if pg_read_only s then (Err (Other ''cannot allocate page: database is read-only''), s)
      else case pop_free min_page (rev (pg_free_list s)) of
          (Some p, rest) \<Rightarrow> (Ok p, s\<lparr>pg_free_list := rev rest\<rparr>)
        | (None, rest) \<Rightarrow> (Ok (pg_num_pages s),
            with_metrics page_allocated (s\<lparr>pg_free_list := rev rest, pg_num_pages := pg_num_pages s + 1\<rparr>)))"

definition alloc_page :: "pager \<Rightarrow> page_num res \<times> pager" where
  "alloc_page = alloc_page_minimum 0"

definition free_page :: "page_num \<Rightarrow> pager \<Rightarrow> unit res \<times> pager" where
  "free_page page_num s =
     (if pg_read_only s then (Err (Other ''cannot free page: database is read-only''), s)
      else and_then (with_cache (lru_remove page_num) (s\<lparr>pg_free_list := pg_free_list s @ [page_num]\<rparr>))
             (\<lambda>_ s. (Ok (), with_metrics page_freed s)))"

text \<open>
  \<open>write_pages_direct\<close>: \<open>take_batch\<close> is the inner loop that collects the pages following
  \<open>cur\<close> by one, and \<open>write_batches\<close> the outer loop; a batch of one page is written without the
  intermediate buffer. \<open>sort_unstable_by_key\<close> may permute entries with equal page numbers; the
  stable \<open>sort_key\<close> is one of its results and the only one when page numbers are distinct.
\<close>

fun take_batch :: "page_num \<Rightarrow> (page_num \<times> bytes) list \<Rightarrow>
    (page_num \<times> bytes) list \<times> (page_num \<times> bytes) list" where
  "take_batch cur [] = ([], [])"
| "take_batch cur ((n, d) # ps) =
     (if n = cur + 1 then (case take_batch n ps of (b, r) \<Rightarrow> ((n, d) # b, r))
      else ([], (n, d) # ps))"

lemma length_take_batch: "take_batch c ps = (b, r) \<Longrightarrow> length r \<le> length ps"
  by (induction c ps arbitrary: b r rule: take_batch.induct)
    (fastforce split: if_splits prod.splits)+

function write_batches :: "(page_num \<times> bytes) list \<Rightarrow> pager \<Rightarrow> unit res \<times> pager" where
  "write_batches [] s = (Ok (), s)"
| "write_batches ((start_page, d) # ps) s =
     (case take_batch start_page ps of (batch, rest) \<Rightarrow>
        and_then (pager_write_file (page_offset start_page) (d @ concat (map snd batch)) s)
          (\<lambda>_ s. write_batches rest s))"
  by pat_completeness auto
termination
  by (relation "measure (\<lambda>(ps, s). length ps)")
    (auto dest!: length_take_batch [OF sym])

definition write_pages_direct :: "(page_num \<times> bytes) list \<Rightarrow> pager \<Rightarrow> unit res \<times> pager" where
  "write_pages_direct pages s =
     (if pg_read_only s then (Err (Other ''cannot write pages: database is read-only''), s)
      else if pages = [] then (Ok (), s)
      else let sorted_pages = sort_key fst pages in
      if \<exists>e \<in> set sorted_pages. length (snd e) \<noteq> PAGE_SIZE then (Err InvalidPageSize, s)
      else and_then (write_batches sorted_pages s) (\<lambda>_ s. (Ok (), pager_sync s)))"

fun flush_pages :: "page_num list \<Rightarrow> pager \<Rightarrow> unit res \<times> pager" where
  "flush_pages [] s = (Ok (), s)"
| "flush_pages (p # ps) s =
     (case lru_get_read_only p (pg_cache s) of
        None \<Rightarrow> (Panic, s)
      | Some None \<Rightarrow> flush_pages ps s
      | Some (Some data) \<Rightarrow>
          and_then (pager_write_file (page_offset p) data s) (\<lambda>_ s. flush_pages ps s))"

definition flush :: "pager \<Rightarrow> unit res \<times> pager" where
  "flush s =
     (if pg_read_only s then (Ok (), s)
      else and_then (flush_pages (sort (cache_get_all_dirty (pg_cache s))) s) (\<lambda>_ s.
           (Ok (), (pager_sync s)\<lparr>pg_cache := cache_clear_all_dirty (pg_cache s)\<rparr>)))"

definition flush_no_sync :: "pager \<Rightarrow> unit res \<times> pager" where
  "flush_no_sync s =
     (if pg_read_only s then (Ok (), s)
      else and_then (flush_pages (cache_get_all_dirty (pg_cache s)) s) (\<lambda>_ s.
           (Ok (), s\<lparr>pg_cache := cache_clear_all_dirty (pg_cache s)\<rparr>)))"

definition pager_close :: "pager \<Rightarrow> unit res \<times> pager" where
  "pager_close s =
     (if pg_read_only s then (Ok (), s) else and_then (flush s) (\<lambda>_ s. write_header s))"

definition allocate_transaction_id :: "pager \<Rightarrow> tx_id res \<times> pager" where
  "allocate_transaction_id s = (Ok (pg_next_tx_id s), s\<lparr>pg_next_tx_id := pg_next_tx_id s + 1\<rparr>)"

definition get_current_transaction_id :: "pager \<Rightarrow> tx_id res" where
  "get_current_transaction_id s = Ok (pg_next_tx_id s)"

definition set_next_transaction_id :: "tx_id \<Rightarrow> pager \<Rightarrow> unit res \<times> pager" where
  "set_next_transaction_id i s = (Ok (), s\<lparr>pg_next_tx_id := i\<rparr>)"

definition set_num_pages :: "u64 \<Rightarrow> pager \<Rightarrow> unit res \<times> pager" where
  "set_num_pages n s = (Ok (), s\<lparr>pg_num_pages := n\<rparr>)"

definition set_metadata_page :: "page_num \<Rightarrow> pager \<Rightarrow> unit res \<times> pager" where
  "set_metadata_page p s = (Ok (), s\<lparr>pg_metadata_page := p\<rparr>)"

definition set_metrics :: "metrics \<Rightarrow> pager \<Rightarrow> pager" where
  "set_metrics m s = s\<lparr>pg_metrics := Some m\<rparr>"


subsection \<open>Specification\<close>

definition MAX_FREE :: nat where [const_defs]: "MAX_FREE = (PAGE_SIZE - 40) div 8"

definition header_prefix :: "header \<Rightarrow> bytes" where
  "header_prefix h = h_magic h @ u32_to_le (h_version h) @ u32_to_le (h_page_size h)
     @ u64_to_le (h_num_pages h) @ u32_to_le (h_free_count h) @ u64_to_le (h_metadata_page h)
     @ u64_to_le (h_next_tx_id h)"

definition u64s :: "u64 list \<Rightarrow> bytes" where
  "u64s ps = concat (map u64_to_le ps)"

text \<open>What a header written by this code reads back as.\<close>

definition header_ok :: "header \<Rightarrow> bool" where
  "header_ok h \<longleftrightarrow> h_magic h = MAGIC \<and> h_version h = VERSION \<and>
     h_page_size h = word_of_nat PAGE_SIZE \<and> unat (h_free_count h) = length (h_free_list h)"

definition free_list_ok :: "u64 \<Rightarrow> page_num \<Rightarrow> page_num list \<Rightarrow> bool" where
  "free_list_ok num_pages meta fl \<longleftrightarrow> distinct fl \<and> (\<forall>p \<in> set fl. 0 < p \<and> p < num_pages) \<and>
     (meta \<noteq> 0 \<longrightarrow> meta < num_pages \<and> meta \<notin> set fl)"

definition page_ok :: "page_num \<Rightarrow> bool" where
  "page_ok p \<longleftrightarrow> unat p < 2 ^ 51"

definition file_page :: "bytes \<Rightarrow> page_num \<Rightarrow> bytes option" where
  "file_page bs p = (if page_ok p then get_bytes (page_offset p) PAGE_SIZE bs else None)"

definition page_content :: "pager \<Rightarrow> page_num \<Rightarrow> bytes option" where
  "page_content s p = (case map_of (lru_view (pg_cache s)) p of
     Some d \<Rightarrow> Some d | None \<Rightarrow> file_page (f_bytes (pg_file s)) p)"

definition pager_inv :: "pager \<Rightarrow> bool" where
  "pager_inv s \<longleftrightarrow> lru_inv (pg_cache s) \<and> length (f_bytes (pg_file s)) \<le> 2 ^ 63 \<and>
     (\<forall>(p, d) \<in> set (lru_view (pg_cache s)). page_ok p \<and> length d = PAGE_SIZE \<and>
        (\<not> cache_is_dirty p (pg_cache s) \<longrightarrow> file_page (f_bytes (pg_file s)) p = Some d))"

text \<open>The allocation state, which page access leaves alone.\<close>

definition same_alloc :: "pager \<Rightarrow> pager \<Rightarrow> bool" where
  "same_alloc s t \<longleftrightarrow> pg_num_pages t = pg_num_pages s \<and> pg_free_list t = pg_free_list s \<and>
     pg_metadata_page t = pg_metadata_page s \<and> pg_next_tx_id t = pg_next_tx_id s \<and>
     pg_read_only t = pg_read_only s"

definition alloc_ok :: "pager \<Rightarrow> bool" where
  "alloc_ok s \<longleftrightarrow> pg_num_pages s \<noteq> 0 \<and>
     free_list_ok (pg_num_pages s) (pg_metadata_page s) (pg_free_list s)"

definition in_use :: "pager \<Rightarrow> page_num set" where
  "in_use s = {p. 0 < p \<and> p < pg_num_pages s} - set (pg_free_list s)"

definition flushed :: "page_num list \<Rightarrow> pager \<Rightarrow> pager \<Rightarrow> bool" where
  "flushed ps s s' \<longleftrightarrow> pager_inv s' \<and> pg_cache s' = pg_cache s \<and> same_alloc s s' \<and>
    (\<forall>q d. page_content s q = Some d \<longrightarrow> page_content s' q = Some d \<and>
       (q \<in> set ps \<or> file_page (f_bytes (pg_file s)) q = Some d \<longrightarrow> file_page (f_bytes (pg_file s')) q = Some d))"

definition write_one :: "page_num \<times> bytes \<Rightarrow> bytes \<Rightarrow> bytes" where
  "write_one e bs = write_at (page_offset (fst e)) (snd e) bs"

definition entry_ok :: "page_num \<times> bytes \<Rightarrow> bool" where
  "entry_ok e \<longleftrightarrow> page_ok (fst e) \<and> length (snd e) = PAGE_SIZE"

definition header_of :: "pager \<Rightarrow> header" where
  "header_of s = \<lparr>h_magic = MAGIC, h_version = VERSION, h_page_size = word_of_nat PAGE_SIZE,
      h_num_pages = pg_num_pages s, h_free_count = word_of_nat (length (pg_free_list s)),
      h_metadata_page = pg_metadata_page s, h_next_tx_id = pg_next_tx_id s,
      h_free_list = pg_free_list s\<rparr>"

definition writable_pager :: "pager \<Rightarrow> bool" where
  "writable_pager s \<longleftrightarrow> pager_inv s \<and> \<not> pg_read_only s"


subsection \<open>Lemmas\<close>

lemma u64s_simps [simp]: "u64s [] = []" "u64s (p # ps) = u64_to_le p @ u64s ps"
  by (simp_all add: u64s_def)

lemma length_u64s [simp]: "length (u64s ps) = 8 * length ps"
  by (induction ps) simp_all

lemma emit_Nil [simp]: "off \<le> length buf \<Longrightarrow> emit [] (off, buf) = Some (off, buf)"
  by (simp add: emit_Some_iff)

lemma emit_in_range:
  "off + length src \<le> length buf \<Longrightarrow>
   emit src (off, buf) = Some (off + length src, take off buf @ src @ drop (off + length src) buf)"
  by (simp add: emit_Some_iff)

lemma put_free_list_eq:
  "off \<le> PAGE_SIZE \<Longrightarrow> length buf = PAGE_SIZE \<Longrightarrow>
   put_free_list ps (off, buf) = emit (u64s (take ((PAGE_SIZE - off) div 8) ps)) (off, buf)"
proof (induction ps arbitrary: off buf)
  case (Cons p ps)
  show ?case
  proof (cases "off + 8 > PAGE_SIZE")
    case True
    then have "(PAGE_SIZE - off) div 8 = 0" by simp
    then show ?thesis using True Cons.prems by simp
  next
    case False
    define m where "m = (PAGE_SIZE - (off + 8)) div 8"
    have m: "(PAGE_SIZE - off) div 8 = Suc m"
      using False by (simp add: m_def le_div_geq)
    let ?st = "(off + 8, take off buf @ u64_to_le p @ drop (off + 8) buf)"
    have e: "emit (u64_to_le p) (off, buf) = Some ?st"
      using False Cons.prems by (subst emit_in_range) auto
    have "put_free_list ps ?st = emit (u64s (take m ps)) ?st"
      using Cons.IH [of "off + 8"] False Cons.prems by (simp add: m_def)
    then show ?thesis
      using False m emit_emit [of "u64_to_le p" "(off, buf)" "u64s (take m ps)"] e by simp
  qed
qed simp

lemma header_serialize_eq:
  assumes "length (h_magic h) = 4"
  shows "header_serialize h = Some (header_prefix h @ u64s (take MAX_FREE (h_free_list h))
           @ replicate (PAGE_SIZE - 40 - 8 * min MAX_FREE (length (h_free_list h))) 0)"
proof -
  let ?z = "replicate PAGE_SIZE 0 :: bytes"
  have lp: "length (header_prefix h) = 40" using assms by (simp add: header_prefix_def)
  have "header_serialize h = Option.bind (emit (header_prefix h) (0, ?z))
      (\<lambda>st. Option.bind (put_free_list (h_free_list h) st) (\<lambda>(_, buf). Some buf))"
    by (simp add: header_serialize_def header_prefix_def emit_emit [symmetric])
  also have "emit (header_prefix h) (0, ?z) = Some (40, header_prefix h @ drop 40 ?z)"
    using lp by (subst emit_in_range) (auto simp: const_defs)
  finally show ?thesis
    using lp by (auto simp: put_free_list_eq emit_Some_iff const_defs emit_in_range min_def)
qed

lemma read_u64_at:
  "length pre = off \<Longrightarrow> read_u64 off (pre @ u64_to_le p @ rest) = Ok p"
  by (simp add: read_u64_def get_bytes_append_right get_bytes_append_left)

lemma read_u32_at:
  "length pre = off \<Longrightarrow> read_u32 off (pre @ u32_to_le p @ rest) = Ok p"
  by (simp add: read_u32_def get_bytes_append_right get_bytes_append_left)

lemma get_free_list_u64s:
  "length pre = off \<Longrightarrow> off + 8 * length ps \<le> PAGE_SIZE \<Longrightarrow>
   n \<le> length ps \<or> PAGE_SIZE < off + 8 * length ps + 8 \<Longrightarrow>
   get_free_list n off (pre @ u64s ps @ zs) = Ok (take n ps)"
proof (induction ps arbitrary: n off pre)
  case Nil
  then show ?case by (cases n) auto
next
  case (Cons p ps)
  show ?case
  proof (cases n)
    case (Suc m)
    have "get_free_list m (off + 8) ((pre @ u64_to_le p) @ u64s ps @ zs) = Ok (take m ps)"
      using Cons.prems Suc by (intro Cons.IH) auto
    then show ?thesis using Cons.prems Suc read_u64_at [OF Cons.prems(1), of p] by simp
  qed simp
qed

lemma prefix_fields:
  assumes "length (h_magic h) = 4"
  shows "get_bytes 0 4 (header_prefix h @ r) = Some (h_magic h)"
    "read_u32 4 (header_prefix h @ r) = Ok (h_version h)"
    "read_u32 8 (header_prefix h @ r) = Ok (h_page_size h)"
    "read_u64 12 (header_prefix h @ r) = Ok (h_num_pages h)"
    "read_u32 20 (header_prefix h @ r) = Ok (h_free_count h)"
    "read_u64 24 (header_prefix h @ r) = Ok (h_metadata_page h)"
    "read_u64 32 (header_prefix h @ r) = Ok (h_next_tx_id h)"
  using assms
  by (simp_all add: header_prefix_def read_u32_def read_u64_def get_bytes_append_right
      get_bytes_append_left)

lemma length_header_prefix: "length (h_magic h) = 4 \<Longrightarrow> length (header_prefix h) = 40"
  by (simp add: header_prefix_def)

lemma length_MAGIC [simp]: "length MAGIC = 4"
  by (simp add: MAGIC_def)

lemma header_deserialize_serialize:
  assumes ok: "header_ok h"
  shows "\<exists>buf. header_serialize h = Some buf \<and> length buf = PAGE_SIZE \<and>
    header_deserialize buf = Ok (h\<lparr>h_free_list := take MAX_FREE (h_free_list h)\<rparr>)"
proof -
  have m: "length (h_magic h) = 4" using ok by (simp add: header_ok_def)
  let ?fl = "take MAX_FREE (h_free_list h)"
  define zs :: bytes where "zs = replicate (PAGE_SIZE - 40 - 8 * min MAX_FREE (length (h_free_list h))) 0"
  define buf where "buf = header_prefix h @ u64s ?fl @ zs"
  have len: "length buf = PAGE_SIZE"
    by (auto simp: buf_def zs_def length_header_prefix [OF m] const_defs min_def)
  have "get_free_list (unat (h_free_count h)) 40 buf = Ok (take (unat (h_free_count h)) ?fl)"
    unfolding buf_def using ok
    by (intro get_free_list_u64s) (auto simp: length_header_prefix [OF m] const_defs header_ok_def)
  moreover have "take (unat (h_free_count h)) ?fl = ?fl" using ok by (simp add: header_ok_def min_def)
  ultimately have "header_deserialize buf = Ok (h\<lparr>h_free_list := ?fl\<rparr>)"
    using ok len unfolding buf_def by (simp add: header_deserialize_def prefix_fields [OF m] header_ok_def)
  then show ?thesis using header_serialize_eq [OF m] len by (simp add: buf_def zs_def)
qed

subsection \<open>Header validation\<close>

lemma check_free_entries_Ok:
  "check_free_entries i n ps = Ok () \<longleftrightarrow> (\<forall>p \<in> set ps. 0 < p \<and> p < n)"
  by (induction ps arbitrary: i) (auto simp: not_le word_neq_0_conv)

lemma check_free_dups_Ok:
  "check_free_dups i seen ps = Ok r \<longleftrightarrow> distinct ps \<and> set ps \<inter> seen = {} \<and> r = seen \<union> set ps"
  by (induction ps arbitrary: i seen) auto

lemma check_free_entries_not_Panic [simp]: "check_free_entries i n ps \<noteq> Panic"
  by (induction ps arbitrary: i) auto

lemma check_free_dups_not_Panic [simp]: "check_free_dups i seen ps \<noteq> Panic"
  by (induction ps arbitrary: i seen) auto

lemma validate_header_Ok:
  "validate_header fsize h = Ok () \<longleftrightarrow>
     h_num_pages h \<noteq> 0 \<and> h_num_pages h * word_of_nat PAGE_SIZE \<le> fsize \<and>
     free_list_ok (h_num_pages h) (h_metadata_page h) (h_free_list h)"
proof -
  have c: "res_bind (check_free_entries 0 n fl) (\<lambda>_. res_bind (check_free_dups 0 {} fl) (\<lambda>seen.
        if m \<noteq> 0 \<and> m \<in> seen then Err e else Ok ())) = Ok () \<longleftrightarrow>
      (\<forall>p \<in> set fl. 0 < p \<and> p < n) \<and> distinct fl \<and> (m = 0 \<or> m \<notin> set fl)" for n m fl e
    using check_free_entries_Ok [of 0 n fl]
    by (auto simp: res_bind_Ok_iff check_free_dups_Ok split: if_splits)
  define R where "R = res_bind (check_free_entries 0 (h_num_pages h) (h_free_list h)) (\<lambda>_.
           res_bind (check_free_dups 0 {} (h_free_list h)) (\<lambda>seen_pages.
           if h_metadata_page h \<noteq> 0 \<and> h_metadata_page h \<in> seen_pages then
             Err (DataCorruption (''metadata_page '' @ show_u64 (h_metadata_page h)
               @ '' is in free_list (metadata page is in use, cannot be free)''))
           else Ok ()))"
  have R: "R = Ok () \<longleftrightarrow> (\<forall>p \<in> set (h_free_list h). 0 < p \<and> p < h_num_pages h) \<and>
      distinct (h_free_list h) \<and> (h_metadata_page h = 0 \<or> h_metadata_page h \<notin> set (h_free_list h))"
    unfolding R_def by (rule c)
  show ?thesis
    unfolding validate_header_def Let_def free_list_ok_def R_def [symmetric]
    by (auto simp: R not_less not_le)
qed

subsection \<open>What the file and the cache hold\<close>

lemma page_offset_ok: "page_ok p \<Longrightarrow> page_offset p = unat p * PAGE_SIZE"
  by (simp add: page_ok_def page_offset_eq)

lemma seek_ok_page [simp]: "page_ok p \<Longrightarrow> seek_ok (page_offset p)"
  by (simp add: seek_ok_def page_offset_ok page_ok_def const_defs)

lemma page_offset_disjoint:
  assumes "page_ok p" "page_ok q" "p \<noteq> q"
  shows "page_offset q + PAGE_SIZE \<le> page_offset p \<or> page_offset p + PAGE_SIZE \<le> page_offset q"
proof -
  have "unat p \<noteq> unat q" using assms(3) unsigned_word_eqI by blast
  then have "Suc (unat q) * PAGE_SIZE \<le> unat p * PAGE_SIZE \<or> Suc (unat p) * PAGE_SIZE \<le> unat q * PAGE_SIZE"
    by (metis Suc_leI linorder_neqE_nat mult_le_mono1)
  then show ?thesis by (auto simp: page_offset_ok [OF assms(1)] page_offset_ok [OF assms(2)])
qed

lemma file_page_write_same:
  "page_ok p \<Longrightarrow> length d = PAGE_SIZE \<Longrightarrow> file_page (write_at (page_offset p) d bs) p = Some d"
  using get_write_same [of d PAGE_SIZE "page_offset p" bs] PAGE_SIZE_pos by (cases d) (auto simp: file_page_def)

lemma file_page_write_other:
  assumes "page_ok p" "length d = PAGE_SIZE" "q \<noteq> p" "file_page bs q = Some e"
  shows "file_page (write_at (page_offset p) d bs) q = Some e"
proof -
  have q: "page_ok q" "get_bytes (page_offset q) PAGE_SIZE bs = Some e"
    using assms(4) by (auto simp: file_page_def split: if_splits)
  then show ?thesis
    using get_write_other_mono [OF q(2), of "page_offset p" d] page_offset_disjoint [OF assms(1) q(1)] assms
    by (auto simp: file_page_def)
qed

lemma length_page_write:
  "page_ok p \<Longrightarrow> length d = PAGE_SIZE \<Longrightarrow> length bs \<le> 2 ^ 63 \<Longrightarrow>
   length (write_at (page_offset p) d bs) \<le> 2 ^ 63"
  by (simp add: length_write_at page_offset_ok page_ok_def const_defs)

lemma length_file_page: "file_page bs p = Some d \<Longrightarrow> length d = PAGE_SIZE"
  by (auto simp: file_page_def split: if_splits dest: length_get_bytes)

lemma pager_inv_view:
  assumes "pager_inv s" "map_of (lru_view (pg_cache s)) p = Some d"
  shows "page_ok p" "length d = PAGE_SIZE"
    "\<not> cache_is_dirty p (pg_cache s) \<Longrightarrow> file_page (f_bytes (pg_file s)) p = Some d"
  using assms map_of_SomeD by (fastforce simp: pager_inv_def)+

text \<open>The pager's invariant in terms of lookups rather than entries.\<close>

lemma pager_invI:
  assumes "lru_inv (pg_cache s)" and "length (f_bytes (pg_file s)) \<le> 2 ^ 63"
    and "\<And>p d. map_of (lru_view (pg_cache s)) p = Some d \<Longrightarrow> page_ok p \<and> length d = PAGE_SIZE \<and>
      (\<not> cache_is_dirty p (pg_cache s) \<longrightarrow> file_page (f_bytes (pg_file s)) p = Some d)"
  shows "pager_inv s"
  using assms lru_view_ok [OF assms(1)] by (auto simp: pager_inv_def)

lemma page_content_ok: "pager_inv s \<Longrightarrow> page_content s p = Some d \<Longrightarrow> page_ok p \<and> length d = PAGE_SIZE"
  using pager_inv_view [of s p] length_file_page [of "f_bytes (pg_file s)" p]
  by (auto simp: page_content_def file_page_def split: option.splits if_splits)

text \<open>
  A cache change that keeps the dirty pages, invents nothing, and replaces the file's version of
  \<open>p\<close> by \<open>d\<close> (the file's own, unless \<open>p\<close> is now dirty) leaves the contents at \<open>content(p := d)\<close>.
\<close>

lemma put_content:
  assumes inv: "pager_inv s" and p: "page_ok p" "length d = PAGE_SIZE"
    and c: "lru_inv c" "lru_view c = spec_put cap D p d (lru_view (pg_cache s))"
    and dirty: "\<And>q. D q = cache_is_dirty q c"
      "\<And>q. q \<noteq> p \<Longrightarrow> cache_is_dirty q c = cache_is_dirty q (pg_cache s)"
    and fp: "D p \<or> file_page (f_bytes (pg_file s)) p = Some d"
    and t: "pg_cache t = c" "pg_file t = pg_file s"
  shows "pager_inv t \<and> page_content t = (page_content s)(p \<mapsto> d)"
proof -
  let ?v = "lru_view (pg_cache s)" and ?f = "f_bytes (pg_file s)"
  have ok: "hm_ok ?v" using inv lru_view_ok by (auto simp: pager_inv_def)
  have sound: "if q = p then x = d else map_of ?v q = Some x" if "map_of (lru_view c) q = Some x" for q x
    using spec_put_sound [OF ok] that c(2) by metis
  have keep: "D q \<Longrightarrow> map_of (lru_view c) q = (if q = p then Some d else map_of ?v q)" for q
    using spec_put_keeps_dirty [OF ok] c(2) by metis
  have "pager_inv t"
  proof (rule pager_invI)
    show "lru_inv (pg_cache t)" using c t by simp
    show "length (f_bytes (pg_file t)) \<le> 2 ^ 63" using inv t by (simp add: pager_inv_def)
    fix q x assume "map_of (lru_view (pg_cache t)) q = Some x"
    then have "if q = p then x = d else map_of ?v q = Some x" using sound t by simp
    then show "page_ok q \<and> length x = PAGE_SIZE \<and>
        (\<not> cache_is_dirty q (pg_cache t) \<longrightarrow> file_page (f_bytes (pg_file t)) q = Some x)"
      using pager_inv_view [OF inv, of q x] p fp dirty t by (cases "q = p") auto
  qed
  moreover have "page_content t q = ((page_content s)(p \<mapsto> d)) q" for q
  proof (cases "map_of (lru_view c) q")
    case None
    then have "\<not> D q \<or> q \<noteq> p \<and> map_of ?v q = None" using keep [of q] by (auto split: if_splits)
    moreover have "\<not> D q \<Longrightarrow> q \<noteq> p \<Longrightarrow> map_of ?v q = Some x \<Longrightarrow> file_page ?f q = Some x" for x
      using pager_inv_view(3) [OF inv] dirty by blast
    ultimately show ?thesis using None fp t
      by (cases "q = p") (auto simp: page_content_def split: option.splits)
  next
    case (Some x)
    then show ?thesis using sound [OF Some] t by (auto simp: page_content_def split: if_splits)
  qed
  ultimately show ?thesis by blast
qed

lemma touch_lookup: "hm_ok es \<Longrightarrow> map_of (touch p es) q = map_of es q"
  by (auto simp: touch_def split: option.splits)

lemma touch_content:
  assumes "pager_inv s" "lru_inv c" "lru_view c = touch p (lru_view (pg_cache s))"
    "\<And>q. cache_is_dirty q c = cache_is_dirty q (pg_cache s)" "pg_cache t = c" "pg_file t = pg_file s"
  shows "pager_inv t \<and> page_content t = page_content s"
proof -
  have ok: "hm_ok (lru_view (pg_cache s))" using assms(1) lru_view_ok by (auto simp: pager_inv_def)
  have eq: "map_of (lru_view c) q = map_of (lru_view (pg_cache s)) q" for q
    using touch_lookup [OF ok] assms(3) by simp
  have "pager_inv t"
    using assms(2,4-6) pager_inv_view [OF assms(1)] eq pager_inv_def [of s] assms(1)
    by (intro pager_invI) (auto simp del: map_of_eq_Some_iff)
  then show ?thesis using eq assms(5,6) by (simp add: page_content_def fun_eq_iff split: option.split)
qed

lemma with_metrics_simps [simp]:
  "pg_file (with_metrics f s) = pg_file s" "pg_cache (with_metrics f s) = pg_cache s"
  "pg_num_pages (with_metrics f s) = pg_num_pages s" "pg_free_list (with_metrics f s) = pg_free_list s"
  "pg_metadata_page (with_metrics f s) = pg_metadata_page s"
  "pg_next_tx_id (with_metrics f s) = pg_next_tx_id s" "pg_read_only (with_metrics f s) = pg_read_only s"
  by (simp_all add: with_metrics_def)

lemma pager_inv_cong: "pg_cache t = pg_cache s \<Longrightarrow> pg_file t = pg_file s \<Longrightarrow> pager_inv t = pager_inv s"
  by (simp add: pager_inv_def)

lemma page_content_cong:
  "pg_cache t = pg_cache s \<Longrightarrow> pg_file t = pg_file s \<Longrightarrow> page_content t = page_content s"
  by (simp add: page_content_def fun_eq_iff split: option.split)

lemma pager_inv_with_metrics [simp]: "pager_inv (with_metrics f s) = pager_inv s"
  by (rule pager_inv_cong) simp_all

lemma page_content_with_metrics [simp]: "page_content (with_metrics f s) = page_content s"
  by (rule page_content_cong) simp_all

lemma same_alloc_refl [simp]: "same_alloc s s" by (simp add: same_alloc_def)

lemma same_alloc_trans: "same_alloc s t \<Longrightarrow> same_alloc t u \<Longrightarrow> same_alloc s u"
  by (simp add: same_alloc_def)

lemma read_page_miss_spec:
  assumes inv: "pager_inv s" and f: "file_page (f_bytes (pg_file s)) p = Some d"
    and miss: "map_of (lru_view (pg_cache s)) p = None"
  shows "\<exists>s'. read_page_miss p s = (Ok d, s') \<and> pager_inv s' \<and> page_content s' = page_content s \<and>
    pg_file s' = pg_file s \<and> same_alloc s s'"
proof -
  have p: "page_ok p" "get_bytes (page_offset p) PAGE_SIZE (f_bytes (pg_file s)) = Some d"
    using f by (auto simp: file_page_def split: if_splits)
  have linv: "lru_inv (pg_cache s)" using inv by (simp add: pager_inv_def)
  obtain c where c: "lru_put p d (pg_cache s) = Some c" "lru_inv c"
    "lru_view c = spec_put (lru_capacity (pg_cache s)) (\<lambda>q. cache_is_dirty q (pg_cache s)) p d (lru_view (pg_cache s))"
    "lru_dirty c = lru_dirty (pg_cache s)"
    using put_refines [OF linv] by blast
  have dirty: "cache_is_dirty q c = cache_is_dirty q (pg_cache s)" for q
    using c(4) by (simp add: cache_is_dirty_def)
  let ?t = "(with_metrics metrics_cache_miss s)\<lparr>pg_cache := c\<rparr>"
  have "pager_inv ?t \<and> page_content ?t = (page_content s)(p \<mapsto> d)"
    using inv p(1) length_file_page [OF f] c f dirty by (intro put_content) auto
  moreover have "page_content s p = Some d" using f miss by (simp add: page_content_def)
  ultimately show ?thesis using p c
    by (auto simp: read_page_miss_def file_read_exact_def with_cache_def same_alloc_def fun_upd_idem)
qed

lemma read_page_spec:
  assumes inv: "pager_inv s" and d: "page_content s p = Some d"
  shows "\<exists>s'. read_page p s = (Ok d, s') \<and> pager_inv s' \<and> page_content s' = page_content s \<and>
    pg_file s' = pg_file s \<and> same_alloc s s'"
proof -
  have linv: "lru_inv (pg_cache s)" using inv by (simp add: pager_inv_def)
  obtain c where c: "lru_get p (pg_cache s) = Some (map_of (lru_view (pg_cache s)) p, c)" "lru_inv c"
    "lru_view c = touch p (lru_view (pg_cache s))" "\<And>q. cache_is_dirty q c = cache_is_dirty q (pg_cache s)"
    using pc.get_law [OF linv, of p] by blast
  let ?t = "s\<lparr>pg_cache := c\<rparr>"
  have t: "pager_inv ?t" "page_content ?t = page_content s"
    using touch_content [OF inv c(2-4), of ?t] by simp_all
  show ?thesis
  proof (cases "map_of (lru_view (pg_cache s)) p")
    case None
    then have "file_page (f_bytes (pg_file ?t)) p = Some d" using d by (simp add: page_content_def)
    moreover have "map_of (lru_view (pg_cache ?t)) p = None"
      using None c(3) touch_lookup [OF lru_view_ok [OF linv]] by simp
    ultimately obtain u where "read_page_miss p ?t = (Ok d, u)" "pager_inv u"
      "page_content u = page_content ?t" "pg_file u = pg_file ?t" "same_alloc ?t u"
      using read_page_miss_spec [OF t(1)] by blast
    then show ?thesis using c None t by (simp add: read_page_def same_alloc_def)
  next
    case (Some e)
    then have "e = d" using d by (simp add: page_content_def)
    then show ?thesis using c Some t by (simp add: read_page_def same_alloc_def)
  qed
qed

lemma read_page_shared_spec:
  assumes inv: "pager_inv s" and d: "page_content s p = Some d"
  shows "\<exists>s'. read_page_shared p s = (Ok d, s') \<and> pager_inv s' \<and> page_content s' = page_content s \<and>
    pg_file s' = pg_file s \<and> same_alloc s s'"
proof -
  have linv: "lru_inv (pg_cache s)" using inv by (simp add: pager_inv_def)
  have g: "lru_get_read_only p (pg_cache s) = Some (map_of (lru_view (pg_cache s)) p)"
    using get_read_only_refines [OF linv] .
  show ?thesis
  proof (cases "map_of (lru_view (pg_cache s)) p")
    case None
    then have "file_page (f_bytes (pg_file s)) p = Some d" using d by (simp add: page_content_def)
    then show ?thesis using read_page_miss_spec [OF inv _ None] g None by (simp add: read_page_shared_def)
  next
    case (Some e)
    then have "e = d" using d by (simp add: page_content_def)
    then show ?thesis using g Some inv by (simp add: read_page_shared_def same_alloc_def)
  qed
qed

lemma read_page_absent:
  assumes inv: "pager_inv s" and none: "page_content s p = None" and p: "page_ok p"
  shows "fst (read_page p s) = Err (Io ''failed to fill whole buffer'')"
proof -
  have linv: "lru_inv (pg_cache s)" using inv by (simp add: pager_inv_def)
  have v: "map_of (lru_view (pg_cache s)) p = None"
    "get_bytes (page_offset p) PAGE_SIZE (f_bytes (pg_file s)) = None"
    using none p by (auto simp: page_content_def file_page_def split: option.splits)
  obtain c where "lru_get p (pg_cache s) = Some (None, c)"
    using pc.get_law [OF linv, of p] v by auto
  then show ?thesis using v p by (simp add: read_page_def read_page_miss_def file_read_exact_def)
qed

lemma write_page_transfer_spec:
  assumes inv: "pager_inv s" and p: "page_ok p" and d: "length d = PAGE_SIZE" and rw: "\<not> pg_read_only s"
  shows "\<exists>s'. write_page_transfer p d s = (Ok (), s') \<and> pager_inv s' \<and>
    page_content s' = (page_content s)(p \<mapsto> d) \<and> pg_file s' = pg_file s \<and> same_alloc s s' \<and>
    pg_metrics s' = pg_metrics s"
proof -
  have linv: "lru_inv (pg_cache s)" using inv by (simp add: pager_inv_def)
  obtain c where c: "put_dirty_atomic p d (pg_cache s) = Some c" "lru_inv c"
    "lru_view c = spec_put (lru_capacity (pg_cache s)) (\<lambda>q. q = p \<or> cache_is_dirty q (pg_cache s)) p d (lru_view (pg_cache s))"
    "\<And>q. cache_is_dirty q c \<longleftrightarrow> q = p \<or> cache_is_dirty q (pg_cache s)"
    using pc.put_dirty_law [OF linv] by blast
  let ?t = "s\<lparr>pg_cache := c\<rparr>"
  have "pager_inv ?t \<and> page_content ?t = (page_content s)(p \<mapsto> d)"
    using inv p d c(2,3) by (rule put_content) (auto simp: c(4))
  then show ?thesis using rw d c(1)
    by (simp add: write_page_transfer_def with_cache_def same_alloc_def)
qed

subsection \<open>Allocation\<close>

lemma pop_free_Some:
  "pop_free m ps = (Some p, rest) \<longleftrightarrow>
     (\<exists>low. ps = low @ p # rest \<and> (\<forall>q \<in> set low. q < m) \<and> m \<le> p)"
proof (induction ps)
  case (Cons a ps)
  show ?case
  proof (cases "m \<le> a")
    case True
    then show ?thesis by (auto simp: Cons_eq_append_conv)
  next
    case False
    then show ?thesis using Cons.IH
      by (auto simp: not_le Cons_eq_append_conv)
  qed
qed simp

lemma pop_free_None: "pop_free m ps = (None, rest) \<longleftrightarrow> rest = [] \<and> (\<forall>q \<in> set ps. q < m)"
  by (induction ps) (auto simp: not_le)

lemma pop_free_zero: "pop_free 0 ps = (case ps of [] \<Rightarrow> (None, []) | p # rest \<Rightarrow> (Some p, rest))"
  by (cases ps) auto

lemma free_list_ok_subset:
  "free_list_ok n m fl \<Longrightarrow> distinct fl' \<Longrightarrow> set fl' \<subseteq> set fl \<Longrightarrow> free_list_ok n m fl'"
  by (auto simp: free_list_ok_def)

lemma free_list_ok_mono: "free_list_ok n m fl \<Longrightarrow> n \<le> n' \<Longrightarrow> free_list_ok n' m fl"
  by (auto simp: free_list_ok_def intro: less_le_trans)

lemma plus_one_neq_0: "n \<noteq> - 1 \<Longrightarrow> n + 1 \<noteq> 0" for n :: u64
  by (metis add_eq_0_iff2)

lemma less_plus_one: "n \<noteq> - 1 \<Longrightarrow> p < n + 1 \<longleftrightarrow> p < n \<or> p = n" for p n :: u64
proof -
  assume "n \<noteq> - 1"
  then have "n + 1 \<noteq> 0" by (rule plus_one_neq_0)
  then have "unat (n + 1) = Suc (unat n)" by (simp add: unatSuc add.commute)
  then show ?thesis by (auto simp: word_less_nat_alt less_Suc_eq intro: unsigned_word_eqI)
qed

lemma alloc_page_spec:
  assumes ok: "alloc_ok s" and rw: "\<not> pg_read_only s" and room: "pg_num_pages s \<noteq> - 1"
  shows "\<exists>p s'. alloc_page s = (Ok p, s') \<and> alloc_ok s' \<and> p \<notin> in_use s \<and>
    in_use s' = insert p (in_use s) \<and> p \<noteq> 0 \<and> p \<noteq> pg_metadata_page s \<and>
    pg_cache s' = pg_cache s \<and> pg_file s' = pg_file s \<and> pg_read_only s' = pg_read_only s \<and>
    (p = last (pg_free_list s) \<and> pg_free_list s' = butlast (pg_free_list s) \<and> pg_free_list s \<noteq> [] \<and>
       pg_num_pages s' = pg_num_pages s
     \<or> p = pg_num_pages s \<and> pg_free_list s = [] \<and> pg_free_list s' = [] \<and>
       pg_num_pages s' = pg_num_pages s + 1)"
proof (cases "pg_free_list s" rule: rev_cases)
  case Nil
  have flok: "free_list_ok (pg_num_pages s + 1) (pg_metadata_page s) []"
    using ok less_plus_one [OF room] by (auto simp: alloc_ok_def free_list_ok_def Nil)
  have "pg_num_pages s + 1 \<noteq> 0" using room by (rule plus_one_neq_0)
  moreover have "pg_num_pages s \<noteq> pg_metadata_page s"
    using ok by (auto simp: alloc_ok_def free_list_ok_def)
  ultimately show ?thesis using ok rw flok less_plus_one [OF room]
    by (auto simp: alloc_page_def alloc_page_minimum_def Nil in_use_def alloc_ok_def word_neq_0_conv)
next
  case (snoc fl p)
  have "free_list_ok (pg_num_pages s) (pg_metadata_page s) fl" "p \<noteq> 0" "p \<noteq> pg_metadata_page s"
     "p < pg_num_pages s" "p \<notin> set fl"
    using ok by (auto simp: alloc_ok_def snoc free_list_ok_def)
  then show ?thesis using ok rw
    by (auto simp: alloc_page_def alloc_page_minimum_def pop_free_zero snoc in_use_def alloc_ok_def word_neq_0_conv)
qed

lemma alloc_page_minimum_spec:
  assumes ok: "alloc_ok s" and rw: "\<not> pg_read_only s" and room: "pg_num_pages s \<noteq> - 1"
    and min: "m \<le> pg_num_pages s"
  shows "\<exists>p s'. alloc_page_minimum m s = (Ok p, s') \<and> m \<le> p \<and> alloc_ok s' \<and> p \<notin> in_use s \<and>
    p \<notin> set (pg_free_list s') \<and> insert p (in_use s) \<subseteq> in_use s' \<and>
    (\<forall>q \<in> in_use s' - insert p (in_use s). q < m) \<and>
    pg_cache s' = pg_cache s \<and> pg_file s' = pg_file s"
proof (cases "pop_free m (rev (pg_free_list s))")
  case (Pair r rest)
  show ?thesis
  proof (cases r)
    case None
    then have "\<forall>q \<in> set (pg_free_list s). q < m" "rest = []" using Pair pop_free_None by fastforce+
    moreover have "free_list_ok (pg_num_pages s + 1) (pg_metadata_page s) []"
      using ok less_plus_one [OF room] by (auto simp: alloc_ok_def free_list_ok_def)
    moreover have "pg_num_pages s + 1 \<noteq> 0" using room by (rule plus_one_neq_0)
    ultimately show ?thesis using ok rw Pair None min less_plus_one [OF room]
      by (auto simp: alloc_page_minimum_def alloc_ok_def in_use_def word_neq_0_conv)
  next
    case (Some p)
    then obtain low where low: "rev (pg_free_list s) = low @ p # rest" "\<forall>q \<in> set low. q < m" "m \<le> p"
      using Pair pop_free_Some by metis
    then have fl: "pg_free_list s = rev rest @ p # rev low" by (simp add: rev_swap)
    have "free_list_ok (pg_num_pages s) (pg_metadata_page s) (rev rest)"
      using ok fl by (auto simp: alloc_ok_def free_list_ok_def)
    moreover have "0 < p" "p < pg_num_pages s" "p \<notin> set rest" using ok fl by (auto simp: alloc_ok_def free_list_ok_def)
    ultimately show ?thesis using ok rw Pair Some low fl
      by (auto simp: alloc_page_minimum_def alloc_ok_def in_use_def)
  qed
qed

lemma free_page_spec:
  assumes linv: "lru_inv (pg_cache s)" and ok: "alloc_ok s" and rw: "\<not> pg_read_only s"
    and p: "p \<in> in_use s" "p \<noteq> pg_metadata_page s"
  shows "\<exists>s'. free_page p s = (Ok (), s') \<and> alloc_ok s' \<and> in_use s' = in_use s - {p} \<and>
    lru_inv (pg_cache s') \<and> lru_view (pg_cache s') = AList.delete p (lru_view (pg_cache s)) \<and>
    pg_file s' = pg_file s"
proof -
  obtain c where c: "lru_remove p (pg_cache s) = Some c" "lru_inv c"
    "lru_view c = AList.delete p (lru_view (pg_cache s))"
    using remove_refines [OF linv, of p] by blast
  have "free_list_ok (pg_num_pages s) (pg_metadata_page s) (pg_free_list s @ [p])"
    using ok p by (auto simp: alloc_ok_def free_list_ok_def in_use_def)
  then show ?thesis using c rw ok
    by (auto simp: free_page_def with_cache_def alloc_ok_def in_use_def)
qed

subsection \<open>Flushing\<close>

lemma file_page_write_mono:
  assumes "page_ok p" "length d = PAGE_SIZE" "file_page bs q = Some e" "q = p \<longrightarrow> e = d"
  shows "file_page (write_at (page_offset p) d bs) q = Some e"
  using assms file_page_write_same file_page_write_other by (cases "q = p") auto

lemma flushed_content:
  "flushed ps s s' \<Longrightarrow> page_content s q = Some d \<Longrightarrow> page_content s' q = Some d"
  "flushed ps s s' \<Longrightarrow> page_content s q = Some d \<Longrightarrow>
     q \<in> set ps \<or> file_page (f_bytes (pg_file s)) q = Some d \<Longrightarrow> file_page (f_bytes (pg_file s')) q = Some d"
  by (auto simp: flushed_def)

lemma flushed_skip:
  assumes "flushed ps s s'" "page_content s p = file_page (f_bytes (pg_file s)) p"
  shows "flushed (p # ps) s s'"
proof -
  have "file_page (f_bytes (pg_file s')) q = Some d"
    if "page_content s q = Some d" "q \<in> set (p # ps) \<or> file_page (f_bytes (pg_file s)) q = Some d" for q d
    using flushed_content(2) [OF assms(1) that(1)] that assms(2) by (cases "q = p") simp_all
  then show ?thesis using assms(1) unfolding flushed_def by blast
qed

text \<open>Writing the cached data of one page to its place in the file.\<close>

lemma write_back_page:
  assumes inv: "pager_inv s" and p: "map_of (lru_view (pg_cache s)) p = Some e"
  shows "\<exists>t. pager_write_file (page_offset p) e s = (Ok (), t) \<and> flushed [p] s t"
proof -
  note pe = pager_inv_view [OF inv p]
  let ?f = "f_bytes (pg_file s)"
  let ?t = "s\<lparr>pg_file := (pg_file s)\<lparr>f_bytes := write_at (page_offset p) e ?f\<rparr>\<rparr>"
  have mono: "file_page (f_bytes (pg_file ?t)) q = Some d" if "file_page ?f q = Some d" "q = p \<longrightarrow> d = e" for q d
    using file_page_write_mono [OF pe(1,2) that] by simp
  have tinv: "pager_inv ?t"
  proof (rule pager_invI)
    show "lru_inv (pg_cache ?t)" using inv by (simp add: pager_inv_def)
    show "length (f_bytes (pg_file ?t)) \<le> 2 ^ 63"
      using length_page_write [OF pe(1,2)] inv by (simp add: pager_inv_def)
    fix q x assume q: "map_of (lru_view (pg_cache ?t)) q = Some x"
    then have q': "map_of (lru_view (pg_cache s)) q = Some x" by simp
    have "q = p \<longrightarrow> x = e" using p q' by auto
    then have "\<not> cache_is_dirty q (pg_cache s) \<longrightarrow> file_page (f_bytes (pg_file ?t)) q = Some x"
      using pager_inv_view(3) [OF inv q'] mono by blast
    then show "page_ok q \<and> length x = PAGE_SIZE \<and>
        (\<not> cache_is_dirty q (pg_cache ?t) \<longrightarrow> file_page (f_bytes (pg_file ?t)) q = Some x)"
      using pager_inv_view(1,2) [OF inv q'] by simp
  qed
  have pt: "file_page (f_bytes (pg_file ?t)) p = Some e"
    using file_page_write_same [OF pe(1,2)] by simp
  have ps: "page_content s p = Some e" using p by (simp add: page_content_def)
  have "page_content ?t q = Some d \<and> (q \<in> set [p] \<or> file_page ?f q = Some d \<longrightarrow>
      file_page (f_bytes (pg_file ?t)) q = Some d)" if "page_content s q = Some d" for q d
  proof (cases "q = p")
    case True
    then show ?thesis using that ps pt p by (simp add: page_content_def)
  next
    case False
    then have "file_page ?f q = Some d \<longrightarrow> file_page (f_bytes (pg_file ?t)) q = Some d" using mono by blast
    then show ?thesis using that False
      by (cases "map_of (lru_view (pg_cache s)) q") (simp_all add: page_content_def)
  qed
  then have "flushed [p] s ?t" using tinv unfolding flushed_def same_alloc_def by simp
  moreover have "pager_write_file (page_offset p) e s = (Ok (), ?t)"
    using pe(1) by (simp add: pager_write_file_def file_write_all_bytes)
  ultimately show ?thesis by blast
qed

lemma flushed_trans:
  assumes "flushed [p] s t" "flushed ps t u"
  shows "flushed (p # ps) s u"
proof -
  have "page_content u q = Some d \<and> (q \<in> set (p # ps) \<or> file_page (f_bytes (pg_file s)) q = Some d \<longrightarrow>
      file_page (f_bytes (pg_file u)) q = Some d)" if q: "page_content s q = Some d" for q d
  proof -
    have t: "page_content t q = Some d" using flushed_content(1) [OF assms(1) q] .
    show ?thesis
      using flushed_content(1) [OF assms(2) t] flushed_content(2) [OF assms(2) t] flushed_content(2) [OF assms(1) q]
      by (cases "q = p") auto
  qed
  then show ?thesis using assms same_alloc_trans [of s t u] unfolding flushed_def by simp
qed

lemma flush_pages_spec:
  "pager_inv s \<Longrightarrow> \<exists>s'. flush_pages ps s = (Ok (), s') \<and> flushed ps s s'"
proof (induction ps arbitrary: s)
  case Nil
  then show ?case by (simp add: flushed_def)
next
  case (Cons p ps)
  have linv: "lru_inv (pg_cache s)" using Cons.prems by (simp add: pager_inv_def)
  have g: "lru_get_read_only p (pg_cache s) = Some (map_of (lru_view (pg_cache s)) p)"
    using get_read_only_refines [OF linv] .
  show ?case
  proof (cases "map_of (lru_view (pg_cache s)) p")
    case None
    then have "page_content s p = file_page (f_bytes (pg_file s)) p" by (simp add: page_content_def)
    then show ?thesis using Cons.IH [OF Cons.prems] flushed_skip g None by auto
  next
    case (Some e)
    obtain t where t: "pager_write_file (page_offset p) e s = (Ok (), t)" "flushed [p] s t"
      using write_back_page [OF Cons.prems Some] by blast
    then obtain u where "flush_pages ps t = (Ok (), u)" "flushed ps t u"
      using Cons.IH [of t] by (auto simp: flushed_def)
    then show ?thesis using g Some t flushed_trans [of p s t ps u] by simp
  qed
qed

lemma pager_inv_clean:
  assumes "pager_inv s" "\<And>p d. map_of (lru_view (pg_cache s)) p = Some d \<Longrightarrow> file_page (f_bytes (pg_file t)) p = Some d"
    "lru_view (pg_cache t) = lru_view (pg_cache s)" "lru_inv (pg_cache t)" "length (f_bytes (pg_file t)) \<le> 2 ^ 63"
  shows "pager_inv t"
  using assms pager_inv_view [OF assms(1)] by (intro pager_invI) auto

lemma flush_spec:
  assumes inv: "pager_inv s" and rw: "\<not> pg_read_only s"
  shows "\<exists>s'. flush s = (Ok (), s') \<and> pager_inv s' \<and> same_alloc s s' \<and>
    cache_get_all_dirty (pg_cache s') = [] \<and> f_bytes (pg_file s') = f_durable (pg_file s') \<and>
    (\<forall>p d. page_content s p = Some d \<longrightarrow>
       page_content s' p = Some d \<and> file_page (f_durable (pg_file s')) p = Some d)"
proof -
  let ?ps = "sort (cache_get_all_dirty (pg_cache s))"
  obtain t where t: "flush_pages ?ps s = (Ok (), t)" and fl: "flushed ?ps s t"
    using flush_pages_spec [OF inv, of ?ps] by blast
  have tc: "pg_cache t = pg_cache s" "same_alloc s t" using fl by (simp_all add: flushed_def)
  let ?u = "(pager_sync t)\<lparr>pg_cache := cache_clear_all_dirty (pg_cache t)\<rparr>"
  have linv: "lru_inv (pg_cache s)" using inv by (simp add: pager_inv_def)
  have "q \<in> set ?ps \<or> file_page (f_bytes (pg_file s)) q = Some d" if "page_content s q = Some d" for q d
    using that pager_inv_view(3) [OF inv, of q d] dirty_keys [OF linv, of q]
    by (cases "map_of (lru_view (pg_cache s)) q") (auto simp: page_content_def)
  then have dur: "file_page (f_bytes (pg_file t)) q = Some d" if "page_content s q = Some d" for q d
    using flushed_content(2) [OF fl that] that by blast
  have uinv: "pager_inv ?u"
    using inv
  proof (rule pager_inv_clean)
    show "lru_inv (pg_cache ?u)" using linv tc lru_inv_dirty [of "pg_cache s" "[]"]
      by (simp add: cache_clear_all_dirty_def dirty_ok_def)
    show "length (f_bytes (pg_file ?u)) \<le> 2 ^ 63"
      using fl by (simp add: flushed_def pager_inv_def pager_sync_def file_sync_def)
  qed (use dur tc in \<open>auto simp: pager_sync_def file_sync_def cache_clear_all_dirty_def page_content_def\<close>)
  have "page_content ?u q = page_content t q" for q
    by (simp add: page_content_def pager_sync_def file_sync_def cache_clear_all_dirty_def split: option.split)
  then show ?thesis using t tc flushed_content(1) [OF fl] rw uinv dur
    by (auto simp: flush_def same_alloc_def pager_sync_def file_sync_def cache_get_all_dirty_def
        cache_clear_all_dirty_def)
qed

subsection \<open>Batched direct writes\<close>

lemma PAGE_SIZE_neq_0 [simp]: "PAGE_SIZE \<noteq> 0" by (simp add: const_defs)

lemma entry_ok_Cons: "list_all entry_ok ((p, d) # ps) \<longleftrightarrow> page_ok p \<and> length d = PAGE_SIZE \<and> list_all entry_ok ps"
  by (simp add: entry_ok_def [of "(p, d)"])

lemma page_offset_next:
  assumes "page_ok c"
  shows "page_ok (c + 1) \<Longrightarrow> page_offset (c + 1) = page_offset c + PAGE_SIZE"
proof -
  have "unat c < 2 ^ 51" using assms by (simp add: page_ok_def)
  then have "unat (c + 1) = Suc (unat c)" by (simp add: unat_word_ariths)
  then show "page_ok (c + 1) \<Longrightarrow> ?thesis" using assms by (simp add: page_offset_ok)
qed

lemma take_batch_append: "take_batch c ps = (b, r) \<Longrightarrow> ps = b @ r"
  by (induction c ps arbitrary: b r rule: take_batch.induct)
    (fastforce split: if_splits prod.splits)+

text \<open>One write of a run of consecutive pages is the same as writing them one by one.\<close>

lemma batch_write:
  "take_batch c ps = (b, r) \<Longrightarrow> page_ok c \<Longrightarrow> list_all entry_ok ps \<Longrightarrow> x \<noteq> [] \<Longrightarrow>
   off + length x = page_offset c + PAGE_SIZE \<Longrightarrow>
   fold write_one b (write_at off x bs) = write_at off (x @ concat (map snd b)) bs"
proof (induction c ps arbitrary: b r x rule: take_batch.induct)
  case (2 c n d ps)
  show ?case
  proof (cases "n = c + 1")
    case True
    obtain b' r' where b': "take_batch n ps = (b', r')" "b = (n, d) # b'" "r = r'"
      using 2(2) True by (auto split: prod.splits)
    have n: "page_ok n" "length d = PAGE_SIZE" using 2(4) by (simp_all only: entry_ok_Cons)
    have off: "page_offset n = page_offset c + PAGE_SIZE" using page_offset_next 2(3) n True by simp
    have dn: "d \<noteq> []" using n(2) PAGE_SIZE_pos by auto
    have "write_one (n, d) (write_at off x bs) = write_at off (x @ d) bs"
      using write_at_write_at_adjacent [OF 2(5) dn, of off bs] 2(6) off by (simp add: write_one_def)
    moreover have "fold write_one b' (write_at off (x @ d) bs) = write_at off ((x @ d) @ concat (map snd b')) bs"
      using 2(4) n off 2(6) 2(5) by (intro 2(1) [OF True b'(1)]) auto
    ultimately show ?thesis using b' by simp
  next
    case False
    then show ?thesis using 2(2) by simp
  qed
qed simp

lemma write_batches_spec:
  "list_all entry_ok ps \<Longrightarrow>
   write_batches ps s = (Ok (), s\<lparr>pg_file := (pg_file s)\<lparr>f_bytes := fold write_one ps (f_bytes (pg_file s))\<rparr>\<rparr>)"
proof (induction ps s rule: write_batches.induct)
  case (2 p d ps s)
  obtain b r where br: "take_batch p ps = (b, r)" by fastforce
  have ps: "ps = b @ r" using take_batch_append [OF br] .
  have e: "page_ok p" "length d = PAGE_SIZE" "list_all entry_ok ps" using 2(2) by (simp_all only: entry_ok_Cons)
  have "d \<noteq> []" using e(2) PAGE_SIZE_pos by auto
  then have b: "write_at (page_offset p) (d @ concat (map snd b)) (f_bytes (pg_file s)) =
      fold write_one b (write_one (p, d) (f_bytes (pg_file s)))"
    using batch_write [OF br e(1,3)] e(2) by (simp add: write_one_def)
  let ?t = "s\<lparr>pg_file := (pg_file s)\<lparr>f_bytes := fold write_one b (write_one (p, d) (f_bytes (pg_file s)))\<rparr>\<rparr>"
  have w: "pager_write_file (page_offset p) (d @ concat (map snd b)) s = (Ok (), ?t)"
    using e(1) by (simp add: pager_write_file_def file_write_all_bytes b)
  have "write_batches r ?t = (Ok (), ?t\<lparr>pg_file := (pg_file ?t)\<lparr>f_bytes := fold write_one r (f_bytes (pg_file ?t))\<rparr>\<rparr>)"
    using 2(1) [OF br [symmetric]] e(3) ps by simp
  then show ?case using br w by (simp add: ps)
qed simp

lemma fold_write_other:
  "list_all entry_ok ps \<Longrightarrow> q \<notin> fst ` set ps \<Longrightarrow> file_page bs q = Some e \<Longrightarrow>
   file_page (fold write_one ps bs) q = Some e"
proof (induction ps arbitrary: bs)
  case (Cons a ps)
  have "file_page (write_one a bs) q = Some e"
    using Cons.prems file_page_write_other [of "fst a" "snd a" q bs e] by (auto simp: write_one_def entry_ok_def)
  then show ?case using Cons by simp
qed simp

lemma fold_write_mem:
  "list_all entry_ok ps \<Longrightarrow> hm_ok ps \<Longrightarrow> (p, d) \<in> set ps \<Longrightarrow> file_page (fold write_one ps bs) p = Some d"
proof (induction ps arbitrary: bs)
  case (Cons a ps)
  show ?case
  proof (cases "a = (p, d)")
    case True
    then have "file_page (write_one a bs) p = Some d"
      using Cons.prems file_page_write_same [of p d bs] by (simp add: write_one_def entry_ok_def)
    moreover have "p \<notin> fst ` set ps" "list_all entry_ok ps" using Cons.prems True by auto
    ultimately show ?thesis using fold_write_other by simp
  next
    case False
    then show ?thesis using Cons by simp
  qed
qed simp

lemma write_pages_direct_eq:
  assumes "\<not> pg_read_only s" "list_all entry_ok pages" "pages \<noteq> []"
  shows "write_pages_direct pages s = (Ok (), pager_sync
    (s\<lparr>pg_file := (pg_file s)\<lparr>f_bytes := fold write_one (sort_key fst pages) (f_bytes (pg_file s))\<rparr>\<rparr>))"
proof -
  have "list_all entry_ok (sort_key fst pages)" using assms(2) by (simp add: list_all_iff)
  then show ?thesis using assms write_batches_spec [of "sort_key fst pages" s]
    by (auto simp: write_pages_direct_def Let_def list_all_iff entry_ok_def)
qed

subsection \<open>Header persistence\<close>

lemma header_of_ok: "length (pg_free_list s) < 2 ^ 32 \<Longrightarrow> header_ok (header_of s)"
  by (simp add: header_ok_def header_of_def unat_of_nat)

lemma write_header_spec:
  assumes rw: "\<not> pg_read_only s" and len: "length (pg_free_list s) < 2 ^ 32"
  shows "\<exists>buf s'. write_header s = (Ok (), s') \<and> length buf = PAGE_SIZE \<and>
    header_deserialize buf = Ok ((header_of s)\<lparr>h_free_list := take MAX_FREE (pg_free_list s)\<rparr>) \<and>
    s' = s\<lparr>pg_file := \<lparr>f_bytes = write_at 0 buf (f_bytes (pg_file s)), f_durable = write_at 0 buf (f_bytes (pg_file s))\<rparr>\<rparr>"
proof -
  obtain buf where buf: "header_serialize (header_of s) = Some buf" "length buf = PAGE_SIZE"
    "header_deserialize buf = Ok ((header_of s)\<lparr>h_free_list := take MAX_FREE (h_free_list (header_of s))\<rparr>)"
    using header_deserialize_serialize [OF header_of_ok [OF len]] by blast
  have g: "get_header_data s = Ok buf" using buf(1) by (simp add: get_header_data_def header_of_def)
  have fl: "h_free_list (header_of s) = pg_free_list s" by (simp add: header_of_def)
  let ?s = "s\<lparr>pg_file := \<lparr>f_bytes = write_at 0 buf (f_bytes (pg_file s)), f_durable = write_at 0 buf (f_bytes (pg_file s))\<rparr>\<rparr>"
  have "write_header s = (Ok (), ?s)"
    using g rw by (cases "pg_file s")
      (simp add: write_header_def pager_write_file_def file_write_all_def seek_ok_def pager_sync_def file_sync_def)
  then show ?thesis using buf fl by auto
qed

lemma read_header_of_file:
  assumes buf: "length buf = PAGE_SIZE" "get_bytes 0 PAGE_SIZE (f_bytes (pg_file t)) = Some buf"
    and h: "header_deserialize buf = Ok h"
  shows "read_header t = (case validate_header (file_size (pg_file t)) h of
      Ok _ \<Rightarrow> (Ok (), t\<lparr>pg_num_pages := h_num_pages h, pg_metadata_page := h_metadata_page h,
                         pg_next_tx_id := h_next_tx_id h, pg_free_list := h_free_list h\<rparr>)
    | Err e \<Rightarrow> (Err e, t) | Panic \<Rightarrow> (Panic, t))"
  using assms by (simp add: read_header_def file_read_exact_def seek_ok_def split: res.splits)

subsection \<open>The page-store interface\<close>

text \<open>
  What the layers above rely on: a store of fixed-size pages with the contents \<open>content\<close>.
  Reading returns the content and changes none; writing changes one page.
\<close>

locale page_store =
  fixes inv :: "'s \<Rightarrow> bool"
    and content :: "'s \<Rightarrow> page_num \<Rightarrow> bytes option"
    and rd :: "page_num \<Rightarrow> 's \<Rightarrow> bytes res \<times> 's"
    and wr :: "page_num \<Rightarrow> bytes \<Rightarrow> 's \<Rightarrow> unit res \<times> 's"
  assumes rd_law: "inv s \<Longrightarrow> content s p = Some d \<Longrightarrow>
      \<exists>s'. rd p s = (Ok d, s') \<and> inv s' \<and> content s' = content s"
    and wr_law: "inv s \<Longrightarrow> page_ok p \<Longrightarrow> length d = PAGE_SIZE \<Longrightarrow>
      \<exists>s'. wr p d s = (Ok (), s') \<and> inv s' \<and> content s' = (content s)(p \<mapsto> d)"
begin

text \<open>A list of writes followed by a read of one of the pages.\<close>

fun wr_all :: "(page_num \<times> bytes) list \<Rightarrow> 's \<Rightarrow> unit res \<times> 's" where
  "wr_all [] s = (Ok (), s)"
| "wr_all ((p, d) # ps) s = and_then (wr p d s) (\<lambda>_ s. wr_all ps s)"

lemma wr_all_content:
  "inv s \<Longrightarrow> list_all entry_ok ps \<Longrightarrow>
   \<exists>s'. wr_all ps s = (Ok (), s') \<and> inv s' \<and> content s' = content s ++ map_of (rev ps)"
proof (induction ps arbitrary: s)
  case (Cons e ps)
  obtain p d where e: "e = (p, d)" by fastforce
  obtain t where t: "wr p d s = (Ok (), t)" "inv t" "content t = (content s)(p \<mapsto> d)"
    using wr_law [OF Cons.prems(1), of p d] Cons.prems(2) e by (auto simp: entry_ok_def [of "(p, d)"])
  obtain u where u: "wr_all ps t = (Ok (), u)" "inv u" "content u = content t ++ map_of (rev ps)"
    using Cons.IH [OF t(2)] Cons.prems(2) by (metis list.pred_inject(2))
  have "content u = content s ++ map_of (rev (e # ps))"
    unfolding u(3) t(3) e by (auto simp: map_add_def fun_eq_iff split: option.splits)
  then show ?case using t(1) e u by simp
qed simp

lemma read_your_writes:
  assumes "inv s" "list_all entry_ok ps" "map_of (rev ps) p = Some d"
  shows "\<exists>s' s''. wr_all ps s = (Ok (), s') \<and> rd p s' = (Ok d, s'')"
proof -
  obtain t where "wr_all ps s = (Ok (), t)" "inv t" "content t p = Some d"
    using wr_all_content [OF assms(1,2)] assms(3) by (auto simp: map_add_def)
  then show ?thesis using rd_law [of t p d] by blast
qed

end

interpretation ps: page_store writable_pager page_content read_page write_page_transfer
proof
  fix s p d
  show "\<exists>s'. read_page p s = (Ok d, s') \<and> writable_pager s' \<and> page_content s' = page_content s"
    if "writable_pager s" "page_content s p = Some d"
    using that read_page_spec [of s p d] by (auto simp: writable_pager_def same_alloc_def)
  show "\<exists>s'. write_page_transfer p d s = (Ok (), s') \<and> writable_pager s' \<and> page_content s' = (page_content s)(p \<mapsto> d)"
    if "writable_pager s" "page_ok p" "length d = PAGE_SIZE"
    using that write_page_transfer_spec [of s p d] by (auto simp: writable_pager_def same_alloc_def)
qed

interpretation ps_shared: page_store writable_pager page_content read_page_shared write_page_transfer
proof
  fix s p d
  show "\<exists>s'. read_page_shared p s = (Ok d, s') \<and> writable_pager s' \<and> page_content s' = page_content s"
    if "writable_pager s" "page_content s p = Some d"
    using that read_page_shared_spec [of s p d] by (auto simp: writable_pager_def same_alloc_def)
  show "\<exists>s'. write_page_transfer p d s = (Ok (), s') \<and> writable_pager s' \<and> page_content s' = (page_content s)(p \<mapsto> d)"
    if "writable_pager s" "page_ok p" "length d = PAGE_SIZE"
    using that by (rule ps.wr_law)
qed

lemma new_pager:
  "\<exists>s. pager_open None n False = Ok s \<and> pager_inv s \<and> alloc_ok s \<and> \<not> pg_read_only s \<and>
     pg_num_pages s = 1 \<and> pg_free_list s = [] \<and> pg_metadata_page s = 0 \<and>
     length (f_bytes (pg_file s)) = PAGE_SIZE \<and> pg_cache s = cache_new n"
proof -
  let ?s = "\<lparr>pg_file = file_empty, pg_cache = cache_new n, pg_num_pages = 1, pg_metadata_page = 0,
    pg_next_tx_id = 1, pg_free_list = [], pg_read_only = False, pg_metrics = None\<rparr>"
  obtain buf s' where s': "write_header ?s = (Ok (), s')" "length buf = PAGE_SIZE"
    "s' = ?s\<lparr>pg_file := \<lparr>f_bytes = write_at 0 buf [], f_durable = write_at 0 buf []\<rparr>\<rparr>"
    using write_header_spec [of ?s] by (auto simp: file_empty_def)
  have "lru_inv (cache_new n)" "lru_view (cache_new n) = []"
    using lru_inv_new lru_view_new by (simp_all add: cache_new_def)
  then show ?thesis using s'
    by (auto simp: pager_open_def pager_inv_def alloc_ok_def free_list_ok_def length_write_at const_defs)
qed

lemma alloc_from_new:
  obtains s t where "pager_open None n False = Ok s" "alloc_page s = (Ok 1, t)" "pager_inv t" "alloc_ok t"
    "\<not> pg_read_only t" "pg_num_pages t = 2" "pg_free_list t = []" "f_bytes (pg_file t) = f_bytes (pg_file s)"
    "length (f_bytes (pg_file s)) = PAGE_SIZE" "pg_cache t = cache_new n" "pg_metadata_page t = 0"
proof -
  obtain s where s: "pager_open None n False = Ok s" "pager_inv s" "alloc_ok s" "\<not> pg_read_only s"
     "pg_num_pages s = 1" "pg_free_list s = []" "pg_metadata_page s = 0" "length (f_bytes (pg_file s)) = PAGE_SIZE"
     "pg_cache s = cache_new n"
    using new_pager by blast
  then have a: "alloc_page s = (Ok 1, with_metrics page_allocated (s\<lparr>pg_free_list := [], pg_num_pages := 2\<rparr>))"
    by (simp add: alloc_page_def alloc_page_minimum_def)
  have "pager_inv (s\<lparr>pg_free_list := [], pg_num_pages := 2\<rparr>)"
    using s(2) by (simp add: pager_inv_def)
  then show ?thesis using that [OF s(1) a] s by (simp add: alloc_ok_def free_list_ok_def)
qed

text \<open>A pager that is closed and opened again has the same pages and the same allocation state.\<close>

lemma close_open:
  assumes inv: "pager_inv s" and rw: "\<not> pg_read_only s" and ok: "alloc_ok s"
    and fl: "length (pg_free_list s) \<le> MAX_FREE"
    and n: "page_ok (pg_num_pages s)" and last: "pg_num_pages s = 1 \<or> page_content s (pg_num_pages s - 1) \<noteq> None"
  shows "\<exists>s' t. pager_close s = (Ok (), s') \<and>
    pager_open (Some (pg_file s')) cache_size ro = Ok t \<and> alloc_ok t \<and> pager_inv t \<and>
    pg_num_pages t = pg_num_pages s \<and> pg_free_list t = pg_free_list s \<and>
    pg_metadata_page t = pg_metadata_page s \<and> pg_next_tx_id t = pg_next_tx_id s \<and>
    (\<forall>p d. p \<noteq> 0 \<longrightarrow> page_content s p = Some d \<longrightarrow> page_content t p = Some d)"
proof -
  obtain u where u: "flush s = (Ok (), u)" "pager_inv u" "same_alloc s u"
    and uc: "\<And>p d. page_content s p = Some d \<Longrightarrow> file_page (f_bytes (pg_file u)) p = Some d"
    using flush_spec [OF inv rw] by metis
  note al = u(3) [unfolded same_alloc_def]
  have "length (pg_free_list u) < 2 ^ 32" using al fl by (simp add: const_defs)
  then obtain buf s' where w: "write_header u = (Ok (), s')" "length buf = PAGE_SIZE"
    "header_deserialize buf = Ok ((header_of u)\<lparr>h_free_list := take MAX_FREE (pg_free_list u)\<rparr>)"
    "s' = u\<lparr>pg_file := \<lparr>f_bytes = write_at 0 buf (f_bytes (pg_file u)), f_durable = write_at 0 buf (f_bytes (pg_file u))\<rparr>\<rparr>"
    using write_header_spec [of u] rw al by auto
  let ?f = "write_at 0 buf (f_bytes (pg_file u))"
  have h: "(header_of u)\<lparr>h_free_list := take MAX_FREE (pg_free_list u)\<rparr> = header_of s"
    using al fl by (simp add: header_of_def)
  have bne: "buf \<noteq> []" using w(2) by auto
  have sz: "unat (pg_num_pages s) * PAGE_SIZE \<le> length ?f"
  proof (cases "pg_num_pages s = 1")
    case True
    then show ?thesis using bne w(2) by (simp add: length_write_at)
  next
    case False
    then obtain d where "page_content s (pg_num_pages s - 1) = Some d" using last by auto
    from uc [OF this] have "page_ok (pg_num_pages s - 1)"
      "page_offset (pg_num_pages s - 1) + PAGE_SIZE \<le> length (f_bytes (pg_file u))"
      by (auto simp: file_page_def get_bytes_Some_iff split: if_splits)
    moreover have "unat (pg_num_pages s) = Suc (unat (pg_num_pages s - 1))"
      using ok unat_gt_0 [of "pg_num_pages s"] by (simp add: alloc_ok_def unat_minus_one)
    ultimately show ?thesis by (simp add: page_offset_ok length_write_at le_max_iff_disj add.commute)
  qed
  define r where "r = \<lparr>pg_file = \<lparr>f_bytes = ?f, f_durable = ?f\<rparr>, pg_cache = cache_new cache_size,
    pg_num_pages = 1, pg_metadata_page = 0, pg_next_tx_id = 1, pg_free_list = [], pg_read_only = ro,
    pg_metrics = None\<rparr>"
  have len: "length ?f \<le> 2 ^ 63"
    using u(2) w(2) by (simp add: pager_inv_def length_write_at const_defs)
  have fsz: "pg_num_pages s * word_of_nat PAGE_SIZE \<le> file_size (pg_file r)"
    using sz len n by (simp add: r_def file_size_def word_le_nat_alt unat_of_nat page_offset_ok [OF n, unfolded page_offset_def])
  have v: "validate_header (file_size (pg_file r)) (header_of s) = Ok ()"
    using ok fsz by (simp add: validate_header_Ok header_of_def alloc_ok_def)
  have "get_bytes 0 PAGE_SIZE (f_bytes (pg_file r)) = Some buf"
    using get_write_same [OF bne w(2)] by (simp add: r_def)
  then have rd: "read_header r = (Ok (), r\<lparr>pg_num_pages := pg_num_pages s, pg_metadata_page := pg_metadata_page s,
      pg_next_tx_id := pg_next_tx_id s, pg_free_list := pg_free_list s\<rparr>)"
    using read_header_of_file [OF w(2) _ w(3) [unfolded h]] v by (simp add: header_of_def)
  have c: "lru_inv (cache_new cache_size)" "lru_view (cache_new cache_size) = []"
    using lru_inv_new lru_view_new by (simp_all add: cache_new_def)
  have "file_page ?f p = Some d" if "p \<noteq> 0" "page_content s p = Some d" for p d
  proof -
    have "file_page (write_at (page_offset 0) buf (f_bytes (pg_file u))) p = Some d"
      using uc [OF that(2)] that(1) w(2) by (intro file_page_write_other) (simp_all add: page_ok_def)
    then show ?thesis by (simp add: page_offset_def)
  qed
  then show ?thesis using u(1) w(1,4) rd c rw len ok
    by (simp add: pager_close_def pager_open_def r_def pager_inv_def alloc_ok_def page_content_def)
qed

text \<open>A header that claims more pages than the file holds is refused.\<close>

lemma short_file_refused:
  assumes rw: "\<not> pg_read_only s" and fl: "length (pg_free_list s) < 2 ^ 32"
    and n: "page_ok (pg_num_pages s)" and n0: "pg_num_pages s \<noteq> 0"
    and short: "max (length (f_bytes (pg_file s))) PAGE_SIZE < unat (pg_num_pages s) * PAGE_SIZE"
  shows "\<exists>s' m. write_header s = (Ok (), s') \<and> pager_open (Some (pg_file s')) cache_size ro = Err (DataCorruption m)"
proof -
  obtain buf s' where w: "write_header s = (Ok (), s')" "length buf = PAGE_SIZE"
    "header_deserialize buf = Ok ((header_of s)\<lparr>h_free_list := take MAX_FREE (pg_free_list s)\<rparr>)"
    "s' = s\<lparr>pg_file := \<lparr>f_bytes = write_at 0 buf (f_bytes (pg_file s)), f_durable = write_at 0 buf (f_bytes (pg_file s))\<rparr>\<rparr>"
    using write_header_spec [OF rw fl] by auto
  let ?f = "write_at 0 buf (f_bytes (pg_file s))"
  have bne: "buf \<noteq> []" using w(2) by auto
  have lf: "length ?f < unat (pg_num_pages s) * PAGE_SIZE" using short bne w(2) by (simp add: length_write_at)
  moreover have "unat (pg_num_pages s) * PAGE_SIZE < 2 ^ 64" using n by (simp add: page_ok_def const_defs)
  ultimately have sz: "file_size (pg_file s') < pg_num_pages s * word_of_nat PAGE_SIZE"
    using w(4) by (simp add: file_size_def word_less_nat_alt unat_of_nat page_offset_ok [OF n, unfolded page_offset_def])
  let ?h = "(header_of s)\<lparr>h_free_list := take MAX_FREE (pg_free_list s)\<rparr>"
  have "\<exists>m. validate_header (file_size (pg_file s')) ?h = Err (DataCorruption m)"
    using n0 sz by (auto simp: validate_header_def header_of_def Let_def)
  then obtain m where m: "validate_header (file_size (pg_file s')) ?h = Err (DataCorruption m)" by blast
  have g: "get_bytes 0 PAGE_SIZE (f_bytes (pg_file s')) = Some buf"
    using get_write_same [OF bne w(2)] w(4) by simp
  let ?r = "\<lparr>pg_file = pg_file s', pg_cache = cache_new cache_size, pg_num_pages = 1, pg_metadata_page = 0,
    pg_next_tx_id = 1, pg_free_list = [], pg_read_only = ro, pg_metrics = None\<rparr>"
  have "read_header ?r = (Err (DataCorruption m), ?r)"
    using read_header_of_file [OF w(2) _ w(3), of ?r] g m by simp
  then show ?thesis using w(1) by (auto simp: pager_open_def)
qed

subsection \<open>Properties\<close>

text \<open>
  a serialised header has one page and is read back field by field; of the free list only
  the first 507 entries fit, and the others are lost.
\<close>

theorem header_roundtrip:
  assumes "header_ok h"
  shows "\<exists>buf. header_serialize h = Some buf \<and> length buf = PAGE_SIZE \<and>
    header_deserialize buf = Ok (h\<lparr>h_free_list := take 507 (h_free_list h)\<rparr>)"
  using header_deserialize_serialize [OF assms] by (simp add: const_defs)

theorem header_roundtrip_witness:
  "\<exists>buf. header_serialize \<lparr>h_magic = MAGIC, h_version = VERSION, h_page_size = word_of_nat PAGE_SIZE,
      h_num_pages = 9, h_free_count = 2, h_metadata_page = 1, h_next_tx_id = 7, h_free_list = [3, 5]\<rparr> = Some buf \<and>
    length buf = PAGE_SIZE \<and>
    header_deserialize buf = Ok \<lparr>h_magic = MAGIC, h_version = VERSION, h_page_size = word_of_nat PAGE_SIZE,
      h_num_pages = 9, h_free_count = 2, h_metadata_page = 1, h_next_tx_id = 7, h_free_list = [3, 5]\<rparr>"
  using header_roundtrip [of "\<lparr>h_magic = MAGIC, h_version = VERSION, h_page_size = word_of_nat PAGE_SIZE,
      h_num_pages = 9, h_free_count = 2, h_metadata_page = 1, h_next_tx_id = 7, h_free_list = [3, 5]\<rparr>"]
  by (simp add: header_ok_def)

text \<open>
  \<open>read_header\<close> succeeds exactly on a readable header whose page count is covered by the
  file and whose free list is a set of pages in range that contains neither the header nor the
  metadata page, and then takes over its four fields; otherwise the pager is unchanged.
\<close>

theorem read_header_validates:
  "read_header s = (Ok (), t) \<longleftrightarrow>
     (\<exists>h. res_bind (file_read_exact 0 PAGE_SIZE (pg_file s)) header_deserialize = Ok h \<and>
        h_num_pages h \<noteq> 0 \<and> h_num_pages h * word_of_nat PAGE_SIZE \<le> file_size (pg_file s) \<and>
        distinct (h_free_list h) \<and> 0 \<notin> set (h_free_list h) \<and>
        set (h_free_list h) \<subseteq> {p. p < h_num_pages h} \<and>
        (h_metadata_page h = 0 \<or> h_metadata_page h \<in> {p. p < h_num_pages h} - set (h_free_list h)) \<and>
        t = s\<lparr>pg_num_pages := h_num_pages h, pg_metadata_page := h_metadata_page h,
              pg_next_tx_id := h_next_tx_id h, pg_free_list := h_free_list h\<rparr>)"
proof -
  have v: "validate_header n h = Ok () \<longleftrightarrow> h_num_pages h \<noteq> 0 \<and> h_num_pages h * word_of_nat PAGE_SIZE \<le> n \<and>
      distinct (h_free_list h) \<and> 0 \<notin> set (h_free_list h) \<and> set (h_free_list h) \<subseteq> {p. p < h_num_pages h} \<and>
      (h_metadata_page h = 0 \<or> h_metadata_page h \<in> {p. p < h_num_pages h} - set (h_free_list h))" for n h
    unfolding validate_header_Ok free_list_ok_def word_gt_0 by blast
  show ?thesis
  proof (cases "res_bind (file_read_exact 0 PAGE_SIZE (pg_file s)) header_deserialize")
    case (Ok h)
    then show ?thesis using v [of "file_size (pg_file s)" h]
      by (cases "validate_header (file_size (pg_file s)) h") (auto simp: read_header_def)
  qed (simp_all add: read_header_def)
qed

text \<open>
  C2: closing a pager and opening its file again gives back every page other than the header
  page, the page count, the free list, the metadata page and the next transaction id, provided
  the last allocated page has been written and the free list fits the header page.
\<close>

theorem close_reopen:
  assumes "pager_inv s" "\<not> pg_read_only s" "alloc_ok s" "length (pg_free_list s) \<le> 507"
    and "page_ok (pg_num_pages s)" "pg_num_pages s = 1 \<or> page_content s (pg_num_pages s - 1) \<noteq> None"
  shows "\<exists>s' t. pager_close s = (Ok (), s') \<and> pager_open (Some (pg_file s')) cache_size ro = Ok t \<and>
    alloc_ok t \<and> pager_inv t \<and>
    pg_num_pages t = pg_num_pages s \<and> pg_free_list t = pg_free_list s \<and>
    pg_metadata_page t = pg_metadata_page s \<and> pg_next_tx_id t = pg_next_tx_id s \<and>
    (\<forall>p d. p \<noteq> 0 \<longrightarrow> page_content s p = Some d \<longrightarrow> page_content t p = Some d)"
  using close_open [OF assms(1-3) _ assms(5,6)] assms(4) by (simp add: const_defs)

theorem close_reopen_witness:
  "\<exists>s s' t u. pager_open None 10 False = Ok s \<and> alloc_page s = (Ok 1, s') \<and>
     write_page_transfer 1 (replicate PAGE_SIZE 7) s' = (Ok (), t) \<and>
     (\<exists>t' u. pager_close t = (Ok (), t') \<and> pager_open (Some (pg_file t')) 10 True = Ok u \<and>
        page_content u 1 = Some (replicate PAGE_SIZE 7))"
proof -
  obtain s s' where s: "pager_open None 10 False = Ok s" "alloc_page s = (Ok 1, s')" "pager_inv s'" "alloc_ok s'"
    "\<not> pg_read_only s'" "pg_num_pages s' = 2" "pg_free_list s' = []"
    using alloc_from_new [of 10] by metis
  obtain t where t: "write_page_transfer 1 (replicate PAGE_SIZE 7) s' = (Ok (), t)" "pager_inv t"
    "page_content t = (page_content s')(1 \<mapsto> replicate PAGE_SIZE 7)" "same_alloc s' t"
    using write_page_transfer_spec [OF s(3), of 1 "replicate PAGE_SIZE 7"] s(5) by (auto simp: page_ok_def)
  have "alloc_ok t" "\<not> pg_read_only t" "pg_num_pages t = 2" "pg_free_list t = []"
    using t(4) s by (simp_all add: same_alloc_def alloc_ok_def)
  then have "\<exists>t' u. pager_close t = (Ok (), t') \<and> pager_open (Some (pg_file t')) 10 True = Ok u \<and>
        page_content u 1 = Some (replicate PAGE_SIZE 7)"
    using close_reopen [OF t(2), of 10 True] t(3) by (auto simp: page_ok_def)
  then show ?thesis using s t by blast
qed

text \<open>
  a header written while the last allocated page is still missing from the file cannot be
  opened again: allocating a page (or rolling back the transaction that did) and writing the
  header leaves a file that \<open>open\<close> refuses as truncated.
\<close>

theorem unwritten_page_blocks_reopen:
  assumes "\<not> pg_read_only s" "length (pg_free_list s) < 2 ^ 32" "page_ok (pg_num_pages s)"
    and "pg_num_pages s \<noteq> 0" "max (length (f_bytes (pg_file s))) PAGE_SIZE < unat (pg_num_pages s) * PAGE_SIZE"
  shows "\<exists>s' m. write_header s = (Ok (), s') \<and>
    pager_open (Some (pg_file s')) cache_size ro = Err (DataCorruption m)"
  using assms by (rule short_file_refused)

theorem unwritten_page_blocks_reopen_witness:
  "\<exists>s s' t m. pager_open None 10 False = Ok s \<and> alloc_page s = (Ok 1, s') \<and> write_header s' = (Ok (), t) \<and>
     pager_open (Some (pg_file t)) 10 False = Err (DataCorruption m)"
proof -
  obtain s s' where s: "pager_open None 10 False = Ok s" "alloc_page s = (Ok 1, s')"
    "\<not> pg_read_only s'" "pg_num_pages s' = 2" "pg_free_list s' = []"
    "length (f_bytes (pg_file s')) = PAGE_SIZE"
    using alloc_from_new [of 10] by metis
  have "\<exists>t m. write_header s' = (Ok (), t) \<and> pager_open (Some (pg_file t)) 10 False = Err (DataCorruption m)"
    using s by (intro unwritten_page_blocks_reopen) (simp_all add: page_ok_def const_defs)
  then show ?thesis using s by blast
qed

text \<open>
  \<open>alloc_page\<close> returns a page that is neither in use nor the header nor the metadata page;
  it prefers the page freed last, and extends the file by one page otherwise. Afterwards exactly
  this page has been added to the pages in use.
\<close>

theorem alloc_page_fresh:
  assumes "alloc_ok s" "\<not> pg_read_only s" "pg_num_pages s \<noteq> - 1"
  shows "\<exists>p s'. alloc_page s = (Ok p, s') \<and> alloc_ok s' \<and> p \<notin> in_use s \<and>
    in_use s' = insert p (in_use s) \<and> p \<noteq> 0 \<and> p \<noteq> pg_metadata_page s \<and>
    p = (if pg_free_list s = [] then pg_num_pages s else last (pg_free_list s))"
  using alloc_page_spec [OF assms] by auto

theorem alloc_page_fresh_witness:
  "\<exists>s p s'. pager_open None 10 False = Ok s \<and> alloc_page s = (Ok p, s') \<and> p \<notin> in_use s \<and> p \<in> in_use s'"
proof -
  obtain s where s: "pager_open None 10 False = Ok s" "alloc_ok s" "\<not> pg_read_only s" "pg_num_pages s = 1"
    using new_pager [of 10] by blast
  then show ?thesis using alloc_page_fresh [of s] by auto
qed

text \<open>
  \<open>alloc_page_minimum\<close> returns a free page not below the minimum, but every smaller page it
  pops on the way leaves the free list as well and is from then on neither free nor used.
\<close>

theorem alloc_page_minimum_drops:
  assumes "alloc_ok s" "\<not> pg_read_only s" "pg_num_pages s \<noteq> - 1" "m \<le> pg_num_pages s"
  shows "\<exists>p s'. alloc_page_minimum m s = (Ok p, s') \<and> m \<le> p \<and> alloc_ok s' \<and> p \<notin> in_use s \<and>
    insert p (in_use s) \<subseteq> in_use s' \<and> (\<forall>q. q \<in> in_use s' - insert p (in_use s) \<longrightarrow> q < m)"
  using alloc_page_minimum_spec [OF assms] by auto

theorem alloc_page_minimum_drops_witness:
  "\<exists>p s'. alloc_page_minimum 4 \<lparr>pg_file = file_empty, pg_cache = cache_new 10, pg_num_pages = 9,
       pg_metadata_page = 0, pg_next_tx_id = 1, pg_free_list = [6, 2, 3], pg_read_only = False, pg_metrics = None\<rparr>
     = (Ok p, s') \<and> 4 \<le> p \<and> p = 6 \<and> pg_free_list s' = []"
proof -
  let ?s = "\<lparr>pg_file = file_empty, pg_cache = cache_new 10, pg_num_pages = 9,
       pg_metadata_page = 0, pg_next_tx_id = 1, pg_free_list = [6, 2, 3], pg_read_only = False, pg_metrics = None\<rparr>"
  obtain p s' where "alloc_page_minimum 4 ?s = (Ok p, s')" "4 \<le> p"
    using alloc_page_minimum_drops [of ?s 4] by (auto simp: alloc_ok_def free_list_ok_def)
  moreover have "alloc_page_minimum 4 ?s = (Ok 6, ?s\<lparr>pg_free_list := []\<rparr>)"
    by (simp add: alloc_page_minimum_def)
  ultimately show ?thesis by auto
qed

text \<open>
  C1: a list of page writes with \<open>write_page_transfer\<close> followed by a read of any of the pages returns the data last
  written there, whatever the cache had to evict in between. The other operation, \<open>write_page\<close>, does not have this property.
\<close>

theorem pager_read_your_writes:
  assumes "pager_inv s" "\<not> pg_read_only s" "list_all entry_ok ps" "map_of (rev ps) p = Some d"
  shows "\<exists>s' s''. fold (\<lambda>(p, d) r. and_then r (\<lambda>_. write_page_transfer p d)) ps (Ok (), s) = (Ok (), s') \<and>
    read_page p s' = (Ok d, s'')"
proof -
  have f: "fold (\<lambda>(p, d) r. and_then r (\<lambda>_. write_page_transfer p d)) ps (Ok (), t) = ps.wr_all ps t" for t
  proof (induction ps arbitrary: t)
    case (Cons e ps)
    have err: "fold (\<lambda>(p, d) r. and_then r (\<lambda>_. write_page_transfer p d)) qs (r, t) = (r, t)"
      if "r = Panic \<or> (\<exists>x. r = Err x)" for qs r t
      using that by (induction qs) auto
    obtain q x where e: "e = (q, x)" by fastforce
    obtain r u where "write_page_transfer q x t = (r, u)" by fastforce
    then show ?case using Cons.IH [of u] err [of r ps u] e by (cases r) auto
  qed simp
  show ?thesis unfolding f using assms by (intro ps.read_your_writes) (simp_all add: writable_pager_def)
qed

theorem pager_read_your_writes_witness:
  "\<exists>s s' s''. pager_open None 1 False = Ok s \<and>
    fold (\<lambda>(p, d) r. and_then r (\<lambda>_. write_page_transfer p d))
      [(1, replicate PAGE_SIZE 7), (2, replicate PAGE_SIZE 8)] (Ok (), s) = (Ok (), s') \<and>
    read_page 1 s' = (Ok (replicate PAGE_SIZE 7), s'')"
proof -
  obtain s where s: "pager_open None 1 False = Ok s" "pager_inv s" "\<not> pg_read_only s"
    using new_pager [of 1] by blast
  then show ?thesis
    using pager_read_your_writes [of s "[(1, replicate PAGE_SIZE 7), (2, replicate PAGE_SIZE 8)]" 1 "replicate PAGE_SIZE 7"]
    by (auto simp: entry_ok_def page_ok_def)
qed

text \<open>
  a write through \<open>write_page\<close> is lost without an error when the cache is full of dirty
  pages: the new page is still clean when \<open>put\<close> evicts, so it evicts itself, and marking it dirty
  afterwards does not bring it back.
\<close>

theorem write_page_lost:
  assumes "pager_inv s" "\<not> pg_read_only s" "length d = PAGE_SIZE"
    and "map_of (lru_view (pg_cache s)) p = None" "\<not> cache_is_dirty p (pg_cache s)"
    and "lru_capacity (pg_cache s) \<le> length (lru_view (pg_cache s))"
    and "\<forall>e \<in> set (lru_view (pg_cache s)). cache_is_dirty (fst e) (pg_cache s)"
  shows "\<exists>s'. pager_write_page p d s = (Ok (), s') \<and> page_content s' = page_content s"
proof -
  have linv: "lru_inv (pg_cache s)" using assms(1) by (simp add: pager_inv_def)
  let ?D = "\<lambda>q. cache_is_dirty q (pg_cache s)"
  obtain c where c: "lru_put p d (pg_cache s) = Some c"
    "lru_view c = spec_put (lru_capacity (pg_cache s)) ?D p d (lru_view (pg_cache s))"
    using put_refines [OF linv] by blast
  have "drop_last_clean ?D ([(p, d)] @ lru_view (pg_cache s)) = drop_last_clean ?D ([] @ [(p, d)]) @ lru_view (pg_cache s)"
    using assms(7) by (simp only: append_Nil drop_last_clean_dirty_suffix)
  then have "lru_view c = lru_view (pg_cache s)"
    using c(2) assms(4,5,6) by (simp add: spec_put_def drop_last_clean_def)
  then show ?thesis using assms(2,3) c(1)
    by (simp add: pager_write_page_def with_cache_def page_content_def cache_mark_dirty_def fun_eq_iff split: option.split)
qed

theorem write_page_lost_witness:
  "\<exists>s t u. pager_open None 1 False = Ok s \<and> write_page_transfer 1 (replicate PAGE_SIZE 7) s = (Ok (), t) \<and>
     pager_write_page 2 (replicate PAGE_SIZE 8) t = (Ok (), u) \<and> page_content u 2 = None"
proof -
  let ?d = "replicate PAGE_SIZE 7 :: bytes"
  obtain s where s: "pager_open None 1 False = Ok s" "pager_inv s" "\<not> pg_read_only s"
    "length (f_bytes (pg_file s)) = PAGE_SIZE" "pg_cache s = cache_new 1"
    using new_pager [of 1] by blast
  obtain c where c: "put_dirty_atomic 1 ?d (lru_new 1) = Some c"
    "lru_view c = spec_put 1 (\<lambda>q. q = 1 \<or> cache_is_dirty q (lru_new 1)) 1 ?d []"
    "lru_dirty c = [(1, True)]" "lru_capacity c = 1"
    using put_dirty_atomic_refines [OF lru_inv_new, of 1 ?d 1] by (auto simp: lru_view_new) (auto simp: lru_new_def)
  have v: "lru_view c = [(1, ?d)]" using c(2) by (simp add: spec_put_def)
  let ?t = "s\<lparr>pg_cache := c\<rparr>"
  have t: "write_page_transfer 1 ?d s = (Ok (), ?t)"
    using s c by (simp add: write_page_transfer_def with_cache_def cache_new_def)
  have "pager_inv ?t" using write_page_transfer_spec [OF s(2), of 1 ?d] s(3) t by (auto simp: page_ok_def)
  then obtain u where u: "pager_write_page 2 (replicate PAGE_SIZE 8) ?t = (Ok (), u)" "page_content u = page_content ?t"
    using write_page_lost [of ?t "replicate PAGE_SIZE 8" 2] s(3) v c by (auto simp: cache_is_dirty_def)
  have "page_content ?t 2 = None"
    using s(4) v by (simp add: page_content_def file_page_def get_bytes_None_iff page_offset_ok page_ok_def)
  then show ?thesis using s t u by metis
qed

text \<open>
  C6: \<open>flush\<close> makes the contents durable: every page readable before is readable after with the
  same data, is on the disk even if the machine stops, and no page is dirty.
\<close>

theorem flush_durable:
  assumes "pager_inv s" "\<not> pg_read_only s"
  shows "\<exists>s'. flush s = (Ok (), s') \<and> pager_inv s' \<and> cache_get_all_dirty (pg_cache s') = [] \<and>
    (\<forall>p d. page_content s p = Some d \<longrightarrow>
       page_content s' p = Some d \<and> file_page (f_durable (pg_file s')) p = Some d)"
  using flush_spec [OF assms] by auto

theorem flush_durable_witness:
  "\<exists>s t u. pager_open None 10 False = Ok s \<and> write_page_transfer 3 (replicate PAGE_SIZE 7) s = (Ok (), t) \<and>
     flush t = (Ok (), u) \<and> file_page (f_durable (pg_file u)) 3 = Some (replicate PAGE_SIZE 7)"
proof -
  obtain s where s: "pager_open None 10 False = Ok s" "pager_inv s" "\<not> pg_read_only s"
    using new_pager [of 10] by blast
  obtain t where t: "write_page_transfer 3 (replicate PAGE_SIZE 7) s = (Ok (), t)" "pager_inv t"
    "page_content t = (page_content s)(3 \<mapsto> replicate PAGE_SIZE 7)" "\<not> pg_read_only t"
    using write_page_transfer_spec [OF s(2), of 3 "replicate PAGE_SIZE 7"] s(3) by (auto simp: page_ok_def same_alloc_def)
  then show ?thesis using s flush_durable [OF t(2,4)] by (metis fun_upd_same)
qed

text \<open>
  \<open>write_pages_direct\<close>, which sorts the pages and joins runs of consecutive ones into one
  write, stores every page as a page-by-page loop would, leaves all others alone, and the result
  is durable.
\<close>

theorem write_pages_direct_stores:
  assumes "\<not> pg_read_only s" "list_all entry_ok pages" "distinct (map fst pages)" "pages \<noteq> []"
  shows "\<exists>s'. write_pages_direct pages s = (Ok (), s') \<and>
    f_bytes (pg_file s') = fold write_one (sort_key fst pages) (f_bytes (pg_file s)) \<and>
    f_durable (pg_file s') = f_bytes (pg_file s') \<and>
    (\<forall>p d. (p, d) \<in> set pages \<longrightarrow> file_page (f_bytes (pg_file s')) p = Some d) \<and>
    (\<forall>q d. q \<notin> fst ` set pages \<longrightarrow> file_page (f_bytes (pg_file s)) q = Some d \<longrightarrow>
       file_page (f_bytes (pg_file s')) q = Some d)"
proof -
  let ?ps = "sort_key fst pages"
  have ps: "list_all entry_ok ?ps" "hm_ok ?ps" "set ?ps = set pages"
    using assms(2,3) by (simp_all add: list_all_iff distinct_map)
  show ?thesis using write_pages_direct_eq [OF assms(1,2,4)] fold_write_mem [OF ps(1,2)] fold_write_other [OF ps(1)] ps(3)
    by (simp add: pager_sync_def file_sync_def)
qed

theorem write_pages_direct_stores_witness:
  "\<exists>s s'. pager_open None 10 False = Ok s \<and>
    write_pages_direct [(3, replicate PAGE_SIZE 8), (2, replicate PAGE_SIZE 7)] s = (Ok (), s') \<and>
    file_page (f_durable (pg_file s')) 2 = Some (replicate PAGE_SIZE 7)"
proof -
  obtain s where s: "pager_open None 10 False = Ok s" "\<not> pg_read_only s"
    using new_pager [of 10] by blast
  have "list_all entry_ok [(3, replicate PAGE_SIZE 8), (2, replicate PAGE_SIZE 7)]"
    by (simp add: entry_ok_def page_ok_def)
  then show ?thesis
    using s write_pages_direct_stores [of s "[(3, replicate PAGE_SIZE 8), (2, replicate PAGE_SIZE 7)]"] by auto
qed

end
