(* ===== verification/Wal.thy ===== *)
theory Wal
  imports Pager
begin

unbundle bit_operations_syntax

text \<open>
  \<open>src/core/wal.rs\<close>: the write-ahead log, a 32-byte header followed by frames of one page each.

  \<open>file\<close> and \<open>writer\<close> are two handles of one open file (\<open>try_clone\<close>), so they share the file
  cursor: \<open>w_cursor\<close> is that cursor and \<open>w_buf\<close> the bytes still in the \<open>BufWriter\<close>, which go
  to wherever the cursor is when the writer is flushed. Offsets are natural numbers: a frame
  whose offset does not fit an \<open>i64\<close> cannot be in a file. The clock is an argument (\<open>now\<close>,
  in milliseconds), as are the salts of a new log. \<open>checksum_buf\<close> is overwritten on every use
  and not part of the state.
\<close>


subsection \<open>Checksums\<close>

text \<open>One step of the inner loop of \<open>generate_crc32_table\<close>.\<close>

definition crc_step :: "u32 \<Rightarrow> u32" where
  "crc_step crc = (if crc AND 1 \<noteq> 0 then (drop_bit 1 crc) XOR 0xEDB88320 else drop_bit 1 crc)"

definition generate_crc32_table :: "u32 list" where
  "generate_crc32_table = map (\<lambda>i. (crc_step ^^ 8) (word_of_nat i)) [0..<256]"

definition crc32_ieee :: "bytes \<Rightarrow> u32" where
  "crc32_ieee data = NOT (fold (\<lambda>byte crc.
     (drop_bit 8 crc) XOR generate_crc32_table ! unat ((crc XOR ucast byte) AND 0xFF)) data 0xFFFFFFFF)"


subsection \<open>Frames\<close>

record wal_header =
  wh_magic :: bytes
  wh_version :: u32
  wh_salt1 :: u32
  wh_salt2 :: u32

record wal_frame =
  wf_tx_id :: u64
  wf_page_num :: u64
  wf_page_data :: bytes
  wf_checksum :: u32
  wf_salt1 :: u32
  wf_salt2 :: u32

definition calculate_checksum :: "wal_frame \<Rightarrow> u32" where
  "calculate_checksum f = (crc32_ieee (u64_to_le (wf_tx_id f) @ u64_to_le (wf_page_num f) @ wf_page_data f)
     XOR wf_salt1 f) XOR wf_salt2 f"

definition serialize_frame_into :: "wal_frame \<Rightarrow> bytes \<Rightarrow> bytes option" where
  "serialize_frame_into f data = do {
     data \<leftarrow> put_bytes 0 (u64_to_le (wf_tx_id f)) data;
     data \<leftarrow> put_bytes 8 (u64_to_le (wf_page_num f)) data;
     data \<leftarrow> put_bytes 16 (u32_to_le (wf_salt1 f)) data;
     data \<leftarrow> put_bytes 20 (u32_to_le (wf_salt2 f)) data;
     data \<leftarrow> put_bytes 24 (wf_page_data f) data;
     put_bytes (24 + PAGE_SIZE) (u32_to_le (wf_checksum f)) data
   }"

definition parse_frame :: "bytes \<Rightarrow> wal_frame res" where
  "parse_frame data =
     res_bind (no_panic (get_bytes 24 PAGE_SIZE data)) (\<lambda>page_data.
     res_bind (read_u64 0 data) (\<lambda>tx_id.
     res_bind (read_u64 8 data) (\<lambda>page_num.
     res_bind (read_u32 16 data) (\<lambda>salt1.
     res_bind (read_u32 20 data) (\<lambda>salt2.
     res_bind (read_u32 (24 + PAGE_SIZE) data) (\<lambda>checksum.
     Ok \<lparr>wf_tx_id = tx_id, wf_page_num = page_num, wf_page_data = page_data,
         wf_checksum = checksum, wf_salt1 = salt1, wf_salt2 = salt2\<rparr>))))))"

text \<open>\<open>parse_frame_header\<close> copies the page with \<open>to_vec\<close> instead, with the same result.\<close>

definition parse_frame_header :: "bytes \<Rightarrow> wal_frame res" where
  "parse_frame_header = parse_frame"


subsection \<open>The log file and its buffered writer\<close>

record wal =
  w_file :: dfile
  w_cursor :: nat
  w_buf :: bytes
  w_header :: wal_header
  w_frame_num :: u64
  w_cached_file_size :: int
  w_cache_timestamp :: "nat option"
  w_file_position :: int
  w_metrics :: "metrics option"

definition WAL_BUFFER_SIZE :: nat where [const_defs]: "WAL_BUFFER_SIZE = 64 * 1024"
definition STAT_CACHE_TTL :: nat where [const_defs]: "STAT_CACHE_TTL = 100"

definition wal_seek :: "nat \<Rightarrow> wal \<Rightarrow> wal" where
  "wal_seek off w = w\<lparr>w_cursor := off\<rparr>"

text \<open>\<open>write_all\<close> at the cursor.\<close>

definition wal_write_file :: "bytes \<Rightarrow> wal \<Rightarrow> wal" where
  "wal_write_file data w =
     w\<lparr>w_file := (w_file w)\<lparr>f_bytes := write_at (w_cursor w) data (f_bytes (w_file w))\<rparr>,
       w_cursor := w_cursor w + length data\<rparr>"

definition writer_flush :: "wal \<Rightarrow> wal" where
  "writer_flush w = (wal_write_file (w_buf w) w)\<lparr>w_buf := []\<rparr>"

text \<open>\<open>BufWriter::write_all\<close>: flush when the data does not fit the spare capacity, and bypass the
  buffer for data as large as its capacity.\<close>

definition writer_write_all :: "bytes \<Rightarrow> wal \<Rightarrow> wal" where
  "writer_write_all data w =
     (let w = (if length data > WAL_BUFFER_SIZE - length (w_buf w) then writer_flush w else w) in
      if length data \<ge> WAL_BUFFER_SIZE then wal_write_file data w
      else w\<lparr>w_buf := w_buf w @ data\<rparr>)"

text \<open>\<open>read_exact\<close> at the cursor; at the end of the file the cursor stays there.\<close>

definition wal_read_exact :: "nat \<Rightarrow> wal \<Rightarrow> bytes res \<times> wal" where
  "wal_read_exact n w =
     (case get_bytes (w_cursor w) n (f_bytes (w_file w)) of
        Some d \<Rightarrow> (Ok d, w\<lparr>w_cursor := w_cursor w + n\<rparr>)
      | None \<Rightarrow> (Err (Io ''failed to fill whole buffer''),
                 w\<lparr>w_cursor := max (w_cursor w) (length (f_bytes (w_file w)))\<rparr>))"

definition wal_sync_all :: "wal \<Rightarrow> wal" where
  "wal_sync_all w = w\<lparr>w_file := file_sync (w_file w)\<rparr>"

definition wal_offset :: "u64 \<Rightarrow> nat" where
  "wal_offset n = WAL_HEADER_SIZE + unat n * WAL_FRAME_SIZE"


subsection \<open>WALInner\<close>

definition wal_write_header :: "wal \<Rightarrow> unit res \<times> wal" where
  "wal_write_header w =
     (case do {
        data \<leftarrow> put_bytes 0 (wh_magic (w_header w)) (replicate WAL_HEADER_SIZE 0);
        data \<leftarrow> put_bytes 4 (u32_to_le (wh_version (w_header w))) data;
        data \<leftarrow> put_bytes 8 (u32_to_le (wh_salt1 (w_header w))) data;
        put_bytes 12 (u32_to_le (wh_salt2 (w_header w))) data } of
        None \<Rightarrow> (Panic, w)
      | Some data \<Rightarrow>
          let w = wal_seek 0 (writer_flush w);
              w = (writer_write_all data w)\<lparr>w_file_position := int (length data)\<rparr>
          in (Ok (), wal_sync_all (writer_flush w)))"

definition wal_read_header :: "wal \<Rightarrow> wal_header res \<times> wal" where
  "wal_read_header w =
     and_then (wal_read_exact WAL_HEADER_SIZE (wal_seek 0 w)) (\<lambda>data w.
       let w = w\<lparr>w_file_position := int (length data)\<rparr> in
       (res_bind (no_panic (get_bytes 0 4 data)) (\<lambda>magic.
        res_bind (read_u32 4 data) (\<lambda>version.
        res_bind (read_u32 8 data) (\<lambda>salt1.
        res_bind (read_u32 12 data) (\<lambda>salt2.
        if magic \<noteq> WAL_MAGIC then Err WALCorrupted
        else Ok \<lparr>wh_magic = magic, wh_version = version, wh_salt1 = salt1, wh_salt2 = salt2\<rparr>)))), w))"

text \<open>The loop of \<open>count_frames\<close> from frame \<open>i\<close> on, with \<open>k\<close> frames left to try.\<close>

fun count_loop :: "nat \<Rightarrow> nat \<Rightarrow> wal \<Rightarrow> nat \<times> wal" where
  "count_loop 0 i w = (0, w)"
| "count_loop (Suc k) i w =
     (let offset = WAL_HEADER_SIZE + i * WAL_FRAME_SIZE in
      case wal_read_exact WAL_FRAME_SIZE (wal_seek offset w) of
        (Ok data, w) \<Rightarrow>
          let w = w\<lparr>w_file_position := int offset + int (length data)\<rparr> in
          (case parse_frame_header data of
             Ok frame \<Rightarrow>
               if wf_salt1 frame \<noteq> wh_salt1 (w_header w) \<or> wf_salt2 frame \<noteq> wh_salt2 (w_header w) then (0, w)
               else if wf_checksum frame \<noteq> calculate_checksum frame then (0, w)
               else (case count_loop k (Suc i) w of (n, w) \<Rightarrow> (Suc n, w))
           | _ \<Rightarrow> (0, w))
      | (_, w) \<Rightarrow> (0, w))"

definition count_frames :: "wal \<Rightarrow> u64 \<times> wal" where
  "count_frames w =
     (let fsize = length (f_bytes (w_file w)) in
      if fsize < WAL_HEADER_SIZE then (0, w)
      else case count_loop ((fsize - WAL_HEADER_SIZE) div WAL_FRAME_SIZE) 0 w of
          (n, w) \<Rightarrow> (word_of_nat n, w))"


subsection \<open>WAL\<close>

definition wal_open :: "dfile option \<Rightarrow> u32 \<Rightarrow> u32 \<Rightarrow> wal res" where
  "wal_open disk salt1 salt2 =
     (let w = \<lparr>w_file = (case disk of None \<Rightarrow> file_empty | Some f \<Rightarrow> f), w_cursor = 0, w_buf = [],
               w_header = \<lparr>wh_magic = WAL_MAGIC, wh_version = 1, wh_salt1 = salt1, wh_salt2 = salt2\<rparr>,
               w_frame_num = 0, w_cached_file_size = 0, w_cache_timestamp = None,
               w_file_position = - 1, w_metrics = None\<rparr>
      in if disk = None then (case wal_write_header w of (r, w) \<Rightarrow> res_bind r (\<lambda>_. Ok w))
         else case wal_read_header w of (r, w) \<Rightarrow>
           res_bind r (\<lambda>h. case count_frames (w\<lparr>w_header := h\<rparr>) of (n, w) \<Rightarrow> Ok (w\<lparr>w_frame_num := n\<rparr>)))"

definition write_frame :: "u64 \<Rightarrow> u64 \<Rightarrow> bytes \<Rightarrow> nat \<Rightarrow> wal \<Rightarrow> unit res \<times> wal" where
  "write_frame tx_id page_num page_data now w =
     (if length page_data \<noteq> PAGE_SIZE then (Err InvalidPageSize, w)
      else
       let frame = \<lparr>wf_tx_id = tx_id, wf_page_num = page_num, wf_page_data = page_data, wf_checksum = 0,
                    wf_salt1 = wh_salt1 (w_header w), wf_salt2 = wh_salt2 (w_header w)\<rparr>;
           frame = frame\<lparr>wf_checksum := calculate_checksum frame\<rparr>
       in (case serialize_frame_into frame (replicate WAL_FRAME_SIZE 0) of
             None \<Rightarrow> (Panic, w)
           | Some data \<Rightarrow>
               let offset = wal_offset (w_frame_num w);
                   w = (if w_file_position w \<noteq> int offset then wal_seek offset (writer_flush w) else w);
                   w = writer_write_all data w
               in (Ok (), w\<lparr>w_file_position := int offset + int WAL_FRAME_SIZE,
                            w_frame_num := w_frame_num w + 1,
                            w_cached_file_size := w_cached_file_size w + int WAL_FRAME_SIZE,
                            w_cache_timestamp := Some now,
                            w_metrics := map_option (wal_write (word_of_nat WAL_FRAME_SIZE)) (w_metrics w)\<rparr>)))"

definition wal_sync :: "wal \<Rightarrow> unit res \<times> wal" where
  "wal_sync w = (Ok (), wal_sync_all (writer_flush w))"

definition frame_count :: "wal \<Rightarrow> u64" where
  "frame_count w = w_frame_num w"

definition refresh_frame_count :: "nat \<Rightarrow> wal \<Rightarrow> unit res \<times> wal" where
  "refresh_frame_count now w =
     (let frames_in = (\<lambda>fsize. word_of_int ((fsize - int WAL_HEADER_SIZE) div int WAL_FRAME_SIZE) :: u64);
          real_size = int (length (f_bytes (w_file w)));
          recount = (\<lambda>w. case count_frames w of (n, w) \<Rightarrow> w\<lparr>w_frame_num := n\<rparr>)
      in case w_cache_timestamp w of
          Some cache_time \<Rightarrow>
            if now - cache_time < STAT_CACHE_TTL then
              (if w_cached_file_size w < int WAL_HEADER_SIZE then (Ok (), w)
               else if frames_in (w_cached_file_size w) > w_frame_num w
                 then (Ok (), recount (w\<lparr>w_cached_file_size := real_size, w_cache_timestamp := Some now\<rparr>))
               else (Ok (), w))
            else
              let w = w\<lparr>w_cached_file_size := real_size, w_cache_timestamp := Some now\<rparr> in
              (if real_size < int WAL_HEADER_SIZE then (Ok (), w)
               else if frames_in real_size > w_frame_num w then (Ok (), recount w) else (Ok (), w))
        | None \<Rightarrow>
            let w = w\<lparr>w_cached_file_size := real_size, w_cache_timestamp := Some now\<rparr> in
            (if real_size < int WAL_HEADER_SIZE then (Ok (), w)
             else if frames_in real_size > w_frame_num w then (Ok (), recount w) else (Ok (), w)))"

definition read_frame :: "u64 \<Rightarrow> wal \<Rightarrow> wal_frame res \<times> wal" where
  "read_frame frame_num w =
     (if frame_num \<ge> w_frame_num w then (Err (Other ''EOF''), w)
      else and_then (wal_read_exact WAL_FRAME_SIZE (wal_seek (wal_offset frame_num) w)) (\<lambda>data w.
        let w = w\<lparr>w_file_position := int (wal_offset frame_num) + int (length data)\<rparr> in
        and_then (parse_frame data, w) (\<lambda>frame w.
          if wf_checksum frame \<noteq> calculate_checksum frame then (Err WALChecksumFail, w)
          else (Ok frame, w))))"

fun read_frames_from :: "nat \<Rightarrow> u64 \<Rightarrow> wal \<Rightarrow> wal_frame list res \<times> wal" where
  "read_frames_from 0 i w = (Ok [], w)"
| "read_frames_from (Suc k) i w =
     and_then (read_frame i w) (\<lambda>frame w.
     and_then (read_frames_from k (i + 1) w) (\<lambda>frames w. (Ok (frame # frames), w)))"

definition read_all_frames :: "wal \<Rightarrow> wal_frame list res \<times> wal" where
  "read_all_frames w = read_frames_from (unat (w_frame_num w)) 0 w"

text \<open>
  The first loop of \<open>checkpoint\<close>, through a \<open>BufReader\<close> that reads ahead in blocks of 64 KiB:
  the frames read and the number of bytes taken from the reader.
\<close>

fun checkpoint_read :: "nat \<Rightarrow> nat \<Rightarrow> u32 \<Rightarrow> u32 \<Rightarrow> bytes \<Rightarrow> wal_frame list \<times> nat" where
  "checkpoint_read 0 off salt1 salt2 bs = ([], off)"
| "checkpoint_read (Suc k) off salt1 salt2 bs =
     (case get_bytes off WAL_FRAME_SIZE bs of
        None \<Rightarrow> ([], max off (length bs))
      | Some data \<Rightarrow>
          (case parse_frame data of
             Ok frame \<Rightarrow>
               if wf_salt1 frame \<noteq> salt1 \<or> wf_salt2 frame \<noteq> salt2 then ([], off + WAL_FRAME_SIZE)
               else (case checkpoint_read k (off + WAL_FRAME_SIZE) salt1 salt2 bs of (fs, e) \<Rightarrow> (frame # fs, e))
           | _ \<Rightarrow> ([], off + WAL_FRAME_SIZE)))"

definition readahead :: "nat \<Rightarrow> nat \<Rightarrow> nat \<Rightarrow> nat" where
  "readahead start stop fsize =
     min (max start fsize) (start + (stop - start + WAL_BUFFER_SIZE - 1) div WAL_BUFFER_SIZE * WAL_BUFFER_SIZE)"

definition checkpoint_pages :: "wal_frame list \<Rightarrow> (page_num, bytes) hmap" where
  "checkpoint_pages frames = fold (\<lambda>f m. if wf_page_num f \<noteq> 0 then hm_insert (wf_page_num f) (wf_page_data f) m else m)
     (takeWhile (\<lambda>f. wf_checksum f = calculate_checksum f) frames) []"

definition wal_checkpoint :: "nat \<Rightarrow> wal \<times> pager \<Rightarrow> unit res \<times> wal \<times> pager" where
  "wal_checkpoint now s =
     (case s of (w, pg) \<Rightarrow>
      case count_frames w of (n, w) \<Rightarrow>
      case checkpoint_read (unat n) WAL_HEADER_SIZE (wh_salt1 (w_header w)) (wh_salt2 (w_header w)) (f_bytes (w_file w)) of
        (frames, stop) \<Rightarrow>
      let w = w\<lparr>w_frame_num := n,
                w_cursor := readahead WAL_HEADER_SIZE stop (length (f_bytes (w_file w))),
                w_file_position := - 1\<rparr>
      in case write_pages_direct (checkpoint_pages frames) pg of
          (Ok _, pg) \<Rightarrow>
            (case flush pg of
               (Ok _, pg) \<Rightarrow>
                 (Ok (), (wal_sync_all (w\<lparr>w_file := file_set_len WAL_HEADER_SIZE (w_file w), w_frame_num := 0,
                            w_cached_file_size := int WAL_HEADER_SIZE, w_cache_timestamp := Some now,
                            w_file_position := - 1\<rparr>))
                          \<lparr>w_metrics := map_option checkpoint_completed (w_metrics w)\<rparr>, pg)
             | (Err e, pg) \<Rightarrow> (Err e, w, pg) | (Panic, pg) \<Rightarrow> (Panic, w, pg))
        | (Err e, pg) \<Rightarrow> (Err e, w, pg) | (Panic, pg) \<Rightarrow> (Panic, w, pg))"

definition wal_close :: "wal \<Rightarrow> unit res \<times> wal" where
  "wal_close w = (Ok (), wal_sync_all w)"

definition wal_set_metrics :: "metrics \<Rightarrow> wal \<Rightarrow> wal" where
  "wal_set_metrics m w = w\<lparr>w_metrics := Some m\<rparr>"


subsection \<open>Specification\<close>

text \<open>The bit-serial CRC-32 (reflected polynomial \<open>0xEDB88320\<close>).\<close>

definition crc32_reference :: "bytes \<Rightarrow> u32" where
  "crc32_reference data = NOT (fold (\<lambda>byte crc. (crc_step ^^ 8) (crc XOR ucast byte)) data 0xFFFFFFFF)"

definition frame_bytes :: "wal_frame \<Rightarrow> bytes" where
  "frame_bytes f = u64_to_le (wf_tx_id f) @ u64_to_le (wf_page_num f) @ u32_to_le (wf_salt1 f)
     @ u32_to_le (wf_salt2 f) @ wf_page_data f @ u32_to_le (wf_checksum f)"

definition frame_valid :: "wal_header \<Rightarrow> wal_frame \<Rightarrow> bool" where
  "frame_valid h f \<longleftrightarrow> wf_salt1 f = wh_salt1 h \<and> wf_salt2 f = wh_salt2 h \<and>
     wf_checksum f = calculate_checksum f"

definition frame_fits :: "wal_frame \<Rightarrow> bool" where
  "frame_fits f \<longleftrightarrow> length (wf_page_data f) = PAGE_SIZE"

definition make_frame :: "wal_header \<Rightarrow> u64 \<Rightarrow> u64 \<Rightarrow> bytes \<Rightarrow> wal_frame" where
  "make_frame h tx_id page_num page_data =
     (let f = \<lparr>wf_tx_id = tx_id, wf_page_num = page_num, wf_page_data = page_data, wf_checksum = 0,
               wf_salt1 = wh_salt1 h, wf_salt2 = wh_salt2 h\<rparr>
      in f\<lparr>wf_checksum := calculate_checksum f\<rparr>)"

definition header_bytes :: "wal_header \<Rightarrow> bytes" where
  "header_bytes h = wh_magic h @ u32_to_le (wh_version h) @ u32_to_le (wh_salt1 h)
     @ u32_to_le (wh_salt2 h) @ replicate 16 0"

definition log_bytes :: "wal_header \<Rightarrow> wal_frame list \<Rightarrow> bytes" where
  "log_bytes h fs = header_bytes h @ concat (map frame_bytes fs)"

text \<open>The bytes behind the last valid frame: a torn frame, or one that fails the checks.\<close>

definition tail_invalid :: "wal_header \<Rightarrow> bytes \<Rightarrow> bool" where
  "tail_invalid h junk \<longleftrightarrow> length junk < WAL_FRAME_SIZE \<or>
     (\<exists>g rest. frame_fits g \<and> junk = frame_bytes g @ rest \<and> \<not> frame_valid h g)"

text \<open>What reading leaves unchanged: all but the cursor and the recorded position.\<close>

definition same_log :: "wal \<Rightarrow> wal \<Rightarrow> bool" where
  "same_log w v \<longleftrightarrow> w_file v = w_file w \<and> w_buf v = w_buf w \<and> w_header v = w_header w \<and>
     w_metrics v = w_metrics w \<and> w_cached_file_size v = w_cached_file_size w \<and>
     w_cache_timestamp v = w_cache_timestamp w"

text \<open>
  \<open>wal_log w fs\<close>: the log holds the frames \<open>fs\<close>. The first \<open>sp\<close> bytes of their encoding are in
  the file and the rest in the writer's buffer, and the cursor is where the rest belongs.
\<close>

definition wal_log :: "wal \<Rightarrow> wal_frame list \<Rightarrow> bool" where
  "wal_log w fs \<longleftrightarrow> length (wh_magic (w_header w)) = 4 \<and> list_all frame_fits fs \<and>
     list_all (frame_valid (w_header w)) fs \<and> unat (w_frame_num w) = length fs \<and>
     (\<exists>sp junk. sp \<le> length (log_bytes (w_header w) fs) \<and>
        f_bytes (w_file w) = take sp (log_bytes (w_header w) fs) @ junk \<and>
        w_buf w = drop sp (log_bytes (w_header w) fs) \<and>
        (w_buf w \<noteq> [] \<longrightarrow> w_cursor w = sp \<and> w_file_position w = int (length (log_bytes (w_header w) fs))) \<and>
        (w_file_position w = int (length (log_bytes (w_header w) fs)) \<longrightarrow>
           w_cursor w + length (w_buf w) = length (log_bytes (w_header w) fs)))"

definition wal_flushed :: "wal \<Rightarrow> bool" where
  "wal_flushed w \<longleftrightarrow> w_buf w = []"

definition new_header :: "u32 \<Rightarrow> u32 \<Rightarrow> wal_header" where
  "new_header s1 s2 = \<lparr>wh_magic = WAL_MAGIC, wh_version = 1, wh_salt1 = s1, wh_salt2 = s2\<rparr>"

text \<open>A sequence of frames appended one after the other.\<close>

fun write_frames :: "(u64 \<times> u64 \<times> bytes) list \<Rightarrow> nat \<Rightarrow> wal \<Rightarrow> unit res \<times> wal" where
  "write_frames [] now w = (Ok (), w)"
| "write_frames ((t, p, d) # es) now w = and_then (write_frame t p d now w) (\<lambda>_ w. write_frames es now w)"

definition frames_of :: "wal_header \<Rightarrow> (u64 \<times> u64 \<times> bytes) list \<Rightarrow> wal_frame list" where
  "frames_of h es = map (\<lambda>(t, p, d). make_frame h t p d) es"

text \<open>The last data of each page in a list of frames.\<close>

definition last_data :: "wal_frame list \<Rightarrow> page_num \<Rightarrow> bytes option" where
  "last_data fs p = (if p = 0 then None else map_of (rev (map (\<lambda>f. (wf_page_num f, wf_page_data f)) fs)) p)"


subsection \<open>Lemmas\<close>

lemma crc_step_alt: "crc_step x = (drop_bit 1 x) XOR (if bit x 0 then 0xEDB88320 else 0)"
  by (simp add: crc_step_def bit_0 and_one_eq odd_iff_mod_2_eq_one)

lemma crc_step_xor: "crc_step (x XOR y) = crc_step x XOR crc_step y"
  by (simp add: crc_step_alt drop_bit_xor bit_xor_iff) (auto simp: ac_simps)

lemma crc_steps_xor: "(crc_step ^^ n) (x XOR y) = (crc_step ^^ n) x XOR (crc_step ^^ n) y"
  by (induction n) (simp_all add: crc_step_xor)

text \<open>While the low bits are zero, a step only shifts.\<close>

lemma crc_steps_high:
  "(\<forall>i < n. \<not> bit x i) \<Longrightarrow> (crc_step ^^ n) x = drop_bit n x"
proof (induction n arbitrary: x)
  case (Suc n)
  have "crc_step x = drop_bit 1 x" using Suc.prems by (simp add: crc_step_alt)
  moreover have "\<forall>i < n. \<not> bit (drop_bit 1 x) i" using Suc.prems by (simp add: bit_drop_bit_eq)
  ultimately show ?case using Suc.IH [of "drop_bit 1 x"] by (simp only: funpow_Suc_right o_apply drop_bit_drop_bit) simp
qed simp

lemma crc_table_step:
  "(crc_step ^^ 8) x = (drop_bit 8 x) XOR generate_crc32_table ! unat (x AND 0xFF)" for x :: u32
proof -
  let ?lo = "x AND 0xFF" and ?hi = "x AND NOT 0xFF"
  have "x = ?hi XOR ?lo" by (rule bit_word_eqI) (auto simp: bit_simps)
  then have "(crc_step ^^ 8) x = (crc_step ^^ 8) ?hi XOR (crc_step ^^ 8) ?lo" by (metis crc_steps_xor)
  moreover have "(crc_step ^^ 8) ?hi = drop_bit 8 ?hi"
  proof (rule crc_steps_high)
    have m: "(0xFF :: u32) = mask 8" by (simp add: mask_eq_exp_minus_1)
    show "\<forall>i<8. \<not> bit (x AND NOT 0xFF) i" unfolding m by (auto simp: bit_simps)
  qed
  moreover have "drop_bit 8 ?hi = drop_bit 8 x"
  proof (rule bit_word_eqI)
    have m: "(0xFF :: u32) = mask 8" by (simp add: mask_eq_exp_minus_1)
    show "bit (drop_bit 8 ?hi) n = bit (drop_bit 8 x) n" if "n < LENGTH(32)" for n
      unfolding m using that by (auto simp: bit_simps dest: bit_imp_le_length)
  qed
  moreover have "generate_crc32_table ! unat ?lo = (crc_step ^^ 8) ?lo"
  proof -
    have "?lo \<le> 0xFF" by (rule word_and_le1)
    then have "unat ?lo < 256" by (simp add: word_le_nat_alt)
    then show ?thesis by (simp add: generate_crc32_table_def)
  qed
  ultimately show ?thesis by simp
qed

lemma drop_bit_xor_byte: "drop_bit 8 (crc XOR ucast b) = drop_bit 8 crc" for crc :: u32 and b :: u8
proof (rule bit_word_eqI)
  show "bit (drop_bit 8 (crc XOR ucast b)) n = bit (drop_bit 8 crc) n" if "n < LENGTH(32)" for n
    using that by (auto simp: bit_simps dest: bit_imp_le_length)
qed

lemma crc_fold_eq: "fold (\<lambda>byte crc. (drop_bit 8 crc) XOR generate_crc32_table ! unat ((crc XOR ucast byte) AND 0xFF)) data c
    = fold (\<lambda>byte crc. (crc_step ^^ 8) (crc XOR ucast byte)) data c"
  for data :: bytes and c :: u32
proof (induction data arbitrary: c)
  case (Cons b data)
  have "(drop_bit 8 c) XOR generate_crc32_table ! unat ((c XOR ucast b) AND 0xFF) = (crc_step ^^ 8) (c XOR ucast b)"
    using crc_table_step [of "c XOR ucast b"] drop_bit_xor_byte [of c b] by simp
  then show ?case using Cons.IH by simp
qed simp

subsection \<open>Frames\<close>

lemma length_frame_bytes [simp]: "frame_fits f \<Longrightarrow> length (frame_bytes f) = WAL_FRAME_SIZE"
  by (simp add: frame_bytes_def frame_fits_def const_defs)

lemma serialize_frame_eq:
  "frame_fits f \<Longrightarrow> serialize_frame_into f (replicate WAL_FRAME_SIZE 0) = Some (frame_bytes f)"
  by (simp add: serialize_frame_into_def put_bytes_def frame_bytes_def frame_fits_def const_defs)

lemma parse_frame_bytes: "frame_fits f \<Longrightarrow> parse_frame (frame_bytes f @ rest) = Ok f"
  by (simp add: parse_frame_def frame_bytes_def frame_fits_def read_u64_def read_u32_def
      get_bytes_append_right get_bytes_append_left)

lemma parse_frame_total:
  assumes "length data = WAL_FRAME_SIZE"
  shows "\<exists>f. parse_frame data = Ok f \<and> frame_fits f \<and> frame_bytes f = data"
proof -
  have d: "data = take 8 data @ take 8 (drop 8 data) @ take 4 (drop 16 data) @ take 4 (drop 20 data)
      @ take PAGE_SIZE (drop 24 data) @ take 4 (drop (24 + PAGE_SIZE) data)"
    using assms by (intro nth_equalityI) (auto simp: const_defs nth_append)
  let ?f = "\<lparr>wf_tx_id = u64_from_le (take 8 data), wf_page_num = u64_from_le (take 8 (drop 8 data)),
    wf_page_data = take PAGE_SIZE (drop 24 data), wf_checksum = u32_from_le (take 4 (drop (24 + PAGE_SIZE) data)),
    wf_salt1 = u32_from_le (take 4 (drop 16 data)), wf_salt2 = u32_from_le (take 4 (drop 20 data))\<rparr>"
  have "frame_bytes ?f = data"
    using d assms by (simp add: frame_bytes_def le64.enc_dec le32.enc_dec const_defs)
  moreover have "frame_fits ?f" using assms by (simp add: frame_fits_def const_defs)
  ultimately show ?thesis using parse_frame_bytes [of ?f "[]"] by auto
qed

lemma make_frame_ok:
  "length d = PAGE_SIZE \<Longrightarrow> frame_fits (make_frame h t p d) \<and> frame_valid h (make_frame h t p d)"
  by (simp add: make_frame_def frame_fits_def frame_valid_def calculate_checksum_def Let_def)

lemma make_frame_sel [simp]:
  "wf_tx_id (make_frame h t p d) = t" "wf_page_num (make_frame h t p d) = p" "wf_page_data (make_frame h t p d) = d"
  by (simp_all add: make_frame_def Let_def)

lemma length_header_bytes [simp]: "length (wh_magic h) = 4 \<Longrightarrow> length (header_bytes h) = WAL_HEADER_SIZE"
  by (simp add: header_bytes_def const_defs)

lemma length_frames: "list_all frame_fits fs \<Longrightarrow> length (concat (map frame_bytes fs)) = length fs * WAL_FRAME_SIZE"
  by (induction fs) simp_all

lemma length_log_bytes:
  "length (wh_magic h) = 4 \<Longrightarrow> list_all frame_fits fs \<Longrightarrow>
   length (log_bytes h fs) = WAL_HEADER_SIZE + length fs * WAL_FRAME_SIZE"
  by (simp add: log_bytes_def length_frames)

lemma log_bytes_snoc: "log_bytes h (fs @ [f]) = log_bytes h fs @ frame_bytes f"
  by (simp add: log_bytes_def)

text \<open>Where frame \<open>i\<close> of a log is found.\<close>

lemma get_log_frame:
  assumes "length (wh_magic h) = 4" "list_all frame_fits fs" "i < length fs"
  shows "get_bytes (WAL_HEADER_SIZE + i * WAL_FRAME_SIZE) WAL_FRAME_SIZE (log_bytes h fs @ junk)
    = Some (frame_bytes (fs ! i))"
proof -
  let ?pre = "log_bytes h (take i fs)"
  have fs: "fs = take i fs @ fs ! i # drop (Suc i) fs" using assms(3) by (rule id_take_nth_drop)
  have fit: "frame_fits (fs ! i)" "list_all frame_fits (take i fs)"
    using assms(2,3) by (auto simp: list_all_iff dest: in_set_takeD)
  have "log_bytes h fs @ junk = ?pre @ frame_bytes (fs ! i) @ concat (map frame_bytes (drop (Suc i) fs)) @ junk"
    by (subst fs) (simp add: log_bytes_def)
  moreover have "length ?pre = WAL_HEADER_SIZE + i * WAL_FRAME_SIZE"
    using length_log_bytes [OF assms(1) fit(2)] assms(3) by simp
  ultimately show ?thesis using fit(1)
    by (simp add: get_bytes_append_right get_bytes_append_left)
qed

lemma get_log_tail:
  assumes "length (wh_magic h) = 4" "list_all frame_fits fs"
  shows "get_bytes (WAL_HEADER_SIZE + length fs * WAL_FRAME_SIZE) n (log_bytes h fs @ junk) = get_bytes 0 n junk"
  using length_log_bytes [OF assms] by (simp add: get_bytes_append_right)

subsection \<open>Recovery\<close>

lemma wal_seek_sel [simp]:
  "w_file (wal_seek off w) = w_file w" "w_header (wal_seek off w) = w_header w" "w_cursor (wal_seek off w) = off"
  "w_buf (wal_seek off w) = w_buf w" "w_frame_num (wal_seek off w) = w_frame_num w"
  by (simp_all add: wal_seek_def)

lemma same_log_refl [simp]: "same_log w w" by (simp add: same_log_def)

lemma count_loop_valid:
  assumes "length (wh_magic (w_header w)) = 4" "list_all frame_fits fs" "list_all (frame_valid (w_header w)) fs"
    and "f_bytes (w_file w) = log_bytes (w_header w) fs @ junk" "tail_invalid (w_header w) junk"
    and "i \<le> length fs" "k = length fs - i + length junk div WAL_FRAME_SIZE"
  shows "\<exists>v. count_loop k i w = (length fs - i, v) \<and> same_log w v \<and> w_frame_num v = w_frame_num w \<and>
    (w_file_position w = int (w_cursor w) \<longrightarrow> w_file_position v = int (w_cursor v))"
  using assms
proof (induction k arbitrary: i w)
  case (Suc k)
  let ?off = "WAL_HEADER_SIZE + i * WAL_FRAME_SIZE"
  show ?case
  proof (cases "i < length fs")
    case True
    have fr: "frame_fits (fs ! i)" "frame_valid (w_header w) (fs ! i)"
      using True Suc.prems(2,3) by (simp_all add: list_all_length)
    let ?w = "w\<lparr>w_cursor := ?off + WAL_FRAME_SIZE, w_file_position := int ?off + int WAL_FRAME_SIZE\<rparr>"
    have rd: "wal_read_exact WAL_FRAME_SIZE (wal_seek ?off w) =
        (Ok (frame_bytes (fs ! i)), w\<lparr>w_cursor := ?off + WAL_FRAME_SIZE\<rparr>)"
      using get_log_frame [OF Suc.prems(1,2) True, of junk] Suc.prems(4)
      by (simp add: wal_read_exact_def wal_seek_def)
    have "k = length fs - Suc i + length junk div WAL_FRAME_SIZE" using Suc.prems(7) True by linarith
    then obtain v where v: "count_loop k (Suc i) ?w = (length fs - Suc i, v)" "same_log ?w v"
      "w_frame_num v = w_frame_num ?w" "w_file_position v = int (w_cursor v)"
      using Suc.IH [of ?w "Suc i"] Suc.prems True by auto
    have p: "parse_frame_header (frame_bytes (fs ! i)) = Ok (fs ! i)"
      using parse_frame_bytes [OF fr(1), of "[]"] by (simp add: parse_frame_header_def)
    have "count_loop (Suc k) i w = (Suc (length fs - Suc i), v)"
      using rd p v(1) fr by (simp add: Let_def frame_valid_def)
    then show ?thesis using v(2-4) True by (simp add: same_log_def Suc_diff_Suc)
  next
    case False
    then have i: "i = length fs" using Suc.prems(6) by simp
    have g: "get_bytes ?off WAL_FRAME_SIZE (f_bytes (w_file w)) = get_bytes 0 WAL_FRAME_SIZE junk"
      using get_log_tail [OF Suc.prems(1,2)] Suc.prems(4) i by simp
    have "\<not> length junk < WAL_FRAME_SIZE" using Suc.prems(7) i by (intro notI) simp
    then obtain f rest where f: "frame_fits f" "junk = frame_bytes f @ rest" "\<not> frame_valid (w_header w) f"
      using Suc.prems(5) by (auto simp: tail_invalid_def)
    then have "get_bytes 0 WAL_FRAME_SIZE junk = Some (frame_bytes f)" by (simp add: get_bytes_append_left)
    moreover have "parse_frame_header (frame_bytes f) = Ok f"
      using parse_frame_bytes [OF f(1), of "[]"] by (simp add: parse_frame_header_def)
    ultimately show ?thesis using g i f
      by (simp add: wal_read_exact_def wal_seek_def Let_def same_log_def frame_valid_def)
  qed
qed (simp add: same_log_def)

lemma count_frames_valid:
  assumes "length (wh_magic (w_header w)) = 4" "list_all frame_fits fs" "list_all (frame_valid (w_header w)) fs"
    and "f_bytes (w_file w) = log_bytes (w_header w) fs @ junk" "tail_invalid (w_header w) junk"
  shows "\<exists>v. count_frames w = (word_of_nat (length fs), v) \<and> same_log w v \<and> w_frame_num v = w_frame_num w \<and>
    (w_file_position w = int (w_cursor w) \<longrightarrow> w_file_position v = int (w_cursor v))"
proof -
  have len: "length (f_bytes (w_file w)) = WAL_HEADER_SIZE + length fs * WAL_FRAME_SIZE + length junk"
    using length_log_bytes [OF assms(1,2)] assms(4) by simp
  let ?k = "(length (f_bytes (w_file w)) - WAL_HEADER_SIZE) div WAL_FRAME_SIZE"
  have k: "?k = length fs + length junk div WAL_FRAME_SIZE"
    using len by (simp add: const_defs)
  obtain v where "count_loop ?k 0 w = (length fs, v)" "same_log w v" "w_frame_num v = w_frame_num w"
    "w_file_position w = int (w_cursor w) \<longrightarrow> w_file_position v = int (w_cursor v)"
    using count_loop_valid [OF assms, of 0 ?k] k by auto
  then show ?thesis using len by (simp add: count_frames_def Let_def)
qed

subsection \<open>The log as a list of frames\<close>

lemma writer_flush_Nil [simp]: "w_buf w = [] \<Longrightarrow> writer_flush w = w"
  by (simp add: writer_flush_def wal_write_file_def write_at_def)

lemma write_at_cut:
  assumes "sp \<le> length T" "drop sp T \<noteq> []"
  shows "write_at sp (drop sp T) (take sp T @ junk) = T @ drop (length T - sp) junk"
  using assms by (simp add: write_at_def min_def)

lemma writer_flush_log:
  assumes "wal_log w fs"
  shows "wal_log (writer_flush w) fs \<and> w_buf (writer_flush w) = [] \<and>
    (\<exists>junk. f_bytes (w_file (writer_flush w)) = log_bytes (w_header w) fs @ junk) \<and>
    w_header (writer_flush w) = w_header w \<and> w_file_position (writer_flush w) = w_file_position w \<and>
    w_frame_num (writer_flush w) = w_frame_num w \<and>
    (length (f_bytes (w_file w)) \<le> length (log_bytes (w_header w) fs) \<longrightarrow>
       length (f_bytes (w_file (writer_flush w))) \<le> length (log_bytes (w_header w) fs))"
proof (cases "w_buf w = []")
  case True
  obtain sp junk where c: "sp \<le> length (log_bytes (w_header w) fs)"
    "f_bytes (w_file w) = take sp (log_bytes (w_header w) fs) @ junk" "w_buf w = drop sp (log_bytes (w_header w) fs)"
    using assms by (auto simp: wal_log_def)
  then have "sp = length (log_bytes (w_header w) fs)" using True by simp
  then show ?thesis using True assms c by simp
next
  case False
  obtain sp junk where c: "sp \<le> length (log_bytes (w_header w) fs)"
    "f_bytes (w_file w) = take sp (log_bytes (w_header w) fs) @ junk" "w_buf w = drop sp (log_bytes (w_header w) fs)"
    "w_cursor w = sp" "w_file_position w = int (length (log_bytes (w_header w) fs))"
    using assms False by (auto simp: wal_log_def)
  let ?T = "log_bytes (w_header w) fs"
  have wr: "write_at sp (drop sp ?T) (take sp ?T @ junk) = ?T @ drop (length ?T - sp) junk"
    using c False by (intro write_at_cut) auto
  have fl: "f_bytes (w_file (writer_flush w)) = ?T @ drop (length ?T - sp) junk"
    "w_cursor (writer_flush w) = length ?T"
    using c wr by (simp_all add: writer_flush_def wal_write_file_def)
  then have "\<exists>cu ju. cu \<le> length ?T \<and> f_bytes (w_file (writer_flush w)) = take cu ?T @ ju \<and> [] = drop cu ?T"
    by (intro exI [of _ "length ?T"]) auto
  then have log: "wal_log (writer_flush w) fs" using assms fl(2) c(5) unfolding wal_log_def
    by (simp add: writer_flush_def wal_write_file_def)
  have tight: "length (f_bytes (w_file w)) \<le> length ?T \<longrightarrow> length (f_bytes (w_file (writer_flush w))) \<le> length ?T"
    unfolding c(2) fl(1) using c(1) by auto
  show ?thesis using log tight fl(1) by (simp add: writer_flush_def wal_write_file_def)
qed

lemma wal_log_offset:
  "wal_log w fs \<Longrightarrow> wal_offset (w_frame_num w) = length (log_bytes (w_header w) fs)"
  by (simp add: wal_log_def wal_offset_def length_log_bytes)

text \<open>Appending data at the end of the log through the writer.\<close>

lemma writer_append:
  assumes log: "wal_log w fs" and f: "frame_fits f" "frame_valid (w_header w) f"
    and pos: "w_cursor w + length (w_buf w) = length (log_bytes (w_header w) fs)"
    and room: "length fs < 2 ^ 64 - 1"
    and v: "v = (writer_write_all (frame_bytes f) w)\<lparr>w_frame_num := w_frame_num w + 1,
      w_file_position := int (length (log_bytes (w_header w) fs)) + int WAL_FRAME_SIZE,
      w_cached_file_size := cs, w_cache_timestamp := ct, w_metrics := m\<rparr>"
  shows "wal_log v (fs @ [f]) \<and> w_header v = w_header w \<and>
    (length (f_bytes (w_file w)) \<le> length (log_bytes (w_header w) fs) \<longrightarrow>
       length (f_bytes (w_file v)) \<le> length (log_bytes (w_header w) (fs @ [f])))"
proof -
  let ?T = "log_bytes (w_header w) fs" and ?w = "if length (frame_bytes f) > WAL_BUFFER_SIZE - length (w_buf w) then writer_flush w else w"
  have lw: "wal_log ?w fs" "w_header ?w = w_header w" "w_frame_num ?w = w_frame_num w"
    "w_cursor ?w + length (w_buf ?w) = length ?T"
    using log writer_flush_log [OF log] pos by (auto simp: writer_flush_def wal_write_file_def)
  obtain sp junk where c: "sp \<le> length ?T" "f_bytes (w_file ?w) = take sp ?T @ junk" "w_buf ?w = drop sp ?T"
    using lw(1,2) unfolding wal_log_def by auto
  have sp: "sp = w_cursor ?w" using lw(4) c by simp
  have wa: "writer_write_all (frame_bytes f) w = ?w\<lparr>w_buf := w_buf ?w @ frame_bytes f\<rparr>"
    using f(1) by (simp add: writer_write_all_def Let_def const_defs)
  have n: "unat (w_frame_num w + 1) = Suc (length fs)"
    using log room unfolding wal_log_def by (simp add: unat_word_ariths)
  let ?U = "log_bytes (w_header w) (fs @ [f])"
  have U: "?U = ?T @ frame_bytes f" "length ?U = length ?T + WAL_FRAME_SIZE"
    using f(1) by (simp_all add: log_bytes_snoc)
  have "sp \<le> length ?U \<and> f_bytes (w_file v) = take sp ?U @ junk \<and> w_buf v = drop sp ?U \<and>
      (w_buf v \<noteq> [] \<longrightarrow> w_cursor v = sp \<and> w_file_position v = int (length ?U)) \<and>
      (w_file_position v = int (length ?U) \<longrightarrow> w_cursor v + length (w_buf v) = length ?U)"
    unfolding v wa using c sp lw(4) U f(1) by simp
  moreover have "length (f_bytes (w_file w)) \<le> length ?T \<longrightarrow> length (f_bytes (w_file v)) \<le> length ?U"
    unfolding v wa using writer_flush_log [OF log] U(2) by auto
  moreover have "w_header v = w_header w" unfolding v wa using lw(2) by simp
  moreover have "unat (w_frame_num v) = length (fs @ [f])" unfolding v using n by simp
  ultimately show ?thesis using log f unfolding wal_log_def by (auto intro!: exI [of _ sp] exI [of _ junk])
qed

lemma write_frame_log:
  assumes log: "wal_log w fs" and d: "length d = PAGE_SIZE" and room: "length fs < 2 ^ 64 - 1"
  shows "\<exists>v. write_frame t p d now w = (Ok (), v) \<and> wal_log v (fs @ [make_frame (w_header w) t p d]) \<and>
    w_header v = w_header w \<and>
    (length (f_bytes (w_file w)) \<le> length (log_bytes (w_header w) fs) \<longrightarrow>
       length (f_bytes (w_file v)) \<le> length (log_bytes (w_header w) (fs @ [make_frame (w_header w) t p d])))"
proof -
  let ?f = "make_frame (w_header w) t p d" and ?T = "log_bytes (w_header w) fs"
  have f: "frame_fits ?f" "frame_valid (w_header w) ?f" using make_frame_ok [OF d] by auto
  have off: "wal_offset (w_frame_num w) = length ?T" using wal_log_offset [OF log] .
  define u where "u = (if w_file_position w \<noteq> int (length ?T) then wal_seek (length ?T) (writer_flush w) else w)"
  have u: "wal_log u fs \<and> w_header u = w_header w \<and> w_frame_num u = w_frame_num w \<and>
      w_cursor u + length (w_buf u) = length ?T \<and> w_file u = w_file w"
  proof (cases "w_file_position w = int (length ?T)")
    case True
    then show ?thesis using log by (auto simp: u_def wal_log_def)
  next
    case False
    then have b: "w_buf w = []" using log by (auto simp: wal_log_def)
    then have ue: "u = wal_seek (length ?T) w" using False by (simp add: u_def)
    show ?thesis unfolding ue using log b False unfolding wal_log_def by (simp add: wal_seek_def)
  qed
  have ser: "serialize_frame_into ?f (replicate WAL_FRAME_SIZE 0) = Some (frame_bytes ?f)"
    using serialize_frame_eq [OF f(1)] .
  let ?v = "(writer_write_all (frame_bytes ?f) u)\<lparr>w_frame_num := w_frame_num u + 1,
      w_file_position := int (length ?T) + int WAL_FRAME_SIZE,
      w_cached_file_size := w_cached_file_size (writer_write_all (frame_bytes ?f) u) + int WAL_FRAME_SIZE,
      w_cache_timestamp := Some now,
      w_metrics := map_option (wal_write (word_of_nat WAL_FRAME_SIZE)) (w_metrics (writer_write_all (frame_bytes ?f) u))\<rparr>"
  have fn: "w_frame_num (writer_write_all (frame_bytes ?f) u) = w_frame_num u"
    by (simp add: writer_write_all_def Let_def writer_flush_def wal_write_file_def)
  have "write_frame t p d now w = (Ok (), ?v)"
    unfolding write_frame_def Let_def make_frame_def [unfolded Let_def, symmetric] off u_def [symmetric]
    using d ser fn by simp
  moreover have "wal_log ?v (fs @ [?f]) \<and> w_header ?v = w_header u \<and>
    (length (f_bytes (w_file u)) \<le> length (log_bytes (w_header u) fs) \<longrightarrow>
       length (f_bytes (w_file ?v)) \<le> length (log_bytes (w_header u) (fs @ [?f])))"
    using u f room by (intro writer_append) auto
  ultimately show ?thesis using u by auto
qed

lemma wal_sync_log:
  assumes "wal_log w fs"
  shows "\<exists>v junk. wal_sync w = (Ok (), v) \<and> wal_log v fs \<and> w_header v = w_header w \<and> w_buf v = [] \<and>
    f_bytes (w_file v) = log_bytes (w_header w) fs @ junk \<and> f_durable (w_file v) = f_bytes (w_file v) \<and>
    (length (f_bytes (w_file w)) \<le> length (log_bytes (w_header w) fs) \<longrightarrow> junk = [])"
proof -
  let ?v = "writer_flush w"
  have fl: "wal_log ?v fs" "w_buf ?v = []" "w_header ?v = w_header w"
    "\<exists>junk. f_bytes (w_file ?v) = log_bytes (w_header w) fs @ junk \<and>
      (length (f_bytes (w_file w)) \<le> length (log_bytes (w_header w) fs) \<longrightarrow> junk = [])"
    using writer_flush_log [OF assms] by auto
  moreover have "wal_log (wal_sync_all ?v) fs"
    using fl(1) unfolding wal_log_def by (simp add: wal_sync_all_def file_sync_def)
  ultimately show ?thesis by (auto simp: wal_sync_def wal_sync_all_def file_sync_def)
qed

lemma wal_log_flushed:
  assumes "wal_log w fs" "w_buf w = []"
  shows "\<exists>junk. f_bytes (w_file w) = log_bytes (w_header w) fs @ junk"
  using writer_flush_log [OF assms(1)] assms(2) by simp

lemma read_frame_log:
  assumes log: "wal_log w fs" and b: "w_buf w = []" and i: "unat i < length fs"
  shows "\<exists>v. read_frame i w = (Ok (fs ! unat i), v) \<and> wal_log v fs \<and> w_header v = w_header w \<and> w_buf v = []"
proof -
  let ?T = "log_bytes (w_header w) fs"
  obtain junk where fb: "f_bytes (w_file w) = ?T @ junk" using wal_log_flushed [OF log b] by blast
  have h: "length (wh_magic (w_header w)) = 4" "list_all frame_fits fs" "list_all (frame_valid (w_header w)) fs"
    "unat (w_frame_num w) = length fs" using log by (auto simp: wal_log_def)
  let ?f = "fs ! unat i"
  have f: "frame_fits ?f" "wf_checksum ?f = calculate_checksum ?f"
    using h i by (simp_all add: list_all_length frame_valid_def)
  have lt: "\<not> w_frame_num w \<le> i" using i h(4) by (simp add: word_le_nat_alt)
  let ?off = "wal_offset i"
  have g: "get_bytes ?off WAL_FRAME_SIZE (f_bytes (w_file w)) = Some (frame_bytes ?f)"
    using get_log_frame [OF h(1,2) i, of junk] fb by (simp add: wal_offset_def)
  let ?v = "w\<lparr>w_cursor := ?off + WAL_FRAME_SIZE, w_file_position := int ?off + int WAL_FRAME_SIZE\<rparr>"
  have "read_frame i w = (Ok ?f, ?v)"
    using lt g f parse_frame_bytes [OF f(1), of "[]"]
    by (simp add: read_frame_def wal_read_exact_def wal_seek_def Let_def)
  moreover have "wal_log ?v fs"
  proof -
    have "\<exists>sp junk. sp \<le> length ?T \<and> f_bytes (w_file w) = take sp ?T @ junk \<and> [] = drop sp ?T"
      using fb by (intro exI [of _ "length ?T"] exI [of _ junk]) auto
    then show ?thesis using log b unfolding wal_log_def by auto
  qed
  ultimately show ?thesis using b by auto
qed

lemma read_frames_from_log:
  "wal_log w fs \<Longrightarrow> w_buf w = [] \<Longrightarrow> unat i + k \<le> length fs \<Longrightarrow>
   \<exists>v. read_frames_from k i w = (Ok (take k (drop (unat i) fs)), v) \<and> wal_log v fs \<and> w_header v = w_header w \<and> w_buf v = []"
proof (induction k arbitrary: i w)
  case (Suc k)
  obtain u where u: "read_frame i w = (Ok (fs ! unat i), u)" "wal_log u fs" "w_header u = w_header w" "w_buf u = []"
    using read_frame_log [OF Suc.prems(1,2), of i] Suc.prems(3) by auto
  have lt: "length fs < 2 ^ 64" using Suc.prems(1) unat_bound [of "w_frame_num w"] by (simp add: wal_log_def)
  have drop: "drop (unat i) fs = fs ! unat i # drop (Suc (unat i)) fs"
    using Suc.prems(3) by (simp add: Cons_nth_drop_Suc)
  show ?case
  proof (cases k)
    case 0
    then show ?thesis using u drop by simp
  next
    case (Suc k')
    have n: "unat (i + 1) = Suc (unat i)"
      using Suc Suc.prems(3) lt by (simp add: unat_word_ariths)
    obtain v where "read_frames_from k (i + 1) u = (Ok (take k (drop (Suc (unat i)) fs)), v)" "wal_log v fs"
      "w_header v = w_header u" "w_buf v = []"
      using Suc.IH [OF u(2,4), of "i + 1"] n Suc.prems(3) by auto
    then show ?thesis using u drop by auto
  qed
qed simp

lemma read_all_frames_log:
  assumes "wal_log w fs" "w_buf w = []"
  shows "\<exists>v. read_all_frames w = (Ok fs, v) \<and> wal_log v fs \<and> w_buf v = []"
  using read_frames_from_log [OF assms, of 0 "length fs"] assms(1) by (auto simp: read_all_frames_def wal_log_def)

lemma length_WAL_MAGIC [simp]: "length WAL_MAGIC = 4"
  by (simp add: WAL_MAGIC_def)

lemma header_encode:
  assumes "length (wh_magic h) = 4"
  shows "Option.bind (put_bytes 0 (wh_magic h) (replicate WAL_HEADER_SIZE 0)) (\<lambda>data.
    Option.bind (put_bytes 4 (u32_to_le (wh_version h)) data) (\<lambda>data.
    Option.bind (put_bytes 8 (u32_to_le (wh_salt1 h)) data) (\<lambda>data.
    put_bytes 12 (u32_to_le (wh_salt2 h)) data))) = Some (header_bytes h)"
  using assms by (simp add: put_bytes_def header_bytes_def const_defs)

lemma wal_open_new:
  "\<exists>w. wal_open None s1 s2 = Ok w \<and> wal_log w [] \<and> w_buf w = [] \<and> w_header w = new_header s1 s2 \<and>
    length (f_bytes (w_file w)) \<le> length (log_bytes (new_header s1 s2) [])"
proof -
  let ?h = "new_header s1 s2"
  have m: "length (wh_magic ?h) = 4" "length (header_bytes ?h) = WAL_HEADER_SIZE" by (simp_all add: new_header_def)
  let ?w = "\<lparr>w_file = file_empty, w_cursor = 0, w_buf = [], w_header = ?h, w_frame_num = 0, w_cached_file_size = 0,
     w_cache_timestamp = None, w_file_position = - 1, w_metrics = None\<rparr>"
  let ?v = "?w\<lparr>w_file := \<lparr>f_bytes = header_bytes ?h, f_durable = header_bytes ?h\<rparr>, w_cursor := WAL_HEADER_SIZE,
     w_file_position := int WAL_HEADER_SIZE\<rparr>"
  have ne: "header_bytes ?h \<noteq> []" by (simp add: header_bytes_def)
  have "wal_write_header ?w = (Ok (), ?v)"
    using header_encode [OF m(1)] m ne
    by (simp add: wal_write_header_def writer_write_all_def wal_seek_def Let_def writer_flush_def
        wal_write_file_def write_at_def file_empty_def wal_sync_all_def file_sync_def const_defs)
  then have "wal_open None s1 s2 = Ok ?v" by (simp add: wal_open_def Let_def new_header_def)
  moreover have "wal_log ?v []"
    unfolding wal_log_def using m by (auto simp: log_bytes_def intro!: exI [of _ WAL_HEADER_SIZE])
  ultimately show ?thesis by (simp add: log_bytes_def)
qed

lemma wal_reopen:
  assumes h: "wh_magic h = WAL_MAGIC" and fs: "list_all frame_fits fs" "list_all (frame_valid h) fs" "length fs < 2 ^ 64"
    and f: "f_bytes f = log_bytes h fs @ junk" and junk: "tail_invalid h junk"
  shows "\<exists>w. wal_open (Some f) s1 s2 = Ok w \<and> wal_log w fs \<and> w_buf w = [] \<and> w_header w = h \<and> w_file w = f"
proof -
  have m: "length (wh_magic h) = 4" "length (header_bytes h) = WAL_HEADER_SIZE" using h by simp_all
  let ?w = "\<lparr>w_file = f, w_cursor = 0, w_buf = [],
     w_header = \<lparr>wh_magic = WAL_MAGIC, wh_version = 1, wh_salt1 = s1, wh_salt2 = s2\<rparr>,
     w_frame_num = 0, w_cached_file_size = 0, w_cache_timestamp = None, w_file_position = - 1, w_metrics = None\<rparr>"
  have "get_bytes 0 WAL_HEADER_SIZE (f_bytes f) = Some (header_bytes h)"
    using m by (simp add: f log_bytes_def get_bytes_append_left)
  then have rd: "wal_read_header ?w = (Ok h, ?w\<lparr>w_cursor := WAL_HEADER_SIZE, w_file_position := int WAL_HEADER_SIZE\<rparr>)"
    using m h by (simp add: wal_read_header_def wal_read_exact_def wal_seek_def Let_def header_bytes_def
        read_u32_def get_bytes_append_right get_bytes_append_left)
  let ?u = "?w\<lparr>w_cursor := WAL_HEADER_SIZE, w_file_position := int WAL_HEADER_SIZE, w_header := h\<rparr>"
  obtain v where v: "count_frames ?u = (word_of_nat (length fs), v)" "same_log ?u v" "w_file_position v = int (w_cursor v)"
    using count_frames_valid [of ?u fs junk] m fs f junk by auto
  let ?v = "v\<lparr>w_frame_num := word_of_nat (length fs)\<rparr>"
  have "wal_open (Some f) s1 s2 = Ok ?v" using rd v(1) by (simp add: wal_open_def Let_def)
  moreover have "wal_log ?v fs"
  proof -
    have "\<exists>sp ju. sp \<le> length (log_bytes h fs) \<and> f_bytes f = take sp (log_bytes h fs) @ ju \<and> [] = drop sp (log_bytes h fs)"
      using f by (intro exI [of _ "length (log_bytes h fs)"] exI [of _ junk]) auto
    moreover have "unat (word_of_nat (length fs) :: u64) = length fs" using fs(3) by (simp add: unat_of_nat)
    ultimately show ?thesis using m(1) fs v(2,3) unfolding wal_log_def by (simp add: same_log_def)
  qed
  ultimately show ?thesis using v(2) by (simp add: same_log_def)
qed

lemma write_frames_log:
  "wal_log w fs \<Longrightarrow> list_all (\<lambda>(t, p, d). length d = PAGE_SIZE) es \<Longrightarrow> length fs + length es < 2 ^ 64 \<Longrightarrow>
   \<exists>v. write_frames es now w = (Ok (), v) \<and> wal_log v (fs @ frames_of (w_header w) es) \<and> w_header v = w_header w \<and>
     (length (f_bytes (w_file w)) \<le> length (log_bytes (w_header w) fs) \<longrightarrow>
        length (f_bytes (w_file v)) \<le> length (log_bytes (w_header w) (fs @ frames_of (w_header w) es)))"
proof (induction es arbitrary: w fs)
  case (Cons e es)
  obtain t p d where e: "e = (t, p, d)" by (cases e)
  obtain u where u: "write_frame t p d now w = (Ok (), u)" "wal_log u (fs @ [make_frame (w_header w) t p d])"
    "w_header u = w_header w"
    "length (f_bytes (w_file w)) \<le> length (log_bytes (w_header w) fs) \<longrightarrow>
       length (f_bytes (w_file u)) \<le> length (log_bytes (w_header w) (fs @ [make_frame (w_header w) t p d]))"
    using write_frame_log [OF Cons.prems(1), of d t p now] Cons.prems(2,3) e by auto
  obtain v where "write_frames es now u = (Ok (), v)"
    "wal_log v ((fs @ [make_frame (w_header w) t p d]) @ frames_of (w_header u) es)" "w_header v = w_header u"
    "length (f_bytes (w_file u)) \<le> length (log_bytes (w_header u) (fs @ [make_frame (w_header w) t p d])) \<longrightarrow>
      length (f_bytes (w_file v)) \<le> length (log_bytes (w_header u) ((fs @ [make_frame (w_header w) t p d]) @ frames_of (w_header u) es))"
    using Cons.IH [OF u(2)] Cons.prems by auto
  then show ?case using u e by (simp add: frames_of_def)
qed (simp add: frames_of_def)

subsection \<open>Checkpoints\<close>

lemma checkpoint_read_log:
  assumes "length (wh_magic h) = 4" "list_all frame_fits fs" "list_all (frame_valid h) fs" "i \<le> length fs"
  shows "\<exists>e. checkpoint_read (length fs - i) (WAL_HEADER_SIZE + i * WAL_FRAME_SIZE) (wh_salt1 h) (wh_salt2 h) (log_bytes h fs @ junk)
    = (drop i fs, e)"
  using assms
proof (induction "length fs - i" arbitrary: i)
  case (Suc k)
  then have i: "i < length fs" by simp
  have f: "frame_fits (fs ! i)" "frame_valid h (fs ! i)" using Suc.prems i by (simp_all add: list_all_length)
  have k: "length fs - i = Suc (length fs - Suc i)" "k = length fs - Suc i" using Suc.hyps(2) by simp_all
  obtain e where e: "checkpoint_read (length fs - Suc i) (WAL_HEADER_SIZE + Suc i * WAL_FRAME_SIZE) (wh_salt1 h) (wh_salt2 h) (log_bytes h fs @ junk)
    = (drop (Suc i) fs, e)"
    using Suc.hyps(1) [OF k(2)] Suc.prems i by auto
  then show ?case
    using get_log_frame [OF Suc.prems(1,2) i, of junk] parse_frame_bytes [OF f(1), of "[]"] f(2) k(1) i
    by (simp add: frame_valid_def Cons_nth_drop_Suc ac_simps)
qed simp

lemma checkpoint_pages_lookup:
  assumes "list_all (frame_valid h) fs"
  shows "map_of (checkpoint_pages fs) p = last_data fs p" "hm_ok (checkpoint_pages fs)"
proof -
  have t: "takeWhile (\<lambda>f. wf_checksum f = calculate_checksum f) fs = fs"
    using assms by (simp add: takeWhile_eq_all_conv list_all_iff frame_valid_def)
  let ?g = "\<lambda>f m. if wf_page_num f \<noteq> 0 then hm_insert (wf_page_num f) (wf_page_data f) m else m"
  have "map_of (fold ?g fs m) p = (case last_data fs p of None \<Rightarrow> map_of m p | Some d \<Rightarrow> Some d)" for m
    by (induction fs arbitrary: m) (auto simp: last_data_def map_add_def split: option.splits)
  then show "map_of (checkpoint_pages fs) p = last_data fs p"
    unfolding checkpoint_pages_def t by (simp split: option.split)
  have "hm_ok m \<Longrightarrow> hm_ok (fold ?g fs m)" for m
    by (induction fs arbitrary: m) auto
  then show "hm_ok (checkpoint_pages fs)" unfolding checkpoint_pages_def t by simp
qed

lemma fold_write_length:
  "list_all entry_ok ps \<Longrightarrow> length bs \<le> 2 ^ 63 \<Longrightarrow> length (fold write_one ps bs) \<le> 2 ^ 63"
proof (induction ps arbitrary: bs)
  case (Cons e ps)
  then have "length (write_one e bs) \<le> 2 ^ 63"
    using length_page_write [of "fst e" "snd e" bs] by (simp add: write_one_def entry_ok_def)
  then show ?case using Cons by simp
qed simp

text \<open>Direct writes keep the pager coherent when the cache agrees with them.\<close>

lemma write_pages_direct_content:
  assumes inv: "pager_inv s" and rw: "\<not> pg_read_only s" and ps: "list_all entry_ok ps" "hm_ok ps"
    and agr: "\<forall>p d e. (p, d) \<in> set ps \<longrightarrow> map_of (lru_view (pg_cache s)) p = Some e \<longrightarrow> e = d"
  shows "\<exists>s'. write_pages_direct ps s = (Ok (), s') \<and> pager_inv s' \<and> same_alloc s s' \<and>
    (\<forall>p d. (p, d) \<in> set ps \<longrightarrow> page_content s' p = Some d) \<and>
    (\<forall>p d. p \<notin> fst ` set ps \<longrightarrow> page_content s p = Some d \<longrightarrow> page_content s' p = Some d)"
proof (cases "ps = []")
  case True
  then show ?thesis using inv rw by (simp add: write_pages_direct_def)
next
  case False
  have agree: "e = d" if "(p, d) \<in> set ps" "map_of (lru_view (pg_cache s)) p = Some e" for p d e
    using agr that by blast
  let ?ps = "sort_key fst ps" and ?f = "f_bytes (pg_file s)"
  define t where "t = pager_sync (s\<lparr>pg_file := (pg_file s)\<lparr>f_bytes := fold write_one ?ps ?f\<rparr>\<rparr>)"
  have wr: "write_pages_direct ps s = (Ok (), t)" using write_pages_direct_eq [OF rw ps(1) False] by (simp add: t_def)
  have sps: "list_all entry_ok ?ps" "hm_ok ?ps" "set ?ps = set ps" using ps by (simp_all add: list_all_iff distinct_map)
  have tf: "f_bytes (pg_file t) = fold write_one ?ps ?f" "pg_cache t = pg_cache s" "same_alloc s t"
    by (simp_all add: t_def pager_sync_def file_sync_def same_alloc_def)
  have mem: "file_page (f_bytes (pg_file t)) p = Some d" if "(p, d) \<in> set ps" for p d
    using fold_write_mem [OF sps(1,2)] that sps(3) tf(1) by simp
  have oth: "file_page (f_bytes (pg_file t)) p = Some d" if "p \<notin> fst ` set ps" "file_page ?f p = Some d" for p d
    using fold_write_other [OF sps(1)] that sps(3) tf(1) by simp
  have keep: "file_page (f_bytes (pg_file t)) p = Some d"
    if "map_of (lru_view (pg_cache s)) p = Some d" "file_page ?f p = Some d \<or> p \<in> fst ` set ps" for p d
    using that mem oth agree by (cases "p \<in> fst ` set ps") fastforce+
  have "pager_inv t"
  proof (rule pager_invI)
    show "lru_inv (pg_cache t)" using inv tf(2) by (simp add: pager_inv_def)
    show "length (f_bytes (pg_file t)) \<le> 2 ^ 63"
      using fold_write_length [OF sps(1)] inv tf(1) by (simp add: pager_inv_def)
    fix p d assume "map_of (lru_view (pg_cache t)) p = Some d"
    then have v: "map_of (lru_view (pg_cache s)) p = Some d" using tf(2) by simp
    show "page_ok p \<and> length d = PAGE_SIZE \<and> (\<not> cache_is_dirty p (pg_cache t) \<longrightarrow> file_page (f_bytes (pg_file t)) p = Some d)"
      using pager_inv_view [OF inv v] keep [OF v] tf(2) by simp
  qed
  moreover have "page_content t p = Some d" if "(p, d) \<in> set ps" for p d
    using mem [OF that] agree [OF that] tf(2) by (simp add: page_content_def split: option.split)
  moreover have "page_content t p = Some d" if "p \<notin> fst ` set ps" "page_content s p = Some d" for p d
    using that(2) oth [OF that(1)] tf(2) by (cases "map_of (lru_view (pg_cache s)) p") (simp_all add: page_content_def)
  ultimately show ?thesis using wr tf(3) by blast
qed

lemma checkpoint_spec:
  assumes log: "wal_log w fs" "w_buf w = []"
    and tail: "f_bytes (w_file w) = log_bytes (w_header w) fs @ junk" "tail_invalid (w_header w) junk"
    and pg: "pager_inv pg" "\<not> pg_read_only pg" and pages: "list_all (\<lambda>f. page_ok (wf_page_num f)) fs"
    and agree: "\<forall>p d e. last_data fs p = Some d \<longrightarrow> map_of (lru_view (pg_cache pg)) p = Some e \<longrightarrow> e = d"
  shows "\<exists>w' pg'. wal_checkpoint now (w, pg) = (Ok (), w', pg') \<and> wal_log w' [] \<and> w_header w' = w_header w \<and>
    f_bytes (w_file w') = header_bytes (w_header w) \<and> f_durable (w_file w') = f_bytes (w_file w') \<and>
    pager_inv pg' \<and> same_alloc pg pg' \<and>
    (\<forall>p d. last_data fs p = Some d \<longrightarrow> page_content pg' p = Some d \<and> file_page (f_durable (pg_file pg')) p = Some d) \<and>
    (\<forall>p d. last_data fs p = None \<longrightarrow> page_content pg p = Some d \<longrightarrow>
       page_content pg' p = Some d \<and> file_page (f_durable (pg_file pg')) p = Some d)"
proof -
  let ?h = "w_header w" and ?ps = "checkpoint_pages fs"
  have m: "length (wh_magic ?h) = 4" "list_all frame_fits fs" "list_all (frame_valid ?h) fs"
    "unat (w_frame_num w) = length fs" using log(1) by (auto simp: wal_log_def)
  obtain v where v: "count_frames w = (word_of_nat (length fs), v)" "same_log w v"
    using count_frames_valid [OF m(1-3) tail] by blast
  have n: "unat (word_of_nat (length fs) :: u64) = length fs"
    using m(4) unat_bound [of "w_frame_num w"] by (simp add: unat_of_nat)
  obtain e where rd: "checkpoint_read (length fs) WAL_HEADER_SIZE (wh_salt1 ?h) (wh_salt2 ?h) (f_bytes (w_file w)) = (fs, e)"
    using checkpoint_read_log [OF m(1-3), of 0 junk] tail(1) by auto
  have look: "\<And>p. map_of ?ps p = last_data fs p" "hm_ok ?ps" using checkpoint_pages_lookup [OF m(3)] by auto
  have mem: "(p, d) \<in> set ?ps \<longleftrightarrow> last_data fs p = Some d" for p d using look map_of_distinct_member by metis
  have keys: "p \<in> fst ` set ?ps \<longleftrightarrow> last_data fs p \<noteq> None" for p using look(1) hm_keys by metis
  have "entry_ok x" if "x \<in> set ?ps" for x
  proof -
    obtain p d where x: "x = (p, d)" by fastforce
    then have "last_data fs p = Some d" using that mem by simp
    then obtain f where "f \<in> set fs" "wf_page_num f = p" "wf_page_data f = d"
      by (auto simp: last_data_def split: if_splits dest!: map_of_SomeD)
    then show ?thesis using m(2) pages x by (auto simp: entry_ok_def frame_fits_def list_all_iff)
  qed
  then have ent: "list_all entry_ok ?ps" by (simp add: list_all_iff)
  have agree': "\<forall>p d e. (p, d) \<in> set ?ps \<longrightarrow> map_of (lru_view (pg_cache pg)) p = Some e \<longrightarrow> e = d"
    using agree mem by blast
  obtain p1 where p1: "write_pages_direct ?ps pg = (Ok (), p1)" "pager_inv p1" "same_alloc pg p1"
    "\<And>p d. (p, d) \<in> set ?ps \<Longrightarrow> page_content p1 p = Some d"
    "\<And>p d. p \<notin> fst ` set ?ps \<Longrightarrow> page_content pg p = Some d \<Longrightarrow> page_content p1 p = Some d"
    using write_pages_direct_content [OF pg ent look(2) agree'] by blast
  have rw1: "\<not> pg_read_only p1" using p1(3) pg(2) by (simp add: same_alloc_def)
  obtain p2 where p2: "flush p1 = (Ok (), p2)" "pager_inv p2" "same_alloc p1 p2"
    "\<And>p d. page_content p1 p = Some d \<Longrightarrow> page_content p2 p = Some d \<and> file_page (f_durable (pg_file p2)) p = Some d"
    using flush_spec [OF p1(2) rw1] by blast
  have sl: "w_file v = w_file w" "w_header v = w_header w" "w_buf v = []" using v(2) log(2) by (simp_all add: same_log_def)
  have hb: "take WAL_HEADER_SIZE (f_bytes (w_file w)) @ replicate (WAL_HEADER_SIZE - length (f_bytes (w_file w))) 0 = header_bytes ?h"
    using tail(1) m(1) by (simp add: log_bytes_def)
  define w' where "w' = (wal_sync_all (v\<lparr>w_cursor := readahead WAL_HEADER_SIZE e (length (f_bytes (w_file w))),
      w_file := file_set_len WAL_HEADER_SIZE (w_file v), w_frame_num := 0,
      w_cached_file_size := int WAL_HEADER_SIZE, w_cache_timestamp := Some now, w_file_position := - 1\<rparr>))
      \<lparr>w_metrics := map_option checkpoint_completed (w_metrics v)\<rparr>"
  have "wal_checkpoint now (w, pg) = (Ok (), w', p2)"
    using v(1) n rd sl p1(1) p2(1) by (simp add: wal_checkpoint_def Let_def w'_def)
  moreover have fw: "f_bytes (w_file w') = header_bytes ?h" "f_durable (w_file w') = header_bytes ?h" "w_header w' = ?h"
    using sl hb by (simp_all add: w'_def wal_sync_all_def file_sync_def file_set_len_def)
  moreover have "wal_log w' []"
  proof -
    have "w_buf w' = []" "w_frame_num w' = 0" "w_file_position w' = - 1"
      using sl by (simp_all add: w'_def wal_sync_all_def)
    then show ?thesis unfolding wal_log_def using fw m(1)
      by (auto simp: log_bytes_def intro!: exI [of _ WAL_HEADER_SIZE])
  qed
  moreover have "same_alloc pg p2" using p1(3) p2(3) by (rule same_alloc_trans)
  moreover have "\<forall>p d. last_data fs p = Some d \<longrightarrow>
      page_content p2 p = Some d \<and> file_page (f_durable (pg_file p2)) p = Some d"
    using p2(4) p1(4) mem by blast
  moreover have "\<forall>p d. last_data fs p = None \<longrightarrow> page_content pg p = Some d \<longrightarrow>
      page_content p2 p = Some d \<and> file_page (f_durable (pg_file p2)) p = Some d"
    using p2(4) p1(5) keys by blast
  ultimately show ?thesis using p2(2) by (intro exI [of _ w'] exI [of _ p2]) simp
qed

lemma frames_of_ok:
  "list_all (\<lambda>(t, p, d). length d = PAGE_SIZE) es \<Longrightarrow>
   list_all frame_fits (frames_of h es) \<and> list_all (frame_valid h) (frames_of h es)"
  using make_frame_ok by (induction es) (auto simp: frames_of_def)

lemma new_log_frames:
  assumes es: "list_all (\<lambda>(t, p, d). length d = PAGE_SIZE) es" "length es < 2 ^ 64"
  obtains w w1 w2 where "wal_open None s1 s2 = Ok w" "write_frames es now w = (Ok (), w1)" "wal_sync w1 = (Ok (), w2)"
    "wal_log w2 (frames_of (new_header s1 s2) es)" "w_buf w2 = []" "w_header w2 = new_header s1 s2"
    "f_bytes (w_file w2) = log_bytes (new_header s1 s2) (frames_of (new_header s1 s2) es)"
    "f_durable (w_file w2) = f_bytes (w_file w2)"
proof -
  let ?h = "new_header s1 s2" and ?fs = "frames_of (new_header s1 s2) es"
  obtain w where w: "wal_open None s1 s2 = Ok w" "wal_log w []" "w_header w = ?h"
    "length (f_bytes (w_file w)) \<le> length (log_bytes ?h [])"
    using wal_open_new by blast
  obtain w1 where w1: "write_frames es now w = (Ok (), w1)" "wal_log w1 ?fs" "w_header w1 = ?h"
    "length (f_bytes (w_file w1)) \<le> length (log_bytes ?h ?fs)"
    using write_frames_log [OF w(2) es(1), of now] es(2) w(3,4) by auto
  show ?thesis using wal_sync_log [OF w1(2)] w1 w(1) that by auto
qed

text \<open>The file cut off at byte \<open>k\<close>, as a crash may leave it.\<close>

lemma take_log_bytes:
  assumes "length (wh_magic h) = 4" "list_all frame_fits fs" "WAL_HEADER_SIZE \<le> k"
    "k \<le> length (log_bytes h fs)" and n: "n = (k - WAL_HEADER_SIZE) div WAL_FRAME_SIZE"
  shows "\<exists>junk. take k (log_bytes h fs) = log_bytes h (take n fs) @ junk \<and> length junk < WAL_FRAME_SIZE"
proof -
  have F: "0 < WAL_FRAME_SIZE" by (simp add: const_defs)
  have len: "length (log_bytes h fs) = WAL_HEADER_SIZE + length fs * WAL_FRAME_SIZE"
    using length_log_bytes [OF assms(1,2)] .
  have "k - WAL_HEADER_SIZE \<le> length fs * WAL_FRAME_SIZE" using assms(4) len by simp
  then have nl: "n \<le> length fs" unfolding n using div_le_mono [of _ _ WAL_FRAME_SIZE] F
    by (metis nonzero_mult_div_cancel_right not_less_zero)
  have fit: "list_all frame_fits (take n fs)" using assms(2) by (auto simp: list_all_iff dest: in_set_takeD)
  have l: "length (log_bytes h (take n fs)) = WAL_HEADER_SIZE + n * WAL_FRAME_SIZE"
    using length_log_bytes [OF assms(1) fit] nl by simp
  have kn: "n * WAL_FRAME_SIZE \<le> k - WAL_HEADER_SIZE" "k - WAL_HEADER_SIZE < n * WAL_FRAME_SIZE + WAL_FRAME_SIZE"
    unfolding n using F dividend_less_div_times [OF F, of "k - WAL_HEADER_SIZE"]
    by (simp_all add: div_times_less_eq_dividend add.commute)
  have "log_bytes h fs = log_bytes h (take n fs) @ concat (map frame_bytes (drop n fs))"
    unfolding log_bytes_def by (metis append.assoc append_take_drop_id concat_append map_append)
  then have "take k (log_bytes h fs) = log_bytes h (take n fs) @ take (k - length (log_bytes h (take n fs))) (concat (map frame_bytes (drop n fs)))"
    using l kn assms(3) by simp
  moreover have "k - length (log_bytes h (take n fs)) < WAL_FRAME_SIZE" using l kn assms(3) by simp
  ultimately show ?thesis using le_less_trans by (intro exI conjI) (assumption, simp)
qed

subsection \<open>Properties\<close>

text \<open>
  frames appended to a new log and synced are read back in order with their transaction,
  page number and data, and the same frames are recovered from the bytes that are durable at
  that point.
\<close>

theorem wal_roundtrip:
  assumes "list_all (\<lambda>(t, p, d). length d = PAGE_SIZE) es" "length es < 2 ^ 64"
  shows "\<exists>w w1 w2 w3 w4 w5. wal_open None s1 s2 = Ok w \<and> write_frames es now w = (Ok (), w1) \<and>
    wal_sync w1 = (Ok (), w2) \<and>
    read_all_frames w2 = (Ok (map (\<lambda>(t, p, d). make_frame (w_header w) t p d) es), w3) \<and>
    wal_open (Some \<lparr>f_bytes = f_durable (w_file w2), f_durable = f_durable (w_file w2)\<rparr>) s3 s4 = Ok w4 \<and>
    read_all_frames w4 = (Ok (map (\<lambda>(t, p, d). make_frame (w_header w) t p d) es), w5)"
proof -
  let ?h = "new_header s1 s2" and ?fs = "frames_of (new_header s1 s2) es"
  obtain w w1 w2 where w: "wal_open None s1 s2 = Ok w" "write_frames es now w = (Ok (), w1)" "wal_sync w1 = (Ok (), w2)"
    "wal_log w2 ?fs" "w_buf w2 = []" "f_bytes (w_file w2) = log_bytes ?h ?fs" "f_durable (w_file w2) = f_bytes (w_file w2)"
    using new_log_frames [OF assms] by metis
  have h: "w_header w = ?h" using wal_open_new [of s1 s2] w(1) by auto
  have ok: "list_all frame_fits ?fs" "list_all (frame_valid ?h) ?fs" using frames_of_ok [OF assms(1)] by auto
  obtain w3 where w3: "read_all_frames w2 = (Ok ?fs, w3)" using read_all_frames_log [OF w(4,5)] by blast
  obtain w4 where w4: "wal_open (Some \<lparr>f_bytes = f_durable (w_file w2), f_durable = f_durable (w_file w2)\<rparr>) s3 s4 = Ok w4"
      "wal_log w4 ?fs" "w_buf w4 = []"
    using wal_reopen [of ?h ?fs "\<lparr>f_bytes = f_durable (w_file w2), f_durable = f_durable (w_file w2)\<rparr>" "[]" s3 s4] ok w(6,7) assms(2)
    by (auto simp: new_header_def tail_invalid_def frames_of_def const_defs)
  then obtain w5 where "read_all_frames w4 = (Ok ?fs, w5)" using read_all_frames_log by blast
  then show ?thesis using w w3 w4 h by (auto simp: frames_of_def)
qed

theorem wal_roundtrip_witness:
  "\<exists>w w1 w2 w3. wal_open None 5 5 = Ok w \<and> write_frames [(1, 2, replicate PAGE_SIZE 7)] 0 w = (Ok (), w1) \<and>
    wal_sync w1 = (Ok (), w2) \<and> read_all_frames w2 = (Ok [make_frame (w_header w) 1 2 (replicate PAGE_SIZE 7)], w3)"
  using wal_roundtrip [of "[(1, 2, replicate PAGE_SIZE 7)]" 5 5 0 0 0] by (simp del: write_frames.simps) blast

text \<open>
  opening a log cut off after any byte behind its header recovers exactly the frames that
  are complete: a torn frame at the end is ignored and nothing before it is lost.
\<close>

theorem wal_torn_recovery:
  assumes "wh_magic h = WAL_MAGIC" "list_all frame_fits fs" "list_all (frame_valid h) fs" "length fs < 2 ^ 64"
    and "32 \<le> k" "k \<le> length (log_bytes h fs)" "f_bytes f = take k (log_bytes h fs)"
  shows "\<exists>w w'. wal_open (Some f) s1 s2 = Ok w \<and>
    read_all_frames w = (Ok (take ((k - 32) div (PAGE_SIZE + 28)) fs), w')"
proof -
  let ?n = "(k - 32) div (PAGE_SIZE + 28)"
  have m: "length (wh_magic h) = 4" using assms(1) by simp
  obtain junk where junk: "take k (log_bytes h fs) = log_bytes h (take ?n fs) @ junk" "length junk < WAL_FRAME_SIZE"
    using take_log_bytes [OF m assms(2) _ assms(6), of ?n] assms(5)
    by (auto simp: WAL_HEADER_SIZE_def WAL_FRAME_SIZE_def)
  have "list_all frame_fits (take ?n fs)" "list_all (frame_valid h) (take ?n fs)"
    using assms(2,3) by (auto simp: list_all_iff dest: in_set_takeD)
  moreover have "length (take ?n fs) < 2 ^ 64" using assms(4) by (simp only: length_take min_less_iff_disj simp_thms)
  ultimately obtain w where "wal_open (Some f) s1 s2 = Ok w" "wal_log w (take ?n fs)" "w_buf w = []"
    using wal_reopen [OF assms(1), of "take ?n fs" f junk s1 s2] junk assms(4,7) by (auto simp: tail_invalid_def)
  then show ?thesis using read_all_frames_log by blast
qed

theorem wal_torn_recovery_witness:
  "\<exists>w w'. wal_open (Some \<lparr>f_bytes = take 100 (log_bytes (new_header 5 5) [make_frame (new_header 5 5) 1 2 (replicate PAGE_SIZE 7)]),
      f_durable = []\<rparr>) 5 5 = Ok w \<and> read_all_frames w = (Ok [], w')"
proof -
  let ?h = "new_header 5 5" and ?f = "make_frame (new_header 5 5) 1 2 (replicate PAGE_SIZE 7)"
  have f: "frame_fits ?f" "frame_valid ?h ?f" using make_frame_ok [of "replicate PAGE_SIZE 7" ?h 1 2] by auto
  have "length (log_bytes ?h [?f]) = 32 + (PAGE_SIZE + 28)"
    using length_log_bytes [of ?h "[?f]"] f(1) by (simp add: new_header_def WAL_HEADER_SIZE_def WAL_FRAME_SIZE_def)
  then have "\<exists>w w'. wal_open (Some \<lparr>f_bytes = take 100 (log_bytes ?h [?f]), f_durable = []\<rparr>) 5 5 = Ok w \<and>
      read_all_frames w = (Ok (take ((100 - 32) div (PAGE_SIZE + 28)) [?f]), w')"
    using f by (intro wal_torn_recovery [of ?h]) (simp_all add: new_header_def PAGE_SIZE_def)
  then show ?thesis by (simp add: PAGE_SIZE_def)
qed

text \<open>
  C28: when the bytes behind some valid frames are a torn frame, a frame with other salts or a
  frame with a wrong checksum, opening the log recovers the valid frames before it and no other.
\<close>

theorem wal_corrupt_recovery:
  assumes "wh_magic h = WAL_MAGIC" "list_all frame_fits fs" "list_all (frame_valid h) fs" "length fs < 2 ^ 64"
    and "f_bytes f = log_bytes h fs @ junk" "tail_invalid h junk"
  shows "\<exists>w w'. wal_open (Some f) s1 s2 = Ok w \<and> frame_count w = word_of_nat (length fs) \<and>
    read_all_frames w = (Ok fs, w')"
proof -
  obtain w where w: "wal_open (Some f) s1 s2 = Ok w" "wal_log w fs" "w_buf w = []"
    using wal_reopen [OF assms] by blast
  have "unat (w_frame_num w) = length fs" using w(2) by (simp add: wal_log_def)
  moreover have "word_of_nat (unat (w_frame_num w)) = w_frame_num w" by simp
  ultimately have "w_frame_num w = word_of_nat (length fs)" by simp
  then show ?thesis using w read_all_frames_log [OF w(2,3)] by (auto simp: frame_count_def)
qed

theorem wal_corrupt_recovery_witness:
  "\<exists>w w'. wal_open (Some \<lparr>f_bytes = log_bytes (new_header 5 5) []
      @ frame_bytes (make_frame (new_header 6 6) 1 2 (replicate PAGE_SIZE 7)), f_durable = []\<rparr>) 9 9 = Ok w \<and>
    frame_count w = 0 \<and> read_all_frames w = (Ok [], w')"
proof -
  let ?g = "make_frame (new_header 6 6) 1 2 (replicate PAGE_SIZE 7)"
  have "frame_fits ?g" using make_frame_ok [of "replicate PAGE_SIZE 7"] by auto
  then have "tail_invalid (new_header 5 5) (frame_bytes ?g)"
    by (auto simp: tail_invalid_def frame_valid_def new_header_def make_frame_def Let_def intro!: exI [of _ ?g])
  then show ?thesis
    using wal_corrupt_recovery [of "new_header 5 5" "[]" "\<lparr>f_bytes = log_bytes (new_header 5 5) [] @ frame_bytes ?g, f_durable = []\<rparr>" "frame_bytes ?g" 9 9]
    by (simp add: new_header_def)
qed

text \<open>
  a checkpoint of a flushed log stores the last logged data of every page in the database
  file, durably, keeps all other pages, and leaves an empty log; the cached copies of the logged
  pages must be the logged ones, as they are after a commit.
\<close>

theorem checkpoint_applies_log:
  assumes "wal_log w fs" "w_buf w = []"
    and "f_bytes (w_file w) = log_bytes (w_header w) fs @ junk" "tail_invalid (w_header w) junk"
    and "pager_inv pg" "\<not> pg_read_only pg" "list_all (\<lambda>f. page_ok (wf_page_num f)) fs"
    and "\<forall>p d e. last_data fs p = Some d \<longrightarrow> map_of (lru_view (pg_cache pg)) p = Some e \<longrightarrow> e = d"
  shows "\<exists>w' pg'. wal_checkpoint now (w, pg) = (Ok (), w', pg') \<and> wal_log w' [] \<and>
    f_bytes (w_file w') = header_bytes (w_header w) \<and> pager_inv pg' \<and>
    (\<forall>p d. last_data fs p = Some d \<longrightarrow>
       page_content pg' p = Some d \<and> file_page (f_durable (pg_file pg')) p = Some d) \<and>
    (\<forall>p d. last_data fs p = None \<longrightarrow> page_content pg p = Some d \<longrightarrow> page_content pg' p = Some d)"
proof -
  obtain w' pg' where "wal_checkpoint now (w, pg) = (Ok (), w', pg')" "wal_log w' []"
    "f_bytes (w_file w') = header_bytes (w_header w)" "pager_inv pg'"
    "\<forall>p d. last_data fs p = Some d \<longrightarrow> page_content pg' p = Some d \<and> file_page (f_durable (pg_file pg')) p = Some d"
    "\<forall>p d. last_data fs p = None \<longrightarrow> page_content pg p = Some d \<longrightarrow>
       page_content pg' p = Some d \<and> file_page (f_durable (pg_file pg')) p = Some d"
    using checkpoint_spec [OF assms, where now = now] by blast
  then show ?thesis by (intro exI [of _ w'] exI [of _ pg']) simp
qed

theorem checkpoint_applies_log_witness:
  "\<exists>w w1 w2 pg w' pg'. wal_open None 5 5 = Ok w \<and>
    write_frames [(1, 2, replicate PAGE_SIZE 7), (1, 2, replicate PAGE_SIZE 8)] 0 w = (Ok (), w1) \<and>
    wal_sync w1 = (Ok (), w2) \<and> pager_open None 10 False = Ok pg \<and>
    wal_checkpoint 0 (w2, pg) = (Ok (), w', pg') \<and> page_content pg' 2 = Some (replicate PAGE_SIZE 8)"
proof -
  let ?es = "[(1, 2, replicate PAGE_SIZE 7), (1, 2, replicate PAGE_SIZE 8)] :: (u64 \<times> u64 \<times> bytes) list"
  let ?h = "new_header 5 5" let ?fs = "frames_of ?h ?es"
  have es: "list_all (\<lambda>(t, p, d). length d = PAGE_SIZE) ?es" "length ?es < 2 ^ 64" by simp_all
  obtain w w1 w2 where w: "wal_open None 5 5 = Ok w" "write_frames ?es 0 w = (Ok (), w1)" "wal_sync w1 = (Ok (), w2)"
    "wal_log w2 ?fs" "w_buf w2 = []" "w_header w2 = ?h" "f_bytes (w_file w2) = log_bytes ?h ?fs"
    using new_log_frames [OF es, of 5 5 0] by metis
  obtain pg where pg: "pager_open None 10 False = Ok pg" "pager_inv pg" "\<not> pg_read_only pg" "pg_cache pg = cache_new 10"
    using new_pager [of 10] by blast
  have ld: "last_data ?fs 2 = Some (replicate PAGE_SIZE 8)" by (simp add: last_data_def frames_of_def)
  have "lru_view (pg_cache pg) = []" using pg(4) lru_view_new by (simp add: cache_new_def)
  moreover have "list_all (\<lambda>f. page_ok (wf_page_num f)) ?fs" by (simp add: frames_of_def page_ok_def)
  moreover have "tail_invalid ?h []" by (simp add: tail_invalid_def const_defs)
  ultimately obtain w' pg' where "wal_checkpoint 0 (w2, pg) = (Ok (), w', pg')" "page_content pg' 2 = Some (replicate PAGE_SIZE 8)"
    using checkpoint_applies_log [OF w(4,5), of "[]" pg 0] w(6,7) pg(2,3) ld by auto
  then show ?thesis using w pg by metis
qed

text \<open>
  a frame that is read while another one is still in the writer's buffer moves the cursor the
  two handles share: the next sync stores the buffered frame over frame 1 of the log.
\<close>

theorem read_misplaces_buffered_frame:
  assumes "wal_log w fs" "w_buf w = []" "2 \<le> length fs" "length fs < 2 ^ 64 - 1" "length d = PAGE_SIZE"
  shows "\<exists>w1 w2 w3. write_frame t p d now w = (Ok (), w1) \<and> read_frame 0 w1 = (Ok (fs ! 0), w2) \<and>
    wal_sync w2 = (Ok (), w3) \<and>
    get_bytes (wal_offset 1) WAL_FRAME_SIZE (f_bytes (w_file w3)) = Some (frame_bytes (make_frame (w_header w) t p d))"
proof -
  let ?f = "make_frame (w_header w) t p d" and ?T = "log_bytes (w_header w) fs"
  have f: "frame_fits ?f" using make_frame_ok [OF assms(5)] by auto
  have off: "wal_offset (w_frame_num w) = length ?T" using wal_log_offset [OF assms(1)] .
  obtain junk where fb: "f_bytes (w_file w) = ?T @ junk" using wal_log_flushed [OF assms(1,2)] by blast
  define u where "u = (if w_file_position w \<noteq> int (length ?T) then wal_seek (length ?T) (writer_flush w) else w)"
  have u: "w_buf u = []" "w_file u = w_file w" "w_frame_num u = w_frame_num w" using assms(2) by (simp_all add: u_def)
  have wa: "writer_write_all (frame_bytes ?f) u = u\<lparr>w_buf := frame_bytes ?f\<rparr>"
    using f u(1) by (simp add: writer_write_all_def Let_def const_defs)
  define w1 where "w1 = u\<lparr>w_buf := frame_bytes ?f, w_file_position := int (length ?T) + int WAL_FRAME_SIZE,
    w_frame_num := w_frame_num u + 1, w_cached_file_size := w_cached_file_size u + int WAL_FRAME_SIZE,
    w_cache_timestamp := Some now, w_metrics := map_option (wal_write (word_of_nat WAL_FRAME_SIZE)) (w_metrics u)\<rparr>"
  have w1: "write_frame t p d now w = (Ok (), w1)"
    unfolding write_frame_def Let_def make_frame_def [unfolded Let_def, symmetric] off u_def [symmetric]
    using assms(5) serialize_frame_eq [OF f] wa by (simp add: w1_def)
  have m: "length (wh_magic (w_header w)) = 4" "list_all frame_fits fs" "list_all (frame_valid (w_header w)) fs"
    "unat (w_frame_num w) = length fs" using assms(1) by (auto simp: wal_log_def)
  have "0 < length fs" using assms(3) by linarith
  then have f0: "frame_fits (fs ! 0)" "wf_checksum (fs ! 0) = calculate_checksum (fs ! 0)"
    using m(2,3) by (auto simp: list_all_length frame_valid_def)
  have n1: "unat (w_frame_num w1) = Suc (length fs)"
    using m(4) assms(4) u(3) by (simp add: w1_def unat_word_ariths)
  then have lt: "\<not> w_frame_num w1 \<le> 0" by (auto simp: word_le_nat_alt)
  have g0: "get_bytes (wal_offset 0) WAL_FRAME_SIZE (f_bytes (w_file w1)) = Some (frame_bytes (fs ! 0))"
    using get_log_frame [OF m(1,2) \<open>0 < length fs\<close>, of junk] fb u(2) by (auto simp: wal_offset_def w1_def)
  let ?w2 = "w1\<lparr>w_cursor := wal_offset 0 + WAL_FRAME_SIZE, w_file_position := int (wal_offset 0) + int WAL_FRAME_SIZE\<rparr>"
  have w2: "read_frame 0 w1 = (Ok (fs ! 0), ?w2)"
    using lt g0 f0 parse_frame_bytes [OF f0(1), of "[]"]
    by (simp add: read_frame_def wal_read_exact_def wal_seek_def Let_def)
  have o1: "wal_offset 1 = wal_offset 0 + WAL_FRAME_SIZE" by (simp add: wal_offset_def)
  have "0 < length (frame_bytes ?f)" unfolding length_frame_bytes [OF f] by (simp add: const_defs)
  then have ne: "frame_bytes ?f \<noteq> []" by auto
  have "get_bytes (wal_offset 1) WAL_FRAME_SIZE (f_bytes (w_file (wal_sync_all (writer_flush ?w2)))) = Some (frame_bytes ?f)"
    using get_write_same [OF ne length_frame_bytes [OF f]] o1
    by (simp add: wal_sync_all_def file_sync_def writer_flush_def wal_write_file_def w1_def)
  then show ?thesis using w1 w2 by (auto simp: wal_sync_def)
qed

theorem read_misplaces_buffered_frame_witness:
  "\<exists>w w1 w2 w3 w4 w5. wal_open None 5 5 = Ok w \<and>
    write_frames [(1, 1, replicate PAGE_SIZE 7), (1, 2, replicate PAGE_SIZE 8)] 0 w = (Ok (), w1) \<and> wal_sync w1 = (Ok (), w2) \<and>
    write_frame 2 3 (replicate PAGE_SIZE 9) 0 w2 = (Ok (), w3) \<and>
    read_frame 0 w3 = (Ok (make_frame (new_header 5 5) 1 1 (replicate PAGE_SIZE 7)), w4) \<and> wal_sync w4 = (Ok (), w5) \<and>
    get_bytes (wal_offset 1) WAL_FRAME_SIZE (f_bytes (w_file w5)) = Some (frame_bytes (make_frame (new_header 5 5) 2 3 (replicate PAGE_SIZE 9)))"
proof -
  let ?es = "[(1, 1, replicate PAGE_SIZE 7), (1, 2, replicate PAGE_SIZE 8)] :: (u64 \<times> u64 \<times> bytes) list"
  have es: "list_all (\<lambda>(t, p, d). length d = PAGE_SIZE) ?es" "length ?es < 2 ^ 64" by simp_all
  obtain w w1 w2 where w: "wal_open None 5 5 = Ok w" "write_frames ?es 0 w = (Ok (), w1)" "wal_sync w1 = (Ok (), w2)"
    "wal_log w2 (frames_of (new_header 5 5) ?es)" "w_buf w2 = []" "w_header w2 = new_header 5 5"
    using new_log_frames [OF es, of 5 5 0] by metis
  obtain w3 w4 w5 where x: "write_frame 2 3 (replicate PAGE_SIZE 9) 0 w2 = (Ok (), w3)"
      "read_frame 0 w3 = (Ok (frames_of (new_header 5 5) ?es ! 0), w4)" "wal_sync w4 = (Ok (), w5)"
      "get_bytes (wal_offset 1) WAL_FRAME_SIZE (f_bytes (w_file w5)) = Some (frame_bytes (make_frame (new_header 5 5) 2 3 (replicate PAGE_SIZE 9)))"
    using read_misplaces_buffered_frame [OF w(4,5), of "replicate PAGE_SIZE 9" 2 3 0] w(6) by (auto simp: frames_of_def)
  show ?thesis
    by (rule exI [of _ w], rule exI [of _ w1], rule exI [of _ w2], rule exI [of _ w3], rule exI [of _ w4], rule exI [of _ w5])
      (simp add: w(1-3) x frames_of_def del: write_frames.simps)
qed

text \<open>
  C33: the table-driven checksum of \<open>crc32_ieee\<close> is the bit-serial CRC-32 with the reflected
  polynomial \<open>0xEDB88320\<close>.
\<close>

theorem crc32_ieee_correct: "crc32_ieee data = crc32_reference data"
  by (simp add: crc32_ieee_def crc32_reference_def crc_fold_eq)

end
