(* ===== verification/Page_Steps.thy ===== *)
theory Page_Steps
  imports Pager
begin

text \<open>
  The pager as its clients use it: what one allocation, page write, page read and page release
  does to the set of pages in use and to the page contents. The clients' proofs are
  sequences of these steps.
\<close>


subsection \<open>Specification\<close>

definition store_ok :: "pager \<Rightarrow> bool" where
  "store_ok s \<longleftrightarrow> pager_inv s \<and> \<not> pg_read_only s \<and> alloc_ok s"

definition room :: "nat \<Rightarrow> pager \<Rightarrow> bool" where
  "room n s \<longleftrightarrow> unat (pg_num_pages s) + n \<le> 2 ^ 51"

text \<open>The cache is well-formed and every cached page is whole; page numbers may be anything.\<close>

definition pages_whole :: "pager \<Rightarrow> bool" where
  "pages_whole s \<longleftrightarrow> lru_inv (pg_cache s) \<and>
     (\<forall>p d. map_of (lru_view (pg_cache s)) p = Some d \<longrightarrow> length d = PAGE_SIZE)"


subsection \<open>Lemmas\<close>

lemma alloc_step:
  assumes ok: "store_ok s" and room: "room (Suc n) s"
  shows "\<exists>p s'. alloc_page s = (Ok p, s') \<and> store_ok s' \<and> room n s' \<and> p \<notin> in_use s \<and>
    in_use s' = insert p (in_use s) \<and> p \<noteq> 0 \<and> page_ok p \<and> page_content s' = page_content s \<and>
    p \<noteq> pg_metadata_page s \<and> pg_metadata_page s' = pg_metadata_page s"
proof -
  have a: "alloc_ok s" "\<not> pg_read_only s" "pager_inv s" using ok by (simp_all add: store_ok_def)
  have n: "unat (pg_num_pages s) < 2 ^ 51" using room by (simp add: room_def)
  have "unat (- 1 :: u64) = 2 ^ 64 - 1" by (simp add: unsigned_minus_1_eq_mask mask_eq_exp_minus_1)
  then have "pg_num_pages s \<noteq> - 1" using n by auto
  from alloc_page_spec [OF a(1,2) this] obtain p s' where p: "alloc_page s = (Ok p, s')" "alloc_ok s'" "p \<notin> in_use s"
    "in_use s' = insert p (in_use s)" "p \<noteq> 0" "p \<noteq> pg_metadata_page s" "pg_cache s' = pg_cache s" "pg_file s' = pg_file s"
    "pg_read_only s' = pg_read_only s"
    "pg_num_pages s' = pg_num_pages s \<or> p = pg_num_pages s \<and> pg_num_pages s' = pg_num_pages s + 1"
    by blast
  have up: "unat (pg_num_pages s') \<le> Suc (unat (pg_num_pages s))" using p(10) by (auto simp: unat_word_ariths)
  have "p \<in> in_use s'" using p(4) by simp
  then have "p < pg_num_pages s'" by (simp add: in_use_def)
  then have "unat p < 2 ^ 51" using up room by (simp add: word_less_nat_alt room_def)
  moreover have "pg_metadata_page s' = pg_metadata_page s"
    using p(1) a(2) by (auto simp: alloc_page_def alloc_page_minimum_def split: prod.splits option.splits)
  moreover have "pager_inv s'" "page_content s' = page_content s"
    using a(3) p(7,8) pager_inv_cong page_content_cong by blast+
  ultimately show ?thesis using p up room a(2) by (auto simp: store_ok_def room_def page_ok_def)
qed

lemma same_alloc_in_use: "same_alloc s t \<Longrightarrow> in_use t = in_use s \<and> alloc_ok t = alloc_ok s \<and> room n t = room n s"
  by (simp add: same_alloc_def in_use_def alloc_ok_def room_def)

lemma write_step:
  assumes ok: "store_ok s" and p: "page_ok p" "length d = PAGE_SIZE"
  shows "\<exists>s'. write_page_transfer p d s = (Ok (), s') \<and> store_ok s' \<and> in_use s' = in_use s \<and>
    (\<forall>n. room n s' = room n s) \<and> page_content s' = (page_content s)(p \<mapsto> d) \<and> pg_metadata_page s' = pg_metadata_page s"
proof -
  obtain s' where s': "write_page_transfer p d s = (Ok (), s')" "pager_inv s'"
    "page_content s' = (page_content s)(p \<mapsto> d)" "same_alloc s s'"
    using write_page_transfer_spec [of s p d] ok p by (auto simp: store_ok_def)
  then show ?thesis using ok same_alloc_in_use [OF s'(4)] by (auto simp: store_ok_def same_alloc_def)
qed

lemma read_step:
  assumes ok: "store_ok s" and d: "page_content s p = Some d"
  shows "\<exists>s'. read_page p s = (Ok d, s') \<and> store_ok s' \<and> in_use s' = in_use s \<and>
    (\<forall>n. room n s' = room n s) \<and> page_content s' = page_content s \<and> pg_metadata_page s' = pg_metadata_page s"
proof -
  obtain s' where s': "read_page p s = (Ok d, s')" "pager_inv s'" "page_content s' = page_content s" "same_alloc s s'"
    using read_page_spec [of s p d] ok d by (auto simp: store_ok_def)
  then show ?thesis using ok same_alloc_in_use [OF s'(4)] by (auto simp: store_ok_def same_alloc_def)
qed

lemma map_of_delete_other: "q \<noteq> p \<Longrightarrow> map_of (AList.delete p es) q = map_of es q"
  by simp

lemma free_step:
  assumes ok: "store_ok s" and p: "p \<in> in_use s" "p \<noteq> pg_metadata_page s"
  shows "\<exists>s'. free_page p s = (Ok (), s') \<and> store_ok s' \<and> in_use s' = in_use s - {p} \<and>
    (\<forall>q. q \<noteq> p \<longrightarrow> page_content s' q = page_content s q) \<and> pg_metadata_page s' = pg_metadata_page s"
proof -
  have a: "alloc_ok s" "\<not> pg_read_only s" "pager_inv s" using ok by (simp_all add: store_ok_def)
  have linv: "lru_inv (pg_cache s)" using a(3) by (simp add: pager_inv_def)
  obtain c where c: "lru_remove p (pg_cache s) = Some c" "lru_inv c" "lru_view c = AList.delete p (lru_view (pg_cache s))"
    "lru_dirty c = (if map_of (lru_view (pg_cache s)) p = None then lru_dirty (pg_cache s) else hm_remove p (lru_dirty (pg_cache s)))"
    using remove_refines [OF linv, of p] by blast
  define t where "t = with_metrics page_freed (s\<lparr>pg_free_list := pg_free_list s @ [p], pg_cache := c\<rparr>)"
  have f: "free_page p s = (Ok (), t)" using c(1) a(2) by (simp add: free_page_def with_cache_def t_def)
  have t: "pg_cache t = c" "pg_file t = pg_file s" "pg_metadata_page t = pg_metadata_page s" "pg_read_only t = pg_read_only s"
    by (simp_all add: t_def)
  have alloc: "alloc_ok t \<and> in_use t = in_use s - {p}" using free_page_spec [OF linv a(1,2) p] f by auto
  have dirty: "cache_is_dirty q c = cache_is_dirty q (pg_cache s)" if "q \<noteq> p" for q
    using c(4) that by (simp add: cache_is_dirty_def)
  have look: "map_of (lru_view c) q = (if q = p then None else map_of (lru_view (pg_cache s)) q)" for q
    using c(3) by simp
  have "pager_inv t"
  proof (rule pager_invI)
    show "lru_inv (pg_cache t)" using c t by simp
    show "length (f_bytes (pg_file t)) \<le> 2 ^ 63" using a(3) t(2) by (simp add: pager_inv_def)
    fix q x assume q: "map_of (lru_view (pg_cache t)) q = Some x"
    then have "q \<noteq> p" "map_of (lru_view (pg_cache s)) q = Some x" using look [of q] t(1) by (auto split: if_splits)
    then show "page_ok q \<and> length x = PAGE_SIZE \<and> (\<not> cache_is_dirty q (pg_cache t) \<longrightarrow> file_page (f_bytes (pg_file t)) q = Some x)"
      using pager_inv_view [OF a(3), of q x] dirty [of q] t by simp
  qed
  moreover have "page_content t q = page_content s q" if "q \<noteq> p" for q
    using look [of q] that t by (simp add: page_content_def split: option.split)
  ultimately show ?thesis using f alloc t a by (auto simp: store_ok_def)
qed

lemma pages_whole_inv: "pager_inv s \<Longrightarrow> pages_whole s"
proof -
  assume inv: "pager_inv s"
  then have "lru_inv (pg_cache s)" by (simp add: pager_inv_def)
  then show ?thesis using pager_inv_view(2) [OF inv] unfolding pages_whole_def by blast
qed

lemma safe_read_page_miss:
  assumes "pages_whole s"
  shows "safe (\<lambda>d s. length d = PAGE_SIZE \<and> pages_whole s) (read_page_miss p s)"
proof (cases "file_read_exact (page_offset p) PAGE_SIZE (pg_file s)")
  case (Ok d)
  have linv: "lru_inv (pg_cache s)" using assms by (simp add: pages_whole_def)
  have d: "length d = PAGE_SIZE" using Ok by (auto simp: file_read_exact_def length_get_bytes split: if_splits option.splits)
  obtain c where c: "lru_put p d (pg_cache s) = Some c" "lru_inv c"
    "lru_view c = spec_put (lru_capacity (pg_cache s)) (\<lambda>q. cache_is_dirty q (pg_cache s)) p d (lru_view (pg_cache s))"
    using put_refines [OF linv] by blast
  have "length x = PAGE_SIZE" if "map_of (lru_view c) q = Some x" for q x
    using spec_put_sound [OF lru_view_ok [OF linv]] that c(3) assms d unfolding pages_whole_def by metis
  then show ?thesis using Ok c d by (simp add: read_page_miss_def with_cache_def pages_whole_def)
qed (auto simp: read_page_miss_def file_read_exact_def split: if_splits option.splits)

lemma safe_read_page:
  assumes "pages_whole s"
  shows "safe (\<lambda>d s. length d = PAGE_SIZE \<and> pages_whole s) (read_page p s)"
proof -
  have linv: "lru_inv (pg_cache s)" using assms by (simp add: pages_whole_def)
  obtain c where c: "lru_get p (pg_cache s) = Some (map_of (lru_view (pg_cache s)) p, c)" "lru_inv c"
    "lru_view c = touch p (lru_view (pg_cache s))"
    using pc.get_law [OF linv, of p] by blast
  have "pages_whole (s\<lparr>pg_cache := c\<rparr>)"
    using c assms touch_lookup [OF lru_view_ok [OF linv]] by (auto simp: pages_whole_def)
  then show ?thesis using c assms safe_read_page_miss [of "s\<lparr>pg_cache := c\<rparr>" p]
    by (auto simp: read_page_def pages_whole_def split: option.splits)
qed

lemma safe_fields:
  "off + 2 \<le> length bs \<Longrightarrow> \<exists>v. read_u16 off bs = Ok v"
  "off + 4 \<le> length bs \<Longrightarrow> \<exists>v. read_u32 off bs = Ok v"
  "off + 8 \<le> length bs \<Longrightarrow> \<exists>v. read_u64 off bs = Ok v"
  "off + n \<le> length bs \<Longrightarrow> \<exists>v. get_bytes off n bs = Some v \<and> length v = n"
  by (auto simp: read_u16_def read_u32_def read_u64_def get_bytes_def)

lemma new_store: "\<exists>s. pager_open None c False = Ok s \<and> store_ok s \<and> room 1000000 s"
proof -
  obtain s where "pager_open None c False = Ok s" "pager_inv s" "alloc_ok s" "\<not> pg_read_only s" "pg_num_pages s = 1"
    using new_pager [of c] by blast
  then show ?thesis by (auto simp: store_ok_def room_def)
qed

lemma room_mono: "room n s \<Longrightarrow> m \<le> n \<Longrightarrow> room m s"
  by (simp add: room_def)

lemma read_u16_at: "length pre = off \<Longrightarrow> read_u16 off (pre @ u16_to_le p @ rest) = Ok p"
  by (simp add: read_u16_def get_bytes_append_right get_bytes_append_left)

lemma read_u64_zeros:
  assumes "length xs + m = PAGE_SIZE" "8 \<le> m"
  shows "read_u64 (PAGE_SIZE - 8) (xs @ replicate m 0) = Ok 0"
proof -
  have "xs @ replicate m (0::u8) = (xs @ replicate (m - 8) 0) @ u64_to_le 0 @ []"
    using assms(2) replicate_add [of "m - 8" 8 "0::u8"] by (simp add: u64_to_le_zero)
  then show ?thesis using read_u64_at [of "xs @ replicate (m - 8) 0" "PAGE_SIZE - 8" 0 "[]"] assms by simp
qed

lemma put_bytes_end: "length xs = off \<Longrightarrow> length zs = length ys \<Longrightarrow> put_bytes off ys (xs @ zs) = Some (xs @ ys)"
  by (simp add: put_bytes_def)

end
