(* ===== verification/Buffer_Pool.thy ===== *)
theory Buffer_Pool
  imports Outcome
begin

text \<open>
  \<open>src/core/buffer_pool.rs\<close>: a stack of page buffers for reuse. The two global pools are values
  of the record \<open>buffer_pool\<close>, with the sizes of the two \<open>Lazy\<close> statics.
\<close>

record buffer_pool =
  bp_buffers :: "bytes list"
  bp_max_size :: nat

definition pool_new :: "nat \<Rightarrow> buffer_pool" where
  "pool_new max_size = \<lparr>bp_buffers = [], bp_max_size = max_size\<rparr>"

text \<open>The top of the stack is the last element of the vector.\<close>

definition pool_get :: "buffer_pool \<Rightarrow> bytes \<times> buffer_pool" where
  "pool_get b = (if bp_buffers b = [] then (replicate PAGE_SIZE 0, b)
     else (last (bp_buffers b), b\<lparr>bp_buffers := butlast (bp_buffers b)\<rparr>))"

definition pool_put :: "bytes \<Rightarrow> buffer_pool \<Rightarrow> buffer_pool" where
  "pool_put buf b =
     (if length buf \<noteq> PAGE_SIZE then b
      else if length (bp_buffers b) < bp_max_size b
        then b\<lparr>bp_buffers := bp_buffers b @ [map (\<lambda>_. 0) buf]\<rparr>
      else b)"

definition pool_len :: "buffer_pool \<Rightarrow> nat" where
  "pool_len b = length (bp_buffers b)"

definition pool_is_empty :: "buffer_pool \<Rightarrow> bool" where
  "pool_is_empty b \<longleftrightarrow> pool_len b = 0"

definition pool_capacity :: "buffer_pool \<Rightarrow> nat" where
  "pool_capacity b = bp_max_size b"

definition NODE_SERIALIZE_POOL :: buffer_pool where "NODE_SERIALIZE_POOL = pool_new 128"
definition PAGE_BUFFER_POOL :: buffer_pool where "PAGE_BUFFER_POOL = pool_new 256"

text \<open>A history of takes and returns; the buffers taken are recorded.\<close>

datatype pool_op = PoolGet | PoolPut bytes

fun pool_run :: "pool_op list \<Rightarrow> buffer_pool \<Rightarrow> bytes list \<times> buffer_pool" where
  "pool_run [] b = ([], b)"
| "pool_run (PoolGet # ops) b = (case pool_get b of (x, b) \<Rightarrow> case pool_run ops b of (xs, b) \<Rightarrow> (x # xs, b))"
| "pool_run (PoolPut buf # ops) b = pool_run ops (pool_put buf b)"

definition pool_ok :: "buffer_pool \<Rightarrow> bool" where
  "pool_ok b \<longleftrightarrow> set (bp_buffers b) \<subseteq> {replicate PAGE_SIZE 0} \<and> length (bp_buffers b) \<le> bp_max_size b"

lemma map_zero: "map (\<lambda>_. 0) xs = replicate (length xs) 0"
  by (induction xs) auto

lemma pool_put_ok: "pool_ok b \<Longrightarrow> pool_ok (pool_put buf b) \<and> bp_max_size (pool_put buf b) = bp_max_size b"
  by (auto simp: pool_ok_def pool_put_def map_zero)

lemma pool_get_ok:
  assumes "pool_ok b"
  shows "fst (pool_get b) = replicate PAGE_SIZE 0 \<and> pool_ok (snd (pool_get b)) \<and> bp_max_size (snd (pool_get b)) = bp_max_size b"
proof (cases "bp_buffers b" rule: rev_cases)
  case (snoc ys y)
  then show ?thesis using assms by (auto simp: pool_get_def pool_ok_def)
qed (use assms in \<open>simp add: pool_get_def pool_ok_def\<close>)

lemma pool_run_ok:
  "pool_ok b \<Longrightarrow> set (fst (pool_run ops b)) \<subseteq> {replicate PAGE_SIZE 0} \<and> pool_ok (snd (pool_run ops b)) \<and>
     bp_max_size (snd (pool_run ops b)) = bp_max_size b"
proof (induction ops arbitrary: b)
  case (Cons op ops)
  show ?case
  proof (cases op)
    case PoolGet
    obtain x c where x: "pool_get b = (x, c)" by fastforce
    then have "x = replicate PAGE_SIZE 0" "pool_ok c" "bp_max_size c = bp_max_size b"
      using pool_get_ok [OF Cons.prems] by simp_all
    then show ?thesis using Cons.IH [of c] PoolGet x by (cases "pool_run ops c") simp
  next
    case (PoolPut buf)
    then show ?thesis using Cons.IH [of "pool_put buf b"] pool_put_ok [OF Cons.prems, of buf] by simp
  qed
qed simp

text \<open>
  whatever is returned to a pool, every buffer handed out later is a whole page of zeros, and
  the pool never holds more buffers than its capacity.
\<close>

theorem pool_buffers_zeroed:
  "case pool_run ops (pool_new n) of (taken, b) \<Rightarrow>
     set taken \<subseteq> {replicate PAGE_SIZE 0} \<and> pool_len b \<le> pool_capacity b \<and> pool_capacity b = n"
proof (cases "pool_run ops (pool_new n)")
  case (Pair xs b)
  then show ?thesis using pool_run_ok [of "pool_new n" ops]
    by (simp add: pool_ok_def pool_new_def pool_len_def pool_capacity_def)
qed

end
