(* ===== verification/Document.thy ===== *)
theory Document
  imports Page_Steps Buffer_Pool
begin

text \<open>
  \<open>src/core/document.rs\<close>: documents stored in one page or in a page with a chain of overflow
  pages, plain and with the version stamps \<open>xmin\<close> and \<open>xmax\<close>.

  The page buffers come from the pool, whose buffers are pages of zeros
  (theorem \<open>pool_buffers_zeroed\<close>). The number of chain pages still allowed,
  \<open>MAX_OVERFLOW_CHAIN_LENGTH - chain_length\<close>, is the argument the loops recurse on. The
  versioned functions also update the transaction's page buffer \<open>tx_writes\<close>; their state is
  the pager paired with it.
\<close>

record document =
  d_id :: string
  d_data :: bytes

record versioned_document =
  vd_id :: string
  vd_data :: bytes
  vd_xmin :: tx_id
  vd_xmax :: tx_id

definition vd_is_visible :: "versioned_document \<Rightarrow> tx_id \<Rightarrow> bool" where
  "vd_is_visible d snapshot_id =
     (if vd_xmin d > snapshot_id then False
      else if vd_xmax d \<noteq> 0 \<and> vd_xmax d \<le> snapshot_id then False
      else True)"

text \<open>\<open>usize\<close> subtraction, which wraps around below zero.\<close>

definition usize_sub :: "nat \<Rightarrow> nat \<Rightarrow> nat" where
  "usize_sub a b = (if b \<le> a then a - b else a + 2 ^ 64 - b)"


subsection \<open>Plain documents\<close>

definition write_single_page :: "string \<Rightarrow> bytes \<Rightarrow> pager \<Rightarrow> page_num res \<times> pager" where
  "write_single_page docid data s =
     and_then (alloc_page s) (\<lambda>page_num s.
     let id_bytes = as_bytes docid in
     (case do {
        st \<leftarrow> emit (u16_to_le (word_of_nat (length id_bytes))) (0, replicate PAGE_SIZE 0);
        st \<leftarrow> emit id_bytes st;
        st \<leftarrow> emit (u32_to_le (word_of_nat (length data))) st;
        st \<leftarrow> emit data st;
        emit (u64_to_le 0) st } of
        None \<Rightarrow> (Panic, s)
      | Some (_, buf) \<Rightarrow> and_then (write_page_transfer page_num buf s) (\<lambda>_ s. (Ok page_num, s))))"

function split_chunks :: "bytes \<Rightarrow> bytes list" where
  "split_chunks remaining =
     (if remaining = [] then []
      else take MAX_OVERFLOW_DATA remaining # split_chunks (drop MAX_OVERFLOW_DATA remaining))"
  by pat_completeness auto
termination
  by (relation "measure length") (auto simp: const_defs)

declare split_chunks.simps [simp del]

text \<open>One overflow page: a chunk at its start and the next page of the chain in its last bytes.\<close>

definition overflow_buf :: "bytes \<Rightarrow> page_num \<Rightarrow> bytes option" where
  "overflow_buf chunk next_overflow = do {
     buf \<leftarrow> put_bytes 0 chunk (replicate PAGE_SIZE 0);
     put_bytes (PAGE_SIZE - 8) (u64_to_le next_overflow) buf
   }"

fun write_overflow :: "bytes list \<Rightarrow> page_num \<Rightarrow> pager \<Rightarrow> page_num res \<times> pager" where
  "write_overflow [] next_overflow s = (Ok next_overflow, s)"
| "write_overflow (chunk # chunks) next_overflow s =
     and_then (alloc_page s) (\<lambda>overflow_page s.
     (case overflow_buf chunk next_overflow of
        None \<Rightarrow> (Panic, s)
      | Some buf \<Rightarrow> and_then (write_page_transfer overflow_page buf s) (\<lambda>_ s.
          write_overflow chunks overflow_page s)))"

definition write_multi_page :: "string \<Rightarrow> bytes \<Rightarrow> pager \<Rightarrow> page_num res \<times> pager" where
  "write_multi_page docid data s =
     and_then (alloc_page s) (\<lambda>first_page s.
     let id_bytes = as_bytes docid;
         first_page_available = usize_sub (usize_sub (usize_sub (usize_sub PAGE_SIZE DOC_ID_LEN_SIZE)
           (length id_bytes)) DATA_LEN_SIZE) OVERFLOW_SIZE;
         first_chunk_size = min first_page_available (length data);
         chunks = split_chunks (drop first_chunk_size data)
     in and_then (write_overflow (rev chunks) 0 s) (\<lambda>next_overflow s.
     (case do {
        st \<leftarrow> emit (u16_to_le (word_of_nat (length id_bytes))) (0, replicate PAGE_SIZE 0);
        st \<leftarrow> emit id_bytes st;
        st \<leftarrow> emit (u32_to_le (word_of_nat (length data))) st;
        (_, buf) \<leftarrow> emit (take first_chunk_size data) st;
        put_bytes (PAGE_SIZE - 8) (u64_to_le next_overflow) buf } of
        None \<Rightarrow> (Panic, s)
      | Some buf \<Rightarrow> and_then (write_page_transfer first_page buf s) (\<lambda>_ s. (Ok first_page, s)))))"

definition write_document :: "string \<Rightarrow> bytes \<Rightarrow> pager \<Rightarrow> page_num res \<times> pager" where
  "write_document docid data s =
     (if DOC_ID_LEN_SIZE + length (as_bytes docid) + DATA_LEN_SIZE + length data + OVERFLOW_SIZE \<le> PAGE_SIZE
      then write_single_page docid data s
      else write_multi_page docid data s)"

definition MAX_DOCUMENT_SIZE :: nat where [const_defs]: "MAX_DOCUMENT_SIZE = 1024 * 1024 * 1024"

definition cycle_error :: "page_num \<Rightarrow> string \<Rightarrow> error" where
  "cycle_error p rest = Other (''Overflow chain cycle detected at page '' @ show_u64 p @ rest)"

definition chain_error :: "string \<Rightarrow> error" where
  "chain_error rest = Other (''Overflow chain too long (>'' @ show_nat MAX_OVERFLOW_CHAIN_LENGTH @ rest)"

text \<open>The overflow loop of \<open>read_document\<close>; \<open>data\<close> is what has been read so far.\<close>

fun read_chain :: "nat \<Rightarrow> page_num set \<Rightarrow> nat \<Rightarrow> page_num \<Rightarrow> bytes \<Rightarrow> pager \<Rightarrow> bytes res \<times> pager" where
  "read_chain left visited data_len cur data s =
     (if cur = 0 \<or> \<not> length data < data_len then (Ok data, s)
      else if cur \<in> visited then (Err (cycle_error cur ''. Document is corrupted.''), s)
      else case left of
        0 \<Rightarrow> (Err (chain_error '' pages). Document may be corrupted.''), s)
      | Suc left \<Rightarrow>
          and_then (read_page cur s) (\<lambda>overflow_data s.
          let chunk_size = min (data_len - length data) MAX_OVERFLOW_DATA in
          and_then (no_panic (get_bytes 0 chunk_size overflow_data), s) (\<lambda>chunk s.
          and_then (read_u64 (PAGE_SIZE - 8) overflow_data, s) (\<lambda>next s.
          read_chain left (insert cur visited) data_len next (data @ chunk) s))))"

definition read_document :: "page_num \<Rightarrow> pager \<Rightarrow> document res \<times> pager" where
  "read_document page_num s =
     and_then (read_page page_num s) (\<lambda>page_data s.
     and_then (read_u16 0 page_data, s) (\<lambda>id_len16 s.
     let id_len = unat id_len16; offset = 2 in
     if id_len = 0 \<or> id_len > 255 then (Err InvalidDocument, s)
     else if offset + id_len > length page_data then (Err InvalidDocument, s)
     else and_then (no_panic (get_bytes offset id_len page_data), s) (\<lambda>id_bytes s.
     case from_utf8 id_bytes of None \<Rightarrow> (Err InvalidDocument, s)
     | Some docid \<Rightarrow>
       let offset = offset + id_len in
       if offset + 4 > length page_data then (Err InvalidDocument, s)
       else and_then (read_u32 offset page_data, s) (\<lambda>data_len32 s.
       let data_len = unat data_len32; offset = offset + 4 in
       if data_len > MAX_DOCUMENT_SIZE then (Err InvalidDocument, s)
       else and_then (read_u64 (PAGE_SIZE - 8) page_data, s) (\<lambda>overflow_page s.
       if overflow_page = 0 then
         (if offset + data_len > length page_data then (Err InvalidDocument, s)
          else and_then (no_panic (get_bytes offset data_len page_data), s) (\<lambda>data s.
            (Ok \<lparr>d_id = docid, d_data = data\<rparr>, s)))
       else
         let first_chunk_size = PAGE_SIZE - DOC_ID_LEN_SIZE - id_len - DATA_LEN_SIZE - OVERFLOW_SIZE;
             first_data_len = min first_chunk_size data_len
         in and_then (no_panic (get_bytes offset first_data_len page_data), s) (\<lambda>data s.
            and_then (read_chain MAX_OVERFLOW_CHAIN_LENGTH {} data_len overflow_page data s) (\<lambda>data s.
            if length data \<noteq> data_len then
              (Err (Other (''Document size mismatch: expected '' @ show_nat data_len @ '' bytes, got ''
                 @ show_nat (length data) @ '' bytes. Document may be corrupted.'')), s)
            else (Ok \<lparr>d_id = docid, d_data = data\<rparr>, s))))))))"

fun delete_chain :: "nat \<Rightarrow> page_num set \<Rightarrow> page_num \<Rightarrow> pager \<Rightarrow> unit res \<times> pager" where
  "delete_chain left visited cur s =
     (if cur = 0 then (Ok (), s)
      else if cur \<in> visited then (Err (cycle_error cur '' during delete. Document is corrupted.''), s)
      else case left of
        0 \<Rightarrow> (Err (chain_error '' pages) during delete. Document may be corrupted.''), s)
      | Suc left \<Rightarrow>
          and_then (read_page cur s) (\<lambda>overflow_data s.
          and_then (read_u64 (PAGE_SIZE - 8) overflow_data, s) (\<lambda>next_overflow s.
          and_then (free_page cur s) (\<lambda>_ s.
          delete_chain left (insert cur visited) next_overflow s))))"

definition delete_document :: "page_num \<Rightarrow> pager \<Rightarrow> unit res \<times> pager" where
  "delete_document page_num s =
     and_then (read_page page_num s) (\<lambda>page_data s.
     and_then (read_u64 (PAGE_SIZE - 8) page_data, s) (\<lambda>overflow_page s.
     and_then (delete_chain MAX_OVERFLOW_CHAIN_LENGTH {} overflow_page s) (\<lambda>_ s.
     free_page page_num s)))"


subsection \<open>Versioned documents\<close>

type_synonym tx_state = "pager \<times> (page_num, bytes) hmap"

text \<open>A pager method inside a function whose state also holds \<open>tx_writes\<close>.\<close>

definition on_pager :: "(pager \<Rightarrow> 'a res \<times> pager) \<Rightarrow> tx_state \<Rightarrow> 'a res \<times> tx_state" where
  "on_pager f st = (case st of (s, tw) \<Rightarrow> case f s of (r, s) \<Rightarrow> (r, s, tw))"

definition tx_insert :: "page_num \<Rightarrow> bytes \<Rightarrow> tx_state \<Rightarrow> tx_state" where
  "tx_insert p d st = (fst st, hm_insert p d (snd st))"

text \<open>The \<open>map_err\<close> handler: free the pages allocated so far, ignoring errors.\<close>

definition free_allocated :: "page_num list \<Rightarrow> tx_state \<Rightarrow> tx_state" where
  "free_allocated ps st = (fold (\<lambda>p s. snd (free_page p s)) ps (fst st), snd st)"

definition or_free :: "page_num list \<Rightarrow> 'a res \<times> tx_state \<Rightarrow> 'a res \<times> tx_state" where
  "or_free ps r = (case r of (Err e, st) \<Rightarrow> (Err e, free_allocated ps st) | _ \<Rightarrow> r)"

text \<open>
  The loop over the overflow pages. \<open>first\<close> is the first page's buffer; \<open>prev_page\<close>, \<open>prev_off\<close>
  and \<open>prev_buf\<close> are the variables of the previous page, which is written when its successor
  is known.
\<close>

function versioned_chain :: "page_num \<Rightarrow> bytes \<Rightarrow> page_num list \<Rightarrow> page_num \<Rightarrow> nat \<Rightarrow> bytes option \<Rightarrow> bytes
    \<Rightarrow> tx_state \<Rightarrow> (bytes \<times> page_num list \<times> page_num \<times> bytes option) res \<times> tx_state" where
  "versioned_chain first_page rest allocated prev_page prev_off prev_buf first st =
     (if rest = [] then (Ok (first, allocated, prev_page, prev_buf), st)
      else case or_free allocated (on_pager alloc_page st) of
          (Err e, st) \<Rightarrow> (Err e, st) | (Panic, st) \<Rightarrow> (Panic, st)
        | (Ok overflow_page, st) \<Rightarrow>
            let allocated = allocated @ [overflow_page];
                chunk = take MAX_OVERFLOW_DATA rest;
                rest' = drop MAX_OVERFLOW_DATA rest;
                off = PAGE_SIZE - OVERFLOW_SIZE
            in (case overflow_buf chunk 0 of None \<Rightarrow> (Panic, st)
              | Some buf \<Rightarrow>
                if prev_page = first_page then
                  (case put_bytes prev_off (u64_to_le overflow_page) first of
                     None \<Rightarrow> (Panic, st)
                   | Some first \<Rightarrow> versioned_chain first_page rest' allocated overflow_page off (Some buf) first st)
                else (case prev_buf of
                   None \<Rightarrow> versioned_chain first_page rest' allocated overflow_page off (Some buf) first st
                 | Some pbuf \<Rightarrow>
                     (case put_bytes prev_off (u64_to_le overflow_page) pbuf of
                        None \<Rightarrow> (Panic, st)
                      | Some pbuf \<Rightarrow>
                          (case or_free allocated (on_pager (write_page_transfer prev_page pbuf) (tx_insert prev_page pbuf st)) of
                             (Err e, st) \<Rightarrow> (Err e, st) | (Panic, st) \<Rightarrow> (Panic, st)
                           | (Ok _, st) \<Rightarrow>
                               versioned_chain first_page rest' allocated overflow_page off (Some buf) first st)))))"
  by pat_completeness auto
termination
  by (relation "measure (\<lambda>(fp, rest, al, pp, po, pb, f, st). length rest)") (auto simp: const_defs)

declare versioned_chain.simps [simp del]

definition write_versioned_document :: "string \<Rightarrow> bytes \<Rightarrow> tx_id \<Rightarrow> tx_id \<Rightarrow> tx_state \<Rightarrow> (page_num \<times> bytes) res \<times> tx_state" where
  "write_versioned_document docid data xmin xmax st =
     (if length docid > 255 then (Err InvalidDocument, st)
      else
       let id_bytes = as_bytes docid;
           first_page_header = XMIN_SIZE + XMAX_SIZE + DOC_ID_LEN_SIZE + length id_bytes + DATA_LEN_SIZE + OVERFLOW_SIZE;
           first_page_capacity = PAGE_SIZE - first_page_header
       in and_then (on_pager alloc_page st) (\<lambda>first_page_num st.
       let chunk_size = min first_page_capacity (length data) in
       case do {
         w \<leftarrow> emit (u64_to_le xmin) (0, replicate PAGE_SIZE 0);
         w \<leftarrow> emit (u64_to_le xmax) w;
         w \<leftarrow> emit (u16_to_le (word_of_nat (length id_bytes))) w;
         w \<leftarrow> emit id_bytes w;
         w \<leftarrow> emit (u32_to_le (word_of_nat (length data))) w;
         (overflow_offset, buf) \<leftarrow> emit (take chunk_size data) w;
         buf \<leftarrow> put_bytes overflow_offset (u64_to_le 0) buf;
         Some (overflow_offset, buf) } of
         None \<Rightarrow> (Panic, st)
       | Some (overflow_offset, buf) \<Rightarrow>
         and_then (versioned_chain first_page_num (drop chunk_size data) [first_page_num] first_page_num overflow_offset None buf st)
           (\<lambda>(first_page_data, allocated, prev_page, prev_buf) st.
           and_then (case prev_buf of None \<Rightarrow> (Ok (), st)
                     | Some b \<Rightarrow> or_free allocated (on_pager (write_page_transfer prev_page b) (tx_insert prev_page b st)))
           (\<lambda>_ st. and_then (or_free allocated (on_pager (write_page_transfer first_page_num first_page_data)
                      (tx_insert first_page_num first_page_data st)))
           (\<lambda>_ st. (Ok (first_page_num, first_page_data), st))))))"

text \<open>\<open>tx_writes.get(&p)\<close>, or else the pager.\<close>

definition fetch_page :: "(page_num, bytes) hmap \<Rightarrow> page_num \<Rightarrow> pager \<Rightarrow> bytes res \<times> pager" where
  "fetch_page tw p s = (case hm_get tw p of Some d \<Rightarrow> (Ok d, s) | None \<Rightarrow> read_page p s)"

fun read_versioned_chain :: "nat \<Rightarrow> page_num set \<Rightarrow> (page_num, bytes) hmap \<Rightarrow> nat \<Rightarrow> page_num \<Rightarrow> bytes \<Rightarrow> pager \<Rightarrow> bytes res \<times> pager" where
  "read_versioned_chain left visited tw data_len cur data s =
     (if cur = 0 \<or> \<not> length data < data_len then (Ok data, s)
      else if cur \<in> visited then (Err (cycle_error cur ''. Versioned document is corrupted.''), s)
      else case left of
        0 \<Rightarrow> (Err (chain_error '' pages). Versioned document may be corrupted.''), s)
      | Suc left \<Rightarrow>
          and_then (fetch_page tw cur s) (\<lambda>overflow_data s.
          let chunk_size = min MAX_OVERFLOW_DATA (data_len - length data) in
          and_then (no_panic (get_bytes 0 chunk_size overflow_data), s) (\<lambda>chunk s.
          if PAGE_SIZE < OVERFLOW_SIZE then (Err InvalidDocument, s)
          else and_then (read_u64 (PAGE_SIZE - OVERFLOW_SIZE) overflow_data, s) (\<lambda>next s.
          read_versioned_chain left (insert cur visited) tw data_len next (data @ chunk) s))))"

definition read_versioned_document :: "page_num \<Rightarrow> (page_num, bytes) hmap \<Rightarrow> pager \<Rightarrow> versioned_document res \<times> pager" where
  "read_versioned_document page_num tw s =
     and_then (fetch_page tw page_num s) (\<lambda>page_data s.
     and_then (read_u64 0 page_data, s) (\<lambda>xmin s.
     and_then (read_u64 8 page_data, s) (\<lambda>xmax s.
     and_then (read_u16 16 page_data, s) (\<lambda>id_len16 s.
     let id_len = unat id_len16; offset = 18 in
     if id_len = 0 \<or> id_len > usize_sub (length page_data) offset then (Err InvalidDocument, s)
     else and_then (no_panic (get_bytes offset id_len page_data), s) (\<lambda>id_bytes s.
     case from_utf8 id_bytes of None \<Rightarrow> (Err InvalidDocument, s)
     | Some docid \<Rightarrow>
       let offset = offset + id_len in
       and_then (read_u32 offset page_data, s) (\<lambda>data_len32 s.
       let data_len = unat data_len32; offset = offset + 4 in
       if data_len > MAX_DOCUMENT_SIZE then (Err InvalidDocument, s)
       else
         let first_page_capacity = usize_sub PAGE_SIZE (XMIN_SIZE + XMAX_SIZE + DOC_ID_LEN_SIZE + id_len + DATA_LEN_SIZE + OVERFLOW_SIZE);
             first_chunk_size = min first_page_capacity data_len
         in and_then (no_panic (get_bytes offset first_chunk_size page_data), s) (\<lambda>data s.
            and_then (read_u64 (offset + first_chunk_size) page_data, s) (\<lambda>overflow_page_num s.
            and_then (read_versioned_chain MAX_OVERFLOW_CHAIN_LENGTH {} tw data_len overflow_page_num data s) (\<lambda>data s.
            if length data \<noteq> data_len then
              (Err (Other (''Versioned document size mismatch: expected '' @ show_nat data_len @ '' bytes, got ''
                 @ show_nat (length data) @ '' bytes. Document may be corrupted.'')), s)
            else (Ok \<lparr>vd_id = docid, vd_data = data, vd_xmin = xmin, vd_xmax = xmax\<rparr>, s))))))))))"


subsection \<open>Specification\<close>

fun chunks_ok :: "bytes list \<Rightarrow> bool" where
  "chunks_ok [] = True"
| "chunks_ok [c] = (c \<noteq> [] \<and> length c \<le> MAX_OVERFLOW_DATA)"
| "chunks_ok (c # cs) = (length c = MAX_OVERFLOW_DATA \<and> chunks_ok cs)"

fun chain :: "(page_num \<Rightarrow> bytes option) \<Rightarrow> page_num \<Rightarrow> page_num list \<Rightarrow> bytes list \<Rightarrow> bool" where
  "chain C p [] [] \<longleftrightarrow> p = 0"
| "chain C p (q # qs) (c # cs) \<longleftrightarrow> p = q \<and> q \<noteq> 0 \<and>
     (\<exists>n pad. C q = Some (c @ pad @ u64_to_le n) \<and> length c + length pad = MAX_OVERFLOW_DATA \<and> chain C n qs cs)"
| "chain C p _ _ \<longleftrightarrow> False"

definition id_ok :: "string \<Rightarrow> bool" where
  "id_ok i \<longleftrightarrow> rust_string i \<and> i \<noteq> [] \<and> length i \<le> 255"

definition head_bytes :: "string \<Rightarrow> nat \<Rightarrow> bytes" where
  "head_bytes i n = u16_to_le (word_of_nat (length i)) @ as_bytes i @ u32_to_le (word_of_nat n)"

text \<open>How a document lies in the page store: in one page, or with a chain of overflow pages.\<close>

definition doc_stored :: "(page_num \<Rightarrow> bytes option) \<Rightarrow> page_num \<Rightarrow> page_num list \<Rightarrow> string \<Rightarrow> bytes \<Rightarrow> bool" where
  "doc_stored C p qs i data \<longleftrightarrow>
     (if 14 + length i + length data \<le> PAGE_SIZE
      then qs = [] \<and> C p = Some (head_bytes i (length data) @ data @ replicate (PAGE_SIZE - 6 - length i - length data) 0)
      else \<exists>n. C p = Some (head_bytes i (length data) @ take (PAGE_SIZE - 14 - length i) data @ u64_to_le n) \<and>
             chain C n qs (split_chunks (drop (PAGE_SIZE - 14 - length i) data)))"

definition pages_needed :: "bytes \<Rightarrow> nat" where
  "pages_needed data = length data div MAX_OVERFLOW_DATA + 2"

text \<open>The pages a reader sees: the transaction's own writes over the pager's pages.\<close>

definition tx_content :: "(page_num, bytes) hmap \<Rightarrow> pager \<Rightarrow> page_num \<Rightarrow> bytes option" where
  "tx_content tw s p = (case hm_get tw p of Some d \<Rightarrow> Some d | None \<Rightarrow> page_content s p)"

definition versioned_first :: "string \<Rightarrow> bytes \<Rightarrow> tx_id \<Rightarrow> tx_id \<Rightarrow> nat \<Rightarrow> page_num \<Rightarrow> bytes" where
  "versioned_first i data xmin xmax k n = u64_to_le xmin @ u64_to_le xmax @ head_bytes i (length data) @ take k data @
     u64_to_le n @ replicate (PAGE_SIZE - 30 - length i - k) 0"

definition first_capacity :: "string \<Rightarrow> bytes \<Rightarrow> nat" where
  "first_capacity i data = min (PAGE_SIZE - 30 - length i) (length data)"

text \<open>The pages after a pending page has been written, in the pager and in \<open>tx_writes\<close>.\<close>

definition both_content :: "tx_state \<Rightarrow> page_num \<Rightarrow> bytes option" where
  "both_content st p = (if hm_get (snd st) p = page_content (fst st) p then page_content (fst st) p else None)"

text \<open>What a successful versioned write leaves in the pager and in \<open>tx_writes\<close>.\<close>

definition versioned_stored :: "(page_num \<Rightarrow> bytes option) \<Rightarrow> page_num \<Rightarrow> page_num list \<Rightarrow> versioned_document \<Rightarrow> bool" where
  "versioned_stored C p qs d \<longleftrightarrow> distinct (p # qs) \<and> (\<exists>m.
     C p = Some (versioned_first (vd_id d) (vd_data d) (vd_xmin d) (vd_xmax d) (first_capacity (vd_id d) (vd_data d)) m) \<and>
     chain C m qs (split_chunks (drop (first_capacity (vd_id d) (vd_data d)) (vd_data d))))"


subsection \<open>Lemmas\<close>

subsection \<open>Chunks and chains\<close>

lemma MAX_OVERFLOW_pos [simp]: "0 < MAX_OVERFLOW_DATA" "MAX_OVERFLOW_DATA \<noteq> 0" by (simp_all add: const_defs)

lemma split_chunks_Nil [simp]: "split_chunks [] = []"
  by (simp add: split_chunks.simps)

lemma concat_split_chunks: "concat (split_chunks r) = r"
  by (induction r rule: split_chunks.induct) (simp add: split_chunks.simps)

lemma chunks_ok_split: "chunks_ok (split_chunks r)"
proof (induction r rule: split_chunks.induct)
  case (1 r)
  show ?case
  proof (cases "r = []")
    case False
    let ?r = "drop MAX_OVERFLOW_DATA r"
    have sp: "split_chunks r = take MAX_OVERFLOW_DATA r # split_chunks ?r" using False by (simp add: split_chunks.simps)
    show ?thesis
    proof (cases "?r = []")
      case True
      then show ?thesis using False by (simp add: sp)
    next
      case r: False
      then obtain c cs where cs: "split_chunks ?r = c # cs" by (simp add: split_chunks.simps)
      have "length (take MAX_OVERFLOW_DATA r) = MAX_OVERFLOW_DATA" using r by simp
      then show ?thesis using 1 [OF False] cs by (simp add: sp)
    qed
  qed simp
qed

lemma chunks_ok_bound: "chunks_ok cs \<Longrightarrow> list_all (\<lambda>c. length c \<le> MAX_OVERFLOW_DATA) cs"
  by (induction cs rule: chunks_ok.induct) auto

lemma length_split_chunks: "length r \<le> n * MAX_OVERFLOW_DATA \<Longrightarrow> length (split_chunks r) \<le> n"
proof (induction r arbitrary: n rule: split_chunks.induct)
  case (1 r)
  show ?case
  proof (cases "r = []")
    case False
    then obtain m where n: "n = Suc m" using 1(2) by (cases n) auto
    have "length (drop MAX_OVERFLOW_DATA r) \<le> m * MAX_OVERFLOW_DATA" using 1(2) n by simp
    then show ?thesis using 1(1) [OF False] n False by (simp add: split_chunks.simps [of r])
  qed simp
qed

lemma overflow_buf_eq:
  "length c \<le> MAX_OVERFLOW_DATA \<Longrightarrow>
   overflow_buf c n = Some (c @ replicate (MAX_OVERFLOW_DATA - length c) 0 @ u64_to_le n)"
  by (simp add: overflow_buf_def put_bytes_def const_defs)

lemma chain_cong: "(\<And>q. q \<in> set qs \<Longrightarrow> C' q = C q) \<Longrightarrow> chain C' p qs cs = chain C p qs cs"
  by (induction C p qs cs rule: chain.induct) auto

lemma chain_nonzero: "chain C p qs cs \<Longrightarrow> 0 \<notin> set qs"
  by (induction C p qs cs rule: chain.induct) auto

lemma chain_length: "chain C p qs cs \<Longrightarrow> length qs = length cs"
  by (induction C p qs cs rule: chain.induct) auto

lemma write_overflow_spec:
  assumes "store_ok s" "room (length cs + k) s" "list_all (\<lambda>c. length c \<le> MAX_OVERFLOW_DATA) cs"
    and "chain (page_content s) n qs ds" "set qs \<subseteq> in_use s" "distinct qs"
  shows "\<exists>p s' ps. write_overflow cs n s = (Ok p, s') \<and> store_ok s' \<and> room k s' \<and>
    chain (page_content s') p (ps @ qs) (rev cs @ ds) \<and> distinct (ps @ qs) \<and>
    set ps \<inter> in_use s = {} \<and> in_use s' = in_use s \<union> set ps \<and> pg_metadata_page s \<notin> set ps \<and>
    (\<forall>q. q \<notin> set ps \<longrightarrow> page_content s' q = page_content s q) \<and> pg_metadata_page s' = pg_metadata_page s"
  using assms
proof (induction cs arbitrary: n qs ds s)
  case Nil
  then show ?case by (intro exI [of _ n] exI [of _ s] exI [of _ "[]"]) simp
next
  case (Cons c cs)
  obtain p s1 where p: "alloc_page s = (Ok p, s1)" "store_ok s1" "room (length cs + k) s1" "p \<notin> in_use s"
    "in_use s1 = insert p (in_use s)" "p \<noteq> 0" "page_ok p" "page_content s1 = page_content s"
    "p \<noteq> pg_metadata_page s" "pg_metadata_page s1 = pg_metadata_page s"
    using alloc_step [OF Cons.prems(1), of "length cs + k"] Cons.prems(2) by auto
  let ?pad = "replicate (MAX_OVERFLOW_DATA - length c) 0"
  let ?buf = "c @ ?pad @ u64_to_le n"
  have c: "length c \<le> MAX_OVERFLOW_DATA" using Cons.prems(3) by simp
  have ob: "overflow_buf c n = Some ?buf" "length ?buf = PAGE_SIZE"
    using c overflow_buf_eq [OF c] by (simp_all add: const_defs)
  obtain s2 where s2: "write_page_transfer p ?buf s1 = (Ok (), s2)" "store_ok s2" "in_use s2 = in_use s1"
    "room (length cs + k) s2" "page_content s2 = (page_content s1)(p \<mapsto> ?buf)" "pg_metadata_page s2 = pg_metadata_page s1"
    using write_step [OF p(2,7) ob(2)] p(3) by auto
  have pq: "p \<notin> set qs" using p(4) Cons.prems(5) by auto
  have "chain (page_content s2) n qs ds"
    using Cons.prems(4) pq p(8) s2(5) by (subst chain_cong [of _ _ "page_content s"]) auto
  then have ch: "chain (page_content s2) p (p # qs) (c # ds)"
    using s2(5) p(6) c by auto
  have la: "list_all (\<lambda>c. length c \<le> MAX_OVERFLOW_DATA) cs" using Cons.prems(3) by simp
  have sub: "set (p # qs) \<subseteq> in_use s2" and di: "distinct (p # qs)" using Cons.prems(5,6) p(5) s2(3) pq by auto
  obtain p' s' ps where r: "write_overflow cs p s2 = (Ok p', s')" "store_ok s'" "room k s'"
    "chain (page_content s') p' (ps @ p # qs) (rev cs @ c # ds)" "distinct (ps @ p # qs)"
    "set ps \<inter> in_use s2 = {}" "in_use s' = in_use s2 \<union> set ps" "pg_metadata_page s2 \<notin> set ps"
    "\<forall>q. q \<notin> set ps \<longrightarrow> page_content s' q = page_content s2 q" "pg_metadata_page s' = pg_metadata_page s2"
    using Cons.IH [OF s2(2,4) la ch sub di] by blast
  have "write_overflow (c # cs) n s = (Ok p', s')" using p(1) ob(1) s2(1) r(1) by simp
  moreover have "\<forall>q. q \<notin> set (ps @ [p]) \<longrightarrow> page_content s' q = page_content s q"
    using r(9) s2(5) p(8) by auto
  moreover have "in_use s' = in_use s \<union> set (ps @ [p])" using r(7) s2(3) p(5) by auto
  ultimately show ?case using r p s2 by (intro exI [of _ p'] exI [of _ s'] exI [of _ "ps @ [p]"]) auto
qed

lemma read_chain_spec:
  assumes "store_ok s" "chain (page_content s) cur qs cs" "distinct qs" "set qs \<inter> visited = {}" "length qs \<le> left"
    and "chunks_ok cs" "data_len = length data + length (concat cs)"
  shows "\<exists>s'. read_chain left visited data_len cur data s = (Ok (data @ concat cs), s') \<and> store_ok s' \<and>
    in_use s' = in_use s \<and> page_content s' = page_content s \<and> pg_metadata_page s' = pg_metadata_page s"
  using assms
proof (induction qs arbitrary: s cur cs visited left data)
  case Nil
  then have "cs = []" "cur = 0" using chain_length [OF Nil.prems(2)] by auto
  then show ?case using Nil.prems(1) by simp
next
  case (Cons q qs)
  obtain c cs' where cs: "cs = c # cs'" using chain_length [OF Cons.prems(2)] by (cases cs) auto
  obtain n pad where q: "cur = q" "q \<noteq> 0" "page_content s q = Some (c @ pad @ u64_to_le n)"
    "length c + length pad = MAX_OVERFLOW_DATA" "chain (page_content s) n qs cs'"
    using Cons.prems(2) cs by auto
  obtain left' where left: "left = Suc left'" "length qs \<le> left'" using Cons.prems(5) by (cases left) auto
  let ?buf = "c @ pad @ u64_to_le n"
  have ne: "c \<noteq> []" using Cons.prems(6) cs by (cases cs') auto
  have sz: "min (data_len - length data) MAX_OVERFLOW_DATA = length c"
    using Cons.prems(6,7) cs by (cases cs') auto
  have g: "get_bytes 0 (length c) ?buf = Some c" by (simp add: get_bytes_append_left)
  have nx: "read_u64 (PAGE_SIZE - 8) ?buf = Ok n"
    using read_u64_at [of "c @ pad" "PAGE_SIZE - 8" n "[]"] q(4) by (simp add: const_defs)
  obtain s1 where s1: "read_page q s = (Ok ?buf, s1)" "store_ok s1" "in_use s1 = in_use s"
    "page_content s1 = page_content s" "pg_metadata_page s1 = pg_metadata_page s"
    using read_step [OF Cons.prems(1) q(3)] by blast
  have ok': "chunks_ok cs'" using Cons.prems(6) cs by (cases cs') auto
  obtain s2 where s2: "read_chain left' (insert q visited) data_len n (data @ c) s1 = (Ok ((data @ c) @ concat cs'), s2)"
    "store_ok s2" "in_use s2 = in_use s1" "page_content s2 = page_content s1" "pg_metadata_page s2 = pg_metadata_page s1"
    using Cons.IH [OF s1(2), of n cs' "insert q visited" left' "data @ c"] q(5) s1(4) Cons.prems(3,4,7) left(2) ok' cs by auto
  have "length data < data_len" using Cons.prems(7) cs ne by simp
  then have "read_chain left visited data_len cur data s = (Ok ((data @ c) @ concat cs'), s2)"
    using q(1,2) Cons.prems(4) left(1) s1(1) g nx s2(1) sz by (subst read_chain.simps) (simp del: read_chain.simps)
  then show ?case using s1 s2 cs by simp
qed

lemma length_head_bytes [simp]: "length (head_bytes i n) = length i + 6"
  by (simp add: head_bytes_def)

lemma head_fields:
  assumes "id_ok i" "n \<le> MAX_DOCUMENT_SIZE"
  shows "read_u16 0 (head_bytes i n @ r) = Ok (word_of_nat (length i))" "unat (word_of_nat (length i) :: u16) = length i"
    "get_bytes 2 (length i) (head_bytes i n @ r) = Some (as_bytes i)"
    "read_u32 (2 + length i) (head_bytes i n @ r) = Ok (word_of_nat n)" "unat (word_of_nat n :: u32) = n"
    "from_utf8 (as_bytes i) = Some i"
proof -
  show "read_u16 0 (head_bytes i n @ r) = Ok (word_of_nat (length i))"
    using read_u16_at [of "[]" 0] by (simp add: head_bytes_def)
  show "get_bytes 2 (length i) (head_bytes i n @ r) = Some (as_bytes i)"
    by (simp add: head_bytes_def get_bytes_append_right get_bytes_append_left)
  show "read_u32 (2 + length i) (head_bytes i n @ r) = Ok (word_of_nat n)"
    using read_u32_at [of "u16_to_le (word_of_nat (length i)) @ as_bytes i" "2 + length i"] by (simp add: head_bytes_def)
  show "unat (word_of_nat (length i) :: u16) = length i" "unat (word_of_nat n :: u32) = n" "from_utf8 (as_bytes i) = Some i"
    using assms by (simp_all add: id_ok_def unat_of_nat const_defs from_utf8_as_bytes)
qed

lemma read_document_single:
  assumes ok: "store_ok s" and i: "id_ok i" and len: "14 + length i + length data \<le> PAGE_SIZE"
    and p: "page_content s p = Some (head_bytes i (length data) @ data @ replicate (PAGE_SIZE - 6 - length i - length data) 0)"
  shows "\<exists>s'. read_document p s = (Ok \<lparr>d_id = i, d_data = data\<rparr>, s') \<and> store_ok s' \<and> page_content s' = page_content s"
proof -
  let ?buf = "head_bytes i (length data) @ data @ replicate (PAGE_SIZE - 6 - length i - length data) 0"
  have n: "length data \<le> MAX_DOCUMENT_SIZE" using len by (simp add: const_defs)
  have lb: "length ?buf = PAGE_SIZE" using len by simp
  obtain s1 where s1: "read_page p s = (Ok ?buf, s1)" "store_ok s1" "page_content s1 = page_content s"
    using read_step [OF ok p] by blast
  have z: "read_u64 (PAGE_SIZE - 8) ?buf = Ok 0"
    using read_u64_zeros [of "head_bytes i (length data) @ data" "PAGE_SIZE - 6 - length i - length data"] len by simp
  have g: "get_bytes (6 + length i) (length data) ?buf = Some data"
    by (simp add: get_bytes_append_right get_bytes_append_left)
  have "i \<noteq> []" "length i \<le> 255" using i by (auto simp: id_ok_def)
  then have "read_document p s = (Ok \<lparr>d_id = i, d_data = data\<rparr>, s1)"
    using s1(1) lb z g n len head_fields(1,3,4) [OF i n, where r = "data @ replicate (PAGE_SIZE - 6 - length i - length data) 0"] head_fields(2,5,6) [OF i n]
    by (simp add: read_document_def Let_def add.commute)
  then show ?thesis using s1 by simp
qed

lemma read_document_multi:
  assumes ok: "store_ok s" and i: "id_ok i" and len: "length data \<le> MAX_DOCUMENT_SIZE"
    and k: "k = PAGE_SIZE - 14 - length i" "k < length data"
    and p: "page_content s p = Some (head_bytes i (length data) @ take k data @ u64_to_le n)"
    and ch: "chain (page_content s) n qs (split_chunks (drop k data))" "distinct qs" "length qs \<le> MAX_OVERFLOW_CHAIN_LENGTH"
  shows "\<exists>s'. read_document p s = (Ok \<lparr>d_id = i, d_data = data\<rparr>, s') \<and> store_ok s' \<and> page_content s' = page_content s"
proof -
  let ?buf = "head_bytes i (length data) @ take k data @ u64_to_le n"
  have il: "1 \<le> length i" "length i \<le> 255" using i by (auto simp: id_ok_def Suc_le_eq)
  have lb: "length ?buf = PAGE_SIZE" using k il by (simp add: const_defs)
  obtain s1 where s1: "read_page p s = (Ok ?buf, s1)" "store_ok s1" "page_content s1 = page_content s"
    using read_step [OF ok p] by blast
  have z: "read_u64 (PAGE_SIZE - 8) ?buf = Ok n"
    using read_u64_at [of "head_bytes i (length data) @ take k data" "PAGE_SIZE - 8" n "[]"] k il by (simp add: const_defs)
  have g: "get_bytes (6 + length i) k ?buf = Some (take k data)"
    using k by (simp add: get_bytes_append_right get_bytes_append_left)
  have n0: "n \<noteq> 0" using ch(1) k(2) chain_nonzero [OF ch(1)] by (cases qs; cases "split_chunks (drop k data)") (auto simp: split_chunks.simps [of "drop k data"])
  have cc: "take k data @ concat (split_chunks (drop k data)) = data" by (simp add: concat_split_chunks)
  have dl: "length data = length (take k data) + length (concat (split_chunks (drop k data)))"
    by (simp add: concat_split_chunks)
  obtain s2 where s2: "read_chain MAX_OVERFLOW_CHAIN_LENGTH {} (length data) n (take k data) s1 = (Ok data, s2)"
      "store_ok s2" "page_content s2 = page_content s1"
    using read_chain_spec [OF s1(2) _ ch(2) _ ch(3) chunks_ok_split dl, of n "{}"] ch(1) s1(3) cc by auto
  have fc: "PAGE_SIZE - DOC_ID_LEN_SIZE - length i - DATA_LEN_SIZE - OVERFLOW_SIZE = k" using k by (simp add: const_defs)
  have "2 + length i \<le> PAGE_SIZE" "2 + length i + 4 \<le> PAGE_SIZE" "i \<noteq> []" using il by (auto simp: const_defs)
  then have "read_document p s = (Ok \<lparr>d_id = i, d_data = data\<rparr>, s2)"
    using s1(1) lb z g n0 fc il len k(2) s2(1) head_fields(1,3,4) [OF i len, where r = "take k data @ u64_to_le n"] head_fields(2,5,6) [OF i len]
    by (simp add: read_document_def Let_def add.commute del: read_chain.simps)
  then show ?thesis using s1 s2 by simp
qed

lemma split_chunks_needed: "Suc (length (split_chunks (drop k data))) \<le> pages_needed data"
proof -
  have "length (drop k data) \<le> (length data div MAX_OVERFLOW_DATA + 1) * MAX_OVERFLOW_DATA"
    using dividend_less_times_div [of MAX_OVERFLOW_DATA "length data"] by (simp add: algebra_simps)
  then show ?thesis using length_split_chunks by (simp add: pages_needed_def)
qed

lemma emit_list:
  "off + length xs \<le> length buf \<Longrightarrow> Option.bind (emit xs (off, buf)) f =
   f (off + length xs, take off buf @ xs @ drop (off + length xs) buf)"
  by (simp add: emit_in_range)

lemma emit_append: "emit (xs @ ys) = (\<lambda>st. Option.bind (emit xs st) (emit ys))"
  by (rule ext) (simp add: emit_emit)

lemma single_page_buf:
  assumes "14 + length i + length data \<le> PAGE_SIZE"
  shows "Option.bind (emit (u16_to_le (word_of_nat (length (as_bytes i)))) (0, replicate PAGE_SIZE 0)) (\<lambda>st.
      Option.bind (emit (as_bytes i) st) (\<lambda>st.
      Option.bind (emit (u32_to_le (word_of_nat (length data))) st) (\<lambda>st.
      Option.bind (emit data st) (emit (u64_to_le 0))))) =
    Some (14 + length i + length data,
      head_bytes i (length data) @ data @ replicate (PAGE_SIZE - 6 - length i - length data) 0)"
proof -
  let ?all = "head_bytes i (length data) @ data @ u64_to_le 0"
  have "Option.bind (emit (u16_to_le (word_of_nat (length (as_bytes i)))) (0, replicate PAGE_SIZE 0)) (\<lambda>st.
      Option.bind (emit (as_bytes i) st) (\<lambda>st.
      Option.bind (emit (u32_to_le (word_of_nat (length data))) st) (\<lambda>st.
      Option.bind (emit data st) (emit (u64_to_le 0))))) = emit ?all (0, replicate PAGE_SIZE 0)"
    by (simp add: head_bytes_def emit_append)
  also have "\<dots> = Some (length ?all, ?all @ replicate (PAGE_SIZE - length ?all) 0)"
    using assms by (subst emit_in_range) simp_all
  also have "?all @ replicate (PAGE_SIZE - length ?all) 0 =
      head_bytes i (length data) @ data @ replicate (PAGE_SIZE - 6 - length i - length data) 0"
  proof -
    have "PAGE_SIZE - 6 - length i - length data = 8 + (PAGE_SIZE - length ?all)" using assms by simp
    then show ?thesis by (simp only: replicate_add u64_to_le_zero append_assoc)
  qed
  finally show ?thesis by (simp add: add_ac)
qed

lemma multi_page_buf:
  assumes "length i \<le> 255" "k = PAGE_SIZE - 14 - length i" "k \<le> length data"
  shows "Option.bind (emit (u16_to_le (word_of_nat (length (as_bytes i)))) (0, replicate PAGE_SIZE 0)) (\<lambda>st.
      Option.bind (emit (as_bytes i) st) (\<lambda>st.
      Option.bind (emit (u32_to_le (word_of_nat (length data))) st) (\<lambda>st.
      Option.bind (emit (take k data) st) (\<lambda>(_, buf). put_bytes (PAGE_SIZE - 8) (u64_to_le n) buf)))) =
    Some (head_bytes i (length data) @ take k data @ u64_to_le n)"
proof -
  let ?all = "head_bytes i (length data) @ take k data"
  have len: "length ?all = PAGE_SIZE - 8" using assms by (simp add: const_defs)
  have "Option.bind (emit (u16_to_le (word_of_nat (length (as_bytes i)))) (0, replicate PAGE_SIZE 0)) (\<lambda>st.
      Option.bind (emit (as_bytes i) st) (\<lambda>st.
      Option.bind (emit (u32_to_le (word_of_nat (length data))) st) (\<lambda>st.
      Option.bind (emit (take k data) st) (\<lambda>(_, buf). put_bytes (PAGE_SIZE - 8) (u64_to_le n) buf)))) =
    Option.bind (emit ?all (0, replicate PAGE_SIZE 0)) (\<lambda>(_, buf). put_bytes (PAGE_SIZE - 8) (u64_to_le n) buf)"
    by (simp add: head_bytes_def emit_emit [symmetric])
  moreover have "emit ?all (0, replicate PAGE_SIZE 0) = Some (PAGE_SIZE - 8, ?all @ replicate 8 0)"
    using len by (subst emit_in_range) (simp_all add: const_defs)
  moreover have "put_bytes (PAGE_SIZE - 8) (u64_to_le n) (?all @ replicate 8 0) = Some (?all @ u64_to_le n)"
    using len by (intro put_bytes_end) simp_all
  ultimately show ?thesis by simp
qed

lemma write_document_spec:
  assumes ok: "store_ok s" and room: "room (pages_needed data) s" and i: "id_ok i"
  shows "\<exists>p qs s'. write_document i data s = (Ok p, s') \<and> store_ok s' \<and> doc_stored (page_content s') p qs i data \<and>
    distinct (p # qs) \<and> set (p # qs) \<inter> in_use s = {} \<and> in_use s' = in_use s \<union> set (p # qs) \<and>
    pg_metadata_page s' \<notin> set (p # qs) \<and> pg_metadata_page s' = pg_metadata_page s \<and>
    (\<forall>q. q \<notin> set (p # qs) \<longrightarrow> page_content s' q = page_content s q) \<and> length qs \<le> pages_needed data"
proof (cases "14 + length i + length data \<le> PAGE_SIZE")
  case True
  have r1: "room (Suc 0) s" using room by (rule room_mono) (simp add: pages_needed_def)
  obtain p s1 where p: "alloc_page s = (Ok p, s1)" "store_ok s1" "p \<notin> in_use s" "in_use s1 = insert p (in_use s)"
    "page_ok p" "page_content s1 = page_content s" "p \<noteq> pg_metadata_page s" "pg_metadata_page s1 = pg_metadata_page s"
    using alloc_step [OF ok r1] by blast
  let ?buf = "head_bytes i (length data) @ data @ replicate (PAGE_SIZE - 6 - length i - length data) 0"
  obtain s2 where s2: "write_page_transfer p ?buf s1 = (Ok (), s2)" "store_ok s2" "in_use s2 = in_use s1"
    "page_content s2 = (page_content s1)(p \<mapsto> ?buf)" "pg_metadata_page s2 = pg_metadata_page s1"
    using write_step [OF p(2,5), of ?buf] True by auto
  have "write_document i data s = (Ok p, s2)"
    using True p(1) s2(1) single_page_buf [OF True]
    by (simp add: write_document_def write_single_page_def const_defs)
  then show ?thesis using p s2 True
    by (intro exI [of _ p] exI [of _ "[]"] exI [of _ s2]) (auto simp: doc_stored_def)
next
  case False
  define k where "k = PAGE_SIZE - 14 - length i"
  have il: "length i \<le> 255" using i by (simp add: id_ok_def)
  have k: "k < length data" using False il unfolding k_def const_defs by linarith
  let ?cs = "split_chunks (drop k data)"
  have r1: "room (Suc (length ?cs)) s" using room by (rule room_mono) (rule split_chunks_needed)
  obtain p s1 where p: "alloc_page s = (Ok p, s1)" "store_ok s1" "room (length ?cs) s1" "p \<notin> in_use s"
    "in_use s1 = insert p (in_use s)" "page_ok p" "page_content s1 = page_content s" "p \<noteq> pg_metadata_page s"
    "pg_metadata_page s1 = pg_metadata_page s"
    using alloc_step [OF ok r1] by blast
  have la: "list_all (\<lambda>c. length c \<le> MAX_OVERFLOW_DATA) (rev ?cs)"
    using chunks_ok_bound [OF chunks_ok_split] by (simp add: list_all_iff)
  obtain n s2 qs where w: "write_overflow (rev ?cs) 0 s1 = (Ok n, s2)" "store_ok s2"
    "chain (page_content s2) n qs ?cs" "distinct qs" "set qs \<inter> in_use s1 = {}" "in_use s2 = in_use s1 \<union> set qs"
    "pg_metadata_page s1 \<notin> set qs" "\<forall>q. q \<notin> set qs \<longrightarrow> page_content s2 q = page_content s1 q"
    "pg_metadata_page s2 = pg_metadata_page s1"
    using write_overflow_spec [OF p(2) _ la, of 0 0 "[]" "[]"] p(3) by auto
  let ?buf = "head_bytes i (length data) @ take k data @ u64_to_le n"
  have lb: "length ?buf = PAGE_SIZE" using k il by (simp add: k_def const_defs)
  obtain s3 where s3: "write_page_transfer p ?buf s2 = (Ok (), s3)" "store_ok s3" "in_use s3 = in_use s2"
    "page_content s3 = (page_content s2)(p \<mapsto> ?buf)" "pg_metadata_page s3 = pg_metadata_page s2"
    using write_step [OF w(2) p(6) lb] by auto
  have fc: "usize_sub (usize_sub (usize_sub (usize_sub PAGE_SIZE DOC_ID_LEN_SIZE) (length (as_bytes i))) DATA_LEN_SIZE) OVERFLOW_SIZE = k"
    using il unfolding usize_sub_def k_def const_defs by simp linarith
  have mp: "write_multi_page i data s = (Ok p, s3)"
    using p(1) w(1) s3(1) fc k multi_page_buf [OF il k_def, of data n]
    by (simp add: write_multi_page_def Let_def min_absorb1)
  have "write_document i data s = (Ok p, s3)"
    using False mp by (simp add: write_document_def const_defs)
  moreover have pq: "p \<notin> set qs" using w(5) p(5) by auto
  moreover have "chain (page_content s3) n qs ?cs"
    using w(3) s3(4) pq by (subst chain_cong [of _ _ "page_content s2"]) auto
  moreover have "length qs \<le> pages_needed data"
    using chain_length [OF w(3)] split_chunks_needed [of k data] by simp
  ultimately show ?thesis using p w s3 False k_def
    by (intro exI [of _ p] exI [of _ qs] exI [of _ s3]) (auto simp: doc_stored_def)
qed

lemma read_stored:
  assumes ok: "store_ok s" and i: "id_ok i" and st: "doc_stored (page_content s) p qs i data" "distinct qs"
    and len: "length data \<le> MAX_DOCUMENT_SIZE" "length qs \<le> MAX_OVERFLOW_CHAIN_LENGTH"
  shows "\<exists>s'. read_document p s = (Ok \<lparr>d_id = i, d_data = data\<rparr>, s') \<and> store_ok s' \<and> page_content s' = page_content s"
proof (cases "14 + length i + length data \<le> PAGE_SIZE")
  case True
  then show ?thesis using read_document_single [OF ok i True] st by (auto simp: doc_stored_def)
next
  case False
  then have "PAGE_SIZE - 14 - length i < length data" using i unfolding id_ok_def const_defs by linarith
  then show ?thesis using read_document_multi [OF ok i len(1) refl] False st len(2) by (auto simp: doc_stored_def)
qed

lemma delete_chain_spec:
  assumes "store_ok s" "chain (page_content s) cur qs cs" "distinct qs" "set qs \<inter> visited = {}" "length qs \<le> left"
    and "set qs \<subseteq> in_use s" "pg_metadata_page s \<notin> set qs"
  shows "\<exists>s'. delete_chain left visited cur s = (Ok (), s') \<and> store_ok s' \<and> in_use s' = in_use s - set qs \<and>
    (\<forall>q. q \<notin> set qs \<longrightarrow> page_content s' q = page_content s q) \<and> pg_metadata_page s' = pg_metadata_page s"
  using assms
proof (induction qs arbitrary: s cur cs visited left)
  case Nil
  then have "cs = []" "cur = 0" using chain_length [OF Nil.prems(2)] by auto
  then show ?case using Nil.prems(1) by simp
next
  case (Cons q qs)
  obtain c cs' where cs: "cs = c # cs'" using chain_length [OF Cons.prems(2)] by (cases cs) auto
  obtain n pad where q: "cur = q" "q \<noteq> 0" "page_content s q = Some (c @ pad @ u64_to_le n)"
    "length c + length pad = MAX_OVERFLOW_DATA" "chain (page_content s) n qs cs'"
    using Cons.prems(2) cs by auto
  obtain left' where left: "left = Suc left'" "length qs \<le> left'" using Cons.prems(5) by (cases left) auto
  let ?buf = "c @ pad @ u64_to_le n"
  have nx: "read_u64 (PAGE_SIZE - 8) ?buf = Ok n"
    using read_u64_at [of "c @ pad" "PAGE_SIZE - 8" n "[]"] q(4) by (simp add: const_defs)
  obtain s1 where s1: "read_page q s = (Ok ?buf, s1)" "store_ok s1" "in_use s1 = in_use s"
    "page_content s1 = page_content s" "pg_metadata_page s1 = pg_metadata_page s"
    using read_step [OF Cons.prems(1) q(3)] by blast
  have qi: "q \<in> in_use s1" "q \<noteq> pg_metadata_page s1" using Cons.prems(6,7) s1 by auto
  obtain s2 where s2: "free_page q s1 = (Ok (), s2)" "store_ok s2" "in_use s2 = in_use s1 - {q}"
    "\<forall>r. r \<noteq> q \<longrightarrow> page_content s2 r = page_content s1 r" "pg_metadata_page s2 = pg_metadata_page s1"
    using free_step [OF s1(2) qi] by blast
  have qq: "q \<notin> set qs" using Cons.prems(3) by simp
  have ch: "chain (page_content s2) n qs cs'"
    using q(5) s2(4) s1(4) qq by (subst chain_cong [of _ _ "page_content s"]) auto
  have pre: "distinct qs" "set qs \<inter> insert q visited = {}" "set qs \<subseteq> in_use s2" "pg_metadata_page s2 \<notin> set qs"
    using Cons.prems(3,4,6,7) s2(3,5) s1(3,5) qq by auto
  obtain s3 where s3: "delete_chain left' (insert q visited) n s2 = (Ok (), s3)" "store_ok s3"
    "in_use s3 = in_use s2 - set qs" "\<forall>r. r \<notin> set qs \<longrightarrow> page_content s3 r = page_content s2 r"
    "pg_metadata_page s3 = pg_metadata_page s2"
    using Cons.IH [OF s2(2) ch pre(1,2) left(2) pre(3,4)] by blast
  have "delete_chain left visited cur s = (Ok (), s3)"
    using q(1,2) left(1) s1(1) nx s2(1) s3(1) Cons.prems(4) by (subst delete_chain.simps) (simp del: delete_chain.simps)
  then show ?case using s3 s2 s1 by (intro exI [of _ s3]) auto
qed

lemma stored_next:
  assumes "doc_stored C p qs i data" "id_ok i"
  shows "\<exists>buf n cs. C p = Some buf \<and> read_u64 (PAGE_SIZE - 8) buf = Ok n \<and> chain C n qs cs"
proof (cases "14 + length i + length data \<le> PAGE_SIZE")
  case True
  let ?r = "PAGE_SIZE - 6 - length i - length data"
  have "read_u64 (PAGE_SIZE - 8) ((head_bytes i (length data) @ data) @ replicate ?r 0) = Ok 0"
    using True by (intro read_u64_zeros) simp_all
  then show ?thesis using assms True by (auto simp: doc_stored_def intro: exI [of _ "[]"])
next
  case False
  let ?k = "PAGE_SIZE - 14 - length i"
  have "length i \<le> 255" using assms(2) by (simp add: id_ok_def)
  then have "length (head_bytes i (length data) @ take ?k data) = PAGE_SIZE - 8"
    using False by (simp add: const_defs)
  then have "read_u64 (PAGE_SIZE - 8) ((head_bytes i (length data) @ take ?k data) @ u64_to_le n @ []) = Ok n" for n
    by (intro read_u64_at) simp_all
  then show ?thesis using assms False by (auto simp: doc_stored_def)
qed

lemma delete_pages:
  assumes ok: "store_ok s" and b: "page_content s p = Some buf" "read_u64 (PAGE_SIZE - 8) buf = Ok n" "chain (page_content s) n qs cs"
    and d: "distinct (p # qs)" and len: "length qs \<le> MAX_OVERFLOW_CHAIN_LENGTH"
    and use: "set (p # qs) \<subseteq> in_use s" "pg_metadata_page s \<notin> set (p # qs)"
  shows "\<exists>s'. delete_document p s = (Ok (), s') \<and> store_ok s' \<and> in_use s' = in_use s - set (p # qs) \<and>
    (\<forall>q. q \<notin> set (p # qs) \<longrightarrow> page_content s' q = page_content s q)"
proof -
  obtain s1 where s1: "read_page p s = (Ok buf, s1)" "store_ok s1" "in_use s1 = in_use s"
    "page_content s1 = page_content s" "pg_metadata_page s1 = pg_metadata_page s"
    using read_step [OF ok b(1)] by blast
  have "chain (page_content s1) n qs cs" "distinct qs" "set qs \<inter> {} = {}" "set qs \<subseteq> in_use s1" "pg_metadata_page s1 \<notin> set qs"
    using b(3) s1 d use by simp_all
  from delete_chain_spec [OF s1(2) this(1-3) len this(4,5)] obtain s2 where
    s2: "delete_chain MAX_OVERFLOW_CHAIN_LENGTH {} n s1 = (Ok (), s2)" "store_ok s2" "in_use s2 = in_use s1 - set qs"
    "\<forall>q. q \<notin> set qs \<longrightarrow> page_content s2 q = page_content s1 q" "pg_metadata_page s2 = pg_metadata_page s1"
    by blast
  have pi: "p \<in> in_use s2" "p \<noteq> pg_metadata_page s2" using use d s1 s2 by auto
  obtain s3 where s3: "free_page p s2 = (Ok (), s3)" "store_ok s3" "in_use s3 = in_use s2 - {p}"
    "\<forall>r. r \<noteq> p \<longrightarrow> page_content s3 r = page_content s2 r"
    using free_step [OF s2(2) pi] by blast
  have "delete_document p s = (Ok (), s3)"
    using s1(1) b(2) s2(1) s3(1) by (simp add: delete_document_def del: delete_chain.simps)
  then show ?thesis using s1 s2 s3 by (intro exI [of _ s3]) auto
qed

lemma delete_stored:
  assumes ok: "store_ok s" and i: "id_ok i" and st: "doc_stored (page_content s) p qs i data" "distinct (p # qs)"
    and len: "length qs \<le> MAX_OVERFLOW_CHAIN_LENGTH"
    and use: "set (p # qs) \<subseteq> in_use s" "pg_metadata_page s \<notin> set (p # qs)"
  shows "\<exists>s'. delete_document p s = (Ok (), s') \<and> store_ok s' \<and> in_use s' = in_use s - set (p # qs) \<and>
    (\<forall>q. q \<notin> set (p # qs) \<longrightarrow> page_content s' q = page_content s q)"
  using stored_next [OF st(1) i] delete_pages [OF ok _ _ _ st(2) len use] by blast

lemma chain_fits: "length data \<le> 249998 * MAX_OVERFLOW_DATA \<Longrightarrow> pages_needed data \<le> MAX_OVERFLOW_CHAIN_LENGTH"
proof -
  assume "length data \<le> 249998 * MAX_OVERFLOW_DATA"
  then have "length data div MAX_OVERFLOW_DATA \<le> (249998 * MAX_OVERFLOW_DATA) div MAX_OVERFLOW_DATA" by (rule div_le_mono)
  then show ?thesis by (simp add: pages_needed_def MAX_OVERFLOW_CHAIN_LENGTH_def)
qed

text \<open>
  a document written by \<open>write_document\<close>, in one page or over a chain of overflow pages,
  is returned by \<open>read_document\<close> with the same id and data, and writing it changed no page that
  was in use before.
\<close>

theorem document_roundtrip:
  assumes "store_ok s" "room (pages_needed data) s" "id_ok i" "length data \<le> 249998 * MAX_OVERFLOW_DATA"
  shows "\<exists>p s' s''. write_document i data s = (Ok p, s') \<and> store_ok s' \<and>
    read_document p s' = (Ok \<lparr>d_id = i, d_data = data\<rparr>, s'') \<and>
    (\<forall>q \<in> in_use s. q \<in> in_use s' \<and> page_content s' q = page_content s q)"
proof -
  obtain p qs s' where w: "write_document i data s = (Ok p, s')" "store_ok s'" "doc_stored (page_content s') p qs i data"
    "distinct (p # qs)" "set (p # qs) \<inter> in_use s = {}" "in_use s' = in_use s \<union> set (p # qs)"
    "\<forall>q. q \<notin> set (p # qs) \<longrightarrow> page_content s' q = page_content s q" "length qs \<le> pages_needed data"
    using write_document_spec [OF assms(1-3)] by blast
  have l: "length data \<le> MAX_DOCUMENT_SIZE" using assms(4) by (simp add: const_defs)
  have "length qs \<le> MAX_OVERFLOW_CHAIN_LENGTH" using w(8) chain_fits [OF assms(4)] by simp
  from read_stored [OF w(2) assms(3) w(3) _ l this] w(4) obtain s'' where
    "read_document p s' = (Ok \<lparr>d_id = i, d_data = data\<rparr>, s'')" by auto
  then show ?thesis using w by blast
qed

theorem document_roundtrip_witness:
  "\<exists>s p s' s''. pager_open None 10 False = Ok s \<and> write_document ''k1'' (replicate 9000 7) s = (Ok p, s') \<and>
    read_document p s' = (Ok \<lparr>d_id = ''k1'', d_data = replicate 9000 7\<rparr>, s'')"
proof -
  obtain s where s: "pager_open None 10 False = Ok s" "store_ok s" "room 1000000 s" using new_store [of 10] by auto
  have "room (pages_needed (replicate 9000 7)) s" using s(3) by (rule room_mono) (simp add: pages_needed_def const_defs)
  moreover have "id_ok ''k1''" by (simp add: id_ok_def rust_string_def as_bytes_def)
  ultimately show ?thesis using s document_roundtrip [OF s(2), of "replicate 9000 7" "''k1''"] by (auto simp: const_defs)
qed

text \<open>
  \<open>delete_document\<close> on a freshly written document frees its first page and every overflow
  page: the pages in use are those before the write, and their contents are unchanged.
\<close>

theorem delete_document_frees:
  assumes "store_ok s" "room (pages_needed data) s" "id_ok i" "length data \<le> 249998 * MAX_OVERFLOW_DATA"
  shows "\<exists>p s' s''. write_document i data s = (Ok p, s') \<and> delete_document p s' = (Ok (), s'') \<and>
    in_use s'' = in_use s \<and> (\<forall>q \<in> in_use s. page_content s'' q = page_content s q)"
proof -
  obtain p qs s' where w: "write_document i data s = (Ok p, s')" "store_ok s'" "doc_stored (page_content s') p qs i data"
    "distinct (p # qs)" "set (p # qs) \<inter> in_use s = {}" "in_use s' = in_use s \<union> set (p # qs)"
    "pg_metadata_page s' \<notin> set (p # qs)"
    "\<forall>q. q \<notin> set (p # qs) \<longrightarrow> page_content s' q = page_content s q" "length qs \<le> pages_needed data"
    using write_document_spec [OF assms(1-3)] by blast
  have "length qs \<le> MAX_OVERFLOW_CHAIN_LENGTH" using w(9) chain_fits [OF assms(4)] by simp
  moreover have "set (p # qs) \<subseteq> in_use s'" using w(6) by blast
  ultimately obtain s'' where d: "delete_document p s' = (Ok (), s'')" "in_use s'' = in_use s' - set (p # qs)"
    "\<forall>q. q \<notin> set (p # qs) \<longrightarrow> page_content s'' q = page_content s' q"
    using delete_stored [OF w(2) assms(3) w(3,4) _ _ w(7)] by blast
  have "in_use s'' = in_use s" using d(2) w(5,6) by blast
  moreover have "\<forall>q \<in> in_use s. page_content s'' q = page_content s q" using d(3) w(5,8) by (metis disjoint_iff)
  ultimately show ?thesis using w(1) d(1) by blast
qed

theorem delete_document_frees_witness:
  "\<exists>s p s' s''. pager_open None 10 False = Ok s \<and> write_document ''k1'' (replicate 9000 7) s = (Ok p, s') \<and>
    delete_document p s' = (Ok (), s'') \<and> in_use s'' = in_use s"
proof -
  obtain s where s: "pager_open None 10 False = Ok s" "store_ok s" "room 1000000 s" using new_store [of 10] by auto
  have "room (pages_needed (replicate 9000 7)) s" using s(3) by (rule room_mono) (simp add: pages_needed_def const_defs)
  moreover have "id_ok ''k1''" by (simp add: id_ok_def rust_string_def as_bytes_def)
  ultimately show ?thesis using s delete_document_frees [OF s(2), of "replicate 9000 7" "''k1''"] by (auto simp: const_defs)
qed

lemma safe_read_chain:
  assumes "pages_whole s" "length data \<le> data_len"
  shows "safe (\<lambda>d s. pages_whole s) (read_chain left visited data_len cur data s)"
  using assms
proof (induction left arbitrary: visited cur data s)
  case 0
  then show ?case by simp
next
  case (Suc left)
  have "safe (\<lambda>d s. pages_whole s) (and_then (read_page cur s) (\<lambda>overflow_data s.
          and_then (no_panic (get_bytes 0 (min (data_len - length data) MAX_OVERFLOW_DATA) overflow_data), s) (\<lambda>chunk s.
          and_then (read_u64 (PAGE_SIZE - 8) overflow_data, s) (\<lambda>next s.
          read_chain left (insert cur visited) data_len next (data @ chunk) s))))"
  proof (rule safe_and_then [OF safe_read_page [OF Suc.prems(1)]])
    fix d :: bytes and t assume d: "length d = PAGE_SIZE \<and> pages_whole t"
    obtain c where c: "get_bytes 0 (min (data_len - length data) MAX_OVERFLOW_DATA) d = Some c"
      "length c = min (data_len - length data) MAX_OVERFLOW_DATA"
      using safe_fields(4) [of 0 "min (data_len - length data) MAX_OVERFLOW_DATA" d] d by (force simp: const_defs)
    obtain n where n: "read_u64 (PAGE_SIZE - 8) d = Ok n" using safe_fields(3) [of "PAGE_SIZE - 8" d] d by (auto simp: const_defs)
    have "length (data @ c) \<le> data_len" using c(2) Suc.prems(2) by simp
    then show "safe (\<lambda>d s. pages_whole s) (and_then (no_panic (get_bytes 0 (min (data_len - length data) MAX_OVERFLOW_DATA) d), t) (\<lambda>chunk s.
          and_then (read_u64 (PAGE_SIZE - 8) d, s) (\<lambda>next s.
          read_chain left (insert cur visited) data_len next (data @ chunk) s)))"
      using Suc.IH [of t "data @ c"] c(1) n d by (simp del: read_chain.simps)
  qed
  then show ?case using Suc.prems(1) by (subst read_chain.simps) (simp add: Let_def del: read_chain.simps)
qed

text \<open>
  \<open>read_document\<close> on any page of any file returns a document or an error: no content of
  the pages, and no page number in them, makes it panic.
\<close>

theorem read_document_never_panics:
  assumes "pages_whole s"
  shows "fst (read_document p s) \<noteq> Panic"
proof -
  have "safe (\<lambda>d s. True) (read_document p s)"
    unfolding read_document_def
  proof (rule safe_and_then [OF safe_read_page [OF assms]], goal_cases)
    case (1 d t)
    obtain il where il: "read_u16 0 d = Ok il" using safe_fields(1) [of 0 d] 1 by (auto simp: const_defs)
    show ?case
    proof (cases "unat il = 0 \<or> unat il > 255")
      case True
      then show ?thesis using il by auto
    next
      case False
      then have b: "2 + unat il \<le> length d" "2 + unat il + 4 \<le> length d" using 1 by (auto simp: const_defs)
      obtain i where i: "get_bytes 2 (unat il) d = Some i" using safe_fields(4) [OF b(1)] by blast
      obtain n where n: "read_u32 (2 + unat il) d = Ok n" using safe_fields(2) [OF b(2)] by blast
      obtain ov where ov: "read_u64 (PAGE_SIZE - 8) d = Ok ov" using safe_fields(3) [of "PAGE_SIZE - 8" d] 1 by (auto simp: const_defs)
      let ?k = "min (PAGE_SIZE - DOC_ID_LEN_SIZE - unat il - DATA_LEN_SIZE - OVERFLOW_SIZE) (unat n)"
      have "2 + unat il + 4 + ?k \<le> length d" using 1 False by (auto simp: const_defs)
      then obtain f where f: "get_bytes (2 + unat il + 4) ?k d = Some f" "length f = ?k" using safe_fields(4) by blast
      have ch: "safe (\<lambda>d s. True) (and_then (read_chain MAX_OVERFLOW_CHAIN_LENGTH {} (unat n) ov f t) g)"
        if "\<And>x s. fst (g x s) \<noteq> Panic" for g :: "bytes \<Rightarrow> pager \<Rightarrow> document res \<times> pager"
        using safe_read_chain [of t f "unat n"] f(2) 1 that by (intro safe_and_then [where Q = "\<lambda>d s. pages_whole s"]) (auto simp: safe_def simp del: read_chain.simps)
      have s: "\<exists>x. get_bytes (2 + unat il + 4) (unat n) d = Some x" if "2 + unat il + 4 + unat n \<le> length d"
        using safe_fields(4) [OF that] by blast
      show ?thesis using il False i n ov f(1) b s
        by (auto simp: Let_def not_less not_le add.commute split: option.split if_splits intro!: ch simp del: read_chain.simps)
    qed
  qed
  then show ?thesis by (simp add: safe_def)
qed

subsection \<open>Versioned documents: lemmas\<close>

lemma tx_content_Nil [simp]: "tx_content [] s = page_content s"
  by (simp add: tx_content_def fun_eq_iff)

lemma tx_content_cong: "page_content s' = page_content s \<Longrightarrow> tx_content tw s' = tx_content tw s"
  by (rule ext) (simp add: tx_content_def split: option.split)

lemma fetch_step:
  assumes ok: "store_ok s" and d: "tx_content tw s p = Some d"
  shows "\<exists>s'. fetch_page tw p s = (Ok d, s') \<and> store_ok s' \<and> page_content s' = page_content s"
proof (cases "hm_get tw p")
  case None
  then have "page_content s p = Some d" using d by (simp add: tx_content_def)
  from read_step [OF ok this] show ?thesis using None by (auto simp: fetch_page_def)
next
  case (Some e)
  then show ?thesis using d ok by (simp add: fetch_page_def tx_content_def)
qed

lemma read_versioned_chain_spec:
  assumes "store_ok s" "chain (tx_content tw s) cur qs cs" "distinct qs" "set qs \<inter> visited = {}" "length qs \<le> left"
    and "chunks_ok cs" "data_len = length data + length (concat cs)"
  shows "\<exists>s'. read_versioned_chain left visited tw data_len cur data s = (Ok (data @ concat cs), s') \<and> store_ok s' \<and>
    page_content s' = page_content s"
  using assms
proof (induction qs arbitrary: s cur cs visited left data)
  case Nil
  then have "cs = []" "cur = 0" using chain_length [OF Nil.prems(2)] by auto
  then show ?case using Nil.prems(1) by simp
next
  case (Cons q qs)
  obtain c cs' where cs: "cs = c # cs'" using chain_length [OF Cons.prems(2)] by (cases cs) auto
  obtain n pad where q: "cur = q" "q \<noteq> 0" "tx_content tw s q = Some (c @ pad @ u64_to_le n)"
    "length c + length pad = MAX_OVERFLOW_DATA" "chain (tx_content tw s) n qs cs'"
    using Cons.prems(2) cs by auto
  obtain left' where left: "left = Suc left'" "length qs \<le> left'" using Cons.prems(5) by (cases left) auto
  let ?buf = "c @ pad @ u64_to_le n"
  have ne: "c \<noteq> []" using Cons.prems(6) cs by (cases cs') auto
  have sz: "min MAX_OVERFLOW_DATA (data_len - length data) = length c"
    using Cons.prems(6,7) cs by (cases cs') auto
  have g: "get_bytes 0 (length c) ?buf = Some c" by (simp add: get_bytes_append_left)
  have nx: "read_u64 (PAGE_SIZE - OVERFLOW_SIZE) ?buf = Ok n"
    using read_u64_at [of "c @ pad" "PAGE_SIZE - 8" n "[]"] q(4) by (simp add: const_defs)
  obtain s1 where s1: "fetch_page tw q s = (Ok ?buf, s1)" "store_ok s1" "page_content s1 = page_content s"
    using fetch_step [OF Cons.prems(1) q(3)] by blast
  have pre: "chain (tx_content tw s1) n qs cs'" "distinct qs" "set qs \<inter> insert q visited = {}" "chunks_ok cs'"
    "data_len = length (data @ c) + length (concat cs')"
    using q(5) tx_content_cong [OF s1(3)] Cons.prems(3,4,6,7) cs by (auto, cases cs', auto)
  obtain s2 where s2: "read_versioned_chain left' (insert q visited) tw data_len n (data @ c) s1 = (Ok ((data @ c) @ concat cs'), s2)"
    "store_ok s2" "page_content s2 = page_content s1"
    using Cons.IH [OF s1(2) pre(1-3) left(2) pre(4,5)] by blast
  have lt: "length data < data_len" using Cons.prems(7) cs ne by simp
  have ps: "\<not> PAGE_SIZE < OVERFLOW_SIZE" by (simp add: const_defs)
  have "read_versioned_chain left visited tw data_len cur data s = (Ok (data @ concat cs), s2)"
    using q(1,2) left(1) s1(1) g nx sz s2(1) lt ps Cons.prems(4) cs
    by (subst read_versioned_chain.simps) (simp add: Let_def del: read_versioned_chain.simps)
  then show ?case using s2 s1 by simp
qed

lemma versioned_fields:
  assumes i: "id_ok i" and n: "length data \<le> MAX_DOCUMENT_SIZE" and k: "k = first_capacity i data"
    and buf_def: "buf = versioned_first i data xmin xmax k m"
  shows "length buf = PAGE_SIZE" "read_u64 0 buf = Ok xmin" "read_u64 8 buf = Ok xmax"
    "read_u16 16 buf = Ok (word_of_nat (length i))" "get_bytes 18 (length i) buf = Some (as_bytes i)"
    "read_u32 (18 + length i) buf = Ok (word_of_nat (length data))"
    "get_bytes (22 + length i) k buf = Some (take k data)" "read_u64 (22 + length i + k) buf = Ok m"
proof -
  have il: "length i \<le> 255" using i by (simp add: id_ok_def)
  have kl: "length (take k data) = k" "30 + length i + k \<le> PAGE_SIZE" using il k by (auto simp: first_capacity_def const_defs)
  let ?x = "u64_to_le xmin @ u64_to_le xmax"
  let ?r = "take k data @ u64_to_le m @ replicate (PAGE_SIZE - 30 - length i - k) 0"
  show "length buf = PAGE_SIZE" using kl by (simp add: buf_def versioned_first_def)
  show "read_u64 0 buf = Ok xmin" "read_u64 8 buf = Ok xmax"
    unfolding buf_def versioned_first_def using read_u64_at [of "[]" 0] read_u64_at [of "u64_to_le xmin" 8] by simp_all
  show "read_u16 16 buf = Ok (word_of_nat (length i))"
    using read_u16_at [of ?x 16] by (simp add: buf_def versioned_first_def head_bytes_def)
  show "get_bytes 18 (length i) buf = Some (as_bytes i)"
    by (simp add: buf_def versioned_first_def head_bytes_def get_bytes_append_right get_bytes_append_left)
  show "read_u32 (18 + length i) buf = Ok (word_of_nat (length data))"
    using read_u32_at [of "?x @ u16_to_le (word_of_nat (length i)) @ as_bytes i" "18 + length i"]
    by (simp add: buf_def versioned_first_def head_bytes_def)
  show "get_bytes (22 + length i) k buf = Some (take k data)"
    using kl(1) by (simp add: buf_def versioned_first_def get_bytes_append_right get_bytes_append_left)
  show "read_u64 (22 + length i + k) buf = Ok m"
    using read_u64_at [of "?x @ head_bytes i (length data) @ take k data" "22 + length i + k"] kl(1)
    by (simp add: buf_def versioned_first_def)
qed

lemma read_versioned_spec:
  assumes ok: "store_ok s" and i: "id_ok i" and n: "length data \<le> MAX_DOCUMENT_SIZE" and k: "k = first_capacity i data"
    and p: "tx_content tw s p = Some (versioned_first i data xmin xmax k m)"
    and ch: "chain (tx_content tw s) m qs (split_chunks (drop k data))" "distinct qs" "length qs \<le> MAX_OVERFLOW_CHAIN_LENGTH"
  shows "\<exists>s'. read_versioned_document p tw s = (Ok \<lparr>vd_id = i, vd_data = data, vd_xmin = xmin, vd_xmax = xmax\<rparr>, s') \<and>
    store_ok s' \<and> page_content s' = page_content s"
proof -
  let ?buf = "versioned_first i data xmin xmax k m"
  note f = versioned_fields [OF i n k refl, of xmin xmax m]
  have il: "i \<noteq> []" "length i \<le> 255" using i by (auto simp: id_ok_def)
  obtain s1 where s1: "fetch_page tw p s = (Ok ?buf, s1)" "store_ok s1" "page_content s1 = page_content s"
    using fetch_step [OF ok p] by blast
  have cc: "take k data @ concat (split_chunks (drop k data)) = data" by (simp add: concat_split_chunks)
  have dl: "length data = length (take k data) + length (concat (split_chunks (drop k data)))"
    by (simp add: concat_split_chunks)
  have pre: "chain (tx_content tw s1) m qs (split_chunks (drop k data))" "set qs \<inter> {} = {}"
    using ch(1) tx_content_cong [OF s1(3)] by simp_all
  obtain s2 where s2: "read_versioned_chain MAX_OVERFLOW_CHAIN_LENGTH {} tw (length data) m (take k data) s1 = (Ok data, s2)"
      "store_ok s2" "page_content s2 = page_content s1"
    using read_versioned_chain_spec [OF s1(2) pre(1) ch(2) pre(2) ch(3) chunks_ok_split dl] cc by auto
  have fc: "min (usize_sub PAGE_SIZE (XMIN_SIZE + XMAX_SIZE + DOC_ID_LEN_SIZE + length i + DATA_LEN_SIZE + OVERFLOW_SIZE)) (length data) = k"
    using k il(2) by (simp add: first_capacity_def usize_sub_def const_defs)
  have ul: "\<not> usize_sub PAGE_SIZE 18 < length i" using il(2) by (simp add: usize_sub_def const_defs)
  have "read_versioned_document p tw s = (Ok \<lparr>vd_id = i, vd_data = data, vd_xmin = xmin, vd_xmax = xmax\<rparr>, s2)"
    unfolding read_versioned_document_def
    using s1(1) f fc il n ul s2(1) head_fields(2,5,6) [OF i n]
    by (simp add: Let_def add.commute [of _ "length i"] del: read_versioned_chain.simps)
  then show ?thesis using s1 s2 by simp
qed

text \<open>A page written to the pager and recorded in \<open>tx_writes\<close> has the same bytes in both.\<close>

lemma both_write_step:
  assumes ok: "store_ok (fst st)" and p: "page_ok p" "length d = PAGE_SIZE"
  shows "\<exists>st'. on_pager (write_page_transfer p d) (tx_insert p d st) = (Ok (), st') \<and> store_ok (fst st') \<and>
    in_use (fst st') = in_use (fst st) \<and> (\<forall>n. room n (fst st') = room n (fst st)) \<and>
    both_content st' = (both_content st)(p \<mapsto> d) \<and> page_content (fst st') = (page_content (fst st))(p \<mapsto> d) \<and>
    pg_metadata_page (fst st') = pg_metadata_page (fst st)"
proof -
  obtain s' where s': "write_page_transfer p d (fst st) = (Ok (), s')" "store_ok s'" "in_use s' = in_use (fst st)"
    "\<forall>n. room n s' = room n (fst st)" "page_content s' = (page_content (fst st))(p \<mapsto> d)"
    "pg_metadata_page s' = pg_metadata_page (fst st)"
    using write_step [OF ok p] by blast
  let ?st = "(s', hm_insert p d (snd st))"
  have "on_pager (write_page_transfer p d) (tx_insert p d st) = (Ok (), ?st)"
    using s'(1) by (simp add: on_pager_def tx_insert_def)
  moreover have "both_content ?st = (both_content st)(p \<mapsto> d)"
    using s'(5) by (simp add: both_content_def fun_eq_iff)
  ultimately show ?thesis using s' by (intro exI [of _ ?st]) simp
qed

lemma both_alloc_step:
  assumes ok: "store_ok (fst st)" and room: "room (Suc n) (fst st)"
  shows "\<exists>p st'. on_pager alloc_page st = (Ok p, st') \<and> store_ok (fst st') \<and> room n (fst st') \<and> p \<notin> in_use (fst st) \<and>
    in_use (fst st') = insert p (in_use (fst st)) \<and> p \<noteq> 0 \<and> page_ok p \<and> both_content st' = both_content st \<and>
    page_content (fst st') = page_content (fst st) \<and>
    p \<noteq> pg_metadata_page (fst st) \<and> pg_metadata_page (fst st') = pg_metadata_page (fst st)"
proof -
  obtain p s' where s': "alloc_page (fst st) = (Ok p, s')" "store_ok s'" "room n s'" "p \<notin> in_use (fst st)"
    "in_use s' = insert p (in_use (fst st))" "p \<noteq> 0" "page_ok p" "page_content s' = page_content (fst st)"
    "p \<noteq> pg_metadata_page (fst st)" "pg_metadata_page s' = pg_metadata_page (fst st)"
    using alloc_step [OF assms] by blast
  have "on_pager alloc_page st = (Ok p, (s', snd st))" using s'(1) by (cases st) (simp add: on_pager_def)
  moreover have "both_content (s', snd st) = both_content st" using s'(8) by (simp add: both_content_def fun_eq_iff)
  ultimately show ?thesis using s' by (intro exI [of _ p] exI [of _ "(s', snd st)"]) simp
qed

lemma or_free_Ok [simp]: "or_free ps (Ok x, st) = (Ok x, st)"
  by (simp add: or_free_def)

text \<open>
  One round of the loop for a pending overflow page, and then the whole loop: the pages form a
  chain once the last pending page, which the loop returns, is written too.
\<close>

lemma versioned_chain_pending:
  assumes "store_ok (fst st)" "room (length (split_chunks rest) + z) (fst st)" "page_ok q" "q \<noteq> fp" "q \<noteq> 0"
    and "{q, fp} \<subseteq> in_use (fst st)" "length c + length pad = MAX_OVERFLOW_DATA"
  shows "\<exists>al' r b st' qs. versioned_chain fp rest al q (PAGE_SIZE - OVERFLOW_SIZE) (Some (c @ pad @ u64_to_le 0)) first st =
      (Ok (first, al', r, Some b), st') \<and> store_ok (fst st') \<and> page_ok r \<and> length b = PAGE_SIZE \<and>
    chain ((both_content st')(r \<mapsto> b)) q (q # qs) (c # split_chunks rest) \<and> r \<in> set (q # qs) \<and>
    distinct (q # qs) \<and> set qs \<inter> in_use (fst st) = {} \<and> in_use (fst st') = in_use (fst st) \<union> set qs \<and>
    (\<forall>p. p \<notin> set (q # qs) \<longrightarrow> page_content (fst st') p = page_content (fst st) p \<and> both_content st' p = both_content st p) \<and>
    pg_metadata_page (fst st) \<notin> set qs \<and> pg_metadata_page (fst st') = pg_metadata_page (fst st) \<and> room z (fst st')"
  using assms
proof (induction rest arbitrary: q c pad st al rule: split_chunks.induct)
  case (1 rest)
  let ?buf = "\<lambda>n. c @ pad @ u64_to_le n"
  have lb: "length (?buf n) = PAGE_SIZE" for n using 1(8) by (simp add: const_defs)
  show ?case
  proof (cases "rest = []")
    case True
    have "chain ((both_content st)(q \<mapsto> ?buf 0)) q [q] [c]" using 1(6,8) by auto
    then show ?thesis using True 1(2,3,4) lb
      by (intro exI [of _ al] exI [of _ q] exI [of _ "?buf 0"] exI [of _ st] exI [of _ "[]"]) (simp add: versioned_chain.simps split_chunks.simps [of "[]"])
  next
    case False
    let ?c = "take MAX_OVERFLOW_DATA rest" and ?rest = "drop MAX_OVERFLOW_DATA rest"
    have sp: "split_chunks rest = ?c # split_chunks ?rest" using False by (simp add: split_chunks.simps [of rest])
    have r0: "room (Suc (length (split_chunks ?rest) + z)) (fst st)" using 1(3) sp by simp
    obtain p st1 where a: "on_pager alloc_page st = (Ok p, st1)" "store_ok (fst st1)" "room (length (split_chunks ?rest) + z) (fst st1)"
      "p \<notin> in_use (fst st)" "in_use (fst st1) = insert p (in_use (fst st))" "p \<noteq> 0" "page_ok p"
      "both_content st1 = both_content st" "page_content (fst st1) = page_content (fst st)"
      "p \<noteq> pg_metadata_page (fst st)" "pg_metadata_page (fst st1) = pg_metadata_page (fst st)"
      using both_alloc_step [OF 1(2) r0] by blast
    have pb: "put_bytes (PAGE_SIZE - OVERFLOW_SIZE) (u64_to_le p) (?buf 0) = Some (?buf p)"
      using put_bytes_end [of "c @ pad" "PAGE_SIZE - OVERFLOW_SIZE" "u64_to_le 0" "u64_to_le p"] 1(8) by (simp add: const_defs)
    obtain st2 where w: "on_pager (write_page_transfer q (?buf p)) (tx_insert q (?buf p) st1) = (Ok (), st2)" "store_ok (fst st2)"
      "in_use (fst st2) = in_use (fst st1)" "room (length (split_chunks ?rest) + z) (fst st2)"
      "both_content st2 = (both_content st1)(q \<mapsto> ?buf p)" "page_content (fst st2) = (page_content (fst st1))(q \<mapsto> ?buf p)"
      "pg_metadata_page (fst st2) = pg_metadata_page (fst st1)"
      using both_write_step [OF a(2) 1(4) lb, of p] a(3) by blast
    define pad' where "pad' = (replicate (MAX_OVERFLOW_DATA - length ?c) 0 :: bytes)"
    have pl: "length ?c + length pad' = MAX_OVERFLOW_DATA" by (simp add: pad'_def)
    have ob: "overflow_buf ?c 0 = Some (?c @ pad' @ u64_to_le 0)" using overflow_buf_eq [of ?c 0] by (simp add: pad'_def)
    have pf: "p \<noteq> fp" "p \<noteq> q" "{p, fp} \<subseteq> in_use (fst st2)" using a(4,5) w(3) 1(7) by auto
    obtain al' r b st' qs where v: "versioned_chain fp ?rest (al @ [p]) p (PAGE_SIZE - OVERFLOW_SIZE) (Some (?c @ pad' @ u64_to_le 0)) first st2 =
        (Ok (first, al', r, Some b), st')" "store_ok (fst st')" "page_ok r" "length b = PAGE_SIZE"
      "chain ((both_content st')(r \<mapsto> b)) p (p # qs) (?c # split_chunks ?rest)" "r \<in> set (p # qs)"
      "distinct (p # qs)" "set qs \<inter> in_use (fst st2) = {}" "in_use (fst st') = in_use (fst st2) \<union> set qs"
      "\<forall>x. x \<notin> set (p # qs) \<longrightarrow> page_content (fst st') x = page_content (fst st2) x \<and> both_content st' x = both_content st2 x"
      "pg_metadata_page (fst st2) \<notin> set qs" "pg_metadata_page (fst st') = pg_metadata_page (fst st2)" "room z (fst st')"
      using 1(1) [OF False w(2,4) a(7) pf(1) a(6) pf(3) pl] by blast
    have qn: "q \<notin> set (p # qs)" using v(8) w(3) a(5) 1(7) pf(2) by auto
    have e1: "versioned_chain fp rest al q (PAGE_SIZE - OVERFLOW_SIZE) (Some (?buf 0)) first st = (Ok (first, al', r, Some b), st')"
      using False a(1) ob 1(5) pb w(1) v(1) by (subst versioned_chain.simps) (simp add: Let_def)
    have "both_content st' q = Some (?buf p)" using v(10) qn w(5) by auto
    then have "((both_content st')(r \<mapsto> b)) q = Some (?buf p)" using qn v(6) by auto
    then have e2: "chain ((both_content st')(r \<mapsto> b)) q (q # p # qs) (c # split_chunks rest)"
      unfolding sp chain.simps(2) [of _ q] using v(5) 1(6,8) by blast
    have e3: "r \<in> set (q # p # qs)" "distinct (q # p # qs)" using v(6,7) qn by simp_all
    have e4: "set (p # qs) \<inter> in_use (fst st) = {}" "in_use (fst st') = in_use (fst st) \<union> set (p # qs)"
      using v(8,9) w(3) a(4,5) by auto
    have e5: "\<forall>x. x \<notin> set (q # p # qs) \<longrightarrow> page_content (fst st') x = page_content (fst st) x \<and> both_content st' x = both_content st x"
      using v(10) w(5,6) a(8,9) by simp
    have e6: "pg_metadata_page (fst st) \<notin> set (p # qs)" "pg_metadata_page (fst st') = pg_metadata_page (fst st)"
      using v(11,12) a(10,11) w(7) by auto
    show ?thesis
      by (intro exI conjI) (rule e1, rule v(2), rule v(3), rule v(4), rule e2, rule e3, rule e3, rule e4, rule e4, rule e5, rule e6, rule e6, rule v(13))
  qed
qed

lemma first_page_buf:
  assumes i: "length i \<le> 255" and k: "k = first_capacity i data"
  shows "Option.bind (emit (u64_to_le xmin) (0, replicate PAGE_SIZE 0)) (\<lambda>w.
      Option.bind (emit (u64_to_le xmax) w) (\<lambda>w.
      Option.bind (emit (u16_to_le (word_of_nat (length (as_bytes i)))) w) (\<lambda>w.
      Option.bind (emit (as_bytes i) w) (\<lambda>w.
      Option.bind (emit (u32_to_le (word_of_nat (length data))) w) (\<lambda>w.
      Option.bind (emit (take k data) w) (\<lambda>(off, buf).
      Option.bind (put_bytes off (u64_to_le 0) buf) (\<lambda>buf. Some (off, buf)))))))) =
    Some (22 + length i + k, versioned_first i data xmin xmax k 0)"
proof -
  let ?x = "u64_to_le xmin @ u64_to_le xmax @ head_bytes i (length data) @ take k data"
  have kl: "length (take k data) = k" "30 + length i + k \<le> PAGE_SIZE" using i k by (auto simp: first_capacity_def const_defs)
  have len: "length ?x = 22 + length i + k" using kl(1) by simp
  have e1: "Option.bind (emit (u64_to_le xmin) (0, replicate PAGE_SIZE 0)) (\<lambda>w.
      Option.bind (emit (u64_to_le xmax) w) (\<lambda>w.
      Option.bind (emit (u16_to_le (word_of_nat (length (as_bytes i)))) w) (\<lambda>w.
      Option.bind (emit (as_bytes i) w) (\<lambda>w.
      Option.bind (emit (u32_to_le (word_of_nat (length data))) w) (\<lambda>w.
      Option.bind (emit (take k data) w) (\<lambda>(off, buf).
      Option.bind (put_bytes off (u64_to_le 0) buf) (\<lambda>buf. Some (off, buf)))))))) =
    Option.bind (emit ?x (0, replicate PAGE_SIZE 0)) (\<lambda>(off, buf).
      Option.bind (put_bytes off (u64_to_le 0) buf) (\<lambda>buf. Some (off, buf)))"
    by (simp add: head_bytes_def emit_emit [symmetric])
  have e2: "emit ?x (0, replicate PAGE_SIZE 0) = Some (22 + length i + k, ?x @ replicate (PAGE_SIZE - 22 - length i - k) 0)"
    using len kl(2) by (subst emit_in_range) (simp_all add: const_defs)
  have e3: "put_bytes (22 + length i + k) (u64_to_le 0) (?x @ replicate (PAGE_SIZE - 22 - length i - k) 0) =
      Some (?x @ u64_to_le 0 @ replicate (PAGE_SIZE - 30 - length i - k) 0)"
    using len kl(2) by (simp add: put_bytes_def add.commute)
  show ?thesis unfolding e1 e2 using e3 by (simp add: versioned_first_def del: append_assoc)
qed

lemma first_page_link:
  assumes i: "length i \<le> 255" and k: "k = first_capacity i data"
  shows "put_bytes (22 + length i + k) (u64_to_le p) (versioned_first i data xmin xmax k 0) = Some (versioned_first i data xmin xmax k p)"
proof -
  have kl: "length (take k data) = k" using k by (simp add: first_capacity_def)
  then show ?thesis by (simp add: put_bytes_def versioned_first_def)
qed

lemma versioned_chain_first:
  assumes "store_ok (fst st)" "room (length (split_chunks (drop k data)) + z) (fst st)" "fp \<in> in_use (fst st)"
    and i: "length i \<le> 255" and k: "k = first_capacity i data" and rest: "drop k data \<noteq> []"
  shows "\<exists>al' r b m st' qs. versioned_chain fp (drop k data) [fp] fp (22 + length i + k) None (versioned_first i data xmin xmax k 0) st =
      (Ok (versioned_first i data xmin xmax k m, al', r, Some b), st') \<and> store_ok (fst st') \<and> page_ok r \<and> length b = PAGE_SIZE \<and>
    chain ((both_content st')(r \<mapsto> b)) m qs (split_chunks (drop k data)) \<and> r \<in> set qs \<and>
    distinct qs \<and> set qs \<inter> in_use (fst st) = {} \<and> in_use (fst st') = in_use (fst st) \<union> set qs \<and>
    (\<forall>p. p \<notin> set qs \<longrightarrow> page_content (fst st') p = page_content (fst st) p) \<and>
    pg_metadata_page (fst st) \<notin> set qs \<and> pg_metadata_page (fst st') = pg_metadata_page (fst st) \<and> room z (fst st')"
proof -
  let ?rest = "drop k data"
  let ?c = "take MAX_OVERFLOW_DATA ?rest" and ?rest' = "drop MAX_OVERFLOW_DATA ?rest"
  have sp: "split_chunks ?rest = ?c # split_chunks ?rest'" using rest by (simp add: split_chunks.simps [of ?rest])
  have r0: "room (Suc (length (split_chunks ?rest') + z)) (fst st)" using assms(2) sp by simp
  obtain p st1 where a: "on_pager alloc_page st = (Ok p, st1)" "store_ok (fst st1)" "room (length (split_chunks ?rest') + z) (fst st1)"
    "p \<notin> in_use (fst st)" "in_use (fst st1) = insert p (in_use (fst st))" "p \<noteq> 0" "page_ok p"
    "page_content (fst st1) = page_content (fst st)" "p \<noteq> pg_metadata_page (fst st)" "pg_metadata_page (fst st1) = pg_metadata_page (fst st)"
    using both_alloc_step [OF assms(1) r0] by blast
  define pad where "pad = (replicate (MAX_OVERFLOW_DATA - length ?c) 0 :: bytes)"
  have pl: "length ?c + length pad = MAX_OVERFLOW_DATA" by (simp add: pad_def)
  have ob: "overflow_buf ?c 0 = Some (?c @ pad @ u64_to_le 0)" using overflow_buf_eq [of ?c 0] by (simp add: pad_def)
  have pf: "p \<noteq> fp" "{p, fp} \<subseteq> in_use (fst st1)" using a(4,5) assms(3) by auto
  let ?f = "versioned_first i data xmin xmax k p"
  obtain al' r b st' qs where v: "versioned_chain fp ?rest' ([fp] @ [p]) p (PAGE_SIZE - OVERFLOW_SIZE) (Some (?c @ pad @ u64_to_le 0)) ?f st1 =
      (Ok (?f, al', r, Some b), st')" "store_ok (fst st')" "page_ok r" "length b = PAGE_SIZE"
    "chain ((both_content st')(r \<mapsto> b)) p (p # qs) (?c # split_chunks ?rest')" "r \<in> set (p # qs)"
    "distinct (p # qs)" "set qs \<inter> in_use (fst st1) = {}" "in_use (fst st') = in_use (fst st1) \<union> set qs"
    "\<forall>x. x \<notin> set (p # qs) \<longrightarrow> page_content (fst st') x = page_content (fst st1) x \<and> both_content st' x = both_content st1 x"
    "pg_metadata_page (fst st1) \<notin> set qs" "pg_metadata_page (fst st') = pg_metadata_page (fst st1)" "room z (fst st')"
    using versioned_chain_pending [OF a(2,3,7) pf(1) a(6) pf(2) pl] by blast
  have e1: "versioned_chain fp ?rest [fp] fp (22 + length i + k) None (versioned_first i data xmin xmax k 0) st = (Ok (?f, al', r, Some b), st')"
    using rest a(1) ob first_page_link [OF i k, of p xmin xmax] v(1) by (subst versioned_chain.simps) (simp add: Let_def)
  have e2: "chain ((both_content st')(r \<mapsto> b)) p (p # qs) (split_chunks ?rest)" using v(5) by (simp only: sp)
  have e4: "set (p # qs) \<inter> in_use (fst st) = {}" "in_use (fst st') = in_use (fst st) \<union> set (p # qs)"
    using v(8,9) a(4,5) by auto
  have e5: "\<forall>x. x \<notin> set (p # qs) \<longrightarrow> page_content (fst st') x = page_content (fst st) x" using v(10) a(8) by simp
  have e6: "pg_metadata_page (fst st) \<notin> set (p # qs)" "pg_metadata_page (fst st') = pg_metadata_page (fst st)"
    using v(11,12) a(9,10) by auto
  show ?thesis
    by (intro exI conjI) (rule e1, rule v(2), rule v(3), rule v(4), rule e2, rule v(6), rule v(7), rule e4, rule e4, rule e5, rule e6, rule e6, rule v(13))
qed

lemma length_versioned_first:
  "length i \<le> 255 \<Longrightarrow> k = first_capacity i data \<Longrightarrow> length (versioned_first i data xmin xmax k m) = PAGE_SIZE"
  by (auto simp: versioned_first_def first_capacity_def const_defs)

lemma write_versioned_room:
  assumes ok: "store_ok (fst st)" and room: "room (pages_needed data + z) (fst st)" and i: "id_ok i"
  shows "\<exists>p d qs st'. write_versioned_document i data xmin xmax st = (Ok (p, d), st') \<and> store_ok (fst st') \<and>
    versioned_stored (both_content st') p qs \<lparr>vd_id = i, vd_data = data, vd_xmin = xmin, vd_xmax = xmax\<rparr> \<and>
    both_content st' p = Some d \<and> set (p # qs) \<inter> in_use (fst st) = {} \<and> in_use (fst st') = in_use (fst st) \<union> set (p # qs) \<and>
    (\<forall>q. q \<notin> set (p # qs) \<longrightarrow> page_content (fst st') q = page_content (fst st) q) \<and>
    pg_metadata_page (fst st') = pg_metadata_page (fst st) \<and> room z (fst st')"
proof -
  define k where "k = first_capacity i data"
  have il: "length i \<le> 255" using i by (simp add: id_ok_def)
  let ?cs = "split_chunks (drop k data)" and ?first = "versioned_first i data xmin xmax k"
  have r1: "room (Suc (length ?cs + z)) (fst st)" using room by (rule room_mono) (use split_chunks_needed [of k data] in simp)
  obtain p st1 where a: "on_pager alloc_page st = (Ok p, st1)" "store_ok (fst st1)" "room (length ?cs + z) (fst st1)"
    "p \<notin> in_use (fst st)" "in_use (fst st1) = insert p (in_use (fst st))" "page_ok p"
    "page_content (fst st1) = page_content (fst st)" "pg_metadata_page (fst st1) = pg_metadata_page (fst st)"
    using both_alloc_step [OF ok r1] by blast
  have kk: "min (PAGE_SIZE - (XMIN_SIZE + XMAX_SIZE + DOC_ID_LEN_SIZE + length (as_bytes i) + DATA_LEN_SIZE + OVERFLOW_SIZE)) (length data) = k"
    by (simp add: k_def first_capacity_def const_defs)
  have fl: "length (?first m) = PAGE_SIZE" for m using length_versioned_first [OF il k_def] .
  have pin: "p \<in> in_use (fst st1)" using a(5) by simp
  have "\<exists>m al' r ob st2 st3 qs. versioned_chain p (drop k data) [p] p (22 + length i + k) None (?first 0) st1 = (Ok (?first m, al', r, ob), st2) \<and>
     (case ob of None \<Rightarrow> (Ok (), st2)
       | Some b \<Rightarrow> or_free al' (on_pager (write_page_transfer r b) (tx_insert r b st2))) = (Ok (), st3) \<and> store_ok (fst st3) \<and>
     chain (both_content st3) m qs ?cs \<and> distinct qs \<and> set qs \<inter> in_use (fst st1) = {} \<and>
     in_use (fst st3) = in_use (fst st1) \<union> set qs \<and> (\<forall>q. q \<notin> set qs \<longrightarrow> page_content (fst st3) q = page_content (fst st1) q) \<and>
     pg_metadata_page (fst st3) = pg_metadata_page (fst st1) \<and> room z (fst st3)"
  proof (cases "drop k data = []")
    case True
    then show ?thesis using a(2,3)
      by (intro exI [of _ 0] exI [of _ "[p]"] exI [of _ p] exI [of _ None] exI [of _ st1] exI [of _ "[]"]) (simp add: versioned_chain.simps split_chunks.simps [of "[]"])
  next
    case False
    obtain al' r b m st2 qs where v: "versioned_chain p (drop k data) [p] p (22 + length i + k) None (?first 0) st1 = (Ok (?first m, al', r, Some b), st2)"
      "store_ok (fst st2)" "page_ok r" "length b = PAGE_SIZE" "chain ((both_content st2)(r \<mapsto> b)) m qs ?cs" "r \<in> set qs"
      "distinct qs" "set qs \<inter> in_use (fst st1) = {}" "in_use (fst st2) = in_use (fst st1) \<union> set qs"
      "\<forall>q. q \<notin> set qs \<longrightarrow> page_content (fst st2) q = page_content (fst st1) q" "pg_metadata_page (fst st2) = pg_metadata_page (fst st1)" "room z (fst st2)"
      using versioned_chain_first [OF a(2,3) pin il k_def False] by blast
    obtain st3 where w: "on_pager (write_page_transfer r b) (tx_insert r b st2) = (Ok (), st3)" "store_ok (fst st3)"
      "in_use (fst st3) = in_use (fst st2)" "both_content st3 = (both_content st2)(r \<mapsto> b)"
      "page_content (fst st3) = (page_content (fst st2))(r \<mapsto> b)" "pg_metadata_page (fst st3) = pg_metadata_page (fst st2)" "room z (fst st3)"
      using both_write_step [OF v(2,3,4)] v(12) by blast
    have e1: "(case Some b of None \<Rightarrow> (Ok (), st2)
       | Some b \<Rightarrow> or_free al' (on_pager (write_page_transfer r b) (tx_insert r b st2))) = (Ok (), st3)" using w(1) by simp
    have e2: "chain (both_content st3) m qs ?cs" "in_use (fst st3) = in_use (fst st1) \<union> set qs"
      "\<forall>q. q \<notin> set qs \<longrightarrow> page_content (fst st3) q = page_content (fst st1) q" "pg_metadata_page (fst st3) = pg_metadata_page (fst st1)"
      using v(5,6,9,10,11) w(3,4,5,6) by auto
    show ?thesis by (intro exI conjI) (rule v(1), rule e1, rule w(2), rule e2, rule v(7), rule v(8), rule e2, rule e2, rule e2, rule w(7))
  qed
  then obtain m al' r ob st2 st3 qs where v: "versioned_chain p (drop k data) [p] p (22 + length i + k) None (?first 0) st1 = (Ok (?first m, al', r, ob), st2)"
     "(case ob of None \<Rightarrow> (Ok (), st2)
       | Some b \<Rightarrow> or_free al' (on_pager (write_page_transfer r b) (tx_insert r b st2))) = (Ok (), st3)" "store_ok (fst st3)"
     "chain (both_content st3) m qs ?cs" "distinct qs" "set qs \<inter> in_use (fst st1) = {}"
     "in_use (fst st3) = in_use (fst st1) \<union> set qs" "\<forall>q. q \<notin> set qs \<longrightarrow> page_content (fst st3) q = page_content (fst st1) q"
     "pg_metadata_page (fst st3) = pg_metadata_page (fst st1)" "room z (fst st3)"
    by blast
  obtain st4 where w: "on_pager (write_page_transfer p (?first m)) (tx_insert p (?first m) st3) = (Ok (), st4)" "store_ok (fst st4)"
    "in_use (fst st4) = in_use (fst st3)" "both_content st4 = (both_content st3)(p \<mapsto> ?first m)"
    "page_content (fst st4) = (page_content (fst st3))(p \<mapsto> ?first m)" "pg_metadata_page (fst st4) = pg_metadata_page (fst st3)" "room z (fst st4)"
    using both_write_step [OF v(3) a(6) fl] v(10) by blast
  have pq: "p \<notin> set qs" using v(6) a(5) by auto
  have "write_versioned_document i data xmin xmax st = (Ok (p, ?first m), st4)"
    unfolding write_versioned_document_def
    using il a(1) kk first_page_buf [OF il k_def, of xmin xmax] v(1,2) w(1) by (simp add: Let_def)
  moreover have "chain (both_content st4) m qs ?cs" using v(4) w(4) pq by (subst chain_cong [of _ _ "both_content st3"]) auto
  then have "versioned_stored (both_content st4) p qs \<lparr>vd_id = i, vd_data = data, vd_xmin = xmin, vd_xmax = xmax\<rparr>"
    using pq v(5) w(4) k_def by (auto simp: versioned_stored_def)
  moreover have "both_content st4 p = Some (?first m)" using w(4) by simp
  moreover have "set (p # qs) \<inter> in_use (fst st) = {}" "in_use (fst st4) = in_use (fst st) \<union> set (p # qs)"
    using v(6,7) w(3) a(4,5) by auto
  moreover have "\<forall>q. q \<notin> set (p # qs) \<longrightarrow> page_content (fst st4) q = page_content (fst st) q" using w(5) v(8) a(7) by simp
  moreover have "pg_metadata_page (fst st4) = pg_metadata_page (fst st)" using w(6) v(9) a(8) by simp
  ultimately show ?thesis using w(2,7) by blast
qed

lemma write_versioned_spec:
  assumes ok: "store_ok (fst st)" and room: "room (pages_needed data) (fst st)" and i: "id_ok i"
  shows "\<exists>p d qs st'. write_versioned_document i data xmin xmax st = (Ok (p, d), st') \<and> store_ok (fst st') \<and>
    versioned_stored (both_content st') p qs \<lparr>vd_id = i, vd_data = data, vd_xmin = xmin, vd_xmax = xmax\<rparr> \<and>
    both_content st' p = Some d \<and> set (p # qs) \<inter> in_use (fst st) = {} \<and> in_use (fst st') = in_use (fst st) \<union> set (p # qs) \<and>
    (\<forall>q. q \<notin> set (p # qs) \<longrightarrow> page_content (fst st') q = page_content (fst st) q) \<and>
    pg_metadata_page (fst st') = pg_metadata_page (fst st)"
  using write_versioned_room [where z = 0, of st data i xmin xmax] assms by auto

theorem read_document_never_panics_witness:
  "\<exists>s. pager_open None 10 False = Ok s \<and> fst (read_document 0 s) \<noteq> Panic \<and> fst (read_document (- 1) s) \<noteq> Panic"
proof -
  obtain s where s: "pager_open None 10 False = Ok s" "store_ok s" using new_store [of 10] by auto
  then have "pages_whole s" by (simp add: store_ok_def pages_whole_inv)
  then show ?thesis using s(1) read_document_never_panics by blast
qed

lemma both_tx_content: "both_content st p = Some d \<Longrightarrow> tx_content (snd st) (fst st) p = Some d \<and> page_content (fst st) p = Some d"
  by (simp add: both_content_def tx_content_def split: if_splits option.split)

lemma chain_mono:
  assumes "chain C p qs cs" and sub: "\<And>q d. C q = Some d \<Longrightarrow> C' q = Some d"
  shows "chain C' p qs cs"
  using assms(1)
proof (induction qs arbitrary: p cs)
  case Nil
  then show ?case by (cases cs) simp_all
next
  case (Cons q qs)
  then obtain c cs' n pad where "cs = c # cs'" "p = q" "q \<noteq> 0" "C q = Some (c @ pad @ u64_to_le n)"
    "length c + length pad = MAX_OVERFLOW_DATA" "chain C n qs cs'" by (cases cs) auto
  then show ?case using Cons.IH sub [of q "c @ pad @ u64_to_le n"] by auto
qed

lemma versioned_stored_mono:
  "versioned_stored C p qs d \<Longrightarrow> (\<And>q x. C q = Some x \<Longrightarrow> C' q = Some x) \<Longrightarrow> versioned_stored C' p qs d"
  unfolding versioned_stored_def using chain_mono by blast

lemma read_versioned_stored:
  assumes "store_ok s" "versioned_stored (tx_content tw s) p qs d" "id_ok (vd_id d)"
    and "length (vd_data d) \<le> 249998 * MAX_OVERFLOW_DATA"
  shows "\<exists>s'. read_versioned_document p tw s = (Ok d, s')"
proof -
  let ?k = "first_capacity (vd_id d) (vd_data d)"
  obtain m where m: "tx_content tw s p = Some (versioned_first (vd_id d) (vd_data d) (vd_xmin d) (vd_xmax d) ?k m)"
    "chain (tx_content tw s) m qs (split_chunks (drop ?k (vd_data d)))" "distinct qs"
    using assms(2) by (auto simp: versioned_stored_def)
  have n: "length (vd_data d) \<le> MAX_DOCUMENT_SIZE" using assms(4) by (simp add: const_defs)
  have "length qs \<le> MAX_OVERFLOW_CHAIN_LENGTH"
    using chain_length [OF m(2)] split_chunks_needed [of ?k "vd_data d"] chain_fits [OF assms(4)] by simp
  from read_versioned_spec [OF assms(1,3) n refl m this] show ?thesis by auto
qed

text \<open>
  C29: a versioned document written inside a transaction is read back with its id, data and
  version stamps, both by the transaction itself (from \<open>tx_writes\<close>) and from the pager alone, and the
  write changed no page that was in use.
\<close>

theorem versioned_document_roundtrip:
  assumes "store_ok s" "room (pages_needed data) s" "id_ok i" "length data \<le> 249998 * MAX_OVERFLOW_DATA"
  shows "\<exists>p d s' tw' s1 s2. write_versioned_document i data xmin xmax (s, tw) = (Ok (p, d), (s', tw')) \<and>
    read_versioned_document p tw' s' = (Ok \<lparr>vd_id = i, vd_data = data, vd_xmin = xmin, vd_xmax = xmax\<rparr>, s1) \<and>
    read_versioned_document p [] s' = (Ok \<lparr>vd_id = i, vd_data = data, vd_xmin = xmin, vd_xmax = xmax\<rparr>, s2) \<and>
    (\<forall>q \<in> in_use s. q \<in> in_use s' \<and> page_content s' q = page_content s q)"
proof -
  let ?d = "\<lparr>vd_id = i, vd_data = data, vd_xmin = xmin, vd_xmax = xmax\<rparr>"
  obtain p d qs st' where w: "write_versioned_document i data xmin xmax (s, tw) = (Ok (p, d), st')" "store_ok (fst st')"
    "versioned_stored (both_content st') p qs ?d" "set (p # qs) \<inter> in_use s = {}" "in_use (fst st') = in_use s \<union> set (p # qs)"
    "\<forall>q. q \<notin> set (p # qs) \<longrightarrow> page_content (fst st') q = page_content s q"
    using write_versioned_spec [of "(s, tw)", unfolded fst_conv, OF assms(1-3)] by blast
  have v: "versioned_stored (tx_content (snd st') (fst st')) p qs ?d" "versioned_stored (tx_content [] (fst st')) p qs ?d"
    using versioned_stored_mono [OF w(3)] both_tx_content by simp_all
  obtain s1 where s1: "read_versioned_document p (snd st') (fst st') = (Ok ?d, s1)"
    using read_versioned_stored [OF w(2) v(1)] assms(3,4) by auto
  obtain s2 where s2: "read_versioned_document p [] (fst st') = (Ok ?d, s2)"
    using read_versioned_stored [OF w(2) v(2)] assms(3,4) by auto
  have "\<forall>q \<in> in_use s. q \<in> in_use (fst st') \<and> page_content (fst st') q = page_content s q"
    using w(4,5,6) by blast
  then show ?thesis using w(1) s1 s2 by (cases st') auto
qed

theorem versioned_document_roundtrip_witness:
  "\<exists>s p d s' tw' s1. pager_open None 10 False = Ok s \<and>
    write_versioned_document ''k1'' (replicate 9000 7) 5 0 (s, []) = (Ok (p, d), (s', tw')) \<and>
    read_versioned_document p [] s' = (Ok \<lparr>vd_id = ''k1'', vd_data = replicate 9000 7, vd_xmin = 5, vd_xmax = 0\<rparr>, s1)"
proof -
  obtain s where s: "pager_open None 10 False = Ok s" "store_ok s" "room 1000000 s" using new_store [of 10] by auto
  have r: "room (pages_needed (replicate 9000 7)) s" using s(3) by (rule room_mono) (simp add: pages_needed_def const_defs)
  have i: "id_ok ''k1''" by (simp add: id_ok_def rust_string_def as_bytes_def)
  have "length (replicate 9000 (7 :: u8)) \<le> 249998 * MAX_OVERFLOW_DATA" by (simp add: const_defs)
  from versioned_document_roundtrip [OF s(2) r i this, of 5 0 "[]"] show ?thesis using s(1) by blast
qed

text \<open>
  \<open>read_versioned_document\<close> checks the id length only against the end of the page, so a page
  whose id field reaches to the end makes the read of the data length panic instead of
  returning an error.
\<close>

theorem versioned_read_panics:
  assumes "store_ok s" "page_content s p = Some (u64_to_le xmin @ u64_to_le xmax @ u16_to_le 4078 @ as_bytes i)"
    and "length i = 4078" "rust_string i"
  shows "fst (read_versioned_document p [] s) = Panic"
proof -
  let ?buf = "u64_to_le xmin @ u64_to_le xmax @ u16_to_le 4078 @ as_bytes i"
  obtain s1 where s1: "read_page p s = (Ok ?buf, s1)" using read_step [OF assms(1,2)] by blast
  have f: "read_u64 0 ?buf = Ok xmin" "read_u64 8 ?buf = Ok xmax" "read_u16 16 ?buf = Ok 4078"
    "get_bytes 18 4078 ?buf = Some (as_bytes i)" "read_u32 4096 ?buf = Panic"
    using assms(3) read_u64_at [of "[]" 0] read_u64_at [of "u64_to_le xmin" 8] read_u16_at [of "u64_to_le xmin @ u64_to_le xmax" 16]
    by (simp_all add: get_bytes_append_right get_bytes_append_left read_u32_def get_bytes_def)
  show ?thesis using s1 f assms(3,4)
    by (simp add: read_versioned_document_def fetch_page_def Let_def usize_sub_def from_utf8_as_bytes)
qed

theorem versioned_read_panics_witness:
  "\<exists>s p s' s''. pager_open None 10 False = Ok s \<and> alloc_page s = (Ok p, s') \<and>
    write_page_transfer p (u64_to_le 1 @ u64_to_le 0 @ u16_to_le 4078 @ as_bytes (replicate 4078 CHR ''a'')) s' = (Ok (), s'') \<and>
    fst (read_versioned_document p [] s'') = Panic"
proof -
  let ?i = "replicate 4078 CHR ''a''"
  let ?d = "u64_to_le 1 @ u64_to_le 0 @ u16_to_le 4078 @ as_bytes ?i"
  obtain s where s: "pager_open None 10 False = Ok s" "store_ok s" "room (Suc 0) s" using new_store [of 10] room_mono by fastforce
  obtain p s1 where p: "alloc_page s = (Ok p, s1)" "store_ok s1" "page_ok p" using alloc_step [OF s(2,3)] by blast
  have "length ?d = PAGE_SIZE" by (simp add: const_defs)
  then obtain s2 where w: "write_page_transfer p ?d s1 = (Ok (), s2)" "store_ok s2" "page_content s2 p = Some ?d"
    using write_step [OF p(2,3)] by (metis fun_upd_same)
  have "rust_string ?i" using utf8_valid_ascii by (simp add: rust_string_def as_bytes_def)
  then have "fst (read_versioned_document p [] s2) = Panic"
    using versioned_read_panics [OF w(2,3)] by simp
  then show ?thesis using s(1) p(1) w(1) by blast
qed

lemma metadata_not_fresh:
  assumes "store_ok s" "set ps \<inter> in_use s = {}" "set ps \<subseteq> in_use s'" "pg_metadata_page s' = pg_metadata_page s"
  shows "pg_metadata_page s' \<notin> set ps"
proof (cases "pg_metadata_page s = 0")
  case True
  then show ?thesis using assms(3,4) by (auto simp: in_use_def)
next
  case False
  then have "pg_metadata_page s \<in> in_use s"
    using assms(1) by (simp add: store_ok_def alloc_ok_def free_list_ok_def in_use_def word_neq_0_conv)
  then show ?thesis using assms(2,4) by auto
qed

text \<open>The last bytes of a versioned document's first page are its overflow pointer, or zero without one.\<close>

lemma versioned_last_bytes:
  assumes i: "id_ok i" and k: "k = first_capacity i data" and m: "length data = k \<Longrightarrow> m = 0"
  shows "read_u64 (PAGE_SIZE - 8) (versioned_first i data xmin xmax k m) = Ok m"
proof (cases "length data = k")
  case True
  have il: "length i \<le> 255" using i by (simp add: id_ok_def)
  have kl: "30 + length i + k \<le> PAGE_SIZE" using il k by (auto simp: first_capacity_def const_defs)
  let ?x = "u64_to_le xmin @ u64_to_le xmax @ head_bytes i (length data) @ take k data" and ?r = "PAGE_SIZE - 30 - length i - k"
  have e: "versioned_first i data xmin xmax k m = ?x @ replicate (8 + ?r) 0"
    using m [OF True] by (simp add: versioned_first_def u64_to_le_zero replicate_add del: replicate_add [symmetric])
  have "length ?x + (8 + ?r) = PAGE_SIZE" using True kl by simp
  then show ?thesis unfolding e using m [OF True] read_u64_zeros [of ?x "8 + ?r"] by simp
next
  case False
  have il: "length i \<le> 255" using i by (simp add: id_ok_def)
  have kk: "k = PAGE_SIZE - 30 - length i" "k < length data" using False k by (auto simp: first_capacity_def min_def split: if_splits)
  let ?x = "u64_to_le xmin @ u64_to_le xmax @ head_bytes i (length data) @ take k data"
  have "length ?x = PAGE_SIZE - 8" using kk il by (simp add: const_defs)
  then show ?thesis using read_u64_at [of ?x "PAGE_SIZE - 8" m "[]"] kk by (simp add: versioned_first_def)
qed

text \<open>
  \<open>delete_document\<close>, which garbage collection applies to the first page of a removed version,
  frees all pages of a versioned document, although versioned documents have another layout than plain ones.
\<close>

theorem delete_versioned_frees:
  assumes "store_ok s" "room (pages_needed data) s" "id_ok i" "length data \<le> 249998 * MAX_OVERFLOW_DATA"
  shows "\<exists>p d s' tw' s''. write_versioned_document i data xmin xmax (s, tw) = (Ok (p, d), (s', tw')) \<and>
    delete_document p s' = (Ok (), s'') \<and> in_use s'' = in_use s \<and> (\<forall>q \<in> in_use s. page_content s'' q = page_content s q)"
proof -
  let ?d = "\<lparr>vd_id = i, vd_data = data, vd_xmin = xmin, vd_xmax = xmax\<rparr>" and ?k = "first_capacity i data"
  obtain p d qs st' where w: "write_versioned_document i data xmin xmax (s, tw) = (Ok (p, d), st')" "store_ok (fst st')"
    "versioned_stored (both_content st') p qs ?d" "set (p # qs) \<inter> in_use s = {}" "in_use (fst st') = in_use s \<union> set (p # qs)"
    "\<forall>q. q \<notin> set (p # qs) \<longrightarrow> page_content (fst st') q = page_content s q" "pg_metadata_page (fst st') = pg_metadata_page s"
    using write_versioned_spec [of "(s, tw)", unfolded fst_conv, OF assms(1-3)] by blast
  have "versioned_stored (page_content (fst st')) p qs ?d" using versioned_stored_mono [OF w(3)] both_tx_content by simp
  then obtain m where m: "page_content (fst st') p = Some (versioned_first i data xmin xmax ?k m)"
    "chain (page_content (fst st')) m qs (split_chunks (drop ?k data))" "distinct (p # qs)"
    by (auto simp: versioned_stored_def)
  have "m = 0" if "length data = ?k" using m(2) that by (cases qs) simp_all
  then have r: "read_u64 (PAGE_SIZE - 8) (versioned_first i data xmin xmax ?k m) = Ok m"
    by (intro versioned_last_bytes [OF assms(3) refl])
  have l: "length qs \<le> MAX_OVERFLOW_CHAIN_LENGTH"
    using chain_length [OF m(2)] split_chunks_needed [of ?k data] chain_fits [OF assms(4)] by simp
  have u: "set (p # qs) \<subseteq> in_use (fst st')" using w(5) by blast
  have "pg_metadata_page (fst st') \<notin> set (p # qs)" by (rule metadata_not_fresh [OF assms(1) w(4) u w(7)])
  from delete_pages [OF w(2) m(1) r m(2,3) l u this] obtain s'' where s'': "delete_document p (fst st') = (Ok (), s'')"
    "in_use s'' = in_use (fst st') - set (p # qs)" "\<forall>q. q \<notin> set (p # qs) \<longrightarrow> page_content s'' q = page_content (fst st') q"
    by blast
  have "in_use s'' = in_use s" using s''(2) w(4,5) by blast
  moreover have "\<forall>q \<in> in_use s. page_content s'' q = page_content s q" using s''(3) w(4,6) by (metis disjoint_iff)
  ultimately show ?thesis using w(1) s''(1) by (cases st') auto
qed

theorem delete_versioned_frees_witness:
  "\<exists>s p d s' tw' s''. pager_open None 10 False = Ok s \<and>
    write_versioned_document ''k1'' (replicate 9000 7) 5 0 (s, []) = (Ok (p, d), (s', tw')) \<and>
    delete_document p s' = (Ok (), s'') \<and> in_use s'' = in_use s"
proof -
  obtain s where s: "pager_open None 10 False = Ok s" "store_ok s" "room 1000000 s" using new_store [of 10] by auto
  have r: "room (pages_needed (replicate 9000 7)) s" using s(3) by (rule room_mono) (simp add: pages_needed_def const_defs)
  have i: "id_ok ''k1''" by (simp add: id_ok_def rust_string_def as_bytes_def)
  have "length (replicate 9000 (7 :: u8)) \<le> 249998 * MAX_OVERFLOW_DATA" by (simp add: const_defs)
  from delete_versioned_frees [OF s(2) r i this, of 5 0 "[]"] show ?thesis using s(1) by blast
qed

end
