(* ===== verification/Mvcc.thy ===== *)
theory Mvcc
  imports Document
begin

text \<open>
  \<open>src/core/mvcc.rs\<close>: the transaction manager, the visibility of document versions and the
  version chains with their garbage collection.

  The manager's methods first, as functions. They are then taken apart at their atomic
  operations (the atomic counters and the lock on \<open>active_txs\<close>) in a step relation in which
  any number of transactions and collectors run interleaved. Locks are never poisoned.
\<close>

datatype tx_status = Active | Committed | Aborted

record transaction_info =
  ti_id :: tx_id
  ti_start_time :: tx_id
  ti_status :: tx_status

record transaction_manager =
  tm_next_tx_id :: tx_id
  tm_last_committed_tx_id :: tx_id
  tm_active_txs :: "(tx_id, transaction_info) hmap"

definition tm_new :: transaction_manager where
  "tm_new = \<lparr>tm_next_tx_id = 1, tm_last_committed_tx_id = 0, tm_active_txs = []\<rparr>"

definition initialize_from_pager :: "tx_id \<Rightarrow> transaction_manager \<Rightarrow> transaction_manager" where
  "initialize_from_pager current_tx_id m =
     (let m = m\<lparr>tm_next_tx_id := current_tx_id\<rparr> in
      if current_tx_id > 0 then m\<lparr>tm_last_committed_tx_id := current_tx_id - 1\<rparr> else m)"

definition get_latest_committed_tx_id :: "transaction_manager \<Rightarrow> tx_id" where
  "get_latest_committed_tx_id m = tm_last_committed_tx_id m"

text \<open>The three atomic operations of \<open>begin_transaction\<close>: the counter, the load, the insertion.\<close>

definition fetch_tx_id :: "transaction_manager \<Rightarrow> tx_id \<times> transaction_manager" where
  "fetch_tx_id m = (tm_next_tx_id m, m\<lparr>tm_next_tx_id := tm_next_tx_id m + 1\<rparr>)"

definition insert_active :: "tx_id \<Rightarrow> tx_id \<Rightarrow> transaction_manager \<Rightarrow> transaction_manager" where
  "insert_active tx_id snapshot_time m =
     m\<lparr>tm_active_txs := hm_insert tx_id
         \<lparr>ti_id = tx_id, ti_start_time = snapshot_time, ti_status = Active\<rparr> (tm_active_txs m)\<rparr>"

definition begin_transaction :: "transaction_manager \<Rightarrow> tx_id \<times> transaction_manager" where
  "begin_transaction m =
     (case fetch_tx_id m of (tx_id, m) \<Rightarrow>
      let snapshot_time = get_latest_committed_tx_id m
      in (tx_id, insert_active tx_id snapshot_time m))"

definition register_transaction :: "tx_id \<Rightarrow> transaction_manager \<Rightarrow> transaction_manager" where
  "register_transaction tx_id m =
     (let snapshot_time = get_latest_committed_tx_id m in insert_active tx_id snapshot_time m)"

definition set_tx_status :: "tx_id \<Rightarrow> tx_status \<Rightarrow> transaction_manager \<Rightarrow> transaction_manager" where
  "set_tx_status tx_id st m =
     (case hm_get (tm_active_txs m) tx_id of None \<Rightarrow> m
      | Some info \<Rightarrow> m\<lparr>tm_active_txs := hm_insert tx_id (info\<lparr>ti_status := st\<rparr>) (tm_active_txs m)\<rparr>)"

definition commit_transaction :: "tx_id \<Rightarrow> transaction_manager \<Rightarrow> transaction_manager" where
  "commit_transaction tx_id m =
     (let m = set_tx_status tx_id Committed m;
          m = m\<lparr>tm_active_txs := hm_remove tx_id (tm_active_txs m)\<rparr>;
          current_last = tm_last_committed_tx_id m
      in if tx_id > current_last then m\<lparr>tm_last_committed_tx_id := tx_id\<rparr> else m)"

definition abort_transaction :: "tx_id \<Rightarrow> transaction_manager \<Rightarrow> transaction_manager" where
  "abort_transaction tx_id m =
     (let m = set_tx_status tx_id Aborted m in m\<lparr>tm_active_txs := hm_remove tx_id (tm_active_txs m)\<rparr>)"

definition get_oldest_active_transaction :: "transaction_manager \<Rightarrow> tx_id" where
  "get_oldest_active_transaction m =
     (if tm_active_txs m = [] then get_latest_committed_tx_id m + 1
      else fold (\<lambda>info oldest. if ti_start_time info < oldest then ti_start_time info else oldest)
             (map snd (tm_active_txs m)) (- 1))"

record document_version =
  dv_doc_id :: string
  dv_xmin :: tx_id
  dv_xmax :: tx_id
  dv_data :: bytes
  dv_page_num :: page_num

definition dv_is_visible :: "document_version \<Rightarrow> tx_id \<Rightarrow> bool" where
  "dv_is_visible v tx_id =
     (if dv_xmin v > tx_id then False
      else if dv_xmax v \<noteq> 0 \<and> dv_xmax v \<le> tx_id then False
      else True)"

record version_chain =
  vc_doc_id :: string
  vc_versions :: "document_version list"

definition vc_new :: "string \<Rightarrow> version_chain" where
  "vc_new docid = \<lparr>vc_doc_id = docid, vc_versions = []\<rparr>"

definition add_version :: "document_version \<Rightarrow> version_chain \<Rightarrow> version_chain" where
  "add_version v c = c\<lparr>vc_versions := vc_versions c @ [v]\<rparr>"

fun gc_loop :: "tx_id \<Rightarrow> document_version list \<Rightarrow> document_version list \<Rightarrow> document_version list \<Rightarrow>
    document_version list \<times> document_version list" where
  "gc_loop oldest [] removed kept = (removed, kept)"
| "gc_loop oldest (v # vs) removed kept =
     (if dv_xmin v \<ge> oldest \<or> (dv_xmax v = 0 \<or> dv_xmax v \<ge> oldest)
      then gc_loop oldest vs removed (kept @ [v])
      else gc_loop oldest vs (removed @ [v]) kept)"

definition chain_garbage_collect :: "tx_id \<Rightarrow> version_chain \<Rightarrow> document_version list \<times> version_chain" where
  "chain_garbage_collect oldest_active_tx c =
     (case gc_loop oldest_active_tx (vc_versions c) [] [] of (removed, kept) \<Rightarrow> (removed, c\<lparr>vc_versions := kept\<rparr>))"

definition get_versions :: "version_chain \<Rightarrow> document_version list" where
  "get_versions c = vc_versions c"


subsection \<open>Transactions and collectors interleaved\<close>

text \<open>
  What one thread has done of \<open>Transaction::new\<close> (\<open>begin_transaction\<close>, then a second load of the last
  committed id, which becomes the transaction's snapshot) and of its commit or rollback.
\<close>

datatype tx_phase =
    Idle
  | Fetched tx_id
  | Loaded tx_id tx_id
  | Registered tx_id
  | Live tx_id tx_id
  | Finished

record mvcc_state =
  ms_manager :: transaction_manager
  ms_threads :: "nat \<Rightarrow> tx_phase"
  ms_fetches :: nat
  ms_horizons :: "tx_id set"

text \<open>
  \<open>ms_fetches\<close> counts the ids handed out, \<open>ms_horizons\<close> holds every result of
  \<open>get_oldest_active_transaction\<close> that a collector has obtained and may use at any later time.
\<close>

inductive mvcc_step :: "mvcc_state \<Rightarrow> mvcc_state \<Rightarrow> bool" where
  fetch: "ms_threads s i = Idle \<Longrightarrow> fetch_tx_id (ms_manager s) = (t, m) \<Longrightarrow>
    mvcc_step s (s\<lparr>ms_manager := m, ms_threads := (ms_threads s)(i := Fetched t), ms_fetches := Suc (ms_fetches s)\<rparr>)"
| load: "ms_threads s i = Fetched t \<Longrightarrow>
    mvcc_step s (s\<lparr>ms_threads := (ms_threads s)(i := Loaded t (get_latest_committed_tx_id (ms_manager s)))\<rparr>)"
| insert: "ms_threads s i = Loaded t st \<Longrightarrow>
    mvcc_step s (s\<lparr>ms_manager := insert_active t st (ms_manager s), ms_threads := (ms_threads s)(i := Registered t)\<rparr>)"
| snapshot: "ms_threads s i = Registered t \<Longrightarrow>
    mvcc_step s (s\<lparr>ms_threads := (ms_threads s)(i := Live t (get_latest_committed_tx_id (ms_manager s)))\<rparr>)"
| commit: "ms_threads s i = Live t snap \<Longrightarrow>
    mvcc_step s (s\<lparr>ms_manager := commit_transaction t (ms_manager s), ms_threads := (ms_threads s)(i := Finished)\<rparr>)"
| abort: "ms_threads s i = Live t snap \<Longrightarrow>
    mvcc_step s (s\<lparr>ms_manager := abort_transaction t (ms_manager s), ms_threads := (ms_threads s)(i := Finished)\<rparr>)"
| oldest: "mvcc_step s (s\<lparr>ms_horizons := insert (get_oldest_active_transaction (ms_manager s)) (ms_horizons s)\<rparr>)"

definition mvcc_init :: "tx_id \<Rightarrow> mvcc_state" where
  "mvcc_init current_tx_id = \<lparr>ms_manager = initialize_from_pager current_tx_id tm_new,
     ms_threads = (\<lambda>_. Idle), ms_fetches = 0, ms_horizons = {}\<rparr>"

inductive mvcc_reach :: "tx_id \<Rightarrow> mvcc_state \<Rightarrow> bool" for n where
  init: "mvcc_reach n (mvcc_init n)"
| step: "mvcc_reach n s \<Longrightarrow> mvcc_step s s' \<Longrightarrow> mvcc_reach n s'"


subsection \<open>Specification\<close>

text \<open>A horizon \<open>h\<close> respects a snapshot when everything below it is at most the snapshot.\<close>

definition horizon_ok :: "tx_id \<Rightarrow> tx_id \<Rightarrow> bool" where
  "horizon_ok h t \<longleftrightarrow> (\<forall>x < h. x \<le> t)"

fun phase_id :: "tx_phase \<Rightarrow> tx_id option" where
  "phase_id (Fetched t) = Some t"
| "phase_id (Loaded t st) = Some t"
| "phase_id (Registered t) = Some t"
| "phase_id (Live t snap) = Some t"
| "phase_id _ = None"

text \<open>The ids handed out so far, starting from \<open>n\<close>.\<close>

definition issued :: "tx_id \<Rightarrow> nat \<Rightarrow> tx_id set" where
  "issued n k = {n + word_of_nat j |j. j < k}"

definition registered :: "transaction_manager \<Rightarrow> tx_id \<Rightarrow> tx_id \<Rightarrow> bool" where
  "registered m t snap \<longleftrightarrow> (\<exists>info. hm_get (tm_active_txs m) t = Some info \<and> ti_start_time info \<le> snap)"

definition mvcc_inv :: "tx_id \<Rightarrow> mvcc_state \<Rightarrow> bool" where
  "mvcc_inv n s \<longleftrightarrow>
     tm_next_tx_id (ms_manager s) = n + word_of_nat (ms_fetches s) \<and>
     (\<forall>i t. phase_id (ms_threads s i) = Some t \<longrightarrow> t \<in> issued n (ms_fetches s)) \<and>
     (\<forall>i j t. phase_id (ms_threads s i) = Some t \<longrightarrow> phase_id (ms_threads s j) = Some t \<longrightarrow> i = j) \<and>
     (\<forall>i t st. ms_threads s i = Loaded t st \<longrightarrow> st \<le> tm_last_committed_tx_id (ms_manager s)) \<and>
     (\<forall>info \<in> snd ` set (tm_active_txs (ms_manager s)). ti_start_time info \<le> tm_last_committed_tx_id (ms_manager s)) \<and>
     (\<forall>i t. ms_threads s i = Registered t \<longrightarrow> registered (ms_manager s) t (tm_last_committed_tx_id (ms_manager s))) \<and>
     (\<forall>i t snap. ms_threads s i = Live t snap \<longrightarrow> registered (ms_manager s) t snap) \<and>
     (\<forall>h \<in> ms_horizons s. horizon_ok h (tm_last_committed_tx_id (ms_manager s))) \<and>
     (\<forall>h \<in> ms_horizons s. \<forall>i t snap. ms_threads s i = Live t snap \<longrightarrow> horizon_ok h snap)"

definition gc_keeps :: "tx_id \<Rightarrow> document_version \<Rightarrow> bool" where
  "gc_keeps h v \<longleftrightarrow> dv_xmin v \<ge> h \<or> (dv_xmax v = 0 \<or> dv_xmax v \<ge> h)"

text \<open>One thread's \<open>Transaction::new\<close> run without interruption, and its commit.\<close>

definition run_begin :: "nat \<Rightarrow> mvcc_state \<Rightarrow> mvcc_state" where
  "run_begin i s = s\<lparr>ms_manager := snd (begin_transaction (ms_manager s)),
     ms_threads := (ms_threads s)(i := Live (tm_next_tx_id (ms_manager s)) (get_latest_committed_tx_id (ms_manager s))),
     ms_fetches := Suc (ms_fetches s)\<rparr>"

definition run_commit :: "nat \<Rightarrow> tx_id \<Rightarrow> mvcc_state \<Rightarrow> mvcc_state" where
  "run_commit i t s = s\<lparr>ms_manager := commit_transaction t (ms_manager s), ms_threads := (ms_threads s)(i := Finished)\<rparr>"


subsection \<open>Lemmas\<close>

lemma horizon_ok_mono: "horizon_ok h t \<Longrightarrow> t \<le> t' \<Longrightarrow> horizon_ok h t'"
  unfolding horizon_ok_def by (meson order_trans)

lemma horizon_ok_le: "h \<le> t \<Longrightarrow> horizon_ok h t"
  unfolding horizon_ok_def by auto

lemma horizon_ok_succ: "horizon_ok (t + 1) t"
proof (cases "t = - 1")
  case False
  show ?thesis unfolding horizon_ok_def
  proof (intro allI impI)
    fix x assume "x < t + 1"
    then have "x < t \<or> x = t" using less_plus_one [OF False] by blast
    then show "x \<le> t" by (auto intro: less_imp_le)
  qed
qed (simp add: horizon_ok_def)

lemma registered_mono: "registered m t a \<Longrightarrow> a \<le> b \<Longrightarrow> registered m t b"
  unfolding registered_def by (meson order_trans)

lemma fold_min_le:
  fixes f :: "'a \<Rightarrow> u64"
  shows "fold (\<lambda>x o'. if f x < o' then f x else o') xs a \<le> a \<and> (\<forall>x \<in> set xs. fold (\<lambda>x o'. if f x < o' then f x else o') xs a \<le> f x)"
proof (induction xs arbitrary: a)
  case (Cons x xs)
  show ?case using Cons.IH [of "f x"] Cons.IH [of a] by (auto simp: not_less)
qed simp

lemma oldest_le:
  assumes "info \<in> snd ` set (tm_active_txs m)"
  shows "get_oldest_active_transaction m \<le> ti_start_time info"
proof -
  have "tm_active_txs m \<noteq> []" using assms by auto
  moreover have "info \<in> set (map snd (tm_active_txs m))" using assms by simp
  note bspec [OF conjunct2 [OF fold_min_le [where f = ti_start_time and xs = "map snd (tm_active_txs m)" and a = "- 1"]] this]
  ultimately show ?thesis by (simp only: get_oldest_active_transaction_def if_False)
qed

lemma registered_in: "registered m t snap \<Longrightarrow> \<exists>info \<in> snd ` set (tm_active_txs m). ti_start_time info \<le> snap"
  by (auto simp: registered_def dest!: map_of_SomeD) force

lemma issued_Suc: "issued n (Suc k) = insert (n + word_of_nat k) (issued n k)"
  by (auto simp: issued_def less_Suc_eq)

lemma fresh_id: "unat n + Suc k \<le> 2 ^ 64 \<Longrightarrow> n + word_of_nat k \<notin> issued n k"
proof
  assume k: "unat n + Suc k \<le> 2 ^ 64" and "n + word_of_nat k \<in> issued n k"
  then obtain j where j: "j < k" "(word_of_nat k :: u64) = word_of_nat j" by (auto simp: issued_def)
  then have "unat (word_of_nat k :: u64) = unat (word_of_nat j :: u64)" by simp
  moreover have "k < 2 ^ 64" "j < 2 ^ 64" using k j(1) by simp_all
  ultimately show False using j(1) by (simp add: unat_of_nat)
qed

text \<open>What the manager's methods do to the active transactions and the last committed id.\<close>

lemma manager_effects [simp]:
  "tm_next_tx_id (insert_active t st m) = tm_next_tx_id m"
  "tm_last_committed_tx_id (insert_active t st m) = tm_last_committed_tx_id m"
  "tm_next_tx_id (commit_transaction t m) = tm_next_tx_id m"
  "tm_next_tx_id (abort_transaction t m) = tm_next_tx_id m"
  "tm_last_committed_tx_id (abort_transaction t m) = tm_last_committed_tx_id m"
  "tm_last_committed_tx_id (commit_transaction t m) = max t (tm_last_committed_tx_id m)"
  by (auto simp: insert_active_def commit_transaction_def abort_transaction_def set_tx_status_def Let_def max_def not_less split: option.splits)

lemma delete_update_alist: "AList.delete k (AList.update k v m) = AList.delete k m"
  by (induction m) (auto simp: AList.delete_eq)

lemma active_commit [simp]: "tm_active_txs (commit_transaction t m) = hm_remove t (tm_active_txs m)"
  by (auto simp: commit_transaction_def set_tx_status_def Let_def delete_update_alist split: option.splits)

lemma active_abort [simp]: "tm_active_txs (abort_transaction t m) = hm_remove t (tm_active_txs m)"
  by (auto simp: abort_transaction_def set_tx_status_def Let_def delete_update_alist split: option.splits)

lemma active_insert [simp]:
  "tm_active_txs (insert_active t st m) = hm_insert t \<lparr>ti_id = t, ti_start_time = st, ti_status = Active\<rparr> (tm_active_txs m)"
  by (simp add: insert_active_def)

lemma snd_update_subset: "snd ` set (AList.update k v m) \<subseteq> insert v (snd ` set m)"
  by (induction m) auto

lemma snd_delete_subset: "snd ` set (AList.delete k m) \<subseteq> snd ` set m"
  by (auto simp: AList.delete_eq)

lemma registered_insert_other: "t \<noteq> u \<Longrightarrow> registered (insert_active u st m) t x = registered m t x"
  "registered (insert_active t st m) t st"
  by (simp_all add: registered_def)

lemma registered_remove:
  "t \<noteq> u \<Longrightarrow> registered (commit_transaction u m) t x = registered m t x"
  "t \<noteq> u \<Longrightarrow> registered (abort_transaction u m) t x = registered m t x"
  by (simp_all add: registered_def)

lemma mvcc_invD:
  assumes "mvcc_inv n s"
  shows "tm_next_tx_id (ms_manager s) = n + word_of_nat (ms_fetches s)"
    "\<And>i t. phase_id (ms_threads s i) = Some t \<Longrightarrow> t \<in> issued n (ms_fetches s)"
    "\<And>i j t. phase_id (ms_threads s i) = Some t \<Longrightarrow> phase_id (ms_threads s j) = Some t \<Longrightarrow> i = j"
    "\<And>i t st. ms_threads s i = Loaded t st \<Longrightarrow> st \<le> tm_last_committed_tx_id (ms_manager s)"
    "\<And>info. info \<in> snd ` set (tm_active_txs (ms_manager s)) \<Longrightarrow> ti_start_time info \<le> tm_last_committed_tx_id (ms_manager s)"
    "\<And>i t. ms_threads s i = Registered t \<Longrightarrow> registered (ms_manager s) t (tm_last_committed_tx_id (ms_manager s))"
    "\<And>i t snap. ms_threads s i = Live t snap \<Longrightarrow> registered (ms_manager s) t snap"
    "\<And>h. h \<in> ms_horizons s \<Longrightarrow> horizon_ok h (tm_last_committed_tx_id (ms_manager s))"
    "\<And>h i t snap. h \<in> ms_horizons s \<Longrightarrow> ms_threads s i = Live t snap \<Longrightarrow> horizon_ok h snap"
proof -
  note c = assms [unfolded mvcc_inv_def]
  show "tm_next_tx_id (ms_manager s) = n + word_of_nat (ms_fetches s)" by (rule c [THEN conjunct1])
  show "\<And>i t. phase_id (ms_threads s i) = Some t \<Longrightarrow> t \<in> issued n (ms_fetches s)"
    by (rule c [THEN conjunct2, THEN conjunct1, rule_format])
  show "\<And>i j t. phase_id (ms_threads s i) = Some t \<Longrightarrow> phase_id (ms_threads s j) = Some t \<Longrightarrow> i = j"
    by (rule c [THEN conjunct2, THEN conjunct2, THEN conjunct1, rule_format])
  show "\<And>i t st. ms_threads s i = Loaded t st \<Longrightarrow> st \<le> tm_last_committed_tx_id (ms_manager s)"
    by (rule c [THEN conjunct2, THEN conjunct2, THEN conjunct2, THEN conjunct1, rule_format])
  show "\<And>info. info \<in> snd ` set (tm_active_txs (ms_manager s)) \<Longrightarrow> ti_start_time info \<le> tm_last_committed_tx_id (ms_manager s)"
    by (rule c [THEN conjunct2, THEN conjunct2, THEN conjunct2, THEN conjunct2, THEN conjunct1, rule_format])
  show "\<And>i t. ms_threads s i = Registered t \<Longrightarrow> registered (ms_manager s) t (tm_last_committed_tx_id (ms_manager s))"
    by (rule c [THEN conjunct2, THEN conjunct2, THEN conjunct2, THEN conjunct2, THEN conjunct2, THEN conjunct1, rule_format])
  show "\<And>i t snap. ms_threads s i = Live t snap \<Longrightarrow> registered (ms_manager s) t snap"
    by (rule c [THEN conjunct2, THEN conjunct2, THEN conjunct2, THEN conjunct2, THEN conjunct2, THEN conjunct2, THEN conjunct1, rule_format])
  show "\<And>h. h \<in> ms_horizons s \<Longrightarrow> horizon_ok h (tm_last_committed_tx_id (ms_manager s))"
    by (rule c [THEN conjunct2, THEN conjunct2, THEN conjunct2, THEN conjunct2, THEN conjunct2, THEN conjunct2, THEN conjunct2, THEN conjunct1, rule_format])
  show "\<And>h i t snap. h \<in> ms_horizons s \<Longrightarrow> ms_threads s i = Live t snap \<Longrightarrow> horizon_ok h snap"
    by (rule c [THEN conjunct2, THEN conjunct2, THEN conjunct2, THEN conjunct2, THEN conjunct2, THEN conjunct2, THEN conjunct2, THEN conjunct2, rule_format])
qed

lemma mvcc_invI:
  assumes "tm_next_tx_id (ms_manager s) = n + word_of_nat (ms_fetches s)"
    "\<And>i t. phase_id (ms_threads s i) = Some t \<Longrightarrow> t \<in> issued n (ms_fetches s)"
    "\<And>i j t. phase_id (ms_threads s i) = Some t \<Longrightarrow> phase_id (ms_threads s j) = Some t \<Longrightarrow> i = j"
    "\<And>i t st. ms_threads s i = Loaded t st \<Longrightarrow> st \<le> tm_last_committed_tx_id (ms_manager s)"
    "\<And>info. info \<in> snd ` set (tm_active_txs (ms_manager s)) \<Longrightarrow> ti_start_time info \<le> tm_last_committed_tx_id (ms_manager s)"
    "\<And>i t. ms_threads s i = Registered t \<Longrightarrow> registered (ms_manager s) t (tm_last_committed_tx_id (ms_manager s))"
    "\<And>i t snap. ms_threads s i = Live t snap \<Longrightarrow> registered (ms_manager s) t snap"
    "\<And>h. h \<in> ms_horizons s \<Longrightarrow> horizon_ok h (tm_last_committed_tx_id (ms_manager s))"
    "\<And>h i t snap. h \<in> ms_horizons s \<Longrightarrow> ms_threads s i = Live t snap \<Longrightarrow> horizon_ok h snap"
  shows "mvcc_inv n s"
  unfolding mvcc_inv_def by (intro conjI allI impI ballI) (rule assms; assumption)+

lemma inv_init: "mvcc_inv n (mvcc_init n)"
  by (rule mvcc_invI) (auto simp: mvcc_init_def initialize_from_pager_def tm_new_def Let_def split: if_splits)

lemma inv_fetch:
  assumes inv: "mvcc_inv n s" and i: "ms_threads s i = Idle" and f: "fetch_tx_id (ms_manager s) = (t, m)"
    and b: "unat n + Suc (ms_fetches s) \<le> 2 ^ 64"
  shows "mvcc_inv n (s\<lparr>ms_manager := m, ms_threads := (ms_threads s)(i := Fetched t), ms_fetches := Suc (ms_fetches s)\<rparr>)"
proof -
  note d = mvcc_invD [OF inv]
  have t: "t = n + word_of_nat (ms_fetches s)" "tm_next_tx_id m = tm_next_tx_id (ms_manager s) + 1"
    "tm_last_committed_tx_id m = tm_last_committed_tx_id (ms_manager s)" "tm_active_txs m = tm_active_txs (ms_manager s)"
    using f d(1) by (auto simp: fetch_tx_id_def)
  have new: "phase_id (ms_threads s j) \<noteq> Some t" for j using fresh_id [OF b] d(2) t(1) by auto
  have reg: "registered m = registered (ms_manager s)" using t(4) by (simp add: registered_def fun_eq_iff)
  show ?thesis
  proof (rule mvcc_invI, goal_cases)
    case 1
    then show ?case using d(1) t(2) by (simp add: add.assoc)
  next
    case (2 j u)
    then show ?case using d(2) t(1) by (auto simp: issued_Suc split: if_splits)
  next
    case (3 j k u)
    then show ?case using d(3) new by (auto split: if_splits)
  qed (use d t reg in \<open>auto split: if_splits\<close>)
qed

lemma inv_load:
  assumes inv: "mvcc_inv n s" and i: "ms_threads s i = Fetched t"
  shows "mvcc_inv n (s\<lparr>ms_threads := (ms_threads s)(i := Loaded t (get_latest_committed_tx_id (ms_manager s)))\<rparr>)"
proof -
  note d = mvcc_invD [OF inv]
  have p: "phase_id (((ms_threads s)(i := Loaded t x)) j) = phase_id (ms_threads s j)" for j x using i by simp
  show ?thesis
  proof (rule mvcc_invI, goal_cases)
    case (3 j k u)
    then show ?case using d(3) [of j u k] i by (auto split: if_splits)
  qed (use d p i in \<open>auto simp: get_latest_committed_tx_id_def split: if_splits\<close>)
qed

lemma inv_insert:
  assumes inv: "mvcc_inv n s" and i: "ms_threads s i = Loaded t st"
  shows "mvcc_inv n (s\<lparr>ms_manager := insert_active t st (ms_manager s), ms_threads := (ms_threads s)(i := Registered t)\<rparr>)"
proof -
  note d = mvcc_invD [OF inv]
  have p: "phase_id (((ms_threads s)(i := Registered t)) j) = phase_id (ms_threads s j)" for j using i by simp
  have other: "u \<noteq> t" if "phase_id (ms_threads s j) = Some u" "j \<noteq> i" for j u
    using d(3) [OF that(1), of i] that(2) i by auto
  have reg: "registered (insert_active t st (ms_manager s)) u x" if "registered (ms_manager s) u x" "phase_id (ms_threads s j) = Some u" "j \<noteq> i" for j u x
    using that(1) registered_insert_other(1) [OF other [OF that(2,3)]] by simp
  have regt: "registered (insert_active t st (ms_manager s)) t (tm_last_committed_tx_id (ms_manager s))"
    using registered_mono [OF registered_insert_other(2) d(4) [OF i]] .
  show ?thesis
  proof (rule mvcc_invI, goal_cases)
    case (2 j u)
    then show ?case using d(2) [of j u] i by (auto split: if_splits)
  next
    case (3 j k u)
    then show ?case using d(3) [of j u k] i by (auto split: if_splits)
  next
    case (5 info)
    have e: "ms_manager (s\<lparr>ms_manager := insert_active t st (ms_manager s), ms_threads := (ms_threads s)(i := Registered t)\<rparr>) =
        insert_active t st (ms_manager s)" by simp
    have "info \<in> insert \<lparr>ti_id = t, ti_start_time = st, ti_status = Active\<rparr> (snd ` set (tm_active_txs (ms_manager s)))"
      using 5 unfolding e active_insert by (rule subsetD [OF snd_update_subset])
    then show ?case using d(4) [OF i] d(5) [of info] by auto
  next
    case (6 j u)
    then show ?case using d(6) [of j u] reg [of u _ j] regt by (cases "j = i") simp_all
  next
    case (7 j u snap)
    then show ?case using d(7) [of j u snap] reg [of u _ j] by (cases "j = i") simp_all
  next
    case 1
    then show ?case using d(1) by simp
  next
    case (4 j u x)
    then show ?case using d(4) [of j u x] by (auto split: if_splits)
  next
    case (8 h)
    then show ?case using d(8) by simp
  next
    case (9 h j u x)
    then show ?case using d(9) [of h j u x] by (auto split: if_splits)
  qed
qed

lemma inv_snapshot:
  assumes inv: "mvcc_inv n s" and i: "ms_threads s i = Registered t"
  shows "mvcc_inv n (s\<lparr>ms_threads := (ms_threads s)(i := Live t (get_latest_committed_tx_id (ms_manager s)))\<rparr>)"
proof -
  note d = mvcc_invD [OF inv]
  have p: "phase_id (((ms_threads s)(i := Live t x)) j) = phase_id (ms_threads s j)" for j x using i by simp
  show ?thesis
  proof (rule mvcc_invI, goal_cases)
    case (3 j k u)
    then show ?case using d(3) [of j u k] i by (auto split: if_splits)
  qed (use d p i in \<open>auto simp: get_latest_committed_tx_id_def split: if_splits\<close>)
qed

text \<open>Commit and abort both remove the transaction and never lower the last committed id.\<close>

lemma inv_finish:
  assumes inv: "mvcc_inv n s" and i: "ms_threads s i = Live t snap"
    and m: "tm_next_tx_id m = tm_next_tx_id (ms_manager s)" "tm_active_txs m = hm_remove t (tm_active_txs (ms_manager s))"
      "tm_last_committed_tx_id (ms_manager s) \<le> tm_last_committed_tx_id m"
  shows "mvcc_inv n (s\<lparr>ms_manager := m, ms_threads := (ms_threads s)(i := Finished)\<rparr>)"
proof -
  note d = mvcc_invD [OF inv]
  have other: "u \<noteq> t" if "phase_id (ms_threads s j) = Some u" "j \<noteq> i" for j u
    using d(3) [OF that(1), of i] that(2) i by auto
  have reg: "registered m u x" if "registered (ms_manager s) u x" "phase_id (ms_threads s j) = Some u" "j \<noteq> i" for j u x
    using that other [OF that(2,3)] m(2) by (simp add: registered_def)
  show ?thesis
  proof (rule mvcc_invI, goal_cases)
    case (3 j k u)
    then show ?case using d(3) by (auto split: if_splits)
  next
    case (4 j u st)
    then have "ms_threads s j = Loaded u st" by (auto split: if_splits)
    from order_trans [OF d(4) [OF this] m(3)] show ?case by simp
  next
    case (5 info)
    have e: "ms_manager (s\<lparr>ms_manager := m, ms_threads := (ms_threads s)(i := Finished)\<rparr>) = m" by simp
    have "info \<in> snd ` set (tm_active_txs (ms_manager s))"
      using 5 unfolding e m(2) by (rule subsetD [OF snd_delete_subset])
    from order_trans [OF d(5) [OF this] m(3)] show ?case by simp
  next
    case (6 j u)
    then have j: "ms_threads s j = Registered u" "j \<noteq> i" by (auto split: if_splits)
    then have "registered m u (tm_last_committed_tx_id (ms_manager s))" using reg [OF d(6) [OF j(1)], of j] by simp
    from registered_mono [OF this m(3)] show ?case by simp
  next
    case (7 j u snap)
    then have j: "ms_threads s j = Live u snap" "j \<noteq> i" by (auto split: if_splits)
    then show ?case using reg [OF d(7) [OF j(1)], of j] by simp
  next
    case (8 h)
    then show ?case using horizon_ok_mono [OF d(8) m(3)] by simp
  next
    case 1
    then show ?case using d(1) m(1) by simp
  next
    case (2 j u)
    then show ?case using d(2) [of j u] by (auto split: if_splits)
  next
    case (9 h j u x)
    then show ?case using d(9) [of h j u x] by (auto split: if_splits)
  qed
qed

lemma inv_oldest:
  assumes inv: "mvcc_inv n s"
  shows "mvcc_inv n (s\<lparr>ms_horizons := insert (get_oldest_active_transaction (ms_manager s)) (ms_horizons s)\<rparr>)"
proof -
  note d = mvcc_invD [OF inv]
  let ?o = "get_oldest_active_transaction (ms_manager s)"
  have last: "horizon_ok ?o (tm_last_committed_tx_id (ms_manager s))"
  proof (cases "tm_active_txs (ms_manager s)")
    case Nil
    then show ?thesis using horizon_ok_succ by (simp add: get_oldest_active_transaction_def get_latest_committed_tx_id_def)
  next
    case (Cons e es)
    then have "snd e \<in> snd ` set (tm_active_txs (ms_manager s))" by simp
    then show ?thesis using oldest_le d(5) horizon_ok_le order_trans by blast
  qed
  have live: "horizon_ok ?o snap" if "ms_threads s i = Live t snap" for i t snap
    using registered_in [OF d(7) [OF that]] oldest_le horizon_ok_le order_trans by blast
  show ?thesis by (rule mvcc_invI) (use d last live in auto)
qed

lemma inv_step:
  assumes "mvcc_step s s'" "mvcc_inv n s" "unat n + ms_fetches s' \<le> 2 ^ 64"
  shows "mvcc_inv n s'"
  using assms
proof (induction rule: mvcc_step.induct)
  case (fetch s i t m)
  then show ?case by (intro inv_fetch) simp_all
next
  case (load s i t)
  then show ?case by (intro inv_load)
next
  case (insert s i t st)
  then show ?case by (intro inv_insert)
next
  case (snapshot s i t)
  then show ?case by (intro inv_snapshot)
next
  case (commit s i t snap)
  then show ?case by (intro inv_finish) simp_all
next
  case (abort s i t snap)
  then show ?case by (intro inv_finish) simp_all
next
  case (oldest s)
  then show ?case by (intro inv_oldest)
qed

lemma fetches_mono: "mvcc_step s s' \<Longrightarrow> ms_fetches s \<le> ms_fetches s'"
  by (induction rule: mvcc_step.induct) simp_all

lemma inv_reach: "mvcc_reach n s \<Longrightarrow> unat n + ms_fetches s \<le> 2 ^ 64 \<Longrightarrow> mvcc_inv n s"
proof (induction rule: mvcc_reach.induct)
  case init
  show ?case by (rule inv_init)
next
  case (step s s')
  then show ?case using inv_step fetches_mono [OF step.hyps(2)] by simp
qed

subsection \<open>Visibility and garbage collection\<close>

text \<open>
  The interface both kinds of version implement: a version is visible from its creating
  transaction on until the transaction that replaced it.
\<close>

locale stamped =
  fixes xmin :: "'v \<Rightarrow> tx_id"
    and xmax :: "'v \<Rightarrow> tx_id"
    and visible :: "'v \<Rightarrow> tx_id \<Rightarrow> bool"
  assumes visible_iff: "visible v t \<longleftrightarrow> xmin v \<le> t \<and> (xmax v = 0 \<or> t < xmax v)"
begin

lemma superseded_invisible:
  assumes "horizon_ok h t" "xmax v \<noteq> 0" "xmax v < h"
  shows "\<not> visible v t"
  using assms by (auto simp: visible_iff horizon_ok_def not_less)

lemma filter_kept:
  assumes "horizon_ok h t" and keep: "\<And>v. \<not> keep v \<Longrightarrow> xmax v \<noteq> 0 \<and> xmax v < h"
  shows "filter (\<lambda>v. visible v t) (filter keep vs) = filter (\<lambda>v. visible v t) vs"
proof -
  have "visible v t \<and> keep v \<longleftrightarrow> visible v t" for v using superseded_invisible [OF assms(1), of v] keep [of v] by blast
  then show ?thesis by (simp add: conj_commute)
qed

text \<open>At most one of two versions with adjacent stamps is visible to one snapshot.\<close>

lemma handover: "xmax v = xmin w \<Longrightarrow> xmin w \<noteq> 0 \<Longrightarrow> \<not> (visible v t \<and> visible w t)"
  by (auto simp: visible_iff)

end

interpretation dv: stamped dv_xmin dv_xmax dv_is_visible
  by unfold_locales (auto simp: dv_is_visible_def not_less)

interpretation vd: stamped vd_xmin vd_xmax vd_is_visible
  by unfold_locales (auto simp: vd_is_visible_def not_less)

lemma gc_loop_eq: "gc_loop h vs removed kept = (removed @ filter (\<lambda>v. \<not> gc_keeps h v) vs, kept @ filter (gc_keeps h) vs)"
  by (induction vs arbitrary: removed kept) (auto simp: gc_keeps_def)

lemma chain_gc_eq:
  "chain_garbage_collect h c = (filter (\<lambda>v. \<not> gc_keeps h v) (vc_versions c), c\<lparr>vc_versions := filter (gc_keeps h) (vc_versions c)\<rparr>)"
  by (simp add: chain_garbage_collect_def gc_loop_eq)

text \<open>
  C9: however transactions and garbage collections interleave, at the level of the single atomic
  operations, a collection with any horizon a collector has obtained so far leaves each live
  transaction exactly the versions its snapshot can see, and frees none of them.
\<close>

theorem gc_preserves_snapshots:
  assumes "mvcc_reach n s" "unat n + ms_fetches s \<le> 2 ^ 64"
    and "h \<in> ms_horizons s" "ms_threads s i = Live t snap"
    and "chain_garbage_collect h c = (removed, c')"
  shows "filter (\<lambda>v. dv_is_visible v snap) (get_versions c') = filter (\<lambda>v. dv_is_visible v snap) (get_versions c) \<and>
    (\<forall>v \<in> set removed. \<not> dv_is_visible v snap)"
proof -
  have ok: "horizon_ok h snap" using mvcc_invD(9) [OF inv_reach [OF assms(1,2)] assms(3,4)] .
  have k: "\<And>v. \<not> gc_keeps h v \<Longrightarrow> dv_xmax v \<noteq> 0 \<and> dv_xmax v < h" by (auto simp: gc_keeps_def)
  have c: "removed = filter (\<lambda>v. \<not> gc_keeps h v) (vc_versions c)" "vc_versions c' = filter (gc_keeps h) (vc_versions c)"
    using assms(5) by (auto simp: chain_gc_eq)
  have "filter (\<lambda>v. dv_is_visible v snap) (get_versions c') = filter (\<lambda>v. dv_is_visible v snap) (get_versions c)"
    unfolding get_versions_def c(2) by (rule dv.filter_kept [OF ok k])
  moreover have "\<forall>v \<in> set removed. \<not> dv_is_visible v snap"
    using c(1) dv.superseded_invisible [OF ok] k by auto
  ultimately show ?thesis by blast
qed

lemma reach_begin:
  assumes "mvcc_reach n s" "ms_threads s i = Idle"
  shows "mvcc_reach n (run_begin i s)"
proof -
  let ?m = "ms_manager s" and ?t = "tm_next_tx_id (ms_manager s)"
  let ?m1 = "?m\<lparr>tm_next_tx_id := ?t + 1\<rparr>" and ?l = "tm_last_committed_tx_id ?m"
  let ?s1 = "s\<lparr>ms_manager := ?m1, ms_threads := (ms_threads s)(i := Fetched ?t), ms_fetches := Suc (ms_fetches s)\<rparr>"
  let ?s2 = "?s1\<lparr>ms_threads := (ms_threads s)(i := Loaded ?t ?l)\<rparr>"
  let ?s3 = "?s2\<lparr>ms_manager := insert_active ?t ?l ?m1, ms_threads := (ms_threads s)(i := Registered ?t)\<rparr>"
  have "mvcc_step s ?s1" using mvcc_step.fetch [OF assms(2)] by (simp add: fetch_tx_id_def)
  moreover have "mvcc_step ?s1 ?s2" using mvcc_step.load [of ?s1 i ?t] by (simp add: get_latest_committed_tx_id_def)
  moreover have "mvcc_step ?s2 ?s3" using mvcc_step.insert [of ?s2 i ?t ?l] by simp
  moreover have "run_begin i s = ?s3\<lparr>ms_threads := (ms_threads s)(i := Live ?t ?l)\<rparr>"
    by (rule mvcc_state.equality)
      (simp_all add: run_begin_def begin_transaction_def fetch_tx_id_def get_latest_committed_tx_id_def insert_active_def)
  then have "mvcc_step ?s3 (run_begin i s)"
    using mvcc_step.snapshot [of ?s3 i ?t] by (simp add: get_latest_committed_tx_id_def)
  ultimately show ?thesis using assms(1) by (meson mvcc_reach.step)
qed

lemma reach_commit: "mvcc_reach n s \<Longrightarrow> ms_threads s i = Live t snap \<Longrightarrow> mvcc_reach n (run_commit i t s)"
  unfolding run_commit_def by (rule mvcc_reach.step [OF _ mvcc_step.commit])

lemma reach_oldest:
  "mvcc_reach n s \<Longrightarrow> mvcc_reach n (s\<lparr>ms_horizons := insert (get_oldest_active_transaction (ms_manager s)) (ms_horizons s)\<rparr>)"
  by (rule mvcc_reach.step [OF _ mvcc_step.oldest])

theorem gc_preserves_snapshots_witness:
  "\<exists>s h c'. mvcc_reach 1 s \<and> h \<in> ms_horizons s \<and> ms_threads s 1 = Live 2 1 \<and>
     chain_garbage_collect h \<lparr>vc_doc_id = ''a'', vc_versions =
         [\<lparr>dv_doc_id = ''a'', dv_xmin = 0, dv_xmax = 1, dv_data = [], dv_page_num = 5\<rparr>,
          \<lparr>dv_doc_id = ''a'', dv_xmin = 1, dv_xmax = 0, dv_data = [], dv_page_num = 6\<rparr>]\<rparr> = ([], c') \<and>
     length (filter (\<lambda>v. dv_is_visible v 1) (get_versions c')) = 1"
proof -
  let ?s1 = "run_begin 0 (mvcc_init 1)"
  let ?s2 = "run_commit 0 1 ?s1"
  let ?s3 = "run_begin 1 ?s2"
  let ?s = "?s3\<lparr>ms_horizons := insert (get_oldest_active_transaction (ms_manager ?s3)) (ms_horizons ?s3)\<rparr>"
  let ?c = "\<lparr>vc_doc_id = ''a'', vc_versions =
         [\<lparr>dv_doc_id = ''a'', dv_xmin = 0, dv_xmax = 1, dv_data = [], dv_page_num = 5\<rparr>,
          \<lparr>dv_doc_id = ''a'', dv_xmin = 1, dv_xmax = 0, dv_data = [], dv_page_num = 6\<rparr>]\<rparr>"
  note run_defs = run_begin_def run_commit_def mvcc_init_def initialize_from_pager_def tm_new_def begin_transaction_def
    fetch_tx_id_def get_latest_committed_tx_id_def insert_active_def commit_transaction_def set_tx_status_def
    get_oldest_active_transaction_def Let_def
  have r: "mvcc_reach 1 ?s"
    by (intro reach_oldest reach_begin reach_commit [where snap = 0] mvcc_reach.init) (simp_all add: run_defs)
  have m: "(1 :: tx_id) < - 1" by (simp add: word_less_nat_alt unsigned_minus_1_eq_mask mask_eq_exp_minus_1)
  have s: "1 \<in> ms_horizons ?s" "ms_threads ?s 1 = Live 2 1" "unat (1 :: tx_id) + ms_fetches ?s \<le> 2 ^ 64"
    using m by (simp_all add: run_defs)
  have g: "chain_garbage_collect 1 ?c = ([], ?c)" by (simp add: chain_gc_eq gc_keeps_def)
  have "length (filter (\<lambda>v. dv_is_visible v 1) (get_versions ?c)) = 1" by (simp add: get_versions_def dv_is_visible_def)
  then show ?thesis using r s g gc_preserves_snapshots [OF r s(3,1,2) g] by metis
qed

text \<open>
  a snapshot is one number, compared with \<open>xmin\<close> alone. A transaction that starts after a
  younger one has committed therefore sees the versions written under the smaller id of a transaction that is
  still running.
\<close>

theorem snapshot_admits_running_transaction:
  "\<exists>s. mvcc_reach 1 s \<and> ms_threads s 0 = Live 1 0 \<and> ms_threads s 2 = Live 3 2 \<and>
     dv_is_visible \<lparr>dv_doc_id = d, dv_xmin = 1, dv_xmax = 0, dv_data = bs, dv_page_num = p\<rparr> 2"
proof -
  let ?s = "run_begin 2 (run_commit 1 2 (run_begin 1 (run_begin 0 (mvcc_init 1))))"
  note run_defs = run_begin_def run_commit_def mvcc_init_def initialize_from_pager_def tm_new_def begin_transaction_def
    fetch_tx_id_def get_latest_committed_tx_id_def insert_active_def commit_transaction_def set_tx_status_def Let_def
  have "mvcc_reach 1 ?s"
    by (intro reach_begin reach_commit [where snap = 0] mvcc_reach.init) (simp_all add: run_defs)
  moreover have "ms_threads ?s 0 = Live 1 0" "ms_threads ?s 2 = Live 3 2" by (simp_all add: run_defs)
  ultimately show ?thesis by (intro exI [of _ ?s]) (simp add: dv_is_visible_def)
qed

end
