(* ===== verification/Btree_Node.thy ===== *)
theory Btree_Node
  imports Page_Steps Buffer_Pool
begin

text \<open>
  The nodes of the B-tree and their page format, from \<open>src/core/btree.rs\<close> (used by both
  \<open>btree.rs\<close> and \<open>tx_btree.rs\<close>).

  \<open>serialize_node_into\<close> writes into a buffer by slices; a slice beyond its end panics (\<open>None\<close>).
  \<open>deserialize_node\<close> checks every length before it reads.
\<close>

datatype node_type = InternalNode | LeafNode

definition node_type_from_u8 :: "u8 \<Rightarrow> node_type res" where
  "node_type_from_u8 b =
     (if b = 0 then Ok InternalNode else if b = 1 then Ok LeafNode
      else Err (Other (''invalid node type: '' @ show_nat (unat b))))"

definition node_type_as_u8 :: "node_type \<Rightarrow> u8" where
  "node_type_as_u8 t = (case t of InternalNode \<Rightarrow> 0 | LeafNode \<Rightarrow> 1)"

record leaf_entry =
  en_key :: string
  en_value :: u64

record btree_node =
  bn_page_num :: page_num
  bn_node_type :: node_type
  bn_num_keys :: u16
  bn_parent :: u64
  bn_entries :: "leaf_entry list"
  bn_next_leaf :: u64
  bn_keys :: "string list"
  bn_children :: "u64 list"

definition new_leaf :: "page_num \<Rightarrow> btree_node" where
  "new_leaf p = \<lparr>bn_page_num = p, bn_node_type = LeafNode, bn_num_keys = 0, bn_parent = 0,
     bn_entries = [], bn_next_leaf = 0, bn_keys = [], bn_children = []\<rparr>"

definition new_internal :: "page_num \<Rightarrow> btree_node" where
  "new_internal p = \<lparr>bn_page_num = p, bn_node_type = InternalNode, bn_num_keys = 0, bn_parent = 0,
     bn_entries = [], bn_next_leaf = 0, bn_keys = [], bn_children = []\<rparr>"


subsection \<open>Writing\<close>

fun put_entries :: "leaf_entry list \<Rightarrow> nat \<times> bytes \<Rightarrow> (nat \<times> bytes) option" where
  "put_entries [] st = Some st"
| "put_entries (e # es) st = do {
     let key_bytes = as_bytes (en_key e);
     st \<leftarrow> emit (u16_to_le (word_of_nat (length key_bytes))) st;
     st \<leftarrow> emit key_bytes st;
     st \<leftarrow> emit (u64_to_le (en_value e)) st;
     put_entries es st
   }"

fun put_children :: "u64 list \<Rightarrow> nat \<times> bytes \<Rightarrow> (nat \<times> bytes) option" where
  "put_children [] st = Some st"
| "put_children (c # cs) st = do { st \<leftarrow> emit (u64_to_le c) st; put_children cs st }"

fun put_keys :: "string list \<Rightarrow> nat \<times> bytes \<Rightarrow> (nat \<times> bytes) option" where
  "put_keys [] st = Some st"
| "put_keys (k # ks) st = do {
     let key_bytes = as_bytes k;
     st \<leftarrow> emit (u16_to_le (word_of_nat (length key_bytes))) st;
     st \<leftarrow> emit key_bytes st;
     put_keys ks st
   }"

definition serialize_node_into :: "btree_node \<Rightarrow> bytes \<Rightarrow> bytes option" where
  "serialize_node_into node data = do {
     st \<leftarrow> emit [node_type_as_u8 (bn_node_type node)] (0, data);
     st \<leftarrow> emit (u16_to_le (bn_num_keys node)) st;
     st \<leftarrow> emit (u64_to_le (bn_parent node)) st;
     (_, buf) \<leftarrow> (if bn_node_type node = LeafNode then do {
         st \<leftarrow> emit (u64_to_le (bn_next_leaf node)) st;
         st \<leftarrow> emit (u16_to_le (word_of_nat (length (bn_entries node)))) st;
         put_entries (bn_entries node) st }
       else do {
         st \<leftarrow> emit (u16_to_le (word_of_nat (length (bn_children node)))) st;
         st \<leftarrow> put_children (bn_children node) st;
         put_keys (bn_keys node) st });
     Some buf
   }"


subsection \<open>Reading\<close>

definition btree_corruption :: "page_num \<Rightarrow> string \<Rightarrow> 'a res" where
  "btree_corruption p details = Err (Corruption ''btree'' p details)"

text \<open>A key behind its length; \<open>what\<close> and \<open>big\<close> are the words of the error texts.\<close>

definition get_key :: "page_num \<Rightarrow> string \<Rightarrow> string \<Rightarrow> nat \<Rightarrow> bytes \<Rightarrow> (string \<times> nat) res" where
  "get_key p what big offset data =
     (if offset + 2 > length data then btree_corruption p (''insufficient data for '' @ what @ '' keyLen'')
      else res_bind (read_u16 offset data) (\<lambda>key_len16.
      let key_len = unat key_len16; offset = offset + 2 in
      if key_len > 1000 then btree_corruption p (big @ ''keyLen='' @ show_nat key_len @ '' is unreasonably large'')
      else if offset + key_len > length data then
        btree_corruption p (''insufficient data for '' @ (if what = ''entry'' then ''entry key'' else ''key''))
      else res_bind (no_panic (get_bytes offset key_len data)) (\<lambda>key_bytes.
      case from_utf8 key_bytes of None \<Rightarrow> Err InvalidDocument
      | Some key \<Rightarrow> Ok (key, offset + key_len))))"

fun get_entries :: "nat \<Rightarrow> page_num \<Rightarrow> nat \<Rightarrow> bytes \<Rightarrow> leaf_entry list res" where
  "get_entries 0 p offset data = Ok []"
| "get_entries (Suc n) p offset data =
     res_bind (get_key p ''entry'' '''' offset data) (\<lambda>(key, offset).
     if offset + 8 > length data then btree_corruption p ''insufficient data for entry value''
     else res_bind (read_u64 offset data) (\<lambda>v.
     res_bind (get_entries n p (offset + 8) data) (\<lambda>es. Ok (\<lparr>en_key = key, en_value = v\<rparr> # es))))"

fun get_children :: "nat \<Rightarrow> page_num \<Rightarrow> nat \<Rightarrow> bytes \<Rightarrow> (u64 list \<times> nat) res" where
  "get_children 0 p offset data = Ok ([], offset)"
| "get_children (Suc n) p offset data =
     (if offset + 8 > length data then btree_corruption p ''insufficient data for child''
      else res_bind (read_u64 offset data) (\<lambda>c.
      res_bind (get_children n p (offset + 8) data) (\<lambda>(cs, offset). Ok (c # cs, offset))))"

fun get_keys :: "nat \<Rightarrow> page_num \<Rightarrow> nat \<Rightarrow> bytes \<Rightarrow> string list res" where
  "get_keys 0 p offset data = Ok []"
| "get_keys (Suc n) p offset data =
     res_bind (get_key p ''key'' ''key '' offset data) (\<lambda>(key, offset).
     res_bind (get_keys n p offset data) (\<lambda>ks. Ok (key # ks)))"

definition deserialize_leaf :: "page_num \<Rightarrow> bytes \<Rightarrow> btree_node \<Rightarrow> btree_node res" where
  "deserialize_leaf p data node =
     (let offset = 11 in
      if offset + 8 > length data then btree_corruption p ''insufficient data for nextLeaf''
      else res_bind (read_u64 offset data) (\<lambda>next_leaf.
      let offset = offset + 8 in
      if offset + 2 > length data then btree_corruption p ''insufficient data for numEntries''
      else res_bind (read_u16 offset data) (\<lambda>num_entries.
      if num_entries > 1000 then
        btree_corruption p (''numEntries='' @ show_nat (unat num_entries) @ '' is unreasonably large'')
      else res_bind (get_entries (unat num_entries) p (offset + 2) data) (\<lambda>es.
      Ok (node\<lparr>bn_next_leaf := next_leaf, bn_entries := es\<rparr>)))))"

definition deserialize_internal :: "page_num \<Rightarrow> bytes \<Rightarrow> btree_node \<Rightarrow> btree_node res" where
  "deserialize_internal p data node =
     (let offset = 11; num_keys = bn_num_keys node in
      if offset + 2 > length data then btree_corruption p ''insufficient data for numChildren''
      else res_bind (read_u16 offset data) (\<lambda>num_children16.
      let num_children = unat num_children16 in
      if num_children > 1000 then
        btree_corruption p (''numChildren='' @ show_nat num_children @ '' is unreasonably large'')
      else res_bind (get_children num_children p (offset + 2) data) (\<lambda>(cs, offset).
      res_bind (get_keys (unat num_keys) p offset data) (\<lambda>ks.
      if num_keys > 0 \<and> length cs \<noteq> unat num_keys + 1 then
        btree_corruption p (''has '' @ show_nat (unat num_keys) @ '' keys but '' @ show_nat (length cs)
          @ '' children (expected '' @ show_nat (unat (num_keys + 1)) @ '')'')
      else Ok (node\<lparr>bn_children := cs, bn_keys := ks\<rparr>)))))"

definition deserialize_node :: "page_num \<Rightarrow> bytes \<Rightarrow> btree_node res" where
  "deserialize_node p data =
     (if length data < 11 then btree_corruption p (''buffer too small: '' @ show_nat (length data) @ '' bytes'')
      else res_bind (no_panic (get_bytes 0 1 data)) (\<lambda>b.
      res_bind (node_type_from_u8 (hd b)) (\<lambda>nt.
      res_bind (read_u16 1 data) (\<lambda>num_keys.
      res_bind (read_u64 3 data) (\<lambda>parent.
      let node = \<lparr>bn_page_num = p, bn_node_type = nt, bn_num_keys = num_keys, bn_parent = parent,
            bn_entries = [], bn_next_leaf = 0, bn_keys = [], bn_children = []\<rparr>
      in if nt = LeafNode then deserialize_leaf p data node else deserialize_internal p data node)))))"


subsection \<open>Specification\<close>

definition entry_bytes :: "leaf_entry \<Rightarrow> bytes" where
  "entry_bytes e = u16_to_le (word_of_nat (length (en_key e))) @ as_bytes (en_key e) @ u64_to_le (en_value e)"

definition key_bytes :: "string \<Rightarrow> bytes" where
  "key_bytes k = u16_to_le (word_of_nat (length k)) @ as_bytes k"

definition node_bytes :: "btree_node \<Rightarrow> bytes" where
  "node_bytes node = [node_type_as_u8 (bn_node_type node)] @ u16_to_le (bn_num_keys node) @ u64_to_le (bn_parent node) @
     (if bn_node_type node = LeafNode
      then u64_to_le (bn_next_leaf node) @ u16_to_le (word_of_nat (length (bn_entries node))) @ concat (map entry_bytes (bn_entries node))
      else u16_to_le (word_of_nat (length (bn_children node))) @ u64s (bn_children node) @ concat (map key_bytes (bn_keys node)))"

definition node_size :: "btree_node \<Rightarrow> nat" where
  "node_size node =
     (if bn_node_type node = LeafNode then 21 + sum_list (map (\<lambda>e. 10 + length (en_key e)) (bn_entries node))
      else 13 + 8 * length (bn_children node) + sum_list (map (\<lambda>k. 2 + length k) (bn_keys node)))"

text \<open>The nodes the format can represent: what \<open>deserialize_node\<close> accepts.\<close>

definition key_ok :: "string \<Rightarrow> bool" where
  "key_ok k \<longleftrightarrow> rust_string k \<and> length k \<le> 1000"

definition node_ok :: "btree_node \<Rightarrow> bool" where
  "node_ok node \<longleftrightarrow>
     (case bn_node_type node of
        LeafNode \<Rightarrow> bn_keys node = [] \<and> bn_children node = [] \<and> length (bn_entries node) \<le> 1000 \<and>
          list_all (\<lambda>e. key_ok (en_key e)) (bn_entries node)
      | InternalNode \<Rightarrow> bn_entries node = [] \<and> bn_next_leaf node = 0 \<and> length (bn_children node) \<le> 1000 \<and>
          unat (bn_num_keys node) = length (bn_keys node) \<and> list_all key_ok (bn_keys node) \<and>
          (bn_keys node \<noteq> [] \<longrightarrow> length (bn_children node) = length (bn_keys node) + 1))"

text \<open>Freedom of panics of the reading functions, call by call.\<close>

definition panic_free :: "'a res \<Rightarrow> bool" where
  "panic_free r \<longleftrightarrow> r \<noteq> Panic"


subsection \<open>Lemmas\<close>

lemma length_entry_bytes [simp]: "length (entry_bytes e) = 10 + length (en_key e)"
  by (simp add: entry_bytes_def)

lemma length_key_bytes [simp]: "length (key_bytes k) = 2 + length k"
  by (simp add: key_bytes_def)

lemma length_node_bytes: "length (node_bytes node) = node_size node"
  by (simp add: node_bytes_def node_size_def length_concat o_def)

lemma emit_bind: "Option.bind (emit xs st) (\<lambda>st. Option.bind (emit ys st) f) = Option.bind (emit (xs @ ys) st) f"
  by (simp add: emit_emit [symmetric] bind_assoc)

lemma emit_bound: "emit xs st = Some (off, buf) \<Longrightarrow> off \<le> length buf"
  by (cases st) (auto simp: emit_def put_bytes_def split: option.splits if_splits)

text \<open>A loop of writes after a first write is one write of the joined bytes.\<close>

lemma emit_then:
  assumes "\<And>off buf. off \<le> length buf \<Longrightarrow> f (off, buf) = emit ys (off, buf)"
  shows "Option.bind (emit xs st) f = emit (xs @ ys) st"
proof (cases "emit xs st")
  case None
  then show ?thesis using emit_emit [of xs st ys] by simp
next
  case (Some st')
  then show ?thesis using emit_emit [of xs st ys] assms [of "fst st'" "snd st'"] emit_bound [of xs st "fst st'" "snd st'"] by simp
qed

lemma put_entries_eq: "off \<le> length buf \<Longrightarrow> put_entries es (off, buf) = emit (concat (map entry_bytes es)) (off, buf)"
proof (induction es arbitrary: off buf)
  case (Cons e es)
  have "put_entries (e # es) (off, buf) = Option.bind (emit (entry_bytes e) (off, buf)) (put_entries es)"
    by (simp add: entry_bytes_def emit_emit [symmetric])
  then show ?case using emit_then [OF Cons.IH] by simp
qed simp

lemma put_children_eq: "off \<le> length buf \<Longrightarrow> put_children cs (off, buf) = emit (u64s cs) (off, buf)"
proof (induction cs arbitrary: off buf)
  case (Cons c cs)
  then show ?case using emit_then [OF Cons.IH] by simp
qed simp

lemma put_keys_eq: "off \<le> length buf \<Longrightarrow> put_keys ks (off, buf) = emit (concat (map key_bytes ks)) (off, buf)"
proof (induction ks arbitrary: off buf)
  case (Cons k ks)
  have "put_keys (k # ks) (off, buf) = Option.bind (emit (key_bytes k) (off, buf)) (put_keys ks)"
    by (simp add: key_bytes_def emit_emit [symmetric])
  then show ?case using emit_then [OF Cons.IH] by simp
qed simp

lemma serialize_eq: "serialize_node_into node data = map_option snd (emit (node_bytes node) (0, data))"
proof (cases "bn_node_type node")
  case LeafNode
  let ?h = "[node_type_as_u8 LeafNode] @ u16_to_le (bn_num_keys node) @ u64_to_le (bn_parent node) @
     u64_to_le (bn_next_leaf node) @ u16_to_le (word_of_nat (length (bn_entries node)))"
  have "serialize_node_into node data = Option.bind (Option.bind (emit ?h (0, data)) (put_entries (bn_entries node))) (\<lambda>(_, buf). Some buf)"
    using LeafNode by (simp add: serialize_node_into_def emit_emit [symmetric] del: append.simps append_Cons append_Nil)
  also have "Option.bind (emit ?h (0, data)) (put_entries (bn_entries node)) = emit (?h @ concat (map entry_bytes (bn_entries node))) (0, data)"
    by (rule emit_then) (rule put_entries_eq)
  also have "?h @ concat (map entry_bytes (bn_entries node)) = node_bytes node" using LeafNode by (simp add: node_bytes_def)
  finally show ?thesis by (cases "emit (node_bytes node) (0, data)") auto
next
  case InternalNode
  let ?h = "[node_type_as_u8 InternalNode] @ u16_to_le (bn_num_keys node) @ u64_to_le (bn_parent node) @
     u16_to_le (word_of_nat (length (bn_children node)))"
  have "serialize_node_into node data = Option.bind (Option.bind (Option.bind (emit ?h (0, data)) (put_children (bn_children node))) (put_keys (bn_keys node))) (\<lambda>(_, buf). Some buf)"
    using InternalNode by (simp add: serialize_node_into_def emit_emit [symmetric] del: append.simps append_Cons append_Nil)
  also have "Option.bind (emit ?h (0, data)) (put_children (bn_children node)) = emit (?h @ u64s (bn_children node)) (0, data)"
    by (rule emit_then) (rule put_children_eq)
  also have "Option.bind (emit (?h @ u64s (bn_children node)) (0, data)) (put_keys (bn_keys node)) =
      emit ((?h @ u64s (bn_children node)) @ concat (map key_bytes (bn_keys node))) (0, data)"
    by (rule emit_then) (rule put_keys_eq)
  also have "(?h @ u64s (bn_children node)) @ concat (map key_bytes (bn_keys node)) = node_bytes node" using InternalNode by (simp add: node_bytes_def)
  finally show ?thesis by (cases "emit (node_bytes node) (0, data)") auto
qed

lemma serialize_page:
  "node_size node \<le> PAGE_SIZE \<Longrightarrow>
   serialize_node_into node (replicate PAGE_SIZE 0) = Some (node_bytes node @ replicate (PAGE_SIZE - node_size node) 0)"
  by (simp add: serialize_eq emit_in_range length_node_bytes)

lemma serialize_too_big: "PAGE_SIZE < node_size node \<Longrightarrow> serialize_node_into node (replicate PAGE_SIZE 0) = None"
  by (simp add: serialize_eq emit_def put_bytes_def length_node_bytes)

lemma get_key_at:
  assumes "length pre = off" "key_ok k"
  shows "get_key p what big off (pre @ key_bytes k @ rest) = Ok (k, off + 2 + length k)"
proof -
  have u: "unat (word_of_nat (length k) :: u16) = length k" using assms(2) by (simp add: key_ok_def unat_of_nat)
  have r: "read_u16 off (pre @ key_bytes k @ rest) = Ok (word_of_nat (length k))"
    using read_u16_at [OF assms(1)] by (simp add: key_bytes_def)
  have g: "get_bytes (off + 2) (length k) (pre @ key_bytes k @ rest) = Some (as_bytes k)"
    using assms(1) by (simp add: key_bytes_def get_bytes_append_right get_bytes_append_left)
  have "from_utf8 (as_bytes k) = Some k" "length k \<le> 1000" using assms(2) by (simp_all add: key_ok_def from_utf8_as_bytes)
  moreover have "\<not> length (pre @ key_bytes k @ rest) < off + 2" "\<not> length (pre @ key_bytes k @ rest) < off + 2 + length k"
    using assms(1) by simp_all
  ultimately show ?thesis using r g u by (simp add: get_key_def Let_def)
qed

lemma get_entries_at:
  "length pre = off \<Longrightarrow> list_all (\<lambda>e. key_ok (en_key e)) es \<Longrightarrow>
   get_entries (length es) p off (pre @ concat (map entry_bytes es) @ rest) = Ok es"
proof (induction es arbitrary: pre off)
  case (Cons e es)
  let ?t = "concat (map entry_bytes es) @ rest"
  let ?k = "key_bytes (en_key e)"
  have e: "pre @ concat (map entry_bytes (e # es)) @ rest = pre @ ?k @ (u64_to_le (en_value e) @ ?t)"
    "pre @ ?k @ (u64_to_le (en_value e) @ ?t) = (pre @ ?k) @ u64_to_le (en_value e) @ ?t"
    "pre @ ?k @ (u64_to_le (en_value e) @ ?t) = (pre @ ?k @ u64_to_le (en_value e)) @ ?t"
    by (simp_all add: entry_bytes_def key_bytes_def)
  have k: "get_key p ''entry'' '''' off (pre @ ?k @ (u64_to_le (en_value e) @ ?t)) = Ok (en_key e, off + 2 + length (en_key e))"
    using get_key_at [OF Cons.prems(1)] Cons.prems(2) by simp
  have v: "read_u64 (off + 2 + length (en_key e)) (pre @ ?k @ (u64_to_le (en_value e) @ ?t)) = Ok (en_value e)"
    unfolding e(2) using Cons.prems(1) by (intro read_u64_at) simp
  have r: "get_entries (length es) p (off + 2 + length (en_key e) + 8) (pre @ ?k @ (u64_to_le (en_value e) @ ?t)) = Ok es"
    unfolding e(3) using Cons.prems by (intro Cons.IH) simp_all
  have le: "\<not> length (pre @ ?k @ (u64_to_le (en_value e) @ ?t)) < off + 2 + length (en_key e) + 8"
    using Cons.prems(1) by simp
  show ?case unfolding e(1) using k v r le by simp
qed simp

lemma get_children_at:
  "length pre = off \<Longrightarrow> get_children (length cs) p off (pre @ u64s cs @ rest) = Ok (cs, off + 8 * length cs)"
proof (induction cs arbitrary: pre off)
  case (Cons c cs)
  have r: "read_u64 off (pre @ u64s (c # cs) @ rest) = Ok c" using read_u64_at [OF Cons.prems] by simp
  have e: "pre @ u64s (c # cs) @ rest = (pre @ u64_to_le c) @ u64s cs @ rest" by simp
  have "get_children (length cs) p (off + 8) (pre @ u64s (c # cs) @ rest) = Ok (cs, off + 8 + 8 * length cs)"
    unfolding e using Cons.prems by (intro Cons.IH) simp
  then show ?case using r Cons.prems by simp
qed simp

lemma get_keys_at:
  "length pre = off \<Longrightarrow> list_all key_ok ks \<Longrightarrow> get_keys (length ks) p off (pre @ concat (map key_bytes ks) @ rest) = Ok ks"
proof (induction ks arbitrary: pre off)
  case (Cons k ks)
  have e: "pre @ concat (map key_bytes (k # ks)) @ rest = pre @ key_bytes k @ (concat (map key_bytes ks) @ rest)"
    "pre @ key_bytes k @ (concat (map key_bytes ks) @ rest) = (pre @ key_bytes k) @ concat (map key_bytes ks) @ rest" by simp_all
  have k: "get_key p ''key'' ''key '' off (pre @ key_bytes k @ (concat (map key_bytes ks) @ rest)) = Ok (k, off + 2 + length k)"
    using get_key_at [OF Cons.prems(1)] Cons.prems(2) by simp
  have "get_keys (length ks) p (off + 2 + length k) (pre @ key_bytes k @ (concat (map key_bytes ks) @ rest)) = Ok ks"
    unfolding e(2) using Cons.prems by (intro Cons.IH) simp_all
  then show ?case unfolding e(1) using k by simp
qed simp

lemma deserialize_head:
  assumes "data = [node_type_as_u8 nt] @ u16_to_le n @ u64_to_le par @ rest"
  shows "deserialize_node p data =
    (let node = \<lparr>bn_page_num = p, bn_node_type = nt, bn_num_keys = n, bn_parent = par,
       bn_entries = [], bn_next_leaf = 0, bn_keys = [], bn_children = []\<rparr>
     in if nt = LeafNode then deserialize_leaf p data node else deserialize_internal p data node)"
proof -
  have a: "get_bytes 0 1 data = Some [node_type_as_u8 nt]" using assms by (simp add: get_bytes_def)
  have b: "read_u16 1 data = Ok n" using read_u16_at [of "[node_type_as_u8 nt]" 1 n "u64_to_le par @ rest"] assms by simp
  have c: "read_u64 3 data = Ok par"
    using read_u64_at [of "[node_type_as_u8 nt] @ u16_to_le n" 3 par rest] assms by simp
  have l: "\<not> length data < 11" using assms by simp
  have t: "node_type_from_u8 (node_type_as_u8 nt) = Ok nt" by (cases nt) (simp_all add: node_type_from_u8_def node_type_as_u8_def)
  show ?thesis unfolding deserialize_node_def using a b c l t by simp
qed

lemma deserialize_node_bytes:
  assumes "node_ok node"
  shows "deserialize_node p (node_bytes node @ rest) = Ok (node\<lparr>bn_page_num := p\<rparr>)"
proof (cases "bn_node_type node")
  case LeafNode
  let ?h = "[node_type_as_u8 LeafNode] @ u16_to_le (bn_num_keys node) @ u64_to_le (bn_parent node)"
  let ?es = "bn_entries node"
  let ?d = "?h @ u64_to_le (bn_next_leaf node) @ u16_to_le (word_of_nat (length ?es)) @ concat (map entry_bytes ?es) @ rest"
  have ok: "length ?es \<le> 1000" "list_all (\<lambda>e. key_ok (en_key e)) ?es" "bn_keys node = []" "bn_children node = []"
    using assms LeafNode by (simp_all add: node_ok_def)
  have u: "unat (word_of_nat (length ?es) :: u16) = length ?es" using ok(1) by (simp add: unat_of_nat)
  have n: "\<not> (1000 :: u16) < word_of_nat (length ?es)" using u ok(1) by (simp add: word_less_nat_alt)
  have a: "read_u64 11 ?d = Ok (bn_next_leaf node)"
    using read_u64_at [of ?h 11 "bn_next_leaf node"] by simp
  have b: "read_u16 19 ?d = Ok (word_of_nat (length ?es))"
    using read_u16_at [of "?h @ u64_to_le (bn_next_leaf node)" 19 "word_of_nat (length ?es)"] by simp
  have c: "get_entries (length ?es) p 21 ?d = Ok ?es"
    using get_entries_at [OF _ ok(2), of "?h @ u64_to_le (bn_next_leaf node) @ u16_to_le (word_of_nat (length ?es))" 21 p rest] by simp
  have e: "node_bytes node @ rest = ?d" using LeafNode by (simp add: node_bytes_def)
  have l: "\<not> length ?d < 11 + 8" "\<not> length ?d < 11 + 8 + 2" by simp_all
  have d: "deserialize_leaf p ?d nd = Ok (nd\<lparr>bn_next_leaf := bn_next_leaf node, bn_entries := ?es\<rparr>)" for nd
    unfolding deserialize_leaf_def Let_def using a b c u n l by simp
  show ?thesis unfolding e
    using deserialize_head [OF refl, of p LeafNode] d ok(3,4) LeafNode by (simp add: Let_def)
next
  case InternalNode
  let ?h = "[node_type_as_u8 InternalNode] @ u16_to_le (bn_num_keys node) @ u64_to_le (bn_parent node)"
  let ?cs = "bn_children node" and ?ks = "bn_keys node"
  let ?d = "?h @ u16_to_le (word_of_nat (length ?cs)) @ u64s ?cs @ concat (map key_bytes ?ks) @ rest"
  have ok: "length ?cs \<le> 1000" "list_all key_ok ?ks" "bn_entries node = []" "bn_next_leaf node = 0"
    "unat (bn_num_keys node) = length ?ks" "?ks \<noteq> [] \<longrightarrow> length ?cs = length ?ks + 1"
    using assms InternalNode by (simp_all add: node_ok_def)
  have u: "unat (word_of_nat (length ?cs) :: u16) = length ?cs" using ok(1) by (simp add: unat_of_nat)
  have b: "read_u16 11 ?d = Ok (word_of_nat (length ?cs))"
    using read_u16_at [of ?h 11 "word_of_nat (length ?cs)"] by simp
  have c: "get_children (length ?cs) p 13 ?d = Ok (?cs, 13 + 8 * length ?cs)"
    using get_children_at [of "?h @ u16_to_le (word_of_nat (length ?cs))" 13 ?cs p "concat (map key_bytes ?ks) @ rest"] by simp
  have k: "get_keys (length ?ks) p (13 + 8 * length ?cs) ?d = Ok ?ks"
    using get_keys_at [OF _ ok(2), of "?h @ u16_to_le (word_of_nat (length ?cs)) @ u64s ?cs" "13 + 8 * length ?cs" p rest] by simp
  have z: "\<not> (0 < bn_num_keys node \<and> length ?cs \<noteq> Suc (length ?ks))" using ok(5,6) by (auto simp: word_less_nat_alt)
  have e: "node_bytes node @ rest = ?d" using InternalNode by (simp add: node_bytes_def)
  have l: "\<not> length ?d < 11 + 2" by simp
  have d: "deserialize_internal p ?d nd = Ok (nd\<lparr>bn_children := ?cs, bn_keys := ?ks\<rparr>)" if "bn_num_keys nd = bn_num_keys node" for nd
    unfolding deserialize_internal_def Let_def using b c k u z l ok(1,5) that by simp blast
  show ?thesis unfolding e
    using deserialize_head [OF refl, of p InternalNode] d ok(3,4) InternalNode by (simp add: Let_def)
qed

lemma sum_list_bound: "list_all (\<lambda>x. f x \<le> (b :: nat)) xs \<Longrightarrow> sum_list (map f xs) \<le> length xs * b"
  by (induction xs) auto

text \<open>
  a node that fits a page is serialised without a panic to exactly one page, and
  \<open>deserialize_node\<close> gives it back with the page it was read from.
\<close>

theorem node_roundtrip:
  assumes "node_ok node" "node_size node \<le> PAGE_SIZE"
  shows "\<exists>buf. serialize_node_into node (replicate PAGE_SIZE 0) = Some buf \<and> length buf = PAGE_SIZE \<and>
    deserialize_node p buf = Ok (node\<lparr>bn_page_num := p\<rparr>)"
  using serialize_page [OF assms(2)] deserialize_node_bytes [OF assms(1)] assms(2) by (simp add: length_node_bytes)

theorem node_roundtrip_witness:
  "\<exists>buf. serialize_node_into ((new_internal 7)\<lparr>bn_num_keys := 1, bn_keys := [''m''], bn_children := [3, 4]\<rparr>) (replicate PAGE_SIZE 0) = Some buf \<and>
    deserialize_node 9 buf = Ok ((new_internal 9)\<lparr>bn_num_keys := 1, bn_keys := [''m''], bn_children := [3, 4]\<rparr>)"
proof -
  let ?n = "(new_internal 7)\<lparr>bn_num_keys := 1, bn_keys := [''m''], bn_children := [3, 4]\<rparr>"
  have "node_ok ?n" by (simp add: node_ok_def new_internal_def key_ok_def rust_string_def as_bytes_def)
  moreover have "node_size ?n \<le> PAGE_SIZE" by (simp add: node_size_def new_internal_def const_defs)
  ultimately show ?thesis using node_roundtrip [of ?n 9] by (auto simp: new_internal_def)
qed

lemma panic_free_simps [simp]:
  "panic_free (Ok x)" "panic_free (Err e)" "\<not> panic_free Panic" "panic_free (btree_corruption p d)"
  by (simp_all add: panic_free_def btree_corruption_def)

lemma panic_free_bind: "panic_free r \<Longrightarrow> (\<And>x. panic_free (f x)) \<Longrightarrow> panic_free (res_bind r f)"
  by (cases r) simp_all

lemma panic_free_reads:
  "off + 2 \<le> length bs \<Longrightarrow> panic_free (read_u16 off bs)" "off + 8 \<le> length bs \<Longrightarrow> panic_free (read_u64 off bs)"
  "off + n \<le> length bs \<Longrightarrow> panic_free (no_panic (get_bytes off n bs))"
  by (auto simp: read_u16_def read_u64_def get_bytes_def panic_free_def)

lemma panic_free_key: "panic_free (get_key p what big off data)"
  unfolding get_key_def Let_def
  by (auto intro!: panic_free_bind panic_free_reads simp: not_less split: option.split)

lemma panic_free_entries: "panic_free (get_entries n p off data)"
  by (induction n arbitrary: off) (auto intro!: panic_free_bind panic_free_key panic_free_reads simp: not_less split: prod.split)

lemma panic_free_children: "panic_free (get_children n p off data)"
  by (induction n arbitrary: off) (auto intro!: panic_free_bind panic_free_reads simp: not_less split: prod.split)

lemma panic_free_keys: "panic_free (get_keys n p off data)"
  by (induction n arbitrary: off) (auto intro!: panic_free_bind panic_free_key split: prod.split)

lemma panic_free_leaf: "panic_free (deserialize_leaf p data node)"
  unfolding deserialize_leaf_def Let_def
  by (auto intro!: panic_free_bind panic_free_reads panic_free_entries simp: not_less)

lemma panic_free_internal: "panic_free (deserialize_internal p data node)"
  unfolding deserialize_internal_def Let_def
  by (auto intro!: panic_free_bind panic_free_reads panic_free_children panic_free_keys simp: not_less split: prod.split)

text \<open>
  \<open>deserialize_node\<close> returns a node or an error on every byte sequence; it never panics.
\<close>

theorem deserialize_never_panics: "deserialize_node p data \<noteq> Panic"
proof -
  have "panic_free (deserialize_node p data)"
    unfolding deserialize_node_def Let_def
    by (auto intro!: panic_free_bind panic_free_reads panic_free_leaf panic_free_internal simp: node_type_from_u8_def not_less)
  then show ?thesis by (simp add: panic_free_def)
qed

text \<open>Nodes as the tree makes them, with keys of at most 71 bytes, fit their page.\<close>

lemma leaf_fits:
  assumes "bn_node_type node = LeafNode" "length (bn_entries node) \<le> BTREE_ORDER" "list_all (\<lambda>e. length (en_key e) \<le> 71) (bn_entries node)"
  shows "node_size node \<le> PAGE_SIZE"
proof -
  have "sum_list (map (\<lambda>e. 10 + length (en_key e)) (bn_entries node)) \<le> length (bn_entries node) * 81"
    using assms(3) by (intro sum_list_bound) (simp add: list_all_iff)
  also have "\<dots> \<le> 50 * 81" using assms(2) by (intro mult_right_mono) (simp_all add: const_defs)
  finally show ?thesis using assms(1) by (simp add: node_size_def const_defs)
qed

lemma internal_fits:
  assumes "bn_node_type node = InternalNode" "length (bn_keys node) \<le> BTREE_ORDER" "length (bn_children node) \<le> Suc BTREE_ORDER"
    and "list_all (\<lambda>k. length k \<le> 71) (bn_keys node)"
  shows "node_size node \<le> PAGE_SIZE"
proof -
  have "sum_list (map (\<lambda>k. 2 + length k) (bn_keys node)) \<le> length (bn_keys node) * 73"
    using assms(4) by (intro sum_list_bound) (simp add: list_all_iff)
  also have "\<dots> \<le> 50 * 73" using assms(2) by (intro mult_right_mono) (simp_all add: const_defs)
  finally show ?thesis using assms(1,3) by (simp add: node_size_def const_defs)
qed

text \<open>
  writing a node panics exactly when its encoding is longer than a page, which the split
  threshold of fifty entries does not prevent: a leaf of sixteen entries with ids of 255 bytes,
  the longest that documents may have, already panics.
\<close>

theorem serialize_panics_iff_too_big:
  "(serialize_node_into node (replicate PAGE_SIZE 0) = None \<longleftrightarrow> PAGE_SIZE < node_size node) \<and>
   serialize_node_into ((new_leaf p)\<lparr>bn_entries := replicate 16 \<lparr>en_key = replicate 255 c, en_value = v\<rparr>\<rparr>) (replicate PAGE_SIZE 0) = None"
proof -
  have "node_size ((new_leaf p)\<lparr>bn_entries := replicate 16 \<lparr>en_key = replicate 255 c, en_value = v\<rparr>\<rparr>) = 4261"
    by (simp add: node_size_def new_leaf_def sum_list_replicate)
  then have "PAGE_SIZE < node_size ((new_leaf p)\<lparr>bn_entries := replicate 16 \<lparr>en_key = replicate 255 c, en_value = v\<rparr>\<rparr>)"
    by (simp add: const_defs)
  then show ?thesis using serialize_too_big serialize_page [of node] by (cases "node_size node \<le> PAGE_SIZE") (simp_all add: not_le)
qed

end
