(* ===== verification/Btree_Model.thy ===== *)
theory Btree_Model
  imports Btree_Node "HOL-Library.Multiset"
begin

text \<open>
  B-trees as values: the shape that the nodes of \<open>btree.rs\<close> form in the pages, the order of the keys, and
  the contexts (paths from the root with a hole) that an insertion works on. Nothing here mentions
  pages' contents; \<open>Btree\<close> connects these trees with the pager.
\<close>

datatype tree = TLeaf page_num "leaf_entry list" page_num | TNode page_num "string list" "tree list"

type_synonym leaf = "page_num \<times> leaf_entry list \<times> page_num"

fun tree_page :: "tree \<Rightarrow> page_num" where
  "tree_page (TLeaf p es nx) = p"
| "tree_page (TNode p ks ts) = p"

fun tree_pages :: "tree \<Rightarrow> page_num list" where
  "tree_pages (TLeaf p es nx) = [p]"
| "tree_pages (TNode p ks ts) = p # concat (map tree_pages ts)"

fun leaves :: "tree \<Rightarrow> leaf list" where
  "leaves (TLeaf p es nx) = [(p, es, nx)]"
| "leaves (TNode p ks ts) = concat (map leaves ts)"

definition leaf_entries :: "leaf list \<Rightarrow> leaf_entry list" where
  "leaf_entries ls = concat (map (\<lambda>(p, es, nx). es) ls)"

text \<open>Height at most \<open>n\<close>.\<close>

fun height_le :: "nat \<Rightarrow> tree \<Rightarrow> bool" where
  "height_le n (TLeaf p es nx) = True"
| "height_le 0 (TNode p ks ts) = False"
| "height_le (Suc n) (TNode p ks ts) = list_all (height_le n) ts"

definition tree_key :: "string \<Rightarrow> bool" where
  "tree_key k \<longleftrightarrow> rust_string k \<and> length k \<le> 71"

fun tree_wf :: "tree \<Rightarrow> bool" where
  "tree_wf (TLeaf p es nx) \<longleftrightarrow> length es \<le> BTREE_ORDER \<and> list_all (\<lambda>e. tree_key (en_key e)) es"
| "tree_wf (TNode p ks ts) \<longleftrightarrow> length ks \<le> BTREE_ORDER \<and> length ts = Suc (length ks) \<and> list_all tree_key ks \<and> list_all tree_wf ts"

text \<open>Keys between an inclusive lower and an exclusive upper bound, either of which may be missing.\<close>

definition in_range :: "string option \<Rightarrow> string option \<Rightarrow> string \<Rightarrow> bool" where
  "in_range lo hi k \<longleftrightarrow> (case lo of None \<Rightarrow> True | Some l \<Rightarrow> l \<le> k) \<and> (case hi of None \<Rightarrow> True | Some h \<Rightarrow> k < h)"

text \<open>Separating keys lie strictly inside the range of their node.\<close>

definition between :: "string option \<Rightarrow> string option \<Rightarrow> string \<Rightarrow> bool" where
  "between lo hi k \<longleftrightarrow> (case lo of None \<Rightarrow> True | Some l \<Rightarrow> l < k) \<and> (case hi of None \<Rightarrow> True | Some h \<Rightarrow> k < h)"

definition entries_sorted :: "leaf_entry list \<Rightarrow> bool" where
  "entries_sorted es \<longleftrightarrow> sorted_wrt (<) (map en_key es)"

fun ordered :: "string option \<Rightarrow> string option \<Rightarrow> tree \<Rightarrow> bool"
  and ordered_list :: "string option \<Rightarrow> string option \<Rightarrow> string list \<Rightarrow> tree list \<Rightarrow> bool" where
  "ordered lo hi (TLeaf p es nx) \<longleftrightarrow> entries_sorted es \<and> list_all (\<lambda>e. in_range lo hi (en_key e)) es"
| "ordered lo hi (TNode p ks ts) \<longleftrightarrow> ordered_list lo hi ks ts"
| "ordered_list lo hi [] (t # ts) \<longleftrightarrow> ts = [] \<and> ordered lo hi t"
| "ordered_list lo hi (k # ks) (t # ts) \<longleftrightarrow> between lo hi k \<and> ordered lo (Some k) t \<and> ordered_list (Some k) hi ks ts"
| "ordered_list lo hi ks [] \<longleftrightarrow> False"

text \<open>What an insertion means for the sorted list of entries.\<close>

fun insert_entry :: "leaf_entry \<Rightarrow> leaf_entry list \<Rightarrow> leaf_entry list" where
  "insert_entry x [] = [x]"
| "insert_entry x (e # es) =
     (if en_key x = en_key e then x # es
      else if en_key x < en_key e then x # e # es
      else e # insert_entry x es)"


subsection \<open>Contexts\<close>

text \<open>
  A frame is an inner node with one child missing: its page, the keys and children to the left and to the right of the
  hole. A context is the list of frames from the hole up to the root.
\<close>

record frame =
  fr_page :: page_num
  fr_lkeys :: "string list"
  fr_lkids :: "tree list"
  fr_rkeys :: "string list"
  fr_rkids :: "tree list"

definition fill1 :: "frame \<Rightarrow> tree \<Rightarrow> tree" where
  "fill1 f t = TNode (fr_page f) (fr_lkeys f @ fr_rkeys f) (fr_lkids f @ t # fr_rkids f)"

fun fill :: "frame list \<Rightarrow> tree \<Rightarrow> tree" where
  "fill [] t = t"
| "fill (f # fs) t = fill fs (fill1 f t)"

fun ctx_pages :: "frame list \<Rightarrow> page_num list" where
  "ctx_pages [] = []"
| "ctx_pages (f # fs) = fr_page f # concat (map tree_pages (fr_lkids f @ fr_rkids f)) @ ctx_pages fs"

fun lleaves :: "frame list \<Rightarrow> leaf list" where
  "lleaves [] = []"
| "lleaves (f # fs) = lleaves fs @ concat (map leaves (fr_lkids f))"

fun rleaves :: "frame list \<Rightarrow> leaf list" where
  "rleaves [] = []"
| "rleaves (f # fs) = concat (map leaves (fr_rkids f)) @ rleaves fs"

definition frame_wf :: "frame \<Rightarrow> bool" where
  "frame_wf f \<longleftrightarrow> length (fr_lkeys f @ fr_rkeys f) \<le> BTREE_ORDER \<and> length (fr_lkids f) = length (fr_lkeys f) \<and>
     length (fr_rkids f) = length (fr_rkeys f) \<and> list_all tree_key (fr_lkeys f @ fr_rkeys f) \<and>
     list_all tree_wf (fr_lkids f @ fr_rkids f)"

fun left_ok :: "string option \<Rightarrow> string option \<Rightarrow> string list \<Rightarrow> tree list \<Rightarrow> string option \<Rightarrow> bool" where
  "left_ok lo hi [] ts m \<longleftrightarrow> ts = [] \<and> m = lo"
| "left_ok lo hi (k # ks) (t # ts) m \<longleftrightarrow> between lo hi k \<and> ordered lo (Some k) t \<and> left_ok (Some k) hi ks ts m"
| "left_ok lo hi (k # ks) [] m \<longleftrightarrow> False"

fun right_ok :: "string option \<Rightarrow> string option \<Rightarrow> string list \<Rightarrow> tree list \<Rightarrow> string option \<Rightarrow> bool" where
  "right_ok m h [] ts hi \<longleftrightarrow> ts = [] \<and> h = hi"
| "right_ok m h (k # ks) ts hi \<longleftrightarrow> between m hi k \<and> h = Some k \<and> ordered_list (Some k) hi ks ts"

text \<open>The hole of the context has the range from \<open>lo\<close> to \<open>hi\<close>.\<close>

inductive ctx_ordered :: "frame list \<Rightarrow> string option \<Rightarrow> string option \<Rightarrow> bool" where
  nil: "ctx_ordered [] None None"
| cons: "ctx_ordered fs a b \<Longrightarrow> left_ok a b (fr_lkeys f) (fr_lkids f) lo \<Longrightarrow> right_ok lo hi (fr_rkeys f) (fr_rkids f) b \<Longrightarrow>
    ctx_ordered (f # fs) lo hi"

text \<open>In a tree of height at most \<open>n\<close> the hole has room for a tree of height \<open>m\<close>.\<close>

fun ctx_height :: "nat \<Rightarrow> frame list \<Rightarrow> nat \<Rightarrow> bool" where
  "ctx_height n [] m \<longleftrightarrow> n = m"
| "ctx_height n (f # fs) m \<longleftrightarrow> list_all (height_le m) (fr_lkids f @ fr_rkids f) \<and> ctx_height n fs (Suc m)"


subsection \<open>Specification\<close>

definition all_in :: "string option \<Rightarrow> string option \<Rightarrow> leaf_entry list \<Rightarrow> bool" where
  "all_in lo hi es \<longleftrightarrow> (\<forall>e \<in> set es. in_range lo hi (en_key e))"

fun lookup_entry :: "string \<Rightarrow> leaf_entry list \<Rightarrow> u64 option" where
  "lookup_entry k [] = None"
| "lookup_entry k (e # es) = (if en_key e = k then Some (en_value e) else lookup_entry k es)"

definition key_pos :: "string \<Rightarrow> string list \<Rightarrow> nat" where
  "key_pos key ks = length (takeWhile (\<lambda>k. k \<le> key) ks)"

text \<open>What an insertion needs to know about the leaf it has found.\<close>

definition at_leaf :: "tree \<Rightarrow> string \<Rightarrow> nat \<Rightarrow> frame list \<Rightarrow> tree \<Rightarrow> bool" where
  "at_leaf t key n fs u \<longleftrightarrow> t = fill fs u \<and> list_all frame_wf fs \<and> tree_wf u \<and>
     (\<exists>lo hi m. ctx_ordered fs lo hi \<and> in_range lo hi key \<and> ordered lo hi u \<and> ctx_height n fs m \<and> height_le m u)"


subsection \<open>Lemmas\<close>

subsection \<open>Ranges\<close>

lemma in_range_simps [simp]:
  "in_range None None k" "in_range (Some l) None k \<longleftrightarrow> l \<le> k" "in_range None (Some h) k \<longleftrightarrow> k < h"
  "in_range (Some l) (Some h) k \<longleftrightarrow> l \<le> k \<and> k < h"
  by (simp_all add: in_range_def)

lemma in_range_left: "in_range lo hi k \<Longrightarrow> in_range lo (Some k) x \<Longrightarrow> in_range lo hi x"
  by (auto simp: in_range_def split: option.splits)

lemma in_range_right: "in_range lo hi k \<Longrightarrow> in_range (Some k) hi x \<Longrightarrow> in_range lo hi x"
  by (auto simp: in_range_def split: option.splits)

lemma in_range_split: "in_range lo hi k \<Longrightarrow> in_range lo hi x \<Longrightarrow> in_range lo (Some k) x \<or> in_range (Some k) hi x"
  by (auto simp: in_range_def split: option.splits)

lemma in_range_lower: "in_range lo hi x \<Longrightarrow> in_range lo (Some h) x \<longleftrightarrow> x < h"
  by (auto simp: in_range_def split: option.splits)

lemma in_range_upper: "in_range lo hi x \<Longrightarrow> in_range (Some l) hi x \<longleftrightarrow> l \<le> x"
  by (auto simp: in_range_def split: option.splits)

lemma between_in_range: "between lo hi k \<Longrightarrow> in_range lo hi k"
  by (auto simp: between_def in_range_def split: option.splits)

lemma between_bounds: "between lo (Some h) x \<Longrightarrow> x < h" "between (Some l) hi x \<Longrightarrow> l < x"
  by (auto simp: between_def split: option.splits)

lemma between_left: "between lo hi k \<Longrightarrow> in_range lo (Some k) x \<Longrightarrow> in_range lo hi x"
  using in_range_left between_in_range by blast

lemma between_right: "between lo hi k \<Longrightarrow> between (Some k) hi x \<Longrightarrow> between lo hi x"
  by (auto simp: between_def split: option.splits)

lemma between_cut: "between lo hi k \<Longrightarrow> between (Some k) hi x \<Longrightarrow> between lo (Some x) k"
  by (auto simp: between_def split: option.splits)

lemma in_range_bounds: "in_range lo (Some h) x \<Longrightarrow> x < h" "in_range (Some l) hi x \<Longrightarrow> l \<le> x"
  by (auto simp: in_range_def split: option.splits)

lemma all_in_simps [simp]:
  "all_in lo hi []" "all_in lo hi (e # es) \<longleftrightarrow> in_range lo hi (en_key e) \<and> all_in lo hi es"
  "all_in lo hi (es @ fs) \<longleftrightarrow> all_in lo hi es \<and> all_in lo hi fs" "all_in None None es"
  by (auto simp: all_in_def)

lemma all_in_left: "in_range lo hi k \<Longrightarrow> all_in lo (Some k) es \<Longrightarrow> all_in lo hi es"
  unfolding all_in_def using in_range_left by blast

lemma all_in_right: "in_range lo hi k \<Longrightarrow> all_in (Some k) hi es \<Longrightarrow> all_in lo hi es"
  unfolding all_in_def using in_range_right by blast

lemma leaf_entries_simps [simp]:
  "leaf_entries [] = []" "leaf_entries ((p, es, nx) # ls) = es @ leaf_entries ls"
  "leaf_entries (ls @ ms) = leaf_entries ls @ leaf_entries ms"
  by (simp_all add: leaf_entries_def)

lemma entries_sorted_simps [simp]:
  "entries_sorted []" "entries_sorted (e # es) \<longleftrightarrow> (\<forall>x \<in> set es. en_key e < en_key x) \<and> entries_sorted es"
  by (simp_all add: entries_sorted_def)

lemma entries_sorted_append: "entries_sorted (es @ fs) \<longleftrightarrow> entries_sorted es \<and> entries_sorted fs \<and> (\<forall>e \<in> set es. \<forall>f \<in> set fs. en_key e < en_key f)"
  by (induction es) auto

lemma sorted_join:
  assumes "entries_sorted es" "entries_sorted fs" "all_in lo (Some k) es" "all_in (Some k) hi fs"
  shows "entries_sorted (es @ fs)"
proof -
  have "en_key e < en_key f" if "e \<in> set es" "f \<in> set fs" for e f
  proof -
    have "en_key e < k" using assms(3) that(1) by (auto simp: all_in_def in_range_def split: option.splits)
    moreover have "k \<le> en_key f" using assms(4) that(2) by (auto simp: all_in_def in_range_def split: option.splits)
    ultimately show ?thesis by simp
  qed
  then show ?thesis using assms(1,2) by (simp add: entries_sorted_append)
qed

text \<open>The entries of an ordered tree are sorted and in its range.\<close>

lemma ordered_entries:
  "ordered lo hi t \<Longrightarrow> entries_sorted (leaf_entries (leaves t)) \<and> all_in lo hi (leaf_entries (leaves t))"
  "ordered_list lo hi ks ts \<Longrightarrow> entries_sorted (leaf_entries (concat (map leaves ts))) \<and> all_in lo hi (leaf_entries (concat (map leaves ts)))"
proof (induction lo hi t and lo hi ks ts rule: ordered_ordered_list.induct)
  case (1 lo hi p es nx)
  then show ?case by (simp add: all_in_def list_all_iff)
next
  case (4 lo hi k ks t ts)
  let ?l = "leaf_entries (leaves t)" and ?r = "leaf_entries (concat (map leaves ts))"
  have k: "in_range lo hi k" using 4(3) between_in_range by simp
  have l: "entries_sorted ?l" "all_in lo (Some k) ?l" and r: "entries_sorted ?r" "all_in (Some k) hi ?r"
    using 4 by simp_all
  show ?case using sorted_join [OF l(1) r(1) l(2) r(2)] all_in_left [OF k l(2)] all_in_right [OF k r(2)] by simp
qed auto

subsection \<open>Looking up and inserting in sorted entries\<close>

lemma lookup_append: "lookup_entry k (es @ fs) = (case lookup_entry k es of Some v \<Rightarrow> Some v | None \<Rightarrow> lookup_entry k fs)"
  by (induction es) auto

lemma lookup_None_iff: "lookup_entry k es = None \<longleftrightarrow> k \<notin> en_key ` set es"
  by (induction es) auto

lemma lookup_out_of_range:
  "all_in lo (Some h) es \<Longrightarrow> h \<le> k \<Longrightarrow> lookup_entry k es = None"
  "all_in (Some l) hi es \<Longrightarrow> k < l \<Longrightarrow> lookup_entry k es = None"
  using in_range_bounds unfolding lookup_None_iff all_in_def by fastforce+

lemma lookup_middle:
  assumes "\<forall>e \<in> set l. en_key e < k" "\<forall>e \<in> set r. k < en_key e"
  shows "lookup_entry k (l @ m @ r) = lookup_entry k m"
proof -
  have "lookup_entry k l = None" "lookup_entry k r = None" using assms by (auto simp: lookup_None_iff)
  then show ?thesis by (simp add: lookup_append split: option.split)
qed

lemma insert_entry_left: "\<forall>e \<in> set l. en_key e < en_key x \<Longrightarrow> insert_entry x (l @ m) = l @ insert_entry x m"
  by (induction l) auto

lemma insert_entry_right: "\<forall>e \<in> set r. en_key x < en_key e \<Longrightarrow> insert_entry x (m @ r) = insert_entry x m @ r"
proof (induction m)
  case Nil
  then show ?case by (cases r) auto
qed auto

lemma insert_entry_middle:
  "\<forall>e \<in> set l. en_key e < en_key x \<Longrightarrow> \<forall>e \<in> set r. en_key x < en_key e \<Longrightarrow> insert_entry x (l @ m @ r) = l @ insert_entry x m @ r"
  by (simp add: insert_entry_left insert_entry_right)

lemma set_insert_entry: "en_key ` set (insert_entry x es) = insert (en_key x) (en_key ` set es)"
  by (induction es) auto

lemma insert_entry_sub: "set (insert_entry x es) \<subseteq> insert x (set es)"
  by (induction es) auto

lemma sorted_insert_entry: "entries_sorted es \<Longrightarrow> entries_sorted (insert_entry x es)"
proof (induction es)
  case (Cons e es)
  have "\<forall>y \<in> set (insert_entry x es). y = x \<or> y \<in> set es" using insert_entry_sub by fastforce
  then show ?case using Cons by (auto dest: order.strict_trans)
qed simp

lemma lookup_insert_entry: "entries_sorted es \<Longrightarrow> lookup_entry k (insert_entry x es) = (if k = en_key x then Some (en_value x) else lookup_entry k es)"
proof (induction es)
  case (Cons e es)
  have "lookup_entry (en_key x) es = None" if "en_key x \<le> en_key e" using Cons.prems that by (auto simp: lookup_None_iff)
  then show ?case using Cons by auto
qed simp

lemma length_insert_entry: "length (insert_entry x es) \<le> Suc (length es)"
  by (induction es) auto

subsection \<open>Filling a context\<close>

lemma tree_page_fill: "tree_page (fill fs t) = (if fs = [] then tree_page t else fr_page (last fs))"
  by (induction fs arbitrary: t) (auto simp: fill1_def)

lemma leaves_fill: "leaves (fill fs t) = lleaves fs @ leaves t @ rleaves fs"
  by (induction fs arbitrary: t) (simp_all add: fill1_def)

lemma mset_pages_fill: "mset (tree_pages (fill fs t)) = mset (ctx_pages fs) + mset (tree_pages t)"
  by (induction fs arbitrary: t) (simp_all add: fill1_def ac_simps)

lemma set_pages_fill: "set (tree_pages (fill fs t)) = set (ctx_pages fs) \<union> set (tree_pages t)"
  using mset_pages_fill [of fs t] by (metis set_mset_mset set_mset_union)

lemma distinct_pages_fill:
  "distinct (tree_pages (fill fs t)) \<longleftrightarrow> distinct (ctx_pages fs) \<and> distinct (tree_pages t) \<and> set (ctx_pages fs) \<inter> set (tree_pages t) = {}"
proof -
  have "distinct (tree_pages (fill fs t)) \<longleftrightarrow> distinct (ctx_pages fs @ tree_pages t)"
    using mset_pages_fill [of fs t] by (intro mset_eq_imp_distinct_iff) simp
  then show ?thesis by auto
qed

lemma wf_fill: "tree_wf t \<Longrightarrow> list_all frame_wf fs \<Longrightarrow> tree_wf (fill fs t)"
  by (induction fs arbitrary: t) (auto simp: fill1_def frame_wf_def)

lemma height_fill: "ctx_height n fs m \<Longrightarrow> height_le m t \<Longrightarrow> height_le n (fill fs t)"
  by (induction fs arbitrary: t m) (auto simp: fill1_def)

lemma height_mono: "height_le m t \<Longrightarrow> m \<le> n \<Longrightarrow> height_le n t"
proof (induction m t arbitrary: n rule: height_le.induct)
  case (3 m p ks ts)
  then show ?case by (cases n) (auto simp: list_all_iff)
qed auto

lemma ordered_list_length: "ordered_list lo hi ks ts \<Longrightarrow> length ts = Suc (length ks)"
  by (induction ks arbitrary: lo ts) (case_tac ts; auto)+

text \<open>A list of children around one of them.\<close>

lemma ordered_list_split:
  "length ts1 = length ks1 \<Longrightarrow> ordered_list lo hi (ks1 @ ks2) (ts1 @ t # ts2) \<longleftrightarrow>
   (\<exists>m h. left_ok lo hi ks1 ts1 m \<and> ordered m h t \<and> right_ok m h ks2 ts2 hi)"
proof (induction ts1 ks1 arbitrary: lo rule: list_induct2)
  case Nil
  then show ?case by (cases ks2) auto
next
  case (Cons u us k ks)
  then show ?case by auto
qed

lemma ordered_fill: "ctx_ordered fs lo hi \<Longrightarrow> ordered lo hi t \<Longrightarrow> list_all frame_wf fs \<Longrightarrow> ordered None None (fill fs t)"
proof (induction arbitrary: t rule: ctx_ordered.induct)
  case (cons fs a b f lo hi)
  then have "ordered a b (fill1 f t)"
    using ordered_list_split [of "fr_lkids f" "fr_lkeys f" a b "fr_rkeys f" t "fr_rkids f"]
    by (auto simp: fill1_def frame_wf_def)
  then show ?case using cons by simp
qed simp

lemma left_ok_entries:
  "left_ok lo hi ks ts m \<Longrightarrow> ks \<noteq> [] \<Longrightarrow> in_range lo hi (the m) \<and> m \<noteq> None \<and> all_in lo m (leaf_entries (concat (map leaves ts)))"
proof (induction lo hi ks ts m rule: left_ok.induct)
  case (2 lo hi k ks t ts m)
  have k: "in_range lo hi k" and t: "all_in lo (Some k) (leaf_entries (leaves t))"
    using 2(2) ordered_entries(1) between_in_range by auto
  show ?case
  proof (cases "ks = []")
    case True
    then show ?thesis using 2(2) k t by auto
  next
    case False
    have r: "in_range (Some k) hi (the m)" "m \<noteq> None" "all_in (Some k) m (leaf_entries (concat (map leaves ts)))"
      using 2 False by auto
    then obtain m' where m: "m = Some m'" by auto
    have le: "k \<le> m'" using r(1) m in_range_bounds(2) by auto
    have "in_range lo (Some m') x" if "in_range lo (Some k) x" for x
      using that le by (auto simp: in_range_def split: option.splits)
    then have "all_in lo m (leaf_entries (leaves t))" using t m by (auto simp: all_in_def)
    moreover have "in_range lo m x" if "in_range (Some k) m x" for x
      using that k m by (auto simp: in_range_def split: option.splits)
    then have "all_in lo m (leaf_entries (concat (map leaves ts)))" using r(3) by (auto simp: all_in_def)
    ultimately show ?thesis using r m in_range_right [OF k] by auto
  qed
qed auto

text \<open>What lies to the left of the hole is below its range, what lies to the right above it.\<close>

lemma left_ok_below: "left_ok lo hi ks ts m \<Longrightarrow> in_range m h x \<Longrightarrow> e \<in> set (leaf_entries (concat (map leaves ts))) \<Longrightarrow> en_key e < x"
proof (cases "ks = []")
  case False
  assume "left_ok lo hi ks ts m" and x: "in_range m h x" and e: "e \<in> set (leaf_entries (concat (map leaves ts)))"
  then obtain m' where m: "m = Some m'" "all_in lo (Some m') (leaf_entries (concat (map leaves ts)))"
    using left_ok_entries [of lo hi ks ts m] False by auto
  have "en_key e < m'" using m(2) e in_range_bounds(1) by (auto simp: all_in_def)
  then show ?thesis using x m(1) in_range_bounds(2) by fastforce
qed simp

lemma right_ok_above: "right_ok m h ks ts hi \<Longrightarrow> in_range m h x \<Longrightarrow> e \<in> set (leaf_entries (concat (map leaves ts))) \<Longrightarrow> x < en_key e"
proof (cases ks)
  case (Cons k ks')
  assume "right_ok m h ks ts hi" and x: "in_range m h x" and e: "e \<in> set (leaf_entries (concat (map leaves ts)))"
  then have "h = Some k" "all_in (Some k) hi (leaf_entries (concat (map leaves ts)))" using Cons ordered_entries(2) by auto
  then have "x < k" "k \<le> en_key e" using x e in_range_bounds by (auto simp: all_in_def)
  then show ?thesis by simp
qed simp

lemma left_ok_hi: "left_ok lo hi ks ts m \<Longrightarrow> in_range m hi x \<Longrightarrow> in_range lo hi x"
proof (induction lo hi ks ts m rule: left_ok.induct)
  case (2 lo hi k ks t ts m)
  then show ?case using in_range_right [OF between_in_range] by auto
qed auto

lemma right_ok_hi: "right_ok m h ks ts hi \<Longrightarrow> in_range m h x \<Longrightarrow> in_range m hi x"
  by (cases ks) (auto intro: between_left)

lemma ctx_outer: "left_ok a b ks ts lo \<Longrightarrow> right_ok lo hi ks' ts' b \<Longrightarrow> in_range lo hi x \<Longrightarrow> in_range a b x"
  using right_ok_hi left_ok_hi by blast

lemma ctx_sides:
  "ctx_ordered fs lo hi \<Longrightarrow> in_range lo hi x \<Longrightarrow>
   (\<forall>e \<in> set (leaf_entries (lleaves fs)). en_key e < x) \<and> (\<forall>e \<in> set (leaf_entries (rleaves fs)). x < en_key e)"
proof (induction rule: ctx_ordered.induct)
  case (cons fs a b f lo hi)
  have "in_range a b x" using ctx_outer [OF cons(2,3)] cons.prems by blast
  then show ?case using cons left_ok_below [OF cons(2)] right_ok_above [OF cons(3)] by auto
qed simp

subsection \<open>Adding a child and splitting\<close>

lemma left_ok_keys: "left_ok lo hi ks ts m \<Longrightarrow> in_range m h x \<Longrightarrow> k \<in> set ks \<Longrightarrow> k \<le> x"
proof (induction lo hi ks ts m rule: left_ok.induct)
  case (2 lo hi k' ks t ts m)
  have a: "left_ok (Some k') hi ks ts m" using 2(2) by simp
  have "k' \<le> x"
  proof (cases "ks = []")
    case True
    then show ?thesis using a 2(3) in_range_bounds(2) by auto
  next
    case False
    then obtain m' where "m = Some m'" "in_range (Some k') hi m'" using left_ok_entries [OF a] by auto
    then show ?thesis using 2(3) in_range_bounds(2) by (meson order_trans)
  qed
  then show ?case using 2 a by auto
qed auto

lemma ordered_list_keys: "ordered_list lo hi ks ts \<Longrightarrow> k \<in> set ks \<Longrightarrow> between lo hi k"
proof (induction ks arbitrary: lo ts)
  case (Cons k' ks)
  obtain t us where ts: "ts = t # us" using Cons.prems(1) by (cases ts) auto
  then show ?case using Cons between_right by (cases "k = k'") auto
qed simp

lemma right_ok_keys: "right_ok m h ks ts hi \<Longrightarrow> in_range m h x \<Longrightarrow> k \<in> set ks \<Longrightarrow> x < k"
proof (cases ks)
  case (Cons k' ks')
  assume "right_ok m h ks ts hi" "in_range m h x" "k \<in> set ks"
  then have a: "x < k'" "k = k' \<or> k \<in> set ks'" "ordered_list (Some k') hi ks' ts" using Cons in_range_bounds by auto
  then have "k = k' \<or> k' < k" using between_bounds(2) ordered_list_keys by blast
  then show ?thesis using a(1) by auto
qed simp

lemma ordered_add_child:
  assumes "left_ok a b ks1 ts1 lo" "right_ok lo hi ks2 ts2 b" "length ts1 = length ks1"
    and "between lo hi k" "ordered lo (Some k) l" "ordered (Some k) hi r"
  shows "ordered_list a b (ks1 @ k # ks2) (ts1 @ l # r # ts2)"
proof -
  have "between lo b k" using assms(2,4) by (cases ks2) (auto simp: between_def split: option.splits)
  moreover have "ordered_list (Some k) b ks2 (r # ts2)"
  proof (cases ks2)
    case Nil
    then show ?thesis using assms(2,6) by simp
  next
    case (Cons k2 ks')
    then have "between (Some k) b k2" using assms(2,4) by (auto simp: between_def split: option.splits)
    then show ?thesis using assms(2,6) Cons by simp
  qed
  ultimately have "right_ok lo (Some k) (k # ks2) (r # ts2) b" by simp
  then show ?thesis using ordered_list_split [OF assms(3), of a b "k # ks2" l "r # ts2"] assms(1,5) by blast
qed

lemma ordered_list_cut:
  assumes "ordered_list lo hi ks ts" "i < length ks"
  shows "ordered_list lo (Some (ks ! i)) (take i ks) (take (Suc i) ts) \<and>
    ordered_list (Some (ks ! i)) hi (drop (Suc i) ks) (drop (Suc i) ts) \<and> between lo hi (ks ! i)"
  using assms
proof (induction ks arbitrary: lo ts i)
  case (Cons k ks)
  obtain t us where ts: "ts = t # us" using Cons.prems(1) by (cases ts) auto
  have o: "between lo hi k" "ordered lo (Some k) t" "ordered_list (Some k) hi ks us" using Cons.prems(1) ts by auto
  show ?case
  proof (cases i)
    case 0
    then show ?thesis using o ts by simp
  next
    case (Suc j)
    then have j: "j < length ks" using Cons.prems(2) by simp
    have r: "ordered_list (Some k) (Some (ks ! j)) (take j ks) (take (Suc j) us)"
      "ordered_list (Some (ks ! j)) hi (drop (Suc j) ks) (drop (Suc j) us)" "between (Some k) hi (ks ! j)"
      using Cons.IH [OF o(3) j] by simp_all
    show ?thesis using r o ts Suc between_cut [OF o(1) r(3)] between_right [OF o(1) r(3)] by simp
  qed
qed simp

subsection \<open>The way down\<close>

lemma key_pos_simps [simp]: "key_pos key [] = 0" "key_pos key (k # ks) = (if k \<le> key then Suc (key_pos key ks) else 0)"
  by (simp_all add: key_pos_def)

lemma key_pos_between: "(\<And>k. k \<in> set ks1 \<Longrightarrow> k \<le> key) \<Longrightarrow> (\<And>k. k \<in> set ks2 \<Longrightarrow> key < k) \<Longrightarrow> key_pos key (ks1 @ ks2) = length ks1"
proof (induction ks1)
  case Nil
  then show ?case by (cases ks2) (auto simp: not_le)
qed simp

text \<open>The child that a search descends into, as a frame around it.\<close>

lemma descend:
  "ordered_list lo hi ks ts \<Longrightarrow> in_range lo hi key \<Longrightarrow>
   \<exists>ks1 ks2 ts1 t ts2 m h. ks = ks1 @ ks2 \<and> ts = ts1 @ t # ts2 \<and> length ts1 = length ks1 \<and> length ks1 = key_pos key ks \<and>
     length ts2 = length ks2 \<and>
     left_ok lo hi ks1 ts1 m \<and> right_ok m h ks2 ts2 hi \<and> ordered m h t \<and> in_range m h key"
proof (induction ks arbitrary: lo ts)
  case Nil
  then obtain t where "ts = [t]" "ordered lo hi t" by (cases ts) auto
  then show ?case using Nil.prems(2)
    by (intro exI [of _ "[]"] exI [of _ "[]"] exI [of _ "[]"] exI [of _ t] exI [of _ "[]"] exI [of _ lo] exI [of _ hi]) auto
next
  case (Cons k ks)
  obtain t us where ts: "ts = t # us" using Cons.prems(1) by (cases ts) auto
  have o: "between lo hi k" "ordered lo (Some k) t" "ordered_list (Some k) hi ks us" using Cons.prems(1) ts by auto
  show ?case
  proof (cases "k \<le> key")
    case True
    then have "in_range (Some k) hi key" using Cons.prems(2) in_range_upper by auto
    from Cons.IH [OF o(3) this] obtain ks1 ks2 ts1 u ts2 m h where u: "ks = ks1 @ ks2" "us = ts1 @ u # ts2"
      "length ts1 = length ks1" "length ks1 = key_pos key ks" "length ts2 = length ks2"
      "left_ok (Some k) hi ks1 ts1 m" "right_ok m h ks2 ts2 hi" "ordered m h u" "in_range m h key" by blast
    then show ?thesis using True o ts
      by (intro exI [of _ "k # ks1"] exI [of _ ks2] exI [of _ "t # ts1"] exI [of _ u] exI [of _ ts2] exI [of _ m] exI [of _ h]) simp
  next
    case False
    then have "in_range lo (Some k) key" using Cons.prems(2) in_range_lower by auto
    then show ?thesis using False o ts ordered_list_length [OF o(3)]
      by (intro exI [of _ "[]"] exI [of _ "k # ks"] exI [of _ "[]"] exI [of _ t] exI [of _ us] exI [of _ lo] exI [of _ "Some k"]) simp
  qed
qed

lemma at_leaf_root: "tree_wf t \<Longrightarrow> ordered None None t \<Longrightarrow> height_le n t \<Longrightarrow> at_leaf t key n [] t"
  unfolding at_leaf_def using ctx_ordered.nil by fastforce

lemma at_leaf_step:
  assumes "at_leaf t key n fs (TNode p ks ts)"
  shows "\<exists>f u. at_leaf t key n (f # fs) u \<and> fr_page f = p \<and> ks = fr_lkeys f @ fr_rkeys f \<and> ts = fr_lkids f @ u # fr_rkids f \<and>
    length (fr_lkids f) = key_pos key ks"
proof -
  obtain lo hi m where a: "t = fill fs (TNode p ks ts)" "list_all frame_wf fs" "tree_wf (TNode p ks ts)" "ctx_ordered fs lo hi"
    "in_range lo hi key" "ordered_list lo hi ks ts" "ctx_height n fs m" "height_le m (TNode p ks ts)"
    using assms by (auto simp: at_leaf_def)
  obtain ks1 ks2 ts1 u ts2 l h where d: "ks = ks1 @ ks2" "ts = ts1 @ u # ts2" "length ts1 = length ks1" "length ks1 = key_pos key ks"
     "length ts2 = length ks2" "left_ok lo hi ks1 ts1 l" "right_ok l h ks2 ts2 hi" "ordered l h u" "in_range l h key"
    using descend [OF a(6,5)] by blast
  obtain m' where m: "m = Suc m'" "list_all (height_le m') ts" using a(8) by (cases m) auto
  let ?f = "\<lparr>fr_page = p, fr_lkeys = ks1, fr_lkids = ts1, fr_rkeys = ks2, fr_rkids = ts2\<rparr>"
  have "ctx_ordered (?f # fs) l h" using ctx_ordered.cons [OF a(4), of ?f l h] d(6,7) by simp
  moreover have "ctx_height n (?f # fs) m'" "height_le m' u" using a(7) m d(2) by simp_all
  moreover have "frame_wf ?f" "tree_wf u" using a(3) d(1-5) by (simp_all add: frame_wf_def)
  ultimately have "at_leaf t key n (?f # fs) u" using a(1,2) d by (auto simp: at_leaf_def fill1_def)
  then show ?thesis using d by (intro exI [of _ ?f] exI [of _ u]) simp
qed

lemma at_leaf_sides:
  "at_leaf t key n fs u \<Longrightarrow> (\<forall>e \<in> set (leaf_entries (lleaves fs)). en_key e < key) \<and> (\<forall>e \<in> set (leaf_entries (rleaves fs)). key < en_key e)"
  unfolding at_leaf_def using ctx_sides by blast

lemma at_leaf_lookup:
  "at_leaf t key n fs u \<Longrightarrow> lookup_entry key (leaf_entries (leaves t)) = lookup_entry key (leaf_entries (leaves u))"
  using at_leaf_sides [of t key n fs u] lookup_middle by (simp add: at_leaf_def leaves_fill)

lemma at_leaf_insert:
  "at_leaf t (en_key x) n fs u \<Longrightarrow>
   insert_entry x (leaf_entries (leaves t)) = leaf_entries (lleaves fs) @ insert_entry x (leaf_entries (leaves u)) @ leaf_entries (rleaves fs)"
  using at_leaf_sides [of t "en_key x" n fs u] insert_entry_middle by (simp add: at_leaf_def leaves_fill)

text \<open>The leaf may be replaced by one with the same range.\<close>

lemma at_leaf_replace:
  assumes "at_leaf t key n fs (TLeaf p es nx)" "entries_sorted es'" "\<forall>e \<in> set es'. e \<in> set es \<or> en_key e = key"
    and "length es' \<le> BTREE_ORDER" "tree_key key"
  shows "tree_wf (fill fs (TLeaf p es' nx')) \<and> ordered None None (fill fs (TLeaf p es' nx')) \<and> height_le n (fill fs (TLeaf p es' nx'))"
proof -
  obtain lo hi m where a: "list_all frame_wf fs" "tree_wf (TLeaf p es nx)" "ctx_ordered fs lo hi"
    "in_range lo hi key" "ordered lo hi (TLeaf p es nx)" "ctx_height n fs m"
    using assms(1) by (auto simp: at_leaf_def)
  have "tree_wf (TLeaf p es' nx')" using a(2) assms(3,4,5) by (auto simp: list_all_iff)
  moreover have "ordered lo hi (TLeaf p es' nx')" using a(4,5) assms(2,3) by (auto simp: list_all_iff)
  ultimately show ?thesis using wf_fill a(1) ordered_fill [OF a(3)] height_fill [OF a(6)] by simp
qed

end
