(* ===== verification/Btree.thy ===== *)
theory Btree
  imports Btree_Model
begin

text \<open>
  \<open>src/core/btree.rs\<close>: the B-tree that maps document ids (and index keys) to page numbers.

  The tree is a record, \<open>BTreeInner\<close>; its methods run on it and the pager. Walks down the tree follow
  page numbers read from pages, so they take a bound on the number of steps; a walk that uses it up
  stands for a call that does not return, which is given the outcome \<open>Panic\<close>. The theorems state the outcome \<open>Ok\<close> for
  every bound above the height of the tree.
\<close>

record btree =
  bt_root_page :: page_num
  bt_tx_active :: bool
  bt_cow_pages :: "(page_num, page_num) hmap"
  bt_new_pages :: "(page_num, bool) hmap"
  bt_modified_root :: page_num

type_synonym bt_state = "btree \<times> pager"

text \<open>A pager method inside a method of the tree.\<close>

definition in_pager :: "(pager \<Rightarrow> 'a res \<times> pager) \<Rightarrow> bt_state \<Rightarrow> 'a res \<times> bt_state" where
  "in_pager f st = (case f (snd st) of (r, s) \<Rightarrow> (r, fst st, s))"

definition upd_tree :: "(btree \<Rightarrow> btree) \<Rightarrow> bt_state \<Rightarrow> bt_state" where
  "upd_tree f st = (f (fst st), snd st)"

definition btree_open :: "page_num \<Rightarrow> btree" where
  "btree_open root_page = \<lparr>bt_root_page = root_page, bt_tx_active = False, bt_cow_pages = [], bt_new_pages = [], bt_modified_root = 0\<rparr>"

definition get_root_page :: "btree \<Rightarrow> page_num" where
  "get_root_page bt = (if bt_modified_root bt \<noteq> 0 then bt_modified_root bt else bt_root_page bt)"

definition read_node :: "page_num \<Rightarrow> bt_state \<Rightarrow> btree_node res \<times> bt_state" where
  "read_node page_num st =
     (let actual_page = (if bt_tx_active (fst st)
        then (case hm_get (bt_cow_pages (fst st)) page_num of Some p \<Rightarrow> p | None \<Rightarrow> page_num) else page_num)
      in and_then (in_pager (read_page actual_page) st) (\<lambda>data st. (deserialize_node actual_page data, st)))"

text \<open>The page \<open>write_node\<close> writes to: the node's own, its copy, or a new copy.\<close>

definition cow_target :: "page_num \<Rightarrow> bt_state \<Rightarrow> page_num res \<times> bt_state" where
  "cow_target page_num st =
     (let root_page = get_root_page (fst st); bt = fst st in
      if \<not> bt_tx_active bt then (Ok page_num, st)
      else if hm_contains (bt_new_pages bt) page_num then (Ok page_num, st)
      else case hm_get (bt_cow_pages bt) page_num of
        Some existing_cow \<Rightarrow> (Ok existing_cow, st)
      | None \<Rightarrow>
          and_then (in_pager alloc_page st) (\<lambda>new_page st.
          (Ok new_page, upd_tree (\<lambda>bt.
             let bt = bt\<lparr>bt_cow_pages := hm_insert page_num new_page (bt_cow_pages bt),
                         bt_new_pages := hm_insert new_page True (bt_new_pages bt)\<rparr>
             in if page_num = root_page then bt\<lparr>bt_modified_root := new_page\<rparr> else bt) st)))"

definition write_node :: "btree_node \<Rightarrow> bt_state \<Rightarrow> unit res \<times> bt_state" where
  "write_node node st =
     and_then (cow_target (bn_page_num node) st) (\<lambda>page_num st.
     and_then (no_panic (serialize_node_into node (replicate PAGE_SIZE 0)), st) (\<lambda>data st.
     in_pager (write_page_transfer page_num data) st))"

definition btree_new :: "pager \<Rightarrow> btree res \<times> pager" where
  "btree_new s =
     and_then (alloc_page s) (\<lambda>root_page s.
     (case write_node (new_leaf root_page) (btree_open root_page, s) of
        (Ok _, bt, s) \<Rightarrow> (Ok bt, s) | (Err e, bt, s) \<Rightarrow> (Err e, s) | (Panic, bt, s) \<Rightarrow> (Panic, s)))"


subsection \<open>Finding\<close>

fun child_index :: "nat \<Rightarrow> string \<Rightarrow> string list \<Rightarrow> nat" where
  "child_index idx key [] = idx"
| "child_index idx key (k # ks) = (if key < k then idx else child_index (idx + 1) key ks)"

definition find_child :: "btree_node \<Rightarrow> string \<Rightarrow> page_num res" where
  "find_child node key =
     (if bn_children node = [] then btree_corruption (bn_page_num node) ''internal node has no children''
      else let idx = child_index 0 key (bn_keys node) in
        if idx \<ge> length (bn_children node) then
          btree_corruption (bn_page_num node) (''child index '' @ show_nat idx @ '' out of range (have ''
            @ show_nat (length (bn_children node)) @ '' children)'')
        else Ok (bn_children node ! idx))"

fun find_entry :: "string \<Rightarrow> leaf_entry list \<Rightarrow> u64 option" where
  "find_entry key [] = None"
| "find_entry key (e # es) = (if en_key e = key then Some (en_value e) else find_entry key es)"

fun search_down :: "nat \<Rightarrow> btree_node \<Rightarrow> string \<Rightarrow> bt_state \<Rightarrow> btree_node res \<times> bt_state" where
  "search_down fuel node key st =
     (if bn_node_type node = LeafNode then (Ok node, st)
      else case fuel of 0 \<Rightarrow> (Panic, st)
        | Suc fuel \<Rightarrow> and_then (find_child node key, st) (\<lambda>child_page st.
            and_then (read_node child_page st) (\<lambda>node st. search_down fuel node key st)))"

declare search_down.simps [simp del]

definition btree_search :: "nat \<Rightarrow> string \<Rightarrow> bt_state \<Rightarrow> u64 res \<times> bt_state" where
  "btree_search fuel doc_id st =
     and_then (read_node (get_root_page (fst st)) st) (\<lambda>node st.
     and_then (search_down fuel node doc_id st) (\<lambda>node st.
     (case find_entry doc_id (bn_entries node) of Some v \<Rightarrow> Ok v | None \<Rightarrow> Err NotFound, st)))"

fun find_leaf :: "nat \<Rightarrow> btree_node \<Rightarrow> string \<Rightarrow> page_num list \<Rightarrow> bt_state \<Rightarrow> (btree_node \<times> page_num list) res \<times> bt_state" where
  "find_leaf fuel node key path st =
     (if bn_node_type node = LeafNode then (Ok (node, path), st)
      else case fuel of 0 \<Rightarrow> (Panic, st)
        | Suc fuel \<Rightarrow> and_then (find_child node key, st) (\<lambda>child_page st.
            and_then (read_node child_page st) (\<lambda>child st. find_leaf fuel child key (path @ [child_page]) st)))"


declare find_leaf.simps [simp del]


subsection \<open>Inserting\<close>

fun replace_value :: "leaf_entry \<Rightarrow> leaf_entry list \<Rightarrow> leaf_entry list option" where
  "replace_value entry [] = None"
| "replace_value entry (e # es) =
     (if en_key e = en_key entry then Some (e\<lparr>en_value := en_value entry\<rparr> # es)
      else map_option ((#) e) (replace_value entry es))"

fun insert_index :: "nat \<Rightarrow> string \<Rightarrow> string list \<Rightarrow> nat \<Rightarrow> nat" where
  "insert_index i key [] len = len"
| "insert_index i key (k # ks) len = (if key < k then i else insert_index (i + 1) key ks len)"

text \<open>\<open>Vec::insert\<close>, which panics beyond the end.\<close>

definition vec_insert :: "nat \<Rightarrow> 'a \<Rightarrow> 'a list \<Rightarrow> 'a list option" where
  "vec_insert i x xs = (if i \<le> length xs then Some (take i xs @ x # drop i xs) else None)"

definition insert_into_leaf :: "btree_node \<Rightarrow> leaf_entry \<Rightarrow> btree_node option" where
  "insert_into_leaf leaf entry =
     (case replace_value entry (bn_entries leaf) of
        Some es \<Rightarrow> Some (leaf\<lparr>bn_entries := es\<rparr>)
      | None \<Rightarrow>
          let idx = insert_index 0 (en_key entry) (map en_key (bn_entries leaf)) (length (bn_entries leaf))
          in do {
            es \<leftarrow> vec_insert idx entry (bn_entries leaf);
            Some (leaf\<lparr>bn_entries := es, bn_num_keys := word_of_nat (length es)\<rparr>)
          })"

definition note_new_page :: "page_num \<Rightarrow> bt_state \<Rightarrow> bt_state" where
  "note_new_page p st =
     (if bt_tx_active (fst st) then upd_tree (\<lambda>bt. bt\<lparr>bt_new_pages := hm_insert p True (bt_new_pages bt)\<rparr>) st else st)"

definition create_new_root :: "page_num \<Rightarrow> string \<Rightarrow> page_num \<Rightarrow> bt_state \<Rightarrow> unit res \<times> bt_state" where
  "create_new_root left_child key right_child st =
     and_then (in_pager alloc_page st) (\<lambda>new_root_page st.
     let st = note_new_page new_root_page st;
         new_root = (new_internal new_root_page)\<lparr>bn_num_keys := 1, bn_keys := [key], bn_children := [left_child, right_child]\<rparr>
     in and_then (write_node new_root st) (\<lambda>_ st.
        (Ok (), upd_tree (\<lambda>bt. if bt_tx_active bt then bt\<lparr>bt_modified_root := new_root_page\<rparr>
                               else bt\<lparr>bt_root_page := new_root_page\<rparr>) st)))"

fun replace_child :: "page_num \<Rightarrow> page_num \<Rightarrow> page_num list \<Rightarrow> page_num list" where
  "replace_child old new [] = []"
| "replace_child old new (c # cs) = (if c = old then new # cs else c # replace_child old new cs)"

text \<open>
  \<open>insert_into_parent\<close> and \<open>split_internal\<close> call each other, one level up each time; \<open>path\<close> ends with
  the page of the node at hand.
\<close>

function insert_into_parent :: "btree_node \<Rightarrow> string \<Rightarrow> page_num \<Rightarrow> page_num list \<Rightarrow> bt_state \<Rightarrow> unit res \<times> bt_state"
  and split_internal :: "btree_node \<Rightarrow> page_num list \<Rightarrow> bt_state \<Rightarrow> unit res \<times> bt_state" where
  "insert_into_parent parent key right_child path st =
     (let idx = insert_index 0 key (bn_keys parent) (length (bn_keys parent)) in
      and_then (no_panic (vec_insert idx key (bn_keys parent)), st) (\<lambda>keys st.
      and_then (no_panic (vec_insert (idx + 1) right_child (bn_children parent)), st) (\<lambda>children st.
      let parent = parent\<lparr>bn_keys := keys, bn_children := children, bn_num_keys := word_of_nat (length keys)\<rparr>
      in if length (bn_keys parent) > BTREE_ORDER then split_internal parent path st
         else write_node parent st)))"
| "split_internal node path st =
     (let mid = length (bn_keys node) div 2 in
      and_then (in_pager alloc_page st) (\<lambda>new_node_page st.
      let st = note_new_page new_node_page st in
      and_then (no_panic (if mid < length (bn_keys node) then Some (bn_keys node ! mid) else None), st) (\<lambda>promote_key st.
      and_then (no_panic (if mid + 1 \<le> length (bn_children node) then Some () else None), st) (\<lambda>_ st.
      let new_node = (new_internal new_node_page)\<lparr>bn_keys := drop (mid + 1) (bn_keys node),
            bn_children := drop (mid + 1) (bn_children node), bn_num_keys := word_of_nat (length (drop (mid + 1) (bn_keys node)))\<rparr>;
          keys = butlast (take (mid + 1) (bn_keys node));
          node = node\<lparr>bn_keys := keys, bn_children := take (mid + 1) (bn_children node), bn_num_keys := word_of_nat (length keys)\<rparr>
      in and_then (write_node node st) (\<lambda>_ st.
         and_then (write_node new_node st) (\<lambda>_ st.
         if length path = 1 then create_new_root (bn_page_num node) promote_key new_node_page st
         else if length path < 2 then (Panic, st)
         else and_then (read_node (path ! (length path - 2)) st) (\<lambda>parent st.
           let old_node_page = path ! (length path - 1);
               parent = (if old_node_page \<noteq> bn_page_num node
                 then parent\<lparr>bn_children := replace_child old_node_page (bn_page_num node) (bn_children parent)\<rparr> else parent)
           in insert_into_parent parent promote_key new_node_page (butlast path) st)))))))"
  by pat_completeness auto
termination
  by (relation "measure (\<lambda>x. case x of Inl (_, _, _, path, _) \<Rightarrow> 2 * length path + 1 | Inr (_, path, _) \<Rightarrow> 2 * length path)") auto

declare insert_into_parent.simps [simp del] split_internal.simps [simp del]

definition split_leaf :: "btree_node \<Rightarrow> page_num list \<Rightarrow> bt_state \<Rightarrow> unit res \<times> bt_state" where
  "split_leaf leaf path st =
     (let mid = length (bn_entries leaf) div 2 in
      and_then (in_pager alloc_page st) (\<lambda>new_leaf_page st.
      let st = note_new_page new_leaf_page st;
          right_entries = drop mid (bn_entries leaf);
          right = (new_leaf new_leaf_page)\<lparr>bn_entries := right_entries, bn_num_keys := word_of_nat (length right_entries),
            bn_next_leaf := bn_next_leaf leaf\<rparr>;
          left_entries = take mid (bn_entries leaf);
          leaf = leaf\<lparr>bn_entries := left_entries, bn_next_leaf := new_leaf_page, bn_num_keys := word_of_nat (length left_entries)\<rparr>
      in and_then (write_node leaf st) (\<lambda>_ st.
         and_then (write_node right st) (\<lambda>_ st.
         case right_entries of [] \<Rightarrow> (Panic, st)
         | e # _ \<Rightarrow>
           let promote_key = en_key e in
           if length path = 1 then create_new_root (bn_page_num leaf) promote_key new_leaf_page st
           else if length path < 2 then (Panic, st)
           else and_then (read_node (path ! (length path - 2)) st) (\<lambda>parent st.
             let old_leaf_page = path ! (length path - 1);
                 parent = (if old_leaf_page \<noteq> bn_page_num leaf
                   then parent\<lparr>bn_children := replace_child old_leaf_page (bn_page_num leaf) (bn_children parent)\<rparr> else parent)
             in insert_into_parent parent promote_key new_leaf_page (butlast path) st)))))"

text \<open>The loop of \<open>update_path_after_modification\<close>, from the leaf's parent up; \<open>i\<close> counts the levels above.\<close>

fun update_path :: "nat \<Rightarrow> page_num list \<Rightarrow> bt_state \<Rightarrow> unit res \<times> bt_state" where
  "update_path 0 path st = (Ok (), st)"
| "update_path (Suc i) path st =
     and_then (read_node (path ! i) st) (\<lambda>parent st.
     let old_child_page = path ! Suc i in
     case hm_get (bt_cow_pages (fst st)) old_child_page of
       None \<Rightarrow> update_path i path st
     | Some new_child_page \<Rightarrow>
         if old_child_page \<in> set (bn_children parent) then
           and_then (write_node (parent\<lparr>bn_children := replace_child old_child_page new_child_page (bn_children parent)\<rparr>) st)
             (\<lambda>_ st. update_path i path st)
         else update_path i path st)"

definition update_path_after_modification :: "page_num list \<Rightarrow> bt_state \<Rightarrow> unit res \<times> bt_state" where
  "update_path_after_modification path st =
     (if length path \<le> 1 then (Ok (), st) else update_path (length path - 1) path st)"

definition btree_insert :: "nat \<Rightarrow> string \<Rightarrow> u64 \<Rightarrow> bt_state \<Rightarrow> unit res \<times> bt_state" where
  "btree_insert fuel doc_id page_num st =
     (let root = get_root_page (fst st) in
      and_then (read_node root st) (\<lambda>node st.
      and_then (find_leaf fuel node doc_id [root] st) (\<lambda>(leaf, path) st.
      and_then (no_panic (insert_into_leaf leaf \<lparr>en_key = doc_id, en_value = page_num\<rparr>), st) (\<lambda>leaf st.
      if length (bn_entries leaf) > BTREE_ORDER then split_leaf leaf path st
      else and_then (write_node leaf st) (\<lambda>_ st. update_path_after_modification path st)))))"


subsection \<open>Deleting\<close>

fun remove_entry :: "string \<Rightarrow> leaf_entry list \<Rightarrow> leaf_entry list option" where
  "remove_entry key [] = None"
| "remove_entry key (e # es) = (if en_key e = key then Some es else map_option ((#) e) (remove_entry key es))"

definition btree_delete :: "nat \<Rightarrow> string \<Rightarrow> bt_state \<Rightarrow> unit res \<times> bt_state" where
  "btree_delete fuel doc_id st =
     (let root = get_root_page (fst st) in
      and_then (read_node root st) (\<lambda>node st.
      and_then (find_leaf fuel node doc_id [root] st) (\<lambda>(leaf, path) st.
      case remove_entry doc_id (bn_entries leaf) of
        None \<Rightarrow> (Err NotFound, st)
      | Some es \<Rightarrow> write_node (leaf\<lparr>bn_entries := es, bn_num_keys := word_of_nat (length es)\<rparr>) st)))"


subsection \<open>Iterating\<close>

record btree_iterator =
  it_current_leaf :: "btree_node option"
  it_index :: nat
  it_started :: bool

fun first_leaf :: "nat \<Rightarrow> btree_node \<Rightarrow> bt_state \<Rightarrow> btree_node res \<times> bt_state" where
  "first_leaf fuel node st =
     (if bn_node_type node = LeafNode then (Ok node, st)
      else case bn_children node of [] \<Rightarrow> (Err (Other ''internal node has no children''), st)
      | c # _ \<Rightarrow> (case fuel of 0 \<Rightarrow> (Panic, st)
          | Suc fuel \<Rightarrow> and_then (read_node c st) (\<lambda>node st. first_leaf fuel node st)))"

declare first_leaf.simps [simp del]

definition btree_iterator_new :: "nat \<Rightarrow> bt_state \<Rightarrow> btree_iterator res \<times> bt_state" where
  "btree_iterator_new fuel st =
     and_then (read_node (get_root_page (fst st)) st) (\<lambda>node st.
     and_then (first_leaf fuel node st) (\<lambda>node st.
     (Ok \<lparr>it_current_leaf = Some node, it_index = 0, it_started = False\<rparr>, st)))"

definition iterator_next :: "btree_iterator \<Rightarrow> bt_state \<Rightarrow> (bool \<times> btree_iterator) res \<times> bt_state" where
  "iterator_next it st =
     (case it_current_leaf it of None \<Rightarrow> (Ok (False, it), st)
      | Some cur \<Rightarrow>
        if \<not> it_started it then (Ok (length (bn_entries cur) > 0, it\<lparr>it_started := True\<rparr>), st)
        else let it = it\<lparr>it_index := it_index it + 1\<rparr> in
          if it_index it \<ge> length (bn_entries cur) then
            if bn_next_leaf cur = 0 then (Ok (False, it), st)
            else (case read_node (bn_next_leaf cur) st of
                (Ok next_leaf, st) \<Rightarrow>
                  (Ok (0 < length (bn_entries next_leaf), it\<lparr>it_current_leaf := Some next_leaf, it_index := 0\<rparr>), st)
              | (Err _, st) \<Rightarrow> (Ok (False, it), st)
              | (Panic, st) \<Rightarrow> (Panic, st))
          else (Ok (True, it), st))"

definition iterator_entry :: "btree_iterator \<Rightarrow> (string \<times> u64) option" where
  "iterator_entry it =
     (case it_current_leaf it of None \<Rightarrow> None
      | Some cur \<Rightarrow> if it_index it \<ge> length (bn_entries cur) then Some ([], 0)
          else let e = bn_entries cur ! it_index it in Some (en_key e, en_value e))"

fun count_entries :: "nat \<Rightarrow> nat \<Rightarrow> btree_iterator \<Rightarrow> bt_state \<Rightarrow> nat res \<times> bt_state" where
  "count_entries fuel n it st =
     (case fuel of 0 \<Rightarrow> (Panic, st)
      | Suc fuel \<Rightarrow> and_then (iterator_next it st) (\<lambda>(more, it) st.
          if more then count_entries fuel (n + 1) it st else (Ok n, st)))"

declare count_entries.simps [simp del]

definition btree_count :: "nat \<Rightarrow> bt_state \<Rightarrow> nat res \<times> bt_state" where
  "btree_count fuel st = and_then (btree_iterator_new fuel st) (\<lambda>it st. count_entries fuel 0 it st)"


subsection \<open>Transactions of the tree\<close>

definition bt_begin_transaction :: "btree \<Rightarrow> btree" where
  "bt_begin_transaction bt = bt\<lparr>bt_tx_active := True, bt_cow_pages := [], bt_new_pages := [], bt_modified_root := 0\<rparr>"

definition bt_commit_transaction :: "btree \<Rightarrow> btree" where
  "bt_commit_transaction bt =
     (let bt = (if bt_modified_root bt \<noteq> 0 then bt\<lparr>bt_root_page := bt_modified_root bt\<rparr> else bt)
      in bt\<lparr>bt_tx_active := False, bt_cow_pages := [], bt_new_pages := [], bt_modified_root := 0\<rparr>)"

definition bt_rollback_transaction :: "bt_state \<Rightarrow> bt_state" where
  "bt_rollback_transaction st =
     (let s = fold (\<lambda>p s. snd (free_page p s)) (map snd (bt_cow_pages (fst st))) (snd st)
      in ((fst st)\<lparr>bt_tx_active := False, bt_cow_pages := [], bt_new_pages := [], bt_modified_root := 0\<rparr>, s))"


subsection \<open>Specification\<close>

definition leaf_node :: "page_num \<Rightarrow> leaf_entry list \<Rightarrow> page_num \<Rightarrow> btree_node" where
  "leaf_node p es nx = (new_leaf p)\<lparr>bn_entries := es, bn_num_keys := word_of_nat (length es), bn_next_leaf := nx\<rparr>"

definition inner_node :: "page_num \<Rightarrow> string list \<Rightarrow> page_num list \<Rightarrow> btree_node" where
  "inner_node p ks cs = (new_internal p)\<lparr>bn_num_keys := word_of_nat (length ks), bn_keys := ks, bn_children := cs\<rparr>"

fun node_of :: "tree \<Rightarrow> btree_node" where
  "node_of (TLeaf p es nx) = leaf_node p es nx"
| "node_of (TNode p ks ts) = inner_node p ks (map tree_page ts)"

definition page_image :: "btree_node \<Rightarrow> bytes" where
  "page_image node = node_bytes node @ replicate (PAGE_SIZE - node_size node) 0"

text \<open>The pages hold the nodes of the tree.\<close>

fun stored :: "(page_num \<Rightarrow> bytes option) \<Rightarrow> tree \<Rightarrow> bool" where
  "stored C (TLeaf p es nx) \<longleftrightarrow> C p = Some (page_image (leaf_node p es nx))"
| "stored C (TNode p ks ts) \<longleftrightarrow> C p = Some (page_image (inner_node p ks (map tree_page ts))) \<and> list_all (stored C) ts"

definition idle :: "btree \<Rightarrow> bool" where
  "idle bt \<longleftrightarrow> \<not> bt_tx_active bt \<and> bt_cow_pages bt = [] \<and> bt_modified_root bt = 0"

definition same_store :: "pager \<Rightarrow> pager \<Rightarrow> bool" where
  "same_store s s' \<longleftrightarrow> store_ok s' \<and> in_use s' = in_use s \<and> (\<forall>n. room n s' = room n s) \<and>
     page_content s' = page_content s \<and> pg_metadata_page s' = pg_metadata_page s"

text \<open>Nodes within the limits of the tree can be written and read back.\<close>

definition fits :: "btree_node \<Rightarrow> bool" where
  "fits node \<longleftrightarrow> node_ok node \<and> node_size node \<le> PAGE_SIZE"

fun ctx_stored :: "(page_num \<Rightarrow> bytes option) \<Rightarrow> frame list \<Rightarrow> page_num \<Rightarrow> bool" where
  "ctx_stored C [] q \<longleftrightarrow> True"
| "ctx_stored C (f # fs) q \<longleftrightarrow>
     C (fr_page f) = Some (page_image (inner_node (fr_page f) (fr_lkeys f @ fr_rkeys f)
       (map tree_page (fr_lkids f) @ q # map tree_page (fr_rkids f)))) \<and>
     list_all (stored C) (fr_lkids f @ fr_rkids f) \<and> ctx_stored C fs (fr_page f)"

definition path_of :: "frame list \<Rightarrow> tree \<Rightarrow> page_num list" where
  "path_of fs u = rev (map fr_page fs) @ [tree_page u]"

text \<open>
  The state represents a tree: its pages are distinct, in use and hold the nodes, its keys are ordered, and its
  height is at most \<open>n\<close>.
\<close>

definition tree_rep :: "nat \<Rightarrow> bt_state \<Rightarrow> tree \<Rightarrow> bool" where
  "tree_rep n st t \<longleftrightarrow> idle (fst st) \<and> store_ok (snd st) \<and> tree_page t = bt_root_page (fst st) \<and>
     stored (page_content (snd st)) t \<and> tree_wf t \<and> ordered None None t \<and> height_le n t \<and>
     distinct (tree_pages t) \<and> set (tree_pages t) \<subseteq> in_use (snd st)"

text \<open>The map that the tree implements.\<close>

definition tree_map :: "tree \<Rightarrow> string \<Rightarrow> u64 option" where
  "tree_map t k = lookup_entry k (leaf_entries (leaves t))"

text \<open>Two trees and the key between them, which are to take the place of one tree.\<close>

definition split_pair :: "(page_num \<Rightarrow> bytes option) \<Rightarrow> string option \<Rightarrow> string option \<Rightarrow> nat \<Rightarrow> tree \<Rightarrow> string \<Rightarrow> tree \<Rightarrow> bool" where
  "split_pair C lo hi m l k r \<longleftrightarrow> stored C l \<and> stored C r \<and> tree_wf l \<and> tree_wf r \<and> ordered lo (Some k) l \<and> ordered (Some k) hi r \<and>
     between lo hi k \<and> tree_key k \<and> height_le m l \<and> height_le m r"

text \<open>
  The result of an insertion: a tree with the given leaves on the old pages \<open>P\<close> and fresh ones; every other page that was in use
  is unchanged.
\<close>

definition ins_post :: "nat \<Rightarrow> pager \<Rightarrow> page_num set \<Rightarrow> leaf list \<Rightarrow> bt_state \<Rightarrow> bool" where
  "ins_post n s P ls st' \<longleftrightarrow> (\<exists>t'. tree_rep n st' t' \<and> leaves t' = ls \<and> set (tree_pages t') \<subseteq> P \<union> (in_use (snd st') - in_use s)) \<and>
     in_use s \<subseteq> in_use (snd st') \<and> (\<forall>x \<in> in_use s - P. page_content (snd st') x = page_content s x) \<and>
     pg_metadata_page (snd st') = pg_metadata_page s"

text \<open>The parent with the new child, and its two halves when it is too large.\<close>

definition grown :: "frame \<Rightarrow> tree \<Rightarrow> string \<Rightarrow> tree \<Rightarrow> tree" where
  "grown f l k r = TNode (fr_page f) (fr_lkeys f @ k # fr_rkeys f) (fr_lkids f @ l # r # fr_rkids f)"

definition lower_half :: "page_num \<Rightarrow> string list \<Rightarrow> tree list \<Rightarrow> tree" where
  "lower_half p ks ts = TNode p (take (length ks div 2) ks) (take (Suc (length ks div 2)) ts)"

definition upper_half :: "page_num \<Rightarrow> string list \<Rightarrow> tree list \<Rightarrow> tree" where
  "upper_half p ks ts = TNode p (drop (Suc (length ks div 2)) ks) (drop (Suc (length ks div 2)) ts)"


subsection \<open>Lemmas\<close>

lemma same_store_refl: "store_ok s \<Longrightarrow> same_store s s"
  by (simp add: same_store_def)

lemma same_store_trans: "same_store s t \<Longrightarrow> same_store t u \<Longrightarrow> same_store s u"
  by (simp add: same_store_def)

lemma leaf_node_simps [simp]:
  "bn_page_num (leaf_node p es nx) = p" "bn_node_type (leaf_node p es nx) = LeafNode" "bn_entries (leaf_node p es nx) = es"
  "bn_next_leaf (leaf_node p es nx) = nx"
  by (simp_all add: leaf_node_def new_leaf_def)

lemma inner_node_simps [simp]:
  "bn_page_num (inner_node p ks cs) = p" "bn_node_type (inner_node p ks cs) = InternalNode" "bn_keys (inner_node p ks cs) = ks"
  "bn_children (inner_node p ks cs) = cs"
  by (simp_all add: inner_node_def new_internal_def)

lemma leaf_node_upd: "(leaf_node p es nx)\<lparr>bn_entries := es', bn_num_keys := word_of_nat (length es')\<rparr> = leaf_node p es' nx"
  by (simp add: leaf_node_def new_leaf_def)

lemma inner_node_upd:
  "(inner_node p ks cs)\<lparr>bn_keys := ks', bn_children := cs', bn_num_keys := word_of_nat (length ks')\<rparr> = inner_node p ks' cs'"
  by (simp add: inner_node_def new_internal_def)

lemma bn_page_node_of [simp]: "bn_page_num (node_of t) = tree_page t"
  by (cases t) simp_all

lemma tree_key_ok: "tree_key k \<Longrightarrow> key_ok k \<and> length k \<le> 71"
  by (simp add: tree_key_def key_ok_def)

lemma fits_leaf: "length es \<le> BTREE_ORDER \<Longrightarrow> list_all (\<lambda>e. tree_key (en_key e)) es \<Longrightarrow> fits (leaf_node p es nx)"
  using leaf_fits [of "leaf_node p es nx"] tree_key_ok
  by (auto simp: fits_def node_ok_def leaf_node_def new_leaf_def list_all_iff const_defs)

lemma fits_inner:
  assumes "length ks \<le> BTREE_ORDER" "length cs = Suc (length ks)" "list_all tree_key ks"
  shows "fits (inner_node p ks cs)"
proof -
  have "unat (word_of_nat (length ks) :: u16) = length ks" using assms(1) by (simp add: unat_of_nat const_defs)
  then have "node_ok (inner_node p ks cs)" using assms tree_key_ok
    by (auto simp: node_ok_def inner_node_def new_internal_def list_all_iff const_defs)
  moreover have "node_size (inner_node p ks cs) \<le> PAGE_SIZE"
    using internal_fits [of "inner_node p ks cs"] assms tree_key_ok by (auto simp: list_all_iff)
  ultimately show ?thesis by (simp add: fits_def)
qed

lemma fits_node_of: "tree_wf t \<Longrightarrow> fits (node_of t)"
  by (cases t) (auto intro!: fits_leaf fits_inner)

lemma length_page_image: "fits n \<Longrightarrow> length (page_image n) = PAGE_SIZE"
  by (simp add: page_image_def fits_def length_node_bytes)

lemma deserialize_page_image: "fits n \<Longrightarrow> deserialize_node (bn_page_num n) (page_image n) = Ok n"
  using deserialize_node_bytes [of n "bn_page_num n"] by (simp add: page_image_def fits_def)

lemma read_node_step:
  assumes "idle bt" "store_ok s" "fits n" "page_content s (bn_page_num n) = Some (page_image n)"
  shows "\<exists>s'. read_node (bn_page_num n) (bt, s) = (Ok n, bt, s') \<and> same_store s s'"
proof -
  obtain s' where s': "read_page (bn_page_num n) s = (Ok (page_image n), s')" "same_store s s'"
    using read_step [OF assms(2,4)] by (auto simp: same_store_def)
  then show ?thesis using assms(1) deserialize_page_image [OF assms(3)]
    by (auto simp: read_node_def idle_def in_pager_def)
qed

lemma read_tree_step:
  assumes "idle bt" "store_ok s" "tree_wf t" "stored (page_content s) t"
  shows "\<exists>s'. read_node (tree_page t) (bt, s) = (Ok (node_of t), bt, s') \<and> same_store s s'"
  using read_node_step [OF assms(1,2) fits_node_of [OF assms(3)]] assms(4) by (cases t) auto

lemma write_node_step:
  assumes "idle bt" "store_ok s" "fits n" "page_ok (bn_page_num n)"
  shows "\<exists>s'. write_node n (bt, s) = (Ok (), bt, s') \<and> store_ok s' \<and> in_use s' = in_use s \<and>
    (\<forall>k. room k s' = room k s) \<and> page_content s' = (page_content s)(bn_page_num n \<mapsto> page_image n) \<and>
    pg_metadata_page s' = pg_metadata_page s"
proof -
  have "serialize_node_into n (replicate PAGE_SIZE 0) = Some (page_image n)"
    using serialize_page assms(3) by (simp add: fits_def page_image_def)
  moreover obtain s' where "write_page_transfer (bn_page_num n) (page_image n) s = (Ok (), s')" "store_ok s'" "in_use s' = in_use s"
    "\<forall>k. room k s' = room k s" "page_content s' = (page_content s)(bn_page_num n \<mapsto> page_image n)" "pg_metadata_page s' = pg_metadata_page s"
    using write_step [OF assms(2,4) length_page_image [OF assms(3)]] by blast
  ultimately show ?thesis using assms(1) by (simp add: write_node_def cow_target_def idle_def in_pager_def Let_def)
qed

lemma page_ok_in_use: "p \<in> in_use s \<Longrightarrow> room n s \<Longrightarrow> page_ok p"
  by (simp add: in_use_def room_def page_ok_def word_less_nat_alt)

lemma stored_cong: "(\<And>p. p \<in> set (tree_pages t) \<Longrightarrow> C' p = C p) \<Longrightarrow> stored C' t = stored C t"
proof (induction t)
  case (TNode p ks ts)
  have "stored C' t = stored C t" if "t \<in> set ts" for t using TNode that by auto
  then have "list_all (stored C') ts = list_all (stored C) ts" by (simp add: list_all_iff)
  then show ?case using TNode.prems by simp
qed simp

lemma stored_upd_other: "p \<notin> set (tree_pages t) \<Longrightarrow> stored (C(p \<mapsto> d)) t = stored C t"
  by (rule stored_cong) auto

lemma tree_page_in: "tree_page t \<in> set (tree_pages t)"
  by (cases t) simp_all

lemma stored_fill: "stored C (fill fs t) \<longleftrightarrow> stored C t \<and> ctx_stored C fs (tree_page t)"
  by (induction fs arbitrary: t) (auto simp: fill1_def)

lemma ctx_stored_cong: "(\<And>p. p \<in> set (ctx_pages fs) \<Longrightarrow> C' p = C p) \<Longrightarrow> ctx_stored C' fs q = ctx_stored C fs q"
proof (induction fs arbitrary: q)
  case (Cons f fs)
  have "stored C' t = stored C t" if "t \<in> set (fr_lkids f @ fr_rkids f)" for t
    using Cons.prems that by (intro stored_cong) auto
  then have "list_all (stored C') (fr_lkids f @ fr_rkids f) = list_all (stored C) (fr_lkids f @ fr_rkids f)" by (simp add: list_all_iff)
  then show ?case using Cons by auto
qed simp

lemma ctx_stored_upd_other: "p \<notin> set (ctx_pages fs) \<Longrightarrow> ctx_stored (C(p \<mapsto> d)) fs q = ctx_stored C fs q"
  by (rule ctx_stored_cong) auto

subsection \<open>Finding\<close>

lemma child_index_eq: "child_index i key ks = i + key_pos key ks"
  by (induction ks arbitrary: i) (auto simp: not_less not_le)

lemma insert_index_eq: "insert_index i key ks (i + length ks) = i + key_pos key ks"
proof (induction ks arbitrary: i)
  case (Cons k ks)
  show ?case using Cons [of "Suc i"] by (auto simp: not_less not_le)
qed simp

lemma find_entry_lookup: "find_entry k es = lookup_entry k es"
  by (induction es) auto

lemma find_child_step:
  assumes "at_leaf t key n (f # fs) u" "length (fr_lkids f) = key_pos key (fr_lkeys f @ fr_rkeys f)"
  shows "find_child (inner_node p (fr_lkeys f @ fr_rkeys f) (map tree_page (fr_lkids f @ u # fr_rkids f))) key = Ok (tree_page u)"
  using assms(2) by (simp add: find_child_def child_index_eq Let_def nth_append)

lemma down_leaf:
  "bn_node_type node = LeafNode \<Longrightarrow> search_down fuel node key st = (Ok node, st)"
  "bn_node_type node = LeafNode \<Longrightarrow> find_leaf fuel node key path st = (Ok (node, path), st)"
  by (simp_all add: search_down.simps [of fuel] find_leaf.simps [of fuel])

lemma down_zero:
  "bn_node_type node = InternalNode \<Longrightarrow> search_down 0 node key st = (Panic, st)"
  "bn_node_type node = InternalNode \<Longrightarrow> find_leaf 0 node key path st = (Panic, st)"
  by (simp_all add: search_down.simps [of 0] find_leaf.simps [of 0])

lemma down_Suc:
  "bn_node_type node = InternalNode \<Longrightarrow> search_down (Suc fuel) node key st =
    and_then (find_child node key, st) (\<lambda>c st. and_then (read_node c st) (\<lambda>node st. search_down fuel node key st))"
  "bn_node_type node = InternalNode \<Longrightarrow> find_leaf (Suc fuel) node key path st =
    and_then (find_child node key, st) (\<lambda>c st. and_then (read_node c st) (\<lambda>child st. find_leaf fuel child key (path @ [c]) st))"
  by (simp_all add: search_down.simps [of "Suc fuel"] find_leaf.simps [of "Suc fuel"])

lemma find_leaf_spec:
  assumes "idle bt" "store_ok s" "at_leaf t key n fs u" "stored (page_content s) t" "height_le fuel u"
  shows "\<exists>fs' p es nx s'. find_leaf fuel (node_of u) key (path_of fs u) (bt, s) =
      (Ok (leaf_node p es nx, path_of fs' (TLeaf p es nx)), bt, s') \<and>
    at_leaf t key n fs' (TLeaf p es nx) \<and> same_store s s'"
  using assms
proof (induction fuel arbitrary: fs u s)
  case (0 fs u s)
  then obtain p es nx where u: "u = TLeaf p es nx" by (cases u) auto
  show ?case using 0 u same_store_refl [OF 0(2)] down_leaf(2)
    by (intro exI [of _ fs] exI [of _ p] exI [of _ es] exI [of _ nx] exI [of _ s]) simp
next
  case (Suc fuel fs u s)
  show ?case
  proof (cases u)
    case (TLeaf p es nx)
    then show ?thesis using Suc.prems same_store_refl [OF Suc.prems(2)] down_leaf(2)
      by (intro exI [of _ fs] exI [of _ p] exI [of _ es] exI [of _ nx] exI [of _ s]) simp
  next
    case (TNode p ks ts)
    obtain f v where f: "at_leaf t key n (f # fs) v" "fr_page f = p" "ks = fr_lkeys f @ fr_rkeys f" "ts = fr_lkids f @ v # fr_rkids f"
      "length (fr_lkids f) = key_pos key ks"
      using at_leaf_step Suc.prems(3) TNode by blast
    have c: "find_child (node_of u) key = Ok (tree_page v)"
      using find_child_step [OF f(1), of p] f(3,4,5) TNode by simp
    have v: "tree_wf v" "stored (page_content s) v" "height_le fuel v"
      using f(1,4) Suc.prems(3,4,5) TNode by (auto simp: at_leaf_def stored_fill)
    obtain s1 where s1: "read_node (tree_page v) (bt, s) = (Ok (node_of v), bt, s1)" "same_store s s1"
      using read_tree_step [OF Suc.prems(1,2) v(1,2)] by blast
    have "store_ok s1" "stored (page_content s1) t" using s1(2) Suc.prems(4) by (simp_all add: same_store_def)
    from Suc.IH [OF Suc.prems(1) this(1) f(1) this(2) v(3)] obtain fs' p' es nx s' where
      r: "find_leaf fuel (node_of v) key (path_of (f # fs) v) (bt, s1) = (Ok (leaf_node p' es nx, path_of fs' (TLeaf p' es nx)), bt, s')"
        "at_leaf t key n fs' (TLeaf p' es nx)" "same_store s1 s'" by blast
    have "path_of fs u @ [tree_page v] = path_of (f # fs) v" using TNode f(2) by (simp add: path_of_def)
    then have "find_leaf (Suc fuel) (node_of u) key (path_of fs u) (bt, s) = (Ok (leaf_node p' es nx, path_of fs' (TLeaf p' es nx)), bt, s')"
      using c s1(1) r(1) TNode by (subst find_leaf.simps) (simp)
    then show ?thesis using r(2) same_store_trans [OF s1(2) r(3)] by blast
  qed
qed

text \<open>\<open>search\<close> goes the way of \<open>find_leaf\<close>.\<close>

lemma search_down_find_leaf:
  "find_leaf fuel node key path st = (Ok (leaf, path'), st') \<Longrightarrow> search_down fuel node key st = (Ok leaf, st')"
proof (induction fuel arbitrary: node path st)
  case 0
  then show ?case by (cases "bn_node_type node") (simp_all add: down_leaf down_zero)
next
  case (Suc fuel)
  show ?case
  proof (cases "bn_node_type node")
    case InternalNode
    then obtain c n st1 where "find_child node key = Ok c" "read_node c st = (Ok n, st1)"
      "find_leaf fuel n key (path @ [c]) st1 = (Ok (leaf, path'), st')"
      using Suc.prems by (auto simp: down_Suc and_then_Ok_iff)
    then show ?thesis using Suc.IH InternalNode by (simp add: down_Suc)
  next
    case LeafNode
    then show ?thesis using Suc.prems by (simp add: down_leaf)
  qed
qed

lemma root_page_idle: "idle bt \<Longrightarrow> get_root_page bt = bt_root_page bt"
  by (simp add: idle_def get_root_page_def)

lemma find_leaf_rep:
  assumes "tree_rep n (bt, s) t" "n \<le> fuel"
  shows "\<exists>s0 fs p es nx s'. read_node (bt_root_page bt) (bt, s) = (Ok (node_of t), bt, s0) \<and>
    find_leaf fuel (node_of t) key [bt_root_page bt] (bt, s0) = (Ok (leaf_node p es nx, path_of fs (TLeaf p es nx)), bt, s') \<and>
    at_leaf t key n fs (TLeaf p es nx) \<and> same_store s s'"
proof -
  have a: "idle bt" "store_ok s" "tree_page t = bt_root_page bt" "stored (page_content s) t" "tree_wf t" "ordered None None t" "height_le n t"
    using assms(1) by (simp_all add: tree_rep_def)
  obtain s0 where s0: "read_node (tree_page t) (bt, s) = (Ok (node_of t), bt, s0)" "same_store s s0"
    using read_tree_step [OF a(1,2,5,4)] by blast
  have l: "at_leaf t key n [] t" using at_leaf_root [OF a(5,6,7)] .
  have s0': "store_ok s0" "stored (page_content s0) t" using s0(2) a(4) by (simp_all add: same_store_def)
  obtain fs p es nx s' where "find_leaf fuel (node_of t) key (path_of [] t) (bt, s0) = (Ok (leaf_node p es nx, path_of fs (TLeaf p es nx)), bt, s')"
    "at_leaf t key n fs (TLeaf p es nx)" "same_store s0 s'"
    using find_leaf_spec [OF a(1) s0'(1) l s0'(2) height_mono [OF a(7) assms(2)]] by blast
  then show ?thesis using s0 a(3) same_store_trans [OF s0(2)] by (auto simp: path_of_def)
qed

lemma same_store_rep: "tree_rep n (bt, s) t \<Longrightarrow> same_store s s' \<Longrightarrow> tree_rep n (bt, s') t"
  by (simp add: tree_rep_def same_store_def)

lemma search_rep:
  assumes "tree_rep n (bt, s) t" "n \<le> fuel"
  shows "\<exists>s'. btree_search fuel key (bt, s) = (case tree_map t key of Some v \<Rightarrow> Ok v | None \<Rightarrow> Err NotFound, bt, s') \<and> same_store s s'"
proof -
  obtain s0 fs p es nx s' where f: "read_node (bt_root_page bt) (bt, s) = (Ok (node_of t), bt, s0)"
    "find_leaf fuel (node_of t) key [bt_root_page bt] (bt, s0) = (Ok (leaf_node p es nx, path_of fs (TLeaf p es nx)), bt, s')"
    "at_leaf t key n fs (TLeaf p es nx)" "same_store s s'"
    using find_leaf_rep [OF assms] by blast
  have sd: "search_down fuel (node_of t) key (bt, s0) = (Ok (leaf_node p es nx), bt, s')"
    by (rule search_down_find_leaf [OF f(2)])
  have "tree_map t key = find_entry key es" using at_leaf_lookup [OF f(3)] by (simp add: tree_map_def find_entry_lookup)
  moreover have "idle bt" using assms(1) by (simp add: tree_rep_def)
  ultimately show ?thesis using f(1,4) sd by (simp add: btree_search_def root_page_idle)
qed

subsection \<open>Inserting into a leaf\<close>

lemma replace_value_eq:
  "replace_value x es = (if lookup_entry (en_key x) es = None then None else Some (insert_entry x es))" if "entries_sorted es"
  using that
proof (induction es)
  case (Cons e es)
  have n: "lookup_entry (en_key x) es = None" if "en_key x < en_key e" using Cons.prems that by (fastforce simp: lookup_None_iff)
  show ?case
  proof (cases "en_key e = en_key x")
    case True
    then show ?thesis by (cases x; cases e) simp
  next
    case False
    then show ?thesis using Cons n by auto
  qed
qed simp

lemma insert_entry_new:
  "lookup_entry (en_key x) es = None \<Longrightarrow>
   insert_entry x es = take (key_pos (en_key x) (map en_key es)) es @ x # drop (key_pos (en_key x) (map en_key es)) es"
  if "entries_sorted es"
  using that
proof (induction es)
  case (Cons e es)
  then show ?case by (auto simp: not_le split: if_splits)
qed simp

lemma key_pos_le: "key_pos k ks \<le> length ks"
  by (simp add: key_pos_def length_takeWhile_le)

lemma insert_into_leaf_eq:
  assumes "entries_sorted es"
  shows "insert_into_leaf (leaf_node p es nx) x = Some (leaf_node p (insert_entry x es) nx)"
proof (cases "lookup_entry (en_key x) es")
  case None
  have "insert_index 0 (en_key x) (map en_key es) (length es) = key_pos (en_key x) (map en_key es)"
    using insert_index_eq [of 0 "en_key x" "map en_key es"] by simp
  then show ?thesis using None replace_value_eq [OF assms, of x] insert_entry_new [OF assms None] key_pos_le [of "en_key x" "map en_key es"]
    by (simp add: insert_into_leaf_def vec_insert_def Let_def leaf_node_def new_leaf_def)
next
  case (Some v)
  then have "en_key x \<in> en_key ` set es" by (metis lookup_None_iff option.distinct(1))
  then have "length (insert_entry x es) = length es" using assms
    by (induction es) (auto dest: order.asym)
  then show ?thesis using Some replace_value_eq [OF assms, of x]
    by (simp add: insert_into_leaf_def leaf_node_def)
qed

subsection \<open>Splitting\<close>

lemma ins_postI:
  assumes "tree_rep n st' t'" "leaves t' = ls" "set (tree_pages t') \<subseteq> P \<union> (in_use (snd st') - in_use s)"
    "in_use s \<subseteq> in_use (snd st')" "\<And>x. x \<in> in_use s \<Longrightarrow> x \<notin> P \<Longrightarrow> page_content (snd st') x = page_content s x"
    "pg_metadata_page (snd st') = pg_metadata_page s"
  shows "ins_post n s P ls st'"
  using assms unfolding ins_post_def by blast

text \<open>A later step may work on the pages allocated since.\<close>

lemma ins_post_before:
  assumes "ins_post n s1 P1 ls st'" "in_use s \<subseteq> in_use s1" "P1 \<subseteq> P \<union> (in_use s1 - in_use s)"
    "\<And>x. x \<in> in_use s \<Longrightarrow> x \<notin> P \<Longrightarrow> page_content s1 x = page_content s x" "pg_metadata_page s1 = pg_metadata_page s"
  shows "ins_post n s P ls st'"
proof -
  obtain t' where t': "tree_rep n st' t'" "leaves t' = ls" "set (tree_pages t') \<subseteq> P1 \<union> (in_use (snd st') - in_use s1)"
    "in_use s1 \<subseteq> in_use (snd st')" "\<forall>x \<in> in_use s1 - P1. page_content (snd st') x = page_content s1 x" "pg_metadata_page (snd st') = pg_metadata_page s1"
    using assms(1) by (auto simp: ins_post_def)
  show ?thesis
  proof (rule ins_postI [OF t'(1,2)])
    show "set (tree_pages t') \<subseteq> P \<union> (in_use (snd st') - in_use s)" using t'(3,4) assms(2,3) by blast
    show "in_use s \<subseteq> in_use (snd st')" using t'(4) assms(2) by blast
    show "page_content (snd st') x = page_content s x" if "x \<in> in_use s" "x \<notin> P" for x
      using that t'(5) assms(2,3,4) by (metis (no_types, lifting) Diff_iff UnE subsetD)
    show "pg_metadata_page (snd st') = pg_metadata_page s" using t'(6) assms(5) by simp
  qed
qed

lemma alloc_note_step:
  assumes "idle bt" "store_ok s" "room (Suc n) s"
  shows "\<exists>p s'. in_pager alloc_page (bt, s) = (Ok p, bt, s') \<and> note_new_page p (bt, s') = (bt, s') \<and> store_ok s' \<and> room n s' \<and> p \<notin> in_use s \<and>
    in_use s' = insert p (in_use s) \<and> page_ok p \<and> page_content s' = page_content s \<and> pg_metadata_page s' = pg_metadata_page s"
proof -
  obtain p s' where "alloc_page s = (Ok p, s')" "store_ok s'" "room n s'" "p \<notin> in_use s" "in_use s' = insert p (in_use s)" "page_ok p"
    "page_content s' = page_content s" "pg_metadata_page s' = pg_metadata_page s"
    using alloc_step [OF assms(2,3)] by blast
  then show ?thesis using assms(1) by (simp add: in_pager_def note_new_page_def idle_def)
qed

lemma create_new_root_spec:
  assumes bt: "idle bt" "store_ok s" "room (Suc w) s" and sp: "split_pair (page_content s) None None n l k r"
    and d: "distinct (tree_pages l @ tree_pages r)" "set (tree_pages l @ tree_pages r) \<subseteq> in_use s"
  shows "\<exists>st'. create_new_root (tree_page l) k (tree_page r) (bt, s) = (Ok (), st') \<and> room w (snd st') \<and>
    ins_post (Suc n) s (set (tree_pages l @ tree_pages r)) (leaves l @ leaves r) st'"
proof -
  obtain p s1 where a: "in_pager alloc_page (bt, s) = (Ok p, bt, s1)" "note_new_page p (bt, s1) = (bt, s1)" "store_ok s1" "room w s1" "p \<notin> in_use s"
    "in_use s1 = insert p (in_use s)" "page_ok p" "page_content s1 = page_content s" "pg_metadata_page s1 = pg_metadata_page s"
    using alloc_note_step [OF bt] by blast
  let ?n = "inner_node p [k] [tree_page l, tree_page r]" and ?t = "TNode p [k] [l, r]"
  have sp': "stored (page_content s) l" "stored (page_content s) r" "tree_wf l" "tree_wf r" "ordered None (Some k) l" "ordered (Some k) None r"
    "tree_key k" "height_le n l" "height_le n r" "between None None k"
    using sp by (simp_all add: split_pair_def)
  have f: "fits ?n" using sp'(7) by (intro fits_inner) (simp_all add: const_defs)
  have po: "page_ok (bn_page_num ?n)" using a(7) by simp
  obtain s2 where w: "write_node ?n (bt, s1) = (Ok (), bt, s2)" "store_ok s2" "in_use s2 = in_use s1"
    "page_content s2 = (page_content s1)(p \<mapsto> page_image ?n)" "pg_metadata_page s2 = pg_metadata_page s1" "room w s2"
    using write_node_step [OF bt(1) a(3) f po] a(4) by auto
  let ?bt = "bt\<lparr>bt_root_page := p\<rparr>"
  have n: "(new_internal p)\<lparr>bn_num_keys := 1, bn_keys := [k], bn_children := [tree_page l, tree_page r]\<rparr> = ?n"
    by (simp add: inner_node_def)
  have c: "create_new_root (tree_page l) k (tree_page r) (bt, s) = (Ok (), ?bt, s2)"
    using bt(1) a(1,2) w(1) by (simp add: create_new_root_def Let_def n upd_tree_def idle_def)
  have pn: "p \<notin> set (tree_pages l)" "p \<notin> set (tree_pages r)" using a(5) d(2) by auto
  have "stored (page_content s2) ?t" using sp'(1,2) w(4) a(8) pn by (simp add: stored_upd_other)
  moreover have "tree_wf ?t" "ordered None None ?t" "height_le (Suc n) ?t" using sp' by (simp_all add: const_defs)
  moreover have "distinct (tree_pages ?t)" "set (tree_pages ?t) \<subseteq> in_use s2" using d pn w(3) a(6) by auto
  ultimately have "tree_rep (Suc n) (?bt, s2) ?t" using bt(1) w(2) by (simp add: tree_rep_def idle_def)
  then have "ins_post (Suc n) s (set (tree_pages l @ tree_pages r)) (leaves l @ leaves r) (?bt, s2)"
  proof (rule ins_postI)
    show "leaves ?t = leaves l @ leaves r" by simp
    show "set (tree_pages ?t) \<subseteq> set (tree_pages l @ tree_pages r) \<union> (in_use (snd (?bt, s2)) - in_use s)" using a(5,6) w(3) by simp
    show "in_use s \<subseteq> in_use (snd (?bt, s2))" using a(6) w(3) by auto
    show "page_content (snd (?bt, s2)) x = page_content s x" if "x \<in> in_use s" for x using that a(5,8) w(4) by auto
    show "pg_metadata_page (snd (?bt, s2)) = pg_metadata_page s" using a(9) w(5) by simp
  qed
  then show ?thesis using c w(6) by auto
qed

text \<open>The position at which a new key and child go into the parent.\<close>

lemma vec_insert_at: "length xs = i \<Longrightarrow> vec_insert i x (xs @ ys) = Some (xs @ x # ys)"
  by (simp add: vec_insert_def)

lemma parent_position:
  assumes "ctx_ordered (f # fs) lo hi" "between lo hi k"
  shows "insert_index 0 k (fr_lkeys f @ fr_rkeys f) (length (fr_lkeys f @ fr_rkeys f)) = length (fr_lkeys f)"
proof -
  obtain a b where ab: "left_ok a b (fr_lkeys f) (fr_lkids f) lo" "right_ok lo hi (fr_rkeys f) (fr_rkids f) b"
    using assms(1) by (cases rule: ctx_ordered.cases) auto
  have r: "in_range lo hi k" using between_in_range [OF assms(2)] .
  have "key_pos k (fr_lkeys f @ fr_rkeys f) = length (fr_lkeys f)"
    using left_ok_keys [OF ab(1) r] right_ok_keys [OF ab(2) r] by (intro key_pos_between)
  then show ?thesis using insert_index_eq [of 0 k "fr_lkeys f @ fr_rkeys f"] by simp
qed

lemma halves_leaves: "leaves (lower_half p ks ts) @ leaves (upper_half q ks ts) = concat (map leaves ts)"
  unfolding lower_half_def upper_half_def leaves.simps
  by (metis append_take_drop_id concat_append map_append)

lemma halves_pages: "mset (tree_pages (lower_half p ks ts)) + mset (tree_pages (upper_half q ks ts)) = {#p, q#} + mset (concat (map tree_pages ts))"
proof -
  have "mset (concat (map tree_pages ts)) = mset (concat (map tree_pages (take (Suc (length ks div 2)) ts))) + mset (concat (map tree_pages (drop (Suc (length ks div 2)) ts)))"
    by (metis append_take_drop_id concat_append map_append mset_append)
  then show ?thesis by (simp add: lower_half_def upper_half_def)
qed

lemma halves_ok:
  assumes "ordered_list lo hi ks ts" "list_all tree_key ks" "list_all tree_wf ts" "list_all (height_le m) ts"
    "length ks \<le> Suc BTREE_ORDER" "ks \<noteq> []"
  shows "tree_wf (lower_half p ks ts) \<and> tree_wf (upper_half q ks ts) \<and> height_le (Suc m) (lower_half p ks ts) \<and> height_le (Suc m) (upper_half q ks ts) \<and>
    ordered lo (Some (ks ! (length ks div 2))) (lower_half p ks ts) \<and> ordered (Some (ks ! (length ks div 2))) hi (upper_half q ks ts) \<and>
    between lo hi (ks ! (length ks div 2)) \<and> tree_key (ks ! (length ks div 2))"
proof -
  let ?m = "length ks div 2"
  have m: "?m < length ks" using assms(6) by simp
  have l: "length ts = Suc (length ks)" using ordered_list_length [OF assms(1)] .
  have lt: "list_all tree_wf (take (Suc ?m) ts)" "list_all tree_wf (drop (Suc ?m) ts)" "list_all tree_key (take ?m ks)" "list_all tree_key (drop (Suc ?m) ks)"
    "list_all (height_le m) (take (Suc ?m) ts)" "list_all (height_le m) (drop (Suc ?m) ts)"
    using assms(2,3,4) set_take_subset set_drop_subset by (fastforce simp: list_all_iff)+
  show ?thesis using ordered_list_cut [OF assms(1) m] lt l m assms(2,5)
    by (auto simp: lower_half_def upper_half_def list_all_iff const_defs)
qed

text \<open>The grown parent in its place.\<close>

lemma grown_ok:
  assumes c: "ctx_ordered (f # fs) lo hi" "frame_wf f" and sp: "split_pair C lo hi m l k r" and h: "ctx_height n (f # fs) m"
  shows "\<exists>a b. ctx_ordered fs a b \<and> ordered_list a b (fr_lkeys f @ k # fr_rkeys f) (fr_lkids f @ l # r # fr_rkids f) \<and>
    list_all tree_key (fr_lkeys f @ k # fr_rkeys f) \<and> list_all tree_wf (fr_lkids f @ l # r # fr_rkids f) \<and>
    list_all (height_le m) (fr_lkids f @ l # r # fr_rkids f) \<and> ctx_height n fs (Suc m)"
proof -
  obtain a b where ab: "ctx_ordered fs a b" "left_ok a b (fr_lkeys f) (fr_lkids f) lo" "right_ok lo hi (fr_rkeys f) (fr_rkids f) b"
    using c(1) by (cases rule: ctx_ordered.cases) auto
  have "ordered_list a b (fr_lkeys f @ k # fr_rkeys f) (fr_lkids f @ l # r # fr_rkids f)"
    using sp c(2) by (intro ordered_add_child [OF ab(2,3)]) (simp_all add: split_pair_def frame_wf_def)
  then show ?thesis using ab(1) sp c(2) h by (intro exI [of _ a] exI [of _ b]) (simp add: split_pair_def frame_wf_def)
qed

text \<open>Writing the inner node of a tree over its page, when its children are stored and do not contain that page.\<close>

lemma stored_after_write:
  assumes "list_all (stored C) ts" "p \<notin> set (concat (map tree_pages ts))"
  shows "stored (C(p \<mapsto> page_image (inner_node p ks (map tree_page ts)))) (TNode p ks ts)"
  using assms stored_upd_other by (auto simp: list_all_iff)

lemma distinct_frame:
  assumes "distinct (ctx_pages (f # fs) @ tree_pages l @ tree_pages r)"
  shows "distinct (fr_page f # concat (map tree_pages (fr_lkids f @ l # r # fr_rkids f)) @ ctx_pages fs)"
proof -
  have "mset (fr_page f # concat (map tree_pages (fr_lkids f @ l # r # fr_rkids f)) @ ctx_pages fs) = mset (ctx_pages (f # fs) @ tree_pages l @ tree_pages r)"
    by (simp add: ac_simps)
  then show ?thesis using assms by (metis mset_eq_imp_distinct_iff)
qed

lemma set_frame:
  "set (ctx_pages (f # fs) @ tree_pages l @ tree_pages r) =
   insert (fr_page f) (set (concat (map tree_pages (fr_lkids f @ l # r # fr_rkids f))) \<union> set (ctx_pages fs))"
  by auto

lemma kids_stored:
  assumes "ctx_stored C (f # fs) q" "split_pair C lo hi m l k r"
  shows "list_all (stored C) (fr_lkids f @ l # r # fr_rkids f)"
  using assms by (simp add: split_pair_def)

text \<open>The parent has room for one more key.\<close>

lemma parent_not_full:
  assumes bt: "idle bt" "store_ok s" "room z s" and c: "ctx_ordered (f # fs) lo hi" "list_all frame_wf (f # fs)" "ctx_height n (f # fs) m"
    and sp: "split_pair (page_content s) lo hi m l k r" and st: "ctx_stored (page_content s) (f # fs) (tree_page l)"
    and d: "distinct (ctx_pages (f # fs) @ tree_pages l @ tree_pages r)" "set (ctx_pages (f # fs) @ tree_pages l @ tree_pages r) \<subseteq> in_use s"
    and root: "fr_page (last (f # fs)) = bt_root_page bt" and small: "length (fr_lkeys f @ k # fr_rkeys f) \<le> BTREE_ORDER"
  shows "\<exists>s'. write_node (node_of (grown f l k r)) (bt, s) = (Ok (), bt, s') \<and> room z s' \<and>
    ins_post n s (set (ctx_pages (f # fs) @ tree_pages l @ tree_pages r)) (lleaves (f # fs) @ leaves l @ leaves r @ rleaves (f # fs)) (bt, s')"
proof -
  let ?K = "fr_lkeys f @ k # fr_rkeys f" and ?T = "fr_lkids f @ l # r # fr_rkids f" and ?p = "fr_page f" and ?g = "grown f l k r"
  obtain a b where ab: "ctx_ordered fs a b" "ordered_list a b ?K ?T" "list_all tree_key ?K" "list_all tree_wf ?T" "list_all (height_le m) ?T" "ctx_height n fs (Suc m)"
    using grown_ok [OF c(1) _ sp c(3)] c(2) by auto
  have wf: "tree_wf ?g" using ab(2,3,4) small ordered_list_length [OF ab(2)] by (simp add: grown_def)
  note dd = distinct_frame [OF d(1)]
  have use: "?p \<in> in_use s" "set (concat (map tree_pages ?T)) \<subseteq> in_use s" "set (ctx_pages fs) \<subseteq> in_use s"
    using d(2) unfolding set_frame by blast+
  have po: "page_ok (bn_page_num (node_of ?g))" using page_ok_in_use [OF use(1) bt(3)] by (simp add: grown_def)
  have pg: "tree_page ?g = ?p" by (simp add: grown_def)
  obtain s' where w: "write_node (node_of ?g) (bt, s) = (Ok (), bt, s')" "store_ok s'" "in_use s' = in_use s"
    "page_content s' = (page_content s)(?p \<mapsto> page_image (node_of ?g))" "pg_metadata_page s' = pg_metadata_page s" "room z s'"
    using write_node_step [OF bt(1,2) fits_node_of [OF wf] po] pg bt(3) by auto
  have np: "?p \<notin> set (concat (map tree_pages ?T))" "?p \<notin> set (ctx_pages fs)" using dd by auto
  have g: "stored (page_content s') ?g"
    using stored_after_write [OF kids_stored [OF st sp] np(1), of ?K] w(4) by (simp add: grown_def)
  have cs: "ctx_stored (page_content s') fs ?p" using st w(4) ctx_stored_upd_other [OF np(2)] by simp
  let ?t = "fill fs ?g"
  have "stored (page_content s') ?t" using g cs pg by (simp add: stored_fill)
  moreover have "tree_wf ?t" using wf_fill [OF wf] c(2) by simp
  moreover have "ordered None None ?t" using ordered_fill [OF ab(1)] ab(2) c(2) by (simp add: grown_def)
  moreover have "height_le n ?t" using height_fill [OF ab(6)] ab(5) by (simp add: grown_def)
  moreover have "distinct (tree_pages ?t)" unfolding distinct_pages_fill using dd by (auto simp: grown_def)
  moreover
  have tp: "set (tree_pages ?t) \<subseteq> set (ctx_pages (f # fs) @ tree_pages l @ tree_pages r)"
    unfolding set_pages_fill set_frame by (auto simp: grown_def)
  have "set (tree_pages ?t) \<subseteq> in_use s'" using subset_trans [OF tp d(2)] w(3) by simp
  moreover have "tree_page ?t = bt_root_page bt" using root pg by (simp add: tree_page_fill split: if_splits)
  ultimately have "tree_rep n (bt, s') ?t" using bt(1) w(2) by (simp add: tree_rep_def)
  then have "ins_post n s (set (ctx_pages (f # fs) @ tree_pages l @ tree_pages r)) (lleaves (f # fs) @ leaves l @ leaves r @ rleaves (f # fs)) (bt, s')"
  proof (rule ins_postI)
    show "leaves ?t = lleaves (f # fs) @ leaves l @ leaves r @ rleaves (f # fs)" by (simp add: leaves_fill grown_def)
    show "set (tree_pages ?t) \<subseteq> set (ctx_pages (f # fs) @ tree_pages l @ tree_pages r) \<union> (in_use (snd (bt, s')) - in_use s)" using tp by blast
    show "in_use s \<subseteq> in_use (snd (bt, s'))" using w(3) by simp
    show "page_content (snd (bt, s')) x = page_content s x" if "x \<notin> set (ctx_pages (f # fs) @ tree_pages l @ tree_pages r)" for x
      using that w(4) by auto
    show "pg_metadata_page (snd (bt, s')) = pg_metadata_page s" using w(5) by simp
  qed
  then show ?thesis using w(1,6) by blast
qed

text \<open>A full parent is written as two halves.\<close>

lemma write_halves:
  assumes bt: "idle bt" "store_ok s" "room (Suc z) s" and o: "ordered_list a b ks ts" "list_all tree_key ks" "list_all tree_wf ts" "list_all (height_le m) ts"
      "length ks \<le> Suc BTREE_ORDER" "ks \<noteq> []"
    and st: "list_all (stored (page_content s)) ts" and d: "distinct (p # concat (map tree_pages ts))" "set (p # concat (map tree_pages ts)) \<subseteq> in_use s"
  shows "\<exists>q s1 s2 s3. in_pager alloc_page (bt, s) = (Ok q, bt, s1) \<and> note_new_page q (bt, s1) = (bt, s1) \<and>
    write_node (node_of (lower_half p ks ts)) (bt, s1) = (Ok (), bt, s2) \<and> write_node (node_of (upper_half q ks ts)) (bt, s2) = (Ok (), bt, s3) \<and>
    store_ok s3 \<and> room z s3 \<and> q \<notin> in_use s \<and> in_use s3 = insert q (in_use s) \<and> pg_metadata_page s3 = pg_metadata_page s \<and>
    (\<forall>x. x \<noteq> p \<and> x \<noteq> q \<longrightarrow> page_content s3 x = page_content s x) \<and>
    split_pair (page_content s3) a b (Suc m) (lower_half p ks ts) (ks ! (length ks div 2)) (upper_half q ks ts)"
proof -
  obtain q s1 where al: "in_pager alloc_page (bt, s) = (Ok q, bt, s1)" "note_new_page q (bt, s1) = (bt, s1)" "store_ok s1" "room z s1" "q \<notin> in_use s"
    "in_use s1 = insert q (in_use s)" "page_ok q" "page_content s1 = page_content s" "pg_metadata_page s1 = pg_metadata_page s"
    using alloc_note_step [OF bt] by blast
  let ?l = "lower_half p ks ts" and ?u = "upper_half q ks ts"
  let ?m = "length ks div 2"
  have h: "tree_wf ?l" "tree_wf ?u" "height_le (Suc m) ?l" "height_le (Suc m) ?u" "ordered a (Some (ks ! ?m)) ?l" "ordered (Some (ks ! ?m)) b ?u"
    "between a b (ks ! ?m)" "tree_key (ks ! ?m)"
    using halves_ok [OF o] by blast+
  have pq: "tree_page ?l = p" "tree_page ?u = q" by (simp_all add: lower_half_def upper_half_def)
  have pok: "page_ok p" using page_ok_in_use [of p s "Suc z"] d(2) bt(3) by simp
  obtain s2 where s2: "write_node (node_of ?l) (bt, s1) = (Ok (), bt, s2)" "store_ok s2" "in_use s2 = in_use s1" "room z s2"
    "page_content s2 = (page_content s1)(p \<mapsto> page_image (node_of ?l))" "pg_metadata_page s2 = pg_metadata_page s1"
    using write_node_step [OF bt(1) al(3) fits_node_of [OF h(1)]] pok pq(1) al(4) by auto
  obtain s3 where s3: "write_node (node_of ?u) (bt, s2) = (Ok (), bt, s3)" "store_ok s3" "in_use s3 = in_use s2" "room z s3"
    "page_content s3 = (page_content s2)(q \<mapsto> page_image (node_of ?u))" "pg_metadata_page s3 = pg_metadata_page s2"
    using write_node_step [OF bt(1) s2(2) fits_node_of [OF h(2)]] al(7) pq(2) s2(4) by auto
  have qn: "q \<noteq> p" "q \<notin> set (concat (map tree_pages ts))" using al(5) d(2) by auto
  have kid: "stored (page_content s3) t" if "t \<in> set ts" for t
  proof -
    have "p \<notin> set (tree_pages t)" "q \<notin> set (tree_pages t)" using that d(1) qn by auto
    then show ?thesis using that st s3(5) s2(5) al(8) by (simp add: stored_upd_other list_all_iff)
  qed
  then have "list_all (stored (page_content s3)) (take i ts)" "list_all (stored (page_content s3)) (drop i ts)" for i
    by (auto simp: list_all_iff dest: in_set_takeD in_set_dropD)
  then have "stored (page_content s3) ?l" "stored (page_content s3) ?u"
    using s3(5) s2(5) qn(1) by (simp_all add: lower_half_def upper_half_def)
  then have "split_pair (page_content s3) a b (Suc m) ?l (ks ! ?m) ?u" using h by (simp add: split_pair_def)
  moreover have "\<forall>x. x \<noteq> p \<and> x \<noteq> q \<longrightarrow> page_content s3 x = page_content s x" using s3(5) s2(5) al(8) by simp
  moreover have "in_use s3 = insert q (in_use s)" "pg_metadata_page s3 = pg_metadata_page s" using s2 s3 al by simp_all
  ultimately show ?thesis using al(1,2,5) s2(1) s3(1,2,4) by blast
qed

end
