(* ===== verification/Btree_Insert.thy ===== *)
theory Btree_Insert
  imports Btree
begin

text \<open>
  The insertion of \<open>src/core/btree.rs\<close>: a leaf or an inner node that overflows is split, the halves are written, and the new
  child goes up the path until a parent has room for it or a new root is made. The lemmas take the steps of
  \<open>split_leaf\<close>, \<open>split_internal\<close>, \<open>insert_into_parent\<close> and \<open>create_new_root\<close> on a stored tree and show which tree is stored afterwards.
\<close>


subsection \<open>Specification\<close>

text \<open>
  What \<open>split_leaf\<close> and \<open>split_internal\<close> do after they have written the two halves: a new root above them, or the new key and child
  go into the parent.
\<close>

definition go_up :: "page_num \<Rightarrow> string \<Rightarrow> page_num \<Rightarrow> page_num list \<Rightarrow> bt_state \<Rightarrow> unit res \<times> bt_state" where
  "go_up p key q path st =
     (if length path = 1 then create_new_root p key q st
      else if length path < 2 then (Panic, st)
      else and_then (read_node (path ! (length path - 2)) st) (\<lambda>parent st.
        let old_page = path ! (length path - 1);
            parent = (if old_page \<noteq> p then parent\<lparr>bn_children := replace_child old_page p (bn_children parent)\<rparr> else parent)
        in insert_into_parent parent key q (butlast path) st))"

text \<open>The state in which two halves wait to be put into the context \<open>fs\<close>, on pages of their own.\<close>

definition pending :: "btree \<Rightarrow> pager \<Rightarrow> nat \<Rightarrow> nat \<Rightarrow> frame list \<Rightarrow> nat \<Rightarrow> tree \<Rightarrow> string \<Rightarrow> tree \<Rightarrow> bool" where
  "pending bt s z n fs m l k r \<longleftrightarrow> idle bt \<and> store_ok s \<and> room z s \<and> list_all frame_wf fs \<and> ctx_height n fs m \<and>
     (\<exists>lo hi. ctx_ordered fs lo hi \<and> split_pair (page_content s) lo hi m l k r) \<and> ctx_stored (page_content s) fs (tree_page l) \<and>
     distinct (ctx_pages fs @ tree_pages l @ tree_pages r) \<and> set (ctx_pages fs @ tree_pages l @ tree_pages r) \<subseteq> in_use s \<and>
     (fs \<noteq> [] \<longrightarrow> fr_page (last fs) = bt_root_page bt)"

definition pending_pages :: "frame list \<Rightarrow> tree \<Rightarrow> tree \<Rightarrow> page_num set" where
  "pending_pages fs l r = set (ctx_pages fs @ tree_pages l @ tree_pages r)"

definition pending_leaves :: "frame list \<Rightarrow> tree \<Rightarrow> tree \<Rightarrow> leaf list" where
  "pending_leaves fs l r = lleaves fs @ leaves l @ leaves r @ rleaves fs"

text \<open>From \<open>s\<close> to \<open>s'\<close> only the pages \<open>P\<close> and fresh ones were written; the pages of interest are now \<open>P'\<close>.\<close>

definition within :: "pager \<Rightarrow> page_num set \<Rightarrow> pager \<Rightarrow> page_num set \<Rightarrow> bool" where
  "within s P s' P' \<longleftrightarrow> in_use s \<subseteq> in_use s' \<and> P' \<subseteq> P \<union> (in_use s' - in_use s) \<and>
     (\<forall>x. x \<in> in_use s \<longrightarrow> x \<notin> P \<longrightarrow> page_content s' x = page_content s x) \<and> pg_metadata_page s' = pg_metadata_page s"

text \<open>The leaves form a chain that ends at \<open>e\<close>.\<close>

definition head_page :: "leaf list \<Rightarrow> page_num \<Rightarrow> page_num" where
  "head_page ls e = (case ls of [] \<Rightarrow> e | l # _ \<Rightarrow> fst l)"

fun linked :: "leaf list \<Rightarrow> page_num \<Rightarrow> bool" where
  "linked [] e \<longleftrightarrow> True"
| "linked (l # ls) e \<longleftrightarrow> snd (snd l) = head_page ls e \<and> linked ls e"

text \<open>What an insertion does to the leaves: one leaf takes the entry, or is split in two.\<close>

definition tight :: "leaf list \<Rightarrow> bool" where
  "tight ls \<longleftrightarrow> length ls = 1 \<or> list_all (\<lambda>(p, es, nx). es \<noteq> []) ls"

definition inserted :: "leaf_entry \<Rightarrow> leaf list \<Rightarrow> leaf list \<Rightarrow> bool" where
  "inserted x ls ls' \<longleftrightarrow> leaf_entries ls' = insert_entry x (leaf_entries ls) \<and> (\<forall>e. linked ls e \<longrightarrow> linked ls' e) \<and> (tight ls \<longrightarrow> tight ls')"


subsection \<open>Lemmas\<close>

lemma ins_post_within: "within s P s' P' \<Longrightarrow> ins_post n s' P' ls st' \<Longrightarrow> ins_post n s P ls st'"
  unfolding within_def by (rule ins_post_before [of n s' P']) simp_all

lemma within_same: "within s P s1 P' \<Longrightarrow> same_store s1 s2 \<Longrightarrow> within s P s2 P'"
  by (simp add: within_def same_store_def)

lemma pending_same: "pending bt s z n fs m l k r \<Longrightarrow> same_store s s' \<Longrightarrow> pending bt s' z n fs m l k r"
  by (simp add: pending_def same_store_def)

inductive_cases ctx_ordered_NilE: "ctx_ordered [] lo hi"

text \<open>\<open>insert_into_parent\<close> on the node of a frame: its arguments computed.\<close>

lemma insert_into_parent_eq:
  assumes "ctx_ordered (f # fs) lo hi" "frame_wf f" "between lo hi k"
  shows "insert_into_parent (inner_node (fr_page f) (fr_lkeys f @ fr_rkeys f) (map tree_page (fr_lkids f) @ tree_page l # map tree_page (fr_rkids f)))
      k (tree_page r) path st =
    (if length (fr_lkeys f @ k # fr_rkeys f) > BTREE_ORDER then split_internal (node_of (grown f l k r)) path st
     else write_node (node_of (grown f l k r)) st)"
proof -
  have pos: "insert_index 0 k (fr_lkeys f @ fr_rkeys f) (length (fr_lkeys f @ fr_rkeys f)) = length (fr_lkeys f)"
    by (rule parent_position [OF assms(1,3)])
  have len: "length (fr_lkids f) = length (fr_lkeys f)" using assms(2) by (simp add: frame_wf_def)
  have k: "vec_insert (length (fr_lkeys f)) k (fr_lkeys f @ fr_rkeys f) = Some (fr_lkeys f @ k # fr_rkeys f)"
    by (rule vec_insert_at) simp
  have c: "vec_insert (length (fr_lkeys f) + 1) (tree_page r) (map tree_page (fr_lkids f) @ tree_page l # map tree_page (fr_rkids f)) =
      Some (map tree_page (fr_lkids f) @ tree_page l # tree_page r # map tree_page (fr_rkids f))"
    using vec_insert_at [of "map tree_page (fr_lkids f) @ [tree_page l]" "length (fr_lkeys f) + 1" "tree_page r" "map tree_page (fr_rkids f)"] len by simp
  show ?thesis unfolding insert_into_parent.simps inner_node_simps pos k c Let_def no_panic_simps and_then_simps inner_node_upd
    by (simp add: grown_def)
qed

text \<open>\<open>split_internal\<close> on a node that is too large: the steps it takes.\<close>

lemma split_internal_eq:
  assumes "ks \<noteq> []" "length ts = Suc (length ks)"
    and "in_pager alloc_page (bt, s) = (Ok q, bt, s1)" "note_new_page q (bt, s1) = (bt, s1)"
    and "write_node (node_of (lower_half p ks ts)) (bt, s1) = (Ok (), bt, s2)"
    and "write_node (node_of (upper_half q ks ts)) (bt, s2) = (Ok (), bt, s3)"
  shows "split_internal (inner_node p ks (map tree_page ts)) path (bt, s) = go_up p (ks ! (length ks div 2)) q path (bt, s3)"
proof -
  let ?m = "length ks div 2"
  have m: "?m < length ks" using assms(1) by simp
  have bl: "butlast (take (?m + 1) ks) = take ?m ks" using m by (simp add: butlast_take)
  have l: "(inner_node p ks (map tree_page ts))\<lparr>bn_keys := take ?m ks, bn_children := take (?m + 1) (map tree_page ts), bn_num_keys := word_of_nat (length (take ?m ks))\<rparr> =
      node_of (lower_half p ks ts)"
    by (simp add: lower_half_def inner_node_def new_internal_def take_map)
  have u: "(new_internal q)\<lparr>bn_keys := drop (?m + 1) ks, bn_children := drop (?m + 1) (map tree_page ts), bn_num_keys := word_of_nat (length (drop (?m + 1) ks))\<rparr> =
      node_of (upper_half q ks ts)"
    by (simp add: upper_half_def inner_node_def new_internal_def drop_map)
  have c: "?m + 1 \<le> length (map tree_page ts)" using m assms(2) by simp
  have pl: "bn_page_num (node_of (lower_half p ks ts)) = p" by (simp add: lower_half_def)
  show ?thesis
    unfolding split_internal.simps inner_node_simps Let_def assms(3) and_then_simps assms(4) if_P [OF m] if_P [OF c] no_panic_simps bl l u assms(5,6) pl go_up_def
    by (rule refl)
qed

lemma go_up_root:
  assumes "pending bt s (Suc z) n [] m l k r" "length path = 1"
  shows "\<exists>st'. go_up (tree_page l) k (tree_page r) path (bt, s) = (Ok (), st') \<and> room z (snd st') \<and> ins_post (Suc n) s (pending_pages [] l r) (pending_leaves [] l r) st'"
proof -
  have a: "idle bt" "store_ok s" "room (Suc z) s" "n = m" "distinct (tree_pages l @ tree_pages r)" "set (tree_pages l @ tree_pages r) \<subseteq> in_use s"
    using assms(1) by (simp_all add: pending_def)
  have sp: "split_pair (page_content s) None None m l k r"
    using assms(1) unfolding pending_def by (auto elim: ctx_ordered_NilE)
  show ?thesis using create_new_root_spec [OF a(1,2,3) sp a(5,6)] assms(2) a(4)
    by (simp add: go_up_def pending_pages_def pending_leaves_def)
qed

text \<open>A parent that overflows: what holds when its two halves have been written.\<close>

lemma split_parent:
  assumes p: "pending bt s (Suc z) n (f # fs) m l k r" and K: "K = fr_lkeys f @ k # fr_rkeys f" "length K > BTREE_ORDER"
  shows "\<exists>s3 L R k'. split_internal (node_of (grown f l k r)) path (bt, s) = go_up (tree_page L) k' (tree_page R) path (bt, s3) \<and>
    tree_page L = fr_page f \<and> pending bt s3 z n fs (Suc m) L k' R \<and> pending_leaves fs L R = pending_leaves (f # fs) l r \<and>
    within s (pending_pages (f # fs) l r) s3 (pending_pages fs L R)"
proof -
  let ?T = "fr_lkids f @ l # r # fr_rkids f" and ?p = "fr_page f" and ?P = "pending_pages (f # fs) l r" and ?k = "K ! (length K div 2)"
  have bt: "idle bt" "store_ok s" "room (Suc z) s" and wf: "frame_wf f" "list_all frame_wf fs" and c3: "ctx_height n (f # fs) m"
    and st: "ctx_stored (page_content s) (f # fs) (tree_page l)"
    and d: "distinct (ctx_pages (f # fs) @ tree_pages l @ tree_pages r)" "?P \<subseteq> in_use s" and root: "fs \<noteq> [] \<Longrightarrow> fr_page (last fs) = bt_root_page bt"
    using p by (simp_all add: pending_def pending_pages_def)
  obtain lo hi where c1: "ctx_ordered (f # fs) lo hi" and sp: "split_pair (page_content s) lo hi m l k r" using p by (auto simp: pending_def)
  obtain a b where ab: "ctx_ordered fs a b" "ordered_list a b K ?T" "list_all tree_key K" "list_all tree_wf ?T" "list_all (height_le m) ?T" "ctx_height n fs (Suc m)"
    using grown_ok [OF c1 wf(1) sp c3] unfolding K(1) by blast
  have K2: "length K \<le> Suc BTREE_ORDER" "K \<noteq> []" using wf(1) K by (auto simp: frame_wf_def)
  note dd = distinct_frame [OF d(1)]
  have P: "?P = insert ?p (set (concat (map tree_pages ?T)) \<union> set (ctx_pages fs))" unfolding pending_pages_def by (rule set_frame)
  have use: "set (?p # concat (map tree_pages ?T)) \<subseteq> in_use s" "set (ctx_pages fs) \<subseteq> in_use s" using d(2) unfolding P by auto
  have dp: "distinct (?p # concat (map tree_pages ?T))" using dd by auto
  obtain q s1 s2 s3 where h: "in_pager alloc_page (bt, s) = (Ok q, bt, s1)" "note_new_page q (bt, s1) = (bt, s1)"
    "write_node (node_of (lower_half ?p K ?T)) (bt, s1) = (Ok (), bt, s2)" "write_node (node_of (upper_half q K ?T)) (bt, s2) = (Ok (), bt, s3)"
    "store_ok s3" "room z s3" "q \<notin> in_use s" "in_use s3 = insert q (in_use s)" "pg_metadata_page s3 = pg_metadata_page s"
    "\<forall>x. x \<noteq> ?p \<and> x \<noteq> q \<longrightarrow> page_content s3 x = page_content s x"
    "split_pair (page_content s3) a b (Suc m) (lower_half ?p K ?T) ?k (upper_half q K ?T)"
    using write_halves [OF bt ab(2,3,4,5) K2 kids_stored [OF st sp] dp use(1)] by blast
  let ?L = "lower_half ?p K ?T" and ?R = "upper_half q K ?T"
  have pages: "tree_page ?L = ?p" "tree_page ?R = q" by (simp_all add: lower_half_def upper_half_def)
  have ms: "mset (ctx_pages fs @ tree_pages ?L @ tree_pages ?R) = mset (q # ?p # concat (map tree_pages ?T) @ ctx_pages fs)"
    using halves_pages [of ?p K ?T q] by simp
  have qn: "q \<noteq> ?p" "q \<notin> set (concat (map tree_pages ?T))" "q \<notin> set (ctx_pages fs)" using h(7) use by auto
  have dist: "distinct (ctx_pages fs @ tree_pages ?L @ tree_pages ?R)"
    using mset_eq_imp_distinct_iff [OF ms] dd qn by auto
  have sets: "pending_pages fs ?L ?R = insert q ?P"
    using mset_eq_setD [OF ms] unfolding P pending_pages_def by auto
  have same: "page_content s3 x = page_content s x" if "x \<in> set (ctx_pages fs)" for x
  proof -
    have "x \<noteq> ?p" "x \<noteq> q" using that dd qn(3) by auto
    then show ?thesis using h(10) by simp
  qed
  have cs: "ctx_stored (page_content s3) fs (tree_page ?L)"
    using st pages(1) ctx_stored_cong [OF same] by simp
  have lv: "pending_leaves fs ?L ?R = pending_leaves (f # fs) l r"
    using halves_leaves [of ?p K ?T q] by (simp add: pending_leaves_def)
  have e: "split_internal (node_of (grown f l k r)) path (bt, s) = go_up (tree_page ?L) ?k (tree_page ?R) path (bt, s3)"
    using split_internal_eq [OF K2(2) ordered_list_length [OF ab(2)] h(1,2,3,4), of path] pages K(1) by (simp only: grown_def node_of.simps)
  have "set (ctx_pages fs @ tree_pages ?L @ tree_pages ?R) \<subseteq> in_use s3" using d(2) unfolding h(8) sets [unfolded pending_pages_def [of fs]] by auto
  then have pe: "pending bt s3 z n fs (Suc m) ?L ?k ?R"
    unfolding pending_def using bt(1) h(5,6) wf(2) ab(6) cs dist root ab(1) h(11) by blast
  have w1: "\<forall>x. x \<in> in_use s \<longrightarrow> x \<notin> ?P \<longrightarrow> page_content s3 x = page_content s x" using h(7,10) unfolding P by auto
  have wi: "within s ?P s3 (pending_pages fs ?L ?R)"
    unfolding within_def sets h(8) using w1 h(7,9) by auto
  show ?thesis by (intro exI conjI) (rule e, rule pages(1), rule pe, rule lv, rule wi)
qed

lemma ins_post_Suc: "ins_post n s P ls st' \<Longrightarrow> ins_post (Suc n) s P ls st'"
  unfolding ins_post_def tree_rep_def using height_mono [of n _ "Suc n"] by auto

lemma path_last: "(rev (map fr_page fs) @ [p]) ! (length (rev (map fr_page fs) @ [p]) - 1) = p"
  by (simp add: nth_append)

lemma path_parent: "(rev (map fr_page (f # fs)) @ [p]) ! (length (rev (map fr_page (f # fs)) @ [p]) - 2) = fr_page f"
  by (simp add: nth_append)

lemma go_up_parent:
  assumes p: "pending bt s z n (f # fs) m l k r"
  shows "\<exists>s'. go_up (tree_page l) k (tree_page r) (rev (map fr_page (f # fs)) @ [tree_page l]) (bt, s) =
      (if length (fr_lkeys f @ k # fr_rkeys f) > BTREE_ORDER then split_internal (node_of (grown f l k r)) (rev (map fr_page fs) @ [fr_page f]) (bt, s')
       else write_node (node_of (grown f l k r)) (bt, s')) \<and> same_store s s'"
proof -
  let ?path = "rev (map fr_page (f # fs)) @ [tree_page l]"
  let ?g = "inner_node (fr_page f) (fr_lkeys f @ fr_rkeys f) (map tree_page (fr_lkids f) @ tree_page l # map tree_page (fr_rkids f))"
  have a: "idle bt" "store_ok s" "frame_wf f" "ctx_stored (page_content s) (f # fs) (tree_page l)" using p by (simp_all add: pending_def)
  obtain lo hi where c: "ctx_ordered (f # fs) lo hi" and "split_pair (page_content s) lo hi m l k r" using p by (auto simp: pending_def)
  then have b: "between lo hi k" by (simp add: split_pair_def)
  have "fits ?g" using a(3) by (intro fits_inner) (simp_all add: frame_wf_def)
  moreover have "page_content s (bn_page_num ?g) = Some (page_image ?g)" using a(4) by simp
  ultimately have "\<exists>s'. read_node (bn_page_num ?g) (bt, s) = (Ok ?g, bt, s') \<and> same_store s s'" by (rule read_node_step [OF a(1,2)])
  then obtain s' where s': "read_node (fr_page f) (bt, s) = (Ok ?g, bt, s')" "same_store s s'" by (auto simp only: inner_node_simps)
  have p1: "length ?path \<noteq> 1" "\<not> length ?path < 2" "\<not> tree_page l \<noteq> tree_page l" by simp_all
  have bl: "butlast ?path = rev (map fr_page fs) @ [fr_page f]" by (simp add: butlast_append)
  have "go_up (tree_page l) k (tree_page r) ?path (bt, s) =
      insert_into_parent ?g k (tree_page r) (rev (map fr_page fs) @ [fr_page f]) (bt, s')"
    unfolding go_up_def if_not_P [OF p1(1)] if_not_P [OF p1(2)] path_parent path_last s'(1) and_then_simps Let_def bl if_not_P [OF p1(3)] by (rule refl)
  then show ?thesis unfolding insert_into_parent_eq [OF c a(3) b] using s'(2) by blast
qed

text \<open>The way up: each parent takes the new child, or splits and passes one on.\<close>

lemma go_up_spec:
  "pending bt s (length fs + Suc z) n fs m l k r \<Longrightarrow>
   \<exists>st'. go_up (tree_page l) k (tree_page r) (rev (map fr_page fs) @ [tree_page l]) (bt, s) = (Ok (), st') \<and> room z (snd st') \<and>
     ins_post (Suc n) s (pending_pages fs l r) (pending_leaves fs l r) st'"
proof (induction fs arbitrary: s m l k r)
  case Nil
  then have "pending bt s (Suc z) n [] m l k r" by simp
  then show ?case by (rule go_up_root) simp
next
  case (Cons f fs)
  let ?K = "fr_lkeys f @ k # fr_rkeys f" and ?path = "rev (map fr_page (f # fs)) @ [tree_page l]" and ?P = "pending_pages (f # fs) l r"
  obtain s' where s': "go_up (tree_page l) k (tree_page r) ?path (bt, s) =
      (if length ?K > BTREE_ORDER then split_internal (node_of (grown f l k r)) (rev (map fr_page fs) @ [fr_page f]) (bt, s')
       else write_node (node_of (grown f l k r)) (bt, s'))" "same_store s s'"
    using go_up_parent [OF Cons.prems] by blast
  have p: "pending bt s' (Suc (length fs + Suc z)) n (f # fs) m l k r" using pending_same [OF Cons.prems s'(2)] by simp
  have w0: "within s ?P s' ?P" using s'(2) by (simp add: within_def same_store_def)
  show ?case
  proof (cases "length ?K > BTREE_ORDER")
    case False
    then have small: "length ?K \<le> BTREE_ORDER" by (simp only: not_less)
    obtain lo hi where c: "ctx_ordered (f # fs) lo hi" "split_pair (page_content s') lo hi m l k r" using p by (auto simp: pending_def)
    have q: "idle bt" "store_ok s'" "room (Suc (length fs + Suc z)) s'" "list_all frame_wf (f # fs)" "ctx_height n (f # fs) m"
      "ctx_stored (page_content s') (f # fs) (tree_page l)" "distinct (ctx_pages (f # fs) @ tree_pages l @ tree_pages r)"
      "set (ctx_pages (f # fs) @ tree_pages l @ tree_pages r) \<subseteq> in_use s'" "fr_page (last (f # fs)) = bt_root_page bt"
      using p unfolding pending_def by blast+
    obtain s2 where w: "write_node (node_of (grown f l k r)) (bt, s') = (Ok (), bt, s2)" "room (Suc (length fs + Suc z)) s2"
      "ins_post n s' ?P (pending_leaves (f # fs) l r) (bt, s2)"
      using parent_not_full [OF q(1,2,3) c(1) q(4,5) c(2) q(6-9) small] unfolding pending_pages_def pending_leaves_def by blast
    have rz: "room z (snd (bt, s2))" using room_mono [OF w(2), of z] by simp
    show ?thesis unfolding s'(1) if_not_P [OF False] by (intro exI conjI) (rule w(1), rule rz, rule ins_post_within [OF w0 ins_post_Suc [OF w(3)]])
  next
    case True
    obtain s3 L R k' where x: "split_internal (node_of (grown f l k r)) (rev (map fr_page fs) @ [fr_page f]) (bt, s') =
        go_up (tree_page L) k' (tree_page R) (rev (map fr_page fs) @ [fr_page f]) (bt, s3)"
      "tree_page L = fr_page f" "pending bt s3 (length fs + Suc z) n fs (Suc m) L k' R" "pending_leaves fs L R = pending_leaves (f # fs) l r"
      "within s' ?P s3 (pending_pages fs L R)"
      using split_parent [OF p refl True] by blast
    obtain st' where st': "go_up (tree_page L) k' (tree_page R) (rev (map fr_page fs) @ [fr_page f]) (bt, s3) = (Ok (), st')" "room z (snd st')"
      "ins_post (Suc n) s3 (pending_pages fs L R) (pending_leaves (f # fs) l r) st'"
      using Cons.IH [OF x(3)] unfolding x(2,4) by blast
    show ?thesis unfolding s'(1) if_P [OF True] x(1)
      by (intro exI conjI) (rule st'(1), rule st'(2), rule ins_post_within [OF w0 ins_post_within [OF x(5) st'(3)]])
  qed
qed

text \<open>The two halves of a leaf.\<close>

lemma leaf_halves:
  assumes "ordered lo hi (TLeaf p es nx)" "list_all (\<lambda>e. tree_key (en_key e)) es" "length es \<le> Suc BTREE_ORDER" "length es > BTREE_ORDER"
    "h = length es div 2"
  shows "tree_wf (TLeaf p (take h es) q) \<and> tree_wf (TLeaf q (drop h es) nx) \<and> ordered lo (Some (en_key (es ! h))) (TLeaf p (take h es) q) \<and>
    ordered (Some (en_key (es ! h))) hi (TLeaf q (drop h es) nx) \<and> between lo hi (en_key (es ! h)) \<and> tree_key (en_key (es ! h))"
proof -
  have h: "0 < h" "h < length es" using assms(4,5) by (simp_all add: const_defs)
  have s: "entries_sorted (take h es)" "entries_sorted (drop h es)" "\<forall>x \<in> set (take h es). \<forall>y \<in> set (drop h es). en_key x < en_key y"
    using assms(1) entries_sorted_append [of "take h es" "drop h es"] by auto
  have d: "drop h es = es ! h # drop (Suc h) es" using h(2) by (simp add: Cons_nth_drop_Suc)
  have r: "in_range lo hi (en_key x)" "tree_key (en_key x)" if "x \<in> set es" for x
    using that assms(1,2) by (auto simp: list_all_iff)
  have lt: "en_key x < en_key (es ! h)" if "x \<in> set (take h es)" for x using that s(3) d by simp
  have ge: "en_key (es ! h) \<le> en_key x" if "x \<in> set (drop h es)" for x
    using that s(2) unfolding d by auto
  have e0: "es ! 0 \<in> set (take h es)" using h by (cases es; cases h) auto
  have l: "in_range lo (Some (en_key (es ! h))) (en_key x)" if "x \<in> set (take h es)" for x
    using lt [OF that] r(1) [OF in_set_takeD [OF that]] by (auto simp: in_range_def)
  have u: "in_range (Some (en_key (es ! h))) hi (en_key x)" if "x \<in> set (drop h es)" for x
    using ge [OF that] r(1) [OF in_set_dropD [OF that]] by (auto simp: in_range_def)
  have b: "between lo hi (en_key (es ! h))"
    using lt [OF e0] r(1) [OF in_set_takeD [OF e0]] r(1) [OF nth_mem [OF h(2)]]
    by (auto simp: between_def in_range_def split: option.splits)
  have len: "length (take h es) \<le> BTREE_ORDER" "length (drop h es) \<le> BTREE_ORDER" using assms(3,5) by (auto simp: const_defs)
  show ?thesis using s l u b len r(2) nth_mem [OF h(2)]
    by (simp add: list_all_iff del: length_take length_drop) (auto dest: in_set_takeD in_set_dropD)
qed

lemma split_leaf_eq:
  assumes "h = length es div 2" "h < length es"
    and "in_pager alloc_page (bt, s) = (Ok q, bt, s1)" "note_new_page q (bt, s1) = (bt, s1)"
    and "write_node (leaf_node p (take h es) q) (bt, s1) = (Ok (), bt, s2)"
    and "write_node (leaf_node q (drop h es) nx) (bt, s2) = (Ok (), bt, s3)"
  shows "split_leaf (leaf_node p es nx) path (bt, s) = go_up p (en_key (es ! h)) q path (bt, s3)"
proof -
  have d: "drop h es = es ! h # drop (Suc h) es" using assms(2) by (simp add: Cons_nth_drop_Suc)
  have l: "(leaf_node p es nx)\<lparr>bn_entries := take h es, bn_next_leaf := q, bn_num_keys := word_of_nat (length (take h es))\<rparr> = leaf_node p (take h es) q"
    by (simp add: leaf_node_def)
  have r: "(new_leaf q)\<lparr>bn_entries := drop h es, bn_num_keys := word_of_nat (length (drop h es)), bn_next_leaf := nx\<rparr> = leaf_node q (drop h es) nx"
    by (simp add: leaf_node_def)
  show ?thesis
    unfolding split_leaf_def leaf_node_simps Let_def assms(3) and_then_simps assms(4) assms(1) [symmetric] l r assms(5,6)
    unfolding d list.case go_up_def Let_def by (rule refl)
qed

lemma ctx_height_length: "ctx_height n fs m \<Longrightarrow> n = m + length fs"
proof (induction fs arbitrary: m)
  case (Cons f fs)
  then have "ctx_height n fs (Suc m)" by simp
  then show ?case using Cons.IH by fastforce
qed simp

text \<open>A leaf of the tree in its context, and the pages of both.\<close>

lemma at_leaf_parts:
  assumes "tree_rep n (bt, s) t" "at_leaf t key n fs (TLeaf p es nx)"
  shows "idle bt" "store_ok s" "t = fill fs (TLeaf p es nx)" "list_all frame_wf fs" "ctx_stored (page_content s) fs p"
    "set (tree_pages t) = insert p (set (ctx_pages fs))" "distinct (ctx_pages fs)" "p \<notin> set (ctx_pages fs)" "insert p (set (ctx_pages fs)) \<subseteq> in_use s"
    "fs \<noteq> [] \<Longrightarrow> fr_page (last fs) = bt_root_page bt"
proof -
  show t: "t = fill fs (TLeaf p es nx)" and "list_all frame_wf fs" using assms(2) by (simp_all add: at_leaf_def)
  have r: "stored (page_content s) t" "distinct (tree_pages t)" "set (tree_pages t) \<subseteq> in_use s" "tree_page t = bt_root_page bt"
    using assms(1) by (simp_all add: tree_rep_def)
  show "idle bt" "store_ok s" using assms(1) by (simp_all add: tree_rep_def)
  show "ctx_stored (page_content s) fs p" using r(1) t by (simp add: stored_fill)
  show sp: "set (tree_pages t) = insert p (set (ctx_pages fs))" unfolding t set_pages_fill by simp
  show "distinct (ctx_pages fs)" "p \<notin> set (ctx_pages fs)" using r(2) unfolding t distinct_pages_fill by simp_all
  show "insert p (set (ctx_pages fs)) \<subseteq> in_use s" using r(3) sp by simp
  show "fr_page (last fs) = bt_root_page bt" if "fs \<noteq> []" using r(4) t that by (simp add: tree_page_fill)
qed

lemma split_leaf_spec:
  assumes rep: "tree_rep n (bt, s) t" and al: "at_leaf t key n fs (TLeaf p es0 nx)" and room: "room (n + 2 + z) s" and key: "tree_key key"
    and es: "entries_sorted es" "\<forall>e \<in> set es. e \<in> set es0 \<or> en_key e = key" "length es > BTREE_ORDER" "length es \<le> Suc BTREE_ORDER"
    and h: "h = length es div 2"
  shows "\<exists>q st'. split_leaf (leaf_node p es nx) (path_of fs (TLeaf p es0 nx)) (bt, s) = (Ok (), st') \<and> q \<notin> in_use s \<and> q \<noteq> 0 \<and> room z (snd st') \<and>
    ins_post (Suc n) s (set (tree_pages t)) (lleaves fs @ [(p, take h es, q), (q, drop h es, nx)] @ rleaves fs) st'"
proof -
  note a = at_leaf_parts [OF rep al]
  obtain lo hi m where c: "ctx_ordered fs lo hi" "in_range lo hi key" "ordered lo hi (TLeaf p es0 nx)" "ctx_height n fs m" "tree_wf (TLeaf p es0 nx)"
    using al by (auto simp: at_leaf_def)
  have o: "ordered lo hi (TLeaf p es nx)" using c(2,3) es(1,2) by (auto simp: list_all_iff)
  have tk: "list_all (\<lambda>e. tree_key (en_key e)) es" using c(5) es(2) key by (auto simp: list_all_iff)
  have room': "room (Suc (length fs + Suc z)) s" using ctx_height_length [OF c(4)] by (intro room_mono [OF room]) simp
  obtain q s1 where al1: "in_pager alloc_page (bt, s) = (Ok q, bt, s1)" "note_new_page q (bt, s1) = (bt, s1)" "store_ok s1" "room (length fs + Suc z) s1" "q \<notin> in_use s"
    "in_use s1 = insert q (in_use s)" "page_ok q" "page_content s1 = page_content s" "pg_metadata_page s1 = pg_metadata_page s"
    using alloc_note_step [OF a(1,2) room'] by blast
  let ?l = "TLeaf p (take h es) q" and ?r = "TLeaf q (drop h es) nx" and ?k = "en_key (es ! h)"
  note hv = leaf_halves [OF o tk es(4,3) h, of q]
  then have w: "tree_wf ?l" "tree_wf ?r" "ordered lo (Some ?k) ?l" "ordered (Some ?k) hi ?r" "between lo hi ?k" "tree_key ?k" by blast+
  have pok: "page_ok p" using page_ok_in_use [of p s "n + 2 + z"] a(9) room by simp
  obtain s2 where s2: "write_node (node_of ?l) (bt, s1) = (Ok (), bt, s2)" "store_ok s2" "in_use s2 = in_use s1" "room (length fs + Suc z) s2"
    "page_content s2 = (page_content s1)(p \<mapsto> page_image (node_of ?l))" "pg_metadata_page s2 = pg_metadata_page s1"
    using write_node_step [OF a(1) al1(3) fits_node_of [OF w(1)]] pok al1(4) by auto
  obtain s3 where s3: "write_node (node_of ?r) (bt, s2) = (Ok (), bt, s3)" "store_ok s3" "in_use s3 = in_use s2" "room (length fs + Suc z) s3"
    "page_content s3 = (page_content s2)(q \<mapsto> page_image (node_of ?r))" "pg_metadata_page s3 = pg_metadata_page s2"
    using write_node_step [OF a(1) s2(2) fits_node_of [OF w(2)]] al1(7) s2(4) by auto
  have qn: "q \<noteq> p" "q \<notin> set (ctx_pages fs)" "q \<noteq> 0" using al1(5,6) a(9) by (auto simp: in_use_def)
  have st: "stored (page_content s3) ?l" "stored (page_content s3) ?r" using s2(5) s3(5) qn(1) by simp_all
  have cs: "ctx_stored (page_content s3) fs p"
    using a(5,8) qn(2) s2(5) s3(5) al1(8) by (simp add: ctx_stored_upd_other)
  have pe: "pending bt s3 (length fs + Suc z) n fs m ?l ?k ?r"
    unfolding pending_def split_pair_def using a(1,4,7-10) s3(2,3,4) s2(3) al1(6) c(1,4) st w cs qn by auto
  have run: "split_leaf (leaf_node p es nx) (path_of fs (TLeaf p es0 nx)) (bt, s) = go_up p ?k q (path_of fs (TLeaf p es0 nx)) (bt, s3)"
    using s2(1) s3(1) es(3) by (intro split_leaf_eq [OF h _ al1(1,2)]) (auto simp: h const_defs)
  obtain st' where st': "go_up p ?k q (path_of fs (TLeaf p es0 nx)) (bt, s3) = (Ok (), st')" "room z (snd st')"
    "ins_post (Suc n) s3 (pending_pages fs ?l ?r) (pending_leaves fs ?l ?r) st'"
    using go_up_spec [OF pe] by (auto simp: path_of_def)
  have "within s (set (tree_pages t)) s3 (pending_pages fs ?l ?r)"
    unfolding within_def a(6) pending_pages_def using s3(3,5,6) s2(3,5,6) al1(5,6,8,9) by auto
  then have "ins_post (Suc n) s (set (tree_pages t)) (pending_leaves fs ?l ?r) st'" by (rule ins_post_within [OF _ st'(3)])
  then show ?thesis unfolding run st'(1) using al1(5) qn(3) st'(2) by (auto simp: pending_leaves_def)
qed

subsection \<open>Writing a leaf in place\<close>

text \<open>Outside a transaction of the tree, \<open>update_path_after_modification\<close> only reads the nodes of the path.\<close>

lemma update_path_idle:
  assumes "idle bt"
  shows "store_ok s \<Longrightarrow> ctx_stored (page_content s) fs q \<Longrightarrow> list_all frame_wf fs \<Longrightarrow>
    \<exists>s'. update_path (length fs) (rev (map fr_page fs) @ rest) (bt, s) = (Ok (), bt, s') \<and> same_store s s'"
proof (induction fs arbitrary: s q rest)
  case Nil
  then show ?case using same_store_refl by simp
next
  case (Cons f fs)
  let ?g = "inner_node (fr_page f) (fr_lkeys f @ fr_rkeys f) (map tree_page (fr_lkids f) @ q # map tree_page (fr_rkids f))"
  have "fits ?g" using Cons.prems(3) by (intro fits_inner) (simp_all add: frame_wf_def)
  moreover have "page_content s (bn_page_num ?g) = Some (page_image ?g)" using Cons.prems(2) by simp
  ultimately have "\<exists>s'. read_node (bn_page_num ?g) (bt, s) = (Ok ?g, bt, s') \<and> same_store s s'" by (rule read_node_step [OF assms Cons.prems(1)])
  then obtain s1 where s1: "read_node (fr_page f) (bt, s) = (Ok ?g, bt, s1)" "same_store s s1" by (auto simp only: inner_node_simps)
  have p: "(rev (map fr_page (f # fs)) @ rest) ! length fs = fr_page f" by (simp add: nth_append)
  have "store_ok s1" "ctx_stored (page_content s1) fs (fr_page f)" "list_all frame_wf fs"
    using s1(2) Cons.prems by (simp_all add: same_store_def)
  then obtain s2 where s2: "update_path (length fs) (rev (map fr_page fs) @ fr_page f # rest) (bt, s1) = (Ok (), bt, s2)" "same_store s1 s2"
    using Cons.IH by blast
  have "update_path (length (f # fs)) (rev (map fr_page (f # fs)) @ rest) (bt, s) = update_path (length fs) (rev (map fr_page fs) @ fr_page f # rest) (bt, s1)"
    using assms s1(1) p by (simp add: idle_def Let_def)
  then show ?case using s2 same_store_trans [OF s1(2)] by auto
qed

lemma update_path_noop:
  assumes "idle bt" "store_ok s" "ctx_stored (page_content s) fs q" "list_all frame_wf fs"
  shows "\<exists>s'. update_path_after_modification (path_of fs u) (bt, s) = (Ok (), bt, s') \<and> same_store s s'"
proof -
  have "length (path_of fs u) - 1 = length fs" "length (path_of fs u) \<le> 1 \<longleftrightarrow> fs = []" by (simp_all add: path_of_def)
  then show ?thesis using update_path_idle [OF assms, of "[tree_page u]"] same_store_refl [OF assms(2)]
    by (auto simp: update_path_after_modification_def path_of_def)
qed

lemma write_leaf_spec:
  assumes rep: "tree_rep n (bt, s) t" and al: "at_leaf t key n fs (TLeaf p es0 nx)" and room: "room 0 s" and key: "tree_key key"
    and es: "entries_sorted es" "\<forall>e \<in> set es. e \<in> set es0 \<or> en_key e = key" "length es \<le> BTREE_ORDER"
  shows "\<exists>s'. write_node (leaf_node p es nx) (bt, s) = (Ok (), bt, s') \<and> in_use s' = in_use s \<and> (\<forall>k. room k s' = room k s) \<and>
    ctx_stored (page_content s') fs p \<and>
    ins_post n s (set (tree_pages t)) (lleaves fs @ [(p, es, nx)] @ rleaves fs) (bt, s')"
proof -
  note a = at_leaf_parts [OF rep al]
  let ?t = "fill fs (TLeaf p es nx)"
  have t': "tree_wf ?t" "ordered None None ?t" "height_le n ?t" using at_leaf_replace [OF al es(1,2,3) key] by blast+
  have "list_all (\<lambda>e. tree_key (en_key e)) es" using al es(2) key by (auto simp: at_leaf_def list_all_iff)
  then have f: "fits (leaf_node p es nx)" by (rule fits_leaf [OF es(3)])
  have "page_ok (bn_page_num (leaf_node p es nx))" using page_ok_in_use [OF _ room] a(9) by simp
  from write_node_step [OF a(1,2) f this] obtain s' where w: "write_node (leaf_node p es nx) (bt, s) = (Ok (), bt, s')" "store_ok s'" "in_use s' = in_use s"
    "\<forall>k. room k s' = room k s" "page_content s' = (page_content s)(p \<mapsto> page_image (leaf_node p es nx))" "pg_metadata_page s' = pg_metadata_page s"
    by auto
  have cs: "ctx_stored (page_content s') fs p" using a(5,8) w(5) by (simp add: ctx_stored_upd_other)
  then have st: "stored (page_content s') ?t" using w(5) by (simp add: stored_fill)
  have pg: "set (tree_pages ?t) = set (tree_pages t)" unfolding a(6) set_pages_fill by simp
  have "tree_page ?t = bt_root_page bt" using rep a(3) by (auto simp: tree_rep_def tree_page_fill)
  moreover have "distinct (tree_pages ?t)" unfolding distinct_pages_fill using a(7,8) by simp
  ultimately have r: "tree_rep n (bt, s') ?t" using a(1,9) w(2,3) st t' pg a(6) by (simp add: tree_rep_def)
  have "ins_post n s (set (tree_pages t)) (lleaves fs @ [(p, es, nx)] @ rleaves fs) (bt, s')"
  proof (rule ins_postI [OF r])
    show "leaves ?t = lleaves fs @ [(p, es, nx)] @ rleaves fs" by (simp add: leaves_fill)
    show "set (tree_pages ?t) \<subseteq> set (tree_pages t) \<union> (in_use (snd (bt, s')) - in_use s)" using pg by simp
    show "in_use s \<subseteq> in_use (snd (bt, s'))" using w(3) by simp
    show "page_content (snd (bt, s')) x = page_content s x" if "x \<notin> set (tree_pages t)" for x using that w(5) a(6) by auto
    show "pg_metadata_page (snd (bt, s')) = pg_metadata_page s" using w(6) by simp
  qed
  then show ?thesis using w(1,3,4) cs by blast
qed

lemma ins_post_same:
  assumes "ins_post n s P ls (bt, s1)" "same_store s1 s2"
  shows "ins_post n s P ls (bt, s2)"
  using assms same_store_rep [of n bt s1 _ s2] unfolding ins_post_def same_store_def by auto

subsection \<open>Insertion\<close>

lemma head_page_simps [simp]: "head_page [] e = e" "head_page (l # ls) e = fst l"
  by (simp_all add: head_page_def)

lemma head_page_append: "head_page (ls @ ms) e = head_page ls (head_page ms e)"
  by (cases ls) simp_all

lemma linked_append: "linked (ls @ ms) e \<longleftrightarrow> linked ls (head_page ms e) \<and> linked ms e"
  by (induction ls) (simp_all add: head_page_append)

lemma linked_replace:
  "linked (ls @ [(p, es, nx)] @ rs) e \<Longrightarrow> linked (ls @ [(p, es', nx)] @ rs) e"
  "linked (ls @ [(p, es, nx)] @ rs) e \<Longrightarrow> linked (ls @ [(p, es1, q), (q, es2, nx)] @ rs) e"
  by (simp_all add: linked_append)

lemma tight_replace:
  "tight (ls @ [(p, es, nx)] @ rs) \<Longrightarrow> es1 \<noteq> [] \<Longrightarrow> tight (ls @ [(p, es1, nx)] @ rs)"
  "tight (ls @ [(p, es, nx)] @ rs) \<Longrightarrow> es1 \<noteq> [] \<Longrightarrow> es2 \<noteq> [] \<Longrightarrow> tight (ls @ [(p, es1, q), (q, es2, nx)] @ rs)"
  by (auto simp: tight_def)

lemma insert_entry_not_Nil: "insert_entry x es \<noteq> []"
  by (cases es) auto

lemma insert_rep:
  assumes rep: "tree_rep n (bt, s) t" and fuel: "n \<le> fuel" and room: "room (n + 2 + z) s" and key: "tree_key k"
  shows "\<exists>st' ls. btree_insert fuel k v (bt, s) = (Ok (), st') \<and> inserted \<lparr>en_key = k, en_value = v\<rparr> (leaves t) ls \<and> room z (snd st') \<and>
    ins_post (Suc n) s (set (tree_pages t)) ls st'"
proof -
  let ?x = "\<lparr>en_key = k, en_value = v\<rparr>"
  obtain s0 fs p es nx s1 where f: "read_node (bt_root_page bt) (bt, s) = (Ok (node_of t), bt, s0)"
    "find_leaf fuel (node_of t) k [bt_root_page bt] (bt, s0) = (Ok (leaf_node p es nx, path_of fs (TLeaf p es nx)), bt, s1)"
    "at_leaf t k n fs (TLeaf p es nx)" "same_store s s1"
    using find_leaf_rep [OF rep fuel] by blast
  have bt: "get_root_page bt = bt_root_page bt" using rep root_page_idle by (simp add: tree_rep_def)
  have so: "entries_sorted es" "tree_wf (TLeaf p es nx)" using f(3) by (auto simp: at_leaf_def)
  let ?es = "insert_entry ?x es"
  have es: "entries_sorted ?es" "\<forall>e \<in> set ?es. e \<in> set es \<or> en_key e = k" "length ?es \<le> Suc BTREE_ORDER"
    using sorted_insert_entry [OF so(1)] insert_entry_sub [of ?x es] length_insert_entry [of ?x es] so(2) by auto
  have run: "btree_insert fuel k v (bt, s) =
      (if length ?es > BTREE_ORDER then split_leaf (leaf_node p ?es nx) (path_of fs (TLeaf p es nx)) (bt, s1)
       else and_then (write_node (leaf_node p ?es nx) (bt, s1)) (\<lambda>_ st. update_path_after_modification (path_of fs (TLeaf p es nx)) st))"
    by (simp add: btree_insert_def bt f(1,2) insert_into_leaf_eq [OF so(1)])
  have lv: "leaves t = lleaves fs @ [(p, es, nx)] @ rleaves fs" using f(3) by (simp add: at_leaf_def leaves_fill)
  have en: "insert_entry ?x (leaf_entries (leaves t)) = leaf_entries (lleaves fs) @ ?es @ leaf_entries (rleaves fs)"
    using at_leaf_insert [of t ?x n fs "TLeaf p es nx"] f(3) by simp
  have rep1: "tree_rep n (bt, s1) t" and room1: "room (n + 2 + z) s1" using same_store_rep [OF rep f(4)] room f(4) by (simp_all add: same_store_def)
  have w0: "within s (set (tree_pages t)) s1 (set (tree_pages t))" using f(4) by (simp add: within_def same_store_def)
  show ?thesis
  proof (cases "length ?es > BTREE_ORDER")
    case True
    obtain q st' where st': "split_leaf (leaf_node p ?es nx) (path_of fs (TLeaf p es nx)) (bt, s1) = (Ok (), st')" "room z (snd st')"
      "ins_post (Suc n) s1 (set (tree_pages t)) (lleaves fs @ [(p, take (length ?es div 2) ?es, q), (q, drop (length ?es div 2) ?es, nx)] @ rleaves fs) st'"
      using split_leaf_spec [OF rep1 f(3) room1 key es(1,2) True es(3) refl] by blast
    have "0 < length ?es div 2" "length ?es div 2 < length ?es" using True by (simp_all add: const_defs)
    then have ne: "take (length ?es div 2) ?es \<noteq> []" "drop (length ?es div 2) ?es \<noteq> []" using insert_entry_not_Nil by simp_all
    have "inserted ?x (leaves t) (lleaves fs @ [(p, take (length ?es div 2) ?es, q), (q, drop (length ?es div 2) ?es, nx)] @ rleaves fs)"
      unfolding inserted_def en unfolding lv using linked_replace(2) tight_replace(2) [OF _ ne] by simp
    then show ?thesis unfolding run if_P [OF True] st'(1) using st'(2) ins_post_within [OF w0 st'(3)] by blast
  next
    case False
    have r0: "room 0 s1" by (rule room_mono [OF room1]) simp
    obtain s2 where s2: "write_node (leaf_node p ?es nx) (bt, s1) = (Ok (), bt, s2)" "ctx_stored (page_content s2) fs p"
      "ins_post n s1 (set (tree_pages t)) (lleaves fs @ [(p, ?es, nx)] @ rleaves fs) (bt, s2)" "room z s2"
      using write_leaf_spec [OF rep1 f(3) r0 key es(1,2)] False room_mono [OF room1, of z] by auto
    have "idle bt" "store_ok s2" "list_all frame_wf fs" using s2(3) f(3) by (auto simp: ins_post_def tree_rep_def at_leaf_def)
    from update_path_noop [OF this(1,2) s2(2) this(3)] obtain s3 where
      s3: "update_path_after_modification (path_of fs (TLeaf p es nx)) (bt, s2) = (Ok (), bt, s3)" "same_store s2 s3" by blast
    have "room z (snd (bt, s3))" using s2(4) s3(2) by (simp add: same_store_def)
    moreover have "inserted ?x (leaves t) (lleaves fs @ [(p, ?es, nx)] @ rleaves fs)"
      unfolding inserted_def en unfolding lv using linked_replace(1) tight_replace(1) [OF _ insert_entry_not_Nil] by simp
    ultimately show ?thesis unfolding run if_not_P [OF False] s2(1) and_then_simps s3(1)
      using ins_post_within [OF w0 ins_post_Suc [OF ins_post_same [OF s2(3) s3(2)]]] by blast
  qed
qed

end
