(* ===== verification/Btree_Map.thy ===== *)
theory Btree_Map
  imports Btree_Insert
begin

text \<open>
  The B-tree of \<open>src/core/btree.rs\<close> as a map: deletion, histories of operations behind the interface \<open>paged_map\<close>, the iterator,
  and several trees in one pager.
\<close>


subsection \<open>Specification\<close>

definition remove_key :: "string \<Rightarrow> leaf_entry list \<Rightarrow> leaf_entry list" where
  "remove_key k es = filter (\<lambda>e. en_key e \<noteq> k) es"

text \<open>What a deletion does to the leaves: every one of them stays, empty or not.\<close>

definition prune :: "string \<Rightarrow> leaf \<Rightarrow> leaf" where
  "prune k l = (case l of (p, es, nx) \<Rightarrow> (p, remove_key k es, nx))"

text \<open>
  The contract of the B-tree: the state stands for the finite map \<open>m\<close>, held in the pages \<open>P\<close>, by a tree of height at most \<open>n\<close> whose
  leaves are chained.
\<close>

definition tree_state :: "nat \<Rightarrow> page_num set \<Rightarrow> (string \<Rightarrow> u64 option) \<Rightarrow> bt_state \<Rightarrow> bool" where
  "tree_state n P m st \<longleftrightarrow> (\<exists>t. tree_rep n st t \<and> linked (leaves t) 0 \<and> set (tree_pages t) = P \<and> tree_map t = m)"

datatype map_op = Put string u64 | Del string

fun op_key :: "map_op \<Rightarrow> string" where
  "op_key (Put k v) = k"
| "op_key (Del k) = k"

text \<open>What a history of operations means for the map and what the caller is told.\<close>

fun apply_op :: "map_op \<Rightarrow> (string \<Rightarrow> u64 option) \<Rightarrow> (string \<Rightarrow> u64 option)" where
  "apply_op (Put k v) m = m(k \<mapsto> v)"
| "apply_op (Del k) m = m(k := None)"

fun op_result :: "map_op \<Rightarrow> (string \<Rightarrow> u64 option) \<Rightarrow> unit res" where
  "op_result (Put k v) m = Ok ()"
| "op_result (Del k) m = (if m k = None then Err NotFound else Ok ())"

fun history_results :: "map_op list \<Rightarrow> (string \<Rightarrow> u64 option) \<Rightarrow> unit res list" where
  "history_results [] m = []"
| "history_results (x # xs) m = op_result x m # history_results xs (apply_op x m)"

text \<open>The operations run one after the other, an error of one of them does not stop the caller.\<close>

definition run_op :: "(string \<Rightarrow> u64 \<Rightarrow> 's \<Rightarrow> unit res \<times> 's) \<Rightarrow> (string \<Rightarrow> 's \<Rightarrow> unit res \<times> 's) \<Rightarrow> map_op \<Rightarrow> 's \<Rightarrow> unit res \<times> 's" where
  "run_op ins del x st = (case x of Put k v \<Rightarrow> ins k v st | Del k \<Rightarrow> del k st)"

fun run_ops :: "(string \<Rightarrow> u64 \<Rightarrow> 's \<Rightarrow> unit res \<times> 's) \<Rightarrow> (string \<Rightarrow> 's \<Rightarrow> unit res \<times> 's) \<Rightarrow> map_op list \<Rightarrow> 's \<Rightarrow> unit res list \<times> 's" where
  "run_ops ins del [] st = ([], st)"
| "run_ops ins del (x # xs) st =
     (case run_op ins del x st of (r, st) \<Rightarrow> case run_ops ins del xs st of (rs, st) \<Rightarrow> (r # rs, st))"

definition map_rep :: "nat \<Rightarrow> (string \<Rightarrow> u64 option) \<Rightarrow> bt_state \<Rightarrow> bool" where
  "map_rep n m st \<longleftrightarrow> (\<exists>P. tree_state n P m st)"

text \<open>The entries that a scan yields, one call of \<open>next\<close> after the other.\<close>

fun scan :: "nat \<Rightarrow> btree_iterator \<Rightarrow> bt_state \<Rightarrow> (string \<times> u64) list res \<times> bt_state" where
  "scan 0 it st = (Panic, st)"
| "scan (Suc fuel) it st = and_then (iterator_next it st) (\<lambda>(more, it) st.
     if more then and_then (no_panic (iterator_entry it), st) (\<lambda>e st. and_then (scan fuel it st) (\<lambda>es st. (Ok (e # es), st)))
     else (Ok [], st))"

definition scan_tree :: "nat \<Rightarrow> bt_state \<Rightarrow> (string \<times> u64) list res \<times> bt_state" where
  "scan_tree fuel st = and_then (btree_iterator_new fuel st) (\<lambda>it st. scan fuel it st)"

definition entry_pair :: "leaf_entry \<Rightarrow> string \<times> u64" where
  "entry_pair e = (en_key e, en_value e)"

text \<open>The leaves before the first empty one.\<close>

definition full_prefix :: "leaf list \<Rightarrow> leaf list" where
  "full_prefix ls = takeWhile (\<lambda>(p, es, nx). es \<noteq> []) ls"

definition leaf_stored :: "(page_num \<Rightarrow> bytes option) \<Rightarrow> leaf \<Rightarrow> bool" where
  "leaf_stored C l \<longleftrightarrow> (case l of (p, es, nx) \<Rightarrow> p \<noteq> 0 \<and> fits (leaf_node p es nx) \<and> C p = Some (page_image (leaf_node p es nx)))"

text \<open>One step of the iterator that has been started, inside a leaf and at its end.\<close>

definition at_entry :: "leaf \<Rightarrow> nat \<Rightarrow> btree_iterator" where
  "at_entry l i = (case l of (p, es, nx) \<Rightarrow> \<lparr>it_current_leaf = Some (leaf_node p es nx), it_index = i, it_started = True\<rparr>)"

text \<open>From entry \<open>i\<close> of a leaf on, the scan yields the rest of the leaf and the following leaves before the first empty one.\<close>

definition rest_entries :: "leaf_entry list \<Rightarrow> nat \<Rightarrow> leaf list \<Rightarrow> leaf_entry list" where
  "rest_entries es i ls = drop (Suc i) es @ leaf_entries (full_prefix ls)"

definition tight_state :: "nat \<Rightarrow> (string \<Rightarrow> u64 option) \<Rightarrow> bt_state \<Rightarrow> bool" where
  "tight_state n m st \<longleftrightarrow> (\<exists>t. tree_rep n st t \<and> linked (leaves t) 0 \<and> tight (leaves t) \<and> tree_map t = m \<and> length (leaf_entries (leaves t)) \<le> n)"


subsection \<open>Lemmas\<close>

subsection \<open>Deletion\<close>

lemma remove_entry_eq:
  "entries_sorted es \<Longrightarrow> remove_entry k es = (if lookup_entry k es = None then None else Some (remove_key k es))"
proof (induction es)
  case (Cons e es)
  have "remove_key k es = es" if "en_key e = k" using Cons.prems that by (auto simp: remove_key_def filter_id_conv)
  then show ?case using Cons by (auto simp: remove_key_def)
qed simp

lemma lookup_remove_key: "lookup_entry k (remove_key k' es) = (if k = k' then None else lookup_entry k es)"
  by (induction es) (auto simp: remove_key_def)

lemma remove_key_other: "\<forall>e \<in> set es. en_key e \<noteq> k \<Longrightarrow> remove_key k es = es"
  by (simp add: remove_key_def filter_id_conv)

lemma remove_key_append: "remove_key k (es @ fs) = remove_key k es @ remove_key k fs"
  by (simp add: remove_key_def)

lemma entries_sorted_remove: "entries_sorted es \<Longrightarrow> entries_sorted (remove_key k es)"
  by (induction es) (auto simp: remove_key_def)

lemma prune_simps [simp]: "prune k (p, es, nx) = (p, remove_key k es, nx)" "fst (prune k l) = fst l" "snd (snd (prune k l)) = snd (snd l)"
  by (simp_all add: prune_def split: prod.splits)

lemma leaf_entries_prune: "leaf_entries (map (prune k) ls) = remove_key k (leaf_entries ls)"
  by (induction ls) (auto simp: remove_key_append, simp add: remove_key_def)

lemma linked_prune: "linked (map (prune k) ls) e = linked ls e"
proof (induction ls)
  case (Cons l ls)
  have "head_page (map (prune k) ls) e = head_page ls e" by (cases ls) simp_all
  then show ?case using Cons by simp
qed simp

lemma prune_other: "\<forall>e \<in> set (leaf_entries ls). en_key e \<noteq> k \<Longrightarrow> map (prune k) ls = ls"
proof (induction ls)
  case (Cons l ls)
  obtain p es nx where l: "l = (p, es, nx)" by (cases l)
  then show ?case using Cons remove_key_other [of es k] by simp
qed simp

lemma at_leaf_prune:
  assumes "at_leaf t k n fs (TLeaf p es nx)"
  shows "map (prune k) (leaves t) = lleaves fs @ [(p, remove_key k es, nx)] @ rleaves fs"
proof -
  have lv: "leaves t = lleaves fs @ [(p, es, nx)] @ rleaves fs" using assms by (simp add: at_leaf_def leaves_fill)
  have "map (prune k) (lleaves fs) = lleaves fs" "map (prune k) (rleaves fs) = rleaves fs"
    using at_leaf_sides [OF assms] by (auto intro!: prune_other)
  then show ?thesis unfolding lv by simp
qed

lemma delete_rep:
  assumes rep: "tree_rep n (bt, s) t" and fuel: "n \<le> fuel" and room: "room z s"
  shows "\<exists>s'. btree_delete fuel k (bt, s) = (if tree_map t k = None then Err NotFound else Ok (), bt, s') \<and>
    room z s' \<and> ins_post n s (set (tree_pages t)) (map (prune k) (leaves t)) (bt, s')"
proof -
  obtain s0 fs p es nx s1 where f: "read_node (bt_root_page bt) (bt, s) = (Ok (node_of t), bt, s0)"
    "find_leaf fuel (node_of t) k [bt_root_page bt] (bt, s0) = (Ok (leaf_node p es nx, path_of fs (TLeaf p es nx)), bt, s1)"
    "at_leaf t k n fs (TLeaf p es nx)" "same_store s s1"
    using find_leaf_rep [OF rep fuel] by blast
  have bt: "get_root_page bt = bt_root_page bt" using rep root_page_idle by (simp add: tree_rep_def)
  have so: "entries_sorted es" "tree_wf (TLeaf p es nx)" using f(3) by (auto simp: at_leaf_def)
  have tm: "tree_map t k = lookup_entry k es" using at_leaf_lookup [OF f(3)] by (simp add: tree_map_def)
  note rm = at_leaf_prune [OF f(3)]
  have run: "btree_delete fuel k (bt, s) = (case remove_entry k es of None \<Rightarrow> (Err NotFound, bt, s1)
      | Some es' \<Rightarrow> write_node (leaf_node p es' nx) (bt, s1))"
    by (simp add: btree_delete_def bt f(1,2) leaf_node_upd split: option.split)
  have rep1: "tree_rep n (bt, s1) t" and room1: "room z s1" using same_store_rep [OF rep f(4)] room f(4) by (simp_all add: same_store_def)
  have w0: "within s (set (tree_pages t)) s1 (set (tree_pages t))" using f(4) by (simp add: within_def same_store_def)
  show ?thesis
  proof (cases "lookup_entry k es")
    case None
    have "remove_key k es = es" using None by (intro remove_key_other) (auto simp: lookup_None_iff)
    then have r: "map (prune k) (leaves t) = leaves t" using rm f(3) by (simp add: at_leaf_def leaves_fill)
    have "ins_post n s1 (set (tree_pages t)) (leaves t) (bt, s1)" by (rule ins_postI [OF rep1 refl]) simp_all
    then have "ins_post n s (set (tree_pages t)) (leaves t) (bt, s1)" by (rule ins_post_within [OF w0])
    moreover have "btree_delete fuel k (bt, s) = (Err NotFound, bt, s1)" using run remove_entry_eq [OF so(1)] None by simp
    ultimately show ?thesis using None tm room1 r by auto
  next
    case (Some v)
    have "k \<in> en_key ` set es" using Some by (metis lookup_None_iff option.distinct(1))
    then have key: "tree_key k" using so(2) by (auto simp: list_all_iff)
    have r0: "room 0 s1" by (rule room_mono [OF room1]) simp
    have es: "\<forall>e \<in> set (remove_key k es). e \<in> set es \<or> en_key e = k" "length (remove_key k es) \<le> BTREE_ORDER"
      using so(2) order_trans [OF length_filter_le] by (auto simp: remove_key_def)
    obtain s2 where s2: "write_node (leaf_node p (remove_key k es) nx) (bt, s1) = (Ok (), bt, s2)" "room z s2"
      "ins_post n s1 (set (tree_pages t)) (lleaves fs @ [(p, remove_key k es, nx)] @ rleaves fs) (bt, s2)"
      using write_leaf_spec [OF rep1 f(3) r0 key entries_sorted_remove [OF so(1)] es] room1 by blast
    have "btree_delete fuel k (bt, s) = (Ok (), bt, s2)" using run remove_entry_eq [OF so(1)] Some s2(1) by simp
    then show ?thesis using Some tm s2(2) ins_post_within [OF w0 s2(3)] unfolding rm by auto
  qed
qed

subsection \<open>The tree as a map\<close>

lemma tree_rep_sorted: "tree_rep n st t \<Longrightarrow> entries_sorted (leaf_entries (leaves t))"
  using ordered_entries(1) by (auto simp: tree_rep_def)

lemma ins_post_state:
  assumes "ins_post n s P ls st'" "linked ls 0"
  shows "\<exists>P'. tree_state n P' (\<lambda>k. lookup_entry k (leaf_entries ls)) st' \<and> within s P (snd st') P'"
proof -
  obtain t' where t': "tree_rep n st' t'" "leaves t' = ls" "set (tree_pages t') \<subseteq> P \<union> (in_use (snd st') - in_use s)"
    "in_use s \<subseteq> in_use (snd st')" "\<forall>x \<in> in_use s - P. page_content (snd st') x = page_content s x" "pg_metadata_page (snd st') = pg_metadata_page s"
    using assms(1) by (auto simp: ins_post_def)
  have "tree_state n (set (tree_pages t')) (\<lambda>k. lookup_entry k (leaf_entries ls)) st'"
    unfolding tree_state_def using t'(1,2) assms(2) by (intro exI [of _ t']) (auto simp: tree_map_def)
  moreover have "within s P (snd st') (set (tree_pages t'))" unfolding within_def using t'(3-6) by auto
  ultimately show ?thesis by blast
qed

lemma insert_state:
  assumes "tree_state n P m (bt, s)" "n \<le> fuel" "room (n + 2 + z) s" "tree_key k"
  shows "\<exists>st' P'. btree_insert fuel k v (bt, s) = (Ok (), st') \<and> tree_state (Suc n) P' (m(k \<mapsto> v)) st' \<and> room z (snd st') \<and> within s P (snd st') P'"
proof -
  obtain t where t: "tree_rep n (bt, s) t" "linked (leaves t) 0" "set (tree_pages t) = P" "tree_map t = m"
    using assms(1) by (auto simp: tree_state_def)
  obtain st' ls where i: "btree_insert fuel k v (bt, s) = (Ok (), st')" "inserted \<lparr>en_key = k, en_value = v\<rparr> (leaves t) ls" "room z (snd st')"
    "ins_post (Suc n) s P ls st'"
    using insert_rep [OF t(1) assms(2,3,4)] t(3) by blast
  have l: "linked ls 0" using i(2) t(2) by (simp add: inserted_def)
  have "(\<lambda>k. lookup_entry k (leaf_entries ls)) = m(k \<mapsto> v)"
    using i(2) t(4) lookup_insert_entry [OF tree_rep_sorted [OF t(1)]] by (auto simp: inserted_def tree_map_def)
  then show ?thesis using ins_post_state [OF i(4) l] i(1,3) by auto
qed

lemma delete_state:
  assumes "tree_state n P m (bt, s)" "n \<le> fuel" "room z s"
  shows "\<exists>s' P'. btree_delete fuel k (bt, s) = (if m k = None then Err NotFound else Ok (), bt, s') \<and> tree_state n P' (m(k := None)) (bt, s') \<and>
    room z s' \<and> within s P s' P'"
proof -
  obtain t where t: "tree_rep n (bt, s) t" "linked (leaves t) 0" "set (tree_pages t) = P" "tree_map t = m"
    using assms(1) by (auto simp: tree_state_def)
  obtain s' where i: "btree_delete fuel k (bt, s) = (if m k = None then Err NotFound else Ok (), bt, s')" "room z s'"
    "ins_post n s P (map (prune k) (leaves t)) (bt, s')"
    using delete_rep [OF t(1) assms(2,3)] t(3,4) by blast
  have l: "linked (map (prune k) (leaves t)) 0" using t(2) by (simp add: linked_prune)
  have "(\<lambda>x. lookup_entry x (leaf_entries (map (prune k) (leaves t)))) = m(k := None)"
    using t(4) by (auto simp: leaf_entries_prune tree_map_def lookup_remove_key)
  then show ?thesis using ins_post_state [OF i(3) l] i(1,2) by auto
qed

lemma search_state:
  assumes "tree_state n P m (bt, s)" "n \<le> fuel"
  shows "\<exists>s'. btree_search fuel k (bt, s) = (case m k of Some v \<Rightarrow> Ok v | None \<Rightarrow> Err NotFound, bt, s') \<and> tree_state n P m (bt, s') \<and> same_store s s'"
proof -
  obtain t where t: "tree_rep n (bt, s) t" "linked (leaves t) 0" "set (tree_pages t) = P" "tree_map t = m"
    using assms(1) by (auto simp: tree_state_def)
  obtain s' where s': "btree_search fuel k (bt, s) = (case m k of Some v \<Rightarrow> Ok v | None \<Rightarrow> Err NotFound, bt, s')" "same_store s s'"
    using search_rep [OF t(1) assms(2)] t(4) by blast
  have "tree_state n P m (bt, s')" unfolding tree_state_def using same_store_rep [OF t(1) s'(2)] t(2-4) by blast
  then show ?thesis using s' by blast
qed

lemma new_state:
  assumes "store_ok s" "room (Suc z) s"
  shows "\<exists>bt s' p. btree_new s = (Ok bt, s') \<and> tree_state 0 {p} (\<lambda>_. None) (bt, s') \<and> room z s' \<and> p \<notin> in_use s \<and> within s {} s' {p}"
proof -
  obtain p s1 where a: "alloc_page s = (Ok p, s1)" "store_ok s1" "room z s1" "p \<notin> in_use s" "in_use s1 = insert p (in_use s)" "page_ok p"
    "page_content s1 = page_content s" "pg_metadata_page s1 = pg_metadata_page s"
    using alloc_step [OF assms] by blast
  have n: "new_leaf p = leaf_node p [] 0" by (simp add: leaf_node_def new_leaf_def)
  have i: "idle (btree_open p)" by (simp add: idle_def btree_open_def)
  have f: "fits (leaf_node p [] 0)" by (rule fits_leaf) (simp_all add: const_defs)
  have po: "page_ok (bn_page_num (leaf_node p [] 0))" using a(6) by simp
  obtain s2 where s2: "write_node (leaf_node p [] 0) (btree_open p, s1) = (Ok (), btree_open p, s2)" "store_ok s2" "in_use s2 = in_use s1" "room z s2"
    "page_content s2 = (page_content s1)(p \<mapsto> page_image (leaf_node p [] 0))" "pg_metadata_page s2 = pg_metadata_page s1"
    using write_node_step [OF i a(2) f po] a(3) by auto
  have "tree_rep 0 (btree_open p, s2) (TLeaf p [] 0)" using i s2 a(5) by (simp add: tree_rep_def btree_open_def)
  then have "tree_state 0 {p} (\<lambda>_. None) (btree_open p, s2)"
    unfolding tree_state_def by (intro exI [of _ "TLeaf p [] 0"]) (auto simp: tree_map_def)
  moreover have "btree_new s = (Ok (btree_open p), s2)" using a(1) s2(1) n by (simp add: btree_new_def)
  moreover have "within s {} s2 {p}" unfolding within_def using s2(3,5,6) a(4,5,7,8) by auto
  ultimately show ?thesis using s2(4) a(4) by blast
qed

subsection \<open>Histories of a map\<close>

text \<open>
  The interface of a map kept in pages. \<open>rep n m st\<close>: the state stands for the map \<open>m\<close> at level \<open>n\<close>, which an operation raises by at
  most one; \<open>space z st\<close>: \<open>z\<close> more pages can be allocated.
\<close>

locale paged_map =
  fixes rep :: "nat \<Rightarrow> (string \<Rightarrow> u64 option) \<Rightarrow> 's \<Rightarrow> bool"
    and space :: "nat \<Rightarrow> 's \<Rightarrow> bool"
    and good :: "string \<Rightarrow> bool"
    and search :: "nat \<Rightarrow> string \<Rightarrow> 's \<Rightarrow> u64 res \<times> 's"
    and ins :: "nat \<Rightarrow> string \<Rightarrow> u64 \<Rightarrow> 's \<Rightarrow> unit res \<times> 's"
    and del :: "nat \<Rightarrow> string \<Rightarrow> 's \<Rightarrow> unit res \<times> 's"
  assumes space_mono: "space y st \<Longrightarrow> z \<le> y \<Longrightarrow> space z st"
    and search_law: "rep n m st \<Longrightarrow> n \<le> fuel \<Longrightarrow> \<exists>st'. search fuel k st = (case m k of Some v \<Rightarrow> Ok v | None \<Rightarrow> Err NotFound, st') \<and> rep n m st'"
    and ins_law: "rep n m st \<Longrightarrow> n \<le> fuel \<Longrightarrow> space (n + 2 + z) st \<Longrightarrow> good k \<Longrightarrow>
      \<exists>st'. ins fuel k v st = (Ok (), st') \<and> rep (Suc n) (m(k \<mapsto> v)) st' \<and> space z st'"
    and del_law: "rep n m st \<Longrightarrow> n \<le> fuel \<Longrightarrow> space z st \<Longrightarrow>
      \<exists>st'. del fuel k st = (if m k = None then Err NotFound else Ok (), st') \<and> rep (Suc n) (m(k := None)) st' \<and> space z st'"
begin

lemma op_law:
  assumes "rep n m st" "n \<le> fuel" "space (n + 2 + z) st" "good (op_key x)"
  shows "\<exists>st'. run_op (ins fuel) (del fuel) x st = (op_result x m, st') \<and> rep (Suc n) (apply_op x m) st' \<and> space z st'"
proof (cases x)
  case (Put k v)
  then show ?thesis using ins_law [OF assms(1,2,3)] assms(4) by (simp add: run_op_def)
next
  case (Del k)
  have "space z st" by (rule space_mono [OF assms(3)]) simp
  then show ?thesis using del_law [OF assms(1,2), of z k] Del by (simp add: run_op_def)
qed

lemma history:
  "rep n m st \<Longrightarrow> n + length xs \<le> fuel \<Longrightarrow> space (length xs * (n + length xs + 2) + y) st \<Longrightarrow> list_all (\<lambda>x. good (op_key x)) xs \<Longrightarrow>
   \<exists>st'. run_ops (ins fuel) (del fuel) xs st = (history_results xs m, st') \<and> rep (n + length xs) (fold apply_op xs m) st' \<and> space y st'"
proof (induction xs arbitrary: n m st)
  case (Cons x xs)
  let ?z = "length xs * (Suc n + length xs + 2) + y"
  have n: "n \<le> fuel" using Cons.prems(2) by simp
  have "n + 2 + ?z \<le> length (x # xs) * (n + length (x # xs) + 2) + y" by simp
  then have sp: "space (n + 2 + ?z) st" by (rule space_mono [OF Cons.prems(3)])
  have g: "good (op_key x)" using Cons.prems(4) by simp
  obtain st1 where st1: "run_op (ins fuel) (del fuel) x st = (op_result x m, st1)" "rep (Suc n) (apply_op x m) st1" "space ?z st1"
    using op_law [OF Cons.prems(1) n sp g] by blast
  obtain st2 where "run_ops (ins fuel) (del fuel) xs st1 = (history_results xs (apply_op x m), st2)" "rep (Suc n + length xs) (fold apply_op xs (apply_op x m)) st2" "space y st2"
    using Cons.IH [OF st1(2) _ st1(3)] Cons.prems(2,4) by auto
  then show ?case using st1(1) by auto
qed simp

text \<open>A search after a history finds what the history put last under the key.\<close>

lemma history_search:
  assumes "rep 0 m st" "length xs \<le> fuel" "space (length xs * (length xs + 2)) st" "list_all (\<lambda>x. good (op_key x)) xs"
  shows "\<exists>st'. run_ops (ins fuel) (del fuel) xs st = (history_results xs m, st') \<and>
    (\<forall>k. fst (search fuel k st') = (case fold apply_op xs m k of Some v \<Rightarrow> Ok v | None \<Rightarrow> Err NotFound))"
proof -
  obtain st' where st': "run_ops (ins fuel) (del fuel) xs st = (history_results xs m, st')" "rep (length xs) (fold apply_op xs m) st'"
    using history [OF assms(1), of xs fuel 0] assms(2,3,4) by auto
  have "fst (search fuel k st') = (case fold apply_op xs m k of Some v \<Rightarrow> Ok v | None \<Rightarrow> Err NotFound)" for k
    using search_law [OF st'(2) assms(2), of k] by auto
  then show ?thesis using st'(1) by blast
qed

end

lemma map_rep_Suc: "map_rep n m st \<Longrightarrow> map_rep (Suc n) m st"
  unfolding map_rep_def tree_state_def tree_rep_def using height_mono [of n _ "Suc n"] by auto

interpretation bt: paged_map map_rep "\<lambda>z st. room z (snd st)" tree_key btree_search btree_insert btree_delete
proof
  show "room y (snd st) \<Longrightarrow> z \<le> y \<Longrightarrow> room z (snd st)" for y z and st :: bt_state by (rule room_mono)
  show "\<exists>st'. btree_search fuel k st = (case m k of Some v \<Rightarrow> Ok v | None \<Rightarrow> Err NotFound, st') \<and> map_rep n m st'"
    if r: "map_rep n m st" and n: "n \<le> fuel" for n m st fuel k
  proof -
    obtain P where "tree_state n P m (fst st, snd st)" using r by (auto simp: map_rep_def)
    then show ?thesis using search_state [OF _ n, of P m "fst st" "snd st" k] by (auto simp: map_rep_def)
  qed
  show "\<exists>st'. btree_insert fuel k v st = (Ok (), st') \<and> map_rep (Suc n) (m(k \<mapsto> v)) st' \<and> room z (snd st')"
    if r: "map_rep n m st" and n: "n \<le> fuel" "room (n + 2 + z) (snd st)" "tree_key k" for n m st fuel z k v
  proof -
    obtain P where "tree_state n P m (fst st, snd st)" using r by (auto simp: map_rep_def)
    then show ?thesis using insert_state [OF _ n, of P m "fst st" v] by (auto simp: map_rep_def)
  qed
  show "\<exists>st'. btree_delete fuel k st = (if m k = None then Err NotFound else Ok (), st') \<and> map_rep (Suc n) (m(k := None)) st' \<and> room z (snd st')"
    if r: "map_rep n m st" and n: "n \<le> fuel" "room z (snd st)" for n m st fuel z k
  proof -
    obtain P where "tree_state n P m (fst st, snd st)" using r by (auto simp: map_rep_def)
    then obtain s' P' where d: "btree_delete fuel k (fst st, snd st) = (if m k = None then Err NotFound else Ok (), fst st, s')"
      "tree_state n P' (m(k := None)) (fst st, s')" "room z s'"
      using delete_state [OF _ n, of P m "fst st" k] by blast
    have "map_rep n (m(k := None)) (fst st, s')" using d(2) by (auto simp: map_rep_def)
    then show ?thesis using d(1,3) map_rep_Suc by (intro exI [of _ "(fst st, s')"]) simp
  qed
qed

text \<open>
  C4: A B-tree made by \<open>BTree::new\<close> behaves as a map from keys to page numbers: after any history of insertions and deletions, which report what a map would report
  (\<open>NotFound\<close> for the deletion of a key that is not there), a search returns the last value inserted under the key and not deleted since, and \<open>NotFound\<close> when there is none. No operation fails or
  panics, whatever leaves and inner nodes are split and however many levels are added. The keys are valid strings of at most 71 bytes; the number of pages that
  can still be allocated bounds the history.
\<close>

theorem btree_history:
  assumes "store_ok s" "room (length xs * (length xs + 2) + 1) s" "list_all (\<lambda>x. tree_key (op_key x)) xs" "length xs \<le> fuel"
  shows "\<exists>bt s1 st'. btree_new s = (Ok bt, s1) \<and>
    run_ops (btree_insert fuel) (btree_delete fuel) xs (bt, s1) = (history_results xs (\<lambda>_. None), st') \<and>
    (\<forall>k. fst (btree_search fuel k st') = (case fold apply_op xs (\<lambda>_. None) k of Some v \<Rightarrow> Ok v | None \<Rightarrow> Err NotFound))"
proof -
  have "room (Suc (length xs * (length xs + 2))) s" using assms(2) by simp
  from new_state [OF assms(1) this] obtain bt s1 p where n: "btree_new s = (Ok bt, s1)" "tree_state 0 {p} (\<lambda>_. None) (bt, s1)"
    "room (length xs * (length xs + 2)) s1" by blast
  have "map_rep 0 (\<lambda>_. None) (bt, s1)" using n(2) by (auto simp: map_rep_def)
  then show ?thesis using bt.history_search [OF _ assms(4) _ assms(3)] n(1,3) by fastforce
qed

theorem btree_history_witness:
  "\<exists>s bt s1 st'. pager_open None 10 False = Ok s \<and> btree_new s = (Ok bt, s1) \<and>
    run_ops (btree_insert 3) (btree_delete 3) [Put ''b'' 7, Put ''a'' 9, Del ''b''] (bt, s1) =
      (history_results [Put ''b'' 7, Put ''a'' 9, Del ''b''] (\<lambda>_. None), st') \<and>
    fst (btree_search 3 ''a'' st') = Ok 9 \<and> fst (btree_search 3 ''b'' st') = Err NotFound"
proof -
  let ?xs = "[Put ''b'' 7, Put ''a'' 9, Del ''b'']"
  obtain s where s: "pager_open None 10 False = Ok s" "store_ok s" "room 1000000 s" using new_store by blast
  have r: "room (length ?xs * (length ?xs + 2) + 1) s" by (rule room_mono [OF s(3)]) simp
  have k: "list_all (\<lambda>x. tree_key (op_key x)) ?xs" by (simp add: tree_key_def rust_string_def as_bytes_def)
  have f: "length ?xs \<le> 3" by simp
  obtain bt s1 st' where h: "btree_new s = (Ok bt, s1)" "run_ops (btree_insert 3) (btree_delete 3) ?xs (bt, s1) = (history_results ?xs (\<lambda>_. None), st')"
    "\<forall>k. fst (btree_search 3 k st') = (case fold apply_op ?xs (\<lambda>_. None) k of Some v \<Rightarrow> Ok v | None \<Rightarrow> Err NotFound)"
    using btree_history [OF s(2) r k f] by blast
  have "fst (btree_search 3 ''a'' st') = Ok 9" "fst (btree_search 3 ''b'' st') = Err NotFound" using h(3) by simp_all
  then show ?thesis using s(1) h(1,2) by blast
qed

subsection \<open>Iteration\<close>

lemma full_prefix_simps [simp]:
  "full_prefix [] = []" "full_prefix ((p, es, nx) # ls) = (if es = [] then [] else (p, es, nx) # full_prefix ls)"
  by (simp_all add: full_prefix_def)

lemma stored_leaves:
  "stored C t \<Longrightarrow> tree_wf t \<Longrightarrow> 0 \<notin> set (tree_pages t) \<Longrightarrow> list_all (leaf_stored C) (leaves t)"
proof (induction t)
  case (TLeaf p es nx)
  then show ?case by (auto simp: leaf_stored_def intro: fits_leaf)
next
  case (TNode p ks ts)
  have "list_all (leaf_stored C) (leaves t)" if "t \<in> set ts" for t
    using TNode that by (auto simp: list_all_iff)
  then show ?case by (auto simp: list_all_iff)
qed

lemma leaves_nonempty: "tree_wf t \<Longrightarrow> leaves t \<noteq> []"
proof (induction t)
  case (TNode p ks ts)
  then show ?case by (cases ts) auto
qed simp

text \<open>Down the first children to the first leaf.\<close>

lemma first_leaf_leaf: "bn_node_type node = LeafNode \<Longrightarrow> first_leaf fuel node st = (Ok node, st)"
  by (simp add: first_leaf.simps)

lemma first_leaf_Suc:
  "bn_node_type node = InternalNode \<Longrightarrow> bn_children node = c # cs \<Longrightarrow>
   first_leaf (Suc fuel) node st = and_then (read_node c st) (\<lambda>node st. first_leaf fuel node st)"
  by (simp add: first_leaf.simps [of "Suc fuel"])

lemma first_leaf_spec:
  assumes "idle bt"
  shows "store_ok s \<Longrightarrow> stored (page_content s) t \<Longrightarrow> tree_wf t \<Longrightarrow> height_le n t \<Longrightarrow> n \<le> fuel \<Longrightarrow>
    \<exists>p es nx ls s'. leaves t = (p, es, nx) # ls \<and> first_leaf fuel (node_of t) (bt, s) = (Ok (leaf_node p es nx), bt, s') \<and> same_store s s'"
proof (induction n arbitrary: t s fuel)
  case 0
  then obtain p es nx where t: "t = TLeaf p es nx" by (cases t) auto
  then show ?case using first_leaf_leaf same_store_refl [OF 0(1)] by auto
next
  case (Suc n)
  show ?case
  proof (cases t)
    case (TLeaf p es nx)
    then show ?thesis using first_leaf_leaf same_store_refl [OF Suc.prems(1)] by auto
  next
    case (TNode p ks ts)
    then obtain u us where ts: "ts = u # us" using Suc.prems(3) by (cases ts) auto
    obtain f where f: "fuel = Suc f" "n \<le> f" using Suc.prems(5) by (cases fuel) auto
    have u: "stored (page_content s) u" "tree_wf u" "height_le n u" using Suc.prems(2-4) TNode ts by simp_all
    obtain s1 where s1: "read_node (tree_page u) (bt, s) = (Ok (node_of u), bt, s1)" "same_store s s1"
      using read_tree_step [OF assms Suc.prems(1) u(2,1)] by blast
    have "store_ok s1" "stored (page_content s1) u" using s1(2) u(1) by (simp_all add: same_store_def)
    from Suc.IH [OF this u(2,3) f(2)] obtain p' es nx ls s' where
      r: "leaves u = (p', es, nx) # ls" "first_leaf f (node_of u) (bt, s1) = (Ok (leaf_node p' es nx), bt, s')" "same_store s1 s'" by blast
    have "first_leaf fuel (node_of t) (bt, s) = (Ok (leaf_node p' es nx), bt, s')"
      unfolding f(1) using first_leaf_Suc [of "node_of t" "tree_page u" "map tree_page us" f] TNode ts s1(1) r(2) by simp
    then show ?thesis using TNode ts r(1) same_store_trans [OF s1(2) r(3)] by auto
  qed
qed

lemma next_inside: "Suc i < length es \<Longrightarrow> iterator_next (at_entry (p, es, nx) i) st = (Ok (True, at_entry (p, es, nx) (Suc i)), st)"
  by (simp add: iterator_next_def at_entry_def)

lemma next_end:
  "length es \<le> Suc i \<Longrightarrow> \<exists>it. iterator_next (at_entry (p, es, 0) i) st = (Ok (False, it), st)"
  by (simp add: iterator_next_def at_entry_def)

lemma next_leaf_step:
  assumes "length es \<le> Suc i" "q \<noteq> 0" "read_node q (bt, s) = (Ok (leaf_node q es' nx'), bt, s')"
  shows "iterator_next (at_entry (p, es, q) i) (bt, s) = (Ok (es' \<noteq> [], at_entry (q, es', nx') 0), bt, s')"
  using assms by (simp add: iterator_next_def at_entry_def)

lemma entry_at: "i < length es \<Longrightarrow> iterator_entry (at_entry (p, es, nx) i) = Some (entry_pair (es ! i))"
  by (simp add: iterator_entry_def at_entry_def entry_pair_def Let_def)

lemma read_leaf_step:
  "idle bt \<Longrightarrow> store_ok s \<Longrightarrow> leaf_stored (page_content s) (p, es, nx) \<Longrightarrow> \<exists>s'. read_node p (bt, s) = (Ok (leaf_node p es nx), bt, s') \<and> same_store s s'"
  using read_node_step [of bt s "leaf_node p es nx"] by (simp add: leaf_stored_def)

lemma scan_spec:
  assumes "idle bt"
  shows "store_ok s \<Longrightarrow> linked ((p, es, nx) # ls) 0 \<Longrightarrow> list_all (leaf_stored (page_content s)) ls \<Longrightarrow> length (rest_entries es i ls) < fuel \<Longrightarrow>
    \<exists>s'. scan fuel (at_entry (p, es, nx) i) (bt, s) = (Ok (map entry_pair (rest_entries es i ls)), bt, s') \<and> same_store s s' \<and>
      (\<forall>c. count_entries fuel c (at_entry (p, es, nx) i) (bt, s) = (Ok (c + length (rest_entries es i ls)), bt, s'))"
proof (induction fuel arbitrary: s p es nx ls i)
  case (Suc fuel)
  show ?case
  proof (cases "Suc i < length es")
    case True
    have d: "rest_entries es i ls = es ! Suc i # rest_entries es (Suc i) ls" using True by (simp add: rest_entries_def Cons_nth_drop_Suc)
    have fl: "length (rest_entries es (Suc i) ls) < fuel" using Suc.prems(4) d by simp
    obtain s' where s': "scan fuel (at_entry (p, es, nx) (Suc i)) (bt, s) = (Ok (map entry_pair (rest_entries es (Suc i) ls)), bt, s')" "same_store s s'"
      "\<forall>c. count_entries fuel c (at_entry (p, es, nx) (Suc i)) (bt, s) = (Ok (c + length (rest_entries es (Suc i) ls)), bt, s')"
      using Suc.IH [OF Suc.prems(1,2,3) fl] by blast
    show ?thesis using s' next_inside [OF True] entry_at [OF True] d
      by (intro exI [of _ s']) (simp add: count_entries.simps [of "Suc fuel"])
  next
    case False
    then have le: "length es \<le> Suc i" by simp
    show ?thesis
    proof (cases ls)
      case Nil
      then have "nx = 0" using Suc.prems(2) by simp
      then obtain it where "\<And>st. iterator_next (at_entry (p, es, nx) i) st = (Ok (False, it), st)" using le by (auto simp: iterator_next_def at_entry_def)
      then show ?thesis using Nil le same_store_refl [OF Suc.prems(1)]
        by (intro exI [of _ s]) (simp add: rest_entries_def count_entries.simps [of "Suc fuel"])
    next
      case (Cons l ls')
      obtain q es' nx' where l: "l = (q, es', nx')" by (cases l)
      have nx: "nx = q" and lk: "linked ((q, es', nx') # ls') 0" using Suc.prems(2) Cons l by simp_all
      have ls: "leaf_stored (page_content s) (q, es', nx')" "list_all (leaf_stored (page_content s)) ls'" using Suc.prems(3) Cons l by simp_all
      have q: "q \<noteq> 0" using ls(1) by (simp add: leaf_stored_def)
      obtain s1 where s1: "read_node q (bt, s) = (Ok (leaf_node q es' nx'), bt, s1)" "same_store s s1"
        using read_leaf_step [OF assms Suc.prems(1) ls(1)] by blast
      note nl = next_leaf_step [OF le q s1(1), of p]
      show ?thesis
      proof (cases es')
        case Nil
        then have "rest_entries es i ls = []" using le Cons l by (simp add: rest_entries_def)
        then show ?thesis using nl Nil nx s1(2) by (intro exI [of _ s1]) (simp add: count_entries.simps [of "Suc fuel"])
      next
        case (Cons e es2)
        have d: "rest_entries es i ls = e # rest_entries es' 0 ls'" using le \<open>ls = l # ls'\<close> l Cons by (simp add: rest_entries_def)
        have fl: "length (rest_entries es' 0 ls') < fuel" using Suc.prems(4) d by simp
        have "store_ok s1" "list_all (leaf_stored (page_content s1)) ls'" using s1(2) ls(2) by (simp_all add: same_store_def)
        from Suc.IH [OF this(1) lk this(2) fl] obtain s' where
          s': "scan fuel (at_entry (q, es', nx') 0) (bt, s1) = (Ok (map entry_pair (rest_entries es' 0 ls')), bt, s')" "same_store s1 s'"
          "\<forall>c. count_entries fuel c (at_entry (q, es', nx') 0) (bt, s1) = (Ok (c + length (rest_entries es' 0 ls')), bt, s')" by blast
        have "iterator_entry (at_entry (q, es', nx') 0) = Some (entry_pair e)" using entry_at [of 0 es'] Cons by simp
        then show ?thesis using nl Cons nx s' d same_store_trans [OF s1(2) s'(2)]
          by (intro exI [of _ s']) (simp add: count_entries.simps [of "Suc fuel"])
      qed
    qed
  qed
qed simp

lemma fresh_iterator:
  "iterator_next \<lparr>it_current_leaf = Some (leaf_node p es nx), it_index = 0, it_started = False\<rparr> st = (Ok (es \<noteq> [], at_entry (p, es, nx) 0), st)"
  by (simp add: iterator_next_def at_entry_def)

lemma full_prefix_length: "length (leaf_entries (full_prefix ls)) \<le> length (leaf_entries ls)"
proof (induction ls)
  case (Cons l ls)
  then show ?case by (cases l) simp
qed simp

lemma rest_entries_first: "es \<noteq> [] \<Longrightarrow> leaf_entries (full_prefix ((p, es, nx) # ls)) = es ! 0 # rest_entries es 0 ls"
  by (cases es) (simp_all add: rest_entries_def)

text \<open>A scan follows the chain from the first leaf of the tree, whether its leaves belong to the tree or not.\<close>

lemma scan_chain:
  assumes rep: "tree_rep n (bt, s) t" and t: "leaves t = (p, es, nx) # ts" and l: "linked ((p, es, nx) # ls) 0"
    and st: "list_all (leaf_stored (page_content s)) ls" and fuel: "n \<le> fuel" "length (leaf_entries (full_prefix ((p, es, nx) # ls))) < fuel"
  shows "\<exists>s'. scan_tree fuel (bt, s) = (Ok (map entry_pair (leaf_entries (full_prefix ((p, es, nx) # ls)))), bt, s') \<and>
    btree_count fuel (bt, s) = (Ok (length (leaf_entries (full_prefix ((p, es, nx) # ls)))), bt, s') \<and> same_store s s'"
proof -
  have a: "idle bt" "store_ok s" "stored (page_content s) t" "tree_wf t" "height_le n t" "tree_page t = bt_root_page bt"
    using rep by (auto simp: tree_rep_def)
  obtain s0 where s0: "read_node (tree_page t) (bt, s) = (Ok (node_of t), bt, s0)" "same_store s s0"
    using read_tree_step [OF a(1,2,4,3)] by blast
  have s0': "store_ok s0" "stored (page_content s0) t" using s0(2) a(3) by (simp_all add: same_store_def)
  obtain s1 where f: "first_leaf fuel (node_of t) (bt, s0) = (Ok (leaf_node p es nx), bt, s1)" "same_store s0 s1"
    using first_leaf_spec [OF a(1) s0' a(4,5) fuel(1)] t by auto
  have new: "btree_iterator_new fuel (bt, s) = (Ok \<lparr>it_current_leaf = Some (leaf_node p es nx), it_index = 0, it_started = False\<rparr>, bt, s1)"
    using s0(1) f(1) a(6) by (simp add: btree_iterator_new_def root_page_idle [OF a(1)])
  have ss: "same_store s s1" by (rule same_store_trans [OF s0(2) f(2)])
  obtain f' where f': "fuel = Suc f'" using fuel(2) by (cases fuel) auto
  show ?thesis
  proof (cases "es = []")
    case True
    then show ?thesis using new ss fresh_iterator [of p es nx]
      by (intro exI [of _ s1]) (simp add: scan_tree_def btree_count_def f' count_entries.simps [of "Suc f'"])
  next
    case False
    note re = rest_entries_first [OF False, of p nx ls]
    have fl: "length (rest_entries es 0 ls) < f'" using re fuel(2) f' by simp
    have st1: "store_ok s1" "list_all (leaf_stored (page_content s1)) ls" using st ss by (simp_all add: same_store_def)
    obtain s' where s': "scan f' (at_entry (p, es, nx) 0) (bt, s1) = (Ok (map entry_pair (rest_entries es 0 ls)), bt, s')" "same_store s1 s'"
      "\<forall>c. count_entries f' c (at_entry (p, es, nx) 0) (bt, s1) = (Ok (c + length (rest_entries es 0 ls)), bt, s')"
      using scan_spec [OF a(1) st1(1) l st1(2) fl] by blast
    have e: "iterator_entry (at_entry (p, es, nx) 0) = Some (entry_pair (es ! 0))" using False by (intro entry_at) simp
    show ?thesis unfolding re using new False fresh_iterator [of p es nx] s'(1,3) e same_store_trans [OF ss s'(2)]
      by (intro exI [of _ s']) (simp add: scan_tree_def btree_count_def f' count_entries.simps [of "Suc f'"])
  qed
qed

lemma scan_rep:
  assumes rep: "tree_rep n (bt, s) t" and l: "linked (leaves t) 0" and fuel: "n \<le> fuel" "length (leaf_entries (leaves t)) < fuel"
  shows "\<exists>s'. scan_tree fuel (bt, s) = (Ok (map entry_pair (leaf_entries (full_prefix (leaves t)))), bt, s') \<and>
    btree_count fuel (bt, s) = (Ok (length (leaf_entries (full_prefix (leaves t)))), bt, s') \<and> same_store s s'"
proof -
  have a: "stored (page_content s) t" "tree_wf t" "0 \<notin> set (tree_pages t)" using rep by (auto simp: tree_rep_def in_use_def)
  obtain p es nx ls where t: "leaves t = (p, es, nx) # ls" using leaves_nonempty [OF a(2)] by (cases "leaves t") auto
  have st: "list_all (leaf_stored (page_content s)) ls" using stored_leaves [OF a] t by simp
  have "length (leaf_entries (full_prefix (leaves t))) < fuel" using full_prefix_length [of "leaves t"] fuel(2) by simp
  then show ?thesis using scan_chain [OF rep t l [unfolded t] st fuel(1)] unfolding t by blast
qed

text \<open>The scan is complete while no leaf but the only one is empty, which insertions keep.\<close>

lemma tight_prefix: "tight ls \<Longrightarrow> leaf_entries (full_prefix ls) = leaf_entries ls"
proof -
  assume "tight ls"
  then consider "length ls = 1" | "list_all (\<lambda>(p, es, nx). es \<noteq> []) ls" by (auto simp: tight_def)
  then show ?thesis
  proof cases
    case 1
    then obtain l where "ls = [l]" by (cases ls) auto
    then show ?thesis by (cases l) simp
  next
    case 2
    then have "full_prefix ls = ls" by (auto simp: full_prefix_def takeWhile_eq_all_conv list_all_iff)
    then show ?thesis by simp
  qed
qed

lemma insert_tight:
  assumes "tight_state n m st" "n \<le> fuel" "room (n + 2 + z) (snd st)" "tree_key k"
  shows "\<exists>st'. btree_insert fuel k v st = (Ok (), st') \<and> tight_state (Suc n) (m(k \<mapsto> v)) st' \<and> room z (snd st')"
proof -
  obtain t where t: "tree_rep n (fst st, snd st) t" "linked (leaves t) 0" "tight (leaves t)" "tree_map t = m" "length (leaf_entries (leaves t)) \<le> n"
    using assms(1) by (auto simp: tight_state_def)
  obtain st' ls where i: "btree_insert fuel k v (fst st, snd st) = (Ok (), st')" "inserted \<lparr>en_key = k, en_value = v\<rparr> (leaves t) ls" "room z (snd st')"
    "ins_post (Suc n) (snd st) (set (tree_pages t)) ls st'"
    using insert_rep [OF t(1) assms(2,3,4)] by blast
  obtain t' where t': "tree_rep (Suc n) st' t'" "leaves t' = ls" using i(4) by (auto simp: ins_post_def)
  have "(\<lambda>k. lookup_entry k (leaf_entries ls)) = m(k \<mapsto> v)"
    using i(2) t(4) lookup_insert_entry [OF tree_rep_sorted [OF t(1)]] by (auto simp: inserted_def tree_map_def)
  then have "tree_map t' = m(k \<mapsto> v)" using t'(2) by (simp add: tree_map_def fun_eq_iff)
  moreover have "linked ls 0" "tight ls" using i(2) t(2,3) by (simp_all add: inserted_def)
  moreover have "length (leaf_entries ls) \<le> Suc n"
    using i(2) t(5) length_insert_entry [of "\<lparr>en_key = k, en_value = v\<rparr>" "leaf_entries (leaves t)"] by (simp add: inserted_def)
  ultimately have "tight_state (Suc n) (m(k \<mapsto> v)) st'" unfolding tight_state_def using t' by (intro exI [of _ t']) simp
  then show ?thesis using i(1,3) by auto
qed

lemma inserts_tight:
  "tight_state n m st \<Longrightarrow> n + length kvs \<le> fuel \<Longrightarrow> room (length kvs * (n + length kvs + 2) + y) (snd st) \<Longrightarrow> list_all (\<lambda>x. tree_key (fst x)) kvs \<Longrightarrow>
   \<exists>st'. run_ops (btree_insert fuel) (btree_delete fuel) (map (\<lambda>(k, v). Put k v) kvs) st = (replicate (length kvs) (Ok ()), st') \<and>
     tight_state (n + length kvs) (\<lambda>k. case map_of (rev kvs) k of Some v \<Rightarrow> Some v | None \<Rightarrow> m k) st' \<and> room y (snd st')"
proof (induction kvs arbitrary: n m st)
  case (Cons x kvs)
  obtain k v where x: "x = (k, v)" by (cases x)
  let ?z = "length kvs * (Suc n + length kvs + 2) + y"
  have "n + 2 + ?z \<le> length (x # kvs) * (n + length (x # kvs) + 2) + y" by simp
  then have sp: "room (n + 2 + ?z) (snd st)" by (rule room_mono [OF Cons.prems(3)])
  have k: "tree_key k" and n: "n \<le> fuel" using Cons.prems(2,4) x by simp_all
  obtain st1 where st1: "btree_insert fuel k v st = (Ok (), st1)" "tight_state (Suc n) (m(k \<mapsto> v)) st1" "room ?z (snd st1)"
    using insert_tight [OF Cons.prems(1) n sp k] by blast
  obtain st2 where st2: "run_ops (btree_insert fuel) (btree_delete fuel) (map (\<lambda>(k, v). Put k v) kvs) st1 = (replicate (length kvs) (Ok ()), st2)"
    "tight_state (Suc n + length kvs) (\<lambda>y. case map_of (rev kvs) y of Some v \<Rightarrow> Some v | None \<Rightarrow> (m(k \<mapsto> v)) y) st2" "room y (snd st2)"
    using Cons.IH [OF st1(2) _ st1(3)] Cons.prems(2,4) by auto
  have "(\<lambda>y. case map_of (rev kvs) y of Some v \<Rightarrow> Some v | None \<Rightarrow> (m(k \<mapsto> v)) y) = (\<lambda>y. case map_of (rev (x # kvs)) y of Some v \<Rightarrow> Some v | None \<Rightarrow> m y)"
    using x by (auto simp: map_add_def split: option.splits)
  then show ?case using st1(1) st2 x by (simp add: run_op_def)
qed simp

lemma new_tight:
  assumes "store_ok s" "room (Suc z) s"
  shows "\<exists>bt s1. btree_new s = (Ok bt, s1) \<and> tight_state 0 (\<lambda>_. None) (bt, s1) \<and> room z s1"
proof -
  obtain bt s1 p where n: "btree_new s = (Ok bt, s1)" "tree_state 0 {p} (\<lambda>_. None) (bt, s1)" "room z s1" using new_state [OF assms] by blast
  obtain t where t: "tree_rep 0 (bt, s1) t" "linked (leaves t) 0" "set (tree_pages t) = {p}" "tree_map t = (\<lambda>_. None)"
    using n(2) by (auto simp: tree_state_def)
  have tl: "\<exists>es nx. t = TLeaf p es nx" using t(1,3) by (cases t) (auto simp: tree_rep_def)
  moreover have "leaf_entries (leaves t) = []" using t(4) tl by (auto simp: tree_map_def fun_eq_iff lookup_None_iff)
  ultimately have "tight_state 0 (\<lambda>_. None) (bt, s1)" unfolding tight_state_def using t by (intro exI [of _ t]) (auto simp: tight_def)
  then show ?thesis using n(1,3) by blast
qed

lemma lookup_map_of: "lookup_entry k es = map_of (map entry_pair es) k"
  by (induction es) (auto simp: entry_pair_def)

text \<open>
  C5: After any sequence of insertions into a new B-tree, a scan with the iterator yields every key once, in ascending order, with the value inserted last,
  and \<open>count\<close> returns the number of keys.
\<close>

theorem btree_scan_sorted:
  assumes "store_ok s" "room (length kvs * (length kvs + 2) + 1) s" "list_all (\<lambda>x. tree_key (fst x)) kvs" "length kvs < fuel"
  shows "\<exists>bt s1 st' es. btree_new s = (Ok bt, s1) \<and>
    run_ops (btree_insert fuel) (btree_delete fuel) (map (\<lambda>(k, v). Put k v) kvs) (bt, s1) = (replicate (length kvs) (Ok ()), st') \<and>
    fst (scan_tree fuel st') = Ok es \<and> sorted_wrt (<) (map fst es) \<and> map_of es = map_of (rev kvs) \<and> fst (btree_count fuel st') = Ok (length es)"
proof -
  have "room (Suc (length kvs * (length kvs + 2))) s" using assms(2) by simp
  from new_tight [OF assms(1) this] obtain bt s1 where n: "btree_new s = (Ok bt, s1)" "tight_state 0 (\<lambda>_. None) (bt, s1)"
    "room (length kvs * (length kvs + 2)) s1" by blast
  from n(2) obtain st' where st': "run_ops (btree_insert fuel) (btree_delete fuel) (map (\<lambda>(k, v). Put k v) kvs) (bt, s1) = (replicate (length kvs) (Ok ()), st')"
    "tight_state (length kvs) (map_of (rev kvs)) st'"
    using inserts_tight [of 0 "\<lambda>_. None" "(bt, s1)" kvs fuel 0] assms(3,4) n(3) by (auto simp: option.case_eq_if cong: if_cong)
  obtain t' where t': "tree_rep (length kvs) (fst st', snd st') t'" "linked (leaves t') 0" "tight (leaves t')" "tree_map t' = map_of (rev kvs)"
    "length (leaf_entries (leaves t')) \<le> length kvs" using st'(2) by (auto simp: tight_state_def)
  let ?es = "map entry_pair (leaf_entries (leaves t'))"
  have f: "length kvs \<le> fuel" "length (leaf_entries (leaves t')) < fuel" using assms(4) t'(5) by simp_all
  from scan_rep [OF t'(1,2) f] have "fst (scan_tree fuel st') = Ok ?es" "fst (btree_count fuel st') = Ok (length ?es)"
    unfolding tight_prefix [OF t'(3)] by auto
  moreover have "map fst ?es = map en_key (leaf_entries (leaves t'))" by (simp add: entry_pair_def)
  then have "sorted_wrt (<) (map fst ?es)" using tree_rep_sorted [OF t'(1)] unfolding entries_sorted_def by (simp only:)
  moreover have "map_of ?es = map_of (rev kvs)" using t'(4) by (simp add: fun_eq_iff tree_map_def lookup_map_of)
  ultimately show ?thesis using n(1) st'(1) by blast
qed

theorem btree_scan_sorted_witness:
  "\<exists>s bt s1 st' es. pager_open None 10 False = Ok s \<and> btree_new s = (Ok bt, s1) \<and>
    run_ops (btree_insert 4) (btree_delete 4) (map (\<lambda>(k, v). Put k v) [(''b'', 7), (''a'', 9), (''b'', 3)]) (bt, s1) = (replicate 3 (Ok ()), st') \<and>
    fst (scan_tree 4 st') = Ok es \<and> sorted_wrt (<) (map fst es) \<and> map_of es ''b'' = Some 3 \<and> map_of es ''a'' = Some 9"
proof -
  let ?xs = "[(''b'', 7), (''a'', 9), (''b'', 3)] :: (string \<times> u64) list"
  obtain s where s: "pager_open None 10 False = Ok s" "store_ok s" "room 1000000 s" using new_store by blast
  have r: "room (length ?xs * (length ?xs + 2) + 1) s" by (rule room_mono [OF s(3)]) simp
  have k: "list_all (\<lambda>x. tree_key (fst x)) ?xs" by (simp add: tree_key_def rust_string_def as_bytes_def)
  have f: "length ?xs < 4" by simp
  obtain bt s1 st' es where h: "btree_new s = (Ok bt, s1)"
    "run_ops (btree_insert 4) (btree_delete 4) (map (\<lambda>(k, v). Put k v) ?xs) (bt, s1) = (replicate (length ?xs) (Ok ()), st')"
    "fst (scan_tree 4 st') = Ok es" "sorted_wrt (<) (map fst es)" "map_of es = map_of (rev ?xs)"
    using btree_scan_sorted [OF s(2) r k f] by blast
  have len: "length ?xs = 3" by simp
  show ?thesis using s(1) h(1) h(2) [unfolded len] h(3,4) h(5) by (intro exI [of _ s] exI [of _ bt] exI [of _ s1] exI [of _ st'] exI [of _ es]) simp
qed

text \<open>Deletions leave every leaf in place: after the keys \<open>ks\<close> are deleted, the leaves are pruned of them.\<close>

lemma deletes_rep:
  "tree_rep n st t \<Longrightarrow> linked (leaves t) 0 \<Longrightarrow> n \<le> fuel \<Longrightarrow> room 0 (snd st) \<Longrightarrow> distinct ks \<Longrightarrow> \<forall>k \<in> set ks. tree_map t k \<noteq> None \<Longrightarrow>
   \<exists>st' t'. run_ops (btree_insert fuel) (btree_delete fuel) (map Del ks) st = (replicate (length ks) (Ok ()), st') \<and> tree_rep n st' t' \<and>
     leaves t' = fold (\<lambda>k. map (prune k)) ks (leaves t)"
proof (induction ks arbitrary: st t)
  case (Cons k ks)
  have r: "tree_rep n (fst st, snd st) t" using Cons.prems(1) by simp
  obtain s' where d: "btree_delete fuel k (fst st, snd st) = (Ok (), fst st, s')" "room 0 s'"
    "ins_post n (snd st) (set (tree_pages t)) (map (prune k) (leaves t)) (fst st, s')"
    using delete_rep [OF r Cons.prems(3,4), of k] Cons.prems(6) by auto
  obtain t1 where t1: "tree_rep n (fst st, s') t1" "leaves t1 = map (prune k) (leaves t)" using d(3) by (auto simp: ins_post_def)
  have "linked (leaves t1) 0" using t1(2) Cons.prems(2) by (simp add: linked_prune)
  moreover have "\<forall>x \<in> set ks. tree_map t1 x \<noteq> None"
    using Cons.prems(5,6) t1(2) by (auto simp: tree_map_def leaf_entries_prune lookup_remove_key)
  moreover have "distinct ks" "room 0 (snd (fst st, s'))" using Cons.prems(5) d(2) by simp_all
  ultimately obtain st' t' where "run_ops (btree_insert fuel) (btree_delete fuel) (map Del ks) (fst st, s') = (replicate (length ks) (Ok ()), st')"
    "tree_rep n st' t'" "leaves t' = fold (\<lambda>k. map (prune k)) ks (leaves t1)"
    using Cons.IH [OF t1(1) _ Cons.prems(3)] by blast
  then show ?case using d(1) t1(2) by (auto simp: run_op_def)
qed auto

lemma fold_prune_Cons: "fold (\<lambda>k. map (prune k)) ks ((p, es, nx) # ls) = (p, fold remove_key ks es, nx) # fold (\<lambda>k. map (prune k)) ks ls"
  by (induction ks arbitrary: es ls) simp_all

lemma fold_remove_key: "fold remove_key ks es = filter (\<lambda>e. en_key e \<notin> set ks) es"
  by (induction ks arbitrary: es) (simp_all add: remove_key_def conj_commute)

lemma linked_fold_prune: "linked (fold (\<lambda>k. map (prune k)) ks ls) e = linked ls e"
  by (induction ks arbitrary: ls) (simp_all add: linked_prune)

lemma entries_fold_prune: "leaf_entries (fold (\<lambda>k. map (prune k)) ks ls) = fold remove_key ks (leaf_entries ls)"
  by (induction ks arbitrary: ls) (simp_all add: leaf_entries_prune)

lemma dom_tree_map: "dom (tree_map t) = en_key ` set (leaf_entries (leaves t))"
proof -
  have "tree_map t k \<noteq> None \<longleftrightarrow> k \<in> en_key ` set (leaf_entries (leaves t))" for k by (simp add: tree_map_def lookup_None_iff)
  then show ?thesis by blast
qed

lemma first_leaf_small: "tree_wf t \<Longrightarrow> leaves t = (p, es, nx) # ls \<Longrightarrow> length es \<le> BTREE_ORDER"
proof (induction t arbitrary: ls)
  case (TNode q ks ts)
  then obtain u us where u: "ts = u # us" by (cases ts) auto
  obtain l' ls' where l: "leaves u = l' # ls'" using leaves_nonempty [of u] TNode.prems(1) u by (cases "leaves u") auto
  then show ?case using TNode u by auto
qed simp

text \<open>
  C37: In a tree with more than \<open>BTREE_ORDER\<close> keys, there is a sequence of deletions, all of them successful, after which the iterator finds nothing and \<open>count\<close> returns 0,
  although there are keys left which \<open>search\<close> finds: the leaf that the deletions have emptied stays in the tree,
  and the iterator takes an empty leaf for the end of the chain.
\<close>

theorem scan_misses_keys:
  assumes "map_rep n m (bt, s)" "n \<le> fuel" "room 0 s" "card (dom m) > BTREE_ORDER" "card (dom m) < fuel"
  shows "\<exists>ks st' k v. run_ops (btree_insert fuel) (btree_delete fuel) (map Del ks) (bt, s) = (replicate (length ks) (Ok ()), st') \<and>
    fst (btree_search fuel k st') = Ok v \<and> fst (scan_tree fuel st') = Ok [] \<and> fst (btree_count fuel st') = Ok 0"
proof -
  obtain t where t: "tree_rep n (bt, s) t" "linked (leaves t) 0" "tree_map t = m" using assms(1) by (auto simp: map_rep_def tree_state_def)
  have wf: "tree_wf t" using t(1) by (simp add: tree_rep_def)
  obtain p es nx ls where l: "leaves t = (p, es, nx) # ls" using leaves_nonempty [OF wf] by (cases "leaves t") auto
  have so: "entries_sorted (leaf_entries (leaves t))" by (rule tree_rep_sorted [OF t(1)])
  have dist: "distinct (map en_key (leaf_entries (leaves t)))"
    using so strict_sorted_iff by (auto simp: entries_sorted_def)
  have dom: "dom m = set (map en_key (leaf_entries (leaves t)))" using dom_tree_map [of t] t(3) by simp
  then have card: "card (dom m) = length (leaf_entries (leaves t))" using distinct_card [OF dist] by simp
  let ?ks = "map en_key es"
  have dk: "distinct ?ks" "\<forall>k \<in> set ?ks. tree_map t k \<noteq> None" using dist l t(3) dom by (auto simp: domIff)
  have r0: "room 0 (snd (bt, s))" using assms(3) by simp
  obtain st' t' where d: "run_ops (btree_insert fuel) (btree_delete fuel) (map Del ?ks) (bt, s) = (replicate (length ?ks) (Ok ()), st')"
    "tree_rep n (fst st', snd st') t'" "leaves t' = fold (\<lambda>k. map (prune k)) ?ks (leaves t)"
    using deletes_rep [OF t(1,2) assms(2) r0 dk] by auto
  have "leaves t' = (p, [], nx) # fold (\<lambda>k. map (prune k)) ?ks ls"
    unfolding d(3) l fold_prune_Cons fold_remove_key by (simp add: filter_empty_conv)
  then have fp: "leaf_entries (full_prefix (leaves t')) = []" by simp
  have le: "leaf_entries (leaves t') = filter (\<lambda>e. en_key e \<notin> set ?ks) (leaf_entries (leaves t))"
    unfolding d(3) entries_fold_prune fold_remove_key ..
  have "length es < length (leaf_entries (leaves t))" using first_leaf_small [OF wf l] card assms(4) by simp
  then obtain e where e: "e \<in> set (leaf_entries ls)" unfolding l by (cases "leaf_entries ls") auto
  then have "en_key e \<notin> set ?ks" using dist l by (auto simp: image_iff)
  then have "e \<in> set (leaf_entries (leaves t'))" unfolding le l using e by simp
  then obtain v where v: "tree_map t' (en_key e) = Some v" using dom_tree_map [of t'] by (auto simp: dom_def)
  have "fst (btree_search fuel (en_key e) st') = Ok v" using search_rep [OF d(2) assms(2), of "en_key e"] v by auto
  moreover have "linked (leaves t') 0" unfolding d(3) linked_fold_prune by (rule t(2))
  moreover have "length (leaf_entries (leaves t')) < fuel" unfolding le using length_filter_le [of _ "leaf_entries (leaves t)"] card assms(5) order_le_less_trans by metis
  ultimately show ?thesis using d(1) scan_rep [OF d(2) _ assms(2)] fp by fastforce
qed

lemma fold_puts: "fold apply_op (map (\<lambda>k. Put k v) ks) m k = (if k \<in> set ks then Some v else m k)"
  by (induction ks arbitrary: m) auto

theorem scan_misses_keys_witness:
  "\<exists>s bt s1 ks st0 ds st' k v. pager_open None 10 False = Ok s \<and> btree_new s = (Ok bt, s1) \<and>
    run_ops (btree_insert 60) (btree_delete 60) (map (\<lambda>k. Put k 7) ks) (bt, s1) = (history_results (map (\<lambda>k. Put k 7) ks) (\<lambda>_. None), st0) \<and>
    run_ops (btree_insert 60) (btree_delete 60) (map Del ds) st0 = (replicate (length ds) (Ok ()), st') \<and>
    fst (btree_search 60 k st') = Ok v \<and> fst (scan_tree 60 st') = Ok [] \<and> fst (btree_count 60 st') = Ok 0"
proof -
  let ?ks = "map (\<lambda>i. replicate i CHR ''a'') [0..<51]"
  let ?xs = "map (\<lambda>k. Put k 7) ?ks"
  obtain s where s: "pager_open None 10 False = Ok s" "store_ok s" "room 1000000 s" using new_store by blast
  have "room (Suc 999999) s" using s(3) by simp
  from new_state [OF s(2) this] obtain bt s1 p where n: "btree_new s = (Ok bt, s1)" "tree_state 0 {p} (\<lambda>_. None) (bt, s1)" "room 999999 s1" by blast
  have rep: "map_rep 0 (\<lambda>_. None) (bt, s1)" using n(2) by (auto simp: map_rep_def)
  have "tree_key (replicate i CHR ''a'')" if "i < 51" for i
    using that utf8_valid_ascii [of i] by (simp add: tree_key_def rust_string_def as_bytes_def)
  then have k: "list_all (\<lambda>x. tree_key (op_key x)) ?xs" by (simp add: list_all_iff)
  have r: "room (length ?xs * (0 + length ?xs + 2) + 0) (snd (bt, s1))" using room_mono [OF n(3)] by simp
  have f: "0 + length ?xs \<le> 60" by simp
  obtain st0 where st0: "run_ops (btree_insert 60) (btree_delete 60) ?xs (bt, s1) = (history_results ?xs (\<lambda>_. None), st0)"
    "map_rep (0 + length ?xs) (fold apply_op ?xs (\<lambda>_. None)) st0" "room 0 (snd st0)"
    using bt.history [OF rep f r k] by blast
  have "dom (fold apply_op ?xs (\<lambda>_. None)) = set ?ks" unfolding dom_def fold_puts by (auto split: if_splits)
  moreover have "distinct ?ks" by (auto simp: distinct_map inj_on_def dest: arg_cong [of _ _ length])
  then have "card (set ?ks) = 51" using distinct_card [of ?ks] by simp
  ultimately have c: "card (dom (fold apply_op ?xs (\<lambda>_. None))) = 51" by simp
  have st0': "map_rep 51 (fold apply_op ?xs (\<lambda>_. None)) (fst st0, snd st0)" using st0(2) by simp
  obtain ds st' k v where "run_ops (btree_insert 60) (btree_delete 60) (map Del ds) st0 = (replicate (length ds) (Ok ()), st')"
    "fst (btree_search 60 k st') = Ok v" "fst (scan_tree 60 st') = Ok []" "fst (btree_count 60 st') = Ok 0"
    using scan_misses_keys [OF st0' _ st0(3), of 60] c by (auto simp: const_defs)
  then show ?thesis using s(1) n(1) st0(1) by blast
qed

subsection \<open>Several trees in one pager\<close>

text \<open>A tree whose pages are left alone still stands for the same map.\<close>

lemma tree_state_frame:
  assumes "tree_state n P m (bt, s)" "within s P0 s' P'" "P \<inter> P0 = {}" "store_ok s'"
  shows "tree_state n P m (bt, s')"
proof -
  obtain t where t: "tree_rep n (bt, s) t" "linked (leaves t) 0" "set (tree_pages t) = P" "tree_map t = m"
    using assms(1) by (auto simp: tree_state_def)
  have use: "P \<subseteq> in_use s" using t(1,3) by (simp add: tree_rep_def)
  have "page_content s' x = page_content s x" if "x \<in> set (tree_pages t)" for x
    using that use t(3) assms(2,3) by (auto simp: within_def)
  then have "stored (page_content s') t = stored (page_content s) t" by (rule stored_cong)
  moreover have "P \<subseteq> in_use s'" using use assms(2) by (auto simp: within_def)
  ultimately have "tree_rep n (bt, s') t" using t(1,3) assms(4) by (simp add: tree_rep_def)
  then show ?thesis unfolding tree_state_def using t(2-4) by blast
qed

lemma tree_state_store: "tree_state n P m (bt, s) \<Longrightarrow> store_ok s"
  by (auto simp: tree_state_def tree_rep_def)

text \<open>
  C7: Two B-trees in the same file do not disturb each other: an insertion into one of them succeeds, adds the entry to its map, allocates no page of the other, and leaves the map of the other
  as it was.
\<close>

theorem trees_independent:
  assumes "tree_state n P m (bt, s)" "tree_state i Q l (bt', s)" "P \<inter> Q = {}" "n \<le> fuel" "room (n + 2) s" "tree_key k"
  shows "\<exists>bt1 s1 P1. btree_insert fuel k v (bt, s) = (Ok (), bt1, s1) \<and> tree_state (Suc n) P1 (m(k \<mapsto> v)) (bt1, s1) \<and>
    tree_state i Q l (bt', s1) \<and> P1 \<inter> Q = {}"
proof -
  have r: "room (n + 2 + 0) s" using assms(5) by simp
  obtain bt1 s1 P1 where a: "btree_insert fuel k v (bt, s) = (Ok (), bt1, s1)" "tree_state (Suc n) P1 (m(k \<mapsto> v)) (bt1, s1)" "within s P s1 P1"
    using insert_state [OF assms(1,4) r assms(6), of v] by auto
  have q: "Q \<subseteq> in_use s" using assms(2) by (auto simp: tree_state_def tree_rep_def)
  have "Q \<inter> P = {}" using assms(3) by blast
  then have "tree_state i Q l (bt', s1)" by (rule tree_state_frame [OF assms(2) a(3) _ tree_state_store [OF a(2)]])
  moreover have "P1 \<inter> Q = {}" using a(3) q assms(3) by (auto simp: within_def)
  ultimately show ?thesis using a(1,2) by blast
qed

theorem trees_independent_witness:
  "\<exists>s bt s1 bt' s2 bt3 s3 P Q. pager_open None 10 False = Ok s \<and> btree_new s = (Ok bt, s1) \<and> btree_new s1 = (Ok bt', s2) \<and>
    btree_insert 0 ''a'' 9 (bt, s2) = (Ok (), bt3, s3) \<and> tree_state 1 P [''a'' \<mapsto> 9] (bt3, s3) \<and> tree_state 0 Q (\<lambda>_. None) (bt', s3) \<and> P \<inter> Q = {}"
proof -
  obtain s where s: "pager_open None 10 False = Ok s" "store_ok s" "room 1000000 s" using new_store by blast
  have "room (Suc 999999) s" using s(3) by simp
  from new_state [OF s(2) this] obtain bt s1 p where n: "btree_new s = (Ok bt, s1)" "tree_state 0 {p} (\<lambda>_. None) (bt, s1)" "room 999999 s1" by blast
  have "room (Suc 999998) s1" using n(3) by simp
  from new_state [OF tree_state_store [OF n(2)] this] obtain bt' s2 q where
    m: "btree_new s1 = (Ok bt', s2)" "tree_state 0 {q} (\<lambda>_. None) (bt', s2)" "room 999998 s2" "q \<notin> in_use s1" "within s1 {} s2 {q}" by blast
  have "p \<in> in_use s1" using n(2) by (auto simp: tree_state_def tree_rep_def)
  then have pq: "{p} \<inter> {q} = {}" using m(4) by auto
  have t: "tree_state 0 {p} (\<lambda>_. None) (bt, s2)" by (rule tree_state_frame [OF n(2) m(5) _ tree_state_store [OF m(2)]]) simp
  have r: "room (0 + 2) s2" by (rule room_mono [OF m(3)]) simp
  have k: "tree_key ''a''" by (simp add: tree_key_def rust_string_def as_bytes_def)
  obtain bt3 s3 P where "btree_insert 0 ''a'' 9 (bt, s2) = (Ok (), bt3, s3)" "tree_state (Suc 0) P [''a'' \<mapsto> 9] (bt3, s3)"
    "tree_state 0 {q} (\<lambda>_. None) (bt', s3)" "P \<inter> {q} = {}"
    using trees_independent [OF t m(2) pq _ r k] by blast
  then show ?thesis using s(1) n(1) m(1) by (simp only: One_nat_def) blast
qed

end
