(* ===== verification/Tx_Btree.thy ===== *)
theory Tx_Btree
  imports Btree_Map Document
begin

text \<open>
  \<open>src/core/tx_btree.rs\<close>: the B-tree of a transaction, which never changes a page that existed before. A node is copied to a new page when it is
  first written, and the nodes on the path to the root are copied after it, so that the old root still
  leads to the old tree.

  The state of a method is the tree, the write buffer \<open>tx_writes\<close> of the transaction, which the trees of a transaction share, and the pager. As
  for \<open>Btree\<close>, walks down the tree take a bound on the number of steps.
\<close>

record tx_btree =
  tb_snapshot_root :: page_num
  tb_modified_root :: page_num
  tb_cow_pages :: "(page_num, page_num) hmap"
  tb_new_pages :: "(page_num, bool) hmap"

type_synonym page_writes = "(page_num, bytes) hmap"

type_synonym tb_state = "tx_btree \<times> page_writes \<times> pager"

definition tb_pager :: "(pager \<Rightarrow> 'a res \<times> pager) \<Rightarrow> tb_state \<Rightarrow> 'a res \<times> tb_state" where
  "tb_pager f st = (case st of (tb, w, s) \<Rightarrow> case f s of (r, s) \<Rightarrow> (r, tb, w, s))"

definition tb_upd :: "(tx_btree \<Rightarrow> tx_btree) \<Rightarrow> tb_state \<Rightarrow> tb_state" where
  "tb_upd f st = (f (fst st), snd st)"

definition tx_btree_new :: "page_num \<Rightarrow> tx_btree" where
  "tx_btree_new snapshot_root =
     \<lparr>tb_snapshot_root = snapshot_root, tb_modified_root = 0, tb_cow_pages = [], tb_new_pages = []\<rparr>"

definition get_current_root :: "tx_btree \<Rightarrow> page_num" where
  "get_current_root tb = (if tb_modified_root tb \<noteq> 0 then tb_modified_root tb else tb_snapshot_root tb)"

definition tx_read_node :: "page_num \<Rightarrow> tb_state \<Rightarrow> btree_node res \<times> tb_state" where
  "tx_read_node page_num st =
     (case st of (tb, w, s) \<Rightarrow>
      let actual_page = (case hm_get (tb_cow_pages tb) page_num of Some p \<Rightarrow> p | None \<Rightarrow> page_num)
      in and_then (tb_pager (fetch_page w actual_page) st) (\<lambda>data st. (deserialize_node actual_page data, st)))"

text \<open>The page that \<open>write_node\<close> writes to.\<close>

definition tx_cow_target :: "page_num \<Rightarrow> tb_state \<Rightarrow> page_num res \<times> tb_state" where
  "tx_cow_target page_num st =
     (let tb = fst st in
      if hm_contains (tb_new_pages tb) page_num then (Ok page_num, st)
      else case hm_get (tb_cow_pages tb) page_num of
        Some existing_cow \<Rightarrow> (Ok existing_cow, st)
      | None \<Rightarrow>
          let is_root = (page_num = get_current_root tb) in
          and_then (tb_pager (if is_root then alloc_page_minimum (get_current_root tb) else alloc_page) st) (\<lambda>new_page st.
          (Ok new_page, tb_upd (\<lambda>tb.
             let tb = tb\<lparr>tb_cow_pages := hm_insert page_num new_page (tb_cow_pages tb),
                         tb_new_pages := hm_insert new_page True (tb_new_pages tb)\<rparr>
             in if is_root then tb\<lparr>tb_modified_root := new_page\<rparr> else tb) st)))"

definition tx_write_node :: "btree_node \<Rightarrow> tb_state \<Rightarrow> page_num res \<times> tb_state" where
  "tx_write_node node st =
     and_then (tx_cow_target (bn_page_num node) st) (\<lambda>page_num st.
     and_then (no_panic (serialize_node_into (node\<lparr>bn_page_num := page_num\<rparr>) (replicate PAGE_SIZE 0)), st) (\<lambda>data st.
     let st = (case st of (tb, w, s) \<Rightarrow> (tb, hm_insert page_num data w, s)) in
     and_then (tb_pager (write_page_transfer page_num data) st) (\<lambda>_ st. (Ok page_num, st))))"

definition tb_create_empty :: "page_writes \<times> pager \<Rightarrow> tx_btree res \<times> page_writes \<times> pager" where
  "tb_create_empty ws =
     (case ws of (w, s) \<Rightarrow>
      case alloc_page s of
        (Ok root_page, s) \<Rightarrow>
          (case tx_write_node (new_leaf root_page) ((tx_btree_new root_page)\<lparr>tb_new_pages := [(root_page, True)]\<rparr>, w, s) of
             (Ok _, tb, w, s) \<Rightarrow> (Ok tb, w, s) | (Err e, tb, w, s) \<Rightarrow> (Err e, w, s) | (Panic, tb, w, s) \<Rightarrow> (Panic, w, s))
      | (Err e, s) \<Rightarrow> (Err e, w, s) | (Panic, s) \<Rightarrow> (Panic, w, s))"


subsection \<open>Finding\<close>

definition tx_find_child :: "btree_node \<Rightarrow> string \<Rightarrow> page_num res" where
  "tx_find_child node key =
     (let i = child_index 0 key (bn_keys node) in
      if i < length (bn_keys node) then no_panic (if i < length (bn_children node) then Some (bn_children node ! i) else None)
      else no_panic (if bn_children node = [] then None else Some (last (bn_children node))))"

fun tx_find_leaf :: "nat \<Rightarrow> btree_node \<Rightarrow> string \<Rightarrow> page_num list \<Rightarrow> tb_state \<Rightarrow> (btree_node \<times> page_num list) res \<times> tb_state" where
  "tx_find_leaf fuel node key path st =
     (if bn_node_type node = LeafNode then (Ok (node, path), st)
      else case fuel of 0 \<Rightarrow> (Panic, st)
        | Suc fuel \<Rightarrow> and_then (tx_find_child node key, st) (\<lambda>child_page st.
            and_then (tx_read_node child_page st) (\<lambda>node st. tx_find_leaf fuel node key (path @ [child_page]) st)))"

declare tx_find_leaf.simps [simp del]

fun tx_search_down :: "nat \<Rightarrow> btree_node \<Rightarrow> string \<Rightarrow> tb_state \<Rightarrow> btree_node res \<times> tb_state" where
  "tx_search_down fuel node key st =
     (if bn_node_type node = LeafNode then (Ok node, st)
      else case fuel of 0 \<Rightarrow> (Panic, st)
        | Suc fuel \<Rightarrow> and_then (tx_find_child node key, st) (\<lambda>child_page st.
            and_then (tx_read_node child_page st) (\<lambda>node st. tx_search_down fuel node key st)))"

declare tx_search_down.simps [simp del]

definition not_in_tree :: "string \<Rightarrow> error" where
  "not_in_tree doc_id = DocumentNotFound '''' doc_id"

definition tx_search :: "nat \<Rightarrow> string \<Rightarrow> tb_state \<Rightarrow> page_num res \<times> tb_state" where
  "tx_search fuel doc_id st =
     and_then (tx_read_node (get_current_root (fst st)) st) (\<lambda>node st.
     and_then (tx_search_down fuel node doc_id st) (\<lambda>node st.
     (case find_entry doc_id (bn_entries node) of Some v \<Rightarrow> Ok v | None \<Rightarrow> Err (not_in_tree doc_id), st)))"

fun has_prefix_in_node :: "nat \<Rightarrow> page_num \<Rightarrow> string \<Rightarrow> tb_state \<Rightarrow> bool res \<times> tb_state"
  and has_prefix_children :: "nat \<Rightarrow> page_num list \<Rightarrow> string \<Rightarrow> tb_state \<Rightarrow> bool res \<times> tb_state" where
  "has_prefix_in_node 0 page_num pre st = (Panic, st)"
| "has_prefix_in_node (Suc fuel) page_num pre st =
     (if page_num = 0 then (Ok False, st)
      else and_then (tx_read_node page_num st) (\<lambda>node st.
        if bn_node_type node = LeafNode then (Ok (list_ex (\<lambda>e. take (length pre) (en_key e) = pre) (bn_entries node)), st)
        else has_prefix_children fuel (bn_children node) pre st))"
| "has_prefix_children fuel [] pre st = (Ok False, st)"
| "has_prefix_children fuel (c # cs) pre st =
     and_then (has_prefix_in_node fuel c pre st) (\<lambda>found st.
     if found then (Ok True, st) else has_prefix_children fuel cs pre st)"

definition has_prefix :: "nat \<Rightarrow> string \<Rightarrow> tb_state \<Rightarrow> bool res \<times> tb_state" where
  "has_prefix fuel pre st = has_prefix_in_node fuel (get_current_root (fst st)) pre st"


subsection \<open>The path to the root\<close>

text \<open>Only the first child equal to the old page is looked at; the loop goes on when it has no copy, with no effect.\<close>

fun tx_update_path :: "nat \<Rightarrow> page_num list \<Rightarrow> tb_state \<Rightarrow> unit res \<times> tb_state" where
  "tx_update_path 0 path st = (Ok (), st)"
| "tx_update_path (Suc i) path st =
     and_then (tx_read_node (path ! i) st) (\<lambda>parent st.
     let old_child_page = path ! Suc i in
     case hm_get (tb_cow_pages (fst st)) old_child_page of
       Some new_child_page \<Rightarrow>
         if old_child_page \<in> set (bn_children parent) then
           and_then (tx_write_node (parent\<lparr>bn_children := replace_child old_child_page new_child_page (bn_children parent)\<rparr>) st)
             (\<lambda>_ st. tx_update_path i path st)
         else tx_update_path i path st
     | None \<Rightarrow> tx_update_path i path st)"

definition tx_update_path_after_modification :: "page_num list \<Rightarrow> tb_state \<Rightarrow> unit res \<times> tb_state" where
  "tx_update_path_after_modification path st =
     (if length path \<le> 1 then (Ok (), st) else tx_update_path (length path - 1) path st)"

definition tx_update :: "nat \<Rightarrow> string \<Rightarrow> page_num \<Rightarrow> tb_state \<Rightarrow> unit res \<times> tb_state" where
  "tx_update fuel doc_id new_page_num st =
     (let root_page = get_current_root (fst st) in
      and_then (tx_read_node root_page st) (\<lambda>node st.
      and_then (tx_find_leaf fuel node doc_id [root_page] st) (\<lambda>(leaf, path) st.
      case replace_value \<lparr>en_key = doc_id, en_value = new_page_num\<rparr> (bn_entries leaf) of
        None \<Rightarrow> (Err (not_in_tree doc_id), st)
      | Some es \<Rightarrow> and_then (tx_write_node (leaf\<lparr>bn_entries := es\<rparr>) st) (\<lambda>_ st.
          tx_update_path_after_modification path st))))"

definition tx_delete :: "nat \<Rightarrow> string \<Rightarrow> tb_state \<Rightarrow> unit res \<times> tb_state" where
  "tx_delete fuel doc_id st =
     (let root_page = get_current_root (fst st) in
      and_then (tx_read_node root_page st) (\<lambda>node st.
      and_then (tx_find_leaf fuel node doc_id [root_page] st) (\<lambda>(leaf, path) st.
      let es = filter (\<lambda>e. en_key e \<noteq> doc_id) (bn_entries leaf) in
      if length es = length (bn_entries leaf) then (Err (not_in_tree doc_id), st)
      else and_then (tx_write_node (leaf\<lparr>bn_entries := es, bn_num_keys := word_of_nat (length es)\<rparr>) st) (\<lambda>_ st.
        tx_update_path_after_modification path st))))"


subsection \<open>Inserting\<close>

definition tx_create_new_root :: "page_num \<Rightarrow> page_num \<Rightarrow> string \<Rightarrow> tb_state \<Rightarrow> unit res \<times> tb_state" where
  "tx_create_new_root left right key st =
     and_then (tb_pager (alloc_page_minimum (get_current_root (fst st))) st) (\<lambda>new_root_page st.
     let st = tb_upd (\<lambda>tb. tb\<lparr>tb_new_pages := hm_insert new_root_page True (tb_new_pages tb)\<rparr>) st;
         new_root = (new_internal new_root_page)\<lparr>bn_keys := [key], bn_children := [left, right], bn_num_keys := 1\<rparr>
     in and_then (tx_write_node new_root st) (\<lambda>actual_root_page st.
        (Ok (), tb_upd (\<lambda>tb. tb\<lparr>tb_modified_root := actual_root_page\<rparr>) st)))"

function tx_insert_into_parent :: "btree_node \<Rightarrow> string \<Rightarrow> page_num \<Rightarrow> page_num list \<Rightarrow> tb_state \<Rightarrow> unit res \<times> tb_state"
  and tx_split_internal :: "btree_node \<Rightarrow> page_num list \<Rightarrow> tb_state \<Rightarrow> unit res \<times> tb_state" where
  "tx_insert_into_parent parent key right_child path st =
     (let insert_pos = insert_index 0 key (bn_keys parent) (length (bn_keys parent)) in
      and_then (no_panic (vec_insert insert_pos key (bn_keys parent)), st) (\<lambda>keys st.
      and_then (no_panic (vec_insert (insert_pos + 1) right_child (bn_children parent)), st) (\<lambda>children st.
      let parent = parent\<lparr>bn_keys := keys, bn_children := children, bn_num_keys := word_of_nat (length keys)\<rparr>
      in if length (bn_keys parent) > BTREE_ORDER then tx_split_internal parent path st
         else and_then (tx_write_node parent st) (\<lambda>_ st. tx_update_path_after_modification path st))))"
| "tx_split_internal node path st =
     (let mid = length (bn_keys node) div 2 in
      and_then (tb_pager alloc_page st) (\<lambda>new_node_page st.
      let st = tb_upd (\<lambda>tb. tb\<lparr>tb_new_pages := hm_insert new_node_page True (tb_new_pages tb)\<rparr>) st in
      and_then (no_panic (if mid < length (bn_keys node) then Some (bn_keys node ! mid) else None), st) (\<lambda>promote_key st.
      and_then (no_panic (if mid + 1 \<le> length (bn_children node) then Some () else None), st) (\<lambda>_ st.
      let new_node = (new_internal new_node_page)\<lparr>bn_keys := drop (mid + 1) (bn_keys node),
            bn_children := drop (mid + 1) (bn_children node), bn_num_keys := word_of_nat (length (drop (mid + 1) (bn_keys node)))\<rparr>;
          keys = butlast (take (mid + 1) (bn_keys node));
          node = node\<lparr>bn_keys := keys, bn_children := take (mid + 1) (bn_children node), bn_num_keys := word_of_nat (length keys)\<rparr>
      in and_then (tx_write_node node st) (\<lambda>_ st.
         and_then (tx_write_node new_node st) (\<lambda>_ st.
         if length path = 1 then tx_create_new_root (bn_page_num node) (bn_page_num new_node) promote_key st
         else if length path < 2 then (Panic, st)
         else and_then (tx_read_node (path ! (length path - 2)) st) (\<lambda>parent st.
           let old_node_page = path ! (length path - 1);
               parent = (if old_node_page \<noteq> bn_page_num node
                 then parent\<lparr>bn_children := replace_child old_node_page (bn_page_num node) (bn_children parent)\<rparr> else parent)
           in tx_insert_into_parent parent promote_key (bn_page_num new_node) (butlast path) st)))))))"
  by pat_completeness auto
termination
  by (relation "measure (\<lambda>x. case x of Inl (_, _, _, path, _) \<Rightarrow> 2 * length path + 1 | Inr (_, path, _) \<Rightarrow> 2 * length path)") auto

declare tx_insert_into_parent.simps [simp del] tx_split_internal.simps [simp del]

definition tx_split_leaf :: "btree_node \<Rightarrow> page_num list \<Rightarrow> tb_state \<Rightarrow> unit res \<times> tb_state" where
  "tx_split_leaf leaf path st =
     (let mid = length (bn_entries leaf) div 2 in
      and_then (tb_pager alloc_page st) (\<lambda>right_page st.
      let st = tb_upd (\<lambda>tb. tb\<lparr>tb_new_pages := hm_insert right_page True (tb_new_pages tb)\<rparr>) st;
          next_page = (if bn_next_leaf leaf \<noteq> 0
            then (case hm_get (tb_cow_pages (fst st)) (bn_next_leaf leaf) of Some p \<Rightarrow> p | None \<Rightarrow> bn_next_leaf leaf) else 0);
          right_entries = drop mid (bn_entries leaf);
          right = (new_leaf right_page)\<lparr>bn_entries := right_entries, bn_num_keys := word_of_nat (length right_entries), bn_next_leaf := next_page\<rparr>;
          left_entries = take mid (bn_entries leaf);
          leaf = leaf\<lparr>bn_entries := left_entries, bn_num_keys := word_of_nat (length left_entries), bn_next_leaf := right_page\<rparr>
      in case right_entries of [] \<Rightarrow> (Panic, st)
      | e # _ \<Rightarrow>
        let split_key = en_key e in
        and_then (tx_write_node leaf st) (\<lambda>actual_left_page st.
        and_then (tx_write_node right st) (\<lambda>actual_right_page st.
        if length path = 1 then tx_create_new_root actual_left_page actual_right_page split_key st
        else if length path < 2 then (Panic, st)
        else and_then (tx_read_node (path ! (length path - 2)) st) (\<lambda>parent st.
          let old_leaf_page = path ! (length path - 1);
              parent = (if old_leaf_page \<noteq> actual_left_page
                then parent\<lparr>bn_children := replace_child old_leaf_page actual_left_page (bn_children parent)\<rparr> else parent)
          in tx_insert_into_parent parent split_key actual_right_page (butlast path) st)))))"

text \<open>The loop of \<open>insert\<close> over the entries: the value of an equal key is replaced, else the entry goes before the first greater key.\<close>

fun place_entry :: "leaf_entry \<Rightarrow> leaf_entry list \<Rightarrow> leaf_entry list" where
  "place_entry x [] = [x]"
| "place_entry x (e # es) =
     (if en_key e = en_key x then e\<lparr>en_value := en_value x\<rparr> # es
      else if en_key x < en_key e then x # e # es
      else e # place_entry x es)"

fun is_page_in_tree :: "nat \<Rightarrow> btree_node \<Rightarrow> page_num \<Rightarrow> tb_state \<Rightarrow> bool res \<times> tb_state"
  and is_page_in_children :: "nat \<Rightarrow> page_num list \<Rightarrow> page_num \<Rightarrow> tb_state \<Rightarrow> bool res \<times> tb_state" where
  "is_page_in_tree 0 node target_page st = (Panic, st)"
| "is_page_in_tree (Suc fuel) node target_page st =
     (if bn_page_num node = target_page then (Ok True, st)
      else if bn_node_type node = InternalNode then is_page_in_children fuel (bn_children node) target_page st
      else (Ok False, st))"
| "is_page_in_children fuel [] target_page st = (Ok False, st)"
| "is_page_in_children fuel (c # cs) target_page st =
     (case tx_read_node c st of
        (Panic, st) \<Rightarrow> (Panic, st)
      | (Err _, st) \<Rightarrow> is_page_in_children fuel cs target_page st
      | (Ok child, st) \<Rightarrow> and_then (is_page_in_tree fuel child target_page st) (\<lambda>found st.
          if found then (Ok True, st) else is_page_in_children fuel cs target_page st))"

fun find_next_leaf_by_key :: "nat \<Rightarrow> btree_node \<Rightarrow> string \<Rightarrow> tb_state \<Rightarrow> page_num option res \<times> tb_state"
  and next_leaf_in_children :: "nat \<Rightarrow> page_num list \<Rightarrow> string \<Rightarrow> tb_state \<Rightarrow> page_num option res \<times> tb_state" where
  "find_next_leaf_by_key 0 node key st = (Panic, st)"
| "find_next_leaf_by_key (Suc fuel) node key st =
     (if bn_node_type node = LeafNode then
        (Ok (case bn_entries node of e # _ \<Rightarrow> if en_key e > key then Some (bn_page_num node) else None | [] \<Rightarrow> None), st)
      else let i = child_index 0 key (bn_keys node) in
        if i < length (bn_keys node) then next_leaf_in_children fuel (drop i (bn_children node)) key st
        else and_then (no_panic (if bn_children node = [] then None else Some (last (bn_children node))), st) (\<lambda>c st.
          case tx_read_node c st of (Ok child, st) \<Rightarrow> find_next_leaf_by_key fuel child key st
          | (Err _, st) \<Rightarrow> (Ok None, st) | (Panic, st) \<Rightarrow> (Panic, st)))"
| "next_leaf_in_children fuel [] key st = (Ok None, st)"
| "next_leaf_in_children fuel (c # cs) key st =
     (case tx_read_node c st of
        (Panic, st) \<Rightarrow> (Panic, st)
      | (Err _, st) \<Rightarrow> next_leaf_in_children fuel cs key st
      | (Ok child, st) \<Rightarrow> and_then (find_next_leaf_by_key fuel child key st) (\<lambda>found st.
          case found of Some p \<Rightarrow> (Ok (Some p), st) | None \<Rightarrow> next_leaf_in_children fuel cs key st))"

definition find_correct_next_leaf :: "nat \<Rightarrow> btree_node \<Rightarrow> btree_node \<Rightarrow> tb_state \<Rightarrow> page_num option res \<times> tb_state" where
  "find_correct_next_leaf fuel root leaf st =
     (if bn_entries leaf = [] then (Ok None, st)
      else find_next_leaf_by_key fuel root (en_key (last (bn_entries leaf))) st)"

fun find_any_leaf_path :: "nat \<Rightarrow> btree_node \<Rightarrow> page_num \<Rightarrow> page_num list \<Rightarrow> tb_state \<Rightarrow> page_num list option res \<times> tb_state"
  and any_leaf_path_children :: "nat \<Rightarrow> page_num list \<Rightarrow> page_num \<Rightarrow> page_num list \<Rightarrow> tb_state \<Rightarrow> page_num list option res \<times> tb_state" where
  "find_any_leaf_path 0 node target_leaf path st = (Panic, st)"
| "find_any_leaf_path (Suc fuel) node target_leaf path st =
     (if bn_node_type node = LeafNode then (Ok (if bn_page_num node = target_leaf then Some path else None), st)
      else any_leaf_path_children fuel (bn_children node) target_leaf path st)"
| "any_leaf_path_children fuel [] target_leaf path st = (Ok None, st)"
| "any_leaf_path_children fuel (c # cs) target_leaf path st =
     (case tx_read_node c st of
        (Panic, st) \<Rightarrow> (Panic, st)
      | (Err _, st) \<Rightarrow> (Ok None, st)
      | (Ok child, st) \<Rightarrow> and_then (find_any_leaf_path fuel child target_leaf (path @ [c]) st) (\<lambda>found st.
          case found of Some p \<Rightarrow> (Ok (Some p), st) | None \<Rightarrow> any_leaf_path_children fuel cs target_leaf path st))"

fun tx_first_leaf :: "nat \<Rightarrow> btree_node \<Rightarrow> tb_state \<Rightarrow> btree_node res \<times> tb_state" where
  "tx_first_leaf fuel node st =
     (if bn_node_type node = LeafNode then (Ok node, st)
      else case bn_children node of [] \<Rightarrow> (Panic, st)
      | c # _ \<Rightarrow> (case fuel of 0 \<Rightarrow> (Panic, st) | Suc fuel \<Rightarrow> and_then (tx_read_node c st) (\<lambda>node st. tx_first_leaf fuel node st)))"

declare tx_first_leaf.simps [simp del]

text \<open>The loop of \<open>update_predecessor_next_leaf\<close> along the chain of leaves; \<open>left\<close> bounds its length.\<close>

fun predecessor_loop :: "nat \<Rightarrow> nat \<Rightarrow> btree_node \<Rightarrow> page_num \<Rightarrow> page_num \<Rightarrow> page_num \<Rightarrow> page_num \<Rightarrow> tb_state \<Rightarrow> unit res \<times> tb_state" where
  "predecessor_loop fuel 0 root root_page old_page new_page current_page st = (Panic, st)"
| "predecessor_loop fuel (Suc left) root root_page old_page new_page current_page st =
     and_then (tx_read_node current_page st) (\<lambda>leaf st.
     if bn_next_leaf leaf = old_page then
       and_then (find_any_leaf_path fuel root (bn_page_num leaf) [root_page] st) (\<lambda>found st.
       case found of None \<Rightarrow> (Err (Corruption ''BTree'' (bn_page_num leaf) ''Could not find predecessor path before COW''), st)
       | Some pred_path \<Rightarrow>
         and_then (tx_write_node (leaf\<lparr>bn_next_leaf := new_page\<rparr>) st) (\<lambda>new_pred_page st.
         if new_pred_page \<noteq> bn_page_num leaf then tx_update_path_after_modification pred_path st else (Ok (), st)))
     else if bn_next_leaf leaf = 0 then (Ok (), st)
     else predecessor_loop fuel left root root_page old_page new_page (bn_next_leaf leaf) st)"

definition update_predecessor_next_leaf :: "nat \<Rightarrow> page_num \<Rightarrow> page_num \<Rightarrow> tb_state \<Rightarrow> unit res \<times> tb_state" where
  "update_predecessor_next_leaf fuel old_page new_page st =
     (let root_page = get_current_root (fst st) in
      and_then (tx_read_node root_page st) (\<lambda>root st.
      if bn_node_type root = LeafNode then predecessor_loop fuel fuel root root_page old_page new_page root_page st
      else and_then (tx_first_leaf fuel root st) (\<lambda>node st.
        predecessor_loop fuel fuel root root_page old_page new_page (bn_page_num node) st)))"

text \<open>A leaf whose next leaf is no longer in the tree is linked to the one that follows it there.\<close>

definition repair_next_leaf :: "nat \<Rightarrow> btree_node \<Rightarrow> tb_state \<Rightarrow> btree_node res \<times> tb_state" where
  "repair_next_leaf fuel leaf st =
     (if bn_next_leaf leaf = 0 then (Ok leaf, st)
      else and_then (tx_read_node (get_current_root (fst st)) st) (\<lambda>root st.
        if bn_node_type root = InternalNode then
          and_then (is_page_in_tree fuel root (bn_next_leaf leaf) st) (\<lambda>next_leaf_in_tree st.
          if next_leaf_in_tree then (Ok leaf, st)
          else and_then (find_correct_next_leaf fuel root leaf st) (\<lambda>correct_next st.
            (Ok (case correct_next of Some p \<Rightarrow> leaf\<lparr>bn_next_leaf := p\<rparr> | None \<Rightarrow> leaf), st)))
        else (Ok leaf, st)))"

definition tx_insert :: "nat \<Rightarrow> string \<Rightarrow> page_num \<Rightarrow> tb_state \<Rightarrow> unit res \<times> tb_state" where
  "tx_insert fuel doc_id page_num st =
     (let root_page = get_current_root (fst st) in
      and_then (tx_read_node root_page st) (\<lambda>node st.
      and_then (tx_find_leaf fuel node doc_id [root_page] st) (\<lambda>(leaf, path) st.
      let es = place_entry \<lparr>en_key = doc_id, en_value = page_num\<rparr> (bn_entries leaf);
          leaf = leaf\<lparr>bn_entries := es, bn_num_keys := word_of_nat (length es)\<rparr>
      in if length es > BTREE_ORDER then tx_split_leaf leaf path st
         else and_then (repair_next_leaf fuel leaf st) (\<lambda>leaf st.
           and_then (tx_write_node leaf st) (\<lambda>actual_page st.
           if actual_page \<noteq> bn_page_num leaf then
             (case update_predecessor_next_leaf fuel (bn_page_num leaf) actual_page st of
                (Panic, st) \<Rightarrow> (Panic, st)
              | (_, st) \<Rightarrow> tx_update_path_after_modification path st)
           else tx_update_path_after_modification path st)))))"


subsection \<open>Iterating\<close>

fun tx_iterator_leaf :: "nat \<Rightarrow> btree_node \<Rightarrow> tb_state \<Rightarrow> btree_node res \<times> tb_state" where
  "tx_iterator_leaf fuel node st =
     (if bn_node_type node = LeafNode then (Ok node, st)
      else case bn_children node of [] \<Rightarrow> (Err (Other ''internal node has no children''), st)
      | c # _ \<Rightarrow> (case fuel of 0 \<Rightarrow> (Panic, st) | Suc fuel \<Rightarrow> and_then (tx_read_node c st) (\<lambda>node st. tx_iterator_leaf fuel node st)))"

declare tx_iterator_leaf.simps [simp del]

definition tx_iterator_new :: "nat \<Rightarrow> tb_state \<Rightarrow> btree_iterator res \<times> tb_state" where
  "tx_iterator_new fuel st =
     and_then (tx_read_node (get_current_root (fst st)) st) (\<lambda>node st.
     and_then (tx_iterator_leaf fuel node st) (\<lambda>node st.
     (Ok \<lparr>it_current_leaf = Some node, it_index = 0, it_started = False\<rparr>, st)))"

text \<open>The leaf after the last key of the current one, found from the root; an error on the way ends the scan.\<close>

definition next_by_key :: "nat \<Rightarrow> btree_node \<Rightarrow> btree_node \<Rightarrow> tb_state \<Rightarrow> btree_node option res \<times> tb_state" where
  "next_by_key fuel root cur st =
     (if bn_entries cur = [] then (Ok None, st)
      else and_then (find_next_leaf_by_key fuel root (en_key (last (bn_entries cur))) st) (\<lambda>found st.
        case found of None \<Rightarrow> (Ok None, st)
        | Some page \<Rightarrow> (case tx_read_node page st of (Ok n, st) \<Rightarrow> (Ok (Some n), st) | (Err _, st) \<Rightarrow> (Ok None, st) | (Panic, st) \<Rightarrow> (Panic, st))))"

text \<open>\<open>next_leaf\<close> of \<open>TxBTreeIterator::next\<close>; \<open>None\<close> inside \<open>Ok\<close> ends the scan.\<close>

definition tx_next_leaf :: "nat \<Rightarrow> btree_node \<Rightarrow> tb_state \<Rightarrow> btree_node option res \<times> tb_state" where
  "tx_next_leaf fuel cur st =
     (case (if bn_next_leaf cur \<noteq> 0 then tx_read_node (bn_next_leaf cur) st else (Err NotFound, st)) of
        (Panic, st) \<Rightarrow> (Panic, st)
      | (next_leaf_result, st) \<Rightarrow>
          (case tx_read_node (get_current_root (fst st)) st of
             (Panic, st) \<Rightarrow> (Panic, st)
           | (Err _, st) \<Rightarrow> (Ok None, st)
           | (Ok root, st) \<Rightarrow>
               (case next_leaf_result of
                  Ok leaf \<Rightarrow> and_then (is_page_in_tree fuel root (bn_page_num leaf) st) (\<lambda>in_tree st.
                    if in_tree then (Ok (Some leaf), st) else next_by_key fuel root cur st)
                | _ \<Rightarrow> next_by_key fuel root cur st)))"

definition tx_iterator_next :: "nat \<Rightarrow> btree_iterator \<Rightarrow> tb_state \<Rightarrow> (bool \<times> btree_iterator) res \<times> tb_state" where
  "tx_iterator_next fuel it st =
     (case it_current_leaf it of None \<Rightarrow> (Ok (False, it), st)
      | Some cur \<Rightarrow>
        if \<not> it_started it then (Ok (length (bn_entries cur) > 0, it\<lparr>it_started := True\<rparr>), st)
        else let it = it\<lparr>it_index := it_index it + 1\<rparr> in
          if it_index it \<ge> length (bn_entries cur) then
            and_then (tx_next_leaf fuel cur st) (\<lambda>next_leaf st.
            case next_leaf of
              Some next \<Rightarrow> (Ok (0 < length (bn_entries next), it\<lparr>it_current_leaf := Some next, it_index := 0\<rparr>), st)
            | None \<Rightarrow> (Ok (False, it), st))
          else (Ok (True, it), st))"


subsection \<open>Specification\<close>

text \<open>On the pages \<open>P\<close> the write buffer and the pager agree, and no page of \<open>P\<close> has been copied.\<close>

definition settled :: "page_num set \<Rightarrow> tb_state \<Rightarrow> bool" where
  "settled P st \<longleftrightarrow> (case st of (tb, w, s) \<Rightarrow> store_ok s \<and> P \<subseteq> in_use s \<and> (\<forall>p \<in> P. hm_get (tb_cow_pages tb) p = None) \<and>
     (\<forall>p \<in> P. \<forall>d. hm_get w p = Some d \<longrightarrow> page_content s p = Some d))"

definition new_set :: "tx_btree \<Rightarrow> page_num set" where
  "new_set tb = {p. hm_contains (tb_new_pages tb) p}"

text \<open>What a write of the node of page \<open>p\<close> does to the tree when it goes to page \<open>q\<close>.\<close>

definition copied :: "page_num \<Rightarrow> page_num \<Rightarrow> tx_btree \<Rightarrow> tx_btree" where
  "copied p q tb =
     (if p \<in> new_set tb then tb
      else let tb' = tb\<lparr>tb_cow_pages := hm_insert p q (tb_cow_pages tb), tb_new_pages := hm_insert q True (tb_new_pages tb)\<rparr>
        in if p = get_current_root tb then tb'\<lparr>tb_modified_root := q\<rparr> else tb')"

text \<open>
  From one state to a later one: pages in use stay in use, and those that are not new pages of the transaction keep their contents.
\<close>

definition tx_kept :: "page_num set \<Rightarrow> tb_state \<Rightarrow> tb_state \<Rightarrow> bool" where
  "tx_kept N st st' \<longleftrightarrow> (case (st, st') of ((tb, w, s), (tb', w', s')) \<Rightarrow>
     in_use s \<subseteq> in_use s' \<and> (\<forall>x \<in> in_use s - N. page_content s' x = page_content s x) \<and>
     new_set tb' \<subseteq> N \<union> (in_use s' - in_use s) \<and> pg_metadata_page s' = pg_metadata_page s)"

text \<open>The frames of a context on other pages.\<close>

definition moved :: "frame list \<Rightarrow> frame list \<Rightarrow> bool" where
  "moved fs fs' \<longleftrightarrow> list_all2 (\<lambda>f f'. \<exists>p. f' = f\<lparr>fr_page := p\<rparr>) fs fs'"

text \<open>The state in which the subtree \<open>u\<close> has taken the place of the one on page \<open>p\<close>.\<close>

definition hole_state :: "nat \<Rightarrow> frame list \<Rightarrow> page_num \<Rightarrow> tree \<Rightarrow> tb_state \<Rightarrow> bool" where
  "hole_state z fs p u st \<longleftrightarrow> (case st of (tb, w, s) \<Rightarrow>
     settled (set (ctx_pages fs) \<union> set (tree_pages u)) st \<and> room z s \<and> list_all frame_wf fs \<and>
     stored (page_content s) u \<and> ctx_stored (page_content s) fs p \<and> distinct (ctx_pages fs @ tree_pages u) \<and>
     p \<notin> set (ctx_pages fs) \<and> (tree_page u = p \<or> hm_get (tb_cow_pages tb) p = Some (tree_page u)) \<and>
     get_current_root tb = (if fs = [] then tree_page u else fr_page (last fs)) \<and> new_set tb \<subseteq> in_use s)"

text \<open>No fresh page has been copied, since copied pages are in use.\<close>

definition cow_used :: "tb_state \<Rightarrow> bool" where
  "cow_used st \<longleftrightarrow> (case st of (tb, w, s) \<Rightarrow> \<forall>p q. hm_get (tb_cow_pages tb) p = Some q \<longrightarrow> p \<in> in_use s)"


subsection \<open>Lemmas\<close>

subsection \<open>Pages in use\<close>

lemma alloc_min_step:
  assumes ok: "store_ok s" and room: "room (Suc n) s" and m: "m \<le> pg_num_pages s"
  shows "\<exists>p s'. alloc_page_minimum m s = (Ok p, s') \<and> store_ok s' \<and> room n s' \<and> p \<notin> in_use s \<and>
    insert p (in_use s) \<subseteq> in_use s' \<and> page_ok p \<and> page_content s' = page_content s \<and> pg_metadata_page s' = pg_metadata_page s"
proof -
  have a: "alloc_ok s" "\<not> pg_read_only s" "pager_inv s" using ok by (simp_all add: store_ok_def)
  have n: "unat (pg_num_pages s) < 2 ^ 51" using room by (simp add: room_def)
  have "unat (- 1 :: u64) = 2 ^ 64 - 1" by (simp add: unsigned_minus_1_eq_mask mask_eq_exp_minus_1)
  then have "pg_num_pages s \<noteq> - 1" using n by auto
  from alloc_page_minimum_spec [OF a(1,2) this m] obtain p s' where p: "alloc_page_minimum m s = (Ok p, s')" "alloc_ok s'" "p \<notin> in_use s"
    "insert p (in_use s) \<subseteq> in_use s'" "pg_cache s' = pg_cache s" "pg_file s' = pg_file s"
    by blast
  have q: "pg_read_only s' = pg_read_only s" "pg_metadata_page s' = pg_metadata_page s"
    "pg_num_pages s' = pg_num_pages s \<or> pg_num_pages s' = pg_num_pages s + 1"
    using p(1) a(2) by (auto simp: alloc_page_minimum_def split: prod.splits option.splits)
  have up: "unat (pg_num_pages s') \<le> Suc (unat (pg_num_pages s))" using q(3) by (auto simp: unat_word_ariths)
  have "p < pg_num_pages s'" using p(4) by (auto simp: in_use_def)
  then have "page_ok p" using up room by (simp add: word_less_nat_alt room_def page_ok_def)
  moreover have "pager_inv s'" "page_content s' = page_content s"
    using a(3) p(5,6) pager_inv_cong page_content_cong by blast+
  ultimately show ?thesis using p up room a(2) q by (auto simp: store_ok_def room_def)
qed

lemma alloc_any_step:
  assumes "store_ok s" "room (Suc n) s" "m \<le> pg_num_pages s"
  shows "\<exists>p s'. (if b then alloc_page_minimum m else alloc_page) s = (Ok p, s') \<and> store_ok s' \<and> room n s' \<and> p \<notin> in_use s \<and>
    insert p (in_use s) \<subseteq> in_use s' \<and> page_ok p \<and> page_content s' = page_content s \<and> pg_metadata_page s' = pg_metadata_page s"
  using alloc_min_step [OF assms] alloc_min_step [OF assms(1,2), of 0] by (cases b) (simp_all add: alloc_page_def)

subsection \<open>Single nodes\<close>

lemma settled_mono: "settled P st \<Longrightarrow> Q \<subseteq> P \<Longrightarrow> settled Q st"
  by (auto simp: settled_def)

lemma same_store_settled: "settled P (tb, w, s) \<Longrightarrow> same_store s s' \<Longrightarrow> settled P (tb, w, s')"
  by (simp add: settled_def same_store_def)

lemma tx_read_step:
  assumes "settled P (tb, w, s)" "bn_page_num n \<in> P" "fits n" "page_content s (bn_page_num n) = Some (page_image n)"
  shows "\<exists>s'. tx_read_node (bn_page_num n) (tb, w, s) = (Ok n, tb, w, s') \<and> same_store s s'"
proof -
  let ?p = "bn_page_num n"
  have a: "store_ok s" "hm_get (tb_cow_pages tb) ?p = None" "\<And>d. hm_get w ?p = Some d \<Longrightarrow> d = page_image n"
    using assms(1,2,4) by (auto simp: settled_def)
  have "\<exists>s'. fetch_page w ?p s = (Ok (page_image n), s') \<and> same_store s s'"
  proof (cases "hm_get w ?p")
    case None
    then show ?thesis using read_step [OF a(1) assms(4)] by (auto simp: fetch_page_def same_store_def)
  next
    case (Some d)
    then show ?thesis using a(1,3) same_store_refl by (simp add: fetch_page_def)
  qed
  then show ?thesis using a(2) deserialize_page_image [OF assms(3)] by (auto simp: tx_read_node_def tb_pager_def)
qed

lemma page_image_page [simp]: "page_image (n\<lparr>bn_page_num := q\<rparr>) = page_image n"
  by (simp add: page_image_def node_bytes_def node_size_def)

lemma fits_page [simp]: "fits (n\<lparr>bn_page_num := q\<rparr>) = fits n"
  by (simp add: fits_def node_ok_def node_size_def split: node_type.split)

lemma tx_write_page:
  assumes a: "store_ok s" "bn_page_num n \<in> in_use s" "hm_get (tb_cow_pages tb) (bn_page_num n) = None"
    and p: "get_current_root tb \<in> in_use s" and f: "fits n" and room: "room (Suc z) s"
  shows "\<exists>q s'. tx_write_node n (tb, w, s) = (Ok q, copied (bn_page_num n) q tb, hm_insert q (page_image n) w, s') \<and> store_ok s' \<and> room z s' \<and>
    in_use s \<subseteq> in_use s' \<and> q \<in> in_use s' \<and> page_content s' = (page_content s)(q \<mapsto> page_image n) \<and> pg_metadata_page s' = pg_metadata_page s \<and>
    (if bn_page_num n \<in> new_set tb then q = bn_page_num n else q \<notin> in_use s)"
proof -
  let ?p = "bn_page_num n"
  have ser: "serialize_node_into (n\<lparr>bn_page_num := q\<rparr>) (replicate PAGE_SIZE 0) = Some (page_image n)" for q
  proof -
    have "fits (n\<lparr>bn_page_num := q\<rparr>)" using f by simp
    then have "serialize_node_into (n\<lparr>bn_page_num := q\<rparr>) (replicate PAGE_SIZE 0) = Some (page_image (n\<lparr>bn_page_num := q\<rparr>))"
      using serialize_page by (simp only: fits_def page_image_def)
    then show ?thesis by simp
  qed
  show ?thesis
  proof (cases "?p \<in> new_set tb")
    case True
    have pok: "page_ok ?p" by (rule page_ok_in_use [OF a(2) room])
    obtain s' where s': "write_page_transfer ?p (page_image n) s = (Ok (), s')" "store_ok s'" "in_use s' = in_use s"
      "\<forall>k. room k s' = room k s" "page_content s' = (page_content s)(?p \<mapsto> page_image n)" "pg_metadata_page s' = pg_metadata_page s"
      using write_step [OF a(1) pok length_page_image [OF f]] by blast
    have "room z s'" using s'(4) room_mono [OF room] by simp
    then show ?thesis using True s' a(2) ser
      by (intro exI [of _ ?p] exI [of _ s']) (simp add: tx_write_node_def tx_cow_target_def new_set_def copied_def tb_pager_def Let_def)
  next
    case False
    have m: "get_current_root tb \<le> pg_num_pages s" using p by (auto simp: in_use_def)
    obtain q s1 where s1: "(if ?p = get_current_root tb then alloc_page_minimum (get_current_root tb) else alloc_page) s = (Ok q, s1)"
      "store_ok s1" "room z s1" "q \<notin> in_use s" "insert q (in_use s) \<subseteq> in_use s1" "page_ok q" "page_content s1 = page_content s" "pg_metadata_page s1 = pg_metadata_page s"
      using alloc_any_step [OF a(1) room m] by blast
    obtain s' where s': "write_page_transfer q (page_image n) s1 = (Ok (), s')" "store_ok s'" "in_use s' = in_use s1"
      "\<forall>k. room k s' = room k s1" "page_content s' = (page_content s1)(q \<mapsto> page_image n)" "pg_metadata_page s' = pg_metadata_page s1"
      using write_step [OF s1(2,6) length_page_image [OF f]] by blast
    have t: "tx_cow_target ?p (tb, w, s) = (Ok q, copied ?p q tb, w, s1)"
      using False s1(1) a(3) by (simp add: tx_cow_target_def new_set_def copied_def tb_pager_def tb_upd_def Let_def)
    have "tx_write_node n (tb, w, s) = (Ok q, copied ?p q tb, hm_insert q (page_image n) w, s')"
      using t s'(1) ser by (simp add: tx_write_node_def tb_pager_def)
    then show ?thesis using False s1 s' by (intro exI [of _ q] exI [of _ s']) simp
  qed
qed

lemma tx_write_step:
  assumes st: "settled P (tb, w, s)" and p: "bn_page_num n \<in> P" "get_current_root tb \<in> in_use s" and f: "fits n" and room: "room (Suc z) s"
  shows "\<exists>q s'. tx_write_node n (tb, w, s) = (Ok q, copied (bn_page_num n) q tb, hm_insert q (page_image n) w, s') \<and> store_ok s' \<and> room z s' \<and>
    in_use s \<subseteq> in_use s' \<and> q \<in> in_use s' \<and> page_content s' = (page_content s)(q \<mapsto> page_image n) \<and> pg_metadata_page s' = pg_metadata_page s \<and>
    (if bn_page_num n \<in> new_set tb then q = bn_page_num n else q \<notin> in_use s)"
  using st p by (intro tx_write_page [OF _ _ _ p(2) f room]) (auto simp: settled_def)

lemma page_image_move: "page_image (inner_node p ks cs) = page_image (inner_node q ks cs)" "page_image (leaf_node p es nx) = page_image (leaf_node q es nx)"
proof -
  have "inner_node q ks cs = (inner_node p ks cs)\<lparr>bn_page_num := q\<rparr>" "leaf_node q es nx = (leaf_node p es nx)\<lparr>bn_page_num := q\<rparr>"
    by (simp_all add: inner_node_def new_internal_def leaf_node_def new_leaf_def)
  then show "page_image (inner_node p ks cs) = page_image (inner_node q ks cs)" "page_image (leaf_node p es nx) = page_image (leaf_node q es nx)"
    by (simp_all only: page_image_page)
qed

lemma new_set_copied: "new_set (copied p q tb) = (if p \<in> new_set tb then new_set tb else insert q (new_set tb))"
  by (auto simp: copied_def new_set_def hm_contains_def Let_def)

lemma cow_copied: "hm_get (tb_cow_pages (copied p q tb)) x = (if p \<notin> new_set tb \<and> x = p then Some q else hm_get (tb_cow_pages tb) x)"
  by (simp add: copied_def Let_def)

lemma root_copied: "q \<noteq> 0 \<Longrightarrow> get_current_root (copied p q tb) = (if p \<notin> new_set tb \<and> p = get_current_root tb then q else get_current_root tb)"
  by (auto simp: copied_def get_current_root_def Let_def)

lemma tx_kept_trans:
  assumes "tx_kept N st1 st2" "tx_kept (new_set (fst st2)) st2 st3"
  shows "tx_kept N st1 st3"
proof -
  obtain tb1 w1 s1 tb2 w2 s2 tb3 w3 s3 where st: "st1 = (tb1, w1, s1)" "st2 = (tb2, w2, s2)" "st3 = (tb3, w3, s3)" by (metis prod.exhaust)
  have a: "in_use s1 \<subseteq> in_use s2" "\<forall>x \<in> in_use s1 - N. page_content s2 x = page_content s1 x" "new_set tb2 \<subseteq> N \<union> (in_use s2 - in_use s1)"
    "pg_metadata_page s2 = pg_metadata_page s1"
    and b: "in_use s2 \<subseteq> in_use s3" "\<forall>x \<in> in_use s2 - new_set tb2. page_content s3 x = page_content s2 x" "new_set tb3 \<subseteq> new_set tb2 \<union> (in_use s3 - in_use s2)"
    "pg_metadata_page s3 = pg_metadata_page s2"
    using assms unfolding st tx_kept_def by simp_all
  have "page_content s3 x = page_content s1 x" if "x \<in> in_use s1 - N" for x
  proof -
    have "x \<in> in_use s2 - new_set tb2" using that a(1,3) by blast
    then show ?thesis using a(2) b(2) that by simp
  qed
  then show ?thesis unfolding st tx_kept_def using a b by auto
qed

lemma moved_facts:
  "moved fs fs' \<Longrightarrow> lleaves fs' = lleaves fs \<and> rleaves fs' = rleaves fs \<and> list_all frame_wf fs' = list_all frame_wf fs \<and>
    (\<forall>n m. ctx_height n fs' m = ctx_height n fs m) \<and> (\<forall>lo hi. ctx_ordered fs lo hi \<longrightarrow> ctx_ordered fs' lo hi)"
  unfolding moved_def
proof (induction rule: list_all2_induct)
  case (Cons f fs f' fs')
  then obtain p where f: "f' = f\<lparr>fr_page := p\<rparr>" by blast
  have "ctx_ordered (f' # fs') lo hi" if c: "ctx_ordered (f # fs) lo hi" for lo hi
  proof -
    obtain a b where ab: "ctx_ordered fs a b" "left_ok a b (fr_lkeys f) (fr_lkids f) lo" "right_ok lo hi (fr_rkeys f) (fr_rkids f) b"
      using c by (cases rule: ctx_ordered.cases) auto
    have "ctx_ordered fs' a b" using ab(1) Cons by blast
    then show ?thesis using ctx_ordered.cons [of fs' a b f' lo hi] ab(2,3) f by simp
  qed
  then show ?case using Cons f by (simp add: frame_wf_def)
qed simp

lemma replace_child_at: "p \<notin> set xs \<Longrightarrow> replace_child p q (xs @ p # ys) = xs @ q # ys"
  by (induction xs) auto

lemma hole_parent:
  assumes "hole_state z (f # fs) p u (tb, w, s)"
  shows "\<exists>s'. tx_read_node (fr_page f) (tb, w, s) = (Ok (inner_node (fr_page f) (fr_lkeys f @ fr_rkeys f)
      (map tree_page (fr_lkids f) @ p # map tree_page (fr_rkids f))), tb, w, s') \<and> same_store s s'"
proof -
  let ?g = "inner_node (fr_page f) (fr_lkeys f @ fr_rkeys f) (map tree_page (fr_lkids f) @ p # map tree_page (fr_rkids f))"
  have "fits ?g" using assms by (intro fits_inner) (simp_all add: hole_state_def frame_wf_def)
  moreover have "page_content s (bn_page_num ?g) = Some (page_image ?g)" "bn_page_num ?g \<in> set (ctx_pages (f # fs)) \<union> set (tree_pages u)"
    using assms by (simp_all add: hole_state_def)
  moreover have "settled (set (ctx_pages (f # fs)) \<union> set (tree_pages u)) (tb, w, s)" using assms by (simp add: hole_state_def)
  ultimately have "\<exists>s'. tx_read_node (bn_page_num ?g) (tb, w, s) = (Ok ?g, tb, w, s') \<and> same_store s s'" using tx_read_step by blast
  then show ?thesis by simp
qed

lemma hole_same: "hole_state z fs p u (tb, w, s) \<Longrightarrow> same_store s s' \<Longrightarrow> hole_state z fs p u (tb, w, s')"
  by (simp add: hole_state_def settled_def same_store_def)

lemma kids_in_ctx: "t \<in> set (fr_lkids f @ fr_rkids f) \<Longrightarrow> x \<in> set (tree_pages t) \<Longrightarrow> x \<in> set (ctx_pages (f # fs))"
  by auto

lemma tree_page_kid: "t \<in> set (fr_lkids f @ fr_rkids f) \<Longrightarrow> tree_page t \<in> set (ctx_pages (f # fs))"
  using kids_in_ctx tree_page_in by metis

text \<open>One level up: the parent already has the right pointer, or it is written with the new one.\<close>

lemma hole_parts:
  assumes "hole_state z fs p u (tb, w, s)"
  shows "settled (set (ctx_pages fs) \<union> set (tree_pages u)) (tb, w, s)" "room z s" "list_all frame_wf fs" "stored (page_content s) u"
    "ctx_stored (page_content s) fs p" "distinct (ctx_pages fs @ tree_pages u)" "p \<notin> set (ctx_pages fs)"
    "tree_page u = p \<or> hm_get (tb_cow_pages tb) p = Some (tree_page u)" "get_current_root tb = (if fs = [] then tree_page u else fr_page (last fs))"
    "new_set tb \<subseteq> in_use s"
  using assms unfolding hole_state_def prod.case by blast+

lemma hole_stateI:
  assumes "settled (set (ctx_pages fs) \<union> set (tree_pages u)) (tb, w, s)" "room z s" "list_all frame_wf fs" "stored (page_content s) u"
    "ctx_stored (page_content s) fs p" "distinct (ctx_pages fs @ tree_pages u)" "p \<notin> set (ctx_pages fs)"
    "tree_page u = p \<or> hm_get (tb_cow_pages tb) p = Some (tree_page u)" "get_current_root tb = (if fs = [] then tree_page u else fr_page (last fs))"
    "new_set tb \<subseteq> in_use s"
  shows "hole_state z fs p u (tb, w, s)"
  using assms unfolding hole_state_def prod.case by blast

lemma fill1_pages:
  "distinct (ctx_pages fs @ tree_pages (fill1 f u)) = distinct (ctx_pages (f # fs) @ tree_pages u)"
  "set (ctx_pages fs) \<union> set (tree_pages (fill1 f u)) = set (ctx_pages (f # fs)) \<union> set (tree_pages u)"
proof -
  have ms: "mset (ctx_pages fs @ tree_pages (fill1 f u)) = mset (ctx_pages (f # fs) @ tree_pages u)" by (simp add: fill1_def)
  show "distinct (ctx_pages fs @ tree_pages (fill1 f u)) = distinct (ctx_pages (f # fs) @ tree_pages u)" by (rule mset_eq_imp_distinct_iff [OF ms])
  show "set (ctx_pages fs) \<union> set (tree_pages (fill1 f u)) = set (ctx_pages (f # fs)) \<union> set (tree_pages u)" using mset_eq_setD [OF ms] by (simp only: set_append)
qed

lemma hole_up_same:
  assumes "hole_state z (f # fs) p u (tb, w, s)" "tree_page u = p"
  shows "hole_state z fs (fr_page f) (fill1 f u) (tb, w, s)"
proof (rule hole_stateI)
  note h = hole_parts [OF assms(1)]
  show "settled (set (ctx_pages fs) \<union> set (tree_pages (fill1 f u))) (tb, w, s)" unfolding fill1_pages by (rule h(1))
  show "room z s" by (rule h(2))
  show "list_all frame_wf fs" using h(3) by simp
  show "stored (page_content s) (fill1 f u)" using h(4,5) assms(2) by (simp add: fill1_def)
  show "ctx_stored (page_content s) fs (fr_page f)" using h(5) by simp
  show "distinct (ctx_pages fs @ tree_pages (fill1 f u))" unfolding fill1_pages by (rule h(6))
  show "fr_page f \<notin> set (ctx_pages fs)" using h(6) by auto
  show "tree_page (fill1 f u) = fr_page f \<or> hm_get (tb_cow_pages tb) (fr_page f) = Some (tree_page (fill1 f u))" by (simp add: fill1_def)
  show "get_current_root tb = (if fs = [] then tree_page (fill1 f u) else fr_page (last fs))" using h(9) by (simp add: fill1_def)
  show "new_set tb \<subseteq> in_use s" by (rule h(10))
qed

lemma settled_write:
  assumes "settled P (tb, w, s)" "store_ok s'" "in_use s \<subseteq> in_use s'" "q \<in> in_use s'" "page_content s' = (page_content s)(q \<mapsto> d)"
    "if p \<in> new_set tb then q = p else q \<notin> in_use s" "Q \<subseteq> insert q (P - {p})" "hm_get (tb_cow_pages tb) q = None \<and> (p \<in> new_set tb \<or> q \<noteq> p)"
  shows "settled Q (copied p q tb, hm_insert q d w, s')"
proof -
  have "hm_get (tb_cow_pages (copied p q tb)) x = None \<and> x \<in> in_use s' \<and> (\<forall>e. hm_get (hm_insert q d w) x = Some e \<longrightarrow> page_content s' x = Some e)" if "x \<in> Q" for x
  proof (cases "x = q")
    case True
    then show ?thesis using assms(4,5,8) by (auto simp: cow_copied)
  next
    case False
    then have x: "x \<in> P" "x \<noteq> p" using that assms(7) by auto
    then show ?thesis using False assms(1,3,5) by (auto simp: settled_def cow_copied)
  qed
  then show ?thesis using assms(2) by (auto simp: settled_def)
qed

lemma last_page_in: "fs \<noteq> [] \<Longrightarrow> fr_page (last fs) \<in> set (ctx_pages fs)"
  by (induction fs) auto

lemma hole_up_write:
  assumes hs: "hole_state (Suc z) (f # fs) p u (tb, w, s)" and c: "hm_get (tb_cow_pages tb) p = Some (tree_page u)" and cu: "cow_used (tb, w, s)"
  shows "\<exists>q st'. tx_write_node (inner_node (fr_page f) (fr_lkeys f @ fr_rkeys f) (map tree_page (fr_lkids f) @ tree_page u # map tree_page (fr_rkids f))) (tb, w, s) =
      (Ok q, st') \<and> hole_state z fs (fr_page f) (fill1 (f\<lparr>fr_page := q\<rparr>) u) st' \<and> cow_used st' \<and> tx_kept (new_set tb) (tb, w, s) st'"
proof -
  note h = hole_parts [OF hs]
  let ?p = "fr_page f" and ?n = "inner_node (fr_page f) (fr_lkeys f @ fr_rkeys f) (map tree_page (fr_lkids f) @ tree_page u # map tree_page (fr_rkids f))"
  have ft: "fits ?n" using h(3) by (intro fits_inner) (simp_all add: frame_wf_def)
  have pn: "bn_page_num ?n = ?p" by simp
  have pin: "bn_page_num ?n \<in> set (ctx_pages (f # fs)) \<union> set (tree_pages u)" by simp
  have use: "set (ctx_pages (f # fs)) \<union> set (tree_pages u) \<subseteq> in_use s" "store_ok s" using h(1) by (simp_all add: settled_def)
  have rt: "get_current_root tb = fr_page (last (f # fs))" using h(9) by simp
  have lastin: "fr_page (last (f # fs)) \<in> set (ctx_pages (f # fs))" by (rule last_page_in) simp
  have root: "get_current_root tb \<in> in_use s" using rt lastin use(1) by auto
  obtain q s' where q: "tx_write_node ?n (tb, w, s) = (Ok q, copied ?p q tb, hm_insert q (page_image ?n) w, s')" "store_ok s'" "room z s'"
    "in_use s \<subseteq> in_use s'" "q \<in> in_use s'" "page_content s' = (page_content s)(q \<mapsto> page_image ?n)" "pg_metadata_page s' = pg_metadata_page s"
    "if ?p \<in> new_set tb then q = ?p else q \<notin> in_use s"
    using tx_write_step [OF h(1) pin root ft h(2)] unfolding pn by blast
  let ?f = "f\<lparr>fr_page := q\<rparr>" and ?tb = "copied ?p q tb" and ?w = "hm_insert q (page_image ?n) w"
  have pu: "?p \<in> in_use s" using use by auto
  have q0: "q \<noteq> 0" using q(5) by (auto simp: in_use_def)
  have dp: "?p \<notin> set (ctx_pages fs)" "?p \<notin> set (tree_pages u)" "\<forall>t \<in> set (fr_lkids f @ fr_rkids f). ?p \<notin> set (tree_pages t)"
    using h(6) by auto
  have qn: "q \<notin> set (ctx_pages fs)" "q \<notin> set (tree_pages u)" "\<forall>t \<in> set (fr_lkids f @ fr_rkids f). q \<notin> set (tree_pages t)"
    using q(8) dp use(1) by (auto split: if_splits)
  have cq: "hm_get (tb_cow_pages tb) q = None"
  proof (cases "?p \<in> new_set tb")
    case True
    then show ?thesis using q(8) h(1) by (simp add: settled_def)
  next
    case False
    then show ?thesis using q(8) cu by (cases "hm_get (tb_cow_pages tb) q") (auto simp: cow_used_def)
  qed
  have sp: "set (ctx_pages fs) \<union> set (tree_pages (fill1 ?f u)) \<subseteq> insert q ((set (ctx_pages (f # fs)) \<union> set (tree_pages u)) - {?p})"
    unfolding fill1_pages using dp by auto
  have same: "page_content s' x = page_content s x" if "x \<noteq> q" for x using that q(6) by simp
  have nq: "hm_get (tb_cow_pages tb) q = None \<and> (?p \<in> new_set tb \<or> q \<noteq> ?p)" using cq q(8) pu by (auto split: if_splits)
  have hole: "hole_state z fs ?p (fill1 ?f u) (?tb, ?w, s')"
  proof (rule hole_stateI)
    show "settled (set (ctx_pages fs) \<union> set (tree_pages (fill1 ?f u))) (?tb, ?w, s')"
      by (rule settled_write [OF h(1) q(2,4,5,6,8) sp nq])
    show "room z s'" by (rule q(3))
    show "list_all frame_wf fs" using h(3) by simp
    have k: "stored (page_content s') t" if "t \<in> set (fr_lkids f @ fr_rkids f)" for t
      using that qn(3) h(5) q(6) stored_upd_other by (auto simp: list_all_iff)
    have "stored (page_content s') u" using h(4) qn(2) q(6) stored_upd_other by simp
    then show "stored (page_content s') (fill1 ?f u)"
      using k q(6) page_image_move(1) [of ?p _ _ q] by (simp add: fill1_def list_all_iff)
    show "ctx_stored (page_content s') fs ?p" using h(5) qn(1) q(6) ctx_stored_upd_other by simp
    show "distinct (ctx_pages fs @ tree_pages (fill1 ?f u))" unfolding fill1_pages using h(6) qn by auto
    show "?p \<notin> set (ctx_pages fs)" by (rule dp(1))
    show "tree_page (fill1 ?f u) = ?p \<or> hm_get (tb_cow_pages ?tb) ?p = Some (tree_page (fill1 ?f u))" using q(8) by (auto simp: fill1_def cow_copied)
    show "get_current_root ?tb = (if fs = [] then tree_page (fill1 ?f u) else fr_page (last fs))"
    proof (cases "fs = []")
      case True
      then show ?thesis using root_copied [OF q0, of ?p tb] rt q(8) by (auto simp: fill1_def)
    next
      case False
      then have "fr_page (last fs) \<in> set (ctx_pages fs)" by (rule last_page_in)
      then have "?p \<noteq> get_current_root tb" using rt False dp(1) by auto
      then show ?thesis using root_copied [OF q0, of ?p tb] rt False by simp
    qed
    show "new_set ?tb \<subseteq> in_use s'" using new_set_copied [of ?p q tb] h(10) q(4,5) by auto
  qed
  have "cow_used (?tb, ?w, s')" using cu q(4) pu by (auto simp: cow_used_def cow_copied)
  moreover have "tx_kept (new_set tb) (tb, w, s) (?tb, ?w, s')"
    unfolding tx_kept_def prod.case using q(4,5,6,7,8) h(10) new_set_copied [of ?p q tb] by auto
  ultimately show ?thesis using q(1) hole by blast
qed

lemma replace_in_parent:
  assumes "hole_state z (f # fs) p u (tb, w, s)" "hm_get (tb_cow_pages tb) p = Some (tree_page u)"
  shows "(inner_node (fr_page f) ks (map tree_page (fr_lkids f) @ p # map tree_page (fr_rkids f)))
      \<lparr>bn_children := replace_child p (tree_page u) (bn_children (inner_node (fr_page f) ks (map tree_page (fr_lkids f) @ p # map tree_page (fr_rkids f))))\<rparr> =
    inner_node (fr_page f) ks (map tree_page (fr_lkids f) @ tree_page u # map tree_page (fr_rkids f))"
proof -
  have "p \<notin> set (map tree_page (fr_lkids f))" using hole_parts(7) [OF assms(1)] by (auto simp: tree_page_in)
  then show ?thesis by (simp add: replace_child_at) (simp add: inner_node_def)
qed

text \<open>The whole way up.\<close>

lemma tx_update_path_spec:
  "hole_state (length fs + z) fs p u (tb, w, s) \<Longrightarrow> cow_used (tb, w, s) \<Longrightarrow>
   \<exists>fs' st'. tx_update_path (length fs) (rev (map fr_page fs) @ p # rest) (tb, w, s) = (Ok (), st') \<and> moved fs fs' \<and>
     hole_state z [] (tree_page (fill fs' u)) (fill fs' u) st' \<and> cow_used st' \<and> tx_kept (new_set tb) (tb, w, s) st'"
proof (induction fs arbitrary: p u tb w s rest)
  case Nil
  note h = hole_parts [OF Nil(1)]
  have "hole_state z [] (tree_page u) u (tb, w, s)" by (rule hole_stateI) (use h in simp_all)
  moreover have "tx_kept (new_set tb) (tb, w, s) (tb, w, s)" by (auto simp: tx_kept_def)
  ultimately show ?case using Nil(2) by (intro exI [of _ "[]"] exI [of _ "(tb, w, s)"]) (simp add: moved_def)
next
  case (Cons f fs)
  obtain s1 where s1: "tx_read_node (fr_page f) (tb, w, s) = (Ok (inner_node (fr_page f) (fr_lkeys f @ fr_rkeys f)
      (map tree_page (fr_lkids f) @ p # map tree_page (fr_rkids f))), tb, w, s1)" "same_store s s1"
    using hole_parent [OF Cons.prems(1)] by blast
  have hs: "hole_state (Suc (length fs + z)) (f # fs) p u (tb, w, s1)" using hole_same [OF Cons.prems(1) s1(2)] by simp
  have cu: "cow_used (tb, w, s1)" using Cons.prems(2) s1(2) by (simp add: cow_used_def same_store_def)
  have k0: "tx_kept (new_set tb) (tb, w, s) (tb, w, s1)" using s1(2) by (auto simp: tx_kept_def same_store_def)
  have path: "(rev (map fr_page (f # fs)) @ p # rest) ! length fs = fr_page f" "(rev (map fr_page (f # fs)) @ p # rest) ! Suc (length fs) = p"
    by (simp_all add: nth_append)
  have pe: "rev (map fr_page (f # fs)) @ p # rest = rev (map fr_page fs) @ fr_page f # p # rest" by simp
  show ?case
  proof (cases "hm_get (tb_cow_pages tb) p")
    case None
    then have pu: "tree_page u = p" using hole_parts(8) [OF hs] by simp
    have "hole_state (Suc (length fs + z)) fs (fr_page f) (fill1 f u) (tb, w, s1)" by (rule hole_up_same [OF hs pu])
    then have h1: "hole_state (length fs + Suc z) fs (fr_page f) (fill1 f u) (tb, w, s1)" by simp
    obtain fs' st' where r: "tx_update_path (length fs) (rev (map fr_page fs) @ fr_page f # p # rest) (tb, w, s1) = (Ok (), st')" "moved fs fs'"
      "hole_state z [] (tree_page (fill fs' (fill1 f u))) (fill fs' (fill1 f u)) st'" "cow_used st'" "tx_kept (new_set tb) (tb, w, s1) st'"
    proof -
      have h2: "hole_state (length fs + z) fs (fr_page f) (fill1 f u) (tb, w, s1)"
        using hole_parts [OF h1] room_mono [OF hole_parts(2) [OF h1], of "length fs + z"] by (intro hole_stateI) simp_all
      show thesis using Cons.IH [OF h2 cu] that by blast
    qed
    have "tx_update_path (length (f # fs)) (rev (map fr_page (f # fs)) @ p # rest) (tb, w, s) = (Ok (), st')"
      using s1(1) r(1) None path pe by simp
    moreover have "moved (f # fs) (f # fs')" using r(2) by (auto simp: moved_def intro: exI [of _ "fr_page f"])
    ultimately show ?thesis using r(3,4) tx_kept_trans [OF k0] r(5)
      by (intro exI [of _ "f # fs'"] exI [of _ st']) simp
  next
    case (Some q0)
    then have c: "hm_get (tb_cow_pages tb) p = Some (tree_page u)"
      using hole_parts(1,8) [OF hs] tree_page_in [of u] by (auto simp: settled_def)
    obtain q tb2 w2 s2 where w: "tx_write_node (inner_node (fr_page f) (fr_lkeys f @ fr_rkeys f) (map tree_page (fr_lkids f) @ tree_page u # map tree_page (fr_rkids f))) (tb, w, s1) =
      (Ok q, tb2, w2, s2)" "hole_state (length fs + z) fs (fr_page f) (fill1 (f\<lparr>fr_page := q\<rparr>) u) (tb2, w2, s2)" "cow_used (tb2, w2, s2)"
      "tx_kept (new_set tb) (tb, w, s1) (tb2, w2, s2)"
      using hole_up_write [OF hs c cu] by (metis prod.exhaust)
    obtain fs' st' where r: "tx_update_path (length fs) (rev (map fr_page fs) @ fr_page f # p # rest) (tb2, w2, s2) = (Ok (), st')" "moved fs fs'"
      "hole_state z [] (tree_page (fill fs' (fill1 (f\<lparr>fr_page := q\<rparr>) u))) (fill fs' (fill1 (f\<lparr>fr_page := q\<rparr>) u)) st'" "cow_used st'"
      "tx_kept (new_set tb2) (tb2, w2, s2) st'"
      using Cons.IH [OF w(2,3)] by blast
    have rep: "tx_update_path (length (f # fs)) (rev (map fr_page (f # fs)) @ p # rest) (tb, w, s) = (Ok (), st')"
      using s1(1) r(1) c w(1) path pe replace_in_parent [OF hs c] by simp
    have kept: "tx_kept (new_set tb) (tb, w, s) st'"
      using tx_kept_trans [OF k0, of "(tb2, w2, s2)"] w(4) tx_kept_trans [of "new_set tb" "(tb, w, s)" "(tb2, w2, s2)" st'] r(5) by simp
    have "moved (f # fs) (f\<lparr>fr_page := q\<rparr> # fs')" using r(2) by (auto simp: moved_def)
    then show ?thesis using rep r(3,4) kept by (intro exI [of _ "f\<lparr>fr_page := q\<rparr> # fs'"] exI [of _ st']) simp
  qed
qed

end
