(* ===== verification/Tx_Snapshot.thy ===== *)
theory Tx_Snapshot
  imports Tx_Btree
begin

text \<open>
  The B-tree of a transaction as a map (\<open>src/core/tx_btree.rs\<close>): searching, updating and deleting, the isolation of the committed tree from the
  transaction, and what the copies of pages do to the chain of leaves and to the split of a root.
\<close>


subsection \<open>Specification\<close>

definition tx_rep :: "nat \<Rightarrow> tb_state \<Rightarrow> tree \<Rightarrow> bool" where
  "tx_rep n st t \<longleftrightarrow> hole_state 0 [] (tree_page t) t st \<and> cow_used st \<and> tree_wf t \<and> ordered None None t \<and> height_le n t"

text \<open>\<open>update\<close> and \<open>delete\<close> change the entries of the leaf of a key by a function \<open>G\<close>.\<close>

definition leaf_change :: "string \<Rightarrow> (leaf_entry list \<Rightarrow> leaf_entry list) \<Rightarrow> bool" where
  "leaf_change k G \<longleftrightarrow> (\<forall>es. entries_sorted es \<longrightarrow> lookup_entry k es \<noteq> None \<longrightarrow>
     entries_sorted (G es) \<and> (\<forall>e \<in> set (G es). e \<in> set es \<or> en_key e = k) \<and> length (G es) \<le> length es)"

definition changed :: "string \<Rightarrow> (leaf_entry list \<Rightarrow> leaf_entry list) \<Rightarrow> leaf list \<Rightarrow> leaf list \<Rightarrow> bool" where
  "changed k G ls ls' \<longleftrightarrow> (\<exists>as p q es nx bs. ls = as @ [(p, es, nx)] @ bs \<and> ls' = as @ [(q, G es, nx)] @ bs \<and> lookup_entry k es \<noteq> None \<and>
     (\<forall>e \<in> set (leaf_entries as). en_key e < k) \<and> (\<forall>e \<in> set (leaf_entries bs). k < en_key e))"

text \<open>\<open>Put\<close> stands for \<open>update\<close> here, which changes keys that exist only.\<close>

fun change :: "map_op \<Rightarrow> (string \<Rightarrow> u64 option) \<Rightarrow> (string \<Rightarrow> u64 option)" where
  "change (Put k v) m = (if m k = None then m else m(k \<mapsto> v))"
| "change (Del k) m = m(k := None)"

fun change_results :: "map_op list \<Rightarrow> (string \<Rightarrow> u64 option) \<Rightarrow> unit res list" where
  "change_results [] m = []"
| "change_results (x # xs) m = (if m (op_key x) = None then Err (not_in_tree (op_key x)) else Ok ()) # change_results xs (change x m)"

definition noted :: "page_num \<Rightarrow> tx_btree \<Rightarrow> tx_btree" where
  "noted q tb = tb\<lparr>tb_new_pages := hm_insert q True (tb_new_pages tb)\<rparr>"


subsection \<open>Lemmas\<close>

subsection \<open>The tree of a transaction\<close>

lemma tx_rep_same: "tx_rep n (tb, w, s) t \<Longrightarrow> same_store s s' \<Longrightarrow> tx_rep n (tb, w, s') t"
  unfolding tx_rep_def cow_used_def using hole_same [of 0 "[]" "tree_page t" t tb w s s'] by (simp add: same_store_def)

lemma tx_rep_parts:
  assumes "tx_rep n (tb, w, s) t"
  shows "settled (set (tree_pages t)) (tb, w, s)" "store_ok s" "stored (page_content s) t" "distinct (tree_pages t)" "get_current_root tb = tree_page t"
    "new_set tb \<subseteq> in_use s" "set (tree_pages t) \<subseteq> in_use s" "tree_wf t" "ordered None None t" "height_le n t" "cow_used (tb, w, s)"
  using assms hole_parts [of 0 "[]" "tree_page t" t tb w s] by (simp_all add: tx_rep_def settled_def)

lemma tx_find_child_step:
  assumes "length (fr_lkids f) = key_pos key (fr_lkeys f @ fr_rkeys f)" "frame_wf f"
  shows "tx_find_child (inner_node p (fr_lkeys f @ fr_rkeys f) (map tree_page (fr_lkids f @ u # fr_rkids f))) key = Ok (tree_page u)"
proof -
  have l: "length (fr_lkids f) = length (fr_lkeys f)" "length (fr_rkids f) = length (fr_rkeys f)" using assms(2) by (simp_all add: frame_wf_def)
  show ?thesis
  proof (cases "fr_rkids f = []")
    case True
    then show ?thesis using assms(1) l by (simp add: tx_find_child_def child_index_eq Let_def)
  next
    case False
    then have "length (fr_lkeys f) < length (fr_lkeys f @ fr_rkeys f)" using l(2) by auto
    then show ?thesis using assms(1) l by (simp add: tx_find_child_def child_index_eq Let_def nth_append)
  qed
qed

lemma tx_read_tree:
  assumes "settled P (tb, w, s)" "tree_page u \<in> P" "tree_wf u" "stored (page_content s) u"
  shows "\<exists>s'. tx_read_node (tree_page u) (tb, w, s) = (Ok (node_of u), tb, w, s') \<and> same_store s s'"
  using tx_read_step [of P tb w s "node_of u"] assms fits_node_of [OF assms(3)] by (cases u) auto

lemma tx_down_leaf: "bn_node_type node = LeafNode \<Longrightarrow> tx_find_leaf fuel node key path st = (Ok (node, path), st)"
  by (simp add: tx_find_leaf.simps [of fuel])

lemma tx_find_leaf_spec:
  assumes "settled (set (tree_pages t)) (tb, w, s)" "at_leaf t key n fs u" "stored (page_content s) t" "height_le fuel u"
  shows "\<exists>fs' p es nx s'. tx_find_leaf fuel (node_of u) key (path_of fs u) (tb, w, s) =
      (Ok (leaf_node p es nx, path_of fs' (TLeaf p es nx)), tb, w, s') \<and>
    at_leaf t key n fs' (TLeaf p es nx) \<and> same_store s s'"
  using assms
proof (induction fuel arbitrary: fs u s)
  case (0 fs u s)
  then obtain p es nx where u: "u = TLeaf p es nx" by (cases u) auto
  have "store_ok s" using 0(1) by (simp add: settled_def)
  then show ?case using 0 u same_store_refl tx_down_leaf
    by (intro exI [of _ fs] exI [of _ p] exI [of _ es] exI [of _ nx] exI [of _ s]) simp
next
  case (Suc fuel fs u s)
  have ok: "store_ok s" using Suc.prems(1) by (simp add: settled_def)
  show ?case
  proof (cases u)
    case (TLeaf p es nx)
    then show ?thesis using Suc.prems same_store_refl [OF ok] tx_down_leaf
      by (intro exI [of _ fs] exI [of _ p] exI [of _ es] exI [of _ nx] exI [of _ s]) simp
  next
    case (TNode p ks ts)
    obtain f v where f: "at_leaf t key n (f # fs) v" "fr_page f = p" "ks = fr_lkeys f @ fr_rkeys f" "ts = fr_lkids f @ v # fr_rkids f"
      "length (fr_lkids f) = key_pos key ks"
      using at_leaf_step Suc.prems(2) TNode by blast
    have fw: "frame_wf f" using f(1) by (simp add: at_leaf_def)
    have c: "tx_find_child (node_of u) key = Ok (tree_page v)"
      using tx_find_child_step [OF f(5) [unfolded f(3)] fw, of p v] f(3,4) TNode by simp
    have v: "tree_wf v" "stored (page_content s) v" "height_le fuel v"
      using f(1,4) Suc.prems(2,3,4) TNode by (auto simp: at_leaf_def stored_fill)
    have vp: "tree_page v \<in> set (tree_pages t)" using f(1) tree_page_in [of v] unfolding at_leaf_def by (auto simp: set_pages_fill simp del: fill.simps)
    obtain s1 where s1: "tx_read_node (tree_page v) (tb, w, s) = (Ok (node_of v), tb, w, s1)" "same_store s s1"
      using tx_read_tree [OF Suc.prems(1) vp v(1,2)] by blast
    have "settled (set (tree_pages t)) (tb, w, s1)" "stored (page_content s1) t"
      using same_store_settled [OF Suc.prems(1) s1(2)] s1(2) Suc.prems(3) by (simp_all add: same_store_def)
    from Suc.IH [OF this(1) f(1) this(2) v(3)] obtain fs' p' es nx s' where
      r: "tx_find_leaf fuel (node_of v) key (path_of (f # fs) v) (tb, w, s1) = (Ok (leaf_node p' es nx, path_of fs' (TLeaf p' es nx)), tb, w, s')"
        "at_leaf t key n fs' (TLeaf p' es nx)" "same_store s1 s'" by blast
    have "path_of fs u @ [tree_page v] = path_of (f # fs) v" using TNode f(2) by (simp add: path_of_def)
    then have "tx_find_leaf (Suc fuel) (node_of u) key (path_of fs u) (tb, w, s) = (Ok (leaf_node p' es nx, path_of fs' (TLeaf p' es nx)), tb, w, s')"
      using c s1(1) r(1) TNode by (subst tx_find_leaf.simps) simp
    then show ?thesis using r(2) same_store_trans [OF s1(2) r(3)] by blast
  qed
qed

lemma tx_find_leaf_rep:
  assumes "tx_rep n (tb, w, s) t" "n \<le> fuel"
  shows "\<exists>s0 fs p es nx s'. tx_read_node (get_current_root tb) (tb, w, s) = (Ok (node_of t), tb, w, s0) \<and>
    tx_find_leaf fuel (node_of t) key [get_current_root tb] (tb, w, s0) = (Ok (leaf_node p es nx, path_of fs (TLeaf p es nx)), tb, w, s') \<and>
    at_leaf t key n fs (TLeaf p es nx) \<and> same_store s s'"
proof -
  note a = tx_rep_parts [OF assms(1)]
  obtain s0 where s0: "tx_read_node (tree_page t) (tb, w, s) = (Ok (node_of t), tb, w, s0)" "same_store s s0"
    using tx_read_tree [OF a(1) tree_page_in a(8,3)] by blast
  have l: "at_leaf t key n [] t" by (rule at_leaf_root [OF a(8,9,10)])
  have s0': "settled (set (tree_pages t)) (tb, w, s0)" "stored (page_content s0) t"
    using same_store_settled [OF a(1) s0(2)] s0(2) a(3) by (simp_all add: same_store_def)
  obtain fs p es nx s' where "tx_find_leaf fuel (node_of t) key (path_of [] t) (tb, w, s0) = (Ok (leaf_node p es nx, path_of fs (TLeaf p es nx)), tb, w, s')"
    "at_leaf t key n fs (TLeaf p es nx)" "same_store s0 s'"
    using tx_find_leaf_spec [OF s0'(1) l s0'(2) height_mono [OF a(10) assms(2)]] by blast
  then show ?thesis using s0 a(5) same_store_trans [OF s0(2)] by (auto simp: path_of_def)
qed

lemma tx_down_zero: "bn_node_type node = InternalNode \<Longrightarrow> tx_find_leaf 0 node key path st = (Panic, st)"
  by (simp add: tx_find_leaf.simps)

lemma tx_down_Suc:
  "bn_node_type node = InternalNode \<Longrightarrow> tx_search_down (Suc fuel) node key st =
    and_then (tx_find_child node key, st) (\<lambda>c st. and_then (tx_read_node c st) (\<lambda>node st. tx_search_down fuel node key st))"
  "bn_node_type node = InternalNode \<Longrightarrow> tx_find_leaf (Suc fuel) node key path st =
    and_then (tx_find_child node key, st) (\<lambda>c st. and_then (tx_read_node c st) (\<lambda>child st. tx_find_leaf fuel child key (path @ [c]) st))"
  by (simp_all add: tx_search_down.simps [of "Suc fuel"] tx_find_leaf.simps [of "Suc fuel"])

lemma tx_search_down_find_leaf:
  "tx_find_leaf fuel node key path st = (Ok (leaf, path'), st') \<Longrightarrow> tx_search_down fuel node key st = (Ok leaf, st')"
proof (induction fuel arbitrary: node path st)
  case 0
  then show ?case by (cases "bn_node_type node") (simp_all add: tx_down_leaf tx_down_zero tx_search_down.simps)
next
  case (Suc fuel)
  show ?case
  proof (cases "bn_node_type node")
    case InternalNode
    then obtain c n st1 where "tx_find_child node key = Ok c" "tx_read_node c st = (Ok n, st1)"
      "tx_find_leaf fuel n key (path @ [c]) st1 = (Ok (leaf, path'), st')"
      using Suc.prems by (auto simp: tx_down_Suc and_then_Ok_iff)
    then show ?thesis using Suc.IH InternalNode by (simp add: tx_down_Suc)
  next
    case LeafNode
    then show ?thesis using Suc.prems by (simp add: tx_down_leaf tx_search_down.simps)
  qed
qed

lemma tx_search_rep:
  assumes "tx_rep n (tb, w, s) t" "n \<le> fuel"
  shows "\<exists>s'. tx_search fuel key (tb, w, s) = (case tree_map t key of Some v \<Rightarrow> Ok v | None \<Rightarrow> Err (not_in_tree key), tb, w, s') \<and> same_store s s'"
proof -
  obtain s0 fs p es nx s' where f: "tx_read_node (get_current_root tb) (tb, w, s) = (Ok (node_of t), tb, w, s0)"
    "tx_find_leaf fuel (node_of t) key [get_current_root tb] (tb, w, s0) = (Ok (leaf_node p es nx, path_of fs (TLeaf p es nx)), tb, w, s')"
    "at_leaf t key n fs (TLeaf p es nx)" "same_store s s'"
    using tx_find_leaf_rep [OF assms] by blast
  have sd: "tx_search_down fuel (node_of t) key (tb, w, s0) = (Ok (leaf_node p es nx), tb, w, s')"
    by (rule tx_search_down_find_leaf [OF f(2)])
  have "tree_map t key = find_entry key es" using at_leaf_lookup [OF f(3)] by (simp add: tree_map_def find_entry_lookup)
  then show ?thesis using f(1,4) sd by (simp add: tx_search_def)
qed

lemma tx_leaf_parts:
  assumes "tx_rep n (tb, w, s) t" "at_leaf t key n fs (TLeaf p es nx)"
  shows "t = fill fs (TLeaf p es nx)" "list_all frame_wf fs" "ctx_stored (page_content s) fs p" "set (tree_pages t) = insert p (set (ctx_pages fs))"
    "distinct (ctx_pages fs)" "p \<notin> set (ctx_pages fs)" "get_current_root tb = (if fs = [] then p else fr_page (last fs))"
proof -
  note a = tx_rep_parts [OF assms(1)]
  show t: "t = fill fs (TLeaf p es nx)" and "list_all frame_wf fs" using assms(2) by (simp_all add: at_leaf_def)
  show "ctx_stored (page_content s) fs p" using a(3) t by (simp add: stored_fill)
  show "set (tree_pages t) = insert p (set (ctx_pages fs))" unfolding t set_pages_fill by simp
  show "distinct (ctx_pages fs)" "p \<notin> set (ctx_pages fs)" using a(4) unfolding t distinct_pages_fill by simp_all
  show "get_current_root tb = (if fs = [] then p else fr_page (last fs))" using a(5) t by (simp add: tree_page_fill)
qed

lemma hole_leaf_write:
  assumes rep: "tx_rep n (tb, w, s) t" and al: "at_leaf t key n fs (TLeaf p es0 nx)" and room: "room (Suc z) s" and f: "fits (leaf_node p es nx)"
  shows "\<exists>q st'. tx_write_node (leaf_node p es nx) (tb, w, s) = (Ok q, st') \<and> hole_state z fs p (TLeaf q es nx) st' \<and> cow_used st' \<and>
    tx_kept (new_set tb) (tb, w, s) st'"
proof -
  note a = tx_rep_parts [OF rep] and b = tx_leaf_parts [OF rep al]
  let ?n = "leaf_node p es nx"
  have pn: "bn_page_num ?n = p" by simp
  have pin: "bn_page_num ?n \<in> set (tree_pages t)" using b(4) by simp
  have root: "get_current_root tb \<in> in_use s" using a(5,7) tree_page_in [of t] by auto
  obtain q s' where q: "tx_write_node ?n (tb, w, s) = (Ok q, copied p q tb, hm_insert q (page_image ?n) w, s')" "store_ok s'" "room z s'"
    "in_use s \<subseteq> in_use s'" "q \<in> in_use s'" "page_content s' = (page_content s)(q \<mapsto> page_image ?n)" "pg_metadata_page s' = pg_metadata_page s"
    "if p \<in> new_set tb then q = p else q \<notin> in_use s"
    using tx_write_step [OF a(1) pin root f room] unfolding pn by blast
  let ?u = "TLeaf q es nx" and ?tb = "copied p q tb" and ?w = "hm_insert q (page_image ?n) w"
  have pu: "p \<in> in_use s" using a(7) b(4) by auto
  have q0: "q \<noteq> 0" using q(5) by (auto simp: in_use_def)
  have qn: "q \<notin> set (ctx_pages fs)" using q(8) b(4,6) a(7) by (auto split: if_splits)
  have cq: "hm_get (tb_cow_pages tb) q = None"
  proof (cases "p \<in> new_set tb")
    case True
    then show ?thesis using q(8) a(1) b(4) by (simp add: settled_def)
  next
    case False
    then show ?thesis using q(8) a(11) by (cases "hm_get (tb_cow_pages tb) q") (auto simp: cow_used_def)
  qed
  have nq: "hm_get (tb_cow_pages tb) q = None \<and> (p \<in> new_set tb \<or> q \<noteq> p)" using cq q(8) pu by (auto split: if_splits)
  have sp: "set (ctx_pages fs) \<union> set (tree_pages ?u) \<subseteq> insert q (set (tree_pages t) - {p})" using b(4,6) by auto
  have hole: "hole_state z fs p ?u (?tb, ?w, s')"
  proof (rule hole_stateI)
    show "settled (set (ctx_pages fs) \<union> set (tree_pages ?u)) (?tb, ?w, s')" by (rule settled_write [OF a(1) q(2,4,5,6,8) sp nq])
    show "room z s'" by (rule q(3))
    show "list_all frame_wf fs" by (rule b(2))
    show "stored (page_content s') ?u" using q(6) page_image_move(2) [of p es nx q] by simp
    show "ctx_stored (page_content s') fs p" using b(3) qn q(6) ctx_stored_upd_other by simp
    show "distinct (ctx_pages fs @ tree_pages ?u)" using b(5) qn by simp
    show "p \<notin> set (ctx_pages fs)" by (rule b(6))
    show "tree_page ?u = p \<or> hm_get (tb_cow_pages ?tb) p = Some (tree_page ?u)" using q(8) by (auto simp: cow_copied)
    show "get_current_root ?tb = (if fs = [] then tree_page ?u else fr_page (last fs))"
    proof (cases "fs = []")
      case True
      then show ?thesis using root_copied [OF q0, of p tb] b(7) q(8) by auto
    next
      case False
      then have "p \<noteq> get_current_root tb" using b(6,7) last_page_in [OF False] by auto
      then show ?thesis using root_copied [OF q0, of p tb] b(7) False by simp
    qed
    show "new_set ?tb \<subseteq> in_use s'" using new_set_copied [of p q tb] a(6) q(4,5) by auto
  qed
  have "cow_used (?tb, ?w, s')" using a(11) q(4) pu by (auto simp: cow_used_def cow_copied)
  moreover have "tx_kept (new_set tb) (tb, w, s) (?tb, ?w, s')"
    unfolding tx_kept_def prod.case using q(4,5,6,7,8) a(6) new_set_copied [of p q tb] by auto
  ultimately show ?thesis using q(1) hole by blast
qed

text \<open>A leaf is changed: it and the path above it are written, on pages of the transaction.\<close>

lemma tx_change_leaf:
  assumes rep: "tx_rep n (tb, w, s) t" and al: "at_leaf t key n fs (TLeaf p es0 nx)" and room: "room (n + 1 + z) s" and key: "tree_key key"
    and es: "entries_sorted es" "\<forall>e \<in> set es. e \<in> set es0 \<or> en_key e = key" "length es \<le> BTREE_ORDER"
  shows "\<exists>q st' t'. and_then (tx_write_node (leaf_node p es nx) (tb, w, s)) (\<lambda>_ st. tx_update_path_after_modification (path_of fs (TLeaf p es0 nx)) st) = (Ok (), st') \<and>
    tx_rep n st' t' \<and> leaves t' = lleaves fs @ [(q, es, nx)] @ rleaves fs \<and> room z (snd (snd st')) \<and> tx_kept (new_set tb) (tb, w, s) st'"
proof -
  have tk: "list_all (\<lambda>e. tree_key (en_key e)) es" using al es(2) key by (auto simp: at_leaf_def list_all_iff)
  then have f: "fits (leaf_node p es nx)" by (rule fits_leaf [OF es(3)])
  obtain lo hi m where c: "ctx_ordered fs lo hi" "in_range lo hi key" "ordered lo hi (TLeaf p es0 nx)" "ctx_height n fs m" "list_all frame_wf fs"
    using al by (auto simp: at_leaf_def)
  have "Suc (length fs + z) \<le> n + 1 + z" using ctx_height_length [OF c(4)] by simp
  then have r: "room (Suc (length fs + z)) s" by (rule room_mono [OF room])
  obtain q tb1 w1 s1 where q: "tx_write_node (leaf_node p es nx) (tb, w, s) = (Ok q, tb1, w1, s1)" "hole_state (length fs + z) fs p (TLeaf q es nx) (tb1, w1, s1)"
    "cow_used (tb1, w1, s1)" "tx_kept (new_set tb) (tb, w, s) (tb1, w1, s1)"
    using hole_leaf_write [OF rep al r f] by (metis prod.exhaust)
  obtain fs' st' where u: "tx_update_path (length fs) (rev (map fr_page fs) @ p # []) (tb1, w1, s1) = (Ok (), st')" "moved fs fs'"
    "hole_state z [] (tree_page (fill fs' (TLeaf q es nx))) (fill fs' (TLeaf q es nx)) st'" "cow_used st'" "tx_kept (new_set tb1) (tb1, w1, s1) st'"
    using tx_update_path_spec [OF q(2,3), of "[]"] by blast
  let ?t = "fill fs' (TLeaf q es nx)"
  note mv = moved_facts [OF u(2)]
  have len: "length (path_of fs (TLeaf p es0 nx)) - 1 = length fs" "length (path_of fs (TLeaf p es0 nx)) \<le> 1 \<longleftrightarrow> fs = []" by (simp_all add: path_of_def)
  have up: "tx_update_path_after_modification (path_of fs (TLeaf p es0 nx)) (tb1, w1, s1) = (Ok (), st')"
    using u(1) len by (auto simp: tx_update_path_after_modification_def path_of_def)
  have "ordered lo hi (TLeaf q es nx)" "tree_wf (TLeaf q es nx)" using c(2,3) es tk by (auto simp: list_all_iff)
  then have "tree_wf ?t" "ordered None None ?t" "height_le n ?t"
    using wf_fill [of "TLeaf q es nx" fs'] ordered_fill [of fs' lo hi "TLeaf q es nx"] height_fill [of n fs' m "TLeaf q es nx"] mv c by auto
  moreover obtain tb' w' s' where st': "st' = (tb', w', s')" by (cases st') auto
  have r: "room z s'" using hole_parts(2) u(3) st' by simp
  have "hole_state 0 [] (tree_page ?t) ?t st'"
    unfolding st' using hole_parts [OF u(3) [unfolded st']] room_mono [OF r, of 0] by (intro hole_stateI) simp_all
  ultimately have "tx_rep n st' ?t" using u(4) by (simp add: tx_rep_def)
  moreover have "leaves ?t = lleaves fs @ [(q, es, nx)] @ rleaves fs" using mv by (simp add: leaves_fill)
  moreover have "tx_kept (new_set tb) (tb, w, s) st'" using tx_kept_trans [OF q(4)] u(5) by simp
  ultimately show ?thesis using q(1) up r st' by (intro exI [of _ q] exI [of _ st'] exI [of _ ?t]) simp
qed

lemma tx_kept_same: "same_store s s' \<Longrightarrow> tx_kept N (tb, w, s) st \<Longrightarrow> tx_kept N (tb, w, s') st"
  by (cases st) (auto simp: tx_kept_def same_store_def)

lemma tx_kept_refl: "same_store s s' \<Longrightarrow> tx_kept (new_set tb) (tb, w, s) (tb, w, s')"
  by (auto simp: tx_kept_def same_store_def)

lemma tx_leaf_op:
  assumes rep: "tx_rep n (tb, w, s) t" and fuel: "n \<le> fuel" and room: "room (n + 1 + z) s"
    and G: "leaf_change k G" and F: "\<And>es. entries_sorted es \<Longrightarrow> F es = (if lookup_entry k es = None then None else Some (G es))"
    and run: "\<And>st. op st = (let root_page = get_current_root (fst st) in
      and_then (tx_read_node root_page st) (\<lambda>node st. and_then (tx_find_leaf fuel node k [root_page] st) (\<lambda>(leaf, path) st.
      case F (bn_entries leaf) of None \<Rightarrow> (Err (not_in_tree k), st)
      | Some es \<Rightarrow> and_then (tx_write_node (upd leaf es) st) (\<lambda>_ st. tx_update_path_after_modification path st))))"
    and upd: "\<And>p es nx. entries_sorted es \<Longrightarrow> lookup_entry k es \<noteq> None \<Longrightarrow> upd (leaf_node p es nx) (G es) = leaf_node p (G es) nx"
  shows "\<exists>st' t'. op (tb, w, s) = (if tree_map t k = None then Err (not_in_tree k) else Ok (), st') \<and> tx_rep n st' t' \<and>
    (if tree_map t k = None then t' = t else changed k G (leaves t) (leaves t')) \<and> room z (snd (snd st')) \<and> tx_kept (new_set tb) (tb, w, s) st'"
proof -
  obtain s0 fs p es nx s1 where f: "tx_read_node (get_current_root tb) (tb, w, s) = (Ok (node_of t), tb, w, s0)"
    "tx_find_leaf fuel (node_of t) k [get_current_root tb] (tb, w, s0) = (Ok (leaf_node p es nx, path_of fs (TLeaf p es nx)), tb, w, s1)"
    "at_leaf t k n fs (TLeaf p es nx)" "same_store s s1"
    using tx_find_leaf_rep [OF rep fuel] by blast
  have so: "entries_sorted es" "tree_wf (TLeaf p es nx)" using f(3) by (auto simp: at_leaf_def)
  have tm: "tree_map t k = lookup_entry k es" using at_leaf_lookup [OF f(3)] by (simp add: tree_map_def)
  have lv: "leaves t = lleaves fs @ [(p, es, nx)] @ rleaves fs" using f(3) by (simp add: at_leaf_def leaves_fill)
  have o: "op (tb, w, s) = (case F es of None \<Rightarrow> (Err (not_in_tree k), tb, w, s1)
      | Some es' \<Rightarrow> and_then (tx_write_node (upd (leaf_node p es nx) es') (tb, w, s1)) (\<lambda>_ st. tx_update_path_after_modification (path_of fs (TLeaf p es nx)) st))"
    unfolding run by (simp add: f(1,2) split: option.split)
  have rep1: "tx_rep n (tb, w, s1) t" and room1: "room (n + 1 + z) s1" using tx_rep_same [OF rep f(4)] room f(4) by (simp_all add: same_store_def)
  show ?thesis
  proof (cases "lookup_entry k es")
    case None
    have "room z s1" by (rule room_mono [OF room1]) simp
    then show ?thesis using o F [OF so(1)] None tm rep1 tx_kept_refl [OF f(4), of tb w] by (intro exI [of _ "(tb, w, s1)"] exI [of _ t]) simp
  next
    case (Some v)
    then have "k \<in> en_key ` set es" by (metis lookup_None_iff option.distinct(1))
    then have key: "tree_key k" using so(2) by (auto simp: list_all_iff)
    have g: "entries_sorted (G es)" "\<forall>e \<in> set (G es). e \<in> set es \<or> en_key e = k" "length (G es) \<le> BTREE_ORDER"
      using G so Some unfolding leaf_change_def by fastforce+
    obtain q st' t' where c: "and_then (tx_write_node (leaf_node p (G es) nx) (tb, w, s1)) (\<lambda>_ st. tx_update_path_after_modification (path_of fs (TLeaf p es nx)) st) = (Ok (), st')"
      "tx_rep n st' t'" "leaves t' = lleaves fs @ [(q, G es, nx)] @ rleaves fs" "room z (snd (snd st'))" "tx_kept (new_set tb) (tb, w, s1) st'"
      using tx_change_leaf [OF rep1 f(3) room1 key g] by blast
    have u: "upd (leaf_node p es nx) (G es) = leaf_node p (G es) nx" using upd so(1) Some by simp
    have oo: "op (tb, w, s) = (Ok (), st')" using o F [OF so(1)] Some u c(1) by simp
    have "tx_kept (new_set tb) (tb, w, s) st'" using tx_kept_trans [OF tx_kept_refl [OF f(4), of tb w]] c(5) by simp
    moreover have "changed k G (leaves t) (leaves t')"
      unfolding changed_def lv c(3) using at_leaf_sides [OF f(3)] Some
      by (intro exI [of _ "lleaves fs"] exI [of _ p] exI [of _ q] exI [of _ es] exI [of _ nx] exI [of _ "rleaves fs"]) simp
    ultimately show ?thesis using oo Some tm c(2,4) by (intro exI [of _ st'] exI [of _ t']) simp
  qed
qed

lemma remove_change: "leaf_change k (remove_key k)"
  unfolding leaf_change_def using entries_sorted_remove by (auto simp: remove_key_def)

lemma length_insert_old: "entries_sorted es \<Longrightarrow> lookup_entry (en_key x) es \<noteq> None \<Longrightarrow> length (insert_entry x es) = length es"
proof (induction es)
  case (Cons e es)
  have "lookup_entry (en_key x) es = None" if "en_key x < en_key e" using Cons.prems(1) that by (fastforce simp: lookup_None_iff)
  then show ?case using Cons by (auto split: if_splits)
qed simp

lemma insert_change: "leaf_change (en_key x) (insert_entry x)"
  unfolding leaf_change_def using sorted_insert_entry insert_entry_sub length_insert_old by fastforce

lemma changed_lookup:
  assumes "changed k G ls ls'" "\<And>es x. lookup_entry k es \<noteq> None \<Longrightarrow> entries_sorted es \<Longrightarrow> lookup_entry x (G es) = (if x = k then r else lookup_entry x es)"
    "entries_sorted (leaf_entries ls)"
  shows "lookup_entry x (leaf_entries ls') = (if x = k then r else lookup_entry x (leaf_entries ls))"
proof -
  obtain as p q es nx bs where c: "ls = as @ [(p, es, nx)] @ bs" "ls' = as @ [(q, G es, nx)] @ bs" "lookup_entry k es \<noteq> None"
    "\<forall>e \<in> set (leaf_entries as). en_key e < k" "\<forall>e \<in> set (leaf_entries bs). k < en_key e"
    using assms(1) by (auto simp: changed_def)
  have es: "entries_sorted es" using assms(3) unfolding c(1) by (simp add: entries_sorted_append)
  have n: "lookup_entry k (leaf_entries as) = None" "lookup_entry k (leaf_entries bs) = None"
    using c(4,5) by (auto simp: lookup_None_iff)
  show ?thesis using n assms(2) [OF c(3) es] c(1,2) by (auto simp: lookup_append split: option.splits)
qed

lemma case_option_if: "(case (if P then None else Some x) of None \<Rightarrow> a | Some y \<Rightarrow> b y) = (if P then a else b x)"
  by simp

lemma tx_delete_rep:
  assumes rep: "tx_rep n (tb, w, s) t" and "n \<le> fuel" "room (n + 1 + z) s"
  shows "\<exists>st' t'. tx_delete fuel k (tb, w, s) = (if tree_map t k = None then Err (not_in_tree k) else Ok (), st') \<and> tx_rep n st' t' \<and>
    (if tree_map t k = None then t' = t else changed k (remove_key k) (leaves t) (leaves t')) \<and> room z (snd (snd st')) \<and> tx_kept (new_set tb) (tb, w, s) st'"
proof (rule tx_leaf_op [OF assms remove_change, where F = "\<lambda>es. if length (remove_key k es) = length es then None else Some (remove_key k es)"
      and upd = "\<lambda>leaf es. leaf\<lparr>bn_entries := es, bn_num_keys := word_of_nat (length es)\<rparr>"])
  show "(if length (remove_key k es) = length es then None else Some (remove_key k es)) = (if lookup_entry k es = None then None else Some (remove_key k es))" for es
  proof -
    have "length (remove_key k es) = length es \<longleftrightarrow> lookup_entry k es = None"
    proof (cases "lookup_entry k es")
      case None
      then have "remove_key k es = es" by (intro remove_key_other) (auto simp: lookup_None_iff)
      then show ?thesis using None by simp
    next
      case (Some v)
      then have "k \<in> en_key ` set es" by (metis lookup_None_iff option.distinct(1))
      then obtain e where "e \<in> set es" "en_key e = k" by auto
      then have "length (remove_key k es) < length es" using length_filter_less [of e es "\<lambda>e. en_key e \<noteq> k"] by (simp add: remove_key_def)
      then show ?thesis using Some by simp
    qed
    then show ?thesis by simp
  qed
  show "tx_delete fuel k st = (let root_page = get_current_root (fst st) in
      and_then (tx_read_node root_page st) (\<lambda>node st. and_then (tx_find_leaf fuel node k [root_page] st) (\<lambda>(leaf, path) st.
      case (if length (remove_key k (bn_entries leaf)) = length (bn_entries leaf) then None else Some (remove_key k (bn_entries leaf))) of
        None \<Rightarrow> (Err (not_in_tree k), st)
      | Some es \<Rightarrow> and_then (tx_write_node (leaf\<lparr>bn_entries := es, bn_num_keys := word_of_nat (length es)\<rparr>) st) (\<lambda>_ st. tx_update_path_after_modification path st))))" for st
    unfolding tx_delete_def Let_def remove_key_def case_option_if by (rule refl)
  show "(leaf_node p es nx)\<lparr>bn_entries := remove_key k es, bn_num_keys := word_of_nat (length (remove_key k es))\<rparr> = leaf_node p (remove_key k es) nx" for p es nx
    by (rule leaf_node_upd)
qed

lemma tx_update_rep:
  assumes rep: "tx_rep n (tb, w, s) t" and "n \<le> fuel" "room (n + 1 + z) s"
  shows "\<exists>st' t'. tx_update fuel k v (tb, w, s) = (if tree_map t k = None then Err (not_in_tree k) else Ok (), st') \<and> tx_rep n st' t' \<and>
    (if tree_map t k = None then t' = t else changed k (insert_entry \<lparr>en_key = k, en_value = v\<rparr>) (leaves t) (leaves t')) \<and> room z (snd (snd st')) \<and> tx_kept (new_set tb) (tb, w, s) st'"
proof (rule tx_leaf_op [OF assms, where F = "replace_value \<lparr>en_key = k, en_value = v\<rparr>" and upd = "\<lambda>leaf es. leaf\<lparr>bn_entries := es\<rparr>"])
  let ?x = "\<lparr>en_key = k, en_value = v\<rparr>"
  show "leaf_change k (insert_entry ?x)" using insert_change [of ?x] by simp
  show "replace_value ?x es = (if lookup_entry k es = None then None else Some (insert_entry ?x es))" if "entries_sorted es" for es
    using replace_value_eq [OF that, of ?x] by simp
  show "tx_update fuel k v st = (let root_page = get_current_root (fst st) in
      and_then (tx_read_node root_page st) (\<lambda>node st. and_then (tx_find_leaf fuel node k [root_page] st) (\<lambda>(leaf, path) st.
      case replace_value ?x (bn_entries leaf) of None \<Rightarrow> (Err (not_in_tree k), st)
      | Some es \<Rightarrow> and_then (tx_write_node (leaf\<lparr>bn_entries := es\<rparr>) st) (\<lambda>_ st. tx_update_path_after_modification path st))))" for st
    by (simp add: tx_update_def)
  show "(leaf_node p es nx)\<lparr>bn_entries := insert_entry ?x es\<rparr> = leaf_node p (insert_entry ?x es) nx" if "entries_sorted es" "lookup_entry k es \<noteq> None" for p es nx
    using length_insert_old [of es ?x] that by (simp add: leaf_node_def)
qed

subsection \<open>Histories of a transaction\<close>

lemma tx_op_rep:
  assumes "tx_rep n (tb, w, s) t" "n \<le> fuel" "room (n + 1 + z) s"
  shows "\<exists>st' t'. run_op (tx_update fuel) (tx_delete fuel) x (tb, w, s) =
      (if tree_map t (op_key x) = None then Err (not_in_tree (op_key x)) else Ok (), st') \<and> tx_rep n st' t' \<and>
    tree_map t' = change x (tree_map t) \<and> room z (snd (snd st')) \<and> tx_kept (new_set tb) (tb, w, s) st'"
proof -
  have so: "entries_sorted (leaf_entries (leaves t))" using tx_rep_parts(9) [OF assms(1)] ordered_entries(1) by blast
  show ?thesis
  proof (cases x)
    case (Put k v)
    let ?x = "\<lparr>en_key = k, en_value = v\<rparr>"
    obtain st' t' where u: "tx_update fuel k v (tb, w, s) = (if tree_map t k = None then Err (not_in_tree k) else Ok (), st')" "tx_rep n st' t'"
      "if tree_map t k = None then t' = t else changed k (insert_entry ?x) (leaves t) (leaves t')" "room z (snd (snd st'))" "tx_kept (new_set tb) (tb, w, s) st'"
      using tx_update_rep [OF assms] by blast
    have "tree_map t' = change x (tree_map t)"
    proof (cases "tree_map t k")
      case None
      then show ?thesis using u(3) Put by simp
    next
      case (Some v0)
      have "lookup_entry y (leaf_entries (leaves t')) = (if y = k then Some v else lookup_entry y (leaf_entries (leaves t)))" for y
        using u(3) Some lookup_insert_entry [of _ _ ?x] by (intro changed_lookup [OF _ _ so, of k "insert_entry ?x"]) auto
      then show ?thesis using Put Some by (auto simp: tree_map_def)
    qed
    then show ?thesis using u(1,2,4,5) Put by (intro exI [of _ st'] exI [of _ t']) (simp add: run_op_def)
  next
    case (Del k)
    obtain st' t' where u: "tx_delete fuel k (tb, w, s) = (if tree_map t k = None then Err (not_in_tree k) else Ok (), st')" "tx_rep n st' t'"
      "if tree_map t k = None then t' = t else changed k (remove_key k) (leaves t) (leaves t')" "room z (snd (snd st'))" "tx_kept (new_set tb) (tb, w, s) st'"
      using tx_delete_rep [OF assms] by blast
    have "tree_map t' = change x (tree_map t)"
    proof (cases "tree_map t k")
      case None
      then show ?thesis using u(3) Del by auto
    next
      case (Some v0)
      have "lookup_entry y (leaf_entries (leaves t')) = (if y = k then None else lookup_entry y (leaf_entries (leaves t)))" for y
        using u(3) Some lookup_remove_key by (intro changed_lookup [OF _ _ so, of k "remove_key k"]) auto
      then show ?thesis using Del by (auto simp: tree_map_def)
    qed
    then show ?thesis using u(1,2,4,5) Del by (intro exI [of _ st'] exI [of _ t']) (simp add: run_op_def)
  qed
qed

lemma tx_history:
  "tx_rep n st t \<Longrightarrow> n \<le> fuel \<Longrightarrow> room (length xs * (n + 1)) (snd (snd st)) \<Longrightarrow>
   \<exists>st' t'. run_ops (tx_update fuel) (tx_delete fuel) xs st = (change_results xs (tree_map t), st') \<and> tx_rep n st' t' \<and>
     tree_map t' = fold change xs (tree_map t) \<and> tx_kept (new_set (fst st)) st st'"
proof (induction xs arbitrary: st t)
  case Nil
  then show ?case by (cases st) (auto simp: tx_kept_def)
next
  case (Cons x xs)
  obtain tb w s where st: "st = (tb, w, s)" by (cases st) auto
  have r: "room (n + 1 + length xs * (n + 1)) s" using Cons.prems(3) st by (simp add: algebra_simps)
  have rep: "tx_rep n (tb, w, s) t" using Cons.prems(1) st by simp
  obtain st1 t1 where o: "run_op (tx_update fuel) (tx_delete fuel) x st = (if tree_map t (op_key x) = None then Err (not_in_tree (op_key x)) else Ok (), st1)"
    "tx_rep n st1 t1" "tree_map t1 = change x (tree_map t)" "room (length xs * (n + 1)) (snd (snd st1))" "tx_kept (new_set (fst st)) st st1"
    using tx_op_rep [OF rep Cons.prems(2) r, of x] unfolding st by (auto simp del: change.simps)
  obtain st2 t2 where p: "run_ops (tx_update fuel) (tx_delete fuel) xs st1 = (change_results xs (tree_map t1), st2)" "tx_rep n st2 t2"
    "tree_map t2 = fold change xs (tree_map t1)" "tx_kept (new_set (fst st1)) st1 st2"
    using Cons.IH [OF o(2) Cons.prems(2) o(4)] by blast
  show ?case using o(1,3) p tx_kept_trans [OF o(5) p(4)] by (intro exI [of _ st2] exI [of _ t2]) simp
qed

subsection \<open>Snapshots and commits\<close>

lemma tx_start:
  assumes "tree_rep n (bt, s) t" "room z s"
  shows "tx_rep n (tx_btree_new (bt_root_page bt), [], s) t"
proof -
  have a: "store_ok s" "tree_page t = bt_root_page bt" "stored (page_content s) t" "tree_wf t" "ordered None None t" "height_le n t" "distinct (tree_pages t)" "set (tree_pages t) \<subseteq> in_use s"
    using assms(1) by (simp_all add: tree_rep_def)
  have "room 0 s" by (rule room_mono [OF assms(2)]) simp
  then have "hole_state 0 [] (tree_page t) t (tx_btree_new (bt_root_page bt), [], s)"
    using a by (intro hole_stateI) (simp_all add: settled_def tx_btree_new_def get_current_root_def new_set_def hm_contains_def)
  then show ?thesis using a by (simp add: tx_rep_def cow_used_def tx_btree_new_def)
qed

lemma tx_committed:
  assumes "tx_rep n (tb, w, s) t"
  shows "tree_rep n (btree_open (get_current_root tb), s) t"
  using tx_rep_parts [OF assms] by (simp add: tree_rep_def idle_def btree_open_def)

lemma new_set_start [simp]: "new_set (tx_btree_new r) = {}"
  by (simp add: new_set_def tx_btree_new_def hm_contains_def)

lemma tx_kept_state:
  assumes "tree_state n P m (bt, s)" "tx_kept {} (tb, w, s) (tb', w', s')" "store_ok s'"
  shows "tree_state n P m (bt, s')"
proof -
  have "within s {} s' {}" using assms(2) unfolding tx_kept_def within_def by simp
  then show ?thesis by (rule tree_state_frame [OF assms(1) _ _ assms(3)]) simp
qed

text \<open>
  C8: A transaction works on copies. After any history of updates and deletions in the B-tree of a transaction, each of which reports what it would on a map,
  a search in the transaction sees their effect; the committed tree, read from its root, still is the map that it was, so other
  transactions keep their snapshot; and the root that the transaction hands over at its commit leads to the changed map.
\<close>

theorem tx_snapshot_isolation:
  assumes "tree_state n P m (bt, s)" "n \<le> fuel" "room (length xs * (n + 1)) s"
  shows "\<exists>tb w s'. run_ops (tx_update fuel) (tx_delete fuel) xs (tx_btree_new (get_root_page bt), [], s) = (change_results xs m, tb, w, s') \<and>
    (\<forall>k. fst (tx_search fuel k (tb, w, s')) = (case fold change xs m k of Some v \<Rightarrow> Ok v | None \<Rightarrow> Err (not_in_tree k))) \<and>
    tree_state n P m (bt, s') \<and>
    (\<forall>k. fst (btree_search fuel k (btree_open (get_current_root tb), s')) = (case fold change xs m k of Some v \<Rightarrow> Ok v | None \<Rightarrow> Err NotFound))"
proof -
  obtain t where t: "tree_rep n (bt, s) t" "tree_map t = m" using assms(1) by (auto simp: tree_state_def)
  have r: "get_root_page bt = bt_root_page bt" using t(1) root_page_idle by (simp add: tree_rep_def)
  have "room (length xs * (n + 1)) (snd (snd (tx_btree_new (bt_root_page bt), [] :: page_writes, s)))" using assms(3) by simp
  from tx_history [OF tx_start [OF t(1) assms(3)] assms(2) this] obtain tb w s' t' where
    h: "run_ops (tx_update fuel) (tx_delete fuel) xs (tx_btree_new (bt_root_page bt), [], s) = (change_results xs m, tb, w, s')" "tx_rep n (tb, w, s') t'"
    "tree_map t' = fold change xs m" "tx_kept {} (tx_btree_new (bt_root_page bt), [], s) (tb, w, s')"
    unfolding t(2) by auto
  have "fst (tx_search fuel k (tb, w, s')) = (case fold change xs m k of Some v \<Rightarrow> Ok v | None \<Rightarrow> Err (not_in_tree k))" for k
    using tx_search_rep [OF h(2) assms(2), of k] h(3) by auto
  moreover have "fst (btree_search fuel k (btree_open (get_current_root tb), s')) = (case fold change xs m k of Some v \<Rightarrow> Ok v | None \<Rightarrow> Err NotFound)" for k
    using search_rep [OF tx_committed [OF h(2)] assms(2), of k] h(3) by auto
  moreover have "tree_state n P m (bt, s')" by (rule tx_kept_state [OF assms(1) h(4) tx_rep_parts(2) [OF h(2)]])
  ultimately show ?thesis using h(1) unfolding r by blast
qed

text \<open>A tree of more than \<open>BTREE_ORDER\<close> keys has a key outside its first leaf.\<close>

lemma key_in_later_leaf:
  assumes t: "tree_rep n (bt, s) t" and c: "card (dom (tree_map t)) > BTREE_ORDER"
  shows "\<exists>p es nx ls e. leaves t = (p, es, nx) # ls \<and> e \<in> set (leaf_entries ls) \<and> en_key e \<notin> en_key ` set es \<and> en_key e \<in> dom (tree_map t)"
proof -
  have wf: "tree_wf t" using t by (simp add: tree_rep_def)
  obtain p es nx ls where l: "leaves t = (p, es, nx) # ls" using leaves_nonempty [OF wf] by (cases "leaves t") auto
  have dist: "distinct (map en_key (leaf_entries (leaves t)))" using tree_rep_sorted [OF t] strict_sorted_iff by (auto simp: entries_sorted_def)
  have "length es < length (leaf_entries (leaves t))"
    using first_leaf_small [OF wf l] distinct_card [OF dist] dom_tree_map [of t] c by simp
  then obtain e where e: "e \<in> set (leaf_entries ls)" unfolding l by (cases "leaf_entries ls") auto
  then show ?thesis using l dist dom_tree_map [of t] by (intro exI [of _ p] exI [of _ es] exI [of _ nx] exI [of _ ls] exI [of _ e]) (auto simp: image_iff)
qed

text \<open>
  The leaves are also chained, and the copies break the chain. In a tree of more than \<open>BTREE_ORDER\<close> keys built by insertions there is a key that a transaction can delete, with
  the committed result that a search does not find the key any more while a scan still yields it: the leaf
  before the copied one points to the old page, which the scan follows.
\<close>

theorem deleted_key_still_scanned:
  assumes "tight_state n m (bt, s)" "n < fuel" "room (n + 1) s" "card (dom m) > BTREE_ORDER"
  shows "\<exists>k tb w s' es. k \<in> dom m \<and> tx_delete fuel k (tx_btree_new (get_root_page bt), [], s) = (Ok (), tb, w, s') \<and>
    fst (btree_search fuel k (btree_open (get_current_root tb), s')) = Err NotFound \<and>
    fst (scan_tree fuel (btree_open (get_current_root tb), s')) = Ok es \<and> k \<in> fst ` set es"
proof -
  obtain t where t: "tree_rep n (bt, s) t" "linked (leaves t) 0" "tight (leaves t)" "tree_map t = m" "length (leaf_entries (leaves t)) \<le> n"
    using assms(1) by (auto simp: tight_state_def)
  have wf: "tree_wf t" and np: "0 \<notin> set (tree_pages t)" and sto: "stored (page_content s) t" using t(1) by (auto simp: tree_rep_def in_use_def)
  have r: "get_root_page bt = bt_root_page bt" using t(1) root_page_idle by (simp add: tree_rep_def)
  have so: "entries_sorted (leaf_entries (leaves t))" by (rule tree_rep_sorted [OF t(1)])
  have "card (dom (tree_map t)) > BTREE_ORDER" using assms(4) t(4) by simp
  then obtain p es nx ls e where l: "leaves t = (p, es, nx) # ls" and e: "e \<in> set (leaf_entries ls)" and k: "en_key e \<notin> en_key ` set es" "en_key e \<in> dom (tree_map t)"
    using key_in_later_leaf [OF t(1)] by metis
  let ?k = "en_key e"
  have tk: "tree_map t ?k \<noteq> None" using k(2) by (simp add: domIff)
  have room: "room (n + 1 + 0) s" using assms(3) by simp
  obtain tb w s' t' where d: "tx_delete fuel ?k (tx_btree_new (bt_root_page bt), [], s) = (Ok (), tb, w, s')" "tx_rep n (tb, w, s') t'"
    "changed ?k (remove_key ?k) (leaves t) (leaves t')" "tx_kept {} (tx_btree_new (bt_root_page bt), [], s) (tb, w, s')"
    using tx_delete_rep [OF tx_start [OF t(1) assms(3)] less_imp_le [OF assms(2)] room, of ?k] tk by auto
  note rep' = tx_committed [OF d(2)]
  obtain as p1 q1 es1 nx1 bs where c: "leaves t = as @ [(p1, es1, nx1)] @ bs" "leaves t' = as @ [(q1, remove_key ?k es1, nx1)] @ bs" "lookup_entry ?k es1 \<noteq> None"
    using d(3) by (auto simp: changed_def)
  have "?k \<in> en_key ` set es1" using c(3) by (simp add: lookup_None_iff)
  then obtain as' where as: "as = (p, es, nx) # as'" using c(1) l k(1) by (cases as) auto
  have t': "leaves t' = (p, es, nx) # (as' @ [(q1, remove_key ?k es1, nx1)] @ bs)" using c(2) as by simp
  have keep: "page_content s' x = page_content s x" if "x \<in> in_use s" for x using that d(4) by (simp add: tx_kept_def)
  have "set (tree_pages t) \<subseteq> in_use s" using t(1) by (simp add: tree_rep_def)
  then have "stored (page_content s') t" using stored_cong [of t "page_content s'" "page_content s"] keep sto by blast
  then have st: "list_all (leaf_stored (page_content s')) ls" using stored_leaves [OF _ wf np] l by auto
  have f: "length (leaf_entries (full_prefix ((p, es, nx) # ls))) < fuel"
    using full_prefix_length [of "leaves t"] t(5) assms(2) l by simp
  have lk: "linked ((p, es, nx) # ls) 0" using t(2) l by simp
  have sc: "fst (scan_tree fuel (btree_open (get_current_root tb), s')) = Ok (map entry_pair (leaf_entries (leaves t)))"
    using scan_chain [OF rep' t' lk st less_imp_le [OF assms(2)] f] tight_prefix [OF t(3)] unfolding l by auto
  have "tree_map t' ?k = None"
    using changed_lookup [OF d(3) _ so, of None ?k] lookup_remove_key by (simp add: tree_map_def)
  then have "fst (btree_search fuel ?k (btree_open (get_current_root tb), s')) = Err NotFound"
    using search_rep [OF rep' less_imp_le [OF assms(2)], of ?k] by auto
  moreover have "?k \<in> fst ` set (map entry_pair (leaf_entries (leaves t)))" using e l by (force simp: entry_pair_def)
  ultimately show ?thesis using k(2) t(4) d(1) sc unfolding r by blast
qed

theorem tx_snapshot_isolation_witness:
  "\<exists>s bt s1 st P tb w s'. pager_open None 10 False = Ok s \<and> btree_new s = (Ok bt, s1) \<and> btree_insert 1 ''a'' 9 (bt, s1) = (Ok (), st) \<and>
    run_ops (tx_update 1) (tx_delete 1) [Put ''a'' 5, Del ''b''] (tx_btree_new (get_root_page (fst st)), [], snd st) =
      ([Ok (), Err (not_in_tree ''b'')], tb, w, s') \<and>
    fst (tx_search 1 ''a'' (tb, w, s')) = Ok 5 \<and> tree_state 1 P [''a'' \<mapsto> 9] (fst st, s') \<and>
    fst (btree_search 1 ''a'' (btree_open (get_current_root tb), s')) = Ok 5"
proof -
  obtain s where s: "pager_open None 10 False = Ok s" "store_ok s" "room 1000000 s" using new_store by blast
  have "room (Suc 999999) s" using s(3) by simp
  from new_state [OF s(2) this] obtain bt s1 p where n: "btree_new s = (Ok bt, s1)" "tree_state 0 {p} (\<lambda>_. None) (bt, s1)" "room 999999 s1" by blast
  have r: "room (0 + 2 + 900000) s1" by (rule room_mono [OF n(3)]) simp
  have k: "tree_key ''a''" by (simp add: tree_key_def rust_string_def as_bytes_def)
  obtain st P where i: "btree_insert 1 ''a'' 9 (bt, s1) = (Ok (), st)" "tree_state (Suc 0) P [''a'' \<mapsto> 9] (fst st, snd st)" "room 900000 (snd st)"
    using insert_state [OF n(2) _ r k, of 1 9] by auto
  let ?xs = "[Put ''a'' 5, Del ''b'']"
  have r2: "room (length ?xs * (Suc 0 + 1)) (snd st)" by (rule room_mono [OF i(3)]) simp
  have f: "Suc 0 \<le> 1" by simp
  obtain tb w s' where h: "run_ops (tx_update 1) (tx_delete 1) ?xs (tx_btree_new (get_root_page (fst st)), [], snd st) = (change_results ?xs [''a'' \<mapsto> 9], tb, w, s')"
    "\<forall>k. fst (tx_search 1 k (tb, w, s')) = (case fold change ?xs [''a'' \<mapsto> 9] k of Some v \<Rightarrow> Ok v | None \<Rightarrow> Err (not_in_tree k))"
    "tree_state (Suc 0) P [''a'' \<mapsto> 9] (fst st, s')"
    "\<forall>k. fst (btree_search 1 k (btree_open (get_current_root tb), s')) = (case fold change ?xs [''a'' \<mapsto> 9] k of Some v \<Rightarrow> Ok v | None \<Rightarrow> Err NotFound)"
    using tx_snapshot_isolation [OF i(2) f r2] by blast
  have "change_results ?xs [''a'' \<mapsto> 9] = [Ok (), Err (not_in_tree ''b'')]" by simp
  moreover have "fst (tx_search 1 ''a'' (tb, w, s')) = Ok 5" "fst (btree_search 1 ''a'' (btree_open (get_current_root tb), s')) = Ok 5"
    using h(2,4) by simp_all
  moreover have "tree_state 1 P [''a'' \<mapsto> 9] (fst st, s')" using h(3) by simp
  ultimately show ?thesis using s(1) n(1) i(1) h(1)
    by (intro exI [of _ s] exI [of _ bt] exI [of _ s1] exI [of _ st] exI [of _ P] exI [of _ tb] exI [of _ w] exI [of _ s'] conjI) simp_all
qed

theorem deleted_key_still_scanned_witness:
  "\<exists>s bt s1 kvs st k tb w s' es. pager_open None 10 False = Ok s \<and> btree_new s = (Ok bt, s1) \<and>
    run_ops (btree_insert 60) (btree_delete 60) (map (\<lambda>(k, v). Put k v) kvs) (bt, s1) = (replicate (length kvs) (Ok ()), st) \<and>
    tx_delete 60 k (tx_btree_new (get_root_page (fst st)), [], snd st) = (Ok (), tb, w, s') \<and>
    fst (btree_search 60 k (btree_open (get_current_root tb), s')) = Err NotFound \<and>
    fst (scan_tree 60 (btree_open (get_current_root tb), s')) = Ok es \<and> k \<in> fst ` set es"
proof -
  let ?ks = "map (\<lambda>i. replicate i CHR ''a'') [0..<51]"
  let ?kvs = "map (\<lambda>k. (k, 7)) ?ks :: (string \<times> u64) list"
  obtain s where s: "pager_open None 10 False = Ok s" "store_ok s" "room 1000000 s" using new_store by blast
  have "room (Suc 999999) s" using s(3) by simp
  from new_tight [OF s(2) this] obtain bt s1 where n: "btree_new s = (Ok bt, s1)" "tight_state 0 (\<lambda>_. None) (bt, s1)" "room 999999 s1" by blast
  have "tree_key (replicate i CHR ''a'')" if "i < 51" for i
    using that utf8_valid_ascii [of i] by (simp add: tree_key_def rust_string_def as_bytes_def)
  then have k: "list_all (\<lambda>x. tree_key (fst x)) ?kvs" by (simp add: list_all_iff)
  have r: "room (length ?kvs * (0 + length ?kvs + 2) + 900000) (snd (bt, s1))" using room_mono [OF n(3)] by simp
  have f: "0 + length ?kvs \<le> 60" by simp
  obtain st where st: "run_ops (btree_insert 60) (btree_delete 60) (map (\<lambda>(k, v). Put k v) ?kvs) (bt, s1) = (replicate (length ?kvs) (Ok ()), st)"
    "tight_state (0 + length ?kvs) (\<lambda>k. case map_of (rev ?kvs) k of Some v \<Rightarrow> Some v | None \<Rightarrow> None) st" "room 900000 (snd st)"
    using inserts_tight [OF n(2) f r k] by blast
  let ?m = "\<lambda>k. case map_of (rev ?kvs) k of Some v \<Rightarrow> Some v | None \<Rightarrow> None"
  have "?m = map_of (rev ?kvs)" by (simp add: fun_eq_iff split: option.split)
  then have "dom ?m = fst ` set (rev ?kvs)" by (simp only: dom_map_of_conv_image_fst)
  also have "\<dots> = set ?ks" by (simp add: image_comp)
  finally have "dom ?m = set ?ks" .
  moreover have "distinct ?ks" by (auto simp: distinct_map inj_on_def dest: arg_cong [of _ _ length])
  then have "card (set ?ks) = 51" using distinct_card [of ?ks] by simp
  ultimately have c: "card (dom ?m) > BTREE_ORDER" by (simp only: const_defs)
  have len: "0 + length ?kvs = 51" by simp
  have t: "tight_state 51 ?m (fst st, snd st)" using st(2) len by (simp only: prod.collapse)
  have r2: "room (51 + 1) (snd st)" by (rule room_mono [OF st(3)]) simp
  have f2: "51 < (60 :: nat)" by simp
  show ?thesis using deleted_key_still_scanned [OF t f2 r2 c] s(1) n(1) st(1) by blast
qed

subsection \<open>Splitting the root\<close>

lemma noted_simps [simp]:
  "new_set (noted q tb) = insert q (new_set tb)" "tb_cow_pages (noted q tb) = tb_cow_pages tb" "get_current_root (noted q tb) = get_current_root tb"
  by (auto simp: noted_def new_set_def hm_contains_def get_current_root_def)

text \<open>\<open>create_new_root\<close>: the new root holds the two pages it is given.\<close>

lemma tx_new_root:
  assumes "store_ok s" "room (Suc (Suc 0)) s" "get_current_root tb \<in> in_use s" "cow_used (tb, w, s)" "tree_key k"
  shows "\<exists>tb' w' s'. tx_create_new_root l r k (tb, w, s) = (Ok (), tb', w', s') \<and> get_current_root tb' \<notin> in_use s \<and>
    page_content s' = (page_content s)(get_current_root tb' \<mapsto> page_image (inner_node (get_current_root tb') [k] [l, r]))"
proof -
  have m: "get_current_root tb \<le> pg_num_pages s" using assms(3) by (auto simp: in_use_def)
  obtain p s1 where a: "alloc_page_minimum (get_current_root tb) s = (Ok p, s1)" "store_ok s1" "room (Suc 0) s1" "p \<notin> in_use s" "insert p (in_use s) \<subseteq> in_use s1"
    "page_content s1 = page_content s"
    using alloc_min_step [OF assms(1,2) m] by blast
  let ?n = "inner_node p [k] [l, r]" and ?tb = "noted p tb"
  have f: "fits ?n" using assms(5) by (intro fits_inner) (simp_all add: const_defs)
  have c: "hm_get (tb_cow_pages ?tb) (bn_page_num ?n) = None" using assms(4) a(4) by (cases "hm_get (tb_cow_pages tb) p") (auto simp: cow_used_def)
  have u: "bn_page_num ?n \<in> in_use s1" "get_current_root ?tb \<in> in_use s1" using a(5) assms(3) by auto
  obtain s2 where w: "tx_write_node ?n (?tb, w, s1) = (Ok p, ?tb, hm_insert p (page_image ?n) w, s2)" "page_content s2 = (page_content s1)(p \<mapsto> page_image ?n)"
    using tx_write_page [OF a(2) u(1) c u(2) f a(3), of w] by (auto simp: copied_def)
  have n: "(new_internal p)\<lparr>bn_keys := [k], bn_children := [l, r], bn_num_keys := 1\<rparr> = ?n" by (simp add: inner_node_def)
  have p0: "p \<noteq> 0" using u(1) by (auto simp: in_use_def)
  have "tx_create_new_root l r k (tb, w, s) = (Ok (), ?tb\<lparr>tb_modified_root := p\<rparr>, hm_insert p (page_image ?n) w, s2)"
    using a(1) w(1) n by (simp add: tx_create_new_root_def tb_pager_def tb_upd_def noted_def Let_def)
  then show ?thesis using a(4,6) w(2) p0 by (auto simp: get_current_root_def)
qed

text \<open>The first steps of \<open>split_internal\<close>: the left half of the root is copied to a new page, the right half gets another.\<close>

lemma tx_write_halves:
  assumes "store_ok s" "room (Suc (Suc (Suc (Suc (Suc 0))))) s" "p \<in> in_use s" "p \<notin> new_set tb" "p = get_current_root tb" "cow_used (tb, w, s)"
    "hm_get (tb_cow_pages tb) p = None" "fits (inner_node p LK LC)" "\<And>q. fits (inner_node q RK RC)"
  shows "\<exists>q1 s1 s2 s3 tb2 w2 w3 p1. alloc_page s = (Ok q1, s1) \<and> tx_write_node (inner_node p LK LC) (noted q1 tb, w, s1) = (Ok p1, tb2, w2, s2) \<and>
    tx_write_node (inner_node q1 RK RC) (tb2, w2, s2) = (Ok q1, tb2, w3, s3) \<and> store_ok s3 \<and> room (Suc (Suc 0)) s3 \<and>
    get_current_root tb2 \<in> in_use s3 \<and> cow_used (tb2, w3, s3) \<and> page_content s3 p = page_content s p \<and> p \<in> in_use s3"
proof -
  obtain q1 s1 where a: "alloc_page s = (Ok q1, s1)" "store_ok s1" "room (Suc (Suc (Suc (Suc 0)))) s1" "q1 \<notin> in_use s" "insert q1 (in_use s) \<subseteq> in_use s1"
    "page_content s1 = page_content s"
    using alloc_any_step [OF assms(1,2), of 0 False] by auto
  let ?tb1 = "noted q1 tb" and ?L = "inner_node p LK LC" and ?R = "inner_node q1 RK RC"
  have q1: "q1 \<noteq> p" "hm_get (tb_cow_pages tb) q1 = None" using a(4) assms(3,6) by (auto simp: cow_used_def not_Some_eq [symmetric] simp del: not_Some_eq)
  have uL: "bn_page_num ?L \<in> in_use s1" "hm_get (tb_cow_pages ?tb1) (bn_page_num ?L) = None" "get_current_root ?tb1 \<in> in_use s1"
    using a(5) assms(3,5,7) by auto
  obtain p1 s2 where wl: "tx_write_node ?L (?tb1, w, s1) = (Ok p1, copied p p1 ?tb1, hm_insert p1 (page_image ?L) w, s2)" "store_ok s2" "room (Suc (Suc (Suc 0))) s2"
    "in_use s1 \<subseteq> in_use s2" "p1 \<in> in_use s2" "page_content s2 = (page_content s1)(p1 \<mapsto> page_image ?L)" "p1 \<notin> in_use s1"
    using tx_write_page [OF a(2) uL assms(8) a(3), of w] assms(4) q1(1) by auto
  let ?tb2 = "copied p p1 ?tb1" and ?w2 = "hm_insert p1 (page_image ?L) w"
  have p10: "p1 \<noteq> 0" using wl(5) by (auto simp: in_use_def)
  have n1: "q1 \<in> new_set ?tb2" "p \<notin> new_set ?tb1" using assms(4) q1(1) by (auto simp: new_set_copied)
  have root2: "get_current_root ?tb2 = p1" using root_copied [OF p10, of p ?tb1] n1(2) assms(5) by simp
  have uR: "bn_page_num ?R \<in> in_use s2" "hm_get (tb_cow_pages ?tb2) (bn_page_num ?R) = None" "get_current_root ?tb2 \<in> in_use s2"
    using a(5) wl(4,5) q1 root2 by (auto simp: cow_copied)
  obtain s3 where wr: "tx_write_node ?R (?tb2, ?w2, s2) = (Ok q1, ?tb2, hm_insert q1 (page_image ?R) ?w2, s3)" "store_ok s3" "room (Suc (Suc 0)) s3"
    "in_use s2 \<subseteq> in_use s3" "page_content s3 = (page_content s2)(q1 \<mapsto> page_image ?R)"
    using tx_write_page [OF wl(2) uR assms(9) wl(3), of ?w2] n1(1) by (auto simp: copied_def)
  have cu: "cow_used (?tb2, hm_insert q1 (page_image ?R) ?w2, s3)"
    using assms(3,6) a(5) wl(4) wr(4) by (auto simp: cow_used_def cow_copied)
  have "p \<noteq> p1" "p \<in> in_use s3" "get_current_root ?tb2 \<in> in_use s3" using wl(4,7) a(5) wr(4) assms(3) uR(3) by auto
  then show ?thesis using a(1,6) wl(1,6) wr(1,2,3,5) cu q1(1) by (intro exI conjI) auto
qed

lemma tx_split_root_run:
  assumes "store_ok s" "room (Suc (Suc (Suc (Suc (Suc 0))))) s" "p \<in> in_use s" "p \<notin> new_set tb" "p = get_current_root tb" "cow_used (tb, w, s)"
    "hm_get (tb_cow_pages tb) p = None" "length K = Suc BTREE_ORDER" "length C = Suc (Suc BTREE_ORDER)" "list_all tree_key K"
  shows "\<exists>tb' w' s' c r. tx_split_internal (inner_node p K C) [p] (tb, w, s) = (Ok (), tb', w', s') \<and>
    page_content s' (get_current_root tb') = Some (page_image (inner_node (get_current_root tb') [c] [p, r])) \<and>
    page_content s' p = page_content s p"
proof -
  let ?m = "length K div 2"
  have m: "?m < length K" "?m + 1 \<le> length C" using assms(8,9) by (simp_all add: const_defs)
  let ?L = "inner_node p (take ?m K) (take (?m + 1) C)" and ?R = "\<lambda>q. inner_node q (drop (?m + 1) K) (drop (?m + 1) C)"
  have fL: "fits ?L" using assms(8-10) by (intro fits_inner) (auto simp: const_defs list_all_iff dest: in_set_takeD)
  have fR: "fits (?R q)" for q using assms(8-10) by (intro fits_inner) (auto simp: const_defs list_all_iff dest: in_set_dropD)
  obtain q1 s1 s2 s3 tb2 w2 w3 p1 where h: "alloc_page s = (Ok q1, s1)" "tx_write_node ?L (noted q1 tb, w, s1) = (Ok p1, tb2, w2, s2)"
    "tx_write_node (?R q1) (tb2, w2, s2) = (Ok q1, tb2, w3, s3)" "store_ok s3" "room (Suc (Suc 0)) s3" "get_current_root tb2 \<in> in_use s3"
    "cow_used (tb2, w3, s3)" "page_content s3 p = page_content s p" "p \<in> in_use s3"
    using tx_write_halves [OF assms(1-7) fL fR] by blast
  have kk: "tree_key (K ! ?m)" using assms(10) m(1) by (simp add: list_all_iff)
  obtain tb' w' s' where nr: "tx_create_new_root p q1 (K ! ?m) (tb2, w3, s3) = (Ok (), tb', w', s')" "get_current_root tb' \<notin> in_use s3"
    "page_content s' = (page_content s3)(get_current_root tb' \<mapsto> page_image (inner_node (get_current_root tb') [K ! ?m] [p, q1]))"
    using tx_new_root [OF h(4,5,6,7) kk] by blast
  have bl: "butlast (take (?m + 1) K) = take ?m K" using m(1) by (simp add: butlast_take)
  have L: "(inner_node p K C)\<lparr>bn_keys := take ?m K, bn_children := take (?m + 1) C, bn_num_keys := word_of_nat (length (take ?m K))\<rparr> = ?L"
    by (rule inner_node_upd)
  have R: "(new_internal q1)\<lparr>bn_keys := drop (?m + 1) K, bn_children := drop (?m + 1) C, bn_num_keys := word_of_nat (length (drop (?m + 1) K))\<rparr> = ?R q1"
    by (simp add: inner_node_def)
  have al: "tb_pager alloc_page (tb, w, s) = (Ok q1, tb, w, s1)" using h(1) by (simp add: tb_pager_def)
  have nt: "tb_upd (\<lambda>tb. tb\<lparr>tb_new_pages := hm_insert q1 True (tb_new_pages tb)\<rparr>) (tb, w, s1) = (noted q1 tb, w, s1)" by (simp add: tb_upd_def noted_def)
  have one: "length [p] = 1" by simp
  have run: "tx_split_internal (inner_node p K C) [p] (tb, w, s) = (Ok (), tb', w', s')"
    unfolding tx_split_internal.simps inner_node_simps Let_def al and_then_simps nt if_P [OF m(1)] if_P [OF m(2)] no_panic_simps bl L R h(2,3) if_P [OF one]
    by (rule nr(1))
  have "p \<noteq> get_current_root tb'" using nr(2) h(9) by auto
  then show ?thesis using run nr(3) h(8) by auto
qed

text \<open>
  When the root is an inner node that overflows in a transaction, its left half is written to a new page, but the new root is given the page of the old root, which still holds the node as
  it was before the insertion. The committed tree therefore has the whole old root as its left half.
\<close>

theorem tx_split_root_keeps_old_page:
  assumes "store_ok s" "room 5 s" "p \<in> in_use s" "p \<notin> new_set tb" "p = get_current_root tb" "cow_used (tb, w, s)" "hm_get (tb_cow_pages tb) p = None"
    "length ks = BTREE_ORDER" "length cs = Suc BTREE_ORDER" "list_all tree_key ks" "tree_key k"
  shows "\<exists>tb' w' s' c r. tx_insert_into_parent (inner_node p ks cs) k q [p] (tb, w, s) = (Ok (), tb', w', s') \<and>
    page_content s' (get_current_root tb') = Some (page_image (inner_node (get_current_root tb') [c] [p, r])) \<and>
    page_content s' p = page_content s p"
proof -
  define i where "i = insert_index 0 k ks (length ks)"
  have "i \<le> length ks" using insert_index_eq [of 0 k ks] key_pos_le [of k ks] by (simp add: i_def)
  define K where "K = take i ks @ k # drop i ks"
  define C where "C = take (i + 1) cs @ q # drop (i + 1) cs"
  have v: "vec_insert i k ks = Some K" "vec_insert (i + 1) q cs = Some C" using \<open>i \<le> length ks\<close> assms(8,9) by (simp_all add: vec_insert_def K_def C_def)
  have len: "length K = Suc BTREE_ORDER" "length C = Suc (Suc BTREE_ORDER)" using \<open>i \<le> length ks\<close> assms(8,9) by (simp_all add: K_def C_def)
  have tk: "list_all tree_key K" using assms(10,11) by (auto simp: K_def list_all_iff dest: in_set_takeD in_set_dropD)
  have m: "length K > BTREE_ORDER" using len by simp
  have ins: "tx_insert_into_parent (inner_node p ks cs) k q [p] (tb, w, s) = tx_split_internal (inner_node p K C) [p] (tb, w, s)"
    using v m by (simp add: tx_insert_into_parent.simps i_def [symmetric] inner_node_upd)
  have r: "room (Suc (Suc (Suc (Suc (Suc 0))))) s" using assms(2) by (simp add: numeral_eq_Suc)
  show ?thesis unfolding ins by (rule tx_split_root_run [OF assms(1) r assms(3-7) len tk])
qed

theorem tx_split_root_keeps_old_page_witness:
  "\<exists>s p s1 ks cs tb' w' s' c r. pager_open None 10 False = Ok s \<and> alloc_page s = (Ok p, s1) \<and> length ks = BTREE_ORDER \<and>
    tx_insert_into_parent (inner_node p ks cs) ''b'' 9 [p] (tx_btree_new p, [], s1) = (Ok (), tb', w', s') \<and>
    page_content s' (get_current_root tb') = Some (page_image (inner_node (get_current_root tb') [c] [p, r])) \<and>
    page_content s' p = page_content s1 p"
proof -
  let ?ks = "map (\<lambda>i. replicate i CHR ''a'') [0..<BTREE_ORDER]"
  obtain s where s: "pager_open None 10 False = Ok s" "store_ok s" "room 1000000 s" using new_store by blast
  have "room (Suc 999999) s" using s(3) by simp
  from alloc_step [OF s(2) this] obtain p s1 where a: "alloc_page s = (Ok p, s1)" "store_ok s1" "room 999999 s1" "in_use s1 = insert p (in_use s)" by blast
  have "tree_key (replicate i CHR ''a'')" if "i < BTREE_ORDER" for i
    using that utf8_valid_ascii [of i] by (simp add: tree_key_def rust_string_def as_bytes_def const_defs)
  then have ks: "list_all tree_key ?ks" by (simp add: list_all_iff)
  have k: "tree_key ''b''" by (simp add: tree_key_def rust_string_def as_bytes_def)
  have r: "room 5 s1" by (rule room_mono [OF a(3)]) simp
  have tb: "p \<in> in_use s1" "p \<notin> new_set (tx_btree_new p)" "p = get_current_root (tx_btree_new p)" "cow_used (tx_btree_new p, [], s1)"
    "hm_get (tb_cow_pages (tx_btree_new p)) p = None"
    using a(4) by (simp_all add: get_current_root_def tx_btree_new_def cow_used_def new_set_def hm_contains_def)
  have len: "length ?ks = BTREE_ORDER" "length (replicate (Suc BTREE_ORDER) p) = Suc BTREE_ORDER" by simp_all
  show ?thesis using tx_split_root_keeps_old_page [OF a(2) r tb len ks k, of 9] s(1) a(1) len(1) by blast
qed

end
