(* ===== verification/Json.thy ===== *)
theory Json
  imports Prelude
begin

text \<open>
  JSON values as \<open>serde_json\<close> has them, for the components above the storage.

  A text is a list of Unicode code points; their lexicographic order is that of the UTF-8 encodings, by which Rust compares strings. An object
  is the list of its entries in the order of the map, which has no duplicate keys. Numbers are those of \<open>serde_json::Number\<close>, a package outside
  the sources: their type is a parameter, with the operations that the code uses on it in a record.
\<close>

type_synonym uchar = nat

type_synonym ustring = "uchar list"

definition us :: "string \<Rightarrow> ustring" where
  "us cs = map of_char cs"

datatype 'n json =
    JNull
  | JBool bool
  | JNumber 'n
  | JString ustring
  | JArray "'n json list"
  | JObject "(ustring \<times> 'n json) list"

text \<open>
  The parameters: \<open>num_from_text\<close> is \<open>str::parse::<f64>\<close> followed by \<open>Number::from_f64\<close>, each of which can fail; \<open>num_eq\<close> and \<open>num_lt\<close>
  compare the values of \<open>as_f64\<close>; \<open>num_same\<close> is the equality of \<open>Number\<close> itself, which tells integers from floats; \<open>num_integer\<close> is
  \<open>is_i64() || is_u64()\<close>.
\<close>

datatype 'n parsed = NotANumber | NotFinite | Parsed 'n

record 'n numbers =
  num_from_text :: "ustring \<Rightarrow> 'n parsed"
  num_eq :: "'n \<Rightarrow> 'n \<Rightarrow> bool"
  num_lt :: "'n \<Rightarrow> 'n \<Rightarrow> bool"
  num_same :: "'n \<Rightarrow> 'n \<Rightarrow> bool"
  num_integer :: "'n \<Rightarrow> bool"

text \<open>\<open>==\<close> on values.\<close>

fun json_eq :: "('n \<Rightarrow> 'n \<Rightarrow> bool) \<Rightarrow> 'n json \<Rightarrow> 'n json \<Rightarrow> bool"
  and json_eq_list :: "('n \<Rightarrow> 'n \<Rightarrow> bool) \<Rightarrow> 'n json list \<Rightarrow> 'n json list \<Rightarrow> bool"
  and json_eq_entries :: "('n \<Rightarrow> 'n \<Rightarrow> bool) \<Rightarrow> (ustring \<times> 'n json) list \<Rightarrow> (ustring \<times> 'n json) list \<Rightarrow> bool" where
  "json_eq same JNull JNull = True"
| "json_eq same (JBool a) (JBool b) = (a = b)"
| "json_eq same (JNumber a) (JNumber b) = same a b"
| "json_eq same (JString a) (JString b) = (a = b)"
| "json_eq same (JArray xs) (JArray ys) = json_eq_list same xs ys"
| "json_eq same (JObject xs) (JObject ys) = json_eq_entries same xs ys"
| "json_eq same _ _ = False"
| "json_eq_list same [] [] = True"
| "json_eq_list same (x # xs) (y # ys) = (json_eq same x y \<and> json_eq_list same xs ys)"
| "json_eq_list same _ _ = False"
| "json_eq_entries same [] [] = True"
| "json_eq_entries same ((k, x) # xs) ((l, y) # ys) = (k = l \<and> json_eq same x y \<and> json_eq_entries same xs ys)"
| "json_eq_entries same _ _ = False"

definition is_null :: "'n json \<Rightarrow> bool" where
  "is_null v = (case v of JNull \<Rightarrow> True | _ \<Rightarrow> False)"

definition as_object :: "'n json \<Rightarrow> (ustring \<times> 'n json) list option" where
  "as_object v = (case v of JObject m \<Rightarrow> Some m | _ \<Rightarrow> None)"

definition as_array :: "'n json \<Rightarrow> 'n json list option" where
  "as_array v = (case v of JArray xs \<Rightarrow> Some xs | _ \<Rightarrow> None)"

text \<open>\<open>Map::insert\<close>: the map keeps its entries in the order of their keys. \<open>Map::remove\<close> is the removal from an association list.\<close>

fun obj_insert :: "ustring \<Rightarrow> 'v \<Rightarrow> (ustring \<times> 'v) list \<Rightarrow> (ustring \<times> 'v) list" where
  "obj_insert k v [] = [(k, v)]"
| "obj_insert k v ((l, w) # m) =
     (if k = l then (k, v) # m else if k < l then (k, v) # (l, w) # m else (l, w) # obj_insert k v m)"

lemma obj_get_insert [simp]: "map_of (obj_insert k v m) l = (if l = k then Some v else map_of m l)"
  by (induction m) auto

lemma obj_keys_insert: "fst ` set (obj_insert k v m) = insert k (fst ` set m)"
  by (induction k v m rule: obj_insert.induct) auto

lemma obj_insert_sorted: "sorted_wrt (<) (map fst m) \<Longrightarrow> sorted_wrt (<) (map fst (obj_insert k v m))"
proof (induction m)
  case (Cons e m)
  obtain l w where e: "e = (l, w)" by (cases e)
  have l: "\<forall>x \<in> fst ` set m. l < x" and m: "sorted_wrt (<) (map fst (obj_insert k v m))" using Cons by (auto simp: e)
  have "\<forall>x \<in> fst ` set (obj_insert k v m). l < x" if "l < k" using l that by (simp add: obj_keys_insert)
  moreover have "\<forall>x \<in> fst ` set m. k < x" if "k < l" using l that less_trans by blast
  ultimately show ?case using Cons.prems m by (auto simp: e)
qed simp

text \<open>\<open>value["f"]\<close> on an object, as \<open>Value::get\<close>, and \<open>as_str\<close>.\<close>

definition json_get :: "'n json \<Rightarrow> ustring \<Rightarrow> 'n json option" where
  "json_get v f = (case v of JObject m \<Rightarrow> map_of m f | _ \<Rightarrow> None)"

definition as_str :: "'n json \<Rightarrow> ustring option" where
  "as_str v = (case v of JString s \<Rightarrow> Some s | _ \<Rightarrow> None)"

text \<open>\<open>str::split\<close> at a character.\<close>

fun split_at_char :: "uchar \<Rightarrow> ustring \<Rightarrow> ustring list" where
  "split_at_char c [] = [[]]"
| "split_at_char c (x # xs) =
     (if x = c then [] # split_at_char c xs
      else case split_at_char c xs of [] \<Rightarrow> [[x]] | p # ps \<Rightarrow> (x # p) # ps)"

text \<open>The UTF-8 bytes of a text, as the lower layers store it.\<close>

definition utf8_char :: "uchar \<Rightarrow> nat list" where
  "utf8_char c =
     (if c < 128 then [c]
      else if c < 2048 then [192 + c div 64, 128 + c mod 64]
      else if c < 65536 then [224 + c div 4096, 128 + c div 64 mod 64, 128 + c mod 64]
      else [240 + c div 262144, 128 + c div 4096 mod 64, 128 + c div 64 mod 64, 128 + c mod 64])"

definition utf8 :: "ustring \<Rightarrow> string" where
  "utf8 s = map char_of (concat (map utf8_char s))"

text \<open>\<open>std::cmp::Ordering\<close> and \<open>cmp\<close> on a linear order.\<close>

datatype ordering = Less | Equal | Greater

definition cmp :: "'a::linorder \<Rightarrow> 'a \<Rightarrow> ordering" where
  "cmp a b = (if a < b then Less else if a = b then Equal else Greater)"

fun reverse_ordering :: "ordering \<Rightarrow> ordering" where
  "reverse_ordering Less = Greater"
| "reverse_ordering Equal = Equal"
| "reverse_ordering Greater = Less"

end
