(* ===== verification/Query_Lexer.thy ===== *)
theory Query_Lexer
  imports Json
begin

text \<open>
  \<open>src/core/query/lexer.rs\<close>: the tokens of the query language.

  The lexer is a record of the input, the position after the current character and that character, which is 0 past the end. The
  character classes of the ASCII characters and the lower case of ASCII texts are defined; those of the others are taken from the tables of
  the Rust library, a parameter of the model.
\<close>

datatype token_type =
    Eof | Illegal
  | Ident | StringTok | Number | TrueTok | FalseTok | Null
  | Gt | Gte | Lt | Lte | Is | IsNot
  | And | Or | Not
  | Exists | Has | Any | All
  | LParen | RParen | LBracket | RBracket | Comma | Dot

record token =
  tk_type :: token_type
  tk_value :: ustring
  tk_pos :: nat

record lexer =
  lx_input :: ustring
  lx_pos :: nat
  lx_ch :: uchar

record unicode =
  uni_alphabetic :: "uchar \<Rightarrow> bool"
  uni_numeric :: "uchar \<Rightarrow> bool"
  uni_whitespace :: "uchar \<Rightarrow> bool"
  uni_lowercase :: "ustring \<Rightarrow> ustring"

definition is_letter :: "unicode \<Rightarrow> uchar \<Rightarrow> bool" where
  "is_letter U c = (if c < 128 then 65 \<le> c \<and> c \<le> 90 \<or> 97 \<le> c \<and> c \<le> 122 else uni_alphabetic U c)"

definition is_digit :: "unicode \<Rightarrow> uchar \<Rightarrow> bool" where
  "is_digit U c = (if c < 128 then 48 \<le> c \<and> c \<le> 57 else uni_numeric U c)"

definition is_whitespace :: "unicode \<Rightarrow> uchar \<Rightarrow> bool" where
  "is_whitespace U c = (if c < 128 then 9 \<le> c \<and> c \<le> 13 \<or> c = 32 else uni_whitespace U c)"

definition to_lowercase :: "unicode \<Rightarrow> ustring \<Rightarrow> ustring" where
  "to_lowercase U s =
     (if list_all (\<lambda>c. c < 128) s then map (\<lambda>c. if 65 \<le> c \<and> c \<le> 90 then c + 32 else c) s else uni_lowercase U s)"

definition read_char :: "lexer \<Rightarrow> lexer" where
  "read_char lx = lx\<lparr>lx_ch := (if lx_pos lx \<ge> length (lx_input lx) then 0 else lx_input lx ! lx_pos lx), lx_pos := lx_pos lx + 1\<rparr>"

definition lexer_new :: "ustring \<Rightarrow> lexer" where
  "lexer_new input = read_char \<lparr>lx_input = input, lx_pos = 0, lx_ch = 0\<rparr>"

definition peek_char :: "lexer \<Rightarrow> uchar" where
  "peek_char lx = (if lx_pos lx \<ge> length (lx_input lx) then 0 else lx_input lx ! lx_pos lx)"

text \<open>What is left to read.\<close>

definition lx_left :: "lexer \<Rightarrow> nat" where
  "lx_left lx = (if lx_ch lx = 0 then 0 else Suc (length (lx_input lx) - lx_pos lx))"

lemma lx_left_read: "lx_ch lx \<noteq> 0 \<Longrightarrow> lx_left (read_char lx) < lx_left lx"
  by (auto simp: lx_left_def read_char_def)

text \<open>The loops \<open>while p(self.ch) { self.read_char() }\<close>. No loop of the lexer goes on at the character 0, which none of the character classes holds.\<close>

function read_while :: "(uchar \<Rightarrow> bool) \<Rightarrow> lexer \<Rightarrow> lexer" where
  "read_while p lx = (if p (lx_ch lx) \<and> lx_ch lx \<noteq> 0 then read_while p (read_char lx) else lx)"
  by pat_completeness auto
termination
  by (relation "measure (\<lambda>(p, lx). lx_left lx)") (auto simp: lx_left_read)

declare read_while.simps [simp del]

definition skip_whitespace :: "unicode \<Rightarrow> lexer \<Rightarrow> lexer" where
  "skip_whitespace U lx = read_while (is_whitespace U) lx"

text \<open>A slice \<open>&input[a..b]\<close>, which panics out of range.\<close>

definition slice :: "nat \<Rightarrow> nat \<Rightarrow> 'a list \<Rightarrow> 'a list option" where
  "slice a b xs = (if a \<le> b \<and> b \<le> length xs then Some (take (b - a) (drop a xs)) else None)"

definition read_identifier :: "unicode \<Rightarrow> lexer \<Rightarrow> (ustring \<times> lexer) option" where
  "read_identifier U lx =
     (let start = lx_pos lx - 1;
          lx = read_while (\<lambda>c. is_letter U c \<or> is_digit U c \<or> c = 95) lx
      in map_option (\<lambda>v. (v, lx)) (slice start (lx_pos lx - 1) (lx_input lx)))"

definition read_number :: "unicode \<Rightarrow> lexer \<Rightarrow> (ustring \<times> lexer) option" where
  "read_number U lx =
     (let start = lx_pos lx - 1;
          lx = read_while (is_digit U) lx;
          lx = (if lx_ch lx = 46 \<and> is_digit U (peek_char lx) then read_while (is_digit U) (read_char lx) else lx)
      in map_option (\<lambda>v. (v, lx)) (slice start (lx_pos lx - 1) (lx_input lx)))"

definition read_string :: "lexer \<Rightarrow> (ustring \<times> lexer) option" where
  "read_string lx =
     (let quote = lx_ch lx;
          lx = read_char lx;
          start = lx_pos lx - 1;
          lx = read_while (\<lambda>c. c \<noteq> quote \<and> c \<noteq> 0) lx
      in map_option (\<lambda>v. (v, read_char lx)) (slice start (lx_pos lx - 1) (lx_input lx)))"

definition lookup_keyword :: "unicode \<Rightarrow> ustring \<Rightarrow> token_type" where
  "lookup_keyword U ident =
     (let w = to_lowercase U ident in
      if w = us ''and'' then And else if w = us ''or'' then Or else if w = us ''not'' then Not
      else if w = us ''is'' then Is else if w = us ''exists'' then Exists else if w = us ''has'' then Has
      else if w = us ''any'' then Any else if w = us ''all'' then All else if w = us ''true'' then TrueTok
      else if w = us ''false'' then FalseTok else if w = us ''null'' then Null else Ident)"

definition single :: "token_type \<Rightarrow> nat \<Rightarrow> lexer \<Rightarrow> token \<times> lexer" where
  "single t p lx = (\<lparr>tk_type = t, tk_value = [lx_ch lx], tk_pos = p\<rparr>, read_char lx)"

text \<open>\<open>>\<close> or \<open><\<close>, with or without \<open>=\<close> behind it.\<close>

definition compare_token :: "token_type \<Rightarrow> token_type \<Rightarrow> string \<Rightarrow> nat \<Rightarrow> lexer \<Rightarrow> token \<times> lexer" where
  "compare_token plain with_eq sign p lx =
     (if peek_char lx = 61 then (\<lparr>tk_type = with_eq, tk_value = us (sign @ ''=''), tk_pos = p\<rparr>, read_char (read_char lx))
      else (\<lparr>tk_type = plain, tk_value = us sign, tk_pos = p\<rparr>, read_char lx))"

definition next_token :: "unicode \<Rightarrow> lexer \<Rightarrow> (token \<times> lexer) option" where
  "next_token U lx0 =
     (let lx = skip_whitespace U lx0;
          token_pos = lx_pos lx - 1;
          c = lx_ch lx
      in if c = 0 then Some (\<lparr>tk_type = Eof, tk_value = [], tk_pos = token_pos\<rparr>, lx)
         else if c = 40 then Some (single LParen token_pos lx)
         else if c = 41 then Some (single RParen token_pos lx)
         else if c = 91 then Some (single LBracket token_pos lx)
         else if c = 93 then Some (single RBracket token_pos lx)
         else if c = 44 then Some (single Comma token_pos lx)
         else if c = 46 then Some (single Dot token_pos lx)
         else if c = 62 then Some (compare_token Gt Gte ''>'' token_pos lx)
         else if c = 60 then Some (compare_token Lt Lte ''<'' token_pos lx)
         else if c = 34 \<or> c = 39 then
           map_option (\<lambda>(v, lx). (\<lparr>tk_type = StringTok, tk_value = v, tk_pos = token_pos\<rparr>, lx)) (read_string lx)
         else if is_letter U c then
           map_option (\<lambda>(v, lx). (\<lparr>tk_type = lookup_keyword U v, tk_value = v, tk_pos = token_pos\<rparr>, lx)) (read_identifier U lx)
         else if is_digit U c then
           map_option (\<lambda>(v, lx). (\<lparr>tk_type = Number, tk_value = v, tk_pos = token_pos\<rparr>, lx)) (read_number U lx)
         else Some (single Illegal token_pos lx))"

text \<open>The errors of the query language, which the code has as formatted texts.\<close>

datatype query_error =
    IllegalToken nat ustring
  | EmptyQuery
  | ExpectedRParen nat
  | ExpectedField nat token_type
  | ExpectedFieldAfterDot nat
  | ExpectedExists nat
  | ExpectedOperator nat
  | ExpectedLBracket nat
  | ExpectedRBracket nat
  | ExpectedValue nat
  | InvalidNumber ustring
  | NumberNotFinite ustring


subsection \<open>Every token is read from a non-empty piece of the text\<close>

lemma read_char_pow:
  "(read_char ^^ Suc n) lx =
     lx\<lparr>lx_pos := lx_pos lx + Suc n, lx_ch := (if lx_pos lx + n < length (lx_input lx) then lx_input lx ! (lx_pos lx + n) else 0)\<rparr>"
  by (induction n) (auto simp: read_char_def)

lemma lx_left_pow: "0 < n \<Longrightarrow> lx_ch lx \<noteq> 0 \<Longrightarrow> lx_left ((read_char ^^ n) lx) < lx_left lx"
  by (cases n) (auto simp: lx_left_def read_char_pow simp del: funpow.simps)

lemma read_while_pow:
  obtains n where "read_while p lx = (read_char ^^ n) lx" "p (lx_ch lx) \<and> lx_ch lx \<noteq> 0 \<longleftrightarrow> 0 < n"
proof -
  have "\<exists>n. read_while p lx = (read_char ^^ n) lx \<and> (p (lx_ch lx) \<and> lx_ch lx \<noteq> 0 \<longleftrightarrow> 0 < n)"
  proof (induction p lx rule: read_while.induct)
    case (1 p lx)
    show ?case
    proof (cases "p (lx_ch lx) \<and> lx_ch lx \<noteq> 0")
      case True
      then obtain n where "read_while p (read_char lx) = (read_char ^^ n) (read_char lx)"
        using 1 by blast
      then have "read_while p lx = (read_char ^^ Suc n) lx"
        using True by (subst read_while.simps) (simp add: funpow_swap1)
      then show ?thesis using True by blast
    next
      case False
      then have "read_while p lx = (read_char ^^ 0) lx" by (subst read_while.simps) auto
      then show ?thesis using False by blast
    qed
  qed
  then show thesis using that by blast
qed

lemma lx_left_while: "lx_left (read_while p lx) \<le> lx_left lx"
proof -
  obtain n where n: "read_while p lx = (read_char ^^ n) lx" "p (lx_ch lx) \<and> lx_ch lx \<noteq> 0 \<longleftrightarrow> 0 < n"
    by (rule read_while_pow)
  show ?thesis using n lx_left_pow [of n lx] by (cases "n = 0") auto
qed

definition moved :: "lexer \<Rightarrow> lexer \<Rightarrow> bool" where
  "moved lx lx' \<longleftrightarrow> (\<exists>n > 0. lx' = (read_char ^^ n) lx)"

lemma moved_read_char [simp, intro]: "moved lx (read_char lx)"
  unfolding moved_def by (rule exI [of _ "Suc 0"]) simp

lemma moved_funpow: "moved lx lx' \<Longrightarrow> moved lx ((read_char ^^ m) lx')"
proof -
  assume "moved lx lx'"
  then obtain n where "0 < n" "lx' = (read_char ^^ n) lx" unfolding moved_def by blast
  then have "(read_char ^^ m) lx' = (read_char ^^ (m + n)) lx" by (simp add: funpow_add)
  then show ?thesis unfolding moved_def using \<open>0 < n\<close> by (intro exI [of _ "m + n"]) simp
qed

lemma moved_more: "moved lx lx' \<Longrightarrow> moved lx (read_char lx')"
  using moved_funpow [of lx lx' "Suc 0"] by simp

lemma moved_while: "moved lx lx' \<Longrightarrow> moved lx (read_while p lx')"
  by (metis read_while_pow moved_funpow)

lemma moved_while_start: "p (lx_ch lx) \<Longrightarrow> lx_ch lx \<noteq> 0 \<Longrightarrow> moved lx (read_while p lx)"
  unfolding moved_def by (metis read_while_pow)

lemma moved_left: "moved lx lx' \<Longrightarrow> lx_ch lx \<noteq> 0 \<Longrightarrow> lx_left lx' < lx_left lx"
  using lx_left_pow unfolding moved_def by auto

lemma read_string_moved: "read_string lx = Some (v, lx') \<Longrightarrow> moved lx lx'"
  unfolding read_string_def Let_def by (clarsimp, intro moved_more moved_while moved_read_char)

lemma read_identifier_moved: "read_identifier U lx = Some (v, lx') \<Longrightarrow> is_letter U (lx_ch lx) \<Longrightarrow> lx_ch lx \<noteq> 0 \<Longrightarrow> moved lx lx'"
  by (auto simp: read_identifier_def Let_def intro!: moved_while_start)

lemma read_number_moved: "read_number U lx = Some (v, lx') \<Longrightarrow> is_digit U (lx_ch lx) \<Longrightarrow> lx_ch lx \<noteq> 0 \<Longrightarrow> moved lx lx'"
  unfolding read_number_def Let_def by (auto split: if_splits intro: moved_while_start moved_more moved_while)

lemma single_moved: "single t p lx = (tok, lx') \<Longrightarrow> moved lx lx'"
  by (auto simp: single_def)

lemma compare_token_moved: "compare_token a b sign p lx = (tok, lx') \<Longrightarrow> moved lx lx'"
  by (auto simp: compare_token_def intro: moved_more split: if_splits)

lemma next_token_moved:
  assumes "next_token U lx = Some (tok, lx')" "tk_type tok \<noteq> Eof"
  shows "moved (skip_whitespace U lx) lx' \<and> lx_ch (skip_whitespace U lx) \<noteq> 0"
  using assms unfolding next_token_def Let_def
  by (auto split: if_splits intro: single_moved compare_token_moved read_string_moved read_identifier_moved read_number_moved)

lemma next_token_left:
  "next_token U lx = Some (tok, lx') \<Longrightarrow> tk_type tok \<noteq> Eof \<Longrightarrow> lx_left lx' < lx_left lx"
  using next_token_moved moved_left lx_left_while unfolding skip_whitespace_def by (metis order.strict_trans2)

function tokenize_loop :: "unicode \<Rightarrow> lexer \<Rightarrow> token list \<Rightarrow> (query_error + token list) option" where
  "tokenize_loop U lx tokens =
     (case next_token U lx of
        None \<Rightarrow> None
      | Some (tok, lx') \<Rightarrow>
          if tk_type tok = Illegal then Some (Inl (IllegalToken (tk_pos tok) (tk_value tok)))
          else if tk_type tok = Eof then Some (Inr (tokens @ [tok]))
          else tokenize_loop U lx' (tokens @ [tok]))"
  by pat_completeness auto
termination
  by (relation "measure (\<lambda>(U, lx, tokens). lx_left lx)") (auto intro: next_token_left)

declare tokenize_loop.simps [simp del]

definition tokenize :: "unicode \<Rightarrow> ustring \<Rightarrow> (query_error + token list) option" where
  "tokenize U query = tokenize_loop U (lexer_new query) []"


subsection \<open>The reference lexer\<close>

text \<open>The lexer as a function of the text that is left: the kind, the value and the number of characters of its first token, and the list of all tokens.\<close>

definition number_prefix :: "unicode \<Rightarrow> ustring \<Rightarrow> ustring" where
  "number_prefix U r =
     (let v = takeWhile (is_digit U) r in
      case dropWhile (is_digit U) r of
        c # d # ds \<Rightarrow> if c = 46 \<and> is_digit U d then v @ 46 # takeWhile (is_digit U) (d # ds) else v
      | _ \<Rightarrow> v)"

definition word_prefix :: "unicode \<Rightarrow> ustring \<Rightarrow> ustring" where
  "word_prefix U r = takeWhile (\<lambda>c. is_letter U c \<or> is_digit U c \<or> c = 95) r"

definition compare_prefix :: "token_type \<Rightarrow> token_type \<Rightarrow> string \<Rightarrow> ustring \<Rightarrow> token_type \<times> ustring \<times> nat" where
  "compare_prefix plain with_eq sign cs =
     (if cs \<noteq> [] \<and> hd cs = 61 then (with_eq, us (sign @ ''=''), 2) else (plain, us sign, 1))"

fun lex_first :: "unicode \<Rightarrow> ustring \<Rightarrow> token_type \<times> ustring \<times> nat" where
  "lex_first U [] = (Eof, [], 0)"
| "lex_first U (c # cs) =
     (if c = 0 then (Eof, [], 0)
      else if c = 40 then (LParen, [c], 1)
      else if c = 41 then (RParen, [c], 1)
      else if c = 91 then (LBracket, [c], 1)
      else if c = 93 then (RBracket, [c], 1)
      else if c = 44 then (Comma, [c], 1)
      else if c = 46 then (Dot, [c], 1)
      else if c = 62 then compare_prefix Gt Gte ''>'' cs
      else if c = 60 then compare_prefix Lt Lte ''<'' cs
      else if c = 34 \<or> c = 39 then
        (let v = takeWhile (\<lambda>d. d \<noteq> c \<and> d \<noteq> 0) cs in (StringTok, v, length v + 2))
      else if is_letter U c then (let v = word_prefix U (c # cs) in (lookup_keyword U v, v, length v))
      else if is_digit U c then (let v = number_prefix U (c # cs) in (Number, v, length v))
      else (Illegal, [c], 1))"

lemma lex_first_moves: "lex_first U r = (t, v, n) \<Longrightarrow> t \<noteq> Eof \<Longrightarrow> 0 < n \<and> r \<noteq> []"
  by (cases r) (auto simp: Let_def compare_prefix_def word_prefix_def number_prefix_def split: if_splits list.splits)

function lex_text :: "unicode \<Rightarrow> nat \<Rightarrow> ustring \<Rightarrow> query_error + token list" where
  "lex_text U p r =
     (let p = p + length (takeWhile (is_whitespace U) r);
          r = dropWhile (is_whitespace U) r;
          (t, v, n) = lex_first U r
      in if t = Illegal then Inl (IllegalToken p v)
         else if t = Eof then Inr [\<lparr>tk_type = Eof, tk_value = v, tk_pos = p\<rparr>]
         else map_sum id (Cons \<lparr>tk_type = t, tk_value = v, tk_pos = p\<rparr>) (lex_text U (p + n) (drop n r)))"
  by pat_completeness auto
termination
proof (relation "measure (\<lambda>(U, p, r). length r)", goal_cases)
  case 1
  show ?case by simp
next
  case (2 U p r p' r' x t y v n)
  then have "0 < n" "r' \<noteq> []" using lex_first_moves [of U r' t v n] by auto
  moreover have "length r' \<le> length r" using 2 by (simp add: length_dropWhile_le)
  ultimately show ?case by (cases r') auto
qed

declare lex_text.simps [simp del]


subsection \<open>The lexer at a place of its text\<close>

definition lx_at :: "ustring \<Rightarrow> nat \<Rightarrow> lexer" where
  "lx_at inp k = \<lparr>lx_input = inp, lx_pos = Suc k, lx_ch = (if k < length inp then inp ! k else 0)\<rparr>"

lemma lexer_new_at: "lexer_new inp = lx_at inp 0"
  by (simp add: lexer_new_def read_char_def lx_at_def)

lemma read_char_at [simp]: "read_char (lx_at inp k) = lx_at inp (Suc k)"
  by (simp add: read_char_def lx_at_def)

lemma lx_at_sel [simp]:
  "lx_input (lx_at inp k) = inp" "lx_pos (lx_at inp k) = Suc k"
  "lx_ch (lx_at inp k) = (if k < length inp then inp ! k else 0)"
  "peek_char (lx_at inp k) = (if Suc k < length inp then inp ! Suc k else 0)"
  by (simp_all add: lx_at_def peek_char_def)

lemma read_while_at:
  assumes "\<not> p 0"
  shows "read_while p (lx_at inp k) = lx_at inp (k + length (takeWhile p (drop k inp)))"
proof (induction "length inp - k" arbitrary: k)
  case 0
  then show ?case by (subst read_while.simps) simp
next
  case (Suc n)
  then have d: "drop k inp = inp ! k # drop (Suc k) inp" by (intro Cons_nth_drop_Suc [symmetric]) simp
  show ?case
  proof (cases "p (inp ! k)")
    case True
    then have "inp ! k \<noteq> 0" using assms by metis
    then show ?thesis using Suc True d by (subst read_while.simps) simp
  next
    case False
    then show ?thesis using d Suc.hyps(2) by (subst read_while.simps) simp
  qed
qed

lemma char_0 [simp]: "\<not> is_letter U 0" "\<not> is_digit U 0" "\<not> is_whitespace U 0"
  by (simp_all add: is_letter_def is_digit_def is_whitespace_def)

lemma slice_drop: "j \<le> length xs - k \<Longrightarrow> k \<le> length xs \<Longrightarrow> slice k (k + j) xs = Some (take j (drop k xs))"
  by (simp add: slice_def)

lemma slice_while: "k \<le> length inp \<Longrightarrow> slice k (k + length (takeWhile p (drop k inp))) inp = Some (takeWhile p (drop k inp))"
proof -
  assume k: "k \<le> length inp"
  have "length (takeWhile p (drop k inp)) \<le> length inp - k"
    using length_takeWhile_le [of p "drop k inp"] by simp
  then show ?thesis using k by (simp add: slice_drop takeWhile_eq_take [symmetric])
qed

lemma read_identifier_at:
  "k \<le> length inp \<Longrightarrow>
     read_identifier U (lx_at inp k) = Some (word_prefix U (drop k inp), lx_at inp (k + length (word_prefix U (drop k inp))))"
  by (simp add: read_identifier_def read_while_at slice_while word_prefix_def)

lemma read_string_at:
  assumes "k < length inp"
  shows "read_string (lx_at inp k) =
    (let v = takeWhile (\<lambda>d. d \<noteq> inp ! k \<and> d \<noteq> 0) (drop (Suc k) inp) in Some (v, lx_at inp (k + length v + 2)))"
  using assms slice_while [of "Suc k" inp] by (simp add: read_string_def Let_def read_while_at)

lemma drop_two: "drop j xs = c # d # ds \<Longrightarrow> Suc j < length xs \<and> xs ! j = c \<and> xs ! Suc j = d"
proof -
  assume d: "drop j xs = c # d # ds"
  have "length (drop j xs) \<ge> 2" by (simp add: d)
  then have j: "Suc j < length xs" by simp
  have "xs ! (j + 0) = drop j xs ! 0" "xs ! (j + 1) = drop j xs ! 1" using j by (subst nth_drop; simp)+
  then show ?thesis using j d by simp
qed

lemma read_number_at:
  assumes k: "k \<le> length inp"
  shows "read_number U (lx_at inp k) = Some (number_prefix U (drop k inp), lx_at inp (k + length (number_prefix U (drop k inp))))"
proof -
  define v where "v = takeWhile (is_digit U) (drop k inp)"
  define j where "j = k + length v"
  have w: "read_while (is_digit U) (lx_at inp k) = lx_at inp j" by (simp add: read_while_at v_def j_def)
  have rest: "dropWhile (is_digit U) (drop k inp) = drop j inp" by (simp add: dropWhile_eq_drop v_def j_def add.commute)
  have jl: "j \<le> length inp" using k length_takeWhile_le [of "is_digit U" "drop k inp"] by (simp add: j_def v_def)
  have vt: "take (length v) (drop k inp) = v" by (simp add: v_def takeWhile_eq_take [symmetric])
  show ?thesis
  proof (cases "j < length inp \<and> inp ! j = 46 \<and> Suc j < length inp \<and> is_digit U (inp ! Suc j)")
    case True
    define u where "u = takeWhile (is_digit U) (drop (Suc j) inp)"
    have dj: "drop j inp = 46 # inp ! Suc j # drop (Suc (Suc j)) inp"
      using True by (metis Cons_nth_drop_Suc)
    have u: "u = takeWhile (is_digit U) (inp ! Suc j # drop (Suc (Suc j)) inp)"
      using True unfolding u_def by (metis Cons_nth_drop_Suc)
    have np: "number_prefix U (drop k inp) = v @ 46 # u"
      using True u by (simp add: number_prefix_def rest dj v_def Let_def)
    have ul: "length u \<le> length inp - Suc j" using length_takeWhile_le [of "is_digit U" "drop (Suc j) inp"] by (simp add: u_def)
    have ut: "take (length u) (drop (Suc j) inp) = u" by (simp add: u_def takeWhile_eq_take [symmetric])
    have "take (Suc (length v + length u)) (drop k inp) = v @ take (Suc (length u)) (drop j inp)"
      using take_add [of "length v" "Suc (length u)" "drop k inp"] vt by (simp add: j_def add.commute)
    also have "take (Suc (length u)) (drop j inp) = 46 # u" using True ut by (simp add: Cons_nth_drop_Suc [symmetric])
    finally have "slice k (k + Suc (length v + length u)) inp = Some (v @ 46 # u)"
      using ul True by (subst slice_drop) (auto simp: j_def)
    then show ?thesis
      using True np by (simp add: read_number_def w read_while_at Let_def u_def j_def add.assoc)
  next
    case False
    have np: "number_prefix U (drop k inp) = v"
      unfolding number_prefix_def rest v_def [symmetric] Let_def
      using False by (auto split: list.splits dest!: drop_two)
    have "slice k (k + length v) inp = Some v" using slice_while [OF k] by (simp add: v_def)
    then show ?thesis using False np jl by (auto simp: read_number_def w Let_def j_def)
  qed
qed

lemma compare_token_at:
  "k < length inp \<Longrightarrow>
     compare_token a b sign k (lx_at inp k) =
       (case compare_prefix a b sign (drop (Suc k) inp) of (t, v, n) \<Rightarrow> (\<lparr>tk_type = t, tk_value = v, tk_pos = k\<rparr>, lx_at inp (k + n)))"
  by (auto simp: compare_token_def compare_prefix_def hd_drop_conv_nth)

lemma single_at:
  "k < length inp \<Longrightarrow> single t k (lx_at inp k) = (\<lparr>tk_type = t, tk_value = [inp ! k], tk_pos = k\<rparr>, lx_at inp (Suc k))"
  by (simp add: single_def)

lemma token_if:
  "(case (if b then x else y) of (t, v, n) \<Rightarrow> f t v n) = (if b then (case x of (t, v, n) \<Rightarrow> f t v n) else (case y of (t, v, n) \<Rightarrow> f t v n))"
  by simp

lemma next_token_at:
  assumes "j = k + length (takeWhile (is_whitespace U) (drop k inp))"
  shows "next_token U (lx_at inp k) =
    (case lex_first U (drop j inp) of (t, v, n) \<Rightarrow> Some (\<lparr>tk_type = t, tk_value = v, tk_pos = j\<rparr>, lx_at inp (j + n)))"
proof -
  have sk: "skip_whitespace U (lx_at inp k) = lx_at inp j"
    using assms by (simp add: skip_whitespace_def read_while_at)
  show ?thesis
  proof (cases "j < length inp")
    case False
    then show ?thesis by (simp add: next_token_def sk Let_def)
  next
    case True
    have d: "drop j inp = inp ! j # drop (Suc j) inp" using True by (simp add: Cons_nth_drop_Suc)
    have le: "j \<le> length inp" using True by simp
    show ?thesis
      unfolding next_token_def sk Let_def d lex_first.simps token_if
      using True
      by (simp add: single_at compare_token_at read_string_at read_identifier_at [OF le, unfolded d]
          read_number_at [OF le, unfolded d] Let_def case_prod_beta split del: if_split cong: if_cong)
  qed
qed

lemma tokenize_loop_at:
  "tokenize_loop U (lx_at inp k) tokens = Some (map_sum id (append tokens) (lex_text U k (drop k inp)))"
proof (induction "length inp - k" arbitrary: k tokens rule: less_induct)
  case less
  define j where "j = k + length (takeWhile (is_whitespace U) (drop k inp))"
  obtain t v n where l: "lex_first U (drop j inp) = (t, v, n)" by (metis prod_cases3)
  have r: "dropWhile (is_whitespace U) (drop k inp) = drop j inp"
    by (simp add: dropWhile_eq_drop j_def add.commute)
  have nt: "next_token U (lx_at inp k) = Some (\<lparr>tk_type = t, tk_value = v, tk_pos = j\<rparr>, lx_at inp (j + n))"
    using next_token_at [OF j_def] l by simp
  show ?case
  proof (cases "t = Illegal \<or> t = Eof")
    case True
    then show ?thesis
      using nt l by (subst tokenize_loop.simps, subst lex_text.simps) (auto simp: r j_def [symmetric] Let_def)
  next
    case False
    then have "0 < n" "j < length inp" using lex_first_moves [OF l] by auto
    then have "length inp - (j + n) < length inp - k" by (simp add: j_def)
    note IH = less [OF this, of "tokens @ [\<lparr>tk_type = t, tk_value = v, tk_pos = j\<rparr>]"]
    show ?thesis
      using False nt l IH
      by (subst tokenize_loop.simps, subst lex_text.simps)
        (cases "lex_text U (j + n) (drop (j + n) inp)"; simp add: r j_def [symmetric] Let_def add.commute)
  qed
qed

lemma tokenize_lex_text: "tokenize U s = Some (lex_text U 0 s)"
  using tokenize_loop_at [of U s 0 "[]"] by (cases "lex_text U 0 s") (simp_all add: tokenize_def lexer_new_at)

definition ends_with_eof :: "token list \<Rightarrow> bool" where
  "ends_with_eof ts \<longleftrightarrow> ts \<noteq> [] \<and> tk_type (last ts) = Eof \<and> (\<forall>t \<in> set (butlast ts). tk_type t \<noteq> Eof \<and> tk_type t \<noteq> Illegal)"

lemma lex_text_eof: "lex_text U p r = Inr ts \<Longrightarrow> ends_with_eof ts"
proof (induction U p r arbitrary: ts rule: lex_text.induct)
  case (1 U p r)
  define j where "j = p + length (takeWhile (is_whitespace U) r)"
  define r' where "r' = dropWhile (is_whitespace U) r"
  obtain t v n where l: "lex_first U r' = (t, v, n)" by (metis prod_cases3)
  note eq = 1(2) [unfolded lex_text.simps [of U p r], folded j_def r'_def, unfolded Let_def l prod.case]
  show ?case
  proof (cases "t = Illegal \<or> t = Eof")
    case True
    then show ?thesis using eq by (auto simp: ends_with_eof_def split: if_splits)
  next
    case False
    then obtain ts' where ts: "lex_text U (j + n) (drop n r') = Inr ts'" "ts = \<lparr>tk_type = t, tk_value = v, tk_pos = j\<rparr> # ts'"
      using eq by (cases "lex_text U (j + n) (drop n r')") auto
    have "ends_with_eof ts'" using 1(1) [OF j_def r'_def l [symmetric] refl] False ts(1) by simp
    then show ?thesis using False ts(2) by (auto simp: ends_with_eof_def)
  qed
qed

text \<open>
  \<open>tokenize\<close> never panics on a slice and always ends, and its tokens are those of the reference lexer, which reads the longest first token of the remaining text, with its position, until the end of the text, a NUL
  character or an illegal one.
\<close>

theorem tokenize_reference: "tokenize U s = Some (lex_text U 0 s)"
  by (rule tokenize_lex_text)

end
