(* ===== verification/Validation.thy ===== *)
theory Validation
  imports Json Outcome Query_Lexer
begin

text \<open>
  \<open>src/core/validation.rs\<close>: collection names and JSON schemas.

  The place of a value in a document, which the code formats into the error text, is the list of the steps that lead to it. A bound of a schema is the number with its value.
\<close>

subsection \<open>Specification\<close>

definition reserved_collection_names :: "ustring set" where
  "reserved_collection_names = {us ''_metadata'', us ''_internal'', us ''_system''}"

definition validate_collection_name :: "unicode \<Rightarrow> ustring \<Rightarrow> unit res" where
  "validate_collection_name U name =
     (if name = [] then Err CollectionNameEmpty
      else if length (utf8 name) > 64 then Err CollectionNameTooLong
      else if \<not> is_letter U (hd name) \<and> hd name \<noteq> 95 then Err CollectionNameInvalidStart
      else if \<not> list_all (\<lambda>ch. is_letter U ch \<or> is_digit U ch \<or> ch = 95) name then Err CollectionNameInvalidChar
      else if name \<in> reserved_collection_names then Err CollectionNameReserved
      else Ok ())"

datatype value_type = TString | TNumber | TInteger | TBoolean | TObject | TArray | TNull

datatype 'n schema = Schema
  (sc_value_type: "value_type option")
  (sc_required: "ustring list option")
  (sc_properties: "(ustring \<times> 'n schema) list option")
  (sc_items: "'n schema option")
  (sc_minimum: "'n option")
  (sc_maximum: "'n option")
  (sc_min_length: "nat option")
  (sc_max_length: "nat option")
  (sc_enum_values: "'n json list option")

definition schema_new :: "'n schema" where
  "schema_new = Schema None None None None None None None None None"

datatype path_step = Key ustring | Idx nat

datatype 'n schema_error =
    NotInEnum "path_step list"
  | MissingField ustring "path_step list"
  | TooShort "path_step list" nat nat
  | TooLong "path_step list" nat nat
  | BelowMinimum "path_step list" 'n 'n
  | AboveMaximum "path_step list" 'n 'n
  | NotAnInteger "path_step list"
  | TypeMismatch "path_step list" value_type

definition type_matches :: "'n numbers \<Rightarrow> value_type \<Rightarrow> 'n json \<Rightarrow> bool" where
  "type_matches N expected v =
     (case (expected, v) of
        (TString, JString _) \<Rightarrow> True
      | (TNumber, JNumber _) \<Rightarrow> True
      | (TInteger, JNumber n) \<Rightarrow> num_integer N n
      | (TBoolean, JBool _) \<Rightarrow> True
      | (TObject, JObject _) \<Rightarrow> True
      | (TArray, JArray _) \<Rightarrow> True
      | (TNull, JNull) \<Rightarrow> True
      | _ \<Rightarrow> False)"

definition validate_type :: "'n numbers \<Rightarrow> 'n json \<Rightarrow> value_type \<Rightarrow> path_step list \<Rightarrow> 'n schema_error option" where
  "validate_type N v expected path = (if type_matches N expected v then None else Some (TypeMismatch path expected))"

text \<open>An error is the result \<open>Some\<close>; \<open>first_error\<close> is the operator \<open>?\<close> between two checks.\<close>

definition first_error :: "'e option \<Rightarrow> 'e option \<Rightarrow> 'e option" where
  "first_error a b = (case a of None \<Rightarrow> b | Some e \<Rightarrow> Some e)"

definition validate_length :: "'n schema \<Rightarrow> nat \<Rightarrow> path_step list \<Rightarrow> 'n schema_error option" where
  "validate_length s n path =
     first_error
       (case sc_min_length s of Some m \<Rightarrow> if n < m then Some (TooShort path n m) else None | None \<Rightarrow> None)
       (case sc_max_length s of Some m \<Rightarrow> if n > m then Some (TooLong path n m) else None | None \<Rightarrow> None)"

definition validate_number :: "'n numbers \<Rightarrow> 'n schema \<Rightarrow> 'n \<Rightarrow> path_step list \<Rightarrow> 'n schema_error option" where
  "validate_number N s n path =
     first_error
       (case sc_minimum s of Some m \<Rightarrow> if num_lt N n m then Some (BelowMinimum path n m) else None | None \<Rightarrow> None)
     (first_error
       (case sc_maximum s of Some m \<Rightarrow> if num_lt N m n then Some (AboveMaximum path n m) else None | None \<Rightarrow> None)
       (case sc_value_type s of
          Some TInteger \<Rightarrow> if \<not> num_integer N n then Some (NotAnInteger path) else None
        | _ \<Rightarrow> None))"

fun validate_required :: "ustring list \<Rightarrow> (ustring \<times> 'n json) list \<Rightarrow> path_step list \<Rightarrow> 'n schema_error option" where
  "validate_required [] obj path = None"
| "validate_required (f # fs) obj path =
     (if map_of obj f = None then Some (MissingField f path) else validate_required fs obj path)"

definition validate_enum :: "'n numbers \<Rightarrow> 'n schema \<Rightarrow> 'n json \<Rightarrow> path_step list \<Rightarrow> 'n schema_error option" where
  "validate_enum N s v path =
     (case sc_enum_values s of
        Some allowed \<Rightarrow> if \<not> list_ex (\<lambda>a. json_eq (num_same N) a v) allowed then Some (NotInEnum path) else None
      | None \<Rightarrow> None)"

function (sequential) validate_with_path :: "'n numbers \<Rightarrow> 'n schema \<Rightarrow> 'n json \<Rightarrow> path_step list \<Rightarrow> 'n schema_error option"
  and validate_properties :: "'n numbers \<Rightarrow> (ustring \<times> 'n schema) list \<Rightarrow> (ustring \<times> 'n json) list \<Rightarrow> path_step list \<Rightarrow> 'n schema_error option"
  and validate_items :: "'n numbers \<Rightarrow> 'n schema \<Rightarrow> nat \<Rightarrow> 'n json list \<Rightarrow> path_step list \<Rightarrow> 'n schema_error option" where
  "validate_with_path N s v path =
     first_error (case sc_value_type s of Some t \<Rightarrow> validate_type N v t path | None \<Rightarrow> None)
     (first_error (validate_enum N s v path)
       (case v of
          JObject obj \<Rightarrow>
            first_error (case sc_required s of Some fs \<Rightarrow> validate_required fs obj path | None \<Rightarrow> None)
              (case sc_properties s of Some ps \<Rightarrow> validate_properties N ps obj path | None \<Rightarrow> None)
        | JArray arr \<Rightarrow>
            first_error (validate_length s (length arr) path)
              (case sc_items s of Some i \<Rightarrow> validate_items N i 0 arr path | None \<Rightarrow> None)
        | JString t \<Rightarrow> validate_length s (length (utf8 t)) path
        | JNumber n \<Rightarrow> validate_number N s n path
        | _ \<Rightarrow> None))"
| "validate_properties N ps [] path = None"
| "validate_properties N ps ((k, v) # obj) path =
     first_error (case map_of ps k of Some p \<Rightarrow> validate_with_path N p v (path @ [Key k]) | None \<Rightarrow> None)
       (validate_properties N ps obj path)"
| "validate_items N i idx [] path = None"
| "validate_items N i idx (v # arr) path =
     first_error (validate_with_path N i v (path @ [Idx idx])) (validate_items N i (Suc idx) arr path)"
  by pat_completeness auto

termination
  by (relation "measure (\<lambda>x. case x of
        Inl (N, s, v, path) \<Rightarrow> size v
      | Inr (Inl (N, ps, obj, path)) \<Rightarrow> size_list (size_prod (\<lambda>x. 0) size) obj
      | Inr (Inr (N, i, idx, arr, path)) \<Rightarrow> size_list size arr)") auto

declare validate_with_path.simps [simp del]

definition validate :: "'n numbers \<Rightarrow> 'n schema \<Rightarrow> 'n json \<Rightarrow> 'n schema_error option" where
  "validate N s v = validate_with_path N s v []"

text \<open>What a schema demands, as a relation between schemas and values.\<close>

definition length_within :: "'n schema \<Rightarrow> nat \<Rightarrow> bool" where
  "length_within s n \<longleftrightarrow> (\<forall>m. sc_min_length s = Some m \<longrightarrow> m \<le> n) \<and> (\<forall>m. sc_max_length s = Some m \<longrightarrow> n \<le> m)"

definition allowed_value :: "'n numbers \<Rightarrow> 'n schema \<Rightarrow> 'n json \<Rightarrow> bool" where
  "allowed_value N s v \<longleftrightarrow>
     (\<forall>t. sc_value_type s = Some t \<longrightarrow> type_matches N t v) \<and>
     (\<forall>vs. sc_enum_values s = Some vs \<longrightarrow> (\<exists>a \<in> set vs. json_eq (num_same N) a v))"

inductive conforms :: "'n numbers \<Rightarrow> 'n schema \<Rightarrow> 'n json \<Rightarrow> bool" for N :: "'n numbers" where
  conforms_object:
    "allowed_value N s (JObject obj)
     \<Longrightarrow> \<forall>fs f. sc_required s = Some fs \<longrightarrow> f \<in> set fs \<longrightarrow> map_of obj f \<noteq> None
     \<Longrightarrow> \<forall>ps k v p. sc_properties s = Some ps \<longrightarrow> (k, v) \<in> set obj \<longrightarrow> map_of ps k = Some p \<longrightarrow> conforms N p v
     \<Longrightarrow> conforms N s (JObject obj)"
| conforms_array:
    "allowed_value N s (JArray arr) \<Longrightarrow> length_within s (length arr)
     \<Longrightarrow> \<forall>i v. sc_items s = Some i \<longrightarrow> v \<in> set arr \<longrightarrow> conforms N i v
     \<Longrightarrow> conforms N s (JArray arr)"
| conforms_string: "allowed_value N s (JString t) \<Longrightarrow> length_within s (length (utf8 t)) \<Longrightarrow> conforms N s (JString t)"
| conforms_number:
    "allowed_value N s (JNumber n) \<Longrightarrow> \<forall>m. sc_minimum s = Some m \<longrightarrow> \<not> num_lt N n m
     \<Longrightarrow> \<forall>m. sc_maximum s = Some m \<longrightarrow> \<not> num_lt N m n \<Longrightarrow> conforms N s (JNumber n)"
| conforms_bool: "allowed_value N s (JBool b) \<Longrightarrow> conforms N s (JBool b)"
| conforms_null: "allowed_value N s JNull \<Longrightarrow> conforms N s JNull"

inductive_simps conforms_simps:
  "conforms N s (JObject obj)" "conforms N s (JArray arr)" "conforms N s (JString t)" "conforms N s (JNumber n)"
  "conforms N s (JBool b)" "conforms N s JNull"

subsection \<open>Lemmas\<close>

lemma first_error_None [simp]: "first_error a b = None \<longleftrightarrow> a = None \<and> b = None"
  by (auto simp: first_error_def split: option.splits)

lemma validate_length_None: "validate_length s n path = None \<longleftrightarrow> length_within s n"
  by (auto simp: validate_length_def length_within_def split: option.splits)

lemma validate_required_None: "validate_required fs obj path = None \<longleftrightarrow> (\<forall>f \<in> set fs. map_of obj f \<noteq> None)"
  by (induction fs) auto

lemma validate_allowed:
  "(case sc_value_type s of Some t \<Rightarrow> validate_type N v t path | None \<Rightarrow> None) = None \<and> validate_enum N s v path = None \<longleftrightarrow> allowed_value N s v"
  by (auto simp: validate_type_def validate_enum_def allowed_value_def list_ex_iff split: option.splits)

lemma validate_conforms:
  "validate_with_path N s v path = None \<longleftrightarrow> conforms N s v"
  "validate_properties N ps obj path' = None \<longleftrightarrow> (\<forall>k w p. (k, w) \<in> set obj \<longrightarrow> map_of ps k = Some p \<longrightarrow> conforms N p w)"
  "validate_items N i idx arr path'' = None \<longleftrightarrow> (\<forall>w \<in> set arr. conforms N i w)"
proof (induction N s v path and N ps obj path' and N i idx arr path'' rule: validate_with_path_validate_properties_validate_items.induct)
  case (1 N s v path)
  have a: "validate_with_path N s v path = None \<longleftrightarrow> allowed_value N s v \<and>
     (case v of
          JObject obj \<Rightarrow>
            first_error (case sc_required s of Some fs \<Rightarrow> validate_required fs obj path | None \<Rightarrow> None)
              (case sc_properties s of Some ps \<Rightarrow> validate_properties N ps obj path | None \<Rightarrow> None)
        | JArray arr \<Rightarrow>
            first_error (validate_length s (length arr) path)
              (case sc_items s of Some i \<Rightarrow> validate_items N i 0 arr path | None \<Rightarrow> None)
        | JString t \<Rightarrow> validate_length s (length (utf8 t)) path
        | JNumber n \<Rightarrow> validate_number N s n path
        | _ \<Rightarrow> None) = None"
    using validate_allowed [where s = s and N = N and v = v and path = path] unfolding validate_with_path.simps [of N s v path] first_error_None by blast
  show ?case
  proof (cases v)
    case (JNumber n)
    have "allowed_value N s (JNumber n) \<Longrightarrow> sc_value_type s = Some TInteger \<Longrightarrow> num_integer N n"
      by (auto simp: allowed_value_def type_matches_def)
    then show ?thesis unfolding a
      by (auto simp: JNumber conforms_simps validate_number_def split: option.splits value_type.splits)
  next
    case (JObject obj)
    then show ?thesis unfolding a using 1(2) [OF JObject]
      by (auto simp: JObject conforms_simps validate_required_None split: option.splits)
  next
    case (JArray arr)
    then show ?thesis unfolding a using 1(1) [OF JArray]
      by (auto simp: JArray conforms_simps validate_length_None split: option.splits)
  qed (unfold a, auto simp: conforms_simps validate_length_None)
next
  case (3 N ps k v obj path)
  then show ?case by (auto split: option.splits)
qed auto

subsection \<open>Properties\<close>

text \<open>
  C19: A document passes the validation exactly if it conforms to the schema: at every depth it has the demanded type and one of the allowed values, all required fields, lengths and numbers within the bounds, and its
  listed properties and items conform to their schemas.
\<close>

theorem validate_iff_conforms: "validate N s v = None \<longleftrightarrow> conforms N s v"
  unfolding validate_def by (rule validate_conforms)

end
