(* ===== verification/Metadata.thy ===== *)
theory Metadata
  imports Validation
begin

text \<open>
  \<open>src/core/metadata.rs\<close>: the collections of a database with their tree roots, indexes and schema.

  The JSON text of the metadata is made by \<open>serde\<close>, a package outside the sources: its two directions are the fields of a record.
\<close>

subsection \<open>Specification\<close>

record index_meta =
  im_name :: string
  im_field :: "ustring option"
  im_fields :: "ustring list"
  im_btree_root :: page_num
  im_unique :: bool

record text_index_meta =
  xm_name :: string
  xm_fields :: "ustring list"
  xm_btree_root :: page_num

record 'n collection_meta =
  cm_btree_root :: page_num
  cm_indexes :: "(string, index_meta) hmap"
  cm_text_indexes :: "(string, text_index_meta) hmap"
  cm_schema :: "'n schema option"

record 'n metadata =
  md_collections :: "(string, 'n collection_meta) hmap"

definition get_fields :: "index_meta \<Rightarrow> ustring list" where
  "get_fields m = (if im_fields m \<noteq> [] then im_fields m else case im_field m of Some f \<Rightarrow> [f] | None \<Rightarrow> [])"

definition is_compound :: "index_meta \<Rightarrow> bool" where
  "is_compound m \<longleftrightarrow> length (get_fields m) > 1"

definition metadata_new :: "'n metadata" where
  "metadata_new = \<lparr>md_collections = []\<rparr>"

record 'n meta_codec =
  mc_to_vec :: "'n metadata \<Rightarrow> bytes option"
  mc_from_slice :: "bytes \<Rightarrow> 'n metadata option"

definition json_error :: error where
  "json_error = Other ''JSON error''"

definition metadata_serialize :: "'n meta_codec \<Rightarrow> 'n metadata \<Rightarrow> bytes res" where
  "metadata_serialize C m = (case mc_to_vec C m of Some d \<Rightarrow> Ok d | None \<Rightarrow> Err json_error)"

text \<open>The bytes up to the last one that is not zero.\<close>

definition trim_zeros :: "bytes \<Rightarrow> bytes" where
  "trim_zeros d = rev (dropWhile (\<lambda>b. b = 0) (rev d))"

definition metadata_deserialize :: "'n meta_codec \<Rightarrow> bytes \<Rightarrow> 'n metadata res" where
  "metadata_deserialize C d = (case mc_from_slice C (trim_zeros d) of Some m \<Rightarrow> Ok m | None \<Rightarrow> Err json_error)"

definition collection_meta_new :: "'n collection_meta" where
  "collection_meta_new = \<lparr>cm_btree_root = 0, cm_indexes = [], cm_text_indexes = [], cm_schema = None\<rparr>"

text \<open>\<open>get_collection\<close> returns a reference into the map: the change made through it is the argument \<open>f\<close>.\<close>

definition get_collection :: "string \<Rightarrow> ('n collection_meta \<Rightarrow> 'n collection_meta) \<Rightarrow> 'n metadata \<Rightarrow> 'n metadata" where
  "get_collection name f m =
     m\<lparr>md_collections := hm_insert name
         (f (case hm_get (md_collections m) name of Some c \<Rightarrow> c | None \<Rightarrow> collection_meta_new)) (md_collections m)\<rparr>"

text \<open>\<open>if meta_data.len() < PAGE_SIZE { meta_data.resize(PAGE_SIZE, 0) }\<close>\<close>

definition pad_page :: "bytes \<Rightarrow> bytes" where
  "pad_page d = d @ replicate (PAGE_SIZE - length d) 0"

text \<open>\<open>collections.get(name).map(|c| c.btree_root).unwrap_or(0)\<close>\<close>

definition collection_root :: "'n metadata \<Rightarrow> string \<Rightarrow> page_num" where
  "collection_root m name = (case hm_get (md_collections m) name of Some c \<Rightarrow> cm_btree_root c | None \<Rightarrow> 0)"

definition set_root :: "string \<Rightarrow> page_num \<Rightarrow> 'n metadata \<Rightarrow> 'n metadata" where
  "set_root name root m = get_collection name (\<lambda>c. c\<lparr>cm_btree_root := root\<rparr>) m"

subsection \<open>Lemmas\<close>

lemma length_pad_page: "length d \<le> PAGE_SIZE \<Longrightarrow> length (pad_page d) = PAGE_SIZE"
  by (simp add: pad_page_def)

lemma trim_pad: "d = [] \<or> last d \<noteq> 0 \<Longrightarrow> trim_zeros (pad_page d) = d"
proof -
  assume d: "d = [] \<or> last d \<noteq> 0"
  have "dropWhile (\<lambda>b. b = 0) (replicate n 0 @ rev d) = rev d" for n
  proof (cases d rule: rev_cases)
    case Nil
    then show ?thesis by (simp add: dropWhile_eq_Nil_conv)
  next
    case (snoc ys y)
    then have "y \<noteq> 0" using d by simp
    then show ?thesis using snoc by (induction n) simp_all
  qed
  then show ?thesis by (simp add: trim_zeros_def pad_page_def rev_replicate)
qed

lemma collection_root_set [simp]: "collection_root (set_root c r m) c' = (if c' = c then r else collection_root m c')"
  by (simp add: collection_root_def set_root_def get_collection_def)

text \<open>Setting a root leaves the indexes and the schema of every collection as they were.\<close>

definition same_indexes :: "'n metadata \<Rightarrow> 'n metadata \<Rightarrow> bool" where
  "same_indexes m m' \<longleftrightarrow> (\<forall>c cm. hm_get (md_collections m) c = Some cm \<longrightarrow>
     (\<exists>cm'. hm_get (md_collections m') c = Some cm' \<and> cm_indexes cm' = cm_indexes cm \<and> cm_text_indexes cm' = cm_text_indexes cm \<and> cm_schema cm' = cm_schema cm))"

lemma same_indexes_refl [simp]: "same_indexes m m"
  by (simp add: same_indexes_def)

lemma same_indexes_trans: "same_indexes m m' \<Longrightarrow> same_indexes m' m'' \<Longrightarrow> same_indexes m m''"
  unfolding same_indexes_def by metis

lemma same_indexes_set_root [simp]: "same_indexes m (set_root c r m)"
  by (auto simp: same_indexes_def set_root_def get_collection_def)

subsection \<open>Properties\<close>

text \<open>
  Metadata that fits a page is read back from the padded page as it was written, for a JSON codec that reads back what it writes and whose text does not end with a zero byte.
\<close>

theorem metadata_roundtrip:
  assumes "mc_to_vec C m = Some d" "mc_from_slice C d = Some m" "last d \<noteq> 0" "length d \<le> PAGE_SIZE"
  shows "metadata_serialize C m = Ok d \<and> length (pad_page d) = PAGE_SIZE \<and> metadata_deserialize C (pad_page d) = Ok m"
  using assms by (simp add: metadata_serialize_def metadata_deserialize_def trim_pad length_pad_page)

definition sample_codec :: "nat meta_codec" where
  "sample_codec = \<lparr>mc_to_vec = \<lambda>m. if m = metadata_new then Some [123, 125] else None,
     mc_from_slice = \<lambda>d. if d = [123, 125] then Some metadata_new else None\<rparr>"

theorem metadata_roundtrip_witness: "metadata_deserialize sample_codec (pad_page [123, 125]) = Ok metadata_new"
  using metadata_roundtrip [of sample_codec metadata_new "[123, 125]"] by (simp add: sample_codec_def PAGE_SIZE_def)

end
