(* ===== verification/Index_Key.thy ===== *)
theory Index_Key
  imports Json Outcome
begin

text \<open>
  \<open>src/core/index_key.rs\<close>: the order of JSON values and the keys of the secondary indexes.

  The JSON text of a value is that of \<open>serde_json\<close>, a package outside the sources: \<open>to_text\<close> and \<open>from_text\<close> are arguments.
\<close>

subsection \<open>Specification\<close>

record 'n index_key =
  ik_field_value :: "'n json"
  ik_doc_id :: ustring

record 'n compound_index_key =
  ck_field_values :: "'n json list"
  ck_doc_id :: ustring

definition compare_numbers :: "'n numbers \<Rightarrow> 'n \<Rightarrow> 'n \<Rightarrow> ordering" where
  "compare_numbers N a b = (if num_lt N a b then Less else if num_lt N b a then Greater else Equal)"

text \<open>The entries of an object are compared in the order of their keys.\<close>

definition sorted_entries :: "(ustring \<times> 'n json) list \<Rightarrow> (ustring \<times> 'n json) list" where
  "sorted_entries m = sort_key fst m"

lemma size_list_insort: "size_list f (insort_key g x xs) = Suc (f x + size_list f xs)"
  by (induction xs) simp_all

lemma size_sorted_entries [simp]: "size_list f (sorted_entries m) = size_list f m"
  unfolding sorted_entries_def by (induction m) (simp_all add: size_list_insort)

function (sequential) compare_values :: "'n numbers \<Rightarrow> 'n json \<Rightarrow> 'n json \<Rightarrow> ordering"
  and compare_elems :: "'n numbers \<Rightarrow> 'n json list \<Rightarrow> 'n json list \<Rightarrow> ordering"
  and compare_entries :: "'n numbers \<Rightarrow> (ustring \<times> 'n json) list \<Rightarrow> (ustring \<times> 'n json) list \<Rightarrow> ordering" where
  "compare_values N JNull JNull = Equal"
| "compare_values N JNull _ = Less"
| "compare_values N _ JNull = Greater"
| "compare_values N (JBool a) (JBool b) = cmp a b"
| "compare_values N (JBool _) _ = Less"
| "compare_values N _ (JBool _) = Greater"
| "compare_values N (JNumber a) (JNumber b) = compare_numbers N a b"
| "compare_values N (JNumber _) _ = Less"
| "compare_values N _ (JNumber _) = Greater"
| "compare_values N (JString a) (JString b) = cmp a b"
| "compare_values N (JString _) _ = Less"
| "compare_values N _ (JString _) = Greater"
| "compare_values N (JArray a) (JArray b) = compare_elems N a b"
| "compare_values N (JArray _) _ = Less"
| "compare_values N _ (JArray _) = Greater"
| "compare_values N (JObject a) (JObject b) = compare_entries N (sorted_entries a) (sorted_entries b)"
| "compare_elems N (x # xs) (y # ys) =
     (case compare_values N x y of Equal \<Rightarrow> compare_elems N xs ys | r \<Rightarrow> r)"
| "compare_elems N xs ys = cmp (length xs) (length ys)"
| "compare_entries N ((k, x) # xs) ((l, y) # ys) =
     (case cmp k l of
        Equal \<Rightarrow> (case compare_values N x y of Equal \<Rightarrow> compare_entries N xs ys | r \<Rightarrow> r)
      | r \<Rightarrow> r)"
| "compare_entries N xs ys = cmp (length xs) (length ys)"
  by pat_completeness auto


termination
  by (relation "measure (\<lambda>x. case x of
        Inl (N, a, b) \<Rightarrow> size a
      | Inr (Inl (N, xs, ys)) \<Rightarrow> size_list size xs
      | Inr (Inr (N, xs, ys)) \<Rightarrow> size_list (size_prod (\<lambda>x. 0) size) xs)") simp_all

definition compare_index_keys :: "'n numbers \<Rightarrow> 'n index_key \<Rightarrow> 'n index_key \<Rightarrow> ordering" where
  "compare_index_keys N a b =
     (case compare_values N (ik_field_value a) (ik_field_value b) of
        Equal \<Rightarrow> cmp (ik_doc_id a) (ik_doc_id b)
      | r \<Rightarrow> r)"

definition compare_compound_index_keys :: "'n numbers \<Rightarrow> 'n compound_index_key \<Rightarrow> 'n compound_index_key \<Rightarrow> ordering" where
  "compare_compound_index_keys N a b =
     (case compare_elems N (ck_field_values a) (ck_field_values b) of
        Equal \<Rightarrow> cmp (ck_doc_id a) (ck_doc_id b)
      | r \<Rightarrow> r)"

text \<open>\<open>find\<close> of the first bar, and \<open>join\<close>.\<close>

definition BAR :: uchar where
  "BAR = 124"

definition serialize_index_key :: "('n json \<Rightarrow> ustring) \<Rightarrow> 'n index_key \<Rightarrow> ustring" where
  "serialize_index_key to_text k = to_text (ik_field_value k) @ [BAR] @ ik_doc_id k"

definition deserialize_index_key :: "(ustring \<Rightarrow> 'n json option) \<Rightarrow> ustring \<Rightarrow> 'n index_key res" where
  "deserialize_index_key from_text s =
     (if BAR \<in> set s then
        (let value_str = takeWhile (\<lambda>c. c \<noteq> BAR) s;
             doc_id = drop (length value_str + 1) s
         in case from_text value_str of
              Some v \<Rightarrow> Ok \<lparr>ik_field_value = v, ik_doc_id = doc_id\<rparr>
            | None \<Rightarrow> Err (Other ''json''))
      else Err (Other ''invalid index key format''))"

fun join_bar :: "ustring list \<Rightarrow> ustring" where
  "join_bar [] = []"
| "join_bar [p] = p"
| "join_bar (p # ps) = p @ [BAR] @ join_bar ps"

definition serialize_compound_index_key :: "('n json \<Rightarrow> ustring) \<Rightarrow> 'n compound_index_key \<Rightarrow> ustring" where
  "serialize_compound_index_key to_text k = join_bar (map to_text (ck_field_values k) @ [ck_doc_id k])"

fun parse_parts :: "(ustring \<Rightarrow> 'n json option) \<Rightarrow> ustring list \<Rightarrow> 'n json list res" where
  "parse_parts from_text [] = Ok []"
| "parse_parts from_text (p # ps) =
     (case from_text p of
        None \<Rightarrow> Err (Other ''json'')
      | Some v \<Rightarrow> res_bind (parse_parts from_text ps) (\<lambda>vs. Ok (v # vs)))"

definition deserialize_compound_index_key ::
    "(ustring \<Rightarrow> 'n json option) \<Rightarrow> ustring \<Rightarrow> nat \<Rightarrow> 'n compound_index_key res" where
  "deserialize_compound_index_key from_text s num_fields =
     (let parts = split_at_char BAR s in
      if length parts < num_fields + 1 then Err (Other ''invalid compound index key format'')
      else res_bind (parse_parts from_text (take num_fields parts)) (\<lambda>vs.
        Ok \<lparr>ck_field_values = vs, ck_doc_id = join_bar (drop num_fields parts)\<rparr>))"

fun extract_parts :: "'n json \<Rightarrow> ustring list \<Rightarrow> 'n json" where
  "extract_parts v [] = v"
| "extract_parts v (part # parts) =
     (case v of
        JObject obj \<Rightarrow> (case map_of obj part of Some w \<Rightarrow> extract_parts w parts | None \<Rightarrow> JNull)
      | _ \<Rightarrow> JNull)"

definition extract_field_value :: "(ustring \<times> 'n json) list \<Rightarrow> ustring \<Rightarrow> 'n json" where
  "extract_field_value doc field = extract_parts (JObject doc) (split_at_char 46 field)"

definition extract_field_values :: "(ustring \<times> 'n json) list \<Rightarrow> ustring list \<Rightarrow> 'n json list" where
  "extract_field_values doc fs = map (extract_field_value doc) fs"

text \<open>The numbers of \<open>serde_json\<close> are finite, so \<open><\<close> on their values is a strict weak order.\<close>

definition number_order :: "'n numbers \<Rightarrow> bool" where
  "number_order N \<longleftrightarrow>
     (\<forall>a b. num_lt N a b \<longrightarrow> \<not> num_lt N b a) \<and>
     (\<forall>a b c. num_lt N a c \<longrightarrow> num_lt N a b \<or> num_lt N b c)"

text \<open>Three results of a comparison that agree with a linear order.\<close>

definition chained :: "ordering \<Rightarrow> ordering \<Rightarrow> ordering \<Rightarrow> bool" where
  "chained ab bc ac \<longleftrightarrow> (ab = Equal \<longrightarrow> ac = bc) \<and> (bc = Equal \<longrightarrow> ac = ab) \<and> (ab = bc \<longrightarrow> ac = ab)"

text \<open>A comparison that is a linear preorder.\<close>

definition linear_comparison :: "('a \<Rightarrow> 'a \<Rightarrow> ordering) \<Rightarrow> bool" where
  "linear_comparison f \<longleftrightarrow>
     (\<forall>a. f a a = Equal) \<and> (\<forall>a b. f b a = reverse_ordering (f a b)) \<and>
     (\<forall>a b c. f a b \<noteq> Greater \<longrightarrow> f b c \<noteq> Greater \<longrightarrow> f a c \<noteq> Greater)"

subsection \<open>Lemmas\<close>

lemma cmp_refl [simp]: "cmp a a = Equal"
  by (simp add: cmp_def)

lemma cmp_Equal [simp]: "cmp a b = Equal \<longleftrightarrow> a = b"
  by (simp add: cmp_def)

lemma reverse_cmp [simp]: "reverse_ordering (cmp a b) = cmp b a"
  by (auto simp: cmp_def)

lemma cmp_chained: "chained (cmp a b) (cmp b c) (cmp a c)"
  by (auto simp: chained_def cmp_def)

lemma numbers_swap: "number_order N \<Longrightarrow> compare_numbers N b a = reverse_ordering (compare_numbers N a b)"
  by (auto simp: compare_numbers_def number_order_def)

lemma numbers_chained: "number_order N \<Longrightarrow> chained (compare_numbers N a b) (compare_numbers N b c) (compare_numbers N a c)"
  unfolding chained_def compare_numbers_def number_order_def by (smt (verit) ordering.distinct)

text \<open>Lexicographic continuation keeps both laws.\<close>

lemma chained_lex:
  "chained r s t \<Longrightarrow> (r = Equal \<Longrightarrow> s = Equal \<Longrightarrow> chained r' s' t')
   \<Longrightarrow> chained (case r of Equal \<Rightarrow> r' | x \<Rightarrow> x) (case s of Equal \<Rightarrow> s' | x \<Rightarrow> x) (case t of Equal \<Rightarrow> t' | x \<Rightarrow> x)"
  by (cases r; cases s; cases t) (auto simp: chained_def split: ordering.splits)

lemma swap_lex:
  "s = reverse_ordering r \<Longrightarrow> (r = Equal \<Longrightarrow> s' = reverse_ordering r')
   \<Longrightarrow> (case s of Equal \<Rightarrow> s' | x \<Rightarrow> x) = reverse_ordering (case r of Equal \<Rightarrow> r' | x \<Rightarrow> x)"
  by (cases r) auto

text \<open>Values of different kinds compare by their kind.\<close>

fun kind_rank :: "'n json \<Rightarrow> nat" where
  "kind_rank JNull = 0"
| "kind_rank (JBool _) = 1"
| "kind_rank (JNumber _) = 2"
| "kind_rank (JString _) = 3"
| "kind_rank (JArray _) = 4"
| "kind_rank (JObject _) = 5"

lemma compare_rank: "kind_rank a \<noteq> kind_rank b \<Longrightarrow> compare_values N a b = cmp (kind_rank a) (kind_rank b)"
  by (cases a; cases b) (simp_all add: cmp_def)

lemma chained_ranks:
  assumes "\<not> (kind_rank a = kind_rank b \<and> kind_rank b = kind_rank c)"
  shows "chained (compare_values N a b) (compare_values N b c) (compare_values N a c)"
  using assms cmp_chained [of "kind_rank a" "kind_rank b" "kind_rank c"] compare_rank [of a b N] compare_rank [of b c N] compare_rank [of a c N]
  by (cases "kind_rank a = kind_rank b"; cases "kind_rank b = kind_rank c") (auto simp: chained_def cmp_def)

lemma elems_chained:
  assumes "\<And>x y z. x \<in> set xs \<Longrightarrow> chained (compare_values N x y) (compare_values N y z) (compare_values N x z)"
  shows "chained (compare_elems N xs ys) (compare_elems N ys zs) (compare_elems N xs zs)"
  using assms
proof (induction xs arbitrary: ys zs)
  case Nil
  show ?case by (cases ys; cases zs) (auto simp: chained_def cmp_def split: ordering.splits)
next
  case (Cons x xs)
  show ?case
  proof (cases "ys = [] \<or> zs = []")
    case True
    then show ?thesis by (cases ys; cases zs) (auto simp: chained_def cmp_def split: ordering.splits)
  next
    case False
    then obtain y ys' z zs' where e: "ys = y # ys'" "zs = z # zs'" by (auto simp: neq_Nil_conv)
    show ?thesis unfolding e compare_elems.simps by (rule chained_lex) (use Cons in \<open>simp_all\<close>)
  qed
qed

lemma entries_chained:
  assumes "\<And>e y z. e \<in> set xs \<Longrightarrow> chained (compare_values N (snd e) y) (compare_values N y z) (compare_values N (snd e) z)"
  shows "chained (compare_entries N xs ys) (compare_entries N ys zs) (compare_entries N xs zs)"
  using assms
proof (induction xs arbitrary: ys zs)
  case Nil
  show ?case by (cases ys; cases zs) (auto simp: chained_def cmp_def split: ordering.splits prod.splits)
next
  case (Cons x xs)
  show ?case
  proof (cases "ys = [] \<or> zs = []")
    case True
    then show ?thesis by (cases x; cases ys; cases zs) (auto simp: chained_def cmp_def split: ordering.splits prod.splits)
  next
    case False
    then obtain k v l y ys' m z zs' where e: "x = (k, v)" "ys = (l, y) # ys'" "zs = (m, z) # zs'"
      by (cases x; cases ys; cases zs) auto
    have v: "chained (compare_values N v y) (compare_values N y z) (compare_values N v z)" using Cons.prems [of x] e(1) by simp
    have r: "chained (compare_entries N xs ys') (compare_entries N ys' zs') (compare_entries N xs zs')" using Cons by simp
    show ?thesis unfolding e compare_entries.simps
      by (rule chained_lex [OF cmp_chained], rule chained_lex [OF v r])
  qed
qed

lemma values_chained:
  assumes "number_order N"
  shows "chained (compare_values N a b) (compare_values N b c) (compare_values N a c)"
proof (induction a arbitrary: b c)
  case (JArray xs)
  show ?case
  proof (cases "kind_rank b = 4 \<and> kind_rank c = 4")
    case True
    then obtain ys zs where "b = JArray ys" "c = JArray zs" by (cases b; cases c) auto
    then show ?thesis using elems_chained [OF JArray] by simp
  qed (auto intro: chained_ranks)
next
  case (JObject es)
  show ?case
  proof (cases "kind_rank b = 5 \<and> kind_rank c = 5")
    case True
    then obtain ys zs where "b = JObject ys" "c = JObject zs" by (cases b; cases c) auto
    moreover have "chained (compare_values N (snd e) y) (compare_values N y z) (compare_values N (snd e) z)"
      if "e \<in> set (sorted_entries es)" for e y z
      using JObject [of e "snd e"] that by (cases e) (auto simp: sorted_entries_def)
    ultimately show ?thesis using entries_chained [of "sorted_entries es"] by simp
  qed (auto intro: chained_ranks)
next
  case JNull
  show ?case
    by (cases "kind_rank b = 0 \<and> kind_rank c = 0") ((cases b; cases c; auto simp: chained_def), auto intro: chained_ranks)
next
  case (JBool x)
  show ?case
    by (cases "kind_rank b = 1 \<and> kind_rank c = 1") ((cases b; cases c; auto simp: cmp_chained), auto intro: chained_ranks)
next
  case (JNumber x)
  show ?case
    by (cases "kind_rank b = 2 \<and> kind_rank c = 2") ((cases b; cases c; auto simp: numbers_chained [OF assms]), auto intro: chained_ranks)
next
  case (JString x)
  show ?case
    by (cases "kind_rank b = 3 \<and> kind_rank c = 3") ((cases b; cases c; auto simp: cmp_chained), auto intro: chained_ranks)
qed

lemma elems_swap:
  assumes "\<And>x y. x \<in> set xs \<Longrightarrow> compare_values N y x = reverse_ordering (compare_values N x y)"
  shows "compare_elems N ys xs = reverse_ordering (compare_elems N xs ys)"
  using assms
proof (induction xs arbitrary: ys)
  case Nil
  show ?case by (cases ys) simp_all
next
  case (Cons x xs)
  show ?case
  proof (cases ys)
    case (Cons y ys')
    have v: "compare_values N y x = reverse_ordering (compare_values N x y)" using Cons.prems by simp
    have r: "compare_elems N ys' xs = reverse_ordering (compare_elems N xs ys')" using Cons.IH Cons.prems by simp
    show ?thesis unfolding \<open>ys = y # ys'\<close> compare_elems.simps by (rule swap_lex [OF v r])
  qed simp
qed

lemma entries_swap:
  assumes "\<And>e y. e \<in> set xs \<Longrightarrow> compare_values N y (snd e) = reverse_ordering (compare_values N (snd e) y)"
  shows "compare_entries N ys xs = reverse_ordering (compare_entries N xs ys)"
  using assms
proof (induction xs arbitrary: ys)
  case Nil
  show ?case by (cases ys) simp_all
next
  case (Cons x xs)
  show ?case
  proof (cases ys)
    case Nil
    then show ?thesis by (cases x) simp
  next
    case (Cons e ys')
    obtain k v l y where e: "x = (k, v)" "e = (l, y)" by (cases x; cases e) auto
    have v: "compare_values N y v = reverse_ordering (compare_values N v y)" using Cons.prems [of x y] e(1) by simp
    have r: "compare_entries N ys' xs = reverse_ordering (compare_entries N xs ys')" using Cons.IH Cons.prems by simp
    show ?thesis unfolding \<open>ys = e # ys'\<close> e compare_entries.simps
      by (rule swap_lex [OF _ swap_lex [OF v r]]) simp
  qed
qed

lemma values_swap:
  assumes "number_order N"
  shows "compare_values N b a = reverse_ordering (compare_values N a b)"
proof (induction a arbitrary: b)
  case (JArray xs)
  show ?case
  proof (cases b)
    case (JArray ys)
    then show ?thesis using elems_swap [OF JArray.IH] by simp
  qed simp_all
next
  case (JObject es)
  show ?case
  proof (cases b)
    case (JObject ds)
    have "compare_values N y (snd e) = reverse_ordering (compare_values N (snd e) y)" if "e \<in> set (sorted_entries es)" for e y
      using JObject.IH [of e "snd e"] that by (cases e) (auto simp: sorted_entries_def)
    then show ?thesis using entries_swap [of "sorted_entries es"] JObject by simp
  qed simp_all
next
  case JNull
  show ?case by (cases b) simp_all
next
  case (JBool x)
  show ?case by (cases b) simp_all
next
  case (JNumber x)
  show ?case
  proof (cases b)
    case (JNumber y)
    then show ?thesis using numbers_swap [OF assms, of y x] by simp
  qed simp_all
next
  case (JString x)
  show ?case by (cases b) simp_all
qed

lemma linear_comparisonI:
  assumes sw: "\<And>a b. f b a = reverse_ordering (f a b)" and ch: "\<And>a b c. chained (f a b) (f b c) (f a c)"
  shows "linear_comparison f"
proof -
  have "f a a = Equal" for a using sw [of a a] by (cases "f a a") auto
  moreover have "f a c \<noteq> Greater" if "f a b \<noteq> Greater" "f b c \<noteq> Greater" for a b c
    using that ch [of a b c] by (cases "f a b"; cases "f b c") (auto simp: chained_def)
  ultimately show ?thesis using sw unfolding linear_comparison_def by blast
qed

subsection \<open>Properties\<close>

text \<open>
  C20: The order of JSON values, of index keys and of compound index keys is a linear preorder: every value equals itself, exchanging the operands reverses the result, and the order is transitive, across all kinds of values and at every depth.
\<close>

theorem index_order_linear:
  fixes N :: "'n numbers"
  assumes N: "number_order N"
  shows "linear_comparison (compare_values N) \<and> linear_comparison (compare_index_keys N) \<and> linear_comparison (compare_compound_index_keys N)"
proof (intro conjI linear_comparisonI)
  fix a b c :: "'n json" and k l m :: "'n index_key" and x y z :: "'n compound_index_key"
  show "compare_values N b a = reverse_ordering (compare_values N a b)" by (rule values_swap [OF N])
  show "chained (compare_values N a b) (compare_values N b c) (compare_values N a c)" by (rule values_chained [OF N])
  show "compare_index_keys N l k = reverse_ordering (compare_index_keys N k l)"
    unfolding compare_index_keys_def by (rule swap_lex [OF values_swap [OF N]]) simp
  show "chained (compare_index_keys N k l) (compare_index_keys N l m) (compare_index_keys N k m)"
    unfolding compare_index_keys_def by (rule chained_lex [OF values_chained [OF N] cmp_chained])
  show "compare_compound_index_keys N y x = reverse_ordering (compare_compound_index_keys N x y)"
    unfolding compare_compound_index_keys_def by (rule swap_lex [OF elems_swap [OF values_swap [OF N]]]) simp
  show "chained (compare_compound_index_keys N x y) (compare_compound_index_keys N y z) (compare_compound_index_keys N x z)"
    unfolding compare_compound_index_keys_def by (rule chained_lex [OF elems_chained [OF values_chained [OF N]] cmp_chained])
qed

text \<open>
  An index key whose JSON text contains a bar is taken apart in the wrong place: the part of the text before the bar is read as the value, and the rest of it becomes part of the document id.
\<close>

theorem index_key_cut_at_bar:
  assumes "to_text (ik_field_value k) = a @ [BAR] @ b" "BAR \<notin> set a"
  shows "deserialize_index_key from_text (serialize_index_key to_text k) =
    (case from_text a of
       Some v \<Rightarrow> Ok \<lparr>ik_field_value = v, ik_doc_id = b @ [BAR] @ ik_doc_id k\<rparr>
     | None \<Rightarrow> Err (Other ''json''))"
proof -
  have "takeWhile (\<lambda>c. c \<noteq> BAR) (a @ BAR # r) = a" for r using assms(2) by (induction a) auto
  then show ?thesis by (simp add: deserialize_index_key_def serialize_index_key_def assms(1) Let_def split: option.split)
qed

subsection \<open>Witnesses\<close>

definition nat_numbers :: "nat numbers" where
  "nat_numbers = \<lparr>num_from_text = \<lambda>_. NotANumber, num_eq = (=), num_lt = (<), num_same = (=), num_integer = \<lambda>_. True\<rparr>"

theorem index_order_linear_witness:
  "linear_comparison (compare_values nat_numbers) \<and> linear_comparison (compare_index_keys nat_numbers) \<and> linear_comparison (compare_compound_index_keys nat_numbers)"
  by (rule index_order_linear) (auto simp: number_order_def nat_numbers_def)

definition quoted :: "nat json \<Rightarrow> ustring" where
  "quoted v = (case v of JString s \<Rightarrow> [34] @ s @ [34] | _ \<Rightarrow> [])"

definition unquoted :: "ustring \<Rightarrow> nat json option" where
  "unquoted t = (if length t \<ge> 2 \<and> hd t = 34 \<and> last t = 34 then Some (JString (butlast (tl t))) else None)"

theorem index_key_cut_at_bar_witness:
  "deserialize_index_key unquoted (serialize_index_key quoted \<lparr>ik_field_value = JString (us ''a|b''), ik_doc_id = us ''1''\<rparr>) = Err (Other ''json'')"
  using index_key_cut_at_bar [of quoted "\<lparr>ik_field_value = JString (us ''a|b''), ik_doc_id = us ''1''\<rparr>" "[34, 97]" "[98, 34]" unquoted]
  by (simp add: quoted_def unquoted_def us_def BAR_def)

end
