(* ===== verification/Query_Parser.thy ===== *)
theory Query_Parser
  imports Query_Lexer
begin

text \<open>
  \<open>src/core/query/parser.rs\<close>: the syntax tree of a query, its evaluation on a document, and the recursive descent parser.

  The methods of the parser take a bound on the depth of their calls; running out of it is an outcome of its own, \<open>PFuel\<close>, and so is a panic.
  \<open>parse_query_total\<close> shows that neither occurs with the bound that \<open>parse\<close> chooses.
\<close>

subsection \<open>Specification\<close>

datatype 'n node =
    BinaryOp string "'n node" "'n node"
  | UnaryOp string "'n node"
  | CompareOp ustring string "'n json"
  | ExistsOp ustring bool
  | HasOp ustring string "'n json list"

fun get_parts :: "'n json \<Rightarrow> ustring list \<Rightarrow> 'n json" where
  "get_parts v [] = v"
| "get_parts v (part # parts) =
     (case as_object v of
        None \<Rightarrow> JNull
      | Some obj \<Rightarrow> get_parts (case map_of obj part of Some w \<Rightarrow> w | None \<Rightarrow> JNull) parts)"

definition get_field :: "(ustring \<times> 'n json) list \<Rightarrow> ustring \<Rightarrow> 'n json" where
  "get_field doc field = get_parts (JObject doc) (split_at_char 46 field)"

definition compare_equal :: "'n numbers \<Rightarrow> 'n json \<Rightarrow> 'n json \<Rightarrow> bool" where
  "compare_equal N a b =
     (case (a, b) of (JNumber na, JNumber nb) \<Rightarrow> num_eq N na nb | _ \<Rightarrow> json_eq (num_same N) a b)"

definition compare_greater :: "'n numbers \<Rightarrow> 'n json \<Rightarrow> 'n json \<Rightarrow> bool" where
  "compare_greater N a b =
     (case (a, b) of
        (JNumber na, JNumber nb) \<Rightarrow> num_lt N nb na
      | (JString sa, JString sb) \<Rightarrow> sb < sa
      | _ \<Rightarrow> False)"

definition compare_less :: "'n numbers \<Rightarrow> 'n json \<Rightarrow> 'n json \<Rightarrow> bool" where
  "compare_less N a b =
     (case (a, b) of
        (JNumber na, JNumber nb) \<Rightarrow> num_lt N na nb
      | (JString sa, JString sb) \<Rightarrow> sa < sb
      | _ \<Rightarrow> False)"

definition eval_compare :: "'n numbers \<Rightarrow> string \<Rightarrow> 'n json \<Rightarrow> 'n json \<Rightarrow> bool" where
  "eval_compare N op field_value v =
     (if op = ''>'' then compare_greater N field_value v
      else if op = ''>='' then compare_greater N field_value v \<or> compare_equal N field_value v
      else if op = ''<'' then compare_less N field_value v
      else if op = ''<='' then compare_less N field_value v \<or> compare_equal N field_value v
      else if op = ''is'' then compare_equal N field_value v
      else if op = ''is_not'' then \<not> compare_equal N field_value v
      else False)"

definition eval_has :: "'n numbers \<Rightarrow> string \<Rightarrow> 'n json list \<Rightarrow> 'n json \<Rightarrow> bool" where
  "eval_has N op vals field_value =
     (case as_array field_value of
        None \<Rightarrow> False
      | Some arr \<Rightarrow>
          if op = ''has'' then (case vals of [] \<Rightarrow> False | val # _ \<Rightarrow> list_ex (\<lambda>v. compare_equal N v val) arr)
          else if op = ''has_any'' then list_ex (\<lambda>val. list_ex (\<lambda>v. compare_equal N v val) arr) vals
          else if op = ''has_all'' then list_all (\<lambda>val. list_ex (\<lambda>v. compare_equal N v val) arr) vals
          else False)"

fun eval_node :: "'n numbers \<Rightarrow> 'n node \<Rightarrow> (ustring \<times> 'n json) list \<Rightarrow> bool" where
  "eval_node N (BinaryOp op l r) doc =
     (if op = ''and'' then eval_node N l doc \<and> eval_node N r doc
      else if op = ''or'' then eval_node N l doc \<or> eval_node N r doc
      else False)"
| "eval_node N (UnaryOp op c) doc = (if op = ''not'' then \<not> eval_node N c doc else False)"
| "eval_node N (CompareOp field op v) doc = eval_compare N op (get_field doc field) v"
| "eval_node N (ExistsOp field neg) doc =
     (let ex = \<not> is_null (get_field doc field) in if neg then \<not> ex else ex)"
| "eval_node N (HasOp field op vals) doc = eval_has N op vals (get_field doc field)"

record parser =
  ps_tokens :: "token list"
  ps_pos :: nat

datatype 'a pres = POk 'a | PErr query_error | PPanic | PFuel

definition pbind :: "('a \<times> parser) pres \<Rightarrow> ('a \<Rightarrow> parser \<Rightarrow> 'b pres) \<Rightarrow> 'b pres" where
  "pbind r f = (case r of POk (x, p) \<Rightarrow> f x p | PErr e \<Rightarrow> PErr e | PPanic \<Rightarrow> PPanic | PFuel \<Rightarrow> PFuel)"

text \<open>The result of an access that may panic, for the methods that cannot fail otherwise.\<close>

definition plift :: "'a option \<Rightarrow> ('a \<Rightarrow> 'b pres) \<Rightarrow> 'b pres" where
  "plift r f = (case r of Some x \<Rightarrow> f x | None \<Rightarrow> PPanic)"

definition parser_new :: "token list \<Rightarrow> parser" where
  "parser_new tokens = \<lparr>ps_tokens = tokens, ps_pos = 0\<rparr>"

definition current :: "parser \<Rightarrow> token option" where
  "current p =
     (let n = length (ps_tokens p) in
      if n = 0 then None else if ps_pos p \<ge> n then Some (ps_tokens p ! (n - 1)) else Some (ps_tokens p ! ps_pos p))"

definition previous :: "parser \<Rightarrow> token option" where
  "previous p =
     (if ps_pos p = 0 \<or> ps_pos p - 1 \<ge> length (ps_tokens p) then None else Some (ps_tokens p ! (ps_pos p - 1)))"

definition is_at_end :: "parser \<Rightarrow> bool option" where
  "is_at_end p = map_option (\<lambda>t. tk_type t = Eof) (current p)"

definition check_token :: "parser \<Rightarrow> token_type \<Rightarrow> bool option" where
  "check_token p tt =
     (case is_at_end p of
        None \<Rightarrow> None
      | Some True \<Rightarrow> Some False
      | Some False \<Rightarrow> map_option (\<lambda>t. tk_type t = tt) (current p))"

definition advance :: "parser \<Rightarrow> (token \<times> parser) option" where
  "advance p =
     (case is_at_end p of
        None \<Rightarrow> None
      | Some e \<Rightarrow> let p = (if e then p else p\<lparr>ps_pos := ps_pos p + 1\<rparr>) in map_option (\<lambda>t. (t, p)) (previous p))"

fun match_token :: "parser \<Rightarrow> token_type list \<Rightarrow> (bool \<times> parser) option" where
  "match_token p [] = Some (False, p)"
| "match_token p (tt # tts) =
     (case check_token p tt of
        None \<Rightarrow> None
      | Some True \<Rightarrow> map_option (\<lambda>(_, p). (True, p)) (advance p)
      | Some False \<Rightarrow> match_token p tts)"

text \<open>\<open>if self.match_token(&[tt]) { .. } else { .. }\<close>\<close>

definition if_match :: "parser \<Rightarrow> token_type \<Rightarrow> (parser \<Rightarrow> 'b pres) \<Rightarrow> (parser \<Rightarrow> 'b pres) \<Rightarrow> 'b pres" where
  "if_match p tt f g = plift (match_token p [tt]) (\<lambda>(m, p). if m then f p else g p)"

text \<open>An error with the position of the current token.\<close>

definition fail_here :: "parser \<Rightarrow> (nat \<Rightarrow> query_error) \<Rightarrow> 'b pres" where
  "fail_here p e = plift (current p) (\<lambda>t. PErr (e (tk_pos t)))"

definition parse_value :: "'n numbers \<Rightarrow> parser \<Rightarrow> ('n json \<times> parser) pres" where
  "parse_value N p =
     if_match p Number (\<lambda>p. plift (previous p) (\<lambda>t.
       case num_from_text N (tk_value t) of
         Parsed n \<Rightarrow> POk (JNumber n, p)
       | NotFinite \<Rightarrow> PErr (NumberNotFinite (tk_value t))
       | NotANumber \<Rightarrow> PErr (InvalidNumber (tk_value t)))) (\<lambda>p.
     if_match p StringTok (\<lambda>p. plift (previous p) (\<lambda>t. POk (JString (tk_value t), p))) (\<lambda>p.
     if_match p Ident (\<lambda>p. plift (previous p) (\<lambda>t. POk (JString (tk_value t), p))) (\<lambda>p.
     if_match p TrueTok (\<lambda>p. POk (JBool True, p)) (\<lambda>p.
     if_match p FalseTok (\<lambda>p. POk (JBool False, p)) (\<lambda>p.
     if_match p Null (\<lambda>p. POk (JNull, p)) (\<lambda>p.
     fail_here p ExpectedValue))))))"

text \<open>The loops over the parts of a field and over the values in brackets.\<close>

fun field_loop :: "nat \<Rightarrow> ustring \<Rightarrow> parser \<Rightarrow> (ustring \<times> parser) pres" where
  "field_loop 0 field p = PFuel"
| "field_loop (Suc fuel) field p =
     if_match p Dot (\<lambda>p.
       plift (check_token p Ident) (\<lambda>c.
         if \<not> c then fail_here p ExpectedFieldAfterDot
         else plift (advance p) (\<lambda>(t, p). field_loop fuel (field @ [46] @ tk_value t) p)))
     (\<lambda>p. POk (field, p))"

fun values_loop :: "nat \<Rightarrow> 'n numbers \<Rightarrow> 'n json list \<Rightarrow> parser \<Rightarrow> ('n json list \<times> parser) pres" where
  "values_loop 0 N vals p = PFuel"
| "values_loop (Suc fuel) N vals p =
     plift (check_token p RBracket) (\<lambda>c.
       if c then POk (vals, p)
       else pbind (parse_value N p) (\<lambda>v p.
         if_match p Comma (\<lambda>p. values_loop fuel N (vals @ [v]) p) (\<lambda>p. POk (vals @ [v], p))))"

definition has_list :: "nat \<Rightarrow> 'n numbers \<Rightarrow> ustring \<Rightarrow> string \<Rightarrow> parser \<Rightarrow> ('n node \<times> parser) pres" where
  "has_list fuel N field has_op p =
     if_match p LBracket (\<lambda>p.
       pbind (values_loop fuel N [] p) (\<lambda>vals p.
         if_match p RBracket (\<lambda>p. POk (HasOp field has_op vals, p)) (\<lambda>p. fail_here p ExpectedRBracket)))
     (\<lambda>p. fail_here p ExpectedLBracket)"

definition parse_has :: "nat \<Rightarrow> 'n numbers \<Rightarrow> ustring \<Rightarrow> parser \<Rightarrow> ('n node \<times> parser) pres" where
  "parse_has fuel N field p =
     if_match p Any (has_list fuel N field ''has_any'') (\<lambda>p.
     if_match p All (has_list fuel N field ''has_all'') (\<lambda>p.
     pbind (parse_value N p) (\<lambda>v p. POk (HasOp field ''has'' [v], p))))"

definition compare_value :: "'n numbers \<Rightarrow> ustring \<Rightarrow> string \<Rightarrow> parser \<Rightarrow> ('n node \<times> parser) pres" where
  "compare_value N field op p = pbind (parse_value N p) (\<lambda>v p. POk (CompareOp field op v, p))"

text \<open>The end of \<open>comparison\<close> without an operator.\<close>

definition bare_field :: "ustring \<Rightarrow> parser \<Rightarrow> ('n node \<times> parser) pres" where
  "bare_field field p =
     plift (is_at_end p) (\<lambda>e. plift (check_token p And) (\<lambda>a. plift (check_token p Or) (\<lambda>r. plift (check_token p RParen) (\<lambda>c.
       if e \<or> a \<or> r \<or> c then POk (CompareOp field ''is'' (JBool True), p) else fail_here p ExpectedOperator))))"

text \<open>\<open>comparison\<close> from the field on: the operator with its value, and the field before it.\<close>

definition field_operator :: "nat \<Rightarrow> 'n numbers \<Rightarrow> ustring \<Rightarrow> parser \<Rightarrow> ('n node \<times> parser) pres" where
  "field_operator fuel N field p =
     if_match p Exists (\<lambda>p. POk (ExistsOp field False, p)) (\<lambda>p.
     if_match p Not (\<lambda>p.
       if_match p Exists (\<lambda>p. POk (ExistsOp field True, p)) (\<lambda>p. fail_here p ExpectedExists)) (\<lambda>p.
     if_match p Has (parse_has fuel N field) (\<lambda>p.
     if_match p Gt (compare_value N field ''>'') (\<lambda>p.
     if_match p Gte (compare_value N field ''>='') (\<lambda>p.
     if_match p Lt (compare_value N field ''<'') (\<lambda>p.
     if_match p Lte (compare_value N field ''<='') (\<lambda>p.
     if_match p Is (\<lambda>p.
       if_match p Not (compare_value N field ''is_not'') (compare_value N field ''is'')) (\<lambda>p.
     bare_field field p))))))))"

definition field_comparison :: "nat \<Rightarrow> 'n numbers \<Rightarrow> parser \<Rightarrow> ('n node \<times> parser) pres" where
  "field_comparison fuel N p =
     plift (check_token p Ident) (\<lambda>c.
       if \<not> c then plift (current p) (\<lambda>t. PErr (ExpectedField (tk_pos t) (tk_type t)))
       else plift (advance p) (\<lambda>(t, p).
         pbind (field_loop fuel (tk_value t) p) (\<lambda>field p. field_operator fuel N field p)))"

fun or_expr :: "nat \<Rightarrow> 'n numbers \<Rightarrow> parser \<Rightarrow> ('n node \<times> parser) pres"
  and or_loop :: "nat \<Rightarrow> 'n numbers \<Rightarrow> 'n node \<Rightarrow> parser \<Rightarrow> ('n node \<times> parser) pres"
  and and_expr :: "nat \<Rightarrow> 'n numbers \<Rightarrow> parser \<Rightarrow> ('n node \<times> parser) pres"
  and and_loop :: "nat \<Rightarrow> 'n numbers \<Rightarrow> 'n node \<Rightarrow> parser \<Rightarrow> ('n node \<times> parser) pres"
  and comparison :: "nat \<Rightarrow> 'n numbers \<Rightarrow> parser \<Rightarrow> ('n node \<times> parser) pres" where
  "or_expr 0 N p = PFuel"
| "or_expr (Suc fuel) N p = pbind (and_expr fuel N p) (\<lambda>left p. or_loop fuel N left p)"
| "or_loop 0 N left p = PFuel"
| "or_loop (Suc fuel) N left p =
     if_match p Or (\<lambda>p. pbind (and_expr fuel N p) (\<lambda>right p. or_loop fuel N (BinaryOp ''or'' left right) p))
       (\<lambda>p. POk (left, p))"
| "and_expr 0 N p = PFuel"
| "and_expr (Suc fuel) N p = pbind (comparison fuel N p) (\<lambda>left p. and_loop fuel N left p)"
| "and_loop 0 N left p = PFuel"
| "and_loop (Suc fuel) N left p =
     if_match p And (\<lambda>p. pbind (comparison fuel N p) (\<lambda>right p. and_loop fuel N (BinaryOp ''and'' left right) p))
       (\<lambda>p. POk (left, p))"
| "comparison 0 N p = PFuel"
| "comparison (Suc fuel) N p =
     if_match p LParen (\<lambda>p.
       pbind (or_expr fuel N p) (\<lambda>node p.
         if_match p RParen (\<lambda>p. POk (node, p)) (\<lambda>p. fail_here p ExpectedRParen))) (\<lambda>p.
     if_match p Not (\<lambda>p.
       pbind (comparison fuel N p) (\<lambda>child p. POk (UnaryOp ''not'' child, p))) (\<lambda>p.
     field_comparison fuel N p))"

definition parse :: "'n numbers \<Rightarrow> parser \<Rightarrow> 'n node pres" where
  "parse N p =
     (if ps_tokens p = [] \<or> length (ps_tokens p) = 1 \<and> tk_type (ps_tokens p ! 0) = Eof then PErr EmptyQuery
      else pbind (or_expr (3 * length (ps_tokens p) + 3) N p) (\<lambda>node p. POk node))"

definition parse_query :: "unicode \<Rightarrow> 'n numbers \<Rightarrow> ustring \<Rightarrow> 'n node pres" where
  "parse_query U N query =
     (case tokenize U query of
        None \<Rightarrow> PPanic
      | Some (Inl e) \<Rightarrow> PErr e
      | Some (Inr tokens) \<Rightarrow> parse N (parser_new tokens))"


subsection \<open>The parser never panics and never runs out of its bound\<close>

definition pok :: "parser \<Rightarrow> bool" where
  "pok p \<longleftrightarrow> ends_with_eof (ps_tokens p) \<and> ps_pos p < length (ps_tokens p)"

definition peek :: "parser \<Rightarrow> token" where
  "peek p = ps_tokens p ! ps_pos p"

definition step :: "parser \<Rightarrow> parser" where
  "step p = p\<lparr>ps_pos := ps_pos p + 1\<rparr>"

definition after :: "parser \<Rightarrow> parser \<Rightarrow> bool" where
  "after p p' \<longleftrightarrow> ps_tokens p' = ps_tokens p \<and> ps_pos p \<le> ps_pos p' \<and> pok p'"

definition left_to_parse :: "parser \<Rightarrow> nat" where
  "left_to_parse p = length (ps_tokens p) - ps_pos p"

lemma pok_step: "pok p \<Longrightarrow> tk_type (peek p) \<noteq> Eof \<Longrightarrow> pok (step p)"
proof -
  assume p: "pok p" "tk_type (peek p) \<noteq> Eof"
  then have "ps_pos p \<noteq> length (ps_tokens p) - 1"
    by (auto simp: pok_def ends_with_eof_def peek_def last_conv_nth)
  then show ?thesis using p by (auto simp: pok_def step_def)
qed

lemma current_peek: "pok p \<Longrightarrow> current p = Some (peek p)"
  by (auto simp: current_def pok_def peek_def Let_def)

lemma is_at_end_peek: "pok p \<Longrightarrow> is_at_end p = Some (tk_type (peek p) = Eof)"
  by (simp add: is_at_end_def current_peek)

lemma check_token_peek: "pok p \<Longrightarrow> tt \<noteq> Eof \<Longrightarrow> check_token p tt = Some (tk_type (peek p) = tt)"
  by (auto simp: check_token_def is_at_end_peek current_peek split: bool.split)

lemma previous_step: "pok p \<Longrightarrow> previous (step p) = Some (peek p)"
  by (auto simp: previous_def step_def peek_def pok_def)

lemma advance_peek: "pok p \<Longrightarrow> tk_type (peek p) \<noteq> Eof \<Longrightarrow> advance p = Some (peek p, step p)"
  using previous_step [of p] by (simp add: advance_def is_at_end_peek step_def Let_def)

lemma if_match_peek:
  "pok p \<Longrightarrow> tt \<noteq> Eof \<Longrightarrow> if_match p tt f g = (if tk_type (peek p) = tt then f (step p) else g p)"
  by (auto simp: if_match_def check_token_peek advance_peek plift_def split: bool.split)

lemmas peek_simps = current_peek is_at_end_peek check_token_peek previous_step advance_peek if_match_peek

lemma pbind_simps [simp]:
  "pbind (POk (x, p)) f = f x p" "pbind (PErr e) f = PErr e" "pbind PPanic f = PPanic" "pbind PFuel f = PFuel"
  by (simp_all add: pbind_def)

lemma plift_simps [simp]: "plift (Some x) f = f x" "plift None f = PPanic"
  by (simp_all add: plift_def)

definition good :: "parser \<Rightarrow> ('a \<times> parser) pres \<Rightarrow> bool" where
  "good p r = (case r of POk (x, p') \<Rightarrow> after p p' | PErr _ \<Rightarrow> True | _ \<Rightarrow> False)"

lemma good_simps [simp]:
  "good p (POk (x, p')) \<longleftrightarrow> after p p'" "good p (PErr e)" "\<not> good p PPanic" "\<not> good p PFuel"
  by (simp_all add: good_def)

lemma after_refl [simp]: "after p p \<longleftrightarrow> pok p"
  by (simp add: after_def)

lemma after_trans: "after p q \<Longrightarrow> after q r \<Longrightarrow> after p r"
  by (auto simp: after_def)

lemma after_step: "pok p \<Longrightarrow> tk_type (peek p) \<noteq> Eof \<Longrightarrow> after p (step p)"
  using pok_step by (auto simp: after_def step_def)

lemma after_pok: "after p q \<Longrightarrow> pok q"
  by (simp add: after_def)

lemma good_after: "after p q \<Longrightarrow> good q r \<Longrightarrow> good p r"
  by (cases r) (auto intro: after_trans)

lemma left_after: "after p q \<Longrightarrow> left_to_parse q \<le> left_to_parse p"
  by (auto simp: after_def left_to_parse_def)

lemma left_step: "pok p \<Longrightarrow> Suc (left_to_parse (step p)) = left_to_parse p"
  by (auto simp: pok_def left_to_parse_def step_def)

lemma good_if_match:
  assumes "pok p" "tt \<noteq> Eof"
    and "tk_type (peek p) = tt \<Longrightarrow> after p (step p) \<Longrightarrow> good (step p) (f (step p))"
    and "good p (g p)"
  shows "good p (if_match p tt f g)"
  using assms after_step [of p] by (auto simp: if_match_peek intro: good_after)

lemma good_pbind:
  assumes "good p m" "\<And>x q. after p q \<Longrightarrow> good q (f x q)"
  shows "good p (pbind m f)"
  using assms by (cases m) (auto intro: good_after)

lemma good_fail_here: "pok p \<Longrightarrow> good p (fail_here p e)"
  by (simp add: fail_here_def current_peek)

lemma good_parse_value: "pok p \<Longrightarrow> good p (parse_value N p)"
  using after_step [of p]
  by (auto simp: parse_value_def peek_simps good_fail_here split: parsed.split)

lemma good_field_loop: "pok p \<Longrightarrow> left_to_parse p < fuel \<Longrightarrow> good p (field_loop fuel field p)"
proof (induction fuel arbitrary: field p)
  case (Suc fuel)
  show ?case
    unfolding field_loop.simps
  proof (rule good_if_match)
    assume "after p (step p)"
    then have q: "pok (step p)" by (rule after_pok)
    have l: "left_to_parse (step (step p)) < fuel" using left_step [OF Suc.prems(1)] left_step [OF q] Suc.prems(2) by simp
    show "good (step p) (plift (check_token (step p) Ident) (\<lambda>c. if \<not> c then fail_here (step p) ExpectedFieldAfterDot
         else plift (advance (step p)) (\<lambda>(t, p). field_loop fuel (field @ [46] @ tk_value t) p)))"
    proof (cases "tk_type (peek (step p)) = Ident")
      case True
      then have "after (step p) (step (step p))" using after_step [OF q] by simp
      then show ?thesis using True q Suc.IH [OF after_pok l] by (auto simp: peek_simps intro: good_after)
    qed (simp add: peek_simps q good_fail_here)
  qed (use Suc.prems in simp_all)
qed simp

lemma good_values_loop: "pok p \<Longrightarrow> left_to_parse p < fuel \<Longrightarrow> good p (values_loop fuel N vals p)"
proof (induction fuel arbitrary: vals p)
  case (Suc fuel)
  have "good p (pbind (parse_value N p) (\<lambda>v p. if_match p Comma (\<lambda>p. values_loop fuel N (vals @ [v]) p) (\<lambda>p. POk (vals @ [v], p))))"
  proof (rule good_pbind [OF good_parse_value [OF Suc.prems(1)]], rule good_if_match)
    fix v q
    assume q: "after p q" "after q (step q)"
    have "left_to_parse (step q) < fuel"
      using left_after [OF q(1)] left_step [OF after_pok [OF q(1)]] Suc.prems(2) by simp
    then show "good (step q) (values_loop fuel N (vals @ [v]) (step q))"
      using Suc.IH after_pok [OF q(2)] by blast
  qed (auto intro: after_pok)
  then show ?case using Suc.prems(1) by (simp add: peek_simps)
qed simp

lemma good_has_list: "pok p \<Longrightarrow> left_to_parse p < fuel \<Longrightarrow> good p (has_list fuel N field has_op p)"
  unfolding has_list_def
  using left_step [of p]
  by (intro good_if_match good_pbind good_fail_here good_values_loop) (auto dest: after_pok)

lemma good_parse_has: "pok p \<Longrightarrow> left_to_parse p < fuel \<Longrightarrow> good p (parse_has fuel N field p)"
  unfolding parse_has_def
  using left_step [of p]
  by (intro good_if_match good_pbind good_has_list good_parse_value) (auto dest: after_pok)

lemma good_compare_value: "pok p \<Longrightarrow> good p (compare_value N field op p)"
  unfolding compare_value_def by (intro good_pbind good_parse_value) (auto dest: after_pok)

lemma good_bare_field: "pok p \<Longrightarrow> good p (bare_field field p)"
  by (auto simp: bare_field_def peek_simps good_fail_here)

lemma good_field_operator: "pok p \<Longrightarrow> left_to_parse p < fuel \<Longrightarrow> good p (field_operator fuel N field p)"
  unfolding field_operator_def
  using left_step [of p]
  by (intro good_if_match good_fail_here good_parse_has good_compare_value good_bare_field) (auto dest: after_pok)

lemma good_field_comparison: "pok p \<Longrightarrow> left_to_parse p < fuel \<Longrightarrow> good p (field_comparison fuel N p)"
proof (cases "tk_type (peek p) = Ident")
  case True
  assume p: "pok p" "left_to_parse p < fuel"
  have s: "after p (step p)" using True after_step [OF p(1)] by simp
  have "left_to_parse (step p) < fuel" using left_step [OF p(1)] p(2) by simp
  then have "good (step p) (pbind (field_loop fuel (tk_value (peek p)) (step p)) (\<lambda>field p. field_operator fuel N field p))"
    using after_pok [OF s] by (intro good_pbind good_field_loop good_field_operator) (auto dest: after_pok left_after)
  then show ?thesis using True p s by (auto simp: field_comparison_def peek_simps intro: good_after)
qed (simp add: field_comparison_def peek_simps)

lemma good_exprs:
  "pok p \<Longrightarrow> 3 * left_to_parse p + 2 < fuel \<Longrightarrow> good p (or_expr fuel N p)"
  "pok p \<Longrightarrow> 3 * left_to_parse p + 1 < fuel \<Longrightarrow> good p (or_loop fuel N l p)"
  "pok p \<Longrightarrow> 3 * left_to_parse p + 1 < fuel \<Longrightarrow> good p (and_expr fuel N p)"
  "pok p \<Longrightarrow> 3 * left_to_parse p < fuel \<Longrightarrow> good p (and_loop fuel N l p)"
  "pok p \<Longrightarrow> 3 * left_to_parse p < fuel \<Longrightarrow> good p (comparison fuel N p)"
proof (induction fuel arbitrary: p l)
  case (Suc fuel)
  {
    case 1
    then show ?case unfolding or_expr.simps by (intro good_pbind Suc.IH) (auto dest: after_pok left_after)
  next
    case 2
    then show ?case unfolding or_loop.simps using left_step [OF 2(1)] by (intro good_if_match good_pbind Suc.IH) (auto dest: after_pok left_after)
  next
    case 3
    then show ?case unfolding and_expr.simps by (intro good_pbind Suc.IH) (auto dest: after_pok left_after)
  next
    case 4
    then show ?case unfolding and_loop.simps using left_step [OF 4(1)] by (intro good_if_match good_pbind Suc.IH) (auto dest: after_pok left_after)
  next
    case 5
    have "0 < left_to_parse p" using 5(1) by (auto simp: pok_def left_to_parse_def)
    then show ?case unfolding comparison.simps using 5 left_step [OF 5(1)]
      by (intro good_if_match good_pbind good_fail_here good_field_comparison Suc.IH) (auto dest: after_pok)
  }
qed simp_all

text \<open>
  C30: Parsing a query text always returns: it yields a syntax tree or an error, never a panic, and the bound on the depth of the calls that \<open>parse\<close> sets is never reached.
\<close>

theorem parse_query_total: "(\<exists>q. parse_query U N s = POk q) \<or> (\<exists>e. parse_query U N s = PErr e)"
proof (cases "lex_text U 0 s")
  case (Inl e)
  then show ?thesis by (simp add: parse_query_def tokenize_lex_text)
next
  case (Inr ts)
  have "pok (parser_new ts)" using lex_text_eof [OF Inr] by (simp add: pok_def parser_new_def ends_with_eof_def)
  then have "good (parser_new ts) (or_expr (3 * length ts + 3) N (parser_new ts))"
    by (rule good_exprs(1)) (simp add: left_to_parse_def parser_new_def)
  then show ?thesis
    by (cases "or_expr (3 * length ts + 3) N (parser_new ts)")
      (auto simp: parse_query_def tokenize_lex_text Inr parse_def parser_new_def)
qed

end
