(* ===== verification/Watch.thy ===== *)
theory Watch
  imports Query_Parser Outcome
begin

text \<open>
  \<open>src/core/watch.rs\<close>: change streams.

  A channel of the standard library is a number; the channels whose receiver still exists map to the events sent and not yet received. Sending to a channel whose
  receiver is gone fails. The identifiers that \<open>generate_watcher_id\<close> makes from the clock and the new channel are arguments of \<open>subscribe\<close>; the step relation below takes them fresh.
\<close>

subsection \<open>Specification\<close>

datatype change_operation = Insert | Update | Delete

record 'n change_event =
  ce_collection :: string
  ce_operation :: change_operation
  ce_doc_id :: string
  ce_document :: "'n json option"

record watcher =
  w_id :: string
  w_sender :: nat
  w_filter :: "ustring option"

type_synonym watcher_storage = "(string, watcher list) hmap"

type_synonym 'n channels = "(nat, 'n change_event list) hmap"

definition watcher_matches :: "unicode \<Rightarrow> 'n numbers \<Rightarrow> watcher \<Rightarrow> 'n change_event \<Rightarrow> bool" where
  "watcher_matches U N w event =
     (case w_filter w of
        None \<Rightarrow> True
      | Some flt \<Rightarrow>
          (case ce_document event of
             None \<Rightarrow> False
           | Some doc \<Rightarrow>
               (case parse_query U N flt of
                  POk ast \<Rightarrow> (case as_object doc of Some doc_obj \<Rightarrow> eval_node N ast doc_obj | None \<Rightarrow> False)
                | _ \<Rightarrow> False)))"

definition watcher_send :: "watcher \<Rightarrow> 'n change_event \<Rightarrow> 'n channels \<Rightarrow> bool \<times> 'n channels" where
  "watcher_send w event chans =
     (case hm_get chans (w_sender w) of
        Some queue \<Rightarrow> (True, hm_insert (w_sender w) (queue @ [event]) chans)
      | None \<Rightarrow> (False, chans))"

definition new_watcher_storage :: watcher_storage where
  "new_watcher_storage = []"

definition subscribe :: "string \<Rightarrow> ustring option \<Rightarrow> string \<Rightarrow> nat \<Rightarrow> watcher_storage \<times> 'n channels \<Rightarrow> watcher_storage \<times> 'n channels" where
  "subscribe collection flt watcher_id chan st =
     (case st of (storage, chans) \<Rightarrow>
        let w = \<lparr>w_id = watcher_id, w_sender = chan, w_filter = flt\<rparr>;
            ws = (case hm_get storage collection of Some ws \<Rightarrow> ws | None \<Rightarrow> [])
        in (hm_insert collection (ws @ [w]) storage, hm_insert chan [] chans))"

definition retain_watchers :: "string \<Rightarrow> (watcher \<Rightarrow> bool) \<Rightarrow> watcher_storage \<Rightarrow> watcher_storage" where
  "retain_watchers collection keep storage =
     (case hm_get storage collection of
        None \<Rightarrow> storage
      | Some ws \<Rightarrow>
          let ws = filter keep ws in
          if ws = [] then hm_remove collection storage else hm_insert collection ws storage)"

definition drop_handle :: "string \<Rightarrow> string \<Rightarrow> watcher_storage \<Rightarrow> watcher_storage" where
  "drop_handle collection watcher_id storage = retain_watchers collection (\<lambda>w. w_id w \<noteq> watcher_id) storage"

fun send_matching :: "unicode \<Rightarrow> 'n numbers \<Rightarrow> 'n change_event \<Rightarrow> watcher list \<Rightarrow> string list \<Rightarrow> 'n channels \<Rightarrow> string list \<times> 'n channels" where
  "send_matching U N event [] dead chans = (dead, chans)"
| "send_matching U N event (w # ws) dead chans =
     (if watcher_matches U N w event then
        (case watcher_send w event chans of (sent, chans) \<Rightarrow>
           send_matching U N event ws (if sent then dead else dead @ [w_id w]) chans)
      else send_matching U N event ws dead chans)"

definition emit_change ::
    "unicode \<Rightarrow> 'n numbers \<Rightarrow> string \<Rightarrow> change_operation \<Rightarrow> string \<Rightarrow> 'n json option \<Rightarrow> watcher_storage \<times> 'n channels \<Rightarrow> watcher_storage \<times> 'n channels" where
  "emit_change U N collection operation doc_id document st =
     (case st of (storage, chans) \<Rightarrow>
        let event = \<lparr>ce_collection = collection, ce_operation = operation, ce_doc_id = doc_id, ce_document = document\<rparr> in
        case (case hm_get storage collection of Some ws \<Rightarrow> send_matching U N event ws [] chans | None \<Rightarrow> ([], chans)) of
          (dead_watchers, chans) \<Rightarrow>
            (if dead_watchers = [] then storage else retain_watchers collection (\<lambda>w. w_id w \<notin> set dead_watchers) storage, chans))"

text \<open>The steps of a program: it subscribes, drops a handle or a receiver, receives, and documents change.\<close>

inductive watch_step :: "unicode \<Rightarrow> 'n numbers \<Rightarrow> watcher_storage \<times> 'n channels \<Rightarrow> watcher_storage \<times> 'n channels \<Rightarrow> bool"
  for U :: unicode and N :: "'n numbers" where
  step_subscribe:
    "\<forall>ws \<in> ran (map_of storage). \<forall>w \<in> set ws. w_id w \<noteq> i \<and> w_sender w \<noteq> ch \<Longrightarrow> hm_get chans ch = None
     \<Longrightarrow> watch_step U N (storage, chans) (subscribe collection flt i ch (storage, chans))"
| step_drop_handle: "watch_step U N (storage, chans) (drop_handle collection i storage, chans)"
| step_drop_receiver: "watch_step U N (storage, chans) (storage, hm_remove ch chans)"
| step_receive: "hm_get chans ch = Some (e # queue) \<Longrightarrow> watch_step U N (storage, chans) (storage, hm_insert ch queue chans)"
| step_emit: "watch_step U N st (emit_change U N collection operation doc_id document st)"

inductive watch_reachable :: "unicode \<Rightarrow> 'n numbers \<Rightarrow> watcher_storage \<times> 'n channels \<Rightarrow> bool"
  for U :: unicode and N :: "'n numbers" where
  watch_start: "watch_reachable U N (new_watcher_storage, [])"
| watch_more: "watch_reachable U N st \<Longrightarrow> watch_step U N st st' \<Longrightarrow> watch_reachable U N st'"

text \<open>All watchers of the storage have their own channel, and no entry is empty.\<close>

definition watchers_ok :: "watcher_storage \<Rightarrow> bool" where
  "watchers_ok storage \<longleftrightarrow>
     (\<forall>c ws. hm_get storage c = Some ws \<longrightarrow> ws \<noteq> [] \<and> distinct (map w_id ws) \<and> distinct (map w_sender ws)) \<and>
     (\<forall>c d ws vs. hm_get storage c = Some ws \<longrightarrow> hm_get storage d = Some vs \<longrightarrow> c \<noteq> d \<longrightarrow>
        set (map w_sender ws) \<inter> set (map w_sender vs) = {})"

definition watchers_of :: "string \<Rightarrow> watcher_storage \<Rightarrow> watcher list" where
  "watchers_of c storage = (case hm_get storage c of Some ws \<Rightarrow> ws | None \<Rightarrow> [])"

definition receives :: "unicode \<Rightarrow> 'n numbers \<Rightarrow> 'n change_event \<Rightarrow> watcher_storage \<Rightarrow> nat \<Rightarrow> bool" where
  "receives U N event storage ch \<longleftrightarrow>
     (\<exists>w \<in> set (watchers_of (ce_collection event) storage). w_sender w = ch \<and> watcher_matches U N w event)"

subsection \<open>Lemmas\<close>

lemma send_matching_spec:
  assumes "distinct (map w_sender ws)"
  shows "send_matching U N e ws dead chans = (dead', chans') \<Longrightarrow>
    dead' = dead @ map w_id (filter (\<lambda>w. watcher_matches U N w e \<and> hm_get chans (w_sender w) = None) ws) \<and>
    (\<forall>ch. hm_get chans' ch = map_option (\<lambda>q. if \<exists>w \<in> set ws. w_sender w = ch \<and> watcher_matches U N w e then q @ [e] else q) (hm_get chans ch))"
  using assms
proof (induction ws arbitrary: dead chans)
  case Nil
  then show ?case by (auto simp: option.map_id0 [unfolded id_def])
next
  case (Cons w ws)
  show ?case
  proof (cases "watcher_matches U N w e")
    case False
    then show ?thesis using Cons by auto
  next
    case True
    show ?thesis
    proof (cases "hm_get chans (w_sender w)")
      case None
      then have *: "send_matching U N e ws (dead @ [w_id w]) chans = (dead', chans')"
        using Cons.prems(1) True by (simp add: watcher_send_def)
      then show ?thesis using Cons.IH [OF *] Cons.prems(2) True None by (auto intro!: option.map_cong0)
    next
      case (Some q)
      define chans1 where "chans1 = hm_insert (w_sender w) (q @ [e]) chans"
      have *: "send_matching U N e ws dead chans1 = (dead', chans')"
        using Cons.prems(1) True Some by (simp add: watcher_send_def chans1_def)
      have f: "filter (\<lambda>v. watcher_matches U N v e \<and> hm_get chans1 (w_sender v) = None) ws
          = filter (\<lambda>v. watcher_matches U N v e \<and> hm_get chans (w_sender v) = None) ws"
        using Cons.prems(2) by (intro filter_cong) (auto simp: chans1_def, metis imageI)
      show ?thesis
        using Cons.IH [OF *] Cons.prems(2) True Some unfolding f
        by (auto simp: chans1_def image_iff intro!: option.map_cong0)
    qed
  qed
qed

lemma hm_retain:
  "hm_get (retain_watchers c keep storage) d =
     (if d = c then (case hm_get storage c of None \<Rightarrow> None | Some ws \<Rightarrow> if filter keep ws = [] then None else Some (filter keep ws))
      else hm_get storage d)"
  by (auto simp: retain_watchers_def Let_def split: option.splits)

lemma watchers_ok_retain: "watchers_ok storage \<Longrightarrow> watchers_ok (retain_watchers c keep storage)"
proof -
  assume ok: "watchers_ok storage"
  have sub: "\<exists>vs. hm_get storage d = Some vs \<and> ws \<noteq> [] \<and> (ws = vs \<or> ws = filter keep vs)"
    if "hm_get (retain_watchers c keep storage) d = Some ws" for d ws
    using that ok by (auto simp: hm_retain watchers_ok_def split: if_splits option.splits)
  show ?thesis
    unfolding watchers_ok_def
  proof (intro conjI allI impI)
    fix d ws
    assume d: "hm_get (retain_watchers c keep storage) d = Some ws"
    show "ws \<noteq> []" "distinct (map w_id ws)" "distinct (map w_sender ws)"
      using sub [OF d] ok by (auto simp: watchers_ok_def distinct_map_filter)
    fix d' vs
    assume d': "hm_get (retain_watchers c keep storage) d' = Some vs" "d \<noteq> d'"
    show "set (map w_sender ws) \<inter> set (map w_sender vs) = {}"
      using sub [OF d] sub [OF d'(1)] d'(2) ok unfolding watchers_ok_def by fastforce
  qed
qed

lemma watchers_ok_subscribe:
  assumes ok: "watchers_ok storage" and fresh: "\<forall>ws \<in> ran (map_of storage). \<forall>w \<in> set ws. w_id w \<noteq> i \<and> w_sender w \<noteq> ch"
  shows "watchers_ok (fst (subscribe c flt i ch (storage, chans)))"
proof -
  define w where "w = \<lparr>w_id = i, w_sender = ch, w_filter = flt\<rparr>"
  have f: "w_id v \<noteq> i" "w_sender v \<noteq> ch" if "hm_get storage d = Some ws" "v \<in> set ws" for d ws v
    using fresh that by (auto simp: ran_def)
  have e: "fst (subscribe c flt i ch (storage, chans)) = hm_insert c (watchers_of c storage @ [w]) storage"
    by (simp add: subscribe_def Let_def w_def watchers_of_def)
  have new: "i \<notin> w_id ` set (watchers_of c storage)" "ch \<notin> w_sender ` set (watchers_of c storage)"
    using f(1) [of c] f(2) [of c] unfolding watchers_of_def by (cases "hm_get storage c"; force)+
  have old: "distinct (map w_id (watchers_of c storage))" "distinct (map w_sender (watchers_of c storage))"
    using ok by (auto simp: watchers_ok_def watchers_of_def split: option.split)
  have other: "set (map w_sender (watchers_of c storage @ [w])) \<inter> set (map w_sender vs) = {}"
    if "hm_get storage d = Some vs" "d \<noteq> c" for d vs
  proof -
    have "ch \<notin> w_sender ` set vs" using f(2) [OF that(1)] by blast
    moreover have "set (map w_sender (watchers_of c storage)) \<inter> set (map w_sender vs) = {}"
      using ok that unfolding watchers_ok_def watchers_of_def by (cases "hm_get storage c") auto
    ultimately show ?thesis by (auto simp: w_def)
  qed
  show ?thesis
    unfolding e watchers_ok_def
  proof (intro conjI allI impI)
    fix d ws
    assume d: "hm_get (hm_insert c (watchers_of c storage @ [w]) storage) d = Some ws"
    show "ws \<noteq> []" "distinct (map w_id ws)" "distinct (map w_sender ws)"
      using d ok new old by (auto simp: watchers_ok_def w_def split: if_splits)
    fix d' vs
    assume d': "hm_get (hm_insert c (watchers_of c storage @ [w]) storage) d' = Some vs" "d \<noteq> d'"
    consider "d = c" | "d' = c" | "d \<noteq> c" "d' \<noteq> c" by blast
    then show "set (map w_sender ws) \<inter> set (map w_sender vs) = {}"
    proof cases
      case 3
      then show ?thesis using d d' ok unfolding watchers_ok_def by simp
    qed (use d d' other in \<open>auto simp: Int_commute\<close>)
  qed
qed

lemma emit_change_parts:
  assumes ok: "watchers_ok storage"
    and e: "e = \<lparr>ce_collection = c, ce_operation = op, ce_doc_id = d, ce_document = doc\<rparr>"
    and r: "emit_change U N c op d doc (storage, chans) = (storage', chans')"
  shows "watchers_ok storage'"
    and "hm_get chans' ch = map_option (\<lambda>q. if receives U N e storage ch then q @ [e] else q) (hm_get chans ch)"
    and "watchers_of c' storage' =
      (if c' = c then filter (\<lambda>w. \<not> (watcher_matches U N w e \<and> hm_get chans (w_sender w) = None)) (watchers_of c storage)
       else watchers_of c' storage)"
proof -
  obtain dead where dead: "send_matching U N e (watchers_of c storage) [] chans = (dead, chans')"
    "storage' = (if dead = [] then storage else retain_watchers c (\<lambda>w. w_id w \<notin> set dead) storage)"
    using r by (cases "hm_get storage c") (auto simp: emit_change_def e [symmetric] watchers_of_def Let_def split: prod.splits)
  have dist: "distinct (map w_sender (watchers_of c storage))" "distinct (map w_id (watchers_of c storage))"
    using ok by (auto simp: watchers_ok_def watchers_of_def split: option.split)
  note spec = send_matching_spec [OF dist(1) dead(1)]
  show "watchers_ok storage'" using dead(2) ok watchers_ok_retain by auto
  show "hm_get chans' ch = map_option (\<lambda>q. if receives U N e storage ch then q @ [e] else q) (hm_get chans ch)"
    using spec by (simp add: receives_def e)
  define gone where "gone = (\<lambda>w. watcher_matches U N w e \<and> hm_get chans (w_sender w) = None)"
  have mem: "w_id w \<in> set dead \<longleftrightarrow> gone w" if "w \<in> set (watchers_of c storage)" for w
    using spec that dist(2) unfolding gone_def by (auto simp: distinct_map inj_on_def)
  have "filter (\<lambda>w. w_id w \<notin> set dead) (watchers_of c storage) = filter (\<lambda>w. \<not> gone w) (watchers_of c storage)"
    using mem by (intro filter_cong) auto
  moreover have "watchers_of c' storage' = (if c' = c then filter (\<lambda>w. w_id w \<notin> set dead) (watchers_of c storage) else watchers_of c' storage)"
    unfolding dead(2) by (auto simp: watchers_of_def hm_retain split: option.split)
  ultimately show "watchers_of c' storage' =
      (if c' = c then filter (\<lambda>w. \<not> (watcher_matches U N w e \<and> hm_get chans (w_sender w) = None)) (watchers_of c storage)
       else watchers_of c' storage)"
    by (simp add: gone_def)
qed

lemma watch_reachable_ok: "watch_reachable U N st \<Longrightarrow> watchers_ok (fst st)"
proof (induction rule: watch_reachable.induct)
  case watch_start
  show ?case by (simp add: watchers_ok_def new_watcher_storage_def)
next
  case (watch_more st st')
  show ?case using watch_more(2,3)
  proof (cases rule: watch_step.cases)
    case (step_emit c op d doc)
    then show ?thesis
      using emit_change_parts(1) [OF watch_more(3) refl, of U N c op d doc "snd st"] by (metis prod.collapse)
  qed (auto simp: drop_handle_def intro: watchers_ok_retain watchers_ok_subscribe)
qed

subsection \<open>Properties\<close>

text \<open>
  C18: In every state that a program can reach by subscribing, dropping handles and receivers, receiving and emitting, an emitted change is appended exactly once to the stream of every live subscriber of its collection whose
  filter it satisfies, and to no other stream; the only watchers removed are those that it would have reached but whose receiver is gone.
\<close>

theorem emit_delivers:
  assumes "watch_reachable U N (storage, chans)"
    and "e = \<lparr>ce_collection = c, ce_operation = op, ce_doc_id = d, ce_document = doc\<rparr>"
    and "emit_change U N c op d doc (storage, chans) = (storage', chans')"
  shows "hm_get chans' ch = map_option (\<lambda>q. if receives U N e storage ch then q @ [e] else q) (hm_get chans ch) \<and>
    watchers_of c' storage' =
      (if c' = c then filter (\<lambda>w. \<not> (watcher_matches U N w e \<and> hm_get chans (w_sender w) = None)) (watchers_of c storage)
       else watchers_of c' storage)"
  using watch_reachable_ok [OF assms(1)] emit_change_parts(2,3) [OF _ assms(2,3)] by simp

subsection \<open>Witnesses\<close>

definition no_unicode :: unicode where
  "no_unicode = \<lparr>uni_alphabetic = \<lambda>_. False, uni_numeric = \<lambda>_. False, uni_whitespace = \<lambda>_. False, uni_lowercase = id\<rparr>"

definition nat_order_numbers :: "nat numbers" where
  "nat_order_numbers = \<lparr>num_from_text = \<lambda>_. NotANumber, num_eq = (=), num_lt = (<), num_same = (=), num_integer = \<lambda>_. True\<rparr>"

lemma sample_watch: "watch_reachable no_unicode nat_order_numbers (subscribe ''users'' None ''w1'' 7 (new_watcher_storage, []))"
  by (rule watch_more [OF watch_start], rule step_subscribe) (simp_all add: new_watcher_storage_def)

theorem emit_delivers_witness:
  "hm_get (snd (emit_change no_unicode nat_order_numbers ''users'' Insert ''a'' None (subscribe ''users'' None ''w1'' 7 (new_watcher_storage, [])))) 7 =
     Some [\<lparr>ce_collection = ''users'', ce_operation = Insert, ce_doc_id = ''a'', ce_document = None\<rparr>]"
proof -
  define st where "st = emit_change no_unicode nat_order_numbers ''users'' Insert ''a'' None (subscribe ''users'' None ''w1'' 7 (new_watcher_storage, []))"
  define e :: "nat change_event" where "e = \<lparr>ce_collection = ''users'', ce_operation = Insert, ce_doc_id = ''a'', ce_document = None\<rparr>"
  obtain storage chans where s: "subscribe ''users'' None ''w1'' 7 (new_watcher_storage, []) = (storage, chans :: nat channels)"
    by (cases "subscribe ''users'' None ''w1'' 7 (new_watcher_storage, [] :: nat channels)")
  have "hm_get (snd st) 7 = map_option (\<lambda>q. if receives no_unicode nat_order_numbers e storage 7 then q @ [e] else q) (hm_get chans 7)"
    using emit_delivers [OF sample_watch [unfolded s] e_def, of "fst st" "snd st" 7] by (simp add: st_def s)
  also have "\<dots> = Some [e]"
    using s by (auto simp: subscribe_def new_watcher_storage_def receives_def watchers_of_def watcher_matches_def e_def)
  finally show ?thesis by (simp add: st_def e_def)
qed

end
