(* ===== verification/Transaction.thy ===== *)
theory Transaction
  imports Metadata Index_Key Watch Mvcc Wal Tx_Btree
begin

text \<open>
  \<open>src/core/transaction.rs\<close> and the parts of \<open>src/core/database.rs\<close> that it works on: transactions, the detection of conflicts, and the commit in batches.

  The shared database is a record of the states of its components. \<open>env\<close> holds what the model takes from outside: the JSON codec, the Unicode tables, the number type,
  the bound on walks down a tree, and the time on the clock. A hash map is an association list, whose order stands for the unspecified order of its iteration.
  Locks are never poisoned, and a transaction has its database, as \<open>Database::begin\<close> sets it. Texts of errors are shortened to their fixed part.
  The counters that pager, log and database share are kept by the part that counts them.
\<close>

subsection \<open>Specification\<close>

subsubsection \<open>State\<close>

type_synonym 'v by_doc = "(string, (string, 'v) hmap) hmap"

record pending_write =
  pw_writes :: page_writes
  pw_doc_writes :: "page_num by_doc"
  pw_snapshot_roots :: "(string, page_num) hmap"
  pw_updated_roots :: "(string, page_num) hmap"
  pw_old_versions :: "document_version by_doc"
  pw_modified_collections :: "string list"
  pw_doc_existed :: "bool by_doc"
  pw_doc_original_xmin :: "tx_id by_doc"
  pw_snapshot_id :: tx_id
  pw_mvcc_tx_id :: tx_id

record batch_config =
  bc_enabled :: bool
  bc_max_batch_size :: nat
  bc_collect_timeout_micros :: nat

definition batch_config_default :: batch_config where
  "batch_config_default = \<lparr>bc_enabled = True, bc_max_batch_size = 32, bc_collect_timeout_micros = 100\<rparr>"

record transaction_config =
  tc_max_retries :: nat
  tc_retry_backoff_base_ms :: u64
  tc_max_retry_backoff_ms :: u64

definition transaction_config_default :: transaction_config where
  "transaction_config_default = \<lparr>tc_max_retries = 3, tc_retry_backoff_base_ms = 1, tc_max_retry_backoff_ms = 100\<rparr>"

record database_options =
  do_cache_size :: nat
  do_auto_checkpoint_threshold :: u64
  do_read_only :: bool
  do_max_bulk_operations :: nat
  do_max_document_size :: nat
  do_max_request_body_size :: nat

definition database_options_default :: database_options where
  "database_options_default =
     \<lparr>do_cache_size = 25000, do_auto_checkpoint_threshold = 1000, do_read_only = False,
      do_max_bulk_operations = 100000, do_max_document_size = 67108864, do_max_request_body_size = 52428800\<rparr>"

record 'n database =
  db_path :: string
  db_pager :: pager
  db_wal :: wal
  db_metadata :: "'n metadata"
  db_tx_manager :: transaction_manager
  db_read_only :: bool
  db_version_chains :: "version_chain by_doc"
  db_auto_checkpoint_threshold :: u64
  db_checkpoint_in_progress :: bool
  db_metrics :: metrics
  db_watchers :: watcher_storage
  db_channels :: "'n channels"
  db_tx_id_counter :: u64
  db_pending_writes :: "pending_write list"
  db_batch_config :: batch_config
  db_completions :: "(tx_id, unit res) hmap"
  db_tx_config :: transaction_config
  db_max_bulk_operations :: nat
  db_max_document_size :: nat
  db_max_request_body_size :: nat

text \<open>The handle that \<open>open_with_options\<close> makes of the components.\<close>

definition database_with :: "string \<Rightarrow> database_options \<Rightarrow> pager \<Rightarrow> wal \<Rightarrow> 'n metadata \<Rightarrow> transaction_manager \<Rightarrow> 'n database" where
  "database_with path opts s w md tm =
     \<lparr>db_path = path, db_pager = set_metrics metrics_new s, db_wal = wal_set_metrics metrics_new w, db_metadata = md, db_tx_manager = tm,
      db_read_only = do_read_only opts, db_version_chains = [], db_auto_checkpoint_threshold = do_auto_checkpoint_threshold opts,
      db_checkpoint_in_progress = False, db_metrics = metrics_new, db_watchers = new_watcher_storage, db_channels = [],
      db_tx_id_counter = 1, db_pending_writes = [], db_batch_config = batch_config_default, db_completions = [],
      db_tx_config = transaction_config_default, db_max_bulk_operations = do_max_bulk_operations opts,
      db_max_document_size = do_max_document_size opts, db_max_request_body_size = do_max_request_body_size opts\<rparr>"

record 'n env =
  en_codec :: "'n meta_codec"
  en_from_slice :: "bytes \<Rightarrow> 'n json option"
  en_to_text :: "'n json \<Rightarrow> ustring"
  en_unicode :: unicode
  en_numbers :: "'n numbers"
  en_fuel :: nat
  en_now :: nat

datatype tx_state = TxActive | TxCommitted | TxRolledBack

record transaction =
  tx_id :: u64
  tx_mvcc_tx_id :: tx_id
  tx_snapshot_id :: tx_id
  tx_state :: tx_state
  tx_writes :: page_writes
  tx_doc_writes :: "page_num by_doc"
  tx_snapshot_roots :: "(string, page_num) hmap"
  tx_updated_roots :: "(string, page_num) hmap"
  tx_doc_existed :: "bool by_doc"
  tx_doc_original_xmin :: "tx_id by_doc"
  tx_modified_collections :: "string list"
  tx_old_versions :: "document_version by_doc"

text \<open>Two-level maps: \<open>map.get(c).and_then(|m| m.get(d))\<close>, \<open>entry(c).or_insert_with(HashMap::new).insert(d, v)\<close> and \<open>\<dots>entry(d).or_insert(v)\<close>.\<close>

definition doc_get :: "'v by_doc \<Rightarrow> string \<Rightarrow> string \<Rightarrow> 'v option" where
  "doc_get m c d = (case hm_get m c of Some docs \<Rightarrow> hm_get docs d | None \<Rightarrow> None)"

definition docs_of :: "'v by_doc \<Rightarrow> string \<Rightarrow> (string, 'v) hmap" where
  "docs_of m c = (case hm_get m c of Some docs \<Rightarrow> docs | None \<Rightarrow> [])"

definition doc_insert :: "string \<Rightarrow> string \<Rightarrow> 'v \<Rightarrow> 'v by_doc \<Rightarrow> 'v by_doc" where
  "doc_insert c d v m = hm_insert c (hm_insert d v (docs_of m c)) m"

definition doc_or_insert :: "string \<Rightarrow> string \<Rightarrow> 'v \<Rightarrow> 'v by_doc \<Rightarrow> 'v by_doc" where
  "doc_or_insert c d v m = (case doc_get m c d of Some _ \<Rightarrow> m | None \<Rightarrow> doc_insert c d v m)"

text \<open>A method of a component on the database, and a loop over a list that stops at the first failure.\<close>

definition db_on_pager :: "(pager \<Rightarrow> 'a res \<times> pager) \<Rightarrow> 'n database \<Rightarrow> 'a res \<times> 'n database" where
  "db_on_pager f db = (case f (db_pager db) of (r, s) \<Rightarrow> (r, db\<lparr>db_pager := s\<rparr>))"

definition db_on_wal :: "(wal \<Rightarrow> 'a res \<times> wal) \<Rightarrow> 'n database \<Rightarrow> 'a res \<times> 'n database" where
  "db_on_wal f db = (case f (db_wal db) of (r, w) \<Rightarrow> (r, db\<lparr>db_wal := w\<rparr>))"

fun for_each :: "('x \<Rightarrow> 's \<Rightarrow> unit res \<times> 's) \<Rightarrow> 'x list \<Rightarrow> 's \<Rightarrow> unit res \<times> 's" where
  "for_each f [] s = (Ok (), s)"
| "for_each f (x # xs) s = and_then (f x s) (\<lambda>_ s. for_each f xs s)"

definition update_metadata_no_flush :: "('n metadata \<Rightarrow> 'n metadata) \<Rightarrow> 'n database \<Rightarrow> 'n database" where
  "update_metadata_no_flush f db = db\<lparr>db_metadata := f (db_metadata db)\<rparr>"

subsubsection \<open>A transaction before its commit\<close>

definition transaction_new :: "(string, page_num) hmap \<Rightarrow> 'n database \<Rightarrow> transaction \<times> 'n database" where
  "transaction_new collection_roots db =
     (let counter = db_tx_id_counter db;
          db = db\<lparr>db_tx_id_counter := counter + 1\<rparr>
      in case begin_transaction (db_tx_manager db) of (mvcc_tx_id, m) \<Rightarrow>
        (\<lparr>tx_id = counter, tx_mvcc_tx_id = mvcc_tx_id, tx_snapshot_id = get_latest_committed_tx_id m, tx_state = TxActive,
          tx_writes = [], tx_doc_writes = [], tx_snapshot_roots = collection_roots, tx_updated_roots = collection_roots,
          tx_doc_existed = [], tx_doc_original_xmin = [], tx_modified_collections = [], tx_old_versions = []\<rparr>,
         db\<lparr>db_tx_manager := m\<rparr>))"

definition db_begin :: "'n database \<Rightarrow> transaction \<times> 'n database" where
  "db_begin db =
     (let collection_roots = map (\<lambda>(name, coll). (name, cm_btree_root coll)) (md_collections (db_metadata db)) in
      case transaction_new collection_roots db of (tx, db) \<Rightarrow> (tx, db\<lparr>db_metrics := transaction_begun (db_metrics db)\<rparr>))"

definition is_active :: "transaction \<Rightarrow> bool" where
  "is_active tx \<longleftrightarrow> tx_state tx = TxActive"

definition create_collection :: "string \<Rightarrow> transaction \<Rightarrow> 'n database \<Rightarrow> unit res \<times> 'n database" where
  "create_collection name tx db =
     (if \<not> is_active tx then (Err TxNotActive, db)
      else if hm_contains (md_collections (db_metadata db)) name then (Err (CollectionAlreadyExists name), db)
      else (Ok (), update_metadata_no_flush (get_collection name id) db))"

definition drop_collection :: "string \<Rightarrow> transaction \<Rightarrow> 'n database \<Rightarrow> unit res \<times> 'n database" where
  "drop_collection name tx db =
     (if \<not> is_active tx then (Err TxNotActive, db)
      else if \<not> hm_contains (md_collections (db_metadata db)) name then (Err (CollectionDoesNotExist name), db)
      else
        let db = update_metadata_no_flush (\<lambda>m. m\<lparr>md_collections := hm_remove name (md_collections m)\<rparr>) db
        in (Ok (), db\<lparr>db_version_chains := hm_remove name (db_version_chains db)\<rparr>))"

definition move_key :: "string \<Rightarrow> string \<Rightarrow> (string, 'v) hmap \<Rightarrow> (string, 'v) hmap" where
  "move_key old_name new_name m =
     (case hm_get m old_name of Some v \<Rightarrow> hm_insert new_name v (hm_remove old_name m) | None \<Rightarrow> m)"

definition rename_collection :: "string \<Rightarrow> string \<Rightarrow> transaction \<Rightarrow> 'n database \<Rightarrow> unit res \<times> 'n database" where
  "rename_collection old_name new_name tx db =
     (if \<not> is_active tx then (Err TxNotActive, db)
      else if hm_contains (md_collections (db_metadata db)) new_name then (Err (CollectionAlreadyExists new_name), db)
      else if \<not> hm_contains (md_collections (db_metadata db)) old_name then (Err (CollectionDoesNotExist old_name), db)
      else
        let db = update_metadata_no_flush (\<lambda>m. m\<lparr>md_collections := move_key old_name new_name (md_collections m)\<rparr>) db
        in (Ok (), db\<lparr>db_version_chains := move_key old_name new_name (db_version_chains db)\<rparr>))"

definition tx_write_page :: "page_num \<Rightarrow> bytes \<Rightarrow> transaction \<Rightarrow> unit res \<times> transaction" where
  "tx_write_page page_num data tx =
     (if \<not> is_active tx then (Err TxNotActive, tx)
      else (Ok (), tx\<lparr>tx_writes := hm_insert page_num data (tx_writes tx)\<rparr>))"

definition tx_write_document :: "string \<Rightarrow> string \<Rightarrow> page_num \<Rightarrow> transaction \<Rightarrow> unit res \<times> transaction" where
  "tx_write_document collection doc_id page_num tx =
     (if \<not> is_active tx then (Err TxNotActive, tx)
      else (Ok (), tx\<lparr>tx_doc_writes := doc_insert collection doc_id page_num (tx_doc_writes tx)\<rparr>))"

definition add_old_version :: "string \<Rightarrow> string \<Rightarrow> document_version \<Rightarrow> transaction \<Rightarrow> transaction" where
  "add_old_version collection doc_id version tx =
     tx\<lparr>tx_old_versions := doc_insert collection doc_id version (tx_old_versions tx)\<rparr>"

definition set_collection_root :: "string \<Rightarrow> page_num \<Rightarrow> transaction \<Rightarrow> transaction" where
  "set_collection_root collection new_root tx =
     tx\<lparr>tx_updated_roots := hm_insert collection new_root (tx_updated_roots tx),
        tx_modified_collections := List.insert collection (tx_modified_collections tx)\<rparr>"

definition get_snapshot_root :: "string \<Rightarrow> transaction \<Rightarrow> page_num option" where
  "get_snapshot_root collection tx =
     (case hm_get (tx_updated_roots tx) collection of
        Some root \<Rightarrow> Some root
      | None \<Rightarrow> hm_get (tx_snapshot_roots tx) collection)"

definition track_doc_existed_in_snapshot :: "string \<Rightarrow> string \<Rightarrow> bool \<Rightarrow> transaction \<Rightarrow> transaction" where
  "track_doc_existed_in_snapshot collection doc_id existed tx =
     tx\<lparr>tx_doc_existed := doc_or_insert collection doc_id existed (tx_doc_existed tx)\<rparr>"

definition track_doc_original_xmin :: "string \<Rightarrow> string \<Rightarrow> tx_id \<Rightarrow> transaction \<Rightarrow> transaction" where
  "track_doc_original_xmin collection doc_id xmin tx =
     tx\<lparr>tx_doc_original_xmin := doc_or_insert collection doc_id xmin (tx_doc_original_xmin tx)\<rparr>"

definition rollback :: "transaction \<times> 'n database \<Rightarrow> unit res \<times> transaction \<times> 'n database" where
  "rollback st =
     (case st of (tx, db) \<Rightarrow>
      if tx_state tx \<noteq> TxActive then (Err TxAlreadyDone, tx, db)
      else (Ok (), tx\<lparr>tx_writes := [], tx_doc_writes := [], tx_state := TxRolledBack\<rparr>,
            db\<lparr>db_tx_manager := abort_transaction (tx_mvcc_tx_id tx) (db_tx_manager db),
               db_metrics := transaction_aborted (db_metrics db)\<rparr>))"

text \<open>\<open>Drop for Transaction\<close>, which does not count the abort in the metrics.\<close>

definition drop_transaction :: "transaction \<times> 'n database \<Rightarrow> transaction \<times> 'n database" where
  "drop_transaction st =
     (case st of (tx, db) \<Rightarrow>
      if tx_state tx = TxActive then
        (tx\<lparr>tx_writes := [], tx_doc_writes := [], tx_state := TxRolledBack\<rparr>,
         db\<lparr>db_tx_manager := abort_transaction (tx_mvcc_tx_id tx) (db_tx_manager db)\<rparr>)
      else (tx, db))"

subsubsection \<open>Conflicts\<close>

text \<open>The committed version of a document: a search in the tree at a root with no writes of a transaction, and the document it leads to.\<close>

definition search_committed :: "nat \<Rightarrow> page_num \<Rightarrow> string \<Rightarrow> pager \<Rightarrow> page_num res \<times> pager" where
  "search_committed fuel root doc_id s =
     (case tx_search fuel doc_id (tx_btree_new root, [], s) of (r, _, _, s) \<Rightarrow> (r, s))"

definition existed_in_snapshot :: "bool by_doc \<Rightarrow> string \<Rightarrow> string \<Rightarrow> bool" where
  "existed_in_snapshot existed c d = (case doc_get existed c d of Some b \<Rightarrow> b | None \<Rightarrow> False)"

definition doc_write_conflict ::
    "nat \<Rightarrow> string \<Rightarrow> page_num \<Rightarrow> tx_id \<Rightarrow> bool by_doc \<Rightarrow> tx_id by_doc \<Rightarrow> string \<Rightarrow> pager \<Rightarrow> unit res \<times> pager" where
  "doc_write_conflict fuel c current_root snapshot_id existed xmins doc_id s =
     (if \<not> existed_in_snapshot existed c doc_id then (Ok (), s)
      else case doc_get xmins c doc_id of
        None \<Rightarrow> (Ok (), s)
      | Some orig_xmin \<Rightarrow>
          (case search_committed fuel current_root doc_id s of
             (Ok committed_page_num, s) \<Rightarrow>
               (case read_versioned_document committed_page_num [] s of
                  (Ok vdoc, s) \<Rightarrow>
                    if vd_xmin vdoc \<noteq> orig_xmin \<and> vd_xmin vdoc > snapshot_id then (Err TxConflict, s) else (Ok (), s)
                | (Err _, s) \<Rightarrow> (Err TxConflict, s)
                | (Panic, s) \<Rightarrow> (Panic, s))
           | (Err _, s) \<Rightarrow> (Err TxConflict, s)
           | (Panic, s) \<Rightarrow> (Panic, s)))"

definition detect_write_conflicts_with_context ::
    "nat \<Rightarrow> string \<Rightarrow> page_num \<Rightarrow> tx_id \<Rightarrow> page_num by_doc \<Rightarrow> bool by_doc \<Rightarrow> tx_id by_doc \<Rightarrow> pager \<Rightarrow> unit res \<times> pager" where
  "detect_write_conflicts_with_context fuel c current_root snapshot_id doc_writes existed xmins s =
     (let writes = docs_of doc_writes c in
      if writes = [] then (Ok (), s)
      else if \<not> list_ex (\<lambda>(doc_id, _). existed_in_snapshot existed c doc_id \<and> doc_get xmins c doc_id \<noteq> None) writes then (Ok (), s)
      else for_each (doc_write_conflict fuel c current_root snapshot_id existed xmins) (map fst writes) s)"

definition detect_write_conflicts :: "nat \<Rightarrow> string \<Rightarrow> page_num \<Rightarrow> transaction \<Rightarrow> pager \<Rightarrow> unit res \<times> pager" where
  "detect_write_conflicts fuel c current_root tx s =
     (let writes = docs_of (tx_doc_writes tx) c in
      if writes = [] then (Ok (), s)
      else if \<not> list_ex (\<lambda>(doc_id, _). existed_in_snapshot (tx_doc_existed tx) c doc_id \<and> doc_get (tx_doc_original_xmin tx) c doc_id \<noteq> None) writes then (Ok (), s)
      else for_each (doc_write_conflict fuel c current_root (tx_snapshot_id tx) (tx_doc_existed tx) (tx_doc_original_xmin tx)) (map fst writes) s)"

text \<open>Whether one document of a pending write conflicts with the committed state.\<close>

definition doc_level_conflict ::
    "nat \<Rightarrow> string \<Rightarrow> page_num \<Rightarrow> tx_id \<Rightarrow> bool by_doc \<Rightarrow> tx_id by_doc \<Rightarrow> string \<Rightarrow> pager \<Rightarrow> bool res \<times> pager" where
  "doc_level_conflict fuel c current_root snapshot_id existed xmins doc_id s =
     (if \<not> existed_in_snapshot existed c doc_id then
        (case search_committed fuel current_root doc_id s of
           (Ok committed_page, s) \<Rightarrow>
             (case read_versioned_document committed_page [] s of
                (Ok vdoc, s) \<Rightarrow> (Ok (vd_xmin vdoc > snapshot_id), s)
              | (Err _, s) \<Rightarrow> (Ok True, s)
              | (Panic, s) \<Rightarrow> (Panic, s))
         | (Err _, s) \<Rightarrow> (Ok False, s)
         | (Panic, s) \<Rightarrow> (Panic, s))
      else case doc_get xmins c doc_id of
        None \<Rightarrow> (Ok False, s)
      | Some orig_xmin \<Rightarrow>
          (case search_committed fuel current_root doc_id s of
             (Ok committed_page, s) \<Rightarrow>
               (case read_versioned_document committed_page [] s of
                  (Ok vdoc, s) \<Rightarrow> (Ok (vd_xmin vdoc \<noteq> orig_xmin \<and> vd_xmin vdoc > snapshot_id), s)
                | (Err _, s) \<Rightarrow> (Ok True, s)
                | (Panic, s) \<Rightarrow> (Panic, s))
           | (Err _, s) \<Rightarrow> (Ok True, s)
           | (Panic, s) \<Rightarrow> (Panic, s)))"

fun any_conflict :: "('d \<Rightarrow> 's \<Rightarrow> bool res \<times> 's) \<Rightarrow> 'd list \<Rightarrow> 's \<Rightarrow> bool res \<times> 's" where
  "any_conflict f [] s = (Ok False, s)"
| "any_conflict f (d # ds) s = and_then (f d s) (\<lambda>b s. if b then (Ok True, s) else any_conflict f ds s)"

definition detect_document_level_conflicts ::
    "nat \<Rightarrow> string \<Rightarrow> page_num \<Rightarrow> tx_id \<Rightarrow> page_num by_doc \<Rightarrow> bool by_doc \<Rightarrow> tx_id by_doc \<Rightarrow> pager \<Rightarrow> bool res \<times> pager" where
  "detect_document_level_conflicts fuel c current_root snapshot_id doc_writes existed xmins s =
     (let writes = docs_of doc_writes c in
      if writes = [] then (Ok False, s)
      else any_conflict (doc_level_conflict fuel c current_root snapshot_id existed xmins) (map fst writes) s)"

definition root_in :: "(string, page_num) hmap \<Rightarrow> string \<Rightarrow> page_num" where
  "root_in roots c = (case hm_get roots c of Some r \<Rightarrow> r | None \<Rightarrow> 0)"

definition validate_collection :: "'n env \<Rightarrow> pending_write \<Rightarrow> string \<Rightarrow> 'n database \<Rightarrow> unit res \<times> 'n database" where
  "validate_collection E pw c db =
     (let current_root = collection_root (db_metadata db) c in
      if current_root \<noteq> root_in (pw_snapshot_roots pw) c then
        and_then (db_on_pager (detect_document_level_conflicts (en_fuel E) c current_root (pw_snapshot_id pw)
            (pw_doc_writes pw) (pw_doc_existed pw) (pw_doc_original_xmin pw)) db) (\<lambda>has_doc_conflict db.
          if has_doc_conflict then (Err TxConflict, db) else (Ok (), db))
      else db_on_pager (detect_write_conflicts_with_context (en_fuel E) c current_root (pw_snapshot_id pw)
            (pw_doc_writes pw) (pw_doc_existed pw) (pw_doc_original_xmin pw)) db)"

text \<open>Its result \<open>needs_rebase\<close> is not used by the caller.\<close>

definition validate_pending_write :: "'n env \<Rightarrow> pending_write \<Rightarrow> 'n database \<Rightarrow> unit res \<times> 'n database" where
  "validate_pending_write E pw db = for_each (validate_collection E pw) (pw_modified_collections pw) db"

subsubsection \<open>Batches\<close>

definition prepare_write_request :: "transaction \<Rightarrow> pending_write" where
  "prepare_write_request tx =
     \<lparr>pw_writes = tx_writes tx, pw_doc_writes = tx_doc_writes tx, pw_snapshot_roots = tx_snapshot_roots tx,
      pw_updated_roots = tx_updated_roots tx, pw_old_versions = tx_old_versions tx,
      pw_modified_collections = tx_modified_collections tx, pw_doc_existed = tx_doc_existed tx,
      pw_doc_original_xmin = tx_doc_original_xmin tx, pw_snapshot_id = tx_snapshot_id tx, pw_mvcc_tx_id = tx_mvcc_tx_id tx\<rparr>"

text \<open>The pairs of collection and document that a pending write changes, in the order of the iteration.\<close>

definition written_docs :: "pending_write \<Rightarrow> (string \<times> string) list" where
  "written_docs pw = concat (map (\<lambda>(c, docs). map (\<lambda>(d, _). (c, d)) docs) (pw_doc_writes pw))"

text \<open>
  The loop of \<open>collect_batch\<close>. \<open>arrivals\<close> are the requests that other threads queue during each of its short sleeps; when it is used up, the time is over.
\<close>

function collect_loop ::
    "nat \<Rightarrow> pending_write list list \<Rightarrow> pending_write list \<Rightarrow> pending_write list \<Rightarrow> (string \<times> string) set
     \<Rightarrow> pending_write list res \<times> pending_write list \<times> pending_write list list" where
  "collect_loop max_size arrivals queue batch docs =
     (case queue of
        p # rest \<Rightarrow>
          if list_ex (\<lambda>k. k \<in> docs) (written_docs p) then (Ok batch, p # rest, arrivals)
          else
            let batch = batch @ [p] in
            if length batch \<ge> max_size then (Ok batch, rest, arrivals)
            else collect_loop max_size arrivals rest batch (docs \<union> set (written_docs p))
      | [] \<Rightarrow>
          if batch = [] then (Err (Other ''batch collection failed: empty batch''), [], arrivals)
          else case arrivals of
            [] \<Rightarrow> (Ok batch, [], [])
          | new # later \<Rightarrow> collect_loop max_size later new batch docs)"
  by pat_completeness auto
termination
  by (relation "measures [\<lambda>(m, arrivals, queue, batch, docs). length arrivals, \<lambda>(m, arrivals, queue, batch, docs). length queue]") auto

declare collect_loop.simps [simp del]

definition collect_batch ::
    "pending_write list list \<Rightarrow> 'n database \<Rightarrow> pending_write list res \<times> 'n database \<times> pending_write list list" where
  "collect_batch arrivals db =
     (case collect_loop (bc_max_batch_size (db_batch_config db)) arrivals (db_pending_writes db) [] {} of
        (r, queue, arrivals) \<Rightarrow> (r, db\<lparr>db_pending_writes := queue\<rparr>, arrivals))"

fun check_docs :: "(string \<times> string) list \<Rightarrow> (string \<times> string) set \<Rightarrow> (string \<times> string) set res" where
  "check_docs [] seen = Ok seen"
| "check_docs (k # ks) seen = (if k \<in> seen then Err (Other ''Batch conflict'') else check_docs ks (insert k seen))"

fun check_batch :: "pending_write list \<Rightarrow> (string \<times> string) set \<Rightarrow> unit res" where
  "check_batch [] seen = Ok ()"
| "check_batch (p # ps) seen = res_bind (check_docs (written_docs p) seen) (\<lambda>seen. check_batch ps seen)"

definition check_batch_conflicts :: "pending_write list \<Rightarrow> unit res" where
  "check_batch_conflicts batch = check_batch batch {}"

definition page_max :: page_num where
  "page_max = - 1"

text \<open>The two loops of \<open>rebase_single_collection\<close>.\<close>

definition reinsert :: "nat \<Rightarrow> string \<times> page_num \<Rightarrow> tb_state \<Rightarrow> unit res \<times> tb_state" where
  "reinsert fuel e st = (if snd e \<noteq> page_max then Tx_Btree.tx_insert fuel (fst e) (snd e) st else (Ok (), st))"

definition redelete :: "nat \<Rightarrow> string \<times> page_num \<Rightarrow> tb_state \<Rightarrow> unit res \<times> tb_state" where
  "redelete fuel e st = (if snd e = page_max then tx_delete fuel (fst e) st else (Ok (), st))"

definition rebase_single_collection ::
    "nat \<Rightarrow> string \<Rightarrow> page_num \<Rightarrow> pending_write \<Rightarrow> pager \<Rightarrow> pending_write res \<times> pager" where
  "rebase_single_collection fuel c current_root pw s =
     (let docs = docs_of (pw_doc_writes pw) c in
      case and_then (for_each (reinsert fuel) docs (tx_btree_new current_root, pw_writes pw, s)) (\<lambda>_ st. for_each (redelete fuel) docs st) of
        (Ok _, tb, w, s) \<Rightarrow>
          (Ok (pw\<lparr>pw_writes := fold (\<lambda>(p, d) m. hm_insert p d m) w (pw_writes pw),
                  pw_updated_roots := hm_insert c (get_current_root tb) (pw_updated_roots pw)\<rparr>), s)
      | (Err e, _, _, s) \<Rightarrow> (Err e, s)
      | (Panic, _, _, s) \<Rightarrow> (Panic, s))"

subsubsection \<open>The commit of a batch\<close>

definition log_page :: "'n env \<Rightarrow> tx_id \<Rightarrow> page_num \<times> bytes \<Rightarrow> 'n database \<Rightarrow> unit res \<times> 'n database" where
  "log_page E t e db = db_on_wal (write_frame t (fst e) (snd e) (en_now E)) db"

text \<open>Phase 4 for one collection of one transaction.\<close>

definition apply_collection :: "'n env \<Rightarrow> string \<Rightarrow> pending_write \<times> 'n database \<Rightarrow> unit res \<times> pending_write \<times> 'n database" where
  "apply_collection E c st =
     (case st of (pw, db) \<Rightarrow>
      let current_root = collection_root (db_metadata db) c;
          finish = (\<lambda>pw db.
            let new_root = (case hm_get (pw_updated_roots pw) c of Some r \<Rightarrow> r | None \<Rightarrow> current_root)
            in (Ok (), pw, if new_root \<noteq> current_root then update_metadata_no_flush (set_root c new_root) db else db))
      in if current_root \<noteq> root_in (pw_snapshot_roots pw) c then
           (case db_on_pager (rebase_single_collection (en_fuel E) c current_root pw) db of
              (Ok pw', db) \<Rightarrow>
                (case for_each (log_page E (pw_mvcc_tx_id pw)) (filter (\<lambda>(p, _). \<not> hm_contains (pw_writes pw) p) (pw_writes pw')) db of
                   (Ok _, db) \<Rightarrow> finish pw' db
                 | (Err e, db) \<Rightarrow> (Err e, pw', db)
                 | (Panic, db) \<Rightarrow> (Panic, pw', db))
            | (Err e, db) \<Rightarrow> (Err e, pw, db)
            | (Panic, db) \<Rightarrow> (Panic, pw, db))
         else finish pw db)"

fun apply_batch :: "'n env \<Rightarrow> pending_write list \<Rightarrow> 'n database \<Rightarrow> pending_write list res \<times> 'n database" where
  "apply_batch E [] db = (Ok [], db)"
| "apply_batch E (pw # batch) db =
     (case for_each (apply_collection E) (pw_modified_collections pw) (pw, db) of
        (Ok _, pw, db) \<Rightarrow> and_then (apply_batch E batch db) (\<lambda>batch db. (Ok (pw # batch), db))
      | (Err e, _, db) \<Rightarrow> (Err e, db)
      | (Panic, _, db) \<Rightarrow> (Panic, db))"

text \<open>The metadata page and the header, logged and written; \<open>t\<close> is the transaction id of the frames.\<close>

definition commit_metadata :: "'n env \<Rightarrow> tx_id \<Rightarrow> 'n database \<Rightarrow> unit res \<times> 'n database" where
  "commit_metadata E t db =
     and_then (metadata_serialize (en_codec E) (db_metadata db), db) (\<lambda>meta_data db.
     let meta_data = pad_page meta_data in
     and_then (if pg_metadata_page (db_pager db) = 0 then db_on_pager alloc_page db else (Ok (pg_metadata_page (db_pager db)), db)) (\<lambda>meta_page db.
     and_then (log_page E t (meta_page, meta_data) db) (\<lambda>_ db.
     and_then (db_on_pager (write_page_transfer meta_page meta_data) db) (\<lambda>_ db.
     and_then (get_header_data (db_pager db), db) (\<lambda>header_data db.
     and_then (no_panic (put_bytes 24 (u64_to_le meta_page) header_data), db) (\<lambda>header_data db.
     and_then (log_page E t (0, header_data) db) (\<lambda>_ db.
     and_then (db_on_pager (set_metadata_page meta_page) db) (\<lambda>_ db.
     and_then (db_on_pager (set_next_transaction_id (t + 1)) db) (\<lambda>_ db.
     db_on_pager write_header_no_sync db)))))))))"

definition transfer_page :: "page_num \<times> bytes \<Rightarrow> 'n database \<Rightarrow> unit res \<times> 'n database" where
  "transfer_page e db = db_on_pager (write_page_transfer (fst e) (snd e)) db"

definition add_old_versions :: "tx_id \<Rightarrow> document_version by_doc \<Rightarrow> version_chain by_doc \<Rightarrow> version_chain by_doc" where
  "add_old_versions t versions vcs =
     fold (\<lambda>(c, docs) vcs. fold (\<lambda>(d, v) vcs.
       doc_insert c d (add_version (v\<lparr>dv_xmax := t\<rparr>) (case doc_get vcs c d of Some ch \<Rightarrow> ch | None \<Rightarrow> vc_new d)) vcs) docs
         (if hm_contains vcs c then vcs else hm_insert c [] vcs)) versions vcs"

text \<open>The event of one document; the document is read for the event only if its page is among the writes.\<close>

definition document_for_event :: "'n env \<Rightarrow> page_writes \<Rightarrow> page_num \<Rightarrow> 'n database \<Rightarrow> 'n json option res \<times> 'n database" where
  "document_for_event E w page_num db =
     (case db_on_pager (read_versioned_document page_num w) db of
        (Ok vdoc, db) \<Rightarrow> (Ok (en_from_slice E (vd_data vdoc)), db)
      | (Err _, db) \<Rightarrow> (Ok None, db)
      | (Panic, db) \<Rightarrow> (Panic, db))"

definition event_operation :: "bool by_doc \<Rightarrow> string \<Rightarrow> string \<Rightarrow> change_operation" where
  "event_operation existed c d = (case doc_get existed c d of Some True \<Rightarrow> Update | _ \<Rightarrow> Insert)"

definition emit_to_watchers :: "'n env \<Rightarrow> string \<Rightarrow> change_operation \<Rightarrow> string \<Rightarrow> 'n json option \<Rightarrow> 'n database \<Rightarrow> 'n database" where
  "emit_to_watchers E c operation d document db =
     (case emit_change (en_unicode E) (en_numbers E) c operation d document (db_watchers db, db_channels db) of
        (ws, chs) \<Rightarrow> db\<lparr>db_watchers := ws, db_channels := chs\<rparr>)"

definition emit_pending_doc :: "'n env \<Rightarrow> pending_write \<Rightarrow> string \<Rightarrow> string \<times> page_num \<Rightarrow> 'n database \<Rightarrow> unit res \<times> 'n database" where
  "emit_pending_doc E pw c e db =
     and_then (if hm_contains (pw_writes pw) (snd e) then document_for_event E (pw_writes pw) (snd e) db else (Ok None, db)) (\<lambda>document db.
     (Ok (), emit_to_watchers E c (event_operation (pw_doc_existed pw) c (fst e)) (fst e) document db))"

definition emit_pending :: "'n env \<Rightarrow> pending_write \<Rightarrow> 'n database \<Rightarrow> unit res \<times> 'n database" where
  "emit_pending E pw db = for_each (\<lambda>(c, docs). for_each (emit_pending_doc E pw c) docs) (pw_doc_writes pw) db"

text \<open>A batch is never empty, so the default of the source, the id of the leader, is not reached.\<close>

definition max_tx_id :: "pending_write list \<Rightarrow> tx_id" where
  "max_tx_id batch = fold (\<lambda>p m. max (pw_mvcc_tx_id p) m) batch 0"

definition execute_batch_commit :: "'n env \<Rightarrow> pending_write list \<Rightarrow> 'n database \<Rightarrow> unit res \<times> 'n database" where
  "execute_batch_commit E batch db =
     and_then (for_each (validate_pending_write E) batch db) (\<lambda>_ db.
     and_then (check_batch_conflicts batch, db) (\<lambda>_ db.
     and_then (for_each (\<lambda>pw. for_each (log_page E (pw_mvcc_tx_id pw)) (pw_writes pw)) batch db) (\<lambda>_ db.
     and_then (apply_batch E batch db) (\<lambda>batch db.
     and_then (commit_metadata E (max_tx_id batch) db) (\<lambda>_ db.
     and_then (db_on_wal wal_sync db) (\<lambda>_ db.
     and_then (for_each (\<lambda>pw. for_each transfer_page (pw_writes pw)) batch db) (\<lambda>_ db.
     and_then (db_on_pager flush_no_sync db) (\<lambda>_ db.
     and_then (db_on_pager sync_data_only db) (\<lambda>_ db.
     let db = db\<lparr>db_tx_manager := fold (\<lambda>pw. commit_transaction (pw_mvcc_tx_id pw)) batch (db_tx_manager db)\<rparr>;
         db = db\<lparr>db_version_chains := fold (\<lambda>pw. add_old_versions (pw_mvcc_tx_id pw) (pw_old_versions pw)) batch (db_version_chains db)\<rparr>
     in for_each (emit_pending E) batch db)))))))))"

text \<open>\<open>maybe_auto_checkpoint\<close> starts the checkpoint in a thread of its own.\<close>

definition maybe_auto_checkpoint :: "'n database \<Rightarrow> 'n database" where
  "maybe_auto_checkpoint db =
     (if db_auto_checkpoint_threshold db = 0 \<or> frame_count (db_wal db) < db_auto_checkpoint_threshold db \<or> db_checkpoint_in_progress db then db
      else db\<lparr>db_checkpoint_in_progress := True\<rparr>)"

definition checkpoint_thread :: "'n env \<Rightarrow> 'n database \<Rightarrow> 'n database" where
  "checkpoint_thread E db =
     (case wal_checkpoint (en_now E) (db_wal db, db_pager db) of
        (_, w, s) \<Rightarrow> db\<lparr>db_wal := w, db_pager := s, db_checkpoint_in_progress := False\<rparr>)"

text \<open>
  The loop of the leader, which holds \<open>commit_mu\<close>. A round lists what other threads queue during its sleeps, what they queue before its last look at the queue, and the time it takes.
\<close>

record round =
  rd_arrivals :: "pending_write list list"
  rd_late :: "pending_write list"
  rd_micros :: u64

definition finish_batch :: "pending_write list \<Rightarrow> unit res \<Rightarrow> u64 \<Rightarrow> 'n database \<Rightarrow> 'n database" where
  "finish_batch batch batch_result micros db =
     (let db = db\<lparr>db_completions := fold (\<lambda>pw. hm_insert (pw_mvcc_tx_id pw) batch_result) batch (db_completions db)\<rparr>;
          db = db\<lparr>db_metrics := transaction_committed (batch_committed (word_of_nat (length batch)) micros (db_metrics db))\<rparr>
      in maybe_auto_checkpoint db)"


subsubsection \<open>The commit of a single transaction\<close>

type_synonym 'n tx_db = "transaction \<times> 'n database"

definition on_db :: "('n database \<Rightarrow> 'a res \<times> 'n database) \<Rightarrow> 'n tx_db \<Rightarrow> 'a res \<times> 'n tx_db" where
  "on_db f st = (case st of (tx, db) \<Rightarrow> case f db of (r, db) \<Rightarrow> (r, tx, db))"

text \<open>The prefix of the keys of an index that hold the values of a document.\<close>

definition unique_prefix :: "'n env \<Rightarrow> (ustring \<times> 'n json) list \<Rightarrow> ustring list \<Rightarrow> string" where
  "unique_prefix E doc fs = utf8 (join_bar (map (en_to_text E) (extract_field_values doc fs)) @ [BAR])"

fun scan_prefix :: "nat \<Rightarrow> string \<Rightarrow> btree_iterator \<Rightarrow> bt_state \<Rightarrow> bool res \<times> bt_state" where
  "scan_prefix 0 pre it st = (Panic, st)"
| "scan_prefix (Suc fuel) pre it st =
     and_then (iterator_next it st) (\<lambda>(more, it) st.
       if \<not> more then (Ok False, st)
       else and_then (no_panic (iterator_entry it), st) (\<lambda>(key, _) st.
         if take (length pre) key = pre then (Ok True, st) else scan_prefix fuel pre it st))"

definition check_unique_doc :: "'n env \<Rightarrow> transaction \<Rightarrow> string \<Rightarrow> index_meta \<Rightarrow> string \<times> page_num \<Rightarrow> pager \<Rightarrow> unit res \<times> pager" where
  "check_unique_doc E tx c m e s =
     (if existed_in_snapshot (tx_doc_existed tx) c (fst e) then (Ok (), s)
      else and_then (read_versioned_document (snd e) (tx_writes tx) s) (\<lambda>vdoc s.
        case en_from_slice E (vd_data vdoc) of
          Some (JObject doc_map) \<Rightarrow>
            (case and_then (btree_iterator_new (en_fuel E) (btree_open (im_btree_root m), s))
                    (\<lambda>it st. scan_prefix (en_fuel E) (unique_prefix E doc_map (get_fields m)) it st) of
               (Ok has_conflict, _, s) \<Rightarrow> (if has_conflict then Err (Other ''unique constraint violation'') else Ok (), s)
             | (Err e, _, s) \<Rightarrow> (Err e, s)
             | (Panic, _, s) \<Rightarrow> (Panic, s))
        | _ \<Rightarrow> (Err json_error, s)))"

definition validate_unique_constraints_for_collection :: "'n env \<Rightarrow> string \<Rightarrow> 'n tx_db \<Rightarrow> unit res \<times> 'n tx_db" where
  "validate_unique_constraints_for_collection E c st =
     (case st of (tx, db) \<Rightarrow>
      case hm_get (tx_doc_writes tx) c of
        None \<Rightarrow> (Ok (), st)
      | Some docs \<Rightarrow>
          (case hm_get (md_collections (db_metadata db)) c of
             None \<Rightarrow> (Ok (), st)
           | Some meta \<Rightarrow>
               on_db (for_each (\<lambda>(_, m) db.
                 if \<not> im_unique m \<or> im_btree_root m = 0 then (Ok (), db)
                 else for_each (\<lambda>e. db_on_pager (check_unique_doc E tx c m e)) docs db) (cm_indexes meta)) st))"

text \<open>A page of a document that another transaction has overwritten is written again to a new page.\<close>

definition remap_page :: "page_writes \<Rightarrow> string \<times> page_num \<Rightarrow> (page_num, page_num) hmap \<times> 'n tx_db \<Rightarrow> unit res \<times> (page_num, page_num) hmap \<times> 'n tx_db" where
  "remap_page saved e st =
     (case st of (remap, tx, db) \<Rightarrow>
      case db_on_pager (read_page (snd e)) db of
        (Panic, db) \<Rightarrow> (Panic, remap, tx, db)
      | (Err _, db) \<Rightarrow> (Ok (), remap, tx, db)
      | (Ok _, db) \<Rightarrow>
        (case db_on_pager (read_versioned_document (snd e) (tx_writes tx)) db of
           (Panic, db) \<Rightarrow> (Panic, remap, tx, db)
         | (Err _, db) \<Rightarrow> (Ok (), remap, tx, db)
         | (Ok current_doc, db) \<Rightarrow>
             if vd_xmin current_doc = tx_mvcc_tx_id tx then (Ok (), remap, tx, db)
             else
               (case db_on_pager alloc_page db of
                  (Ok new_page_num, db) \<Rightarrow>
                    (case hm_get saved (snd e) of
                       None \<Rightarrow> (Ok (), remap, tx, db)
                     | Some our_page_data \<Rightarrow>
                         (case db_on_pager (write_page_transfer new_page_num our_page_data) db of
                            (Ok _, db) \<Rightarrow>
                              (Ok (), hm_insert (snd e) new_page_num remap,
                               tx\<lparr>tx_writes := hm_remove (snd e) (hm_insert new_page_num our_page_data (tx_writes tx))\<rparr>, db)
                          | (Err x, db) \<Rightarrow> (Err x, remap, tx, db)
                          | (Panic, db) \<Rightarrow> (Panic, remap, tx, db)))
                | (Err x, db) \<Rightarrow> (Err x, remap, tx, db)
                | (Panic, db) \<Rightarrow> (Panic, remap, tx, db))))"

text \<open>\<open>if !writes.contains_key(p) { if let Ok(d) = pager.read_page(p) { writes.insert(p, d) } }\<close>\<close>

definition keep_page :: "page_num \<Rightarrow> 'n tx_db \<Rightarrow> unit res \<times> 'n tx_db" where
  "keep_page p st =
     (case st of (tx, db) \<Rightarrow>
      if hm_contains (tx_writes tx) p then (Ok (), st)
      else case db_on_pager (read_page p) db of
        (Ok d, db) \<Rightarrow> (Ok (), tx\<lparr>tx_writes := hm_insert p d (tx_writes tx)\<rparr>, db)
      | (Err _, db) \<Rightarrow> (Ok (), tx, db)
      | (Panic, db) \<Rightarrow> (Panic, tx, db))"

definition rebase_tree :: "'n env \<Rightarrow> page_num \<Rightarrow> (string \<times> page_num) list \<Rightarrow> 'n tx_db \<Rightarrow> tx_btree res \<times> 'n tx_db" where
  "rebase_tree E current_root docs st =
     (case st of (tx, db) \<Rightarrow>
      case for_each (\<lambda>(d, p). Tx_Btree.tx_insert (en_fuel E) d p) docs (tx_btree_new current_root, tx_writes tx, db_pager db) of
        (r, tb, w, s) \<Rightarrow> (res_bind r (\<lambda>_. Ok tb), tx\<lparr>tx_writes := w\<rparr>, db\<lparr>db_pager := s\<rparr>))"

definition rebase_collection :: "'n env \<Rightarrow> string \<Rightarrow> page_num \<Rightarrow> 'n tx_db \<Rightarrow> unit res \<times> 'n tx_db" where
  "rebase_collection E c current_root st =
     (let saved = tx_writes (fst st) in
      and_then (on_db (db_on_wal (refresh_frame_count (en_now E))) st) (\<lambda>_ st.
      and_then (validate_unique_constraints_for_collection E c st) (\<lambda>_ st.
      let written = docs_of (tx_doc_writes (fst st)) c in
      case for_each (remap_page saved) written ([], st) of
        (Err x, _, st) \<Rightarrow> (Err x, st)
      | (Panic, _, st) \<Rightarrow> (Panic, st)
      | (Ok _, remap, st) \<Rightarrow>
          let docs = map (\<lambda>(d, p). (d, case hm_get remap p of Some q \<Rightarrow> q | None \<Rightarrow> p)) written in
          and_then (for_each keep_page (map snd docs) st) (\<lambda>_ st.
          and_then (rebase_tree E current_root docs st) (\<lambda>tb st.
          let tx = fst st;
              tx = (if hm_contains (tx_doc_writes tx) c
                    then tx\<lparr>tx_doc_writes := fold (\<lambda>(d, p). doc_insert c d p) docs (tx_doc_writes tx)\<rparr> else tx)
          in and_then (for_each keep_page (map snd (tb_cow_pages tb) @ map fst (tb_new_pages tb)) (tx, snd st)) (\<lambda>_ st.
             (Ok (), fst st, update_metadata_no_flush (set_root c (get_current_root tb)) (snd st))))))))"

definition commit_collection :: "'n env \<Rightarrow> string \<Rightarrow> 'n tx_db \<Rightarrow> unit res \<times> 'n tx_db" where
  "commit_collection E c st =
     (case st of (tx, db) \<Rightarrow>
      let current_root = collection_root (db_metadata db) c in
      if current_root = root_in (tx_snapshot_roots tx) c then
        (case hm_get (tx_updated_roots tx) c of
           Some new_btree_root \<Rightarrow> (Ok (), tx, update_metadata_no_flush (set_root c new_btree_root) db)
         | None \<Rightarrow> (Ok (), st))
      else rebase_collection E c current_root st)"

definition detect_all :: "'n env \<Rightarrow> transaction \<Rightarrow> 'n database \<Rightarrow> unit res \<times> 'n database" where
  "detect_all E tx db =
     for_each (\<lambda>c db. db_on_pager (detect_write_conflicts (en_fuel E) c (collection_root (db_metadata db) c) tx) db) (tx_modified_collections tx) db"

definition emit_doc :: "'n env \<Rightarrow> transaction \<Rightarrow> string \<Rightarrow> string \<times> page_num \<Rightarrow> 'n database \<Rightarrow> unit res \<times> 'n database" where
  "emit_doc E tx c e db =
     and_then (document_for_event E (tx_writes tx) (snd e) db) (\<lambda>document db.
     (Ok (), emit_to_watchers E c (event_operation (tx_doc_existed tx) c (fst e)) (fst e) document db))"

text \<open>What \<open>commit_single\<close> does while it holds \<open>commit_mu\<close>, after it has looked for conflicts without it.\<close>

definition commit_locked :: "'n env \<Rightarrow> 'n tx_db \<Rightarrow> unit res \<times> 'n tx_db" where
  "commit_locked E st =
     and_then (on_db (for_each (\<lambda>e db. and_then (log_page E (tx_mvcc_tx_id (fst st)) e db) (\<lambda>_ db. transfer_page e db)) (tx_writes (fst st))) st) (\<lambda>_ st.
     and_then (on_db (db_on_wal (refresh_frame_count (en_now E))) st) (\<lambda>_ st.
     and_then (for_each (commit_collection E) (tx_modified_collections (fst st)) st) (\<lambda>_ st.
     and_then (on_db (commit_metadata E (tx_mvcc_tx_id (fst st))) st) (\<lambda>_ st.
     and_then (on_db (db_on_wal wal_sync) st) (\<lambda>_ st.
     and_then (on_db (db_on_pager flush_no_sync) st) (\<lambda>_ st.
     and_then (on_db (db_on_pager sync_data_only) st) (\<lambda>_ st.
     let tx = (fst st)\<lparr>tx_state := TxCommitted\<rparr>;
         db = snd st;
         db = db\<lparr>db_tx_manager := commit_transaction (tx_mvcc_tx_id tx) (db_tx_manager db)\<rparr>;
         db = maybe_auto_checkpoint (db\<lparr>db_metrics := transaction_committed (db_metrics db)\<rparr>);
         db = db\<lparr>db_version_chains := add_old_versions (tx_mvcc_tx_id tx) (tx_old_versions tx) (db_version_chains db)\<rparr>
     in on_db (for_each (\<lambda>(c, docs). for_each (emit_doc E tx c) docs) (tx_doc_writes tx)) (tx, db))))))))"

definition commit_single :: "'n env \<Rightarrow> 'n tx_db \<Rightarrow> unit res \<times> 'n tx_db" where
  "commit_single E st = and_then (on_db (detect_all E (fst st)) st) (\<lambda>_ st. commit_locked E st)"

subsection \<open>A sample\<close>

definition sample_env :: "nat env" where
  "sample_env = \<lparr>en_codec = sample_codec, en_from_slice = \<lambda>_. None, en_to_text = \<lambda>_. [], en_unicode = no_unicode, en_numbers = nat_order_numbers,
     en_fuel = 100, en_now = 0\<rparr>"

definition sample_database :: "pager \<Rightarrow> wal \<Rightarrow> nat metadata \<Rightarrow> nat database" where
  "sample_database s w md = database_with ''sample.db'' database_options_default s w md tm_new"

end
