(* ===== verification/Tx_Commit.thy ===== *)
theory Tx_Commit
  imports Transaction
begin

text \<open>
  Properties of transactions: what a commit leaves alone, the batches that the leader of a commit takes from the queue, and the outcomes of a commit.
\<close>

subsection \<open>What a step leaves alone\<close>

text \<open>The interface of a relation between the states before and after a call that holds along every sequence of calls.\<close>

locale frame =
  fixes R :: "'s \<Rightarrow> 's \<Rightarrow> bool"
  assumes R_refl: "R s s" and R_trans: "R s t \<Longrightarrow> R t u \<Longrightarrow> R s u"
begin

lemma and_then: "R s (snd m) \<Longrightarrow> (\<And>x t. R t (snd (f x t))) \<Longrightarrow> R s (snd (and_then m f))"
  by (cases m; cases "fst m") (auto intro: R_trans)

lemma for_each: "(\<And>x t. R t (snd (f x t))) \<Longrightarrow> R s (snd (for_each f xs s))"
  by (induction xs arbitrary: s) (auto intro: R_refl and_then)

end

text \<open>A loop whose steps fail for some elements, all with the same error.\<close>

lemma for_each_fails:
  assumes "I s" "\<And>s t. I s \<Longrightarrow> R s t \<Longrightarrow> I t" "\<And>s. I s \<Longrightarrow> R s s" "\<And>s t u. R s t \<Longrightarrow> R t u \<Longrightarrow> R s u"
    and "\<And>x s. x \<in> set xs \<Longrightarrow> I s \<Longrightarrow> \<exists>s'. f x s = (if P x then Err e else Ok (), s') \<and> R s s'"
  shows "\<exists>s'. for_each f xs s = (if \<exists>x \<in> set xs. P x then Err e else Ok (), s') \<and> R s s'"
  using assms(1,5)
proof (induction xs arbitrary: s)
  case Nil
  then show ?case using assms(3) by simp
next
  case (Cons x xs)
  obtain s1 where s1: "f x s = (if P x then Err e else Ok (), s1)" "R s s1" using Cons.prems by (meson list.set_intros(1))
  have "\<exists>s'. for_each f xs s1 = (if \<exists>x \<in> set xs. P x then Err e else Ok (), s') \<and> R s1 s'"
    using Cons.prems(2) by (intro Cons.IH assms(2) [OF Cons.prems(1) s1(2)]) auto
  then show ?case using s1 assms(4) [OF s1(2)] by (cases "P x") auto
qed

lemma for_each_Ok:
  assumes "I s" "\<And>s t. I s \<Longrightarrow> R s t \<Longrightarrow> I t" "\<And>s. I s \<Longrightarrow> R s s" "\<And>s t u. R s t \<Longrightarrow> R t u \<Longrightarrow> R s u"
    and "\<And>x s. x \<in> set xs \<Longrightarrow> I s \<Longrightarrow> \<exists>s'. f x s = (Ok (), s') \<and> R s s'"
  shows "\<exists>s'. for_each f xs s = (Ok (), s') \<and> R s s'"
  using for_each_fails [where I = I and R = R and P = "\<lambda>_. False" and xs = xs and f = f, OF assms(1-4)] assms(5) by simp

text \<open>Reading pages and documents changes neither the file nor the allocation.\<close>

definition only_reads :: "pager \<Rightarrow> pager \<Rightarrow> bool" where
  "only_reads s t \<longleftrightarrow> same_alloc s t \<and> pg_file t = pg_file s"

interpretation reads: frame only_reads
  by unfold_locales (auto simp: only_reads_def intro: same_alloc_trans)

lemma read_page_only: "only_reads s (snd (read_page p s))"
  unfolding read_page_def read_page_miss_def with_cache_def
  by (auto simp: and_then_def only_reads_def same_alloc_def with_metrics_def split: option.splits prod.splits res.splits)

lemma fetch_page_only: "only_reads s (snd (fetch_page tw p s))"
  by (auto simp: fetch_page_def read_page_only reads.R_refl split: option.split)

lemma read_chain_only: "only_reads s (snd (read_versioned_chain left visited tw n cur data s))"
proof (induction left arbitrary: visited cur data s)
  case 0
  then show ?case by (subst read_versioned_chain.simps) (simp add: reads.R_refl)
next
  case (Suc left)
  show ?case
    unfolding read_versioned_chain.simps [of "Suc left"] Let_def
    by (auto intro!: reads.and_then fetch_page_only Suc simp: reads.R_refl)
qed

lemma read_versioned_only: "only_reads s (snd (read_versioned_document p tw s))"
  unfolding read_versioned_document_def Let_def
  by (auto intro!: reads.and_then fetch_page_only read_chain_only simp: reads.R_refl simp del: read_versioned_chain.simps split: option.split)

text \<open>Such a relation on databases that ignores the pager, the log, the transaction manager, the version chains, the change streams and the roots of the trees.\<close>

locale commit_frame = frame R for R :: "'n database \<Rightarrow> 'n database \<Rightarrow> bool" +
  assumes R_pager: "R db (db\<lparr>db_pager := s\<rparr>)"
    and R_wal: "R db (db\<lparr>db_wal := w\<rparr>)"
    and R_manager: "R db (db\<lparr>db_tx_manager := m\<rparr>)"
    and R_chains: "R db (db\<lparr>db_version_chains := vcs\<rparr>)"
    and R_streams: "R db (db\<lparr>db_watchers := ws, db_channels := chs\<rparr>)"
    and R_root: "R db (update_metadata_no_flush (set_root c r) db)"
begin

lemma on_pager: "R db (snd (db_on_pager f db))"
  by (auto simp: db_on_pager_def R_pager split: prod.split)

lemma on_wal: "R db (snd (db_on_wal f db))"
  by (auto simp: db_on_wal_def R_wal split: prod.split)

lemma log_page: "R db (snd (log_page E t e db))"
  by (simp add: log_page_def on_wal)

lemma transfer_page: "R db (snd (transfer_page e db))"
  by (simp add: transfer_page_def on_pager)

lemma validate_pending_write: "R db (snd (validate_pending_write E pw db))"
  unfolding validate_pending_write_def validate_collection_def Let_def
  by (auto intro!: for_each and_then on_pager simp: R_refl)

lemma commit_metadata: "R db (snd (commit_metadata E t db))"
  unfolding commit_metadata_def Let_def
  by (auto intro!: and_then on_pager log_page simp: R_refl)

lemma document_for_event: "R db (snd (document_for_event E w p db))"
  using on_pager [of db "read_versioned_document p w"] unfolding document_for_event_def
  by (cases "db_on_pager (read_versioned_document p w) db"; cases "fst (db_on_pager (read_versioned_document p w) db)") auto

lemma emit_to_watchers: "R db (emit_to_watchers E c op d doc db)"
  by (auto simp: emit_to_watchers_def R_streams split: prod.split)

lemma emit_pending: "R db (snd (emit_pending E pw db))"
  unfolding emit_pending_def emit_pending_doc_def
  by (auto intro!: for_each and_then document_for_event emit_to_watchers simp: R_refl split: prod.split)

lemma apply_collection: "R db (snd (snd (apply_collection E c (pw, db))))"
proof -
  have fin: "R db (if b then update_metadata_no_flush (set_root c r) db' else db')" if "R db db'" for b r db'
    using that R_trans [OF that R_root] by simp
  define rb where "rb = db_on_pager (rebase_single_collection (en_fuel E) c (collection_root (db_metadata db) c) pw) db"
  have rb: "R db (snd rb)" unfolding rb_def by (rule on_pager)
  have lg: "R db (snd (for_each (Transaction.log_page E t) es (snd rb)))" for t es
    by (rule R_trans [OF rb]) (intro for_each log_page)
  show ?thesis
  proof (cases "collection_root (db_metadata db) c = root_in (pw_snapshot_roots pw) c")
    case True
    then show ?thesis using fin [OF R_refl] by (simp add: apply_collection_def Let_def)
  next
    case False
    obtain r db1 where r: "rb = (r, db1)" by (cases rb)
    show ?thesis
    proof (cases r)
      case (Ok pw')
      obtain r2 db2 where l: "for_each (Transaction.log_page E (pw_mvcc_tx_id pw)) (filter (\<lambda>(p, _). \<not> hm_contains (pw_writes pw) p) (pw_writes pw')) db1 = (r2, db2)"
        by (metis surj_pair)
      have "R db db2" using lg [of "pw_mvcc_tx_id pw" "filter (\<lambda>(p, _). \<not> hm_contains (pw_writes pw) p) (pw_writes pw')"] l r by simp
      then show ?thesis using False r Ok l fin [OF \<open>R db db2\<close>]
        by (cases r2) (simp_all add: apply_collection_def Let_def rb_def [symmetric])
    qed (use False r rb in \<open>simp_all add: apply_collection_def Let_def rb_def [symmetric]\<close>)
  qed
qed

lemma apply_collections: "R db (snd (snd (for_each (apply_collection E) cs (pw, db))))"
proof (induction cs arbitrary: pw db)
  case Nil
  then show ?case by (simp add: R_refl)
next
  case (Cons c cs)
  obtain r pw' db' where a: "Transaction.apply_collection E c (pw, db) = (r, pw', db')" by (metis prod_cases3)
  have "R db db'" using apply_collection [of db E c pw] a by simp
  then show ?case using a Cons [of db' pw'] R_trans by (cases r) auto
qed

lemma apply_batch: "R db (snd (apply_batch E batch db))"
proof (induction batch arbitrary: db)
  case Nil
  then show ?case by (simp add: R_refl)
next
  case (Cons pw batch)
  obtain r pw' db' where a: "for_each (Transaction.apply_collection E) (pw_modified_collections pw) (pw, db) = (r, pw', db')" by (metis prod_cases3)
  have d: "R db db'" using apply_collections [of db E "pw_modified_collections pw" pw] a by simp
  have "R db' (snd (and_then (Transaction.apply_batch E batch db') (\<lambda>b db. (Ok (pw' # b), db))))"
    by (rule and_then [OF Cons]) (simp add: R_refl)
  then show ?case using a d R_trans by (cases r) auto
qed

lemma execute_batch_commit: "R db (snd (execute_batch_commit E batch db))"
  unfolding execute_batch_commit_def Let_def
proof (intro and_then for_each validate_pending_write log_page apply_batch commit_metadata on_wal on_pager transfer_page)
  show "R db (snd (check_batch_conflicts batch, db))" for db by (simp add: R_refl)
  fix batch' :: "pending_write list" and db :: "'n database"
  define db1 where "db1 = db\<lparr>db_tx_manager := fold (\<lambda>pw. commit_transaction (pw_mvcc_tx_id pw)) batch' (db_tx_manager db)\<rparr>"
  define db2 where "db2 = db1\<lparr>db_version_chains := fold (\<lambda>pw. add_old_versions (pw_mvcc_tx_id pw) (pw_old_versions pw)) batch' (db_version_chains db1)\<rparr>"
  have "R db db2" unfolding db1_def db2_def by (rule R_trans [OF R_manager R_chains])
  moreover have "R db2 (snd (for_each (Transaction.emit_pending E) batch' db2))" by (intro for_each emit_pending)
  ultimately show "R db (snd (for_each (Transaction.emit_pending E) batch'
      (db\<lparr>db_tx_manager := fold (\<lambda>pw. commit_transaction (pw_mvcc_tx_id pw)) batch' (db_tx_manager db)\<rparr>
       \<lparr>db_version_chains := fold (\<lambda>pw. add_old_versions (pw_mvcc_tx_id pw) (pw_old_versions pw)) batch'
          (db_version_chains (db\<lparr>db_tx_manager := fold (\<lambda>pw. commit_transaction (pw_mvcc_tx_id pw)) batch' (db_tx_manager db)\<rparr>))\<rparr>)))"
    unfolding db1_def db2_def by (rule R_trans)
qed

end

text \<open>The commit of a single transaction also counts the commit and may start a checkpoint.\<close>

locale single_frame = commit_frame R for R :: "'n database \<Rightarrow> 'n database \<Rightarrow> bool" +
  assumes R_metrics: "R db (db\<lparr>db_metrics := ms\<rparr>)"
    and R_checkpoint: "R db (db\<lparr>db_checkpoint_in_progress := b\<rparr>)"

sublocale commit_frame \<subseteq> tx: frame "\<lambda>st st' :: transaction \<times> 'n database. R (snd st) (snd st')"
  by unfold_locales (auto intro: R_refl R_trans)

sublocale commit_frame \<subseteq> remap: frame "\<lambda>st st' :: (page_num, page_num) hmap \<times> transaction \<times> 'n database. R (snd (snd st)) (snd (snd st'))"
  by unfold_locales (auto intro: R_refl R_trans)

context single_frame
begin

lemma on_pagerD: "db_on_pager f db = (r, db') \<Longrightarrow> R db db'"
  using on_pager [of db f] by simp

lemma on_db: "(\<And>db. R db (snd (f db))) \<Longrightarrow> R (snd st) (snd (snd (on_db f st)))"
  by (cases st; cases "f (snd st)") (metis (mono_tags) on_db_def old.prod.case snd_conv)

lemma on_db_pair: "(\<And>db. R db (snd (f db))) \<Longrightarrow> R db (snd (snd (on_db f (tx, db))))"
  using on_db [of f "(tx, db)"] by simp

lemma remap_page: "R (snd (snd st)) (snd (snd (snd (remap_page saved e st))))"
  unfolding remap_page_def
  by (auto simp: R_refl split: prod.split res.split option.split dest!: on_pagerD) (metis R_trans)+

lemma keep_page: "R (snd st) (snd (snd (keep_page p st)))"
  unfolding keep_page_def
  by (auto simp: R_refl split: prod.split res.split dest: on_pagerD)

lemma keep_pages: "R db (snd (snd (for_each Transaction.keep_page ps (tx, db))))"
  using tx.for_each [where f = Transaction.keep_page and s = "(tx, db)", OF keep_page] by simp

lemma rebase_tree: "R (snd st) (snd (snd (rebase_tree E root docs st)))"
  unfolding rebase_tree_def by (auto simp: R_pager split: prod.split)

lemma unique_constraints: "R (snd st) (snd (snd (validate_unique_constraints_for_collection E c st)))"
  unfolding validate_unique_constraints_for_collection_def
  by (auto intro!: on_db_pair for_each on_pager simp: R_refl split: prod.split option.split)

lemma rebase_collection: "R (snd st) (snd (snd (rebase_collection E c root st)))"
  unfolding rebase_collection_def Let_def
proof (intro tx.and_then on_db on_wal unique_constraints, goal_cases)
  case (1 _ _ _ t)
  let ?written = "docs_of (tx_doc_writes (fst t)) c"
  obtain r remap u where m: "for_each (Transaction.remap_page (tx_writes (fst st))) ?written ([], t) = (r, remap, u)" by (metis prod_cases3)
  have u: "R (snd t) (snd u)" using remap.for_each [where f = "Transaction.remap_page (tx_writes (fst st))" and xs = ?written and s = "([], t)", OF remap_page] m by simp
  show ?case
  proof (cases r)
    case (Ok x)
    show ?thesis unfolding m Ok using R_root
      by (auto intro!: R_trans [OF u] tx.and_then tx.for_each keep_page keep_pages rebase_tree simp: R_refl)
  qed (use m u in simp_all)
qed

lemma commit_collection: "R (snd st) (snd (snd (commit_collection E c st)))"
  using rebase_collection [of st E c] unfolding commit_collection_def Let_def
  by (auto simp: R_refl R_root split: prod.split option.split)

lemma emit_doc: "R db (snd (emit_doc E tx c e db))"
  unfolding emit_doc_def by (intro and_then document_for_event) (simp add: emit_to_watchers)

lemma maybe_auto_checkpoint: "R db (maybe_auto_checkpoint db)"
  by (simp add: maybe_auto_checkpoint_def R_refl R_checkpoint)

lemma commit_locked: "R (snd st) (snd (snd (commit_locked E st)))"
  unfolding commit_locked_def Let_def
proof (intro tx.and_then on_db for_each and_then log_page transfer_page on_wal on_pager tx.for_each commit_collection commit_metadata, goal_cases)
  case (1 _ _ _ _ _ _ _ _ _ _ _ _ _ t)
  show ?case
    by (rule R_trans [OF R_manager R_trans [OF R_metrics R_trans [OF maybe_auto_checkpoint R_trans [OF R_chains on_db_pair]]]])
      (auto intro!: for_each emit_doc split: prod.split)
qed

lemma commit_single: "R (snd st) (snd (snd (commit_single E st)))"
  unfolding commit_single_def detect_all_def
  by (intro tx.and_then on_db for_each on_pager commit_locked)

end

text \<open>The queue with its configuration, the metrics and the completions.\<close>

definition same_queue :: "'n database \<Rightarrow> 'n database \<Rightarrow> bool" where
  "same_queue db db' \<longleftrightarrow> db_pending_writes db' = db_pending_writes db \<and> db_batch_config db' = db_batch_config db
     \<and> db_metrics db' = db_metrics db \<and> db_completions db' = db_completions db"

definition indexes_kept :: "'n database \<Rightarrow> 'n database \<Rightarrow> bool" where
  "indexes_kept db db' \<longleftrightarrow> same_indexes (db_metadata db) (db_metadata db')"

interpretation queue: commit_frame same_queue
  by unfold_locales (auto simp: same_queue_def update_metadata_no_flush_def)

interpretation idx: single_frame indexes_kept
  by unfold_locales (auto simp: indexes_kept_def update_metadata_no_flush_def intro: same_indexes_trans)

subsection \<open>The batches of the leader\<close>

lemma collect_loop_spec:
  assumes "collect_loop m arrivals queue batch docs = (Ok b, queue', arrivals')"
  shows "\<exists>new. b = batch @ new \<and> new @ queue' @ concat arrivals' = queue @ concat arrivals \<and>
    (queue \<noteq> [] \<longrightarrow> batch = [] \<longrightarrow> docs = {} \<longrightarrow> new \<noteq> []) \<and>
    (length batch < m \<longrightarrow> length b \<le> m) \<and> length arrivals' \<le> length arrivals"
  using assms
proof (induction m arrivals queue batch docs rule: collect_loop.induct)
  case (1 m arrivals queue batch docs)
  show ?case
  proof (cases queue)
    case (Cons p rest)
    show ?thesis
    proof (cases "list_ex (\<lambda>k. k \<in> docs) (written_docs p)")
      case True
      then show ?thesis using 1(3) Cons by (subst (asm) collect_loop.simps) (auto simp: list_ex_iff)
    next
      case False
      show ?thesis
      proof (cases "length (batch @ [p]) \<ge> m")
        case True
        then show ?thesis using 1(3) Cons False by (subst (asm) collect_loop.simps) (auto simp: Let_def)
      next
        case less: False
        have "collect_loop m arrivals rest (batch @ [p]) (docs \<union> set (written_docs p)) = (Ok b, queue', arrivals')"
          using 1(3) Cons False less by (subst (asm) collect_loop.simps) (simp add: Let_def)
        from 1(2) [OF Cons False refl less this] less obtain new where "b = (batch @ [p]) @ new"
          "new @ queue' @ concat arrivals' = rest @ concat arrivals" "length b \<le> m" "length arrivals' \<le> length arrivals"
          by auto
        then show ?thesis using Cons by (intro exI [of _ "p # new"]) auto
      qed
    qed
  next
    case Nil
    show ?thesis
    proof (cases arrivals)
      case (Cons new later)
      then have "batch \<noteq> []" "collect_loop m later new batch docs = (Ok b, queue', arrivals')"
        using 1(3) Nil by (subst (asm) collect_loop.simps; simp split: if_splits)+
      from 1(1) [OF Nil this(1) Cons this(2)] show ?thesis using Nil Cons \<open>batch \<noteq> []\<close> by auto
    next
      case no: Nil
      then show ?thesis using 1(3) \<open>queue = []\<close> by (subst (asm) collect_loop.simps) (auto split: if_splits)
    qed
  qed
qed

text \<open>No two requests of the batch write the same document.\<close>

definition disjoint_docs :: "pending_write list \<Rightarrow> bool" where
  "disjoint_docs batch \<longleftrightarrow> distinct (concat (map written_docs batch))"

lemma check_docs_eq:
  "check_docs ks seen = (if distinct ks \<and> set ks \<inter> seen = {} then Ok (set ks \<union> seen) else Err (Other ''Batch conflict''))"
  by (induction ks arbitrary: seen) auto

lemma check_batch_eq:
  "check_batch batch seen =
     (if disjoint_docs batch \<and> set (concat (map written_docs batch)) \<inter> seen = {} then Ok () else Err (Other ''Batch conflict''))"
  by (induction batch arbitrary: seen) (auto simp: check_docs_eq disjoint_docs_def)

lemma collect_loop_disjoint:
  assumes "collect_loop m arrivals queue batch docs = (Ok b, queue', arrivals')"
    and "\<forall>p \<in> set (queue @ concat arrivals). distinct (written_docs p)"
    and "disjoint_docs batch" "docs = set (concat (map written_docs batch))"
  shows "disjoint_docs b"
  using assms
proof (induction m arrivals queue batch docs rule: collect_loop.induct)
  case (1 m arrivals queue batch docs)
  show ?case
  proof (cases queue)
    case (Cons p rest)
    show ?thesis
    proof (cases "list_ex (\<lambda>k. k \<in> docs) (written_docs p)")
      case True
      then show ?thesis using 1(3,5) Cons by (subst (asm) collect_loop.simps) (auto simp: list_ex_iff)
    next
      case False
      then have d: "disjoint_docs (batch @ [p])" using 1(4-6) Cons by (auto simp: disjoint_docs_def list_ex_iff)
      show ?thesis
      proof (cases "length (batch @ [p]) \<ge> m")
        case True
        then show ?thesis using 1(3) d Cons False by (subst (asm) collect_loop.simps) (auto simp: Let_def)
      next
        case less: False
        have c: "collect_loop m arrivals rest (batch @ [p]) (docs \<union> set (written_docs p)) = (Ok b, queue', arrivals')"
          using 1(3) Cons False less by (subst (asm) collect_loop.simps) (simp add: Let_def)
        show ?thesis using 1(2) [OF Cons False refl less c _ d] 1(4,6) Cons by (auto simp: Un_commute)
      qed
    qed
  next
    case Nil
    show ?thesis
    proof (cases arrivals)
      case (Cons new later)
      then have "batch \<noteq> []" "collect_loop m later new batch docs = (Ok b, queue', arrivals')"
        using 1(3) Nil by (subst (asm) collect_loop.simps; simp split: if_splits)+
      from 1(1) [OF Nil this(1) Cons this(2) _ 1(5,6)] show ?thesis using 1(4) Nil Cons by auto
    next
      case no: Nil
      then show ?thesis using 1(3,5) \<open>queue = []\<close> by (subst (asm) collect_loop.simps) (auto split: if_splits)
    qed
  qed
qed

lemma collect_loop_Ok:
  "queue \<noteq> [] \<or> batch \<noteq> [] \<Longrightarrow> (batch = [] \<Longrightarrow> docs = {}) \<Longrightarrow> \<exists>b. fst (collect_loop m arrivals queue batch docs) = Ok b"
proof (induction m arrivals queue batch docs rule: collect_loop.induct)
  case (1 m arrivals queue batch docs)
  show ?case
  proof (cases queue)
    case (Cons p rest)
    then show ?thesis using 1(2) [OF Cons _ refl] by (subst collect_loop.simps) (auto simp: Let_def)
  next
    case Nil
    then show ?thesis using 1 by (subst collect_loop.simps) (auto split: list.split)
  qed
qed

subsection \<open>The leader\<close>

text \<open>One round: a batch is collected, executed and reported. The result tells whether the queue was empty afterwards.\<close>

definition leader_round :: "'n env \<Rightarrow> round \<Rightarrow> 'n database \<Rightarrow> bool res \<times> 'n database" where
  "leader_round E r db =
     (case collect_batch (rd_arrivals r) db of
        (Err e, db, _) \<Rightarrow> (Err e, db)
      | (Panic, db, _) \<Rightarrow> (Panic, db)
      | (Ok batch, db, later) \<Rightarrow>
          let db = db\<lparr>db_pending_writes := db_pending_writes db @ concat later\<rparr> in
          (case execute_batch_commit E batch db of
             (Panic, db) \<Rightarrow> (Panic, db)
           | (batch_result, db) \<Rightarrow>
               let db = finish_batch batch batch_result (rd_micros r) db;
                   db = db\<lparr>db_pending_writes := db_pending_writes db @ rd_late r\<rparr>
               in (Ok (db_pending_writes db = []), db)))"

text \<open>A round in which no other thread queues anything.\<close>

definition quiet_round :: round where
  "quiet_round = \<lparr>rd_arrivals = [], rd_late = [], rd_micros = 0\<rparr>"

lemma finish_batch_sel [simp]:
  "db_pending_writes (finish_batch batch r t db) = db_pending_writes db"
  "db_completions (finish_batch batch r t db) = fold (\<lambda>pw. hm_insert (pw_mvcc_tx_id pw) r) batch (db_completions db)"
  by (simp_all add: finish_batch_def maybe_auto_checkpoint_def Let_def)

text \<open>What a round does to the queue: it takes a prefix, gives each of its requests a result, and lets the rest wait with the new requests behind it.\<close>

lemma leader_round_spec:
  assumes "leader_round E r db = (res, db')" "db_pending_writes db \<noteq> []"
  shows "res = Panic \<or> (\<exists>batch rest res'. batch \<noteq> [] \<and> res' \<noteq> Panic \<and> res = Ok (db_pending_writes db' = []) \<and>
    batch @ rest = db_pending_writes db @ concat (rd_arrivals r) \<and> db_pending_writes db' = rest @ rd_late r \<and>
    db_completions db' = fold (\<lambda>pw. hm_insert (pw_mvcc_tx_id pw) res') batch (db_completions db))"
proof -
  let ?c = "collect_loop (bc_max_batch_size (db_batch_config db)) (rd_arrivals r) (db_pending_writes db) [] {}"
  obtain b where "fst ?c = Ok b" using collect_loop_Ok [of "db_pending_writes db" "[]" "{}"] assms(2) by blast
  then obtain q later where c: "?c = (Ok b, q, later)" by (cases ?c) auto
  obtain new where n: "b = new" "new @ q @ concat later = db_pending_writes db @ concat (rd_arrivals r)" "b \<noteq> []"
  proof -
    from collect_loop_spec [OF c] obtain new where new: "b = [] @ new" "new @ q @ concat later = db_pending_writes db @ concat (rd_arrivals r)" "new \<noteq> []"
      using assms(2) by metis
    then show thesis using that by simp
  qed
  define db1 where "db1 = db\<lparr>db_pending_writes := q\<rparr>\<lparr>db_pending_writes := q @ concat later\<rparr>"
  obtain x db2 where x: "execute_batch_commit E b db1 = (x, db2)" by (cases "execute_batch_commit E b db1")
  have "same_queue db1 db2" using queue.execute_batch_commit [of db1 E b] x by simp
  then have q2: "db_pending_writes db2 = q @ concat later" "db_completions db2 = db_completions db" by (simp_all add: same_queue_def db1_def)
  have run: "leader_round E r db = (case execute_batch_commit E b db1 of
      (Panic, db) \<Rightarrow> (Panic, db)
    | (batch_result, db) \<Rightarrow>
        let db = finish_batch b batch_result (rd_micros r) db; db = db\<lparr>db_pending_writes := db_pending_writes db @ rd_late r\<rparr>
        in (Ok (db_pending_writes db = []), db))"
    unfolding leader_round_def collect_batch_def c db1_def by simp
  show ?thesis
  proof (cases "x = Panic")
    case True
    then show ?thesis using assms(1) unfolding run x by simp
  next
    case False
    let ?db3 = "(finish_batch b x (rd_micros r) db2)\<lparr>db_pending_writes := db_pending_writes db2 @ rd_late r\<rparr>"
    have "(res, db') = (Ok (db_pending_writes ?db3 = []), ?db3)"
      using assms(1) False unfolding run x by (cases x) (auto simp: Let_def)
    then show ?thesis using n q2 False by (intro disjI2 exI [of _ b] exI [of _ "q @ concat later"] exI [of _ x]) simp
  qed
qed

lemma leader_round_empty: "db_pending_writes db = [] \<Longrightarrow> \<exists>e. fst (leader_round E r db) = Err e"
  by (simp add: leader_round_def collect_batch_def collect_loop.simps)

text \<open>
  \<open>rounds n\<close> is what other threads queue during round \<open>n\<close>, without end. The loop need not end, and then has no result.
\<close>

partial_function (option) leader_loop :: "'n env \<Rightarrow> (nat \<Rightarrow> round) \<Rightarrow> nat \<Rightarrow> 'n database \<Rightarrow> (unit res \<times> 'n database) option" where
  "leader_loop E rounds n db =
     (case leader_round E (rounds n) db of
        (Err e, db) \<Rightarrow> Some (Err e, db)
      | (Panic, db) \<Rightarrow> Some (Panic, db)
      | (Ok queue_empty, db) \<Rightarrow> if queue_empty then Some (Ok (), db) else leader_loop E rounds (Suc n) db)"

text \<open>The result of its own request, for which a thread waits; without one it waits for ever.\<close>

definition take_completion :: "transaction \<times> 'n database \<Rightarrow> unit res option \<times> transaction \<times> 'n database" where
  "take_completion st =
     (case st of (tx, db) \<Rightarrow>
      case hm_get (db_completions db) (tx_mvcc_tx_id tx) of
        None \<Rightarrow> (None, tx, db)
      | Some commit_result \<Rightarrow>
          (Some commit_result, if commit_result = Ok () then tx\<lparr>tx_state := TxCommitted\<rparr> else tx,
           db\<lparr>db_completions := hm_remove (tx_mvcc_tx_id tx) (db_completions db)\<rparr>))"

text \<open>
  \<open>others\<close> is what other threads do between the queueing of the request and the moment when this thread holds \<open>commit_mu\<close>. A call that never returns has the result \<open>None\<close>; the
  state next to it has no meaning.
\<close>

definition commit_batched :: "'n env \<Rightarrow> ('n database \<Rightarrow> 'n database) \<Rightarrow> (nat \<Rightarrow> round) \<Rightarrow> 'n tx_db \<Rightarrow> unit res option \<times> 'n tx_db" where
  "commit_batched E others rounds st =
     (case st of (tx, db) \<Rightarrow>
      let db = db\<lparr>db_pending_writes := db_pending_writes db @ [prepare_write_request tx]\<rparr>;
          db = others db
      in if hm_contains (db_completions db) (tx_mvcc_tx_id tx) then take_completion (tx, db)
         else case leader_loop E rounds 0 db of
           None \<Rightarrow> (None, tx, db)
         | Some (Ok _, db) \<Rightarrow> take_completion (tx, db)
         | Some (Err e, db) \<Rightarrow> (Some (Err e), tx, db)
         | Some (Panic, db) \<Rightarrow> (Some Panic, tx, db))"

definition commit :: "'n env \<Rightarrow> ('n database \<Rightarrow> 'n database) \<Rightarrow> (nat \<Rightarrow> round) \<Rightarrow> 'n tx_db \<Rightarrow> unit res option \<times> 'n tx_db" where
  "commit E others rounds st =
     (case st of (tx, db) \<Rightarrow>
      if tx_state tx \<noteq> TxActive then (Some (Err TxAlreadyDone), st)
      else if tx_writes tx = [] then
        (Some (Ok ()), tx\<lparr>tx_state := TxCommitted\<rparr>,
         db\<lparr>db_tx_manager := commit_transaction (tx_mvcc_tx_id tx) (db_tx_manager db), db_metrics := transaction_committed (db_metrics db)\<rparr>)
      else if bc_enabled (db_batch_config db) then commit_batched E others rounds st
      else case commit_single E st of (r, st) \<Rightarrow> (Some r, st))"

lemma fold_insert_has: "hm_get (fold (\<lambda>pw. hm_insert (f pw) r) xs m) k = (if k \<in> f ` set xs then Some r else hm_get m k)"
  by (induction xs arbitrary: m) auto

text \<open>The state in which the leader begins round \<open>n\<close>.\<close>

inductive leader_reaches :: "'n env \<Rightarrow> (nat \<Rightarrow> round) \<Rightarrow> 'n database \<Rightarrow> nat \<Rightarrow> 'n database \<Rightarrow> bool"
  for E :: "'n env" and rounds :: "nat \<Rightarrow> round" and db :: "'n database" where
  first_round: "leader_reaches E rounds db 0 db"
| next_round: "leader_reaches E rounds db n d \<Longrightarrow> leader_round E (rounds n) d = (Ok False, d') \<Longrightarrow> leader_reaches E rounds db (Suc n) d'"

text \<open>Every batch that the leader executes ends without a panic.\<close>

definition batches_return :: "'n env \<Rightarrow> (nat \<Rightarrow> round) \<Rightarrow> 'n database \<Rightarrow> bool" where
  "batches_return E rounds db \<longleftrightarrow> (\<forall>n d. leader_reaches E rounds db n d \<longrightarrow> fst (leader_round E (rounds n) d) \<noteq> Panic)"

definition no_arrivals :: "round \<Rightarrow> bool" where
  "no_arrivals r \<longleftrightarrow> concat (rd_arrivals r) = [] \<and> rd_late r = []"

definition has_result :: "'n database \<Rightarrow> tx_id \<Rightarrow> bool" where
  "has_result db i \<longleftrightarrow> (\<exists>r. r \<noteq> Panic \<and> hm_get (db_completions db) i = Some r)"

lemma leader_round_step:
  assumes "leader_reaches E rounds db n d" "batches_return E rounds db" "db_pending_writes d \<noteq> []"
  obtains batch d' where "leader_round E (rounds n) d = (Ok (db_pending_writes d' = []), d')" "batch \<noteq> []"
    "batch @ db_pending_writes d' = db_pending_writes d @ concat (rd_arrivals (rounds n)) @ rd_late (rounds n)"
    "rd_late (rounds n) \<noteq> [] \<Longrightarrow> db_pending_writes d' \<noteq> []"
    "\<And>i. has_result d i \<Longrightarrow> has_result d' i" "\<And>p. p \<in> set batch \<Longrightarrow> has_result d' (pw_mvcc_tx_id p)"
proof -
  obtain x d' where r: "leader_round E (rounds n) d = (x, d')" by (cases "leader_round E (rounds n) d")
  have "x \<noteq> Panic" using assms(1,2) r unfolding batches_return_def by (metis fst_conv)
  with leader_round_spec [OF r assms(3)] obtain batch rest res' where b: "batch \<noteq> []" "res' \<noteq> Panic" "x = Ok (db_pending_writes d' = [])"
    "batch @ rest = db_pending_writes d @ concat (rd_arrivals (rounds n)) \<and> db_pending_writes d' = rest @ rd_late (rounds n)"
    "db_completions d' = fold (\<lambda>pw. hm_insert (pw_mvcc_tx_id pw) res') batch (db_completions d)" by blast
  show thesis
  proof (rule that [of d' batch])
    show "leader_round E (rounds n) d = (Ok (db_pending_writes d' = []), d')" using r b(3) by simp
    show "has_result d' i" if "has_result d i" for i using that b(2) unfolding has_result_def b(5) fold_insert_has by auto
    show "has_result d' (pw_mvcc_tx_id p)" if "p \<in> set batch" for p using that b(2) unfolding has_result_def b(5) fold_insert_has by auto
    show "batch @ db_pending_writes d' = db_pending_writes d @ concat (rd_arrivals (rounds n)) @ rd_late (rounds n)" using b(4) by (metis append.assoc)
  qed (use b(1,4) in auto)
qed

text \<open>When the arrivals end, the leader ends, and every request has a result.\<close>

lemma leader_loop_ends:
  assumes "leader_reaches E rounds db n d" "batches_return E rounds db" "\<And>i. k \<le> i \<Longrightarrow> no_arrivals (rounds i)" "db_pending_writes d \<noteq> []"
  shows "\<exists>d'. leader_loop E rounds n d = Some (Ok (), d') \<and> db_pending_writes d' = [] \<and>
    (\<forall>i. i \<in> pw_mvcc_tx_id ` set (db_pending_writes d) \<or> has_result d i \<longrightarrow> has_result d' i)"
  using assms(1,4)
proof (induction "(n, d)" arbitrary: n d rule: wf_induct_rule [OF wf_measures [of "[\<lambda>(n, d). k - n, \<lambda>(n, d). length (db_pending_writes d)]"]])
  case (1 n d)
  obtain batch d' where r: "leader_round E (rounds n) d = (Ok (db_pending_writes d' = []), d')" "batch \<noteq> []"
    "batch @ db_pending_writes d' = db_pending_writes d @ concat (rd_arrivals (rounds n)) @ rd_late (rounds n)"
    "\<And>i. has_result d i \<Longrightarrow> has_result d' i" "\<And>p. p \<in> set batch \<Longrightarrow> has_result d' (pw_mvcc_tx_id p)"
    by (rule leader_round_step [OF 1(2) assms(2) 1(3)]) blast
  have "set (db_pending_writes d) \<subseteq> set batch \<union> set (db_pending_writes d')" using arg_cong [OF r(3), of set] by auto
  then have keep: "has_result d' i \<or> i \<in> pw_mvcc_tx_id ` set (db_pending_writes d')"
    if "i \<in> pw_mvcc_tx_id ` set (db_pending_writes d) \<or> has_result d i" for i using that r(4,5) by auto
  show ?case
  proof (cases "db_pending_writes d' = []")
    case True
    then have "leader_loop E rounds n d = Some (Ok (), d')" using r(1) by (subst leader_loop.simps) simp
    then show ?thesis using True keep by auto
  next
    case False
    then have l: "leader_loop E rounds n d = leader_loop E rounds (Suc n) d'" using r(1) by (subst leader_loop.simps) simp
    have reach: "leader_reaches E rounds db (Suc n) d'" using 1(2) r(1) False by (auto intro: next_round)
    have "length (db_pending_writes d') < length (db_pending_writes d)" if "k \<le> n"
    proof -
      have "length batch + length (db_pending_writes d') = length (db_pending_writes d)"
        using assms(3) [OF that] arg_cong [OF r(3), of length] by (simp add: no_arrivals_def)
      then show ?thesis using r(2) by (cases batch) auto
    qed
    then have less: "((Suc n, d'), (n, d)) \<in> measures [\<lambda>(n, d). k - n, \<lambda>(n, d). length (db_pending_writes d)]" by (cases "k \<le> n") auto
    from 1(1) [OF less reach False] show ?thesis unfolding l using keep by blast
  qed
qed

text \<open>A queued request has a result after finitely many rounds, also when the leader goes on.\<close>

lemma leader_serves_each:
  assumes "leader_reaches E rounds db n d" "batches_return E rounds db" "\<And>i. rd_late (rounds i) \<noteq> []" "db_pending_writes d = ps @ p # qs"
  shows "\<exists>m d'. leader_reaches E rounds db m d' \<and> has_result d' (pw_mvcc_tx_id p)"
  using assms(1,4)
proof (induction "length ps" arbitrary: ps qs n d rule: less_induct)
  case less
  have "db_pending_writes d \<noteq> []" using less(3) by simp
  then obtain batch d' where r: "leader_round E (rounds n) d = (Ok (db_pending_writes d' = []), d')" "batch \<noteq> []"
    "batch @ db_pending_writes d' = db_pending_writes d @ concat (rd_arrivals (rounds n)) @ rd_late (rounds n)"
    "db_pending_writes d' \<noteq> []" "\<And>p. p \<in> set batch \<Longrightarrow> has_result d' (pw_mvcc_tx_id p)"
    using leader_round_step [OF less(2) assms(2)] assms(3) by metis
  let ?rest = "qs @ concat (rd_arrivals (rounds n)) @ rd_late (rounds n)"
  have q: "batch @ db_pending_writes d' = ps @ p # ?rest" using r(3) less(3) by simp
  have reach: "leader_reaches E rounds db (Suc n) d'" using less(2) r(1,4) by (auto intro: next_round)
  show ?case
  proof (cases "p \<in> set batch")
    case True
    then show ?thesis using reach r(5) by blast
  next
    case False
    obtain us where us: "ps = batch @ us" "db_pending_writes d' = us @ p # ?rest"
    proof -
      from q consider us where "ps = batch @ us" "db_pending_writes d' = us @ p # ?rest" | us where "batch = ps @ us" "us @ db_pending_writes d' = p # ?rest"
        by (auto simp: append_eq_append_conv2)
      then show thesis using False that by cases (auto simp: append_eq_Cons_conv)
    qed
    then show ?thesis using less(1) [OF _ reach, of us] us(1) r(2) by simp
  qed
qed

text \<open>As long as requests keep arriving, the leader does not end.\<close>

lemma leader_loop_endless:
  assumes "batches_return E rounds db" "\<And>i. rd_late (rounds i) \<noteq> []" "db_pending_writes db \<noteq> []"
  shows "leader_loop E rounds 0 db = None"
proof (rule ccontr)
  assume "leader_loop E rounds 0 db \<noteq> None"
  then obtain r where r: "leader_loop E rounds 0 db = Some r" by blast
  let ?P = "\<lambda>E' rs n d (r :: unit res \<times> 'a database). \<not> (E' = E \<and> rs = rounds \<and> leader_reaches E rounds db n d \<and> db_pending_writes d \<noteq> [])"
  have "?P E rounds 0 db r"
  proof (rule leader_loop.raw_induct [where P = ?P, OF _ r])
    fix f E' rs n d and r :: "unit res \<times> 'a database"
    assume IH: "\<And>E' rs n d r. f E' rs n d = Some r \<Longrightarrow> ?P E' rs n d r"
      and eq: "(case leader_round E' (rs n) d of (Ok b, d) \<Rightarrow> if b then Some (Ok (), d) else f E' rs (Suc n) d
          | (Err e, d) \<Rightarrow> Some (Err e, d) | (Panic, d) \<Rightarrow> Some (Panic, d)) = Some r"
    show "?P E' rs n d r"
    proof
      assume a: "E' = E \<and> rs = rounds \<and> leader_reaches E rounds db n d \<and> db_pending_writes d \<noteq> []"
      then obtain d' where d': "leader_round E (rounds n) d = (Ok False, d')" "db_pending_writes d' \<noteq> []"
        using leader_round_step [of E rounds db n d] assms(1,2) by (metis (full_types))
      then have "leader_reaches E rounds db (Suc n) d'" using a by (auto intro: next_round)
      then show False using IH [of E rounds "Suc n" d' r] eq a d' by auto
    qed
  qed
  then show False using assms(3) by (simp add: first_round)
qed

subsection \<open>Theorems\<close>

text \<open>
  C17: A batch is not empty, takes the queued requests in their order, is no longer than the configured size, and no two of its requests write the same document, so that the
  check for conflicts inside the batch always passes.
\<close>

theorem collect_batch_correct:
  assumes "collect_batch arrivals db = (Ok batch, db', later)" "db_pending_writes db \<noteq> []" "0 < bc_max_batch_size (db_batch_config db)"
    and "\<forall>p \<in> set (db_pending_writes db @ concat arrivals). distinct (written_docs p)"
  shows "batch \<noteq> [] \<and> length batch \<le> bc_max_batch_size (db_batch_config db) \<and> check_batch_conflicts batch = Ok () \<and>
    batch @ db_pending_writes db' @ concat later = db_pending_writes db @ concat arrivals"
proof -
  obtain queue where c: "collect_loop (bc_max_batch_size (db_batch_config db)) arrivals (db_pending_writes db) [] {} = (Ok batch, queue, later)"
    "db' = db\<lparr>db_pending_writes := queue\<rparr>"
    using assms(1) by (auto simp: collect_batch_def split: prod.splits)
  have "disjoint_docs batch" by (rule collect_loop_disjoint [OF c(1) assms(4)]) (simp_all add: disjoint_docs_def)
  then show ?thesis using collect_loop_spec [OF c(1)] assms(2,3) c(2) by (auto simp: check_batch_conflicts_def check_batch_eq)
qed

lemma set_metrics_store: "store_ok s \<Longrightarrow> same_store s (set_metrics m s)"
  by (simp add: set_metrics_def same_store_def store_ok_def pager_inv_def alloc_ok_def in_use_def room_def page_content_def fun_eq_iff split: option.split)

definition sample_write :: "string \<Rightarrow> tx_id \<Rightarrow> pending_write" where
  "sample_write d t = \<lparr>pw_writes = [], pw_doc_writes = [(''c'', [(d, 9)])], pw_snapshot_roots = [], pw_updated_roots = [], pw_old_versions = [],
     pw_modified_collections = [], pw_doc_existed = [], pw_doc_original_xmin = [], pw_snapshot_id = 3, pw_mvcc_tx_id = t\<rparr>"

lemma written_sample [simp]: "written_docs (sample_write d t) = [(''c'', d)]"
  by (simp add: written_docs_def sample_write_def)

theorem collect_batch_correct_witness:
  "\<exists>s w. pager_open None 10 False = Ok s \<and> wal_open None 1 2 = Ok w \<and>
    (let queue = [sample_write ''a'' 7, sample_write ''b'' 8, sample_write ''a'' 9];
         db = (sample_database s w metadata_new)\<lparr>db_pending_writes := queue\<rparr>
     in collect_batch [] db = (Ok (take 2 queue), db\<lparr>db_pending_writes := drop 2 queue\<rparr>, []) \<and> check_batch_conflicts (take 2 queue) = Ok ())"
proof -
  obtain s where s: "pager_open None 10 False = Ok s" using new_store by blast
  obtain w where w: "wal_open None 1 2 = Ok w" using wal_open_new by blast
  define queue where "queue = [sample_write ''a'' 7, sample_write ''b'' 8, sample_write ''a'' 9]"
  define db where "db = (sample_database s w metadata_new)\<lparr>db_pending_writes := queue\<rparr>"
  have db: "db_pending_writes db = queue" "bc_max_batch_size (db_batch_config db) = 32"
    by (simp_all add: db_def sample_database_def database_with_def batch_config_default_def)
  have c: "collect_batch [] db = (Ok (take 2 queue), db\<lparr>db_pending_writes := drop 2 queue\<rparr>, [])"
    unfolding collect_batch_def db queue_def by (simp add: collect_loop.simps)
  have "check_batch_conflicts (take 2 queue) = Ok ()"
    using collect_batch_correct [OF c] db(2) unfolding db(1) by (simp add: queue_def)
  then show ?thesis using s w c unfolding queue_def db_def by (auto simp: Let_def)
qed

end
