(* ===== verification/Tx_Conflict.thy ===== *)
theory Tx_Conflict
  imports Tx_Commit Tx_Snapshot
begin

text \<open>
  The detection of conflicts, verified against the committed documents: the tree of a collection represents a map from document ids to pages, and every page holds a version of its document.
\<close>

subsection \<open>Specification\<close>

definition committed :: "nat \<Rightarrow> page_num \<Rightarrow> (string \<Rightarrow> page_num option) \<Rightarrow> (string \<Rightarrow> versioned_document) \<Rightarrow> pager \<Rightarrow> bool" where
  "committed n root mp ver s \<longleftrightarrow> room 0 s \<and> (\<exists>t. tree_rep n (btree_open root, s) t \<and> tree_map t = mp) \<and>
     (\<forall>d p. mp d = Some p \<longrightarrow> (\<exists>qs. versioned_stored (page_content s) p qs (ver d)) \<and> id_ok (vd_id (ver d)) \<and>
        length (vd_data (ver d)) \<le> 249998 * MAX_OVERFLOW_DATA)"

text \<open>A written document that the transaction had read conflicts if it is gone, or if it has another version, with a stamp larger than the snapshot id.\<close>

definition update_conflict ::
    "(string \<Rightarrow> page_num option) \<Rightarrow> (string \<Rightarrow> versioned_document) \<Rightarrow> tx_id \<Rightarrow> bool by_doc \<Rightarrow> tx_id by_doc \<Rightarrow> string \<Rightarrow> string \<Rightarrow> bool" where
  "update_conflict mp ver snapshot existed xmins c d \<longleftrightarrow>
     existed_in_snapshot existed c d \<and>
     (\<exists>orig. doc_get xmins c d = Some orig \<and> (mp d = None \<or> vd_xmin (ver d) \<noteq> orig \<and> vd_xmin (ver d) > snapshot))"

text \<open>A document that is not known to have existed conflicts if it exists in a version with a stamp larger than the snapshot id.\<close>

definition insert_conflict ::
    "(string \<Rightarrow> page_num option) \<Rightarrow> (string \<Rightarrow> versioned_document) \<Rightarrow> tx_id \<Rightarrow> bool by_doc \<Rightarrow> string \<Rightarrow> string \<Rightarrow> bool" where
  "insert_conflict mp ver snapshot existed c d \<longleftrightarrow>
     \<not> existed_in_snapshot existed c d \<and> mp d \<noteq> None \<and> vd_xmin (ver d) > snapshot"

definition pending_conflict ::
    "(string \<Rightarrow> page_num option) \<Rightarrow> (string \<Rightarrow> versioned_document) \<Rightarrow> page_num \<Rightarrow> pending_write \<Rightarrow> string \<Rightarrow> bool" where
  "pending_conflict mp ver root pw c \<longleftrightarrow>
     (\<exists>d \<in> fst ` set (docs_of (pw_doc_writes pw) c).
        update_conflict mp ver (pw_snapshot_id pw) (pw_doc_existed pw) (pw_doc_original_xmin pw) c d \<or>
        root \<noteq> root_in (pw_snapshot_roots pw) c \<and> insert_conflict mp ver (pw_snapshot_id pw) (pw_doc_existed pw) c d)"

subsection \<open>Lemmas\<close>

lemma read_versioned_same_store:
  assumes "store_ok s" "versioned_stored (page_content s) p qs d" "id_ok (vd_id d)" "length (vd_data d) \<le> 249998 * MAX_OVERFLOW_DATA"
  shows "\<exists>s'. read_versioned_document p [] s = (Ok d, s') \<and> same_store s s'"
proof -
  let ?k = "first_capacity (vd_id d) (vd_data d)"
  obtain m where m: "page_content s p = Some (versioned_first (vd_id d) (vd_data d) (vd_xmin d) (vd_xmax d) ?k m)"
    "chain (page_content s) m qs (split_chunks (drop ?k (vd_data d)))" "distinct qs"
    using assms(2) by (auto simp: versioned_stored_def)
  have n: "length (vd_data d) \<le> MAX_DOCUMENT_SIZE" using assms(4) by (simp add: const_defs)
  have "length qs \<le> MAX_OVERFLOW_CHAIN_LENGTH"
    using chain_length [OF m(2)] split_chunks_needed [of ?k "vd_data d"] chain_fits [OF assms(4)] by simp
  from read_versioned_spec [OF assms(1,3) n refl, of "[]" p, unfolded tx_content_Nil, OF m this]
  obtain s' where s': "read_versioned_document p [] s = (Ok d, s')" "store_ok s'" "page_content s' = page_content s" by auto
  moreover have "same_alloc s s'" using read_versioned_only [of s p "[]"] s'(1) by (simp add: only_reads_def)
  ultimately show ?thesis using same_alloc_in_use [of s s'] by (auto simp: same_store_def same_alloc_def)
qed

lemma committed_same: "committed n root mp ver s \<Longrightarrow> same_store s s' \<Longrightarrow> committed n root mp ver s'"
proof -
  assume c: "committed n root mp ver s" and s: "same_store s s'"
  have "room 0 s'" "page_content s' = page_content s" using c s by (auto simp: committed_def same_store_def)
  then show ?thesis using c same_store_rep [OF _ s] unfolding committed_def by auto
qed

lemma search_committed_spec:
  assumes "committed n root mp ver s" "n \<le> fuel"
  obtains s' where "search_committed fuel root d s = (case mp d of Some v \<Rightarrow> Ok v | None \<Rightarrow> Err (not_in_tree d), s')" "same_store s s'"
proof -
  obtain t where t: "tree_rep n (btree_open root, s) t" "tree_map t = mp" "room 0 s" using assms(1) by (auto simp: committed_def)
  have "tx_rep n (tx_btree_new root, [], s) t" using tx_start [OF t(1,3)] by (simp add: btree_open_def)
  from tx_search_rep [OF this assms(2), of d] show ?thesis
    using that t(2) by (auto simp: search_committed_def)
qed

lemma read_committed:
  assumes "committed n root mp ver s" "mp d = Some p"
  obtains s' where "read_versioned_document p [] s = (Ok (ver d), s')" "same_store s s'"
proof -
  have "store_ok s" using assms(1) by (auto simp: committed_def tree_rep_def)
  then show ?thesis using that read_versioned_same_store assms unfolding committed_def by blast
qed

lemma committed_store: "committed n root mp ver s \<Longrightarrow> same_store s s"
  by (auto simp: committed_def tree_rep_def intro: same_store_refl)

lemma committed_lookup:
  assumes "committed n root mp ver s" "n \<le> fuel"
  obtains (none) s' where "mp d = None" "search_committed fuel root d s = (Err (not_in_tree d), s')" "same_store s s'"
  | (some) p s1 s' where "mp d = Some p" "search_committed fuel root d s = (Ok p, s1)" "read_versioned_document p [] s1 = (Ok (ver d), s')" "same_store s s'"
proof -
  obtain s1 where s1: "search_committed fuel root d s = (case mp d of Some v \<Rightarrow> Ok v | None \<Rightarrow> Err (not_in_tree d), s1)" "same_store s s1"
    by (rule search_committed_spec [OF assms])
  show thesis
  proof (cases "mp d")
    case None
    then show thesis using none s1 by simp
  next
    case (Some p)
    obtain s' where "read_versioned_document p [] s1 = (Ok (ver d), s')" "same_store s1 s'"
      by (rule read_committed [OF committed_same [OF assms(1) s1(2)] Some])
    then show thesis using some Some s1 same_store_trans by simp
  qed
qed

lemma doc_level_conflict_spec:
  assumes "committed n root mp ver s" "n \<le> fuel"
  shows "\<exists>s'. doc_level_conflict fuel c root snapshot existed xmins d s =
    (Ok (update_conflict mp ver snapshot existed xmins c d \<or> insert_conflict mp ver snapshot existed c d), s') \<and> same_store s s'"
proof (cases "existed_in_snapshot existed c d \<and> doc_get xmins c d = None")
  case True
  then show ?thesis using committed_store [OF assms(1)] by (auto simp: doc_level_conflict_def update_conflict_def insert_conflict_def)
next
  case False
  show ?thesis
    using False by (cases d rule: committed_lookup [OF assms])
      (auto simp: doc_level_conflict_def update_conflict_def insert_conflict_def)
qed

lemma doc_write_conflict_spec:
  assumes "committed n root mp ver s" "n \<le> fuel"
  shows "\<exists>s'. doc_write_conflict fuel c root snapshot existed xmins d s =
    (if update_conflict mp ver snapshot existed xmins c d then Err TxConflict else Ok (), s') \<and> same_store s s'"
proof (cases "existed_in_snapshot existed c d \<and> doc_get xmins c d \<noteq> None")
  case False
  then show ?thesis using committed_store [OF assms(1)] by (auto simp: doc_write_conflict_def update_conflict_def)
next
  case True
  show ?thesis
    using True by (cases d rule: committed_lookup [OF assms]) (auto simp: doc_write_conflict_def update_conflict_def)
qed

text \<open>The loops over the written documents and over the modified collections.\<close>

lemma any_conflict_spec:
  assumes "committed n root mp ver s" "\<And>d s. committed n root mp ver s \<Longrightarrow> \<exists>s'. f d s = (Ok (P d), s') \<and> same_store s s'"
  shows "\<exists>s'. any_conflict f ds s = (Ok (\<exists>d \<in> set ds. P d), s') \<and> same_store s s'"
  using assms(1)
proof (induction ds arbitrary: s)
  case Nil
  then show ?case using committed_store by simp
next
  case (Cons d ds)
  obtain s1 where s1: "f d s = (Ok (P d), s1)" "same_store s s1" using assms(2) [OF Cons.prems] by blast
  obtain s' where "any_conflict f ds s1 = (Ok (\<exists>d \<in> set ds. P d), s')" "same_store s1 s'"
    using Cons.IH [OF committed_same [OF Cons.prems s1(2)]] by blast
  then show ?case using s1 same_store_trans [OF s1(2)] by (cases "P d") auto
qed

lemma detect_document_spec:
  assumes "committed n root mp ver s" "n \<le> fuel"
  shows "\<exists>s'. detect_document_level_conflicts fuel c root snapshot writes existed xmins s =
    (Ok (\<exists>d \<in> fst ` set (docs_of writes c). update_conflict mp ver snapshot existed xmins c d \<or> insert_conflict mp ver snapshot existed c d), s') \<and> same_store s s'"
proof -
  have "\<exists>s'. any_conflict (doc_level_conflict fuel c root snapshot existed xmins) (map fst (docs_of writes c)) s =
      (Ok (\<exists>d \<in> set (map fst (docs_of writes c)). update_conflict mp ver snapshot existed xmins c d \<or> insert_conflict mp ver snapshot existed c d), s') \<and> same_store s s'"
    by (rule any_conflict_spec [OF assms(1)]) (rule doc_level_conflict_spec [OF _ assms(2)])
  then show ?thesis using committed_store [OF assms(1)] by (auto simp: detect_document_level_conflicts_def Let_def)
qed

lemma detect_write_spec:
  assumes "committed n root mp ver s" "n \<le> fuel"
  shows "\<exists>s'. detect_write_conflicts_with_context fuel c root snapshot writes existed xmins s =
    (if \<exists>d \<in> fst ` set (docs_of writes c). update_conflict mp ver snapshot existed xmins c d then Err TxConflict else Ok (), s') \<and> same_store s s'"
proof -
  have "\<exists>s'. for_each (doc_write_conflict fuel c root snapshot existed xmins) (map fst (docs_of writes c)) s =
      (if \<exists>d \<in> set (map fst (docs_of writes c)). update_conflict mp ver snapshot existed xmins c d then Err TxConflict else Ok (), s') \<and> same_store s s'"
    using assms doc_write_conflict_spec [OF _ assms(2)] committed_same committed_store same_store_trans
    by (intro for_each_fails [where I = "committed n root mp ver"]) blast+
  then show ?thesis using committed_store [OF assms(1)]
    by (auto simp: detect_write_conflicts_with_context_def Let_def list_ex_iff update_conflict_def)
qed

definition store_rel :: "'n database \<Rightarrow> 'n database \<Rightarrow> bool" where
  "store_rel db db' \<longleftrightarrow> (\<exists>s. db' = db\<lparr>db_pager := s\<rparr> \<and> same_store (db_pager db) s)"

lemma on_pager_rel: "\<exists>s'. f (db_pager db) = (r, s') \<and> same_store (db_pager db) s' \<Longrightarrow> \<exists>db'. db_on_pager f db = (r, db') \<and> store_rel db db'"
  by (auto simp: db_on_pager_def store_rel_def)

lemma validate_collection_spec:
  assumes "committed n (collection_root (db_metadata db) c) mp ver (db_pager db)" "n \<le> en_fuel E"
  shows "\<exists>db'. validate_collection E pw c db =
    (if pending_conflict mp ver (collection_root (db_metadata db) c) pw c then Err TxConflict else Ok (), db') \<and> store_rel db db'"
proof (cases "collection_root (db_metadata db) c = root_in (pw_snapshot_roots pw) c")
  case True
  then have pc: "pending_conflict mp ver (collection_root (db_metadata db) c) pw c \<longleftrightarrow> (\<exists>d \<in> fst ` set (docs_of (pw_doc_writes pw) c).
      update_conflict mp ver (pw_snapshot_id pw) (pw_doc_existed pw) (pw_doc_original_xmin pw) c d)" by (simp add: pending_conflict_def)
  let ?f = "detect_write_conflicts_with_context (en_fuel E) c (collection_root (db_metadata db) c) (pw_snapshot_id pw)
      (pw_doc_writes pw) (pw_doc_existed pw) (pw_doc_original_xmin pw)"
  obtain db' where "db_on_pager ?f db
      = (if pending_conflict mp ver (collection_root (db_metadata db) c) pw c then Err TxConflict else Ok (), db')" "store_rel db db'"
    using on_pager_rel [where f = ?f, OF detect_write_spec [OF assms]] unfolding pc by blast
  then show ?thesis using True by (simp add: validate_collection_def Let_def)
next
  case False
  then have pc: "pending_conflict mp ver (collection_root (db_metadata db) c) pw c \<longleftrightarrow> (\<exists>d \<in> fst ` set (docs_of (pw_doc_writes pw) c).
      update_conflict mp ver (pw_snapshot_id pw) (pw_doc_existed pw) (pw_doc_original_xmin pw) c d \<or>
      insert_conflict mp ver (pw_snapshot_id pw) (pw_doc_existed pw) c d)" by (simp add: pending_conflict_def)
  let ?f = "detect_document_level_conflicts (en_fuel E) c (collection_root (db_metadata db) c) (pw_snapshot_id pw)
      (pw_doc_writes pw) (pw_doc_existed pw) (pw_doc_original_xmin pw)"
  obtain db' where "db_on_pager ?f db
      = (Ok (pending_conflict mp ver (collection_root (db_metadata db) c) pw c), db')" "store_rel db db'"
    using on_pager_rel [where f = ?f, OF detect_document_spec [OF assms]] unfolding pc by blast
  then show ?thesis using False by (auto simp: validate_collection_def Let_def)
qed

subsection \<open>The check of a pending write\<close>

lemma validate_pending_spec:
  assumes "\<forall>c \<in> set (pw_modified_collections pw). committed n (collection_root (db_metadata db) c) (mp c) (ver c) (db_pager db)"
    "n \<le> en_fuel E" "store_ok (db_pager db)"
  shows "\<exists>s. validate_pending_write E pw db =
      (if \<exists>c \<in> set (pw_modified_collections pw). pending_conflict (mp c) (ver c) (collection_root (db_metadata db) c) pw c
       then Err TxConflict else Ok (), db\<lparr>db_pager := s\<rparr>) \<and> same_store (db_pager db) s"
proof -
  let ?I = "\<lambda>d. db_metadata d = db_metadata db \<and> store_ok (db_pager d) \<and>
    (\<forall>c \<in> set (pw_modified_collections pw). committed n (collection_root (db_metadata db) c) (mp c) (ver c) (db_pager d))"
  have "\<exists>db'. for_each (validate_collection E pw) (pw_modified_collections pw) db =
      (if \<exists>c \<in> set (pw_modified_collections pw). pending_conflict (mp c) (ver c) (collection_root (db_metadata db) c) pw c
       then Err TxConflict else Ok (), db') \<and> store_rel db db'"
  proof (rule for_each_fails [where I = ?I])
    show "?I db" using assms(1,3) by simp
    show "?I t" if "?I d" "store_rel d t" for d t
      using that committed_same by (auto simp: store_rel_def same_store_def)
    show "store_rel d d" if "?I d" for d
      using that same_store_refl [of "db_pager d"] by (auto simp: store_rel_def intro: exI [of _ "db_pager d"])
    show "store_rel d u" if "store_rel d t" "store_rel t u" for d t u
      using that same_store_trans by (fastforce simp: store_rel_def)
    show "\<exists>d'. validate_collection E pw c d =
        (if pending_conflict (mp c) (ver c) (collection_root (db_metadata db) c) pw c then Err TxConflict else Ok (), d') \<and> store_rel d d'"
      if "c \<in> set (pw_modified_collections pw)" "?I d" for c d
      using validate_collection_spec [OF _ assms(2), of d c "mp c" "ver c" pw] that by auto
  qed
  then show ?thesis by (auto simp: validate_pending_write_def store_rel_def)
qed

text \<open>
  C10: The check of a pending write before its commit compares stamps. It reports a conflict exactly if one of the written documents of a modified collection is of one of two kinds. Either the
  transaction has recorded that the document existed, with its stamp, and the tree has lost it or has it with another stamp that is larger than the snapshot id. Or the root of the collection
  is no longer that of the snapshot, the transaction has not recorded that the document existed, and the tree has it with a stamp larger than the snapshot id. All other writes pass,
  whenever the stored version was committed: one with a stamp up to the snapshot id is no conflict, even if its transaction was still running when the snapshot was taken, and a
  document that another transaction has deleted is no conflict for one that has not read it. The stored pages stay as they are.
\<close>

theorem conflict_check_by_stamps:
  assumes "\<forall>c \<in> set (pw_modified_collections pw). committed n (collection_root (db_metadata db) c) (mp c) (ver c) (db_pager db)"
    "n \<le> en_fuel E" "store_ok (db_pager db)"
  shows "\<exists>s. validate_pending_write E pw db =
      (if \<exists>c \<in> set (pw_modified_collections pw). pending_conflict (mp c) (ver c) (collection_root (db_metadata db) c) pw c
       then Err TxConflict else Ok (), db\<lparr>db_pager := s\<rparr>) \<and> same_store (db_pager db) s"
  by (rule validate_pending_spec [OF assms])

text \<open>A document in a tree of its own.\<close>

lemma sample_committed:
  obtains s p d s0 w bt s1 st where "pager_open None 10 False = Ok s" "write_versioned_document ''a'' [7] 5 0 (s, []) = (Ok (p, d), s0, w)"
    "btree_new s0 = (Ok bt, s1)" "btree_insert 1 ''a'' p (bt, s1) = (Ok (), st)"
    "committed 1 (get_root_page (fst st)) [''a'' \<mapsto> p] (\<lambda>_. \<lparr>vd_id = ''a'', vd_data = [7], vd_xmin = 5, vd_xmax = 0\<rparr>) (snd st)"
proof -
  let ?d = "\<lparr>vd_id = ''a'', vd_data = [7], vd_xmin = 5, vd_xmax = 0\<rparr>"
  obtain s where s: "pager_open None 10 False = Ok s" "store_ok s" "room 1000000 s" using new_store by blast
  have i: "id_ok ''a''" by (simp add: id_ok_def rust_string_def as_bytes_def)
  have r: "room (pages_needed [7] + 900000) s" by (rule room_mono [OF s(3)]) (simp add: pages_needed_def const_defs)
  obtain p d qs st0 where d0: "write_versioned_document ''a'' [7] 5 0 (s, []) = (Ok (p, d), st0)" "store_ok (fst st0)"
    "versioned_stored (both_content st0) p qs ?d" "in_use (fst st0) = in_use s \<union> set (p # qs)" "room 900000 (fst st0)"
    using write_versioned_room [of "(s, [])", unfolded fst_conv, OF s(2) r i, of 5 0] by blast
  then obtain s0 w where d: "write_versioned_document ''a'' [7] 5 0 (s, []) = (Ok (p, d), s0, w)" "store_ok s0"
    "versioned_stored (both_content (s0, w)) p qs ?d" "set (p # qs) \<subseteq> in_use s0" "room 900000 s0"
    by (cases st0) auto
  have "room (Suc 899999) s0" using d(5) by simp
  from new_state [OF d(2) this] obtain bt s1 q where n: "btree_new s0 = (Ok bt, s1)" "tree_state 0 {q} (\<lambda>_. None) (bt, s1)" "room 899999 s1"
    "q \<notin> in_use s0" "within s0 {} s1 {q}" by blast
  have r1: "room (0 + 2 + 10) s1" by (rule room_mono [OF n(3)]) simp
  have k: "tree_key ''a''" by (simp add: tree_key_def rust_string_def as_bytes_def)
  obtain bt' s' P where t: "btree_insert 1 ''a'' p (bt, s1) = (Ok (), bt', s')" "tree_state (Suc 0) P [''a'' \<mapsto> p] (bt', s')" "room 10 s'" "within s1 {q} s' P"
    using insert_state [OF n(2) _ r1 k, of 1 p] by auto
  have same: "page_content s' x = page_content s0 x" if "x \<in> set (p # qs)" for x
  proof -
    have "x \<in> in_use s0" using that d(4) by blast
    then show ?thesis using n(4,5) t(4) unfolding within_def by (metis empty_iff insert_iff subsetD)
  qed
  have "versioned_stored (page_content s0) p qs ?d" using versioned_stored_mono [OF d(3)] both_tx_content by fastforce
  then have "versioned_stored (page_content s') p qs ?d"
    using same chain_cong [of qs "page_content s'" "page_content s0"] by (auto simp: versioned_stored_def)
  moreover obtain u where u: "tree_rep 1 (bt', s') u" "tree_map u = [''a'' \<mapsto> p]" using t(2) by (auto simp: tree_state_def)
  moreover have "get_root_page bt' = bt_root_page bt'" using u(1) root_page_idle by (simp add: tree_rep_def)
  ultimately have "committed 1 (get_root_page bt') [''a'' \<mapsto> p] (\<lambda>_. ?d) s'"
    using i room_mono [OF t(3), of 0] by (auto simp: committed_def tree_rep_def btree_open_def idle_def const_defs intro!: exI [of _ u])
  then show thesis using that [OF s(1) d(1) n(1) t(1)] by simp
qed

definition sample_request :: pending_write where
  "sample_request = \<lparr>pw_writes = [], pw_doc_writes = [(''c'', [(''a'', 9)])], pw_snapshot_roots = [], pw_updated_roots = [], pw_old_versions = [],
     pw_modified_collections = [''c''], pw_doc_existed = [(''c'', [(''a'', True)])], pw_doc_original_xmin = [(''c'', [(''a'', 2)])],
     pw_snapshot_id = 3, pw_mvcc_tx_id = 7\<rparr>"

lemma written_request [simp]: "written_docs sample_request = [(''c'', ''a'')]"
  by (simp add: written_docs_def sample_request_def)

theorem conflict_check_by_stamps_witness:
  "\<exists>wl s p d s0 w bt s1 st. wal_open None 1 2 = Ok wl \<and> pager_open None 10 False = Ok s \<and> write_versioned_document ''a'' [7] 5 0 (s, []) = (Ok (p, d), s0, w) \<and>
    btree_new s0 = (Ok bt, s1) \<and> btree_insert 1 ''a'' p (bt, s1) = (Ok (), st) \<and>
    fst (validate_pending_write sample_env sample_request (sample_database (snd st) wl (set_root ''c'' (get_root_page (fst st)) metadata_new))) = Err TxConflict"
proof -
  obtain s p d s0 w bt s1 st where o: "pager_open None 10 False = Ok s" "write_versioned_document ''a'' [7] 5 0 (s, []) = (Ok (p, d), s0, w)"
    "btree_new s0 = (Ok bt, s1)" "btree_insert 1 ''a'' p (bt, s1) = (Ok (), st)"
    "committed 1 (get_root_page (fst st)) [''a'' \<mapsto> p] (\<lambda>_. \<lparr>vd_id = ''a'', vd_data = [7], vd_xmin = 5, vd_xmax = 0\<rparr>) (snd st)"
    by (rule sample_committed)
  obtain wl where wl: "wal_open None 1 2 = Ok wl" using wal_open_new by blast
  let ?db = "sample_database (snd st) wl (set_root ''c'' (get_root_page (fst st)) metadata_new)"
  have db: "db_pager ?db = set_metrics metrics_new (snd st)" "collection_root (db_metadata ?db) ''c'' = get_root_page (fst st)"
    by (simp_all add: sample_database_def database_with_def)
  have ok: "store_ok (snd st)" using o(5) by (auto simp: committed_def tree_rep_def)
  have c: "\<forall>c \<in> set (pw_modified_collections sample_request). committed 1 (collection_root (db_metadata ?db) c) [''a'' \<mapsto> p]
      (\<lambda>_. \<lparr>vd_id = ''a'', vd_data = [7], vd_xmin = 5, vd_xmax = 0\<rparr>) (db_pager ?db)"
    using committed_same [OF o(5) set_metrics_store [OF ok]] db by (simp add: sample_request_def)
  have "store_ok (db_pager ?db)" "1 \<le> en_fuel sample_env" using set_metrics_store [OF ok] db by (simp_all add: same_store_def sample_env_def)
  from conflict_check_by_stamps [OF c this(2,1)]
  have "fst (validate_pending_write sample_env sample_request ?db) = Err TxConflict"
    by (auto simp: sample_request_def pending_conflict_def update_conflict_def existed_in_snapshot_def doc_get_def docs_of_def split: if_splits)
  then show ?thesis using wl o(1-4) by blast
qed

subsection \<open>One conflict fails the batch\<close>

lemma validate_batch_spec:
  assumes "\<forall>p \<in> set batch. \<forall>c \<in> set (pw_modified_collections p). committed n (collection_root (db_metadata db) c) (mp c) (ver c) (db_pager db)"
    "n \<le> en_fuel E" "store_ok (db_pager db)"
  shows "\<exists>db'. for_each (validate_pending_write E) batch db =
      (if \<exists>p \<in> set batch. \<exists>c \<in> set (pw_modified_collections p). pending_conflict (mp c) (ver c) (collection_root (db_metadata db) c) p c
       then Err TxConflict else Ok (), db') \<and> store_rel db db'"
proof (rule for_each_fails [where I = "\<lambda>d. db_metadata d = db_metadata db \<and> store_ok (db_pager d) \<and>
    (\<forall>p \<in> set batch. \<forall>c \<in> set (pw_modified_collections p). committed n (collection_root (db_metadata db) c) (mp c) (ver c) (db_pager d))"], goal_cases)
  case 1
  then show ?case using assms by simp
next
  case (2 d t)
  then obtain s where s: "t = d\<lparr>db_pager := s\<rparr>" "same_store (db_pager d) s" by (auto simp: store_rel_def)
  then have "store_ok s" by (simp add: same_store_def)
  then show ?case using 2 s committed_same [OF _ s(2)] by simp
next
  case (3 d)
  then show ?case using same_store_refl [of "db_pager d"] by (auto simp: store_rel_def intro: exI [of _ "db_pager d"])
next
  case (4 d t u)
  then show ?case using same_store_trans by (fastforce simp: store_rel_def)
next
  case (5 p d)
  then show ?case using validate_pending_spec [of p n d mp ver E, OF _ assms(2)] by (auto simp: store_rel_def)
qed

text \<open>
  C38: A batch has a single result. If one of its requests conflicts with the committed documents, every other transaction in the batch fails with a conflict too, even one that
  conflicts with nothing.
\<close>

theorem conflict_fails_whole_batch:
  assumes "collect_batch (rd_arrivals r) db = (Ok batch, db1, later)"
    "\<forall>p \<in> set batch. \<forall>c \<in> set (pw_modified_collections p). committed n (collection_root (db_metadata db) c) (mp c) (ver c) (db_pager db)"
    "n \<le> en_fuel E" "store_ok (db_pager db)"
    "q \<in> set batch" "c \<in> set (pw_modified_collections q)" "pending_conflict (mp c) (ver c) (collection_root (db_metadata db) c) q c" "p \<in> set batch"
  shows "hm_get (db_completions (snd (leader_round E r db))) (pw_mvcc_tx_id p) = Some (Err TxConflict)"
proof -
  let ?db = "db1\<lparr>db_pending_writes := db_pending_writes db1 @ concat later\<rparr>"
  have d: "db_metadata ?db = db_metadata db" "db_pager ?db = db_pager db" using assms(1) by (auto simp: collect_batch_def split: prod.splits)
  obtain db2 where "for_each (validate_pending_write E) batch ?db =
      (if \<exists>p \<in> set batch. \<exists>c \<in> set (pw_modified_collections p). pending_conflict (mp c) (ver c) (collection_root (db_metadata ?db) c) p c
       then Err TxConflict else Ok (), db2)"
    using validate_batch_spec [of batch n ?db mp ver E] assms(2-4) unfolding d by blast
  then have "for_each (validate_pending_write E) batch ?db = (Err TxConflict, db2)" using assms(5-7) unfolding d by auto
  then have "execute_batch_commit E batch ?db = (Err TxConflict, db2)" by (simp add: execute_batch_commit_def)
  then have "db_completions (snd (leader_round E r db)) = fold (\<lambda>pw. hm_insert (pw_mvcc_tx_id pw) (Err TxConflict)) batch (db_completions db2)"
    using assms(1) by (simp add: leader_round_def Let_def)
  then show ?thesis using assms(8) by (simp add: fold_insert_has)
qed

theorem conflict_fails_whole_batch_witness:
  "\<exists>wl s p d s0 w bt s1 st. wal_open None 1 2 = Ok wl \<and> pager_open None 10 False = Ok s \<and> write_versioned_document ''a'' [7] 5 0 (s, []) = (Ok (p, d), s0, w) \<and>
    btree_new s0 = (Ok bt, s1) \<and> btree_insert 1 ''a'' p (bt, s1) = (Ok (), st) \<and>
    hm_get (db_completions (snd (leader_round sample_env quiet_round
      ((sample_database (snd st) wl (set_root ''c'' (get_root_page (fst st)) metadata_new))\<lparr>db_pending_writes := [sample_write ''b'' 8, sample_request]\<rparr>)))) 8 = Some (Err TxConflict)"
proof -
  obtain s p d s0 w bt s1 st where o: "pager_open None 10 False = Ok s" "write_versioned_document ''a'' [7] 5 0 (s, []) = (Ok (p, d), s0, w)"
    "btree_new s0 = (Ok bt, s1)" "btree_insert 1 ''a'' p (bt, s1) = (Ok (), st)"
    "committed 1 (get_root_page (fst st)) [''a'' \<mapsto> p] (\<lambda>_. \<lparr>vd_id = ''a'', vd_data = [7], vd_xmin = 5, vd_xmax = 0\<rparr>) (snd st)"
    by (rule sample_committed)
  obtain wl where wl: "wal_open None 1 2 = Ok wl" using wal_open_new by blast
  define db where "db = (sample_database (snd st) wl (set_root ''c'' (get_root_page (fst st)) metadata_new))\<lparr>db_pending_writes := [sample_write ''b'' 8, sample_request]\<rparr>"
  have db: "db_pager db = set_metrics metrics_new (snd st)" "collection_root (db_metadata db) ''c'' = get_root_page (fst st)"
    "db_pending_writes db = [sample_write ''b'' 8, sample_request]" "bc_max_batch_size (db_batch_config db) = 32"
    by (simp_all add: db_def sample_database_def database_with_def batch_config_default_def)
  have ok: "store_ok (snd st)" using o(5) by (auto simp: committed_def tree_rep_def)
  have ok': "store_ok (db_pager db)" "1 \<le> en_fuel sample_env" using set_metrics_store [OF ok] db by (simp_all add: same_store_def sample_env_def)
  have c: "collect_batch (rd_arrivals quiet_round) db = (Ok [sample_write ''b'' 8, sample_request], db\<lparr>db_pending_writes := []\<rparr>, [])"
    by (simp add: collect_batch_def db collect_loop.simps quiet_round_def)
  have cm: "\<forall>p' \<in> set [sample_write ''b'' 8, sample_request]. \<forall>c \<in> set (pw_modified_collections p'). committed 1 (collection_root (db_metadata db) c) [''a'' \<mapsto> p]
      (\<lambda>_. \<lparr>vd_id = ''a'', vd_data = [7], vd_xmin = 5, vd_xmax = 0\<rparr>) (db_pager db)"
    using committed_same [OF o(5) set_metrics_store [OF ok]] db by (simp add: sample_request_def sample_write_def)
  have pc: "pending_conflict [''a'' \<mapsto> p] (\<lambda>_. \<lparr>vd_id = ''a'', vd_data = [7], vd_xmin = 5, vd_xmax = 0\<rparr>) (collection_root (db_metadata db) ''c'') sample_request ''c''"
    by (simp add: sample_request_def pending_conflict_def update_conflict_def existed_in_snapshot_def doc_get_def docs_of_def)
  have "hm_get (db_completions (snd (leader_round sample_env quiet_round db))) (pw_mvcc_tx_id (sample_write ''b'' 8)) = Some (Err TxConflict)"
    by (rule conflict_fails_whole_batch [OF c cm ok'(2,1) _ _ pc]) (simp_all add: sample_request_def)
  moreover have "pw_mvcc_tx_id (sample_write ''b'' 8) = 8" by (simp add: sample_write_def)
  ultimately show ?thesis using wl o(1-4) unfolding db_def by metis
qed

end
