(* ===== verification/Tx_Collection.thy ===== *)
theory Tx_Collection
  imports Tx_Commit Tx_Snapshot
begin

text \<open>
  \<open>src/core/tx_collection.rs\<close>: the operations of a transaction on the documents of one collection.

  A \<open>TxCollection\<close> borrows its transaction; the operations work on the collection, the transaction and the database together. The trees share the writes of the transaction.
  An id that \<open>generate_id\<close> makes from the clock is the argument \<open>fresh\<close> of \<open>insert\<close>. Ids are texts here and bytes in the trees.
\<close>

subsection \<open>Specification\<close>

record tx_collection =
  tc_name :: string
  tc_btree :: tx_btree
  tc_indexes :: "(string, tx_btree) hmap"
  tc_index_meta :: "(string, index_meta) hmap"

type_synonym 'n tc_state = "tx_collection \<times> transaction \<times> 'n database"

definition tc_tx :: "'n tc_state \<Rightarrow> transaction" where
  "tc_tx st = fst (snd st)"

definition tc_upd_tx :: "(transaction \<Rightarrow> transaction) \<Rightarrow> 'n tc_state \<Rightarrow> 'n tc_state" where
  "tc_upd_tx f st = (case st of (tc, tx, db) \<Rightarrow> (tc, f tx, db))"

definition tc_on_tx :: "(transaction \<Rightarrow> 'a res \<times> transaction) \<Rightarrow> 'n tc_state \<Rightarrow> 'a res \<times> 'n tc_state" where
  "tc_on_tx f st = (case st of (tc, tx, db) \<Rightarrow> case f tx of (r, tx) \<Rightarrow> (r, tc, tx, db))"

definition tc_on_tree :: "(tb_state \<Rightarrow> 'a res \<times> tb_state) \<Rightarrow> 'n tc_state \<Rightarrow> 'a res \<times> 'n tc_state" where
  "tc_on_tree f st =
     (case st of (tc, tx, db) \<Rightarrow>
      case f (tc_btree tc, tx_writes tx, db_pager db) of
        (r, tb, w, s) \<Rightarrow> (r, tc\<lparr>tc_btree := tb\<rparr>, tx\<lparr>tx_writes := w\<rparr>, db\<lparr>db_pager := s\<rparr>))"

definition tc_on_index :: "string \<Rightarrow> (tb_state \<Rightarrow> 'a res \<times> tb_state) \<Rightarrow> 'n tc_state \<Rightarrow> 'a res \<times> 'n tc_state" where
  "tc_on_index name f st =
     (case st of (tc, tx, db) \<Rightarrow>
      case hm_get (tc_indexes tc) name of
        None \<Rightarrow> (Panic, st)
      | Some tb \<Rightarrow>
          (case f (tb, tx_writes tx, db_pager db) of
             (r, tb, w, s) \<Rightarrow> (r, tc\<lparr>tc_indexes := hm_insert name tb (tc_indexes tc)\<rparr>, tx\<lparr>tx_writes := w\<rparr>, db\<lparr>db_pager := s\<rparr>)))"

text \<open>Reading a document through the transaction's writes, and writing one with a map of its own for the pages.\<close>

definition tc_read :: "page_num \<Rightarrow> 'n tc_state \<Rightarrow> versioned_document res \<times> 'n tc_state" where
  "tc_read page_num st =
     (case st of (tc, tx, db) \<Rightarrow>
      case read_versioned_document page_num (tx_writes tx) (db_pager db) of (r, s) \<Rightarrow> (r, tc, tx, db\<lparr>db_pager := s\<rparr>))"

definition tc_write :: "string \<Rightarrow> bytes \<Rightarrow> 'n tc_state \<Rightarrow> (page_num \<times> page_writes) res \<times> 'n tc_state" where
  "tc_write doc_id data st =
     (case st of (tc, tx, db) \<Rightarrow>
      case write_versioned_document doc_id data (tx_mvcc_tx_id tx) 0 (db_pager db, []) of
        (Ok (page_num, _), s, w) \<Rightarrow> (Ok (page_num, w), tc, tx, db\<lparr>db_pager := s\<rparr>)
      | (Err e, s, _) \<Rightarrow> (Err e, tc, tx, db\<lparr>db_pager := s\<rparr>)
      | (Panic, s, _) \<Rightarrow> (Panic, tc, tx, db\<lparr>db_pager := s\<rparr>))"

definition tc_count :: "(metrics \<Rightarrow> metrics) \<Rightarrow> 'n tc_state \<Rightarrow> 'n tc_state" where
  "tc_count f st = (case st of (tc, tx, db) \<Rightarrow> (tc, tx, db\<lparr>db_metrics := f (db_metrics db)\<rparr>))"

definition open_tree :: "page_num \<Rightarrow> 'n tx_db \<Rightarrow> tx_btree res \<times> 'n tx_db" where
  "open_tree root st =
     (case st of (tx, db) \<Rightarrow>
      if root = 0 then
        (case tb_create_empty (tx_writes tx, db_pager db) of (r, w, s) \<Rightarrow> (r, tx\<lparr>tx_writes := w\<rparr>, db\<lparr>db_pager := s\<rparr>))
      else (Ok (tx_btree_new root), st))"

fun open_indexes :: "(string, index_meta) hmap \<Rightarrow> 'n tx_db \<Rightarrow> (string, tx_btree) hmap res \<times> 'n tx_db" where
  "open_indexes [] st = (Ok [], st)"
| "open_indexes ((name, m) # ms) st =
     and_then (open_tree (im_btree_root m) st) (\<lambda>tb st.
     and_then (open_indexes ms st) (\<lambda>tbs st. (Ok ((name, tb) # tbs), st)))"

definition tx_collection_new :: "string \<Rightarrow> 'n tx_db \<Rightarrow> tx_collection res \<times> 'n tx_db" where
  "tx_collection_new name st =
     (let coll_meta = hm_get (md_collections (db_metadata (snd st))) name;
          btree_root = (case get_snapshot_root name (fst st) of Some r \<Rightarrow> r | None \<Rightarrow> 0);
          index_meta = (case coll_meta of Some coll \<Rightarrow> cm_indexes coll | None \<Rightarrow> [])
      in and_then (open_tree btree_root st) (\<lambda>btree st.
         and_then (open_indexes index_meta st) (\<lambda>indexes st.
         (Ok \<lparr>tc_name = name, tc_btree = btree, tc_indexes = indexes, tc_index_meta = index_meta\<rparr>, st))))"

definition ID :: ustring where
  "ID = us ''_id''"

definition format_error :: "string \<Rightarrow> string \<Rightarrow> error" where
  "format_error reason name = InvalidDocumentFormat reason (Some name)"

definition to_vec :: "'n env \<Rightarrow> (ustring \<times> 'n json) list \<Rightarrow> bytes" where
  "to_vec E doc = as_bytes (utf8 (en_to_text E (JObject doc)))"

definition from_slice_map :: "'n env \<Rightarrow> bytes \<Rightarrow> (ustring \<times> 'n json) list res" where
  "from_slice_map E data = (case en_from_slice E data of Some (JObject m) \<Rightarrow> Ok m | _ \<Rightarrow> Err json_error)"

text \<open>The key of a document in an index.\<close>

definition index_key_text :: "'n env \<Rightarrow> (ustring \<times> 'n json) list \<Rightarrow> ustring list \<Rightarrow> ustring \<Rightarrow> string" where
  "index_key_text E doc fs doc_id =
     (let field_values = extract_field_values doc fs in
      if length fs = 1 then utf8 (serialize_index_key (en_to_text E) \<lparr>ik_field_value = hd field_values, ik_doc_id = doc_id\<rparr>)
      else utf8 (serialize_compound_index_key (en_to_text E) \<lparr>ck_field_values = field_values, ck_doc_id = doc_id\<rparr>))"

definition unique_violation :: error where
  "unique_violation = Other ''unique constraint violation''"

definition tc_insert_index :: "'n env \<Rightarrow> (ustring \<times> 'n json) list \<Rightarrow> ustring \<Rightarrow> page_num \<Rightarrow> string \<Rightarrow> 'n tc_state \<Rightarrow> unit res \<times> 'n tc_state" where
  "tc_insert_index E doc doc_id page_num index_name st =
     and_then (no_panic (hm_get (tc_index_meta (fst st)) index_name), st) (\<lambda>m st.
     let index_fields = get_fields m in
     and_then (if im_unique m then tc_on_index index_name (has_prefix (en_fuel E) (unique_prefix E doc index_fields)) st else (Ok False, st)) (\<lambda>taken st.
     if taken then (Err unique_violation, st)
     else tc_on_index index_name (Tx_Btree.tx_insert (en_fuel E) (index_key_text E doc index_fields doc_id) page_num) st))"

text \<open>\<open>is_ok\<close> on the result of a search.\<close>

definition found :: "'a res \<times> 's \<Rightarrow> bool res \<times> 's" where
  "found r = (case r of (Ok _, s) \<Rightarrow> (Ok True, s) | (Err _, s) \<Rightarrow> (Ok False, s) | (Panic, s) \<Rightarrow> (Panic, s))"

definition document_id :: "string \<Rightarrow> ustring \<Rightarrow> (ustring \<times> 'n json) list \<Rightarrow> (ustring \<times> (ustring \<times> 'n json) list) res" where
  "document_id name fresh doc =
     (case map_of doc ID of
        Some (JString i) \<Rightarrow> Ok (i, doc)
      | Some _ \<Rightarrow> Err (format_error ''_id must be a string'' name)
      | None \<Rightarrow> Ok (fresh, obj_insert ID (JString fresh) doc))"

definition tc_insert :: "'n env \<Rightarrow> ustring \<Rightarrow> 'n json \<Rightarrow> 'n tc_state \<Rightarrow> ustring res \<times> 'n tc_state" where
  "tc_insert E fresh doc st =
     (let name = tc_name (fst st) in
      case as_object doc of
        None \<Rightarrow> (Err (format_error ''document must be an object'' name), st)
      | Some doc \<Rightarrow>
        if \<not> is_active (tc_tx st) then (Err TxNotActive, st)
        else and_then (document_id name fresh doc, st) (\<lambda>(doc_id, doc) st.
          let key = utf8 doc_id in
          and_then (found (tc_on_tree (tx_search (en_fuel E) key) st)) (\<lambda>existed st.
          let st = tc_upd_tx (track_doc_existed_in_snapshot name key existed) st in
          if existed then (Err (DocumentAlreadyExists name key), st)
          else and_then (tc_write key (to_vec E doc) st) (\<lambda>(page_num, pages) st.
            and_then (tc_on_tree (Tx_Btree.tx_insert (en_fuel E) key page_num) st) (\<lambda>_ st.
            and_then (for_each (tc_insert_index E doc doc_id page_num) (map fst (tc_indexes (fst st))) st) (\<lambda>_ st.
            and_then (for_each (\<lambda>(p, d). tc_on_tx (tx_write_page p d)) pages st) (\<lambda>_ st.
            and_then (tc_on_tx (tx_write_document name key page_num) st) (\<lambda>_ st.
            let st = tc_upd_tx (set_collection_root name (get_current_root (tc_btree (fst st)))) st
            in (Ok doc_id, tc_count document_inserted st))))))))) "

text \<open>A document is visible to its own transaction and, if its version is, to the snapshot.\<close>

definition is_own_write :: "versioned_document \<Rightarrow> transaction \<Rightarrow> bool" where
  "is_own_write vdoc tx \<longleftrightarrow> vd_xmin vdoc = tx_mvcc_tx_id tx"

definition tc_visible :: "versioned_document \<Rightarrow> transaction \<Rightarrow> bool" where
  "tc_visible vdoc tx \<longleftrightarrow> is_own_write vdoc tx \<or> vd_is_visible vdoc (tx_snapshot_id tx)"

text \<open>The common beginning of \<open>find_by_id\<close>, \<open>update_by_id\<close> and \<open>delete_by_id\<close>.\<close>

definition tc_lookup :: "'n env \<Rightarrow> ustring \<Rightarrow> 'n tc_state \<Rightarrow> (page_num \<times> versioned_document) res \<times> 'n tc_state" where
  "tc_lookup E i st =
     and_then (tc_on_tree (tx_search (en_fuel E) (utf8 i)) st) (\<lambda>page_num st.
     and_then (tc_read page_num st) (\<lambda>vdoc st.
     if tc_visible vdoc (tc_tx st) then (Ok (page_num, vdoc), st)
     else (Err (DocumentNotFound (tc_name (fst st)) (utf8 i)), st)))"

definition find_by_id :: "'n env \<Rightarrow> ustring \<Rightarrow> 'n tc_state \<Rightarrow> 'n json res \<times> 'n tc_state" where
  "find_by_id E i st =
     and_then (tc_lookup E i st) (\<lambda>(_, vdoc) st.
     let name = tc_name (fst st);
         st = (if is_own_write vdoc (tc_tx st) then st
               else tc_upd_tx (\<lambda>tx. track_doc_original_xmin name (utf8 i) (vd_xmin vdoc) (track_doc_existed_in_snapshot name (utf8 i) True tx)) st)
     in case en_from_slice E (vd_data vdoc) of
          None \<Rightarrow> (Err json_error, st)
        | Some result \<Rightarrow> (Ok result, tc_count document_read st))"

definition old_version :: "string \<Rightarrow> page_num \<Rightarrow> versioned_document \<Rightarrow> document_version" where
  "old_version doc_id page_num vdoc =
     \<lparr>dv_doc_id = doc_id, dv_xmin = vd_xmin vdoc, dv_xmax = vd_xmax vdoc, dv_data = vd_data vdoc, dv_page_num = page_num\<rparr>"

definition track_update :: "string \<Rightarrow> string \<Rightarrow> page_num \<Rightarrow> versioned_document \<Rightarrow> transaction \<Rightarrow> transaction" where
  "track_update name key page_num vdoc tx =
     (let tx = track_doc_existed_in_snapshot name key True tx in
      if is_own_write vdoc tx then tx
      else add_old_version name key (old_version key page_num vdoc) (track_doc_original_xmin name key (vd_xmin vdoc) tx))"

definition merged :: "(ustring \<times> 'n json) list \<Rightarrow> ustring \<Rightarrow> (ustring \<times> 'n json) list \<Rightarrow> (ustring \<times> 'n json) list" where
  "merged doc i updates = obj_insert ID (JString i) (fold (\<lambda>(k, v). obj_insert k v) updates doc)"

definition update_by_id :: "'n env \<Rightarrow> ustring \<Rightarrow> 'n json \<Rightarrow> 'n tc_state \<Rightarrow> unit res \<times> 'n tc_state" where
  "update_by_id E i updates st =
     (let name = tc_name (fst st); key = utf8 i in
      case as_object updates of
        None \<Rightarrow> (Err (format_error ''updates must be an object'' name), st)
      | Some updates_map \<Rightarrow>
        if \<not> is_active (tc_tx st) then (Err TxNotActive, st)
        else and_then (tc_lookup E i st) (\<lambda>(old_page_num, vdoc) st.
          let st = tc_upd_tx (track_update name key old_page_num vdoc) st in
          and_then (from_slice_map E (vd_data vdoc), st) (\<lambda>doc st.
          and_then (tc_write key (to_vec E (merged doc i updates_map)) st) (\<lambda>(new_page_num, pages) st.
          and_then (tc_on_tree (tx_update (en_fuel E) key new_page_num) st) (\<lambda>_ st.
          and_then (for_each (\<lambda>(p, d). tc_on_tx (tx_write_page p d)) pages st) (\<lambda>_ st.
          and_then (tc_on_tx (tx_write_document name key new_page_num) st) (\<lambda>_ st.
          let st = tc_upd_tx (set_collection_root name (get_current_root (tc_btree (fst st)))) st
          in (Ok (), tc_count document_updated st))))))))"

definition delete_by_id :: "'n env \<Rightarrow> ustring \<Rightarrow> 'n tc_state \<Rightarrow> unit res \<times> 'n tc_state" where
  "delete_by_id E i st =
     (let name = tc_name (fst st); key = utf8 i in
      if \<not> is_active (tc_tx st) then (Err TxNotActive, st)
      else and_then (tc_lookup E i st) (\<lambda>(page_num, vdoc) st.
        let st = (if is_own_write vdoc (tc_tx st) then st else tc_upd_tx (add_old_version name key (old_version key page_num vdoc)) st) in
        and_then (tc_on_tree (tx_delete (en_fuel E) key) st) (\<lambda>_ st.
        and_then (tc_on_tx (tx_write_document name key page_max) st) (\<lambda>_ st.
        let st = tc_upd_tx (set_collection_root name (get_current_root (tc_btree (fst st)))) st
        in (Ok (), tc_count document_deleted st)))))"

text \<open>The scan of \<open>find_all\<close> and \<open>count\<close>: the visible documents in the order of their ids; \<open>left\<close> bounds the number of entries.\<close>

fun scan_visible :: "nat \<Rightarrow> 'n env \<Rightarrow> btree_iterator \<Rightarrow> 'n tc_state \<Rightarrow> versioned_document list res \<times> 'n tc_state" where
  "scan_visible 0 E it st = (Panic, st)"
| "scan_visible (Suc left) E it st =
     and_then (tc_on_tree (tx_iterator_next (en_fuel E) it) st) (\<lambda>(more, it) st.
     if \<not> more then (Ok [], st)
     else and_then (no_panic (iterator_entry it), st) (\<lambda>(_, page_num) st.
       case tc_read page_num st of
         (Panic, st) \<Rightarrow> (Panic, st)
       | (Err _, st) \<Rightarrow> scan_visible left E it st
       | (Ok vdoc, st) \<Rightarrow>
           and_then (scan_visible left E it st) (\<lambda>rest st.
           (Ok (if tc_visible vdoc (tc_tx st) then vdoc # rest else rest), st))))"

definition tc_find_all :: "nat \<Rightarrow> 'n env \<Rightarrow> 'n tc_state \<Rightarrow> 'n json list res \<times> 'n tc_state" where
  "tc_find_all left E st =
     and_then (tc_on_tree (tx_iterator_new (en_fuel E)) st) (\<lambda>it st.
     and_then (scan_visible left E it st) (\<lambda>vdocs st.
     let results = List.map_filter (\<lambda>v. en_from_slice E (vd_data v)) vdocs
     in (Ok results, (tc_count document_read ^^ length results) st)))"

definition count_visible :: "nat \<Rightarrow> 'n env \<Rightarrow> 'n tc_state \<Rightarrow> nat res \<times> 'n tc_state" where
  "count_visible left E st =
     and_then (tc_on_tree (tx_iterator_new (en_fuel E)) st) (\<lambda>it st.
     and_then (scan_visible left E it st) (\<lambda>vdocs st. (Ok (length vdocs), st)))"

subsection \<open>Indexes\<close>

text \<open>The operations of a transaction change pages and counters of the database, not its metadata.\<close>

definition same_metadata :: "'n tc_state \<Rightarrow> 'n tc_state \<Rightarrow> bool" where
  "same_metadata st st' \<longleftrightarrow> db_metadata (snd (snd st')) = db_metadata (snd (snd st))"

interpretation meta: frame same_metadata
  by unfold_locales (auto simp: same_metadata_def)

lemma metadata_kept:
  "same_metadata st (tc_upd_tx g st)"
  "same_metadata st (snd (tc_on_tx h st))"
  "same_metadata st (snd (tc_on_tree f st))"
  "same_metadata st (snd (tc_on_index name f st))"
  "same_metadata st (snd (tc_write d data st))"
  "same_metadata st (tc_count c st)"
  by (auto simp: same_metadata_def tc_upd_tx_def tc_on_tx_def tc_on_tree_def tc_on_index_def tc_write_def tc_count_def
      split: prod.split option.split res.split)

lemma found_snd: "snd (found r) = snd r"
  by (auto simp: found_def split: prod.split res.split)

lemma insert_index_metadata: "same_metadata st (snd (tc_insert_index E doc i p name st))"
  unfolding tc_insert_index_def Let_def
  by (auto intro!: meta.and_then simp: metadata_kept meta.R_refl)

lemma insert_metadata: "same_metadata st (snd (tc_insert E fresh doc st))"
proof -
  have pages: "same_metadata st (snd (for_each (\<lambda>(p, d). tc_on_tx (tx_write_page p d)) pages st))" for pages and st :: "'a tc_state"
    by (rule meta.for_each) (auto simp: metadata_kept split: prod.split)
  have last: "same_metadata st (tc_count document_inserted (tc_upd_tx g st))" for g and st :: "'a tc_state"
    by (rule meta.R_trans [OF metadata_kept(1,6)])
  have store: "same_metadata t (snd (and_then (tc_write key data t) (\<lambda>(page_num, pages) st.
      and_then (tc_on_tree (Tx_Btree.tx_insert (en_fuel E) key page_num) st) (\<lambda>_ st.
      and_then (for_each (tc_insert_index E doc doc_id page_num) (map fst (tc_indexes (fst st))) st) (\<lambda>_ st.
      and_then (for_each (\<lambda>(p, d). tc_on_tx (tx_write_page p d)) pages st) (\<lambda>_ st.
      and_then (tc_on_tx (tx_write_document name key page_num) st) (\<lambda>_ st.
      let st = tc_upd_tx (set_collection_root name (get_current_root (tc_btree (fst st)))) st
      in (Ok doc_id, tc_count document_inserted st))))))))" for key data doc doc_id name and t :: "'a tc_state"
    unfolding Let_def split_beta
    by (intro meta.and_then) (simp_all add: metadata_kept last meta.for_each insert_index_metadata pages [unfolded split_beta])
  show ?thesis
  proof (cases "as_object doc")
    case (Some obj)
    show ?thesis unfolding tc_insert_def Let_def Some option.case split_beta
      using meta.R_trans [OF metadata_kept(1) store [unfolded Let_def split_beta]]
      by (auto intro!: meta.and_then simp: metadata_kept meta.R_refl found_snd)
  qed (simp add: tc_insert_def meta.R_refl)
qed

text \<open>
  C34: An insertion in a transaction and its commit, in a batch or alone, leave the indexes of every collection as they were, whatever their results: the roots of the indexes in the metadata are the
  old ones, although the insertion adds its entries to copies of the index trees, which have new roots.
\<close>

theorem commit_keeps_indexes:
  "case tc_insert E fresh doc (tc, tx, db) of (r, tc', tx', db') \<Rightarrow>
     same_indexes (db_metadata db) (db_metadata (snd (execute_batch_commit E batch db'))) \<and>
     same_indexes (db_metadata db) (db_metadata (snd (snd (commit_single E (tx', db')))))"
proof -
  obtain r tc' tx' db' where i: "tc_insert E fresh doc (tc, tx, db) = (r, tc', tx', db')" by (metis prod_cases4)
  have "db_metadata db' = db_metadata db" using insert_metadata [of "(tc, tx, db)" E fresh doc] i by (simp add: same_metadata_def)
  then show ?thesis using i idx.execute_batch_commit [of db' E batch] idx.commit_single [of "(tx', db')" E] by (simp add: indexes_kept_def)
qed

end
