(* ===== verification/Collection.thy ===== *)
theory Collection
  imports Tx_Collection
begin

text \<open>
  \<open>src/core/collection.rs\<close>: the operations on a collection, each a transaction of its own, and the bulk writes.

  An operation begins a transaction, which is dropped at its end; a drop aborts a transaction that has not committed. The trees are not those of the transaction: \<open>BTree\<close> changes
  the pages of the collection in place. One thread uses the database at a time here, so that a commit finds only its own request in the queue; \<open>Tx_Commit\<close> has the commits of several threads.
  The bound \<open>en_fuel\<close> also limits the entries of a scan. Ids that \<open>generate_id\<close> makes are the arguments \<open>fresh\<close>.
\<close>

subsection \<open>Specification\<close>

subsubsection \<open>A tree within a transaction\<close>

type_synonym 'n bt_tx = "btree \<times> 'n tx_db"

definition bt_on_tree :: "(bt_state \<Rightarrow> 'a res \<times> bt_state) \<Rightarrow> 'n bt_tx \<Rightarrow> 'a res \<times> 'n bt_tx" where
  "bt_on_tree f st =
     (case st of (bt, tx, db) \<Rightarrow> case f (bt, db_pager db) of (r, bt, s) \<Rightarrow> (r, bt, tx, db\<lparr>db_pager := s\<rparr>))"

definition bt_on_tx :: "(transaction \<Rightarrow> 'a res \<times> transaction) \<Rightarrow> 'n bt_tx \<Rightarrow> 'a res \<times> 'n bt_tx" where
  "bt_on_tx f st = (case st of (bt, tx, db) \<Rightarrow> case f tx of (r, tx) \<Rightarrow> (r, bt, tx, db))"

definition bt_on_db :: "('n database \<Rightarrow> 'a res \<times> 'n database) \<Rightarrow> 'n bt_tx \<Rightarrow> 'a res \<times> 'n bt_tx" where
  "bt_on_db f st = (case st of (bt, tx, db) \<Rightarrow> case f db of (r, db) \<Rightarrow> (r, bt, tx, db))"

definition bt_read :: "page_num \<Rightarrow> 'n bt_tx \<Rightarrow> versioned_document res \<times> 'n bt_tx" where
  "bt_read page_num st =
     (case st of (bt, tx, db) \<Rightarrow>
      case read_versioned_document page_num (tx_writes tx) (db_pager db) of (r, s) \<Rightarrow> (r, bt, tx, db\<lparr>db_pager := s\<rparr>))"

definition bt_write :: "string \<Rightarrow> bytes \<Rightarrow> 'n bt_tx \<Rightarrow> (page_num \<times> page_writes) res \<times> 'n bt_tx" where
  "bt_write doc_id data st =
     (case st of (bt, tx, db) \<Rightarrow>
      case write_versioned_document doc_id data (tx_mvcc_tx_id tx) 0 (db_pager db, []) of
        (Ok (page_num, _), s, w) \<Rightarrow> (Ok (page_num, w), bt, tx, db\<lparr>db_pager := s\<rparr>)
      | (Err e, s, _) \<Rightarrow> (Err e, bt, tx, db\<lparr>db_pager := s\<rparr>)
      | (Panic, s, _) \<Rightarrow> (Panic, bt, tx, db\<lparr>db_pager := s\<rparr>))"

text \<open>A transaction around the body of an operation.\<close>

definition with_tx :: "('n tx_db \<Rightarrow> 'a res \<times> 'n tx_db) \<Rightarrow> 'n database \<Rightarrow> 'a res \<times> 'n database" where
  "with_tx f db = (case f (db_begin db) of (r, st) \<Rightarrow> (r, snd (drop_transaction st)))"

definition on_tree_of :: "btree \<Rightarrow> ('n bt_tx \<Rightarrow> 'a res \<times> 'n bt_tx) \<Rightarrow> 'n tx_db \<Rightarrow> 'a res \<times> 'n tx_db" where
  "on_tree_of bt f st = (case f (bt, st) of (r, _, st) \<Rightarrow> (r, st))"

definition commit_alone :: "'n env \<Rightarrow> 'n tx_db \<Rightarrow> unit res \<times> 'n tx_db" where
  "commit_alone E st = (case commit E id (\<lambda>_. quiet_round) st of (Some r, st) \<Rightarrow> (r, st) | (None, st) \<Rightarrow> (Panic, st))"

definition bt_commit :: "'n env \<Rightarrow> 'n bt_tx \<Rightarrow> unit res \<times> 'n bt_tx" where
  "bt_commit E st = (case st of (bt, s) \<Rightarrow> case commit_alone E s of (r, s) \<Rightarrow> (r, bt, s))"

subsubsection \<open>Roots and schemas\<close>

definition not_found :: error where
  "not_found = Other ''document not found''"

definition must_be_object :: error where
  "must_be_object = Other ''document must be an object''"

definition root_or_error :: "string \<Rightarrow> 'n database \<Rightarrow> page_num res" where
  "root_or_error name db =
     (case hm_get (md_collections (db_metadata db)) name of
        Some c \<Rightarrow> Ok (cm_btree_root c)
      | None \<Rightarrow> Err (Other ''collection not found''))"

definition open_or_new :: "string \<Rightarrow> 'n tx_db \<Rightarrow> btree res \<times> 'n tx_db" where
  "open_or_new name st =
     (case st of (tx, db) \<Rightarrow>
      let btree_root = collection_root (db_metadata db) name in
      if btree_root = 0 then (case btree_new (db_pager db) of (r, s) \<Rightarrow> (r, tx, db\<lparr>db_pager := s\<rparr>))
      else (Ok (btree_open btree_root), st))"

definition check_schema :: "'n env \<Rightarrow> string \<Rightarrow> (ustring \<times> 'n json) list \<Rightarrow> 'n database \<Rightarrow> unit res" where
  "check_schema E name doc db =
     (case hm_get (md_collections (db_metadata db)) name of
        None \<Rightarrow> Ok ()
      | Some c \<Rightarrow>
          (case cm_schema c of
             None \<Rightarrow> Ok ()
           | Some s \<Rightarrow> (case validate (en_numbers E) s (JObject doc) of None \<Rightarrow> Ok () | Some _ \<Rightarrow> Err (SchemaValidation ''schema''))))"

definition coll_document_id :: "ustring \<Rightarrow> (ustring \<times> 'n json) list \<Rightarrow> (ustring \<times> (ustring \<times> 'n json) list) res" where
  "coll_document_id fresh doc =
     (case map_of doc ID of
        Some (JString i) \<Rightarrow> Ok (i, doc)
      | Some _ \<Rightarrow> Err (Other ''_id must be a string'')
      | None \<Rightarrow> Ok (fresh, obj_insert ID (JString fresh) doc))"

subsubsection \<open>Operations on one document\<close>

definition put_pages :: "page_writes \<Rightarrow> 'n bt_tx \<Rightarrow> unit res \<times> 'n bt_tx" where
  "put_pages pages st = for_each (\<lambda>(p, d). bt_on_tx (tx_write_page p d)) pages st"

definition store_new :: "'n env \<Rightarrow> string \<Rightarrow> ustring \<Rightarrow> (ustring \<times> 'n json) list \<Rightarrow> 'n bt_tx \<Rightarrow> unit res \<times> 'n bt_tx" where
  "store_new E name doc_id doc st =
     (let key = utf8 doc_id in
      and_then (found (bt_on_tree (btree_search (en_fuel E) key) st)) (\<lambda>exists st.
      if exists then (Err (Other ''document already exists''), st)
      else and_then (bt_write key (to_vec E doc) st) (\<lambda>(page_num, pages) st.
        and_then (bt_on_tree (btree_insert (en_fuel E) key page_num) st) (\<lambda>_ st.
        and_then (put_pages pages st) (\<lambda>_ st.
        bt_on_tx (tx_write_document name key page_num) st)))))"

definition publish_and_commit :: "'n env \<Rightarrow> string \<Rightarrow> 'n bt_tx \<Rightarrow> unit res \<times> 'n bt_tx" where
  "publish_and_commit E name st =
     (case st of (bt, tx, db) \<Rightarrow> bt_commit E (bt, set_collection_root name (get_root_page bt) tx, db))"

definition coll_insert :: "'n env \<Rightarrow> string \<Rightarrow> ustring \<Rightarrow> 'n json \<Rightarrow> 'n database \<Rightarrow> ustring res \<times> 'n database" where
  "coll_insert E name fresh doc db =
     (case as_object doc of
        None \<Rightarrow> (Err must_be_object, db)
      | Some doc \<Rightarrow>
        and_then (check_schema E name doc db, db) (\<lambda>_ db.
        and_then (coll_document_id fresh doc, db) (\<lambda>(doc_id, doc) db.
        with_tx (\<lambda>st.
          and_then (open_or_new name st) (\<lambda>bt st.
          on_tree_of bt (\<lambda>st.
            and_then (store_new E name doc_id doc st) (\<lambda>_ st.
            and_then (publish_and_commit E name st) (\<lambda>_ st. (Ok doc_id, st)))) st)) db)))"

text \<open>The document that a search leads to, if the snapshot shows it.\<close>

definition visible_at :: "'n env \<Rightarrow> string \<Rightarrow> 'n bt_tx \<Rightarrow> versioned_document res \<times> 'n bt_tx" where
  "visible_at E key st =
     and_then (bt_on_tree (btree_search (en_fuel E) key) st) (\<lambda>page_num st.
     and_then (bt_read page_num st) (\<lambda>vdoc st.
     if vd_is_visible vdoc (tx_snapshot_id (fst (snd st))) then (Ok vdoc, st) else (Err not_found, st)))"

definition in_collection :: "string \<Rightarrow> 'a res \<Rightarrow> ('n bt_tx \<Rightarrow> 'a res \<times> 'n bt_tx) \<Rightarrow> 'n database \<Rightarrow> 'a res \<times> 'n database" where
  "in_collection name no_root f db =
     with_tx (\<lambda>st.
       and_then (root_or_error name (snd st), st) (\<lambda>btree_root st.
       if btree_root = 0 then (no_root, st) else on_tree_of (btree_open btree_root) f st)) db"

definition parse_doc :: "'n env \<Rightarrow> bytes \<Rightarrow> 'n json res" where
  "parse_doc E data = (case en_from_slice E data of Some v \<Rightarrow> Ok v | None \<Rightarrow> Err json_error)"

definition coll_find_by_id :: "'n env \<Rightarrow> string \<Rightarrow> ustring \<Rightarrow> 'n database \<Rightarrow> 'n json res \<times> 'n database" where
  "coll_find_by_id E name i db =
     in_collection name (Err not_found) (\<lambda>st.
       and_then (visible_at E (utf8 i) st) (\<lambda>vdoc st. (parse_doc E (vd_data vdoc), st))) db"

definition store_update :: "'n env \<Rightarrow> string \<Rightarrow> ustring \<Rightarrow> (ustring \<times> 'n json) list \<Rightarrow> 'n bt_tx \<Rightarrow> unit res \<times> 'n bt_tx" where
  "store_update E name i updates st =
     and_then (visible_at E (utf8 i) st) (\<lambda>vdoc st.
     and_then (from_slice_map E (vd_data vdoc), st) (\<lambda>doc st.
     let doc = merged doc i updates in
     and_then (check_schema E name doc (snd (snd st)), st) (\<lambda>_ st.
     and_then (bt_write (utf8 i) (to_vec E doc) st) (\<lambda>(new_page_num, pages) st.
     and_then (bt_on_tree (btree_delete (en_fuel E) (utf8 i)) st) (\<lambda>_ st.
     and_then (bt_on_tree (btree_insert (en_fuel E) (utf8 i) new_page_num) st) (\<lambda>_ st.
     and_then (put_pages pages st) (\<lambda>_ st.
     bt_on_tx (tx_write_document name (utf8 i) new_page_num) st)))))))"

definition coll_update_by_id :: "'n env \<Rightarrow> string \<Rightarrow> ustring \<Rightarrow> 'n json \<Rightarrow> 'n database \<Rightarrow> unit res \<times> 'n database" where
  "coll_update_by_id E name i updates db =
     (case as_object updates of
        None \<Rightarrow> (Err (Other ''updates must be an object''), db)
      | Some updates \<Rightarrow>
          in_collection name (Err not_found) (\<lambda>st.
            and_then (store_update E name i updates st) (\<lambda>_ st. publish_and_commit E name st)) db)"

definition remove_entry_of :: "'n env \<Rightarrow> string \<Rightarrow> 'n bt_tx \<Rightarrow> unit res \<times> 'n bt_tx" where
  "remove_entry_of E key st =
     and_then (bt_on_tree (btree_search (en_fuel E) key) st) (\<lambda>page_num st.
     and_then (bt_on_db (db_on_pager (delete_document page_num)) st) (\<lambda>_ st.
     bt_on_tree (btree_delete (en_fuel E) key) st))"

definition coll_delete_by_id :: "'n env \<Rightarrow> string \<Rightarrow> ustring \<Rightarrow> 'n database \<Rightarrow> unit res \<times> 'n database" where
  "coll_delete_by_id E name i db =
     in_collection name (Err not_found) (\<lambda>st.
       and_then (remove_entry_of E (utf8 i) st) (\<lambda>_ st. publish_and_commit E name st)) db"

subsubsection \<open>Scans and queries\<close>

fun scan_docs :: "nat \<Rightarrow> btree_iterator \<Rightarrow> 'n bt_tx \<Rightarrow> versioned_document list res \<times> 'n bt_tx" where
  "scan_docs 0 it st = (Panic, st)"
| "scan_docs (Suc left) it st =
     and_then (bt_on_tree (iterator_next it) st) (\<lambda>(more, it) st.
     if \<not> more then (Ok [], st)
     else and_then (no_panic (iterator_entry it), st) (\<lambda>(_, page_num) st.
       case bt_read page_num st of
         (Panic, st) \<Rightarrow> (Panic, st)
       | (Err _, st) \<Rightarrow> scan_docs left it st
       | (Ok vdoc, st) \<Rightarrow>
           and_then (scan_docs left it st) (\<lambda>rest st.
           (Ok (if vd_is_visible vdoc (tx_snapshot_id (fst (snd st))) then vdoc # rest else rest), st))))"

definition visible_docs :: "'n env \<Rightarrow> 'n bt_tx \<Rightarrow> versioned_document list res \<times> 'n bt_tx" where
  "visible_docs E st = and_then (bt_on_tree (btree_iterator_new (en_fuel E)) st) (\<lambda>it st. scan_docs (en_fuel E) it st)"

definition find_all_in_tx :: "'n env \<Rightarrow> 'n bt_tx \<Rightarrow> 'n json list res \<times> 'n bt_tx" where
  "find_all_in_tx E st =
     and_then (visible_docs E st) (\<lambda>vdocs st. (Ok (List.map_filter (\<lambda>v. en_from_slice E (vd_data v)) vdocs), st))"

definition coll_find_all :: "'n env \<Rightarrow> string \<Rightarrow> 'n database \<Rightarrow> 'n json list res \<times> 'n database" where
  "coll_find_all E name db = in_collection name (Ok []) (find_all_in_tx E) db"

definition coll_count :: "'n env \<Rightarrow> string \<Rightarrow> 'n database \<Rightarrow> nat res \<times> 'n database" where
  "coll_count E name db =
     in_collection name (Ok 0) (\<lambda>st. and_then (visible_docs E st) (\<lambda>vdocs st. (Ok (length vdocs), st))) db"

definition parse_or_error :: "'n env \<Rightarrow> ustring \<Rightarrow> 'n node res" where
  "parse_or_error E query =
     (case parse_query (en_unicode E) (en_numbers E) query of
        POk ast \<Rightarrow> Ok ast
      | PErr _ \<Rightarrow> Err (Other ''failed to parse query'')
      | PPanic \<Rightarrow> Panic
      | PFuel \<Rightarrow> Panic)"

definition satisfies :: "'n env \<Rightarrow> 'n node \<Rightarrow> 'n json \<Rightarrow> bool" where
  "satisfies E ast doc = (case as_object doc of Some m \<Rightarrow> eval_node (en_numbers E) ast m | None \<Rightarrow> False)"

definition coll_find :: "'n env \<Rightarrow> string \<Rightarrow> ustring \<Rightarrow> 'n database \<Rightarrow> 'n json list res \<times> 'n database" where
  "coll_find E name query db =
     and_then (parse_or_error E query, db) (\<lambda>ast db.
     and_then (coll_find_all E name db) (\<lambda>docs db. (Ok (filter (satisfies E ast) docs), db)))"

definition coll_find_one :: "'n env \<Rightarrow> string \<Rightarrow> ustring \<Rightarrow> 'n database \<Rightarrow> 'n json option res \<times> 'n database" where
  "coll_find_one E name query db =
     and_then (coll_find E name query db) (\<lambda>docs db. (Ok (case docs of [] \<Rightarrow> None | d # _ \<Rightarrow> Some d), db))"

definition count_with_query :: "'n env \<Rightarrow> string \<Rightarrow> ustring option \<Rightarrow> 'n database \<Rightarrow> nat res \<times> 'n database" where
  "count_with_query E name query db =
     (case query of
        Some q \<Rightarrow> and_then (coll_find E name q db) (\<lambda>docs db. (Ok (length docs), db))
      | None \<Rightarrow> coll_count E name db)"

text \<open>\<open>doc.get("_id").and_then(|v| v.as_str())\<close>, and a loop over the documents that have one, which counts them.\<close>

definition id_of :: "'n json \<Rightarrow> ustring option" where
  "id_of doc = (case json_get doc ID of Some v \<Rightarrow> as_str v | None \<Rightarrow> None)"

fun each_id :: "(ustring \<Rightarrow> 's \<Rightarrow> unit res \<times> 's) \<Rightarrow> 'n json list \<Rightarrow> nat \<Rightarrow> 's \<Rightarrow> nat res \<times> 's" where
  "each_id f [] n s = (Ok n, s)"
| "each_id f (doc # docs) n s =
     (case id_of doc of
        None \<Rightarrow> each_id f docs n s
      | Some i \<Rightarrow> and_then (f i s) (\<lambda>_ s. each_id f docs (n + 1) s))"

definition first_id :: "(ustring \<Rightarrow> 's \<Rightarrow> unit res \<times> 's) \<Rightarrow> 'n json option \<Rightarrow> 's \<Rightarrow> bool res \<times> 's" where
  "first_id f doc s =
     (case doc of
        None \<Rightarrow> (Ok False, s)
      | Some d \<Rightarrow> (case id_of d of None \<Rightarrow> (Ok False, s) | Some i \<Rightarrow> and_then (f i s) (\<lambda>_ s. (Ok True, s))))"

definition coll_update :: "'n env \<Rightarrow> string \<Rightarrow> ustring \<Rightarrow> 'n json \<Rightarrow> 'n database \<Rightarrow> nat res \<times> 'n database" where
  "coll_update E name query updates db =
     (if as_object updates = None then (Err (Other ''updates must be an object''), db)
      else and_then (coll_find E name query db) (\<lambda>docs db. each_id (\<lambda>i. coll_update_by_id E name i updates) docs 0 db))"

definition coll_update_one :: "'n env \<Rightarrow> string \<Rightarrow> ustring \<Rightarrow> 'n json \<Rightarrow> 'n database \<Rightarrow> bool res \<times> 'n database" where
  "coll_update_one E name query updates db =
     and_then (coll_find_one E name query db) (\<lambda>doc db. first_id (\<lambda>i. coll_update_by_id E name i updates) doc db)"

definition coll_delete :: "'n env \<Rightarrow> string \<Rightarrow> ustring \<Rightarrow> 'n database \<Rightarrow> nat res \<times> 'n database" where
  "coll_delete E name query db =
     and_then (coll_find E name query db) (\<lambda>docs db. each_id (coll_delete_by_id E name) docs 0 db)"

definition coll_delete_one :: "'n env \<Rightarrow> string \<Rightarrow> ustring \<Rightarrow> 'n database \<Rightarrow> bool res \<times> 'n database" where
  "coll_delete_one E name query db =
     and_then (coll_find_one E name query db) (\<lambda>doc db. first_id (coll_delete_by_id E name) doc db)"

datatype upsert_result = Inserted ustring | Updated ustring

definition upsert_by_id :: "'n env \<Rightarrow> string \<Rightarrow> ustring \<Rightarrow> 'n json \<Rightarrow> 'n database \<Rightarrow> upsert_result res \<times> 'n database" where
  "upsert_by_id E name i doc db =
     (case as_object doc of
        None \<Rightarrow> (Err must_be_object, db)
      | Some doc_map \<Rightarrow>
        and_then (found (coll_find_by_id E name i db)) (\<lambda>exists db.
        if exists then and_then (coll_update_by_id E name i doc db) (\<lambda>_ db. (Ok (Updated i), db))
        else and_then (coll_insert E name i (JObject (obj_insert ID (JString i) doc_map)) db) (\<lambda>_ db. (Ok (Inserted i), db))))"

text \<open>\<open>Err(Error::Other(msg)) if msg.contains("not found")\<close>\<close>

fun contains_text :: "string \<Rightarrow> string \<Rightarrow> bool" where
  "contains_text p [] = (p = [])"
| "contains_text p (x # xs) = (take (length p) (x # xs) = p \<or> contains_text p xs)"

definition is_not_found :: "error \<Rightarrow> bool" where
  "is_not_found e = (case e of Other msg \<Rightarrow> contains_text ''not found'' msg | _ \<Rightarrow> False)"

definition or_if_not_found :: "'a \<Rightarrow> 'a res \<times> 's \<Rightarrow> 'a res \<times> 's" where
  "or_if_not_found d r = (case r of (Err e, s) \<Rightarrow> (if is_not_found e then Ok d else Err e, s) | _ \<Rightarrow> r)"

definition upsert :: "'n env \<Rightarrow> string \<Rightarrow> ustring \<Rightarrow> ustring \<Rightarrow> 'n json \<Rightarrow> 'n database \<Rightarrow> upsert_result res \<times> 'n database" where
  "upsert E name fresh query doc db =
     (if as_object doc = None then (Err must_be_object, db)
      else and_then (or_if_not_found None (coll_find_one E name query db)) (\<lambda>existing db.
        case (case existing of Some d \<Rightarrow> id_of d | None \<Rightarrow> None) of
          Some i \<Rightarrow> and_then (coll_update_by_id E name i doc db) (\<lambda>_ db. (Ok (Updated i), db))
        | None \<Rightarrow> and_then (coll_insert E name fresh doc db) (\<lambda>i db. (Ok (Inserted i), db))))"

text \<open>Values are distinct by their text; an array counts by its elements.\<close>

definition add_distinct :: "('n json \<Rightarrow> ustring) \<Rightarrow> 'n json \<Rightarrow> ustring set \<times> 'n json list \<Rightarrow> ustring set \<times> 'n json list" where
  "add_distinct to_text v acc =
     (case acc of (seen, results) \<Rightarrow>
      if to_text v \<in> seen then acc else (insert (to_text v) seen, results @ [v]))"

fun walk_parts :: "'n json \<Rightarrow> ustring list \<Rightarrow> 'n json" where
  "walk_parts v [] = v"
| "walk_parts v (part # parts) =
     (case as_object v of
        Some obj \<Rightarrow> walk_parts (case map_of obj part of Some w \<Rightarrow> w | None \<Rightarrow> JNull) parts
      | None \<Rightarrow> JNull)"

definition get_nested_field_value :: "(ustring \<times> 'n json) list \<Rightarrow> ustring \<Rightarrow> 'n json" where
  "get_nested_field_value doc field = walk_parts (JObject doc) (split_at_char 46 field)"

definition distinct_of :: "'n env \<Rightarrow> ustring \<Rightarrow> 'n json \<Rightarrow> ustring set \<times> 'n json list \<Rightarrow> ustring set \<times> 'n json list" where
  "distinct_of E field doc acc =
     (case as_object doc of
        None \<Rightarrow> acc
      | Some m \<Rightarrow>
          (case get_nested_field_value m field of
             JArray arr \<Rightarrow> fold (add_distinct (en_to_text E)) arr acc
           | v \<Rightarrow> add_distinct (en_to_text E) v acc))"

definition coll_distinct :: "'n env \<Rightarrow> string \<Rightarrow> ustring \<Rightarrow> 'n database \<Rightarrow> 'n json list res \<times> 'n database" where
  "coll_distinct E name field db =
     and_then (or_if_not_found [] (coll_find_all E name db)) (\<lambda>docs db.
     (Ok (snd (fold (distinct_of E field) docs ({}, []))), db))"

definition count_distinct :: "'n env \<Rightarrow> string \<Rightarrow> ustring \<Rightarrow> 'n database \<Rightarrow> nat res \<times> 'n database" where
  "count_distinct E name field db = and_then (coll_distinct E name field db) (\<lambda>vs db. (Ok (length vs), db))"

subsubsection \<open>Bulk writes\<close>

datatype 'n bulk_operation =
    BulkInsert "'n json"
  | BulkUpdateOne ustring "'n json"
  | BulkUpdateMany ustring "'n json"
  | BulkDeleteOne ustring
  | BulkDeleteMany ustring

record bulk_write_result =
  bw_inserted_count :: nat
  bw_updated_count :: nat
  bw_deleted_count :: nat
  bw_errors :: "(nat \<times> error) list"

record 'n bulk_write =
  bw_operations :: "'n bulk_operation list"
  bw_ordered :: bool

definition bulk_write_new :: "'n bulk_write" where
  "bulk_write_new = \<lparr>bw_operations = [], bw_ordered = True\<rparr>"

definition bw_push :: "'n bulk_operation \<Rightarrow> 'n bulk_write \<Rightarrow> 'n bulk_write" where
  "bw_push op b = b\<lparr>bw_operations := bw_operations b @ [op]\<rparr>"

definition bw_set_ordered :: "bool \<Rightarrow> 'n bulk_write \<Rightarrow> 'n bulk_write" where
  "bw_set_ordered v b = b\<lparr>bw_ordered := v\<rparr>"

definition bulk_insert :: "'n env \<Rightarrow> string \<Rightarrow> ustring \<Rightarrow> 'n json \<Rightarrow> 'n bt_tx \<Rightarrow> ustring res \<times> 'n bt_tx" where
  "bulk_insert E name fresh doc st =
     (case as_object doc of
        None \<Rightarrow> (Err must_be_object, st)
      | Some doc \<Rightarrow>
          and_then (coll_document_id fresh doc, st) (\<lambda>(doc_id, doc) st.
          and_then (store_new E name doc_id doc st) (\<lambda>_ st. (Ok doc_id, st))))"

definition find_in_tx :: "'n env \<Rightarrow> ustring \<Rightarrow> 'n bt_tx \<Rightarrow> 'n json list res \<times> 'n bt_tx" where
  "find_in_tx E query st =
     and_then (parse_or_error E query, st) (\<lambda>ast st.
     and_then (find_all_in_tx E st) (\<lambda>docs st. (Ok (filter (satisfies E ast) docs), st)))"

definition find_one_in_tx :: "'n env \<Rightarrow> ustring \<Rightarrow> 'n bt_tx \<Rightarrow> 'n json option res \<times> 'n bt_tx" where
  "find_one_in_tx E query st =
     and_then (find_in_tx E query st) (\<lambda>docs st. (Ok (case docs of [] \<Rightarrow> None | d # _ \<Rightarrow> Some d), st))"

definition as_count :: "bool res \<times> 's \<Rightarrow> nat res \<times> 's" where
  "as_count r = and_then r (\<lambda>b s. (Ok (if b then 1 else 0), s))"

definition bulk_update_one :: "'n env \<Rightarrow> string \<Rightarrow> ustring \<Rightarrow> 'n json \<Rightarrow> 'n bt_tx \<Rightarrow> nat res \<times> 'n bt_tx" where
  "bulk_update_one E name query updates st =
     (case as_object updates of
        None \<Rightarrow> (Err (Other ''updates must be an object''), st)
      | Some m \<Rightarrow> and_then (find_one_in_tx E query st) (\<lambda>doc st. as_count (first_id (\<lambda>i. store_update E name i m) doc st)))"

definition bulk_update_many :: "'n env \<Rightarrow> string \<Rightarrow> ustring \<Rightarrow> 'n json \<Rightarrow> 'n bt_tx \<Rightarrow> nat res \<times> 'n bt_tx" where
  "bulk_update_many E name query updates st =
     (case as_object updates of
        None \<Rightarrow> (Err (Other ''updates must be an object''), st)
      | Some m \<Rightarrow> and_then (find_in_tx E query st) (\<lambda>docs st. each_id (\<lambda>i. store_update E name i m) docs 0 st))"

definition bulk_delete_one :: "'n env \<Rightarrow> ustring \<Rightarrow> 'n bt_tx \<Rightarrow> nat res \<times> 'n bt_tx" where
  "bulk_delete_one E query st =
     and_then (find_one_in_tx E query st) (\<lambda>doc st. as_count (first_id (\<lambda>i. remove_entry_of E (utf8 i)) doc st))"

definition bulk_delete_many :: "'n env \<Rightarrow> ustring \<Rightarrow> 'n bt_tx \<Rightarrow> nat res \<times> 'n bt_tx" where
  "bulk_delete_many E query st =
     and_then (find_in_tx E query st) (\<lambda>docs st. each_id (\<lambda>i. remove_entry_of E (utf8 i)) docs 0 st)"

text \<open>The numbers of inserted, updated and deleted documents of one operation; \<open>fresh\<close> is the id for a document that has none.\<close>

definition bulk_step :: "'n env \<Rightarrow> string \<Rightarrow> ustring \<Rightarrow> 'n bulk_operation \<Rightarrow> 'n bt_tx \<Rightarrow> (nat \<times> nat \<times> nat) res \<times> 'n bt_tx" where
  "bulk_step E name fresh op st =
     (case op of
        BulkInsert doc \<Rightarrow> and_then (bulk_insert E name fresh doc st) (\<lambda>_ st. (Ok (1, 0, 0), st))
      | BulkUpdateOne query updates \<Rightarrow> and_then (bulk_update_one E name query updates st) (\<lambda>n st. (Ok (0, n, 0), st))
      | BulkUpdateMany query updates \<Rightarrow> and_then (bulk_update_many E name query updates st) (\<lambda>n st. (Ok (0, n, 0), st))
      | BulkDeleteOne query \<Rightarrow> and_then (bulk_delete_one E query st) (\<lambda>n st. (Ok (0, 0, n), st))
      | BulkDeleteMany query \<Rightarrow> and_then (bulk_delete_many E query st) (\<lambda>n st. (Ok (0, 0, n), st)))"

definition add_counts :: "nat \<times> nat \<times> nat \<Rightarrow> bulk_write_result \<Rightarrow> bulk_write_result" where
  "add_counts n r =
     (case n of (i, u, d) \<Rightarrow>
      r\<lparr>bw_inserted_count := bw_inserted_count r + i, bw_updated_count := bw_updated_count r + u,
        bw_deleted_count := bw_deleted_count r + d\<rparr>)"

text \<open>The loop over the operations: the ids are \<open>fresh 0\<close>, \<open>fresh 1\<close>, and so on.\<close>

fun bulk_loop ::
    "'n env \<Rightarrow> string \<Rightarrow> (nat \<Rightarrow> ustring) \<Rightarrow> bool \<Rightarrow> nat \<Rightarrow> 'n bulk_operation list \<Rightarrow> bulk_write_result \<Rightarrow> 'n bt_tx \<Rightarrow> bulk_write_result res \<times> 'n bt_tx" where
  "bulk_loop E name fresh ord idx [] result st = (Ok result, st)"
| "bulk_loop E name fresh ord idx (op # ops) result st =
     (case bulk_step E name (fresh idx) op st of
        (Ok n, st) \<Rightarrow> bulk_loop E name fresh ord (idx + 1) ops (add_counts n result) st
      | (Err e, st) \<Rightarrow>
          if ord then (Err (Other ''bulk write failed''), st)
          else bulk_loop E name fresh ord (idx + 1) ops (result\<lparr>bw_errors := bw_errors result @ [(idx, e)]\<rparr>) st
      | (Panic, st) \<Rightarrow> (Panic, st))"

definition bulk_result_new :: bulk_write_result where
  "bulk_result_new = \<lparr>bw_inserted_count = 0, bw_updated_count = 0, bw_deleted_count = 0, bw_errors = []\<rparr>"

text \<open>\<open>Database::update_metadata\<close> writes the changed metadata to its page at once.\<close>

definition update_metadata :: "'n env \<Rightarrow> ('n metadata \<Rightarrow> 'n metadata) \<Rightarrow> 'n database \<Rightarrow> unit res \<times> 'n database" where
  "update_metadata E f db =
     (if db_read_only db then (Err (Other ''database is read-only''), db)
      else
        let db = db\<lparr>db_metadata := f (db_metadata db)\<rparr> in
        and_then (metadata_serialize (en_codec E) (db_metadata db), db) (\<lambda>meta_data db.
        let meta_data = pad_page meta_data; meta_page = pg_metadata_page (db_pager db) in
        and_then (if meta_page > 0 then db_on_pager (write_page_transfer meta_page meta_data) db
                  else and_then (db_on_pager alloc_page db) (\<lambda>new_meta_page db.
                       and_then (db_on_pager (write_page_transfer new_meta_page meta_data) db) (\<lambda>_ db.
                       and_then (db_on_pager (set_metadata_page new_meta_page) db) (\<lambda>_ db.
                       db_on_pager write_header db)))) (\<lambda>_ db.
        db_on_pager flush db)))"

definition publish_root :: "'n env \<Rightarrow> string \<Rightarrow> 'n bt_tx \<Rightarrow> unit res \<times> 'n bt_tx" where
  "publish_root E name st = bt_on_db (update_metadata E (set_root name (get_root_page (fst st)))) st"

definition bulk_execute :: "'n env \<Rightarrow> string \<Rightarrow> (nat \<Rightarrow> ustring) \<Rightarrow> 'n bulk_write \<Rightarrow> 'n database \<Rightarrow> bulk_write_result res \<times> 'n database" where
  "bulk_execute E name fresh b db =
     (if bw_operations b = [] then (Ok bulk_result_new, db)
      else if length (bw_operations b) > db_max_bulk_operations db
      then (Err (BulkOperationTooLarge (length (bw_operations b)) (db_max_bulk_operations db)), db)
      else with_tx (\<lambda>st.
        and_then (open_or_new name st) (\<lambda>bt st.
        on_tree_of bt (\<lambda>st.
          and_then (bulk_loop E name fresh (bw_ordered b) 0 (bw_operations b) bulk_result_new st) (\<lambda>result st.
          and_then (publish_root E name st) (\<lambda>_ st.
          and_then (bt_commit E st) (\<lambda>_ st. (Ok result, st))))) st)) db)"

fun insert_all :: "'n env \<Rightarrow> string \<Rightarrow> (nat \<Rightarrow> ustring) \<Rightarrow> nat \<Rightarrow> 'n json list \<Rightarrow> 'n bt_tx \<Rightarrow> ustring list res \<times> 'n bt_tx" where
  "insert_all E name fresh idx [] st = (Ok [], st)"
| "insert_all E name fresh idx (doc # docs) st =
     and_then (bulk_insert E name (fresh idx) doc st) (\<lambda>i st.
     and_then (insert_all E name fresh (idx + 1) docs st) (\<lambda>ids st. (Ok (i # ids), st)))"

definition insert_many :: "'n env \<Rightarrow> string \<Rightarrow> (nat \<Rightarrow> ustring) \<Rightarrow> 'n json list \<Rightarrow> 'n database \<Rightarrow> ustring list res \<times> 'n database" where
  "insert_many E name fresh docs db =
     (if docs = [] then (Ok [], db)
      else if length docs > db_max_bulk_operations db then (Err (BulkOperationTooLarge (length docs) (db_max_bulk_operations db)), db)
      else with_tx (\<lambda>st.
        and_then (open_or_new name st) (\<lambda>bt st.
        on_tree_of bt (\<lambda>st.
          and_then (insert_all E name fresh 0 docs st) (\<lambda>ids st.
          and_then (publish_root E name st) (\<lambda>_ st.
          and_then (bt_commit E st) (\<lambda>_ st. (Ok ids, st))))) st)) db)"

subsection \<open>Lemmas\<close>

text \<open>The parts of a database that only a commit with writes changes.\<close>

definition unlogged :: "'n database \<Rightarrow> 'n database \<Rightarrow> bool" where
  "unlogged db db' \<longleftrightarrow> db_wal db' = db_wal db \<and> db_metadata db' = db_metadata db \<and> db_channels db' = db_channels db \<and> db_watchers db' = db_watchers db"

lemma unlogged_refl [simp]: "unlogged db db"
  by (simp add: unlogged_def)

lemma unlogged_trans: "unlogged a b \<Longrightarrow> unlogged b c \<Longrightarrow> unlogged a c"
  by (simp add: unlogged_def)

text \<open>A step that leaves the transaction and everything but the pages as it was.\<close>

definition pages_only :: "'n bt_tx \<Rightarrow> 'n bt_tx \<Rightarrow> bool" where
  "pages_only st st' \<longleftrightarrow> fst (snd st') = fst (snd st) \<and> unlogged (snd (snd st)) (snd (snd st'))"

lemma pages_only_refl: "pages_only st st"
  by (simp add: pages_only_def)

lemma pages_only_trans: "pages_only a b \<Longrightarrow> pages_only b c \<Longrightarrow> pages_only a c"
  unfolding pages_only_def by (metis unlogged_trans)

lemma pages_only_then:
  assumes "pages_only st (snd r)" "\<And>x s. pages_only s (snd (f x s))"
  shows "pages_only st (snd (and_then r f))"
proof -
  obtain a s where r: "r = (a, s)" by (cases r)
  then show ?thesis using assms(1) pages_only_trans [OF _ assms(2)] by (cases a) (simp_all add: and_then_def)
qed

lemma on_tree_pages_only: "pages_only st (snd (bt_on_tree f st))"
  by (auto simp: pages_only_def bt_on_tree_def unlogged_def split: prod.split)

lemma on_pager_pages_only: "pages_only st (snd (bt_on_db (db_on_pager f) st))"
  by (auto simp: pages_only_def bt_on_db_def db_on_pager_def unlogged_def split: prod.split)

lemma remove_pages_only: "pages_only st (snd (remove_entry_of E key st))"
  unfolding remove_entry_of_def by (intro pages_only_then on_tree_pages_only on_pager_pages_only)

lemma begin_unlogged: "unlogged db (snd (db_begin db))" "tx_writes (fst (db_begin db)) = []"
  by (auto simp: unlogged_def db_begin_def transaction_new_def Let_def split: prod.split)

lemma commit_nothing:
  assumes "tx_writes tx = []"
  shows "unlogged db (snd (snd (commit_alone E (tx, db))))"
  using assms by (simp add: commit_alone_def commit_def unlogged_def)

lemma with_tx_unlogged:
  assumes "\<And>tx d. tx_writes tx = [] \<Longrightarrow> unlogged d (snd (snd (f (tx, d))))"
  shows "unlogged db (snd (with_tx f db))"
proof -
  obtain tx d where b: "db_begin db = (tx, d)" by (cases "db_begin db")
  then have "unlogged db d" "tx_writes tx = []" using begin_unlogged [of db] by simp_all
  moreover have "unlogged x (snd (drop_transaction (t, x)))" for t and x :: "'a database" by (simp add: drop_transaction_def unlogged_def)
  ultimately show ?thesis using assms [of tx d] b unfolding with_tx_def
    by (auto split: prod.split intro: unlogged_trans)
qed

text \<open>What a scan yields is visible to the snapshot.\<close>

lemma on_tree_tx [simp]: "bt_on_tree f st = (r, st') \<Longrightarrow> fst (snd st') = fst (snd st)"
  by (auto simp: bt_on_tree_def split: prod.splits)

lemma read_tx: "bt_read p st = (r, st') \<Longrightarrow> fst (snd st') = fst (snd st)"
  by (auto simp: bt_read_def split: prod.splits)

lemma scan_docs_visible:
  "scan_docs left it st = (Ok vs, st') \<Longrightarrow> fst (snd st') = fst (snd st) \<and> (\<forall>v \<in> set vs. vd_is_visible v (tx_snapshot_id (fst (snd st))))"
proof (induction left arbitrary: it st vs st')
  case (Suc left)
  obtain more it1 st1 where n: "bt_on_tree (iterator_next it) st = (Ok (more, it1), st1)"
    using Suc.prems by (auto simp: and_then_Ok_iff)
  have t1: "fst (snd st1) = fst (snd st)" by (rule on_tree_tx [OF n])
  show ?case
  proof (cases more)
    case True
    then obtain k p where e: "iterator_entry it1 = Some (k, p)" using Suc.prems n by (cases "iterator_entry it1") (auto simp: no_panic_def and_then_Ok_iff)
    obtain r st2 where r: "bt_read p st1 = (r, st2)" by (cases "bt_read p st1")
    have t2: "fst (snd st2) = fst (snd st)" using read_tx [OF r] t1 by simp
    show ?thesis
    proof (cases r)
      case (Ok vdoc)
      then obtain rest where s: "scan_docs left it1 st2 = (Ok rest, st')" "vs = (if vd_is_visible vdoc (tx_snapshot_id (fst (snd st'))) then vdoc # rest else rest)"
        using Suc.prems n True e r by (auto simp: and_then_Ok_iff)
      from Suc.IH [OF s(1)] t2 s(2) show ?thesis by (auto split: if_splits)
    next
      case (Err x)
      then have s: "scan_docs left it1 st2 = (Ok vs, st')" using Suc.prems n True e r by simp
      from Suc.IH [OF s] t2 show ?thesis by simp
    qed (use Suc.prems n True e r in simp)
  qed (use Suc.prems n t1 in simp)
qed simp

text \<open>The values of a field, and the distinct ones collected so far.\<close>

definition field_values :: "ustring \<Rightarrow> 'n json \<Rightarrow> 'n json list" where
  "field_values field doc =
     (case as_object doc of
        None \<Rightarrow> []
      | Some m \<Rightarrow> (case get_nested_field_value m field of JArray arr \<Rightarrow> arr | v \<Rightarrow> [v]))"

definition collected :: "('n json \<Rightarrow> ustring) \<Rightarrow> 'n json list \<Rightarrow> ustring set \<times> 'n json list \<Rightarrow> bool" where
  "collected to_text vs acc \<longleftrightarrow>
     fst acc = to_text ` set vs \<and> to_text ` set (snd acc) = to_text ` set vs \<and> distinct (map to_text (snd acc)) \<and> set (snd acc) \<subseteq> set vs"

lemma collected_add: "collected to_text vs acc \<Longrightarrow> collected to_text (vs @ ws) (fold (add_distinct to_text) ws acc)"
proof (induction ws arbitrary: vs acc)
  case (Cons w ws)
  have "collected to_text (vs @ [w]) (add_distinct to_text w acc)"
    using Cons.prems by (auto simp: collected_def add_distinct_def split: prod.split)
  from Cons.IH [OF this] show ?case by simp
qed simp

lemma distinct_of_eq: "distinct_of E field doc acc = fold (add_distinct (en_to_text E)) (field_values field doc) acc"
  by (simp add: distinct_of_def field_values_def split: option.split json.split)

lemma collected_docs:
  "collected (en_to_text E) vs acc \<Longrightarrow>
   collected (en_to_text E) (vs @ concat (map (field_values field) docs)) (fold (distinct_of E field) docs acc)"
proof (induction docs arbitrary: vs acc)
  case (Cons doc docs)
  from Cons.IH [OF collected_add [OF Cons.prems]] show ?case by (simp add: distinct_of_eq)
qed simp

subsection \<open>Properties\<close>

text \<open>
  C36: The deletion of a document writes nothing to the log, changes no root and sends no event, whatever its result: the pages of the document are freed and the leaf of its entry is changed in the page cache only.
\<close>

theorem deletion_not_logged:
  "db_wal (snd (coll_delete_by_id E name i db)) = db_wal db \<and> db_metadata (snd (coll_delete_by_id E name i db)) = db_metadata db \<and>
   db_channels (snd (coll_delete_by_id E name i db)) = db_channels db"
proof -
  let ?f = "\<lambda>st. and_then (remove_entry_of E (utf8 i) st) (\<lambda>_ st. publish_and_commit E name st)"
  have p: "unlogged d (snd (snd (snd (publish_and_commit E name (bt, tx, d)))))" if "tx_writes tx = []" for bt tx and d :: "'a database"
    using commit_nothing [of "set_collection_root name (get_root_page bt) tx" d E] that
    by (auto simp: publish_and_commit_def bt_commit_def set_collection_root_def split: prod.split)
  have f: "unlogged d (snd (snd (snd (?f (bt, tx, d)))))" if "tx_writes tx = []" for bt tx and d :: "'a database"
  proof -
    obtain r bt' tx' d' where r: "remove_entry_of E (utf8 i) (bt, tx, d) = (r, bt', tx', d')" by (cases "remove_entry_of E (utf8 i) (bt, tx, d)") auto
    have "tx' = tx" "unlogged d d'" using remove_pages_only [of "(bt, tx, d)" E "utf8 i"] r by (simp_all add: pages_only_def)
    then show ?thesis using r p [OF that, where bt = bt' and d = d'] unlogged_trans by (cases r) (auto simp: and_then_def)
  qed
  have o: "unlogged d (snd (snd (on_tree_of bt ?f (tx, d))))" if "tx_writes tx = []" for bt tx and d :: "'a database"
    using f [OF that, where bt = bt and d = d] unfolding on_tree_of_def by (cases "?f (bt, tx, d)") simp
  have "unlogged db (snd (coll_delete_by_id E name i db))"
    unfolding coll_delete_by_id_def in_collection_def
  proof (rule with_tx_unlogged)
    fix tx :: transaction and d :: "'a database" assume w: "tx_writes tx = []"
    show "unlogged d (snd (snd (and_then (root_or_error name (snd (tx, d)), tx, d)
        (\<lambda>btree_root st. if btree_root = 0 then (Err not_found, st) else on_tree_of (btree_open btree_root) ?f st))))"
      using o [OF w] by (cases "root_or_error name d") simp_all
  qed
  then show ?thesis by (simp add: unlogged_def)
qed

end
