(* ===== verification/Commit_Effect.thy ===== *)
theory Commit_Effect
  imports Tx_Commit
begin

text \<open>
  The effect of a commit: what a request that is not rebased leaves in memory, in the file and in the log.
\<close>

subsection \<open>Steps on the pager\<close>

definition header_uncached :: "pager \<Rightarrow> bool" where
  "header_uncached s \<longleftrightarrow> map_of (lru_view (pg_cache s)) 0 = None"

lemma write_uncached:
  assumes "pager_inv s" "p \<noteq> 0" "write_page_transfer p d s = (Ok (), s')" "header_uncached s"
  shows "header_uncached s'"
proof -
  have linv: "lru_inv (pg_cache s)" using assms(1) by (simp add: pager_inv_def)
  obtain c where c: "put_dirty_atomic p d (pg_cache s) = Some c"
    "lru_view c = spec_put (lru_capacity (pg_cache s)) (\<lambda>q. q = p \<or> cache_is_dirty q (pg_cache s)) p d (lru_view (pg_cache s))"
    using pc.put_dirty_law [OF linv] by blast
  have "s' = s\<lparr>pg_cache := c\<rparr>" using assms(3) c(1) by (auto simp: write_page_transfer_def with_cache_def split: if_splits)
  moreover have "map_of (lru_view c) 0 = None"
  proof (cases "map_of (lru_view c) 0")
    case (Some x)
    then have "map_of (lru_view (pg_cache s)) 0 = Some x"
      using spec_put_sound [OF lru_view_ok [OF linv]] c(2) assms(2) by metis
    then show ?thesis using assms(4) by (simp add: header_uncached_def)
  qed
  ultimately show ?thesis by (simp add: header_uncached_def)
qed

lemma header_no_sync_spec:
  assumes inv: "pager_inv s" and rw: "\<not> pg_read_only s" and h: "header_uncached s"
  shows "\<exists>s'. write_header_no_sync s = (Ok (), s') \<and> pager_inv s' \<and> same_alloc s s' \<and>
    (\<forall>q d. q \<noteq> 0 \<longrightarrow> page_content s q = Some d \<longrightarrow> page_content s' q = Some d)"
proof -
  obtain buf where buf: "header_serialize (header_of s) = Some buf" "length buf = PAGE_SIZE"
    using header_serialize_eq [of "header_of s"] by (auto simp: header_of_def length_header_prefix const_defs min_def)
  let ?s = "s\<lparr>pg_file := \<lparr>f_bytes = write_at 0 buf (f_bytes (pg_file s)), f_durable = f_durable (pg_file s)\<rparr>\<rparr>"
  have run: "write_header_no_sync s = (Ok (), ?s)"
    using buf(1) rw by (cases "pg_file s") (simp add: write_header_no_sync_def get_header_data_def header_of_def pager_write_file_def file_write_all_def seek_ok_def)
  have p0: "page_ok 0" "page_offset 0 = 0" by (simp_all add: page_ok_def page_offset_ok)
  have fp: "file_page (write_at 0 buf (f_bytes (pg_file s))) q = Some d" if "q \<noteq> 0" "file_page (f_bytes (pg_file s)) q = Some d" for q d
    using file_page_write_other [OF p0(1) buf(2) that] p0(2) by simp
  have "pager_inv ?s"
  proof (rule pager_invI)
    show "lru_inv (pg_cache ?s)" "length (f_bytes (pg_file ?s)) \<le> 2 ^ 63"
      using inv length_page_write [OF p0(1) buf(2)] p0(2) by (simp_all add: pager_inv_def)
    fix q x assume q: "map_of (lru_view (pg_cache ?s)) q = Some x"
    then have "q \<noteq> 0" using h by (auto simp: header_uncached_def)
    then show "page_ok q \<and> length x = PAGE_SIZE \<and> (\<not> cache_is_dirty q (pg_cache ?s) \<longrightarrow> file_page (f_bytes (pg_file ?s)) q = Some x)"
      using pager_inv_view [OF inv, of q x] q fp by simp
  qed
  moreover have "page_content ?s q = Some d" if "q \<noteq> 0" "page_content s q = Some d" for q d
    using that fp by (auto simp: page_content_def split: option.splits)
  ultimately show ?thesis using run by (auto simp: same_alloc_def)
qed

lemma flush_no_sync_spec:
  assumes inv: "pager_inv s" and rw: "\<not> pg_read_only s"
  shows "\<exists>s' s''. flush_no_sync s = (Ok (), s') \<and> sync_data_only s' = (Ok (), s'') \<and> pager_inv s'' \<and> same_alloc s s'' \<and>
    (\<forall>p d. page_content s p = Some d \<longrightarrow> page_content s'' p = Some d \<and> file_page (f_durable (pg_file s'')) p = Some d)"
proof -
  let ?ps = "cache_get_all_dirty (pg_cache s)"
  obtain t where t: "flush_pages ?ps s = (Ok (), t)" and fl: "flushed ?ps s t"
    using flush_pages_spec [OF inv, of ?ps] by blast
  have tc: "pg_cache t = pg_cache s" "same_alloc s t" using fl by (simp_all add: flushed_def)
  let ?u = "t\<lparr>pg_cache := cache_clear_all_dirty (pg_cache t)\<rparr>"
  have linv: "lru_inv (pg_cache s)" using inv by (simp add: pager_inv_def)
  have "q \<in> set ?ps \<or> file_page (f_bytes (pg_file s)) q = Some d" if "page_content s q = Some d" for q d
    using that pager_inv_view(3) [OF inv, of q d] dirty_keys [OF linv, of q]
    by (cases "map_of (lru_view (pg_cache s)) q") (auto simp: page_content_def)
  then have dur: "file_page (f_bytes (pg_file t)) q = Some d" if "page_content s q = Some d" for q d
    using flushed_content(2) [OF fl that] that by blast
  have uinv: "pager_inv (pager_sync ?u)"
    using inv
  proof (rule pager_inv_clean)
    show "lru_inv (pg_cache (pager_sync ?u))" using linv tc lru_inv_dirty [of "pg_cache s" "[]"]
      by (simp add: cache_clear_all_dirty_def dirty_ok_def pager_sync_def)
    show "length (f_bytes (pg_file (pager_sync ?u))) \<le> 2 ^ 63"
      using fl by (simp add: flushed_def pager_inv_def pager_sync_def file_sync_def)
  qed (use dur tc in \<open>auto simp: pager_sync_def file_sync_def cache_clear_all_dirty_def page_content_def\<close>)
  have "page_content (pager_sync ?u) q = page_content t q" for q
    by (simp add: page_content_def pager_sync_def file_sync_def cache_clear_all_dirty_def split: option.split)
  moreover have "\<not> pg_read_only t" using tc(2) rw by (simp add: same_alloc_def)
  ultimately show ?thesis using t tc flushed_content(1) [OF fl] rw uinv dur
    by (auto simp: flush_no_sync_def sync_data_only_def same_alloc_def pager_sync_def file_sync_def)
qed

subsection \<open>Steps on the database\<close>

lemma transfer_pages_spec:
  assumes "pager_inv (db_pager db)" "\<not> pg_read_only (db_pager db)" "list_all entry_ok es"
  shows "\<exists>s. for_each transfer_page es db = (Ok (), db\<lparr>db_pager := s\<rparr>) \<and> pager_inv s \<and> same_alloc (db_pager db) s \<and>
    page_content s = page_content (db_pager db) ++ map_of (rev es)"
  using assms
proof (induction es arbitrary: db)
  case Nil
  then show ?case by (intro exI [of _ "db_pager db"]) simp
next
  case (Cons e es)
  obtain p d where e: "e = (p, d)" by (cases e)
  obtain s1 where s1: "write_page_transfer p d (db_pager db) = (Ok (), s1)" "pager_inv s1" "page_content s1 = (page_content (db_pager db))(p \<mapsto> d)"
    "same_alloc (db_pager db) s1"
    using write_page_transfer_spec [OF Cons.prems(1) _ _ Cons.prems(2), of p d] Cons.prems(3) e by (auto simp: entry_ok_def [of "(p, d)"])
  let ?db = "db\<lparr>db_pager := s1\<rparr>"
  have t: "transfer_page e db = (Ok (), ?db)" using s1(1) e by (simp add: transfer_page_def db_on_pager_def)
  have "list_all entry_ok es" "\<not> pg_read_only s1" using Cons.prems(2,3) s1(4) e by (auto simp: entry_ok_Cons same_alloc_def)
  then obtain s where s: "for_each transfer_page es ?db = (Ok (), ?db\<lparr>db_pager := s\<rparr>)" "pager_inv s" "same_alloc s1 s" "page_content s = page_content s1 ++ map_of (rev es)"
    using Cons.IH [of ?db] s1(2) by auto
  have "page_content s = page_content (db_pager db) ++ map_of (rev (e # es))"
    unfolding s(4) s1(3) e by (auto simp: map_add_def fun_eq_iff split: option.splits)
  then show ?case using t s(1,2) same_alloc_trans [OF s1(4) s(3)] by (intro exI [of _ s]) simp
qed

text \<open>The log after some pages have been appended to it.\<close>

definition log_of :: "wal_header \<Rightarrow> tx_id \<Rightarrow> (page_num \<times> bytes) list \<Rightarrow> wal_frame list" where
  "log_of h t es = map (\<lambda>(p, d). make_frame h t p d) es"

lemma log_page_spec:
  assumes "wal_log (db_wal db) fs" "length d = PAGE_SIZE" "length fs < 2 ^ 64 - 1"
  shows "\<exists>w. log_page E t (p, d) db = (Ok (), db\<lparr>db_wal := w\<rparr>) \<and> wal_log w (fs @ log_of (w_header (db_wal db)) t [(p, d)]) \<and> w_header w = w_header (db_wal db)"
  using write_frame_log [OF assms, of t p "en_now E"] by (auto simp: log_page_def db_on_wal_def log_of_def)

lemma log_pages_spec:
  assumes "wal_log (db_wal db) fs" "list_all (\<lambda>(p, d). length d = PAGE_SIZE) es" "length fs + length es < 2 ^ 64"
  shows "\<exists>w. for_each (log_page E t) es db = (Ok (), db\<lparr>db_wal := w\<rparr>) \<and> wal_log w (fs @ log_of (w_header (db_wal db)) t es) \<and> w_header w = w_header (db_wal db)"
  using assms
proof (induction es arbitrary: db fs)
  case Nil
  then show ?case by (intro exI [of _ "db_wal db"]) (simp add: log_of_def)
next
  case (Cons e es)
  obtain p d where e: "e = (p, d)" by (cases e)
  have l: "length d = PAGE_SIZE" "length fs < 2 ^ 64 - 1" using Cons.prems(2,3) e by auto
  obtain v where t: "log_page E t e db = (Ok (), db\<lparr>db_wal := v\<rparr>)" and v: "wal_log v (fs @ [make_frame (w_header (db_wal db)) t p d])" "w_header v = w_header (db_wal db)"
    using log_page_spec [OF Cons.prems(1) l, of E t p] e by (auto simp: log_of_def)
  let ?db = "db\<lparr>db_wal := v\<rparr>"
  have "list_all (\<lambda>(p, d). length d = PAGE_SIZE) es" "length (fs @ [make_frame (w_header (db_wal db)) t p d]) + length es < 2 ^ 64"
    using Cons.prems(2,3) by auto
  then obtain w where "for_each (log_page E t) es ?db = (Ok (), ?db\<lparr>db_wal := w\<rparr>)"
    "wal_log w ((fs @ [make_frame (w_header (db_wal db)) t p d]) @ log_of (w_header v) t es)" "w_header w = w_header v"
    using Cons.IH [of ?db "fs @ [make_frame (w_header (db_wal db)) t p d]"] v(1) by auto
  then show ?case using t v(2) e by (intro exI [of _ w]) (simp add: log_of_def)
qed

text \<open>The metadata that a request publishes.\<close>

definition new_root :: "pending_write \<Rightarrow> 'n metadata \<Rightarrow> string \<Rightarrow> page_num" where
  "new_root pw md c = (case hm_get (pw_updated_roots pw) c of Some r \<Rightarrow> r | None \<Rightarrow> collection_root md c)"

definition published :: "pending_write \<Rightarrow> 'n metadata \<Rightarrow> 'n metadata" where
  "published pw md =
     fold (\<lambda>c md. if new_root pw md c \<noteq> collection_root md c then set_root c (new_root pw md c) md else md) (pw_modified_collections pw) md"

lemma published_root:
  "collection_root (fold (\<lambda>c md. if new_root pw md c \<noteq> collection_root md c then set_root c (new_root pw md c) md else md) cs md) c =
     (if c \<in> set cs then new_root pw md c else collection_root md c)"
  by (induction cs arbitrary: md) (auto simp: new_root_def split: option.split)

lemma apply_collections_same_root:
  assumes "\<forall>c \<in> set cs. collection_root (db_metadata db) c = root_in (pw_snapshot_roots pw) c" "distinct cs"
  shows "for_each (apply_collection E) cs (pw, db) = (Ok (), pw, db\<lparr>db_metadata :=
    fold (\<lambda>c md. if new_root pw md c \<noteq> collection_root md c then set_root c (new_root pw md c) md else md) cs (db_metadata db)\<rparr>)"
  using assms
proof (induction cs arbitrary: db)
  case (Cons c cs)
  let ?md = "if new_root pw (db_metadata db) c \<noteq> collection_root (db_metadata db) c then set_root c (new_root pw (db_metadata db) c) (db_metadata db) else db_metadata db"
  have a: "apply_collection E c (pw, db) = (Ok (), pw, db\<lparr>db_metadata := ?md\<rparr>)"
    using Cons.prems(1) by (simp add: apply_collection_def Let_def new_root_def update_metadata_no_flush_def)
  have "\<forall>c' \<in> set cs. collection_root ?md c' = root_in (pw_snapshot_roots pw) c'" using Cons.prems by auto
  then show ?case using Cons.IH [of "db\<lparr>db_metadata := ?md\<rparr>"] Cons.prems(2) a by simp
qed simp

lemma commit_metadata_spec:
  assumes ok: "store_ok (db_pager db)" and "header_uncached (db_pager db)" "wal_log (db_wal db) fs" "length fs + 2 < 2 ^ 64"
    "mc_to_vec (en_codec E) (db_metadata db) = Some data" "length data \<le> PAGE_SIZE"
    "pg_metadata_page (db_pager db) \<noteq> 0" "page_ok (pg_metadata_page (db_pager db))"
  shows "\<exists>s w header. commit_metadata E t db = (Ok (), db\<lparr>db_pager := s, db_wal := w\<rparr>) \<and> store_ok s \<and>
    pg_next_tx_id s = t + 1 \<and> pg_metadata_page s = pg_metadata_page (db_pager db) \<and>
    (\<forall>q d. q \<noteq> 0 \<longrightarrow> ((page_content (db_pager db))(pg_metadata_page (db_pager db) \<mapsto> pad_page data)) q = Some d \<longrightarrow> page_content s q = Some d) \<and>
    wal_log w (fs @ log_of (w_header (db_wal db)) t [(pg_metadata_page (db_pager db), pad_page data), (0, header)]) \<and> w_header w = w_header (db_wal db)"
proof -
  let ?s = "db_pager db" and ?m = "pg_metadata_page (db_pager db)" and ?d = "pad_page data"
  have inv: "pager_inv ?s" and rw: "\<not> pg_read_only ?s" and al: "alloc_ok ?s" using ok by (simp_all add: store_ok_def)
  have dl: "length ?d = PAGE_SIZE" by (rule length_pad_page [OF assms(6)])
  obtain w1 where w1: "log_page E t (?m, ?d) db = (Ok (), db\<lparr>db_wal := w1\<rparr>)" "wal_log w1 (fs @ log_of (w_header (db_wal db)) t [(?m, ?d)])" "w_header w1 = w_header (db_wal db)"
    using log_page_spec [OF assms(3) dl, of E t ?m] assms(4) by auto
  obtain s1 where s1: "write_page_transfer ?m ?d ?s = (Ok (), s1)" "pager_inv s1" "page_content s1 = (page_content ?s)(?m \<mapsto> ?d)" "same_alloc ?s s1"
    using write_page_transfer_spec [OF inv assms(8) dl rw] by blast
  obtain hd where hd: "get_header_data s1 = Ok hd" "length hd = PAGE_SIZE"
    using header_serialize_eq [of "header_of s1"] by (auto simp: get_header_data_def header_of_def length_header_prefix const_defs min_def)
  obtain hd' where hd': "put_bytes 24 (u64_to_le ?m) hd = Some hd'" "length hd' = PAGE_SIZE"
    using hd(2) by (auto simp: put_bytes_def const_defs)
  let ?db2 = "db\<lparr>db_wal := w1, db_pager := s1\<rparr>"
  have len2: "length (fs @ log_of (w_header (db_wal db)) t [(?m, ?d)]) + 1 < 2 ^ 64" using assms(4) by (simp add: log_of_def)
  obtain w2 where w2: "log_page E t (0, hd') ?db2 = (Ok (), ?db2\<lparr>db_wal := w2\<rparr>)"
    "wal_log w2 ((fs @ log_of (w_header (db_wal db)) t [(?m, ?d)]) @ log_of (w_header w1) t [(0, hd')])" "w_header w2 = w_header w1"
    using log_page_spec [of ?db2 "fs @ log_of (w_header (db_wal db)) t [(?m, ?d)]" hd' E t 0] w1(2) len2 hd'(2) by auto
  let ?s2 = "s1\<lparr>pg_metadata_page := ?m, pg_next_tx_id := t + 1\<rparr>"
  have inv2: "pager_inv ?s2" using s1(2) pager_inv_cong [of ?s2 s1] by simp
  have pc2: "page_content ?s2 = page_content s1" by (rule page_content_cong) simp_all
  have ro2: "\<not> pg_read_only ?s2" using s1(4) rw by (simp add: same_alloc_def)
  have "header_uncached s1" by (rule write_uncached [OF inv assms(7) s1(1) assms(2)])
  then have hu2: "header_uncached ?s2" by (simp add: header_uncached_def)
  obtain s3 where s3: "write_header_no_sync ?s2 = (Ok (), s3)" "pager_inv s3" "same_alloc ?s2 s3"
    "\<forall>q d. q \<noteq> 0 \<longrightarrow> page_content ?s2 q = Some d \<longrightarrow> page_content s3 q = Some d"
    using header_no_sync_spec [OF inv2 ro2 hu2] by blast
  have "commit_metadata E t db = (Ok (), db\<lparr>db_pager := s3, db_wal := w2\<rparr>)"
    using assms(5,7) w1(1) s1(1) hd(1) hd'(1) w2(1) s3(1)
    by (simp add: commit_metadata_def metadata_serialize_def db_on_pager_def Let_def set_metadata_page_def set_next_transaction_id_def)
  moreover have "pg_next_tx_id s3 = t + 1" "pg_metadata_page s3 = ?m" "\<not> pg_read_only s3" "alloc_ok s3"
    using s3(3) s1(4) ro2 al by (auto simp: same_alloc_def alloc_ok_def)
  ultimately show ?thesis using s3(2,4) w2(2,3) w1(3) unfolding pc2 s1(3) by (intro exI [of _ s3] exI [of _ w2] exI [of _ hd']) (simp add: log_of_def store_ok_def)
qed

text \<open>The documents of the events can be read.\<close>

definition readable :: "pending_write \<Rightarrow> page_num \<Rightarrow> bool" where
  "readable pw p \<longleftrightarrow> hm_contains (pw_writes pw) p \<longrightarrow>
     (\<exists>qs v. versioned_stored (hm_get (pw_writes pw)) p qs v \<and> id_ok (vd_id v) \<and> length (vd_data v) \<le> 249998 * MAX_OVERFLOW_DATA)"

definition events_readable :: "pending_write \<Rightarrow> bool" where
  "events_readable pw \<longleftrightarrow> (\<forall>(c, docs) \<in> set (pw_doc_writes pw). \<forall>(d, p) \<in> set docs. readable pw p)"

definition emitted :: "'n database \<Rightarrow> 'n database \<Rightarrow> bool" where
  "emitted db db' \<longleftrightarrow> (\<exists>s ws chs. db' = db\<lparr>db_pager := s, db_watchers := ws, db_channels := chs\<rparr> \<and> store_ok s \<and>
     only_reads (db_pager db) s \<and> page_content s = page_content (db_pager db))"

lemma emitted_refl: "store_ok (db_pager db) \<Longrightarrow> emitted db db"
  unfolding emitted_def by (intro exI [of _ "db_pager db"] exI [of _ "db_watchers db"] exI [of _ "db_channels db"]) (simp add: reads.R_refl)

lemma emitted_trans: "emitted db1 db2 \<Longrightarrow> emitted db2 db3 \<Longrightarrow> emitted db1 db3"
proof -
  assume "emitted db1 db2" "emitted db2 db3"
  then obtain s ws chs s' ws' chs' where "db2 = db1\<lparr>db_pager := s, db_watchers := ws, db_channels := chs\<rparr>" "only_reads (db_pager db1) s"
    "page_content s = page_content (db_pager db1)" "db3 = db2\<lparr>db_pager := s', db_watchers := ws', db_channels := chs'\<rparr>" "store_ok s'" "only_reads (db_pager db2) s'"
    "page_content s' = page_content (db_pager db2)" unfolding emitted_def by blast
  then show ?thesis unfolding emitted_def
    by (intro exI [of _ s'] exI [of _ ws'] exI [of _ chs']) (simp add: reads.R_trans)
qed

lemma read_versioned_content:
  assumes "store_ok s" "versioned_stored (tx_content tw s) p qs d" "id_ok (vd_id d)" "length (vd_data d) \<le> 249998 * MAX_OVERFLOW_DATA"
  shows "\<exists>s'. read_versioned_document p tw s = (Ok d, s') \<and> store_ok s' \<and> page_content s' = page_content s"
proof -
  let ?k = "first_capacity (vd_id d) (vd_data d)"
  obtain m where m: "tx_content tw s p = Some (versioned_first (vd_id d) (vd_data d) (vd_xmin d) (vd_xmax d) ?k m)"
    "chain (tx_content tw s) m qs (split_chunks (drop ?k (vd_data d)))" "distinct qs"
    using assms(2) by (auto simp: versioned_stored_def)
  have n: "length (vd_data d) \<le> MAX_DOCUMENT_SIZE" using assms(4) by (simp add: const_defs)
  have "length qs \<le> MAX_OVERFLOW_CHAIN_LENGTH"
    using chain_length [OF m(2)] split_chunks_needed [of ?k "vd_data d"] chain_fits [OF assms(4)] by simp
  from read_versioned_spec [OF assms(1,3) n refl m this] show ?thesis by auto
qed

lemma emit_doc_ok:
  assumes ok: "store_ok (db_pager db)" and r: "readable pw (snd e)"
  shows "\<exists>db'. emit_pending_doc E pw c e db = (Ok (), db') \<and> emitted db db'"
proof -
  have ew: "emitted db (emit_to_watchers E c op d doc (db\<lparr>db_pager := s\<rparr>))"
    if "store_ok s" "only_reads (db_pager db) s" "page_content s = page_content (db_pager db)" for op d doc s
    using that unfolding emitted_def emit_to_watchers_def by (auto split: prod.split)
  show ?thesis
  proof (cases "hm_contains (pw_writes pw) (snd e)")
    case False
    then show ?thesis using ew [OF ok reads.R_refl refl] by (simp add: emit_pending_doc_def)
  next
    case True
    then obtain qs v where v: "versioned_stored (hm_get (pw_writes pw)) (snd e) qs v" "id_ok (vd_id v)" "length (vd_data v) \<le> 249998 * MAX_OVERFLOW_DATA"
      using r by (auto simp: readable_def)
    have "versioned_stored (tx_content (pw_writes pw) (db_pager db)) (snd e) qs v"
      by (rule versioned_stored_mono [OF v(1)]) (simp add: tx_content_def)
    from read_versioned_content [OF ok this v(2,3)] obtain s where s: "read_versioned_document (snd e) (pw_writes pw) (db_pager db) = (Ok v, s)"
      "store_ok s" "page_content s = page_content (db_pager db)" by blast
    have o: "only_reads (db_pager db) s" using read_versioned_only [of "db_pager db" "snd e" "pw_writes pw"] s(1) by simp
    show ?thesis using True s(1) ew [OF s(2) o s(3)] by (simp add: emit_pending_doc_def document_for_event_def db_on_pager_def)
  qed
qed

lemma emit_pending_ok:
  assumes "store_ok (db_pager db)" "events_readable pw"
  shows "\<exists>db'. emit_pending E pw db = (Ok (), db') \<and> emitted db db'"
proof -
  let ?I = "\<lambda>d. store_ok (db_pager d)"
  have i: "?I t" if "?I d" "emitted d t" for d t using that by (auto simp: emitted_def)
  have docs: "\<exists>d'. for_each (emit_pending_doc E pw c) docs d = (Ok (), d') \<and> emitted d d'" if "(c, docs) \<in> set (pw_doc_writes pw)" "?I d" for c docs d
  proof (rule for_each_Ok [where I = ?I, OF that(2) i emitted_refl emitted_trans])
    show "\<exists>d'. emit_pending_doc E pw c e d = (Ok (), d') \<and> emitted d d'" if "e \<in> set docs" "?I d" for e d
      using emit_doc_ok [OF that(2)] assms(2) that(1) \<open>(c, docs) \<in> set (pw_doc_writes pw)\<close> unfolding events_readable_def by fastforce
  qed
  show ?thesis unfolding emit_pending_def
    by (rule for_each_Ok [where I = ?I, OF assms(1) i emitted_refl emitted_trans]) (use docs in auto)
qed

lemma map_of_rev_distinct: "distinct (map fst xs) \<Longrightarrow> map_of (rev xs) = map_of xs"
  by (rule map_of_eqI) (auto simp: rev_map [symmetric] map_of_eq_Some_iff intro!: ext)

subsection \<open>A commit\<close>

text \<open>A request whose collections have the roots of its snapshot, so that nothing is rebased.\<close>

definition plain_request :: "pending_write \<Rightarrow> 'n metadata \<Rightarrow> bool" where
  "plain_request pw md \<longleftrightarrow> distinct (pw_modified_collections pw) \<and>
     (\<forall>c \<in> set (pw_modified_collections pw). collection_root md c = root_in (pw_snapshot_roots pw) c) \<and>
     distinct (written_docs pw) \<and> list_all entry_ok (pw_writes pw) \<and> distinct (map fst (pw_writes pw)) \<and> events_readable pw"

text \<open>The database can log and store the request and its metadata.\<close>

definition commit_room :: "'n env \<Rightarrow> pending_write \<Rightarrow> wal_frame list \<Rightarrow> bytes \<Rightarrow> 'n database \<Rightarrow> bool" where
  "commit_room E pw fs data db \<longleftrightarrow> store_ok (db_pager db) \<and> header_uncached (db_pager db) \<and>
     wal_log (db_wal db) fs \<and> length fs + length (pw_writes pw) + 2 < 2 ^ 64 \<and>
     mc_to_vec (en_codec E) (published pw (db_metadata db)) = Some data \<and> length data \<le> PAGE_SIZE \<and>
     pg_metadata_page (db_pager db) \<noteq> 0 \<and> page_ok (pg_metadata_page (db_pager db)) \<and>
     {0, pg_metadata_page (db_pager db)} \<inter> fst ` set (pw_writes pw) = {}"

text \<open>The first half of the commit, up to the sync of the log.\<close>

lemma commit_logged:
  assumes "commit_room E pw fs data db" "plain_request pw (db_metadata db)"
  shows "\<exists>s w header. and_then (for_each (\<lambda>pw. for_each (log_page E (pw_mvcc_tx_id pw)) (pw_writes pw)) [pw] db) (\<lambda>_ db.
      and_then (apply_batch E [pw] db) (\<lambda>batch db. and_then (commit_metadata E (max_tx_id batch) db) (\<lambda>_ db.
      and_then (db_on_wal wal_sync db) (\<lambda>_ db. g batch db)))) =
      g [pw] (db\<lparr>db_metadata := published pw (db_metadata db), db_pager := s, db_wal := w\<rparr>) \<and>
    store_ok s \<and> pg_next_tx_id s = pw_mvcc_tx_id pw + 1 \<and> pg_metadata_page s = pg_metadata_page (db_pager db) \<and>
    page_content s (pg_metadata_page (db_pager db)) = Some (pad_page data) \<and>
    wal_log w (fs @ log_of (w_header (db_wal db)) (pw_mvcc_tx_id pw) (pw_writes pw @ [(pg_metadata_page (db_pager db), pad_page data), (0, header)])) \<and>
    w_buf w = [] \<and> f_durable (w_file w) = f_bytes (w_file w)"
proof -
  let ?t = "pw_mvcc_tx_id pw" and ?m = "pg_metadata_page (db_pager db)" and ?h = "w_header (db_wal db)"
  have r: "store_ok (db_pager db)" "header_uncached (db_pager db)" "wal_log (db_wal db) fs" "length fs + length (pw_writes pw) + 2 < 2 ^ 64"
    "mc_to_vec (en_codec E) (published pw (db_metadata db)) = Some data" "length data \<le> PAGE_SIZE" "?m \<noteq> 0" "page_ok ?m"
    using assms(1) by (simp_all add: commit_room_def)
  have p: "distinct (pw_modified_collections pw)" "\<forall>c \<in> set (pw_modified_collections pw). collection_root (db_metadata db) c = root_in (pw_snapshot_roots pw) c"
    "list_all (\<lambda>(p, d). length d = PAGE_SIZE) (pw_writes pw)"
    using assms(2) by (auto simp: plain_request_def list_all_iff entry_ok_def)
  obtain w1 where w1: "for_each (log_page E ?t) (pw_writes pw) db = (Ok (), db\<lparr>db_wal := w1\<rparr>)" "wal_log w1 (fs @ log_of ?h ?t (pw_writes pw))" "w_header w1 = ?h"
    using log_pages_spec [OF r(3) p(3)] r(4) by auto
  let ?db1 = "db\<lparr>db_wal := w1\<rparr>" and ?md = "published pw (db_metadata db)"
  have a: "apply_batch E [pw] ?db1 = (Ok [pw], ?db1\<lparr>db_metadata := ?md\<rparr>)"
    using apply_collections_same_root [of "pw_modified_collections pw" ?db1 pw E] p by (simp add: published_def)
  let ?db2 = "?db1\<lparr>db_metadata := ?md\<rparr>"
  have mx: "max_tx_id [pw] = ?t" by (simp add: max_tx_id_def)
  have len: "length (fs @ log_of ?h ?t (pw_writes pw)) + 2 < 2 ^ 64" using r(4) by (simp add: log_of_def)
  obtain s w2 hd where c: "commit_metadata E ?t ?db2 = (Ok (), ?db2\<lparr>db_pager := s, db_wal := w2\<rparr>)" "store_ok s" "pg_next_tx_id s = ?t + 1" "pg_metadata_page s = ?m"
    "\<forall>q d. q \<noteq> 0 \<longrightarrow> ((page_content (db_pager db))(?m \<mapsto> pad_page data)) q = Some d \<longrightarrow> page_content s q = Some d"
    "wal_log w2 ((fs @ log_of ?h ?t (pw_writes pw)) @ log_of ?h ?t [(?m, pad_page data), (0, hd)])"
    using commit_metadata_spec [of ?db2 "fs @ log_of ?h ?t (pw_writes pw)" E data ?t] r w1(2,3) len by auto
  obtain w3 where w3: "wal_sync w2 = (Ok (), w3)" "wal_log w3 ((fs @ log_of ?h ?t (pw_writes pw)) @ log_of ?h ?t [(?m, pad_page data), (0, hd)])"
    "w_buf w3 = []" "f_durable (w_file w3) = f_bytes (w_file w3)"
    using wal_sync_log [OF c(6)] by blast
  have "and_then (for_each (\<lambda>pw. for_each (log_page E (pw_mvcc_tx_id pw)) (pw_writes pw)) [pw] db) (\<lambda>_ db.
      and_then (apply_batch E [pw] db) (\<lambda>batch db. and_then (commit_metadata E (max_tx_id batch) db) (\<lambda>_ db.
      and_then (db_on_wal wal_sync db) (\<lambda>_ db. g batch db)))) = g [pw] (db\<lparr>db_metadata := ?md, db_pager := s, db_wal := w3\<rparr>)"
    using w1(1) a mx c(1) w3(1) by (simp add: db_on_wal_def del: apply_batch.simps)
  moreover have "page_content s ?m = Some (pad_page data)" using c(5) r(7) by simp
  ultimately show ?thesis using c(2,3,4) w3(2-4) by (intro exI [of _ s] exI [of _ w3] exI [of _ hd]) (simp add: log_of_def)
qed

text \<open>The second half: the pages go to the file, and the events to the watchers.\<close>

definition finish_commit :: "'n env \<Rightarrow> pending_write list \<Rightarrow> 'n database \<Rightarrow> unit res \<times> 'n database" where
  "finish_commit E batch db = and_then (for_each (\<lambda>pw. for_each transfer_page (pw_writes pw)) batch db) (\<lambda>_ db.
     and_then (db_on_pager flush_no_sync db) (\<lambda>_ db. and_then (db_on_pager sync_data_only db) (\<lambda>_ db.
     let db = db\<lparr>db_tx_manager := fold (\<lambda>pw. commit_transaction (pw_mvcc_tx_id pw)) batch (db_tx_manager db)\<rparr>;
         db = db\<lparr>db_version_chains := fold (\<lambda>pw. add_old_versions (pw_mvcc_tx_id pw) (pw_old_versions pw)) batch (db_version_chains db)\<rparr>
     in for_each (emit_pending E) batch db)))"

lemma commit_stored:
  assumes "store_ok (db_pager db)" "list_all entry_ok (pw_writes pw)" "distinct (map fst (pw_writes pw))" "events_readable pw"
  shows "\<exists>db'. finish_commit E [pw] db = (Ok (), db') \<and> db_metadata db' = db_metadata db \<and> db_wal db' = db_wal db \<and> same_alloc (db_pager db) (db_pager db') \<and>
    (\<forall>p d. (page_content (db_pager db) ++ hm_get (pw_writes pw)) p = Some d \<longrightarrow>
       page_content (db_pager db') p = Some d \<and> file_page (f_durable (pg_file (db_pager db'))) p = Some d)"
proof -
  let ?ws = "pw_writes pw" and ?s = "db_pager db"
  obtain s2 where s2: "for_each transfer_page ?ws db = (Ok (), db\<lparr>db_pager := s2\<rparr>)" "pager_inv s2" "same_alloc ?s s2" "page_content s2 = page_content ?s ++ map_of (rev ?ws)"
    using transfer_pages_spec [of db ?ws] assms(1,2) by (auto simp: store_ok_def)
  have "\<not> pg_read_only s2" using s2(3) assms(1) by (simp add: same_alloc_def store_ok_def)
  then obtain s3 s4 where f: "flush_no_sync s2 = (Ok (), s3)" "sync_data_only s3 = (Ok (), s4)" "pager_inv s4" "same_alloc s2 s4"
    "\<forall>p d. page_content s2 p = Some d \<longrightarrow> page_content s4 p = Some d \<and> file_page (f_durable (pg_file s4)) p = Some d"
    using flush_no_sync_spec [OF s2(2)] by blast
  have al: "same_alloc ?s s4" by (rule same_alloc_trans [OF s2(3) f(4)])
  have ok4: "store_ok s4" using assms(1) f(3) same_alloc_in_use [OF al] al by (simp add: store_ok_def same_alloc_def)
  define db2 where "db2 = db\<lparr>db_pager := s4, db_tx_manager := commit_transaction (pw_mvcc_tx_id pw) (db_tx_manager db),
    db_version_chains := add_old_versions (pw_mvcc_tx_id pw) (pw_old_versions pw) (db_version_chains db)\<rparr>"
  obtain db' where e: "emit_pending E pw db2 = (Ok (), db')" "emitted db2 db'" using emit_pending_ok [OF _ assms(4), of db2 E] ok4 by (auto simp: db2_def)
  have run: "finish_commit E [pw] db = (Ok (), db')"
    unfolding finish_commit_def using s2(1) f(1,2) e(1) by (simp add: db_on_pager_def db2_def)
  obtain s5 where s5: "db_pager db' = s5" "only_reads s4 s5" "page_content s5 = page_content s4" "db_metadata db' = db_metadata db" "db_wal db' = db_wal db"
    using e(2) by (auto simp: emitted_def db2_def)
  have "same_alloc ?s s5" "pg_file s5 = pg_file s4" using s5(2) same_alloc_trans [OF al] by (auto simp: only_reads_def)
  then show ?thesis using run s5 f(5) unfolding s2(4) map_of_rev_distinct [OF assms(3)] by (intro exI [of _ db'] conjI) simp_all
qed

lemma commit_ok:
  assumes "validate_pending_write E pw db = (Ok (), db\<lparr>db_pager := s\<rparr>)" "commit_room E pw fs data (db\<lparr>db_pager := s\<rparr>)" "plain_request pw (db_metadata db)"
  shows "\<exists>db' header. execute_batch_commit E [pw] db = (Ok (), db') \<and>
    (\<forall>c. collection_root (db_metadata db') c = (if c \<in> set (pw_modified_collections pw) then new_root pw (db_metadata db) c else collection_root (db_metadata db) c)) \<and>
    (\<forall>p d. hm_get (pw_writes pw) p = Some d \<longrightarrow> page_content (db_pager db') p = Some d \<and> file_page (f_durable (pg_file (db_pager db'))) p = Some d) \<and>
    file_page (f_durable (pg_file (db_pager db'))) (pg_metadata_page s) = Some (pad_page data) \<and>
    wal_log (db_wal db') (fs @ log_of (w_header (db_wal db)) (pw_mvcc_tx_id pw) (pw_writes pw @ [(pg_metadata_page s, pad_page data), (0, header)])) \<and>
    w_buf (db_wal db') = [] \<and> f_durable (w_file (db_wal db')) = f_bytes (w_file (db_wal db')) \<and>
    pg_next_tx_id (db_pager db') = pw_mvcc_tx_id pw + 1"
proof -
  let ?db = "db\<lparr>db_pager := s\<rparr>" and ?ws = "pw_writes pw" and ?m = "pg_metadata_page s"
  have ent: "list_all entry_ok ?ws" "distinct (map fst ?ws)" "events_readable pw" "distinct (written_docs pw)" using assms(3) by (simp_all add: plain_request_def)
  have m: "hm_get ?ws ?m = None" using assms(2) by (simp add: commit_room_def map_of_eq_None_iff)
  have chk: "check_batch_conflicts [pw] = Ok ()" using ent(4) by (simp add: check_batch_conflicts_def check_batch_eq disjoint_docs_def)
  have split: "execute_batch_commit E [pw] db = and_then (for_each (\<lambda>pw. for_each (log_page E (pw_mvcc_tx_id pw)) (pw_writes pw)) [pw] ?db) (\<lambda>_ db.
      and_then (apply_batch E [pw] db) (\<lambda>batch db. and_then (commit_metadata E (max_tx_id batch) db) (\<lambda>_ db.
      and_then (db_on_wal wal_sync db) (\<lambda>_ db. finish_commit E batch db))))"
    using assms(1) chk by (simp add: execute_batch_commit_def finish_commit_def del: apply_batch.simps)
  obtain s1 w hd where l: "execute_batch_commit E [pw] db = finish_commit E [pw] (?db\<lparr>db_metadata := published pw (db_metadata db), db_pager := s1, db_wal := w\<rparr>)"
    "store_ok s1" "pg_next_tx_id s1 = pw_mvcc_tx_id pw + 1" "page_content s1 ?m = Some (pad_page data)"
    "wal_log w (fs @ log_of (w_header (db_wal db)) (pw_mvcc_tx_id pw) (?ws @ [(?m, pad_page data), (0, hd)]))" "w_buf w = []" "f_durable (w_file w) = f_bytes (w_file w)"
    using commit_logged [OF assms(2), of "finish_commit E"] assms(3) unfolding split by auto
  obtain db' where d: "execute_batch_commit E [pw] db = (Ok (), db')" "db_metadata db' = published pw (db_metadata db)" "db_wal db' = w" "same_alloc s1 (db_pager db')"
    "\<forall>p d. (page_content s1 ++ hm_get ?ws) p = Some d \<longrightarrow> page_content (db_pager db') p = Some d \<and> file_page (f_durable (pg_file (db_pager db'))) p = Some d"
    using commit_stored [of "?db\<lparr>db_metadata := published pw (db_metadata db), db_pager := s1, db_wal := w\<rparr>" pw E] l(2) ent(1-3) unfolding l(1) by auto
  have "pg_next_tx_id (db_pager db') = pw_mvcc_tx_id pw + 1" using d(4) l(3) by (simp add: same_alloc_def)
  moreover have "(page_content s1 ++ hm_get ?ws) ?m = Some (pad_page data)" "\<And>p d. hm_get ?ws p = Some d \<Longrightarrow> (page_content s1 ++ hm_get ?ws) p = Some d"
    using l(4) m by (simp_all add: map_add_def)
  ultimately show ?thesis using d l(5-7) published_root [of pw "pw_modified_collections pw" "db_metadata db"]
    by (intro exI [of _ db'] exI [of _ hd] conjI) (simp_all add: published_def)
qed

text \<open>
  C11: A commit without conflict that needs no rebase succeeds. It publishes the new root of every modified collection and no other, its pages and the metadata are on the disk and can be read,
  and the synced log ends with its pages, the metadata and the header, under its transaction id.
\<close>

theorem commit_durable:
  assumes "validate_pending_write E pw db = (Ok (), db\<lparr>db_pager := s\<rparr>)" "commit_room E pw fs data (db\<lparr>db_pager := s\<rparr>)" "plain_request pw (db_metadata db)"
  shows "\<exists>db' header. execute_batch_commit E [pw] db = (Ok (), db') \<and>
    (\<forall>c. collection_root (db_metadata db') c = (if c \<in> set (pw_modified_collections pw) then new_root pw (db_metadata db) c else collection_root (db_metadata db) c)) \<and>
    (\<forall>p d. hm_get (pw_writes pw) p = Some d \<longrightarrow> page_content (db_pager db') p = Some d \<and> file_page (f_durable (pg_file (db_pager db'))) p = Some d) \<and>
    file_page (f_durable (pg_file (db_pager db'))) (pg_metadata_page s) = Some (pad_page data) \<and>
    wal_log (db_wal db') (fs @ log_of (w_header (db_wal db)) (pw_mvcc_tx_id pw) (pw_writes pw @ [(pg_metadata_page s, pad_page data), (0, header)])) \<and>
    w_buf (db_wal db') = [] \<and> f_durable (w_file (db_wal db')) = f_bytes (w_file (db_wal db')) \<and>
    pg_next_tx_id (db_pager db') = pw_mvcc_tx_id pw + 1"
  by (rule commit_ok [OF assms])

text \<open>A new database whose metadata page is allocated.\<close>

lemma sample_opened:
  obtains s t w where "pager_open None 10 False = Ok s" "alloc_page s = (Ok 1, t)" "wal_open None 1 2 = Ok w"
    "store_ok (t\<lparr>pg_metadata_page := 1, pg_next_tx_id := n\<rparr>)" "header_uncached (t\<lparr>pg_metadata_page := 1, pg_next_tx_id := n\<rparr>)" "wal_log w []"
proof -
  obtain s t where s: "pager_open None 10 False = Ok s" "alloc_page s = (Ok 1, t)" "pager_inv t" "alloc_ok t"
    "\<not> pg_read_only t" "pg_num_pages t = 2" "pg_free_list t = []" "pg_cache t = cache_new 10" by (rule alloc_from_new)
  obtain w where "wal_open None 1 2 = Ok w" "wal_log w []" using wal_open_new by blast
  then show thesis using that [OF s(1,2)] s(3-8) pager_inv_cong [of "t\<lparr>pg_metadata_page := 1, pg_next_tx_id := n\<rparr>" t]
    by (simp add: store_ok_def alloc_ok_def free_list_ok_def header_uncached_def cache_new_def lru_view_new)
qed

definition page_request :: "tx_id \<Rightarrow> pending_write" where
  "page_request t = (sample_write ''a'' t)\<lparr>pw_writes := [(5, replicate PAGE_SIZE 7)], pw_doc_writes := []\<rparr>"

lemma sample_commit_room:
  assumes "store_ok s" "header_uncached s" "pg_metadata_page s = 1" "wal_log w []"
  shows "commit_room sample_env (page_request t) [] [123, 125] (sample_database s w metadata_new)" "plain_request (page_request t) (metadata_new :: nat metadata)"
    "validate_pending_write sample_env (page_request t) (sample_database s w metadata_new) = (Ok (), sample_database s w metadata_new)"
proof -
  have "store_ok (set_metrics metrics_new s)" using set_metrics_store [OF assms(1)] by (simp add: same_store_def)
  moreover have "wal_log (wal_set_metrics metrics_new w) []" using assms(4) by (simp add: wal_log_def wal_set_metrics_def)
  ultimately show "commit_room sample_env (page_request t) [] [123, 125] (sample_database s w metadata_new)"
    using assms(2,3) by (simp add: commit_room_def sample_database_def database_with_def header_uncached_def set_metrics_def page_request_def
        sample_write_def sample_env_def sample_codec_def published_def page_ok_def const_defs)
  show "plain_request (page_request t) (metadata_new :: nat metadata)"
    by (simp add: plain_request_def page_request_def sample_write_def written_docs_def entry_ok_def page_ok_def events_readable_def)
  show "validate_pending_write sample_env (page_request t) (sample_database s w metadata_new) = (Ok (), sample_database s w metadata_new)"
    by (simp add: validate_pending_write_def page_request_def sample_write_def)
qed

definition sample_pager :: "tx_id \<Rightarrow> pager \<Rightarrow> pager" where
  "sample_pager n t = t\<lparr>pg_metadata_page := 1, pg_next_tx_id := n\<rparr>"

lemma sample_ready:
  obtains s t w where "pager_open None 10 False = Ok s" "alloc_page s = (Ok 1, t)" "wal_open None 1 2 = Ok w"
    "validate_pending_write sample_env (page_request i) (sample_database (sample_pager n t) w metadata_new) =
       (Ok (), (sample_database (sample_pager n t) w metadata_new)\<lparr>db_pager := db_pager (sample_database (sample_pager n t) w metadata_new)\<rparr>)"
    "commit_room sample_env (page_request i) [] [123, 125]
       ((sample_database (sample_pager n t) w metadata_new)\<lparr>db_pager := db_pager (sample_database (sample_pager n t) w metadata_new)\<rparr>)"
    "plain_request (page_request i) (db_metadata (sample_database (sample_pager n t) w metadata_new))"
proof -
  obtain s t w where o: "pager_open None 10 False = Ok s" "alloc_page s = (Ok 1, t)" "wal_open None 1 2 = Ok w"
    "store_ok (sample_pager n t)" "header_uncached (sample_pager n t)" "wal_log w []" unfolding sample_pager_def by (rule sample_opened)
  let ?db = "sample_database (sample_pager n t) w metadata_new"
  have pm: "pg_metadata_page (sample_pager n t) = 1" by (simp add: sample_pager_def)
  have d: "?db\<lparr>db_pager := db_pager ?db\<rparr> = ?db" "db_metadata ?db = metadata_new" by (simp_all add: sample_database_def database_with_def)
  show thesis using that [OF o(1-3)] sample_commit_room [OF o(4,5) pm o(6), of i] unfolding d by blast
qed

theorem commit_durable_witness:
  "\<exists>s t w db'. pager_open None 10 False = Ok s \<and> alloc_page s = (Ok 1, t) \<and> wal_open None 1 2 = Ok w \<and>
    execute_batch_commit sample_env [page_request 7] (sample_database (sample_pager 1 t) w metadata_new) = (Ok (), db') \<and>
    file_page (f_durable (pg_file (db_pager db'))) 5 = Some (replicate PAGE_SIZE 7) \<and> pg_next_tx_id (db_pager db') = 8"
proof -
  obtain s t w where o: "pager_open None 10 False = Ok s" "alloc_page s = (Ok 1, t)" "wal_open None 1 2 = Ok w"
    and r: "validate_pending_write sample_env (page_request 7) (sample_database (sample_pager 1 t) w metadata_new) =
       (Ok (), (sample_database (sample_pager 1 t) w metadata_new)\<lparr>db_pager := db_pager (sample_database (sample_pager 1 t) w metadata_new)\<rparr>)"
    "commit_room sample_env (page_request 7) [] [123, 125]
       ((sample_database (sample_pager 1 t) w metadata_new)\<lparr>db_pager := db_pager (sample_database (sample_pager 1 t) w metadata_new)\<rparr>)"
    "plain_request (page_request 7) (db_metadata (sample_database (sample_pager 1 t) w metadata_new))" by (rule sample_ready)
  obtain db' where "execute_batch_commit sample_env [page_request 7] (sample_database (sample_pager 1 t) w metadata_new) = (Ok (), db')"
    "\<forall>p d. hm_get (pw_writes (page_request 7)) p = Some d \<longrightarrow> file_page (f_durable (pg_file (db_pager db'))) p = Some d"
    "pg_next_tx_id (db_pager db') = pw_mvcc_tx_id (page_request 7) + 1"
    using commit_durable [OF r] by blast
  then show ?thesis using o by (intro exI conjI) (auto simp: page_request_def sample_write_def)
qed

lemma sample_executes:
  obtains s t w db' where "pager_open None 10 False = Ok s" "alloc_page s = (Ok 1, t)" "wal_open None 1 2 = Ok w"
    "execute_batch_commit sample_env [page_request i] (sample_database (sample_pager n t) w metadata_new) = (Ok (), db')"
  using sample_ready [of i n] commit_ok by metis

subsection \<open>The counter of transactions\<close>

lemma and_then_Ok: "and_then m f = (Ok x, s') \<Longrightarrow> \<exists>y s. m = (Ok y, s) \<and> f y s = (Ok x, s')"
  by (cases m; cases "fst m") auto

definition same_next :: "'n database \<Rightarrow> 'n database \<Rightarrow> bool" where
  "same_next db db' \<longleftrightarrow> pg_next_tx_id (db_pager db') = pg_next_tx_id (db_pager db)"

interpretation next_id: frame same_next
  by unfold_locales (simp_all add: same_next_def)

lemma next_on_pager: "(\<And>s. pg_next_tx_id (snd (f s)) = pg_next_tx_id s) \<Longrightarrow> same_next db (snd (db_on_pager f db))"
  by (simp add: db_on_pager_def same_next_def split: prod.split) (metis snd_conv)

lemma pager_write_next: "pg_next_tx_id (snd (pager_write_file off d s)) = pg_next_tx_id s"
  by (auto simp: pager_write_file_def split: prod.split)

lemma transfer_next: "same_next db (snd (transfer_page e db))"
  unfolding transfer_page_def by (rule next_on_pager) (auto simp: write_page_transfer_def with_cache_def split: option.split)

lemma header_next: "pg_next_tx_id (snd (write_header_no_sync s)) = pg_next_tx_id s"
  by (cases "get_header_data s") (simp_all add: write_header_no_sync_def pager_write_next)

lemma flush_pages_next: "pg_next_tx_id (snd (flush_pages ps s)) = pg_next_tx_id s"
proof (induction ps arbitrary: s)
  case (Cons p ps)
  show ?case
  proof (cases "lru_get_read_only p (pg_cache s)")
    case (Some x)
    show ?thesis
    proof (cases x)
      case (Some d)
      obtain r t where r: "pager_write_file (page_offset p) d s = (r, t)" by (cases "pager_write_file (page_offset p) d s")
      then have "pg_next_tx_id t = pg_next_tx_id s" using pager_write_next [of "page_offset p" d s] by simp
      then show ?thesis using Cons \<open>x = Some d\<close> \<open>lru_get_read_only p (pg_cache s) = Some x\<close> r by (cases r) simp_all
    qed (use Cons Some in simp)
  qed simp
qed simp

lemma flush_next: "same_next db (snd (db_on_pager flush_no_sync db))"
proof (rule next_on_pager)
  show "pg_next_tx_id (snd (flush_no_sync s)) = pg_next_tx_id s" for s
    using flush_pages_next [of "cache_get_all_dirty (pg_cache s)" s]
    by (cases "flush_pages (cache_get_all_dirty (pg_cache s)) s"; cases "fst (flush_pages (cache_get_all_dirty (pg_cache s)) s)") (simp_all add: flush_no_sync_def)
qed

lemma sync_next: "same_next db (snd (db_on_pager sync_data_only db))"
  by (rule next_on_pager) (simp add: sync_data_only_def pager_sync_def)

lemma emit_next: "same_next db (snd (emit_pending E pw db))"
proof -
  have d: "same_next db (snd (document_for_event E w p db))" for db w p
  proof -
    have "same_next db (snd (db_on_pager (read_versioned_document p w) db))"
      by (rule next_on_pager) (use read_versioned_only [of _ p w] in \<open>simp add: only_reads_def same_alloc_def\<close>)
    then show ?thesis unfolding document_for_event_def
      by (cases "db_on_pager (read_versioned_document p w) db"; cases "fst (db_on_pager (read_versioned_document p w) db)") auto
  qed
  have e: "same_next db (emit_to_watchers E c op i doc db)" for c op i doc and db :: "'a database"
    by (simp add: emit_to_watchers_def same_next_def split: prod.split)
  show ?thesis unfolding emit_pending_def emit_pending_doc_def
    by (auto intro!: next_id.for_each next_id.and_then d e simp: next_id.R_refl split: prod.split)
qed

lemma finish_next: "same_next db (snd (finish_commit E batch db))"
  unfolding finish_commit_def Let_def
proof (intro next_id.and_then next_id.for_each transfer_next flush_next sync_next)
  fix db :: "'a database"
  let ?db = "db\<lparr>db_tx_manager := fold (\<lambda>pw. commit_transaction (pw_mvcc_tx_id pw)) batch (db_tx_manager db)\<rparr>
    \<lparr>db_version_chains := fold (\<lambda>pw. add_old_versions (pw_mvcc_tx_id pw) (pw_old_versions pw)) batch
       (db_version_chains (db\<lparr>db_tx_manager := fold (\<lambda>pw. commit_transaction (pw_mvcc_tx_id pw)) batch (db_tx_manager db)\<rparr>))\<rparr>"
  have "same_next ?db (snd (for_each (emit_pending E) batch ?db))" by (intro next_id.for_each emit_next)
  then show "same_next db (snd (for_each (emit_pending E) batch ?db))" by (simp add: same_next_def)
qed

lemma set_next_db: "db_on_pager (set_next_transaction_id i) db = (Ok (), db') \<Longrightarrow> pg_next_tx_id (db_pager db') = i"
  by (auto simp: db_on_pager_def set_next_transaction_id_def)

lemma metadata_next: "commit_metadata E t db = (Ok (), db') \<Longrightarrow> pg_next_tx_id (db_pager db') = t + 1"
proof -
  assume "commit_metadata E t db = (Ok (), db')"
  then obtain db1 where "db_on_pager write_header_no_sync db1 = (Ok (), db')" "pg_next_tx_id (db_pager db1) = t + 1"
    unfolding commit_metadata_def Let_def
    by (auto dest!: and_then_Ok set_next_db)
  then show ?thesis using next_on_pager [of write_header_no_sync db1] header_next by (simp add: same_next_def)
qed

lemma apply_collection_id: "pw_mvcc_tx_id (fst (snd (apply_collection E c (pw, db)))) = pw_mvcc_tx_id pw"
proof -
  obtain r d where r: "db_on_pager (rebase_single_collection (en_fuel E) c (collection_root (db_metadata db) c) pw) db = (r, d)" by (metis surj_pair)
  have "pw_mvcc_tx_id pw' = pw_mvcc_tx_id pw" if "r = Ok pw'" for pw'
    using r that by (auto simp: db_on_pager_def rebase_single_collection_def Let_def split: prod.splits res.splits)
  note id = this
  show ?thesis
  proof (cases "collection_root (db_metadata db) c = root_in (pw_snapshot_roots pw) c")
    case False
    show ?thesis
    proof (cases r)
      case (Ok pw')
      obtain r2 d2 where "for_each (log_page E (pw_mvcc_tx_id pw)) (filter (\<lambda>(p, _). \<not> hm_contains (pw_writes pw) p) (pw_writes pw')) d = (r2, d2)"
        by (metis surj_pair)
      then show ?thesis using False r Ok id by (cases r2) (simp_all add: apply_collection_def Let_def)
    qed (use False r in \<open>simp_all add: apply_collection_def Let_def\<close>)
  qed (simp add: apply_collection_def Let_def)
qed

lemma apply_batch_ids: "apply_batch E batch db = (Ok batch', db') \<Longrightarrow> map pw_mvcc_tx_id batch' = map pw_mvcc_tx_id batch"
proof (induction batch arbitrary: db batch')
  case (Cons pw batch)
  have ids: "pw_mvcc_tx_id (fst (snd (for_each (apply_collection E) cs (pw, db)))) = pw_mvcc_tx_id pw" for cs pw and db :: "'a database"
  proof (induction cs arbitrary: pw db)
    case (Cons c cs)
    obtain r pw' db' where "apply_collection E c (pw, db) = (r, pw', db')" by (metis prod_cases3)
    then show ?case using Cons [of pw' db'] apply_collection_id [of E c pw db] by (cases r) auto
  qed simp
  obtain r pw' d where a: "for_each (apply_collection E) (pw_modified_collections pw) (pw, db) = (r, pw', d)" by (metis prod_cases3)
  then have "pw_mvcc_tx_id pw' = pw_mvcc_tx_id pw" using ids [of "pw_modified_collections pw" pw db] by simp
  then show ?case using Cons.prems Cons.IH [of d] a by (cases r) (auto dest!: and_then_Ok)
qed simp

text \<open>
  A commit sets the transaction id that a reopened database starts with to one more than the largest id of its own batch, not of all committed transactions. When a transaction commits
  after a later one, the counter goes back: the ids of committed transactions are given out again, and their versions are newer than every snapshot of the reopened database.
\<close>

theorem commit_sets_next_id:
  assumes "execute_batch_commit E batch db = (Ok (), db')"
  shows "pg_next_tx_id (db_pager db') = max_tx_id batch + 1"
proof -
  obtain batch' db1 db2 db3 where a: "apply_batch E batch db1 = (Ok batch', db2)" "commit_metadata E (max_tx_id batch') db2 = (Ok (), db3)"
    "and_then (db_on_wal wal_sync db3) (\<lambda>_ db. finish_commit E batch' db) = (Ok (), db')"
    using assms unfolding execute_batch_commit_def finish_commit_def [symmetric] by (auto dest!: and_then_Ok)
  have ids: "map pw_mvcc_tx_id batch' = map pw_mvcc_tx_id batch" by (rule apply_batch_ids [OF a(1)])
  have fm: "max_tx_id b = fold max (map pw_mvcc_tx_id b) 0" for b by (simp add: max_tx_id_def fold_map comp_def)
  obtain db4 where w: "db_on_wal wal_sync db3 = (Ok (), db4)" "finish_commit E batch' db4 = (Ok (), db')" using and_then_Ok [OF a(3)] by auto
  have "same_next db4 db'" using finish_next [of db4 E batch'] w(2) by simp
  moreover have "db_pager db4 = db_pager db3" using w(1) by (auto simp: db_on_wal_def split: prod.splits)
  ultimately show ?thesis using metadata_next [OF a(2)] unfolding fm ids by (simp add: same_next_def)
qed

theorem commit_sets_next_id_witness:
  "\<exists>s t w db'. pager_open None 10 False = Ok s \<and> alloc_page s = (Ok 1, t) \<and> wal_open None 1 2 = Ok w \<and>
    execute_batch_commit sample_env [page_request 7] (sample_database (sample_pager 9 t) w metadata_new) = (Ok (), db') \<and>
    pg_next_tx_id (db_pager db') = 8"
proof -
  obtain s t w db' where o: "pager_open None 10 False = Ok s" "alloc_page s = (Ok 1, t)" "wal_open None 1 2 = Ok w"
    "execute_batch_commit sample_env [page_request 7] (sample_database (sample_pager 9 t) w metadata_new) = (Ok (), db')" by (rule sample_executes)
  have "pg_next_tx_id (db_pager db') = max_tx_id [page_request 7] + 1" by (rule commit_sets_next_id [OF o(4)])
  then show ?thesis using o by (intro exI conjI) (auto simp: max_tx_id_def page_request_def sample_write_def)
qed

subsection \<open>The limit of the metadata\<close>



end
