(* ===== verification/Recovery.thy ===== *)
theory Recovery
  imports Collection Commit_Effect
begin

text \<open>
  Opening a database, \<open>src/core/database.rs\<close>: \<open>open_with_options\<close> with the recovery from the write-ahead log, and \<open>update_metadata\<close>, \<open>checkpoint\<close> and \<open>close\<close>.

  The disk holds the main file and the log, and the lock that another process may have on the database. A failed open yields no handle; the files it has changed by then are not followed.
  Logs are created with two random salts.
\<close>

subsection \<open>Specification\<close>

record disk =
  dk_main :: "dfile option"
  dk_log :: "dfile option"
  dk_locked :: bool

fun contains_dots :: "string \<Rightarrow> bool" where
  "contains_dots (a # b # cs) \<longleftrightarrow> a = CHR ''.'' \<and> b = CHR ''.'' \<or> contains_dots (b # cs)"
| "contains_dots _ \<longleftrightarrow> False"

definition check_path :: "string \<Rightarrow> unit res" where
  "check_path path =
     (if path = [] then Err (Other ''database path cannot be empty'')
      else if contains_dots path then Err (Other ''database path cannot contain dots'')
      else Ok ())"

text \<open>The metadata page and the number of pages in the last header of the log.\<close>

definition note_header :: "wal_frame \<Rightarrow> u64 option \<times> u64 option \<Rightarrow> u64 option \<times> u64 option" where
  "note_header f latest =
     (if wf_page_num f = 0 \<and> length (wf_page_data f) \<ge> 32 then
        (case (read_u64 24 (wf_page_data f), read_u64 12 (wf_page_data f)) of
           (Ok meta_page, Ok num_pages) \<Rightarrow> (if meta_page > 0 then Some meta_page else fst latest, Some num_pages)
         | _ \<Rightarrow> latest)
      else latest)"

definition logged_header :: "wal_frame list \<Rightarrow> u64 option \<times> u64 option" where
  "logged_header frames = fold note_header frames (None, None)"

definition max_page_of :: "wal_frame list \<Rightarrow> page_num" where
  "max_page_of frames = fold (\<lambda>f m. if wf_page_num f > m then wf_page_num f else m) frames 0"

definition recovered_pages :: "wal_frame list \<Rightarrow> pager \<Rightarrow> u64" where
  "recovered_pages frames pg =
     (case snd (logged_header frames) of
        Some num_pages \<Rightarrow> num_pages
      | None \<Rightarrow> if max_page_of frames \<ge> pg_num_pages pg then max_page_of frames + 1 else pg_num_pages pg)"

definition recover :: "nat \<Rightarrow> wal \<times> pager \<Rightarrow> unit res \<times> wal \<times> pager" where
  "recover now st =
     (case st of (w, pg) \<Rightarrow>
      case read_all_frames w of
        (Err e, w) \<Rightarrow> (Err e, w, pg)
      | (Panic, w) \<Rightarrow> (Panic, w, pg)
      | (Ok frames, w) \<Rightarrow>
          (case set_num_pages (recovered_pages frames pg) pg of (_, pg) \<Rightarrow>
           and_then (wal_checkpoint now (w, pg)) (\<lambda>_ (w, pg).
           case fst (logged_header frames) of
             None \<Rightarrow> (Ok (), w, pg)
           | Some meta_page \<Rightarrow> (case set_metadata_page meta_page pg of (_, pg) \<Rightarrow> case write_header pg of (r, pg) \<Rightarrow> (r, w, pg)))))"

definition load_metadata :: "'n env \<Rightarrow> pager \<Rightarrow> 'n metadata res \<times> pager" where
  "load_metadata E pg =
     (if pg_metadata_page pg > 0 then
        and_then (read_page (pg_metadata_page pg) pg) (\<lambda>meta_data pg. (metadata_deserialize (en_codec E) meta_data, pg))
      else
        and_then (alloc_page pg) (\<lambda>meta_page pg.
        and_then (metadata_serialize (en_codec E) metadata_new, pg) (\<lambda>meta_data pg.
        and_then (write_page_transfer meta_page (pad_page meta_data) pg) (\<lambda>_ pg.
        and_then (set_metadata_page meta_page pg) (\<lambda>_ pg.
        and_then (write_header pg) (\<lambda>_ pg.
        and_then (flush pg) (\<lambda>_ pg. (Ok metadata_new, pg))))))))"

definition open_with_options :: "'n env \<Rightarrow> string \<Rightarrow> database_options \<Rightarrow> u32 \<Rightarrow> u32 \<Rightarrow> disk \<Rightarrow> 'n database res" where
  "open_with_options E path opts salt1 salt2 disk =
     res_bind (check_path path) (\<lambda>_.
     if dk_locked disk then Err (Io ''lock'')
     else
       res_bind (pager_open (dk_main disk) (do_cache_size opts) (do_read_only opts)) (\<lambda>pg.
       res_bind (wal_open (dk_log disk) salt1 salt2) (\<lambda>w.
       case (if \<not> do_read_only opts \<and> frame_count w > 0 then recover (en_now E) (w, pg) else (Ok (), w, pg)) of (r, w, pg) \<Rightarrow>
       res_bind r (\<lambda>_.
       res_bind (get_current_transaction_id pg) (\<lambda>current_tx_id.
       let tm = initialize_from_pager current_tx_id tm_new in
       case load_metadata E pg of (r, pg) \<Rightarrow>
       res_bind r (\<lambda>md. Ok (database_with path opts pg w md tm)))))))"

definition db_open :: "'n env \<Rightarrow> string \<Rightarrow> u32 \<Rightarrow> u32 \<Rightarrow> disk \<Rightarrow> 'n database res" where
  "db_open E path salt1 salt2 disk = open_with_options E path database_options_default salt1 salt2 disk"

definition save_metadata :: "'n env \<Rightarrow> 'n database \<Rightarrow> unit res \<times> 'n database" where
  "save_metadata E db = update_metadata E id db"

definition checkpoint_now :: "'n env \<Rightarrow> 'n database \<Rightarrow> unit res \<times> 'n database" where
  "checkpoint_now E db =
     (case wal_checkpoint (en_now E) (db_wal db, db_pager db) of (r, w, s) \<Rightarrow> (r, db\<lparr>db_wal := w, db_pager := s\<rparr>))"

definition db_checkpoint :: "'n env \<Rightarrow> 'n database \<Rightarrow> unit res \<times> 'n database" where
  "db_checkpoint E db = (if db_read_only db then (Err (Other ''cannot checkpoint in read-only mode''), db) else checkpoint_now E db)"

text \<open>A database is closed after a running checkpoint has ended or 30 seconds have passed: \<open>waited\<close> is what the other threads do in that time.\<close>

definition db_close :: "('n database \<Rightarrow> 'n database) \<Rightarrow> 'n database \<Rightarrow> unit res \<times> 'n database" where
  "db_close waited db =
     and_then (db_on_pager flush (if db_checkpoint_in_progress db then waited db else db)) (\<lambda>_ db. db_on_wal wal_close db)"

text \<open>\<open>Drop for Database\<close>, for the last handle: errors are ignored.\<close>

definition db_drop :: "('n database \<Rightarrow> 'n database) \<Rightarrow> 'n database \<Rightarrow> 'n database" where
  "db_drop waited db =
     (let db = snd (db_on_pager flush (if db_checkpoint_in_progress db then waited db else db)) in snd (db_on_wal wal_close db))"

subsection \<open>Lemmas\<close>

text \<open>A checkpoint leaves the cached pages and syncs the file.\<close>

lemma file_write_cache: "pg_cache (snd (pager_write_file off d s)) = pg_cache s"
  by (simp add: pager_write_file_def split: prod.split)

lemma flush_pages_cache: "pg_cache (snd (flush_pages ps s)) = pg_cache s"
proof (induction ps arbitrary: s)
  case (Cons p ps)
  then show ?case using file_write_cache by (auto simp: and_then_def split: option.split prod.split res.split) (metis snd_conv)+
qed simp

lemma write_batches_cache: "pg_cache (snd (write_batches ps s)) = pg_cache s"
proof (induction ps s rule: write_batches.induct)
  case (2 p d ps s)
  then show ?case using file_write_cache by (auto simp: and_then_def split: prod.split res.split) (metis snd_conv)+
qed simp

lemma direct_cache: "pg_cache (snd (write_pages_direct ps s)) = pg_cache s"
  using write_batches_cache by (auto simp: write_pages_direct_def and_then_def pager_sync_def Let_def split: prod.split res.split) (metis snd_conv)+

lemma flush_synced:
  assumes "flush s = (Ok (), s')" "\<not> pg_read_only s'"
  shows "lru_view (pg_cache s') = lru_view (pg_cache s) \<and> f_durable (pg_file s') = f_bytes (pg_file s')"
  using assms flush_pages_cache [of "sort (cache_get_all_dirty (pg_cache s))" s]
  by (auto simp: flush_def and_then_Ok_iff pager_sync_def file_sync_def cache_clear_all_dirty_def split: if_splits)

lemma checkpoint_synced:
  assumes "wal_checkpoint now (w, pg) = (Ok (), w', pg')" "\<not> pg_read_only pg'"
  shows "lru_view (pg_cache pg') = lru_view (pg_cache pg) \<and> f_durable (pg_file pg') = f_bytes (pg_file pg')"
proof -
  obtain frames pg1 where "write_pages_direct (checkpoint_pages frames) pg = (Ok (), pg1)" "flush pg1 = (Ok (), pg')"
    using assms(1) by (auto simp: wal_checkpoint_def Let_def split: prod.splits res.splits)
  then show ?thesis using flush_synced [of pg1 pg'] assms(2) direct_cache [of "checkpoint_pages frames" pg] by simp
qed

text \<open>Writing the header changes page 0 of the file only.\<close>

lemma write_header_sync: "write_header s = and_then (write_header_no_sync s) (\<lambda>_ s. (Ok (), pager_sync s))"
  by (cases "get_header_data s") (simp_all add: write_header_def write_header_no_sync_def)

lemma write_header_pages:
  assumes inv: "pager_inv s" and rw: "\<not> pg_read_only s" and h: "header_uncached s"
  shows "\<exists>s'. write_header s = (Ok (), s') \<and> pager_inv s' \<and> same_alloc s s' \<and> f_durable (pg_file s') = f_bytes (pg_file s') \<and>
    (\<forall>q d. q \<noteq> 0 \<longrightarrow> page_content s q = Some d \<longrightarrow> page_content s' q = Some d)"
proof -
  obtain t where t: "write_header_no_sync s = (Ok (), t)" "pager_inv t" "same_alloc s t"
    "\<forall>q d. q \<noteq> 0 \<longrightarrow> page_content s q = Some d \<longrightarrow> page_content t q = Some d" using header_no_sync_spec [OF assms] by blast
  have "pager_inv (pager_sync t)" using t(2) by (simp add: pager_inv_def pager_sync_def file_sync_def)
  moreover have "page_content (pager_sync t) q = page_content t q" for q by (simp add: page_content_def pager_sync_def file_sync_def split: option.split)
  ultimately show ?thesis using t by (intro exI [of _ "pager_sync t"]) (simp add: write_header_sync same_alloc_def pager_sync_def file_sync_def)
qed

text \<open>What recovery makes of an opened database and a log.\<close>

definition recovers :: "wal_frame list \<Rightarrow> pager \<Rightarrow> pager \<Rightarrow> bool" where
  "recovers fs pg pg' \<longleftrightarrow> pager_inv pg' \<and> \<not> pg_read_only pg' \<and> f_durable (pg_file pg') = f_bytes (pg_file pg') \<and>
     (\<forall>p d. last_data fs p = Some d \<longrightarrow> page_content pg' p = Some d) \<and>
     (\<forall>p d. p \<noteq> 0 \<longrightarrow> last_data fs p = None \<longrightarrow> page_content pg p = Some d \<longrightarrow> page_content pg' p = Some d) \<and>
     pg_num_pages pg' = recovered_pages fs pg \<and>
     pg_metadata_page pg' = (case fst (logged_header fs) of Some meta_page \<Rightarrow> meta_page | None \<Rightarrow> pg_metadata_page pg) \<and>
     pg_next_tx_id pg' = pg_next_tx_id pg \<and> pg_free_list pg' = pg_free_list pg"

lemma read_frame_file: "w_file (snd (read_frame i w)) = w_file w \<and> w_header (snd (read_frame i w)) = w_header w"
  by (simp add: read_frame_def wal_read_exact_def wal_seek_def and_then_def Let_def split: option.split res.split prod.split)

lemma read_frames_file: "w_file (snd (read_frames_from k i w)) = w_file w \<and> w_header (snd (read_frames_from k i w)) = w_header w"
proof (induction k arbitrary: i w)
  case (Suc k)
  obtain r u where u: "read_frame i w = (r, u)" by (cases "read_frame i w")
  obtain r' v where v: "read_frames_from k (i + 1) u = (r', v)" by (cases "read_frames_from k (i + 1) u")
  have "w_file u = w_file w \<and> w_header u = w_header w" using read_frame_file [of i w] u by simp
  moreover have "w_file v = w_file u \<and> w_header v = w_header u" using Suc.IH [of "i + 1" u] v by simp
  ultimately show ?case using u v by (cases r; cases r') simp_all
qed simp

lemma recover_spec:
  assumes log: "wal_log w fs" "w_buf w = []" "f_bytes (w_file w) = log_bytes (w_header w) fs @ junk" "tail_invalid (w_header w) junk"
    and pg: "pager_inv pg" "\<not> pg_read_only pg" "lru_view (pg_cache pg) = []" and pages: "list_all (\<lambda>f. page_ok (wf_page_num f)) fs"
  shows "\<exists>w' pg'. recover now (w, pg) = (Ok (), w', pg') \<and> wal_log w' [] \<and> f_durable (w_file w') = f_bytes (w_file w') \<and> recovers fs pg pg'"
proof -
  obtain v where v: "read_all_frames w = (Ok fs, v)" "wal_log v fs" "w_buf v = []" using read_all_frames_log [OF log(1,2)] by blast
  have vf: "w_file v = w_file w" "w_header v = w_header w"
    using read_frames_file [of "unat (w_frame_num w)" 0 w] v(1) by (simp_all add: read_all_frames_def)
  let ?pg = "pg\<lparr>pg_num_pages := recovered_pages fs pg\<rparr>"
  have p: "pager_inv ?pg" "\<not> pg_read_only ?pg" using pg pager_inv_cong [of ?pg pg] by simp_all
  have bytes: "f_bytes (w_file v) = log_bytes (w_header v) fs @ junk" "tail_invalid (w_header v) junk" using log(3,4) vf by simp_all
  have view: "\<forall>p d e. last_data fs p = Some d \<longrightarrow> map_of (lru_view (pg_cache ?pg)) p = Some e \<longrightarrow> e = d" using pg(3) by simp
  obtain w' pg1 where c: "wal_checkpoint now (v, ?pg) = (Ok (), w', pg1)" "wal_log w' []" "f_durable (w_file w') = f_bytes (w_file w')"
    "pager_inv pg1" "same_alloc ?pg pg1" "\<forall>p d. last_data fs p = Some d \<longrightarrow> page_content pg1 p = Some d"
    "\<forall>p d. last_data fs p = None \<longrightarrow> page_content ?pg p = Some d \<longrightarrow> page_content pg1 p = Some d"
    using checkpoint_spec [OF v(2,3) bytes p pages view, where now = now] by blast
  have rw: "\<not> pg_read_only pg1" using c(5) pg(2) by (simp add: same_alloc_def)
  have sy: "lru_view (pg_cache pg1) = []" "f_durable (pg_file pg1) = f_bytes (pg_file pg1)" using checkpoint_synced [OF c(1) rw] pg(3) by auto
  have pc: "page_content ?pg = page_content pg" by (rule page_content_cong) simp_all
  note al = c(5) [unfolded same_alloc_def]
  show ?thesis
  proof (cases "fst (logged_header fs)")
    case None
    then have "recover now (w, pg) = (Ok (), w', pg1)" by (simp add: recover_def v(1) set_num_pages_def c(1))
    moreover have "recovers fs pg pg1"
      using None c(4) c(6) c(7) [unfolded pc] sy(2) rw al by (auto simp: recovers_def)
    ultimately show ?thesis using c(2,3) by blast
  next
    case (Some meta_page)
    let ?pg1 = "pg1\<lparr>pg_metadata_page := meta_page\<rparr>"
    have q: "pager_inv ?pg1" "\<not> pg_read_only ?pg1" "header_uncached ?pg1"
      using c(4) pager_inv_cong [of ?pg1 pg1] rw sy(1) by (simp_all add: header_uncached_def)
    obtain pg2 where h: "write_header ?pg1 = (Ok (), pg2)" "pager_inv pg2" "same_alloc ?pg1 pg2" "f_durable (pg_file pg2) = f_bytes (pg_file pg2)"
      "\<forall>q d. q \<noteq> 0 \<longrightarrow> page_content ?pg1 q = Some d \<longrightarrow> page_content pg2 q = Some d" using write_header_pages [OF q] by blast
    have "page_content ?pg1 = page_content pg1" by (rule page_content_cong) simp_all
    moreover have "q \<noteq> 0" if "last_data fs q = Some d" for q d using that by (auto simp: last_data_def split: if_splits)
    ultimately have "\<forall>p d. last_data fs p = Some d \<longrightarrow> page_content pg2 p = Some d"
      "\<forall>p d. p \<noteq> 0 \<longrightarrow> last_data fs p = None \<longrightarrow> page_content pg p = Some d \<longrightarrow> page_content pg2 p = Some d" using c(6,7) h(5) pc by simp_all
    then have "recovers fs pg pg2" using h(2,4) h(3) [unfolded same_alloc_def] Some al rw by (simp add: recovers_def)
    moreover have "recover now (w, pg) = (Ok (), w', pg2)"
      using Some by (simp add: recover_def v(1) set_num_pages_def set_metadata_page_def c(1) h(1))
    ultimately show ?thesis using c(2,3) by blast
  qed
qed

lemma opened_pager:
  assumes "pager_open (Some f) n False = Ok pg" "length (f_bytes f) \<le> 2 ^ 63"
  shows "pager_inv pg \<and> \<not> pg_read_only pg \<and> lru_view (pg_cache pg) = [] \<and> pg_file pg = f"
proof -
  let ?s = "\<lparr>pg_file = f, pg_cache = cache_new n, pg_num_pages = 1, pg_metadata_page = 0, pg_next_tx_id = 1, pg_free_list = [],
    pg_read_only = False, pg_metrics = None\<rparr>"
  have "pg_cache pg = cache_new n \<and> pg_file pg = f \<and> \<not> pg_read_only pg"
    using assms(1) by (auto simp: pager_open_def read_header_def res_bind_Ok_iff split: res.splits prod.splits)
  then show ?thesis using assms(2) lru_inv_new lru_view_new by (simp add: pager_inv_def cache_new_def)
qed

text \<open>A disk with a log that a crash has left: valid frames, and behind them a frame that is torn or not valid.\<close>

definition crashed :: "disk \<Rightarrow> dfile \<Rightarrow> wal_header \<Rightarrow> wal_frame list \<Rightarrow> bool" where
  "crashed disk f h fs \<longleftrightarrow> \<not> dk_locked disk \<and> dk_main disk = Some f \<and> length (f_bytes f) \<le> 2 ^ 63 \<and>
     (\<exists>g junk. dk_log disk = Some g \<and> f_bytes g = log_bytes h fs @ junk \<and> tail_invalid h junk) \<and> wh_magic h = WAL_MAGIC \<and>
     fs \<noteq> [] \<and> length fs < 2 ^ 64 \<and> list_all (\<lambda>f. frame_fits f \<and> frame_valid h f \<and> page_ok (wf_page_num f)) fs"

lemma recovered_log:
  assumes c: "crashed disk f h fs" and o: "pager_open (Some f) (do_cache_size opts) False = Ok pg" and p: "check_path path = Ok ()" "\<not> do_read_only opts"
  shows "\<exists>w pg'. wal_log w [] \<and> recovers fs pg pg' \<and> open_with_options E path opts salt1 salt2 disk =
    (case load_metadata E pg' of (r, pg') \<Rightarrow> res_bind r (\<lambda>md. Ok (database_with path opts pg' w md (initialize_from_pager (pg_next_tx_id pg) tm_new))))"
proof -
  obtain g junk where d: "\<not> dk_locked disk" "dk_main disk = Some f" "length (f_bytes f) \<le> 2 ^ 63" "dk_log disk = Some g" "f_bytes g = log_bytes h fs @ junk"
    "tail_invalid h junk" "wh_magic h = WAL_MAGIC" "fs \<noteq> []" "length fs < 2 ^ 64" using c unfolding crashed_def by blast
  have fr: "list_all frame_fits fs" "list_all (frame_valid h) fs" "list_all (\<lambda>f. page_ok (wf_page_num f)) fs" using c by (auto simp: crashed_def list_all_iff)
  obtain w where w: "wal_open (Some g) salt1 salt2 = Ok w" "wal_log w fs" "w_buf w = []" "w_header w = h" "w_file w = g"
    using wal_reopen [OF d(7) fr(1,2) d(9,5,6)] by blast
  have n: "frame_count w > 0" using w(2) d(8) by (auto simp: wal_log_def frame_count_def word_less_nat_alt)
  have bytes: "f_bytes (w_file w) = log_bytes (w_header w) fs @ junk" "tail_invalid (w_header w) junk" using w(4,5) d(5,6) by simp_all
  have pg: "pager_inv pg" "\<not> pg_read_only pg" "lru_view (pg_cache pg) = []" using opened_pager [OF o d(3)] by simp_all
  obtain w' pg' where r: "recover (en_now E) (w, pg) = (Ok (), w', pg')" "wal_log w' []" "recovers fs pg pg'"
    using recover_spec [OF w(2,3) bytes pg fr(3)] by blast
  have t: "pg_next_tx_id pg' = pg_next_tx_id pg" using r(3) by (simp add: recovers_def)
  show ?thesis using r(2,3) p n by (intro exI [of _ w'] exI [of _ pg']) (simp add: open_with_options_def d(1,2,4) o w(1) r(1) t get_current_transaction_id_def)
qed

lemma recovered_database:
  assumes "crashed disk f h fs" "pager_open (Some f) (do_cache_size opts) False = Ok pg" "check_path path = Ok ()" "\<not> do_read_only opts"
    and m: "fst (logged_header fs) = Some meta_page" "last_data fs meta_page = Some d"
  shows "\<exists>w pg'. wal_log w [] \<and> recovers fs pg pg' \<and> open_with_options E path opts salt1 salt2 disk =
    res_bind (metadata_deserialize (en_codec E) d) (\<lambda>md. Ok (database_with path opts pg' w md (initialize_from_pager (pg_next_tx_id pg) tm_new)))"
proof -
  obtain w pg1 where r: "wal_log w []" "recovers fs pg pg1" "open_with_options E path opts salt1 salt2 disk =
    (case load_metadata E pg1 of (r, pg') \<Rightarrow> res_bind r (\<lambda>md. Ok (database_with path opts pg' w md (initialize_from_pager (pg_next_tx_id pg) tm_new))))"
    using recovered_log [OF assms(1-4), of E salt1 salt2] by blast
  have p: "pg_metadata_page pg1 = meta_page" "pager_inv pg1" "page_content pg1 meta_page = Some d" using r(2) m by (simp_all add: recovers_def)
  obtain pg2 where l: "read_page meta_page pg1 = (Ok d, pg2)" "pager_inv pg2" "page_content pg2 = page_content pg1" "pg_file pg2 = pg_file pg1" "same_alloc pg1 pg2"
    using read_page_spec [OF p(2,3)] by blast
  have "meta_page \<noteq> 0" using m(2) by (auto simp: last_data_def)
  then have "load_metadata E pg1 = (metadata_deserialize (en_codec E) d, pg2)" using l(1) p(1) by (simp add: load_metadata_def word_neq_0_conv)
  moreover have "recovers fs pg pg2" using r(2) l(2-5) by (simp add: recovers_def same_alloc_def)
  ultimately show ?thesis using r(1,3) by auto
qed

subsection \<open>Properties\<close>

text \<open>
  C3: Opening a database after a crash restores every transaction of the log: each page has the data of its last valid frame, the other pages are as the file has them, the metadata is the logged one,
  and the log is empty afterwards. The main file may be in any state that can be opened.
\<close>

theorem crash_recovery:
  assumes "crashed disk f h fs" "pager_open (Some f) (do_cache_size opts) False = Ok pg" "check_path path = Ok ()" "\<not> do_read_only opts"
    and "fst (logged_header fs) = Some meta_page" "last_data fs meta_page = Some d" "metadata_deserialize (en_codec E) d = Ok md"
  shows "\<exists>db. open_with_options E path opts salt1 salt2 disk = Ok db \<and> db_metadata db = md \<and> wal_log (db_wal db) [] \<and>
    (\<forall>p d. last_data fs p = Some d \<longrightarrow> page_content (db_pager db) p = Some d) \<and>
    (\<forall>p d. p \<noteq> 0 \<longrightarrow> last_data fs p = None \<longrightarrow> page_content pg p = Some d \<longrightarrow> page_content (db_pager db) p = Some d) \<and>
    pg_metadata_page (db_pager db) = meta_page \<and> pg_num_pages (db_pager db) = recovered_pages fs pg"
proof -
  obtain w pg' where r: "wal_log w []" "recovers fs pg pg'" "open_with_options E path opts salt1 salt2 disk =
      res_bind (metadata_deserialize (en_codec E) d) (\<lambda>md. Ok (database_with path opts pg' w md (initialize_from_pager (pg_next_tx_id pg) tm_new)))"
    using recovered_database [OF assms(1-6), of E salt1 salt2] by blast
  let ?db = "database_with path opts pg' w md (initialize_from_pager (pg_next_tx_id pg) tm_new)"
  have pc: "page_content (set_metrics metrics_new pg') = page_content pg'" by (rule page_content_cong) (simp_all add: set_metrics_def)
  have "wal_log (wal_set_metrics metrics_new w) []" using r(1) by (simp add: wal_log_def wal_set_metrics_def)
  then show ?thesis using r(2,3) pc assms(5,7) by (intro exI [of _ ?db]) (simp add: database_with_def recovers_def set_metrics_def)
qed

text \<open>
  C35: Recovery takes the free list and the next transaction id from the header of the main file, not from the log. If a logged transaction has taken a page from the free list of that header,
  the recovered database gives this page out again at the next allocation, although it holds committed data.
\<close>

theorem recovery_reallocates_pages:
  assumes "crashed disk f h fs" "pager_open (Some f) (do_cache_size opts) False = Ok pg" "check_path path = Ok ()" "\<not> do_read_only opts"
    and "fst (logged_header fs) = Some meta_page" "last_data fs meta_page = Some x"
    and "pg_free_list pg = ps @ [p]" "last_data fs p = Some d" "open_with_options E path opts salt1 salt2 disk = Ok db"
  shows "page_content (db_pager db) p = Some d \<and> fst (alloc_page (db_pager db)) = Ok p \<and>
    db_tx_manager db = initialize_from_pager (pg_next_tx_id pg) tm_new"
proof -
  obtain w pg' where r: "wal_log w []" "recovers fs pg pg'" "open_with_options E path opts salt1 salt2 disk =
      res_bind (metadata_deserialize (en_codec E) x) (\<lambda>md. Ok (database_with path opts pg' w md (initialize_from_pager (pg_next_tx_id pg) tm_new)))"
    using recovered_database [OF assms(1-6), of E salt1 salt2] by blast
  obtain md where db: "db = database_with path opts pg' w md (initialize_from_pager (pg_next_tx_id pg) tm_new)"
    using r(3) assms(9) by (cases "metadata_deserialize (en_codec E) x") auto
  have "page_content (set_metrics metrics_new pg') = page_content pg'" by (rule page_content_cong) (simp_all add: set_metrics_def)
  then show ?thesis using db r(2) assms(7,8) by (simp add: database_with_def recovers_def alloc_page_def alloc_page_minimum_def set_metrics_def)
qed

subsection \<open>Witnesses\<close>

text \<open>A log whose only transaction has written the metadata to page 1, which the header of the main file has on its free list.\<close>

definition logged_page_0 :: bytes where
  "logged_page_0 = replicate 12 0 @ u64_to_le 2 @ replicate 4 0 @ u64_to_le 1 @ replicate (PAGE_SIZE - 32) 0"

definition sample_frames :: "wal_frame list" where
  "sample_frames = frames_of (new_header 1 2) [(5, 1, pad_page [123, 125]), (5, 0, logged_page_0)]"

definition sample_disk :: "dfile \<Rightarrow> disk" where
  "sample_disk f = \<lparr>dk_main = Some f, dk_log = Some \<lparr>f_bytes = log_bytes (new_header 1 2) sample_frames, f_durable = []\<rparr>, dk_locked = False\<rparr>"

lemma logged_page_0_reads: "length logged_page_0 = PAGE_SIZE" "read_u64 24 logged_page_0 = Ok 1" "read_u64 12 logged_page_0 = Ok 2"
  by (simp_all add: logged_page_0_def read_u64_def get_bytes_def const_defs)

lemma sample_frames_header: "logged_header sample_frames = (Some 1, Some 2)"
  using logged_page_0_reads by (simp add: logged_header_def sample_frames_def frames_of_def note_header_def const_defs)

lemma sample_frames_data: "last_data sample_frames 1 = Some (pad_page [123, 125])"
  by (simp add: last_data_def sample_frames_def frames_of_def)

lemma sample_crash:
  obtains s s' t t' u where "pager_open None 10 False = Ok s" "alloc_page s = (Ok 1, s')" "write_page_transfer 1 (replicate PAGE_SIZE 7) s' = (Ok (), t)"
    "pager_close (t\<lparr>pg_free_list := [1]\<rparr>) = (Ok (), t')" "pager_open (Some (pg_file t')) 25000 False = Ok u" "pg_free_list u = [1]"
    "crashed (sample_disk (pg_file t')) (pg_file t') (new_header 1 2) sample_frames"
proof -
  obtain s s' where s: "pager_open None 10 False = Ok s" "alloc_page s = (Ok 1, s')" "pager_inv s'" "alloc_ok s'"
    "\<not> pg_read_only s'" "pg_num_pages s' = 2" "pg_free_list s' = []" "pg_metadata_page s' = 0"
    using alloc_from_new [of 10] by metis
  obtain t where t: "write_page_transfer 1 (replicate PAGE_SIZE 7) s' = (Ok (), t)" "pager_inv t"
    "page_content t = (page_content s')(1 \<mapsto> replicate PAGE_SIZE 7)" "same_alloc s' t"
    using write_page_transfer_spec [OF s(3), of 1 "replicate PAGE_SIZE 7"] s(5) by (auto simp: page_ok_def)
  let ?t = "t\<lparr>pg_free_list := [1]\<rparr>"
  have "pager_inv ?t" "page_content ?t = page_content t" using t(2) pager_inv_cong [of ?t t] page_content_cong [of ?t t] by simp_all
  moreover have "\<not> pg_read_only ?t" "alloc_ok ?t" "pg_num_pages ?t = 2"
    using t(4) s by (simp_all add: same_alloc_def alloc_ok_def free_list_ok_def)
  ultimately obtain t' u where c: "pager_close ?t = (Ok (), t')" "pager_open (Some (pg_file t')) 25000 False = Ok u" "pager_inv u" "pg_free_list u = [1]"
    using close_open [of ?t 25000 False] t(3) by (auto simp: page_ok_def const_defs)
  have "length (f_bytes (pg_file t')) \<le> 2 ^ 63"
    using c(2,3) by (auto simp: pager_open_def read_header_def res_bind_Ok_iff pager_inv_def split: res.splits prod.splits)
  moreover have "list_all (\<lambda>f. frame_fits f \<and> frame_valid (new_header 1 2) f \<and> page_ok (wf_page_num f)) sample_frames"
    using make_frame_ok [of "pad_page [123, 125]" "new_header 1 2"] make_frame_ok [of logged_page_0 "new_header 1 2"] logged_page_0_reads(1)
    by (simp add: sample_frames_def frames_of_def page_ok_def length_pad_page const_defs)
  moreover have "sample_frames \<noteq> []" "length sample_frames < 2 ^ 64" "tail_invalid (new_header 1 2) []"
    by (simp_all add: sample_frames_def frames_of_def tail_invalid_def const_defs)
  ultimately have "crashed (sample_disk (pg_file t')) (pg_file t') (new_header 1 2) sample_frames"
    by (auto simp: crashed_def sample_disk_def new_header_def)
  then show thesis using that [OF s(1,2) t(1) c(1,2,4)] by blast
qed

theorem crash_recovery_witness:
  "\<exists>s s' t t' db. pager_open None 10 False = Ok s \<and> alloc_page s = (Ok 1, s') \<and> write_page_transfer 1 (replicate PAGE_SIZE 7) s' = (Ok (), t) \<and>
    pager_close (t\<lparr>pg_free_list := [1]\<rparr>) = (Ok (), t') \<and>
    open_with_options sample_env ''x.db'' database_options_default 3 4 (sample_disk (pg_file t')) = Ok db \<and> db_metadata db = metadata_new \<and>
    page_content (db_pager db) 1 = Some (pad_page [123, 125])"
proof -
  obtain s s' t t' u where o: "pager_open None 10 False = Ok s" "alloc_page s = (Ok 1, s')" "write_page_transfer 1 (replicate PAGE_SIZE 7) s' = (Ok (), t)"
    "pager_close (t\<lparr>pg_free_list := [1]\<rparr>) = (Ok (), t')" "pager_open (Some (pg_file t')) 25000 False = Ok u" "pg_free_list u = [1]"
    "crashed (sample_disk (pg_file t')) (pg_file t') (new_header 1 2) sample_frames" by (rule sample_crash)
  have "metadata_deserialize (en_codec sample_env) (pad_page [123, 125]) = Ok metadata_new"
    by (simp add: sample_env_def sample_codec_def metadata_deserialize_def trim_pad)
  then obtain db where "open_with_options sample_env ''x.db'' database_options_default 3 4 (sample_disk (pg_file t')) = Ok db" "db_metadata db = metadata_new"
    "\<forall>p d. last_data sample_frames p = Some d \<longrightarrow> page_content (db_pager db) p = Some d"
    using crash_recovery [OF o(7), of database_options_default u "''x.db''" 1 "pad_page [123, 125]" sample_env metadata_new 3 4] o(5) sample_frames_header sample_frames_data
    by (auto simp: database_options_default_def check_path_def)
  then show ?thesis using o(1-4) sample_frames_data by blast
qed

theorem recovery_reallocates_pages_witness:
  "\<exists>s s' t t' db. pager_open None 10 False = Ok s \<and> alloc_page s = (Ok 1, s') \<and> write_page_transfer 1 (replicate PAGE_SIZE 7) s' = (Ok (), t) \<and>
    pager_close (t\<lparr>pg_free_list := [1]\<rparr>) = (Ok (), t') \<and>
    open_with_options sample_env ''x.db'' database_options_default 3 4 (sample_disk (pg_file t')) = Ok db \<and>
    fst (alloc_page (db_pager db)) = Ok 1 \<and> page_content (db_pager db) 1 = Some (pad_page [123, 125])"
proof -
  obtain s s' t t' u where o: "pager_open None 10 False = Ok s" "alloc_page s = (Ok 1, s')" "write_page_transfer 1 (replicate PAGE_SIZE 7) s' = (Ok (), t)"
    "pager_close (t\<lparr>pg_free_list := [1]\<rparr>) = (Ok (), t')" "pager_open (Some (pg_file t')) 25000 False = Ok u" "pg_free_list u = [1]"
    "crashed (sample_disk (pg_file t')) (pg_file t') (new_header 1 2) sample_frames" by (rule sample_crash)
  have c: "pager_open (Some (pg_file t')) (do_cache_size database_options_default) False = Ok u" "check_path ''x.db'' = Ok ()"
    "\<not> do_read_only database_options_default" using o(5) by (simp_all add: database_options_default_def check_path_def)
  have m: "fst (logged_header sample_frames) = Some 1" "pg_free_list u = [] @ [1]" using sample_frames_header o(6) by simp_all
  obtain db where db: "open_with_options sample_env ''x.db'' database_options_default 3 4 (sample_disk (pg_file t')) = Ok db"
    using recovered_database [OF o(7) c m(1) sample_frames_data, of sample_env 3 4]
    by (auto simp: sample_env_def sample_codec_def metadata_deserialize_def trim_pad)
  from recovery_reallocates_pages [OF o(7) c m(1) sample_frames_data m(2) sample_frames_data db]
  show ?thesis using o(1-4) db by blast
qed

end
