(* ===== verification/Sort_By.thy ===== *)
theory Sort_By
  imports Index_Key "HOL-Library.Multiset"
begin

text \<open>
  \<open>slice::sort_by\<close>, the stable sort of the standard library with a comparison. Its result is specified for comparisons that are a linear preorder; for others the standard library
  leaves the order open and may panic, so that the facts below hold for \<open>linear_comparison\<close> only.
\<close>

fun insert_by :: "('a \<Rightarrow> 'a \<Rightarrow> ordering) \<Rightarrow> 'a \<Rightarrow> 'a list \<Rightarrow> 'a list" where
  "insert_by c x [] = [x]"
| "insert_by c x (y # ys) = (if c x y = Greater then y # insert_by c x ys else x # y # ys)"

definition sort_by :: "('a \<Rightarrow> 'a \<Rightarrow> ordering) \<Rightarrow> 'a list \<Rightarrow> 'a list" where
  "sort_by c xs = foldr (insert_by c) xs []"

text \<open>Ordered by a comparison, and the elements that compare equal to a given one.\<close>

definition ordered_by :: "('a \<Rightarrow> 'a \<Rightarrow> ordering) \<Rightarrow> 'a list \<Rightarrow> bool" where
  "ordered_by c xs \<longleftrightarrow> sorted_wrt (\<lambda>x y. c x y \<noteq> Greater) xs"

definition ties :: "('a \<Rightarrow> 'a \<Rightarrow> ordering) \<Rightarrow> 'a \<Rightarrow> 'a list \<Rightarrow> 'a list" where
  "ties c x xs = filter (\<lambda>y. c x y = Equal) xs"

definition stable_sort_of :: "('a \<Rightarrow> 'a \<Rightarrow> ordering) \<Rightarrow> 'a list \<Rightarrow> 'a list \<Rightarrow> bool" where
  "stable_sort_of c xs ys \<longleftrightarrow> mset ys = mset xs \<and> ordered_by c ys \<and> (\<forall>x. ties c x ys = ties c x xs)"

locale comparison =
  fixes c :: "'a \<Rightarrow> 'a \<Rightarrow> ordering"
  assumes swap: "c y x = reverse_ordering (c x y)"
    and trans: "chained (c x y) (c y z) (c x z)"
begin

lemma mset_insert_by: "mset (insert_by c x ys) = add_mset x (mset ys)"
  by (induction ys) auto

lemma set_insert_by: "set (insert_by c x ys) = insert x (set ys)"
  using mset_insert_by [of x ys] by (metis set_mset_add_mset_insert set_mset_mset)

lemma le_trans: "c x y \<noteq> Greater \<Longrightarrow> c y z \<noteq> Greater \<Longrightarrow> c x z \<noteq> Greater"
  using trans [of x y z] by (cases "c x y"; cases "c y z") (auto simp: chained_def)

lemma ordered_insert_by: "ordered_by c ys \<Longrightarrow> ordered_by c (insert_by c x ys)"
proof (induction ys)
  case (Cons y ys)
  have y: "c y x \<noteq> Greater" if "c x y = Greater" using swap [of y x] that by simp
  have x: "c x z \<noteq> Greater" if "c x y \<noteq> Greater" "z \<in> set ys" for z
    using le_trans [OF that(1)] that(2) Cons.prems by (auto simp: ordered_by_def)
  show ?case using Cons x y by (auto simp: ordered_by_def set_insert_by)
qed (simp add: ordered_by_def)

text \<open>Elements that tie with \<open>z\<close> keep their order, because an element passes only smaller ones.\<close>

lemma ties_insert_by: "ties c z (insert_by c x ys) = ties c z (x # ys)"
proof (induction ys)
  case (Cons y ys)
  have "\<not> (c z x = Equal \<and> c z y = Equal)" if "c x y = Greater"
    using that swap [of x z] trans [of x z y] by (auto simp: chained_def)
  then show ?case using Cons by (auto simp: ties_def)
qed simp

lemma sort_by_stable: "stable_sort_of c xs (sort_by c xs)"
proof (induction xs)
  case (Cons x xs)
  have e: "sort_by c (x # xs) = insert_by c x (sort_by c xs)" by (simp add: sort_by_def)
  show ?case unfolding e stable_sort_of_def
    using Cons ordered_insert_by [of "sort_by c xs" x] mset_insert_by [of x "sort_by c xs"] ties_insert_by [of _ x "sort_by c xs"]
    by (simp add: stable_sort_of_def ties_def)
qed (simp add: stable_sort_of_def sort_by_def ordered_by_def)

end

lemma length_sort_by: "length (sort_by c xs) = length xs"
proof -
  have "length (insert_by c x ys) = Suc (length ys)" for x ys by (induction ys) auto
  then show ?thesis unfolding sort_by_def by (induction xs) auto
qed

lemma set_sort_by: "set (sort_by c xs) = set xs"
proof -
  have "set (insert_by c x ys) = insert x (set ys)" for x ys by (induction ys) auto
  then show ?thesis unfolding sort_by_def by (induction xs) auto
qed

text \<open>Comparison by a key, in reverse, and one after the other.\<close>

definition compare_then :: "ordering \<Rightarrow> ordering \<Rightarrow> ordering" where
  "compare_then r s = (case r of Equal \<Rightarrow> s | x \<Rightarrow> x)"

lemma reverse_reverse [simp]: "reverse_ordering (reverse_ordering r) = r"
  by (cases r) auto

lemma chained_reverse: "chained r s t \<Longrightarrow> chained (reverse_ordering r) (reverse_ordering s) (reverse_ordering t)"
  by (cases r; cases s; cases t) (auto simp: chained_def)

end
