(* ===== verification/Collection_Read.thy ===== *)
theory Collection_Read
  imports Collection Tx_Conflict
begin

text \<open>
  Reading a collection, verified against its committed documents: the tree of the collection leads from every id to a page that holds a version of the document.
\<close>

subsection \<open>Specification\<close>

definition version_stored :: "(page_num \<Rightarrow> bytes option) \<Rightarrow> (string \<Rightarrow> versioned_document) \<Rightarrow> leaf_entry \<Rightarrow> bool" where
  "version_stored C ver e \<longleftrightarrow> (\<exists>qs. versioned_stored C (en_value e) qs (ver (en_key e))) \<and> id_ok (vd_id (ver (en_key e))) \<and>
     length (vd_data (ver (en_key e))) \<le> 249998 * MAX_OVERFLOW_DATA"

text \<open>A collection at a root: a tree whose leaves form a chain without empty ones, and a version for every entry.\<close>

definition collection_at :: "nat \<Rightarrow> page_num \<Rightarrow> tree \<Rightarrow> (string \<Rightarrow> versioned_document) \<Rightarrow> pager \<Rightarrow> bool" where
  "collection_at n root t ver s \<longleftrightarrow> root \<noteq> 0 \<and> tree_rep n (btree_open root, s) t \<and> linked (leaves t) 0 \<and> tight (leaves t) \<and>
     list_all (version_stored (page_content s) ver) (leaf_entries (leaves t))"

text \<open>The documents of a snapshot, in the order of their ids.\<close>

definition snapshot_docs :: "tree \<Rightarrow> (string \<Rightarrow> versioned_document) \<Rightarrow> tx_id \<Rightarrow> versioned_document list" where
  "snapshot_docs t ver snapshot = filter (\<lambda>v. vd_is_visible v snapshot) (map (\<lambda>e. ver (en_key e)) (leaf_entries (leaves t)))"

subsection \<open>Lemmas\<close>

lemma bt_read_stored:
  assumes "store_ok (db_pager db)" "version_stored (page_content (db_pager db)) ver e" "tx_writes tx = []"
  shows "\<exists>s. bt_read (en_value e) (bt, tx, db) = (Ok (ver (en_key e)), bt, tx, db\<lparr>db_pager := s\<rparr>) \<and> same_store (db_pager db) s"
proof -
  obtain s where "read_versioned_document (en_value e) [] (db_pager db) = (Ok (ver (en_key e)), s)" "same_store (db_pager db) s"
    using read_versioned_same_store [OF assms(1)] assms(2) unfolding version_stored_def by blast
  then show ?thesis using assms(3) by (intro exI [of _ s]) (simp add: bt_read_def)
qed

lemma on_tree_step: "f (bt, db_pager db) = (r, bt', s) \<Longrightarrow> bt_on_tree f (bt, tx, db) = (r, bt', tx, db\<lparr>db_pager := s\<rparr>)"
  by (simp add: bt_on_tree_def)

definition visible_of :: "(string \<Rightarrow> versioned_document) \<Rightarrow> tx_id \<Rightarrow> leaf_entry list \<Rightarrow> versioned_document list" where
  "visible_of ver snapshot es = filter (\<lambda>v. vd_is_visible v snapshot) (map (\<lambda>e. ver (en_key e)) es)"

text \<open>One entry of the scan: its document is read and kept if it is visible.\<close>

lemma scan_entry:
  assumes "iterator_next it (bt, db_pager db) = (Ok (True, it1), bt, s1)" "iterator_entry it1 = Some (entry_pair e)" "tx_writes tx = []"
    and "same_store (db_pager db) s1" "version_stored (page_content (db_pager db)) ver e"
    and rest: "\<And>s. same_store (db_pager db) s \<Longrightarrow>
      \<exists>s'. scan_docs left it1 (bt, tx, db\<lparr>db_pager := s\<rparr>) = (Ok (visible_of ver (tx_snapshot_id tx) es), bt, tx, db\<lparr>db_pager := s'\<rparr>) \<and> same_store s s'"
  shows "\<exists>s'. scan_docs (Suc left) it (bt, tx, db) = (Ok (visible_of ver (tx_snapshot_id tx) (e # es)), bt, tx, db\<lparr>db_pager := s'\<rparr>) \<and> same_store (db_pager db) s'"
proof -
  let ?db1 = "db\<lparr>db_pager := s1\<rparr>"
  have n: "bt_on_tree (iterator_next it) (bt, tx, db) = (Ok (True, it1), bt, tx, ?db1)" using on_tree_step [of "iterator_next it" bt db] assms(1) by simp
  have p: "page_content s1 = page_content (db_pager db)" "store_ok s1" using assms(4) by (auto simp: same_store_def)
  obtain s2 where r: "bt_read (en_value e) (bt, tx, ?db1) = (Ok (ver (en_key e)), bt, tx, db\<lparr>db_pager := s2\<rparr>)" "same_store s1 s2"
    using bt_read_stored [of ?db1 ver e tx bt] p assms(3,5) by auto
  have s2: "same_store (db_pager db) s2" by (rule same_store_trans [OF assms(4) r(2)])
  obtain s' where s': "scan_docs left it1 (bt, tx, db\<lparr>db_pager := s2\<rparr>) = (Ok (visible_of ver (tx_snapshot_id tx) es), bt, tx, db\<lparr>db_pager := s'\<rparr>)" "same_store s2 s'"
    using rest [OF s2] by blast
  show ?thesis using n assms(2) r(1) s' same_store_trans [OF s2 s'(2)]
    by (intro exI [of _ s']) (simp add: entry_pair_def visible_of_def)
qed

lemma scan_docs_spec:
  assumes "idle bt" "tx_writes tx = []"
  shows "store_ok (db_pager db) \<Longrightarrow> linked ((p, es, nx) # ls) 0 \<Longrightarrow> list_all (leaf_stored (page_content (db_pager db))) ls \<Longrightarrow>
    list_all (version_stored (page_content (db_pager db)) ver) (rest_entries es i ls) \<Longrightarrow> length (rest_entries es i ls) < left \<Longrightarrow>
    \<exists>s'. scan_docs left (at_entry (p, es, nx) i) (bt, tx, db) = (Ok (visible_of ver (tx_snapshot_id tx) (rest_entries es i ls)), bt, tx, db\<lparr>db_pager := s'\<rparr>) \<and>
      same_store (db_pager db) s'"
proof (induction left arbitrary: db p es nx ls i)
  case (Suc left)
  show ?case
  proof (cases "Suc i < length es")
    case True
    have d: "rest_entries es i ls = es ! Suc i # rest_entries es (Suc i) ls" using True by (simp add: rest_entries_def Cons_nth_drop_Suc)
    show ?thesis unfolding d
    proof (rule scan_entry [OF next_inside [OF True] entry_at [OF True] assms(2) same_store_refl [OF Suc.prems(1)]])
      show "version_stored (page_content (db_pager db)) ver (es ! Suc i)" using Suc.prems(4) d by simp
      fix s assume s: "same_store (db_pager db) s"
      let ?db = "db\<lparr>db_pager := s\<rparr>"
      have "store_ok (db_pager ?db)" "page_content (db_pager ?db) = page_content (db_pager db)" using s by (auto simp: same_store_def)
      then show "\<exists>s'. scan_docs left (at_entry (p, es, nx) (Suc i)) (bt, tx, ?db) =
          (Ok (visible_of ver (tx_snapshot_id tx) (rest_entries es (Suc i) ls)), bt, tx, db\<lparr>db_pager := s'\<rparr>) \<and> same_store s s'"
        using Suc.IH [of ?db p es nx ls "Suc i"] Suc.prems d by simp
    qed
  next
    case False
    then have le: "length es \<le> Suc i" by simp
    show ?thesis
    proof (cases ls)
      case Nil
      then have "nx = 0" using Suc.prems(2) by simp
      then obtain it where "\<And>st. iterator_next (at_entry (p, es, nx) i) st = (Ok (False, it), st)" using le by (auto simp: iterator_next_def at_entry_def)
      then show ?thesis using Nil le same_store_refl [OF Suc.prems(1)]
        by (intro exI [of _ "db_pager db"]) (simp add: rest_entries_def bt_on_tree_def visible_of_def)
    next
      case (Cons l ls')
      obtain q es' nx' where l: "l = (q, es', nx')" by (cases l)
      have nx: "nx = q" and lk: "linked ((q, es', nx') # ls') 0" using Suc.prems(2) Cons l by simp_all
      have ls: "leaf_stored (page_content (db_pager db)) (q, es', nx')" "list_all (leaf_stored (page_content (db_pager db))) ls'"
        using Suc.prems(3) Cons l by simp_all
      have q: "q \<noteq> 0" using ls(1) by (simp add: leaf_stored_def)
      obtain s1 where s1: "read_node q (bt, db_pager db) = (Ok (leaf_node q es' nx'), bt, s1)" "same_store (db_pager db) s1"
        using read_leaf_step [OF assms(1) Suc.prems(1) ls(1)] by blast
      note nl = next_leaf_step [OF le q s1(1), of p]
      show ?thesis
      proof (cases es')
        case Nil
        then have "rest_entries es i ls = []" using le Cons l by (simp add: rest_entries_def)
        then show ?thesis using on_tree_step [of "iterator_next (at_entry (p, es, nx) i)" bt db] nl Nil nx s1(2) by (intro exI [of _ s1]) (simp add: visible_of_def)
      next
        case (Cons e es2)
        have d: "rest_entries es i ls = e # rest_entries es' 0 ls'" using le \<open>ls = l # ls'\<close> l Cons by (simp add: rest_entries_def)
        have it: "iterator_next (at_entry (p, es, nx) i) (bt, db_pager db) = (Ok (True, at_entry (q, es', nx') 0), bt, s1)" using nl Cons nx by simp
        have ie: "iterator_entry (at_entry (q, es', nx') 0) = Some (entry_pair e)" using entry_at [of 0 es'] Cons by simp
        show ?thesis unfolding d
        proof (rule scan_entry [OF it ie assms(2) s1(2)])
          show "version_stored (page_content (db_pager db)) ver e" using Suc.prems(4) d by simp
          fix s assume s: "same_store (db_pager db) s"
          let ?db = "db\<lparr>db_pager := s\<rparr>"
          have "store_ok (db_pager ?db)" "page_content (db_pager ?db) = page_content (db_pager db)" using s by (auto simp: same_store_def)
          then show "\<exists>s'. scan_docs left (at_entry (q, es', nx') 0) (bt, tx, ?db) =
              (Ok (visible_of ver (tx_snapshot_id tx) (rest_entries es' 0 ls')), bt, tx, db\<lparr>db_pager := s'\<rparr>) \<and> same_store s s'"
            using Suc.IH [of ?db q es' nx' ls' 0] Suc.prems ls(2) lk d by simp
        qed
      qed
    qed
  qed
qed simp

lemma new_iterator:
  assumes rep: "tree_rep n (bt, s) t" and t: "leaves t = (p, es, nx) # ts" and "n \<le> fuel"
  shows "\<exists>s'. btree_iterator_new fuel (bt, s) = (Ok \<lparr>it_current_leaf = Some (leaf_node p es nx), it_index = 0, it_started = False\<rparr>, bt, s') \<and> same_store s s'"
proof -
  have a: "idle bt" "store_ok s" "stored (page_content s) t" "tree_wf t" "height_le n t" "tree_page t = bt_root_page bt"
    using rep by (auto simp: tree_rep_def)
  obtain s0 where s0: "read_node (tree_page t) (bt, s) = (Ok (node_of t), bt, s0)" "same_store s s0"
    using read_tree_step [OF a(1,2,4,3)] by blast
  have s0': "store_ok s0" "stored (page_content s0) t" using s0(2) a(3) by (simp_all add: same_store_def)
  obtain s1 where f: "first_leaf fuel (node_of t) (bt, s0) = (Ok (leaf_node p es nx), bt, s1)" "same_store s0 s1"
    using first_leaf_spec [OF a(1) s0' a(4,5) assms(3)] t by auto
  have "btree_iterator_new fuel (bt, s) = (Ok \<lparr>it_current_leaf = Some (leaf_node p es nx), it_index = 0, it_started = False\<rparr>, bt, s1)"
    using s0(1) f(1) a(6) by (simp add: btree_iterator_new_def root_page_idle [OF a(1)])
  then show ?thesis using same_store_trans [OF s0(2) f(2)] by blast
qed

lemma visible_docs_spec:
  assumes c: "collection_at n root t ver (db_pager db)" and w: "tx_writes tx = []"
    and fuel: "n \<le> en_fuel E" "length (leaf_entries (leaves t)) < en_fuel E"
  shows "\<exists>s'. visible_docs E (btree_open root, tx, db) =
    (Ok (snapshot_docs t ver (tx_snapshot_id tx)), btree_open root, tx, db\<lparr>db_pager := s'\<rparr>) \<and> same_store (db_pager db) s'"
proof -
  let ?bt = "btree_open root"
  have rep: "tree_rep n (?bt, db_pager db) t" and l: "linked (leaves t) 0" and tg: "tight (leaves t)"
    and ds: "list_all (version_stored (page_content (db_pager db)) ver) (leaf_entries (leaves t))" using c by (simp_all add: collection_at_def)
  have a: "stored (page_content (db_pager db)) t" "tree_wf t" "0 \<notin> set (tree_pages t)" "idle ?bt" using rep by (auto simp: tree_rep_def in_use_def)
  obtain p es nx ls where t: "leaves t = (p, es, nx) # ls" using leaves_nonempty [OF a(2)] by (cases "leaves t") auto
  have st: "list_all (leaf_stored (page_content (db_pager db))) ls" using stored_leaves [OF a(1-3)] t by simp
  obtain s1 where n1: "btree_iterator_new (en_fuel E) (?bt, db_pager db) =
      (Ok \<lparr>it_current_leaf = Some (leaf_node p es nx), it_index = 0, it_started = False\<rparr>, ?bt, s1)" "same_store (db_pager db) s1"
    using new_iterator [OF rep t fuel(1)] by blast
  let ?it = "\<lparr>it_current_leaf = Some (leaf_node p es nx), it_index = 0, it_started = False\<rparr>" and ?db1 = "db\<lparr>db_pager := s1\<rparr>"
  have n2: "bt_on_tree (btree_iterator_new (en_fuel E)) (?bt, tx, db) = (Ok ?it, ?bt, tx, ?db1)"
    using on_tree_step [of "btree_iterator_new (en_fuel E)" ?bt db] n1(1) by simp
  have p1: "page_content s1 = page_content (db_pager db)" "store_ok s1" using n1(2) by (auto simp: same_store_def)
  obtain f where f: "en_fuel E = Suc f" using fuel(2) by (cases "en_fuel E") auto
  have full: "leaf_entries (full_prefix (leaves t)) = leaf_entries (leaves t)" by (rule tight_prefix [OF tg])
  have sd: "snapshot_docs t ver sn = visible_of ver sn (leaf_entries (full_prefix (leaves t)))" for sn by (simp add: full snapshot_docs_def visible_of_def)
  show ?thesis
  proof (cases "es = []")
    case True
    then have "visible_of ver sn (leaf_entries (full_prefix (leaves t))) = []" for sn by (simp add: t full_prefix_def leaf_entries_def visible_of_def)
    then show ?thesis using n2 n1(2) True fresh_iterator [of p es nx] unfolding sd
      by (intro exI [of _ s1]) (simp add: visible_docs_def f bt_on_tree_def)
  next
    case False
    note re = rest_entries_first [OF False, of p nx ls]
    have e0: "iterator_entry (at_entry (p, es, nx) 0) = Some (entry_pair (es ! 0))" using False by (intro entry_at) simp
    have d0: "list_all (version_stored (page_content (db_pager db)) ver) (es ! 0 # rest_entries es 0 ls)" using ds full re t by metis
    have "\<exists>s'. scan_docs (Suc f) ?it (?bt, tx, ?db1) = (Ok (visible_of ver (tx_snapshot_id tx) (es ! 0 # rest_entries es 0 ls)), ?bt, tx, ?db1\<lparr>db_pager := s'\<rparr>) \<and>
      same_store (db_pager ?db1) s'"
    proof (rule scan_entry [OF _ e0 w])
      show "iterator_next ?it (?bt, db_pager ?db1) = (Ok (True, at_entry (p, es, nx) 0), ?bt, s1)" using fresh_iterator [of p es nx] False by simp
      show "same_store (db_pager ?db1) s1" "version_stored (page_content (db_pager ?db1)) ver (es ! 0)" using p1 d0 same_store_refl by simp_all
      fix s assume s: "same_store (db_pager ?db1) s"
      let ?db = "?db1\<lparr>db_pager := s\<rparr>"
      have "store_ok (db_pager ?db)" "page_content (db_pager ?db) = page_content (db_pager db)" using s p1 by (auto simp: same_store_def)
      moreover have "length (rest_entries es 0 ls) < f" using fuel(2) f full re t by (metis Suc_less_eq length_Cons)
      ultimately show "\<exists>s'. scan_docs f (at_entry (p, es, nx) 0) (?bt, tx, ?db) =
          (Ok (visible_of ver (tx_snapshot_id tx) (rest_entries es 0 ls)), ?bt, tx, ?db1\<lparr>db_pager := s'\<rparr>) \<and> same_store s s'"
        using scan_docs_spec [OF a(4) w, of ?db p es nx ls ver 0 f] l st d0 t by simp
    qed
    then obtain s' where "scan_docs (Suc f) ?it (?bt, tx, ?db1) = (Ok (visible_of ver (tx_snapshot_id tx) (es ! 0 # rest_entries es 0 ls)), ?bt, tx, db\<lparr>db_pager := s'\<rparr>)"
      "same_store s1 s'" by auto
    then show ?thesis using n2 same_store_trans [OF n1(2)] re t unfolding sd by (intro exI [of _ s']) (simp add: visible_docs_def f)
  qed
qed

text \<open>An operation that only reads runs on the tree at the root that the metadata names, in the snapshot of the last commit.\<close>

definition snapshot_of :: "'n database \<Rightarrow> tx_id" where
  "snapshot_of db = tm_last_committed_tx_id (db_tx_manager db)"

lemma begin_parts:
  "db_begin db = (tx, db') \<Longrightarrow> tx_writes tx = [] \<and> tx_snapshot_id tx = snapshot_of db \<and> db_pager db' = db_pager db \<and> db_metadata db' = db_metadata db"
  by (auto simp: db_begin_def transaction_new_def begin_transaction_def fetch_tx_id_def insert_active_def get_latest_committed_tx_id_def snapshot_of_def
      Let_def split: prod.splits)

lemma in_collection_reads:
  assumes "hm_get (md_collections (db_metadata db)) name = Some cm" "cm_btree_root cm \<noteq> 0"
    and f: "\<And>tx d. tx_writes tx = [] \<Longrightarrow> tx_snapshot_id tx = snapshot_of db \<Longrightarrow> db_pager d = db_pager db \<Longrightarrow>
      \<exists>s. f (btree_open (cm_btree_root cm), tx, d) = (r, btree_open (cm_btree_root cm), tx, d\<lparr>db_pager := s\<rparr>) \<and> same_store (db_pager db) s"
  shows "\<exists>db'. in_collection name no_root f db = (r, db') \<and> same_store (db_pager db) (db_pager db')"
proof -
  obtain tx d where b: "db_begin db = (tx, d)" by (cases "db_begin db")
  note p = begin_parts [OF b]
  obtain s where s: "f (btree_open (cm_btree_root cm), tx, d) = (r, btree_open (cm_btree_root cm), tx, d\<lparr>db_pager := s\<rparr>)" "same_store (db_pager db) s"
    using f [of tx d] p by blast
  have "root_or_error name d = Ok (cm_btree_root cm)" using assms(1) p by (simp add: root_or_error_def)
  then have "in_collection name no_root f db = (r, snd (drop_transaction (tx, d\<lparr>db_pager := s\<rparr>)))"
    using b s(1) assms(2) by (simp add: in_collection_def with_tx_def on_tree_of_def)
  moreover have "db_pager (snd (drop_transaction (tx, d\<lparr>db_pager := s\<rparr>))) = s" by (simp add: drop_transaction_def)
  ultimately show ?thesis using s(2) by (intro exI [of _ "snd (drop_transaction (tx, d\<lparr>db_pager := s\<rparr>))"]) simp
qed

lemma entry_of_map:
  assumes "tree_map t k = Some p"
  shows "\<exists>e \<in> set (leaf_entries (leaves t)). en_key e = k \<and> en_value e = p"
proof -
  have "lookup_entry k es = Some p \<Longrightarrow> \<exists>e \<in> set es. en_key e = k \<and> en_value e = p" for es by (induction es) (auto split: if_splits)
  then show ?thesis using assms unfolding tree_map_def by blast
qed

lemma visible_at_spec:
  assumes c: "collection_at n root t ver (db_pager db)" and w: "tx_writes tx = []" and fuel: "n \<le> en_fuel E"
  shows "\<exists>s'. visible_at E k (btree_open root, tx, db) =
    (case tree_map t k of
       None \<Rightarrow> Err NotFound
     | Some _ \<Rightarrow> if vd_is_visible (ver k) (tx_snapshot_id tx) then Ok (ver k) else Err not_found, btree_open root, tx, db\<lparr>db_pager := s'\<rparr>) \<and> same_store (db_pager db) s'"
proof -
  have rep: "tree_rep n (btree_open root, db_pager db) t" using c by (simp add: collection_at_def)
  obtain s1 where s1: "btree_search (en_fuel E) k (btree_open root, db_pager db) = (case tree_map t k of Some v \<Rightarrow> Ok v | None \<Rightarrow> Err NotFound, btree_open root, s1)"
    "same_store (db_pager db) s1" using search_rep [OF rep fuel] by blast
  have b: "bt_on_tree (btree_search (en_fuel E) k) (btree_open root, tx, db) =
      (case tree_map t k of Some v \<Rightarrow> Ok v | None \<Rightarrow> Err NotFound, btree_open root, tx, db\<lparr>db_pager := s1\<rparr>)"
    using on_tree_step [of "btree_search (en_fuel E) k" "btree_open root" db] s1(1) by simp
  show ?thesis
  proof (cases "tree_map t k")
    case None
    then show ?thesis using b s1(2) by (intro exI [of _ s1]) (simp add: visible_at_def)
  next
    case (Some p)
    obtain e where e: "e \<in> set (leaf_entries (leaves t))" "en_key e = k" "en_value e = p" using entry_of_map [OF Some] by blast
    have "version_stored (page_content (db_pager db)) ver e" using c e(1) by (auto simp: collection_at_def list_all_iff)
    moreover have "page_content s1 = page_content (db_pager db)" "store_ok s1" using s1(2) by (auto simp: same_store_def)
    ultimately obtain s2 where s2: "bt_read p (btree_open root, tx, db\<lparr>db_pager := s1\<rparr>) = (Ok (ver k), btree_open root, tx, db\<lparr>db_pager := s2\<rparr>)" "same_store s1 s2"
      using bt_read_stored [of "db\<lparr>db_pager := s1\<rparr>" ver e tx "btree_open root"] w e(2,3) by auto
    then show ?thesis using b Some same_store_trans [OF s1(2) s2(2)] by (intro exI [of _ s2]) (simp add: visible_at_def)
  qed
qed

lemma all_committed:
  assumes "hm_get (md_collections (db_metadata db)) name = Some cm" "collection_at n (cm_btree_root cm) t ver (db_pager db)"
    "n \<le> en_fuel E" "length (leaf_entries (leaves t)) < en_fuel E"
  shows "\<exists>db1. coll_find_all E name db = (Ok (List.map_filter (\<lambda>v. en_from_slice E (vd_data v)) (snapshot_docs t ver (snapshot_of db))), db1) \<and>
      same_store (db_pager db) (db_pager db1)"
    "\<exists>db2. coll_count E name db = (Ok (length (snapshot_docs t ver (snapshot_of db))), db2) \<and> same_store (db_pager db) (db_pager db2)"
proof -
  have root: "cm_btree_root cm \<noteq> 0" using assms(2) by (simp add: collection_at_def)
  have v: "\<exists>s. visible_docs E (btree_open (cm_btree_root cm), tx, d) =
      (Ok (snapshot_docs t ver (snapshot_of db)), btree_open (cm_btree_root cm), tx, d\<lparr>db_pager := s\<rparr>) \<and> same_store (db_pager db) s"
    if "tx_writes tx = []" "tx_snapshot_id tx = snapshot_of db" "db_pager d = db_pager db" for tx and d :: "'a database"
    using visible_docs_spec [of n "cm_btree_root cm" t ver d tx E] assms(2-4) that by simp
  show "\<exists>db1. coll_find_all E name db = (Ok (List.map_filter (\<lambda>v. en_from_slice E (vd_data v)) (snapshot_docs t ver (snapshot_of db))), db1) \<and>
      same_store (db_pager db) (db_pager db1)"
    using in_collection_reads [OF assms(1) root, of "find_all_in_tx E"
        "Ok (List.map_filter (\<lambda>v. en_from_slice E (vd_data v)) (snapshot_docs t ver (snapshot_of db)))" "Ok []"] v
    unfolding coll_find_all_def find_all_in_tx_def by fastforce
  show "\<exists>db2. coll_count E name db = (Ok (length (snapshot_docs t ver (snapshot_of db))), db2) \<and> same_store (db_pager db) (db_pager db2)"
    using in_collection_reads [OF assms(1) root, of "\<lambda>st. and_then (visible_docs E st) (\<lambda>vdocs st. (Ok (length vdocs), st))"
        "Ok (length (snapshot_docs t ver (snapshot_of db)))" "Ok 0"] v
    unfolding coll_count_def by fastforce
qed

subsection \<open>Properties\<close>

text \<open>
  C21: Looking up a document by its id returns the committed version of it if the snapshot of the last commit shows it, and an error if the tree of the collection has no such id or its version is not visible.
  The pages of the database stay as they were.
\<close>

theorem find_by_id_reads_committed:
  assumes "hm_get (md_collections (db_metadata db)) name = Some cm" "collection_at n (cm_btree_root cm) t ver (db_pager db)" "n \<le> en_fuel E"
  shows "\<exists>db'. coll_find_by_id E name i db =
    (case tree_map t (utf8 i) of
       None \<Rightarrow> Err NotFound
     | Some _ \<Rightarrow> if vd_is_visible (ver (utf8 i)) (snapshot_of db) then parse_doc E (vd_data (ver (utf8 i))) else Err not_found, db') \<and>
    same_store (db_pager db) (db_pager db')"
  unfolding coll_find_by_id_def
proof (rule in_collection_reads [OF assms(1)])
  show "cm_btree_root cm \<noteq> 0" using assms(2) by (simp add: collection_at_def)
  fix tx :: transaction and d :: "'a database" assume a: "tx_writes tx = []" "tx_snapshot_id tx = snapshot_of db" "db_pager d = db_pager db"
  show "\<exists>s. and_then (visible_at E (utf8 i) (btree_open (cm_btree_root cm), tx, d)) (\<lambda>vdoc st. (parse_doc E (vd_data vdoc), st)) =
      (case tree_map t (utf8 i) of
         None \<Rightarrow> Err NotFound
       | Some _ \<Rightarrow> if vd_is_visible (ver (utf8 i)) (snapshot_of db) then parse_doc E (vd_data (ver (utf8 i))) else Err not_found,
       btree_open (cm_btree_root cm), tx, d\<lparr>db_pager := s\<rparr>) \<and> same_store (db_pager db) s"
    using visible_at_spec [of n "cm_btree_root cm" t ver d tx E "utf8 i"] assms(2,3) a by (auto split: option.split if_splits)
qed

text \<open>
  C12: When the leaves of a collection form a chain without an empty leaf, as insertions leave it, reading all its documents returns those whose committed version the snapshot of the last
  commit shows, in the order of their ids, and the count is their number; documents that are not JSON are left out of the list but counted. The pages of the database stay as they were.
  Deletions may leave an empty leaf, and updates in a transaction a chain without their copies; then documents are missed.
\<close>

theorem find_all_reads_committed:
  assumes "hm_get (md_collections (db_metadata db)) name = Some cm" "collection_at n (cm_btree_root cm) t ver (db_pager db)"
    "n \<le> en_fuel E" "length (leaf_entries (leaves t)) < en_fuel E"
  shows "\<exists>db1 db2. coll_find_all E name db = (Ok (List.map_filter (\<lambda>v. en_from_slice E (vd_data v)) (snapshot_docs t ver (snapshot_of db))), db1) \<and>
    coll_count E name db = (Ok (length (snapshot_docs t ver (snapshot_of db))), db2) \<and>
    sorted_wrt (<) (map en_key (leaf_entries (leaves t))) \<and> same_store (db_pager db) (db_pager db1) \<and> same_store (db_pager db) (db_pager db2)"
proof -
  have "sorted_wrt (<) (map en_key (leaf_entries (leaves t)))"
    using tree_rep_sorted assms(2) unfolding collection_at_def entries_sorted_def by blast
  then show ?thesis using all_committed [OF assms] by blast
qed

text \<open>
  A query inside a bulk write never finds a document that the same bulk write has inserted or changed: its updates and deletions work on the documents of the snapshot only.
\<close>

theorem bulk_ignores_own_writes:
  assumes "db_begin db = (tx, db')" "tm_last_committed_tx_id (db_tx_manager db) < tm_next_tx_id (db_tx_manager db)"
    and "visible_docs E (bt, tx, db'') = (Ok vs, st)" "v \<in> set vs"
  shows "vd_xmin v \<noteq> tx_mvcc_tx_id tx"
proof -
  have t: "tx_snapshot_id tx = tm_last_committed_tx_id (db_tx_manager db)" "tx_mvcc_tx_id tx = tm_next_tx_id (db_tx_manager db)"
    using assms(1) by (auto simp: db_begin_def transaction_new_def begin_transaction_def fetch_tx_id_def insert_active_def get_latest_committed_tx_id_def Let_def split: prod.splits)
  obtain it bt1 tx1 db1 where n: "bt_on_tree (btree_iterator_new (en_fuel E)) (bt, tx, db'') = (Ok it, bt1, tx1, db1)" "scan_docs (en_fuel E) it (bt1, tx1, db1) = (Ok vs, st)"
    using assms(3) by (auto simp: visible_docs_def and_then_Ok_iff)
  have "tx1 = tx" using on_tree_tx [OF n(1)] by simp
  then have "vd_is_visible v (tx_snapshot_id tx)" using scan_docs_visible [OF n(2)] assms(4) by simp
  then have "vd_xmin v \<le> tx_snapshot_id tx" by (auto simp: vd_is_visible_def split: if_splits)
  then show ?thesis using t assms(2) by auto
qed

text \<open>
  The distinct values of a field are values that occur in the documents, elements of arrays counted one by one; every value that occurs is among them, and no two of them have the same text.
\<close>

theorem distinct_values:
  assumes "coll_find_all E name db = (Ok docs, db')"
  shows "\<exists>vs. coll_distinct E name field db = (Ok vs, db') \<and> count_distinct E name field db = (Ok (length vs), db') \<and> distinct (map (en_to_text E) vs) \<and>
    en_to_text E ` set vs = en_to_text E ` set (concat (map (field_values field) docs)) \<and> set vs \<subseteq> set (concat (map (field_values field) docs))"
proof -
  have "collected (en_to_text E) ([] @ concat (map (field_values field) docs)) (fold (distinct_of E field) docs ({}, []))"
    by (rule collected_docs) (simp add: collected_def)
  then show ?thesis using assms by (simp add: coll_distinct_def count_distinct_def or_if_not_found_def collected_def)
qed

subsection \<open>Witnesses\<close>

text \<open>A collection with one document.\<close>

definition sample_version :: versioned_document where
  "sample_version = \<lparr>vd_id = ''a'', vd_data = [7], vd_xmin = 0, vd_xmax = 0\<rparr>"

lemma singleton_map: "entries_sorted es \<Longrightarrow> (\<lambda>k. lookup_entry k es) = [k \<mapsto> p] \<Longrightarrow> es = [\<lparr>en_key = k, en_value = p\<rparr>]"
proof -
  assume s: "entries_sorted es" and m: "(\<lambda>k. lookup_entry k es) = [k \<mapsto> p]"
  have "x \<in> en_key ` set es \<longleftrightarrow> x = k" for x using lookup_None_iff [of x es] fun_cong [OF m, of x] by (cases "x = k") simp_all
  then have keys: "en_key ` set es = {k}" by blast
  have "distinct (map en_key es)" using s by (simp add: entries_sorted_def strict_sorted_iff)
  then have "length es = 1" using keys distinct_card [of "map en_key es"] by simp
  then obtain e where e: "es = [e]" by (cases es) auto
  then have "en_key e = k" "en_value e = p" using m keys by (auto dest: fun_cong [of _ _ k])
  then show ?thesis using e by simp
qed

lemma sample_collection:
  assumes k: "tree_key k"
  obtains s p d s0 w bt s1 st t where "pager_open None 10 False = Ok s" "write_versioned_document ''a'' [7] 0 0 (s, []) = (Ok (p, d), s0, w)"
    "btree_new s0 = (Ok bt, s1)" "btree_insert 1 k p (bt, s1) = (Ok (), st)"
    "collection_at 1 (get_root_page (fst st)) t (\<lambda>_. sample_version) (snd st)" "leaf_entries (leaves t) = [\<lparr>en_key = k, en_value = p\<rparr>]"
proof -
  obtain s where s: "pager_open None 10 False = Ok s" "store_ok s" "room 1000000 s" using new_store by blast
  have i: "id_ok ''a''" by (simp add: id_ok_def rust_string_def as_bytes_def)
  have r: "room (pages_needed [7] + 900000) s" by (rule room_mono [OF s(3)]) (simp add: pages_needed_def const_defs)
  obtain p d qs st0 where d0: "write_versioned_document ''a'' [7] 0 0 (s, []) = (Ok (p, d), st0)" "store_ok (fst st0)"
    "versioned_stored (both_content st0) p qs sample_version" "in_use (fst st0) = in_use s \<union> set (p # qs)" "room 900000 (fst st0)"
    using write_versioned_room [of "(s, [])", unfolded fst_conv, OF s(2) r i, of 0 0] unfolding sample_version_def by blast
  then obtain s0 w where d: "write_versioned_document ''a'' [7] 0 0 (s, []) = (Ok (p, d), s0, w)" "store_ok s0"
    "versioned_stored (both_content (s0, w)) p qs sample_version" "set (p # qs) \<subseteq> in_use s0" "room 900000 s0"
    by (cases st0) auto
  have "room (Suc 899999) s0" using d(5) by simp
  from new_state [OF d(2) this] obtain bt s1 q where n: "btree_new s0 = (Ok bt, s1)" "tree_state 0 {q} (\<lambda>_. None) (bt, s1)" "room 899999 s1"
    "q \<notin> in_use s0" "within s0 {} s1 {q}" by blast
  have ts: "tight_state 0 (\<lambda>_. None) (bt, s1)" using new_tight [OF d(2) \<open>room (Suc 899999) s0\<close>] n(1) by auto
  have r1: "room (0 + 2 + 10) s1" by (rule room_mono [OF n(3)]) simp
  obtain bt' s' P where t: "btree_insert 1 k p (bt, s1) = (Ok (), bt', s')" "room 10 s'" "within s1 {q} s' P"
    using insert_state [OF n(2) _ r1 k, of 1 p] by auto
  have "tight_state (Suc 0) [k \<mapsto> p] (bt', s')"
    using insert_tight [OF ts _ _ k, of 1 10 p] t(1) r1 by auto
  then obtain u where u: "tree_rep 1 (bt', s') u" "linked (leaves u) 0" "tight (leaves u)" "tree_map u = [k \<mapsto> p]"
    unfolding tight_state_def by auto
  have es: "leaf_entries (leaves u) = [\<lparr>en_key = k, en_value = p\<rparr>]"
    using singleton_map [OF tree_rep_sorted [OF u(1)]] u(4) by (simp add: tree_map_def [abs_def] fun_eq_iff)
  have same: "page_content s' x = page_content s0 x" if "x \<in> set (p # qs)" for x
  proof -
    have "x \<in> in_use s0" using that d(4) by blast
    then show ?thesis using n(4,5) t(3) unfolding within_def by (metis empty_iff insert_iff subsetD)
  qed
  have "versioned_stored (page_content s0) p qs sample_version" using versioned_stored_mono [OF d(3)] both_tx_content by fastforce
  then have "versioned_stored (page_content s') p qs sample_version"
    using same chain_cong [of qs "page_content s'" "page_content s0"] by (auto simp: versioned_stored_def)
  moreover have "get_root_page bt' = bt_root_page bt'" using u(1) root_page_idle by (simp add: tree_rep_def)
  moreover have "bt_root_page bt' \<in> in_use s'" using u(1) by (cases u) (auto simp: tree_rep_def)
  ultimately have "collection_at 1 (get_root_page bt') u (\<lambda>_. sample_version) s'"
    using i u es by (auto simp: collection_at_def version_stored_def tree_rep_def btree_open_def idle_def const_defs in_use_def sample_version_def)
  then show thesis using that [OF s(1) d(1) n(1) t(1)] es by simp
qed

definition length_env :: "nat env" where
  "length_env = sample_env\<lparr>en_from_slice := \<lambda>d. Some (JObject [(us ''x'', JNumber (length d))])\<rparr>"

definition sample_collection_db :: "nat database \<Rightarrow> bool" where
  "sample_collection_db db \<longleftrightarrow> (\<exists>wl s p d s0 w bt s1 st. wal_open None 1 2 = Ok wl \<and> pager_open None 10 False = Ok s \<and>
    write_versioned_document ''a'' [7] 0 0 (s, []) = (Ok (p, d), s0, w) \<and> btree_new s0 = (Ok bt, s1) \<and> btree_insert 1 ''a'' p (bt, s1) = (Ok (), st) \<and>
    db = sample_database (snd st) wl (set_root ''c'' (get_root_page (fst st)) metadata_new))"

lemma sample_collection_database:
  obtains db cm t p where "sample_collection_db db" "hm_get (md_collections (db_metadata db)) ''c'' = Some cm"
    "collection_at 1 (cm_btree_root cm) t (\<lambda>_. sample_version) (db_pager db)" "leaf_entries (leaves t) = [\<lparr>en_key = ''a'', en_value = p\<rparr>]"
    "vd_is_visible sample_version (snapshot_of db)"
proof -
  obtain s p d s0 w bt s1 st t where o: "pager_open None 10 False = Ok s" "write_versioned_document ''a'' [7] 0 0 (s, []) = (Ok (p, d), s0, w)"
    "btree_new s0 = (Ok bt, s1)" "btree_insert 1 ''a'' p (bt, s1) = (Ok (), st)"
    "collection_at 1 (get_root_page (fst st)) t (\<lambda>_. sample_version) (snd st)" "leaf_entries (leaves t) = [\<lparr>en_key = ''a'', en_value = p\<rparr>]"
    by (rule sample_collection [of "''a''"]) (simp_all add: tree_key_def rust_string_def as_bytes_def)
  obtain wl where wl: "wal_open None 1 2 = Ok wl" using wal_open_new by blast
  let ?db = "sample_database (snd st) wl (set_root ''c'' (get_root_page (fst st)) metadata_new) :: nat database"
  obtain cm where cm: "hm_get (md_collections (db_metadata ?db)) ''c'' = Some cm" "cm_btree_root cm = get_root_page (fst st)"
    by (simp add: sample_database_def database_with_def set_root_def get_collection_def metadata_new_def)
  have "same_store (snd st) (db_pager ?db)"
    using set_metrics_store [of "snd st"] o(5) by (simp add: sample_database_def database_with_def collection_at_def tree_rep_def)
  then have at: "collection_at 1 (cm_btree_root cm) t (\<lambda>_. sample_version) (db_pager ?db)"
    using o(5) same_store_rep [of 1 "btree_open (get_root_page (fst st))" "snd st" t] cm(2) by (auto simp: collection_at_def same_store_def)
  have v: "vd_is_visible sample_version (snapshot_of ?db)"
    by (simp add: sample_version_def vd_is_visible_def snapshot_of_def sample_database_def database_with_def tm_new_def)
  have "sample_collection_db ?db" unfolding sample_collection_db_def using o(1-4) wl by blast
  then show thesis using that [of ?db cm t p] cm(1) at o(6) v by blast
qed

lemma utf8_a: "utf8 (us ''a'') = ''a''"
  by code_simp

lemma sample_field: "field_values (us ''x'') (JObject [(us ''x'', JNumber (1 :: nat))]) = [JNumber 1]"
  by code_simp

theorem find_by_id_reads_committed_witness: "\<exists>db. sample_collection_db db \<and> fst (coll_find_by_id length_env ''c'' (us ''a'') db) = Ok (JObject [(us ''x'', JNumber 1)])"
proof -
  obtain db cm t p where c: "sample_collection_db db" "hm_get (md_collections (db_metadata db)) ''c'' = Some cm"
    "collection_at 1 (cm_btree_root cm) t (\<lambda>_. sample_version) (db_pager db)" "leaf_entries (leaves t) = [\<lparr>en_key = ''a'', en_value = p\<rparr>]"
    "vd_is_visible sample_version (snapshot_of db)" by (rule sample_collection_database)
  have "tree_map t ''a'' = Some p" using c(4) by (simp add: tree_map_def)
  then have "fst (coll_find_by_id length_env ''c'' (us ''a'') db) = Ok (JObject [(us ''x'', JNumber 1)])"
    using find_by_id_reads_committed [OF c(2,3), of length_env "us ''a''"] c(5)
    by (auto simp: utf8_a length_env_def sample_env_def parse_doc_def sample_version_def)
  then show ?thesis using c(1) by blast
qed

theorem find_all_reads_committed_witness:
  "\<exists>db. sample_collection_db db \<and> fst (coll_find_all length_env ''c'' db) = Ok [JObject [(us ''x'', JNumber 1)]] \<and> fst (coll_count length_env ''c'' db) = Ok 1"
proof -
  obtain db cm t p where c: "sample_collection_db db" "hm_get (md_collections (db_metadata db)) ''c'' = Some cm"
    "collection_at 1 (cm_btree_root cm) t (\<lambda>_. sample_version) (db_pager db)" "leaf_entries (leaves t) = [\<lparr>en_key = ''a'', en_value = p\<rparr>]"
    "vd_is_visible sample_version (snapshot_of db)" by (rule sample_collection_database)
  have "snapshot_docs t (\<lambda>_. sample_version) (snapshot_of db) = [sample_version]" using c(4,5) by (simp add: snapshot_docs_def)
  then show ?thesis using find_all_reads_committed [OF c(2,3), of length_env] c(1,4)
    by (auto simp: length_env_def sample_env_def sample_version_def List.map_filter_def)
qed

theorem distinct_values_witness:
  "\<exists>db. sample_collection_db db \<and> (\<exists>db'. coll_distinct length_env ''c'' (us ''x'') db = (Ok [JNumber 1], db'))"
proof -
  obtain db cm t p where c: "sample_collection_db db" "hm_get (md_collections (db_metadata db)) ''c'' = Some cm"
    "collection_at 1 (cm_btree_root cm) t (\<lambda>_. sample_version) (db_pager db)" "leaf_entries (leaves t) = [\<lparr>en_key = ''a'', en_value = p\<rparr>]"
    "vd_is_visible sample_version (snapshot_of db)" by (rule sample_collection_database)
  have "snapshot_docs t (\<lambda>_. sample_version) (snapshot_of db) = [sample_version]" using c(4,5) by (simp add: snapshot_docs_def)
  then obtain db' where "coll_find_all length_env ''c'' db = (Ok [JObject [(us ''x'', JNumber 1)]], db')"
    using all_committed [OF c(2,3), of length_env] c(4)
    by (auto simp: length_env_def sample_env_def sample_version_def List.map_filter_def)
  from distinct_values [OF this, of "us ''x''"] obtain vs where vs: "coll_distinct length_env ''c'' (us ''x'') db = (Ok vs, db')"
    "distinct vs" "set vs \<subseteq> {JNumber 1}" "vs \<noteq> []" by (fastforce simp: sample_field [simplified] distinct_map)
  have "vs = [JNumber 1]" using vs(2-4) by (cases vs rule: remdups_adj.cases) auto
  then show ?thesis using c(1) vs(1) by blast
qed

theorem bulk_ignores_own_writes_witness:
  "\<exists>(db :: nat database) tx db' cm st. sample_collection_db db \<and> db_begin db = (tx, db') \<and> hm_get (md_collections (db_metadata db)) ''c'' = Some cm \<and>
    visible_docs length_env (btree_open (cm_btree_root cm), tx, db') = (Ok [sample_version], st) \<and> vd_xmin sample_version \<noteq> tx_mvcc_tx_id tx"
proof -
  obtain db cm t p where c: "sample_collection_db db" "hm_get (md_collections (db_metadata db)) ''c'' = Some cm"
    "collection_at 1 (cm_btree_root cm) t (\<lambda>_. sample_version) (db_pager db)" "leaf_entries (leaves t) = [\<lparr>en_key = ''a'', en_value = p\<rparr>]"
    "vd_is_visible sample_version (snapshot_of db)" by (rule sample_collection_database)
  obtain tx d where b: "db_begin db = (tx, d)" by (cases "db_begin db")
  note q = begin_parts [OF b]
  have "snapshot_docs t (\<lambda>_. sample_version) (snapshot_of db) = [sample_version]" using c(4,5) by (simp add: snapshot_docs_def)
  then obtain s where v: "visible_docs length_env (btree_open (cm_btree_root cm), tx, d) = (Ok [sample_version], btree_open (cm_btree_root cm), tx, d\<lparr>db_pager := s\<rparr>)"
    using visible_docs_spec [of 1 "cm_btree_root cm" t "\<lambda>_. sample_version" d tx length_env] c(3,4) q by (auto simp: length_env_def sample_env_def)
  have "tm_last_committed_tx_id (db_tx_manager db) < tm_next_tx_id (db_tx_manager db)"
    using c(1) by (auto simp: sample_collection_db_def sample_database_def database_with_def tm_new_def)
  from bulk_ignores_own_writes [OF b this v, of sample_version] have "vd_xmin sample_version \<noteq> tx_mvcc_tx_id tx" by simp
  then show ?thesis using c(1,2) b v by blast
qed

end
