(* ===== verification/Database.thy ===== *)
theory Database
  imports Recovery Sort_By Collection_Read
begin

text \<open>
  The other operations of \<open>src/core/database.rs\<close>: garbage collection, information about the database, transactions that are tried again after a conflict, indexes and schemas, backups.

  The names of collections are validated as text and kept as their UTF-8 bytes. A \<open>HashMap\<close> is iterated in an unspecified order, which is that of its association list here.
\<close>

subsection \<open>Specification\<close>

subsubsection \<open>Garbage collection\<close>

record gc_stats =
  gs_versions_removed :: nat
  gs_pages_freed :: nat
  gs_bytes_freed :: int

text \<open>The pages of removed versions are freed; a page that cannot be freed is not counted.\<close>

fun free_versions :: "document_version list \<Rightarrow> nat \<times> pager \<Rightarrow> unit res \<times> nat \<times> pager" where
  "free_versions [] st = (Ok (), st)"
| "free_versions (v # vs) (n, s) =
     (case delete_document (dv_page_num v) s of
        (Ok _, s) \<Rightarrow> free_versions vs (n + 1, s)
      | (Err _, s) \<Rightarrow> free_versions vs (n, s)
      | (Panic, s) \<Rightarrow> (Panic, n, s))"

fun gc_chains :: "tx_id \<Rightarrow> (string, version_chain) hmap \<Rightarrow> nat \<times> pager \<Rightarrow> (string, version_chain) hmap res \<times> nat \<times> pager" where
  "gc_chains oldest [] st = (Ok [], st)"
| "gc_chains oldest ((i, c) # cs) st =
     (case chain_garbage_collect oldest c of (removed, c) \<Rightarrow>
      and_then (free_versions removed st) (\<lambda>_ st.
      and_then (gc_chains oldest cs st) (\<lambda>cs st. (Ok ((i, c) # cs), st))))"

text \<open>\<open>doc_chains.retain(..)\<close>\<close>

definition retain_chains :: "(string, version_chain) hmap \<Rightarrow> (string, version_chain) hmap" where
  "retain_chains cs = filter (\<lambda>(_, c). get_versions c \<noteq> []) cs"

fun gc_collections :: "tx_id \<Rightarrow> version_chain by_doc \<Rightarrow> nat \<times> pager \<Rightarrow> version_chain by_doc res \<times> nat \<times> pager" where
  "gc_collections oldest [] st = (Ok [], st)"
| "gc_collections oldest ((name, cs) # rest) st =
     and_then (gc_chains oldest cs st) (\<lambda>cs st.
     and_then (gc_collections oldest rest st) (\<lambda>rest st. (Ok ((name, retain_chains cs) # rest), st)))"

definition db_garbage_collect :: "'n database \<Rightarrow> gc_stats res \<times> 'n database" where
  "db_garbage_collect db =
     (if db_read_only db then (Err (Other ''cannot garbage collect: database is in read-only mode''), db)
      else
        case gc_collections (get_oldest_active_transaction (db_tx_manager db)) (db_version_chains db) (0, db_pager db) of
          (Ok cs, n, s) \<Rightarrow>
            (Ok \<lparr>gs_versions_removed = n, gs_pages_freed = n, gs_bytes_freed = int n * int PAGE_SIZE\<rparr>,
             db\<lparr>db_pager := s, db_version_chains := filter (\<lambda>(_, docs). docs \<noteq> []) cs\<rparr>)
        | (Err e, n, s) \<Rightarrow> (Err e, db\<lparr>db_pager := s\<rparr>)
        | (Panic, n, s) \<Rightarrow> (Panic, db\<lparr>db_pager := s\<rparr>))"

subsubsection \<open>Information\<close>

record index_info =
  ii_name :: string
  ii_fields :: "ustring list"
  ii_unique :: bool
  ii_btree_root :: page_num

record collection_info =
  ci_name :: string
  ci_document_count :: nat
  ci_btree_root :: page_num
  ci_indexes :: "index_info list"

record database_info =
  di_path :: string
  di_version :: u32
  di_num_pages :: u64
  di_file_size :: u64
  di_collections :: "collection_info list"
  di_total_documents :: nat
  di_read_only :: bool

definition list_collections :: "'n database \<Rightarrow> string list" where
  "list_collections db = sort_by cmp (map fst (md_collections (db_metadata db)))"

definition index_infos :: "'n collection_meta \<Rightarrow> index_info list" where
  "index_infos cm = map (\<lambda>(name, m). \<lparr>ii_name = name, ii_fields = im_fields m, ii_unique = im_unique m, ii_btree_root = im_btree_root m\<rparr>) (cm_indexes cm)"

definition count_documents_in_btree :: "'n env \<Rightarrow> page_num \<Rightarrow> 'n database \<Rightarrow> nat res \<times> 'n database" where
  "count_documents_in_btree E root_page db =
     with_tx (on_tree_of (btree_open root_page) (\<lambda>st. and_then (visible_docs E st) (\<lambda>vdocs st. (Ok (length vdocs), st)))) db"

definition collection_stats :: "'n env \<Rightarrow> string \<Rightarrow> 'n database \<Rightarrow> collection_info res \<times> 'n database" where
  "collection_stats E name db =
     (case hm_get (md_collections (db_metadata db)) name of
        None \<Rightarrow> (Err (Other ''collection not found''), db)
      | Some cm \<Rightarrow>
          and_then (if cm_btree_root cm = 0 then (Ok 0, db) else count_documents_in_btree E (cm_btree_root cm) db) (\<lambda>document_count db.
          (Ok \<lparr>ci_name = name, ci_document_count = document_count, ci_btree_root = cm_btree_root cm, ci_indexes = index_infos cm\<rparr>, db)))"

definition list_indexes :: "string \<Rightarrow> 'n database \<Rightarrow> index_info list res" where
  "list_indexes name db =
     (case hm_get (md_collections (db_metadata db)) name of
        None \<Rightarrow> Err (Other ''collection not found'')
      | Some cm \<Rightarrow> Ok (index_infos cm))"

text \<open>The loop over the collections: one whose statistics fail is left out.\<close>

fun all_stats :: "'n env \<Rightarrow> string list \<Rightarrow> 'n database \<Rightarrow> collection_info list res \<times> 'n database" where
  "all_stats E [] db = (Ok [], db)"
| "all_stats E (name # names) db =
     (case collection_stats E name db of
        (Ok c, db) \<Rightarrow> and_then (all_stats E names db) (\<lambda>cs db. (Ok (c # cs), db))
      | (Err _, db) \<Rightarrow> all_stats E names db
      | (Panic, db) \<Rightarrow> (Panic, db))"

definition db_info :: "'n env \<Rightarrow> 'n database \<Rightarrow> database_info res \<times> 'n database" where
  "db_info E db =
     and_then (all_stats E (map fst (md_collections (db_metadata db))) db) (\<lambda>collections db.
     (Ok \<lparr>di_path = db_path db, di_version = VERSION, di_num_pages = pg_num_pages (db_pager db), di_file_size = file_size (pg_file (db_pager db)),
          di_collections = sort_by (\<lambda>a b. cmp (ci_name a) (ci_name b)) collections,
          di_total_documents = sum_list (map ci_document_count collections), di_read_only = db_read_only db\<rparr>, db))"

subsubsection \<open>Transactions with retries\<close>

text \<open>\<open>1 << attempt\<close> takes the shift modulo 64, as the release build does.\<close>

definition backoff_ms :: "transaction_config \<Rightarrow> nat \<Rightarrow> u64" where
  "backoff_ms cfg attempt = min (tc_retry_backoff_base_ms cfg * push_bit (attempt mod 64) 1) (tc_max_retry_backoff_ms cfg)"

text \<open>
  What the other threads do during an attempt: between the enqueueing of its commit and its execution, in the rounds of the batch leader, and while the thread sleeps before the next attempt.
\<close>

record 'n surroundings =
  sr_queued :: "'n database \<Rightarrow> 'n database"
  sr_rounds :: "nat \<Rightarrow> round"
  sr_slept :: "u64 \<Rightarrow> 'n database \<Rightarrow> 'n database"

datatype 'a attempt = Done "'a res" | Conflicted | Unfinished

definition run_attempt :: "'n env \<Rightarrow> 'n surroundings \<Rightarrow> ('n tx_db \<Rightarrow> 'a res \<times> 'n tx_db) \<Rightarrow> 'n database \<Rightarrow> 'a attempt \<times> 'n database" where
  "run_attempt E sr f db =
     (case f (db_begin db) of
        (Ok r, st) \<Rightarrow>
          (case commit E (sr_queued sr) (sr_rounds sr) st of
             (Some (Ok _), st) \<Rightarrow> (Done (Ok r), snd (drop_transaction st))
           | (Some (Err e), tx, db) \<Rightarrow>
               if e = TxConflict then (Conflicted, snd (drop_transaction (tx, db\<lparr>db_metrics := transaction_conflict (db_metrics db)\<rparr>)))
               else (Done (Err e), snd (drop_transaction (tx, db)))
           | (Some Panic, st) \<Rightarrow> (Done Panic, snd st)
           | (None, st) \<Rightarrow> (Unfinished, snd st))
      | (Err e, st) \<Rightarrow> (Done (Err e), snd (drop_transaction (snd (rollback st))))
      | (Panic, st) \<Rightarrow> (Done Panic, snd st))"

fun run_attempts :: "'n env \<Rightarrow> (nat \<Rightarrow> 'n surroundings) \<Rightarrow> ('n tx_db \<Rightarrow> 'a res \<times> 'n tx_db) \<Rightarrow> transaction_config \<Rightarrow> nat \<Rightarrow> 'n database \<Rightarrow>
    'a res option \<times> 'n database" where
  "run_attempts E sr f cfg retries db =
     (let attempt = tc_max_retries cfg - retries in
      case run_attempt E (sr attempt) f db of
        (Done r, db) \<Rightarrow> (Some r, db)
      | (Unfinished, db) \<Rightarrow> (None, db)
      | (Conflicted, db) \<Rightarrow>
          (case retries of
             0 \<Rightarrow> (Some (Err TxConflict), db)
           | Suc left \<Rightarrow>
               let ms = backoff_ms cfg attempt in
               run_attempts E sr f cfg left (if ms > 0 then sr_slept (sr attempt) ms db else db)))"

definition run_transaction :: "'n env \<Rightarrow> (nat \<Rightarrow> 'n surroundings) \<Rightarrow> ('n tx_db \<Rightarrow> 'a res \<times> 'n tx_db) \<Rightarrow> 'n database \<Rightarrow> 'a res option \<times> 'n database" where
  "run_transaction E sr f db = run_attempts E sr f (db_tx_config db) (tc_max_retries (db_tx_config db)) db"

definition set_transaction_config :: "transaction_config \<Rightarrow> 'n database \<Rightarrow> 'n database" where
  "set_transaction_config cfg db = db\<lparr>db_tx_config := cfg\<rparr>"

definition set_auto_checkpoint_threshold :: "u64 \<Rightarrow> 'n database \<Rightarrow> 'n database" where
  "set_auto_checkpoint_threshold threshold db = db\<lparr>db_auto_checkpoint_threshold := threshold\<rparr>"

subsubsection \<open>Indexes\<close>

text \<open>The key of a document, whose id the tree has as bytes.\<close>

definition index_key_of :: "'n env \<Rightarrow> (ustring \<times> 'n json) list \<Rightarrow> ustring list \<Rightarrow> string \<Rightarrow> string" where
  "index_key_of E doc fs doc_id = index_key_text E doc fs [] @ doc_id"

definition on_tree_pager :: "(pager \<Rightarrow> 'a res \<times> pager) \<Rightarrow> bt_state \<Rightarrow> 'a res \<times> bt_state" where
  "on_tree_pager f st = (case st of (bt, s) \<Rightarrow> case f s of (r, s) \<Rightarrow> (r, bt, s))"

text \<open>One entry of a leaf; a document that cannot be read or is no JSON object is skipped.\<close>

definition index_entry :: "'n env \<Rightarrow> ustring list \<Rightarrow> bool \<Rightarrow> leaf_entry \<Rightarrow> bt_state \<Rightarrow> unit res \<times> bt_state" where
  "index_entry E fs unique e st =
     (case on_tree_pager (read_versioned_document (en_value e) []) st of
        (Panic, st) \<Rightarrow> (Panic, st)
      | (Err _, st) \<Rightarrow> (Ok (), st)
      | (Ok vdoc, st) \<Rightarrow>
          (case from_slice_map E (vd_data vdoc) of
             Ok doc_map \<Rightarrow>
               (let key_str = index_key_of E doc_map fs (en_key e) in
                case (if unique then btree_search (en_fuel E) key_str st else (Err NotFound, st)) of
                  (Ok _, st) \<Rightarrow> (Err (Other ''unique constraint violation on fields: duplicate value found''), st)
                | (Err _, st) \<Rightarrow> btree_insert (en_fuel E) key_str (en_value e) st
                | (Panic, st) \<Rightarrow> (Panic, st))
           | _ \<Rightarrow> (Ok (), st)))"

fun scan_btree_node_for_compound_index :: "'n env \<Rightarrow> nat \<Rightarrow> ustring list \<Rightarrow> bool \<Rightarrow> page_num \<Rightarrow> bt_state \<Rightarrow> unit res \<times> bt_state" where
  "scan_btree_node_for_compound_index E 0 fs unique page_num st = (Panic, st)"
| "scan_btree_node_for_compound_index E (Suc fuel) fs unique page_num st =
     (if page_num = 0 then (Ok (), st)
      else
        and_then (on_tree_pager (read_page page_num) st) (\<lambda>page_data st.
        and_then (deserialize_node page_num page_data, st) (\<lambda>node st.
        if bn_node_type node = LeafNode then
          and_then (for_each (index_entry E fs unique) (bn_entries node) st) (\<lambda>_ st.
          if bn_next_leaf node \<noteq> 0 then scan_btree_node_for_compound_index E fuel fs unique (bn_next_leaf node) st else (Ok (), st))
        else for_each (\<lambda>child st. scan_btree_node_for_compound_index E fuel fs unique child st) (bn_children node) st)))"

text \<open>\<open>save_metadata\<close>, \<open>flush\<close> and \<open>write_header\<close>, with which the changes of the metadata end.\<close>

definition persist_metadata :: "'n env \<Rightarrow> 'n database \<Rightarrow> unit res \<times> 'n database" where
  "persist_metadata E db =
     and_then (save_metadata E db) (\<lambda>_ db.
     and_then (db_on_pager flush db) (\<lambda>_ db. db_on_pager write_header db))"

definition change_collection :: "string \<Rightarrow> ('n collection_meta \<Rightarrow> 'n collection_meta) \<Rightarrow> 'n database \<Rightarrow> 'n database" where
  "change_collection name f db = update_metadata_no_flush (get_collection name f) db"

definition create_compound_index :: "'n env \<Rightarrow> ustring \<Rightarrow> string \<Rightarrow> ustring list \<Rightarrow> bool \<Rightarrow> 'n database \<Rightarrow> unit res \<times> 'n database" where
  "create_compound_index E collection_name index_name fs unique db =
     (let name = utf8 collection_name in
      and_then (validate_collection_name (en_unicode E) collection_name, db) (\<lambda>_ db.
      if fs = [] then (Err (Other ''index must have at least one field''), db)
      else if db_read_only db then (Err (Other ''cannot create index: database is in read-only mode''), db)
      else
        and_then (checkpoint_now E db) (\<lambda>_ db.
        if (case hm_get (md_collections (db_metadata db)) name of Some cm \<Rightarrow> hm_contains (cm_indexes cm) index_name | None \<Rightarrow> False)
        then (Err (Other ''index already exists on collection''), db)
        else
          and_then (db_on_pager btree_new db) (\<lambda>index_btree db.
          let coll_btree_root = collection_root (db_metadata db) name in
          case (if coll_btree_root \<noteq> 0
                then scan_btree_node_for_compound_index E (en_fuel E) fs unique coll_btree_root (index_btree, db_pager db)
                else (Ok (), index_btree, db_pager db)) of (r, index_btree, s) \<Rightarrow>
          and_then (r, db\<lparr>db_pager := s\<rparr>) (\<lambda>_ db.
          persist_metadata E (change_collection name (\<lambda>cm. cm\<lparr>cm_indexes := hm_insert index_name
            \<lparr>im_name = index_name, im_field = None, im_fields = fs, im_btree_root = get_root_page index_btree, im_unique = unique\<rparr> (cm_indexes cm)\<rparr>) db))))))"

definition create_index :: "'n env \<Rightarrow> ustring \<Rightarrow> string \<Rightarrow> ustring \<Rightarrow> bool \<Rightarrow> 'n database \<Rightarrow> unit res \<times> 'n database" where
  "create_index E collection_name index_name field unique db = create_compound_index E collection_name index_name [field] unique db"

definition drop_index :: "'n env \<Rightarrow> ustring \<Rightarrow> string \<Rightarrow> 'n database \<Rightarrow> unit res \<times> 'n database" where
  "drop_index E collection_name index_name db =
     (let name = utf8 collection_name in
      and_then (validate_collection_name (en_unicode E) collection_name, db) (\<lambda>_ db.
      if db_read_only db then (Err (Other ''cannot drop index: database is in read-only mode''), db)
      else
        (case hm_get (md_collections (db_metadata db)) name of
           None \<Rightarrow> (Err (Other ''collection does not exist''), db)
         | Some cm \<Rightarrow>
             if \<not> hm_contains (cm_indexes cm) index_name then (Err (Other ''index does not exist on collection''), db)
             else persist_metadata E (change_collection name (\<lambda>cm. cm\<lparr>cm_indexes := hm_remove index_name (cm_indexes cm)\<rparr>) db))))"

subsubsection \<open>Schemas\<close>

definition save_and_flush :: "'n env \<Rightarrow> 'n database \<Rightarrow> unit res \<times> 'n database" where
  "save_and_flush E db = and_then (save_metadata E db) (\<lambda>_ db. db_on_pager flush db)"

definition set_schema :: "'n env \<Rightarrow> ustring \<Rightarrow> 'n schema \<Rightarrow> 'n database \<Rightarrow> unit res \<times> 'n database" where
  "set_schema E collection_name s db =
     and_then (validate_collection_name (en_unicode E) collection_name, db) (\<lambda>_ db.
     if db_read_only db then (Err (Other ''cannot set schema: database is in read-only mode''), db)
     else save_and_flush E (change_collection (utf8 collection_name) (\<lambda>cm. cm\<lparr>cm_schema := Some s\<rparr>) db))"

definition get_schema :: "string \<Rightarrow> 'n database \<Rightarrow> 'n schema option" where
  "get_schema name db = (case hm_get (md_collections (db_metadata db)) name of Some cm \<Rightarrow> cm_schema cm | None \<Rightarrow> None)"

definition remove_schema :: "'n env \<Rightarrow> ustring \<Rightarrow> 'n database \<Rightarrow> unit res \<times> 'n database" where
  "remove_schema E collection_name db =
     (let name = utf8 collection_name in
      and_then (validate_collection_name (en_unicode E) collection_name, db) (\<lambda>_ db.
      if db_read_only db then (Err (Other ''cannot remove schema: database is in read-only mode''), db)
      else save_and_flush E (if hm_contains (md_collections (db_metadata db)) name then change_collection name (\<lambda>cm. cm\<lparr>cm_schema := None\<rparr>) db else db)))"

subsubsection \<open>Backups\<close>

record backup_info =
  bi_version :: u32
  bi_num_pages :: u64
  bi_num_collections :: nat
  bi_file_size :: u64

text \<open>The copy of the main file after a checkpoint; the copy and the renaming themselves do not fail here.\<close>

definition db_backup :: "'n env \<Rightarrow> 'n database \<Rightarrow> dfile res \<times> 'n database" where
  "db_backup E db =
     (if db_read_only db then (Err (Other ''cannot backup: database is read-only''), db)
      else and_then (db_checkpoint E db) (\<lambda>_ db. (Ok \<lparr>f_bytes = f_bytes (pg_file (db_pager db)), f_durable = []\<rparr>, db)))"

definition verify_backup :: "'n env \<Rightarrow> dfile option \<Rightarrow> backup_info res" where
  "verify_backup E backup =
     (case backup of
        None \<Rightarrow> Err (Io ''No such file or directory (os error 2)'')
      | Some f \<Rightarrow>
          res_bind (file_read_exact 0 PAGE_SIZE f) (\<lambda>header_buf.
          if take 4 header_buf \<noteq> MAGIC then Err InvalidMagic
          else
            res_bind (read_u32 4 header_buf) (\<lambda>version.
            res_bind (read_u64 12 header_buf) (\<lambda>num_pages.
            res_bind (read_u64 24 header_buf) (\<lambda>metadata_page.
            res_bind (if metadata_page > 0 then
                        res_bind (pager_open backup 100 True) (\<lambda>temp_pager.
                        res_bind (fst (read_page metadata_page temp_pager)) (\<lambda>meta_data.
                        res_bind (metadata_deserialize (en_codec E) meta_data) (\<lambda>md. Ok (length (md_collections md)))))
                      else Ok 0) (\<lambda>num_collections.
            Ok \<lparr>bi_version = version, bi_num_pages = num_pages, bi_num_collections = num_collections, bi_file_size = file_size f\<rparr>))))))"

subsection \<open>Lemmas\<close>

text \<open>Sorting by a key sorts the keys.\<close>

lemma insert_by_map: "map f (insert_by (\<lambda>a b. c (f a) (f b)) x xs) = insert_by c (f x) (map f xs)"
  by (induction xs) simp_all

lemma sort_by_map: "map f (sort_by (\<lambda>a b. c (f a) (f b)) xs) = sort_by c (map f xs)"
  by (induction xs) (simp_all add: sort_by_def insert_by_map)

interpretation names: comparison "cmp :: string \<Rightarrow> string \<Rightarrow> ordering"
  by unfold_locales (auto simp: cmp_def chained_def)

lemma list_collections_sorted:
  assumes "hm_ok (md_collections (db_metadata db))"
  shows "sorted_wrt (<) (list_collections db) \<and> set (list_collections db) = fst ` set (md_collections (db_metadata db))"
proof -
  let ?ns = "map fst (md_collections (db_metadata db))"
  have s: "ordered_by cmp (list_collections db)" "mset (list_collections db) = mset ?ns"
    using names.sort_by_stable [of ?ns] by (simp_all add: stable_sort_of_def list_collections_def)
  have "distinct (list_collections db)" using s(2) assms mset_eq_imp_distinct_iff by metis
  moreover have "sorted (list_collections db)"
    using s(1) unfolding ordered_by_def by (rule sorted_wrt_mono_rel [rotated]) (auto simp: cmp_def split: if_splits)
  moreover have "set (list_collections db) = set ?ns" using s(2) by (metis set_mset_mset)
  ultimately show ?thesis by (simp add: strict_sorted_iff)
qed

text \<open>A collection and the number of its documents that a snapshot shows.\<close>

definition counted :: "'n env \<Rightarrow> pager \<Rightarrow> tx_id \<Rightarrow> 'n collection_meta \<Rightarrow> nat \<Rightarrow> bool" where
  "counted E s snapshot cm k \<longleftrightarrow> cm_btree_root cm = 0 \<and> k = 0 \<or>
     (\<exists>n t ver. collection_at n (cm_btree_root cm) t ver s \<and> n \<le> en_fuel E \<and> length (leaf_entries (leaves t)) < en_fuel E \<and>
        k = length (snapshot_docs t ver snapshot))"

text \<open>Two states of a database with the same collections, pages and snapshot.\<close>

definition same_view :: "'n database \<Rightarrow> 'n database \<Rightarrow> bool" where
  "same_view db db' \<longleftrightarrow> db_metadata db' = db_metadata db \<and> same_store (db_pager db) (db_pager db') \<and> snapshot_of db' = snapshot_of db"

lemma collection_at_same_store:
  assumes "collection_at n root t ver s" "same_store s s'"
  shows "collection_at n root t ver s'"
proof -
  have "tree_rep n (btree_open root, s') t" using assms same_store_rep unfolding collection_at_def by blast
  then show ?thesis using assms by (auto simp: collection_at_def same_store_def)
qed

lemma counted_same_store: "counted E s snapshot cm k \<Longrightarrow> same_store s s' \<Longrightarrow> counted E s' snapshot cm k"
  unfolding counted_def using collection_at_same_store by blast

lemma drop_view: "db_metadata (snd (drop_transaction (tx, db))) = db_metadata db \<and> db_pager (snd (drop_transaction (tx, db))) = db_pager db \<and>
    snapshot_of (snd (drop_transaction (tx, db))) = snapshot_of db"
  by (simp add: drop_transaction_def snapshot_of_def)

lemma begin_view: "db_begin db = (tx, db') \<Longrightarrow> snapshot_of db' = snapshot_of db"
  by (auto simp: db_begin_def transaction_new_def begin_transaction_def fetch_tx_id_def insert_active_def snapshot_of_def Let_def split: prod.splits)

lemma count_documents_spec:
  assumes "collection_at n root t ver (db_pager db)" "n \<le> en_fuel E" "length (leaf_entries (leaves t)) < en_fuel E"
  shows "\<exists>db'. count_documents_in_btree E root db = (Ok (length (snapshot_docs t ver (snapshot_of db))), db') \<and> same_view db db'"
proof -
  obtain tx d where b: "db_begin db = (tx, d)" by (cases "db_begin db")
  note p = begin_parts [OF b]
  have c: "collection_at n root t ver (db_pager d)" using assms(1) p by simp
  have w: "tx_writes tx = []" using p by simp
  obtain s where s: "visible_docs E (btree_open root, tx, d) = (Ok (snapshot_docs t ver (tx_snapshot_id tx)), btree_open root, tx, d\<lparr>db_pager := s\<rparr>)"
    "same_store (db_pager d) s" using visible_docs_spec [OF c w assms(2,3)] by blast
  let ?db = "snd (drop_transaction (tx, d\<lparr>db_pager := s\<rparr>))"
  have "count_documents_in_btree E root db = (Ok (length (snapshot_docs t ver (snapshot_of db))), ?db)"
    using b s(1) p by (simp add: count_documents_in_btree_def with_tx_def on_tree_of_def)
  moreover have "same_view db ?db" using drop_view [of tx "d\<lparr>db_pager := s\<rparr>"] p s(2) begin_view [OF b] by (simp add: same_view_def snapshot_of_def)
  ultimately show ?thesis by blast
qed

lemma collection_stats_spec:
  assumes "hm_get (md_collections (db_metadata db)) name = Some cm" "counted E (db_pager db) (snapshot_of db) cm k" "store_ok (db_pager db)"
  shows "\<exists>c db'. collection_stats E name db = (Ok c, db') \<and> ci_name c = name \<and> ci_document_count c = k \<and> same_view db db'"
proof (cases "cm_btree_root cm = 0")
  case True
  then have "k = 0" using assms(2) by (auto simp: counted_def collection_at_def)
  then show ?thesis using True assms(1,3) by (simp add: collection_stats_def same_view_def same_store_refl)
next
  case False
  then obtain n t ver where c: "collection_at n (cm_btree_root cm) t ver (db_pager db)" "n \<le> en_fuel E" "length (leaf_entries (leaves t)) < en_fuel E"
    "k = length (snapshot_docs t ver (snapshot_of db))" using assms(2) by (auto simp: counted_def)
  obtain db' where d: "count_documents_in_btree E (cm_btree_root cm) db = (Ok k, db')" "same_view db db'" using count_documents_spec [OF c(1-3)] c(4) by blast
  then show ?thesis using False assms(1) by (simp add: collection_stats_def)
qed

lemma all_stats_spec:
  assumes "store_ok (db_pager db)"
    and "\<And>name. name \<in> set names \<Longrightarrow> \<exists>cm. hm_get (md_collections (db_metadata db)) name = Some cm \<and> counted E (db_pager db) (snapshot_of db) cm (k name)"
  shows "\<exists>cs db'. all_stats E names db = (Ok cs, db') \<and> map ci_name cs = names \<and> map ci_document_count cs = map k names \<and> same_view db db'"
  using assms
proof (induction names arbitrary: db)
  case Nil
  then show ?case by (simp add: same_view_def same_store_refl)
next
  case (Cons name names)
  obtain cm where "hm_get (md_collections (db_metadata db)) name = Some cm" "counted E (db_pager db) (snapshot_of db) cm (k name)" using Cons.prems(2) by auto
  then obtain c db1 where c: "collection_stats E name db = (Ok c, db1)" "ci_name c = name" "ci_document_count c = k name" "same_view db db1"
    using collection_stats_spec Cons.prems(1) by blast
  have v: "store_ok (db_pager db1)" "db_metadata db1 = db_metadata db" "snapshot_of db1 = snapshot_of db" "same_store (db_pager db) (db_pager db1)"
    using c(4) by (auto simp: same_view_def same_store_def)
  have "\<exists>cm. hm_get (md_collections (db_metadata db1)) x = Some cm \<and> counted E (db_pager db1) (snapshot_of db1) cm (k x)" if "x \<in> set names" for x
    using Cons.prems(2) [of x] that v counted_same_store by fastforce
  then obtain cs db2 where "all_stats E names db1 = (Ok cs, db2)" "map ci_name cs = names" "map ci_document_count cs = map k names" "same_view db1 db2"
    using Cons.IH [OF v(1)] by blast
  moreover have "same_view db db2" using c(4) calculation(4) same_store_trans unfolding same_view_def by metis
  ultimately show ?case using c by auto
qed

text \<open>What a collection leaves of the chains.\<close>

definition kept_chain :: "tx_id \<Rightarrow> version_chain \<Rightarrow> version_chain" where
  "kept_chain oldest c = c\<lparr>vc_versions := filter (gc_keeps oldest) (vc_versions c)\<rparr>"

lemma chain_gc_kept: "snd (chain_garbage_collect oldest c) = kept_chain oldest c"
  by (simp add: chain_gc_eq kept_chain_def)

lemma gc_chains_eq: "gc_chains oldest cs st = (Ok cs', st') \<Longrightarrow> cs' = map (\<lambda>(i, c). (i, kept_chain oldest c)) cs"
proof (induction cs arbitrary: st cs')
  case (Cons e cs)
  obtain i c where e: "e = (i, c)" by (cases e)
  obtain removed c' where g: "chain_garbage_collect oldest c = (removed, c')" by (cases "chain_garbage_collect oldest c")
  then have "c' = kept_chain oldest c" using chain_gc_kept [of oldest c] by simp
  then show ?case using Cons e g by (auto simp: and_then_Ok_iff)
qed simp

lemma gc_collections_eq:
  "gc_collections oldest m st = (Ok m', st') \<Longrightarrow> m' = map (\<lambda>(name, cs). (name, retain_chains (map (\<lambda>(i, c). (i, kept_chain oldest c)) cs))) m"
proof (induction m arbitrary: st m')
  case (Cons e m)
  obtain name cs where e: "e = (name, cs)" by (cases e)
  then obtain x st1 m1 where x: "gc_chains oldest cs st = (Ok x, st1)" "gc_collections oldest m st1 = (Ok m1, st')" "m' = (name, retain_chains x) # m1"
    using Cons.prems by (auto simp: and_then_Ok_iff)
  show ?case using Cons.IH [OF x(2)] gc_chains_eq [OF x(1)] x(3) e by simp
qed simp

lemma map_of_filter: "distinct (map fst m) \<Longrightarrow> map_of (filter (\<lambda>(_, v). P v) m) k = (case map_of m k of Some v \<Rightarrow> if P v then Some v else None | None \<Rightarrow> None)"
proof (induction m)
  case (Cons e m)
  have "map_of (filter (\<lambda>(_, v). P v) m) (fst e) = None" using Cons.prems by (auto simp: map_of_eq_None_iff)
  then show ?case using Cons by (cases e) (auto split: option.splits)
qed simp

lemma map_of_mapped: "map_of (map (\<lambda>(k, v). (k, f v)) m) k = map_option f (map_of m k)"
  by (induction m) auto

lemma fst_mapped: "map fst (map (\<lambda>(k, v). (k, f v)) m) = map fst m"
  by (induction m) auto

text \<open>The state in which the next attempt begins, after a conflict.\<close>

definition wait_after :: "transaction_config \<Rightarrow> 'n surroundings \<Rightarrow> nat \<Rightarrow> 'n database \<Rightarrow> 'n database" where
  "wait_after cfg sr attempt db = (if backoff_ms cfg attempt > 0 then sr_slept sr (backoff_ms cfg attempt) db else db)"

text \<open>\<open>ds\<close> are the states in which the attempts from number \<open>a\<close> on begin; the first \<open>n\<close> of them end in a conflict.\<close>

definition conflicting_attempts ::
    "'n env \<Rightarrow> (nat \<Rightarrow> 'n surroundings) \<Rightarrow> ('n tx_db \<Rightarrow> 'a res \<times> 'n tx_db) \<Rightarrow> transaction_config \<Rightarrow> nat \<Rightarrow> nat \<Rightarrow> (nat \<Rightarrow> 'n database) \<Rightarrow> bool" where
  "conflicting_attempts E sr f cfg a n ds \<longleftrightarrow>
     (\<forall>i < n. \<exists>d. run_attempt E (sr (a + i)) f (ds i) = (Conflicted, d) \<and> ds (Suc i) = wait_after cfg (sr (a + i)) (a + i) d)"

lemma run_attempts_outcome:
  assumes "retries \<le> tc_max_retries cfg" "a = tc_max_retries cfg - retries"
  shows "\<exists>n ds. ds 0 = db \<and> n \<le> retries \<and> conflicting_attempts E sr f cfg a n ds \<and>
    run_attempts E sr f cfg retries db =
      (case run_attempt E (sr (a + n)) f (ds n) of (Done r, d) \<Rightarrow> (Some r, d) | (Unfinished, d) \<Rightarrow> (None, d) | (Conflicted, d) \<Rightarrow> (Some (Err TxConflict), d)) \<and>
    (fst (run_attempt E (sr (a + n)) f (ds n)) = Conflicted \<longrightarrow> n = retries)"
  using assms
proof (induction retries arbitrary: a db)
  case 0
  show ?case by (rule exI [of _ 0], rule exI [of _ "\<lambda>_. db"])
    (use 0 in \<open>simp add: conflicting_attempts_def Let_def split: prod.split attempt.split\<close>)
next
  case (Suc left)
  obtain x d where r: "run_attempt E (sr a) f db = (x, d)" by (cases "run_attempt E (sr a) f db")
  show ?case
  proof (cases "x = Conflicted")
    case False
    show ?thesis by (rule exI [of _ 0], rule exI [of _ "\<lambda>_. db"])
      (use False r Suc.prems in \<open>cases x; simp add: conflicting_attempts_def Let_def\<close>)
  next
    case True
    let ?db = "wait_after cfg (sr a) a d"
    have next_a: "Suc a = tc_max_retries cfg - left" "left \<le> tc_max_retries cfg" using Suc.prems by auto
    have step: "run_attempts E sr f cfg (Suc left) db = run_attempts E sr f cfg left ?db"
      using r True Suc.prems by (subst run_attempts.simps) (simp add: Let_def wait_after_def)
    from Suc.IH [OF next_a(2,1), of ?db] obtain n ds where n: "ds 0 = ?db" "n \<le> left" "conflicting_attempts E sr f cfg (Suc a) n ds"
      "run_attempts E sr f cfg left ?db = (case run_attempt E (sr (Suc a + n)) f (ds n) of (Done r, d) \<Rightarrow> (Some r, d) | (Unfinished, d) \<Rightarrow> (None, d)
         | (Conflicted, d) \<Rightarrow> (Some (Err TxConflict), d))"
      "fst (run_attempt E (sr (Suc a + n)) f (ds n)) = Conflicted \<longrightarrow> n = left" by blast
    have "conflicting_attempts E sr f cfg a (Suc n) (case_nat db ds)"
      using n(1,3) r True by (auto simp: conflicting_attempts_def less_Suc_eq_0_disj)
    then show ?thesis using n(2,4,5) step by (intro exI [of _ "Suc n"] exI [of _ "case_nat db ds"]) simp
  qed
qed

text \<open>What a version needs to be seen, and what a collection leaves of it.\<close>

definition versions_of :: "version_chain by_doc \<Rightarrow> string \<Rightarrow> string \<Rightarrow> document_version list" where
  "versions_of vcs c i = (case doc_get vcs c i of Some ch \<Rightarrow> vc_versions ch | None \<Rightarrow> [])"

definition well_stamped :: "document_version \<Rightarrow> bool" where
  "well_stamped v \<longleftrightarrow> dv_xmax v = 0 \<or> dv_xmin v < dv_xmax v"

text \<open>Some snapshot that is at most one older than \<open>h\<close> shows the version.\<close>

definition seen_from :: "tx_id \<Rightarrow> document_version \<Rightarrow> bool" where
  "seen_from h v \<longleftrightarrow> (\<exists>s. unat h \<le> unat s + 1 \<and> dv_is_visible v s)"

lemma gc_keeps_seen: "well_stamped v \<Longrightarrow> gc_keeps h v \<longleftrightarrow> seen_from h v"
proof -
  assume w: "well_stamped v"
  show ?thesis
  proof
    assume k: "gc_keeps h v"
    show "seen_from h v"
    proof (cases "dv_xmax v = 0")
      case True
      have "unat h \<le> unat (- 1 :: tx_id)" unfolding word_le_nat_alt [symmetric] by (rule word_order.extremum)
      then show ?thesis using True unfolding seen_from_def dv_is_visible_def by (intro exI [of _ "- 1"]) (simp add: word_order.extremum)
    next
      case False
      have x: "dv_xmin v < dv_xmax v" using w False by (simp add: well_stamped_def)
      then have "h \<le> dv_xmax v" using k by (auto simp: gc_keeps_def)
      have s: "unat (dv_xmax v - 1) = unat (dv_xmax v) - 1" using False by (simp add: unat_minus_one)
      have "unat (dv_xmax v) \<noteq> 0" using False by (simp add: unat_eq_zero)
      then have "unat h \<le> unat (dv_xmax v - 1) + 1" "dv_xmin v \<le> dv_xmax v - 1" "dv_xmax v - 1 < dv_xmax v"
        using s x \<open>h \<le> dv_xmax v\<close> by (auto simp: word_le_nat_alt word_less_nat_alt)
      then show ?thesis unfolding seen_from_def dv_is_visible_def by (intro exI [of _ "dv_xmax v - 1"]) (auto simp: not_less)
    qed
  next
    assume "seen_from h v"
    then show "gc_keeps h v" using w by (auto simp: seen_from_def gc_keeps_def dv_is_visible_def well_stamped_def word_le_nat_alt word_less_nat_alt split: if_splits)
  qed
qed

lemma visible_kept:
  assumes "h \<le> s" "\<forall>v \<in> set vs. well_stamped v"
  shows "filter (\<lambda>v. dv_is_visible v s) (filter (seen_from h) vs) = filter (\<lambda>v. dv_is_visible v s) vs"
proof -
  have "seen_from h v" if "dv_is_visible v s" for v using that assms(1) unfolding seen_from_def word_le_nat_alt by (meson le_SucI Suc_eq_plus1 le_trans le_add1)
  then show ?thesis by (auto simp: intro: filter_cong)
qed

subsection \<open>Properties\<close>

text \<open>
  C26: The information about a database lists every collection once, in the order of the names, with the number of documents that the snapshot of the last commit shows, and the total is their sum.
  The collections are empty, or their leaves form a chain without an empty leaf, as insertions leave it; behind an empty leaf that a deletion has left, documents are not counted.
\<close>

theorem info_complete:
  assumes "hm_ok (md_collections (db_metadata db))" "store_ok (db_pager db)"
    and "\<And>name cm. hm_get (md_collections (db_metadata db)) name = Some cm \<Longrightarrow> counted E (db_pager db) (snapshot_of db) cm (k name)"
  shows "\<exists>i db'. db_info E db = (Ok i, db') \<and> sorted_wrt (<) (list_collections db) \<and> set (list_collections db) = fst ` set (md_collections (db_metadata db)) \<and>
    map (\<lambda>c. (ci_name c, ci_document_count c)) (di_collections i) = map (\<lambda>name. (name, k name)) (list_collections db) \<and>
    di_total_documents i = sum_list (map (\<lambda>e. k (fst e)) (md_collections (db_metadata db)))"
proof -
  let ?names = "map fst (md_collections (db_metadata db))"
  have "\<exists>cm. hm_get (md_collections (db_metadata db)) name = Some cm \<and> counted E (db_pager db) (snapshot_of db) cm (k name)" if "name \<in> set ?names" for name
    using assms(3) that hm_keys [of "md_collections (db_metadata db)" name] by auto
  then obtain cs db' where cs: "all_stats E ?names db = (Ok cs, db')" "map ci_name cs = ?names" "map ci_document_count cs = map k ?names"
    using all_stats_spec [OF assms(2), of ?names E k] by blast
  let ?cs = "sort_by (\<lambda>a b. cmp (ci_name a) (ci_name b)) cs"
  have "map ci_document_count cs = map (\<lambda>c. k (ci_name c)) cs" using cs(3) unfolding cs(2) [symmetric] by simp
  then have "ci_document_count c = k (ci_name c)" if "c \<in> set ?cs" for c using that by (simp add: set_sort_by)
  then have "map (\<lambda>c. (ci_name c, ci_document_count c)) ?cs = map (\<lambda>name. (name, k name)) (map ci_name ?cs)" by simp
  moreover have "map ci_name ?cs = list_collections db" using sort_by_map [of ci_name cmp cs] cs(2) by (simp add: list_collections_def)
  ultimately show ?thesis using cs list_collections_sorted [OF assms(1)] by (simp add: db_info_def comp_def)
qed

lemma garbage_collect_chains:
  assumes "db_garbage_collect db = (Ok stats, db')" "hm_ok (db_version_chains db)" "\<And>docs. docs \<in> snd ` set (db_version_chains db) \<Longrightarrow> hm_ok docs"
  shows "doc_get (db_version_chains db') c i =
      (case doc_get (db_version_chains db) c i of
         Some ch \<Rightarrow> let kept = kept_chain (get_oldest_active_transaction (db_tx_manager db)) ch in if vc_versions kept = [] then None else Some kept
       | None \<Rightarrow> None)"
proof -
  let ?o = "get_oldest_active_transaction (db_tx_manager db)"
  let ?g = "\<lambda>cs. retain_chains (map (\<lambda>(i, c). (i, kept_chain ?o c)) cs)"
  obtain m n s where g: "gc_collections ?o (db_version_chains db) (0, db_pager db) = (Ok m, n, s)" "db_version_chains db' = filter (\<lambda>(_, docs). docs \<noteq> []) m"
    using assms(1) by (auto simp: db_garbage_collect_def const_defs split: if_splits prod.splits res.splits)
  have m: "m = map (\<lambda>(name, cs). (name, ?g cs)) (db_version_chains db)" by (rule gc_collections_eq [OF g(1)])
  have "map fst m = map fst (db_version_chains db)" unfolding m by (rule fst_mapped)
  then have "distinct (map fst m)" using assms(2) by simp
  then have c: "map_of (db_version_chains db') c = (case map_of (db_version_chains db) c of Some cs \<Rightarrow> if ?g cs \<noteq> [] then Some (?g cs) else None | None \<Rightarrow> None)"
    using map_of_filter [of m "\<lambda>docs. docs \<noteq> []" c] map_of_mapped [of ?g "db_version_chains db" c] g(2) m by (simp split: option.split)
  have d: "map_of (?g cs) i = (case map_of cs i of Some ch \<Rightarrow> if vc_versions (kept_chain ?o ch) = [] then None else Some (kept_chain ?o ch) | None \<Rightarrow> None)"
    if "map_of (db_version_chains db) c = Some cs" for cs
  proof -
    have "hm_ok cs" using assms(3) map_of_SomeD [OF that] by force
    then have "hm_ok (map (\<lambda>(i, c). (i, kept_chain ?o c)) cs)" unfolding fst_mapped .
    then show ?thesis using map_of_filter [of "map (\<lambda>(i, c). (i, kept_chain ?o c)) cs" "\<lambda>ch. get_versions ch \<noteq> []" i]
        map_of_mapped [of "kept_chain ?o" cs i]
      by (simp add: retain_chains_def get_versions_def split: option.split)
  qed
  have "map_of (?g cs) i = None" if "?g cs = []" for cs using that by simp
  then show ?thesis using c d by (auto simp: doc_get_def Let_def split: option.split)
qed

text \<open>
  C25: A garbage collection leaves, of the versions of every document, exactly those that some snapshot sees which is at most one older than the oldest snapshot of a running transaction, in their
  order; so a running transaction sees the same versions as before. A document of which nothing is left has no chain. It holds for versions that were superseded by a transaction with a larger id.
\<close>

theorem garbage_collect_effect:
  assumes "db_garbage_collect db = (Ok stats, db')" "hm_ok (db_version_chains db)" "\<forall>docs \<in> snd ` set (db_version_chains db). hm_ok docs"
    and "\<forall>v \<in> set (versions_of (db_version_chains db) c i). well_stamped v"
  shows "versions_of (db_version_chains db') c i =
      filter (seen_from (get_oldest_active_transaction (db_tx_manager db))) (versions_of (db_version_chains db) c i) \<and>
    (doc_get (db_version_chains db') c i = None \<longleftrightarrow> versions_of (db_version_chains db') c i = []) \<and>
    (\<forall>info \<in> snd ` set (tm_active_txs (db_tx_manager db)).
       filter (\<lambda>v. dv_is_visible v (ti_start_time info)) (versions_of (db_version_chains db') c i) =
       filter (\<lambda>v. dv_is_visible v (ti_start_time info)) (versions_of (db_version_chains db) c i))"
proof -
  let ?h = "get_oldest_active_transaction (db_tx_manager db)" and ?vs = "versions_of (db_version_chains db) c i"
  note g = garbage_collect_chains [OF assms(1,2), of c i]
  have k: "filter (gc_keeps ?h) ?vs = filter (seen_from ?h) ?vs" using assms(4) gc_keeps_seen by (intro filter_cong) auto
  have "versions_of (db_version_chains db') c i = filter (gc_keeps ?h) ?vs" "doc_get (db_version_chains db') c i = None \<longleftrightarrow> versions_of (db_version_chains db') c i = []"
    using g assms(3) by (auto simp: versions_of_def kept_chain_def Let_def split: option.split)
  then show ?thesis using visible_kept [of ?h _ ?vs] oldest_le [of _ "db_tx_manager db"] assms(4) unfolding k by auto
qed

text \<open>
  C27: A transaction function is run again after every conflict, from the state that the wait leaves, and at most as often as configured: there are attempts with a conflict and then the one that
  decides. Its result is the result of the whole if it has no conflict; a conflict is the result only when no retry is left.
\<close>

theorem run_transaction_retries:
  "\<exists>n ds. ds 0 = db \<and> n \<le> tc_max_retries (db_tx_config db) \<and> conflicting_attempts E sr f (db_tx_config db) 0 n ds \<and>
    run_transaction E sr f db =
      (case run_attempt E (sr n) f (ds n) of (Done r, d) \<Rightarrow> (Some r, d) | (Unfinished, d) \<Rightarrow> (None, d) | (Conflicted, d) \<Rightarrow> (Some (Err TxConflict), d)) \<and>
    (fst (run_attempt E (sr n) f (ds n)) = Conflicted \<longrightarrow> n = tc_max_retries (db_tx_config db))"
  using run_attempts_outcome [of "tc_max_retries (db_tx_config db)" "db_tx_config db" 0 db E sr f] by (simp add: run_transaction_def del: run_attempts.simps)

subsection \<open>Witnesses\<close>

theorem info_complete_witness:
  "\<exists>db i db'. sample_collection_db db \<and> db_info length_env db = (Ok i, db') \<and>
    map (\<lambda>c. (ci_name c, ci_document_count c)) (di_collections i) = [(''c'', 1)] \<and> di_total_documents i = 1"
proof -
  obtain db cm t p where c: "sample_collection_db db" "hm_get (md_collections (db_metadata db)) ''c'' = Some cm"
    "collection_at 1 (cm_btree_root cm) t (\<lambda>_. sample_version) (db_pager db)" "leaf_entries (leaves t) = [\<lparr>en_key = ''a'', en_value = p\<rparr>]"
    "vd_is_visible sample_version (snapshot_of db)" by (rule sample_collection_database)
  have m: "md_collections (db_metadata db) = [(''c'', cm)]"
    using c(1,2) by (auto simp: sample_collection_db_def sample_database_def database_with_def set_root_def get_collection_def metadata_new_def)
  have "snapshot_docs t (\<lambda>_. sample_version) (snapshot_of db) = [sample_version]" using c(4,5) by (simp add: snapshot_docs_def)
  then have k: "counted length_env (db_pager db) (snapshot_of db) cm 1" unfolding counted_def
    using c(3,4) by (intro disjI2 exI [of _ 1] exI [of _ t] exI [of _ "\<lambda>_. sample_version"]) (simp add: length_env_def sample_env_def)
  have st: "store_ok (db_pager db)" using c(3) by (simp add: collection_at_def tree_rep_def)
  have "list_collections db = [''c'']" using m by (simp add: list_collections_def sort_by_def)
  moreover have "hm_ok (md_collections (db_metadata db))" using m by simp
  moreover have "counted length_env (db_pager db) (snapshot_of db) cm' 1" if "hm_get (md_collections (db_metadata db)) name = Some cm'" for name cm'
    using that m k by (simp split: if_splits)
  ultimately obtain i db' where "db_info length_env db = (Ok i, db')" "map (\<lambda>c. (ci_name c, ci_document_count c)) (di_collections i) = [(''c'', 1)]"
    "di_total_documents i = 1" using info_complete [of db length_env "\<lambda>_. 1"] st m by auto
  then show ?thesis using c(1) by (intro exI [of _ db] exI [of _ i] exI [of _ db']) simp
qed

text \<open>A document with a version that was superseded before the oldest snapshot and a current one.\<close>

definition sample_versions :: "page_num \<Rightarrow> document_version list" where
  "sample_versions p = [\<lparr>dv_doc_id = ''a'', dv_xmin = 1, dv_xmax = 3, dv_data = [], dv_page_num = p\<rparr>, \<lparr>dv_doc_id = ''a'', dv_xmin = 3, dv_xmax = 0, dv_data = [], dv_page_num = 9\<rparr>]"

definition sample_manager :: transaction_manager where
  "sample_manager = \<lparr>tm_next_tx_id = 8, tm_last_committed_tx_id = 6, tm_active_txs = [(7, \<lparr>ti_id = 7, ti_start_time = 5, ti_status = Active\<rparr>)]\<rparr>"

theorem garbage_collect_effect_witness:
  "\<exists>s p d s' tw w stats db'. pager_open None 10 False = Ok s \<and> write_versioned_document ''a'' [] 1 0 (s, []) = (Ok (p, d), s', tw) \<and> wal_open None 1 2 = Ok w \<and>
    db_garbage_collect ((sample_database s w metadata_new)\<lparr>db_pager := s', db_tx_manager := sample_manager,
      db_version_chains := [(''c'', [(''a'', \<lparr>vc_doc_id = ''a'', vc_versions = sample_versions p\<rparr>)])]\<rparr>) = (Ok stats, db') \<and>
    gs_pages_freed stats = 1 \<and> versions_of (db_version_chains db') ''c'' ''a'' = tl (sample_versions p)"
proof -
  obtain s where s: "pager_open None 10 False = Ok s" "store_ok s" "room 1000000 s" using new_store [of 10] by auto
  have r: "room (pages_needed []) s" using s(3) by (rule room_mono) (simp add: pages_needed_def const_defs)
  have i: "id_ok ''a''" by (simp add: id_ok_def rust_string_def as_bytes_def)
  obtain p d s' tw s'' where p: "write_versioned_document ''a'' [] 1 0 (s, []) = (Ok (p, d), s', tw)" "delete_document p s' = (Ok (), s'')"
    using delete_versioned_frees [OF s(2) r i, of 1 0 "[]"] by auto
  obtain w where w: "wal_open None 1 2 = Ok w" using wal_open_new by blast
  define db where "db = (sample_database s w metadata_new)\<lparr>db_pager := s', db_tx_manager := sample_manager,
    db_version_chains := [(''c'', [(''a'', \<lparr>vc_doc_id = ''a'', vc_versions = sample_versions p\<rparr>)])]\<rparr>"
  have h: "get_oldest_active_transaction (db_tx_manager db) = 5"
    by (simp add: db_def sample_manager_def get_oldest_active_transaction_def)
  have vs: "versions_of (db_version_chains db) ''c'' ''a'' = sample_versions p" by (simp add: db_def versions_of_def doc_get_def)
  have g: "chain_garbage_collect 5 \<lparr>vc_doc_id = ''a'', vc_versions = sample_versions p\<rparr> =
      ([hd (sample_versions p)], \<lparr>vc_doc_id = ''a'', vc_versions = tl (sample_versions p)\<rparr>)"
    by (simp add: chain_gc_eq sample_versions_def gc_keeps_def word_le_nat_alt)
  have "db_read_only db = False" "db_pager db = s'" by (simp_all add: db_def sample_database_def database_with_def database_options_default_def)
  then obtain stats db' where d: "db_garbage_collect db = (Ok stats, db')" "gs_pages_freed stats = 1"
    using h g p(2) by (simp add: db_garbage_collect_def) (simp add: db_def sample_versions_def)
  have "versions_of (db_version_chains db') ''c'' ''a'' = filter (seen_from 5) (sample_versions p)"
    using garbage_collect_effect [OF d(1), of "''c''" "''a''"] unfolding vs h by (simp add: db_def sample_versions_def well_stamped_def)
  also have "\<dots> = filter (gc_keeps 5) (sample_versions p)" by (intro filter_cong) (auto simp: gc_keeps_seen sample_versions_def well_stamped_def)
  also have "\<dots> = tl (sample_versions p)" by (simp add: sample_versions_def gc_keeps_def word_le_nat_alt)
  finally show ?thesis using s(1) p(1) w d unfolding db_def by blast
qed

text \<open>Another leader serves both requests of the thread: the first one with a conflict, the second one with success.\<close>

definition served_twice :: "nat \<Rightarrow> nat surroundings" where
  "served_twice n = \<lparr>sr_queued = \<lambda>db. db\<lparr>db_pending_writes := [], db_completions := [(word_of_nat n + 1, if n = 0 then Err TxConflict else Ok ())]\<rparr>,
     sr_rounds = \<lambda>_. quiet_round, sr_slept = \<lambda>_. id\<rparr>"

definition write_one_page :: "nat tx_db \<Rightarrow> nat res \<times> nat tx_db" where
  "write_one_page st = (case st of (tx, db) \<Rightarrow> case tx_write_page 5 [] tx of (_, tx) \<Rightarrow> (Ok 5, tx, db))"

lemma served_attempt:
  assumes "tm_next_tx_id (db_tx_manager db) = word_of_nat n + 1" "bc_enabled (db_batch_config db)"
  shows "\<exists>d. run_attempt sample_env (served_twice n) write_one_page db = ((if n = 0 then Conflicted else Done (Ok 5)), d) \<and>
    tm_next_tx_id (db_tx_manager d) = word_of_nat n + 2 \<and> bc_enabled (db_batch_config d)"
proof -
  obtain tx d where b: "db_begin db = (tx, d)" by (cases "db_begin db")
  have tx: "tx_mvcc_tx_id tx = word_of_nat n + 1" "tx_state tx = TxActive" "tm_next_tx_id (db_tx_manager d) = word_of_nat n + 2" "bc_enabled (db_batch_config d)"
    using b assms by (auto simp: db_begin_def transaction_new_def begin_transaction_def fetch_tx_id_def insert_active_def Let_def split: prod.splits)
  then show ?thesis using b
    by (simp add: run_attempt_def write_one_page_def tx_write_page_def is_active_def commit_def commit_batched_def served_twice_def hm_contains_def take_completion_def
        drop_transaction_def abort_transaction_def set_tx_status_def Let_def split: option.split)
qed

theorem run_transaction_retries_witness:
  "\<exists>s w db'. pager_open None 10 False = Ok s \<and> wal_open None 1 2 = Ok w \<and>
    fst (run_attempt sample_env (served_twice 0) write_one_page (sample_database s w metadata_new)) = Conflicted \<and>
    run_transaction sample_env served_twice write_one_page (sample_database s w metadata_new) = (Some (Ok 5), db')"
proof -
  obtain s where s: "pager_open None 10 False = Ok s" using new_pager by blast
  obtain w where w: "wal_open None 1 2 = Ok w" using wal_open_new by blast
  let ?db = "sample_database s w metadata_new" and ?run = "\<lambda>i. run_attempt sample_env (served_twice i) write_one_page"
  have c: "tm_next_tx_id (db_tx_manager ?db) = word_of_nat 0 + 1" "bc_enabled (db_batch_config ?db)" "tc_max_retries (db_tx_config ?db) \<noteq> 0"
    by (simp_all add: sample_database_def database_with_def tm_new_def batch_config_default_def transaction_config_default_def)
  obtain d1 where d1: "?run 0 ?db = (Conflicted, d1)" "tm_next_tx_id (db_tx_manager d1) = word_of_nat 1 + 1" "bc_enabled (db_batch_config d1)"
    using served_attempt [OF c(1,2)] by auto
  obtain d2 where d2: "?run 1 d1 = (Done (Ok 5), d2)" using served_attempt [OF d1(2,3)] by auto
  obtain n ds where n: "ds 0 = ?db" "conflicting_attempts sample_env served_twice write_one_page (db_tx_config ?db) 0 n ds"
    "run_transaction sample_env served_twice write_one_page ?db =
      (case ?run n (ds n) of (Done r, d) \<Rightarrow> (Some r, d) | (Unfinished, d) \<Rightarrow> (None, d) | (Conflicted, d) \<Rightarrow> (Some (Err TxConflict), d))"
    "fst (?run n (ds n)) = Conflicted \<longrightarrow> n = tc_max_retries (db_tx_config ?db)"
    using run_transaction_retries [of ?db sample_env served_twice write_one_page] by blast
  have "n \<noteq> 0"
  proof
    assume "n = 0"
    then show False using n(1,4) d1(1) c(3) by simp
  qed
  then have one: "ds 1 = d1" using n(1,2) d1(1) by (auto simp: conflicting_attempts_def wait_after_def served_twice_def)
  have "n = 1"
  proof (rule ccontr)
    assume "n \<noteq> 1"
    then have "1 < n" using \<open>n \<noteq> 0\<close> by simp
    then have "fst (?run 1 (ds 1)) = Conflicted" using n(2) unfolding conflicting_attempts_def by (metis add.left_neutral fst_conv)
    then show False using one d2 by simp
  qed
  then show ?thesis using s w d1(1) n(3) one d2 by (intro exI [of _ s] exI [of _ w] exI [of _ d2]) simp
qed

end
