(* ===== verification/Text_Search.thy ===== *)
theory Text_Search
  imports Database
begin

text \<open>
  \<open>src/core/text_search.rs\<close>: the inverted index for full-text search, with \<open>create_text_index\<close> of \<open>src/core/database.rs\<close> and \<open>search\<close> of \<open>src/core/collection.rs\<close>.

  \<open>text_env\<close> holds what comes from outside: the word segmentation of the package \<open>unicode_segmentation\<close>, the lower case of Unicode, the JSON text of a posting list and the arithmetic of \<open>f32\<close>.
\<close>

subsection \<open>Specification\<close>

record 'f text_env =
  te_unicode_words :: "ustring \<Rightarrow> ustring list"
  te_to_lowercase :: "ustring \<Rightarrow> ustring"
  te_to_vec :: "(string, 'f) hmap \<Rightarrow> bytes option"
  te_from_slice :: "bytes \<Rightarrow> (string, 'f) hmap option"
  te_zero :: 'f
  te_one :: 'f
  te_add :: "'f \<Rightarrow> 'f \<Rightarrow> 'f"
  te_mul :: "'f \<Rightarrow> 'f \<Rightarrow> 'f"
  te_div :: "'f \<Rightarrow> 'f \<Rightarrow> 'f"
  te_ln :: "'f \<Rightarrow> 'f"
  te_of_nat :: "nat \<Rightarrow> 'f"
  te_partial_cmp :: "'f \<Rightarrow> 'f \<Rightarrow> ordering option"

definition tokenize_text :: "'f text_env \<Rightarrow> ustring \<Rightarrow> ustring list" where
  "tokenize_text T txt = filter (\<lambda>word. length (utf8 word) > 1) (map (te_to_lowercase T) (te_unicode_words T txt))"

text \<open>\<open>*map.entry(k).or_insert(0.0) += x\<close>\<close>

definition add_at :: "'f text_env \<Rightarrow> 'k \<Rightarrow> 'f \<Rightarrow> ('k, 'f) hmap \<Rightarrow> ('k, 'f) hmap" where
  "add_at T k x m = hm_insert k (te_add T (case hm_get m k of Some y \<Rightarrow> y | None \<Rightarrow> te_zero T) x) m"

definition calculate_term_frequency :: "'f text_env \<Rightarrow> ustring list \<Rightarrow> (ustring, 'f) hmap" where
  "calculate_term_frequency T tokens =
     (let total = te_of_nat T (length tokens);
          counts = fold (\<lambda>token. add_at T token (te_one T)) tokens []
      in map (\<lambda>(k, n). (k, te_div T n total)) counts)"

definition calculate_idf :: "'f text_env \<Rightarrow> nat \<Rightarrow> nat \<Rightarrow> 'f" where
  "calculate_idf T total_docs docs_with_term =
     (if docs_with_term = 0 then te_zero T else te_ln T (te_div T (te_of_nat T total_docs) (te_of_nat T docs_with_term)))"

definition term_key :: "ustring \<Rightarrow> ustring \<Rightarrow> string" where
  "term_key t field = utf8 (t @ us '':'' @ field)"

text \<open>The posting list on a page; one that cannot be parsed counts as empty.\<close>

definition read_postings :: "'f text_env \<Rightarrow> page_num \<Rightarrow> bt_state \<Rightarrow> (string, 'f) hmap res \<times> bt_state" where
  "read_postings T page_num st =
     and_then (on_tree_pager (read_page page_num) st) (\<lambda>page st.
     (Ok (case te_from_slice T (trim_zeros page) of Some m \<Rightarrow> m | None \<Rightarrow> []), st))"

definition write_data :: "bytes \<Rightarrow> bt_state \<Rightarrow> page_num res \<times> bt_state" where
  "write_data data st =
     and_then (on_tree_pager alloc_page st) (\<lambda>page_num st.
     if length data > PAGE_SIZE then (Err (Other ''text index data too large for page''), st)
     else and_then (on_tree_pager (pager_write_page page_num (pad_page data)) st) (\<lambda>_ st. (Ok page_num, st)))"

definition store_postings :: "'f text_env \<Rightarrow> nat \<Rightarrow> string \<Rightarrow> (string, 'f) hmap \<Rightarrow> bt_state \<Rightarrow> unit res \<times> bt_state" where
  "store_postings T fuel key postings st =
     and_then ((case te_to_vec T postings of Some d \<Rightarrow> Ok d | None \<Rightarrow> Err json_error), st) (\<lambda>data st.
     and_then (write_data data st) (\<lambda>page_num st. btree_insert fuel key page_num st))"

text \<open>\<open>if let Ok(page_num) = self.btree.search(&key)\<close>\<close>

definition postings_at :: "'f text_env \<Rightarrow> nat \<Rightarrow> string \<Rightarrow> bt_state \<Rightarrow> (string, 'f) hmap option res \<times> bt_state" where
  "postings_at T fuel key st =
     (case btree_search fuel key st of
        (Ok page_num, st) \<Rightarrow> and_then (read_postings T page_num st) (\<lambda>m st. (Ok (Some m), st))
      | (Err _, st) \<Rightarrow> (Ok None, st)
      | (Panic, st) \<Rightarrow> (Panic, st))"

definition index_term :: "'f text_env \<Rightarrow> nat \<Rightarrow> string \<Rightarrow> ustring \<Rightarrow> ustring \<times> 'f \<Rightarrow> bt_state \<Rightarrow> unit res \<times> bt_state" where
  "index_term T fuel doc_id field tf st =
     (let key = term_key (fst tf) field in
      and_then (postings_at T fuel key st) (\<lambda>postings st.
      store_postings T fuel key (hm_insert doc_id (snd tf) (case postings of Some m \<Rightarrow> m | None \<Rightarrow> [])) st))"

definition index_document :: "'f text_env \<Rightarrow> nat \<Rightarrow> ustring list \<Rightarrow> string \<Rightarrow> (ustring, ustring) hmap \<Rightarrow> bt_state \<Rightarrow> unit res \<times> bt_state" where
  "index_document T fuel fs doc_id texts st =
     for_each (\<lambda>field st.
       case hm_get texts field of
         Some txt \<Rightarrow> for_each (index_term T fuel doc_id field) (calculate_term_frequency T (tokenize_text T txt)) st
       | None \<Rightarrow> (Ok (), st)) fs st"

definition unindex_term :: "'f text_env \<Rightarrow> nat \<Rightarrow> string \<Rightarrow> ustring \<Rightarrow> ustring \<Rightarrow> bt_state \<Rightarrow> unit res \<times> bt_state" where
  "unindex_term T fuel doc_id field t st =
     (let key = term_key t field in
      and_then (postings_at T fuel key st) (\<lambda>postings st.
      case postings of
        None \<Rightarrow> (Ok (), st)
      | Some m \<Rightarrow>
          (let m = hm_remove doc_id m in
           if m = [] then btree_delete fuel key st else store_postings T fuel key m st)))"

definition remove_document :: "'f text_env \<Rightarrow> nat \<Rightarrow> ustring list \<Rightarrow> string \<Rightarrow> (ustring, ustring) hmap \<Rightarrow> bt_state \<Rightarrow> unit res \<times> bt_state" where
  "remove_document T fuel fs doc_id texts st =
     for_each (\<lambda>field st.
       case hm_get texts field of
         Some txt \<Rightarrow> for_each (unindex_term T fuel doc_id field) (remdups (tokenize_text T txt)) st
       | None \<Rightarrow> (Ok (), st)) fs st"

text \<open>The scores of one term in one field, added to those so far.\<close>

definition add_scores :: "'f text_env \<Rightarrow> 'f \<Rightarrow> (string, 'f) hmap \<Rightarrow> (string, 'f) hmap \<Rightarrow> (string, 'f) hmap" where
  "add_scores T idf postings scores = fold (\<lambda>(doc_id, tf). add_at T doc_id (te_mul T tf idf)) postings scores"

fun search_keys :: "'f text_env \<Rightarrow> nat \<Rightarrow> nat \<Rightarrow> string list \<Rightarrow> (string, 'f) hmap \<Rightarrow> bt_state \<Rightarrow> (string, 'f) hmap res \<times> bt_state" where
  "search_keys T fuel total_docs [] scores st = (Ok scores, st)"
| "search_keys T fuel total_docs (key # keys) scores st =
     and_then (postings_at T fuel key st) (\<lambda>postings st.
     search_keys T fuel total_docs keys
       (case postings of None \<Rightarrow> scores | Some m \<Rightarrow> add_scores T (calculate_idf T total_docs (length m)) m scores) st)"

definition compare_scores :: "'f text_env \<Rightarrow> string \<times> 'f \<Rightarrow> string \<times> 'f \<Rightarrow> ordering" where
  "compare_scores T a b = (case te_partial_cmp T (snd b) (snd a) of Some r \<Rightarrow> r | None \<Rightarrow> Equal)"

definition text_search :: "'f text_env \<Rightarrow> nat \<Rightarrow> ustring list \<Rightarrow> ustring \<Rightarrow> nat \<Rightarrow> bt_state \<Rightarrow> (string \<times> 'f) list res \<times> bt_state" where
  "text_search T fuel fs query total_docs st =
     (let query_terms = tokenize_text T query in
      if query_terms = [] then (Ok [], st)
      else
        and_then (search_keys T fuel total_docs (concat (map (\<lambda>t. map (term_key t) fs) query_terms)) [] st) (\<lambda>doc_scores st.
        (Ok (sort_by (compare_scores T) doc_scores), st)))"

subsubsection \<open>In the database\<close>

definition text_fields_of :: "(ustring \<times> 'n json) list \<Rightarrow> ustring list \<Rightarrow> (ustring, ustring) hmap" where
  "text_fields_of doc fs =
     fold (\<lambda>field m. case map_of doc field of Some v \<Rightarrow> (case as_str v of Some t \<Rightarrow> hm_insert field t m | None \<Rightarrow> m) | None \<Rightarrow> m) fs []"

definition index_text_entry :: "'n env \<Rightarrow> 'f text_env \<Rightarrow> ustring list \<Rightarrow> leaf_entry \<Rightarrow> bt_state \<Rightarrow> unit res \<times> bt_state" where
  "index_text_entry E T fs e st =
     (case on_tree_pager (read_versioned_document (en_value e) []) st of
        (Panic, st) \<Rightarrow> (Panic, st)
      | (Err _, st) \<Rightarrow> (Ok (), st)
      | (Ok vdoc, st) \<Rightarrow>
          (case from_slice_map E (vd_data vdoc) of
             Ok doc_map \<Rightarrow>
               (let texts = text_fields_of doc_map fs in
                if texts = [] then (Ok (), st) else index_document T (en_fuel E) fs (en_key e) texts st)
           | _ \<Rightarrow> (Ok (), st)))"

fun scan_btree_node_for_text_index :: "'n env \<Rightarrow> 'f text_env \<Rightarrow> nat \<Rightarrow> ustring list \<Rightarrow> page_num \<Rightarrow> bt_state \<Rightarrow> unit res \<times> bt_state" where
  "scan_btree_node_for_text_index E T 0 fs page_num st = (Panic, st)"
| "scan_btree_node_for_text_index E T (Suc fuel) fs page_num st =
     (if page_num = 0 then (Ok (), st)
      else
        and_then (on_tree_pager (read_page page_num) st) (\<lambda>page_data st.
        and_then (deserialize_node page_num page_data, st) (\<lambda>node st.
        if bn_node_type node = LeafNode then
          and_then (for_each (index_text_entry E T fs) (bn_entries node) st) (\<lambda>_ st.
          if bn_next_leaf node \<noteq> 0 then scan_btree_node_for_text_index E T fuel fs (bn_next_leaf node) st else (Ok (), st))
        else for_each (\<lambda>child st. scan_btree_node_for_text_index E T fuel fs child st) (bn_children node) st)))"

definition create_text_index :: "'n env \<Rightarrow> 'f text_env \<Rightarrow> ustring \<Rightarrow> string \<Rightarrow> ustring list \<Rightarrow> 'n database \<Rightarrow> unit res \<times> 'n database" where
  "create_text_index E T collection_name index_name fs db =
     (let name = utf8 collection_name in
      and_then (validate_collection_name (en_unicode E) collection_name, db) (\<lambda>_ db.
      if fs = [] then (Err (Other ''text index must have at least one field''), db)
      else if db_read_only db then (Err (Other ''cannot create text index: database is in read-only mode''), db)
      else
        and_then (checkpoint_now E db) (\<lambda>_ db.
        if (case hm_get (md_collections (db_metadata db)) name of Some cm \<Rightarrow> hm_contains (cm_text_indexes cm) index_name | None \<Rightarrow> False)
        then (Err (Other ''text index already exists on collection''), db)
        else
          and_then (db_on_pager btree_new db) (\<lambda>index_btree db.
          let coll_btree_root = collection_root (db_metadata db) name in
          case (if coll_btree_root \<noteq> 0
                then scan_btree_node_for_text_index E T (en_fuel E) fs coll_btree_root (index_btree, db_pager db)
                else (Ok (), index_btree, db_pager db)) of (r, index_btree, s) \<Rightarrow>
          and_then (r, db\<lparr>db_pager := s\<rparr>) (\<lambda>_ db.
          persist_metadata E (change_collection name (\<lambda>cm. cm\<lparr>cm_text_indexes := hm_insert index_name
            \<lparr>xm_name = index_name, xm_fields = fs, xm_btree_root = get_root_page index_btree\<rparr> (cm_text_indexes cm)\<rparr>) db))))))"

definition coll_search :: "'n env \<Rightarrow> 'f text_env \<Rightarrow> string \<Rightarrow> ustring \<Rightarrow> 'n database \<Rightarrow> (string \<times> 'f) list res \<times> 'n database" where
  "coll_search E T name query db =
     (case hm_get (md_collections (db_metadata db)) name of
        None \<Rightarrow> (Err (Other ''collection does not exist''), db)
      | Some cm \<Rightarrow>
          (case cm_text_indexes cm of
             [] \<Rightarrow> (Err (Other ''no text index exists on collection''), db)
           | (_, m) # _ \<Rightarrow>
               and_then (coll_count E name db) (\<lambda>total_docs db.
               case text_search T (en_fuel E) (xm_fields m) query total_docs (btree_open (xm_btree_root m), db_pager db) of
                 (r, _, s) \<Rightarrow> (r, db\<lparr>db_pager := s\<rparr>))))"

subsection \<open>Lemmas\<close>

lemma add_at_get: "hm_get (add_at T k x m) k' = (if k' = k then Some (te_add T (case hm_get m k of Some y \<Rightarrow> y | None \<Rightarrow> te_zero T) x) else hm_get m k')"
  by (simp add: add_at_def)

lemma add_at_ok: "hm_ok m \<Longrightarrow> hm_ok (add_at T k x m)"
  by (simp add: add_at_def)

lemma fold_ok: "(\<And>x m. hm_ok m \<Longrightarrow> hm_ok (f x m)) \<Longrightarrow> hm_ok m \<Longrightarrow> hm_ok (fold f xs m)"
  by (induction xs arbitrary: m) auto

text \<open>Adding one for every occurrence.\<close>

definition occurrences :: "'f text_env \<Rightarrow> nat \<Rightarrow> 'f" where
  "occurrences T n = ((\<lambda>x. te_add T x (te_one T)) ^^ n) (te_zero T)"

lemma fold_counts:
  assumes "hm_get m t = (if n = 0 then None else Some (occurrences T n))"
  shows "hm_get (fold (\<lambda>token. add_at T token (te_one T)) tokens m) t =
    (if n + count_list tokens t = 0 then None else Some (occurrences T (n + count_list tokens t)))"
  using assms
proof (induction tokens arbitrary: m n)
  case (Cons x tokens)
  let ?m = "add_at T x (te_one T) m" and ?n = "if x = t then Suc n else n"
  have "hm_get ?m t = (if ?n = 0 then None else Some (occurrences T ?n))" using Cons.prems by (auto simp: add_at_get occurrences_def)
  from Cons.IH [OF this] show ?case by (auto split: if_splits)
qed simp

lemma search_keys_ok: "search_keys T fuel total_docs keys scores st = (Ok rs, st') \<Longrightarrow> hm_ok scores \<Longrightarrow> hm_ok rs"
proof (induction keys arbitrary: scores st)
  case (Cons key keys)
  then obtain ps st1 where p: "postings_at T fuel key st = (Ok ps, st1)"
    "search_keys T fuel total_docs keys (case ps of None \<Rightarrow> scores | Some m \<Rightarrow> add_scores T (calculate_idf T total_docs (length m)) m scores) st1 = (Ok rs, st')"
    by (auto simp: and_then_Ok_iff)
  have "hm_ok (add_scores T x m scores)" for x m
    unfolding add_scores_def using Cons.prems(2) by (intro fold_ok) (auto simp: add_at_ok split: prod.split)
  then have "hm_ok (case ps of None \<Rightarrow> scores | Some m \<Rightarrow> add_scores T (calculate_idf T total_docs (length m)) m scores)" using Cons.prems(2) by (cases ps) auto
  from Cons.IH [OF p(2) this] show ?case .
qed simp

subsection \<open>Properties\<close>

text \<open>
  The frequency of a term is the number of its occurrences, counted up from zero, divided by the number of tokens; other terms have none.
\<close>

theorem term_frequency_correct:
  "hm_get (calculate_term_frequency T tokens) t =
   (if t \<in> set tokens then Some (te_div T (occurrences T (count_list tokens t)) (te_of_nat T (length tokens))) else None)"
proof -
  have "hm_get (calculate_term_frequency T tokens) t =
      map_option (\<lambda>n. te_div T n (te_of_nat T (length tokens))) (hm_get (fold (\<lambda>token. add_at T token (te_one T)) tokens []) t)"
    by (simp add: calculate_term_frequency_def map_of_mapped)
  then show ?thesis using fold_counts [of "[]" t 0 T tokens] count_list_0_iff [of tokens t] by (auto split: if_splits)
qed

text \<open>
  A search returns every document at most once, the higher scores first, for scores that can be compared.
\<close>

theorem search_ranked:
  assumes "text_search T fuel fs query total_docs st = (Ok rs, st')" "comparison (compare_scores T)"
  shows "ordered_by (compare_scores T) rs \<and> distinct (map fst rs)"
proof -
  obtain m where m: "hm_ok m" "rs = sort_by (compare_scores T) m"
  proof (cases "tokenize_text T query = []")
    case True
    then show thesis using assms(1) that [of "[]"] by (simp add: text_search_def sort_by_def)
  next
    case False
    then obtain m st1 where "search_keys T fuel total_docs (concat (map (\<lambda>t. map (term_key t) fs) (tokenize_text T query))) [] st = (Ok m, st1)" "rs = sort_by (compare_scores T) m"
      using assms(1) by (auto simp: text_search_def Let_def and_then_Ok_iff)
    then show thesis using that [of m] search_keys_ok [of T fuel total_docs _ "[]" st m st1] by simp
  qed
  have s: "mset rs = mset m" "ordered_by (compare_scores T) rs" using comparison.sort_by_stable [OF assms(2), of m] m(2) by (simp_all add: stable_sort_of_def)
  have "mset (map fst rs) = mset (map fst m)" using s(1) by simp
  then show ?thesis using s(2) m(1) mset_eq_imp_distinct_iff by blast
qed

text \<open>
  A document cannot be added to a term whose posting list then takes more than a page: the indexing fails, and a page stays allocated that nothing refers to.
\<close>

theorem long_postings_fail:
  assumes "postings_at T fuel (term_key t field) st = (Ok ps, bt, s)" "\<not> pg_read_only s"
    and "te_to_vec T (hm_insert doc_id tf (case ps of Some m \<Rightarrow> m | None \<Rightarrow> [])) = Some data" "length data > 4096"
  shows "\<exists>p s'. index_term T fuel doc_id field (t, tf) st = (Err (Other ''text index data too large for page''), bt, s') \<and> alloc_page s = (Ok p, s')"
proof -
  obtain x rest where x: "pop_free 0 (rev (pg_free_list s)) = (x, rest)" by (cases "pop_free 0 (rev (pg_free_list s))")
  obtain p s' where a: "alloc_page s = (Ok p, s')" using assms(2) x by (cases x) (simp_all add: alloc_page_def alloc_page_minimum_def)
  have "index_term T fuel doc_id field (t, tf) st = (Err (Other ''text index data too large for page''), bt, s')"
    using assms(1,3,4) a by (simp add: index_term_def store_postings_def write_data_def on_tree_pager_def PAGE_SIZE_def)
  then show ?thesis using a by blast
qed

subsection \<open>Witnesses\<close>

definition sample_text_env :: "nat text_env" where
  "sample_text_env = \<lparr>te_unicode_words = \<lambda>s. [s], te_to_lowercase = id, te_to_vec = \<lambda>_. Some (replicate 5000 1),
     te_from_slice = \<lambda>_. Some [(''x'', 1), (''y'', 2)], te_zero = 0, te_one = 1, te_add = (+), te_mul = (*), te_div = (div), te_ln = id,
     te_of_nat = id, te_partial_cmp = \<lambda>a b. Some (cmp a b)\<rparr>"

lemma sample_term_key: "term_key (us ''ab'') (us ''f'') = ''ab:f''"
  by code_simp

text \<open>An index with one term.\<close>

lemma sample_index:
  obtains s p d s0 w bt s1 st st2 where "pager_open None 10 False = Ok s" "write_versioned_document ''a'' [7] 0 0 (s, []) = (Ok (p, d), s0, w)"
    "btree_new s0 = (Ok bt, s1)" "btree_insert 1 ''ab:f'' p (bt, s1) = (Ok (), st)" "\<not> pg_read_only (snd st2)"
    "postings_at sample_text_env 1 ''ab:f'' (btree_open (get_root_page (fst st)), snd st) = (Ok (Some [(''x'', 1), (''y'', 2)]), st2)"
proof -
  have "tree_key ''ab:f''" by (simp add: tree_key_def rust_string_def as_bytes_def)
  then obtain s p d s0 w bt s1 st t where o: "pager_open None 10 False = Ok s" "write_versioned_document ''a'' [7] 0 0 (s, []) = (Ok (p, d), s0, w)"
    "btree_new s0 = (Ok bt, s1)" "btree_insert 1 ''ab:f'' p (bt, s1) = (Ok (), st)"
    "collection_at 1 (get_root_page (fst st)) t (\<lambda>_. sample_version) (snd st)" "leaf_entries (leaves t) = [\<lparr>en_key = ''ab:f'', en_value = p\<rparr>]"
    by (rule sample_collection)
  let ?bt = "btree_open (get_root_page (fst st))"
  have rep: "tree_rep 1 (?bt, snd st) t" and v: "version_stored (page_content (snd st)) (\<lambda>_. sample_version) \<lparr>en_key = ''ab:f'', en_value = p\<rparr>"
    using o(5,6) by (simp_all add: collection_at_def)
  have "tree_map t ''ab:f'' = Some p" using o(6) by (simp add: tree_map_def)
  then obtain s2 where s2: "btree_search 1 ''ab:f'' (?bt, snd st) = (Ok p, ?bt, s2)" "same_store (snd st) s2" using search_rep [OF rep, of 1 "''ab:f''"] by auto
  obtain x where "page_content (snd st) p = Some x" using v by (auto simp: version_stored_def versioned_stored_def)
  then have x: "page_content s2 p = Some x" "pager_inv s2" "\<not> pg_read_only s2" using s2(2) by (simp_all add: same_store_def store_ok_def)
  then obtain s3 where s3: "read_page p s2 = (Ok x, s3)" "same_alloc s2 s3" using read_page_spec by blast
  have "postings_at sample_text_env 1 ''ab:f'' (?bt, snd st) = (Ok (Some [(''x'', 1), (''y'', 2)]), ?bt, s3)"
    using s2(1) s3(1) by (simp add: postings_at_def read_postings_def on_tree_pager_def sample_text_env_def)
  then show thesis using that [OF o(1-4), of "(?bt, s3)"] s3(2) x(3) by (simp add: same_alloc_def)
qed

theorem search_ranked_witness:
  "\<exists>s p d s0 w bt s1 st rs st'. pager_open None 10 False = Ok s \<and> write_versioned_document ''a'' [7] 0 0 (s, []) = (Ok (p, d), s0, w) \<and>
    btree_new s0 = (Ok bt, s1) \<and> btree_insert 1 ''ab:f'' p (bt, s1) = (Ok (), st) \<and>
    text_search sample_text_env 1 [us ''f''] (us ''ab'') 6 (btree_open (get_root_page (fst st)), snd st) = (Ok [(''y'', 6), (''x'', 3)], st') \<and>
    ordered_by (compare_scores sample_text_env) [(''y'', 6), (''x'', 3)]"
proof -
  obtain s p d s0 w bt s1 st st2 where o: "pager_open None 10 False = Ok s" "write_versioned_document ''a'' [7] 0 0 (s, []) = (Ok (p, d), s0, w)"
    "btree_new s0 = (Ok bt, s1)" "btree_insert 1 ''ab:f'' p (bt, s1) = (Ok (), st)" "\<not> pg_read_only (snd st2)"
    "postings_at sample_text_env 1 ''ab:f'' (btree_open (get_root_page (fst st)), snd st) = (Ok (Some [(''x'', 1), (''y'', 2)]), st2)" by (rule sample_index)
  have t: "tokenize_text sample_text_env (us ''ab'') = [us ''ab'']" by code_simp
  have c: "sort_by (compare_scores sample_text_env) (add_scores sample_text_env (calculate_idf sample_text_env 6 2) [(''x'', 1), (''y'', 2)] []) = [(''y'', 6), (''x'', 3)]"
    by code_simp
  have r: "text_search sample_text_env 1 [us ''f''] (us ''ab'') 6 (btree_open (get_root_page (fst st)), snd st) = (Ok [(''y'', 6), (''x'', 3)], st2)"
    using o(6) c by (simp add: text_search_def t sample_term_key numeral_2_eq_2)
  have "comparison (compare_scores sample_text_env)" by unfold_locales (auto simp: compare_scores_def sample_text_env_def cmp_def chained_def)
  from search_ranked [OF r this] show ?thesis using o(1-4) r by blast
qed

theorem long_postings_fail_witness:
  "\<exists>s p d s0 w bt s1 st st'. pager_open None 10 False = Ok s \<and> write_versioned_document ''a'' [7] 0 0 (s, []) = (Ok (p, d), s0, w) \<and>
    btree_new s0 = (Ok bt, s1) \<and> btree_insert 1 ''ab:f'' p (bt, s1) = (Ok (), st) \<and>
    index_term sample_text_env 1 ''z'' (us ''f'') (us ''ab'', 1) (btree_open (get_root_page (fst st)), snd st) = (Err (Other ''text index data too large for page''), st')"
proof -
  obtain s p d s0 w bt s1 st st2 where o: "pager_open None 10 False = Ok s" "write_versioned_document ''a'' [7] 0 0 (s, []) = (Ok (p, d), s0, w)"
    "btree_new s0 = (Ok bt, s1)" "btree_insert 1 ''ab:f'' p (bt, s1) = (Ok (), st)" "\<not> pg_read_only (snd st2)"
    "postings_at sample_text_env 1 ''ab:f'' (btree_open (get_root_page (fst st)), snd st) = (Ok (Some [(''x'', 1), (''y'', 2)]), st2)" by (rule sample_index)
  have p: "postings_at sample_text_env 1 (term_key (us ''ab'') (us ''f'')) (btree_open (get_root_page (fst st)), snd st) =
      (Ok (Some [(''x'', 1), (''y'', 2)]), fst st2, snd st2)" using o(6) by (simp add: sample_term_key)
  have v: "te_to_vec sample_text_env m = Some (replicate 5000 1)" for m by (simp add: sample_text_env_def)
  have "\<exists>st'. index_term sample_text_env 1 ''z'' (us ''f'') (us ''ab'', 1) (btree_open (get_root_page (fst st)), snd st) = (Err (Other ''text index data too large for page''), st')"
    using long_postings_fail [OF p o(5) v, of "''z''" 1] by auto
  then show ?thesis using o(1-4) by blast
qed

end
