(* ===== verification/Leader.thy ===== *)
theory Leader
  imports Commit_Effect
begin

text \<open>
  The thread that commits in a batch, in \<open>commit_batched\<close> of \<open>src/core/transaction.rs\<close>: when it returns, and that as a leader it may not return while other threads keep committing.
\<close>

subsection \<open>Properties\<close>

text \<open>
  C16: When the other threads stop queueing requests after some round, the leader ends with an empty queue, and every request that was queued when it began has a result, success or error. It holds if
  every batch that the leader executes ends without a panic.
\<close>

theorem leader_serves_queue:
  assumes "db_pending_writes db \<noteq> []" "batches_return E rounds db" "\<forall>i \<ge> k. no_arrivals (rounds i)"
  shows "\<exists>db'. leader_loop E rounds 0 db = Some (Ok (), db') \<and> db_pending_writes db' = [] \<and>
    (\<forall>p \<in> set (db_pending_writes db). has_result db' (pw_mvcc_tx_id p))"
proof -
  obtain d where "leader_loop E rounds 0 db = Some (Ok (), d)" "db_pending_writes d = []"
    "\<forall>i. i \<in> pw_mvcc_tx_id ` set (db_pending_writes db) \<or> has_result db i \<longrightarrow> has_result d i"
    using leader_loop_ends [OF first_round assms(2) _ assms(1), of k] assms(3) by auto
  then show ?thesis by blast
qed


text \<open>
  C22: A leader that finds new requests at the end of every round never returns, although its own transaction has its result after finitely many of them: the loop has no limit on the number of rounds.
\<close>

theorem commit_batched_starves:
  assumes "start = others (db\<lparr>db_pending_writes := db_pending_writes db @ [prepare_write_request tx]\<rparr>)"
    and "hm_get (db_completions start) (tx_mvcc_tx_id tx) = None" "prepare_write_request tx \<in> set (db_pending_writes start)"
    and "batches_return E rounds start" "\<forall>i. rd_late (rounds i) \<noteq> []"
  shows "fst (commit_batched E others rounds (tx, db)) = None \<and>
    (\<exists>n d. leader_reaches E rounds start n d \<and> has_result d (tx_mvcc_tx_id tx))"
proof
  have "db_pending_writes start \<noteq> []" using assms(3) by auto
  then have "leader_loop E rounds 0 start = None" using leader_loop_endless [OF assms(4)] assms(5) by simp
  then show "fst (commit_batched E others rounds (tx, db)) = None" using assms(1,2) by (simp add: commit_batched_def hm_contains_def Let_def)
  obtain ps qs where "db_pending_writes start = ps @ prepare_write_request tx # qs" using assms(3) by (metis split_list)
  from leader_serves_each [OF first_round assms(4) _ this] assms(5)
  show "\<exists>n d. leader_reaches E rounds start n d \<and> has_result d (tx_mvcc_tx_id tx)" by (simp add: prepare_write_request_def)
qed

subsection \<open>Witnesses\<close>

definition page_tx :: "tx_id \<Rightarrow> transaction" where
  "page_tx t = \<lparr>tx_id = 1, tx_mvcc_tx_id = t, tx_snapshot_id = 3, tx_state = TxActive, tx_writes = [(5, replicate PAGE_SIZE 7)], tx_doc_writes = [], tx_snapshot_roots = [],
     tx_updated_roots = [], tx_doc_existed = [], tx_doc_original_xmin = [], tx_modified_collections = [], tx_old_versions = []\<rparr>"

lemma page_tx_request: "prepare_write_request (page_tx t) = page_request t" "tx_mvcc_tx_id (page_tx t) = t"
  by (simp_all add: prepare_write_request_def page_tx_def page_request_def sample_write_def)

text \<open>A leader that has one request and commits it.\<close>

lemma sample_leader:
  obtains s t w where "pager_open None 10 False = Ok s" "alloc_page s = (Ok 1, t)" "wal_open None 1 2 = Ok w"
    "batches_return sample_env (\<lambda>_. quiet_round) ((sample_database (sample_pager 1 t) w metadata_new)\<lparr>db_pending_writes := [page_request 7]\<rparr>)"
proof -
  obtain s t w db' where o: "pager_open None 10 False = Ok s" "alloc_page s = (Ok 1, t)" "wal_open None 1 2 = Ok w"
    "execute_batch_commit sample_env [page_request 7] (sample_database (sample_pager 1 t) w metadata_new) = (Ok (), db')" by (rule sample_executes)
  define db0 where "db0 = sample_database (sample_pager 1 t) w metadata_new"
  define db where "db = db0\<lparr>db_pending_writes := [page_request 7]\<rparr>"
  have d: "db_pending_writes db = [page_request 7]" "bc_max_batch_size (db_batch_config db) = 32" "db\<lparr>db_pending_writes := []\<rparr> = db0"
    by (simp_all add: db_def db0_def sample_database_def database_with_def batch_config_default_def)
  have c: "collect_batch [] db = (Ok [page_request 7], db0, [])"
    by (simp add: collect_batch_def d collect_loop.simps page_request_def written_docs_def)
  have n: "db_pending_writes db0 = []" by (simp add: db0_def sample_database_def database_with_def)
  have e: "execute_batch_commit sample_env [page_request 7] (db0\<lparr>db_pending_writes := []\<rparr>) = (Ok (), db')"
    using o(4) by (simp add: db0_def sample_database_def database_with_def)
  have "db_pending_writes db' = []" using queue.execute_batch_commit [of db0 sample_env "[page_request 7]"] o(4) n by (simp add: same_queue_def db0_def)
  then obtain x where x: "leader_round sample_env quiet_round db = (Ok True, x)"
    using c e n by (simp add: leader_round_def quiet_round_def Let_def)
  have "d = db" if "leader_reaches sample_env (\<lambda>_. quiet_round) db n d" for n d
    using that by induction (use x in auto)
  then have "fst (leader_round sample_env quiet_round d) \<noteq> Panic" if "leader_reaches sample_env (\<lambda>_. quiet_round) db n d" for n d
    using that x by (metis fst_conv res.distinct(3))
  then have "batches_return sample_env (\<lambda>_. quiet_round) db" unfolding batches_return_def by blast
  then show thesis using that o(1-3) unfolding db_def db0_def by blast
qed

lemma quiet_no_arrivals [simp]: "no_arrivals quiet_round"
  by (simp add: no_arrivals_def quiet_round_def)

theorem leader_serves_queue_witness:
  "\<exists>s t w db'. pager_open None 10 False = Ok s \<and> alloc_page s = (Ok 1, t) \<and> wal_open None 1 2 = Ok w \<and>
    leader_loop sample_env (\<lambda>_. quiet_round) 0 ((sample_database (sample_pager 1 t) w metadata_new)\<lparr>db_pending_writes := [page_request 7]\<rparr>) = Some (Ok (), db') \<and>
    has_result db' 7"
proof -
  obtain s t w where o: "pager_open None 10 False = Ok s" "alloc_page s = (Ok 1, t)" "wal_open None 1 2 = Ok w"
    "batches_return sample_env (\<lambda>_. quiet_round) ((sample_database (sample_pager 1 t) w metadata_new)\<lparr>db_pending_writes := [page_request 7]\<rparr>)" by (rule sample_leader)
  have "pw_mvcc_tx_id (page_request 7) = 7" by (simp add: page_request_def sample_write_def)
  then show ?thesis using leader_serves_queue [OF _ o(4), of 0] o(1-3) by auto
qed


text \<open>A leader whose batches all fail because the metadata do not fit a page, and that finds a new request after every round.\<close>

definition full_env :: "nat env" where
  "full_env = sample_env\<lparr>en_codec := \<lparr>mc_to_vec = \<lambda>m. Some (replicate 5000 32), mc_from_slice = \<lambda>_. None\<rparr>\<rparr>"

definition busy_round :: "nat \<Rightarrow> round" where
  "busy_round n = \<lparr>rd_arrivals = [], rd_late = [page_request (word_of_nat (n + 8))], rd_micros = 0\<rparr>"

definition loggable :: "pending_write \<Rightarrow> bool" where
  "loggable p \<longleftrightarrow> pw_modified_collections p = [] \<and> list_all (\<lambda>e. length (snd e) = PAGE_SIZE) (pw_writes p)"

lemma loggable_page: "loggable (page_request t)"
  by (simp add: loggable_def page_request_def sample_write_def)

lemma log_pages: "list_all (\<lambda>e. length (snd e) = PAGE_SIZE) es \<Longrightarrow> \<exists>w. for_each (log_page E t) es db = (Ok (), db\<lparr>db_wal := w\<rparr>)"
proof (induction es arbitrary: db)
  case Nil
  have "db = db\<lparr>db_wal := db_wal db\<rparr>" by simp
  then show ?case by (metis for_each.simps(1))
next
  case (Cons e es)
  have "\<exists>w. write_frame t (fst e) (snd e) (en_now E) (db_wal db) = (Ok (), w)"
    using Cons.prems by (simp add: write_frame_def Let_def serialize_frame_eq frame_fits_def)
  then obtain w where "log_page E t e db = (Ok (), db\<lparr>db_wal := w\<rparr>)" by (auto simp: log_page_def db_on_wal_def)
  moreover obtain w' where "for_each (log_page E t) es (db\<lparr>db_wal := w\<rparr>) = (Ok (), db\<lparr>db_wal := w\<rparr>\<lparr>db_wal := w'\<rparr>)"
    using Cons.IH [of "db\<lparr>db_wal := w\<rparr>"] Cons.prems by auto
  ultimately show ?case by auto
qed

lemma log_batch: "list_all loggable batch \<Longrightarrow> \<exists>w. for_each (\<lambda>pw. for_each (log_page E (pw_mvcc_tx_id pw)) (pw_writes pw)) batch db = (Ok (), db\<lparr>db_wal := w\<rparr>)"
proof (induction batch arbitrary: db)
  case Nil
  have "db = db\<lparr>db_wal := db_wal db\<rparr>" by simp
  then show ?case by (metis for_each.simps(1))
next
  case (Cons p batch)
  obtain w where "for_each (log_page E (pw_mvcc_tx_id p)) (pw_writes p) db = (Ok (), db\<lparr>db_wal := w\<rparr>)"
    using log_pages Cons.prems by (fastforce simp: loggable_def)
  moreover obtain w' where "for_each (\<lambda>pw. for_each (log_page E (pw_mvcc_tx_id pw)) (pw_writes pw)) batch (db\<lparr>db_wal := w\<rparr>) = (Ok (), db\<lparr>db_wal := w\<rparr>\<lparr>db_wal := w'\<rparr>)"
    using Cons.IH [of "db\<lparr>db_wal := w\<rparr>"] Cons.prems by auto
  ultimately show ?case by auto
qed

lemma validate_loggable: "list_all loggable batch \<Longrightarrow> for_each (validate_pending_write E) batch db = (Ok (), db)"
  by (induction batch) (auto simp: loggable_def validate_pending_write_def)

lemma apply_loggable: "list_all loggable batch \<Longrightarrow> apply_batch E batch db = (Ok batch, db)"
  by (induction batch) (auto simp: loggable_def)

lemma full_execute:
  assumes "list_all loggable batch" "pg_metadata_page (db_pager db) \<noteq> 0"
  shows "fst (execute_batch_commit full_env batch db) \<noteq> Panic \<and> db_pager (snd (execute_batch_commit full_env batch db)) = db_pager db"
proof (cases "check_batch_conflicts batch = Ok ()")
  case True
  obtain w where w: "for_each (\<lambda>pw. for_each (log_page full_env (pw_mvcc_tx_id pw)) (pw_writes pw)) batch db = (Ok (), db\<lparr>db_wal := w\<rparr>)"
    using log_batch [OF assms(1)] by blast
  have "length (pad_page (replicate 5000 32)) \<noteq> PAGE_SIZE" by (simp add: pad_page_def const_defs)
  then have "commit_metadata full_env t (db\<lparr>db_wal := w\<rparr>) = (Err InvalidPageSize, db\<lparr>db_wal := w\<rparr>)" for t
    using assms(2) by (simp add: commit_metadata_def full_env_def metadata_serialize_def log_page_def db_on_wal_def write_frame_def Let_def)
  then show ?thesis using True w validate_loggable [OF assms(1), of full_env db] apply_loggable [OF assms(1), of full_env "db\<lparr>db_wal := w\<rparr>"] by (simp add: execute_batch_commit_def)
next
  case False
  then obtain e where "check_batch_conflicts batch = Err e" by (auto simp: check_batch_conflicts_def check_batch_eq split: if_splits)
  then show ?thesis using validate_loggable [OF assms(1), of full_env db] by (simp add: execute_batch_commit_def)
qed

lemma full_round:
  assumes "list_all loggable (db_pending_writes d)" "pg_metadata_page (db_pager d) \<noteq> 0"
  shows "fst (leader_round full_env (busy_round n) d) \<noteq> Panic \<and> db_pager (snd (leader_round full_env (busy_round n) d)) = db_pager d \<and>
    list_all loggable (db_pending_writes (snd (leader_round full_env (busy_round n) d)))"
proof (cases "db_pending_writes d = []")
  case True
  then show ?thesis by (simp add: leader_round_def collect_batch_def collect_loop.simps)
next
  case False
  let ?c = "collect_loop (bc_max_batch_size (db_batch_config d)) [] (db_pending_writes d) [] {}"
  obtain b q later where c: "?c = (Ok b, q, later)" using collect_loop_Ok [of "db_pending_writes d" "[]" "{}"] False by (metis fst_conv surj_pair)
  obtain new where n: "b = new" "new @ q @ concat later = db_pending_writes d" using collect_loop_spec [OF c] by auto
  have lg: "list_all loggable b" "list_all loggable (q @ concat later)" using assms(1) n(1) unfolding n(2) [symmetric] list_all_append by auto
  let ?d = "d\<lparr>db_pending_writes := q\<rparr>\<lparr>db_pending_writes := q @ concat later\<rparr>"
  obtain x d' where x: "execute_batch_commit full_env b ?d = (x, d')" by (cases "execute_batch_commit full_env b ?d")
  have x': "x \<noteq> Panic" "db_pager d' = db_pager d" using full_execute [OF lg(1), of ?d] assms(2) x by auto
  have "db_pending_writes d' = q @ concat later" using queue.execute_batch_commit [of ?d full_env b] x by (simp add: same_queue_def)
  moreover have "leader_round full_env (busy_round n) d = (let d = finish_batch b x 0 d'; d = d\<lparr>db_pending_writes := db_pending_writes d @ [page_request (word_of_nat (n + 8))]\<rparr>
      in (Ok (db_pending_writes d = []), d))"
    using c x x'(1) by (cases x) (simp_all add: leader_round_def collect_batch_def busy_round_def Let_def)
  ultimately show ?thesis using x'(2) lg(2) loggable_page by (simp add: Let_def finish_batch_def maybe_auto_checkpoint_def)
qed

theorem commit_batched_starves_witness:
  "\<exists>s t w. pager_open None 10 False = Ok s \<and> alloc_page s = (Ok 1, t) \<and> wal_open None 1 2 = Ok w \<and>
    fst (commit_batched full_env id busy_round (page_tx 7, sample_database (sample_pager 1 t) w metadata_new)) = None"
proof -
  obtain s t w where o: "pager_open None 10 False = Ok s" "alloc_page s = (Ok 1, t)" "wal_open None 1 2 = Ok w"
    using sample_ready by metis
  let ?db = "sample_database (sample_pager 1 t) w metadata_new"
  let ?start = "?db\<lparr>db_pending_writes := [page_request 7]\<rparr>"
  have e: "db_pending_writes ?db = []" "db_completions ?db = []" "pg_metadata_page (db_pager ?db) \<noteq> 0"
    by (simp_all add: sample_database_def database_with_def sample_pager_def set_metrics_def)
  have inv: "list_all loggable (db_pending_writes d) \<and> pg_metadata_page (db_pager d) \<noteq> 0" if "leader_reaches full_env busy_round ?start n d" for n d
    using that
  proof induction
    case first_round
    show ?case using e(3) loggable_page by simp
  next
    case (next_round n d d')
    then show ?case using full_round [of d n] by simp
  qed
  have "batches_return full_env busy_round ?start" unfolding batches_return_def using inv full_round by blast
  then have "fst (commit_batched full_env id busy_round (page_tx 7, ?db)) = None"
    using e commit_batched_starves [OF refl, of id ?db "page_tx 7" full_env busy_round] by (simp add: page_tx_request busy_round_def)
  then show ?thesis using o by blast
qed

end
