(* ===== verification/Query_Print.thy ===== *)
theory Query_Print
  imports Query_Parser
begin

text \<open>
  Printing a syntax tree as a query text and reading it back. Every token is printed with a space behind it and every binary operation in parentheses, so that the
  printed text does not depend on the priorities of the operators. The texts of numbers are given by a function argument.
\<close>

subsection \<open>Specification\<close>

type_synonym lexeme = "token_type \<times> ustring"

definition print_value :: "('n \<Rightarrow> ustring) \<Rightarrow> 'n json \<Rightarrow> lexeme" where
  "print_value sh v =
     (case v of
        JBool True \<Rightarrow> (TrueTok, us ''true'')
      | JBool False \<Rightarrow> (FalseTok, us ''false'')
      | JNumber n \<Rightarrow> (Number, sh n)
      | JString s \<Rightarrow> (StringTok, s)
      | _ \<Rightarrow> (Null, us ''null''))"

definition print_parts :: "ustring list \<Rightarrow> lexeme list" where
  "print_parts ws = concat (map (\<lambda>w. [(Dot, us ''.''), (Ident, w)]) ws)"

definition print_field :: "ustring \<Rightarrow> lexeme list" where
  "print_field f = (let ws = split_at_char 46 f in (Ident, hd ws) # print_parts (tl ws))"

definition print_op :: "string \<Rightarrow> lexeme list" where
  "print_op op =
     (if op = ''>'' then [(Gt, us ''>'')] else if op = ''>='' then [(Gte, us ''>='')]
      else if op = ''<'' then [(Lt, us ''<'')] else if op = ''<='' then [(Lte, us ''<='')]
      else if op = ''is'' then [(Is, us ''is'')] else [(Is, us ''is''), (Not, us ''not'')])"

fun print_values :: "('n \<Rightarrow> ustring) \<Rightarrow> 'n json list \<Rightarrow> lexeme list" where
  "print_values sh [] = []"
| "print_values sh [v] = [print_value sh v]"
| "print_values sh (v # vs) = print_value sh v # (Comma, us '','') # print_values sh vs"

definition print_has :: "('n \<Rightarrow> ustring) \<Rightarrow> string \<Rightarrow> 'n json list \<Rightarrow> lexeme list" where
  "print_has sh op vs =
     (if op = ''has'' then [(Has, us ''has''), print_value sh (hd vs)]
      else [(Has, us ''has''), if op = ''has_any'' then (Any, us ''any'') else (All, us ''all''), (LBracket, us ''['')]
        @ print_values sh vs @ [(RBracket, us '']'')])"

fun print_node :: "('n \<Rightarrow> ustring) \<Rightarrow> 'n node \<Rightarrow> lexeme list" where
  "print_node sh (BinaryOp op l r) =
     (LParen, us ''('') # print_node sh l @ (if op = ''and'' then And else Or, us op) # print_node sh r @ [(RParen, us '')'')]"
| "print_node sh (UnaryOp op c) = (Not, us ''not'') # print_node sh c"
| "print_node sh (CompareOp f op v) = print_field f @ print_op op @ [print_value sh v]"
| "print_node sh (ExistsOp f neg) = print_field f @ (if neg then [(Not, us ''not'')] else []) @ [(Exists, us ''exists'')]"
| "print_node sh (HasOp f op vs) = print_field f @ print_has sh op vs"

definition quote_for :: "ustring \<Rightarrow> uchar" where
  "quote_for s = (if 34 \<in> set s then 39 else 34)"

definition word_text :: "lexeme \<Rightarrow> ustring" where
  "word_text w = (case w of (t, v) \<Rightarrow> if t = StringTok then [quote_for v] @ v @ [quote_for v] else v)"

definition words_text :: "lexeme list \<Rightarrow> ustring" where
  "words_text ws = concat (map (\<lambda>w. word_text w @ [32]) ws)"

definition print_query :: "('n \<Rightarrow> ustring) \<Rightarrow> 'n node \<Rightarrow> ustring" where
  "print_query sh q = words_text (print_node sh q)"

text \<open>What can be printed: the trees that the parser builds, with fields made of words that are no keywords, numbers with a decimal text, and strings that fit in quotes.\<close>

definition is_word :: "unicode \<Rightarrow> ustring \<Rightarrow> bool" where
  "is_word U w \<longleftrightarrow> w \<noteq> [] \<and> is_letter U (hd w) \<and> \<not> is_whitespace U (hd w)
     \<and> list_all (\<lambda>c. is_letter U c \<or> is_digit U c \<or> c = 95) w"

definition is_name :: "unicode \<Rightarrow> ustring \<Rightarrow> bool" where
  "is_name U w \<longleftrightarrow> is_word U w \<and> lookup_keyword U w = Ident"

definition digits :: "ustring \<Rightarrow> bool" where
  "digits ds \<longleftrightarrow> ds \<noteq> [] \<and> list_all (\<lambda>c. 48 \<le> c \<and> c \<le> 57) ds"

definition decimal :: "ustring \<Rightarrow> bool" where
  "decimal t = (case split_at_char 46 t of [a] \<Rightarrow> digits a | [a, b] \<Rightarrow> digits a \<and> digits b | _ \<Rightarrow> False)"

definition quotable :: "ustring \<Rightarrow> bool" where
  "quotable s \<longleftrightarrow> 0 \<notin> set s \<and> (34 \<notin> set s \<or> 39 \<notin> set s)"

definition printable_value :: "'n numbers \<Rightarrow> ('n \<Rightarrow> ustring) \<Rightarrow> 'n json \<Rightarrow> bool" where
  "printable_value N sh v =
     (case v of
        JNull \<Rightarrow> True
      | JBool _ \<Rightarrow> True
      | JNumber n \<Rightarrow> decimal (sh n) \<and> num_from_text N (sh n) = Parsed n
      | JString s \<Rightarrow> quotable s
      | _ \<Rightarrow> False)"

fun printable :: "unicode \<Rightarrow> 'n numbers \<Rightarrow> ('n \<Rightarrow> ustring) \<Rightarrow> 'n node \<Rightarrow> bool" where
  "printable U N sh (BinaryOp op l r) = (op \<in> {''and'', ''or''} \<and> printable U N sh l \<and> printable U N sh r)"
| "printable U N sh (UnaryOp op c) = (op = ''not'' \<and> printable U N sh c)"
| "printable U N sh (CompareOp f op v) =
     (list_all (is_name U) (split_at_char 46 f) \<and> op \<in> {''>'', ''>='', ''<'', ''<='', ''is'', ''is_not''} \<and> printable_value N sh v)"
| "printable U N sh (ExistsOp f neg) = list_all (is_name U) (split_at_char 46 f)"
| "printable U N sh (HasOp f op vs) =
     (list_all (is_name U) (split_at_char 46 f) \<and> op \<in> {''has'', ''has_any'', ''has_all''}
      \<and> (op = ''has'' \<longrightarrow> length vs = 1) \<and> list_all (printable_value N sh) vs)"

subsection \<open>The parser reads the words of a printed tree\<close>

definition tok_word :: "token \<Rightarrow> lexeme" where
  "tok_word t = (tk_type t, tk_value t)"

inductive reads :: "parser \<Rightarrow> lexeme list \<Rightarrow> parser \<Rightarrow> bool" where
  reads_Nil: "pok p \<Longrightarrow> reads p [] p"
| reads_Cons: "pok p \<Longrightarrow> tok_word (peek p) = w \<Longrightarrow> fst w \<noteq> Eof \<Longrightarrow> reads (step p) ws p' \<Longrightarrow> reads p (w # ws) p'"

inductive_simps reads_Nil_iff: "reads p [] p'"
inductive_simps reads_Cons_iff: "reads p (w # ws) p'"

lemma reads_append: "reads p (xs @ ws) p' \<longleftrightarrow> (\<exists>q. reads p xs q \<and> reads q ws p')"
proof (induction xs arbitrary: p)
  case Nil
  show ?case by (auto simp: reads_Nil_iff elim: reads.cases)
next
  case (Cons w xs)
  then show ?case by (auto simp: reads_Cons_iff)
qed

lemma reads_pok: "reads p ws p' \<Longrightarrow> pok p \<and> pok p'"
  by (induction rule: reads.induct) auto

lemma reads_head: "reads p (w # ws) p' \<Longrightarrow> tk_type (peek p) = fst w"
  by (auto simp: reads_Cons_iff tok_word_def)

lemmas reads_simps = reads_Nil_iff reads_Cons_iff reads_append tok_word_def

lemma split_not_Nil [simp]: "split_at_char c xs \<noteq> []"
  by (induction xs) (auto split: list.splits)

lemma split_join: "hd (split_at_char c xs) @ concat (map (Cons c) (tl (split_at_char c xs))) = xs"
  by (induction xs) (auto split: list.splits)

lemma reads_value: "reads p [print_value sh v] p' \<Longrightarrow> printable_value N sh v \<Longrightarrow> parse_value N p = POk (v, p')"
  by (cases v) (auto simp: reads_simps print_value_def printable_value_def parse_value_def peek_simps split: bool.splits)

lemma reads_parts:
  "reads p (print_parts ws) p' \<Longrightarrow> tk_type (peek p') \<noteq> Dot \<Longrightarrow> length ws < fuel
   \<Longrightarrow> field_loop fuel f p = POk (f @ concat (map (Cons 46) ws), p')"
proof (induction ws arbitrary: p f fuel)
  case Nil
  then show ?case by (cases fuel) (auto simp: reads_simps print_parts_def peek_simps)
next
  case (Cons w ws)
  obtain n where "fuel = Suc n" using Cons.prems(3) by (cases fuel) auto
  then show ?case
    using Cons by (auto simp: reads_simps print_parts_def peek_simps)
qed

lemma print_value_kind: "fst (print_value sh v) \<noteq> RBracket"
  by (auto simp: print_value_def split: json.splits bool.splits)

lemma reads_values:
  "reads p (print_values sh vs) p' \<Longrightarrow> tk_type (peek p') = RBracket \<Longrightarrow> list_all (printable_value N sh) vs \<Longrightarrow> length vs < fuel
   \<Longrightarrow> values_loop fuel N acc p = POk (acc @ vs, p')"
proof (induction sh vs arbitrary: p acc fuel rule: print_values.induct)
  case (1 sh)
  then show ?case by (cases fuel) (auto simp: reads_simps peek_simps)
next
  case (2 sh v)
  have "parse_value N p = POk (v, p')" using 2 by (intro reads_value [of p sh]) simp_all
  moreover have "pok p" "pok p'" using 2(1) by (auto dest: reads_pok)
  moreover have "tk_type (peek p) \<noteq> RBracket"
    using reads_head 2(1) print_value_kind [of sh v] by fastforce
  ultimately show ?case using 2 by (cases fuel) (auto simp: peek_simps)
next
  case (3 sh v v' vs)
  obtain q where q: "reads p [print_value sh v] q" "reads q [(Comma, us '','')] (step q)" "reads (step q) (print_values sh (v' # vs)) p'"
    using 3(2) by (auto simp: reads_simps dest: reads_pok)
  have "parse_value N p = POk (v, q)" using 3 q(1) by (intro reads_value [of p sh]) simp_all
  moreover have "pok p" "pok q" using q(1) by (auto dest: reads_pok)
  moreover have "tk_type (peek p) \<noteq> RBracket" "tk_type (peek q) = Comma"
    using reads_head [OF q(1)] reads_head [OF q(2)] print_value_kind [of sh v] by simp_all
  moreover obtain n where n: "fuel = Suc n" using 3(5) by (cases fuel) auto
  moreover have "values_loop n N (acc @ [v]) (step q) = POk ((acc @ [v]) @ v' # vs, p')"
    using 3(1) [OF q(3)] 3 n by simp
  ultimately show ?case by (simp add: peek_simps)
qed

lemma reads_field:
  assumes "reads p (print_field f) q" "tk_type (peek q) \<noteq> Dot" "length (print_field f) \<le> fuel"
  shows "field_comparison fuel N p = field_operator fuel N f q"
proof -
  define ws where "ws = split_at_char 46 f"
  have p: "pok p" "tk_type (peek p) = Ident" "tk_value (peek p) = hd ws" "reads (step p) (print_parts (tl ws)) q"
    using assms(1) by (auto simp: print_field_def ws_def [symmetric] Let_def reads_simps)
  have "length (tl ws) < fuel"
    using assms(3) by (auto simp: print_field_def ws_def [symmetric] Let_def print_parts_def length_concat comp_def sum_list_triv)
  then have "field_loop fuel (hd ws) (step p) = POk (f, q)"
    using reads_parts [OF p(4) assms(2)] split_join [of 46 f] by (simp add: ws_def)
  then show ?thesis using p by (simp add: field_comparison_def peek_simps)
qed

lemma reads_compare:
  assumes "reads q (print_op op @ [print_value sh v]) p'" "printable_value N sh v"
    "op \<in> {''>'', ''>='', ''<'', ''<='', ''is'', ''is_not''}"
  shows "field_operator fuel N f q = POk (CompareOp f op v, p')"
proof -
  obtain r where r: "reads q (print_op op) r" "reads r [print_value sh v] p'" using assms(1) by (auto simp: reads_append)
  have "parse_value N r = POk (v, p')" using reads_value [OF r(2) assms(2)] .
  then have c: "compare_value N f op r = POk (CompareOp f op v, p')" by (simp add: compare_value_def)
  have "tk_type (peek r) \<noteq> Not" using reads_head [OF r(2)] by (auto simp: print_value_def split: json.splits bool.splits)
  then show ?thesis
    using assms(3) r(1) c by (auto simp: print_op_def reads_simps field_operator_def peek_simps)
qed

lemma reads_exists:
  assumes "reads q ((if neg then [(Not, us ''not'')] else []) @ [(Exists, us ''exists'')]) p'"
  shows "field_operator fuel N f q = POk (ExistsOp f neg, p')"
  using assms by (cases neg) (auto simp: reads_simps field_operator_def peek_simps)

lemma reads_has:
  assumes r: "reads q (print_has sh op vs) p'" and vs: "list_all (printable_value N sh) vs"
    and op: "op \<in> {''has'', ''has_any'', ''has_all''}" "op = ''has'' \<longrightarrow> length vs = 1" and fuel: "length vs < fuel"
  shows "field_operator fuel N f q = POk (HasOp f op vs, p')"
proof (cases "op = ''has''")
  case True
  then obtain v where v: "vs = [v]" using op(2) by (auto simp: length_Suc_conv)
  have q: "reads (step q) [print_value sh v] p'" "pok q" "tk_type (peek q) = Has" "pok (step q)"
    using r True v by (auto simp: print_has_def reads_Cons_iff tok_word_def dest: reads_pok)
  have k: "tk_type (peek (step q)) \<notin> {Any, All}"
    using reads_head [OF q(1)] by (auto simp: print_value_def split: json.splits bool.splits)
  have "parse_value N (step q) = POk (v, p')" using q(1) vs v by (intro reads_value [of _ sh]) simp_all
  then show ?thesis using q k True v by (simp add: field_operator_def parse_has_def peek_simps)
next
  case False
  define t where "t = (if op = ''has_any'' then (Any, us ''any'') else (All, us ''all''))"
  obtain w where q: "pok q" "tk_type (peek q) = Has" "pok (step q)" "tk_type (peek (step q)) = fst t"
    "pok (step (step q))" "tk_type (peek (step (step q))) = LBracket"
    "reads (step (step (step q))) (print_values sh vs) w" "pok w" "tk_type (peek w) = RBracket" "p' = step w"
    using r False by (auto simp: print_has_def reads_simps t_def [symmetric] split: if_splits)
  have "values_loop fuel N [] (step (step (step q))) = POk (vs, w)"
    using reads_values [OF q(7,9) vs fuel, of "[]"] by simp
  then have "has_list fuel N f op (step (step q)) = POk (HasOp f op vs, p')"
    using q by (simp add: has_list_def peek_simps)
  then show ?thesis using q False op(1) by (auto simp: field_operator_def parse_has_def peek_simps t_def)
qed

lemma print_op_head: "fst (hd (print_op op @ ws)) \<noteq> Dot" "print_op op \<noteq> []"
  by (auto simp: print_op_def)

lemma print_node_fuel: "printable U N sh q \<Longrightarrow> 0 < length (print_node sh q)"
  by (cases q) (auto simp: print_op_def print_has_def)

lemma reads_field_then:
  assumes "reads p (print_field f @ ws) p'" "ws \<noteq> []" "fst (hd ws) \<noteq> Dot" "length (print_field f) \<le> fuel"
    and "\<And>q. reads q ws p' \<Longrightarrow> field_operator fuel N f q = r"
  shows "comparison (Suc fuel) N p = r"
proof -
  obtain q where q: "reads p (print_field f) q" "reads q ws p'" using assms(1) by (auto simp: reads_append)
  have p: "pok p" "tk_type (peek p) = Ident"
    using q(1) by (auto simp: print_field_def Let_def reads_simps)
  have "tk_type (peek q) \<noteq> Dot" using q(2) assms(2,3) reads_head by (cases ws) auto
  then show ?thesis using reads_field [OF q(1) _ assms(4), of N] assms(5) [OF q(2)] p by (simp add: peek_simps)
qed

lemma reads_binary:
  assumes l: "\<And>n p'. m \<le> n \<Longrightarrow> reads p (print_node sh l) p' \<Longrightarrow> comparison n N p = POk (l, p')"
    and r: "\<And>n p p'. m \<le> n \<Longrightarrow> reads p (print_node sh r) p' \<Longrightarrow> comparison n N p = POk (r, p')"
    and op: "op \<in> {''and'', ''or''}"
    and p: "reads p (print_node sh l @ (if op = ''and'' then And else Or, us op) # print_node sh r) p'"
    and p': "pok p'" "tk_type (peek p') \<notin> {And, Or}" and fuel: "m + 4 \<le> fuel"
  shows "or_expr fuel N p = POk (BinaryOp op l r, p')"
proof -
  obtain q where q: "reads p (print_node sh l) q" "pok q" "tk_type (peek q) = (if op = ''and'' then And else Or)"
    "reads (step q) (print_node sh r) p'"
    using p by (auto simp: reads_simps split: if_splits)
  have "fuel = Suc (Suc (Suc (Suc (fuel - 4))))" "m \<le> fuel - 4" using fuel by arith+
  then obtain n where n: "fuel = Suc (Suc (Suc (Suc n)))" "m \<le> n" by blast
  have c: "comparison (Suc (Suc n)) N p = POk (l, q)" "comparison (Suc n) N (step q) = POk (r, p')" "comparison n N (step q) = POk (r, p')"
    using l [OF _ q(1)] r [OF _ q(4)] n(2) by (auto simp del: comparison.simps)
  show ?thesis
    using op q c p' unfolding n(1) by (auto simp: peek_simps simp del: comparison.simps)
qed

theorem reads_node:
  "reads p (print_node sh q) p' \<Longrightarrow> printable U N sh q \<Longrightarrow> 3 * length (print_node sh q) \<le> fuel \<Longrightarrow> comparison fuel N p = POk (q, p')"
proof (induction q arbitrary: p p' fuel)
  case (BinaryOp op l r)
  define m where "m = 3 * max (length (print_node sh l)) (length (print_node sh r))"
  obtain q where q: "pok p" "tk_type (peek p) = LParen" "pok q" "tk_type (peek q) = RParen" "p' = step q"
    "reads (step p) (print_node sh l @ (if op = ''and'' then And else Or, us op) # print_node sh r) q"
    using BinaryOp.prems(1) by (auto simp: reads_simps)
  obtain n where n: "fuel = Suc n" "m + 4 \<le> n" using BinaryOp.prems(3) by (cases fuel) (auto simp: m_def)
  have "or_expr n N (step p) = POk (BinaryOp op l r, q)"
    by (rule reads_binary [where m = m]) (use BinaryOp q n in \<open>auto simp: m_def\<close>)
  then show ?case using q by (simp add: n peek_simps)
next
  case (UnaryOp op c)
  obtain n where n: "fuel = Suc n" using UnaryOp.prems(3) by (cases fuel) auto
  have q: "pok p" "tk_type (peek p) = Not" "reads (step p) (print_node sh c) p'"
    using UnaryOp.prems(1) by (auto simp: reads_simps)
  have "comparison n N (step p) = POk (c, p')"
    using UnaryOp.IH [OF q(3)] UnaryOp.prems n by simp
  then show ?case using q UnaryOp.prems(2) by (simp add: n peek_simps)
next
  case (CompareOp f op v)
  obtain n where n: "fuel = Suc n" "length (print_field f) \<le> n" using CompareOp.prems(3) by (cases fuel) auto
  show ?case unfolding n(1)
    by (rule reads_field_then [OF CompareOp.prems(1) [unfolded print_node.simps] _ _ n(2)])
      (use CompareOp.prems(2) print_op_head in \<open>auto intro: reads_compare\<close>)
next
  case (ExistsOp f neg)
  obtain n where n: "fuel = Suc n" "length (print_field f) \<le> n" using ExistsOp.prems(3) by (cases fuel) auto
  show ?case unfolding n(1)
    by (rule reads_field_then [OF ExistsOp.prems(1) [unfolded print_node.simps] _ _ n(2) reads_exists]) auto
next
  case (HasOp f op vs)
  have "length vs \<le> length (print_values sh vs)" by (induction sh vs rule: print_values.induct) auto
  then obtain n where n: "fuel = Suc n" "length (print_field f) \<le> n" "length vs < n"
    using HasOp.prems(2,3) by (cases fuel) (auto simp: print_has_def split: if_splits)
  show ?case unfolding n(1)
    by (rule reads_field_then [OF HasOp.prems(1) [unfolded print_node.simps] _ _ n(2)])
      (use HasOp.prems(2) n(3) in \<open>auto simp: print_has_def intro: reads_has\<close>)
qed

subsection \<open>The lexer reads the text of the words\<close>

definition lexes :: "unicode \<Rightarrow> lexeme \<Rightarrow> bool" where
  "lexes U w \<longleftrightarrow>
     fst w \<noteq> Eof \<and> fst w \<noteq> Illegal \<and> word_text w \<noteq> [] \<and> \<not> is_whitespace U (hd (word_text w)) \<and>
     (\<forall>r. lex_first U (word_text w @ 32 # r) = (fst w, snd w, length (word_text w)))"

lemma lex_text_space: "lex_text U p (32 # r) = lex_text U (Suc p) r"
proof -
  have "is_whitespace U 32" by (simp add: is_whitespace_def)
  then show ?thesis by (subst (1 2) lex_text.simps) simp
qed

lemma lex_word:
  assumes "lexes U w"
  shows "lex_text U p (word_text w @ 32 # r) =
    map_sum id (Cons \<lparr>tk_type = fst w, tk_value = snd w, tk_pos = p\<rparr>) (lex_text U (p + length (word_text w) + 1) r)"
proof -
  obtain c cs where c: "word_text w = c # cs" "\<not> is_whitespace U c" using assms unfolding lexes_def by (cases "word_text w") auto
  have s: "takeWhile (is_whitespace U) (word_text w @ 32 # r) = []" "dropWhile (is_whitespace U) (word_text w @ 32 # r) = word_text w @ 32 # r"
    using c by simp_all
  show ?thesis
    using assms unfolding lexes_def by (subst lex_text.simps) (simp add: s lex_text_space)
qed

lemma lex_words:
  "list_all (lexes U) ws \<Longrightarrow>
   \<exists>ts. map tok_word ts = ws \<and> lex_text U p (words_text ws @ r) = map_sum id (append ts) (lex_text U (p + length (words_text ws)) r)"
proof (induction ws arbitrary: p)
  case Nil
  show ?case by (intro exI [of _ "[]"]) (cases "lex_text U p r"; simp add: words_text_def)
next
  case (Cons w ws)
  obtain ts where ts: "map tok_word ts = ws"
    "lex_text U (p + length (word_text w) + 1) (words_text ws @ r)
       = map_sum id (append ts) (lex_text U (p + length (word_text w) + 1 + length (words_text ws)) r)"
    using Cons.IH [of "p + length (word_text w) + 1"] Cons.prems unfolding list.pred_inject by blast
  define t where "t = \<lparr>tk_type = fst w, tk_value = snd w, tk_pos = p\<rparr>"
  have e: "words_text (w # ws) @ r = word_text w @ 32 # words_text ws @ r"
    "length (words_text (w # ws)) = Suc (length (word_text w) + length (words_text ws))" by (simp_all add: words_text_def)
  have "lex_text U p (words_text (w # ws) @ r) = map_sum id (append (t # ts)) (lex_text U (p + length (words_text (w # ws))) r)"
    using lex_word [of U w p "words_text ws @ r"] Cons.prems unfolding e t_def ts(2)
    by (cases "lex_text U (p + Suc (length (word_text w) + length (words_text ws))) r") (simp_all add: ts(2) [simplified] add.assoc)
  moreover have "map tok_word (t # ts) = w # ws" using ts(1) by (simp add: t_def tok_word_def [of t, unfolded t_def])
  ultimately show ?case by (intro exI [of _ "t # ts"] conjI)
qed

lemma char_space [simp]: "\<not> is_letter U 32" "\<not> is_digit U 32" "\<not> is_letter U 46" "\<not> is_digit U 46"
  by (simp_all add: is_letter_def is_digit_def)

lemma takeWhile_stop: "list_all P xs \<Longrightarrow> \<not> P y \<Longrightarrow> takeWhile P (xs @ y # ys) = xs"
  by (induction xs) auto

lemma dropWhile_stop: "list_all P xs \<Longrightarrow> \<not> P y \<Longrightarrow> dropWhile P (xs @ y # ys) = y # ys"
  by (induction xs) auto

lemma lookup_keyword_kind: "lookup_keyword U w \<notin> {Eof, Illegal, StringTok}"
  by (simp add: lookup_keyword_def Let_def)

lemma letter_not_special: "is_letter U c \<Longrightarrow> c \<notin> {0, 40, 41, 91, 93, 44, 46, 62, 60, 34, 39}"
  by (cases "c = 0") (auto simp: is_letter_def)

lemma lexes_is_word: "is_word U w \<Longrightarrow> lexes U (lookup_keyword U w, w)"
proof -
  assume w: "is_word U w"
  then obtain c cs where c: "w = c # cs" "is_letter U c" "\<not> is_whitespace U c" by (cases w) (auto simp: is_word_def)
  have "word_prefix U (w @ 32 # r) = w" for r
    using w unfolding word_prefix_def by (intro takeWhile_stop) (auto simp: is_word_def)
  then show ?thesis
    using c lookup_keyword_kind [of U w] letter_not_special [OF c(2)]
    by (auto simp: lexes_def word_text_def Let_def)
qed

lemma lexes_name: "is_name U w \<Longrightarrow> lexes U (Ident, w)"
  using lexes_is_word by (fastforce simp: is_name_def)

lemma lexes_keyword:
  "lexes U (And, us ''and'')" "lexes U (Or, us ''or'')" "lexes U (Not, us ''not'')" "lexes U (Is, us ''is'')"
  "lexes U (Exists, us ''exists'')" "lexes U (Has, us ''has'')" "lexes U (Any, us ''any'')" "lexes U (All, us ''all'')"
  "lexes U (TrueTok, us ''true'')" "lexes U (FalseTok, us ''false'')" "lexes U (Null, us ''null'')"
proof -
  have "is_word U (us x)" if "x \<in> {''and'', ''or'', ''not'', ''is'', ''exists'', ''has'', ''any'', ''all'', ''true'', ''false'', ''null''}" for x
    using that by (auto simp: is_word_def us_def is_letter_def is_whitespace_def)
  note w = lexes_is_word [OF this]
  have k: "lookup_keyword U (us ''and'') = And" "lookup_keyword U (us ''or'') = Or" "lookup_keyword U (us ''not'') = Not"
    "lookup_keyword U (us ''is'') = Is" "lookup_keyword U (us ''exists'') = Exists" "lookup_keyword U (us ''has'') = Has"
    "lookup_keyword U (us ''any'') = Any" "lookup_keyword U (us ''all'') = All" "lookup_keyword U (us ''true'') = TrueTok"
    "lookup_keyword U (us ''false'') = FalseTok" "lookup_keyword U (us ''null'') = Null"
    by (simp_all add: lookup_keyword_def to_lowercase_def us_def)
  show "lexes U (And, us ''and'')" "lexes U (Or, us ''or'')" "lexes U (Not, us ''not'')" "lexes U (Is, us ''is'')"
    "lexes U (Exists, us ''exists'')" "lexes U (Has, us ''has'')" "lexes U (Any, us ''any'')" "lexes U (All, us ''all'')"
    "lexes U (TrueTok, us ''true'')" "lexes U (FalseTok, us ''false'')" "lexes U (Null, us ''null'')"
    using w [of "''and''"] w [of "''or''"] w [of "''not''"] w [of "''is''"] w [of "''exists''"] w [of "''has''"]
      w [of "''any''"] w [of "''all''"] w [of "''true''"] w [of "''false''"] w [of "''null''"] by (simp_all add: k)
qed

lemma lexes_sign:
  "lexes U (LParen, us ''('')" "lexes U (RParen, us '')'')" "lexes U (LBracket, us ''['')" "lexes U (RBracket, us '']'')"
  "lexes U (Comma, us '','')" "lexes U (Dot, us ''.'')" "lexes U (Gt, us ''>'')" "lexes U (Gte, us ''>='')"
  "lexes U (Lt, us ''<'')" "lexes U (Lte, us ''<='')"
  by (simp_all add: lexes_def word_text_def us_def is_whitespace_def compare_prefix_def)

lemma lexes_string:
  assumes "quotable s"
  shows "lexes U (StringTok, s)"
proof -
  define q where "q = quote_for s"
  have q: "q \<in> {34, 39}" "q \<notin> set s" "0 \<notin> set s"
    using assms by (auto simp: q_def quote_for_def quotable_def)
  then have "takeWhile (\<lambda>d. d \<noteq> q \<and> 0 < d) (s @ q # r) = s" for r
    by (intro takeWhile_stop) (auto simp: list_all_iff intro: gr0I)
  then show ?thesis
    using q(1) by (auto simp: lexes_def word_text_def q_def [symmetric] is_whitespace_def Let_def)
qed

lemma lexes_number:
  assumes "decimal t"
  shows "lexes U (Number, t)"
proof -
  have d: "digits a \<Longrightarrow> list_all (is_digit U) a" for a
    by (auto simp: digits_def list_all_iff is_digit_def)
  consider (int) "split_at_char 46 t = [t]" "digits t"
    | (frac) a b where "t = a @ 46 # b" "digits a" "digits b"
    using assms split_join [of 46 t] by (auto simp: decimal_def split: list.splits)
  then show ?thesis
  proof cases
    case int
    have n: "number_prefix U (t @ 32 # r) = t" for r
      using d [OF int(2)] by (simp add: number_prefix_def takeWhile_stop dropWhile_stop split: list.split)
    obtain c cs where c: "t = c # cs" "48 \<le> c" "c \<le> 57" using int(2) by (cases t) (auto simp: digits_def)
    show ?thesis using c n by (simp add: lexes_def word_text_def is_whitespace_def is_letter_def is_digit_def)
  next
    case frac
    obtain e es where e: "b = e # es" "is_digit U e" using d [OF frac(3)] frac(3) by (cases b) (auto simp: digits_def)
    have n: "number_prefix U (t @ 32 # r) = t" for r
      using d [OF frac(2)] d [OF frac(3)] e takeWhile_stop [OF d [OF frac(3)], of 32]
      by (simp add: frac(1) number_prefix_def takeWhile_stop dropWhile_stop)
    obtain c cs where c: "t = c # cs" "48 \<le> c" "c \<le> 57" using frac(1,2) by (cases a) (auto simp: digits_def)
    show ?thesis using c n by (simp add: lexes_def word_text_def is_whitespace_def is_letter_def is_digit_def)
  qed
qed

lemma lexes_value: "printable_value N sh v \<Longrightarrow> lexes U (print_value sh v)"
  by (auto simp: printable_value_def print_value_def lexes_keyword lexes_string lexes_number split: json.splits bool.splits)

lemma lexes_values: "list_all (printable_value N sh) vs \<Longrightarrow> list_all (lexes U) (print_values sh vs)"
  by (induction sh vs rule: print_values.induct) (auto intro: lexes_value lexes_sign)

lemma lexes_field: "list_all (is_name U) (split_at_char 46 f) \<Longrightarrow> list_all (lexes U) (print_field f)"
proof -
  assume a: "list_all (is_name U) (split_at_char 46 f)"
  have p: "list_all (lexes U) (print_parts ws)" if "list_all (is_name U) ws" for ws
    using that by (induction ws) (auto simp: print_parts_def intro: lexes_name lexes_sign)
  show ?thesis using a by (cases "split_at_char 46 f") (auto simp: print_field_def intro: p lexes_name)
qed

lemma lexes_node: "printable U N sh q \<Longrightarrow> list_all (lexes U) (print_node sh q)"
proof (induction q)
  case (HasOp f op vs)
  then have "list_all (lexes U) (print_has sh op vs)"
    by (cases vs) (auto simp: print_has_def lexes_keyword lexes_sign lexes_value intro!: lexes_values lexes_value)
  then show ?case using HasOp by (auto intro: lexes_field)
qed (auto simp: print_op_def lexes_keyword lexes_sign lexes_value lexes_field)

lemma reads_tokens:
  assumes "ends_with_eof (xs @ ts @ rest)" "rest \<noteq> []"
  shows "reads \<lparr>ps_tokens = xs @ ts @ rest, ps_pos = length xs\<rparr> (map tok_word ts)
           \<lparr>ps_tokens = xs @ ts @ rest, ps_pos = length xs + length ts\<rparr>"
  using assms
proof (induction ts arbitrary: xs)
  case Nil
  then show ?case by (auto simp: reads_simps pok_def)
next
  case (Cons t ts)
  have "tk_type t \<noteq> Eof" using Cons.prems by (auto simp: ends_with_eof_def butlast_append)
  moreover have "reads \<lparr>ps_tokens = (xs @ [t]) @ ts @ rest, ps_pos = length (xs @ [t])\<rparr> (map tok_word ts)
      \<lparr>ps_tokens = (xs @ [t]) @ ts @ rest, ps_pos = length (xs @ [t]) + length ts\<rparr>"
    using Cons.prems by (intro Cons.IH) simp_all
  ultimately show ?case using Cons.prems(1) by (auto simp: reads_Cons_iff tok_word_def [of t] pok_def peek_def step_def)
qed

lemma parse_printed:
  assumes q: "printable U N sh q"
    and r: "lex_text U (length (print_query sh q)) r = Inr (t # ts)" "tk_type t \<notin> {And, Or}"
  shows "parse_query U N (print_query sh q @ r) = POk q"
proof -
  obtain us where us: "map tok_word us = print_node sh q" "lex_text U 0 (print_query sh q @ r) = Inr (us @ t # ts)"
    using lex_words [OF lexes_node [OF q], of 0 r] r(1) by (auto simp: print_query_def)
  define p where "p = \<lparr>ps_tokens = us @ t # ts, ps_pos = length us\<rparr>"
  have rd: "reads (parser_new (us @ t # ts)) (print_node sh q) p"
    using reads_tokens [of "[]" us "t # ts"] lex_text_eof [OF us(2)] us(1) by (simp add: parser_new_def p_def)
  then have p: "pok p" by (simp add: reads_pok)
  have pk: "tk_type (peek p) \<notin> {And, Or}" using r(2) by (simp add: p_def peek_def)
  have l: "0 < length us" using print_node_fuel [OF q] us(1) by (metis length_map)
  define k where "k = 3 * length (us @ t # ts)"
  have "comparison (Suc k) N (parser_new (us @ t # ts)) = POk (q, p)"
    using us(1) by (intro reads_node [OF rd q]) (auto simp: k_def simp flip: us(1))
  then have "or_expr (k + 3) N (parser_new (us @ t # ts)) = POk (q, p)"
    using p pk by (simp add: numeral_3_eq_3 peek_simps del: comparison.simps)
  then show ?thesis
    using l by (simp add: parse_query_def tokenize_lex_text us(2) parse_def k_def parser_new_def)
qed

subsection \<open>Properties\<close>

text \<open>
  C31: A query that is printed and parsed again is the same query. It holds for all trees of the operators that the language has, with fields of words, decimal numbers that the number parser
  reads back, and strings that fit in quotes.
\<close>

theorem query_roundtrip:
  assumes "printable U N sh q"
  shows "parse_query U N (print_query sh q) = POk q"
proof -
  have "lex_text U n [] = Inr [\<lparr>tk_type = Eof, tk_value = [], tk_pos = n\<rparr>]" for n by (subst lex_text.simps) simp
  then show ?thesis using parse_printed [OF assms, of "[]"] by simp
qed

text \<open>
  \<open>parse\<close> does not look whether it has read the whole text: after a complete query, any further text that has no illegal character and does not begin with \<open>and\<close> or \<open>or\<close> is ignored,
  so a condition whose connective is missing is silently dropped.
\<close>

theorem trailing_text_ignored:
  assumes "printable U N sh q" "lex_text U (length (print_query sh q)) r = Inr (t # ts)" "tk_type t \<notin> {And, Or}"
  shows "parse_query U N (print_query sh q @ r) = POk q"
  using assms by (rule parse_printed)

subsection \<open>Witnesses\<close>

definition ascii :: unicode where
  "ascii = \<lparr>uni_alphabetic = \<lambda>_. False, uni_numeric = \<lambda>_. False, uni_whitespace = \<lambda>_. False, uni_lowercase = id\<rparr>"

definition digit_value :: "ustring \<Rightarrow> nat" where
  "digit_value ds = foldl (\<lambda>a d. 10 * a + (d - 48)) 0 ds"

text \<open>Numbers below ten, as a small instance of the number type.\<close>

definition small_numbers :: "nat numbers" where
  "small_numbers = \<lparr>num_from_text = \<lambda>t. if digits t then Parsed (digit_value t) else NotANumber,
     num_eq = (=), num_lt = (<), num_same = (=), num_integer = \<lambda>_. True\<rparr>"

definition small_text :: "nat \<Rightarrow> ustring" where
  "small_text n = [48 + n]"

definition sample_query :: "nat node" where
  "sample_query = BinaryOp ''or'' (CompareOp (us ''user.age'') ''>='' (JNumber 7))
     (UnaryOp ''not'' (HasOp (us ''tags'') ''has_any'' [JString (us ''a b''), JNull]))"

lemma sample_printable: "printable ascii small_numbers small_text sample_query"
  by (simp add: sample_query_def us_def is_name_def is_word_def is_letter_def is_digit_def is_whitespace_def ascii_def
      lookup_keyword_def to_lowercase_def printable_value_def decimal_def digits_def small_numbers_def small_text_def
      digit_value_def quotable_def Let_def)

theorem query_roundtrip_witness:
  "parse_query ascii small_numbers (print_query small_text sample_query) = POk sample_query"
  by (rule query_roundtrip [OF sample_printable])

lemma sample_trailing:
  "lex_text ascii n (us ''admin'') = Inr [\<lparr>tk_type = Ident, tk_value = us ''admin'', tk_pos = n\<rparr>, \<lparr>tk_type = Eof, tk_value = [], tk_pos = n + 5\<rparr>]"
  by (subst lex_text.simps, subst lex_text.simps)
    (simp add: us_def ascii_def is_letter_def is_digit_def is_whitespace_def word_prefix_def lookup_keyword_def to_lowercase_def Let_def)

theorem trailing_text_ignored_witness:
  "parse_query ascii small_numbers (print_query small_text sample_query @ us ''admin'') = POk sample_query"
  by (rule trailing_text_ignored [OF sample_printable sample_trailing]) simp

end
