(* ===== verification/Query_Builder.thy ===== *)
theory Query_Builder
  imports Collection Sort_By Query_Print "HOL-Library.Sublist"
begin

text \<open>
  \<open>src/core/query_builder.rs\<close>: queries with a filter, sort fields, skip, limit and a projection.
\<close>

subsection \<open>Specification\<close>

datatype sort_order = Asc | Desc

datatype projection = Include "ustring list" | Exclude "ustring list"

record query_builder =
  qb_query :: "ustring option"
  qb_sort_fields :: "(ustring \<times> sort_order) list"
  qb_limit_count :: "nat option"
  qb_skip_count :: nat
  qb_projection :: "projection option"

definition query_builder_new :: query_builder where
  "query_builder_new = \<lparr>qb_query = None, qb_sort_fields = [], qb_limit_count = None, qb_skip_count = 0, qb_projection = None\<rparr>"

definition qb_filter :: "ustring \<Rightarrow> query_builder \<Rightarrow> query_builder" where
  "qb_filter query b = b\<lparr>qb_query := Some query\<rparr>"

definition qb_sort_by :: "ustring \<Rightarrow> sort_order \<Rightarrow> query_builder \<Rightarrow> query_builder" where
  "qb_sort_by field order b = b\<lparr>qb_sort_fields := qb_sort_fields b @ [(field, order)]\<rparr>"

definition qb_limit :: "nat \<Rightarrow> query_builder \<Rightarrow> query_builder" where
  "qb_limit n b = b\<lparr>qb_limit_count := Some n\<rparr>"

definition qb_skip :: "nat \<Rightarrow> query_builder \<Rightarrow> query_builder" where
  "qb_skip n b = b\<lparr>qb_skip_count := n\<rparr>"

definition qb_project :: "ustring list \<Rightarrow> query_builder \<Rightarrow> query_builder" where
  "qb_project fs b = b\<lparr>qb_projection := Some (Include fs)\<rparr>"

definition qb_exclude :: "ustring list \<Rightarrow> query_builder \<Rightarrow> query_builder" where
  "qb_exclude fs b = b\<lparr>qb_projection := Some (Exclude fs)\<rparr>"

definition DOT :: uchar where
  "DOT = 46"

definition get_nested_field :: "'n json \<Rightarrow> ustring \<Rightarrow> 'n json" where
  "get_nested_field v field = walk_parts v (split_at_char DOT field)"

text \<open>The order of values for sorting; objects compare by their text.\<close>

fun type_order :: "'n json \<Rightarrow> nat" where
  "type_order JNull = 0"
| "type_order (JBool _) = 1"
| "type_order (JNumber _) = 2"
| "type_order (JString _) = 3"
| "type_order (JArray _) = 4"
| "type_order (JObject _) = 5"

fun sort_compare :: "'n env \<Rightarrow> 'n json \<Rightarrow> 'n json \<Rightarrow> ordering"
  and sort_compare_items :: "'n env \<Rightarrow> 'n json list \<Rightarrow> 'n json list \<Rightarrow> ordering" where
  "sort_compare E JNull JNull = Equal"
| "sort_compare E JNull _ = Less"
| "sort_compare E _ JNull = Greater"
| "sort_compare E (JNumber a) (JNumber b) = compare_numbers (en_numbers E) a b"
| "sort_compare E (JString a) (JString b) = cmp a b"
| "sort_compare E (JBool a) (JBool b) = cmp a b"
| "sort_compare E (JArray a) (JArray b) = (case sort_compare_items E a b of Equal \<Rightarrow> cmp (length a) (length b) | r \<Rightarrow> r)"
| "sort_compare E (JObject a) (JObject b) = cmp (en_to_text E (JObject a)) (en_to_text E (JObject b))"
| "sort_compare E a b = cmp (type_order a) (type_order b)"
| "sort_compare_items E (x # xs) (y # ys) = (case sort_compare E x y of Equal \<Rightarrow> sort_compare_items E xs ys | r \<Rightarrow> r)"
| "sort_compare_items E _ _ = Equal"

definition directed :: "sort_order \<Rightarrow> ordering \<Rightarrow> ordering" where
  "directed order r = (case order of Asc \<Rightarrow> r | Desc \<Rightarrow> reverse_ordering r)"

fun compare_docs :: "'n env \<Rightarrow> (ustring \<times> sort_order) list \<Rightarrow> 'n json \<Rightarrow> 'n json \<Rightarrow> ordering" where
  "compare_docs E [] a b = Equal"
| "compare_docs E ((field, order) # fs) a b =
     (case directed order (sort_compare E (get_nested_field a field) (get_nested_field b field)) of
        Equal \<Rightarrow> compare_docs E fs a b
      | r \<Rightarrow> r)"

text \<open>Nested fields of a document, by the parts of their path.\<close>

fun get_path :: "'n json \<Rightarrow> ustring list \<Rightarrow> 'n json option" where
  "get_path v [] = Some v"
| "get_path v (part # parts) =
     (case as_object v of
        Some obj \<Rightarrow> (case map_of obj part of Some w \<Rightarrow> get_path w parts | None \<Rightarrow> None)
      | None \<Rightarrow> None)"

definition get_nested_field_from_map :: "(ustring \<times> 'n json) list \<Rightarrow> ustring \<Rightarrow> 'n json option" where
  "get_nested_field_from_map obj path = get_path (JObject obj) (split_at_char DOT path)"

fun set_nested_field_recursive :: "(ustring \<times> 'n json) list \<Rightarrow> ustring list \<Rightarrow> 'n json \<Rightarrow> (ustring \<times> 'n json) list" where
  "set_nested_field_recursive obj [] v = obj"
| "set_nested_field_recursive obj [p] v = obj_insert p v obj"
| "set_nested_field_recursive obj (p # q # ps) v =
     (let obj = (if map_of obj p = None then obj_insert p (JObject []) obj else obj) in
      case map_of obj p of
        Some (JObject nested) \<Rightarrow> obj_insert p (JObject (set_nested_field_recursive nested (q # ps) v)) obj
      | _ \<Rightarrow> obj)"

definition set_nested_field :: "(ustring \<times> 'n json) list \<Rightarrow> ustring \<Rightarrow> 'n json \<Rightarrow> (ustring \<times> 'n json) list" where
  "set_nested_field obj path v = set_nested_field_recursive obj (split_at_char DOT path) v"

fun remove_nested_field_recursive :: "(ustring \<times> 'n json) list \<Rightarrow> ustring list \<Rightarrow> (ustring \<times> 'n json) list" where
  "remove_nested_field_recursive obj [] = obj"
| "remove_nested_field_recursive obj [p] = hm_remove p obj"
| "remove_nested_field_recursive obj (p # q # ps) =
     (case map_of obj p of
        Some (JObject nested) \<Rightarrow> obj_insert p (JObject (remove_nested_field_recursive nested (q # ps))) obj
      | _ \<Rightarrow> obj)"

definition remove_nested_field :: "(ustring \<times> 'n json) list \<Rightarrow> ustring \<Rightarrow> (ustring \<times> 'n json) list" where
  "remove_nested_field obj path = remove_nested_field_recursive obj (split_at_char DOT path)"

definition include_field :: "(ustring \<times> 'n json) list \<Rightarrow> ustring \<Rightarrow> (ustring \<times> 'n json) list \<Rightarrow> (ustring \<times> 'n json) list" where
  "include_field obj field result =
     (if field = ID then result
      else if DOT \<in> set field then
        (case get_nested_field_from_map obj field of Some v \<Rightarrow> set_nested_field result field v | None \<Rightarrow> result)
      else (case map_of obj field of Some v \<Rightarrow> obj_insert field v result | None \<Rightarrow> result))"

definition exclude_field :: "ustring \<Rightarrow> (ustring \<times> 'n json) list \<Rightarrow> (ustring \<times> 'n json) list" where
  "exclude_field field result = (if DOT \<in> set field then remove_nested_field result field else hm_remove field result)"

definition apply_projection :: "'n json \<Rightarrow> projection \<Rightarrow> 'n json" where
  "apply_projection doc p =
     (case doc of
        JObject obj \<Rightarrow>
          (case p of
             Include fs \<Rightarrow> JObject (fold (include_field obj) fs (case map_of obj ID of Some i \<Rightarrow> [(ID, i)] | None \<Rightarrow> []))
           | Exclude fs \<Rightarrow> JObject (fold exclude_field fs obj))
      | _ \<Rightarrow> doc)"

definition filtered_docs :: "'n env \<Rightarrow> string \<Rightarrow> ustring option \<Rightarrow> 'n database \<Rightarrow> 'n json list res \<times> 'n database" where
  "filtered_docs E name query db =
     (case query of
        Some q \<Rightarrow>
          and_then (parse_or_error E q, db) (\<lambda>ast db.
          and_then (or_if_not_found [] (coll_find_all E name db)) (\<lambda>docs db. (Ok (filter (satisfies E ast) docs), db)))
      | None \<Rightarrow> or_if_not_found [] (coll_find_all E name db))"

text \<open>The steps after the documents have been fetched.\<close>

definition shape_results :: "'n env \<Rightarrow> query_builder \<Rightarrow> 'n json list \<Rightarrow> 'n json list" where
  "shape_results E b results =
     (let results = (if qb_sort_fields b = [] then results else sort_by (compare_docs E (qb_sort_fields b)) results);
          results = drop (qb_skip_count b) results;
          results = (case qb_limit_count b of Some limit \<Rightarrow> take limit results | None \<Rightarrow> results)
      in case qb_projection b of Some p \<Rightarrow> map (\<lambda>doc. apply_projection doc p) results | None \<Rightarrow> results)"

definition qb_execute :: "'n env \<Rightarrow> string \<Rightarrow> query_builder \<Rightarrow> 'n database \<Rightarrow> 'n json list res \<times> 'n database" where
  "qb_execute E name b db = and_then (filtered_docs E name (qb_query b) db) (\<lambda>results db. (Ok (shape_results E b results), db))"

definition qb_first :: "'n env \<Rightarrow> string \<Rightarrow> query_builder \<Rightarrow> 'n database \<Rightarrow> 'n json option res \<times> 'n database" where
  "qb_first E name b db =
     and_then (qb_execute E name (b\<lparr>qb_limit_count := Some 1\<rparr>) db) (\<lambda>results db.
     (Ok (case results of [] \<Rightarrow> None | r # _ \<Rightarrow> Some r), db))"

definition qb_count :: "'n env \<Rightarrow> string \<Rightarrow> query_builder \<Rightarrow> 'n database \<Rightarrow> nat res \<times> 'n database" where
  "qb_count E name b db =
     and_then (case qb_query b of
                 Some q \<Rightarrow> and_then (filtered_docs E name (Some q) db) (\<lambda>docs db. (Ok (length docs), db))
               | None \<Rightarrow> or_if_not_found 0 (coll_count E name db)) (\<lambda>results db.
     if qb_skip_count b \<ge> results then (Ok 0, db)
     else
       let after_skip = results - qb_skip_count b
       in (Ok (case qb_limit_count b of Some limit \<Rightarrow> min limit after_skip | None \<Rightarrow> after_skip), db))"

subsection \<open>The order of documents\<close>

lemma compare_type: "type_order a \<noteq> type_order b \<Longrightarrow> sort_compare E a b = cmp (type_order a) (type_order b)"
  by (cases a; cases b) (simp_all add: cmp_def)

text \<open>An array compares as the pairs of its items first and its length last, which is the lexicographic order.\<close>

fun items_then_length :: "'n env \<Rightarrow> 'n json list \<Rightarrow> 'n json list \<Rightarrow> ordering" where
  "items_then_length E (x # xs) (y # ys) = (case sort_compare E x y of Equal \<Rightarrow> items_then_length E xs ys | r \<Rightarrow> r)"
| "items_then_length E xs ys = cmp (length xs) (length ys)"

lemma compare_arrays: "sort_compare E (JArray a) (JArray b) = items_then_length E a b"
proof -
  have "(case sort_compare_items E a b of Equal \<Rightarrow> cmp (length a) (length b) | r \<Rightarrow> r) = items_then_length E a b"
    by (induction E a b rule: items_then_length.induct) (auto simp: cmp_def split: ordering.split)
  then show ?thesis by simp
qed

lemma items_chained:
  assumes "\<And>x y z. x \<in> set xs \<Longrightarrow> chained (sort_compare E x y) (sort_compare E y z) (sort_compare E x z)"
  shows "chained (items_then_length E xs ys) (items_then_length E ys zs) (items_then_length E xs zs)"
  using assms
proof (induction xs arbitrary: ys zs)
  case Nil
  show ?case by (cases ys; cases zs) (auto simp: chained_def cmp_def split: ordering.splits)
next
  case (Cons x xs)
  show ?case
  proof (cases "ys = [] \<or> zs = []")
    case True
    then show ?thesis by (cases ys; cases zs) (auto simp: chained_def cmp_def split: ordering.splits)
  next
    case False
    then obtain y ys' z zs' where e: "ys = y # ys'" "zs = z # zs'" by (auto simp: neq_Nil_conv)
    show ?thesis unfolding e items_then_length.simps by (rule chained_lex) (use Cons in \<open>simp_all\<close>)
  qed
qed

lemma items_swap:
  assumes "\<And>x y. x \<in> set xs \<Longrightarrow> sort_compare E y x = reverse_ordering (sort_compare E x y)"
  shows "items_then_length E ys xs = reverse_ordering (items_then_length E xs ys)"
  using assms
proof (induction xs arbitrary: ys)
  case Nil
  show ?case by (cases ys) simp_all
next
  case (Cons x xs)
  show ?case
  proof (cases ys)
    case (Cons y ys')
    show ?thesis unfolding \<open>ys = y # ys'\<close> items_then_length.simps by (rule swap_lex) (use Cons.IH Cons.prems in simp_all)
  qed simp
qed

lemma types_chained:
  assumes "\<not> (type_order a = type_order b \<and> type_order b = type_order c)"
  shows "chained (sort_compare E a b) (sort_compare E b c) (sort_compare E a c)"
  using assms cmp_chained [of "type_order a" "type_order b" "type_order c"] compare_type [of a b E] compare_type [of b c E] compare_type [of a c E]
  by (cases "type_order a = type_order b"; cases "type_order b = type_order c") (auto simp: chained_def cmp_def)

lemma sort_compare_chained:
  assumes "number_order (en_numbers E)"
  shows "chained (sort_compare E a b) (sort_compare E b c) (sort_compare E a c)"
proof (induction a arbitrary: b c)
  case (JArray xs)
  show ?case
  proof (cases "type_order b = 4 \<and> type_order c = 4")
    case True
    then obtain ys zs where "b = JArray ys" "c = JArray zs" by (cases b; cases c) auto
    then show ?thesis using items_chained [OF JArray] by (simp add: compare_arrays del: sort_compare.simps)
  qed (auto intro: types_chained)
next
  case (JObject es)
  show ?case
    by (cases "type_order b = 5 \<and> type_order c = 5") ((cases b; cases c; auto simp: cmp_chained), auto intro: types_chained)
next
  case JNull
  show ?case
    by (cases "type_order b = 0 \<and> type_order c = 0") ((cases b; cases c; auto simp: chained_def), auto intro: types_chained)
next
  case (JBool x)
  show ?case
    by (cases "type_order b = 1 \<and> type_order c = 1") ((cases b; cases c; auto simp: cmp_chained), auto intro: types_chained)
next
  case (JNumber x)
  show ?case
    by (cases "type_order b = 2 \<and> type_order c = 2") ((cases b; cases c; auto simp: numbers_chained [OF assms]), auto intro: types_chained)
next
  case (JString x)
  show ?case
    by (cases "type_order b = 3 \<and> type_order c = 3") ((cases b; cases c; auto simp: cmp_chained), auto intro: types_chained)
qed

lemma sort_compare_swap:
  assumes "number_order (en_numbers E)"
  shows "sort_compare E b a = reverse_ordering (sort_compare E a b)"
proof (induction a arbitrary: b)
  case (JArray xs)
  show ?case
  proof (cases b)
    case (JArray ys)
    then show ?thesis using items_swap [OF JArray.IH] by (simp add: compare_arrays del: sort_compare.simps)
  qed simp_all
next
  case (JNumber x)
  show ?case
  proof (cases b)
    case (JNumber y)
    then show ?thesis using numbers_swap [OF assms, of y x] by simp
  qed simp_all
next
  case JNull
  show ?case by (cases b) simp_all
next
  case (JBool x)
  show ?case by (cases b) simp_all
next
  case (JString x)
  show ?case by (cases b) simp_all
next
  case (JObject x)
  show ?case by (cases b) simp_all
qed

lemma compare_docs_laws:
  assumes "number_order (en_numbers E)"
  shows "compare_docs E fs b a = reverse_ordering (compare_docs E fs a b)"
    and "chained (compare_docs E fs a b) (compare_docs E fs b c) (compare_docs E fs a c)"
proof (induction fs)
  case (Cons f fs)
  obtain field order where f: "f = (field, order)" by (cases f)
  let ?c = "\<lambda>a b. directed order (sort_compare E (get_nested_field a field) (get_nested_field b field))"
  have s: "?c b a = reverse_ordering (?c a b)"
    using sort_compare_swap [OF assms, of "get_nested_field b field" "get_nested_field a field"] by (cases order) (auto simp: directed_def)
  have t: "chained (?c a b) (?c b c) (?c a c)"
    using sort_compare_chained [OF assms] by (cases order) (auto simp: directed_def chained_reverse)
  case 1
  show ?case unfolding f compare_docs.simps by (rule swap_lex [OF s]) (use Cons.IH in simp)
  case 2
  show ?case unfolding f compare_docs.simps by (rule chained_lex [OF t]) (use Cons.IH in simp)
qed (simp_all add: chained_def)

lemma compare_docs_comparison: "number_order (en_numbers E) \<Longrightarrow> comparison (compare_docs E fs)"
  by (rule comparison.intro) (rule compare_docs_laws, assumption)+

lemma no_fields_stable: "stable_sort_of (compare_docs E []) xs xs"
proof -
  have "ordered_by (compare_docs E []) xs" by (induction xs) (simp_all add: ordered_by_def)
  then show ?thesis by (simp add: stable_sort_of_def)
qed

lemma sorted_docs_stable:
  assumes "number_order (en_numbers E)"
  shows "stable_sort_of (compare_docs E fs) docs (if fs = [] then docs else sort_by (compare_docs E fs) docs)"
  using comparison.sort_by_stable [OF compare_docs_comparison [OF assms], of fs docs] no_fields_stable [of E docs] by (cases "fs = []") simp_all

definition result_page :: "query_builder \<Rightarrow> 'a list \<Rightarrow> 'a list" where
  "result_page b xs = (case qb_limit_count b of Some limit \<Rightarrow> take limit (drop (qb_skip_count b) xs) | None \<Rightarrow> drop (qb_skip_count b) xs)"

definition projected :: "query_builder \<Rightarrow> 'n json \<Rightarrow> 'n json" where
  "projected b doc = (case qb_projection b of Some p \<Rightarrow> apply_projection doc p | None \<Rightarrow> doc)"

lemma shape_results_eq:
  "shape_results E b docs =
     map (projected b) (result_page b (if qb_sort_fields b = [] then docs else sort_by (compare_docs E (qb_sort_fields b)) docs))"
  by (auto simp: shape_results_def result_page_def projected_def [abs_def] Let_def split: option.split)

lemma length_shape_results: "length (shape_results E b docs) = length (result_page b docs)"
  by (simp add: shape_results_eq result_page_def length_sort_by split: option.split)

subsection \<open>Fields of a document\<close>

text \<open>The leaves of a document: what is found at a path and is not an object.\<close>

definition leaf :: "'n json \<Rightarrow> ustring list \<Rightarrow> 'n json option" where
  "leaf v q = (case get_path v q of Some (JObject _) \<Rightarrow> None | r \<Rightarrow> r)"

lemma as_object_simps [simp]: "as_object (JObject m) = Some m" "as_object JNull = None" "as_object (JBool b) = None"
  "as_object (JNumber n) = None" "as_object (JString s) = None" "as_object (JArray xs) = None"
  by (simp_all add: as_object_def)

lemma leaf_Nil [simp]: "leaf (JObject m) [] = None"
  by (simp add: leaf_def)

lemma leaf_Cons [simp]: "leaf (JObject m) (k # q) = (case map_of m k of Some w \<Rightarrow> leaf w q | None \<Rightarrow> None)"
  by (simp add: leaf_def split: option.split)

lemma get_path_append: "get_path v (p @ q) = (case get_path v p of Some w \<Rightarrow> get_path w q | None \<Rightarrow> None)"
  by (induction v p rule: get_path.induct) (auto split: option.split)

lemma leaf_append: "leaf v (p @ q) = (case get_path v p of Some w \<Rightarrow> leaf w q | None \<Rightarrow> None)"
  by (simp add: leaf_def get_path_append split: option.split)

lemma leaf_scalar: "as_object w = None \<Longrightarrow> prefix (p # ps) q \<Longrightarrow> leaf w q = None"
  by (cases q) (auto simp: leaf_def)

lemma leaf_remove:
  "p \<noteq> [] \<Longrightarrow> leaf (JObject (remove_nested_field_recursive obj p)) q = (if prefix p q then None else leaf (JObject obj) q)"
proof (induction obj p arbitrary: q rule: remove_nested_field_recursive.induct)
  case (2 obj p)
  then show ?case by (cases q) auto
next
  case (3 obj p p' ps)
  show ?case
  proof (cases q)
    case (Cons k q')
    then show ?thesis
    proof (cases "map_of obj p")
      case (Some w)
      show ?thesis
      proof (cases "as_object w")
        case None
        then have "remove_nested_field_recursive obj (p # p' # ps) = obj" using Some by (cases w) simp_all
        then show ?thesis using Some Cons leaf_scalar [OF None, of p' ps q'] by auto
      next
        case (Some nested)
        then have w: "w = JObject nested" by (cases w) simp_all
        show ?thesis using "3.IH" [OF \<open>map_of obj p = Some w\<close> w] \<open>map_of obj p = Some w\<close> w Cons by auto
      qed
    qed (use Cons in \<open>auto simp: leaf_def\<close>)
  qed simp
qed simp

text \<open>A value is set at a path unless a part of the path before the last one leads to something that is not an object.\<close>

lemma leaf_set:
  "p \<noteq> [] \<Longrightarrow> (\<And>r. strict_prefix r p \<Longrightarrow> leaf (JObject obj) r = None)
   \<Longrightarrow> leaf (JObject (set_nested_field_recursive obj p v)) q = (if prefix p q then leaf v (drop (length p) q) else leaf (JObject obj) q)"
proof (induction obj p v arbitrary: q rule: set_nested_field_recursive.induct)
  case (2 obj p v)
  then show ?case by (cases q) auto
next
  case (3 obj p p' ps v)
  let ?o = "if map_of obj p = None then obj_insert p (JObject []) obj else obj"
  have o: "leaf (JObject ?o) q = leaf (JObject obj) q" for q
  proof (cases q)
    case (Cons k q')
    have "leaf (JObject []) q' = None" by (cases q') simp_all
    then show ?thesis using Cons by auto
  qed simp
  have "leaf (JObject obj) [p] = None" using "3.prems"(2) [of "[p]"] by simp
  then obtain nested where n: "map_of ?o p = Some (JObject nested)"
    by (cases "map_of obj p") (auto simp: leaf_def split: json.splits)
  have "leaf (JObject nested) r = None" if "strict_prefix r (p' # ps)" for r
    using "3.prems"(2) [of "p # r"] that o [of "p # r"] n by simp
  note IH = "3.IH" [OF refl n refl _ this]
  have "leaf (JObject (set_nested_field_recursive obj (p # p' # ps) v)) q =
      leaf (JObject (obj_insert p (JObject (set_nested_field_recursive nested (p' # ps) v)) ?o)) q"
    using n by (simp add: Let_def)
  also have "\<dots> = (if prefix (p # p' # ps) q then leaf v (drop (length (p # p' # ps)) q) else leaf (JObject ?o) q)"
    using IH n by (cases q) auto
  finally show ?case unfolding o .
qed simp

definition field_path :: "ustring \<Rightarrow> ustring list" where
  "field_path f = split_at_char DOT f"

lemma field_path_plain: "DOT \<notin> set f \<Longrightarrow> field_path f = [f]"
  unfolding field_path_def by (induction f) simp_all

lemma field_path_nonempty [simp]: "field_path f \<noteq> []"
  unfolding field_path_def by (cases f) (auto split: list.split)

lemma ID_plain: "field_path ID = [ID]"
  by (rule field_path_plain) (simp add: ID_def DOT_def us_def)

lemma exclude_field_eq: "exclude_field f obj = remove_nested_field_recursive obj (field_path f)"
  using field_path_plain [of f] by (auto simp: exclude_field_def remove_nested_field_def field_path_def)

lemma include_field_eq:
  "include_field obj f result =
     (if f = ID then result
      else case get_path (JObject obj) (field_path f) of Some v \<Rightarrow> set_nested_field_recursive result (field_path f) v | None \<Rightarrow> result)"
  using field_path_plain [of f]
  by (auto simp: include_field_def set_nested_field_def get_nested_field_from_map_def field_path_def split: option.split)

lemma exclude_fold:
  "leaf (JObject (fold exclude_field fs obj)) q = (if \<exists>f. f \<in> set fs \<and> prefix (field_path f) q then None else leaf (JObject obj) q)"
  by (induction fs arbitrary: obj) (auto simp: exclude_field_eq leaf_remove)

text \<open>The result of an inclusion so far holds exactly the leaves of the document below the paths included.\<close>

lemma include_step:
  assumes r: "\<And>q. leaf (JObject result) q = (if \<exists>p \<in> P. prefix p q then leaf (JObject obj) q else None)" and i: "[ID] \<in> P"
  shows "leaf (JObject (include_field obj f result)) q = (if \<exists>p \<in> insert (field_path f) P. prefix p q then leaf (JObject obj) q else None)"
proof (cases "f = ID \<or> get_path (JObject obj) (field_path f) = None")
  case True
  then have e: "include_field obj f result = result" by (auto simp: include_field_eq)
  have "leaf (JObject obj) q = None" if "prefix (field_path f) q" "\<not> prefix [ID] q"
    using that True by (auto simp: prefix_def leaf_append ID_plain)
  then show ?thesis using r [of q] i unfolding e by auto
next
  case False
  then obtain v where v: "get_path (JObject obj) (field_path f) = Some v" by blast
  have "leaf (JObject obj) s = None" if s: "strict_prefix s (field_path f)" for s
  proof -
    obtain k s' where e: "field_path f = s @ k # s'" using s by (auto elim: strict_prefixE')
    show ?thesis using v by (cases "get_path (JObject obj) s") (auto simp: e get_path_append leaf_def split: json.splits option.splits)
  qed
  then have "leaf (JObject result) s = None" if "strict_prefix s (field_path f)" for s using r [of s] that by simp
  then have "leaf (JObject (set_nested_field_recursive result (field_path f) v)) q =
      (if prefix (field_path f) q then leaf v (drop (length (field_path f)) q) else leaf (JObject result) q)"
    by (intro leaf_set) simp_all
  moreover have "leaf v (drop (length (field_path f)) q) = leaf (JObject obj) q" if "prefix (field_path f) q"
    using that v by (auto simp: prefix_def leaf_append)
  ultimately show ?thesis using False v r [of q] by (auto simp: include_field_eq)
qed

lemma include_fold:
  assumes "\<And>q. leaf (JObject result) q = (if \<exists>p \<in> P. prefix p q then leaf (JObject obj) q else None)" "[ID] \<in> P"
  shows "leaf (JObject (fold (include_field obj) fs result)) q =
    (if \<exists>p \<in> field_path ` set fs \<union> P. prefix p q then leaf (JObject obj) q else None)"
  using assms
proof (induction fs arbitrary: result P)
  case (Cons f fs)
  show ?case using Cons.IH [of "include_field obj f result" "insert (field_path f) P"] include_step [OF Cons.prems] Cons.prems(2) by simp
qed simp

subsection \<open>Properties\<close>

text \<open>
  C13: A query returns the documents that satisfy its filter, in the order of its sort fields, where documents that compare equal keep the order of the collection; of these it returns
  the ones after the skipped, up to the limit, each with its projection.
\<close>

theorem query_results:
  assumes "number_order (en_numbers E)" "coll_find_all E name db = (Ok docs, db')" "qb_query b = Some q" "parse_or_error E q = Ok ast"
  shows "\<exists>results. stable_sort_of (compare_docs E (qb_sort_fields b)) (filter (satisfies E ast) docs) results \<and>
    qb_execute E name b db = (Ok (map (projected b) (result_page b results)), db')"
  using sorted_docs_stable [OF assms(1), of "qb_sort_fields b" "filter (satisfies E ast) docs"] assms(2-4)
  by (auto simp: qb_execute_def filtered_docs_def or_if_not_found_def shape_results_eq and_then_def)

text \<open>
  C24: The count of a query with a filter is the number of the results of its execution, with the same errors and the same effect on the database.
\<close>

theorem count_agrees_with_execute:
  assumes "qb_query b = Some q"
  shows "qb_count E name b db = and_then (qb_execute E name b db) (\<lambda>results db. (Ok (length results), db))"
proof -
  have "length (shape_results E b docs) = (if qb_skip_count b \<ge> length docs then 0
      else case qb_limit_count b of Some l \<Rightarrow> min l (length docs - qb_skip_count b) | None \<Rightarrow> length docs - qb_skip_count b)" for docs
    by (auto simp: length_shape_results result_page_def split: option.split)
  then show ?thesis using assms
    by (auto simp: qb_count_def qb_execute_def Let_def and_then_def split: prod.split res.split)
qed

text \<open>
  C14: A projection by inclusion keeps exactly the leaves of the document at or below the named paths and those of the id; a projection by exclusion removes exactly the leaves at or below the
  named paths. Everything kept is unchanged, at every depth.
\<close>

theorem projection_leaves:
  "leaf (apply_projection (JObject obj) (Include fs)) q =
     (if prefix [ID] q \<or> (\<exists>f. f \<in> set fs \<and> prefix (field_path f) q) then leaf (JObject obj) q else None) \<and>
   leaf (apply_projection (JObject obj) (Exclude fs)) q =
     (if \<exists>f. f \<in> set fs \<and> prefix (field_path f) q then None else leaf (JObject obj) q)"
proof
  let ?r = "case map_of obj ID of Some i \<Rightarrow> [(ID, i)] | None \<Rightarrow> []"
  have "leaf (JObject ?r) q = (if \<exists>p \<in> {[ID]}. prefix p q then leaf (JObject obj) q else None)" for q
    by (cases q) (auto split: option.split)
  from include_fold [OF this, of fs q] show "leaf (apply_projection (JObject obj) (Include fs)) q =
     (if prefix [ID] q \<or> (\<exists>f. f \<in> set fs \<and> prefix (field_path f) q) then leaf (JObject obj) q else None)"
    by (auto simp: apply_projection_def)
qed (simp add: apply_projection_def exclude_fold)

subsection \<open>Witnesses\<close>

definition query_env :: "nat env" where
  "query_env = sample_env\<lparr>en_unicode := ascii, en_numbers := small_numbers\<rparr>"

definition sample_text :: ustring where
  "sample_text = print_query small_text sample_query"

lemma sample_parses: "parse_or_error query_env sample_text = Ok sample_query"
proof -
  have "lex_text ascii n [] = Inr [\<lparr>tk_type = Eof, tk_value = [], tk_pos = n\<rparr>]" for n by (subst lex_text.simps) simp
  then have "parse_query ascii small_numbers sample_text = POk sample_query"
    using parse_printed [OF sample_printable, of "[]"] by (simp add: sample_text_def)
  then show ?thesis by (simp add: parse_or_error_def query_env_def)
qed

definition empty_collection :: "nat metadata" where
  "empty_collection = set_root ''c'' 0 metadata_new"

lemma sample_find_all: "\<exists>db'. coll_find_all query_env ''c'' (sample_database s w empty_collection) = (Ok [], db')"
  by (simp add: coll_find_all_def in_collection_def with_tx_def root_or_error_def db_begin_def transaction_new_def begin_transaction_def tm_new_def
      sample_database_def database_with_def empty_collection_def set_root_def get_collection_def metadata_new_def and_then_def Let_def split: prod.split)

theorem query_results_witness:
  "\<exists>s w db'. pager_open None 10 False = Ok s \<and> wal_open None 1 2 = Ok w \<and>
    qb_execute query_env ''c'' (qb_filter sample_text query_builder_new) (sample_database s w empty_collection) = (Ok [], db')"
proof -
  obtain s where s: "pager_open None 10 False = Ok s" using new_store by blast
  obtain w where w: "wal_open None 1 2 = Ok w" using wal_open_new by blast
  obtain db' where d: "coll_find_all query_env ''c'' (sample_database s w empty_collection) = (Ok [], db')" using sample_find_all by blast
  have "number_order (en_numbers query_env)" by (auto simp: number_order_def query_env_def small_numbers_def)
  from query_results [OF this d _ sample_parses, of "qb_filter sample_text query_builder_new"]
  show ?thesis using s w by (auto simp: qb_filter_def query_builder_new_def stable_sort_of_def result_page_def)
qed

theorem count_agrees_with_execute_witness:
  "\<exists>s w. pager_open None 10 False = Ok s \<and> wal_open None 1 2 = Ok w \<and>
    qb_count query_env ''c'' (qb_filter sample_text query_builder_new) (sample_database s w empty_collection) =
      and_then (qb_execute query_env ''c'' (qb_filter sample_text query_builder_new) (sample_database s w empty_collection)) (\<lambda>results db. (Ok (length results), db))"
proof -
  obtain s where s: "pager_open None 10 False = Ok s" using new_store by blast
  obtain w where w: "wal_open None 1 2 = Ok w" using wal_open_new by blast
  have "qb_query (qb_filter sample_text query_builder_new) = Some sample_text" by (simp add: qb_filter_def)
  from count_agrees_with_execute [OF this] show ?thesis using s w by blast
qed

end
