(* ===== verification/Aggregation.thy ===== *)
theory Aggregation
  imports Query_Builder
begin

text \<open>
  \<open>src/core/aggregation.rs\<close>: pipelines of stages over the documents of a collection.

  The arithmetic of \<open>f64\<close> is a parameter, a record of the operations that the accumulators use. The groups are those of a hash map; the order of the
  association list stands for the unspecified order of its iteration.
\<close>

subsection \<open>Specification\<close>

record ('n, 'f) floats =
  fl_as_f64 :: "'n \<Rightarrow> 'f"
  fl_zero :: 'f
  fl_add :: "'f \<Rightarrow> 'f \<Rightarrow> 'f"
  fl_div :: "'f \<Rightarrow> 'f \<Rightarrow> 'f"
  fl_of_nat :: "nat \<Rightarrow> 'f"
  fl_lt :: "'f \<Rightarrow> 'f \<Rightarrow> bool"
  fl_json :: "'f \<Rightarrow> 'n json"
  fl_count :: "nat \<Rightarrow> 'n"

datatype accumulator_op = AccCount | AccSum ustring | AccAvg ustring | AccMin ustring | AccMax ustring

record accumulator =
  ac_output_field :: ustring
  ac_op :: accumulator_op

datatype stage =
    Match ustring
  | GroupBy ustring "accumulator list"
  | Sort ustring bool
  | Limit nat
  | Skip nat
  | Project "ustring list" bool

text \<open>The builder: a stage is appended, an accumulator goes to the last stage if that groups.\<close>

definition push_stage :: "stage \<Rightarrow> stage list \<Rightarrow> stage list" where
  "push_stage s ss = ss @ [s]"

definition push_accumulator :: "accumulator_op \<Rightarrow> ustring \<Rightarrow> stage list \<Rightarrow> stage list" where
  "push_accumulator op out ss =
     (case rev ss of
        GroupBy field accs # rest \<Rightarrow> rev rest @ [GroupBy field (accs @ [\<lparr>ac_output_field = out, ac_op = op\<rparr>])]
      | _ \<Rightarrow> ss)"

definition ag_match :: "ustring \<Rightarrow> stage list \<Rightarrow> stage list" where
  "ag_match query = push_stage (Match query)"

definition ag_group_by :: "ustring \<Rightarrow> stage list \<Rightarrow> stage list" where
  "ag_group_by field = push_stage (GroupBy field [])"

definition ag_count :: "ustring \<Rightarrow> stage list \<Rightarrow> stage list" where
  "ag_count out = push_accumulator AccCount out"

definition ag_sum :: "ustring \<Rightarrow> ustring \<Rightarrow> stage list \<Rightarrow> stage list" where
  "ag_sum field out = push_accumulator (AccSum field) out"

definition ag_avg :: "ustring \<Rightarrow> ustring \<Rightarrow> stage list \<Rightarrow> stage list" where
  "ag_avg field out = push_accumulator (AccAvg field) out"

definition ag_min :: "ustring \<Rightarrow> ustring \<Rightarrow> stage list \<Rightarrow> stage list" where
  "ag_min field out = push_accumulator (AccMin field) out"

definition ag_max :: "ustring \<Rightarrow> ustring \<Rightarrow> stage list \<Rightarrow> stage list" where
  "ag_max field out = push_accumulator (AccMax field) out"

definition ag_sort :: "ustring \<Rightarrow> bool \<Rightarrow> stage list \<Rightarrow> stage list" where
  "ag_sort field asc = push_stage (Sort field asc)"

definition ag_limit :: "nat \<Rightarrow> stage list \<Rightarrow> stage list" where
  "ag_limit n = push_stage (Limit n)"

definition ag_skip :: "nat \<Rightarrow> stage list \<Rightarrow> stage list" where
  "ag_skip n = push_stage (Skip n)"

definition ag_project :: "ustring list \<Rightarrow> stage list \<Rightarrow> stage list" where
  "ag_project fs = push_stage (Project fs False)"

definition ag_exclude :: "ustring list \<Rightarrow> stage list \<Rightarrow> stage list" where
  "ag_exclude fs = push_stage (Project fs True)"

definition execute_match :: "'n env \<Rightarrow> ustring \<Rightarrow> 'n json list \<Rightarrow> 'n json list res" where
  "execute_match E query docs = res_bind (parse_or_error E query) (\<lambda>ast. Ok (filter (satisfies E ast) docs))"

definition group_key :: "'n env \<Rightarrow> ustring \<Rightarrow> 'n json \<Rightarrow> ustring" where
  "group_key E field doc =
     (case json_get doc field of
        Some (JString s) \<Rightarrow> s
      | Some (JNumber n) \<Rightarrow> en_to_text E (JNumber n)
      | Some (JBool b) \<Rightarrow> us (if b then ''true'' else ''false'')
      | Some JNull \<Rightarrow> us ''null''
      | None \<Rightarrow> us ''null''
      | Some other \<Rightarrow> en_to_text E other)"

definition add_to_group :: "'n env \<Rightarrow> ustring \<Rightarrow> 'n json \<Rightarrow> (ustring, 'n json list) hmap \<Rightarrow> (ustring, 'n json list) hmap" where
  "add_to_group E field doc groups =
     (let key = group_key E field doc in
      hm_insert key ((case hm_get groups key of Some ds \<Rightarrow> ds | None \<Rightarrow> []) @ [doc]) groups)"

definition group_docs :: "'n env \<Rightarrow> ustring \<Rightarrow> 'n json list \<Rightarrow> (ustring, 'n json list) hmap" where
  "group_docs E field docs = fold (add_to_group E field) docs []"

definition number_fields :: "('n, 'f) floats \<Rightarrow> ustring \<Rightarrow> 'n json list \<Rightarrow> 'f list" where
  "number_fields F field docs =
     List.map_filter (\<lambda>doc. case json_get doc field of Some (JNumber n) \<Rightarrow> Some (fl_as_f64 F n) | _ \<Rightarrow> None) docs"

definition sum_floats :: "('n, 'f) floats \<Rightarrow> 'f list \<Rightarrow> 'f" where
  "sum_floats F xs = foldl (fl_add F) (fl_zero F) xs"

text \<open>\<open>min_by\<close> takes the first of equal elements, \<open>max_by\<close> the last.\<close>

fun least :: "('n, 'f) floats \<Rightarrow> 'f list \<Rightarrow> 'f option" where
  "least F [] = None"
| "least F (x # xs) = Some (foldl (\<lambda>a b. if fl_lt F b a then b else a) x xs)"

fun greatest :: "('n, 'f) floats \<Rightarrow> 'f list \<Rightarrow> 'f option" where
  "greatest F [] = None"
| "greatest F (x # xs) = Some (foldl (\<lambda>a b. if fl_lt F b a then a else b) x xs)"

definition json_or_null :: "('n, 'f) floats \<Rightarrow> 'f option \<Rightarrow> 'n json" where
  "json_or_null F x = (case x of Some v \<Rightarrow> fl_json F v | None \<Rightarrow> JNull)"

definition accumulate :: "('n, 'f) floats \<Rightarrow> accumulator_op \<Rightarrow> 'n json list \<Rightarrow> 'n json" where
  "accumulate F op docs =
     (case op of
        AccCount \<Rightarrow> JNumber (fl_count F (length docs))
      | AccSum field \<Rightarrow> fl_json F (sum_floats F (number_fields F field docs))
      | AccAvg field \<Rightarrow>
          (let vals = number_fields F field docs in
           if vals = [] then JNull else fl_json F (fl_div F (sum_floats F vals) (fl_of_nat F (length vals))))
      | AccMin field \<Rightarrow> json_or_null F (least F (number_fields F field docs))
      | AccMax field \<Rightarrow> json_or_null F (greatest F (number_fields F field docs)))"

definition group_result :: "('n, 'f) floats \<Rightarrow> accumulator list \<Rightarrow> ustring \<times> 'n json list \<Rightarrow> 'n json" where
  "group_result F accs g =
     JObject (fold (\<lambda>a. obj_insert (ac_output_field a) (accumulate F (ac_op a) (snd g))) accs [(ID, JString (fst g))])"

definition execute_group_by :: "'n env \<Rightarrow> ('n, 'f) floats \<Rightarrow> ustring \<Rightarrow> accumulator list \<Rightarrow> 'n json list \<Rightarrow> 'n json list" where
  "execute_group_by E F field accs docs = map (group_result F accs) (group_docs E field docs)"

definition stage_compare :: "'n env \<Rightarrow> ustring \<Rightarrow> bool \<Rightarrow> 'n json \<Rightarrow> 'n json \<Rightarrow> ordering" where
  "stage_compare E field asc a b =
     (let r = (case (json_get a field, json_get b field) of
                 (Some (JString x), Some (JString y)) \<Rightarrow> cmp x y
               | (Some (JNumber x), Some (JNumber y)) \<Rightarrow> compare_numbers (en_numbers E) x y
               | (Some (JBool x), Some (JBool y)) \<Rightarrow> cmp x y
               | (Some _, None) \<Rightarrow> Greater
               | (None, Some _) \<Rightarrow> Less
               | _ \<Rightarrow> Equal)
      in if asc then r else reverse_ordering r)"

definition execute_sort :: "'n env \<Rightarrow> ustring \<Rightarrow> bool \<Rightarrow> 'n json list \<Rightarrow> 'n json list" where
  "execute_sort E field asc docs = sort_by (stage_compare E field asc) docs"

definition project_fields :: "ustring list \<Rightarrow> bool \<Rightarrow> (ustring \<times> 'n json) list \<Rightarrow> (ustring \<times> 'n json) list" where
  "project_fields fs excl obj =
     (if excl then fold (\<lambda>(k, v) new. if k \<notin> set fs then obj_insert k v new else new) obj []
      else
        let new = fold (\<lambda>f new. case map_of obj f of Some v \<Rightarrow> obj_insert f v new | None \<Rightarrow> new) fs []
        in if ID \<notin> set fs then (case map_of obj ID of Some i \<Rightarrow> obj_insert ID i new | None \<Rightarrow> new) else new)"

definition execute_project :: "ustring list \<Rightarrow> bool \<Rightarrow> 'n json list \<Rightarrow> 'n json list" where
  "execute_project fs excl docs =
     map (\<lambda>doc. case as_object doc of Some obj \<Rightarrow> JObject (project_fields fs excl obj) | None \<Rightarrow> doc) docs"

definition execute_stage :: "'n env \<Rightarrow> ('n, 'f) floats \<Rightarrow> stage \<Rightarrow> 'n json list \<Rightarrow> 'n json list res" where
  "execute_stage E F s docs =
     (case s of
        Match query \<Rightarrow> execute_match E query docs
      | GroupBy field accs \<Rightarrow> Ok (execute_group_by E F field accs docs)
      | Sort field asc \<Rightarrow> Ok (execute_sort E field asc docs)
      | Limit n \<Rightarrow> Ok (take n docs)
      | Skip n \<Rightarrow> Ok (drop n docs)
      | Project fs excl \<Rightarrow> Ok (execute_project fs excl docs))"

fun execute_stages :: "'n env \<Rightarrow> ('n, 'f) floats \<Rightarrow> stage list \<Rightarrow> 'n json list \<Rightarrow> 'n json list res" where
  "execute_stages E F [] docs = Ok docs"
| "execute_stages E F (s # ss) docs = res_bind (execute_stage E F s docs) (execute_stages E F ss)"

definition aggregate :: "'n env \<Rightarrow> ('n, 'f) floats \<Rightarrow> string \<Rightarrow> stage list \<Rightarrow> 'n database \<Rightarrow> 'n json list res \<times> 'n database" where
  "aggregate E F name stages db =
     and_then (or_if_not_found [] (coll_find_all E name db)) (\<lambda>docs db. (execute_stages E F stages docs, db))"

subsection \<open>Grouping\<close>

definition docs_with_key :: "'n env \<Rightarrow> ustring \<Rightarrow> ustring \<Rightarrow> 'n json list \<Rightarrow> 'n json list" where
  "docs_with_key E field k docs = filter (\<lambda>d. group_key E field d = k) docs"

definition groups_ok :: "'n env \<Rightarrow> ustring \<Rightarrow> 'n json list \<Rightarrow> (ustring, 'n json list) hmap \<Rightarrow> bool" where
  "groups_ok E field docs groups \<longleftrightarrow>
     distinct (map fst groups) \<and>
     (\<forall>k. hm_get groups k = (if docs_with_key E field k docs = [] then None else Some (docs_with_key E field k docs)))"

lemma groups_ok_add: "groups_ok E field docs groups \<Longrightarrow> groups_ok E field (docs @ [d]) (add_to_group E field d groups)"
  by (auto simp: groups_ok_def add_to_group_def docs_with_key_def Let_def distinct_update)

lemma group_docs_ok: "groups_ok E field docs (group_docs E field docs)"
proof (induction docs rule: rev_induct)
  case (snoc d docs)
  then show ?case using groups_ok_add by (fastforce simp: group_docs_def)
qed (simp add: groups_ok_def group_docs_def docs_with_key_def)

lemma sum_keys:
  assumes "finite K" "group_key E field ` set docs \<subseteq> K"
  shows "(\<Sum>k \<in> K. length (docs_with_key E field k docs)) = length docs"
  using assms(2)
proof (induction docs)
  case (Cons d docs)
  have "length (docs_with_key E field k (d # docs)) = (if k = group_key E field d then 1 else 0) + length (docs_with_key E field k docs)" for k
    by (simp add: docs_with_key_def)
  then show ?case using Cons assms(1) by (simp add: sum.distrib)
qed (simp add: docs_with_key_def)

lemma group_docs_get:
  "distinct (map fst (group_docs E field docs))"
  "hm_get (group_docs E field docs) k = (if docs_with_key E field k docs = [] then None else Some (docs_with_key E field k docs))"
  using group_docs_ok [of E field docs] unfolding groups_ok_def by blast+

lemma group_member: "(k, ds) \<in> set (group_docs E field docs) \<Longrightarrow> ds = docs_with_key E field k docs"
  using group_docs_get [of E field docs] map_of_is_SomeI by (metis option.inject option.distinct(1))

lemma groups_length: "sum_list (map (length \<circ> snd) (group_docs E field docs)) = length docs"
proof -
  let ?gs = "group_docs E field docs"
  have d: "distinct (map fst ?gs)" by (rule group_docs_get(1))
  have "k \<in> fst ` set ?gs \<longleftrightarrow> docs_with_key E field k docs \<noteq> []" for k
    using group_docs_get(2) [of E field docs k] map_of_eq_None_iff [of ?gs k] by (metis option.distinct(1))
  moreover have "docs_with_key E field k docs \<noteq> [] \<longleftrightarrow> k \<in> group_key E field ` set docs" for k by (auto simp: docs_with_key_def filter_empty_conv)
  ultimately have keys: "fst ` set ?gs = group_key E field ` set docs" by blast
  have m: "map (length \<circ> snd) ?gs = map (\<lambda>k. length (docs_with_key E field k docs)) (map fst ?gs)"
    unfolding map_map by (rule map_cong) (auto dest: group_member)
  have "sum_list (map (length \<circ> snd) ?gs) = (\<Sum>k \<in> fst ` set ?gs. length (docs_with_key E field k docs))"
    unfolding m sum_list_distinct_conv_sum_set [OF d] by simp
  then show ?thesis using sum_keys [of "fst ` set ?gs" E field docs] keys by simp
qed

subsection \<open>Sorting\<close>

text \<open>A linear order that the comparison of the sort stage agrees with on values of one kind.\<close>

definition field_compare :: "'n env \<Rightarrow> ustring \<Rightarrow> bool \<Rightarrow> 'n json \<Rightarrow> 'n json \<Rightarrow> ordering" where
  "field_compare E field asc a b =
     (let r = (case (json_get a field, json_get b field) of
                 (Some x, Some y) \<Rightarrow> sort_compare E x y
               | (Some _, None) \<Rightarrow> Greater
               | (None, Some _) \<Rightarrow> Less
               | (None, None) \<Rightarrow> Equal)
      in if asc then r else reverse_ordering r)"

definition one_kind :: "ustring \<Rightarrow> 'n json list \<Rightarrow> bool" where
  "one_kind field docs \<longleftrightarrow> (\<exists>kind. kind \<in> {1, 2, 3} \<and> (\<forall>d \<in> set docs. \<forall>v. json_get d field = Some v \<longrightarrow> type_order v = kind))"

lemma field_compare_comparison:
  assumes "number_order (en_numbers E)"
  shows "comparison (field_compare E field asc)"
proof (rule comparison.intro)
  fix a b c :: "'a json"
  let ?f = "\<lambda>x y. case (x, y) of (Some x, Some y) \<Rightarrow> sort_compare E x y | (Some _, None) \<Rightarrow> Greater | (None, Some _) \<Rightarrow> Less | (None, None) \<Rightarrow> Equal"
  have f: "field_compare E field asc a b = (if asc then ?f (json_get a field) (json_get b field) else reverse_ordering (?f (json_get a field) (json_get b field)))" for a b
    by (simp add: field_compare_def)
  have s: "?f y x = reverse_ordering (?f x y)" for x y
    using sort_compare_swap [OF assms, of "the y" "the x"] by (cases x; cases y) auto
  have t: "chained (?f x y) (?f y z) (?f x z)" for x y z
    using sort_compare_chained [OF assms, of "the x" "the y" "the z"] by (cases x; cases y; cases z) (auto simp: chained_def)
  show "field_compare E field asc b a = reverse_ordering (field_compare E field asc a b)"
    using s [of "json_get b field" "json_get a field"] unfolding f by (cases asc) auto
  show "chained (field_compare E field asc a b) (field_compare E field asc b c) (field_compare E field asc a c)"
    using t chained_reverse [OF t] unfolding f by (cases asc) simp_all
qed

lemma stage_compare_agrees:
  assumes "one_kind field docs" "a \<in> set docs" "b \<in> set docs"
  shows "stage_compare E field asc a b = field_compare E field asc a b"
proof -
  obtain kind where k: "kind \<in> {1, 2, 3}" "json_get a field = Some v \<Longrightarrow> type_order v = kind" "json_get b field = Some w \<Longrightarrow> type_order w = kind" for v w
    using assms unfolding one_kind_def by blast
  show ?thesis
  proof (cases "json_get a field = None \<or> json_get b field = None")
    case True
    then show ?thesis by (auto simp: stage_compare_def field_compare_def split: option.split json.split)
  next
    case False
    then obtain v w where v: "json_get a field = Some v" "json_get b field = Some w" by auto
    then show ?thesis using k(1) k(2) [OF v(1)] k(3) [OF v(2)] by (cases v; cases w) (auto simp: stage_compare_def field_compare_def)
  qed
qed

lemma sort_by_cong:
  assumes "\<And>a b. a \<in> set xs \<Longrightarrow> b \<in> set xs \<Longrightarrow> c a b = c' a b"
  shows "sort_by c xs = sort_by c' xs"
  using assms
proof (induction xs)
  case (Cons x xs)
  have "insert_by c x ys = insert_by c' x ys" if "set ys \<subseteq> set xs" for ys
    using that Cons.prems by (induction ys) auto
  then show ?case using Cons set_sort_by [of c' xs] by (simp add: sort_by_def)
qed (simp add: sort_by_def)

subsection \<open>Properties\<close>

text \<open>
  C23: A group stage partitions the documents: there is one result for each key that occurs, its group consists of the documents with that key in their order, and the groups together have as many
  documents as the input.
\<close>

theorem group_by_partitions:
  "\<exists>groups. execute_group_by E F field accs docs = map (group_result F accs) groups \<and> groups_ok E field docs groups \<and>
    sum_list (map (length \<circ> snd) groups) = length docs"
  by (intro exI [of _ "group_docs E field docs"]) (simp add: execute_group_by_def group_docs_ok groups_length)

text \<open>
  If the values of the field are all texts, all numbers or all booleans, a sort stage yields a stable sort of the documents, those without the field first in ascending and last in descending order.
\<close>

theorem sort_stage_sorts:
  assumes "number_order (en_numbers E)" "one_kind field docs"
  shows "stable_sort_of (field_compare E field asc) docs (execute_sort E field asc docs)"
proof -
  have "execute_sort E field asc docs = sort_by (field_compare E field asc) docs"
    unfolding execute_sort_def by (rule sort_by_cong) (rule stage_compare_agrees [OF assms(2)])
  then show ?thesis using comparison.sort_by_stable [OF field_compare_comparison [OF assms(1)]] by simp
qed

text \<open>
  C39: On documents with values of several kinds the comparison of the sort stage is not an order: a text is equal to a value of another kind, which is equal to a larger text. The standard library then
  leaves the result of \<open>sort_by\<close> open and may panic.
\<close>

theorem sort_stage_not_an_order: "\<not> linear_comparison (stage_compare E field asc)"
proof
  assume l: "linear_comparison (stage_compare E field asc)"
  define d :: "'a json \<Rightarrow> 'a json" where "d v = JObject [(field, v)]" for v
  define x y z where "x = d (JString (if asc then [1] else [0]))" and "y = d JNull" and "z = d (JString (if asc then [0] else [1]))"
  have "stage_compare E field asc x y = Equal" "stage_compare E field asc y z = Equal" "stage_compare E field asc x z = Greater"
    by (simp_all add: x_def y_def z_def d_def stage_compare_def json_get_def cmp_def)
  then show False using l unfolding linear_comparison_def by (metis ordering.distinct(3,5))
qed

subsection \<open>Witnesses\<close>

definition sample_docs :: "nat json list" where
  "sample_docs = [JObject [(us ''age'', JNumber 2)], JObject [(us ''age'', JNumber 1)]]"

theorem sort_stage_sorts_witness:
  "stable_sort_of (field_compare query_env (us ''age'') True) sample_docs (rev sample_docs)"
proof -
  have n: "number_order (en_numbers query_env)" by (auto simp: number_order_def query_env_def small_numbers_def)
  have o: "one_kind (us ''age'') sample_docs" by (auto simp: one_kind_def json_get_def sample_docs_def)
  have "execute_sort query_env (us ''age'') True sample_docs = rev sample_docs"
    by (simp add: sample_docs_def execute_sort_def sort_by_def stage_compare_def json_get_def compare_numbers_def query_env_def small_numbers_def)
  then show ?thesis using sort_stage_sorts [OF n o, of True] by simp
qed

end
