(* ===== verification/Spec2Isabelle.thy ===== *)
theory Spec2Isabelle
  imports Pager Wal Document Mvcc Btree_Map Tx_Snapshot Validation Tx_Conflict Recovery
    Database Text_Search Leader Aggregation Query_Print
begin

text \<open>
  Verification of jasonisnthappy, an embedded document database: JSON documents in collections, stored in one file of
  pages of 4096 bytes, with a write-ahead log, B-trees, multi-version concurrency control and transactions that commit in groups.
  The file names are those of the repository.

  \<^bold>\<open>The program and its parts.\<close> The pager (\<open>pager.rs\<close>) owns the file; it hands out page numbers, and reads and writes pages through a
  cache (\<open>lru_cache.rs\<close>) that keeps dirty pages until they are flushed. Documents (\<open>document.rs\<close>) and the nodes of the B-trees (\<open>btree.rs\<close>) are
  pages of the pager; the tree of a collection leads from the ids of documents to their pages. A transaction (\<open>transaction.rs\<close>) starts from the roots
  in the metadata (\<open>metadata.rs\<close>), works on copies of the nodes of a tree (\<open>tx_btree.rs\<close>, \<open>tx_collection.rs\<close>) and keeps its pages in a write set. A commit
  puts the write set in a queue; the thread that becomes the leader takes a batch from the queue, checks it for conflicts with the
  version stamps of the stored documents (\<open>mvcc.rs\<close>), appends the pages to the log (\<open>wal.rs\<close>), transfers them to the pager, publishes the new roots and
  sends change events (\<open>watch.rs\<close>). Opening a database (\<open>database.rs\<close>) replays the log. Above this, collections (\<open>collection.rs\<close>) run one transaction for each
  operation, and queries (\<open>query/\<close>, \<open>query_builder.rs\<close>), pipelines (\<open>aggregation.rs\<close>), schemas (\<open>validation.rs\<close>), index keys (\<open>index_key.rs\<close>)
  and text search (\<open>text_search.rs\<close>) work on the documents they read.

  \<^bold>\<open>Conventions.\<close> A method that takes \<open>&mut self\<close> is a function from the state to a result and the next state. A result (\<open>res\<close>) is \<open>Ok\<close>, \<open>Err\<close> with a
  value of the error type of \<open>errors.rs\<close>, or \<open>Panic\<close>; \<open>and_then\<close> is the operator \<open>?\<close>. The state after a failure is the one the failing call has left.
  A struct is a record, whose selectors carry a prefix; an enum is a datatype. Integers are words of their width where arithmetic
  can wrap or a value is stored; a length that cannot reach the width is a natural number. A hash map is an association list, whose order stands for the
  unspecified order of its iteration; a map in the order of its keys is a sorted association list. A text is a \<open>string\<close> of its UTF-8 bytes in the storage, where only the bytes
  matter, and a \<open>ustring\<close> of its characters in the query language.

  \<^bold>\<open>Theories\<close>, from the bottom up:

  \<^item> \<open>Prelude\<close>: machine types, slices with bounds checks, little-endian codecs (the locale \<open>fixed_codec\<close> with its three interpretations), association lists, results.
    \<open>Outcome\<close>: \<open>constants.rs\<close>, \<open>errors.rs\<close>. \<open>Metrics\<close>: \<open>metrics.rs\<close>. \<open>Buffer_Pool\<close>: \<open>buffer_pool.rs\<close>. \<open>Storage_File\<close>: a file of the operating system as the code uses it.
  \<^item> \<open>Lru_Cache\<close>: \<open>lru_cache.rs\<close> with its links between nodes. The representation refines a list of entries in the order of their use; the locale
    \<open>page_cache\<close> is what the pager relies on.
  \<^item> \<open>Pager\<close>: \<open>pager.rs\<close>. A page that is written is read back, a flush makes it durable, closing and opening again gives the same pages; the locale \<open>page_store\<close> states
    the contract of reads and writes. \<open>Page_Steps\<close>: one step of a client, seen from outside.
  \<^item> \<open>Wal\<close>: \<open>wal.rs\<close>. The frames with their checksums, the scan of a recovery on logs that are intact, cut off or corrupted, and the table-driven CRC-32 against
    the bit-serial one.
  \<^item> \<open>Document\<close>: \<open>document.rs\<close>. Writing and reading a document with its overflow chain, and what deletion releases.
  \<^item> \<open>Mvcc\<close>: \<open>mvcc.rs\<close>. The transaction manager, the visibility of versions (the locale \<open>stamped\<close>, for the two kinds of versions) and the step relation of concurrent
    transactions, which interleaves the atomic operations of the methods.
  \<^item> \<open>Btree_Node\<close>, \<open>Btree\<close>, \<open>Btree_Model\<close>, \<open>Btree_Insert\<close>, \<open>Btree_Map\<close>: \<open>btree.rs\<close>. The page format; the operations; trees as values with their invariant;
    insertion with splits; deletion, scans, and histories of operations as a map (the locale \<open>paged_map\<close>).
  \<^item> \<open>Tx_Btree\<close>, \<open>Tx_Snapshot\<close>: \<open>tx_btree.rs\<close>. The tree of a transaction, and that it implements a map while the committed tree stays as it is.
  \<^item> \<open>Index_Key\<close>: \<open>index_key.rs\<close>. \<open>Json\<close>: JSON values above the storage. \<open>Metadata\<close>: \<open>metadata.rs\<close>. \<open>Validation\<close>: \<open>validation.rs\<close> against a declarative
    specification of schemas.
  \<^item> \<open>Query_Lexer\<close>, \<open>Query_Parser\<close>, \<open>Query_Print\<close>: \<open>query/lexer.rs\<close>, \<open>query/parser.rs\<close>. The parser returns on every text; a printed query is read back.
  \<^item> \<open>Watch\<close>: \<open>watch.rs\<close>. Which subscribers get an event.
  \<^item> \<open>Transaction\<close>, \<open>Tx_Commit\<close>, \<open>Tx_Conflict\<close>, \<open>Commit_Effect\<close>, \<open>Leader\<close>: \<open>transaction.rs\<close>. The transaction object and the group commit; its frame conditions (the locales
    \<open>frame\<close>, \<open>commit_frame\<close> and \<open>single_frame\<close>), its batches and outcomes; conflicts against the committed documents; the pages, log and roots after a commit; when a commit returns.
  \<^item> \<open>Tx_Collection\<close>: \<open>tx_collection.rs\<close>. \<open>Collection\<close>, \<open>Collection_Read\<close>: \<open>collection.rs\<close>. The operations on a collection, and that reads return the documents that
    are committed.
  \<^item> \<open>Sort_By\<close>: \<open>slice::sort_by\<close> (the locale \<open>comparison\<close>). \<open>Query_Builder\<close>: \<open>query_builder.rs\<close>. \<open>Aggregation\<close>: \<open>aggregation.rs\<close>.
  \<^item> \<open>Recovery\<close>: opening, recovery and closing in \<open>database.rs\<close>. \<open>Database\<close>: garbage collection, information, transactions that are tried again, indexes, schemas
    and backups in \<open>database.rs\<close>. \<open>Text_Search\<close>: \<open>text_search.rs\<close>.

  Each theory has its definitions under \<open>Specification\<close>, in the order of the source, and its lemmas behind them.

  \<^bold>\<open>What is shown.\<close> For the storage: reads return what was written, flushed pages survive, a crash is recovered from the
  committed frames of the log, corrupted frames are not applied. For the trees: every history of insertions and deletions has the results of a map, a scan after insertions is sorted and complete, trees in one pager do not disturb each other. For transactions: a transaction does not change the
  committed tree; the check for conflicts reports exactly the conflicts that the stamps show, which are not all; a commit leaves its pages in the log, in the pager and in the
  metadata; a caller in the queue is served, and returns once the other threads stop committing; garbage collection keeps what open snapshots see. For documents: reads of a collection
  whose leaves form a chain without an empty one are the visible documents of its map; a query returns the documents that satisfy it, sorted, cut and projected; the
  validator accepts exactly the conforming documents; groups partition the documents. Some theorems show that the code does not do
  what it intends, at a concrete state or in general: a scan that stops at an empty leaf, a leader that never returns while others commit, a recovery that hands out used pages, a deletion that is not logged, index roots that are
  not recorded, a batch that fails as a whole, metadata that outgrow their page, a comparison that is not an order.

  \<^bold>\<open>Bounds.\<close> Walks down a tree and along its leaves follow page numbers, so they take a number of steps, \<open>en_fuel\<close> in the environment; running out of it is a call that does not
  return. The theorems give the outcome \<open>Ok\<close> for every bound above the height of the tree or the number of entries of a scan, and state it as a hypothesis. The parser
  takes three steps for each token and three more, which is proved to be enough for every text. The loop of the leader has no bound in the code and takes an endless
  sequence of rounds, what the other threads queue meanwhile; its result is \<open>None\<close> when it does not end. The theorems say when it ends, and that it does not end while requests keep coming. A page number is 64 bits wide and an offset in a file is a signed 64-bit number: \<open>room\<close> says how many pages can still be
  allocated below \<open>2 ^ 51\<close>. Keys of a tree are at most 71 bytes long, so that a node with the maximal number of entries fits a page; a
  theorem shows what happens for longer ones.

  \<^bold>\<open>Concurrency.\<close> A method that holds its lock to the end is one step, and other threads appear between the steps: as arrivals in the commit queue while the leader
  waits, as rounds of the leader, as transactions and commits around the attempts of \<open>run_transaction\<close> (\<open>surroundings\<close>). The methods of the transaction
  manager use several atomic variables; they are also split into their atomic operations. Locks are never poisoned.

  \<^bold>\<open>Parameters.\<close> What is not in the repository is an argument: the JSON text codec and the order and arithmetic of JSON numbers (\<open>serde_json\<close>), \<open>f64\<close> and \<open>f32\<close>
  arithmetic, the Unicode tables, the segmentation of words, the clock, random salts, fresh ids, and the lock on a file. Where a theorem needs a law of
  one of these, such as that a text that was printed is read back, it is a hypothesis, and a witness shows an instance.

  \<^bold>\<open>Not modelled.\<close> The web server (\<open>web_server.rs\<close>) and the bindings (\<open>bindings/\<close>) convert requests and arguments and call the operations above; they depend on external crates for their input and
  output. The typed variants of the operations on collections convert through an external serialiser and call the variants on JSON values. \<open>rebase_pending_write\<close> in \<open>transaction.rs\<close> is never
  called. Not represented are the texts of most errors, the effects that a failed opening leaves on the files, failures while a
  backup is copied, and faults of the disk other than a crash or a damaged log.
\<close>

end
